(* ===== verification/Prelude.thy ===== *)
theory Prelude
  imports Complex_Main "HOL-Library.Word" "HOL-Library.List_Lexorder"
begin

text \<open>
  Shared vocabulary of the development: the exceptions of the Python sources as a datatype, the
  result type \<open>exc + 'a\<close> with its sequencing and handling operators, Python strings and
  byte strings, Python indexing, hexadecimal digits, and the generic lemmas on them that every
  component uses.
\<close>

section \<open>Exceptions and results\<close>

text \<open>
  One constructor per exception class that a modelled function raises.  The message of an
  exception is not modelled.  \<open>value_error\<close> is the Python class relation
  "is a subclass of \<open>ValueError\<close>" restricted to the classes below.
\<close>

datatype exc =
    TypeError
  | ValueError
  | IndexError
  | KeyError
  | RuntimeError
  | RecursionError
  | OverflowError
  | UnicodeEncodeError
  | UnicodeDecodeError
  | JSONDecodeError
  | NonFiniteBinary64Error
  | InvalidBinary64Operation
  | FormatError
  | EvaluationError
  | CertificateError
  | ChunkVerificationError
  | AffineGuardCertificateError
  | CampaignIOError
  | MeasuredWorkerScopeError
  | PhalaTdxWorkerScopeError
  | ShiftedBitsetError
  | ComplexDiskCertificateError
  | GoldbachBucketSieveError
  | A7BoundaryWireError
  | A7LeanCertificateError
  | PT21EventRecordError
  | FiniteCampaignError
  | EvictionPolicyError

fun value_error :: "exc \<Rightarrow> bool" where
  "value_error ValueError = True"
| "value_error UnicodeEncodeError = True"
| "value_error UnicodeDecodeError = True"
| "value_error JSONDecodeError = True"
| "value_error NonFiniteBinary64Error = True"
| "value_error InvalidBinary64Operation = True"
| "value_error FormatError = True"
| "value_error EvaluationError = True"
| "value_error CertificateError = True"
| "value_error ChunkVerificationError = True"
| "value_error AffineGuardCertificateError = True"
| "value_error CampaignIOError = True"
| "value_error MeasuredWorkerScopeError = True"
| "value_error PhalaTdxWorkerScopeError = True"
| "value_error ShiftedBitsetError = True"
| "value_error ComplexDiskCertificateError = True"
| "value_error GoldbachBucketSieveError = True"
| "value_error A7BoundaryWireError = True"
| "value_error A7LeanCertificateError = True"
| "value_error FiniteCampaignError = True"
| "value_error _ = False"

text \<open>Subclasses of \<open>ArithmeticError\<close> among the classes above.\<close>

fun arithmetic_error :: "exc \<Rightarrow> bool" where
  "arithmetic_error OverflowError = True"
| "arithmetic_error _ = False"

type_synonym 'a res = "exc + 'a"

text \<open>
  How many more nested calls the interpreter allows, when that is known: \<open>None\<close> is a stack deep enough
  for whatever is nested.  A call that nests takes one, and raises when none is left.
\<close>

type_synonym budget = "nat option"

definition enter :: "budget \<Rightarrow> budget res" where
  "enter d = (case d of None \<Rightarrow> Inr None | Some 0 \<Rightarrow> Inl RecursionError | Some (Suc n) \<Rightarrow> Inr (Some n))"

lemma enter_simps [simp]: "enter None = Inr None" "enter (Some 0) = Inl RecursionError" "enter (Some (Suc n)) = Inr (Some n)"
  by (simp_all add: enter_def)

lemma enter_Inl: "enter d = Inl e \<Longrightarrow> e = RecursionError \<and> d \<noteq> None"
  by (auto simp: enter_def split: option.splits nat.splits)

lemma enter_Inr: "enter d = Inr d' \<Longrightarrow> d' = None \<longleftrightarrow> d = None"
  by (auto simp: enter_def split: option.splits nat.splits)

text \<open>Sequencing: the rest runs only when no exception was raised.\<close>

fun ebind :: "'a res \<Rightarrow> ('a \<Rightarrow> 'b res) \<Rightarrow> 'b res" where
  "ebind (Inl e) f = Inl e"
| "ebind (Inr x) f = f x"

text \<open>\<open>try: m except (p): raise e\<close>.\<close>

fun catch_as :: "(exc \<Rightarrow> bool) \<Rightarrow> exc \<Rightarrow> 'a res \<Rightarrow> 'a res" where
  "catch_as p e (Inl x) = Inl (if p x then e else x)"
| "catch_as p e (Inr a) = Inr a"

text \<open>A list comprehension whose body may raise: the first exception wins.\<close>

fun map_res :: "('a \<Rightarrow> 'b res) \<Rightarrow> 'a list \<Rightarrow> 'b list res" where
  "map_res f [] = Inr []"
| "map_res f (x # xs) = ebind (f x) (\<lambda>y. ebind (map_res f xs) (\<lambda>ys. Inr (y # ys)))"

named_theorems res_simps \<open>equations that take results of sequenced operations apart\<close>

lemma ebind_Inr_iff [res_simps]:
  "ebind m f = Inr y \<longleftrightarrow> (\<exists>x. m = Inr x \<and> f x = Inr y)"
  by (cases m) auto

lemma ebind_Inl_iff:
  "ebind m f = Inl e \<longleftrightarrow> m = Inl e \<or> (\<exists>x. m = Inr x \<and> f x = Inl e)"
  by (cases m) auto

lemma ebind_assoc: "ebind (ebind m f) g = ebind m (\<lambda>x. ebind (f x) g)"
  by (cases m) auto

lemma ebind_Inr_right [simp]: "ebind m Inr = m"
  by (cases m) auto

lemma ebind_cong [fundef_cong]:
  "m = m' \<Longrightarrow> (\<And>x. m' = Inr x \<Longrightarrow> f x = g x) \<Longrightarrow> ebind m f = ebind m' g"
  by (cases m') auto

lemma if_Inl_eq_Inr_iff [res_simps]:
  "(if b then Inl e else m) = Inr x \<longleftrightarrow> \<not> b \<and> m = Inr x"
  "(if b then m else Inl e) = Inr x \<longleftrightarrow> b \<and> m = Inr x"
  by auto

lemma catch_as_Inr_iff [res_simps]: "catch_as p e m = Inr x \<longleftrightarrow> m = Inr x"
  by (cases m) auto

lemma catch_as_Inl_iff: "catch_as p x m = Inl e \<longleftrightarrow> (\<exists>y. m = Inl y \<and> e = (if p y then x else y))"
  by (cases m) auto

lemma map_res_Inr_iff:
  "map_res f xs = Inr ys \<longleftrightarrow> list_all2 (\<lambda>x y. f x = Inr y) xs ys"
proof (induction xs arbitrary: ys)
  case Nil
  show ?case by auto
next
  case (Cons x xs)
  then show ?case by (cases ys) (auto simp: ebind_Inr_iff)
qed

lemma map_res_length: "map_res f xs = Inr ys \<Longrightarrow> length ys = length xs"
  by (auto simp: map_res_Inr_iff list_all2_lengthD)

lemma map_res_nth: "map_res f xs = Inr ys \<Longrightarrow> i < length xs \<Longrightarrow> f (xs ! i) = Inr (ys ! i)"
  by (auto simp: map_res_Inr_iff list_all2_conv_all_nth)

lemma map_res_pure: "(\<And>x. x \<in> set xs \<Longrightarrow> f x = Inr (g x)) \<Longrightarrow> map_res f xs = Inr (map g xs)"
  by (induction xs) auto

lemma map_res_cong [fundef_cong]:
  "xs = ys \<Longrightarrow> (\<And>x. x \<in> set ys \<Longrightarrow> f x = g x) \<Longrightarrow> map_res f xs = map_res g ys"
  by (induction ys arbitrary: xs) auto

section \<open>Strings, bytes and hexadecimal digits\<close>

text \<open>
  A Python \<open>str\<close> is its list of code points and a \<open>bytes\<close> object a list of 8-bit words.
  \<open>lit\<close> reads an ASCII literal as a Python string.
\<close>

type_synonym pystr = "nat list"
type_synonym bytes = "8 word list"

definition lit :: "string \<Rightarrow> pystr" where
  "lit s = map of_char s"

definition bytes_lit :: "string \<Rightarrow> bytes" where
  "bytes_lit s = map of_char s"

text \<open>The character class \<open>[0-9a-f]\<close> of the sources' regular expressions.\<close>

definition is_hex_digit :: "nat \<Rightarrow> bool" where
  "is_hex_digit c \<longleftrightarrow> (48 \<le> c \<and> c \<le> 57) \<or> (97 \<le> c \<and> c \<le> 102)"

definition hex_digit :: "nat \<Rightarrow> nat" where
  "hex_digit d = (if d < 10 then 48 + d else 87 + d)"

definition hex_value :: "nat \<Rightarrow> nat" where
  "hex_value c = (if c < 58 then c - 48 else c - 87)"

text \<open>\<open>re.fullmatch("[0-9a-f]{n}", s)\<close>.\<close>

definition hex_string :: "nat \<Rightarrow> pystr \<Rightarrow> bool" where
  "hex_string n s \<longleftrightarrow> length s = n \<and> list_all is_hex_digit s"

text \<open>\<open>f"{x:0nx}"\<close> for a value below \<open>16^n\<close>, and \<open>int(s, 16)\<close> on a hexadecimal string.\<close>

fun to_hex :: "nat \<Rightarrow> nat \<Rightarrow> pystr" where
  "to_hex 0 x = []"
| "to_hex (Suc n) x = to_hex n (x div 16) @ [hex_digit (x mod 16)]"

definition from_hex :: "pystr \<Rightarrow> nat" where
  "from_hex s = foldl (\<lambda>acc c. 16 * acc + hex_value c) 0 s"

lemma hex_digit_class [simp]: "d < 16 \<Longrightarrow> is_hex_digit (hex_digit d)"
  by (auto simp: is_hex_digit_def hex_digit_def)

lemma hex_value_digit [simp]: "d < 16 \<Longrightarrow> hex_value (hex_digit d) = d"
  by (auto simp: hex_value_def hex_digit_def)

lemma hex_digit_value [simp]: "is_hex_digit c \<Longrightarrow> hex_digit (hex_value c) = c"
  by (auto simp: hex_value_def hex_digit_def is_hex_digit_def)

lemma hex_value_less: "is_hex_digit c \<Longrightarrow> hex_value c < 16"
  by (auto simp: hex_value_def is_hex_digit_def)

lemma length_to_hex [simp]: "length (to_hex n x) = n"
  by (induction n arbitrary: x) auto

lemma to_hex_hex_string [simp]: "hex_string n (to_hex n x)"
  by (induction n arbitrary: x) (auto simp: hex_string_def)

lemma from_hex_append: "from_hex (s @ [c]) = 16 * from_hex s + hex_value c"
  by (simp add: from_hex_def)

lemma from_hex_to_hex: "from_hex (to_hex n x) = x mod 16 ^ n"
proof (induction n arbitrary: x)
  case 0
  show ?case by (simp add: from_hex_def)
next
  case (Suc n)
  have "16 * (x div 16 mod 16 ^ n) + x mod 16 = x mod (16 * 16 ^ n)"
    by (simp add: mod_mult2_eq)
  then show ?case by (simp add: from_hex_append Suc.IH)
qed

lemma from_hex_less: "list_all is_hex_digit s \<Longrightarrow> from_hex s < 16 ^ length s"
proof (induction s rule: rev_induct)
  case Nil
  show ?case by (simp add: from_hex_def)
next
  case (snoc c s)
  then have "from_hex s < 16 ^ length s" and "hex_value c < 16"
    by (auto intro: hex_value_less)
  then show ?case by (simp add: from_hex_append)
qed

lemma to_hex_from_hex: "hex_string n s \<Longrightarrow> to_hex n (from_hex s) = s"
proof (induction n arbitrary: s)
  case 0
  then show ?case by (simp add: hex_string_def)
next
  case (Suc n)
  then obtain t c where s: "s = t @ [c]" and t: "hex_string n t" and c: "is_hex_digit c"
    by (cases s rule: rev_cases) (auto simp: hex_string_def)
  show ?case using Suc.IH [OF t] c hex_value_less [OF c]
    by (simp add: s from_hex_append)
qed

section \<open>Sequences\<close>

text \<open>Python's \<open>xs[i]\<close>: a negative index counts from the end, an index out of range raises.\<close>

definition py_index :: "'a list \<Rightarrow> int \<Rightarrow> 'a res" where
  "py_index xs i =
     (if 0 \<le> i then if i < int (length xs) then Inr (xs ! nat i) else Inl IndexError
      else if - i \<le> int (length xs) then Inr (rev xs ! nat (- i - 1)) else Inl IndexError)"

lemma py_index_nat [simp]: "py_index xs (int i) = (if i < length xs then Inr (xs ! i) else Inl IndexError)"
  by (simp add: py_index_def)

section \<open>Integer division\<close>

lemma int_div_eq_iff:
  assumes "0 < (K::int)"
  shows "m div K = q \<longleftrightarrow> q * K \<le> m \<and> m < q * K + K"
proof
  assume "m div K = q"
  then have "m = q * K + m mod K" by (metis div_mult_mod_eq)
  moreover have "0 \<le> m mod K" "m mod K < K" using assms by auto
  ultimately show "q * K \<le> m \<and> m < q * K + K" by linarith
next
  assume "q * K \<le> m \<and> m < q * K + K"
  then show "m div K = q"
    by (intro int_div_pos_eq [where r = "m - q * K"]) (auto simp: algebra_simps)
qed

lemma int_mod_eq_diff: "m div K = q \<Longrightarrow> m mod K = m - q * (K::int)"
  by (metis minus_div_mult_eq_mod)

section \<open>Bit masks on Python integers\<close>

unbundle bit_operations_syntax

lemma int_and_mask: "(b::int) AND mask n = b mod 2 ^ n"
  by (simp flip: take_bit_eq_mask take_bit_eq_mod)

lemma int_and_not_exp:
  assumes "\<And>k. bit (b::int) k \<Longrightarrow> k \<le> n"
  shows "b AND NOT (2 ^ n) = b mod 2 ^ n"
proof -
  have "b AND NOT (2 ^ n) = take_bit n b"
  proof (rule bit_eqI)
    fix k
    show "bit (b AND NOT (2 ^ n)) k = bit (take_bit n b) k"
      using assms [of k] by (auto simp: bit_and_iff bit_not_iff bit_take_bit_iff bit_exp_iff)
  qed
  then show ?thesis by (simp add: take_bit_eq_mod)
qed

lemma int_xor_exp_set:
  assumes "bit (b::int) n"
  shows "b XOR 2 ^ n = b AND NOT (2 ^ n)"
proof (rule bit_eqI)
  fix k
  show "bit (b XOR 2 ^ n) k = bit (b AND NOT (2 ^ n)) k"
    using assms by (auto simp: bit_and_iff bit_not_iff bit_xor_iff bit_exp_iff)
qed

lemma int_xor_exp_unset:
  assumes "\<not> bit (b::int) n"
  shows "b XOR 2 ^ n = b + 2 ^ n"
proof -
  have "b XOR 2 ^ n = b OR 2 ^ n"
  proof (rule bit_eqI)
    fix k
    show "bit (b XOR 2 ^ n) k = bit (b OR 2 ^ n) k"
      using assms by (auto simp: bit_or_iff bit_xor_iff bit_exp_iff)
  qed
  also have "\<dots> = b + 2 ^ n"
    using assms by (intro disjunctive_add [symmetric]) (auto simp: bit_exp_iff)
  finally show ?thesis .
qed

end
