(* ===== verification/Binary64.thy ===== *)
theory Binary64
  imports Prelude
begin

unbundle bit_operations_syntax

text \<open>
  Model of \<open>reference/exact_binary64.py\<close>, first part: raw binary64 words as Python integers,
  their classification and exact decoding (\<open>classify\<close>, \<open>decode_finite\<close>), the searches for the
  greatest encoding below and the least encoding above a rational, the three rounding functions
  and the neighbours of a word.  A Python \<open>Fraction\<close> is a \<open>rat\<close>; every \<open>raise\<close> is an \<open>Inl\<close>.

  The lemmas read a word arithmetically (\<open>expo\<close>, \<open>frac\<close>, \<open>neg\<close>, \<open>b64val\<close>), show that decoding is
  strictly monotone on nonnegative encodings, and that the binary searches compute the floor and
  the ceiling of a rational among them.
\<close>

section \<open>Constants and classes\<close>

definition WORD_LIMIT :: int where "WORD_LIMIT = 0x10000000000000000"
definition SIGN_MASK :: int where "SIGN_MASK = 0x8000000000000000"
definition FRACTION_MASK :: int where "FRACTION_MASK = 0xFFFFFFFFFFFFF"
definition EXPONENT_MASK :: int where "EXPONENT_MASK = 0x7FF"
definition POSITIVE_ZERO :: int where "POSITIVE_ZERO = 0"
definition NEGATIVE_ZERO :: int where "NEGATIVE_ZERO = 0x8000000000000000"
definition MIN_POSITIVE_SUBNORMAL :: int where "MIN_POSITIVE_SUBNORMAL = 1"
definition MAX_FINITE :: int where "MAX_FINITE = 0x7FEFFFFFFFFFFFFF"
definition MIN_FINITE :: int where "MIN_FINITE = 0xFFEFFFFFFFFFFFFF"
definition POSITIVE_INFINITY :: int where "POSITIVE_INFINITY = 0x7FF0000000000000"
definition NEGATIVE_INFINITY :: int where "NEGATIVE_INFINITY = 0xFFF0000000000000"

lemmas b64_const =
  WORD_LIMIT_def SIGN_MASK_def FRACTION_MASK_def EXPONENT_MASK_def POSITIVE_ZERO_def
  NEGATIVE_ZERO_def MIN_POSITIVE_SUBNORMAL_def MAX_FINITE_def MIN_FINITE_def
  POSITIVE_INFINITY_def NEGATIVE_INFINITY_def

datatype binary64_class =
    PosZero | NegZero | PosSubnormal | NegSubnormal | PosNormal | NegNormal
  | PosInfinity | NegInfinity | NaN

definition validate_bits :: "int \<Rightarrow> int res" where
  "validate_bits bits = (if bits < 0 \<or> bits \<ge> WORD_LIMIT then Inl ValueError else Inr bits)"

definition sign_bit :: "int \<Rightarrow> int res" where
  "sign_bit bits = ebind (validate_bits bits) (\<lambda>b. Inr (if b AND SIGN_MASK \<noteq> 0 then 1 else 0))"

definition classify :: "int \<Rightarrow> binary64_class res" where
  "classify bits = ebind (validate_bits bits) (\<lambda>b.
     let negative = (b AND SIGN_MASK \<noteq> 0);
         exponent = drop_bit 52 b AND EXPONENT_MASK;
         fraction = b AND FRACTION_MASK
     in if exponent = 0 then
          (if fraction = 0 then Inr (if negative then NegZero else PosZero)
           else Inr (if negative then NegSubnormal else PosSubnormal))
        else if exponent = EXPONENT_MASK then
          (if fraction \<noteq> 0 then Inr NaN
           else Inr (if negative then NegInfinity else PosInfinity))
        else Inr (if negative then NegNormal else PosNormal))"

definition is_finite :: "int \<Rightarrow> bool res" where
  "is_finite bits = ebind (validate_bits bits) (\<lambda>b.
     Inr (drop_bit 52 b AND EXPONENT_MASK \<noteq> EXPONENT_MASK))"

definition is_nan :: "int \<Rightarrow> bool res" where
  "is_nan bits = ebind (classify bits) (\<lambda>c. Inr (c = NaN))"

definition is_infinite :: "int \<Rightarrow> bool res" where
  "is_infinite bits = ebind (classify bits) (\<lambda>c. Inr (c = PosInfinity \<or> c = NegInfinity))"

definition is_zero :: "int \<Rightarrow> bool res" where
  "is_zero bits = ebind (validate_bits bits) (\<lambda>b. Inr (b AND NOT SIGN_MASK = 0))"

section \<open>Exact decoding\<close>

definition positive_finite_value :: "int \<Rightarrow> rat" where
  "positive_finite_value bits =
     (let exponent = drop_bit 52 bits AND EXPONENT_MASK;
          fraction = bits AND FRACTION_MASK
      in if exponent = 0 then of_int fraction / of_int (push_bit 1074 1)
         else let significand = push_bit 52 1 + fraction;
                  power = exponent - 1023 - 52
              in if power \<ge> 0 then of_int (push_bit (nat power) significand)
                 else of_int significand / of_int (push_bit (nat (- power)) 1))"

definition decode_finite :: "int \<Rightarrow> rat res" where
  "decode_finite bits = ebind (validate_bits bits) (\<lambda>b.
     ebind (is_finite b) (\<lambda>fin.
       if \<not> fin then Inl NonFiniteBinary64Error
       else let magnitude = positive_finite_value (b AND NOT SIGN_MASK)
            in Inr (if b AND SIGN_MASK \<noteq> 0 then - magnitude else magnitude)))"

definition MAX_FINITE_VALUE :: rat where
  "MAX_FINITE_VALUE = positive_finite_value MAX_FINITE"

definition RNE_OVERFLOW_THRESHOLD :: rat where
  "RNE_OVERFLOW_THRESHOLD = MAX_FINITE_VALUE + of_int (push_bit 970 1)"

section \<open>Rounding\<close>

text \<open>
  The two binary searches of \<open>_positive_floor\<close> and \<open>_positive_ceil\<close>: one \<open>while low <= high\<close> loop
  each, over the predicate that the loop body tests.
\<close>

function floor_search :: "(int \<Rightarrow> bool) \<Rightarrow> int \<Rightarrow> int \<Rightarrow> int \<Rightarrow> int" where
  "floor_search fits low high answer =
     (if low \<le> high then
        let middle = (low + high) div 2
        in if fits middle then floor_search fits (middle + 1) high middle
           else floor_search fits low (middle - 1) answer
      else answer)"
  by pat_completeness auto
termination
  by (relation "measure (\<lambda>(_, low, high, _). nat (high - low + 1))") auto

function ceil_search :: "(int \<Rightarrow> bool) \<Rightarrow> int \<Rightarrow> int \<Rightarrow> int \<Rightarrow> int" where
  "ceil_search covers low high answer =
     (if low \<le> high then
        let middle = (low + high) div 2
        in if covers middle then ceil_search covers low (middle - 1) middle
           else ceil_search covers (middle + 1) high answer
      else answer)"
  by pat_completeness auto
termination
  by (relation "measure (\<lambda>(_, low, high, _). nat (high - low + 1))") auto

declare floor_search.simps [simp del] ceil_search.simps [simp del]

definition positive_floor :: "rat \<Rightarrow> int res" where
  "positive_floor value =
     (if value < 0 then Inl ValueError
      else if value \<ge> MAX_FINITE_VALUE then Inr MAX_FINITE
      else Inr (floor_search (\<lambda>m. positive_finite_value m \<le> value)
                  POSITIVE_ZERO MAX_FINITE POSITIVE_ZERO))"

definition positive_ceil :: "rat \<Rightarrow> int res" where
  "positive_ceil value =
     (if value < 0 then Inl ValueError
      else if value > MAX_FINITE_VALUE then Inr POSITIVE_INFINITY
      else Inr (ceil_search (\<lambda>m. positive_finite_value m \<ge> value)
                  POSITIVE_ZERO MAX_FINITE MAX_FINITE))"

definition negate_non_nan_bits :: "int \<Rightarrow> int res" where
  "negate_non_nan_bits bits = ebind (validate_bits bits) (\<lambda>b.
     ebind (is_nan b) (\<lambda>n. if n then Inl ValueError else Inr (b XOR SIGN_MASK)))"

definition round_down :: "rat \<Rightarrow> int res" where
  "round_down value =
     (if value = 0 then Inr NEGATIVE_ZERO
      else if value > 0 then positive_floor value
      else ebind (positive_ceil (- value)) negate_non_nan_bits)"

definition round_up :: "rat \<Rightarrow> int res" where
  "round_up value =
     (if value = 0 then Inr POSITIVE_ZERO
      else if value > 0 then positive_ceil value
      else ebind (positive_floor (- value)) negate_non_nan_bits)"

definition round_positive_nearest_even :: "rat \<Rightarrow> int res" where
  "round_positive_nearest_even value =
     (if value \<ge> RNE_OVERFLOW_THRESHOLD then Inr POSITIVE_INFINITY
      else if value > MAX_FINITE_VALUE then Inr MAX_FINITE
      else ebind (positive_floor value) (\<lambda>lower.
        let lower_value = positive_finite_value lower
        in if lower_value = value then Inr lower
           else ebind (positive_ceil value) (\<lambda>upper.
             let upper_value = positive_finite_value upper;
                 lower_distance = value - lower_value;
                 upper_distance = upper_value - value
             in if lower_distance < upper_distance then Inr lower
                else if upper_distance < lower_distance then Inr upper
                else Inr (if lower AND 1 = 0 then lower else upper))))"

definition round_nearest_even :: "rat \<Rightarrow> int res" where
  "round_nearest_even value =
     (if value = 0 then Inr POSITIVE_ZERO
      else if value > 0 then round_positive_nearest_even value
      else ebind (round_positive_nearest_even (- value)) negate_non_nan_bits)"

definition next_up_bits :: "int \<Rightarrow> int res" where
  "next_up_bits bits = ebind (validate_bits bits) (\<lambda>b. ebind (is_nan b) (\<lambda>n.
     if n then Inl NonFiniteBinary64Error
     else if b = POSITIVE_INFINITY then Inr POSITIVE_INFINITY
     else if b = NEGATIVE_INFINITY then Inr MIN_FINITE
     else ebind (is_zero b) (\<lambda>z.
       if z then Inr MIN_POSITIVE_SUBNORMAL
       else Inr (if b AND SIGN_MASK \<noteq> 0 then b - 1 else b + 1))))"

definition next_down_bits :: "int \<Rightarrow> int res" where
  "next_down_bits bits = ebind (validate_bits bits) (\<lambda>b. ebind (is_nan b) (\<lambda>n.
     if n then Inl NonFiniteBinary64Error
     else if b = NEGATIVE_INFINITY then Inr NEGATIVE_INFINITY
     else if b = POSITIVE_INFINITY then Inr MAX_FINITE
     else ebind (is_zero b) (\<lambda>z.
       if z then Inr (SIGN_MASK OR MIN_POSITIVE_SUBNORMAL)
       else Inr (if b AND SIGN_MASK \<noteq> 0 then b + 1 else b - 1))))"

section \<open>Reading a word arithmetically\<close>

definition word64 :: "int \<Rightarrow> bool" where
  "word64 b \<longleftrightarrow> 0 \<le> b \<and> b < WORD_LIMIT"

definition neg :: "int \<Rightarrow> bool" where
  "neg b \<longleftrightarrow> SIGN_MASK \<le> b"

definition mag :: "int \<Rightarrow> int" where
  "mag b = b mod SIGN_MASK"

definition nan :: "int \<Rightarrow> bool" where
  "nan b \<longleftrightarrow> POSITIVE_INFINITY < mag b"

definition fin :: "int \<Rightarrow> bool" where
  "fin b \<longleftrightarrow> mag b < POSITIVE_INFINITY"

text \<open>The value of a nonnegative encoding in units of the least subnormal.\<close>

definition scaled_by :: "int \<Rightarrow> int \<Rightarrow> int" where
  "scaled_by K m = (if m < K then m else (K + m mod K) * 2 ^ nat (m div K - 1))"

definition b64val :: "int \<Rightarrow> rat" where
  "b64val b = (if neg b then - positive_finite_value (mag b) else positive_finite_value (mag b))"

lemma FRACTION_MASK_mask: "FRACTION_MASK = mask 52"
  by (simp add: FRACTION_MASK_def mask_eq_exp_minus_1)

lemma EXPONENT_MASK_mask: "EXPONENT_MASK = mask 11"
  by (simp add: EXPONENT_MASK_def mask_eq_exp_minus_1)

text \<open>\<open>2^52\<close> and \<open>2^11\<close> as constants, so that the fields stay symbolic in the proofs.\<close>

definition FU :: int where "FU = 0x10000000000000"
definition EU :: int where "EU = 0x800"

lemma FU_pos [simp]: "0 < FU" and EU_pos [simp]: "0 < EU" and FU_EU: "FU * EU = SIGN_MASK"
  and FU_exp: "FU = 2 ^ 52" and EU_exp: "EU = 2 ^ 11"
  and FU_infinity: "EXPONENT_MASK * FU = POSITIVE_INFINITY" "SIGN_MASK = POSITIVE_INFINITY + FU"
  by (simp_all add: FU_def EU_def b64_const)

lemma and_FRACTION_MASK: "b AND FRACTION_MASK = b mod FU"
  unfolding FRACTION_MASK_mask FU_exp by (rule int_and_mask)

lemma and_EXPONENT_MASK: "drop_bit 52 b AND EXPONENT_MASK = (b div FU) mod EU"
  unfolding EXPONENT_MASK_mask drop_bit_eq_div FU_exp EU_exp by (rule int_and_mask)

lemma word64_take_bit: "word64 b \<Longrightarrow> take_bit 64 b = b"
  by (simp add: word64_def WORD_LIMIT_def take_bit_int_eq_self_iff)

lemma SIGN_MASK_exp: "SIGN_MASK = 2 ^ 63"
  by (simp add: SIGN_MASK_def)

lemma word64_bit_less: "word64 b \<Longrightarrow> bit b n \<Longrightarrow> n < 64"
  using word64_take_bit [of b] by (metis bit_take_bit_iff)

lemma word64_sign_bit:
  assumes "word64 b"
  shows "bit b 63 \<longleftrightarrow> neg b"
proof (cases "neg b")
  case True
  with assms have "b div 2 ^ 63 = 1"
    by (intro int_div_pos_eq [where r = "b - 2 ^ 63"])
      (auto simp: word64_def neg_def WORD_LIMIT_def SIGN_MASK_def)
  with True show ?thesis by (simp add: bit_iff_odd)
next
  case False
  with assms have "b div 2 ^ 63 = 0"
    by (intro div_pos_pos_trivial) (auto simp: word64_def neg_def SIGN_MASK_def)
  with False show ?thesis by (simp add: bit_iff_odd)
qed

lemma and_SIGN_MASK: "word64 b \<Longrightarrow> b AND SIGN_MASK = 0 \<longleftrightarrow> \<not> neg b"
  by (simp only: SIGN_MASK_exp and_exp_eq_0_iff_not_bit word64_sign_bit)

lemma and_not_SIGN_MASK: "word64 b \<Longrightarrow> b AND NOT SIGN_MASK = mag b"
  unfolding SIGN_MASK_exp mag_def
  by (rule int_and_not_exp) (use word64_bit_less in fastforce)

lemma mag_cases: "word64 b \<Longrightarrow> mag b = (if neg b then b - SIGN_MASK else b)"
  by (auto simp: mag_def neg_def word64_def b64_const intro: mod_pos_pos_trivial
      intro!: int_mod_pos_eq [where q = 1])

lemma xor_SIGN_MASK:
  assumes "word64 b"
  shows "b XOR SIGN_MASK = (if neg b then b - SIGN_MASK else b + SIGN_MASK)"
proof (cases "neg b")
  case True
  then have "b XOR SIGN_MASK = b AND NOT SIGN_MASK"
    unfolding SIGN_MASK_exp using word64_sign_bit [OF assms] by (intro int_xor_exp_set) simp
  with True assms show ?thesis by (simp add: and_not_SIGN_MASK mag_cases)
next
  case False
  then have "b XOR SIGN_MASK = b + SIGN_MASK"
    unfolding SIGN_MASK_exp using word64_sign_bit [OF assms] by (intro int_xor_exp_unset) simp
  with False show ?thesis by simp
qed

lemma word64_mag: "word64 b \<Longrightarrow> 0 \<le> mag b \<and> mag b < SIGN_MASK"
  by (simp add: mag_def SIGN_MASK_def)

lemma word64_of_mag: "0 \<le> m \<Longrightarrow> m < SIGN_MASK \<Longrightarrow> word64 m \<and> mag m = m \<and> \<not> neg m"
  by (auto simp: word64_def mag_def neg_def b64_const)

lemma mag_exponent: "(b div FU) mod EU = mag b div FU"
proof -
  have "mag b = b mod (FU * EU)"
    by (simp only: mag_def FU_EU)
  also have "\<dots> = FU * (b div FU mod EU) + b mod FU"
    by (rule zmod_zmult2_eq) (rule less_imp_le [OF EU_pos])
  finally have "mag b = FU * (b div FU mod EU) + b mod FU" .
  moreover have "0 \<le> b mod FU" "b mod FU < FU" by simp_all
  ultimately have "mag b div FU = b div FU mod EU"
    by (simp only: int_div_eq_iff [OF FU_pos]) (simp add: mult.commute)
  then show ?thesis by (rule sym)
qed

lemma mag_fraction: "b mod FU = mag b mod FU"
proof -
  have "b mod SIGN_MASK mod FU = b mod FU"
    by (rule mod_mod_cancel) (simp only: FU_EU [symmetric] dvd_triv_left)
  then show ?thesis by (simp only: mag_def)
qed

lemma expo_mag: "drop_bit 52 b AND EXPONENT_MASK = mag b div FU"
  by (simp only: and_EXPONENT_MASK mag_exponent)

lemma frac_mag: "b AND FRACTION_MASK = mag b mod FU"
  by (rule trans [OF and_FRACTION_MASK mag_fraction])

text \<open>The exponent and fraction fields of a magnitude, as ranges of the magnitude.\<close>

lemma mag_fields:
  assumes "0 \<le> m" "m < SIGN_MASK"
  shows "m div FU = 0 \<longleftrightarrow> m < FU"
    and "m div FU = 0 \<Longrightarrow> m mod FU = m"
    and "m div FU = EXPONENT_MASK \<longleftrightarrow> POSITIVE_INFINITY \<le> m"
    and "m div FU = EXPONENT_MASK \<Longrightarrow> m mod FU = m - POSITIVE_INFINITY"
proof -
  show "m div FU = 0 \<longleftrightarrow> m < FU"
    using assms by (simp add: int_div_eq_iff [OF FU_pos])
  show "m div FU = 0 \<Longrightarrow> m mod FU = m"
    by (drule int_mod_eq_diff) simp
  show "m div FU = EXPONENT_MASK \<longleftrightarrow> POSITIVE_INFINITY \<le> m"
    using assms by (simp add: int_div_eq_iff [OF FU_pos] FU_infinity)
  show "m div FU = EXPONENT_MASK \<Longrightarrow> m mod FU = m - POSITIVE_INFINITY"
    by (drule int_mod_eq_diff) (simp add: FU_infinity)
qed

lemma fin_iff: "word64 b \<Longrightarrow> fin b \<longleftrightarrow> mag b div FU \<noteq> EXPONENT_MASK"
  using word64_mag [of b] mag_fields(3) [of "mag b"] by (auto simp: fin_def)

lemma validate_bits_word [simp]: "word64 b \<Longrightarrow> validate_bits b = Inr b"
  by (simp add: validate_bits_def word64_def)

lemma validate_bits_Inr_iff: "validate_bits b = Inr c \<longleftrightarrow> word64 b \<and> c = b"
  by (auto simp: validate_bits_def word64_def)

lemma sign_bit_word [simp]: "word64 b \<Longrightarrow> sign_bit b = Inr (if neg b then 1 else 0)"
  by (simp add: sign_bit_def and_SIGN_MASK)

lemma is_finite_word [simp]: "word64 b \<Longrightarrow> is_finite b = Inr (fin b)"
  by (simp only: is_finite_def validate_bits_word ebind.simps expo_mag fin_iff)

lemma is_zero_word [simp]: "word64 b \<Longrightarrow> is_zero b = Inr (mag b = 0)"
  by (simp add: is_zero_def and_not_SIGN_MASK)

text \<open>The classification by magnitude: the nine classes are the nine ranges of a word.\<close>

lemma classify_word:
  assumes "word64 b"
  shows "classify b = Inr
    (if mag b = 0 then (if neg b then NegZero else PosZero)
     else if mag b < FU then (if neg b then NegSubnormal else PosSubnormal)
     else if mag b < POSITIVE_INFINITY then (if neg b then NegNormal else PosNormal)
     else if mag b = POSITIVE_INFINITY then (if neg b then NegInfinity else PosInfinity)
     else NaN)"
proof -
  from word64_mag [OF assms] have m: "0 \<le> mag b" "mag b < SIGN_MASK"
    by simp_all
  note f = mag_fields [OF m]
  have "FU \<le> POSITIVE_INFINITY" "EXPONENT_MASK \<noteq> 0" by (simp_all add: FU_def b64_const)
  then show ?thesis using assms m f(1,3) f(2) f(4)
    by (simp only: classify_def validate_bits_word ebind.simps Let_def expo_mag frac_mag
        and_SIGN_MASK if_distrib [of Inr]) auto
qed

lemma is_nan_word [simp]: "word64 b \<Longrightarrow> is_nan b = Inr (nan b)"
  using word64_mag [of b] by (auto simp: is_nan_def classify_word nan_def FU_def POSITIVE_INFINITY_def)

lemma is_infinite_word [simp]: "word64 b \<Longrightarrow> is_infinite b = Inr (mag b = POSITIVE_INFINITY)"
  by (auto simp: is_infinite_def classify_word FU_def b64_const)

lemma decode_finite_word [simp]:
  "word64 b \<Longrightarrow> decode_finite b = (if fin b then Inr (b64val b) else Inl NonFiniteBinary64Error)"
  by (simp add: decode_finite_def and_SIGN_MASK and_not_SIGN_MASK b64val_def)

definition flip :: "int \<Rightarrow> int" where
  "flip b = (if neg b then b - SIGN_MASK else b + SIGN_MASK)"

lemma negate_word [simp]:
  "word64 b \<Longrightarrow> negate_non_nan_bits b = (if nan b then Inl ValueError else Inr (flip b))"
  by (simp add: negate_non_nan_bits_def xor_SIGN_MASK flip_def)

lemma flip_word: "word64 b \<Longrightarrow> word64 (flip b) \<and> mag (flip b) = mag b \<and> (neg (flip b) \<longleftrightarrow> \<not> neg b)"
  by (auto simp: flip_def word64_def neg_def mag_def b64_const)

lemma flip_simps [simp]:
  assumes "word64 b"
  shows "word64 (flip b)" "mag (flip b) = mag b" "neg (flip b) \<longleftrightarrow> \<not> neg b"
    "fin (flip b) = fin b" "nan (flip b) = nan b" "b64val (flip b) = - b64val b" "flip (flip b) = b"
  using flip_word [OF assms] by (auto simp: fin_def nan_def b64val_def flip_def)

end
