(* ===== verification/Rounding.thy ===== *)
theory Rounding
  imports Binary64
begin

text \<open>
  Correctness of the decoding and rounding functions of \<open>reference/exact_binary64.py\<close>.  The value
  of a nonnegative finite encoding \<open>m\<close> is \<open>scaled_by FU m\<close> units of \<open>2^-1074\<close>, strictly monotone in
  \<open>m\<close>; so the binary searches (locale \<open>bisection\<close>) find the floor and the ceiling, and the three
  rounding functions satisfy the IEEE specifications \<open>rounds_down\<close>, \<open>rounds_up\<close>, \<open>rounds_nearest\<close>.
\<close>

section \<open>The value of an encoding in units of the least subnormal\<close>

definition UNIT :: rat where "UNIT = 2 ^ 1074"

lemma UNIT_pos [simp]: "0 < UNIT"
  by (simp add: UNIT_def)

lemma divide_split: "p = q + r \<Longrightarrow> (s::rat) / 2 ^ r = s * 2 ^ q / 2 ^ p"
  by (simp add: power_add field_simps)

lemma mult_split: "q = r + p \<Longrightarrow> (s::rat) * 2 ^ r = s * 2 ^ q / 2 ^ p"
  by (simp add: power_add field_simps)

lemma field_of_magnitude:
  assumes "0 \<le> m" "m < SIGN_MASK"
  shows "drop_bit 52 m AND EXPONENT_MASK = m div FU" "m AND FRACTION_MASK = m mod FU"
  using word64_of_mag [OF assms] by (auto simp: expo_mag frac_mag)

lemma positive_finite_value_scaled:
  assumes m: "0 \<le> m" "m < SIGN_MASK"
  shows "positive_finite_value m = of_int (scaled_by FU m) / UNIT"
proof -
  let ?q = "m div FU" and ?s = "FU + m mod FU"
  have q: "0 \<le> ?q" using m by (simp add: pos_imp_zdiv_nonneg_iff)
  consider (sub) "?q = 0" | (small) "1 \<le> ?q" "?q - 1023 - 52 < 0" | (big) "0 \<le> ?q - 1023 - 52"
    using q by linarith
  then show ?thesis
  proof cases
    case sub
    then have "m < FU" "m mod FU = m" using mag_fields [OF m] by auto
    with sub show ?thesis
      by (simp add: positive_finite_value_def field_of_magnitude [OF m] scaled_by_def UNIT_def
          push_bit_eq_mult del: power_numeral)
  next
    case small
    then have "\<not> m < FU" using mag_fields [OF m] by auto
    moreover have "(1074::nat) = nat (?q - 1) + nat (- (?q - 1023 - 52))"
      using small by linarith
    then have "(of_int ?s :: rat) / 2 ^ nat (- (?q - 1023 - 52)) = of_int ?s * 2 ^ nat (?q - 1) / UNIT"
      unfolding UNIT_def by (rule divide_split)
    ultimately show ?thesis using small
      by (simp add: positive_finite_value_def field_of_magnitude [OF m] scaled_by_def FU_exp
          push_bit_eq_mult Let_def del: power_numeral)
  next
    case big
    then have "\<not> m < FU" using mag_fields [OF m] by auto
    moreover have "nat (?q - 1) = nat (?q - 1023 - 52) + (1074::nat)"
      using big by linarith
    then have "(of_int ?s :: rat) * 2 ^ nat (?q - 1023 - 52) = of_int ?s * 2 ^ nat (?q - 1) / UNIT"
      unfolding UNIT_def by (rule mult_split)
    ultimately show ?thesis using big
      by (simp add: positive_finite_value_def field_of_magnitude [OF m] scaled_by_def FU_exp
          push_bit_eq_mult Let_def del: power_numeral)
  qed
qed

text \<open>The binade bounds, for any significand width \<open>K\<close>, and strict monotonicity.\<close>

lemma scaled_by_bounds:
  assumes "0 < (K::int)" "0 \<le> m"
  shows "scaled_by K m < K * 2 ^ nat (m div K)"
    and "K \<le> m \<Longrightarrow> K * 2 ^ nat (m div K - 1) \<le> scaled_by K m"
proof -
  show "K * 2 ^ nat (m div K - 1) \<le> scaled_by K m" if "K \<le> m"
    using that assms by (simp add: scaled_by_def mult_right_mono)
  show "scaled_by K m < K * 2 ^ nat (m div K)"
  proof (cases "m < K")
    case True
    then show ?thesis using assms by (simp add: scaled_by_def div_pos_pos_trivial)
  next
    case False
    then have "1 \<le> m div K" using assms
      by (simp add: int_one_le_iff_zero_less pos_imp_zdiv_pos_iff)
    then have "nat (m div K) = Suc (nat (m div K - 1))" by linarith
    moreover have "(K + m mod K) * 2 ^ n < (2 * K) * 2 ^ n" for n :: nat
      using assms by (intro mult_strict_right_mono) (auto simp: pos_mod_bound)
    ultimately show ?thesis using False
      by (simp add: scaled_by_def mult.assoc mult.left_commute)
  qed
qed

lemma scaled_by_mono:
  assumes K: "0 < (K::int)" and m: "0 \<le> m" "m < n"
  shows "scaled_by K m < scaled_by K n"
proof (cases "m div K = n div K")
  case True
  then have "m mod K < n mod K"
    using m by (metis add_less_cancel_left div_mult_mod_eq)
  moreover have "m < K \<longleftrightarrow> n < K"
    using True K m by (metis div_pos_pos_trivial int_div_eq_iff mult_zero_left add_0 order.trans less_imp_le)
  ultimately show ?thesis
    using True m by (auto simp: scaled_by_def)
next
  case False
  moreover have "m div K \<le> n div K" using m K by (simp add: zdiv_mono1)
  ultimately have lt: "m div K < n div K" by simp
  have "0 \<le> m div K" using m K by (simp add: pos_imp_zdiv_nonneg_iff)
  then have "K \<le> n" using lt K m by (metis div_pos_pos_trivial less_le_trans linorder_not_le order.trans less_imp_le leD)
  have "scaled_by K m < K * 2 ^ nat (m div K)" by (rule scaled_by_bounds [OF K m(1)])
  also have "\<dots> \<le> K * 2 ^ nat (n div K - 1)"
    using lt K by (intro mult_left_mono power_increasing) auto
  also have "\<dots> \<le> scaled_by K n" using \<open>K \<le> n\<close> m by (intro scaled_by_bounds(2) [OF K]) auto
  finally show ?thesis .
qed

lemma positive_finite_value_mono:
  assumes "0 \<le> m" "m < n" "n < SIGN_MASK"
  shows "positive_finite_value m < positive_finite_value n"
  using assms scaled_by_mono [OF FU_pos, of m n]
  by (simp add: positive_finite_value_scaled divide_strict_right_mono)

lemma positive_finite_value_zero [simp]: "positive_finite_value 0 = 0"
  by (simp add: positive_finite_value_scaled SIGN_MASK_def scaled_by_def)

lemma positive_finite_value_le_iff:
  assumes "0 \<le> m" "m < SIGN_MASK" "0 \<le> n" "n < SIGN_MASK"
  shows "positive_finite_value m \<le> positive_finite_value n \<longleftrightarrow> m \<le> n"
  using assms positive_finite_value_mono [of m n] positive_finite_value_mono [of n m]
  by (metis linorder_not_less order.asym order_le_less)

lemma positive_finite_value_nonneg: "0 \<le> m \<Longrightarrow> m < SIGN_MASK \<Longrightarrow> 0 \<le> positive_finite_value m"
  using positive_finite_value_le_iff [of 0 m] by (simp add: SIGN_MASK_def)

section \<open>Binary search\<close>

text \<open>
  What the two search loops rely on: a table \<open>f\<close> that increases strictly on \<open>0 .. upper\<close>.  Then
  the searches return the last entry at most \<open>v\<close> and the first entry at least \<open>v\<close>.
\<close>

lemma floor_search_step:
  "low > high \<Longrightarrow> floor_search P low high answer = answer"
  "low \<le> high \<Longrightarrow> P ((low + high) div 2) \<Longrightarrow> floor_search P low high answer =
     floor_search P ((low + high) div 2 + 1) high ((low + high) div 2)"
  "low \<le> high \<Longrightarrow> \<not> P ((low + high) div 2) \<Longrightarrow> floor_search P low high answer =
     floor_search P low ((low + high) div 2 - 1) answer"
  by (subst floor_search.simps, simp add: Let_def)+

lemma ceil_search_step:
  "low > high \<Longrightarrow> ceil_search P low high answer = answer"
  "low \<le> high \<Longrightarrow> P ((low + high) div 2) \<Longrightarrow> ceil_search P low high answer =
     ceil_search P low ((low + high) div 2 - 1) ((low + high) div 2)"
  "low \<le> high \<Longrightarrow> \<not> P ((low + high) div 2) \<Longrightarrow> ceil_search P low high answer =
     ceil_search P ((low + high) div 2 + 1) high answer"
  by (subst ceil_search.simps, simp add: Let_def)+

definition last_below :: "(int \<Rightarrow> 'v::linorder) \<Rightarrow> int \<Rightarrow> 'v \<Rightarrow> int \<Rightarrow> bool" where
  "last_below f upper v r \<longleftrightarrow>
     0 \<le> r \<and> r \<le> upper \<and> f r \<le> v \<and> (\<forall>m. 0 \<le> m \<and> m \<le> upper \<and> f m \<le> v \<longrightarrow> m \<le> r)"

definition first_above :: "(int \<Rightarrow> 'v::linorder) \<Rightarrow> int \<Rightarrow> 'v \<Rightarrow> int \<Rightarrow> bool" where
  "first_above f upper v r \<longleftrightarrow>
     0 \<le> r \<and> r \<le> upper \<and> v \<le> f r \<and> (\<forall>m. 0 \<le> m \<and> m \<le> upper \<and> v \<le> f m \<longrightarrow> r \<le> m)"

locale bisection =
  fixes f :: "int \<Rightarrow> 'v::linorder" and upper :: int
  assumes mono: "0 \<le> i \<Longrightarrow> i < j \<Longrightarrow> j \<le> upper \<Longrightarrow> f i < f j"
    and upper_nonneg: "0 \<le> upper"
begin

lemma mono_le: "0 \<le> i \<Longrightarrow> i \<le> j \<Longrightarrow> j \<le> upper \<Longrightarrow> f i \<le> f j"
  using mono [of i j] by (cases "i = j") auto

lemma floor_search_correct:
  assumes "0 \<le> low" "high \<le> upper" "low \<le> high + 1" "0 \<le> answer" "answer \<le> upper" "f answer \<le> v"
    and "low \<le> answer + 1" and "\<And>m. high < m \<Longrightarrow> m \<le> upper \<Longrightarrow> v < f m"
  shows "last_below f upper v (floor_search (\<lambda>m. f m \<le> v) low high answer)"
  using assms
proof (induction "\<lambda>m. f m \<le> v" low high answer rule: floor_search.induct)
  case (1 low high answer)
  let ?m = "(low + high) div 2"
  consider (stop) "high < low" | (up) "low \<le> high" "f ?m \<le> v" | (down) "low \<le> high" "v < f ?m"
    by (cases "high < low"; cases "v < f ?m") (auto simp: not_less)
  then show ?case
  proof cases
    case stop
    have "m \<le> answer" if "0 \<le> m" "m \<le> upper" "f m \<le> v" for m
      using that "1.prems"(7) "1.prems"(8) [of m] stop by (cases "high < m") auto
    with stop "1.prems" show ?thesis by (simp add: floor_search_step last_below_def)
  next
    case up
    moreover have "last_below f upper v (floor_search (\<lambda>m. f m \<le> v) (?m + 1) high ?m)"
      by (rule "1.hyps"(1) [OF up(1) refl up(2)]) (use "1.prems" up in auto)
    ultimately show ?thesis by (simp add: floor_search_step)
  next
    case down
    have "v < f m" if "?m - 1 < m" "m \<le> upper" for m
      by (rule less_le_trans [OF down(2)], rule mono_le) (use that down(1) "1.prems"(1) in auto)
    then have "last_below f upper v (floor_search (\<lambda>m. f m \<le> v) low (?m - 1) answer)"
      by (intro "1.hyps"(2) [OF down(1) refl down(2) [folded not_le]])
        (use "1.prems" down(1) in auto)
    with down show ?thesis by (simp add: floor_search_step)
  qed
qed

lemma ceil_search_correct:
  assumes "0 \<le> low" "high \<le> upper" "low \<le> high + 1" "0 \<le> answer" "answer \<le> upper" "v \<le> f answer"
    and "answer \<le> high + 1" and "\<And>m. 0 \<le> m \<Longrightarrow> m < low \<Longrightarrow> f m < v"
  shows "first_above f upper v (ceil_search (\<lambda>m. f m \<ge> v) low high answer)"
  using assms
proof (induction "\<lambda>m. f m \<ge> v" low high answer rule: ceil_search.induct)
  case (1 low high answer)
  let ?m = "(low + high) div 2"
  consider (stop) "high < low" | (down) "low \<le> high" "v \<le> f ?m" | (up) "low \<le> high" "f ?m < v"
    by (cases "high < low"; cases "f ?m < v") (auto simp: not_less)
  then show ?case
  proof cases
    case stop
    have "answer \<le> m" if "0 \<le> m" "m \<le> upper" "v \<le> f m" for m
      using that "1.prems"(7) "1.prems"(8) [of m] stop by (cases "m < low") auto
    with stop "1.prems" show ?thesis by (simp add: ceil_search_step first_above_def)
  next
    case down
    moreover have "first_above f upper v (ceil_search (\<lambda>m. f m \<ge> v) low (?m - 1) ?m)"
      by (rule "1.hyps"(1) [OF down(1) refl down(2)]) (use "1.prems" down in auto)
    ultimately show ?thesis by (simp add: ceil_search_step)
  next
    case up
    have "f m < v" if "0 \<le> m" "m < ?m + 1" for m
      by (rule le_less_trans [OF _ up(2)], rule mono_le) (use that up(1) "1.prems"(2) in auto)
    then have "first_above f upper v (ceil_search (\<lambda>m. f m \<ge> v) (?m + 1) high answer)"
      by (intro "1.hyps"(2) [OF up(1) refl up(2) [folded not_le]])
        (use "1.prems" up(1) in auto)
    with up show ?thesis by (simp add: ceil_search_step)
  qed
qed

text \<open>Both searches started on the whole table, as the callers start them.\<close>

lemma floor_search_whole: "f 0 \<le> v \<Longrightarrow> last_below f upper v (floor_search (\<lambda>m. f m \<le> v) 0 upper 0)"
  using floor_search_correct [of 0 upper 0 v] upper_nonneg by simp

lemma ceil_search_whole: "v \<le> f upper \<Longrightarrow> first_above f upper v (ceil_search (\<lambda>m. f m \<ge> v) 0 upper upper)"
  using ceil_search_correct [of 0 upper upper v] upper_nonneg by simp

end

interpretation pfv: bisection positive_finite_value MAX_FINITE
  by unfold_locales (auto simp: b64_const intro: positive_finite_value_mono)

section \<open>The rounding functions meet their specifications\<close>

text \<open>
  An encoding as a lower or an upper bound of a rational, and the IEEE rounding directions: the
  result is the greatest (least) encoding on its side, or the nearest one with ties to even.
\<close>

definition ep_le :: "int \<Rightarrow> rat \<Rightarrow> bool" where
  "ep_le b v \<longleftrightarrow> b = NEGATIVE_INFINITY \<or> fin b \<and> b64val b \<le> v"

definition ep_ge :: "int \<Rightarrow> rat \<Rightarrow> bool" where
  "ep_ge b v \<longleftrightarrow> b = POSITIVE_INFINITY \<or> fin b \<and> v \<le> b64val b"

definition rounds_down :: "rat \<Rightarrow> int \<Rightarrow> bool" where
  "rounds_down v b \<longleftrightarrow> word64 b \<and> ep_le b v \<and>
     (\<forall>c. word64 c \<and> fin c \<and> b64val c \<le> v \<longrightarrow> fin b \<and> b64val c \<le> b64val b)"

definition rounds_up :: "rat \<Rightarrow> int \<Rightarrow> bool" where
  "rounds_up v b \<longleftrightarrow> word64 b \<and> ep_ge b v \<and>
     (\<forall>c. word64 c \<and> fin c \<and> v \<le> b64val c \<longrightarrow> fin b \<and> b64val b \<le> b64val c)"

definition rounds_nearest :: "rat \<Rightarrow> int \<Rightarrow> bool" where
  "rounds_nearest v b \<longleftrightarrow> word64 b \<and>
     (if RNE_OVERFLOW_THRESHOLD \<le> v then b = POSITIVE_INFINITY
      else if v \<le> - RNE_OVERFLOW_THRESHOLD then b = NEGATIVE_INFINITY
      else fin b \<and>
        (\<forall>c. word64 c \<and> fin c \<longrightarrow> \<bar>v - b64val b\<bar> \<le> \<bar>v - b64val c\<bar> \<and>
          (\<bar>v - b64val c\<bar> = \<bar>v - b64val b\<bar> \<and> b64val c \<noteq> b64val b \<longrightarrow> even (mag b))))"

abbreviation pfv_floor :: "rat \<Rightarrow> int \<Rightarrow> bool" where
  "pfv_floor \<equiv> last_below positive_finite_value MAX_FINITE"

abbreviation pfv_ceil :: "rat \<Rightarrow> int \<Rightarrow> bool" where
  "pfv_ceil \<equiv> first_above positive_finite_value MAX_FINITE"

lemma fin_mag: "word64 b \<Longrightarrow> fin b \<longleftrightarrow> mag b \<le> MAX_FINITE"
  by (simp add: fin_def b64_const) linarith

lemma infinity_words [simp]:
  "word64 POSITIVE_INFINITY" "word64 NEGATIVE_INFINITY" "\<not> fin POSITIVE_INFINITY"
  "\<not> fin NEGATIVE_INFINITY" "\<not> nan POSITIVE_INFINITY" "\<not> nan NEGATIVE_INFINITY"
  "POSITIVE_INFINITY \<noteq> NEGATIVE_INFINITY" "flip POSITIVE_INFINITY = NEGATIVE_INFINITY"
  "flip NEGATIVE_INFINITY = POSITIVE_INFINITY"
  by (simp_all add: word64_def fin_def nan_def mag_def flip_def neg_def b64_const)

lemma zero_words [simp]:
  "word64 POSITIVE_ZERO" "word64 NEGATIVE_ZERO" "fin POSITIVE_ZERO" "fin NEGATIVE_ZERO"
  "b64val POSITIVE_ZERO = 0" "b64val NEGATIVE_ZERO = 0" "mag POSITIVE_ZERO = 0" "mag NEGATIVE_ZERO = 0"
  by (simp_all add: word64_def fin_def mag_def b64val_def b64_const)

lemma fin_not_nan [simp]: "fin b \<Longrightarrow> \<not> nan b"
  by (simp add: fin_def nan_def)

text \<open>A nonnegative encoding up to \<open>MAX_FINITE\<close> is a finite word with its own value.\<close>

lemma magnitude_word:
  assumes "0 \<le> m" "m \<le> MAX_FINITE"
  shows "word64 m" "fin m" "\<not> nan m" "b64val m = positive_finite_value m" "mag m = m" "\<not> neg m"
proof -
  have "m < SIGN_MASK" using assms by (simp add: b64_const)
  with word64_of_mag [of m] assms show w: "word64 m" "mag m = m" "\<not> neg m" by auto
  then show "fin m" using assms by (simp add: fin_mag)
  then show "\<not> nan m" by simp
  show "b64val m = positive_finite_value m" using w by (simp add: b64val_def)
qed

lemma finite_word_value:
  assumes "word64 c" "fin c"
  shows "0 \<le> mag c" "mag c \<le> MAX_FINITE" "0 \<le> positive_finite_value (mag c)"
    "positive_finite_value (mag c) \<le> MAX_FINITE_VALUE"
    "b64val c = positive_finite_value (mag c) \<or> b64val c = - positive_finite_value (mag c)"
proof -
  show m: "0 \<le> mag c" "mag c \<le> MAX_FINITE"
    using assms word64_mag [of c] by (auto simp: fin_mag)
  moreover have "mag c < SIGN_MASK" using assms word64_mag [of c] by simp
  ultimately show "0 \<le> positive_finite_value (mag c)" "positive_finite_value (mag c) \<le> MAX_FINITE_VALUE"
    by (auto simp: positive_finite_value_nonneg MAX_FINITE_VALUE_def intro: pfv.mono_le)
  show "b64val c = positive_finite_value (mag c) \<or> b64val c = - positive_finite_value (mag c)"
    by (simp add: b64val_def)
qed

lemma MAX_FINITE_VALUE_pos: "0 < MAX_FINITE_VALUE"
  using positive_finite_value_mono [of 0 MAX_FINITE] by (simp add: MAX_FINITE_VALUE_def b64_const)

lemma positive_floor_correct:
  assumes "0 \<le> v"
  obtains r where "positive_floor v = Inr r" "pfv_floor v r"
proof (cases "MAX_FINITE_VALUE \<le> v")
  case True
  then have "pfv_floor v MAX_FINITE"
    by (simp add: last_below_def MAX_FINITE_VALUE_def b64_const)
  with True assms that show ?thesis by (simp add: positive_floor_def)
next
  case False
  have "pfv_floor v (floor_search (\<lambda>m. positive_finite_value m \<le> v) 0 MAX_FINITE 0)"
    by (rule pfv.floor_search_whole) (simp add: assms)
  with False assms that show ?thesis by (simp add: positive_floor_def POSITIVE_ZERO_def)
qed

lemma positive_ceil_correct:
  assumes "0 \<le> v"
  obtains (finite) r where "positive_ceil v = Inr r" "v \<le> MAX_FINITE_VALUE" "pfv_ceil v r"
  | (overflow) "positive_ceil v = Inr POSITIVE_INFINITY" "MAX_FINITE_VALUE < v"
proof (cases "v \<le> MAX_FINITE_VALUE")
  case True
  then have "pfv_ceil v (ceil_search (\<lambda>m. positive_finite_value m \<ge> v) 0 MAX_FINITE MAX_FINITE)"
    by (intro pfv.ceil_search_whole) (simp add: MAX_FINITE_VALUE_def)
  with True assms finite show ?thesis by (simp add: positive_ceil_def POSITIVE_ZERO_def)
next
  case False
  with assms overflow show ?thesis by (simp add: positive_ceil_def)
qed

text \<open>A floor below, and a ceiling above, among the nonnegative encodings are so among all.\<close>

lemma floor_rounds_down:
  assumes "pfv_floor v r" shows "rounds_down v r"
proof -
  from assms have r: "0 \<le> r" "r \<le> MAX_FINITE" "positive_finite_value r \<le> v" by (auto simp: last_below_def)
  have "b64val c \<le> b64val r" if c: "word64 c" "fin c" "b64val c \<le> v" for c
  proof (cases "neg c")
    case True
    then show ?thesis using finite_word_value [OF c(1,2)] magnitude_word [OF r(1,2)]
      finite_word_value [OF magnitude_word(1,2) [OF r(1,2)]] by (simp add: b64val_def)
  next
    case False
    then have "mag c \<le> r" using assms c finite_word_value [OF c(1,2)] by (auto simp: last_below_def b64val_def)
    then show ?thesis using False r magnitude_word [OF r(1,2)] finite_word_value [OF c(1,2)]
      by (simp add: b64val_def pfv.mono_le)
  qed
  with r magnitude_word [OF r(1,2)] show ?thesis by (auto simp: rounds_down_def ep_le_def)
qed

lemma ceil_rounds_up:
  assumes "pfv_ceil v r" "0 < v" shows "rounds_up v r"
proof -
  from assms have r: "0 \<le> r" "r \<le> MAX_FINITE" "v \<le> positive_finite_value r" by (auto simp: first_above_def)
  have "b64val r \<le> b64val c" if c: "word64 c" "fin c" "v \<le> b64val c" for c
  proof -
    have "\<not> neg c" using c assms finite_word_value [OF c(1,2)] by (auto simp: b64val_def)
    moreover from this have "r \<le> mag c"
      using assms c finite_word_value [OF c(1,2)] by (auto simp: first_above_def b64val_def)
    ultimately show ?thesis using r magnitude_word [OF r(1,2)] finite_word_value [OF c(1,2)]
      by (simp add: b64val_def pfv.mono_le)
  qed
  with r magnitude_word [OF r(1,2)] show ?thesis by (auto simp: rounds_up_def ep_ge_def)
qed

lemma infinity_rounds_up: "MAX_FINITE_VALUE < v \<Longrightarrow> rounds_up v POSITIVE_INFINITY"
  using finite_word_value by (fastforce simp: rounds_up_def ep_ge_def)

text \<open>Negation exchanges the directions.\<close>

lemma rounds_down_flip:
  assumes "rounds_up v b" shows "rounds_down (- v) (flip b)"
proof -
  have b: "word64 b" using assms by (simp add: rounds_up_def)
  have "fin b \<and> b64val b \<le> - b64val c" if "word64 c" "fin c" "b64val c \<le> - v" for c
    using assms that unfolding rounds_up_def by (metis flip_simps(1,4,6) le_minus_iff)
  with assms b show ?thesis
    by (auto simp: rounds_down_def rounds_up_def ep_le_def ep_ge_def le_minus_iff)
qed

lemma rounds_up_flip:
  assumes "rounds_down v b" shows "rounds_up (- v) (flip b)"
proof -
  have b: "word64 b" using assms by (simp add: rounds_down_def)
  have "fin b \<and> - b64val c \<le> b64val b" if "word64 c" "fin c" "- v \<le> b64val c" for c
    using assms that unfolding rounds_down_def by (metis flip_simps(1,4,6) minus_le_iff)
  with assms b show ?thesis
    by (auto simp: rounds_down_def rounds_up_def ep_le_def ep_ge_def minus_le_iff)
qed

lemma zero_rounds: "rounds_down 0 NEGATIVE_ZERO" "rounds_up 0 POSITIVE_ZERO"
  by (simp_all add: rounds_down_def rounds_up_def ep_le_def ep_ge_def)

lemma rounds_not_nan: "rounds_down v b \<Longrightarrow> \<not> nan b" "rounds_up v b \<Longrightarrow> \<not> nan b"
  by (auto simp: rounds_down_def rounds_up_def ep_le_def ep_ge_def)

lemma positive_ceil_rounds_up:
  assumes "0 < v"
  obtains r where "positive_ceil v = Inr r" "rounds_up v r"
proof (rule positive_ceil_correct [of v])
  show "0 \<le> v" using assms by simp
  show thesis if "positive_ceil v = Inr r" "v \<le> MAX_FINITE_VALUE" "pfv_ceil v r" for r
    using that ceil_rounds_up [OF that(3) assms] \<open>\<And>r. \<lbrakk>positive_ceil v = Inr r; rounds_up v r\<rbrakk> \<Longrightarrow> thesis\<close> by blast
  show thesis if "positive_ceil v = Inr POSITIVE_INFINITY" "MAX_FINITE_VALUE < v"
    using that infinity_rounds_up \<open>\<And>r. \<lbrakk>positive_ceil v = Inr r; rounds_up v r\<rbrakk> \<Longrightarrow> thesis\<close> by blast
qed

lemma positive_floor_rounds_down:
  assumes "0 < v"
  obtains r where "positive_floor v = Inr r" "rounds_down v r"
  using positive_floor_correct [of v] floor_rounds_down assms by (metis less_imp_le)

lemma round_down_total: "\<exists>b. round_down v = Inr b \<and> rounds_down v b"
proof (cases "v < 0")
  case True
  then obtain r where r: "positive_ceil (- v) = Inr r" "rounds_up (- v) r"
    using positive_ceil_rounds_up [of "- v"] by auto
  then have "word64 r" "\<not> nan r" using rounds_not_nan by (auto simp: rounds_up_def)
  with True r rounds_down_flip [OF r(2)] show ?thesis by (simp add: round_down_def)
next
  case False
  then show ?thesis using zero_rounds positive_floor_rounds_down [of v]
    by (cases "v = 0") (auto simp: round_down_def)
qed

lemma round_up_total: "\<exists>b. round_up v = Inr b \<and> rounds_up v b"
proof (cases "v < 0")
  case True
  then obtain r where r: "positive_floor (- v) = Inr r" "rounds_down (- v) r"
    using positive_floor_rounds_down [of "- v"] by auto
  then have "word64 r" "\<not> nan r" using rounds_not_nan by (auto simp: rounds_down_def)
  with True r rounds_up_flip [OF r(2)] show ?thesis by (simp add: round_up_def)
next
  case False
  then show ?thesis using zero_rounds positive_ceil_rounds_up [of v]
    by (cases "v = 0") (auto simp: round_up_def)
qed

section \<open>Round to nearest, ties to even\<close>

lemma rne_threshold: "MAX_FINITE_VALUE < RNE_OVERFLOW_THRESHOLD"
  by (simp add: RNE_OVERFLOW_THRESHOLD_def push_bit_eq_mult)

text \<open>
  A finite encoding that is nearest among the nonnegative ones is nearest among all, because a
  negative value is farther from a nonnegative rational than zero is.
\<close>

lemma nearest_of_magnitudes:
  assumes v: "0 \<le> v" "v < RNE_OVERFLOW_THRESHOLD" and b: "0 \<le> b" "b \<le> MAX_FINITE"
    and near: "\<And>m. 0 \<le> m \<Longrightarrow> m \<le> MAX_FINITE \<Longrightarrow>
      \<bar>v - positive_finite_value b\<bar> \<le> \<bar>v - positive_finite_value m\<bar> \<and>
      (\<bar>v - positive_finite_value m\<bar> = \<bar>v - positive_finite_value b\<bar> \<and> m \<noteq> b \<longrightarrow> even b)"
  shows "rounds_nearest v b"
proof -
  note bw = magnitude_word [OF b]
  have "\<bar>v - b64val b\<bar> \<le> \<bar>v - b64val c\<bar> \<and>
      (\<bar>v - b64val c\<bar> = \<bar>v - b64val b\<bar> \<and> b64val c \<noteq> b64val b \<longrightarrow> even b)"
    if c: "word64 c" "fin c" for c
  proof (cases "0 \<le> b64val c")
    case True
    then have "b64val c = positive_finite_value (mag c)"
      using finite_word_value [OF c] by auto
    with near [of "mag c"] finite_word_value [OF c] bw show ?thesis by auto
  next
    case False
    then have "\<bar>v - positive_finite_value 0\<bar> < \<bar>v - b64val c\<bar>" using v by simp
    with near [of 0] b bw show ?thesis by auto
  qed
  moreover have "\<not> v \<le> - RNE_OVERFLOW_THRESHOLD"
    using v rne_threshold MAX_FINITE_VALUE_pos by linarith
  ultimately show ?thesis using v bw by (auto simp: rounds_nearest_def)
qed

lemma rounds_nearest_flip:
  assumes "rounds_nearest v b" "0 < v"
  shows "rounds_nearest (- v) (flip b)"
proof -
  have b: "word64 b" using assms by (simp add: rounds_nearest_def)
  have v: "\<not> RNE_OVERFLOW_THRESHOLD \<le> - v" "\<not> v \<le> - RNE_OVERFLOW_THRESHOLD"
    using assms rne_threshold MAX_FINITE_VALUE_pos by linarith+
  show ?thesis
  proof (cases "RNE_OVERFLOW_THRESHOLD \<le> v")
    case True
    with assms v show ?thesis by (simp add: rounds_nearest_def)
  next
    case False
    with assms v have near: "fin b \<and> (\<forall>c. word64 c \<and> fin c \<longrightarrow> \<bar>v - b64val b\<bar> \<le> \<bar>v - b64val c\<bar> \<and>
          (\<bar>v - b64val c\<bar> = \<bar>v - b64val b\<bar> \<and> b64val c \<noteq> b64val b \<longrightarrow> even (mag b)))"
      by (simp add: rounds_nearest_def)
    have "\<bar>- v - b64val (flip b)\<bar> \<le> \<bar>- v - b64val c\<bar> \<and>
        (\<bar>- v - b64val c\<bar> = \<bar>- v - b64val (flip b)\<bar> \<and> b64val c \<noteq> b64val (flip b)
          \<longrightarrow> even (mag (flip b)))"
      if "word64 c" "fin c" for c
    proof -
      have "\<bar>- v - b64val c\<bar> = \<bar>v - b64val (flip c)\<bar>" "\<bar>- v - b64val (flip b)\<bar> = \<bar>v - b64val b\<bar>"
        "b64val c = b64val (flip b) \<longleftrightarrow> b64val (flip c) = b64val b"
        using that b by (auto simp: abs_if)
      with near [THEN conjunct2, THEN spec, of "flip c"] that b show ?thesis by simp
    qed
    with near b v False show ?thesis by (auto simp: rounds_nearest_def)
  qed
qed

lemma floor_ceil_adjacent:
  assumes "pfv_floor v lower" "pfv_ceil v upper" "positive_finite_value lower \<noteq> v"
  shows "upper = lower + 1" "positive_finite_value lower < v" "v < positive_finite_value upper"
proof -
  from assms have l: "0 \<le> lower" "positive_finite_value lower < v" and
    u: "0 \<le> upper" "upper \<le> MAX_FINITE" "v \<le> positive_finite_value upper"
    by (auto simp: last_below_def first_above_def)
  have "lower < upper"
    using l u pfv.mono_le [of upper lower] assms(1) by (force simp: last_below_def)
  then have gt: "\<not> positive_finite_value (lower + 1) \<le> v"
    using assms(1) [unfolded last_below_def, THEN conjunct2, THEN conjunct2, THEN conjunct2,
        THEN spec, of "lower + 1"] l u by auto
  then show up: "upper = lower + 1"
    using gt assms(2) [unfolded first_above_def, THEN conjunct2, THEN conjunct2, THEN conjunct2,
        THEN spec, of "lower + 1"] \<open>lower < upper\<close> l u by auto
  show "positive_finite_value lower < v" by (rule l(2))
  show "v < positive_finite_value upper" using up gt by simp
qed

lemma round_positive_nearest_even_correct:
  assumes v: "0 < v"
  shows "\<exists>b. round_positive_nearest_even v = Inr b \<and> rounds_nearest v b"
proof (cases "RNE_OVERFLOW_THRESHOLD \<le> v")
  case True
  then show ?thesis by (simp add: round_positive_nearest_even_def rounds_nearest_def)
next
  case small: False
  note near = nearest_of_magnitudes [OF less_imp_le [OF v] small [unfolded not_le]]
  show ?thesis
  proof (cases "MAX_FINITE_VALUE < v")
    case True
    have "rounds_nearest v MAX_FINITE"
    proof (rule near)
      fix m assume m: "0 \<le> m" "m \<le> MAX_FINITE"
      then have "m \<noteq> MAX_FINITE \<Longrightarrow> positive_finite_value m < positive_finite_value MAX_FINITE"
        by (intro pfv.mono) auto
      with True show "\<bar>v - positive_finite_value MAX_FINITE\<bar> \<le> \<bar>v - positive_finite_value m\<bar> \<and>
        (\<bar>v - positive_finite_value m\<bar> = \<bar>v - positive_finite_value MAX_FINITE\<bar> \<and> m \<noteq> MAX_FINITE
          \<longrightarrow> even MAX_FINITE)"
        unfolding MAX_FINITE_VALUE_def by (cases "m = MAX_FINITE") auto
    qed (simp_all add: b64_const)
    with True small show ?thesis by (simp add: round_positive_nearest_even_def)
  next
    case False
    obtain lower where l: "positive_floor v = Inr lower" "pfv_floor v lower"
      using positive_floor_correct [of v] v by auto
    obtain upper where u: "positive_ceil v = Inr upper" "pfv_ceil v upper"
      using positive_ceil_correct [of v] v False by (metis less_imp_le)
    have lb: "0 \<le> lower" "lower \<le> MAX_FINITE" using l by (auto simp: last_below_def)
    have ub: "0 \<le> upper" "upper \<le> MAX_FINITE" using u by (auto simp: first_above_def)
    show ?thesis
    proof (cases "positive_finite_value lower = v")
      case True
      have "rounds_nearest v lower"
      proof (rule near [OF lb])
        fix m assume m: "0 \<le> m" "m \<le> MAX_FINITE"
        then have "m \<noteq> lower \<Longrightarrow> positive_finite_value m \<noteq> v"
          using True lb pfv.mono [of m lower] pfv.mono [of lower m] by (cases m lower rule: linorder_cases) auto
        with True show "\<bar>v - positive_finite_value lower\<bar> \<le> \<bar>v - positive_finite_value m\<bar> \<and>
          (\<bar>v - positive_finite_value m\<bar> = \<bar>v - positive_finite_value lower\<bar> \<and> m \<noteq> lower \<longrightarrow> even lower)"
          by auto
      qed
      with True small False l show ?thesis by (simp add: round_positive_nearest_even_def)
    next
      case inexact: False
      note adj = floor_ceil_adjacent [OF l(2) u(2) inexact]
      let ?dl = "v - positive_finite_value lower" and ?du = "positive_finite_value upper - v"
      have side: "(m \<le> lower \<and> ?dl \<le> \<bar>v - positive_finite_value m\<bar> \<and>
            (m \<noteq> lower \<longrightarrow> ?dl < \<bar>v - positive_finite_value m\<bar>)) \<or>
          (upper \<le> m \<and> ?du \<le> \<bar>v - positive_finite_value m\<bar> \<and>
            (m \<noteq> upper \<longrightarrow> ?du < \<bar>v - positive_finite_value m\<bar>))"
        if "0 \<le> m" "m \<le> MAX_FINITE" for m
      proof (cases "m \<le> lower")
        case True
        then show ?thesis using pfv.mono_le [of m lower] pfv.mono [of m lower] that lb adj by force
      next
        case False
        then show ?thesis using pfv.mono_le [of upper m] pfv.mono [of upper m] that ub adj by force
      qed
      define b where "b = (if ?dl < ?du then lower else if ?du < ?dl then upper
        else if lower AND 1 = 0 then lower else upper)"
      have tie: "?dl = ?du \<Longrightarrow> even b" using adj(1) by (auto simp: b_def and_one_eq)
      have bcase: "b = lower \<and> ?dl \<le> ?du \<or> b = upper \<and> ?du \<le> ?dl" by (auto simp: b_def)
      have "rounds_nearest v b"
      proof (rule near)
        show "0 \<le> b" "b \<le> MAX_FINITE" using lb ub by (auto simp: b_def)
        fix m assume m: "0 \<le> m" "m \<le> MAX_FINITE"
        have "\<bar>v - positive_finite_value lower\<bar> = ?dl" "\<bar>v - positive_finite_value upper\<bar> = ?du"
          using adj by auto
        with side [OF m] bcase tie adj(1) show "\<bar>v - positive_finite_value b\<bar> \<le> \<bar>v - positive_finite_value m\<bar> \<and>
          (\<bar>v - positive_finite_value m\<bar> = \<bar>v - positive_finite_value b\<bar> \<and> m \<noteq> b \<longrightarrow> even b)"
          by auto
      qed
      moreover have "round_positive_nearest_even v = Inr b"
        using small False l u inexact by (simp add: round_positive_nearest_even_def b_def Let_def)
      ultimately show ?thesis by blast
    qed
  qed
qed

lemma round_nearest_even_total: "\<exists>b. round_nearest_even v = Inr b \<and> rounds_nearest v b"
proof (cases v "0 :: rat" rule: linorder_cases)
  case equal
  have "rounds_nearest 0 0"
    by (rule nearest_of_magnitudes) (use rne_threshold MAX_FINITE_VALUE_pos in \<open>auto simp: b64_const\<close>)
  with equal show ?thesis by (simp add: round_nearest_even_def POSITIVE_ZERO_def)
next
  case less
  then obtain b where b: "round_positive_nearest_even (- v) = Inr b" "rounds_nearest (- v) b"
    using round_positive_nearest_even_correct [of "- v"] by auto
  then have "word64 b" "\<not> nan b" by (auto simp: rounds_nearest_def split: if_splits)
  with less b rounds_nearest_flip [OF b(2)] show ?thesis by (simp add: round_nearest_even_def)
next
  case greater
  then show ?thesis using round_positive_nearest_even_correct [of v] by (simp add: round_nearest_even_def)
qed

end
