(* ===== verification/Interval.thy ===== *)
theory Interval
  imports Rounding "HOL-Library.Product_Lexorder"
begin

unbundle bit_operations_syntax

text \<open>
  Model of \<open>reference/exact_binary64.py\<close>, second part: the directed arithmetic operations on raw
  words and the interval operations built from them.  A rounding function passed as an argument is
  a value of \<open>rounding\<close>; \<open>Binary64Interval(lo, hi)\<close> with its \<open>__post_init__\<close> is \<open>mk_interval\<close>.

  The locale \<open>rounding_contract\<close> proves the four primitive operations once for any rounding
  function with a specification, and is interpreted on the three functions of the source.
  \<open>Interval_Sound\<close> proves that every interval operation contains the exact real result.
\<close>

section \<open>Directed arithmetic on words\<close>

datatype rounding = RoundDown | RoundUp | RoundNearestEven

fun apply_rounding :: "rounding \<Rightarrow> rat \<Rightarrow> int res" where
  "apply_rounding RoundDown v = round_down v"
| "apply_rounding RoundUp v = round_up v"
| "apply_rounding RoundNearestEven v = round_nearest_even v"

definition zero_for_addition :: "int \<Rightarrow> int \<Rightarrow> bool \<Rightarrow> rounding \<Rightarrow> int res" where
  "zero_for_addition a_bits effective_b_sign effective_b_is_zero rnd =
     ebind (sign_bit a_bits) (\<lambda>a_sign. ebind (is_zero a_bits) (\<lambda>a_zero.
       if a_zero \<and> effective_b_is_zero \<and> a_sign = effective_b_sign
       then Inr (if a_sign \<noteq> 0 then NEGATIVE_ZERO else POSITIVE_ZERO)
       else Inr (if rnd = RoundDown then NEGATIVE_ZERO else POSITIVE_ZERO)))"

definition add_exact :: "int \<Rightarrow> int \<Rightarrow> rounding \<Rightarrow> int res" where
  "add_exact a_bits b_bits rnd =
     ebind (decode_finite a_bits) (\<lambda>a. ebind (decode_finite b_bits) (\<lambda>b.
       let exact = a + b in
       if exact = 0 then
         ebind (sign_bit b_bits) (\<lambda>s. ebind (is_zero b_bits) (\<lambda>z. zero_for_addition a_bits s z rnd))
       else apply_rounding rnd exact))"

definition sub_exact :: "int \<Rightarrow> int \<Rightarrow> rounding \<Rightarrow> int res" where
  "sub_exact a_bits b_bits rnd =
     ebind (decode_finite a_bits) (\<lambda>a. ebind (decode_finite b_bits) (\<lambda>b.
       let exact = a - b in
       if exact = 0 then
         ebind (sign_bit b_bits) (\<lambda>s. ebind (is_zero b_bits) (\<lambda>z.
           zero_for_addition a_bits (s XOR 1) z rnd))
       else apply_rounding rnd exact))"

text \<open>The zero of a product or quotient takes the XOR of the operand signs.\<close>

definition signed_zero :: "int \<Rightarrow> int \<Rightarrow> int res" where
  "signed_zero a_bits b_bits =
     ebind (sign_bit a_bits) (\<lambda>s. ebind (sign_bit b_bits) (\<lambda>t.
       Inr (if s XOR t \<noteq> 0 then NEGATIVE_ZERO else POSITIVE_ZERO)))"

definition mul_exact :: "int \<Rightarrow> int \<Rightarrow> rounding \<Rightarrow> int res" where
  "mul_exact a_bits b_bits rnd =
     ebind (decode_finite a_bits) (\<lambda>a. ebind (decode_finite b_bits) (\<lambda>b.
       let exact = a * b in
       if exact = 0 then signed_zero a_bits b_bits else apply_rounding rnd exact))"

definition div_exact :: "int \<Rightarrow> int \<Rightarrow> rounding \<Rightarrow> int res" where
  "div_exact a_bits b_bits rnd =
     ebind (decode_finite a_bits) (\<lambda>numerator. ebind (decode_finite b_bits) (\<lambda>denominator.
       if denominator = 0 then Inl InvalidBinary64Operation
       else let exact = numerator / denominator in
         if exact = 0 then signed_zero a_bits b_bits else apply_rounding rnd exact))"

definition add_down :: "int \<Rightarrow> int \<Rightarrow> int res" where "add_down a b = add_exact a b RoundDown"
definition add_up :: "int \<Rightarrow> int \<Rightarrow> int res" where "add_up a b = add_exact a b RoundUp"
definition add_rne :: "int \<Rightarrow> int \<Rightarrow> int res" where "add_rne a b = add_exact a b RoundNearestEven"
definition sub_down :: "int \<Rightarrow> int \<Rightarrow> int res" where "sub_down a b = sub_exact a b RoundDown"
definition sub_up :: "int \<Rightarrow> int \<Rightarrow> int res" where "sub_up a b = sub_exact a b RoundUp"
definition sub_rne :: "int \<Rightarrow> int \<Rightarrow> int res" where "sub_rne a b = sub_exact a b RoundNearestEven"
definition mul_down :: "int \<Rightarrow> int \<Rightarrow> int res" where "mul_down a b = mul_exact a b RoundDown"
definition mul_up :: "int \<Rightarrow> int \<Rightarrow> int res" where "mul_up a b = mul_exact a b RoundUp"
definition mul_rne :: "int \<Rightarrow> int \<Rightarrow> int res" where "mul_rne a b = mul_exact a b RoundNearestEven"
definition div_down :: "int \<Rightarrow> int \<Rightarrow> int res" where "div_down a b = div_exact a b RoundDown"
definition div_up :: "int \<Rightarrow> int \<Rightarrow> int res" where "div_up a b = div_exact a b RoundUp"
definition div_rne :: "int \<Rightarrow> int \<Rightarrow> int res" where "div_rne a b = div_exact a b RoundNearestEven"

section \<open>Endpoints\<close>

definition endpoint_rank :: "int \<Rightarrow> (int \<times> rat) res" where
  "endpoint_rank bits = ebind (validate_bits bits) (\<lambda>b. ebind (classify b) (\<lambda>kind.
     if kind = NaN then Inl ValueError
     else if kind = NegInfinity then Inr (0, 0)
     else if kind = PosInfinity then Inr (2, 0)
     else ebind (decode_finite b) (\<lambda>v. Inr (1, v))))"

definition endpoint_compare :: "int \<Rightarrow> int \<Rightarrow> int res" where
  "endpoint_compare left right =
     ebind (endpoint_rank left) (\<lambda>left_rank. ebind (endpoint_rank right) (\<lambda>right_rank.
       Inr (if left_rank < right_rank then -1 else if right_rank < left_rank then 1 else 0)))"

definition minimum_endpoint :: "int \<Rightarrow> int \<Rightarrow> int res" where
  "minimum_endpoint left right = ebind (endpoint_compare left right) (\<lambda>comparison.
     if comparison < 0 then Inr left
     else if comparison > 0 then Inr right
     else ebind (is_zero left) (\<lambda>zl. ebind (is_zero right) (\<lambda>zr.
       if zl \<and> zr then ebind (sign_bit left) (\<lambda>sl. ebind (sign_bit right) (\<lambda>sr.
         Inr (if sl \<noteq> 0 \<or> sr \<noteq> 0 then NEGATIVE_ZERO else POSITIVE_ZERO)))
       else Inr left)))"

definition maximum_endpoint :: "int \<Rightarrow> int \<Rightarrow> int res" where
  "maximum_endpoint left right = ebind (endpoint_compare left right) (\<lambda>comparison.
     if comparison > 0 then Inr left
     else if comparison < 0 then Inr right
     else ebind (is_zero left) (\<lambda>zl. ebind (is_zero right) (\<lambda>zr.
       if zl \<and> zr then ebind (sign_bit left) (\<lambda>sl. ebind (sign_bit right) (\<lambda>sr.
         Inr (if \<not> (sl \<noteq> 0 \<and> sr \<noteq> 0) then POSITIVE_ZERO else NEGATIVE_ZERO)))
       else Inr left)))"

section \<open>Intervals\<close>

record interval =
  iv_lo :: int
  iv_hi :: int

definition mk_interval :: "int \<Rightarrow> int \<Rightarrow> interval res" where
  "mk_interval l h = ebind (validate_bits l) (\<lambda>_. ebind (validate_bits h) (\<lambda>_.
     ebind (is_nan l) (\<lambda>nl. ebind (is_nan h) (\<lambda>nh.
       if nl \<or> nh then Inl ValueError
       else ebind (endpoint_compare l h) (\<lambda>c.
         if c > 0 then Inl ValueError else Inr \<lparr>iv_lo = l, iv_hi = h\<rparr>)))))"

definition has_finite_endpoints :: "interval \<Rightarrow> bool res" where
  "has_finite_endpoints i = ebind (is_finite (iv_lo i)) (\<lambda>f.
     if f then is_finite (iv_hi i) else Inr False)"

definition contains_zero :: "interval \<Rightarrow> bool res" where
  "contains_zero i = ebind (endpoint_compare (iv_lo i) POSITIVE_ZERO) (\<lambda>c.
     if c \<le> 0 then ebind (endpoint_compare POSITIVE_ZERO (iv_hi i)) (\<lambda>d. Inr (d \<le> 0))
     else Inr False)"

definition WHOLE_INTERVAL :: interval where
  "WHOLE_INTERVAL = \<lparr>iv_lo = NEGATIVE_INFINITY, iv_hi = POSITIVE_INFINITY\<rparr>"

definition require_finite_intervals :: "interval \<Rightarrow> interval \<Rightarrow> bool res" where
  "require_finite_intervals a b = ebind (has_finite_endpoints a) (\<lambda>fa.
     if fa then has_finite_endpoints b else Inr False)"

definition interval_add :: "interval \<Rightarrow> interval \<Rightarrow> interval res" where
  "interval_add a b = ebind (require_finite_intervals a b) (\<lambda>ok.
     if \<not> ok then Inr WHOLE_INTERVAL
     else ebind (add_down (iv_lo a) (iv_lo b)) (\<lambda>l. ebind (add_up (iv_hi a) (iv_hi b)) (\<lambda>h.
       mk_interval l h)))"

definition interval_sub :: "interval \<Rightarrow> interval \<Rightarrow> interval res" where
  "interval_sub a b = ebind (require_finite_intervals a b) (\<lambda>ok.
     if \<not> ok then Inr WHOLE_INTERVAL
     else ebind (sub_down (iv_lo a) (iv_hi b)) (\<lambda>l. ebind (sub_up (iv_hi a) (iv_lo b)) (\<lambda>h.
       mk_interval l h)))"

text \<open>\<open>_select_four\<close>: a fold of the selector over the candidates, started on the first one.\<close>

fun select_rest :: "(int \<Rightarrow> int \<Rightarrow> int res) \<Rightarrow> int \<Rightarrow> int list \<Rightarrow> int res" where
  "select_rest selector acc [] = Inr acc"
| "select_rest selector acc (v # vs) = ebind (selector acc v) (\<lambda>acc'. select_rest selector acc' vs)"

definition select_four :: "int list \<Rightarrow> (int \<Rightarrow> int \<Rightarrow> int res) \<Rightarrow> int res" where
  "select_four values selector = (case values of [] \<Rightarrow> Inl IndexError
     | v # vs \<Rightarrow> select_rest selector v vs)"

text \<open>The four corner applications of a directed operation, in the order of the source's tuple.\<close>

definition corners :: "(int \<Rightarrow> int \<Rightarrow> int res) \<Rightarrow> interval \<Rightarrow> interval \<Rightarrow> int list res" where
  "corners op a b = map_res (\<lambda>(x, y). op x y)
     [(iv_lo a, iv_lo b), (iv_lo a, iv_hi b), (iv_hi a, iv_lo b), (iv_hi a, iv_hi b)]"

definition interval_mul :: "interval \<Rightarrow> interval \<Rightarrow> interval res" where
  "interval_mul a b = ebind (require_finite_intervals a b) (\<lambda>ok.
     if \<not> ok then Inr WHOLE_INTERVAL
     else ebind (corners mul_down a b) (\<lambda>lower_candidates.
       ebind (corners mul_up a b) (\<lambda>upper_candidates.
         ebind (select_four lower_candidates minimum_endpoint) (\<lambda>l.
           ebind (select_four upper_candidates maximum_endpoint) (\<lambda>h. mk_interval l h)))))"

definition interval_div :: "interval \<Rightarrow> interval \<Rightarrow> interval res" where
  "interval_div a b = ebind (contains_zero b) (\<lambda>z.
     if z then Inl InvalidBinary64Operation
     else ebind (require_finite_intervals a b) (\<lambda>ok.
       if \<not> ok then Inr WHOLE_INTERVAL
       else ebind (corners div_down a b) (\<lambda>lower_candidates.
         ebind (corners div_up a b) (\<lambda>upper_candidates.
           ebind (select_four lower_candidates minimum_endpoint) (\<lambda>l.
             ebind (select_four upper_candidates maximum_endpoint) (\<lambda>h. mk_interval l h))))))"

definition interval_neg :: "interval \<Rightarrow> interval res" where
  "interval_neg a = ebind (negate_non_nan_bits (iv_hi a)) (\<lambda>l.
     ebind (negate_non_nan_bits (iv_lo a)) (\<lambda>h. mk_interval l h))"

definition abs_bits :: "int \<Rightarrow> int res" where
  "abs_bits bits = ebind (validate_bits bits) (\<lambda>b. ebind (is_nan b) (\<lambda>n.
     if n then Inl ValueError else Inr (b AND NOT SIGN_MASK)))"

definition interval_abs :: "interval \<Rightarrow> interval res" where
  "interval_abs a = ebind (endpoint_compare (iv_lo a) POSITIVE_ZERO) (\<lambda>c.
     if c \<ge> 0 then ebind (abs_bits (iv_lo a)) (\<lambda>l. ebind (abs_bits (iv_hi a)) (\<lambda>h. mk_interval l h))
     else ebind (endpoint_compare (iv_hi a) POSITIVE_ZERO) (\<lambda>d.
       if d \<le> 0 then ebind (abs_bits (iv_hi a)) (\<lambda>l. ebind (abs_bits (iv_lo a)) (\<lambda>h. mk_interval l h))
       else ebind (abs_bits (iv_lo a)) (\<lambda>x. ebind (abs_bits (iv_hi a)) (\<lambda>y.
         ebind (maximum_endpoint x y) (\<lambda>h. mk_interval POSITIVE_ZERO h)))))"

definition interval_min :: "interval \<Rightarrow> interval \<Rightarrow> interval res" where
  "interval_min a b = ebind (minimum_endpoint (iv_lo a) (iv_lo b)) (\<lambda>l.
     ebind (minimum_endpoint (iv_hi a) (iv_hi b)) (\<lambda>h. mk_interval l h))"

definition interval_max :: "interval \<Rightarrow> interval \<Rightarrow> interval res" where
  "interval_max a b = ebind (maximum_endpoint (iv_lo a) (iv_lo b)) (\<lambda>l.
     ebind (maximum_endpoint (iv_hi a) (iv_hi b)) (\<lambda>h. mk_interval l h))"

definition ONE_BITS :: int where "ONE_BITS = 0x3FF0000000000000"

text \<open>The loop \<open>for _ in range(exponent)\<close> of \<open>interval_pow_nat\<close>.\<close>

fun pow_loop :: "nat \<Rightarrow> interval \<Rightarrow> interval \<Rightarrow> interval res" where
  "pow_loop 0 a result = Inr result"
| "pow_loop (Suc n) a result = ebind (interval_mul result a) (\<lambda>r. pow_loop n a r)"

definition interval_pow_nat :: "interval \<Rightarrow> int \<Rightarrow> interval res" where
  "interval_pow_nat a exponent =
     (if exponent < 0 then Inl ValueError
      else ebind (mk_interval ONE_BITS ONE_BITS) (\<lambda>result. pow_loop (nat exponent) a result))"

section \<open>The primitive operations under a rounding contract\<close>

locale rounding_contract =
  fixes mode :: rounding and spec :: "rat \<Rightarrow> int \<Rightarrow> bool"
  assumes total: "\<exists>b. apply_rounding mode v = Inr b \<and> spec v b"
    and zero: "word64 z \<Longrightarrow> mag z = 0 \<Longrightarrow> spec 0 z"
begin

lemma zero_for_addition_spec:
  "word64 a \<Longrightarrow> \<exists>c. zero_for_addition a s z m = Inr c \<and> spec 0 c"
  by (auto simp: zero_for_addition_def intro!: zero)

lemma signed_zero_spec: "word64 a \<Longrightarrow> word64 b \<Longrightarrow> \<exists>c. signed_zero a b = Inr c \<and> spec 0 c"
  by (auto simp: signed_zero_def intro!: zero)

lemma add_exact_spec:
  assumes "word64 a" "fin a" "word64 b" "fin b"
  shows "\<exists>c. add_exact a b mode = Inr c \<and> spec (b64val a + b64val b) c"
proof (cases "b64val a + b64val b = 0")
  case True
  then show ?thesis using assms zero_for_addition_spec [of a] by (simp add: add_exact_def)
next
  case False
  then show ?thesis using assms total by (simp add: add_exact_def)
qed

lemma sub_exact_spec:
  assumes "word64 a" "fin a" "word64 b" "fin b"
  shows "\<exists>c. sub_exact a b mode = Inr c \<and> spec (b64val a - b64val b) c"
proof (cases "b64val a - b64val b = 0")
  case True
  then show ?thesis using assms zero_for_addition_spec [of a] by (simp add: sub_exact_def)
next
  case False
  then show ?thesis using assms total by (simp add: sub_exact_def)
qed

lemma mul_exact_spec:
  assumes "word64 a" "fin a" "word64 b" "fin b"
  shows "\<exists>c. mul_exact a b mode = Inr c \<and> spec (b64val a * b64val b) c"
proof (cases "b64val a * b64val b = 0")
  case True
  then show ?thesis using assms signed_zero_spec [of a b] by (auto simp: mul_exact_def)
next
  case False
  then show ?thesis using assms total by (simp add: mul_exact_def)
qed

lemma div_exact_spec:
  assumes "word64 a" "fin a" "word64 b" "fin b" "b64val b \<noteq> 0"
  shows "\<exists>c. div_exact a b mode = Inr c \<and> spec (b64val a / b64val b) c"
proof (cases "b64val a / b64val b = 0")
  case True
  then show ?thesis using assms signed_zero_spec [of a b] by (auto simp: div_exact_def)
next
  case False
  then show ?thesis using assms total by (simp add: div_exact_def)
qed

end

lemma zero_word_value: "mag z = 0 \<Longrightarrow> fin z \<and> b64val z = 0"
  by (simp add: fin_def b64val_def b64_const)

interpretation down: rounding_contract RoundDown rounds_down
  by unfold_locales (use round_down_total zero_word_value in \<open>auto simp: rounds_down_def ep_le_def\<close>)

interpretation up: rounding_contract RoundUp rounds_up
  by unfold_locales (use round_up_total zero_word_value in \<open>auto simp: rounds_up_def ep_ge_def\<close>)

interpretation nearest: rounding_contract RoundNearestEven rounds_nearest
proof unfold_locales
  show "\<exists>b. apply_rounding RoundNearestEven v = Inr b \<and> rounds_nearest v b" for v
    using round_nearest_even_total by simp
  show "rounds_nearest 0 z" if "word64 z" "mag z = 0" for z
    using that zero_word_value [of z] rne_threshold MAX_FINITE_VALUE_pos
    by (auto simp: rounds_nearest_def)
qed

end
