(* ===== verification/Interval_Sound.thy ===== *)
theory Interval_Sound
  imports Interval
begin

text \<open>
  Soundness of the interval operations of \<open>reference/exact_binary64.py\<close>: on well-formed intervals
  each operation returns a well-formed interval (the constructor check never fails), and the
  result contains the exact real result of every choice of points in the operands.
\<close>

section \<open>Containment of reals\<close>

definition lower_real :: "int \<Rightarrow> real \<Rightarrow> bool" where
  "lower_real b x \<longleftrightarrow> b = NEGATIVE_INFINITY \<or> fin b \<and> of_rat (b64val b) \<le> x"

definition upper_real :: "int \<Rightarrow> real \<Rightarrow> bool" where
  "upper_real b x \<longleftrightarrow> b = POSITIVE_INFINITY \<or> fin b \<and> x \<le> of_rat (b64val b)"

definition contains :: "interval \<Rightarrow> real \<Rightarrow> bool" where
  "contains i x \<longleftrightarrow> lower_real (iv_lo i) x \<and> upper_real (iv_hi i) x"

definition ep_rank :: "int \<Rightarrow> int \<times> rat" where
  "ep_rank b = (if b = NEGATIVE_INFINITY then (0, 0) else if b = POSITIVE_INFINITY then (2, 0)
     else (1, b64val b))"

definition endpoint :: "int \<Rightarrow> bool" where
  "endpoint b \<longleftrightarrow> word64 b \<and> \<not> nan b"

definition wf_interval :: "interval \<Rightarrow> bool" where
  "wf_interval i \<longleftrightarrow> endpoint (iv_lo i) \<and> endpoint (iv_hi i) \<and> ep_rank (iv_lo i) \<le> ep_rank (iv_hi i)"

definition fin_interval :: "interval \<Rightarrow> bool" where
  "fin_interval i \<longleftrightarrow> fin (iv_lo i) \<and> fin (iv_hi i)"

lemma infinity_of_mag: "word64 b \<Longrightarrow> mag b = POSITIVE_INFINITY \<longleftrightarrow> b = POSITIVE_INFINITY \<or> b = NEGATIVE_INFINITY"
  by (auto simp: mag_cases neg_def b64_const word64_def)

lemma endpoint_cases:
  assumes "endpoint b"
  obtains "b = NEGATIVE_INFINITY" | "b = POSITIVE_INFINITY" | "fin b" "word64 b"
    "b \<noteq> NEGATIVE_INFINITY" "b \<noteq> POSITIVE_INFINITY"
proof (cases "mag b = POSITIVE_INFINITY")
  case True
  with assms that(1,2) infinity_of_mag [of b] show ?thesis by (auto simp: endpoint_def)
next
  case False
  then have "fin b" using assms by (auto simp: endpoint_def fin_def nan_def)
  with assms False that(3) show ?thesis by (auto simp: endpoint_def infinity_of_mag)
qed

lemma fin_endpoint: "word64 b \<Longrightarrow> fin b \<Longrightarrow> endpoint b"
  by (simp add: endpoint_def)

lemma infinity_fields [simp]:
  "mag POSITIVE_INFINITY = POSITIVE_INFINITY" "mag NEGATIVE_INFINITY = POSITIVE_INFINITY"
  "\<not> neg POSITIVE_INFINITY" "neg NEGATIVE_INFINITY" "\<not> POSITIVE_INFINITY < FU"
  "POSITIVE_INFINITY \<noteq> 0" "NEGATIVE_INFINITY \<noteq> POSITIVE_INFINITY"
  by (simp_all add: mag_def neg_def FU_def b64_const)

lemma infinity_classify [simp]:
  "classify POSITIVE_INFINITY = Inr PosInfinity" "classify NEGATIVE_INFINITY = Inr NegInfinity"
  by (simp_all add: classify_word)

lemma endpoint_rank_eq [simp]: "endpoint b \<Longrightarrow> endpoint_rank b = Inr (ep_rank b)"
proof (erule endpoint_cases)
  assume b: "fin b" "word64 b" "b \<noteq> NEGATIVE_INFINITY" "b \<noteq> POSITIVE_INFINITY"
  then have "mag b < POSITIVE_INFINITY" by (simp add: fin_def)
  with b show ?thesis by (auto simp: endpoint_rank_def ep_rank_def classify_word)
qed (simp_all add: endpoint_rank_def ep_rank_def)

lemma endpoint_compare_eq [simp]:
  "endpoint l \<Longrightarrow> endpoint r \<Longrightarrow> endpoint_compare l r =
     Inr (if ep_rank l < ep_rank r then -1 else if ep_rank r < ep_rank l then 1 else 0)"
  by (simp add: endpoint_compare_def)

lemma mk_interval_ok [simp]:
  "endpoint l \<Longrightarrow> endpoint h \<Longrightarrow> ep_rank l \<le> ep_rank h \<Longrightarrow>
     mk_interval l h = Inr \<lparr>iv_lo = l, iv_hi = h\<rparr>"
  by (simp add: mk_interval_def) (auto simp: endpoint_def)

text \<open>The constructor accepts exactly the well-formed pairs of endpoints.\<close>

lemma mk_interval_Inr_iff:
  "mk_interval l h = Inr i \<longleftrightarrow> i = \<lparr>iv_lo = l, iv_hi = h\<rparr> \<and> wf_interval i"
proof
  assume mk: "mk_interval l h = Inr i"
  then have "word64 l" "word64 h"
    by (auto simp: mk_interval_def res_simps validate_bits_Inr_iff)
  with mk have e: "endpoint l" "endpoint h"
    by (auto simp: mk_interval_def endpoint_def split: if_splits)
  have "ep_rank l \<le> ep_rank h"
  proof (rule ccontr)
    assume "\<not> ?thesis"
    then have "ep_rank h < ep_rank l" by simp
    moreover from this have "\<not> ep_rank l < ep_rank h" by simp
    moreover have "endpoint_compare l h = Inr 1" using e calculation by simp
    ultimately show False using e mk by (simp add: mk_interval_def endpoint_def)
  qed
  with e mk show "i = \<lparr>iv_lo = l, iv_hi = h\<rparr> \<and> wf_interval i" by (auto simp: wf_interval_def)
qed (auto simp: wf_interval_def)

lemma has_finite_endpoints_eq [simp]: "wf_interval i \<Longrightarrow> has_finite_endpoints i = Inr (fin_interval i)"
  by (simp add: has_finite_endpoints_def wf_interval_def endpoint_def fin_interval_def)

lemma require_finite_eq [simp]:
  "wf_interval a \<Longrightarrow> wf_interval b \<Longrightarrow>
     require_finite_intervals a b = Inr (fin_interval a \<and> fin_interval b)"
  by (simp add: require_finite_intervals_def)

lemma WHOLE_INTERVAL_props [simp]: "wf_interval WHOLE_INTERVAL" "contains WHOLE_INTERVAL x"
  by (simp_all add: WHOLE_INTERVAL_def wf_interval_def endpoint_def ep_rank_def contains_def
      lower_real_def upper_real_def)

lemma fin_rank: "fin b \<Longrightarrow> ep_rank b = (1, b64val b)"
  by (auto simp: ep_rank_def)

lemma lower_real_fin: "fin b \<Longrightarrow> lower_real b x \<longleftrightarrow> of_rat (b64val b) \<le> x"
  and upper_real_fin: "fin b \<Longrightarrow> upper_real b x \<longleftrightarrow> x \<le> of_rat (b64val b)"
  by (auto simp: lower_real_def upper_real_def)

lemma of_rat_le_trans:
  "u \<le> v \<Longrightarrow> of_rat v \<le> x \<Longrightarrow> of_rat u \<le> (x::real)" "u \<le> v \<Longrightarrow> x \<le> of_rat u \<Longrightarrow> (x::real) \<le> of_rat v"
  by (metis of_rat_less_eq order_trans)+

lemma of_rat_le_through: "of_rat u \<le> (x::real) \<Longrightarrow> x \<le> of_rat v \<Longrightarrow> u \<le> v"
  by (metis of_rat_less_eq order_trans)

lemma lower_real_mono:
  "endpoint m \<Longrightarrow> endpoint l \<Longrightarrow> ep_rank m \<le> ep_rank l \<Longrightarrow> lower_real l x \<Longrightarrow> lower_real m x"
  by (elim endpoint_cases) (auto simp: lower_real_def ep_rank_def intro: of_rat_le_trans)

lemma upper_real_mono:
  "endpoint m \<Longrightarrow> endpoint l \<Longrightarrow> ep_rank l \<le> ep_rank m \<Longrightarrow> upper_real l x \<Longrightarrow> upper_real m x"
  by (elim endpoint_cases) (auto simp: upper_real_def ep_rank_def intro: of_rat_le_trans)

text \<open>A point between two endpoints orders them.\<close>

lemma bounds_rank: "lower_real l x \<Longrightarrow> upper_real h x \<Longrightarrow> ep_rank l \<le> ep_rank h"
  by (auto simp: lower_real_def upper_real_def ep_rank_def dest: of_rat_le_through)

lemma rounds_down_real: "rounds_down v c \<Longrightarrow> of_rat v \<le> x \<Longrightarrow> endpoint c \<and> lower_real c x"
  by (auto simp: rounds_down_def ep_le_def lower_real_def endpoint_def intro: of_rat_le_trans)

lemma rounds_up_real: "rounds_up v c \<Longrightarrow> x \<le> of_rat v \<Longrightarrow> endpoint c \<and> upper_real c x"
  by (auto simp: rounds_up_def ep_ge_def upper_real_def endpoint_def intro: of_rat_le_trans)

text \<open>An outward-rounded pair of bounds makes a well-formed interval around the exact value.\<close>

lemma outward_interval:
  assumes "rounds_down v l" "rounds_up w h" "v \<le> w"
  shows "mk_interval l h = Inr \<lparr>iv_lo = l, iv_hi = h\<rparr> \<and> wf_interval \<lparr>iv_lo = l, iv_hi = h\<rparr>"
proof -
  have "of_rat v \<le> (of_rat w :: real)" using assms(3) by (simp add: of_rat_less_eq)
  then have "endpoint l" "lower_real l (of_rat v)" "endpoint h" "upper_real h (of_rat v)"
    using rounds_down_real [OF assms(1), of "of_rat v"] rounds_up_real [OF assms(2), of "of_rat v"]
    by auto
  then show ?thesis using bounds_rank [of l "of_rat v" h] by (simp add: wf_interval_def)
qed

lemma wf_fin_interval:
  assumes "wf_interval i" "fin_interval i"
  shows "word64 (iv_lo i)" "word64 (iv_hi i)" "fin (iv_lo i)" "fin (iv_hi i)"
    "b64val (iv_lo i) \<le> b64val (iv_hi i)"
    "contains i x \<longleftrightarrow> of_rat (b64val (iv_lo i)) \<le> x \<and> x \<le> of_rat (b64val (iv_hi i))"
  using assms by (auto simp: wf_interval_def fin_interval_def endpoint_def fin_rank contains_def
      lower_real_fin upper_real_fin)

section \<open>Addition and subtraction\<close>

lemma interval_add_sound_aux:
  assumes wf: "wf_interval a" "wf_interval b"
  shows "\<exists>c. interval_add a b = Inr c \<and> wf_interval c \<and>
    (\<forall>x y. contains a x \<and> contains b y \<longrightarrow> contains c (x + y))"
proof (cases "fin_interval a \<and> fin_interval b")
  case False
  with wf show ?thesis by (auto simp: interval_add_def)
next
  case True
  note a = wf_fin_interval [OF wf(1) conjunct1 [OF True]]
  note b = wf_fin_interval [OF wf(2) conjunct2 [OF True]]
  obtain l where l: "add_down (iv_lo a) (iv_lo b) = Inr l" "rounds_down (b64val (iv_lo a) + b64val (iv_lo b)) l"
    using down.add_exact_spec [of "iv_lo a" "iv_lo b"] a b by (auto simp: add_down_def)
  obtain h where h: "add_up (iv_hi a) (iv_hi b) = Inr h" "rounds_up (b64val (iv_hi a) + b64val (iv_hi b)) h"
    using up.add_exact_spec [of "iv_hi a" "iv_hi b"] a b by (auto simp: add_up_def)
  note o = outward_interval [OF l(2) h(2) add_mono [OF a(5) b(5)]]
  have "contains \<lparr>iv_lo = l, iv_hi = h\<rparr> (x + y)" if "contains a x" "contains b y" for x y
    using that a(6) b(6) rounds_down_real [OF l(2), of "x + y"] rounds_up_real [OF h(2), of "x + y"]
    by (simp add: contains_def of_rat_add add_mono)
  with True wf l h o show ?thesis by (auto simp: interval_add_def)
qed

lemma interval_sub_sound_aux:
  assumes wf: "wf_interval a" "wf_interval b"
  shows "\<exists>c. interval_sub a b = Inr c \<and> wf_interval c \<and>
    (\<forall>x y. contains a x \<and> contains b y \<longrightarrow> contains c (x - y))"
proof (cases "fin_interval a \<and> fin_interval b")
  case False
  with wf show ?thesis by (auto simp: interval_sub_def)
next
  case True
  note a = wf_fin_interval [OF wf(1) conjunct1 [OF True]]
  note b = wf_fin_interval [OF wf(2) conjunct2 [OF True]]
  obtain l where l: "sub_down (iv_lo a) (iv_hi b) = Inr l" "rounds_down (b64val (iv_lo a) - b64val (iv_hi b)) l"
    using down.sub_exact_spec [of "iv_lo a" "iv_hi b"] a b by (auto simp: sub_down_def)
  obtain h where h: "sub_up (iv_hi a) (iv_lo b) = Inr h" "rounds_up (b64val (iv_hi a) - b64val (iv_lo b)) h"
    using up.sub_exact_spec [of "iv_hi a" "iv_lo b"] a b by (auto simp: sub_up_def)
  note o = outward_interval [OF l(2) h(2) diff_mono [OF a(5) b(5)]]
  have "contains \<lparr>iv_lo = l, iv_hi = h\<rparr> (x - y)" if "contains a x" "contains b y" for x y
    using that a(6) b(6) rounds_down_real [OF l(2), of "x - y"] rounds_up_real [OF h(2), of "x - y"]
    by (simp add: contains_def of_rat_diff diff_mono)
  with True wf l h o show ?thesis by (auto simp: interval_sub_def)
qed

section \<open>Selection among endpoints\<close>

lemma endpoint_zero [simp]: "endpoint POSITIVE_ZERO" "endpoint NEGATIVE_ZERO"
  by (simp_all add: endpoint_def)

lemma zero_rank: "mag b = 0 \<Longrightarrow> ep_rank b = (1, 0)" and zero_const_rank [simp]:
  "ep_rank POSITIVE_ZERO = (1, 0)" "ep_rank NEGATIVE_ZERO = (1, 0)"
  using zero_word_value fin_rank by auto

lemma minimum_endpoint_spec:
  assumes "endpoint l" "endpoint r"
  shows "\<exists>m. minimum_endpoint l r = Inr m \<and> endpoint m \<and> ep_rank m = min (ep_rank l) (ep_rank r)"
proof -
  have w: "word64 l" "word64 r" using assms by (simp_all add: endpoint_def)
  show ?thesis
  proof (cases "ep_rank l" "ep_rank r" rule: linorder_cases)
    case equal
    then show ?thesis using assms w by (auto simp: minimum_endpoint_def zero_rank)
  qed (use assms w in \<open>auto simp: minimum_endpoint_def min_def\<close>)
qed

lemma maximum_endpoint_spec:
  assumes "endpoint l" "endpoint r"
  shows "\<exists>m. maximum_endpoint l r = Inr m \<and> endpoint m \<and> ep_rank m = max (ep_rank l) (ep_rank r)"
proof -
  have w: "word64 l" "word64 r" using assms by (simp_all add: endpoint_def)
  show ?thesis
  proof (cases "ep_rank l" "ep_rank r" rule: linorder_cases)
    case equal
    then show ?thesis using assms w by (auto simp: maximum_endpoint_def zero_rank)
  qed (use assms w in \<open>auto simp: maximum_endpoint_def max_def\<close>)
qed

text \<open>The fold of \<open>_select_four\<close>: a lower bound from any candidate survives the minimum.\<close>

lemma select_rest_minimum:
  assumes "endpoint acc" "list_all endpoint vs"
  shows "\<exists>m. select_rest minimum_endpoint acc vs = Inr m \<and> endpoint m \<and>
    (\<forall>v \<in> set (acc # vs). ep_rank m \<le> ep_rank v)"
  using assms
proof (induction vs arbitrary: acc)
  case (Cons v vs)
  then obtain m where "minimum_endpoint acc v = Inr m" "endpoint m" "ep_rank m = min (ep_rank acc) (ep_rank v)"
    using minimum_endpoint_spec [of acc v] by auto
  then show ?case using Cons.IH [of m] Cons.prems by auto
qed auto

lemma select_rest_maximum:
  assumes "endpoint acc" "list_all endpoint vs"
  shows "\<exists>m. select_rest maximum_endpoint acc vs = Inr m \<and> endpoint m \<and>
    (\<forall>v \<in> set (acc # vs). ep_rank v \<le> ep_rank m)"
  using assms
proof (induction vs arbitrary: acc)
  case (Cons v vs)
  then obtain m where "maximum_endpoint acc v = Inr m" "endpoint m" "ep_rank m = max (ep_rank acc) (ep_rank v)"
    using maximum_endpoint_spec [of acc v] by auto
  then show ?case using Cons.IH [of m] Cons.prems by auto
qed auto

lemma select_four_minimum:
  assumes "vs \<noteq> []" "list_all endpoint vs"
  shows "\<exists>m. select_four vs minimum_endpoint = Inr m \<and> endpoint m \<and>
    (\<forall>x. (\<exists>v \<in> set vs. lower_real v x) \<longrightarrow> lower_real m x)"
proof -
  obtain v ws where vs: "vs = v # ws" using assms by (cases vs) auto
  then obtain m where m: "select_rest minimum_endpoint v ws = Inr m" "endpoint m"
    "\<forall>u \<in> set vs. ep_rank m \<le> ep_rank u"
    using select_rest_minimum [of v ws] assms by auto
  then have "lower_real m x" if "u \<in> set vs" "lower_real u x" for u x
    using that lower_real_mono [of m u x] assms by (auto simp: list_all_iff)
  with m vs show ?thesis by (auto simp: select_four_def)
qed

lemma select_four_maximum:
  assumes "vs \<noteq> []" "list_all endpoint vs"
  shows "\<exists>m. select_four vs maximum_endpoint = Inr m \<and> endpoint m \<and>
    (\<forall>x. (\<exists>v \<in> set vs. upper_real v x) \<longrightarrow> upper_real m x)"
proof -
  obtain v ws where vs: "vs = v # ws" using assms by (cases vs) auto
  then obtain m where m: "select_rest maximum_endpoint v ws = Inr m" "endpoint m"
    "\<forall>u \<in> set vs. ep_rank u \<le> ep_rank m"
    using select_rest_maximum [of v ws] assms by auto
  then have "upper_real m x" if "u \<in> set vs" "upper_real u x" for u x
    using that upper_real_mono [of m u x] assms by (auto simp: list_all_iff)
  with m vs show ?thesis by (auto simp: select_four_def)
qed

section \<open>Multiplication and division by their corners\<close>

lemma corners_spec:
  assumes "\<And>p q. p \<in> {iv_lo a, iv_hi a} \<Longrightarrow> q \<in> {iv_lo b, iv_hi b} \<Longrightarrow> \<exists>c. op p q = Inr c \<and> R p q c"
  obtains vs where "corners op a b = Inr vs" "vs \<noteq> []"
    "\<And>v. v \<in> set vs \<Longrightarrow> \<exists>p q. R p q v"
    "\<And>p q. p \<in> {iv_lo a, iv_hi a} \<Longrightarrow> q \<in> {iv_lo b, iv_hi b} \<Longrightarrow> \<exists>v \<in> set vs. R p q v"
proof -
  obtain c1 where 1: "op (iv_lo a) (iv_lo b) = Inr c1" "R (iv_lo a) (iv_lo b) c1" using assms by blast
  obtain c2 where 2: "op (iv_lo a) (iv_hi b) = Inr c2" "R (iv_lo a) (iv_hi b) c2" using assms by blast
  obtain c3 where 3: "op (iv_hi a) (iv_lo b) = Inr c3" "R (iv_hi a) (iv_lo b) c3" using assms by blast
  obtain c4 where 4: "op (iv_hi a) (iv_hi b) = Inr c4" "R (iv_hi a) (iv_hi b) c4" using assms by blast
  show ?thesis
    by (rule that [of "[c1, c2, c3, c4]"]) (use 1 2 3 4 in \<open>auto simp: corners_def\<close>)
qed

definition corner_join :: "(int \<Rightarrow> int \<Rightarrow> int res) \<Rightarrow> (int \<Rightarrow> int \<Rightarrow> int res) \<Rightarrow> interval \<Rightarrow> interval \<Rightarrow> interval res" where
  "corner_join opd opu a b = ebind (corners opd a b) (\<lambda>lower_candidates.
     ebind (corners opu a b) (\<lambda>upper_candidates.
       ebind (select_four lower_candidates minimum_endpoint) (\<lambda>l.
         ebind (select_four upper_candidates maximum_endpoint) (\<lambda>h. mk_interval l h))))"

lemma corner_join_sound:
  assumes down: "\<And>p q. p \<in> {iv_lo a, iv_hi a} \<Longrightarrow> q \<in> {iv_lo b, iv_hi b} \<Longrightarrow>
      \<exists>c. opd p q = Inr c \<and> rounds_down (f (b64val p) (b64val q)) c"
    and up: "\<And>p q. p \<in> {iv_lo a, iv_hi a} \<Longrightarrow> q \<in> {iv_lo b, iv_hi b} \<Longrightarrow>
      \<exists>c. opu p q = Inr c \<and> rounds_up (f (b64val p) (b64val q)) c"
  obtains c where "corner_join opd opu a b = Inr c" "wf_interval c"
    "\<And>p q p' q' z. p \<in> {iv_lo a, iv_hi a} \<Longrightarrow> q \<in> {iv_lo b, iv_hi b} \<Longrightarrow>
       p' \<in> {iv_lo a, iv_hi a} \<Longrightarrow> q' \<in> {iv_lo b, iv_hi b} \<Longrightarrow>
       of_rat (f (b64val p) (b64val q)) \<le> z \<Longrightarrow> z \<le> of_rat (f (b64val p') (b64val q')) \<Longrightarrow> contains c z"
proof -
  obtain ls where ls: "corners opd a b = Inr ls" "ls \<noteq> []"
    "\<And>v. v \<in> set ls \<Longrightarrow> \<exists>p q. rounds_down (f (b64val p) (b64val q)) v"
    "\<And>p q. p \<in> {iv_lo a, iv_hi a} \<Longrightarrow> q \<in> {iv_lo b, iv_hi b} \<Longrightarrow>
      \<exists>v \<in> set ls. rounds_down (f (b64val p) (b64val q)) v"
    using corners_spec [of a b opd "\<lambda>p q. rounds_down (f (b64val p) (b64val q))"] down by blast
  obtain us where us: "corners opu a b = Inr us" "us \<noteq> []"
    "\<And>v. v \<in> set us \<Longrightarrow> \<exists>p q. rounds_up (f (b64val p) (b64val q)) v"
    "\<And>p q. p \<in> {iv_lo a, iv_hi a} \<Longrightarrow> q \<in> {iv_lo b, iv_hi b} \<Longrightarrow>
      \<exists>v \<in> set us. rounds_up (f (b64val p) (b64val q)) v"
    using corners_spec [of a b opu "\<lambda>p q. rounds_up (f (b64val p) (b64val q))"] up by blast
  have "list_all endpoint ls" using ls(3) rounds_down_real by (fastforce simp: list_all_iff)
  then obtain l where l: "select_four ls minimum_endpoint = Inr l" "endpoint l"
    "\<And>x. \<exists>v \<in> set ls. lower_real v x \<Longrightarrow> lower_real l x"
    using select_four_minimum [OF ls(2)] by blast
  have "list_all endpoint us" using us(3) rounds_up_real by (fastforce simp: list_all_iff)
  then obtain h where h: "select_four us maximum_endpoint = Inr h" "endpoint h"
    "\<And>x. \<exists>v \<in> set us. upper_real v x \<Longrightarrow> upper_real h x"
    using select_four_maximum [OF us(2)] by blast
  let ?c = "\<lparr>iv_lo = l, iv_hi = h\<rparr>"
  have c: "contains ?c z" if "p \<in> {iv_lo a, iv_hi a}" "q \<in> {iv_lo b, iv_hi b}"
    "p' \<in> {iv_lo a, iv_hi a}" "q' \<in> {iv_lo b, iv_hi b}"
    "of_rat (f (b64val p) (b64val q)) \<le> z" "z \<le> of_rat (f (b64val p') (b64val q'))" for p q p' q' z
  proof -
    have "lower_real l z" using l(3) ls(4) [OF that(1,2)] rounds_down_real that(5) by blast
    moreover have "upper_real h z" using h(3) us(4) [OF that(3,4)] rounds_up_real that(6) by blast
    ultimately show ?thesis by (simp add: contains_def)
  qed
  have "contains ?c (of_rat (f (b64val (iv_lo a)) (b64val (iv_lo b))))"
    by (rule c [of "iv_lo a" "iv_lo b" "iv_lo a" "iv_lo b"]) auto
  then have r: "ep_rank l \<le> ep_rank h" using bounds_rank by (auto simp: contains_def)
  show ?thesis
    by (rule that [OF _ _ c]) (use ls(1) us(1) l h r in \<open>auto simp: corner_join_def wf_interval_def\<close>)
qed

lemma linear_corner:
  fixes x y :: real
  assumes "a \<le> x" "x \<le> b"
  shows "a * y \<le> x * y \<or> b * y \<le> x * y" "x * y \<le> a * y \<or> x * y \<le> b * y"
proof -
  show "a * y \<le> x * y \<or> b * y \<le> x * y"
    using assms by (cases "0 \<le> y") (auto intro: mult_right_mono mult_right_mono_neg)
  show "x * y \<le> a * y \<or> x * y \<le> b * y"
    using assms by (cases "0 \<le> y") (auto intro: mult_right_mono mult_right_mono_neg)
qed

lemma product_corner:
  fixes x y :: real
  assumes "a \<le> x" "x \<le> b" "c \<le> y" "y \<le> d"
  shows "\<exists>p \<in> {a, b}. \<exists>q \<in> {c, d}. p * q \<le> x * y" "\<exists>p \<in> {a, b}. \<exists>q \<in> {c, d}. x * y \<le> p * q"
proof -
  have m: "p * c \<le> p * y \<or> p * d \<le> p * y" "p * y \<le> p * c \<or> p * y \<le> p * d" for p
    using linear_corner [OF assms(3,4), of p] by (auto simp: mult.commute)
  show "\<exists>p \<in> {a, b}. \<exists>q \<in> {c, d}. p * q \<le> x * y"
    using linear_corner(1) [OF assms(1,2), of y] m(1) [of a] m(1) [of b] by (auto intro: order_trans)
  show "\<exists>p \<in> {a, b}. \<exists>q \<in> {c, d}. x * y \<le> p * q"
    using linear_corner(2) [OF assms(1,2), of y] m(2) [of a] m(2) [of b] by (auto intro: order_trans)
qed

lemma quotient_corner:
  fixes x y :: real
  assumes "a \<le> x" "x \<le> b" "c \<le> y" "y \<le> d" "0 < c \<or> d < 0"
  shows "\<exists>p \<in> {a, b}. \<exists>q \<in> {c, d}. p / q \<le> x / y" "\<exists>p \<in> {a, b}. \<exists>q \<in> {c, d}. x / y \<le> p / q"
proof -
  have "inverse d \<le> inverse y" "inverse y \<le> inverse c"
    using assms by (auto intro: le_imp_inverse_le le_imp_inverse_le_neg)
  from product_corner [OF assms(1,2) this]
  show "\<exists>p \<in> {a, b}. \<exists>q \<in> {c, d}. p / q \<le> x / y" "\<exists>p \<in> {a, b}. \<exists>q \<in> {c, d}. x / y \<le> p / q"
    by (auto simp: divide_inverse)
qed

lemma interval_mul_join: "interval_mul a b = ebind (require_finite_intervals a b) (\<lambda>ok.
    if \<not> ok then Inr WHOLE_INTERVAL else corner_join mul_down mul_up a b)"
  by (simp only: interval_mul_def corner_join_def)

lemma interval_div_join: "interval_div a b = ebind (contains_zero b) (\<lambda>z.
    if z then Inl InvalidBinary64Operation else ebind (require_finite_intervals a b) (\<lambda>ok.
      if \<not> ok then Inr WHOLE_INTERVAL else corner_join div_down div_up a b))"
  by (simp only: interval_div_def corner_join_def)

lemma interval_mul_sound_aux:
  assumes wf: "wf_interval a" "wf_interval b"
  shows "\<exists>c. interval_mul a b = Inr c \<and> wf_interval c \<and>
    (\<forall>x y. contains a x \<and> contains b y \<longrightarrow> contains c (x * y))"
proof (cases "fin_interval a \<and> fin_interval b")
  case False
  with wf show ?thesis by (auto simp: interval_mul_def)
next
  case True
  note a = wf_fin_interval [OF wf(1) conjunct1 [OF True]]
  note b = wf_fin_interval [OF wf(2) conjunct2 [OF True]]
  obtain c where c: "corner_join mul_down mul_up a b = Inr c" "wf_interval c"
    "\<And>p q p' q' z. p \<in> {iv_lo a, iv_hi a} \<Longrightarrow> q \<in> {iv_lo b, iv_hi b} \<Longrightarrow>
       p' \<in> {iv_lo a, iv_hi a} \<Longrightarrow> q' \<in> {iv_lo b, iv_hi b} \<Longrightarrow>
       of_rat (b64val p * b64val q) \<le> z \<Longrightarrow> z \<le> of_rat (b64val p' * b64val q') \<Longrightarrow> contains c z"
    by (rule corner_join_sound [of a b mul_down "(*)" mul_up])
      (use a b down.mul_exact_spec up.mul_exact_spec in \<open>auto simp: mul_down_def mul_up_def\<close>)
  have "contains c (x * y)" if "contains a x" "contains b y" for x y
  proof -
    note pc = product_corner [of "of_rat (b64val (iv_lo a))" x "of_rat (b64val (iv_hi a))"
        "of_rat (b64val (iv_lo b))" y "of_rat (b64val (iv_hi b))"]
    have xy: "of_rat (b64val (iv_lo a)) \<le> x" "x \<le> of_rat (b64val (iv_hi a))"
      "of_rat (b64val (iv_lo b)) \<le> y" "y \<le> of_rat (b64val (iv_hi b))"
      using that a(6) b(6) by auto
    obtain p q where 1: "p \<in> {iv_lo a, iv_hi a}" "q \<in> {iv_lo b, iv_hi b}"
      "of_rat (b64val p * b64val q) \<le> x * y"
      using pc(1) [OF xy] unfolding of_rat_mult by blast
    obtain p' q' where 2: "p' \<in> {iv_lo a, iv_hi a}" "q' \<in> {iv_lo b, iv_hi b}"
      "x * y \<le> of_rat (b64val p' * b64val q')"
      using pc(2) [OF xy] unfolding of_rat_mult by blast
    show ?thesis by (rule c(3) [OF 1(1,2) 2(1,2) 1(3) 2(3)])
  qed
  with True wf c(1,2) show ?thesis by (auto simp: interval_mul_join)
qed

lemma rank_zero_compare:
  assumes "endpoint b"
  shows "ep_rank b \<le> (1, 0) \<longleftrightarrow> lower_real b 0" "(1, 0) \<le> ep_rank b \<longleftrightarrow> upper_real b 0"
  using assms by (elim endpoint_cases; auto simp: ep_rank_def lower_real_def upper_real_def)+

lemma contains_zero_eq [simp]: "wf_interval b \<Longrightarrow> contains_zero b = Inr (contains b 0)"
  using rank_zero_compare [of "iv_lo b"] rank_zero_compare [of "iv_hi b"]
  by (auto simp: contains_zero_def wf_interval_def contains_def not_less not_le)

lemma interval_div_sound_aux:
  assumes wf: "wf_interval a" "wf_interval b" and nz: "\<not> contains b 0"
  shows "\<exists>c. interval_div a b = Inr c \<and> wf_interval c \<and>
    (\<forall>x y. contains a x \<and> contains b y \<longrightarrow> contains c (x / y))"
proof (cases "fin_interval a \<and> fin_interval b")
  case False
  with wf nz show ?thesis by (auto simp: interval_div_def)
next
  case True
  note a = wf_fin_interval [OF wf(1) conjunct1 [OF True]]
  note b = wf_fin_interval [OF wf(2) conjunct2 [OF True]]
  have sgn: "0 < b64val (iv_lo b) \<or> b64val (iv_hi b) < 0" using nz b(6) by auto
  then have nz': "b64val (iv_lo b) \<noteq> 0" "b64val (iv_hi b) \<noteq> 0" using b(5) by auto
  obtain c where c: "corner_join div_down div_up a b = Inr c" "wf_interval c"
    "\<And>p q p' q' z. p \<in> {iv_lo a, iv_hi a} \<Longrightarrow> q \<in> {iv_lo b, iv_hi b} \<Longrightarrow>
       p' \<in> {iv_lo a, iv_hi a} \<Longrightarrow> q' \<in> {iv_lo b, iv_hi b} \<Longrightarrow>
       of_rat (b64val p / b64val q) \<le> z \<Longrightarrow> z \<le> of_rat (b64val p' / b64val q') \<Longrightarrow> contains c z"
    by (rule corner_join_sound [of a b div_down "(/)" div_up])
      (use a b nz' down.div_exact_spec up.div_exact_spec in \<open>auto simp: div_down_def div_up_def\<close>)
  have "contains c (x / y)" if "contains a x" "contains b y" for x y
  proof -
    have s: "0 < (of_rat (b64val (iv_lo b)) :: real) \<or> (of_rat (b64val (iv_hi b)) :: real) < 0"
      using sgn by simp
    note qc = quotient_corner [of "of_rat (b64val (iv_lo a))" x "of_rat (b64val (iv_hi a))"
        "of_rat (b64val (iv_lo b))" y "of_rat (b64val (iv_hi b))", OF _ _ _ _ s]
    have xy: "of_rat (b64val (iv_lo a)) \<le> x" "x \<le> of_rat (b64val (iv_hi a))"
      "of_rat (b64val (iv_lo b)) \<le> y" "y \<le> of_rat (b64val (iv_hi b))"
      using that a(6) b(6) by auto
    obtain p q where 1: "p \<in> {iv_lo a, iv_hi a}" "q \<in> {iv_lo b, iv_hi b}"
      "of_rat (b64val p / b64val q) \<le> x / y"
      using qc(1) [OF xy] unfolding of_rat_divide by blast
    obtain p' q' where 2: "p' \<in> {iv_lo a, iv_hi a}" "q' \<in> {iv_lo b, iv_hi b}"
      "x / y \<le> of_rat (b64val p' / b64val q')"
      using qc(2) [OF xy] unfolding of_rat_divide by blast
    show ?thesis by (rule c(3) [OF 1(1,2) 2(1,2) 1(3) 2(3)])
  qed
  with True wf nz c(1,2) show ?thesis by (auto simp: interval_div_join)
qed

section \<open>Negation, absolute value, minimum, maximum, powers\<close>

lemma flip_infinity [simp]:
  "flip POSITIVE_INFINITY = NEGATIVE_INFINITY" "flip NEGATIVE_INFINITY = POSITIVE_INFINITY"
  by (simp_all add: flip_def neg_def b64_const)

lemma not_fin_infinity [simp]: "\<not> fin POSITIVE_INFINITY" "\<not> fin NEGATIVE_INFINITY"
  by (simp_all add: fin_def)

lemma endpoint_flip:
  assumes "endpoint b"
  shows "endpoint (flip b)" "negate_non_nan_bits b = Inr (flip b)"
    "lower_real (flip b) x \<longleftrightarrow> upper_real b (- x)" "upper_real (flip b) x \<longleftrightarrow> lower_real b (- x)"
    "ep_rank (flip b) = (2 - fst (ep_rank b), - snd (ep_rank b))"
proof -
  have w: "word64 b" "\<not> nan b" using assms by (auto simp: endpoint_def)
  show "endpoint (flip b)" "negate_non_nan_bits b = Inr (flip b)"
    using w by (simp_all add: endpoint_def)
  have "(lower_real (flip b) x \<longleftrightarrow> upper_real b (- x)) \<and> (upper_real (flip b) x \<longleftrightarrow> lower_real b (- x))
    \<and> ep_rank (flip b) = (2 - fst (ep_rank b), - snd (ep_rank b))"
    using assms
  proof (cases rule: endpoint_cases)
    case 1
    then show ?thesis by (simp add: lower_real_def upper_real_def ep_rank_def)
  next
    case 2
    then show ?thesis by (simp add: lower_real_def upper_real_def ep_rank_def)
  next
    case 3
    then have "fin (flip b)" by simp
    with 3 show ?thesis
      by (simp add: lower_real_fin upper_real_fin of_rat_minus fin_rank) linarith
  qed
  then show "lower_real (flip b) x \<longleftrightarrow> upper_real b (- x)" "upper_real (flip b) x \<longleftrightarrow> lower_real b (- x)"
    "ep_rank (flip b) = (2 - fst (ep_rank b), - snd (ep_rank b))" by auto
qed

lemma interval_neg_sound_aux:
  assumes wf: "wf_interval a"
  shows "\<exists>c. interval_neg a = Inr c \<and> wf_interval c \<and> (\<forall>x. contains a x \<longrightarrow> contains c (- x))"
proof -
  have e: "endpoint (iv_lo a)" "endpoint (iv_hi a)" "ep_rank (iv_lo a) \<le> ep_rank (iv_hi a)"
    using wf by (auto simp: wf_interval_def)
  let ?c = "\<lparr>iv_lo = flip (iv_hi a), iv_hi = flip (iv_lo a)\<rparr>"
  have c: "contains ?c (- x)" if "contains a x" for x
    using that endpoint_flip [OF e(1)] endpoint_flip [OF e(2)] by (simp add: contains_def)
  have "wf_interval ?c"
    using endpoint_flip [OF e(1)] endpoint_flip [OF e(2)] e(3)
    by (auto simp: wf_interval_def less_eq_prod_def)
  with c e endpoint_flip(2) show ?thesis by (auto simp: interval_neg_def wf_interval_def)
qed

text \<open>\<open>_abs_bits\<close> clears the sign.\<close>

lemma abs_bits_spec:
  assumes "endpoint b"
  shows "abs_bits b = Inr (if neg b then flip b else b)"
proof -
  have w: "word64 b" "\<not> nan b" using assms by (auto simp: endpoint_def)
  then have "b AND NOT SIGN_MASK = (if neg b then flip b else b)"
    by (simp add: and_not_SIGN_MASK mag_cases flip_def)
  with w show ?thesis by (simp add: abs_bits_def)
qed

lemma rank_sign:
  assumes "endpoint b"
  shows "neg b \<Longrightarrow> ep_rank b \<le> (1, 0)" "\<not> neg b \<Longrightarrow> (1, 0) \<le> ep_rank b"
proof -
  have w: "word64 b" using assms by (simp add: endpoint_def)
  then have "0 \<le> positive_finite_value (mag b)"
    using word64_mag positive_finite_value_nonneg by simp
  with assms show "neg b \<Longrightarrow> ep_rank b \<le> (1, 0)" "\<not> neg b \<Longrightarrow> (1, 0) \<le> ep_rank b"
    by (auto simp: ep_rank_def b64val_def)
qed

lemma abs_bits_rank:
  assumes "endpoint b"
  obtains c where "abs_bits b = Inr c" "endpoint c"
    "(1, 0) \<le> ep_rank b \<Longrightarrow> ep_rank c = ep_rank b"
    "ep_rank b \<le> (1, 0) \<Longrightarrow> ep_rank c = ep_rank (flip b)"
proof (cases "neg b")
  case True
  have "ep_rank (flip b) = ep_rank b" if "(1, 0) \<le> ep_rank b"
  proof -
    have "ep_rank b = (1, 0)" using that rank_sign(1) [OF assms True] by (rule antisym [rotated])
    then show ?thesis using endpoint_flip(5) [OF assms] by simp
  qed
  then show ?thesis
    using that [of "flip b"] True abs_bits_spec [OF assms] endpoint_flip(1) [OF assms] by simp
next
  case False
  have "ep_rank (flip b) = ep_rank b" if "ep_rank b \<le> (1, 0)"
  proof -
    have "ep_rank b = (1, 0)" using that rank_sign(2) [OF assms False] by (rule antisym)
    then show ?thesis using endpoint_flip(5) [OF assms] by simp
  qed
  then show ?thesis using that [of b] False abs_bits_spec [OF assms] assms by simp
qed

lemma real_of_rank:
  assumes "endpoint b" "endpoint c" "ep_rank b = ep_rank c"
  shows "lower_real b x \<longleftrightarrow> lower_real c x" "upper_real b x \<longleftrightarrow> upper_real c x"
  using assms lower_real_mono [of b c x] lower_real_mono [of c b x]
    upper_real_mono [of b c x] upper_real_mono [of c b x] by auto

lemma zero_bound_real [simp]: "lower_real POSITIVE_ZERO x \<longleftrightarrow> 0 \<le> x" "upper_real POSITIVE_ZERO x \<longleftrightarrow> x \<le> 0"
  using zero_word_value [of POSITIVE_ZERO] by (simp_all add: lower_real_fin upper_real_fin)

lemma rank_zero_real:
  assumes "endpoint b"
  shows "(1, 0) \<le> ep_rank b \<Longrightarrow> lower_real b x \<Longrightarrow> 0 \<le> x" "ep_rank b \<le> (1, 0) \<Longrightarrow> upper_real b x \<Longrightarrow> x \<le> 0"
  using assms lower_real_mono [of POSITIVE_ZERO b x] upper_real_mono [of POSITIVE_ZERO b x] by auto

lemma interval_abs_sound_aux:
  assumes wf: "wf_interval a"
  shows "\<exists>c. interval_abs a = Inr c \<and> wf_interval c \<and> (\<forall>x. contains a x \<longrightarrow> contains c \<bar>x\<bar>)"
proof -
  have e: "endpoint (iv_lo a)" "endpoint (iv_hi a)" "ep_rank (iv_lo a) \<le> ep_rank (iv_hi a)"
    using wf by (auto simp: wf_interval_def)
  note fl = endpoint_flip [OF e(1)] endpoint_flip [OF e(2)]
  obtain l where l: "abs_bits (iv_lo a) = Inr l" "endpoint l"
    "(1, 0) \<le> ep_rank (iv_lo a) \<Longrightarrow> ep_rank l = ep_rank (iv_lo a)"
    "ep_rank (iv_lo a) \<le> (1, 0) \<Longrightarrow> ep_rank l = ep_rank (flip (iv_lo a))"
    by (rule abs_bits_rank [OF e(1)]) blast
  obtain h where h: "abs_bits (iv_hi a) = Inr h" "endpoint h"
    "(1, 0) \<le> ep_rank (iv_hi a) \<Longrightarrow> ep_rank h = ep_rank (iv_hi a)"
    "ep_rank (iv_hi a) \<le> (1, 0) \<Longrightarrow> ep_rank h = ep_rank (flip (iv_hi a))"
    by (rule abs_bits_rank [OF e(2)]) blast
  consider "(1, 0) \<le> ep_rank (iv_lo a)" | "ep_rank (iv_lo a) < (1, 0)" "ep_rank (iv_hi a) \<le> (1, 0)"
    | "ep_rank (iv_lo a) < (1, 0)" "(1, 0) < ep_rank (iv_hi a)"
    by force
  then show ?thesis
  proof cases
    case 1
    then have r: "ep_rank l = ep_rank (iv_lo a)" "ep_rank h = ep_rank (iv_hi a)"
      using l(3) h(3) e(3) by (auto intro: order_trans)
    have "interval_abs a = Inr \<lparr>iv_lo = l, iv_hi = h\<rparr>"
      using 1 e l h r by (simp add: interval_abs_def not_less [symmetric])
    moreover have "contains \<lparr>iv_lo = l, iv_hi = h\<rparr> \<bar>x\<bar>" if "contains a x" for x
      using that rank_zero_real(1) [OF e(1) 1, of x] real_of_rank(1) [OF l(2) e(1) r(1)]
        real_of_rank(2) [OF h(2) e(2) r(2)] by (simp add: contains_def)
    ultimately show ?thesis using l h r e by (auto simp: wf_interval_def)
  next
    case 2
    then have r: "ep_rank l = ep_rank (flip (iv_lo a))" "ep_rank h = ep_rank (flip (iv_hi a))"
      using l(4) h(4) by auto
    have hl: "ep_rank h \<le> ep_rank l" using r fl e(3) by (auto simp: less_eq_prod_def)
    have "interval_abs a = Inr \<lparr>iv_lo = h, iv_hi = l\<rparr>"
      using 2 e l h hl by (simp add: interval_abs_def not_less [symmetric])
    moreover have "contains \<lparr>iv_lo = h, iv_hi = l\<rparr> \<bar>x\<bar>" if "contains a x" for x
      using that rank_zero_real(2) [OF e(2) 2(2), of x] real_of_rank(2) [OF l(2) fl(1) r(1)]
        real_of_rank(1) [OF h(2) fl(6) r(2)] fl by (simp add: contains_def)
    ultimately show ?thesis using l h hl by (auto simp: wf_interval_def)
  next
    case 3
    then have r: "ep_rank l = ep_rank (flip (iv_lo a))" "ep_rank h = ep_rank (iv_hi a)"
      using l(4) h(3) by auto
    obtain m where m: "maximum_endpoint l h = Inr m" "endpoint m" "ep_rank m = max (ep_rank l) (ep_rank h)"
      using maximum_endpoint_spec [OF l(2) h(2)] by blast
    have pos: "(1, 0) \<le> ep_rank m" using 3(2) r m(3) by (auto simp: max_def)
    have "interval_abs a = Inr \<lparr>iv_lo = POSITIVE_ZERO, iv_hi = m\<rparr>"
      using 3 order_less_not_sym [OF 3(2)] e(1,2) l(1,2) h(1,2) m(1,2) pos by (simp add: interval_abs_def)
    moreover have "contains \<lparr>iv_lo = POSITIVE_ZERO, iv_hi = m\<rparr> \<bar>x\<bar>" if "contains a x" for x
    proof -
      have "upper_real l (- x)" "upper_real h x"
        using that real_of_rank(2) [OF l(2) fl(1) r(1)] real_of_rank(2) [OF h(2) e(2) r(2)] fl
        by (auto simp: contains_def)
      then have "upper_real m (- x)" "upper_real m x"
        using upper_real_mono [of m l] upper_real_mono [of m h] l h m by auto
      then show ?thesis by (cases "0 \<le> x") (auto simp: contains_def)
    qed
    ultimately show ?thesis using m pos by (auto simp: wf_interval_def)
  qed
qed

lemma real_bounds_mono: "upper_real h x \<Longrightarrow> y \<le> x \<Longrightarrow> upper_real h y" "lower_real l x \<Longrightarrow> x \<le> y \<Longrightarrow> lower_real l y"
  by (auto simp: upper_real_def lower_real_def)

lemma wf_interval_endpoints:
  "wf_interval i \<Longrightarrow> endpoint (iv_lo i) \<and> endpoint (iv_hi i) \<and> ep_rank (iv_lo i) \<le> ep_rank (iv_hi i)"
  by (simp add: wf_interval_def)

text \<open>The minimum endpoint bounds the minimum of two reals on both sides.\<close>

lemma minimum_endpoint_real:
  assumes "endpoint l" "endpoint r" "endpoint m" "ep_rank m = min (ep_rank l) (ep_rank r)"
  shows "lower_real l x \<Longrightarrow> lower_real r y \<Longrightarrow> lower_real m (min x y)"
    "upper_real l x \<Longrightarrow> upper_real r y \<Longrightarrow> upper_real m (min x y)"
proof -
  assume "lower_real l x" "lower_real r y"
  then have "lower_real m x" "lower_real m y"
    using assms lower_real_mono [of m l x] lower_real_mono [of m r y] by auto
  then show "lower_real m (min x y)" by (simp add: min_def)
next
  assume u: "upper_real l x" "upper_real r y"
  have "ep_rank m = ep_rank l \<or> ep_rank m = ep_rank r" by (simp add: assms(4) min_def)
  with u show "upper_real m (min x y)"
    using real_of_rank(2) [OF assms(3,1)] real_of_rank(2) [OF assms(3,2)]
      real_bounds_mono(1) [of m _ "min x y"] by fastforce
qed

lemma maximum_endpoint_real:
  assumes "endpoint l" "endpoint r" "endpoint m" "ep_rank m = max (ep_rank l) (ep_rank r)"
  shows "upper_real l x \<Longrightarrow> upper_real r y \<Longrightarrow> upper_real m (max x y)"
    "lower_real l x \<Longrightarrow> lower_real r y \<Longrightarrow> lower_real m (max x y)"
proof -
  assume "upper_real l x" "upper_real r y"
  then have "upper_real m x" "upper_real m y"
    using assms upper_real_mono [of m l x] upper_real_mono [of m r y] by auto
  then show "upper_real m (max x y)" by (simp add: max_def)
next
  assume u: "lower_real l x" "lower_real r y"
  have "ep_rank m = ep_rank l \<or> ep_rank m = ep_rank r" by (simp add: assms(4) max_def)
  with u show "lower_real m (max x y)"
    using real_of_rank(1) [OF assms(3,1)] real_of_rank(1) [OF assms(3,2)]
      real_bounds_mono(2) [of m _ "max x y"] by fastforce
qed

lemma interval_min_sound_aux:
  assumes wf: "wf_interval a" "wf_interval b"
  shows "\<exists>c. interval_min a b = Inr c \<and> wf_interval c \<and>
    (\<forall>x y. contains a x \<and> contains b y \<longrightarrow> contains c (min x y))"
proof -
  note a = wf_interval_endpoints [OF wf(1)] and b = wf_interval_endpoints [OF wf(2)]
  obtain l where l: "minimum_endpoint (iv_lo a) (iv_lo b) = Inr l" "endpoint l"
    "ep_rank l = min (ep_rank (iv_lo a)) (ep_rank (iv_lo b))"
    using minimum_endpoint_spec a b by blast
  obtain h where h: "minimum_endpoint (iv_hi a) (iv_hi b) = Inr h" "endpoint h"
    "ep_rank h = min (ep_rank (iv_hi a)) (ep_rank (iv_hi b))"
    using minimum_endpoint_spec a b by blast
  have "ep_rank l \<le> ep_rank h" unfolding l(3) h(3) using a b by (intro min.mono) auto
  moreover have "contains \<lparr>iv_lo = l, iv_hi = h\<rparr> (min x y)" if "contains a x" "contains b y" for x y
    using that minimum_endpoint_real(1) [OF _ _ l(2,3)] minimum_endpoint_real(2) [OF _ _ h(2,3)] a b
    by (auto simp: contains_def)
  ultimately show ?thesis using l h by (auto simp: interval_min_def wf_interval_def)
qed

lemma interval_max_sound_aux:
  assumes wf: "wf_interval a" "wf_interval b"
  shows "\<exists>c. interval_max a b = Inr c \<and> wf_interval c \<and>
    (\<forall>x y. contains a x \<and> contains b y \<longrightarrow> contains c (max x y))"
proof -
  note a = wf_interval_endpoints [OF wf(1)] and b = wf_interval_endpoints [OF wf(2)]
  obtain l where l: "maximum_endpoint (iv_lo a) (iv_lo b) = Inr l" "endpoint l"
    "ep_rank l = max (ep_rank (iv_lo a)) (ep_rank (iv_lo b))"
    using maximum_endpoint_spec a b by blast
  obtain h where h: "maximum_endpoint (iv_hi a) (iv_hi b) = Inr h" "endpoint h"
    "ep_rank h = max (ep_rank (iv_hi a)) (ep_rank (iv_hi b))"
    using maximum_endpoint_spec a b by blast
  have "ep_rank l \<le> ep_rank h" unfolding l(3) h(3) using a b by (intro max.mono) auto
  moreover have "contains \<lparr>iv_lo = l, iv_hi = h\<rparr> (max x y)" if "contains a x" "contains b y" for x y
    using that maximum_endpoint_real(2) [OF _ _ l(2,3)] maximum_endpoint_real(1) [OF _ _ h(2,3)] a b
    by (auto simp: contains_def)
  ultimately show ?thesis using l h by (auto simp: interval_max_def wf_interval_def)
qed

text \<open>The loop of \<open>interval_pow_nat\<close>, with its accumulator containing the power so far.\<close>

lemma pow_loop_sound:
  assumes "wf_interval a" "wf_interval r"
  shows "\<exists>c. pow_loop n a r = Inr c \<and> wf_interval c \<and>
    (\<forall>x y. contains a x \<longrightarrow> contains r y \<longrightarrow> contains c (y * x ^ n))"
  using assms
proof (induction n arbitrary: r)
  case (Suc n)
  obtain s where s: "interval_mul r a = Inr s" "wf_interval s"
    "\<And>y x. contains r y \<Longrightarrow> contains a x \<Longrightarrow> contains s (y * x)"
    using interval_mul_sound_aux [OF Suc.prems(2,1)] by blast
  obtain c where c: "pow_loop n a s = Inr c" "wf_interval c"
    "\<And>x y. contains a x \<Longrightarrow> contains s y \<Longrightarrow> contains c (y * x ^ n)"
    using Suc.IH [OF Suc.prems(1) s(2)] by blast
  have "contains c (y * x ^ Suc n)" if "contains a x" "contains r y" for x y
    using c(3) [OF that(1) s(3) [OF that(2,1)]] by (simp add: mult.assoc)
  with s c show ?case by auto
qed simp

lemma ONE_BITS_props: "word64 ONE_BITS" "fin ONE_BITS" "b64val ONE_BITS = 1"
  by (simp_all add: word64_def fin_def mag_def neg_def b64_const ONE_BITS_def b64val_def
      positive_finite_value_def)

lemma one_interval:
  "mk_interval ONE_BITS ONE_BITS = Inr \<lparr>iv_lo = ONE_BITS, iv_hi = ONE_BITS\<rparr>"
  "wf_interval \<lparr>iv_lo = ONE_BITS, iv_hi = ONE_BITS\<rparr>"
  "contains \<lparr>iv_lo = ONE_BITS, iv_hi = ONE_BITS\<rparr> 1"
  using ONE_BITS_props by (simp_all add: wf_interval_def endpoint_def contains_def lower_real_fin upper_real_fin)

lemma interval_pow_nat_sound_aux:
  assumes wf: "wf_interval a" and "0 \<le> n"
  shows "\<exists>c. interval_pow_nat a n = Inr c \<and> wf_interval c \<and>
    (\<forall>x. contains a x \<longrightarrow> contains c (x ^ nat n))"
proof -
  obtain c where c: "pow_loop (nat n) a \<lparr>iv_lo = ONE_BITS, iv_hi = ONE_BITS\<rparr> = Inr c" "wf_interval c"
    "\<forall>x y. contains a x \<longrightarrow> contains \<lparr>iv_lo = ONE_BITS, iv_hi = ONE_BITS\<rparr> y \<longrightarrow> contains c (y * x ^ nat n)"
    using pow_loop_sound [OF wf one_interval(2)] by blast
  then have "contains c (x ^ nat n)" if "contains a x" for x
    using that one_interval(3) by (metis mult_1)
  with c assms show ?thesis by (auto simp: interval_pow_nat_def one_interval)
qed

end
