(* ===== verification/Binary64_Claims.thy ===== *)
theory Binary64_Claims
  imports Interval_Sound
begin

text \<open>
  The properties of \<open>reference/exact_binary64.py\<close>: correct rounding of every rational, exactness
  on representable values, neighbours, the directed primitives, and the containment theorems of the
  interval operations.  Each is a few steps over \<open>Rounding\<close>, \<open>Interval\<close> and \<open>Interval_Sound\<close>.
\<close>

section \<open>The order of encodings\<close>

text \<open>The signed position of an encoding; endpoints are ordered as their positions.\<close>

definition ordinal :: "int \<Rightarrow> int" where
  "ordinal b = (if neg b then - mag b else mag b)"

definition successor :: "int \<Rightarrow> int \<Rightarrow> bool" where
  "successor b c \<longleftrightarrow> endpoint c \<and> (b \<noteq> POSITIVE_INFINITY \<longrightarrow> ep_rank b < ep_rank c) \<and>
     (\<forall>d. endpoint d \<and> ep_rank b < ep_rank d \<longrightarrow> ep_rank c \<le> ep_rank d)"

definition predecessor :: "int \<Rightarrow> int \<Rightarrow> bool" where
  "predecessor b c \<longleftrightarrow> endpoint c \<and> (b \<noteq> NEGATIVE_INFINITY \<longrightarrow> ep_rank c < ep_rank b) \<and>
     (\<forall>d. endpoint d \<and> ep_rank d < ep_rank b \<longrightarrow> ep_rank d \<le> ep_rank c)"

lemma b64val_le_iff:
  assumes "word64 b" "word64 d" "fin b" "fin d"
  shows "b64val b \<le> b64val d \<longleftrightarrow> ordinal b \<le> ordinal d"
proof -
  note b = finite_word_value [OF assms(1,3)] and d = finite_word_value [OF assms(2,4)]
  have m: "mag b < SIGN_MASK" "mag d < SIGN_MASK" using assms word64_mag by auto
  note le = positive_finite_value_le_iff [OF b(1) m(1) d(1) m(2)]
    positive_finite_value_le_iff [OF d(1) m(2) b(1) m(1)]
    positive_finite_value_le_iff [OF b(1) m(1), of 0] positive_finite_value_le_iff [OF d(1) m(2), of 0]
  have z: "(0::int) < SIGN_MASK" by (simp add: SIGN_MASK_def)
  show ?thesis
    using le b(1,3) d(1,3) z by (cases "neg b"; cases "neg d") (auto simp: ordinal_def b64val_def)
qed

lemma infinity_ordinal [simp]:
  "ordinal POSITIVE_INFINITY = POSITIVE_INFINITY" "ordinal NEGATIVE_INFINITY = - POSITIVE_INFINITY"
  by (simp_all add: ordinal_def)

lemma fin_ordinal: "word64 b \<Longrightarrow> fin b \<Longrightarrow> \<bar>ordinal b\<bar> < POSITIVE_INFINITY"
  using word64_mag [of b] by (auto simp: ordinal_def fin_def)

lemma rank_le_iff:
  assumes "endpoint b" "endpoint d"
  shows "ep_rank b \<le> ep_rank d \<longleftrightarrow> ordinal b \<le> ordinal d"
proof -
  have p: "0 < POSITIVE_INFINITY" by (simp add: POSITIVE_INFINITY_def)
  show ?thesis
    using p by (cases rule: endpoint_cases [OF assms(1)]; cases rule: endpoint_cases [OF assms(2)])
      (use fin_ordinal [of b] fin_ordinal [of d] b64val_le_iff [of b d] in \<open>auto simp: ep_rank_def\<close>)
qed

lemma rank_less_iff:
  "endpoint b \<Longrightarrow> endpoint d \<Longrightarrow> ep_rank b < ep_rank d \<longleftrightarrow> ordinal b < ordinal d"
  using rank_le_iff [of d b] by (simp add: not_le [symmetric])

text \<open>\<open>next_up_bits\<close> moves one position up and \<open>next_down_bits\<close> one position down.\<close>

lemma negative_word:
  assumes "0 \<le> m" "m < SIGN_MASK"
  shows "word64 (SIGN_MASK + m)" "neg (SIGN_MASK + m)" "mag (SIGN_MASK + m) = m"
proof -
  show "word64 (SIGN_MASK + m)" using assms by (simp add: word64_def SIGN_MASK_def WORD_LIMIT_def)
  show "neg (SIGN_MASK + m)" using assms by (simp add: neg_def)
  show "mag (SIGN_MASK + m) = m" using assms by (simp add: mag_def)
qed

lemma inf_less_sign: "POSITIVE_INFINITY < SIGN_MASK" "0 < POSITIVE_INFINITY"
  by (simp_all add: b64_const)

text \<open>The endpoint at a signed position.\<close>

lemma positive_position:
  assumes "0 \<le> m" "m \<le> POSITIVE_INFINITY"
  shows "endpoint m" "ordinal m = m"
  using word64_of_mag [of m] assms inf_less_sign by (auto simp: endpoint_def nan_def ordinal_def)

lemma negative_position:
  assumes "0 \<le> m" "m \<le> POSITIVE_INFINITY"
  shows "endpoint (SIGN_MASK + m)" "ordinal (SIGN_MASK + m) = - m"
  using negative_word [of m] assms inf_less_sign by (auto simp: endpoint_def nan_def ordinal_def)

lemma finite_shape:
  assumes "word64 b" "fin b"
  obtains m where "\<not> neg b" "b = m" "mag b = m" "0 \<le> m" "m < POSITIVE_INFINITY"
  | m where "neg b" "b = SIGN_MASK + m" "mag b = m" "0 \<le> m" "m < POSITIVE_INFINITY"
  using assms word64_mag [OF assms(1)] mag_cases [OF assms(1)] that(1) [of "mag b"] that(2) [of "mag b"]
  by (cases "neg b") (auto simp: fin_def)

lemma boundary_words:
  "MIN_FINITE = SIGN_MASK + (POSITIVE_INFINITY - 1)" "MAX_FINITE = POSITIVE_INFINITY - 1"
  "SIGN_MASK OR MIN_POSITIVE_SUBNORMAL = SIGN_MASK + 1" "SIGN_MASK OR 1 = SIGN_MASK + 1" "MIN_POSITIVE_SUBNORMAL = 1"
  by (simp_all add: b64_const)

lemma next_up_step:
  assumes "endpoint b"
  shows "\<exists>c. next_up_bits b = Inr c \<and> endpoint c \<and>
    ordinal c = (if b = POSITIVE_INFINITY then ordinal b else ordinal b + 1)"
  using assms
proof (cases rule: endpoint_cases)
  case 1
  then show ?thesis using negative_position [of "POSITIVE_INFINITY - 1"] inf_less_sign
    by (simp add: next_up_bits_def boundary_words)
next
  case 2
  then show ?thesis using assms by (simp add: next_up_bits_def)
next
  case 3
  then have nn: "\<not> nan b" by simp
  show ?thesis
  proof (cases rule: finite_shape [OF 3(2,1)])
    case (1 m)
    then show ?thesis
      using 3 nn positive_position [of "m + 1"] positive_position [of 1] inf_less_sign
      by (auto simp: next_up_bits_def and_SIGN_MASK ordinal_def boundary_words)
  next
    case (2 m)
    show ?thesis
    proof (cases "m = 0")
      case True
      with 2 3 nn show ?thesis using positive_position [of 1] inf_less_sign
        by (auto simp: next_up_bits_def ordinal_def boundary_words)
    next
      case False
      with 2 3 nn show ?thesis
        using negative_position [of "m - 1", unfolded add_diff_eq] negative_position [of m]
        by (auto simp: next_up_bits_def and_SIGN_MASK)
    qed
  qed
qed

lemma next_down_step:
  assumes "endpoint b"
  shows "\<exists>c. next_down_bits b = Inr c \<and> endpoint c \<and>
    ordinal c = (if b = NEGATIVE_INFINITY then ordinal b else ordinal b - 1)"
  using assms
proof (cases rule: endpoint_cases)
  case 1
  then show ?thesis using assms by (simp add: next_down_bits_def)
next
  case 2
  then show ?thesis using positive_position [of "POSITIVE_INFINITY - 1"] inf_less_sign
    by (simp add: next_down_bits_def boundary_words)
next
  case 3
  then have nn: "\<not> nan b" by simp
  show ?thesis
  proof (cases rule: finite_shape [OF 3(2,1)])
    case (1 m)
    show ?thesis
    proof (cases "m = 0")
      case True
      with 1 3 nn show ?thesis using negative_position [of 1] inf_less_sign
        by (auto simp: next_down_bits_def ordinal_def boundary_words)
    next
      case False
      with 1 3 nn show ?thesis using positive_position [of "m - 1"] positive_position [of m]
        by (auto simp: next_down_bits_def and_SIGN_MASK)
    qed
  next
    case (2 m)
    show ?thesis
    proof (cases "m = 0")
      case True
      with 2 3 nn show ?thesis using negative_position [of 1] inf_less_sign
        by (auto simp: next_down_bits_def ordinal_def boundary_words)
    next
      case False
      with 2 3 nn show ?thesis
        using negative_position [of "m + 1", folded add.assoc] negative_position [of m]
        by (auto simp: next_down_bits_def and_SIGN_MASK)
    qed
  qed
qed

section \<open>Rounding\<close>

text \<open>C22: Directed rounding is total and correct: \<open>round_down\<close> returns the greatest encoding at
  most the rational and \<open>round_up\<close> the least encoding at least it, for every rational.\<close>

theorem directed_rounding_correct:
  "(\<exists>b. round_down v = Inr b \<and> rounds_down v b) \<and> (\<exists>c. round_up v = Inr c \<and> rounds_up v c)"
  using round_down_total round_up_total by blast

text \<open>C23: Rounding to nearest is total and returns an encoding nearest to the rational, the one
  with even magnitude on a tie, and an infinity exactly from the IEEE overflow threshold on.\<close>

theorem nearest_rounding_correct: "\<exists>b. round_nearest_even v = Inr b \<and> rounds_nearest v b"
  by (rule round_nearest_even_total)

lemma same_value_same_word:
  assumes "word64 b" "fin b" "word64 c" "fin c" "b64val b = b64val c" "b64val b \<noteq> 0"
  shows "b = c"
proof -
  have "ordinal b = ordinal c"
    using b64val_le_iff [of b c] b64val_le_iff [of c b] assms by simp
  moreover have "mag b \<noteq> 0" "mag c \<noteq> 0" using assms zero_word_value by auto
  ultimately show ?thesis using assms word64_mag mag_cases
    by (smt (verit) ordinal_def)
qed

text \<open>
  Rounding a value that binary64 represents gives back its encoding, in all three
  directions (zero apart, which has two encodings).\<close>

theorem rounding_exact:
  assumes "word64 b" "fin b" "b64val b \<noteq> 0"
  shows "round_down (b64val b) = Inr b \<and> round_up (b64val b) = Inr b \<and>
    round_nearest_even (b64val b) = Inr b"
proof -
  obtain d where d: "round_down (b64val b) = Inr d" "rounds_down (b64val b) d"
    using round_down_total by blast
  obtain u where u: "round_up (b64val b) = Inr u" "rounds_up (b64val b) u"
    using round_up_total by blast
  obtain n where n: "round_nearest_even (b64val b) = Inr n" "rounds_nearest (b64val b) n"
    using round_nearest_even_total by blast
  have "b64val d = b64val b" "fin d" "word64 d"
    using d(2) assms by (auto simp: rounds_down_def ep_le_def antisym)
  moreover have "b64val u = b64val b" "fin u" "word64 u"
    using u(2) assms by (auto simp: rounds_up_def ep_ge_def antisym)
  moreover have "\<bar>b64val b\<bar> < RNE_OVERFLOW_THRESHOLD"
    using finite_word_value [OF assms(1,2)] rne_threshold by auto
  then have nb: "\<not> RNE_OVERFLOW_THRESHOLD \<le> b64val b" "\<not> b64val b \<le> - RNE_OVERFLOW_THRESHOLD" by auto
  have n': "word64 n" "fin n" "\<bar>b64val b - b64val n\<bar> \<le> \<bar>b64val b - b64val b\<bar>"
    using n(2) nb assms(1,2) by (auto simp: rounds_nearest_def simp del: diff_self)
  then have "b64val n = b64val b" by simp
  ultimately show ?thesis using d(1) u(1) n(1) n'(1,2) same_value_same_word assms by metis
qed

theorem rounding_exact_witness: "round_up (b64val ONE_BITS) = Inr ONE_BITS"
  using rounding_exact [of ONE_BITS] ONE_BITS_props by simp

text \<open>
  \<open>next_up_bits\<close> returns the least endpoint above a non-NaN encoding and
  \<open>next_down_bits\<close> the greatest below it; the infinities at the ends are fixed points.\<close>

theorem neighbours_correct:
  assumes "endpoint b"
  shows "(\<exists>c. next_up_bits b = Inr c \<and> successor b c) \<and> (\<exists>c. next_down_bits b = Inr c \<and> predecessor b c)"
  using next_up_step [OF assms] next_down_step [OF assms] assms
  by (auto simp: successor_def predecessor_def rank_less_iff rank_le_iff)

theorem neighbours_correct_witness: "endpoint ONE_BITS \<and> (\<exists>c. next_up_bits ONE_BITS = Inr c \<and> successor ONE_BITS c)"
  using neighbours_correct [of ONE_BITS] ONE_BITS_props by (simp add: endpoint_def)

section \<open>Directed arithmetic\<close>

text \<open>The four operations on finite words round the exact rational result, downwards, upwards
  or to nearest; division needs a nonzero divisor.\<close>

theorem directed_arithmetic_correct:
  assumes "word64 a" "fin a" "word64 b" "fin b"
  shows "(\<exists>c. add_down a b = Inr c \<and> rounds_down (b64val a + b64val b) c) \<and>
    (\<exists>c. add_up a b = Inr c \<and> rounds_up (b64val a + b64val b) c) \<and>
    (\<exists>c. add_rne a b = Inr c \<and> rounds_nearest (b64val a + b64val b) c) \<and>
    (\<exists>c. sub_down a b = Inr c \<and> rounds_down (b64val a - b64val b) c) \<and>
    (\<exists>c. sub_up a b = Inr c \<and> rounds_up (b64val a - b64val b) c) \<and>
    (\<exists>c. sub_rne a b = Inr c \<and> rounds_nearest (b64val a - b64val b) c) \<and>
    (\<exists>c. mul_down a b = Inr c \<and> rounds_down (b64val a * b64val b) c) \<and>
    (\<exists>c. mul_up a b = Inr c \<and> rounds_up (b64val a * b64val b) c) \<and>
    (\<exists>c. mul_rne a b = Inr c \<and> rounds_nearest (b64val a * b64val b) c)"
  using down.add_exact_spec [OF assms] up.add_exact_spec [OF assms] nearest.add_exact_spec [OF assms]
    down.sub_exact_spec [OF assms] up.sub_exact_spec [OF assms] nearest.sub_exact_spec [OF assms]
    down.mul_exact_spec [OF assms] up.mul_exact_spec [OF assms] nearest.mul_exact_spec [OF assms]
  by (simp add: add_down_def add_up_def add_rne_def sub_down_def sub_up_def sub_rne_def
      mul_down_def mul_up_def mul_rne_def)

theorem directed_arithmetic_correct_witness:
  "\<exists>c. add_up ONE_BITS ONE_BITS = Inr c \<and> rounds_up 2 c"
  using directed_arithmetic_correct [of ONE_BITS ONE_BITS] ONE_BITS_props by simp

text \<open>Division of finite words rounds the exact quotient, and raises
  \<open>InvalidBinary64Operation\<close> exactly on a zero divisor, in every direction.\<close>

theorem directed_division_correct:
  assumes "word64 a" "fin a" "word64 b" "fin b"
  shows "if b64val b = 0
    then div_down a b = Inl InvalidBinary64Operation \<and> div_up a b = Inl InvalidBinary64Operation \<and>
      div_rne a b = Inl InvalidBinary64Operation
    else (\<exists>c. div_down a b = Inr c \<and> rounds_down (b64val a / b64val b) c) \<and>
      (\<exists>c. div_up a b = Inr c \<and> rounds_up (b64val a / b64val b) c) \<and>
      (\<exists>c. div_rne a b = Inr c \<and> rounds_nearest (b64val a / b64val b) c)"
proof (cases "b64val b = 0")
  case True
  then show ?thesis using assms by (simp add: div_down_def div_up_def div_rne_def div_exact_def)
next
  case False
  then show ?thesis
    using down.div_exact_spec [OF assms] up.div_exact_spec [OF assms] nearest.div_exact_spec [OF assms]
    by (simp add: div_down_def div_up_def div_rne_def)
qed

theorem directed_division_correct_witness:
  "div_down ONE_BITS POSITIVE_ZERO = Inl InvalidBinary64Operation"
  using directed_division_correct [of ONE_BITS POSITIVE_ZERO] ONE_BITS_props by simp

text \<open>
  The sign of an exact zero: a sum of zeros of one sign keeps the sign, and a cancelling sum
  is \<open>-0\<close> when rounding down and \<open>+0\<close> otherwise; a zero product is \<open>-0\<close> when the signs differ.\<close>

theorem exact_zero_sign:
  assumes "word64 a" "fin a" "word64 b" "fin b"
  shows "(b64val a + b64val b = 0 \<longrightarrow> add_exact a b mode =
      Inr (if mag a = 0 \<and> mag b = 0 \<and> neg a = neg b then (if neg a then NEGATIVE_ZERO else POSITIVE_ZERO)
        else if mode = RoundDown then NEGATIVE_ZERO else POSITIVE_ZERO)) \<and>
    (b64val a * b64val b = 0 \<longrightarrow> mul_exact a b mode = Inr (if neg a \<noteq> neg b then NEGATIVE_ZERO else POSITIVE_ZERO))"
  using assms by (auto simp: add_exact_def zero_for_addition_def mul_exact_def signed_zero_def)

theorem exact_zero_sign_witness:
  "add_exact ONE_BITS (flip ONE_BITS) RoundDown = Inr NEGATIVE_ZERO"
  using exact_zero_sign [of ONE_BITS "flip ONE_BITS" RoundDown] ONE_BITS_props
  by (simp add: mag_def ONE_BITS_def SIGN_MASK_def)

section \<open>Intervals\<close>

text \<open>Interval addition, subtraction and multiplication never fail on well-formed operands, return
  a well-formed interval, and contain every exact result.\<close>

theorem interval_ring_sound:
  assumes "wf_interval a" "wf_interval b"
  shows "(\<exists>c. interval_add a b = Inr c \<and> wf_interval c \<and> (\<forall>x y. contains a x \<and> contains b y \<longrightarrow> contains c (x + y))) \<and>
    (\<exists>c. interval_sub a b = Inr c \<and> wf_interval c \<and> (\<forall>x y. contains a x \<and> contains b y \<longrightarrow> contains c (x - y))) \<and>
    (\<exists>c. interval_mul a b = Inr c \<and> wf_interval c \<and> (\<forall>x y. contains a x \<and> contains b y \<longrightarrow> contains c (x * y)))"
  using interval_add_sound_aux [OF assms] interval_sub_sound_aux [OF assms]
    interval_mul_sound_aux [OF assms] by blast

theorem interval_ring_sound_witness:
  "\<exists>c. interval_mul \<lparr>iv_lo = ONE_BITS, iv_hi = ONE_BITS\<rparr> \<lparr>iv_lo = ONE_BITS, iv_hi = ONE_BITS\<rparr> = Inr c \<and> contains c 1"
  using interval_ring_sound [OF one_interval(2) one_interval(2)] one_interval(3) by fastforce

text \<open>C4: Interval division raises \<open>InvalidBinary64Operation\<close> exactly when the divisor contains
  zero; otherwise the result is well formed and contains every exact quotient.\<close>

theorem interval_div_sound:
  assumes "wf_interval a" "wf_interval b"
  shows "if contains b 0 then interval_div a b = Inl InvalidBinary64Operation
    else \<exists>c. interval_div a b = Inr c \<and> wf_interval c \<and>
      (\<forall>x y. contains a x \<and> contains b y \<longrightarrow> contains c (x / y))"
  using interval_div_sound_aux [OF assms] assms by (auto simp: interval_div_def)

theorem interval_div_sound_witness:
  "interval_div \<lparr>iv_lo = ONE_BITS, iv_hi = ONE_BITS\<rparr> WHOLE_INTERVAL = Inl InvalidBinary64Operation"
  using interval_div_sound [OF one_interval(2) WHOLE_INTERVAL_props(1)] by simp

text \<open>Negation, absolute value, minimum and maximum of intervals never fail on well-formed
  operands and contain the exact results.\<close>

theorem interval_lattice_sound:
  assumes "wf_interval a" "wf_interval b"
  shows "(\<exists>c. interval_neg a = Inr c \<and> wf_interval c \<and> (\<forall>x. contains a x \<longrightarrow> contains c (- x))) \<and>
    (\<exists>c. interval_abs a = Inr c \<and> wf_interval c \<and> (\<forall>x. contains a x \<longrightarrow> contains c \<bar>x\<bar>)) \<and>
    (\<exists>c. interval_min a b = Inr c \<and> wf_interval c \<and> (\<forall>x y. contains a x \<and> contains b y \<longrightarrow> contains c (min x y))) \<and>
    (\<exists>c. interval_max a b = Inr c \<and> wf_interval c \<and> (\<forall>x y. contains a x \<and> contains b y \<longrightarrow> contains c (max x y)))"
  using interval_neg_sound_aux [OF assms(1)] interval_abs_sound_aux [OF assms(1)]
    interval_min_sound_aux [OF assms] interval_max_sound_aux [OF assms] by blast

theorem interval_lattice_sound_witness:
  "\<exists>c. interval_neg \<lparr>iv_lo = ONE_BITS, iv_hi = ONE_BITS\<rparr> = Inr c \<and> contains c (- 1)"
  using interval_lattice_sound [OF one_interval(2) one_interval(2)] one_interval(3) by fastforce

text \<open>\<open>interval_pow_nat\<close> rejects a negative exponent, and otherwise contains the power of every
  contained real, including the exponent zero.\<close>

theorem interval_pow_nat_sound:
  assumes "wf_interval a"
  shows "if n < 0 then interval_pow_nat a n = Inl ValueError
    else \<exists>c. interval_pow_nat a n = Inr c \<and> wf_interval c \<and> (\<forall>x. contains a x \<longrightarrow> contains c (x ^ nat n))"
  using interval_pow_nat_sound_aux [OF assms, of n] by (auto simp: interval_pow_nat_def)

theorem interval_pow_nat_sound_witness:
  "\<exists>c. interval_pow_nat WHOLE_INTERVAL 3 = Inr c \<and> contains c 8"
proof -
  obtain c where c: "interval_pow_nat WHOLE_INTERVAL 3 = Inr c"
    "\<forall>x. contains WHOLE_INTERVAL x \<longrightarrow> contains c (x ^ 3)"
    using interval_pow_nat_sound [OF WHOLE_INTERVAL_props(1), of 3] by auto
  from c(2) [rule_format, of 2] c(1) show ?thesis by simp
qed

end
