(* ===== verification/PyValue.thy ===== *)
theory PyValue
  imports Binary64
begin

text \<open>
  The Python values that the certificate modules exchange, with what the sources use of the
  standard library on them: \<open>==\<close>, dictionary access, \<open>str(int)\<close>,
  \<open>json.dumps(..., ensure_ascii=False, sort_keys=True, separators=(",", ":"))\<close> and
  \<open>str.encode("utf-8")\<close>.  A \<open>dict\<close> is the association list of its items in
  insertion order and its keys are strings, as in every value that \<open>json.loads\<close> builds; a
  \<open>float\<close> is its raw 64-bit word.
\<close>

datatype pyval =
    PNone
  | PBool bool
  | PInt int
  | PFloat int
  | PStr pystr
  | PList "pyval list"
  | PDict "(pystr \<times> pyval) list"
  | POther nat

text \<open>Every value that can be reached has dictionaries with distinct keys.\<close>

fun dict_wf :: "pyval \<Rightarrow> bool" where
  "dict_wf (PList vs) = list_all dict_wf vs"
| "dict_wf (PDict d) = (distinct (map fst d) \<and> list_all (\<lambda>(_, v). dict_wf v) d)"
| "dict_wf _ = True"

section \<open>Access and equality\<close>

text \<open>\<open>d[k]\<close> and the construction of a dictionary from a display with distinct keys.\<close>

definition dict_get :: "(pystr \<times> pyval) list \<Rightarrow> string \<Rightarrow> pyval res" where
  "dict_get d k = (case map_of d (lit k) of None \<Rightarrow> Inl KeyError | Some v \<Rightarrow> Inr v)"

definition py_dict :: "(string \<times> pyval) list \<Rightarrow> pyval" where
  "py_dict items = PDict (map (\<lambda>(k, v). (lit k, v)) items)"

lemma size_lookup [termination_simp]: "map_of d k = Some v \<Longrightarrow> size v < Suc (size_list (size_prod (\<lambda>_. 0) size) d)"
  by (induction d) (auto split: if_splits)

lemma size_item: "(k, v) \<in> set d \<Longrightarrow> size v < size (PDict d)"
  by (induction d) auto

lemma size_element: "v \<in> set vs \<Longrightarrow> size v < size (PList vs)"
  by (induction vs) auto

lemma size_zip_element: "(v, w) \<in> set (zip vs ws) \<Longrightarrow> size v < size (PList vs)"
  using set_zip_leftD size_element by fast

lemma size_dict_get: "dict_get d k = Inr v \<Longrightarrow> size v < size (PDict d)"
  using size_lookup [of d "lit k" v] by (auto simp: dict_get_def split: option.splits)

text \<open>The numeric value of a Python number, where it is a rational.\<close>

definition py_number :: "pyval \<Rightarrow> rat option" where
  "py_number v = (case v of PBool b \<Rightarrow> Some (if b then 1 else 0) | PInt i \<Rightarrow> Some (of_int i)
     | PFloat w \<Rightarrow> if fin w then Some (b64val w) else None | _ \<Rightarrow> None)"

text \<open>
  \<open>a == b\<close>.  Numbers compare by value, infinities with themselves, lists element by element, and
  dictionaries as finite maps; every other object is equal to itself only.
\<close>

function py_eq :: "pyval \<Rightarrow> pyval \<Rightarrow> bool" where
  "py_eq a b = (case (a, b) of
      (PList xs, PList ys) \<Rightarrow> length xs = length ys \<and> list_all (\<lambda>(x, y). py_eq x y) (zip xs ys)
    | (PDict d, PDict e) \<Rightarrow> length d = length e \<and>
        list_all (\<lambda>(k, v). case map_of e k of None \<Rightarrow> False | Some w \<Rightarrow> py_eq v w) d
    | (PFloat v, PFloat w) \<Rightarrow> (if fin v \<and> fin w then b64val v = b64val w else v = w \<and> \<not> nan v)
    | (PNone, PNone) \<Rightarrow> True
    | (PStr s, PStr t) \<Rightarrow> s = t
    | (POther m, POther n) \<Rightarrow> m = n
    | _ \<Rightarrow> (case (py_number a, py_number b) of (Some x, Some y) \<Rightarrow> x = y | _ \<Rightarrow> False))"
  by pat_completeness auto
termination
  by (relation "measure (\<lambda>(a, _). size a)") (auto dest: size_item size_zip_element simp del: pyval.size)

declare py_eq.simps [simp del]

section \<open>\<open>str(int)\<close>\<close>

fun dec_nat :: "nat \<Rightarrow> pystr" where
  "dec_nat n = (if n < 10 then [48 + n] else dec_nat (n div 10) @ [48 + n mod 10])"

declare dec_nat.simps [simp del]

definition dec_int :: "int \<Rightarrow> pystr" where
  "dec_int i = (if i < 0 then 45 # dec_nat (nat (- i)) else dec_nat (nat i))"

text \<open>CPython's default limit on the digits of a conversion between integers and decimal text.\<close>

definition INT_MAX_STR_DIGITS :: nat where "INT_MAX_STR_DIGITS = 4300"

definition int_digits_ok :: "int \<Rightarrow> bool" where
  "int_digits_ok i \<longleftrightarrow> length (dec_nat (nat \<bar>i\<bar>)) \<le> INT_MAX_STR_DIGITS"

lemma length_dec_nat_le: "n < 10 ^ Suc k \<Longrightarrow> length (dec_nat n) \<le> Suc k"
proof (induction k arbitrary: n)
  case 0
  then show ?case by (simp add: dec_nat.simps [of n])
next
  case (Suc k)
  show ?case
  proof (cases "n < 10")
    case False
    have "n div 10 < 10 ^ Suc k" using Suc.prems by (simp add: less_mult_imp_div_less)
    with Suc.IH False show ?thesis by (simp add: dec_nat.simps [of n])
  qed (simp add: dec_nat.simps [of n])
qed

lemma length_dec_nat_gt: "10 ^ k \<le> n \<Longrightarrow> k < length (dec_nat n)"
proof (induction k arbitrary: n)
  case 0
  then show ?case by (simp add: dec_nat.simps [of n])
next
  case (Suc k)
  have "(10 :: nat) * 1 \<le> 10 * 10 ^ k" by (intro mult_le_mono2) simp
  also have "\<dots> \<le> n" using Suc.prems by simp
  finally have "\<not> n < 10" by simp
  moreover have "10 ^ k \<le> n div 10" using div_le_mono [OF Suc.prems, of 10] by simp
  ultimately show ?case using Suc.IH by (simp add: dec_nat.simps [of n])
qed

lemma int_digits_ok_iff: "int_digits_ok i \<longleftrightarrow> \<bar>i\<bar> < 10 ^ INT_MAX_STR_DIGITS"
proof -
  have M: "INT_MAX_STR_DIGITS = Suc 4299" by (simp add: INT_MAX_STR_DIGITS_def)
  have "length (dec_nat n) \<le> INT_MAX_STR_DIGITS \<longleftrightarrow> n < 10 ^ INT_MAX_STR_DIGITS" for n
    using length_dec_nat_le [of n 4299] length_dec_nat_gt [of INT_MAX_STR_DIGITS n] unfolding M by linarith
  then have "int_digits_ok i \<longleftrightarrow> nat \<bar>i\<bar> < 10 ^ INT_MAX_STR_DIGITS" by (simp add: int_digits_ok_def)
  also have "\<dots> \<longleftrightarrow> \<bar>i\<bar> < int (10 ^ INT_MAX_STR_DIGITS)" by (rule nat_less_iff) simp
  finally show ?thesis by simp
qed

lemma int_digits_okI [simp]: "\<bar>i\<bar> < 10 ^ 30 \<Longrightarrow> int_digits_ok i"
  unfolding int_digits_ok_iff
  by (rule less_le_trans, assumption, rule power_increasing) (simp_all add: INT_MAX_STR_DIGITS_def)

section \<open>\<open>json.dumps\<close>\<close>

text \<open>The escapes of \<open>json.encoder\<close> with \<open>ensure_ascii=False\<close>.\<close>

definition json_escape :: "nat \<Rightarrow> pystr" where
  "json_escape c =
     (if c = 34 then [92, 34] else if c = 92 then [92, 92]
      else if c = 10 then [92, 110] else if c = 13 then [92, 114]
      else if c = 9 then [92, 116] else if c = 12 then [92, 102]
      else if c = 8 then [92, 98]
      else if c < 32 then [92, 117] @ to_hex 4 c
      else [c])"

definition json_string :: "pystr \<Rightarrow> pystr" where
  "json_string s = [34] @ concat (map json_escape s) @ [34]"

text \<open>\<open>",".join(parts)\<close>.\<close>

fun join_comma :: "pystr list \<Rightarrow> pystr" where
  "join_comma [] = []"
| "join_comma [x] = x"
| "join_comma (x # y # zs) = x @ [44] @ join_comma (y # zs)"

text \<open>
  The text of a value.  Both callers reject floats and non-JSON objects before they call
  \<open>json.dumps\<close>; no text is given to them here.
\<close>

function json_text :: "pyval \<Rightarrow> pystr" where
  "json_text PNone = lit ''null''"
| "json_text (PBool b) = (if b then lit ''true'' else lit ''false'')"
| "json_text (PInt i) = dec_int i"
| "json_text (PStr s) = json_string s"
| "json_text (PList vs) = [91] @ join_comma (map json_text vs) @ [93]"
| "json_text (PDict d) =
     [123] @ join_comma (map (\<lambda>(k, v). json_string k @ [58] @ json_text v) (sort_key fst d)) @ [125]"
| "json_text (PFloat _) = []"
| "json_text (POther _) = []"
  by pat_completeness auto
termination
  by (relation "measure size") (auto dest: size_item size_element simp del: pyval.size)

text \<open>
  What the encoder raises: \<open>ValueError\<close> for an integer of too many digits and \<open>RecursionError\<close> for nesting
  beyond the budget, whichever comes first in the text.
\<close>

function dump_check :: "budget \<Rightarrow> pyval \<Rightarrow> unit res" where
  "dump_check d (PInt i) = (if int_digits_ok i then Inr () else Inl ValueError)"
| "dump_check d (PList vs) = ebind (enter d) (\<lambda>d. ebind (map_res (dump_check d) vs) (\<lambda>_. Inr ()))"
| "dump_check d (PDict items) = ebind (enter d) (\<lambda>d.
     ebind (map_res (\<lambda>(_, v). dump_check d v) (sort_key fst items)) (\<lambda>_. Inr ()))"
| "dump_check d PNone = Inr ()"
| "dump_check d (PBool b) = Inr ()"
| "dump_check d (PStr s) = Inr ()"
| "dump_check d (PFloat w) = Inr ()"
| "dump_check d (POther n) = Inr ()"
  by pat_completeness auto
termination
  by (relation "measure (size \<circ> snd)") (auto dest: size_item size_element simp del: pyval.size)

definition json_dumps :: "budget \<Rightarrow> pyval \<Rightarrow> pystr res" where
  "json_dumps d v = ebind (dump_check d v) (\<lambda>_. Inr (json_text v))"

fun printable :: "pyval \<Rightarrow> bool" where
  "printable (PInt i) = int_digits_ok i"
| "printable (PList vs) = list_all printable vs"
| "printable (PDict d) = list_all (\<lambda>(_, v). printable v) d"
| "printable _ = True"

lemma map_res_unit: "(\<exists>us. map_res f xs = Inr us) \<longleftrightarrow> (\<forall>x \<in> set xs. \<exists>u. f x = Inr u)"
  by (induction xs) (auto simp: res_simps)

lemma map_res_Inl: "map_res f xs = Inl e \<Longrightarrow> \<exists>x \<in> set xs. f x = Inl e"
  by (induction xs) (auto simp: ebind_Inl_iff)

lemma dump_check_deep: "dump_check None v = Inr () \<longleftrightarrow> printable v"
proof (induction v rule: printable.induct)
  case (2 vs)
  have "dump_check None (PList vs) = Inr () \<longleftrightarrow> (\<exists>us. map_res (dump_check None) vs = Inr us)" by (simp add: res_simps)
  with 2 show ?case by (simp add: map_res_unit list_all_iff)
next
  case (3 d)
  have "dump_check None (PDict d) = Inr () \<longleftrightarrow> (\<exists>us. map_res (\<lambda>(_, v). dump_check None v) (sort_key fst d) = Inr us)"
    by (simp add: res_simps)
  with 3 show ?case by (simp add: map_res_unit list_all_iff split_beta) force
qed simp_all

lemma dump_check_Inl: "dump_check d v = Inl e \<Longrightarrow> e = ValueError \<or> (e = RecursionError \<and> d \<noteq> None)"
proof (induction d v rule: dump_check.induct)
  case (2 d vs)
  then show ?case by (auto simp: ebind_Inl_iff dest!: map_res_Inl enter_Inl dest: enter_Inr)
next
  case (3 d items)
  then show ?case by (fastforce simp: ebind_Inl_iff dest!: map_res_Inl enter_Inl dest: enter_Inr)
qed (auto split: if_splits)

lemma dump_check_printable: "printable v \<Longrightarrow> dump_check d v = Inl e \<Longrightarrow> e = RecursionError \<and> d \<noteq> None"
proof (induction d v rule: dump_check.induct)
  case (2 d vs)
  then show ?case by (fastforce simp: ebind_Inl_iff list_all_iff dest!: map_res_Inl enter_Inl dest: enter_Inr)
next
  case (3 d items)
  then show ?case by (fastforce simp: ebind_Inl_iff list_all_iff dest!: map_res_Inl enter_Inl dest: enter_Inr)
qed (auto split: if_splits)

lemma dump_check_None: "dump_check None v = (if printable v then Inr () else Inl ValueError)"
  using dump_check_deep [of v] dump_check_Inl [of None v] by (cases "dump_check None v") auto

lemma json_dumps_None: "json_dumps None v = (if printable v then Inr (json_text v) else Inl ValueError)"
  by (simp add: json_dumps_def dump_check_None)

lemma json_dumps_deep [simp]: "json_dumps None v = Inr t \<longleftrightarrow> printable v \<and> t = json_text v"
  by (auto simp: json_dumps_None)

lemma json_dumps_Inl: "json_dumps d v = Inl e \<Longrightarrow> e = ValueError \<or> (e = RecursionError \<and> d \<noteq> None)"
  by (auto simp: json_dumps_def ebind_Inl_iff dest: dump_check_Inl)

lemma json_dumps_Inr: "json_dumps d v = Inr t \<Longrightarrow> t = json_text v"
  by (auto simp: json_dumps_def res_simps)

section \<open>UTF-8\<close>

text \<open>
  \<open>errors="strict"\<close>: a surrogate code point raises.  (A Python string has no code point
  above \<open>0x10FFFF\<close>; the last branch is there to make the function total.)
\<close>

definition utf8_char :: "nat \<Rightarrow> nat list res" where
  "utf8_char c =
     (if c < 0x80 then Inr [c]
      else if c < 0x800 then Inr [0xC0 + c div 64, 0x80 + c mod 64]
      else if 0xD800 \<le> c \<and> c < 0xE000 then Inl UnicodeEncodeError
      else if c < 0x10000 then Inr [0xE0 + c div 4096, 0x80 + c div 64 mod 64, 0x80 + c mod 64]
      else if c < 0x110000 then
        Inr [0xF0 + c div 262144, 0x80 + c div 4096 mod 64, 0x80 + c div 64 mod 64, 0x80 + c mod 64]
      else Inl UnicodeEncodeError)"

fun utf8_text :: "pystr \<Rightarrow> nat list res" where
  "utf8_text [] = Inr []"
| "utf8_text (c # s) = ebind (utf8_char c) (\<lambda>u. ebind (utf8_text s) (\<lambda>w. Inr (u @ w)))"

definition utf8_encode :: "pystr \<Rightarrow> bytes res" where
  "utf8_encode s = ebind (utf8_text s) (\<lambda>u. Inr (map of_nat u))"

end
