(* ===== verification/Canonical.thy ===== *)
theory Canonical
  imports PyValue
begin

text \<open>
  Canonical JSON determines the value: two values of the JSON domain with the same text, or the
  same UTF-8 bytes, differ at most in the order of their dictionaries.  \<open>jnorm\<close> sorts every
  dictionary, and is the normal form that Python's \<open>==\<close> compares on values without Booleans.
\<close>

section \<open>Normal forms\<close>

function jnorm :: "pyval \<Rightarrow> pyval" where
  "jnorm (PList vs) = PList (map jnorm vs)"
| "jnorm (PDict d) = PDict (sort_key fst (map (\<lambda>(k, v). (k, jnorm v)) d))"
| "jnorm PNone = PNone"
| "jnorm (PBool b) = PBool b"
| "jnorm (PInt i) = PInt i"
| "jnorm (PFloat w) = PFloat w"
| "jnorm (PStr s) = PStr s"
| "jnorm (POther n) = POther n"
  by pat_completeness auto
termination
  by (relation "measure size") (auto dest: size_item size_element simp del: pyval.size)

text \<open>The text without sorting; on a normal form it is the text.\<close>

primrec raw_text :: "pyval \<Rightarrow> pystr" where
  "raw_text PNone = lit ''null''"
| "raw_text (PBool b) = (if b then lit ''true'' else lit ''false'')"
| "raw_text (PInt i) = dec_int i"
| "raw_text (PStr s) = json_string s"
| "raw_text (PList vs) = [91] @ join_comma (map raw_text vs) @ [93]"
| "raw_text (PDict d) =
     [123] @ join_comma (map (\<lambda>kv. json_string (fst kv) @ [58] @ snd kv) (map (map_prod id raw_text) d)) @ [125]"
| "raw_text (PFloat _) = []"
| "raw_text (POther _) = []"

lemma sort_key_map: "(\<And>x. f (g x) = f x) \<Longrightarrow> sort_key f (map g xs) = map g (sort_key f xs)"
proof (induction xs)
  case (Cons x xs)
  have "insort_key f (g y) (map g ys) = map g (insort_key f y ys)" for y ys
    using Cons.prems by (induction ys) auto
  with Cons show ?case by simp
qed simp

lemma json_text_raw: "json_text v = raw_text (jnorm v)"
proof (induction v rule: json_text.induct)
  case (6 d)
  let ?h = "\<lambda>(k, v). (k, jnorm v)"
  have *: "sort_key fst (map ?h d) = map ?h (sort_key fst d)" by (rule sort_key_map) auto
  have "map (\<lambda>(k, v). json_string k @ [58] @ json_text v) (sort_key fst d)
      = map (\<lambda>kv. json_string (fst kv) @ [58] @ snd kv)
          (map (map_prod id raw_text) (map ?h (sort_key fst d)))"
    using 6 by (auto intro!: map_cong)
  then show ?case by (simp only: json_text.simps jnorm.simps raw_text.simps *)
next
  case (5 vs)
  then show ?case by (auto intro!: arg_cong [of _ _ join_comma])
qed simp_all

section \<open>Tokens\<close>

text \<open>A rest of the text that cannot continue a number.\<close>

definition stops :: "pystr \<Rightarrow> bool" where
  "stops r \<longleftrightarrow> r = [] \<or> hd r < 48 \<or> 57 < hd r"

lemma dec_nat_digits: "list_all (\<lambda>c. 48 \<le> c \<and> c \<le> 57) (dec_nat n) \<and> dec_nat n \<noteq> []"
proof (induction n rule: dec_nat.induct)
  case (1 n)
  then show ?case by (subst (1 2) dec_nat.simps) auto
qed

definition dec_value :: "pystr \<Rightarrow> nat" where
  "dec_value s = foldl (\<lambda>acc c. 10 * acc + (c - 48)) 0 s"

lemma dec_value_dec_nat: "dec_value (dec_nat n) = n"
proof (induction n rule: dec_nat.induct)
  case (1 n)
  show ?case
  proof (cases "n < 10")
    case True
    then show ?thesis by (simp add: dec_nat.simps [of n] dec_value_def)
  next
    case False
    with 1 show ?thesis by (simp add: dec_nat.simps [of n] dec_value_def)
  qed
qed

lemma digits_split:
  assumes "list_all (\<lambda>c. 48 \<le> c \<and> c \<le> 57) u" "list_all (\<lambda>c. 48 \<le> c \<and> c \<le> 57) w"
    "stops r" "stops s" "u @ r = w @ s"
  shows "u = w \<and> r = s"
  using assms
proof (induction u arbitrary: w)
  case Nil
  then show ?case by (cases w) (auto simp: stops_def)
next
  case (Cons c u)
  then show ?case by (cases w) (auto simp: stops_def)
qed

lemma dec_nat_inj:
  assumes "dec_nat m @ r = dec_nat n @ s" "stops r" "stops s"
  shows "m = n \<and> r = s"
proof -
  have *: "dec_nat m = dec_nat n \<and> r = s"
    using digits_split [OF _ _ assms(2,3,1)] dec_nat_digits by blast
  have "m = dec_value (dec_nat m)" by (simp only: dec_value_dec_nat)
  also have "\<dots> = n" using * by (simp only: dec_value_dec_nat)
  finally show ?thesis using * by blast
qed

lemma hd_dec_nat: "\<exists>c u. dec_nat n = c # u \<and> 48 \<le> c \<and> c \<le> 57"
  using dec_nat_digits [of n] by (cases "dec_nat n") auto

lemma dec_int_inj:
  assumes eq: "dec_int i @ r = dec_int j @ s" and "stops r" "stops s"
  shows "i = j \<and> r = s"
proof (cases "i < 0"; cases "j < 0")
  assume "i < 0" "j < 0"
  then have "nat (- i) = nat (- j) \<and> r = s"
    using assms dec_nat_inj [of "nat (- i)" r "nat (- j)" s] by (simp add: dec_int_def)
  with \<open>i < 0\<close> \<open>j < 0\<close> show ?thesis by linarith
next
  assume "\<not> i < 0" "\<not> j < 0"
  then have "nat i = nat j \<and> r = s"
    using assms dec_nat_inj [of "nat i" r "nat j" s] by (simp add: dec_int_def)
  with \<open>\<not> i < 0\<close> \<open>\<not> j < 0\<close> show ?thesis by linarith
next
  assume "i < 0" "\<not> j < 0"
  then show ?thesis using eq hd_dec_nat [of "nat j"] by (auto simp: dec_int_def)
next
  assume "\<not> i < 0" "j < 0"
  then show ?thesis using eq hd_dec_nat [of "nat i"] by (auto simp: dec_int_def)
qed

text \<open>Escaped characters are a prefix code that never starts with the closing quote.\<close>

definition unescape :: "nat \<Rightarrow> nat" where
  "unescape e = (if e = 110 then 10 else if e = 114 then 13 else if e = 116 then 9
     else if e = 102 then 12 else if e = 98 then 8 else e)"

lemma json_escape_cases:
  obtains "json_escape c = [c]" "c \<noteq> 92" "c \<noteq> 34"
  | e where "json_escape c = [92, e]" "e \<noteq> 117" "unescape e = c"
  | "json_escape c = [92, 117] @ to_hex 4 c" "c < 32"
  unfolding json_escape_def unescape_def
  by (cases "c \<in> {34, 92, 10, 13, 9, 12, 8}"; cases "c < 32") auto

lemma json_escape_inj:
  assumes eq: "json_escape c @ r = json_escape d @ s"
  shows "c = d \<and> r = s"
proof -
  have h: "c = d \<and> r = s" if "c < 32" "d < 32" "to_hex 4 c @ r = to_hex 4 d @ s"
  proof -
    have v: "from_hex (to_hex 4 x) = x" if "x < 32" for x
      unfolding from_hex_to_hex using that by simp
    have eq: "to_hex 4 c = to_hex 4 d" "r = s"
      using that(3) append_eq_append_conv [of "to_hex 4 c" "to_hex 4 d" r s] by auto
    have "c = from_hex (to_hex 4 d)" using v [OF that(1)] eq(1) by metis
    then show ?thesis using v [OF that(2)] eq(2) by metis
  qed
  define u w where "u = json_escape c" and "w = json_escape d"
  with eq have uw: "u @ r = w @ s" by simp
  from u_def consider (c1) "u = [c]" "c \<noteq> 92" | (c2) e where "u = [92, e]" "e \<noteq> 117" "unescape e = c"
    | (c3) "u = [92, 117] @ to_hex 4 c" "c < 32"
    by (metis json_escape_cases)
  note c = this
  from w_def consider (d1) "w = [d]" "d \<noteq> 92" | (d2) e where "w = [92, e]" "e \<noteq> 117" "unescape e = d"
    | (d3) "w = [92, 117] @ to_hex 4 d" "d < 32"
    by (metis json_escape_cases)
  note d = this
  show ?thesis
  proof (cases rule: c)
    case c1
    with uw show ?thesis by (cases rule: d) simp_all
  next
    case (c2 e)
    with uw show ?thesis by (cases rule: d) auto
  next
    case c3
    with uw h show ?thesis by (cases rule: d) simp_all
  qed
qed

lemma json_escape_no_quote: "\<exists>x u. json_escape c = x # u \<and> x \<noteq> 34"
  by (auto simp: json_escape_def)

lemma json_string_inj: "json_string a @ r = json_string b @ s \<Longrightarrow> a = b \<and> r = s"
proof (induction a arbitrary: b)
  case Nil
  show ?case
  proof (cases b)
    case Nil
    with \<open>json_string [] @ r = json_string b @ s\<close> show ?thesis by (simp add: json_string_def)
  next
    case (Cons d b')
    with Nil.prems json_escape_no_quote [of d] show ?thesis by (fastforce simp: json_string_def)
  qed
next
  case (Cons c a)
  show ?case
  proof (cases b)
    case Nil
    with Cons.prems json_escape_no_quote [of c] show ?thesis by (fastforce simp: json_string_def)
  next
    case b: (Cons d b')
    with Cons.prems have "json_escape c @ concat (map json_escape a) @ [34] @ r
        = json_escape d @ concat (map json_escape b') @ [34] @ s"
      by (simp add: json_string_def)
    from json_escape_inj [OF this] have "c = d" "json_string a @ r = json_string b' @ s"
      by (auto simp: json_string_def)
    with Cons.IH b show ?thesis by blast
  qed
qed

section \<open>Values\<close>

text \<open>The values of the JSON domain: no float and no foreign object.\<close>

fun json_dom :: "pyval \<Rightarrow> bool" where
  "json_dom (PList vs) = list_all json_dom vs"
| "json_dom (PDict d) = list_all (\<lambda>(_, v). json_dom v) d"
| "json_dom (PFloat _) = False"
| "json_dom (POther _) = False"
| "json_dom _ = True"

text \<open>The first character tells the kind of a value.\<close>

definition kind_char :: "pyval \<Rightarrow> nat \<Rightarrow> bool" where
  "kind_char v c \<longleftrightarrow> (case v of PNone \<Rightarrow> c = 110 | PBool b \<Rightarrow> c = (if b then 116 else 102)
     | PInt _ \<Rightarrow> c = 45 \<or> 48 \<le> c \<and> c \<le> 57 | PStr _ \<Rightarrow> c = 34 | PList _ \<Rightarrow> c = 91
     | PDict _ \<Rightarrow> c = 123 | _ \<Rightarrow> False)"

lemma raw_text_hd: "json_dom v \<Longrightarrow> \<exists>c u. raw_text v = c # u \<and> kind_char v c"
proof (cases v)
  case (PInt i)
  then show ?thesis
    using hd_dec_nat [of "nat i"] by (auto simp: kind_char_def dec_int_def)
qed (auto simp: kind_char_def lit_def json_string_def)

text \<open>
  The text of a value of the domain is uniquely readable: a common prefix split tells both the
  values and the rests apart.
\<close>

definition readable :: "pyval \<Rightarrow> bool" where
  "readable v \<longleftrightarrow> (\<forall>w r s. json_dom w \<and> raw_text v @ r = raw_text w @ s \<and> stops r \<and> stops s \<longrightarrow> v = w \<and> r = s)"

lemma join_comma_Cons: "xs \<noteq> [] \<Longrightarrow> join_comma (x # xs) = x @ [44] @ join_comma xs"
  by (cases xs) auto

text \<open>Joined uniquely readable items, closed by a bracket, are uniquely readable.\<close>

lemma join_readable:
  assumes "\<And>x y r s. x \<in> set xs \<Longrightarrow> y \<in> set ys \<Longrightarrow> f x @ r = f y @ s \<Longrightarrow> stops r \<Longrightarrow> stops s \<Longrightarrow> x = y \<and> r = s"
    and "\<And>x. x \<in> set xs \<union> set ys \<Longrightarrow> \<exists>c u. f x = c # u \<and> c \<noteq> e"
    and "e < 48 \<or> 57 < e" "e \<noteq> 44"
    and "join_comma (map f xs) @ [e] @ r = join_comma (map f ys) @ [e] @ s"
  shows "xs = ys \<and> r = s"
  using assms(1,2,5)
proof (induction xs arbitrary: ys)
  case Nil
  show ?case
  proof (cases ys)
    case Nil
    with \<open>join_comma (map f []) @ [e] @ r = join_comma (map f ys) @ [e] @ s\<close> show ?thesis by simp
  next
    case (Cons y zs)
    then obtain c u where "f y = c # u" "c \<noteq> e" using Nil.prems(2) [of y] by auto
    with Cons Nil.prems(3) show ?thesis by (cases zs) auto
  qed
next
  case (Cons x xs)
  obtain y zs where ys: "ys = y # zs"
  proof (cases ys)
    case Nil
    then show ?thesis using Cons.prems(2) [of x] Cons.prems(3) by (cases xs) auto
  qed
  let ?t = "\<lambda>zs r. (if zs = [] then [e] @ r else [44] @ join_comma (map f zs) @ [e] @ r)"
  have t: "join_comma (map f (z # zs)) @ [e] @ r = f z @ ?t zs r" for z zs r
    by (simp add: join_comma_Cons)
  have "stops (?t zs r)" for zs r using assms(3) by (simp add: stops_def)
  moreover have "f x @ ?t xs r = f y @ ?t zs s" using Cons.prems(3) unfolding ys t .
  ultimately have xy: "x = y" "?t xs r = ?t zs s"
    using Cons.prems(1) [of x y "?t xs r" "?t zs s"] ys by (metis list.set_intros(1))+
  show ?case
  proof (cases "xs = [] \<or> zs = []")
    case True
    with xy ys assms(4) show ?thesis by (auto split: if_splits)
  next
    case False
    with xy(2) have "join_comma (map f xs) @ [e] @ r = join_comma (map f zs) @ [e] @ s" by simp
    with Cons.IH [of zs] Cons.prems(1,2) ys xy(1) show ?thesis by auto
  qed
qed

lemma kind_char_same:
  assumes "kind_char v c" "kind_char w c"
  shows "case v of PInt _ \<Rightarrow> (\<exists>j. w = PInt j) | PStr _ \<Rightarrow> (\<exists>t. w = PStr t) | PList _ \<Rightarrow> (\<exists>t. w = PList t)
    | PDict _ \<Rightarrow> (\<exists>e. w = PDict e) | _ \<Rightarrow> v = w"
  using assms by (cases v) (cases w; simp add: kind_char_def split: if_splits)+

lemma kind_char_open: "kind_char v c \<Longrightarrow> c \<noteq> 93 \<and> c \<noteq> 125"
  by (cases v) (auto simp: kind_char_def split: if_splits)

lemma raw_text_same_kind:
  assumes "json_dom v" "json_dom w" "raw_text v @ r = raw_text w @ s"
  obtains c where "kind_char v c" "kind_char w c"
  using raw_text_hd [OF assms(1)] raw_text_hd [OF assms(2)] assms(3) that by auto

lemma raw_text_readable:
  "json_dom v \<Longrightarrow> json_dom w \<Longrightarrow> raw_text v @ r = raw_text w @ s \<Longrightarrow> stops r \<Longrightarrow> stops s \<Longrightarrow> v = w \<and> r = s"
proof (induction v arbitrary: w r s)
  case (PInt i)
  then obtain c where "kind_char (PInt i) c" "kind_char w c" by (metis raw_text_same_kind)
  from kind_char_same [OF this] obtain j where "w = PInt j" by auto
  with PInt dec_int_inj [of i r j s] show ?case by simp
next
  case (PStr t)
  then obtain c where "kind_char (PStr t) c" "kind_char w c" by (metis raw_text_same_kind)
  from kind_char_same [OF this] obtain u where "w = PStr u" by auto
  with PStr json_string_inj [of t r u s] show ?case by simp
next
  case (PList xs)
  then obtain c where "kind_char (PList xs) c" "kind_char w c" by (metis raw_text_same_kind)
  from kind_char_same [OF this] obtain ys where w: "w = PList ys" by auto
  have dom: "json_dom x" if "x \<in> set xs \<union> set ys" for x
    using that PList.prems(1,2) w by (auto simp: list_all_iff)
  have "xs = ys \<and> r = s"
  proof (rule join_readable)
    show "x = y \<and> r' = s'" if "x \<in> set xs" "y \<in> set ys" "raw_text x @ r' = raw_text y @ s'" "stops r'" "stops s'"
      for x y r' s' using PList.IH [OF that(1)] dom that by blast
    show "\<exists>c u. raw_text x = c # u \<and> c \<noteq> 93" if "x \<in> set xs \<union> set ys" for x
      using raw_text_hd [OF dom [OF that]] kind_char_open by blast
    show "join_comma (map raw_text xs) @ [93] @ r = join_comma (map raw_text ys) @ [93] @ s"
      using PList.prems(3) w by simp
  qed auto
  with w show ?case by simp
next
  case (PDict d)
  then obtain c where "kind_char (PDict d) c" "kind_char w c" by (metis raw_text_same_kind)
  from kind_char_same [OF this] obtain e where w: "w = PDict e" by auto
  let ?f = "\<lambda>kv. json_string (fst kv) @ [58] @ raw_text (snd kv)"
  have dom: "json_dom (snd x)" if "x \<in> set d \<union> set e" for x
    using that PDict.prems(1,2) w by (auto simp: list_all_iff)
  have "d = e \<and> r = s"
  proof (rule join_readable)
    fix x y r' s'
    assume xy: "x \<in> set d" "y \<in> set e" and eq: "?f x @ r' = ?f y @ s'" and st: "stops r'" "stops s'"
    from eq have "fst x = fst y" "raw_text (snd x) @ r' = raw_text (snd y) @ s'"
      using json_string_inj [of "fst x" "[58] @ raw_text (snd x) @ r'" "fst y" "[58] @ raw_text (snd y) @ s'"]
      by auto
    then show "x = y \<and> r' = s'"
      using PDict.IH [OF xy(1), of "snd x" "snd y" r' s'] dom xy st
      by (auto simp: prod_eq_iff prod_set_defs)
  next
    show "\<exists>c u. ?f x = c # u \<and> c \<noteq> 125" for x by (simp add: json_string_def)
    show "join_comma (map ?f d) @ [125] @ r = join_comma (map ?f e) @ [125] @ s"
      using PDict.prems(3) w by (simp add: comp_def)
  qed auto
  with w show ?case by simp
next
  case PNone
  then obtain c where "kind_char PNone c" "kind_char w c" by (metis raw_text_same_kind)
  from kind_char_same [OF this] PNone show ?case by auto
next
  case (PBool p)
  then obtain c where "kind_char (PBool p) c" "kind_char w c" by (metis raw_text_same_kind)
  from kind_char_same [OF this] PBool show ?case by auto
qed simp_all

section \<open>UTF-8\<close>

lemma utf8_char_cases:
  assumes "utf8_char c = Inr u"
  obtains "c < 0x80" "u = [c]"
  | "0x80 \<le> c" "c < 0x800" "u = [0xC0 + c div 64, 0x80 + c mod 64]"
  | "0x800 \<le> c" "c < 0x10000" "u = [0xE0 + c div 4096, 0x80 + c div 64 mod 64, 0x80 + c mod 64]"
  | "0x10000 \<le> c" "c < 0x110000"
    "u = [0xF0 + c div 262144, 0x80 + c div 4096 mod 64, 0x80 + c div 64 mod 64, 0x80 + c mod 64]"
  using assms by (auto simp: utf8_char_def not_less split: if_splits)

lemma div_mod_64: "(c::nat) div 4096 = c div 64 div 64" "c div 262144 = c div 4096 div 64"
  by (simp_all add: div_mult2_eq [symmetric])

lemma same_digits: "(c::nat) div 64 = d div 64 \<Longrightarrow> c mod 64 = d mod 64 \<Longrightarrow> c = d"
  by (metis div_mult_mod_eq)

lemma utf8_char_inj:
  assumes c: "utf8_char c = Inr u" and d: "utf8_char d = Inr w" and eq: "u @ r = w @ s"
  shows "c = d \<and> r = s"
  using c
proof (cases rule: utf8_char_cases)
  case 1
  then show ?thesis using d eq by (elim utf8_char_cases) auto
next
  case 2
  then have b: "c div 64 < 32" by auto
  show ?thesis using d
  proof (cases rule: utf8_char_cases)
    case 2
    with \<open>u = _\<close> eq have "c div 64 = d div 64" "c mod 64 = d mod 64" "r = s" by auto
    then show ?thesis using same_digits by metis
  qed (use 2 b eq in auto)
next
  case 3
  then have b: "c div 4096 < 16" by auto
  show ?thesis using d
  proof (cases rule: utf8_char_cases)
    case 2
    then have "d div 64 < 32" by auto
    with 2 3 eq show ?thesis by auto
  next
    case 3
    with \<open>u = _\<close> eq have "c div 64 div 64 = d div 64 div 64" "c div 64 mod 64 = d div 64 mod 64"
      "c mod 64 = d mod 64" "r = s" by (auto simp: div_mod_64)
    then show ?thesis using same_digits by metis
  qed (use 3 b eq in auto)
next
  case 4
  show ?thesis using d
  proof (cases rule: utf8_char_cases)
    case 2
    then have "d div 64 < 32" by auto
    with 2 4 eq show ?thesis by auto
  next
    case 3
    then have "d div 4096 < 16" by auto
    with 3 4 eq show ?thesis by auto
  next
    case 4
    with \<open>u = _\<close> eq have "c div 4096 div 64 = d div 4096 div 64" "c div 4096 mod 64 = d div 4096 mod 64"
      "c div 64 mod 64 = d div 64 mod 64" "c mod 64 = d mod 64" "r = s" by (auto simp: div_mod_64)
    then show ?thesis using same_digits div_mod_64(1) by metis
  qed (use 4 eq in auto)
qed

lemma utf8_char_bytes: "utf8_char c = Inr u \<Longrightarrow> u \<noteq> [] \<and> list_all (\<lambda>x. x < 256) u"
  by (elim utf8_char_cases) auto

lemma utf8_text_bytes: "utf8_text a = Inr u \<Longrightarrow> list_all (\<lambda>x. x < 256) u"
  by (induction a arbitrary: u) (auto simp: res_simps dest: utf8_char_bytes)

lemma utf8_text_inj: "utf8_text a = Inr u \<Longrightarrow> utf8_text b = Inr u \<Longrightarrow> a = b"
proof (induction a arbitrary: b u)
  case Nil
  then show ?case by (cases b) (auto simp: res_simps dest: utf8_char_bytes)
next
  case (Cons c a)
  then obtain x y where xy: "utf8_char c = Inr x" "utf8_text a = Inr y" "u = x @ y"
    by (auto simp: res_simps)
  then have "u \<noteq> []" using utf8_char_bytes by auto
  then obtain d b' where b: "b = d # b'" using Cons.prems(2) by (cases b) auto
  then obtain z v where zv: "utf8_char d = Inr z" "utf8_text b' = Inr v" "u = z @ v"
    using Cons.prems(2) by (auto simp: res_simps)
  have "c = d \<and> y = v" by (rule utf8_char_inj [OF xy(1) zv(1)]) (use xy(3) zv(3) in simp)
  then show ?case using Cons.IH [OF xy(2)] zv(2) b by simp
qed

lemma map_of_nat_inj:
  "list_all (\<lambda>x. x < 256) u \<Longrightarrow> list_all (\<lambda>x. x < 256) v \<Longrightarrow>
     map (of_nat :: nat \<Rightarrow> 8 word) u = map of_nat v \<Longrightarrow> u = v"
proof (induction u arbitrary: v)
  case (Cons x u)
  then obtain y w where v: "v = y # w" by (cases v) auto
  have "x < 256" "y < 256" using Cons.prems v by auto
  then have "unat (of_nat x :: 8 word) = x" "unat (of_nat y :: 8 word) = y"
    by (simp_all add: unat_of_nat)
  moreover have "(of_nat x :: 8 word) = of_nat y" using Cons.prems(3) unfolding v list.map list.inject by blast
  ultimately have "x = y" by metis
  with Cons v show ?case by auto
qed simp

lemma utf8_encode_inj: "utf8_encode a = Inr u \<Longrightarrow> utf8_encode b = Inr u \<Longrightarrow> a = b"
  by (auto simp: utf8_encode_def res_simps) (metis map_of_nat_inj utf8_text_bytes utf8_text_inj)

section \<open>Canonical text determines the value\<close>

lemma printable_jnorm [simp]: "printable (jnorm v) = printable v"
  by (induction v rule: jnorm.induct) (auto simp: list_all_iff)

lemma jnorm_dom: "json_dom v \<Longrightarrow> json_dom (jnorm v)"
  by (induction v rule: jnorm.induct) (auto simp: list_all_iff)

lemma json_text_inj: "json_dom a \<Longrightarrow> json_dom b \<Longrightarrow> json_text a = json_text b \<Longrightarrow> jnorm a = jnorm b"
  using raw_text_readable [of "jnorm a" "jnorm b" "[]" "[]"] jnorm_dom
  by (simp add: json_text_raw stops_def)

lemma json_text_cong: "jnorm a = jnorm b \<Longrightarrow> json_text a = json_text b"
  by (simp add: json_text_raw)

lemma sort_key_unique:
  assumes "distinct (map fst d)" "distinct (map fst e)"
  shows "sort_key fst d = sort_key fst e \<longleftrightarrow> set d = set e"
proof
  assume "sort_key fst d = sort_key fst e"
  then show "set d = set e" by (metis set_sort)
next
  assume eq: "set d = set e"
  have "inj_on fst (set d)" using assms(1) by (simp add: distinct_map)
  then show "sort_key fst d = sort_key fst e"
    using assms eq by (intro map_sorted_distinct_set_unique) (auto simp: distinct_map distinct_sort)
qed

text \<open>On values of strings, integers, lists and dictionaries, \<open>==\<close> compares normal forms.\<close>

fun exact_dom :: "pyval \<Rightarrow> bool" where
  "exact_dom (PList vs) = list_all exact_dom vs"
| "exact_dom (PDict d) = list_all (\<lambda>(_, v). exact_dom v) d"
| "exact_dom (PInt _) = True"
| "exact_dom (PStr _) = True"
| "exact_dom _ = False"

lemma exact_json_dom: "exact_dom v \<Longrightarrow> json_dom v"
  by (induction v rule: exact_dom.induct) (auto simp: list_all_iff)

lemma dict_eq_sets:
  assumes "distinct (map fst d)" "distinct (map fst e)"
    and "\<And>k v w. (k, v) \<in> set d \<Longrightarrow> (k, w) \<in> set e \<Longrightarrow> P v w \<longleftrightarrow> h v = h w"
  shows "length d = length e \<and> (\<forall>(k, v) \<in> set d. case map_of e k of None \<Rightarrow> False | Some w \<Rightarrow> P v w)
    \<longleftrightarrow> set (map (map_prod id h) d) = set (map (map_prod id h) e)" (is "?l \<longleftrightarrow> ?D = ?E")
proof -
  have fst_h: "map fst (map (map_prod id h) x) = map fst x" for x by simp
  have dst: "distinct (map (map_prod id h) d)" "distinct (map (map_prod id h) e)"
    using assms(1,2) by (metis distinct_map fst_h)+
  have card: "card ?D = length d" "card ?E = length e"
    using distinct_card [OF dst(1)] distinct_card [OF dst(2)] by simp_all
  show ?thesis
  proof
    assume l: ?l
    have "?D \<subseteq> ?E"
    proof
      fix z assume "z \<in> ?D"
      then obtain k v where kv: "(k, v) \<in> set d" "z = (k, h v)" by auto
      with l obtain w where w: "map_of e k = Some w" "P v w" by (auto split: option.splits)
      then have "(k, w) \<in> set e" by (simp add: map_of_SomeD)
      with assms(3) [OF kv(1) this] w kv show "z \<in> ?E" by force
    qed
    then show "?D = ?E" using card l by (intro card_subset_eq) auto
  next
    assume eq: "?D = ?E"
    have "case map_of e k of None \<Rightarrow> False | Some w \<Rightarrow> P v w" if kv: "(k, v) \<in> set d" for k v
    proof -
      have "(k, h v) \<in> ?E" unfolding eq [symmetric] using kv by force
      then obtain w where w: "(k, w) \<in> set e" "h w = h v" by auto
      then have "map_of e k = Some w" using assms(2) by simp
      with assms(3) [OF kv w(1)] w(2) show ?thesis by simp
    qed
    moreover have "length d = length e" using card eq by simp
    ultimately show ?l by auto
  qed
qed

lemma jnorm_dict: "jnorm (PDict d) = PDict (sort_key fst (map (map_prod id jnorm) d))"
  by (simp add: map_prod_def id_def)

lemma py_eq_list: "py_eq (PList xs) (PList ys) \<longleftrightarrow> length xs = length ys \<and> (\<forall>(x, y) \<in> set (zip xs ys). py_eq x y)"
  by (subst py_eq.simps) (simp add: list_all_iff)

lemma py_eq_dict: "py_eq (PDict d) (PDict e) \<longleftrightarrow> length d = length e \<and>
    (\<forall>(k, v) \<in> set d. case map_of e k of None \<Rightarrow> False | Some w \<Rightarrow> py_eq v w)"
  by (subst py_eq.simps) (simp add: list_all_iff)

lemma py_eq_int [simp]: "py_eq (PInt i) (PInt j) \<longleftrightarrow> i = j"
  by (subst py_eq.simps) (simp add: py_number_def)

lemma py_eq_kinds [simp]:
  "\<not> py_eq (PList xs) (PInt i)" "\<not> py_eq (PList xs) (PStr s)" "\<not> py_eq (PList xs) (PDict e)"
  "\<not> py_eq (PDict d) (PInt i)" "\<not> py_eq (PDict d) (PStr s)" "\<not> py_eq (PDict d) (PList xs)"
  by (subst py_eq.simps; simp add: py_number_def)+

lemma py_eq_jnorm:
  "exact_dom a \<Longrightarrow> exact_dom b \<Longrightarrow> dict_wf a \<Longrightarrow> dict_wf b \<Longrightarrow> py_eq a b \<longleftrightarrow> jnorm a = jnorm b"
proof (induction a arbitrary: b)
  case (PInt i)
  then show ?case by (cases b) (auto simp: py_eq.simps py_number_def)
next
  case (PStr s)
  then show ?case by (cases b) (auto simp: py_eq.simps py_number_def)
next
  case (PList xs)
  show ?case
  proof (cases b)
    case b: (PList ys)
    have "py_eq x y \<longleftrightarrow> jnorm x = jnorm y" if "(x, y) \<in> set (zip xs ys)" for x y
      using PList that set_zip_leftD [OF that] set_zip_rightD [OF that] b by (auto simp: list_all_iff)
    then have "py_eq (PList xs) b \<longleftrightarrow> list_all2 (\<lambda>x y. jnorm x = jnorm y) xs ys"
      by (auto simp: b py_eq_list list_all2_iff)
    also have "\<dots> \<longleftrightarrow> map jnorm xs = map jnorm ys"
      by (auto simp: list_eq_iff_nth_eq list_all2_conv_all_nth)
    finally show ?thesis by (simp add: b)
  qed (use PList.prems in auto)
next
  case (PDict d)
  show ?case
  proof (cases b)
    case b: (PDict e)
    have pw: "py_eq v w \<longleftrightarrow> jnorm v = jnorm w" if "(k, v) \<in> set d" "(k, w) \<in> set e" for k v w
      using PDict.IH [OF that(1), of v w] PDict.prems that b
      by (fastforce simp: list_all_iff prod_set_defs)
    have dd: "distinct (map fst d)" "distinct (map fst e)" using PDict.prems b by auto
    have "py_eq (PDict d) b \<longleftrightarrow> set (map (map_prod id jnorm) d) = set (map (map_prod id jnorm) e)"
      using dict_eq_sets [of d e py_eq jnorm, OF dd pw] by (simp add: b py_eq_dict)
    also have "\<dots> \<longleftrightarrow> jnorm (PDict d) = jnorm b"
      unfolding b jnorm_dict pyval.inject using dd by (intro sort_key_unique [symmetric]) auto
    finally show ?thesis .
  qed (use PDict.prems in auto)
qed simp_all

end
