(* ===== verification/Sha256.thy ===== *)
theory Sha256
  imports Prelude
begin

unbundle bit_operations_syntax

text \<open>
  \<open>hashlib.sha256(data).hexdigest()\<close> as FIPS 180-4 defines it.  The proofs use only that it is a
  function with a 64-digit hexadecimal value: where a property needs more, it names the colliding
  pair of inputs.  The theory \<open>Sha256_KAT\<close> checks the definition on the standard test vector.
\<close>

type_synonym u32 = "32 word"
type_synonym sha_state = "u32 \<times> u32 \<times> u32 \<times> u32 \<times> u32 \<times> u32 \<times> u32 \<times> u32"

text \<open>The round constants and the initial state of FIPS 180-4, in decimal.\<close>

definition sha_K :: "u32 list" where
  "sha_K = [1116352408, 1899447441, 3049323471, 3921009573, 961987163, 1508970993, 2453635748, 2870763221,
    3624381080, 310598401, 607225278, 1426881987, 1925078388, 2162078206, 2614888103, 3248222580,
    3835390401, 4022224774, 264347078, 604807628, 770255983, 1249150122, 1555081692, 1996064986,
    2554220882, 2821834349, 2952996808, 3210313671, 3336571891, 3584528711, 113926993, 338241895,
    666307205, 773529912, 1294757372, 1396182291, 1695183700, 1986661051, 2177026350, 2456956037,
    2730485921, 2820302411, 3259730800, 3345764771, 3516065817, 3600352804, 4094571909, 275423344,
    430227734, 506948616, 659060556, 883997877, 958139571, 1322822218, 1537002063, 1747873779,
    1955562222, 2024104815, 2227730452, 2361852424, 2428436474, 2756734187, 3204031479, 3329325298]"

definition sha_init :: sha_state where
  "sha_init = (1779033703, 3144134277, 1013904242, 2773480762, 1359893119, 2600822924, 528734635, 1541459225)"

definition sigma0 :: "u32 \<Rightarrow> u32" where
  "sigma0 x = word_rotr 7 x XOR word_rotr 18 x XOR drop_bit 3 x"

definition sigma1 :: "u32 \<Rightarrow> u32" where
  "sigma1 x = word_rotr 17 x XOR word_rotr 19 x XOR drop_bit 10 x"

definition Sigma0 :: "u32 \<Rightarrow> u32" where
  "Sigma0 x = word_rotr 2 x XOR word_rotr 13 x XOR word_rotr 22 x"

definition Sigma1 :: "u32 \<Rightarrow> u32" where
  "Sigma1 x = word_rotr 6 x XOR word_rotr 11 x XOR word_rotr 25 x"

fun sha_schedule :: "nat \<Rightarrow> u32 list \<Rightarrow> u32 list" where
  "sha_schedule 0 w = w"
| "sha_schedule (Suc n) w = (let t = length w in
     sha_schedule n (w @ [sigma1 (w ! (t - 2)) + w ! (t - 7) + sigma0 (w ! (t - 15)) + w ! (t - 16)]))"

fun sha_round :: "sha_state \<Rightarrow> u32 \<Rightarrow> sha_state" where
  "sha_round (a, b, c, d, e, f, g, h) kw =
     (let t1 = h + Sigma1 e + ((e AND f) XOR (NOT e AND g)) + kw;
          t2 = Sigma0 a + ((a AND b) XOR (a AND c) XOR (b AND c))
      in (t1 + t2, a, b, c, d + t1, e, f, g))"

fun sha_add :: "sha_state \<Rightarrow> sha_state \<Rightarrow> sha_state" where
  "sha_add (a, b, c, d, e, f, g, h) (a', b', c', d', e', f', g', h') =
     (a + a', b + b', c + c', d + d', e + e', f + f', g + g', h + h')"

definition sha_block :: "sha_state \<Rightarrow> u32 list \<Rightarrow> sha_state" where
  "sha_block st w = sha_add st (foldl sha_round st (map2 (+) sha_K (sha_schedule 48 w)))"

text \<open>Big-endian bytes of a number, and big-endian words of a byte string.\<close>

fun be_bytes :: "nat \<Rightarrow> nat \<Rightarrow> bytes" where
  "be_bytes 0 x = []"
| "be_bytes (Suc n) x = be_bytes n (x div 256) @ [of_nat (x mod 256)]"

fun be_words :: "bytes \<Rightarrow> u32 list" where
  "be_words (a # b # c # d # bs) =
     (push_bit 24 (ucast a) OR push_bit 16 (ucast b) OR push_bit 8 (ucast c) OR ucast d) # be_words bs"
| "be_words _ = []"

definition sha_pad :: "bytes \<Rightarrow> bytes" where
  "sha_pad m = m @ [0x80] @ replicate ((119 - length m mod 64) mod 64) 0 @ be_bytes 8 (8 * length m)"

fun sha_blocks :: "sha_state \<Rightarrow> u32 list \<Rightarrow> sha_state" where
  "sha_blocks st [] = st"
| "sha_blocks st (w # ws) = sha_blocks (sha_block st (take 16 (w # ws))) (drop 15 ws)"

fun word_hex :: "u32 \<Rightarrow> pystr" where
  "word_hex x = to_hex 8 (unat x)"

definition sha256_hex :: "bytes \<Rightarrow> pystr" where
  "sha256_hex m = (case sha_blocks sha_init (be_words (sha_pad m)) of (a, b, c, d, e, f, g, h) \<Rightarrow>
     concat (map word_hex [a, b, c, d, e, f, g, h]))"

lemma sha256_hex_string [simp]: "hex_string 64 (sha256_hex m)"
proof -
  obtain a b c d e f g h where "sha_blocks sha_init (be_words (sha_pad m)) = (a, b, c, d, e, f, g, h)"
    by (cases "sha_blocks sha_init (be_words (sha_pad m))") auto
  moreover have "list_all is_hex_digit (to_hex 8 x) \<and> length (to_hex 8 x) = 8" for x
    using to_hex_hex_string [of 8 x] unfolding hex_string_def by blast
  ultimately show ?thesis by (simp add: sha256_hex_def hex_string_def)
qed

lemma length_sha256_hex [simp]: "length (sha256_hex m) = 64"
  using sha256_hex_string [of m] unfolding hex_string_def by blast

text \<open>An explicit collision: two different inputs with one digest.\<close>

definition sha_collision :: "bytes \<Rightarrow> bytes \<Rightarrow> bool" where
  "sha_collision m n \<longleftrightarrow> m \<noteq> n \<and> sha256_hex m = sha256_hex n"

section \<open>Digests as commitments\<close>

text \<open>
  What a caller needs of an encoding to commit to values by digest: equal bytes only for values
  with one normal form.  Then equal digests mean one normal form, or the two encodings collide.
\<close>

locale digest_commitment =
  fixes encode :: "'v \<Rightarrow> bytes res" and norm :: "'v \<Rightarrow> 'n"
  assumes encode_inj: "encode a = Inr s \<Longrightarrow> encode b = Inr s \<Longrightarrow> norm a = norm b"
begin

lemma digest_binds:
  "encode a = Inr s \<Longrightarrow> encode b = Inr t \<Longrightarrow> sha256_hex s = sha256_hex t \<Longrightarrow>
     norm a = norm b \<or> sha_collision s t"
  unfolding sha_collision_def by (cases "s = t") (blast dest: encode_inj)+

end

end
