(* ===== verification/WireFormat.thy ===== *)
theory WireFormat
  imports Canonical Sha256
begin

unbundle bit_operations_syntax

text \<open>
  Model of \<open>reference/format.py\<close>: the value validators, the canonical encoding and its digest, and
  the batch, result and certificate records.  A validator that returns its argument unchanged
  returns it here too; the mutable node counter of \<open>validate_expression\<close> is threaded through.
  Reading and writing files and \<open>json.loads\<close> are not modelled here.
\<close>

section \<open>Constants\<close>

definition SCHEMA_VERSION :: int where "SCHEMA_VERSION = 1"
definition BATCH_KIND :: pystr where "BATCH_KIND = lit ''sparkinterval_reference_batch''"
definition RESULT_KIND :: pystr where "RESULT_KIND = lit ''sparkinterval_reference_result''"
definition CERTIFICATE_KIND :: pystr where "CERTIFICATE_KIND = lit ''sparkinterval_reference_certificate''"
definition ALGORITHM_ID :: pystr where "ALGORITHM_ID = lit ''sparkinterval.binary64_interval_expr.v1''"
definition WIRE_SIGN_MASK :: int where "WIRE_SIGN_MASK = 0x8000000000000000"
definition WIRE_EXPONENT_MASK :: int where "WIRE_EXPONENT_MASK = 0x7FF0000000000000"
definition WIRE_FRACTION_MASK :: int where "WIRE_FRACTION_MASK = 0x000FFFFFFFFFFFFF"
definition MAX_EXPRESSION_DEPTH :: nat where "MAX_EXPRESSION_DEPTH = 256"
definition MAX_EXPRESSION_NODES :: nat where "MAX_EXPRESSION_NODES = 100000"
definition MAX_VARIABLE_COUNT :: int where "MAX_VARIABLE_COUNT = 65536"
definition MAX_BATCH_ROWS :: int where "MAX_BATCH_ROWS = 1000000"
definition MAX_CANONICAL_JSON_BYTES :: nat where "MAX_CANONICAL_JSON_BYTES = 512 * 1024 * 1024"
definition MAX_POW_EXPONENT :: int where "MAX_POW_EXPONENT = 64"
definition MAX_ARITHMETIC_COST_PER_ROW :: int where "MAX_ARITHMETIC_COST_PER_ROW = 4096"
definition MAX_TOTAL_ARITHMETIC_WORK :: int where "MAX_TOTAL_ARITHMETIC_WORK = 10000000"

section \<open>Canonical encoding\<close>

function validate_json_value :: "budget \<Rightarrow> pyval \<Rightarrow> unit res" where
  "validate_json_value d value = ebind (enter d) (\<lambda>d. case value of
      PBool _ \<Rightarrow> Inl FormatError
    | PNone \<Rightarrow> Inl FormatError
    | PStr _ \<Rightarrow> Inr ()
    | PInt _ \<Rightarrow> Inr ()
    | PFloat _ \<Rightarrow> Inl FormatError
    | PList items \<Rightarrow> ebind (map_res (validate_json_value d) items) (\<lambda>_. Inr ())
    | PDict items \<Rightarrow> ebind (map_res (\<lambda>(_, item). validate_json_value d item) items) (\<lambda>_. Inr ())
    | POther _ \<Rightarrow> Inl FormatError)"
  by pat_completeness auto
termination
  by (relation "measure (size \<circ> snd)") (auto dest: size_item size_element simp del: pyval.size)

declare validate_json_value.simps [simp del]

text \<open>With the budgets of the validator and of the encoder; the first one's \<open>RecursionError\<close> is not caught here.\<close>

definition canonical_json_within :: "budget \<Rightarrow> budget \<Rightarrow> pyval \<Rightarrow> bytes res" where
  "canonical_json_within dv de value = ebind (validate_json_value dv value) (\<lambda>_.
     catch_as (\<lambda>e. e = TypeError \<or> value_error e \<or> e = RecursionError) FormatError
       (ebind (json_dumps de value) (\<lambda>text. ebind (utf8_encode text) (\<lambda>encoded.
          if length encoded > MAX_CANONICAL_JSON_BYTES then Inl FormatError else Inr encoded))))"

definition canonical_json_bytes :: "pyval \<Rightarrow> bytes res" where
  "canonical_json_bytes value = canonical_json_within None None value"

definition canonical_sha256 :: "pyval \<Rightarrow> pystr res" where
  "canonical_sha256 value = ebind (canonical_json_bytes value) (\<lambda>encoded. Inr (sha256_hex encoded))"

section \<open>Field validators\<close>

definition exact_object :: "pyval \<Rightarrow> string list \<Rightarrow> (pystr \<times> pyval) list res" where
  "exact_object value fields = (case value of
      PDict d \<Rightarrow> if set (map fst d) \<noteq> set (map lit fields) then Inl FormatError else Inr d
    | _ \<Rightarrow> Inl FormatError)"

definition array :: "pyval \<Rightarrow> pyval list res" where
  "array value = (case value of PList vs \<Rightarrow> Inr vs | _ \<Rightarrow> Inl FormatError)"

definition integer :: "pyval \<Rightarrow> int \<Rightarrow> int option \<Rightarrow> int res" where
  "integer value minimum maximum = (case value of
      PInt i \<Rightarrow> if i < minimum \<or> (case maximum of None \<Rightarrow> False | Some m \<Rightarrow> i > m)
        then Inl FormatError else Inr i
    | _ \<Rightarrow> Inl FormatError)"

definition fixed_string :: "pyval \<Rightarrow> pystr \<Rightarrow> unit res" where
  "fixed_string value expected = (if value \<noteq> PStr expected then Inl FormatError else Inr ())"

definition sha256_field :: "pyval \<Rightarrow> pystr res" where
  "sha256_field value = (case value of
      PStr s \<Rightarrow> if hex_string 64 s then Inr s else Inl FormatError
    | _ \<Rightarrow> Inl FormatError)"

definition nan_word :: "int \<Rightarrow> bool" where
  "nan_word bits \<longleftrightarrow> bits AND WIRE_EXPONENT_MASK = WIRE_EXPONENT_MASK \<and> bits AND WIRE_FRACTION_MASK \<noteq> 0"

definition parse_binary64_hex :: "pyval \<Rightarrow> int res" where
  "parse_binary64_hex value = (case value of
      PStr s \<Rightarrow> if \<not> hex_string 16 s then Inl FormatError
        else let bits = int (from_hex s) in if nan_word bits then Inl FormatError else Inr bits
    | _ \<Rightarrow> Inl FormatError)"

definition binary64_hex :: "int \<Rightarrow> pystr res" where
  "binary64_hex bits =
     (if \<not> (0 \<le> bits \<and> bits < 0x10000000000000000) then Inl FormatError
      else if nan_word bits then Inl FormatError
      else Inr (to_hex 16 (nat bits)))"

definition binary64_numeric_le :: "int \<Rightarrow> int \<Rightarrow> bool" where
  "binary64_numeric_le left right =
     (let left_zero = (left AND NOT WIRE_SIGN_MASK = 0);
          right_zero = (right AND NOT WIRE_SIGN_MASK = 0)
      in if left_zero \<and> right_zero then True
      else let left_negative = (left AND WIRE_SIGN_MASK \<noteq> 0);
               right_negative = (right AND WIRE_SIGN_MASK \<noteq> 0)
      in if left_negative \<noteq> right_negative then left_negative
      else if left_negative then left \<ge> right
      else left \<le> right)"

definition validate_interval :: "pyval \<Rightarrow> bool \<Rightarrow> (pystr \<times> pyval) list res" where
  "validate_interval value require_finite =
     ebind (exact_object value [''lo'', ''hi'']) (\<lambda>interval.
     ebind (ebind (dict_get interval ''lo'') parse_binary64_hex) (\<lambda>lo.
     ebind (ebind (dict_get interval ''hi'') parse_binary64_hex) (\<lambda>hi.
       if require_finite \<and> (lo AND WIRE_EXPONENT_MASK = WIRE_EXPONENT_MASK
            \<or> hi AND WIRE_EXPONENT_MASK = WIRE_EXPONENT_MASK)
       then Inl FormatError
       else if \<not> binary64_numeric_le lo hi then Inl FormatError
       else Inr interval)))"

section \<open>Expressions\<close>

definition str_in :: "pystr \<Rightarrow> string list \<Rightarrow> bool" where
  "str_in s names \<longleftrightarrow> s \<in> set (map lit names)"

lemma exact_object_Inr: "exact_object value fields = Inr d \<longleftrightarrow>
    value = PDict d \<and> set (map fst d) = set (map lit fields)"
  by (auto simp: exact_object_def split: pyval.splits)

text \<open>The result is the node counter after the visit.\<close>

function validate_expression :: "int \<Rightarrow> nat \<Rightarrow> nat \<Rightarrow> pyval \<Rightarrow> nat res" where
  "validate_expression variable_count depth counter value =
     (if depth > MAX_EXPRESSION_DEPTH then Inl FormatError
      else if counter + 1 > MAX_EXPRESSION_NODES then Inl FormatError
      else case value of
        PDict d \<Rightarrow> (case map_of d (lit ''op'') of
          Some (PStr op) \<Rightarrow>
            if op = lit ''const'' then
              ebind (exact_object value [''op'', ''value'']) (\<lambda>node.
              ebind (dict_get node ''value'') (\<lambda>v.
              ebind (validate_interval v True) (\<lambda>_. Inr (counter + 1))))
            else if op = lit ''var'' then
              ebind (exact_object value [''op'', ''index'']) (\<lambda>node.
              ebind (dict_get node ''index'') (\<lambda>v.
              ebind (integer v 0 None) (\<lambda>index.
                if index \<ge> variable_count then Inl FormatError else Inr (counter + 1))))
            else if str_in op [''neg'', ''abs''] then
              ebind (exact_object value [''op'', ''arg'']) (\<lambda>node.
              ebind (dict_get node ''arg'') (\<lambda>arg.
                validate_expression variable_count (depth + 1) (counter + 1) arg))
            else if op = lit ''pow_nat'' then
              ebind (exact_object value [''op'', ''arg'', ''exponent'']) (\<lambda>node.
              ebind (dict_get node ''exponent'') (\<lambda>v.
              ebind (integer v 0 (Some MAX_POW_EXPONENT)) (\<lambda>_.
              ebind (dict_get node ''arg'') (\<lambda>arg.
                validate_expression variable_count (depth + 1) (counter + 1) arg))))
            else if str_in op [''add'', ''sub'', ''mul'', ''div'', ''min'', ''max''] then
              ebind (exact_object value [''op'', ''left'', ''right'']) (\<lambda>node.
              ebind (dict_get node ''left'') (\<lambda>l.
              ebind (validate_expression variable_count (depth + 1) (counter + 1) l) (\<lambda>c.
              ebind (dict_get node ''right'') (\<lambda>r.
                validate_expression variable_count (depth + 1) c r))))
            else Inl FormatError
        | _ \<Rightarrow> Inl FormatError)
      | _ \<Rightarrow> Inl FormatError)"
  by pat_completeness auto
termination
  by (relation "measure (\<lambda>(_, _, _, v). size v)")
    (auto simp: exact_object_Inr simp del: pyval.size dest: size_dict_get)

declare validate_expression.simps [simp del]

text \<open>A value as a dictionary: subscripting any other value raises \<open>TypeError\<close>.\<close>

definition as_dict :: "pyval \<Rightarrow> (pystr \<times> pyval) list res" where
  "as_dict value = (case value of PDict d \<Rightarrow> Inr d | _ \<Rightarrow> Inl TypeError)"

definition as_int :: "pyval \<Rightarrow> int res" where
  "as_int value = (case value of PInt i \<Rightarrow> Inr i | PBool b \<Rightarrow> Inr (if b then 1 else 0) | _ \<Rightarrow> Inl TypeError)"

text \<open>
  An operator, compared with the operator names by \<open>in\<close> and \<open>==\<close>: a list or a
  dictionary is unhashable, and any other value that is not a string is none of the names.
\<close>

definition as_operator :: "pyval \<Rightarrow> pystr res" where
  "as_operator value = (case value of PStr s \<Rightarrow> Inr s | PList _ \<Rightarrow> Inl TypeError
     | PDict _ \<Rightarrow> Inl TypeError | _ \<Rightarrow> Inr [])"

lemma as_dict_Inr: "as_dict value = Inr d \<longleftrightarrow> value = PDict d"
  by (auto simp: as_dict_def split: pyval.splits)

text \<open>The saturating cost; \<open>cap\<close> is \<open>MAX_ARITHMETIC_COST_PER_ROW + 1\<close>.\<close>

definition COST_CAP :: int where "COST_CAP = MAX_ARITHMETIC_COST_PER_ROW + 1"

function expression_arithmetic_cost :: "pyval \<Rightarrow> int res" where
  "expression_arithmetic_cost value =
     ebind (as_dict value) (\<lambda>d. ebind (ebind (dict_get d ''op'') as_operator) (\<lambda>op.
       if str_in op [''const'', ''var''] then Inr 1
       else if str_in op [''neg'', ''abs''] then
         ebind (dict_get d ''arg'') (\<lambda>arg.
         ebind (expression_arithmetic_cost arg) (\<lambda>a. Inr (min COST_CAP (a + 1))))
       else if op = lit ''pow_nat'' then
         ebind (dict_get d ''arg'') (\<lambda>arg.
         ebind (expression_arithmetic_cost arg) (\<lambda>argument.
         ebind (ebind (dict_get d ''exponent'') as_int) (\<lambda>exponent.
           Inr (min COST_CAP (argument * max exponent 1 + 1)))))
       else
         ebind (dict_get d ''left'') (\<lambda>l. ebind (expression_arithmetic_cost l) (\<lambda>left.
         ebind (dict_get d ''right'') (\<lambda>r. ebind (expression_arithmetic_cost r) (\<lambda>right.
           Inr (min COST_CAP (left + right + 1))))))))"
  by pat_completeness auto
termination
  by (relation "measure size") (auto simp: as_dict_Inr simp del: pyval.size dest: size_dict_get)

declare expression_arithmetic_cost.simps [simp del]

section \<open>Batches, results and certificates\<close>

definition validate_row :: "int \<Rightarrow> pyval \<Rightarrow> unit res" where
  "validate_row variable_count raw_row =
     ebind (array raw_row) (\<lambda>row.
       if int (length row) \<noteq> variable_count then Inl FormatError
       else ebind (map_res (\<lambda>interval. validate_interval interval True) row) (\<lambda>_. Inr ()))"

definition validate_batch :: "pyval \<Rightarrow> (pystr \<times> pyval) list res" where
  "validate_batch value =
     ebind (exact_object value
       [''schema_version'', ''kind'', ''algorithm'', ''variable_count'', ''expression'', ''rows'']) (\<lambda>batch.
     ebind (ebind (dict_get batch ''schema_version'') (\<lambda>v. integer v 1 (Some 1))) (\<lambda>_.
     ebind (ebind (dict_get batch ''kind'') (\<lambda>v. fixed_string v BATCH_KIND)) (\<lambda>_.
     ebind (ebind (dict_get batch ''algorithm'') (\<lambda>v. fixed_string v ALGORITHM_ID)) (\<lambda>_.
     ebind (ebind (dict_get batch ''variable_count'') (\<lambda>v. integer v 0 (Some MAX_VARIABLE_COUNT))) (\<lambda>variable_count.
     ebind (dict_get batch ''expression'') (\<lambda>expression.
     ebind (validate_expression variable_count 0 0 expression) (\<lambda>_.
     ebind (ebind (dict_get batch ''rows'') array) (\<lambda>rows.
       if rows = [] then Inl FormatError
       else if int (length rows) > MAX_BATCH_ROWS then Inl FormatError
       else ebind (expression_arithmetic_cost expression) (\<lambda>arithmetic_cost.
         if arithmetic_cost > MAX_ARITHMETIC_COST_PER_ROW then Inl FormatError
         else if int (length rows) * arithmetic_cost > MAX_TOTAL_ARITHMETIC_WORK then Inl FormatError
         else ebind (map_res (validate_row variable_count) rows) (\<lambda>_. Inr batch))))))))))"

definition validate_result :: "pyval \<Rightarrow> pyval option \<Rightarrow> (pystr \<times> pyval) list res" where
  "validate_result value batch =
     ebind (exact_object value
       [''schema_version'', ''kind'', ''algorithm'', ''batch_sha256'', ''rows'']) (\<lambda>result.
     ebind (ebind (dict_get result ''schema_version'') (\<lambda>v. integer v 1 (Some 1))) (\<lambda>_.
     ebind (ebind (dict_get result ''kind'') (\<lambda>v. fixed_string v RESULT_KIND)) (\<lambda>_.
     ebind (ebind (dict_get result ''algorithm'') (\<lambda>v. fixed_string v ALGORITHM_ID)) (\<lambda>_.
     ebind (ebind (dict_get result ''batch_sha256'') sha256_field) (\<lambda>batch_sha256.
     ebind (ebind (dict_get result ''rows'') array) (\<lambda>rows.
       if int (length rows) > MAX_BATCH_ROWS then Inl FormatError
       else ebind (map_res (\<lambda>interval. validate_interval interval False) rows) (\<lambda>_.
         case batch of None \<Rightarrow> Inr result
         | Some b \<Rightarrow>
             ebind (validate_batch b) (\<lambda>bd.
             ebind (canonical_sha256 b) (\<lambda>expected_digest.
               if batch_sha256 \<noteq> expected_digest then Inl FormatError
               else ebind (ebind (dict_get bd ''rows'') array) (\<lambda>batch_rows.
                 if length rows \<noteq> length batch_rows then Inl FormatError
                 else Inr result))))))))))"

definition make_certificate :: "pyval \<Rightarrow> pyval \<Rightarrow> pyval res" where
  "make_certificate batch result =
     ebind (validate_batch batch) (\<lambda>_.
     ebind (validate_result result (Some batch)) (\<lambda>_.
     ebind (canonical_sha256 batch) (\<lambda>batch_digest.
     ebind (canonical_sha256 result) (\<lambda>result_digest.
       Inr (py_dict [(''schema_version'', PInt SCHEMA_VERSION), (''kind'', PStr CERTIFICATE_KIND),
         (''batch'', batch), (''batch_sha256'', PStr batch_digest),
         (''result'', result), (''result_sha256'', PStr result_digest)])))))"

definition validate_certificate :: "pyval \<Rightarrow> (pystr \<times> pyval) list res" where
  "validate_certificate value =
     ebind (exact_object value
       [''schema_version'', ''kind'', ''batch'', ''batch_sha256'', ''result'', ''result_sha256'']) (\<lambda>certificate.
     ebind (ebind (dict_get certificate ''schema_version'') (\<lambda>v. integer v 1 (Some 1))) (\<lambda>_.
     ebind (ebind (dict_get certificate ''kind'') (\<lambda>v. fixed_string v CERTIFICATE_KIND)) (\<lambda>_.
     ebind (dict_get certificate ''batch'') (\<lambda>batch.
     ebind (validate_batch batch) (\<lambda>_.
     ebind (dict_get certificate ''result'') (\<lambda>result.
     ebind (validate_result result (Some batch)) (\<lambda>_.
     ebind (ebind (dict_get certificate ''batch_sha256'') sha256_field) (\<lambda>batch_sha256.
     ebind (ebind (dict_get certificate ''result_sha256'') sha256_field) (\<lambda>result_sha256.
     ebind (canonical_sha256 batch) (\<lambda>batch_digest.
       if batch_sha256 \<noteq> batch_digest then Inl FormatError
       else ebind (canonical_sha256 result) (\<lambda>result_digest.
         if result_sha256 \<noteq> result_digest then Inl FormatError
         else Inr certificate)))))))))))"

end
