(* ===== verification/Evaluator.thy ===== *)
theory Evaluator
  imports WireFormat Interval_Sound
begin

text \<open>
  Model of \<open>reference/evaluator.py\<close>: intervals to and from the wire, the compiler to postfix
  instructions, the stack machine, batch evaluation, and the issuing and checking of certificates.
  The stack is kept with its top first (the source appends and pops at the end of a list).
\<close>

section \<open>Intervals on the wire\<close>

text \<open>
  \<open>int(s, 16)\<close> on a string of lowercase hexadecimal digits, which is all that
  \<open>validate_interval\<close> lets through; other spellings that Python accepts are not modelled.
\<close>

definition int_base16 :: "pyval \<Rightarrow> int res" where
  "int_base16 v = (case v of
      PStr s \<Rightarrow> if s \<noteq> [] \<and> list_all is_hex_digit s then Inr (int (from_hex s)) else Inl ValueError
    | _ \<Rightarrow> Inl TypeError)"

definition decode_interval :: "pyval \<Rightarrow> interval res" where
  "decode_interval value = ebind (as_dict value) (\<lambda>d.
     ebind (ebind (dict_get d ''lo'') int_base16) (\<lambda>lo.
     ebind (ebind (dict_get d ''hi'') int_base16) (\<lambda>hi. mk_interval lo hi)))"

definition encode_interval :: "interval \<Rightarrow> pyval res" where
  "encode_interval value =
     ebind (binary64_hex (iv_lo value)) (\<lambda>lo. ebind (binary64_hex (iv_hi value)) (\<lambda>hi.
       let encoded = py_dict [(''lo'', PStr lo), (''hi'', PStr hi)]
       in ebind (validate_interval encoded False) (\<lambda>_. Inr encoded)))"

section \<open>The compiler\<close>

datatype argument = NoArgument | IntervalArgument interval | ValueArgument pyval

record instruction =
  ins_op :: pystr
  ins_argument :: argument

definition Instruction :: "pystr \<Rightarrow> argument \<Rightarrow> instruction" where
  "Instruction op arg = \<lparr>ins_op = op, ins_argument = arg\<rparr>"

text \<open>The list that \<open>visit\<close> appends to the program.\<close>

function compile_expression :: "pyval \<Rightarrow> instruction list res" where
  "compile_expression expression =
     ebind (as_dict expression) (\<lambda>node. ebind (ebind (dict_get node ''op'') as_operator) (\<lambda>op.
       if op = lit ''const'' then
         ebind (ebind (dict_get node ''value'') decode_interval) (\<lambda>i. Inr [Instruction op (IntervalArgument i)])
       else if op = lit ''var'' then
         ebind (dict_get node ''index'') (\<lambda>i. Inr [Instruction op (ValueArgument i)])
       else if str_in op [''neg'', ''abs''] then
         ebind (dict_get node ''arg'') (\<lambda>arg. ebind (compile_expression arg) (\<lambda>p.
           Inr (p @ [Instruction op NoArgument])))
       else if op = lit ''pow_nat'' then
         ebind (dict_get node ''arg'') (\<lambda>arg. ebind (compile_expression arg) (\<lambda>p.
         ebind (dict_get node ''exponent'') (\<lambda>e. Inr (p @ [Instruction op (ValueArgument e)]))))
       else
         ebind (dict_get node ''left'') (\<lambda>l. ebind (compile_expression l) (\<lambda>p.
         ebind (dict_get node ''right'') (\<lambda>r. ebind (compile_expression r) (\<lambda>q.
           Inr (p @ q @ [Instruction op NoArgument])))))))"
  by pat_completeness auto
termination
  by (relation "measure size") (auto simp: as_dict_Inr simp del: pyval.size dest: size_dict_get)

declare compile_expression.simps [simp del]

section \<open>The stack machine\<close>

definition UNARY_OPERATIONS :: "(pystr \<times> (interval \<Rightarrow> interval res)) list" where
  "UNARY_OPERATIONS = [(lit ''neg'', interval_neg), (lit ''abs'', interval_abs)]"

definition BINARY_OPERATIONS :: "(pystr \<times> (interval \<Rightarrow> interval \<Rightarrow> interval res)) list" where
  "BINARY_OPERATIONS = [(lit ''add'', interval_add), (lit ''sub'', interval_sub), (lit ''mul'', interval_mul),
     (lit ''div'', interval_div), (lit ''min'', interval_min), (lit ''max'', interval_max)]"

definition argument_interval :: "instruction \<Rightarrow> interval res" where
  "argument_interval i = (case ins_argument i of IntervalArgument v \<Rightarrow> Inr v | _ \<Rightarrow> Inl TypeError)"

definition argument_int :: "instruction \<Rightarrow> int res" where
  "argument_int i = (case ins_argument i of ValueArgument v \<Rightarrow> as_int v | _ \<Rightarrow> Inl TypeError)"

definition run_instruction :: "interval list \<Rightarrow> instruction \<Rightarrow> interval list \<Rightarrow> interval list res" where
  "run_instruction row i stack =
     (let op = ins_op i in
      if op = lit ''const'' then ebind (argument_interval i) (\<lambda>v. Inr (v # stack))
      else if op = lit ''var'' then
        ebind (argument_int i) (\<lambda>k. ebind (py_index row k) (\<lambda>v. Inr (v # stack)))
      else case map_of UNARY_OPERATIONS op of
        Some f \<Rightarrow> (case stack of [] \<Rightarrow> Inl EvaluationError
          | x # rest \<Rightarrow> ebind (f x) (\<lambda>v. Inr (v # rest)))
      | None \<Rightarrow>
        if op = lit ''pow_nat'' then (case stack of [] \<Rightarrow> Inl EvaluationError
          | x # rest \<Rightarrow> ebind (argument_int i) (\<lambda>e. ebind (interval_pow_nat x e) (\<lambda>v. Inr (v # rest))))
        else case map_of BINARY_OPERATIONS op of
          Some f \<Rightarrow> (case stack of right # left # rest \<Rightarrow> ebind (f left right) (\<lambda>v. Inr (v # rest))
            | _ \<Rightarrow> Inl EvaluationError)
        | None \<Rightarrow> Inl EvaluationError)"

fun run_loop :: "interval list \<Rightarrow> instruction list \<Rightarrow> interval list \<Rightarrow> interval list res" where
  "run_loop row [] stack = Inr stack"
| "run_loop row (i # program) stack = ebind (run_instruction row i stack) (run_loop row program)"

definition evaluation_caught :: "exc \<Rightarrow> bool" where
  "evaluation_caught e \<longleftrightarrow> arithmetic_error e \<or> value_error e \<or> e = IndexError"

definition run_program :: "instruction list \<Rightarrow> interval list \<Rightarrow> interval res" where
  "run_program program row =
     ebind (catch_as evaluation_caught EvaluationError (run_loop row program [])) (\<lambda>stack.
       if length stack \<noteq> 1 then Inl EvaluationError else Inr (hd stack))"

section \<open>Batches and certificates\<close>

definition evaluate_row :: "instruction list \<Rightarrow> pyval \<Rightarrow> pyval res" where
  "evaluate_row program encoded_row =
     catch_as (\<lambda>e. value_error e \<or> arithmetic_error e) EvaluationError
       (ebind (array encoded_row) (\<lambda>values. ebind (map_res decode_interval values) (\<lambda>row.
        ebind (run_program program row) encode_interval)))"

definition evaluate_batch :: "pyval \<Rightarrow> pyval res" where
  "evaluate_batch batch =
     ebind (validate_batch batch) (\<lambda>validated.
     ebind (ebind (dict_get validated ''expression'') compile_expression) (\<lambda>program.
     ebind (ebind (dict_get validated ''rows'') array) (\<lambda>rows.
     ebind (map_res (evaluate_row program) rows) (\<lambda>output_rows.
     ebind (canonical_sha256 (PDict validated)) (\<lambda>digest.
       let result = py_dict [(''schema_version'', PInt SCHEMA_VERSION), (''kind'', PStr RESULT_KIND),
         (''algorithm'', PStr ALGORITHM_ID), (''batch_sha256'', PStr digest), (''rows'', PList output_rows)]
       in ebind (validate_result result (Some (PDict validated))) (\<lambda>_. Inr result))))))"

definition issue_certificate :: "pyval \<Rightarrow> pyval res" where
  "issue_certificate batch =
     ebind (validate_batch batch) (\<lambda>validated.
     ebind (evaluate_batch (PDict validated)) (\<lambda>result. make_certificate (PDict validated) result))"

definition check_result :: "pyval \<Rightarrow> pyval \<Rightarrow> pyval res" where
  "check_result batch result =
     ebind (catch_as (\<lambda>e. value_error e \<or> arithmetic_error e) CertificateError
       (ebind (validate_batch batch) (\<lambda>validated_batch.
        ebind (validate_result result (Some (PDict validated_batch))) (\<lambda>validated_result.
        ebind (evaluate_batch (PDict validated_batch)) (\<lambda>expected.
          Inr (validated_batch, validated_result, expected))))))
     (\<lambda>(validated_batch, validated_result, expected).
       if \<not> py_eq (PDict validated_result) expected then Inl CertificateError
       else ebind (canonical_sha256 (PDict validated_batch)) (\<lambda>batch_digest.
         ebind (canonical_sha256 (PDict validated_result)) (\<lambda>result_digest.
         ebind (ebind (dict_get validated_result ''rows'') array) (\<lambda>rows.
           Inr (py_dict [(''status'', PStr (lit ''accepted'')), (''algorithm'', PStr ALGORITHM_ID),
             (''batch_sha256'', PStr batch_digest), (''result_sha256'', PStr result_digest),
             (''row_count'', PInt (int (length rows)))])))))"

definition check_certificate :: "pyval \<Rightarrow> pyval res" where
  "check_certificate certificate =
     ebind (catch_as (\<lambda>e. e = FormatError) CertificateError (validate_certificate certificate)) (\<lambda>validated.
     ebind (dict_get validated ''batch'') (\<lambda>batch.
     ebind (dict_get validated ''result'') (\<lambda>result. check_result batch result)))"

end
