(* ===== verification/Wire_Facts.thy ===== *)
theory Wire_Facts
  imports WireFormat Binary64_Claims
begin

unbundle bit_operations_syntax

text \<open>
  Lemmas on \<open>WireFormat\<close>: literal field names, what each validator accepts, hexadecimal words, the
  agreement of the wire order with the order of interval endpoints, and the injectivity of the
  canonical encoding.
\<close>

section \<open>Literals and dictionaries\<close>

lemma lit_eq_iff [simp]: "lit s = lit t \<longleftrightarrow> s = t"
  by (simp add: lit_def inj_map_eq_map inj_on_def of_char_eq_iff)

lemma lit_inj: "inj_on lit A"
  by (simp add: inj_on_def)

lemma lit_image_iff [simp]: "lit s \<in> lit ` A \<longleftrightarrow> s \<in> A"
  by auto

lemma str_in_lit [simp]: "str_in (lit s) names \<longleftrightarrow> s \<in> set names"
  by (auto simp: str_in_def)

lemma map_of_lit: "map_of (map (\<lambda>(k, v). (lit k, v)) items) (lit k) = map_of items k"
  by (induction items) auto

lemma dict_get_py_dict [simp]:
  "py_dict items = PDict d \<Longrightarrow> dict_get d k = (case map_of items k of None \<Rightarrow> Inl KeyError | Some v \<Rightarrow> Inr v)"
  by (auto simp: py_dict_def dict_get_def map_of_lit split: option.splits)

lemma dict_get_items:
  "dict_get (map (\<lambda>(k, v). (lit k, v)) items) k = (case map_of items k of None \<Rightarrow> Inl KeyError | Some v \<Rightarrow> Inr v)"
  by (simp add: dict_get_def map_of_lit)

lemma dict_get_Inr_iff: "dict_get d k = Inr v \<longleftrightarrow> map_of d (lit k) = Some v"
  by (auto simp: dict_get_def split: option.splits)

lemma dict_get_domain: "set (map fst d) = set (map lit ks) \<Longrightarrow> k \<in> set ks \<Longrightarrow> \<exists>v. dict_get d k = Inr v"
  by (metis (no_types, opaque_lifting) dict_get_Inr_iff image_eqI list.set_map map_of_eq_None_iff not_None_eq)

lemma exact_object_py_dict:
  "exact_object (py_dict items) ks = (if set (map fst items) = set ks
     then Inr (map (\<lambda>(k, v). (lit k, v)) items) else Inl FormatError)"
proof -
  have "set (map fst (map (\<lambda>(k, v). (lit k, v)) items)) = lit ` set (map fst items)" by force
  then have "set (map fst (map (\<lambda>(k, v). (lit k, v)) items)) = set (map lit ks) \<longleftrightarrow> set (map fst items) = set ks"
    using inj_image_eq_iff [OF lit_inj [of UNIV]] by simp
  then show ?thesis by (simp only: exact_object_def py_dict_def pyval.case if_not_P) simp
qed

section \<open>Validators\<close>

lemma array_Inr [simp]: "array v = Inr vs \<longleftrightarrow> v = PList vs"
  by (auto simp: array_def split: pyval.splits)

lemma integer_Inr: "integer v lo hi = Inr i \<longleftrightarrow> v = PInt i \<and> lo \<le> i \<and> (\<forall>m. hi = Some m \<longrightarrow> i \<le> m)"
  by (auto simp: integer_def split: pyval.splits option.splits)

lemma fixed_string_Inr [simp]: "fixed_string v s = Inr u \<longleftrightarrow> v = PStr s"
  by (auto simp: fixed_string_def)

lemma sha256_field_Inr: "sha256_field v = Inr s \<longleftrightarrow> v = PStr s \<and> hex_string 64 s"
  by (auto simp: sha256_field_def split: pyval.splits)

lemma validate_json_value_Inr: "validate_json_value None v = Inr u \<longleftrightarrow> exact_dom v"
proof (induction v rule: exact_dom.induct)
  case (1 vs)
  have "validate_json_value None (PList vs) = Inr u \<longleftrightarrow> (\<exists>us. map_res (validate_json_value None) vs = Inr us)"
    by (subst validate_json_value.simps) (simp add: res_simps)
  with 1 show ?case by (simp add: map_res_unit list_all_iff)
next
  case (2 d)
  have "validate_json_value None (PDict d) = Inr u \<longleftrightarrow> (\<exists>us. map_res (\<lambda>(_, item). validate_json_value None item) d = Inr us)"
    by (subst validate_json_value.simps) (simp add: res_simps)
  with 2 show ?case by (simp add: map_res_unit list_all_iff split_beta) force
qed (subst validate_json_value.simps; simp)+

lemma validate_exact [simp]: "exact_dom v \<Longrightarrow> validate_json_value None v = Inr ()"
  by (simp add: validate_json_value_Inr)

lemma canonical_json_bytes_Inr:
  "canonical_json_bytes v = Inr s \<longleftrightarrow>
     exact_dom v \<and> printable v \<and> utf8_encode (json_text v) = Inr s \<and> length s \<le> MAX_CANONICAL_JSON_BYTES"
  by (auto simp: canonical_json_bytes_def canonical_json_within_def res_simps validate_json_value_Inr)

lemma canonical_inj:
  "canonical_json_bytes a = Inr s \<Longrightarrow> canonical_json_bytes b = Inr s \<Longrightarrow> jnorm a = jnorm b"
  using json_text_inj exact_json_dom utf8_encode_inj by (auto simp: canonical_json_bytes_Inr)

lemma canonical_cong:
  "jnorm a = jnorm b \<Longrightarrow> exact_dom a \<Longrightarrow> exact_dom b \<Longrightarrow> canonical_json_bytes a = canonical_json_bytes b"
  using printable_jnorm [of a] printable_jnorm [of b]
  by (simp add: canonical_json_bytes_def canonical_json_within_def json_dumps_None json_text_raw)

interpretation wire: digest_commitment canonical_json_bytes jnorm
  by unfold_locales (rule canonical_inj)

section \<open>Words on the wire\<close>

lemma push_bit_and: "push_bit n (drop_bit n b AND m) = (b::int) AND push_bit n m"
  by (rule bit_eqI) (auto simp: bit_push_bit_iff bit_and_iff bit_drop_bit_eq)

lemma push_bit_eq_iff: "push_bit n (a::int) = push_bit n b \<longleftrightarrow> a = b"
  by (simp add: push_bit_eq_mult)

lemma WIRE_EXPONENT_push: "WIRE_EXPONENT_MASK = push_bit 52 EXPONENT_MASK"
  by (simp add: WIRE_EXPONENT_MASK_def EXPONENT_MASK_def push_bit_eq_mult)

lemma exponent_full: "b AND WIRE_EXPONENT_MASK = WIRE_EXPONENT_MASK \<longleftrightarrow> mag b div FU = EXPONENT_MASK"
proof -
  have "b AND WIRE_EXPONENT_MASK = push_bit 52 (drop_bit 52 b AND EXPONENT_MASK)"
    by (simp only: WIRE_EXPONENT_push push_bit_and)
  then show ?thesis by (simp add: WIRE_EXPONENT_push push_bit_eq_iff expo_mag)
qed

lemma wire_masks: "WIRE_FRACTION_MASK = FRACTION_MASK" "WIRE_SIGN_MASK = SIGN_MASK"
  by (simp_all add: WIRE_FRACTION_MASK_def FRACTION_MASK_def WIRE_SIGN_MASK_def SIGN_MASK_def)

lemma nan_word_iff: "word64 b \<Longrightarrow> nan_word b \<longleftrightarrow> nan b"
  using word64_mag [of b] mag_fields(3,4) [of "mag b"]
  by (auto simp: nan_word_def exponent_full wire_masks frac_mag nan_def)

lemma hex_word: "hex_string 16 s \<Longrightarrow> word64 (int (from_hex s))"
  using from_hex_less [of s] by (auto simp: hex_string_def word64_def WORD_LIMIT_def)

lemma parse_binary64_hex_Inr:
  "parse_binary64_hex v = Inr b \<longleftrightarrow>
     (\<exists>s. v = PStr s \<and> hex_string 16 s \<and> b = int (from_hex s) \<and> endpoint b)"
  by (auto simp: parse_binary64_hex_def Let_def nan_word_iff hex_word endpoint_def split: pyval.splits)

lemma binary64_hex_Inr: "binary64_hex b = Inr s \<longleftrightarrow> endpoint b \<and> s = to_hex 16 (nat b)"
  using nan_word_iff [of b] by (auto simp: binary64_hex_def endpoint_def word64_def WORD_LIMIT_def)

lemma hex_of_word: "word64 b \<Longrightarrow> int (from_hex (to_hex 16 (nat b))) = b"
proof -
  assume "word64 b"
  then have "nat b < 18446744073709551616" "0 \<le> b" by (auto simp: word64_def WORD_LIMIT_def)
  then show ?thesis by (simp add: from_hex_to_hex)
qed

text \<open>The order of the validator is the order of the interval constructor.\<close>

lemma numeric_le_iff:
  assumes "endpoint l" "endpoint r"
  shows "binary64_numeric_le l r \<longleftrightarrow> ep_rank l \<le> ep_rank r"
proof -
  have w: "word64 l" "word64 r" using assms by (auto simp: endpoint_def)
  show ?thesis
    using w word64_mag [of l] word64_mag [of r] mag_cases [of l] mag_cases [of r]
    by (auto simp: rank_le_iff [OF assms] binary64_numeric_le_def Let_def wire_masks
        and_SIGN_MASK and_not_SIGN_MASK ordinal_def)
qed

text \<open>What \<open>validate_interval\<close> accepts: exactly the encodings of well-formed intervals.\<close>

definition wire_interval :: "pyval \<Rightarrow> interval \<Rightarrow> bool" where
  "wire_interval v i \<longleftrightarrow> (\<exists>d l h. v = PDict d \<and> set (map fst d) = {lit ''lo'', lit ''hi''} \<and>
     map_of d (lit ''lo'') = Some (PStr l) \<and> map_of d (lit ''hi'') = Some (PStr h) \<and>
     hex_string 16 l \<and> hex_string 16 h \<and> i = \<lparr>iv_lo = int (from_hex l), iv_hi = int (from_hex h)\<rparr>)"

lemma fin_exponent: "word64 b \<Longrightarrow> b AND WIRE_EXPONENT_MASK = WIRE_EXPONENT_MASK \<longleftrightarrow> \<not> fin b"
  by (simp add: exponent_full fin_iff)

lemma validate_interval_Inr:
  "validate_interval v rf = Inr d \<longleftrightarrow>
     v = PDict d \<and> (\<exists>i. wire_interval v i \<and> wf_interval i \<and> (rf \<longrightarrow> fin_interval i))"
proof
  assume "validate_interval v rf = Inr d"
  then obtain lo hi where v: "v = PDict d" "set (map fst d) = {lit ''lo'', lit ''hi''}"
    "ebind (dict_get d ''lo'') parse_binary64_hex = Inr lo" "ebind (dict_get d ''hi'') parse_binary64_hex = Inr hi"
    and f: "rf \<Longrightarrow> \<not> (lo AND WIRE_EXPONENT_MASK = WIRE_EXPONENT_MASK \<or> hi AND WIRE_EXPONENT_MASK = WIRE_EXPONENT_MASK)"
    and le: "binary64_numeric_le lo hi"
    by (auto simp: validate_interval_def res_simps exact_object_Inr split: if_splits)
  from v obtain l h where lh: "map_of d (lit ''lo'') = Some (PStr l)" "hex_string 16 l" "lo = int (from_hex l)"
    "endpoint lo" "map_of d (lit ''hi'') = Some (PStr h)" "hex_string 16 h" "hi = int (from_hex h)" "endpoint hi"
    by (auto simp: res_simps parse_binary64_hex_Inr dict_get_Inr_iff)
  have "wf_interval \<lparr>iv_lo = lo, iv_hi = hi\<rparr>"
    using le numeric_le_iff [OF lh(4,8)] lh by (simp add: wf_interval_def)
  moreover have "rf \<longrightarrow> fin_interval \<lparr>iv_lo = lo, iv_hi = hi\<rparr>"
    using f fin_exponent hex_word [OF lh(2)] hex_word [OF lh(6)] lh by (auto simp: fin_interval_def)
  moreover have "wire_interval v \<lparr>iv_lo = lo, iv_hi = hi\<rparr>"
    using v lh by (auto simp: wire_interval_def)
  ultimately show "v = PDict d \<and> (\<exists>i. wire_interval v i \<and> wf_interval i \<and> (rf \<longrightarrow> fin_interval i))"
    using v by blast
next
  assume "v = PDict d \<and> (\<exists>i. wire_interval v i \<and> wf_interval i \<and> (rf \<longrightarrow> fin_interval i))"
  then obtain l h where v: "v = PDict d" "set (map fst d) = {lit ''lo'', lit ''hi''}"
    "map_of d (lit ''lo'') = Some (PStr l)" "map_of d (lit ''hi'') = Some (PStr h)"
    "hex_string 16 l" "hex_string 16 h" "wf_interval \<lparr>iv_lo = int (from_hex l), iv_hi = int (from_hex h)\<rparr>"
    "rf \<longrightarrow> fin_interval \<lparr>iv_lo = int (from_hex l), iv_hi = int (from_hex h)\<rparr>"
    by (auto simp: wire_interval_def)
  then have e: "endpoint (int (from_hex l))" "endpoint (int (from_hex h))" by (auto simp: wf_interval_def)
  then have "parse_binary64_hex (PStr l) = Inr (int (from_hex l))"
    "parse_binary64_hex (PStr h) = Inr (int (from_hex h))"
    using v by (auto simp: parse_binary64_hex_Inr)
  moreover have "binary64_numeric_le (int (from_hex l)) (int (from_hex h))"
    using numeric_le_iff [OF e] v(7) by (simp add: wf_interval_def)
  ultimately show "validate_interval v rf = Inr d"
    using v fin_exponent [OF hex_word [OF v(5)]] fin_exponent [OF hex_word [OF v(6)]]
    by (auto simp: validate_interval_def exact_object_def dict_get_def fin_interval_def)
qed

lemma validate_interval_ex:
  "(\<exists>d. validate_interval v rf = Inr d) \<longleftrightarrow> (\<exists>i. wire_interval v i \<and> wf_interval i \<and> (rf \<longrightarrow> fin_interval i))"
  unfolding validate_interval_Inr by (auto simp: wire_interval_def)

end
