(* ===== verification/Expressions.thy ===== *)
theory Expressions
  imports Wire_Facts
begin

text \<open>
  The specification level of the expression language: the abstract syntax a wire expression
  represents, its interval and real semantics, and its cost.  \<open>validate_expression\<close> accepts exactly
  the representations of bounded expressions, and \<open>expression_arithmetic_cost\<close> saturates the exact
  cost.
\<close>

section \<open>Abstract syntax\<close>

datatype uop = UNeg | UAbs
datatype bop = BAdd | BSub | BMul | BDiv | BMin | BMax

datatype expr = Const interval | Var int | Unary uop expr | Pow expr int | Binary bop expr expr

fun uop_name :: "uop \<Rightarrow> string" where
  "uop_name UNeg = ''neg''"
| "uop_name UAbs = ''abs''"

fun bop_name :: "bop \<Rightarrow> string" where
  "bop_name BAdd = ''add''"
| "bop_name BSub = ''sub''"
| "bop_name BMul = ''mul''"
| "bop_name BDiv = ''div''"
| "bop_name BMin = ''min''"
| "bop_name BMax = ''max''"

lemma uop_names: "s \<in> set [''neg'', ''abs''] \<longleftrightarrow> (\<exists>u. s = uop_name u)"
  by (auto simp: all_not_in_conv intro: exI [of _ UNeg] exI [of _ UAbs]) (metis uop.exhaust uop_name.simps)

lemma bop_names: "s \<in> set [''add'', ''sub'', ''mul'', ''div'', ''min'', ''max''] \<longleftrightarrow> (\<exists>b. s = bop_name b)"
proof
  assume "s \<in> set [''add'', ''sub'', ''mul'', ''div'', ''min'', ''max'']"
  then show "\<exists>b. s = bop_name b"
    by (auto intro: exI [of _ BAdd] exI [of _ BSub] exI [of _ BMul] exI [of _ BDiv] exI [of _ BMin] exI [of _ BMax])
next
  assume "\<exists>b. s = bop_name b"
  then obtain b where "s = bop_name b" ..
  then show "s \<in> set [''add'', ''sub'', ''mul'', ''div'', ''min'', ''max'']" by (cases b) auto
qed

inductive represents :: "pyval \<Rightarrow> expr \<Rightarrow> bool" where
  rep_const: "set (map fst d) = {lit ''op'', lit ''value''} \<Longrightarrow> map_of d (lit ''op'') = Some (PStr (lit ''const'')) \<Longrightarrow>
    map_of d (lit ''value'') = Some v \<Longrightarrow> wire_interval v i \<Longrightarrow> wf_interval i \<Longrightarrow> fin_interval i \<Longrightarrow>
    represents (PDict d) (Const i)"
| rep_var: "set (map fst d) = {lit ''op'', lit ''index''} \<Longrightarrow> map_of d (lit ''op'') = Some (PStr (lit ''var'')) \<Longrightarrow>
    map_of d (lit ''index'') = Some (PInt k) \<Longrightarrow> represents (PDict d) (Var k)"
| rep_unary: "set (map fst d) = {lit ''op'', lit ''arg''} \<Longrightarrow> map_of d (lit ''op'') = Some (PStr (lit (uop_name u))) \<Longrightarrow>
    map_of d (lit ''arg'') = Some v \<Longrightarrow> represents v e \<Longrightarrow> represents (PDict d) (Unary u e)"
| rep_pow: "set (map fst d) = {lit ''op'', lit ''arg'', lit ''exponent''} \<Longrightarrow>
    map_of d (lit ''op'') = Some (PStr (lit ''pow_nat'')) \<Longrightarrow> map_of d (lit ''arg'') = Some v \<Longrightarrow>
    map_of d (lit ''exponent'') = Some (PInt n) \<Longrightarrow> represents v e \<Longrightarrow> represents (PDict d) (Pow e n)"
| rep_binary: "set (map fst d) = {lit ''op'', lit ''left'', lit ''right''} \<Longrightarrow>
    map_of d (lit ''op'') = Some (PStr (lit (bop_name b))) \<Longrightarrow> map_of d (lit ''left'') = Some v \<Longrightarrow>
    map_of d (lit ''right'') = Some w \<Longrightarrow> represents v e \<Longrightarrow> represents w f \<Longrightarrow>
    represents (PDict d) (Binary b e f)"

text \<open>The bounds of the validator: variables and exponents in range, depth, node count.\<close>

fun expr_ok :: "int \<Rightarrow> expr \<Rightarrow> bool" where
  "expr_ok vc (Const i) = True"
| "expr_ok vc (Var k) = (0 \<le> k \<and> k < vc)"
| "expr_ok vc (Unary u e) = expr_ok vc e"
| "expr_ok vc (Pow e n) = (0 \<le> n \<and> n \<le> MAX_POW_EXPONENT \<and> expr_ok vc e)"
| "expr_ok vc (Binary b e f) = (expr_ok vc e \<and> expr_ok vc f)"

fun height :: "expr \<Rightarrow> nat" where
  "height (Unary u e) = Suc (height e)"
| "height (Pow e n) = Suc (height e)"
| "height (Binary b e f) = Suc (max (height e) (height f))"
| "height _ = 0"

fun nodes :: "expr \<Rightarrow> nat" where
  "nodes (Unary u e) = Suc (nodes e)"
| "nodes (Pow e n) = Suc (nodes e)"
| "nodes (Binary b e f) = Suc (nodes e + nodes f)"
| "nodes _ = 1"

lemma nodes_pos: "0 < nodes e"
  by (cases e) auto

section \<open>What the validator accepts\<close>

lemma str_in_uop: "str_in op [''neg'', ''abs''] \<longleftrightarrow> (\<exists>u. op = lit (uop_name u))"
proof -
  have "str_in op [''neg'', ''abs''] \<longleftrightarrow> (\<exists>s \<in> set [''neg'', ''abs'']. op = lit s)" by (auto simp: str_in_def)
  then show ?thesis unfolding Bex_def uop_names by auto
qed

lemma str_in_bop: "str_in op [''add'', ''sub'', ''mul'', ''div'', ''min'', ''max''] \<longleftrightarrow> (\<exists>b. op = lit (bop_name b))"
proof -
  have "str_in op [''add'', ''sub'', ''mul'', ''div'', ''min'', ''max''] \<longleftrightarrow>
      (\<exists>s \<in> set [''add'', ''sub'', ''mul'', ''div'', ''min'', ''max'']. op = lit s)" by (auto simp: str_in_def)
  then show ?thesis unfolding Bex_def bop_names by auto
qed

lemma names_distinct [simp]:
  "uop_name u \<noteq> ''const''" "uop_name u \<noteq> ''var''" "uop_name u \<noteq> ''pow_nat''"
  "bop_name b \<noteq> ''const''" "bop_name b \<noteq> ''var''" "bop_name b \<noteq> ''pow_nat''"
  by (cases u; simp)+ (cases b; simp)+

lemmas names_distinct_sym [simp] = names_distinct [symmetric]

lemma name_lists [simp]:
  "str_in (lit (uop_name u)) [''neg'', ''abs'']" "\<not> str_in (lit (bop_name b)) [''neg'', ''abs'']"
  "str_in (lit (bop_name b)) [''add'', ''sub'', ''mul'', ''div'', ''min'', ''max'']"
  "\<not> str_in (lit (uop_name u)) [''const'', ''var'']" "\<not> str_in (lit (bop_name b)) [''const'', ''var'']"
  by (cases u; simp; fail)
    (cases b; simp; fail | cases u; simp; fail)+

lemma str_in_names:
  "\<not> str_in (lit ''pow_nat'') [''neg'', ''abs'']"
  by simp

text \<open>The validator on each kind of node, once depth and counter are within bounds.\<close>

lemma validate_within:
  assumes "depth \<le> MAX_EXPRESSION_DEPTH" "counter + 1 \<le> MAX_EXPRESSION_NODES"
  shows validate_const: "map_of d (lit ''op'') = Some (PStr (lit ''const'')) \<Longrightarrow> validate_expression vc depth counter (PDict d) =
     ebind (exact_object (PDict d) [''op'', ''value'']) (\<lambda>node. ebind (dict_get node ''value'') (\<lambda>v.
       ebind (validate_interval v True) (\<lambda>_. Inr (counter + 1))))"
    and validate_var: "map_of d (lit ''op'') = Some (PStr (lit ''var'')) \<Longrightarrow> validate_expression vc depth counter (PDict d) =
     ebind (exact_object (PDict d) [''op'', ''index'']) (\<lambda>node. ebind (dict_get node ''index'') (\<lambda>v.
       ebind (integer v 0 None) (\<lambda>index. if index \<ge> vc then Inl FormatError else Inr (counter + 1))))"
    and validate_unary: "map_of d (lit ''op'') = Some (PStr (lit (uop_name u))) \<Longrightarrow> validate_expression vc depth counter (PDict d) =
     ebind (exact_object (PDict d) [''op'', ''arg'']) (\<lambda>node. ebind (dict_get node ''arg'') (\<lambda>arg.
       validate_expression vc (depth + 1) (counter + 1) arg))"
    and validate_pow: "map_of d (lit ''op'') = Some (PStr (lit ''pow_nat'')) \<Longrightarrow> validate_expression vc depth counter (PDict d) =
     ebind (exact_object (PDict d) [''op'', ''arg'', ''exponent'']) (\<lambda>node. ebind (dict_get node ''exponent'') (\<lambda>v.
       ebind (integer v 0 (Some MAX_POW_EXPONENT)) (\<lambda>_. ebind (dict_get node ''arg'') (\<lambda>arg.
         validate_expression vc (depth + 1) (counter + 1) arg))))"
    and validate_binary: "map_of d (lit ''op'') = Some (PStr (lit (bop_name b))) \<Longrightarrow> validate_expression vc depth counter (PDict d) =
     ebind (exact_object (PDict d) [''op'', ''left'', ''right'']) (\<lambda>node. ebind (dict_get node ''left'') (\<lambda>l.
       ebind (validate_expression vc (depth + 1) (counter + 1) l) (\<lambda>c. ebind (dict_get node ''right'') (\<lambda>r.
         validate_expression vc (depth + 1) c r))))"
  using assms by (subst validate_expression.simps; simp del: str_in_lit add: str_in_names)+

lemma validate_Inr_cases:
  assumes "validate_expression vc depth counter v = Inr c"
  obtains d op where "v = PDict d" "depth \<le> MAX_EXPRESSION_DEPTH" "counter + 1 \<le> MAX_EXPRESSION_NODES"
    "map_of d (lit ''op'') = Some (PStr op)"
    "op = lit ''const'' \<or> op = lit ''var'' \<or> (\<exists>u. op = lit (uop_name u)) \<or> op = lit ''pow_nat'' \<or>
     (\<exists>b. op = lit (bop_name b))"
  using assms that unfolding str_in_uop [symmetric] str_in_bop [symmetric]
  by (subst (asm) validate_expression.simps) (auto split: if_splits pyval.splits option.splits)

lemma validate_expression_sound:
  "validate_expression vc depth counter v = Inr c \<Longrightarrow>
     \<exists>e. represents v e \<and> expr_ok vc e \<and> depth + height e \<le> MAX_EXPRESSION_DEPTH \<and>
       c = counter + nodes e \<and> c \<le> MAX_EXPRESSION_NODES"
proof (induction "size v" arbitrary: v depth counter c rule: less_induct)
  case less
  obtain d op where v: "v = PDict d" and within: "depth \<le> MAX_EXPRESSION_DEPTH" "counter + 1 \<le> MAX_EXPRESSION_NODES"
    and op: "map_of d (lit ''op'') = Some (PStr op)"
    and ops: "op = lit ''const'' \<or> op = lit ''var'' \<or> (\<exists>u. op = lit (uop_name u)) \<or> op = lit ''pow_nat'' \<or>
     (\<exists>b. op = lit (bop_name b))"
    by (rule validate_Inr_cases [OF less.prems]) blast
  have smaller: "size w < size v" if "map_of d (lit k) = Some w" for k w
    using size_dict_get [of d k w] that v by (simp add: dict_get_Inr_iff)
  note valid = less.prems [unfolded v]
  from ops show ?case
  proof (elim disjE exE)
    assume o: "op = lit ''const''"
    note valid [unfolded validate_const [OF within op [unfolded o]]]
    then obtain x y i where "set (map fst d) = {lit ''op'', lit ''value''}" "map_of d (lit ''value'') = Some x"
      "wire_interval x i" "wf_interval i" "fin_interval i" "c = counter + 1"
      by (auto simp: res_simps exact_object_Inr dict_get_Inr_iff validate_interval_Inr)
    then show ?thesis using op within unfolding o v by (intro exI [of _ "Const i"]) (auto intro: rep_const)
  next
    assume o: "op = lit ''var''"
    note valid [unfolded validate_var [OF within op [unfolded o]]]
    then obtain k where "set (map fst d) = {lit ''op'', lit ''index''}" "map_of d (lit ''index'') = Some (PInt k)"
      "0 \<le> k" "k < vc" "c = counter + 1"
      by (auto simp: res_simps exact_object_Inr dict_get_Inr_iff integer_Inr split: if_splits)
    then show ?thesis using op within unfolding o v by (intro exI [of _ "Var k"]) (auto intro: rep_var)
  next
    fix u assume o: "op = lit (uop_name u)"
    note valid [unfolded validate_unary [OF within op [unfolded o]]]
    then obtain w where w: "set (map fst d) = {lit ''op'', lit ''arg''}" "map_of d (lit ''arg'') = Some w"
      "validate_expression vc (depth + 1) (counter + 1) w = Inr c"
      by (auto simp: res_simps exact_object_Inr dict_get_Inr_iff)
    from less.hyps [OF smaller [OF w(2)] w(3)] obtain e where "represents w e" "expr_ok vc e"
      "depth + 1 + height e \<le> MAX_EXPRESSION_DEPTH" "c = counter + 1 + nodes e" "c \<le> MAX_EXPRESSION_NODES" by blast
    with w op show ?thesis unfolding o v by (intro exI [of _ "Unary u e"]) (auto intro: rep_unary)
  next
    assume o: "op = lit ''pow_nat''"
    note valid [unfolded validate_pow [OF within op [unfolded o]]]
    then obtain w n where w: "set (map fst d) = {lit ''op'', lit ''arg'', lit ''exponent''}" "map_of d (lit ''arg'') = Some w"
      "validate_expression vc (depth + 1) (counter + 1) w = Inr c"
      and n: "map_of d (lit ''exponent'') = Some (PInt n)" "0 \<le> n" "n \<le> MAX_POW_EXPONENT"
      by (auto simp: res_simps exact_object_Inr dict_get_Inr_iff integer_Inr)
    from less.hyps [OF smaller [OF w(2)] w(3)] obtain e where "represents w e" "expr_ok vc e"
      "depth + 1 + height e \<le> MAX_EXPRESSION_DEPTH" "c = counter + 1 + nodes e" "c \<le> MAX_EXPRESSION_NODES" by blast
    with w n op show ?thesis unfolding o v by (intro exI [of _ "Pow e n"]) (auto intro: rep_pow)
  next
    fix b assume o: "op = lit (bop_name b)"
    note valid [unfolded validate_binary [OF within op [unfolded o]]]
    then obtain x y c' where w: "set (map fst d) = {lit ''op'', lit ''left'', lit ''right''}"
      "map_of d (lit ''left'') = Some x" "validate_expression vc (depth + 1) (counter + 1) x = Inr c'"
      "map_of d (lit ''right'') = Some y" "validate_expression vc (depth + 1) c' y = Inr c"
      by (auto simp: res_simps exact_object_Inr dict_get_Inr_iff)
    from less.hyps [OF smaller [OF w(2)] w(3)] obtain e where e: "represents x e" "expr_ok vc e"
      "depth + 1 + height e \<le> MAX_EXPRESSION_DEPTH" "c' = counter + 1 + nodes e" by blast
    from less.hyps [OF smaller [OF w(4)] w(5)] obtain f where "represents y f" "expr_ok vc f"
      "depth + 1 + height f \<le> MAX_EXPRESSION_DEPTH" "c = c' + nodes f" "c \<le> MAX_EXPRESSION_NODES" by blast
    with e w op show ?thesis unfolding o v by (intro exI [of _ "Binary b e f"]) (auto intro: rep_binary)
  qed
qed

lemma exact_object_fields [simp]:
  "set (map fst d) = set (map lit ks) \<Longrightarrow> exact_object (PDict d) ks = Inr d"
  by (simp add: exact_object_def)

lemma dict_get_Some [simp]: "map_of d (lit k) = Some v \<Longrightarrow> dict_get d k = Inr v"
  by (simp add: dict_get_def)

lemma validate_expression_complete:
  "represents v e \<Longrightarrow> expr_ok vc e \<Longrightarrow> depth + height e \<le> MAX_EXPRESSION_DEPTH \<Longrightarrow>
     counter + nodes e \<le> MAX_EXPRESSION_NODES \<Longrightarrow>
     validate_expression vc depth counter v = Inr (counter + nodes e)"
proof (induction arbitrary: depth counter rule: represents.induct)
  case (rep_const d v i)
  then obtain x where "validate_interval v True = Inr x"
    using validate_interval_Inr [of v True] by (auto simp: wire_interval_def)
  with rep_const show ?case by (simp add: validate_const)
next
  case (rep_var d k)
  then have "integer (PInt k) 0 None = Inr k" by (simp add: integer_Inr)
  with rep_var show ?case by (simp add: validate_var)
next
  case (rep_unary d u v e)
  then show ?case by (simp add: validate_unary)
next
  case (rep_pow d v n e)
  then have "integer (PInt n) 0 (Some MAX_POW_EXPONENT) = Inr n" by (simp add: integer_Inr)
  with rep_pow show ?case by (simp add: validate_pow)
next
  case (rep_binary d b v w e f)
  then have "validate_expression vc (depth + 1) (counter + 1) v = Inr (counter + 1 + nodes e)"
    "validate_expression vc (depth + 1) (counter + 1 + nodes e) w = Inr (counter + 1 + nodes e + nodes f)"
    by simp_all
  moreover have "counter + 1 \<le> MAX_EXPRESSION_NODES" "depth \<le> MAX_EXPRESSION_DEPTH"
    using rep_binary.prems by simp_all
  ultimately show ?case using rep_binary.hyps by (simp add: validate_binary)
qed

lemma validate_expression_iff:
  "validate_expression vc depth counter v = Inr c \<longleftrightarrow>
     (\<exists>e. represents v e \<and> expr_ok vc e \<and> depth + height e \<le> MAX_EXPRESSION_DEPTH \<and>
       c = counter + nodes e \<and> c \<le> MAX_EXPRESSION_NODES)"
  using validate_expression_sound validate_expression_complete by blast

text \<open>A wire value represents at most one expression.\<close>

inductive_cases represents_dictE: "represents (PDict d) e"

lemma wire_interval_unique: "wire_interval v i \<Longrightarrow> wire_interval v j \<Longrightarrow> i = j"
  by (auto simp: wire_interval_def)

lemma uop_name_inject [simp]: "uop_name u = uop_name u' \<longleftrightarrow> u = u'"
  by (cases u; cases u') auto

lemma bop_name_inject [simp]: "bop_name b = bop_name b' \<longleftrightarrow> b = b'"
  by (cases b; cases b') auto

lemma uop_bop_name [simp]: "uop_name u \<noteq> bop_name b" "bop_name b \<noteq> uop_name u"
  by (cases u; cases b; simp)+

lemma represents_unique: "represents v e \<Longrightarrow> represents v e' \<Longrightarrow> e = e'"
proof (induction arbitrary: e' rule: represents.induct)
  case (rep_const d v i)
  from rep_const.prems rep_const.hyps show ?case
    by (elim represents_dictE) (auto dest: wire_interval_unique)
next
  case (rep_var d k)
  from rep_var.prems rep_var.hyps show ?case by (elim represents_dictE) auto
next
  case (rep_unary d u v e)
  show ?case by (rule represents_dictE [OF rep_unary.prems]; insert rep_unary.hyps(2,3) rep_unary.IH; fastforce)
next
  case (rep_pow d v n e)
  show ?case by (rule represents_dictE [OF rep_pow.prems]; insert rep_pow.hyps(2,3,4) rep_pow.IH; fastforce)
next
  case (rep_binary d b v w e f)
  show ?case by (rule represents_dictE [OF rep_binary.prems]; insert rep_binary.hyps(2,3,4) rep_binary.IH; fastforce)
qed

section \<open>Arithmetic cost\<close>

text \<open>The cost without saturation.\<close>

fun exact_cost :: "expr \<Rightarrow> int" where
  "exact_cost (Unary u e) = exact_cost e + 1"
| "exact_cost (Pow e n) = exact_cost e * max n 1 + 1"
| "exact_cost (Binary b e f) = exact_cost e + exact_cost f + 1"
| "exact_cost _ = 1"

lemma exact_cost_pos: "1 \<le> exact_cost e"
proof (induction e)
  case (Pow e n)
  then have "0 \<le> exact_cost e * max n 1" by (intro mult_nonneg_nonneg) auto
  then show ?case by simp
qed auto

lemma cap_pos: "1 \<le> COST_CAP"
  by (simp add: COST_CAP_def MAX_ARITHMETIC_COST_PER_ROW_def)

lemma saturate_times:
  assumes "1 \<le> (K::int)" "0 \<le> a" "1 \<le> m"
  shows "min K (min K a * m + 1) = min K (a * m + 1)"
proof (cases "a \<le> K")
  case False
  then have "K * 1 \<le> K * m" "K * 1 \<le> a * m" using assms by (intro mult_mono; simp)+
  with False show ?thesis by (simp add: min_def)
qed (simp add: min_def)

lemma expression_cost_represents:
  "represents v e \<Longrightarrow> expression_arithmetic_cost v = Inr (min COST_CAP (exact_cost e))"
proof (induction rule: represents.induct)
  case (rep_const d v i)
  then show ?case using cap_pos by (subst expression_arithmetic_cost.simps) (simp add: as_dict_def as_operator_def)
next
  case (rep_var d k)
  then show ?case using cap_pos by (subst expression_arithmetic_cost.simps) (simp add: as_dict_def as_operator_def)
next
  case (rep_unary d u v e)
  then show ?case
    by (subst expression_arithmetic_cost.simps) (simp add: as_dict_def as_operator_def del: str_in_lit)
next
  case (rep_pow d v n e)
  then show ?case using saturate_times [OF cap_pos, of "exact_cost e" "max n 1"] exact_cost_pos [of e]
    by (subst expression_arithmetic_cost.simps) (simp add: as_dict_def as_operator_def as_int_def)
next
  case (rep_binary d b v w e f)
  then show ?case using cap_pos exact_cost_pos [of e] exact_cost_pos [of f]
    by (subst expression_arithmetic_cost.simps) (simp add: as_dict_def as_operator_def min_def del: str_in_lit)
qed

section \<open>Semantics\<close>

fun uop_interval :: "uop \<Rightarrow> interval \<Rightarrow> interval res" where
  "uop_interval UNeg = interval_neg"
| "uop_interval UAbs = interval_abs"

fun bop_interval :: "bop \<Rightarrow> interval \<Rightarrow> interval \<Rightarrow> interval res" where
  "bop_interval BAdd = interval_add"
| "bop_interval BSub = interval_sub"
| "bop_interval BMul = interval_mul"
| "bop_interval BDiv = interval_div"
| "bop_interval BMin = interval_min"
| "bop_interval BMax = interval_max"

text \<open>Interval evaluation by recursion, the reference for the compiler and the stack machine.\<close>

fun ieval :: "interval list \<Rightarrow> expr \<Rightarrow> interval res" where
  "ieval row (Const i) = Inr i"
| "ieval row (Var k) = py_index row k"
| "ieval row (Unary u e) = ebind (ieval row e) (uop_interval u)"
| "ieval row (Pow e n) = ebind (ieval row e) (\<lambda>i. interval_pow_nat i n)"
| "ieval row (Binary b e f) = ebind (ieval row e) (\<lambda>i. ebind (ieval row f) (bop_interval b i))"

fun uop_real :: "uop \<Rightarrow> real \<Rightarrow> real" where
  "uop_real UNeg x = - x"
| "uop_real UAbs x = \<bar>x\<bar>"

fun bop_real :: "bop \<Rightarrow> real \<Rightarrow> real \<Rightarrow> real" where
  "bop_real BAdd x y = x + y"
| "bop_real BSub x y = x - y"
| "bop_real BMul x y = x * y"
| "bop_real BDiv x y = x / y"
| "bop_real BMin x y = min x y"
| "bop_real BMax x y = max x y"

text \<open>
  The real values an expression can take when a constant may be any real of its interval.  A
  quotient is a value only where the divisor is not zero.
\<close>

fun denotes :: "real list \<Rightarrow> expr \<Rightarrow> real \<Rightarrow> bool" where
  "denotes env (Const i) x \<longleftrightarrow> contains i x"
| "denotes env (Var k) x \<longleftrightarrow> py_index env k = Inr x"
| "denotes env (Unary u e) x \<longleftrightarrow> (\<exists>a. denotes env e a \<and> x = uop_real u a)"
| "denotes env (Pow e n) x \<longleftrightarrow> (\<exists>a. denotes env e a \<and> x = a ^ nat n)"
| "denotes env (Binary b e f) x \<longleftrightarrow>
     (\<exists>a c. denotes env e a \<and> denotes env f c \<and> (b = BDiv \<longrightarrow> c \<noteq> 0) \<and> x = bop_real b a c)"

end
