(* ===== verification/Evaluator_Sound.thy ===== *)
theory Evaluator_Sound
  imports Evaluator Expressions
begin

text \<open>
  The compiler and the stack machine compute the recursive interval semantics, which encloses the
  real semantics; a batch is evaluated row by row with it, and an accepted certificate therefore
  carries, for every row, an enclosure of every value of the expression.
\<close>

section \<open>Compilation\<close>

fun postfix :: "expr \<Rightarrow> instruction list" where
  "postfix (Const i) = [Instruction (lit ''const'') (IntervalArgument i)]"
| "postfix (Var k) = [Instruction (lit ''var'') (ValueArgument (PInt k))]"
| "postfix (Unary u e) = postfix e @ [Instruction (lit (uop_name u)) NoArgument]"
| "postfix (Pow e n) = postfix e @ [Instruction (lit ''pow_nat'') (ValueArgument (PInt n))]"
| "postfix (Binary b e f) = postfix e @ postfix f @ [Instruction (lit (bop_name b)) NoArgument]"

lemma hex_not_empty: "hex_string 16 s \<Longrightarrow> s \<noteq> [] \<and> list_all is_hex_digit s"
  by (auto simp: hex_string_def)

lemma decode_wire: "wire_interval v i \<Longrightarrow> wf_interval i \<Longrightarrow> decode_interval v = Inr i"
  by (auto simp: wire_interval_def decode_interval_def as_dict_def int_base16_def hex_not_empty
      mk_interval_Inr_iff)

lemma as_dict_PDict [simp]: "as_dict (PDict d) = Inr d"
  by (simp add: as_dict_def)

lemma as_operator_PStr [simp]: "as_operator (PStr s) = Inr s"
  by (simp add: as_operator_def)

lemma compile_represents: "represents v e \<Longrightarrow> compile_expression v = Inr (postfix e)"
proof (induction rule: represents.induct)
  case (rep_const d v i)
  then show ?case by (subst compile_expression.simps) (simp add: decode_wire)
next
  case (rep_var d k)
  then show ?case by (subst compile_expression.simps) simp
next
  case (rep_unary d u v e)
  then show ?case by (subst compile_expression.simps) (simp del: str_in_lit)
next
  case (rep_pow d v n e)
  then show ?case by (subst compile_expression.simps) simp
next
  case (rep_binary d b v w e f)
  then show ?case by (subst compile_expression.simps) (simp del: str_in_lit)
qed

section \<open>Execution\<close>

lemma run_loop_append: "run_loop row (p @ q) st = ebind (run_loop row p st) (run_loop row q)"
proof (induction p arbitrary: st)
  case (Cons i p)
  then show ?case by (cases "run_instruction row i st") auto
qed simp

lemma run_const [simp]:
  "run_instruction row (Instruction (lit ''const'') (IntervalArgument i)) st = Inr (i # st)"
  by (simp add: run_instruction_def Instruction_def argument_interval_def)

lemma run_var [simp]:
  "run_instruction row (Instruction (lit ''var'') (ValueArgument (PInt k))) st = ebind (py_index row k) (\<lambda>v. Inr (v # st))"
  by (simp add: run_instruction_def Instruction_def argument_int_def as_int_def)

lemma run_unary [simp]:
  "run_instruction row (Instruction (lit (uop_name u)) NoArgument) (x # st) = ebind (uop_interval u x) (\<lambda>v. Inr (v # st))"
  by (cases u) (simp_all add: run_instruction_def Instruction_def UNARY_OPERATIONS_def)

lemma run_pow [simp]:
  "run_instruction row (Instruction (lit ''pow_nat'') (ValueArgument (PInt n))) (x # st) = ebind (interval_pow_nat x n) (\<lambda>v. Inr (v # st))"
  by (simp add: run_instruction_def Instruction_def UNARY_OPERATIONS_def argument_int_def as_int_def)

lemma run_binary [simp]:
  "run_instruction row (Instruction (lit (bop_name b)) NoArgument) (y # x # st) = ebind (bop_interval b x y) (\<lambda>v. Inr (v # st))"
  by (cases b) (simp_all add: run_instruction_def Instruction_def UNARY_OPERATIONS_def BINARY_OPERATIONS_def)

text \<open>Running the compiled expression pushes its interval value, or raises what it raises.\<close>

lemma run_postfix: "run_loop row (postfix e) st = ebind (ieval row e) (\<lambda>i. Inr (i # st))"
proof (induction e arbitrary: st)
  case (Unary u e)
  then show ?case by (simp add: run_loop_append ebind_assoc)
next
  case (Pow e n)
  then show ?case by (simp add: run_loop_append ebind_assoc)
next
  case (Binary b e f)
  then show ?case by (simp add: run_loop_append ebind_assoc)
qed (simp_all add: ebind_assoc)

lemma run_program_postfix: "run_program (postfix e) row =
    catch_as evaluation_caught EvaluationError (ieval row e)"
  by (cases "ieval row e") (simp_all add: run_program_def run_postfix)

section \<open>Enclosure\<close>

fun consts_wf :: "expr \<Rightarrow> bool" where
  "consts_wf (Const i) = wf_interval i"
| "consts_wf (Var k) = True"
| "consts_wf (Unary u e) = consts_wf e"
| "consts_wf (Pow e n) = consts_wf e"
| "consts_wf (Binary b e f) = (consts_wf e \<and> consts_wf f)"

lemma represents_consts: "represents v e \<Longrightarrow> consts_wf e"
  by (induction rule: represents.induct) auto

text \<open>Some division meets a divisor interval that contains zero.\<close>

fun div_blocked :: "interval list \<Rightarrow> expr \<Rightarrow> bool" where
  "div_blocked row (Unary u e) = div_blocked row e"
| "div_blocked row (Pow e n) = div_blocked row e"
| "div_blocked row (Binary b e f) = (div_blocked row e \<or> div_blocked row f \<or>
     b = BDiv \<and> (case ieval row f of Inr j \<Rightarrow> contains j 0 | Inl _ \<Rightarrow> False))"
| "div_blocked row _ = False"

definition encloses :: "interval list \<Rightarrow> expr \<Rightarrow> interval \<Rightarrow> bool" where
  "encloses row e i \<longleftrightarrow> wf_interval i \<and>
     (\<forall>env x. list_all2 contains row env \<and> denotes env e x \<longrightarrow> contains i x)"

lemma uop_sound: "wf_interval a \<Longrightarrow> \<exists>c. uop_interval u a = Inr c \<and> wf_interval c \<and> (\<forall>x. contains a x \<longrightarrow> contains c (uop_real u x))"
  using interval_neg_sound_aux [of a] interval_abs_sound_aux [of a] by (cases u) auto

lemma bop_sound:
  assumes "wf_interval a" "wf_interval b" "op = BDiv \<Longrightarrow> \<not> contains b 0"
  shows "\<exists>c. bop_interval op a b = Inr c \<and> wf_interval c \<and>
    (\<forall>x y. contains a x \<and> contains b y \<longrightarrow> contains c (bop_real op x y))"
  using assms interval_add_sound_aux [of a b] interval_sub_sound_aux [of a b] interval_mul_sound_aux [of a b]
    interval_div_sound_aux [of a b] interval_min_sound_aux [of a b] interval_max_sound_aux [of a b]
  by (cases op) auto

lemma bop_blocked: "wf_interval b \<Longrightarrow> contains b 0 \<Longrightarrow> bop_interval BDiv a b = Inl InvalidBinary64Operation"
  by (simp add: interval_div_def)

lemma py_index_range: "0 \<le> k \<Longrightarrow> k < int (length xs) \<Longrightarrow> py_index xs k = Inr (xs ! nat k)"
  by (simp add: py_index_def)

lemma ieval_sound:
  assumes "list_all wf_interval row"
  shows "consts_wf e \<Longrightarrow> expr_ok (int (length row)) e \<Longrightarrow>
    (if div_blocked row e then ieval row e = Inl InvalidBinary64Operation
     else \<exists>i. ieval row e = Inr i \<and> encloses row e i)"
proof (induction e)
  case (Const i)
  then show ?case by (auto simp: encloses_def)
next
  case (Var k)
  then have k: "py_index row k = Inr (row ! nat k)" by (simp add: py_index_range)
  have "contains (row ! nat k) x" if "list_all2 contains row env" "py_index env k = Inr x" for env x
    using that Var.prems py_index_range [of k env] list_all2_nthD [OF that(1), of "nat k"]
    by (simp add: list_all2_lengthD [OF that(1)] nat_less_iff)
  then show ?case using k assms Var.prems by (auto simp: encloses_def list_all_length nat_less_iff)
next
  case (Unary u e)
  show ?case
  proof (cases "div_blocked row e")
    case False
    with Unary obtain i where i: "ieval row e = Inr i" "encloses row e i" by auto
    with uop_sound [of i u] False show ?thesis by (fastforce simp: encloses_def)
  qed (use Unary in auto)
next
  case (Pow e n)
  show ?case
  proof (cases "div_blocked row e")
    case False
    with Pow obtain i where i: "ieval row e = Inr i" "encloses row e i" by auto
    with interval_pow_nat_sound_aux [of i n] False Pow.prems show ?thesis by (fastforce simp: encloses_def)
  qed (use Pow in auto)
next
  case (Binary b e f)
  show ?case
  proof (cases "div_blocked row e \<or> div_blocked row f")
    case True
    then show ?thesis
    proof (cases "div_blocked row e")
      case False
      with Binary obtain i where "ieval row e = Inr i" by auto
      with True False Binary show ?thesis by auto
    qed (use Binary in auto)
  next
    case False
    with Binary obtain i where i: "ieval row e = Inr i" "encloses row e i" by auto
    from False Binary obtain j where j: "ieval row f = Inr j" "encloses row f j" by auto
    have wf: "wf_interval i" "wf_interval j" using i j by (auto simp: encloses_def)
    show ?thesis
    proof (cases "b = BDiv \<and> contains j 0")
      case True
      then show ?thesis using i(1) j(1) wf bop_blocked [of j i] by simp
    next
      case nb: False
      then obtain c where c: "bop_interval b i j = Inr c" "wf_interval c"
        "\<And>x y. contains i x \<Longrightarrow> contains j y \<Longrightarrow> contains c (bop_real b x y)"
        using bop_sound [OF wf, of b] by blast
      then have "encloses row (Binary b e f) c"
        using i(2) j(2) unfolding encloses_def denotes.simps by blast
      with c(1) i(1) j(1) False nb show ?thesis by auto
    qed
  qed
qed

section \<open>Rows and batches\<close>

definition wire_row :: "pyval \<Rightarrow> interval list \<Rightarrow> bool" where
  "wire_row raw row \<longleftrightarrow> (\<exists>ws. raw = PList ws \<and> list_all2 wire_interval ws row)"

definition row_ok :: "int \<Rightarrow> pyval \<Rightarrow> interval list \<Rightarrow> bool" where
  "row_ok vc raw row \<longleftrightarrow> wire_row raw row \<and> list_all wf_interval row \<and> list_all fin_interval row \<and>
     int (length row) = vc"

lemma list_all2_ex: "(\<forall>x \<in> set xs. \<exists>y. P x y) \<longleftrightarrow> (\<exists>ys. list_all2 P xs ys)"
  by (induction xs) (auto simp: list_all2_Cons1)

lemma list_all2_right: "list_all2 P xs ys \<Longrightarrow> (\<And>x y. P x y \<Longrightarrow> Q y) \<Longrightarrow> list_all Q ys"
  by (induction rule: list_all2_induct) auto

lemma list_all2_filter:
  "list_all2 (\<lambda>x y. P x y \<and> Q y \<and> R y) xs ys \<longleftrightarrow> list_all2 P xs ys \<and> list_all Q ys \<and> list_all R ys"
  by (auto simp: list_all2_conv_all_nth list_all_length)

lemma validate_row_Inr: "validate_row vc raw = Inr u \<longleftrightarrow> (\<exists>row. row_ok vc raw row)"
proof -
  let ?P = "\<lambda>w i. wire_interval w i \<and> wf_interval i \<and> fin_interval i"
  have "validate_row vc raw = Inr u \<longleftrightarrow> (\<exists>ws. raw = PList ws \<and> int (length ws) = vc \<and>
      (\<forall>w \<in> set ws. \<exists>i. ?P w i))"
    by (auto simp: validate_row_def res_simps map_res_unit validate_interval_ex)
  also have "\<dots> \<longleftrightarrow> (\<exists>ws row. raw = PList ws \<and> int (length ws) = vc \<and> list_all2 ?P ws row)"
    unfolding list_all2_ex by blast
  also have "\<dots> \<longleftrightarrow> (\<exists>row. row_ok vc raw row)"
    unfolding row_ok_def wire_row_def list_all2_filter by (metis list_all2_lengthD)
  finally show ?thesis .
qed

lemma decode_row: "list_all2 wire_interval ws row \<Longrightarrow> list_all wf_interval row \<Longrightarrow> map_res decode_interval ws = Inr row"
  by (induction rule: list_all2_induct) (auto simp: decode_wire)

definition wire_of :: "interval \<Rightarrow> pyval" where
  "wire_of i = py_dict [(''lo'', PStr (to_hex 16 (nat (iv_lo i)))), (''hi'', PStr (to_hex 16 (nat (iv_hi i))))]"

lemma wire_of_interval: "wf_interval i \<Longrightarrow> wire_interval (wire_of i) i"
  by (auto simp: wire_interval_def wire_of_def py_dict_def wf_interval_def endpoint_def hex_of_word)

lemma wire_of_dom [simp]: "exact_dom (wire_of i)" "dict_wf (wire_of i)"
  by (simp_all add: wire_of_def py_dict_def)

lemma encode_wf [simp]: "wf_interval i \<Longrightarrow> encode_interval i = Inr (wire_of i)"
proof -
  assume wf: "wf_interval i"
  then obtain d where "validate_interval (wire_of i) False = Inr d"
    using wire_of_interval [OF wf] validate_interval_Inr [of "wire_of i" False] by (auto simp: wire_of_def py_dict_def)
  moreover have "binary64_hex (iv_lo i) = Inr (to_hex 16 (nat (iv_lo i)))"
    "binary64_hex (iv_hi i) = Inr (to_hex 16 (nat (iv_hi i)))"
    using wf by (auto simp: binary64_hex_Inr wf_interval_def)
  ultimately show ?thesis by (simp add: encode_interval_def wire_of_def Let_def)
qed

text \<open>One row: the enclosure on the wire, or \<open>EvaluationError\<close> when a division is blocked.\<close>

lemma evaluate_row_spec:
  assumes "row_ok vc raw row" "consts_wf e" "expr_ok vc e"
  shows "if div_blocked row e then evaluate_row (postfix e) raw = Inl EvaluationError
    else \<exists>i. ieval row e = Inr i \<and> encloses row e i \<and> evaluate_row (postfix e) raw = Inr (wire_of i)"
proof -
  from assms(1) obtain ws where ws: "raw = PList ws" "map_res decode_interval ws = Inr row"
    "list_all wf_interval row" "vc = int (length row)"
    using decode_row by (auto simp: row_ok_def wire_row_def)
  have ev: "evaluate_row (postfix e) raw = catch_as (\<lambda>e. value_error e \<or> arithmetic_error e) EvaluationError
      (ebind (catch_as evaluation_caught EvaluationError (ieval row e)) encode_interval)"
    using ws by (simp add: evaluate_row_def array_def run_program_postfix)
  show ?thesis
    using ieval_sound [OF ws(3) assms(2)] assms(3) ws(4)
    by (auto simp: ev evaluation_caught_def encloses_def split: if_splits)
qed

lemma validate_batch_Inr:
  assumes "validate_batch v = Inr bd"
  obtains vc ev e rows rowss where "v = PDict bd" "dict_get bd ''expression'' = Inr ev" "represents ev e"
    "dict_get bd ''rows'' = Inr (PList rows)" "list_all2 (row_ok vc) rows rowss" "rows \<noteq> []"
    "int (length rows) \<le> MAX_BATCH_ROWS"
    "expr_ok vc e" "dict_get bd ''variable_count'' = Inr (PInt vc)"
    "height e \<le> MAX_EXPRESSION_DEPTH" "nodes e \<le> MAX_EXPRESSION_NODES"
    "exact_cost e \<le> MAX_ARITHMETIC_COST_PER_ROW" "int (length rows) * exact_cost e \<le> MAX_TOTAL_ARITHMETIC_WORK"
proof -
  from assms obtain vc ev rows c cost us where b: "v = PDict bd" "dict_get bd ''expression'' = Inr ev"
    "dict_get bd ''variable_count'' = Inr (PInt vc)" "validate_expression vc 0 0 ev = Inr c"
    "dict_get bd ''rows'' = Inr (PList rows)" "rows \<noteq> []" "expression_arithmetic_cost ev = Inr cost"
    "cost \<le> MAX_ARITHMETIC_COST_PER_ROW" "int (length rows) * cost \<le> MAX_TOTAL_ARITHMETIC_WORK"
    "map_res (validate_row vc) rows = Inr us" "int (length rows) \<le> MAX_BATCH_ROWS"
    by (auto simp: validate_batch_def res_simps exact_object_Inr integer_Inr not_less split: if_splits)
  from b(4) obtain e where e: "represents ev e" "expr_ok vc e" "height e \<le> MAX_EXPRESSION_DEPTH"
    "nodes e \<le> MAX_EXPRESSION_NODES"
    by (auto simp: validate_expression_iff)
  from b(10) have "\<forall>r \<in> set rows. \<exists>row. row_ok vc r row" using map_res_unit validate_row_Inr by metis
  then obtain rowss where "list_all2 (row_ok vc) rows rowss" using list_all2_ex by blast
  moreover have "cost = exact_cost e"
    using expression_cost_represents [OF e(1)] b(7,8) by (simp add: COST_CAP_def min_def split: if_splits)
  ultimately show ?thesis using that b e by blast
qed

end
