(* ===== verification/Encodable.thy ===== *)
theory Encodable
  imports Wire_Facts
begin

text \<open>
  When the canonical encoding succeeds: strings without surrogates, integers within the digit limit, and a bound on the length of
  the text that stays below the limit of 512 MiB.
\<close>

definition valid_char :: "nat \<Rightarrow> bool" where
  "valid_char c \<longleftrightarrow> c < 0x110000 \<and> \<not> (0xD800 \<le> c \<and> c < 0xE000)"

fun encodable :: "pyval \<Rightarrow> bool" where
  "encodable (PStr s) = list_all valid_char s"
| "encodable (PList vs) = list_all encodable vs"
| "encodable (PDict d) = list_all (\<lambda>(k, v). list_all valid_char k \<and> encodable v) d"
| "encodable (PInt i) = int_digits_ok i"
| "encodable v = True"

lemma valid_ascii: "c < 128 \<Longrightarrow> valid_char c"
  by (simp add: valid_char_def)

lemma utf8_char_valid: "valid_char c \<Longrightarrow> \<exists>u. utf8_char c = Inr u \<and> length u \<le> 4"
  by (auto simp: valid_char_def utf8_char_def)

lemma utf8_char_Inl: "utf8_char c = Inl e \<Longrightarrow> e = UnicodeEncodeError"
  by (auto simp: utf8_char_def split: if_splits)

lemma utf8_text_Inl: "utf8_text s = Inl e \<Longrightarrow> e = UnicodeEncodeError"
  by (induction s) (auto simp: ebind_Inl_iff dest: utf8_char_Inl)

lemma utf8_text_valid: "list_all valid_char s \<Longrightarrow> \<exists>u. utf8_text s = Inr u \<and> length u \<le> 4 * length s"
proof (induction s)
  case (Cons c s)
  then obtain u w where "utf8_char c = Inr u" "length u \<le> 4" "utf8_text s = Inr w" "length w \<le> 4 * length s"
    using utf8_char_valid [of c] by auto
  then show ?case by simp
qed simp

lemma list_all_join: "list_all (list_all P) xs \<Longrightarrow> P 44 \<Longrightarrow> list_all P (join_comma xs)"
  by (induction xs rule: join_comma.induct) auto

lemma hex_valid: "list_all valid_char (to_hex n x)"
  by (induction n arbitrary: x) (auto simp: valid_char_def hex_digit_def)

lemma list_all_lit_valid [simp]: "list_all valid_char (lit s)"
proof -
  have "valid_char (of_char c)" for c using nat_of_char_less_256 [of c] unfolding valid_char_def by linarith
  then show ?thesis by (simp add: lit_def list_all_iff)
qed

lemma json_escape_valid: "valid_char c \<Longrightarrow> list_all valid_char (json_escape c)"
  by (simp add: json_escape_def valid_ascii hex_valid)

lemma json_string_valid: "list_all valid_char s \<Longrightarrow> list_all valid_char (json_string s)"
  using json_escape_valid by (auto simp: json_string_def valid_ascii list_all_iff)

lemma dec_nat_valid: "list_all valid_char (dec_nat n)"
  using dec_nat_digits [of n] by (auto simp: list_all_iff valid_char_def)

lemma raw_text_valid: "encodable v \<Longrightarrow> list_all valid_char (raw_text v)"
proof (induction v)
  case (PInt i)
  then show ?case using dec_nat_valid by (simp add: dec_int_def valid_ascii)
next
  case (PStr s)
  then show ?case by (simp add: json_string_valid)
next
  case (PList vs)
  then have "list_all (list_all valid_char) (map raw_text vs)" by (auto simp: list_all_iff)
  then show ?case by (simp add: valid_ascii list_all_join)
next
  case (PDict d)
  then have "list_all (list_all valid_char) (map (\<lambda>kv. json_string (fst kv) @ [58] @ snd kv) (map (map_prod id raw_text) d))"
    using json_string_valid by (fastforce simp: list_all_iff valid_ascii prod_set_defs)
  then show ?case unfolding raw_text.simps by (simp add: valid_ascii list_all_join del: map_map)
qed simp_all

lemma encodable_printable: "encodable v \<Longrightarrow> printable v"
  by (induction v rule: encodable.induct) (auto simp: list_all_iff)

lemma encodable_jnorm: "encodable v \<Longrightarrow> encodable (jnorm v)"
  by (induction v rule: jnorm.induct) (auto simp: list_all_iff)

section \<open>Length\<close>

fun text_bound :: "pyval \<Rightarrow> nat" where
  "text_bound (PStr s) = length (json_string s)"
| "text_bound (PList vs) = 2 + sum_list (map (\<lambda>v. text_bound v + 1) vs)"
| "text_bound (PDict d) = 2 + sum_list (map (\<lambda>(k, v). length (json_string k) + text_bound v + 2) d)"
| "text_bound (PInt i) = nat \<bar>i\<bar> + 2"
| "text_bound _ = 5"

lemma length_join: "length (join_comma xs) \<le> sum_list (map (\<lambda>x. length x + 1) xs)"
  by (induction xs rule: join_comma.induct) auto

lemma length_dec_nat: "length (dec_nat n) \<le> n + 1"
proof (induction n rule: dec_nat.induct)
  case (1 n)
  show ?case
  proof (cases "n < 10")
    case False
    with 1 have "length (dec_nat (n div 10)) \<le> n div 10 + 1" by simp
    moreover have "n div 10 + 2 \<le> n + 1" using False by linarith
    ultimately show ?thesis using False by (simp add: dec_nat.simps [of n])
  qed (simp add: dec_nat.simps [of n])
qed

lemma length_raw_text: "length (raw_text v) \<le> text_bound v"
proof (induction v)
  case (PInt i)
  then show ?case using length_dec_nat [of "nat i"] length_dec_nat [of "nat (- i)"] by (auto simp: dec_int_def)
next
  case (PStr s)
  then show ?case by simp
next
  case (PList vs)
  then have "sum_list (map (\<lambda>x. length x + 1) (map raw_text vs)) \<le> sum_list (map (\<lambda>v. text_bound v + 1) vs)"
    by (auto intro!: sum_list_mono)
  then show ?case using length_join [of "map raw_text vs"] by simp
next
  case (PDict d)
  let ?f = "\<lambda>kv. json_string (fst kv) @ [58] @ raw_text (snd kv)"
  have "length (?f kv) + 1 \<le> (case kv of (k, v) \<Rightarrow> length (json_string k) + text_bound v + 2)" if "kv \<in> set d" for kv
    using PDict.IH [OF that, of "snd kv"] by (simp add: prod_set_defs split_beta)
  then have "sum_list (map (\<lambda>x. length x + 1) (map ?f d)) \<le> sum_list (map (\<lambda>(k, v). length (json_string k) + text_bound v + 2) d)"
    by (auto intro!: sum_list_mono)
  then show ?case using length_join [of "map ?f d"] by (simp add: comp_def)
qed (simp_all add: lit_def)

lemma sum_list_sort_key: "sum_list (map g (sort_key f xs)) = sum_list (map (g :: _ \<Rightarrow> nat) xs)"
proof -
  have "sum_list (map g (insort_key f x ys)) = g x + sum_list (map g ys)" for x ys
    by (induction ys) auto
  then show ?thesis by (induction xs) auto
qed

lemma text_bound_jnorm: "text_bound (jnorm v) = text_bound v"
proof (induction v)
  case (PList vs)
  then show ?case by (auto intro!: arg_cong [of _ _ sum_list])
next
  case (PDict d)
  let ?g = "\<lambda>(k, v). length (json_string k) + text_bound v + 2" and ?h = "map_prod id jnorm"
  have "sum_list (map ?g (sort_key fst (map ?h d))) = sum_list (map ?g (map ?h d))"
    by (rule sum_list_sort_key)
  also have "\<dots> = sum_list (map ?g d)"
    using PDict.IH by (auto intro!: arg_cong [of _ _ sum_list] simp: prod_set_defs)
  finally show ?case by (simp only: jnorm_dict text_bound.simps)
qed simp_all

lemma canonical_json_bytes_total:
  assumes "exact_dom v" "encodable v" "4 * text_bound v \<le> MAX_CANONICAL_JSON_BYTES"
  shows "\<exists>s. canonical_json_bytes v = Inr s"
proof -
  obtain u where u: "utf8_text (json_text v) = Inr u" "length u \<le> 4 * length (json_text v)"
    using utf8_text_valid raw_text_valid encodable_jnorm assms(2) unfolding json_text_raw by blast
  have "length (json_text v) \<le> text_bound v"
    using length_raw_text [of "jnorm v"] by (simp add: json_text_raw text_bound_jnorm)
  with u assms encodable_printable [OF assms(2)] show ?thesis by (auto simp: canonical_json_bytes_Inr utf8_encode_def)
qed

lemma hex_escape: "is_hex_digit c \<Longrightarrow> json_escape c = [c]"
  by (auto simp: is_hex_digit_def json_escape_def)

lemma json_string_hex: "list_all is_hex_digit s \<Longrightarrow> length (json_string s) = length s + 2"
proof -
  have "list_all is_hex_digit s \<Longrightarrow> concat (map json_escape s) = s"
    by (induction s) (auto simp: hex_escape)
  then show "list_all is_hex_digit s \<Longrightarrow> length (json_string s) = length s + 2" by (simp add: json_string_def)
qed

lemma hex_string_json: "hex_string n s \<Longrightarrow> length (json_string s) = n + 2 \<and> list_all valid_char s"
  by (auto simp: hex_string_def json_string_hex list_all_iff is_hex_digit_def valid_char_def)

lemma canonical_sha256_total:
  assumes "exact_dom v" "encodable v" "4 * text_bound v \<le> MAX_CANONICAL_JSON_BYTES"
  shows "\<exists>s. canonical_sha256 v = Inr s"
  using canonical_json_bytes_total [OF assms] by (auto simp: canonical_sha256_def)

end
