(* ===== verification/Certificates.thy ===== *)
theory Certificates
  imports Evaluator_Sound Encodable
begin

text \<open>
  Batches and certificates of \<open>reference/format.py\<close> and \<open>reference/evaluator.py\<close>: what an evaluated
  batch contains, when evaluation fails, and the two directions of the certificate check.
\<close>

section \<open>Evaluated batches\<close>

definition result_record :: "pystr \<Rightarrow> pyval list \<Rightarrow> pyval" where
  "result_record digest outs = py_dict [(''schema_version'', PInt SCHEMA_VERSION), (''kind'', PStr RESULT_KIND),
     (''algorithm'', PStr ALGORITHM_ID), (''batch_sha256'', PStr digest), (''rows'', PList outs)]"

lemma result_record_dict: "\<exists>d. result_record digest outs = PDict d"
  by (simp add: result_record_def py_dict_def)

lemma result_record_dom: "exact_dom (result_record digest outs) \<longleftrightarrow> list_all exact_dom outs"
  "dict_wf (result_record digest outs) \<longleftrightarrow> list_all dict_wf outs"
  by (auto simp: result_record_def py_dict_def)

lemma wire_of_list_dom [simp]: "list_all exact_dom (map wire_of is)" "list_all dict_wf (map wire_of is)"
  by (simp_all add: list_all_iff)

lemma canonical_sha256_Inr: "canonical_sha256 v = Inr s \<Longrightarrow> exact_dom v \<and> hex_string 64 s"
  by (auto simp: canonical_sha256_def res_simps canonical_json_bytes_Inr)

lemma validate_json_value_Inl:
  "validate_json_value d v = Inl e \<Longrightarrow> e = FormatError \<or> (e = RecursionError \<and> d \<noteq> None)"
proof (induction d v rule: validate_json_value.induct)
  case (1 d v)
  note IH = 1
  show ?case
  proof (cases "enter d")
    case (Inl x)
    with IH(3) show ?thesis by (subst (asm) validate_json_value.simps) (auto dest: enter_Inl)
  next
    case (Inr d')
    note deep = enter_Inr [OF Inr]
    show ?thesis
    proof (cases v)
      case (PList vs)
      then have "map_res (validate_json_value d') vs = Inl e"
        using IH(3) Inr by (subst (asm) validate_json_value.simps) (simp add: ebind_Inl_iff)
      then show ?thesis using IH(1) [OF Inr PList] deep by (auto dest!: map_res_Inl)
    next
      case (PDict items)
      then have "map_res (\<lambda>(_, item). validate_json_value d' item) items = Inl e"
        using IH(3) Inr by (subst (asm) validate_json_value.simps) (simp add: ebind_Inl_iff)
      then show ?thesis using IH(2) [OF Inr PDict] deep by (force dest!: map_res_Inl)
    qed (use IH(3) Inr in \<open>subst (asm) validate_json_value.simps; simp\<close>)+
  qed
qed

lemma canonical_json_within_Inl:
  "canonical_json_within dv de v = Inl e \<Longrightarrow> e = FormatError \<or> (e = RecursionError \<and> dv \<noteq> None)"
  by (auto simp: canonical_json_within_def ebind_Inl_iff catch_as_Inl_iff utf8_encode_def
      dest: validate_json_value_Inl utf8_text_Inl json_dumps_Inl split: if_splits)

lemma canonical_sha256_Inl: "canonical_sha256 v = Inl e \<Longrightarrow> e = FormatError"
  by (auto simp: canonical_sha256_def canonical_json_bytes_def ebind_Inl_iff dest: canonical_json_within_Inl)

text \<open>The result record of enclosures is valid for its batch.\<close>

lemma validate_result_record:
  assumes b: "validate_batch b = Inr bd" "canonical_sha256 b = Inr digest" "dict_get bd ''rows'' = Inr (PList rows)"
    and i: "list_all wf_interval is" "length is = length rows" "int (length rows) \<le> MAX_BATCH_ROWS"
  shows "\<exists>d. result_record digest (map wire_of is) = PDict d \<and>
    validate_result (result_record digest (map wire_of is)) (Some b) = Inr d"
proof -
  let ?items = "[(''schema_version'', PInt SCHEMA_VERSION), (''kind'', PStr RESULT_KIND),
     (''algorithm'', PStr ALGORITHM_ID), (''batch_sha256'', PStr digest), (''rows'', PList (map wire_of is))]"
  have "\<exists>us. map_res (\<lambda>interval. validate_interval interval False) (map wire_of is) = Inr us"
    unfolding map_res_unit using i(1) validate_interval_ex [of _ False] wire_of_interval
    by (fastforce simp: list_all_iff)
  moreover have "exact_object (py_dict ?items) [''schema_version'', ''kind'', ''algorithm'', ''batch_sha256'', ''rows'']
      = Inr (map (\<lambda>(k, v). (lit k, v)) ?items)"
    by (simp add: exact_object_py_dict)
  ultimately show ?thesis
    using b i canonical_sha256_Inr [OF b(2)]
    by (auto simp: validate_result_def result_record_def dict_get_items integer_def fixed_string_def
        sha256_field_def array_def SCHEMA_VERSION_def py_dict_def)
qed

text \<open>The batch behind a validated dictionary, named once for the proofs below.\<close>

definition batch_view :: "pyval \<Rightarrow> (pystr \<times> pyval) list \<Rightarrow> expr \<Rightarrow> pyval list \<Rightarrow> interval list list \<Rightarrow> bool" where
  "batch_view v bd e rows rowss \<longleftrightarrow> v = PDict bd \<and> validate_batch v = Inr bd \<and>
     (\<exists>ev vc. dict_get bd ''expression'' = Inr ev \<and> represents ev e \<and>
       dict_get bd ''variable_count'' = Inr (PInt vc) \<and> expr_ok vc e \<and>
       dict_get bd ''rows'' = Inr (PList rows) \<and> list_all2 (row_ok vc) rows rowss \<and>
       int (length rows) \<le> MAX_BATCH_ROWS)"

lemma batch_view_ex: "validate_batch v = Inr bd \<Longrightarrow> \<exists>e rows rowss. batch_view v bd e rows rowss"
  by (rule validate_batch_Inr [of v bd]) (auto simp: batch_view_def)

lemma map_res_along:
  assumes "list_all2 P xs ys" "\<And>x y. P x y \<Longrightarrow> Q y \<Longrightarrow> \<exists>z. f x = Inr (g z) \<and> R y z" "list_all Q ys"
  shows "\<exists>zs. map_res f xs = Inr (map g zs) \<and> list_all2 R ys zs"
  using assms(1,3)
proof (induction rule: list_all2_induct)
  case (Cons x xs y ys)
  obtain z where "f x = Inr (g z)" "R y z" using assms(2) [OF Cons.hyps(1)] Cons.prems by auto
  moreover obtain zs where "map_res f xs = Inr (map g zs)" "list_all2 R ys zs" using Cons.IH Cons.prems by auto
  ultimately show ?case by (intro exI [of _ "z # zs"]) auto
qed auto

lemma map_res_Inl_intro:
  assumes "\<exists>x \<in> set xs. f x = Inl e" "\<And>x e'. x \<in> set xs \<Longrightarrow> f x = Inl e' \<Longrightarrow> e' = e"
  shows "map_res f xs = Inl e"
  using assms
proof (induction xs)
  case (Cons x xs)
  show ?case
  proof (cases "f x")
    case (Inl y)
    with Cons.prems(2) [of x y] show ?thesis by simp
  next
    case (Inr z)
    then have "\<exists>x' \<in> set xs. f x' = Inl e" using Cons.prems(1) by auto
    moreover have "e' = e" if "x' \<in> set xs" "f x' = Inl e'" for x' e' using Cons.prems(2) that by auto
    ultimately have "map_res f xs = Inl e" by (rule Cons.IH)
    with Inr show ?thesis by simp
  qed
qed simp

text \<open>
  Evaluation of a validated batch: \<open>EvaluationError\<close> when some row blocks a division, and
  otherwise the record of the enclosures of all rows, provided the batch can be digested.
\<close>

lemma evaluate_batch_spec:
  assumes view: "batch_view v bd e rows rowss"
  shows "if \<exists>row \<in> set rowss. div_blocked row e then evaluate_batch v = Inl EvaluationError
    else \<exists>is. list_all2 (\<lambda>row i. ieval row e = Inr i \<and> encloses row e i) rowss is \<and>
      evaluate_batch v = ebind (canonical_sha256 v) (\<lambda>digest. Inr (result_record digest (map wire_of is)))"
proof -
  from view obtain ev vc where v: "v = PDict bd" "validate_batch v = Inr bd" "dict_get bd ''expression'' = Inr ev"
    "represents ev e" "expr_ok vc e" "dict_get bd ''rows'' = Inr (PList rows)" "list_all2 (row_ok vc) rows rowss"
    "int (length rows) \<le> MAX_BATCH_ROWS"
    by (auto simp: batch_view_def)
  note row = evaluate_row_spec [OF _ represents_consts [OF v(4)] v(5)]
  have row_free: "\<exists>i. evaluate_row (postfix e) raw = Inr (wire_of i) \<and> ieval row e = Inr i \<and> encloses row e i"
    if "row_ok vc raw row" "\<not> div_blocked row e" for raw row
    using row [OF that(1)] that(2) by auto
  have start: "evaluate_batch v = ebind (map_res (evaluate_row (postfix e)) rows) (\<lambda>output_rows.
     ebind (canonical_sha256 v) (\<lambda>digest.
       ebind (validate_result (result_record digest output_rows) (Some v)) (\<lambda>_. Inr (result_record digest output_rows))))"
    using v by (simp add: evaluate_batch_def compile_represents array_def result_record_def Let_def)
  show ?thesis
  proof (cases "\<exists>row \<in> set rowss. div_blocked row e")
    case True
    have "map_res (evaluate_row (postfix e)) rows = Inl EvaluationError"
    proof (rule map_res_Inl_intro)
      from True obtain k where "k < length rowss" "div_blocked (rowss ! k) e" by (auto simp: in_set_conv_nth)
      moreover then have "k < length rows" "row_ok vc (rows ! k) (rowss ! k)"
        using v(7) by (auto simp: list_all2_conv_all_nth)
      ultimately have "evaluate_row (postfix e) (rows ! k) = Inl EvaluationError" using row by auto
      with \<open>k < length rows\<close> show "\<exists>x \<in> set rows. evaluate_row (postfix e) x = Inl EvaluationError"
        using nth_mem by blast
      show "e' = EvaluationError" if "x \<in> set rows" "evaluate_row (postfix e) x = Inl e'" for x e'
      proof -
        from that(1) obtain k where "k < length rows" "x = rows ! k" by (auto simp: in_set_conv_nth)
        then have "row_ok vc x (rowss ! k)" using v(7) by (auto simp: list_all2_conv_all_nth)
        from row [OF this] that(2) show ?thesis by (auto split: if_splits)
      qed
    qed
    with True start show ?thesis by simp
  next
    case False
    have "\<exists>is. map_res (evaluate_row (postfix e)) rows = Inr (map wire_of is) \<and>
        list_all2 (\<lambda>row i. ieval row e = Inr i \<and> encloses row e i) rowss is"
      by (rule map_res_along [OF v(7), where Q = "\<lambda>row. \<not> div_blocked row e"])
        (use False row_free in \<open>auto simp: list_all_iff\<close>)
    then obtain "is" where enc: "map_res (evaluate_row (postfix e)) rows = Inr (map wire_of is)"
      "list_all2 (\<lambda>row i. ieval row e = Inr i \<and> encloses row e i) rowss is" by blast
    have wf: "list_all wf_interval is" using enc(2) by (rule list_all2_right) (simp add: encloses_def)
    have len: "length is = length rows" using enc(2) v(7) by (simp add: list_all2_lengthD)
    have "evaluate_batch v = ebind (canonical_sha256 v) (\<lambda>digest. Inr (result_record digest (map wire_of is)))"
    proof (cases "canonical_sha256 v")
      case (Inr digest)
      from validate_result_record [OF v(2) Inr v(6) wf len v(8)] Inr enc(1) start show ?thesis by auto
    qed (use start enc(1) in simp)
    with False enc(2) show ?thesis by auto
  qed
qed

section \<open>Checking\<close>

lemma py_eq_str [simp]: "py_eq (PStr s) (PStr t) \<longleftrightarrow> s = t"
  by (subst py_eq.simps) simp

lemma py_eq_list_nth:
  "py_eq (PList xs) (PList ys) \<longleftrightarrow> length xs = length ys \<and> (\<forall>k < length xs. py_eq (xs ! k) (ys ! k))"
proof (cases "length xs = length ys")
  case True
  then have "(\<forall>(x, y) \<in> set (zip xs ys). py_eq x y) \<longleftrightarrow> (\<forall>k < length xs. py_eq (xs ! k) (ys ! k))"
    by (simp add: all_set_conv_all_nth)
  then show ?thesis by (simp add: py_eq_list)
qed (simp add: py_eq_list)

lemma map_of_py_eq:
  "py_eq (PDict d) (PDict e) \<Longrightarrow> map_of d k = Some v \<Longrightarrow> map_of e k = Some w \<Longrightarrow> py_eq v w"
proof -
  assume eq: "py_eq (PDict d) (PDict e)" and m: "map_of d k = Some v" "map_of e k = Some w"
  from map_of_SomeD [OF m(1)] eq have "case map_of e k of None \<Rightarrow> False | Some w \<Rightarrow> py_eq v w"
    by (auto simp: py_eq_dict)
  with m(2) show "py_eq v w" by simp
qed

text \<open>An accepted interval dictionary that equals the recomputed one encodes the same interval.\<close>

lemma py_eq_wire:
  assumes eq: "py_eq w (wire_of i)" and w: "wire_interval w j" and wf: "wf_interval i"
  shows "wire_interval w i"
proof -
  from w obtain d l h where d: "w = PDict d" "map_of d (lit ''lo'') = Some (PStr l)"
    "map_of d (lit ''hi'') = Some (PStr h)" "hex_string 16 l" "hex_string 16 h"
    "set (map fst d) = {lit ''lo'', lit ''hi''}" by (auto simp: wire_interval_def)
  from eq d(1) have "py_eq (PDict d) (PDict [(lit ''lo'', PStr (to_hex 16 (nat (iv_lo i)))), (lit ''hi'', PStr (to_hex 16 (nat (iv_hi i))))])"
    by (simp add: wire_of_def py_dict_def)
  from map_of_py_eq [OF this d(2)] map_of_py_eq [OF this d(3)]
  have "l = to_hex 16 (nat (iv_lo i))" "h = to_hex 16 (nat (iv_hi i))" by simp_all
  moreover have "word64 (iv_lo i)" "word64 (iv_hi i)" using wf by (auto simp: wf_interval_def endpoint_def)
  ultimately show ?thesis using d by (auto simp: wire_interval_def hex_of_word)
qed

lemma validate_result_Inr:
  assumes "validate_result r (Some b) = Inr rd"
  obtains outs where "r = PDict rd" "dict_get rd ''rows'' = Inr (PList outs)"
    "\<forall>w \<in> set outs. \<exists>i. wire_interval w i \<and> wf_interval i"
proof -
  from assms obtain outs us where o: "r = PDict rd" "dict_get rd ''rows'' = Inr (PList outs)"
    "map_res (\<lambda>interval. validate_interval interval False) outs = Inr us"
    by (auto simp: validate_result_def res_simps exact_object_Inr split: if_splits)
  from o(3) have "\<forall>w \<in> set outs. \<exists>i. wire_interval w i \<and> wf_interval i"
    using map_res_unit [of "\<lambda>interval. validate_interval interval False" outs] validate_interval_ex [of _ False] by fastforce
  with o that show ?thesis by blast
qed

text \<open>
  What an accepted certificate certifies: every output row encodes the interval value of the
  expression on its input row, and that interval encloses every real value of the expression.
\<close>

definition certified :: "pyval \<Rightarrow> (pystr \<times> pyval) list \<Rightarrow> bool" where
  "certified b rd \<longleftrightarrow> (\<exists>bd e rows rowss outs is. batch_view b bd e rows rowss \<and>
     dict_get rd ''rows'' = Inr (PList outs) \<and> list_all2 wire_interval outs is \<and>
     list_all2 (\<lambda>row i. ieval row e = Inr i \<and> encloses row e i) rowss is)"

lemma check_result_sound:
  assumes "check_result b r = Inr receipt"
  shows "\<exists>rd. r = PDict rd \<and> certified b rd"
proof -
  from assms obtain bd rd expected where c: "validate_batch b = Inr bd"
    "validate_result r (Some (PDict bd)) = Inr rd" "evaluate_batch (PDict bd) = Inr expected"
    "py_eq (PDict rd) expected"
    by (auto simp: check_result_def res_simps split: if_splits)
  obtain e rows rowss where view: "batch_view b bd e rows rowss" using batch_view_ex [OF c(1)] by blast
  then have b: "b = PDict bd" by (simp add: batch_view_def)
  from c(2) obtain outs where o: "r = PDict rd" "dict_get rd ''rows'' = Inr (PList outs)"
    "\<forall>w \<in> set outs. \<exists>i. wire_interval w i \<and> wf_interval i" by (rule validate_result_Inr)
  have nb: "\<not> (\<exists>row \<in> set rowss. div_blocked row e)"
    using evaluate_batch_spec [OF view] c(3) b by (auto split: if_splits)
  with evaluate_batch_spec [OF view] obtain "is" where
    enc: "list_all2 (\<lambda>row i. ieval row e = Inr i \<and> encloses row e i) rowss is"
    "evaluate_batch b = ebind (canonical_sha256 b) (\<lambda>digest. Inr (result_record digest (map wire_of is)))"
    by auto
  have "ebind (canonical_sha256 b) (\<lambda>digest. Inr (result_record digest (map wire_of is))) = Inr expected"
    using enc(2) c(3) b by metis
  then obtain digest where ex: "expected = result_record digest (map wire_of is)"
    by (auto simp: res_simps)
  have "py_eq (PList outs) (PList (map wire_of is))"
    using map_of_py_eq [of rd _ "lit ''rows''" "PList outs" "PList (map wire_of is)"] c(4) o(2)
    by (auto simp: ex result_record_def py_dict_def dict_get_Inr_iff)
  then have len: "length outs = length is" and
    eq: "\<And>k. k < length is \<Longrightarrow> py_eq (outs ! k) (wire_of (is ! k))"
    by (auto simp: py_eq_list_nth)
  have "wire_interval (outs ! k) (is ! k)" if "k < length is" for k
  proof -
    have "outs ! k \<in> set outs" using that len by simp
    with o(3) obtain j where "wire_interval (outs ! k) j" by blast
    moreover have "wf_interval (is ! k)"
      using enc(1) that by (auto simp: list_all2_conv_all_nth encloses_def)
    ultimately show ?thesis using py_eq_wire [OF eq [OF that]] by blast
  qed
  with len have wires: "list_all2 wire_interval outs is" by (simp add: list_all2_conv_all_nth)
  show ?thesis unfolding certified_def using view o(1,2) enc(1) wires by blast
qed

lemma validate_certificate_Inr:
  assumes "validate_certificate c = Inr cd"
  obtains batch result where "c = PDict cd" "dict_get cd ''batch'' = Inr batch" "dict_get cd ''result'' = Inr result"
    "dict_get cd ''batch_sha256'' = ebind (canonical_sha256 batch) (\<lambda>s. Inr (PStr s))"
    "dict_get cd ''result_sha256'' = ebind (canonical_sha256 result) (\<lambda>s. Inr (PStr s))"
  using assms that
  by (auto simp: validate_certificate_def res_simps exact_object_Inr sha256_field_Inr split: if_splits)

lemma check_result_complete:
  assumes view: "batch_view b bd e rows rowss" and free: "\<not> (\<exists>row \<in> set rowss. div_blocked row e)"
    and ev: "evaluate_batch b = Inr r" and rd: "canonical_sha256 r = Inr rs"
  shows "\<exists>receipt. check_result b r = Inr receipt"
proof -
  from view have b: "b = PDict bd" "validate_batch b = Inr bd" "dict_get bd ''rows'' = Inr (PList rows)"
    "int (length rows) \<le> MAX_BATCH_ROWS" "length rowss = length rows"
    by (auto simp: batch_view_def list_all2_lengthD)
  from evaluate_batch_spec [OF view] free obtain "is" where
    enc: "list_all2 (\<lambda>row i. ieval row e = Inr i \<and> encloses row e i) rowss is"
    "evaluate_batch b = ebind (canonical_sha256 b) (\<lambda>digest. Inr (result_record digest (map wire_of is)))"
    by auto
  with ev obtain digest where d: "canonical_sha256 b = Inr digest" "r = result_record digest (map wire_of is)"
    by (auto simp: res_simps)
  have wf: "list_all wf_interval is" using enc(1) by (rule list_all2_right) (simp add: encloses_def)
  have len: "length is = length rows" using enc(1) b(5) by (simp add: list_all2_lengthD)
  obtain d' where r: "r = PDict d'" "validate_result r (Some b) = Inr d'"
    using validate_result_record [OF b(2) d(1) b(3) wf len b(4)] d(2) by auto
  have "py_eq r r"
    using py_eq_jnorm [of r r] by (simp add: d(2) result_record_dom)
  moreover have "dict_get d' ''rows'' = Inr (PList (map wire_of is))"
    using r(1) unfolding d(2) result_record_def by simp
  ultimately show ?thesis
    using b(1,2) r ev d(1) rd unfolding check_result_def by (simp add: array_def)
qed

lemma validate_certificate_record:
  assumes b: "validate_batch b = Inr bd" "canonical_sha256 b = Inr bs"
    and r: "validate_result r (Some b) = Inr rd" "canonical_sha256 r = Inr rs"
  shows "\<exists>cd. make_certificate b r = Inr (PDict cd) \<and> validate_certificate (PDict cd) = Inr cd \<and>
    dict_get cd ''batch'' = Inr b \<and> dict_get cd ''result'' = Inr r"
proof -
  let ?items = "[(''schema_version'', PInt SCHEMA_VERSION), (''kind'', PStr CERTIFICATE_KIND),
         (''batch'', b), (''batch_sha256'', PStr bs), (''result'', r), (''result_sha256'', PStr rs)]"
  have m: "make_certificate b r = Inr (py_dict ?items)" using b r by (simp add: make_certificate_def)
  have "exact_object (py_dict ?items) [''schema_version'', ''kind'', ''batch'', ''batch_sha256'', ''result'', ''result_sha256'']
      = Inr (map (\<lambda>(k, v). (lit k, v)) ?items)"
    by (simp add: exact_object_py_dict)
  then have "validate_certificate (py_dict ?items) = Inr (map (\<lambda>(k, v). (lit k, v)) ?items)"
    using b r canonical_sha256_Inr [OF b(2)] canonical_sha256_Inr [OF r(2)]
    unfolding validate_certificate_def
    by (simp add: dict_get_items integer_def fixed_string_def sha256_field_def SCHEMA_VERSION_def)
  with m show ?thesis by (simp add: py_dict_def dict_get_items)
qed

section \<open>When a certificate can be issued\<close>

lemma json_key_bounds:
  "length (json_string (lit ''lo'')) = 4" "length (json_string (lit ''hi'')) = 4"
  by (simp_all add: json_string_def lit_def json_escape_def)

lemma wire_of_encodable: "encodable (wire_of i)" "text_bound (wire_of i) = 50"
  by (simp_all add: wire_of_def py_dict_def hex_valid json_key_bounds
      conjunct1 [OF hex_string_json [OF to_hex_hex_string]])

lemma list_all_map_wire: "list_all encodable (map wire_of is)"
  by (simp add: list_all_iff wire_of_encodable)

text \<open>The result of at most a million rows always fits the encoding limit.\<close>

lemma result_record_encodable:
  assumes "hex_string 64 digest" "int (length is) \<le> MAX_BATCH_ROWS"
  shows "\<exists>s. canonical_sha256 (result_record digest (map wire_of is)) = Inr s"
proof (rule canonical_sha256_total)
  show "exact_dom (result_record digest (map wire_of is))" by (simp add: result_record_dom)
  show "encodable (result_record digest (map wire_of is))"
    using hex_string_json [OF assms(1)]
    by (simp add: result_record_def py_dict_def RESULT_KIND_def ALGORITHM_ID_def SCHEMA_VERSION_def int_digits_okI
        wire_of_encodable list_all_map_wire)
  have rows: "text_bound (PList (map wire_of is)) = 2 + 51 * length is"
    by (simp add: comp_def wire_of_encodable sum_list_triv)
  have "text_bound (result_record digest (map wire_of is)) \<le> 400 + 51 * length is"
    using hex_string_json [OF assms(1)] rows
    by (simp add: result_record_def py_dict_def RESULT_KIND_def ALGORITHM_ID_def SCHEMA_VERSION_def
        json_string_def lit_def json_escape_def)
  then show "4 * text_bound (result_record digest (map wire_of is)) \<le> MAX_CANONICAL_JSON_BYTES"
    using assms(2) by (simp add: MAX_BATCH_ROWS_def MAX_CANONICAL_JSON_BYTES_def)
qed

lemma issue_certificate_spec:
  assumes view: "batch_view b bd e rows rowss"
  shows "(\<exists>c. issue_certificate b = Inr c) \<longleftrightarrow>
    \<not> (\<exists>row \<in> set rowss. div_blocked row e) \<and> (\<exists>s. canonical_sha256 b = Inr s)"
proof
  assume "\<exists>c. issue_certificate b = Inr c"
  then obtain bd' r where i: "validate_batch b = Inr bd'" "evaluate_batch (PDict bd') = Inr r"
    by (auto simp: issue_certificate_def res_simps)
  then have b: "PDict bd' = b" using view by (auto simp: batch_view_def)
  show "\<not> (\<exists>row \<in> set rowss. div_blocked row e) \<and> (\<exists>s. canonical_sha256 b = Inr s)"
    using evaluate_batch_spec [OF view] i(2) b by (cases "canonical_sha256 b") (auto split: if_splits)
next
  assume a: "\<not> (\<exists>row \<in> set rowss. div_blocked row e) \<and> (\<exists>s. canonical_sha256 b = Inr s)"
  then obtain digest where d: "canonical_sha256 b = Inr digest" by blast
  from view have b: "b = PDict bd" "validate_batch b = Inr bd" "dict_get bd ''rows'' = Inr (PList rows)"
    "int (length rows) \<le> MAX_BATCH_ROWS" "length rowss = length rows"
    by (auto simp: batch_view_def list_all2_lengthD)
  from evaluate_batch_spec [OF view] a d obtain "is" where
    enc: "list_all2 (\<lambda>row i. ieval row e = Inr i \<and> encloses row e i) rowss is"
    "evaluate_batch b = Inr (result_record digest (map wire_of is))"
    by auto
  have wf: "list_all wf_interval is" using enc(1) by (rule list_all2_right) (simp add: encloses_def)
  have len: "length is = length rows" using enc(1) b(5) by (simp add: list_all2_lengthD)
  obtain rs where "canonical_sha256 (result_record digest (map wire_of is)) = Inr rs"
    using result_record_encodable [of digest "is"] canonical_sha256_Inr [OF d] b(4) len by auto
  then have "\<exists>c. make_certificate b (result_record digest (map wire_of is)) = Inr c"
    using validate_certificate_record [OF b(2) d] validate_result_record [OF b(2) d b(3) wf len b(4)] by blast
  then show "\<exists>c. issue_certificate b = Inr c" using b(1,2) enc(2) by (auto simp: issue_certificate_def)
qed

lemma issued_accepted_aux:
  assumes "issue_certificate b = Inr c"
  shows "\<exists>receipt. check_certificate c = Inr receipt"
proof -
  from assms obtain bd r where i: "validate_batch b = Inr bd" "evaluate_batch (PDict bd) = Inr r"
    "make_certificate (PDict bd) r = Inr c"
    by (auto simp: issue_certificate_def res_simps)
  obtain e rows rowss where view: "batch_view b bd e rows rowss" using batch_view_ex [OF i(1)] by blast
  then have b: "PDict bd = b" by (simp add: batch_view_def)
  from i(3) [unfolded b] obtain rd bs rs where m: "validate_result r (Some b) = Inr rd"
    "canonical_sha256 b = Inr bs" "canonical_sha256 r = Inr rs"
    by (auto simp: make_certificate_def res_simps)
  have "\<not> (\<exists>row \<in> set rowss. div_blocked row e)"
    using evaluate_batch_spec [OF view] i(2) b by (auto split: if_splits)
  then obtain receipt where "check_result b r = Inr receipt"
    using check_result_complete [OF view _ _ m(3)] i(2) b by metis
  moreover obtain cd where "c = PDict cd" "validate_certificate c = Inr cd" "dict_get cd ''batch'' = Inr b"
    "dict_get cd ''result'' = Inr r"
    using validate_certificate_record [OF i(1) m(2,1,3)] i(3) b by auto
  ultimately show ?thesis by (simp add: check_certificate_def)
qed


end
