(* ===== verification/Reference_Claims.thy ===== *)
theory Reference_Claims
  imports Certificates
begin

text \<open>
  The properties of \<open>reference/format.py\<close> and \<open>reference/evaluator.py\<close>, over the lemmas of
  \<open>Wire_Facts\<close>, \<open>Expressions\<close>, \<open>Evaluator_Sound\<close> and \<open>Certificates\<close>.  Their witnesses use one
  small batch: the sum of a variable with itself on the row \<open>[1, 1]\<close>.
\<close>

section \<open>A batch for the witnesses\<close>

definition demo_expression :: pyval where
  "demo_expression = py_dict [(''op'', PStr (lit ''add'')),
     (''left'', py_dict [(''op'', PStr (lit ''var'')), (''index'', PInt 0)]),
     (''right'', py_dict [(''op'', PStr (lit ''var'')), (''index'', PInt 0)])]"

definition demo_row :: "interval list" where
  "demo_row = [\<lparr>iv_lo = ONE_BITS, iv_hi = ONE_BITS\<rparr>]"

definition demo_batch :: pyval where
  "demo_batch = py_dict [(''schema_version'', PInt 1), (''kind'', PStr BATCH_KIND),
     (''algorithm'', PStr ALGORITHM_ID), (''variable_count'', PInt 1), (''expression'', demo_expression),
     (''rows'', PList [PList (map wire_of demo_row)])]"

abbreviation demo_expr :: expr where
  "demo_expr \<equiv> Binary BAdd (Var 0) (Var 0)"

lemma demo_represents: "represents demo_expression demo_expr"
proof -
  have v: "represents (py_dict [(''op'', PStr (lit ''var'')), (''index'', PInt 0)]) (Var 0)"
    unfolding py_dict_def by (rule rep_var) auto
  show ?thesis
    unfolding demo_expression_def
    by (subst py_dict_def, rule rep_binary [OF _ _ _ _ v v]) auto
qed

lemma demo_row_ok: "row_ok 1 (PList (map wire_of demo_row)) demo_row"
  using one_interval(2) wire_of_interval [OF one_interval(2)] ONE_BITS_props
  by (simp add: row_ok_def wire_row_def demo_row_def fin_interval_def)

lemma demo_view: "\<exists>bd. batch_view demo_batch bd demo_expr [PList (map wire_of demo_row)] [demo_row]"
proof -
  let ?items = "[(''schema_version'', PInt 1), (''kind'', PStr BATCH_KIND),
     (''algorithm'', PStr ALGORITHM_ID), (''variable_count'', PInt 1), (''expression'', demo_expression),
     (''rows'', PList [PList (map wire_of demo_row)])]"
  let ?bd = "map (\<lambda>(k, v). (lit k, v)) ?items"
  have "exact_object (py_dict ?items) [''schema_version'', ''kind'', ''algorithm'', ''variable_count'', ''expression'', ''rows'']
      = Inr ?bd"
    by (simp add: exact_object_py_dict)
  moreover have "validate_expression 1 0 0 demo_expression = Inr 3"
    using validate_expression_complete [OF demo_represents, of 1 0 0]
    by (simp add: MAX_EXPRESSION_DEPTH_def MAX_EXPRESSION_NODES_def)
  moreover have "expression_arithmetic_cost demo_expression = Inr 3"
    using expression_cost_represents [OF demo_represents]
    by (simp add: COST_CAP_def MAX_ARITHMETIC_COST_PER_ROW_def)
  moreover have "validate_row 1 (PList (map wire_of demo_row)) = Inr ()"
    using demo_row_ok validate_row_Inr by blast
  ultimately have "validate_batch demo_batch = Inr ?bd"
    unfolding demo_batch_def validate_batch_def
    by (simp add: dict_get_items integer_def fixed_string_def array_def MAX_VARIABLE_COUNT_def
        MAX_BATCH_ROWS_def MAX_ARITHMETIC_COST_PER_ROW_def MAX_TOTAL_ARITHMETIC_WORK_def)
  then show ?thesis
    unfolding batch_view_def demo_batch_def py_dict_def
    using demo_represents demo_row_ok
    by (intro exI [of _ ?bd]) (simp add: dict_get_items MAX_BATCH_ROWS_def)
qed

lemma demo_digest: "\<exists>s. canonical_sha256 demo_batch = Inr s"
proof (rule canonical_sha256_total)
  show "exact_dom demo_batch" by (simp add: demo_batch_def demo_expression_def py_dict_def demo_row_def wire_of_def)
  show "encodable demo_batch"
    by (simp add: demo_batch_def demo_expression_def py_dict_def demo_row_def wire_of_encodable
        BATCH_KIND_def ALGORITHM_ID_def)
  show "4 * text_bound demo_batch \<le> MAX_CANONICAL_JSON_BYTES"
    by (simp add: demo_batch_def demo_expression_def py_dict_def demo_row_def wire_of_encodable
        BATCH_KIND_def ALGORITHM_ID_def json_string_def lit_def json_escape_def MAX_CANONICAL_JSON_BYTES_def)
qed

lemma demo_issued: "\<exists>c. issue_certificate demo_batch = Inr c"
  using demo_view demo_digest issue_certificate_spec by fastforce

section \<open>Properties\<close>

text \<open>C1: A certificate that \<open>check_certificate\<close> accepts certifies its batch: each output row encodes
  the interval value of the expression on the matching input row, and that interval contains every
  real value the expression can take there, with no division by an interval containing zero.\<close>

theorem check_certificate_sound:
  assumes "check_certificate c = Inr receipt"
  shows "\<exists>cd b rd. c = PDict cd \<and> dict_get cd ''batch'' = Inr b \<and>
    dict_get cd ''result'' = Inr (PDict rd) \<and> certified b rd"
proof -
  from assms obtain cd b r where c: "validate_certificate c = Inr cd" "dict_get cd ''batch'' = Inr b"
    "dict_get cd ''result'' = Inr r" "check_result b r = Inr receipt"
    by (auto simp: check_certificate_def res_simps)
  from c(1) have "c = PDict cd" by (rule validate_certificate_Inr)
  with c check_result_sound [OF c(4)] show ?thesis by auto
qed

text \<open>C30: A certificate issued for a batch is accepted by the checker.\<close>

theorem issued_certificate_accepted:
  assumes "issue_certificate b = Inr c"
  shows "\<exists>receipt. check_certificate c = Inr receipt"
  by (rule issued_accepted_aux [OF assms])

theorem issued_certificate_accepted_witness:
  "\<exists>c receipt. issue_certificate demo_batch = Inr c \<and> check_certificate c = Inr receipt"
  using issued_certificate_accepted demo_issued by blast

theorem check_certificate_sound_witness:
  "\<exists>c cd b rd. issue_certificate demo_batch = Inr c \<and> c = PDict cd \<and> dict_get cd ''batch'' = Inr b \<and>
    dict_get cd ''result'' = Inr (PDict rd) \<and> certified b rd"
proof -
  obtain c where c: "issue_certificate demo_batch = Inr c" using demo_issued by blast
  obtain bd r where i: "validate_batch demo_batch = Inr bd" "evaluate_batch (PDict bd) = Inr r"
    "make_certificate (PDict bd) r = Inr c"
    using c by (auto simp: issue_certificate_def res_simps)
  obtain receipt where "check_certificate c = Inr receipt"
    using issued_accepted_aux c by blast
  from check_certificate_sound [OF this] c show ?thesis by blast
qed

text \<open>C29: For a validated batch a certificate is issued exactly when no row makes a divisor interval
  contain zero and the batch itself can be digested; the result always fits the size limit.\<close>

theorem issue_certificate_total:
  assumes "batch_view b bd e rows rowss"
  shows "(\<exists>c. issue_certificate b = Inr c) \<longleftrightarrow>
    \<not> (\<exists>row \<in> set rowss. div_blocked row e) \<and> (\<exists>s. canonical_sha256 b = Inr s)"
  by (rule issue_certificate_spec [OF assms])

theorem issue_certificate_total_witness: "\<exists>c. issue_certificate demo_batch = Inr c"
proof -
  obtain bd where "batch_view demo_batch bd demo_expr [PList (map wire_of demo_row)] [demo_row]"
    using demo_view by blast
  from issue_certificate_total [OF this] demo_digest show ?thesis by simp
qed

text \<open>\<open>evaluate_batch\<close> on a validated batch raises \<open>EvaluationError\<close> exactly when some row blocks
  a division, and otherwise returns the encoded enclosures of all rows in order.\<close>

theorem evaluate_batch_rows:
  assumes "batch_view b bd e rows rowss"
  shows "if \<exists>row \<in> set rowss. div_blocked row e then evaluate_batch b = Inl EvaluationError
    else \<exists>is. list_all2 (\<lambda>row i. ieval row e = Inr i \<and> encloses row e i) rowss is \<and>
      evaluate_batch b = ebind (canonical_sha256 b) (\<lambda>digest. Inr (result_record digest (map wire_of is)))"
  by (rule evaluate_batch_spec [OF assms])

theorem evaluate_batch_rows_witness: "\<exists>i. ieval demo_row demo_expr = Inr i \<and> encloses demo_row demo_expr i"
proof -
  obtain bd where "batch_view demo_batch bd demo_expr [PList (map wire_of demo_row)] [demo_row]"
    using demo_view by blast
  from evaluate_batch_rows [OF this] show ?thesis by (auto simp: list_all2_Cons1)
qed

section \<open>Compilation and evaluation\<close>

text \<open>C5: Compiler correctness: the postfix program of a wire expression, run on any row, gives the
  recursive interval value of the expression; what the recursion raises becomes \<open>EvaluationError\<close>.\<close>

theorem compiled_program_correct:
  assumes "represents v e"
  shows "\<exists>p. compile_expression v = Inr p \<and>
    (\<forall>row. run_program p row = catch_as evaluation_caught EvaluationError (ieval row e))"
  using compile_represents [OF assms] run_program_postfix by blast

theorem compiled_program_correct_witness:
  "\<exists>p. compile_expression demo_expression = Inr p \<and> run_program p [] = Inl EvaluationError"
  using compiled_program_correct [OF demo_represents]
  by (fastforce simp: py_index_def evaluation_caught_def)

text \<open>
  The interval value of a validated expression on a row of well-formed intervals encloses
  every real value; evaluation fails exactly when a divisor interval contains zero.\<close>

theorem interval_evaluation_encloses:
  assumes "list_all wf_interval row" "represents v e" "expr_ok (int (length row)) e"
  shows "if div_blocked row e then ieval row e = Inl InvalidBinary64Operation
     else \<exists>i. ieval row e = Inr i \<and> encloses row e i"
  using ieval_sound [OF assms(1) represents_consts [OF assms(2)] assms(3)] .

theorem interval_evaluation_encloses_witness: "\<exists>i. ieval demo_row demo_expr = Inr i \<and> contains i 2"
proof -
  have wf: "list_all wf_interval demo_row" using one_interval(2) by (simp add: demo_row_def)
  obtain i where i: "ieval demo_row demo_expr = Inr i" "encloses demo_row demo_expr i"
    using interval_evaluation_encloses [OF wf demo_represents] by (auto simp: demo_row_def)
  have "list_all2 contains demo_row [1]" using one_interval(3) by (simp add: demo_row_def)
  moreover have "denotes [1] demo_expr 2" by (simp add: py_index_def)
  ultimately show ?thesis using i unfolding encloses_def by blast
qed

section \<open>The wire format\<close>

text \<open>C33: \<open>validate_expression\<close> accepts exactly the wire forms of bounded expressions: variables and
  exponents in range, depth at most 256, and the counter after the visit at most 100000 nodes.\<close>

theorem validate_expression_exact:
  "validate_expression vc depth counter v = Inr c \<longleftrightarrow>
     (\<exists>e. represents v e \<and> expr_ok vc e \<and> depth + height e \<le> MAX_EXPRESSION_DEPTH \<and>
       c = counter + nodes e \<and> c \<le> MAX_EXPRESSION_NODES)"
  by (rule validate_expression_iff)

text \<open>
  \<open>expression_arithmetic_cost\<close> saturates the exact cost of the expression: no intermediate
  saturation changes the result.\<close>

theorem expression_cost_saturates:
  assumes "represents v e"
  shows "expression_arithmetic_cost v = Inr (min COST_CAP (exact_cost e))"
  by (rule expression_cost_represents [OF assms])

theorem expression_cost_saturates_witness: "expression_arithmetic_cost demo_expression = Inr 3"
  using expression_cost_saturates [OF demo_represents]
  by (simp add: COST_CAP_def MAX_ARITHMETIC_COST_PER_ROW_def)

text \<open>The canonical encoding determines a value up to Python equality: two encodable values have
  the same bytes exactly when \<open>==\<close> holds between them.\<close>

theorem canonical_bytes_determine_value:
  assumes "canonical_json_bytes a = Inr s" "canonical_json_bytes b = Inr t" "dict_wf a" "dict_wf b"
  shows "s = t \<longleftrightarrow> py_eq a b"
proof -
  have dom: "exact_dom a" "exact_dom b" using assms by (simp_all add: canonical_json_bytes_Inr)
  have "s = t \<longleftrightarrow> jnorm a = jnorm b"
  proof
    assume "s = t"
    with assms(1,2) show "jnorm a = jnorm b" by (blast intro: canonical_inj)
  next
    assume "jnorm a = jnorm b"
    from canonical_cong [OF this dom] assms(1,2) show "s = t" by (metis sum.inject(2))
  qed
  then show ?thesis using py_eq_jnorm [OF dom assms(3,4)] by simp
qed

lemma canonical_demo: "\<exists>s. canonical_json_bytes (py_dict [(''b'', PInt i), (''a'', PInt j)]) = Inr s"
  if "\<bar>i\<bar> \<le> 9" "\<bar>j\<bar> \<le> 9" for i j
  by (rule canonical_json_bytes_total)
    (use that in \<open>simp_all add: py_dict_def json_string_def lit_def json_escape_def valid_char_def
      MAX_CANONICAL_JSON_BYTES_def\<close>)

theorem canonical_bytes_determine_value_witness:
  "canonical_json_bytes (py_dict [(''b'', PInt 1), (''a'', PInt 2)]) \<noteq>
   canonical_json_bytes (py_dict [(''b'', PInt 2), (''a'', PInt 1)])"
proof -
  let ?v = "py_dict [(''b'', PInt 1), (''a'', PInt 2)]" and ?w = "py_dict [(''b'', PInt 2), (''a'', PInt 1)]"
  obtain s where s: "canonical_json_bytes ?v = Inr s" using canonical_demo [of 1 2] by auto
  obtain t where t: "canonical_json_bytes ?w = Inr t" using canonical_demo [of 2 1] by auto
  have wf: "dict_wf ?v" "dict_wf ?w" by (simp_all add: py_dict_def)
  have "\<not> py_eq ?v ?w"
    by (simp add: py_dict_def py_eq_dict)
  with canonical_bytes_determine_value [OF s t wf] s t show ?thesis by simp
qed

text \<open>
  Digests bind batches: two accepted results that carry one batch digest are about batches
  with one normal form, or their canonical encodings are an explicit SHA-256 collision.\<close>

theorem batch_digest_binds:
  assumes "validate_result r (Some b) = Inr rd" "validate_result r (Some b') = Inr rd'"
  shows "jnorm b = jnorm b' \<or>
    (\<exists>s t. canonical_json_bytes b = Inr s \<and> canonical_json_bytes b' = Inr t \<and> sha_collision s t)"
proof -
  from assms obtain s t where st: "canonical_json_bytes b = Inr s" "canonical_json_bytes b' = Inr t"
    "sha256_hex s = sha256_hex t"
    by (auto simp: validate_result_def canonical_sha256_def res_simps split: if_splits)
  from wire.digest_binds [OF this] st show ?thesis by blast
qed

theorem batch_digest_binds_witness:
  "\<exists>r rd. validate_result r (Some demo_batch) = Inr rd \<and> (jnorm demo_batch = jnorm demo_batch \<or>
    (\<exists>s t. canonical_json_bytes demo_batch = Inr s \<and> canonical_json_bytes demo_batch = Inr t \<and> sha_collision s t))"
proof -
  obtain c where "issue_certificate demo_batch = Inr c" using demo_issued by blast
  then obtain bd r rd where "validate_batch demo_batch = Inr bd" "validate_result r (Some (PDict bd)) = Inr rd"
    by (auto simp: issue_certificate_def make_certificate_def res_simps)
  moreover have "PDict bd = demo_batch" if "validate_batch demo_batch = Inr bd" for bd
    using that by (rule validate_batch_Inr) simp
  ultimately have "validate_result r (Some demo_batch) = Inr rd" by metis
  with batch_digest_binds [OF this this] show ?thesis by blast
qed

text \<open>
  Hexadecimal words round-trip: a string parses to a word exactly when the word prints as the
  string, and both directions reject NaN encodings.\<close>

theorem hex_word_roundtrip: "parse_binary64_hex (PStr s) = Inr b \<longleftrightarrow> binary64_hex b = Inr s"
proof
  assume "parse_binary64_hex (PStr s) = Inr b"
  then have "hex_string 16 s" "b = int (from_hex s)" "endpoint b" by (auto simp: parse_binary64_hex_Inr)
  then show "binary64_hex b = Inr s" by (simp add: binary64_hex_Inr to_hex_from_hex)
next
  assume "binary64_hex b = Inr s"
  then have "endpoint b" "s = to_hex 16 (nat b)" by (auto simp: binary64_hex_Inr)
  then show "parse_binary64_hex (PStr s) = Inr b"
    by (simp add: parse_binary64_hex_Inr hex_of_word endpoint_def)
qed

text \<open>
  \<open>validate_interval\<close> agrees with the interval constructor: a wire interval is accepted
  exactly when its two words make a \<open>Binary64Interval\<close>, finite when that is required.\<close>

theorem validate_interval_exact:
  "(\<exists>d. validate_interval v rf = Inr d) \<longleftrightarrow>
     (\<exists>i. wire_interval v i \<and> mk_interval (iv_lo i) (iv_hi i) = Inr i \<and>
       (if rf then has_finite_endpoints i = Inr True else True))"
proof -
  have "mk_interval (iv_lo i) (iv_hi i) = Inr i \<longleftrightarrow> wf_interval i" for i
    by (auto simp: mk_interval_Inr_iff)
  then show ?thesis unfolding validate_interval_ex by auto
qed

end
