(* ===== verification/CampaignIO.thy ===== *)
theory CampaignIO
  imports Wire_Facts
begin

text \<open>
  Model of \<open>tg_verifier/campaign_io.py\<close>: the canonical encoding of campaign records and the two
  execution-scope guards (the Azure measured-runner route and the Phala/dstack TDX route).  An
  environment is a dictionary of Python values; \<open>os.environ\<close> is a parameter of the guards.
  File reading, locking and atomic replacement are not modelled.
\<close>

section \<open>Dictionaries as environments\<close>

text \<open>\<open>{**d, k: v}\<close>: an existing key keeps its place.\<close>

fun dict_set :: "(pystr \<times> 'v) list \<Rightarrow> pystr \<Rightarrow> 'v \<Rightarrow> (pystr \<times> 'v) list" where
  "dict_set [] k v = [(k, v)]"
| "dict_set ((k', v') # d) k v = (if k' = k then (k, v) # d else (k', v') # dict_set d k v)"

definition dict_set_all :: "(pystr \<times> 'v) list \<Rightarrow> (pystr \<times> 'v) list \<Rightarrow> (pystr \<times> 'v) list" where
  "dict_set_all d items = foldl (\<lambda>d (k, v). dict_set d k v) d items"

lemma map_of_dict_set [simp]: "map_of (dict_set d k v) = (map_of d)(k \<mapsto> v)"
  by (induction d) (auto simp: fun_eq_iff)

lemma map_of_dict_set_all: "map_of (dict_set_all d items) = map_of d ++ map_of (rev items)"
proof (induction items arbitrary: d)
  case (Cons i items)
  then show ?case by (cases i) (auto simp: dict_set_all_def map_add_def fun_eq_iff split: option.splits)
qed (simp add: dict_set_all_def)

section \<open>Canonical records\<close>

function campaign_validate_json :: "budget \<Rightarrow> pyval \<Rightarrow> unit res" where
  "campaign_validate_json d value = ebind (enter d) (\<lambda>d. case value of
      PNone \<Rightarrow> Inr ()
    | PStr _ \<Rightarrow> Inr ()
    | PBool _ \<Rightarrow> Inr ()
    | PInt _ \<Rightarrow> Inr ()
    | PFloat _ \<Rightarrow> Inl CampaignIOError
    | PList items \<Rightarrow> ebind (map_res (campaign_validate_json d) items) (\<lambda>_. Inr ())
    | PDict items \<Rightarrow> ebind (map_res (\<lambda>(_, item). campaign_validate_json d item) items) (\<lambda>_. Inr ())
    | POther _ \<Rightarrow> Inl CampaignIOError)"
  by pat_completeness auto
termination
  by (relation "measure (size \<circ> snd)") (auto dest: size_item size_element simp del: pyval.size)

declare campaign_validate_json.simps [simp del]

text \<open>With the budgets of the validator and of the encoder.\<close>

definition campaign_json_within :: "budget \<Rightarrow> budget \<Rightarrow> pyval \<Rightarrow> bytes res" where
  "campaign_json_within dv de value = ebind (campaign_validate_json dv value) (\<lambda>_.
     ebind (json_dumps de value) (\<lambda>text. ebind (utf8_encode text) (\<lambda>encoded. Inr (encoded @ [10]))))"

definition campaign_json_bytes :: "pyval \<Rightarrow> bytes res" where
  "campaign_json_bytes value = campaign_json_within None None value"

definition sha256_bytes :: "bytes \<Rightarrow> pystr" where
  "sha256_bytes raw = sha256_hex raw"

definition campaign_sha256 :: "pyval \<Rightarrow> pystr res" where
  "campaign_sha256 value = ebind (campaign_json_bytes value) (\<lambda>raw. Inr (sha256_bytes raw))"

text \<open>The hook of both parsers: \<open>json.loads\<close> hands over the pairs of an object in order.\<close>

fun object_without_duplicates_from :: "exc \<Rightarrow> (pystr \<times> pyval) list \<Rightarrow> (pystr \<times> pyval) list \<Rightarrow> (pystr \<times> pyval) list res" where
  "object_without_duplicates_from e result [] = Inr result"
| "object_without_duplicates_from e result ((key, value) # pairs) =
     (if key \<in> fst ` set result then Inl e
      else object_without_duplicates_from e (dict_set result key value) pairs)"

definition object_without_duplicates :: "(pystr \<times> pyval) list \<Rightarrow> pyval res" where
  "object_without_duplicates pairs = ebind (object_without_duplicates_from CampaignIOError [] pairs) (\<lambda>d. Inr (PDict d))"

definition object_without_duplicate_keys :: "(pystr \<times> pyval) list \<Rightarrow> pyval res" where
  "object_without_duplicate_keys pairs = ebind (object_without_duplicates_from FormatError [] pairs) (\<lambda>d. Inr (PDict d))"

section \<open>The Azure measured-worker guard\<close>

definition LOCAL_KAT_MAX_WORK_ITEMS :: int where "LOCAL_KAT_MAX_WORK_ITEMS = 64"
definition AZURE_SCOPE :: pystr where "AZURE_SCOPE = lit ''sparkinterval.azure-measured-worker.v1''"
definition AZURE_SCOPE_ENV :: string where "AZURE_SCOPE_ENV = ''SPARKINTERVAL_MEASURED_WORKER_SCOPE''"
definition AZURE_BACKEND_ENV :: string where "AZURE_BACKEND_ENV = ''SPARKINTERVAL_MEASURED_WORKER_BACKEND''"
definition AZURE_CHALLENGE_ENV :: string where "AZURE_CHALLENGE_ENV = ''SPARKINTERVAL_MEASURED_WORKER_CHALLENGE_NONCE''"
definition AZURE_JOB_BINDING_ENV :: string where "AZURE_JOB_BINDING_ENV = ''SPARKINTERVAL_MEASURED_WORKER_JOB_BINDING_SHA256''"

definition AZURE_BACKENDS :: "string list" where
  "AZURE_BACKENDS = [''azure_ncc40ads_h100_v5'', ''azure_sevsnp_cpu'']"

definition AZURE_ENVIRONMENT_KEYS :: "string list" where
  "AZURE_ENVIRONMENT_KEYS = [AZURE_SCOPE_ENV, AZURE_BACKEND_ENV, AZURE_CHALLENGE_ENV, AZURE_JOB_BINDING_ENV]"

definition lower_hex256 :: "pyval \<Rightarrow> pystr res" where
  "lower_hex256 value = (case value of
      PStr s \<Rightarrow> if hex_string 64 s then Inr s else Inl MeasuredWorkerScopeError
    | _ \<Rightarrow> Inl MeasuredWorkerScopeError)"

text \<open>\<open>value in {names}\<close> for a frozen set of strings.\<close>

definition value_in :: "pyval \<Rightarrow> string list \<Rightarrow> bool" where
  "value_in value names = (case value of PStr s \<Rightarrow> str_in s names | _ \<Rightarrow> False)"

definition is_string :: "pyval \<Rightarrow> bool" where
  "is_string value = (case value of PStr _ \<Rightarrow> True | _ \<Rightarrow> False)"

definition overlaps :: "string list \<Rightarrow> (pystr \<times> pyval) list \<Rightarrow> bool" where
  "overlaps reserved environment \<longleftrightarrow> (\<exists>k \<in> set reserved. lit k \<in> fst ` set environment)"

definition azure_measured_worker_environment :: "pyval \<Rightarrow> pyval \<Rightarrow> pyval \<Rightarrow> pyval \<Rightarrow> (pystr \<times> pyval) list res" where
  "azure_measured_worker_environment environment backend challenge_nonce job_binding =
     (case environment of PDict env \<Rightarrow>
        if \<not> list_all (\<lambda>(_, v). is_string v) env then Inl MeasuredWorkerScopeError
        else if overlaps AZURE_ENVIRONMENT_KEYS env then Inl MeasuredWorkerScopeError
        else if \<not> value_in backend AZURE_BACKENDS then Inl MeasuredWorkerScopeError
        else ebind (lower_hex256 challenge_nonce) (\<lambda>challenge. ebind (lower_hex256 job_binding) (\<lambda>binding.
          Inr (dict_set_all env [(lit AZURE_SCOPE_ENV, PStr AZURE_SCOPE), (lit AZURE_BACKEND_ENV, backend),
            (lit AZURE_CHALLENGE_ENV, PStr challenge), (lit AZURE_JOB_BINDING_ENV, PStr binding)])))
      | _ \<Rightarrow> Inl MeasuredWorkerScopeError)"

text \<open>\<open>d.get(k)\<close>, and the loop that compares the expected items.\<close>

definition dict_lookup :: "(pystr \<times> pyval) list \<Rightarrow> string \<Rightarrow> pyval" where
  "dict_lookup d k = (case map_of d (lit k) of Some v \<Rightarrow> v | None \<Rightarrow> PNone)"

fun require_items :: "exc \<Rightarrow> (pystr \<times> pyval) list \<Rightarrow> (string \<times> pystr) list \<Rightarrow> unit res" where
  "require_items e actual [] = Inr ()"
| "require_items e actual ((key, value) # items) =
     (if dict_lookup actual key \<noteq> PStr value then Inl e else require_items e actual items)"

definition require_azure_measured_worker ::
  "(pystr \<times> pyval) list \<Rightarrow> pyval \<Rightarrow> pyval \<Rightarrow> (pystr \<times> pyval) list option \<Rightarrow> pyval res" where
  "require_azure_measured_worker os_environ challenge_nonce job_binding environment =
     ebind (lower_hex256 challenge_nonce) (\<lambda>challenge. ebind (lower_hex256 job_binding) (\<lambda>binding.
       let actual = (case environment of None \<Rightarrow> os_environ | Some env \<Rightarrow> env)
       in ebind (require_items MeasuredWorkerScopeError actual
            [(AZURE_SCOPE_ENV, AZURE_SCOPE), (AZURE_CHALLENGE_ENV, challenge), (AZURE_JOB_BINDING_ENV, binding)]) (\<lambda>_.
          let backend = dict_lookup actual AZURE_BACKEND_ENV
          in if \<not> value_in backend AZURE_BACKENDS then Inl MeasuredWorkerScopeError else Inr backend)))"

text \<open>A work bound is accepted when it is a nonnegative integer that is not a Boolean.\<close>

definition bound_ok :: "pyval \<Rightarrow> bool" where
  "bound_ok b = (case b of PInt i \<Rightarrow> 0 \<le> i | _ \<Rightarrow> False)"

definition bound_local :: "pyval \<Rightarrow> bool" where
  "bound_local b = (case b of PInt i \<Rightarrow> i \<le> LOCAL_KAT_MAX_WORK_ITEMS | _ \<Rightarrow> False)"

definition require_azure_measured_worker_for_workload ::
  "(pystr \<times> pyval) list \<Rightarrow> bool \<Rightarrow> pyval list \<Rightarrow> (pystr \<times> pyval) list option \<Rightarrow> pyval res" where
  "require_azure_measured_worker_for_workload os_environ exact_production work_bounds environment =
     (if \<not> list_all bound_ok work_bounds then Inl MeasuredWorkerScopeError
      else if \<not> exact_production \<and> work_bounds = [] then Inl MeasuredWorkerScopeError
      else if \<not> exact_production \<and> list_all bound_local work_bounds then Inr PNone
      else let actual = (case environment of None \<Rightarrow> os_environ | Some env \<Rightarrow> env);
               challenge = dict_lookup actual AZURE_CHALLENGE_ENV;
               binding = dict_lookup actual AZURE_JOB_BINDING_ENV
        in if \<not> is_string challenge \<or> \<not> is_string binding then Inl MeasuredWorkerScopeError
           else require_azure_measured_worker os_environ challenge binding (Some actual))"

section \<open>The Phala/dstack TDX guard\<close>

definition PHALA_SCOPE :: pystr where "PHALA_SCOPE = lit ''sparkinterval.phala-tdx-measured-worker.v1''"
definition PHALA_SCOPE_ENV :: string where "PHALA_SCOPE_ENV = ''SPARKINTERVAL_PHALA_TDX_WORKER_SCOPE''"
definition PHALA_BACKEND_ENV :: string where "PHALA_BACKEND_ENV = ''SPARKINTERVAL_PHALA_TDX_WORKER_BACKEND''"
definition PHALA_CHALLENGE_ENV :: string where "PHALA_CHALLENGE_ENV = ''SPARKINTERVAL_PHALA_TDX_WORKER_CHALLENGE_NONCE''"
definition PHALA_JOB_BINDING_ENV :: string where "PHALA_JOB_BINDING_ENV = ''SPARKINTERVAL_PHALA_TDX_WORKER_JOB_BINDING_SHA256''"
definition PHALA_APP_ID_ENV :: string where "PHALA_APP_ID_ENV = ''SPARKINTERVAL_PHALA_TDX_WORKER_APP_ID''"
definition PHALA_COMPOSE_HASH_ENV :: string where "PHALA_COMPOSE_HASH_ENV = ''SPARKINTERVAL_PHALA_TDX_WORKER_COMPOSE_HASH''"
definition PHALA_BACKENDS :: "string list" where "PHALA_BACKENDS = [''phala_dstack_tdx_cpu'']"

definition PHALA_ENVIRONMENT_KEYS :: "string list" where
  "PHALA_ENVIRONMENT_KEYS = [PHALA_SCOPE_ENV, PHALA_BACKEND_ENV, PHALA_CHALLENGE_ENV, PHALA_JOB_BINDING_ENV,
     PHALA_APP_ID_ENV, PHALA_COMPOSE_HASH_ENV]"

definition phala_tdx_lower_hex :: "pyval \<Rightarrow> nat \<Rightarrow> pystr res" where
  "phala_tdx_lower_hex value n = (case value of
      PStr s \<Rightarrow> if hex_string n s then Inr s else Inl PhalaTdxWorkerScopeError
    | _ \<Rightarrow> Inl PhalaTdxWorkerScopeError)"

definition phala_tdx_worker_environment ::
  "pyval \<Rightarrow> pyval \<Rightarrow> pyval \<Rightarrow> pyval \<Rightarrow> pyval \<Rightarrow> pyval \<Rightarrow> (pystr \<times> pyval) list res" where
  "phala_tdx_worker_environment environment backend challenge_nonce job_binding app_id compose_hash =
     (case environment of PDict env \<Rightarrow>
        if \<not> list_all (\<lambda>(_, v). is_string v) env then Inl PhalaTdxWorkerScopeError
        else if overlaps PHALA_ENVIRONMENT_KEYS env then Inl PhalaTdxWorkerScopeError
        else if overlaps AZURE_ENVIRONMENT_KEYS env then Inl PhalaTdxWorkerScopeError
        else if \<not> value_in backend PHALA_BACKENDS then Inl PhalaTdxWorkerScopeError
        else ebind (phala_tdx_lower_hex challenge_nonce 64) (\<lambda>challenge.
          ebind (phala_tdx_lower_hex job_binding 64) (\<lambda>binding.
          ebind (phala_tdx_lower_hex app_id 40) (\<lambda>application.
          ebind (phala_tdx_lower_hex compose_hash 64) (\<lambda>compose.
            Inr (dict_set_all env [(lit PHALA_SCOPE_ENV, PStr PHALA_SCOPE), (lit PHALA_BACKEND_ENV, backend),
              (lit PHALA_CHALLENGE_ENV, PStr challenge), (lit PHALA_JOB_BINDING_ENV, PStr binding),
              (lit PHALA_APP_ID_ENV, PStr application), (lit PHALA_COMPOSE_HASH_ENV, PStr compose)])))))
      | _ \<Rightarrow> Inl PhalaTdxWorkerScopeError)"

definition require_phala_tdx_worker ::
  "(pystr \<times> pyval) list \<Rightarrow> pyval \<Rightarrow> pyval \<Rightarrow> (pystr \<times> pyval) list option \<Rightarrow> pyval res" where
  "require_phala_tdx_worker os_environ challenge_nonce job_binding environment =
     ebind (phala_tdx_lower_hex challenge_nonce 64) (\<lambda>challenge.
     ebind (phala_tdx_lower_hex job_binding 64) (\<lambda>binding.
       let actual = (case environment of None \<Rightarrow> os_environ | Some env \<Rightarrow> env)
       in if overlaps AZURE_ENVIRONMENT_KEYS actual then Inl PhalaTdxWorkerScopeError
       else ebind (require_items PhalaTdxWorkerScopeError actual
            [(PHALA_SCOPE_ENV, PHALA_SCOPE), (PHALA_CHALLENGE_ENV, challenge), (PHALA_JOB_BINDING_ENV, binding)]) (\<lambda>_.
          let backend = dict_lookup actual PHALA_BACKEND_ENV
          in if \<not> value_in backend PHALA_BACKENDS then Inl PhalaTdxWorkerScopeError
             else ebind (phala_tdx_lower_hex (dict_lookup actual PHALA_APP_ID_ENV) 40) (\<lambda>app_id.
               ebind (phala_tdx_lower_hex (dict_lookup actual PHALA_COMPOSE_HASH_ENV) 64) (\<lambda>compose_hash.
                 Inr (py_dict [(''backend'', backend), (''app_id'', PStr app_id), (''compose_hash'', PStr compose_hash),
                   (''challenge_nonce'', PStr challenge), (''job_binding'', PStr binding)]))))))"

definition require_phala_tdx_worker_for_workload ::
  "(pystr \<times> pyval) list \<Rightarrow> bool \<Rightarrow> pyval list \<Rightarrow> (pystr \<times> pyval) list option \<Rightarrow> pyval res" where
  "require_phala_tdx_worker_for_workload os_environ exact_production work_bounds environment =
     (if \<not> list_all bound_ok work_bounds then Inl PhalaTdxWorkerScopeError
      else if \<not> exact_production \<and> work_bounds = [] then Inl PhalaTdxWorkerScopeError
      else if \<not> exact_production \<and> list_all bound_local work_bounds then Inr PNone
      else let actual = (case environment of None \<Rightarrow> os_environ | Some env \<Rightarrow> env);
               challenge = dict_lookup actual PHALA_CHALLENGE_ENV;
               binding = dict_lookup actual PHALA_JOB_BINDING_ENV
        in if \<not> is_string challenge \<or> \<not> is_string binding then Inl PhalaTdxWorkerScopeError
           else require_phala_tdx_worker os_environ challenge binding (Some actual))"

section \<open>Lemmas\<close>

lemma campaign_validate_json_Inr: "campaign_validate_json None v = Inr u \<longleftrightarrow> json_dom v"
proof (induction v rule: json_dom.induct)
  case (1 vs)
  have "campaign_validate_json None (PList vs) = Inr u \<longleftrightarrow> (\<exists>us. map_res (campaign_validate_json None) vs = Inr us)"
    by (subst campaign_validate_json.simps) (simp add: res_simps)
  with 1 show ?case by (simp add: map_res_unit list_all_iff)
next
  case (2 d)
  have "campaign_validate_json None (PDict d) = Inr u \<longleftrightarrow> (\<exists>us. map_res (\<lambda>(_, item). campaign_validate_json None item) d = Inr us)"
    by (subst campaign_validate_json.simps) (simp add: res_simps)
  with 2 show ?case by (simp add: map_res_unit list_all_iff split_beta) force
qed (subst campaign_validate_json.simps; simp)+

lemma campaign_json_bytes_Inr:
  "campaign_json_bytes v = Inr s \<longleftrightarrow> json_dom v \<and> printable v \<and> (\<exists>u. utf8_encode (json_text v) = Inr u \<and> s = u @ [10])"
  by (auto simp: campaign_json_bytes_def campaign_json_within_def res_simps campaign_validate_json_Inr)

lemma campaign_inj: "campaign_json_bytes a = Inr s \<Longrightarrow> campaign_json_bytes b = Inr s \<Longrightarrow> jnorm a = jnorm b"
  by (auto simp: campaign_json_bytes_Inr) (blast intro: json_text_inj dest: utf8_encode_inj)

interpretation campaign: digest_commitment campaign_json_bytes jnorm
  by unfold_locales (rule campaign_inj)

lemmas azure_env_defs = AZURE_SCOPE_ENV_def AZURE_BACKEND_ENV_def AZURE_CHALLENGE_ENV_def AZURE_JOB_BINDING_ENV_def

lemmas phala_env_defs = PHALA_SCOPE_ENV_def PHALA_BACKEND_ENV_def PHALA_CHALLENGE_ENV_def
  PHALA_JOB_BINDING_ENV_def PHALA_APP_ID_ENV_def PHALA_COMPOSE_HASH_ENV_def

lemma lower_hex256_Inr: "lower_hex256 v = Inr s \<longleftrightarrow> v = PStr s \<and> hex_string 64 s"
  by (auto simp: lower_hex256_def split: pyval.splits)

lemma phala_tdx_lower_hex_Inr: "phala_tdx_lower_hex v n = Inr s \<longleftrightarrow> v = PStr s \<and> hex_string n s"
  by (auto simp: phala_tdx_lower_hex_def split: pyval.splits)

lemma fst_dict_set_all: "fst ` set (dict_set_all d items) = fst ` set d \<union> fst ` set items"
proof -
  have "dom (map_of (dict_set_all d items)) = dom (map_of d) \<union> dom (map_of items)"
    by (simp add: map_of_dict_set_all dom_map_of_conv_image_fst Un_commute)
  then show ?thesis by (simp add: dom_map_of_conv_image_fst)
qed

text \<open>What the Azure guard accepts, as a condition on the environment.\<close>

lemma require_azure_Inr:
  "require_azure_measured_worker os c j env = Inr backend \<longleftrightarrow>
     (\<exists>challenge binding. c = PStr challenge \<and> hex_string 64 challenge \<and> j = PStr binding \<and> hex_string 64 binding \<and>
       (let actual = (case env of None \<Rightarrow> os | Some e \<Rightarrow> e) in
         dict_lookup actual AZURE_SCOPE_ENV = PStr AZURE_SCOPE \<and> dict_lookup actual AZURE_CHALLENGE_ENV = PStr challenge \<and>
         dict_lookup actual AZURE_JOB_BINDING_ENV = PStr binding \<and> dict_lookup actual AZURE_BACKEND_ENV = backend \<and>
         value_in backend AZURE_BACKENDS))"
  by (auto simp: require_azure_measured_worker_def res_simps lower_hex256_Inr Let_def)

lemma require_phala_Inr:
  "require_phala_tdx_worker os c j env = Inr accepted \<Longrightarrow>
     (\<exists>challenge binding. c = PStr challenge \<and> hex_string 64 challenge \<and> j = PStr binding \<and> hex_string 64 binding \<and>
       (let actual = (case env of None \<Rightarrow> os | Some e \<Rightarrow> e) in
         \<not> overlaps AZURE_ENVIRONMENT_KEYS actual \<and>
         dict_lookup actual PHALA_SCOPE_ENV = PStr PHALA_SCOPE \<and> dict_lookup actual PHALA_CHALLENGE_ENV = PStr challenge \<and>
         dict_lookup actual PHALA_JOB_BINDING_ENV = PStr binding \<and>
         value_in (dict_lookup actual PHALA_BACKEND_ENV) PHALA_BACKENDS))"
  by (auto simp: require_phala_tdx_worker_def res_simps phala_tdx_lower_hex_Inr Let_def split: if_splits)

lemma value_in_not_none: "value_in v names \<Longrightarrow> v \<noteq> PNone"
  by (auto simp: value_in_def)

lemma azure_environment_lookups:
  assumes "azure_measured_worker_environment (PDict env) backend c j = Inr e"
  shows "dict_lookup e AZURE_SCOPE_ENV = PStr AZURE_SCOPE \<and> dict_lookup e AZURE_BACKEND_ENV = backend \<and>
    dict_lookup e AZURE_CHALLENGE_ENV = c \<and> dict_lookup e AZURE_JOB_BINDING_ENV = j \<and>
    value_in backend AZURE_BACKENDS \<and> (\<exists>s. c = PStr s \<and> hex_string 64 s) \<and> (\<exists>s. j = PStr s \<and> hex_string 64 s)"
  using assms
  by (auto simp: azure_measured_worker_environment_def res_simps lower_hex256_Inr dict_lookup_def
      map_of_dict_set_all azure_env_defs)

lemma phala_environment_lookups:
  assumes "phala_tdx_worker_environment (PDict env) backend c j app compose = Inr e"
  shows "dict_lookup e PHALA_SCOPE_ENV = PStr PHALA_SCOPE \<and> dict_lookup e PHALA_BACKEND_ENV = backend \<and>
    dict_lookup e PHALA_CHALLENGE_ENV = c \<and> dict_lookup e PHALA_JOB_BINDING_ENV = j \<and>
    dict_lookup e PHALA_APP_ID_ENV = app \<and> dict_lookup e PHALA_COMPOSE_HASH_ENV = compose \<and>
    value_in backend PHALA_BACKENDS \<and> \<not> overlaps AZURE_ENVIRONMENT_KEYS e \<and>
    (\<exists>s. c = PStr s \<and> hex_string 64 s) \<and> (\<exists>s. j = PStr s \<and> hex_string 64 s) \<and>
    (\<exists>s. app = PStr s \<and> hex_string 40 s) \<and> (\<exists>s. compose = PStr s \<and> hex_string 64 s)"
proof -
  from assms obtain ch b ap co where e: "c = PStr ch" "j = PStr b" "app = PStr ap" "compose = PStr co"
    "hex_string 64 ch" "hex_string 64 b" "hex_string 40 ap" "hex_string 64 co" "value_in backend PHALA_BACKENDS"
    "\<not> overlaps AZURE_ENVIRONMENT_KEYS env"
    "e = dict_set_all env [(lit PHALA_SCOPE_ENV, PStr PHALA_SCOPE), (lit PHALA_BACKEND_ENV, backend),
              (lit PHALA_CHALLENGE_ENV, PStr ch), (lit PHALA_JOB_BINDING_ENV, PStr b),
              (lit PHALA_APP_ID_ENV, PStr ap), (lit PHALA_COMPOSE_HASH_ENV, PStr co)]"
    by (auto simp: phala_tdx_worker_environment_def res_simps phala_tdx_lower_hex_Inr)
  have "\<not> overlaps AZURE_ENVIRONMENT_KEYS e"
    using e(10) unfolding overlaps_def e(11) fst_dict_set_all
    by (auto simp: AZURE_ENVIRONMENT_KEYS_def azure_env_defs phala_env_defs)
  with e show ?thesis by (simp add: dict_lookup_def map_of_dict_set_all phala_env_defs)
qed

section \<open>Properties\<close>

text \<open>Neither route ever runs unmeasured work locally: the workload guard returns without a
  measured worker exactly for non-production work with at least one bound, all between 0 and 64.\<close>

theorem local_work_is_tiny:
  "(require_azure_measured_worker_for_workload os production bounds env = Inr PNone \<longleftrightarrow>
      \<not> production \<and> bounds \<noteq> [] \<and> list_all (\<lambda>b. \<exists>i. b = PInt i \<and> 0 \<le> i \<and> i \<le> 64) bounds) \<and>
   (require_phala_tdx_worker_for_workload os production bounds env = Inr PNone \<longleftrightarrow>
      \<not> production \<and> bounds \<noteq> [] \<and> list_all (\<lambda>b. \<exists>i. b = PInt i \<and> 0 \<le> i \<and> i \<le> 64) bounds)"
proof -
  have "bound_ok b \<and> bound_local b \<longleftrightarrow> (\<exists>i. b = PInt i \<and> 0 \<le> i \<and> i \<le> 64)" for b
    by (cases b) (simp_all add: bound_ok_def bound_local_def LOCAL_KAT_MAX_WORK_ITEMS_def)
  then have b: "list_all bound_ok bounds \<and> list_all bound_local bounds \<longleftrightarrow>
      list_all (\<lambda>b. \<exists>i. b = PInt i \<and> 0 \<le> i \<and> i \<le> 64) bounds"
    unfolding list_all_iff by blast
  have "require_azure_measured_worker os c j e \<noteq> Inr PNone" for c j e
    by (auto simp: require_azure_Inr Let_def dest: value_in_not_none)
  moreover have "require_phala_tdx_worker os c j e \<noteq> Inr PNone" for c j e
    by (auto simp: require_phala_tdx_worker_def res_simps Let_def py_dict_def split: if_splits)
  ultimately show ?thesis
    unfolding b [symmetric] require_azure_measured_worker_for_workload_def require_phala_tdx_worker_for_workload_def
    by (auto simp: Let_def)
qed

text \<open>The environment built for a measured Azure child is accepted by the Azure guard, with its
  backend, for production work of any size, and rejected by the TDX guard.\<close>

theorem azure_environment_admitted:
  assumes "azure_measured_worker_environment (PDict env) backend c j = Inr e"
    and "list_all bound_ok bounds"
  shows "require_azure_measured_worker_for_workload os True bounds (Some e) = Inr backend \<and>
    require_phala_tdx_worker_for_workload os True bounds (Some e) = Inl PhalaTdxWorkerScopeError"
proof -
  note l = azure_environment_lookups [OF assms(1)]
  have "require_azure_measured_worker os c j (Some e) = Inr backend"
    using l by (auto simp: require_azure_Inr Let_def)
  moreover have "is_string c" "is_string j" using l by (auto simp: is_string_def)
  ultimately have a: "require_azure_measured_worker_for_workload os True bounds (Some e) = Inr backend"
    using l assms(2) by (simp add: require_azure_measured_worker_for_workload_def Let_def)
  have "map_of e (lit AZURE_SCOPE_ENV) \<noteq> None" using l by (auto simp: dict_lookup_def split: option.splits)
  then have ov: "overlaps AZURE_ENVIRONMENT_KEYS e"
    by (auto simp: overlaps_def AZURE_ENVIRONMENT_KEYS_def map_of_eq_None_iff)
  then have "\<nexists>x. require_phala_tdx_worker os c' j' (Some e) = Inr x" for c' j'
    using require_phala_Inr [of os c' j' "Some e"] by (auto simp: Let_def)
  moreover have "require_phala_tdx_worker os c' j' (Some e) = Inl x \<Longrightarrow> x = PhalaTdxWorkerScopeError" for c' j' x
    using ov by (auto simp: require_phala_tdx_worker_def ebind_Inl_iff phala_tdx_lower_hex_def split: pyval.splits if_splits)
  ultimately have "require_phala_tdx_worker os c' j' (Some e) = Inl PhalaTdxWorkerScopeError" for c' j'
    by (metis sum.exhaust)
  with a assms(2) show ?thesis by (simp add: require_phala_tdx_worker_for_workload_def Let_def)
qed

lemma azure_environment_demo:
  "\<exists>e. azure_measured_worker_environment (PDict []) (PStr (lit ''azure_sevsnp_cpu'')) (PStr (to_hex 64 1)) (PStr (to_hex 64 2)) = Inr e"
  by (simp add: azure_measured_worker_environment_def overlaps_def value_in_def AZURE_BACKENDS_def lower_hex256_def)

theorem azure_environment_admitted_witness:
  "\<exists>e. require_azure_measured_worker_for_workload [] True [PInt 1000000] (Some e) = Inr (PStr (lit ''azure_sevsnp_cpu''))"
proof -
  obtain e where e: "azure_measured_worker_environment (PDict []) (PStr (lit ''azure_sevsnp_cpu''))
      (PStr (to_hex 64 1)) (PStr (to_hex 64 2)) = Inr e"
    using azure_environment_demo by blast
  from azure_environment_admitted [OF e, of "[PInt 1000000]" "[]"] show ?thesis by (auto simp: bound_ok_def)
qed

text \<open>
  The environment built for a TDX job is accepted by the TDX guard, which returns the backend
  and the bound identities, and rejected by the Azure guard.\<close>

theorem tdx_environment_admitted:
  assumes "phala_tdx_worker_environment (PDict env) backend c j app compose = Inr e"
    and "list_all bound_ok bounds"
  shows "require_phala_tdx_worker_for_workload os True bounds (Some e) =
      Inr (py_dict [(''backend'', backend), (''app_id'', app), (''compose_hash'', compose),
        (''challenge_nonce'', c), (''job_binding'', j)]) \<and>
    require_azure_measured_worker_for_workload os True bounds (Some e) = Inl MeasuredWorkerScopeError"
proof -
  note l = phala_environment_lookups [OF assms(1)]
  from l obtain ch b ap co where s: "c = PStr ch" "j = PStr b" "app = PStr ap" "compose = PStr co"
    "hex_string 64 ch" "hex_string 64 b" "hex_string 40 ap" "hex_string 64 co" by blast
  have "require_phala_tdx_worker os c j (Some e) = Inr (py_dict [(''backend'', backend), (''app_id'', app),
      (''compose_hash'', compose), (''challenge_nonce'', c), (''job_binding'', j)])"
    using l s by (simp add: require_phala_tdx_worker_def phala_tdx_lower_hex_def Let_def)
  moreover have "is_string c" "is_string j" using s by (simp_all add: is_string_def)
  ultimately have a: "require_phala_tdx_worker_for_workload os True bounds (Some e) =
      Inr (py_dict [(''backend'', backend), (''app_id'', app), (''compose_hash'', compose),
        (''challenge_nonce'', c), (''job_binding'', j)])"
    using l assms(2) by (simp add: require_phala_tdx_worker_for_workload_def Let_def)
  have "\<not> overlaps AZURE_ENVIRONMENT_KEYS e" using l by blast
  then have "map_of e (lit AZURE_CHALLENGE_ENV) = None"
    by (auto simp: overlaps_def AZURE_ENVIRONMENT_KEYS_def map_of_eq_None_iff)
  then have "dict_lookup e AZURE_CHALLENGE_ENV = PNone" by (simp add: dict_lookup_def)
  then have "\<not> is_string (dict_lookup e AZURE_CHALLENGE_ENV)" by (simp add: is_string_def)
  with a assms(2) show ?thesis by (simp add: require_azure_measured_worker_for_workload_def Let_def)
qed

lemma tdx_environment_demo:
  "\<exists>e. phala_tdx_worker_environment (PDict []) (PStr (lit ''phala_dstack_tdx_cpu'')) (PStr (to_hex 64 1)) (PStr (to_hex 64 2))
     (PStr (to_hex 40 3)) (PStr (to_hex 64 4)) = Inr e"
  by (simp add: phala_tdx_worker_environment_def overlaps_def value_in_def PHALA_BACKENDS_def phala_tdx_lower_hex_def)

theorem tdx_environment_admitted_witness:
  "\<exists>e. require_azure_measured_worker_for_workload [] True [PInt 1000000] (Some e) = Inl MeasuredWorkerScopeError"
proof -
  obtain e where e: "phala_tdx_worker_environment (PDict []) (PStr (lit ''phala_dstack_tdx_cpu''))
      (PStr (to_hex 64 1)) (PStr (to_hex 64 2)) (PStr (to_hex 40 3)) (PStr (to_hex 64 4)) = Inr e"
    using tdx_environment_demo by blast
  from tdx_environment_admitted [OF e, of "[PInt 1000000]" "[]"] show ?thesis by (auto simp: bound_ok_def)
qed

end
