(* ===== verification/StructCodec.thy ===== *)
theory StructCodec
  imports Sha256
begin

text \<open>
  The parts of Python's \<open>struct\<close>, \<open>int.to_bytes\<close>, \<open>int.from_bytes\<close> and \<open>bytes.hex\<close> that the binary wires
  use, and the contract of a fixed-width field: the locale \<open>field_codec\<close>, interpreted for each width.
\<close>

section \<open>Bytes and numbers\<close>

definition be_value :: "bytes \<Rightarrow> nat" where
  "be_value bs = foldl (\<lambda>acc b. 256 * acc + unat b) 0 bs"

definition le_bytes :: "nat \<Rightarrow> nat \<Rightarrow> bytes" where "le_bytes n x = rev (be_bytes n x)"
definition le_value :: "bytes \<Rightarrow> nat" where "le_value bs = be_value (rev bs)"

text \<open>Two's complement, for the formats \<open>i\<close> and \<open>q\<close>.\<close>

definition le_signed_bytes :: "nat \<Rightarrow> int \<Rightarrow> bytes" where
  "le_signed_bytes n i = le_bytes n (nat (i mod 256 ^ n))"

definition le_signed_value :: "bytes \<Rightarrow> int" where
  "le_signed_value bs =
     (let x = int (le_value bs) in if 2 * x < 256 ^ length bs then x else x - 256 ^ length bs)"

text \<open>\<open>raw[offset : offset + n]\<close>.\<close>

definition field_at :: "nat \<Rightarrow> nat \<Rightarrow> bytes \<Rightarrow> bytes" where
  "field_at offset n raw = take n (drop offset raw)"

definition bytes_hex :: "bytes \<Rightarrow> pystr" where
  "bytes_hex raw = concat (map (\<lambda>b. to_hex 2 (unat b)) raw)"

text \<open>\<open>bytes.fromhex\<close>: pairs of digits of either case, with ASCII white space between the pairs.\<close>

definition any_hex_value :: "nat \<Rightarrow> nat option" where
  "any_hex_value c = (if 48 \<le> c \<and> c \<le> 57 then Some (c - 48) else if 97 \<le> c \<and> c \<le> 102 then Some (c - 87)
     else if 65 \<le> c \<and> c \<le> 70 then Some (c - 55) else None)"

fun fromhex :: "pystr \<Rightarrow> bytes res" where
  "fromhex [] = Inr []"
| "fromhex [c] = (if c = 32 \<or> 9 \<le> c \<and> c \<le> 13 then Inr [] else Inl ValueError)"
| "fromhex (c # d # cs) =
     (if c = 32 \<or> 9 \<le> c \<and> c \<le> 13 then fromhex (d # cs)
      else case (any_hex_value c, any_hex_value d) of
        (Some x, Some y) \<Rightarrow> ebind (fromhex cs) (\<lambda>bs. Inr (of_nat (16 * x + y) # bs))
      | _ \<Rightarrow> Inl ValueError)"

text \<open>\<open>bytes.fromhex\<close> on digits that are known to be lowercase hexadecimal, and
  \<open>hashlib.sha256(m).digest()\<close>: the bytes that its hexadecimal form spells.\<close>

fun bytes_fromhex :: "pystr \<Rightarrow> bytes" where
  "bytes_fromhex (a # b # s) = of_nat (16 * hex_value a + hex_value b) # bytes_fromhex s"
| "bytes_fromhex _ = []"

definition sha256_digest :: "bytes \<Rightarrow> bytes" where
  "sha256_digest m = bytes_fromhex (sha256_hex m)"

section \<open>Their laws\<close>

lemma length_be_bytes [simp]: "length (be_bytes n x) = n"
  by (induction n arbitrary: x) auto

lemma length_le_bytes [simp]: "length (le_bytes n x) = n"
  by (simp add: le_bytes_def)

lemma be_value_append: "be_value (bs @ [b]) = 256 * be_value bs + unat b"
  by (simp add: be_value_def)

lemma byte_less: "unat (b :: 8 word) < 256"
  using unsigned_less [of b, where 'a = nat] by simp

lemma byte_of_nat: "unat (of_nat x :: 8 word) = x mod 256"
  by (simp add: unat_of_nat)

lemma be_value_bytes: "be_value (be_bytes n x) = x mod 256 ^ n"
proof (induction n arbitrary: x)
  case 0
  show ?case by (simp add: be_value_def)
next
  case (Suc n)
  have "256 * (x div 256 mod 256 ^ n) + x mod 256 = x mod (256 * 256 ^ n)" by (simp add: mod_mult2_eq)
  then show ?case by (simp add: be_value_append Suc.IH byte_of_nat)
qed

lemma be_value_less: "be_value bs < 256 ^ length bs"
proof (induction bs rule: rev_induct)
  case Nil
  show ?case by (simp add: be_value_def)
next
  case (snoc b bs)
  have "unat b < 256" using byte_less [of b] by simp
  with snoc show ?case by (simp add: be_value_append)
qed

lemma be_bytes_value: "be_bytes (length bs) (be_value bs) = bs"
proof (induction bs rule: rev_induct)
  case (snoc b bs)
  have b: "unat b < 256" using byte_less [of b] by simp
  then have "(256 * be_value bs + unat b) div 256 = be_value bs" "(256 * be_value bs + unat b) mod 256 = unat b" by simp_all
  with snoc show ?case by (simp add: be_value_append)
qed simp

lemma length_le_signed [simp]: "length (le_signed_bytes n i) = n"
  by (simp add: le_signed_bytes_def)

lemma le_value_bytes: "le_value (le_bytes n x) = x mod 256 ^ n"
  by (simp add: le_value_def le_bytes_def be_value_bytes)

lemma le_bytes_value: "le_bytes (length bs) (le_value bs) = bs"
  using be_bytes_value [of "rev bs"] by (simp add: le_value_def le_bytes_def)

lemma le_value_less: "le_value bs < 256 ^ length bs"
  using be_value_less [of "rev bs"] by (simp add: le_value_def)

section \<open>Fixed-width fields\<close>

text \<open>What a wire needs of a field: a width, and inverse conversions on the values it holds.\<close>

locale field_codec =
  fixes width :: nat and enc :: "'a \<Rightarrow> bytes" and dec :: "bytes \<Rightarrow> 'a" and fits :: "'a \<Rightarrow> bool"
  assumes width: "length (enc x) = width"
    and dec_enc: "fits x \<Longrightarrow> dec (enc x) = x"
    and enc_dec: "length bs = width \<Longrightarrow> enc (dec bs) = bs"
    and dec_fits: "length bs = width \<Longrightarrow> fits (dec bs)"
begin

text \<open>Reading the field back from where it was written.\<close>

lemma read_written: "fits x \<Longrightarrow> length a = offset \<Longrightarrow> dec (field_at offset width (a @ enc x @ b)) = x"
  by (simp add: field_at_def width dec_enc)

text \<open>Writing what was read reproduces the bytes.\<close>

lemma written_read: "offset + width \<le> length raw \<Longrightarrow> enc (dec (field_at offset width raw)) = field_at offset width raw"
  by (simp add: field_at_def enc_dec)

lemma read_fits: "offset + width \<le> length raw \<Longrightarrow> fits (dec (field_at offset width raw))"
  by (simp add: field_at_def dec_fits)

lemma dec_eqD: "length bs = width \<Longrightarrow> length cs = width \<Longrightarrow> dec bs = dec cs \<Longrightarrow> bs = cs"
  by (metis enc_dec)

end

interpretation le_field: field_codec n "le_bytes n" le_value "\<lambda>x. x < 256 ^ n" for n
  by unfold_locales (auto simp: le_value_bytes le_bytes_value le_value_less)

interpretation be_field: field_codec n "be_bytes n" be_value "\<lambda>x. x < 256 ^ n" for n
  by unfold_locales (auto simp: be_value_bytes be_bytes_value be_value_less)

lemma le_signed_bytes_value:
  assumes "length bs = n"
  shows "le_signed_bytes n (le_signed_value bs) = bs"
proof -
  have "int (le_value bs) < 256 ^ n" using le_value_less [of bs] assms by (simp flip: of_nat_less_iff)
  then have "le_signed_value bs mod 256 ^ n = int (le_value bs)" using assms by (simp add: le_signed_value_def Let_def)
  then show ?thesis using le_bytes_value [of bs] assms by (simp add: le_signed_bytes_def)
qed

lemma le_signed_value_bytes:
  assumes "- (256 ^ n) \<le> 2 * i" "2 * i < 256 ^ n"
  shows "le_signed_value (le_signed_bytes n i) = i"
proof -
  have "0 \<le> i mod 256 ^ n" "i mod 256 ^ n < 256 ^ n" by simp_all
  then have x: "int (le_value (le_signed_bytes n i)) = i mod 256 ^ n"
    by (simp add: le_signed_bytes_def le_value_bytes nat_less_iff)
  show ?thesis
  proof (cases "0 \<le> i")
    case True
    then have "i mod 256 ^ n = i" using assms(2) by simp
    with x assms(2) show ?thesis by (simp add: le_signed_value_def le_signed_bytes_def Let_def)
  next
    case False
    then have "i mod 256 ^ n = i + 256 ^ n" using assms(1) by (intro int_mod_pos_eq [of _ _ "- 1"]) auto
    with x assms(1) show ?thesis by (simp add: le_signed_value_def le_signed_bytes_def Let_def)
  qed
qed

lemma le_signed_value_range:
  assumes "length bs = n" "0 < n"
  shows "- (256 ^ n) \<le> 2 * le_signed_value bs" "2 * le_signed_value bs < 256 ^ n"
proof -
  define v where "v = int (le_value bs)"
  define K :: int where "K = 256 ^ n"
  have "v < K" using le_value_less [of bs] assms unfolding v_def K_def by (simp flip: of_nat_less_iff)
  moreover have "0 \<le> v" "0 < K" by (simp_all add: v_def K_def)
  moreover have "le_signed_value bs = (if 2 * v < K then v else v - K)"
    by (simp add: le_signed_value_def Let_def assms(1) v_def K_def)
  ultimately have "- K \<le> 2 * le_signed_value bs \<and> 2 * le_signed_value bs < K" by (simp split: if_splits)
  then show "- (256 ^ n) \<le> 2 * le_signed_value bs" "2 * le_signed_value bs < 256 ^ n" by (simp_all add: K_def)
qed

interpretation signed_field: field_codec "Suc n" "le_signed_bytes (Suc n)" le_signed_value
    "\<lambda>i. - (256 ^ Suc n) \<le> 2 * i \<and> 2 * i < 256 ^ Suc n" for n
proof unfold_locales
  fix bs :: bytes assume bs: "length bs = Suc n"
  show "- (256 ^ Suc n) \<le> 2 * le_signed_value bs \<and> 2 * le_signed_value bs < 256 ^ Suc n"
    using le_signed_value_range [OF bs] by blast
qed (auto simp: le_signed_bytes_value le_signed_value_bytes)

section \<open>Cutting and joining\<close>

lemma length_field_at [simp]: "offset + n \<le> length raw \<Longrightarrow> length (field_at offset n raw) = n"
  by (simp add: field_at_def)

lemma field_split: "drop offset raw = field_at offset n raw @ drop (offset + n) raw"
  by (simp add: field_at_def add.commute flip: drop_drop)

lemma bytes_hex_digits: "hex_string (2 * length raw) (bytes_hex raw)"
proof (induction raw)
  case (Cons b raw)
  have "list_all is_hex_digit (to_hex 2 (unat b))" using to_hex_hex_string [of 2 "unat b"] unfolding hex_string_def by blast
  with Cons show ?case by (simp add: bytes_hex_def hex_string_def)
qed (simp add: bytes_hex_def hex_string_def)

lemma fromhex_pair:
  "is_hex_digit c \<Longrightarrow> is_hex_digit d \<Longrightarrow> fromhex (c # d # cs) = ebind (fromhex cs) (\<lambda>bs. Inr (of_nat (16 * hex_value c + hex_value d) # bs))"
  by (auto simp: is_hex_digit_def any_hex_value_def hex_value_def)

lemma fromhex_hex:
  assumes "hex_string (2 * n) s"
  shows "\<exists>raw. fromhex s = Inr raw \<and> length raw = n \<and> bytes_hex raw = s"
  using assms
proof (induction n arbitrary: s)
  case 0
  then show ?case by (simp add: hex_string_def bytes_hex_def)
next
  case (Suc n)
  then obtain c d cs where s: "s = c # d # cs" and cs: "hex_string (2 * n) cs" and cd: "is_hex_digit c" "is_hex_digit d"
    by (cases s; cases "tl s") (auto simp: hex_string_def)
  from Suc.IH [OF cs] obtain raw where raw: "fromhex cs = Inr raw" "length raw = n" "bytes_hex raw = cs" by blast
  have h: "hex_value c < 16" "hex_value d < 16" using cd by (auto intro: hex_value_less)
  define b :: "8 word" where "b = of_nat (16 * hex_value c + hex_value d)"
  have "unat b = 16 * hex_value c + hex_value d" using h unfolding b_def byte_of_nat by simp
  then have "to_hex 2 (unat b) = [c, d]" using h cd by (simp add: numeral_2_eq_2)
  moreover have "fromhex s = Inr (b # raw)" using raw(1) by (simp only: s fromhex_pair [OF cd] ebind.simps b_def)
  ultimately show ?case using raw by (simp add: s bytes_hex_def)
qed

section \<open>Hexadecimal digests\<close>

lemma hex_pair:
  assumes "is_hex_digit a" "is_hex_digit b"
  shows "to_hex 2 (16 * hex_value a + hex_value b) = [a, b]"
proof -
  have v: "hex_value a < 16" "hex_value b < 16" using assms hex_value_less by auto
  then have "(16 * hex_value a + hex_value b) div 16 = hex_value a" "(16 * hex_value a + hex_value b) mod 16 = hex_value b"
    by auto
  then show ?thesis using v assms by (simp add: numeral_2_eq_2)
qed

lemma hex_of_fromhex: "list_all is_hex_digit s \<Longrightarrow> even (length s) \<Longrightarrow> bytes_hex (bytes_fromhex s) = s"
proof (induction s rule: bytes_fromhex.induct)
  case (1 a b s)
  then have d: "is_hex_digit a" "is_hex_digit b" by auto
  have "16 * hex_value a + hex_value b < 256"
    using hex_value_less [OF d(1)] hex_value_less [OF d(2)] by simp
  then have "unat (of_nat (16 * hex_value a + hex_value b) :: 8 word) = 16 * hex_value a + hex_value b"
    by (simp add: unat_of_nat del: of_nat_add of_nat_mult)
  then show ?case using 1 hex_pair [OF d] by (simp add: bytes_hex_def del: of_nat_add of_nat_mult)
qed (auto simp: bytes_hex_def)

lemma length_fromhex: "length (bytes_fromhex s) = length s div 2"
  by (induction s rule: bytes_fromhex.induct) auto

lemma length_sha256_digest [simp]: "length (sha256_digest m) = 32"
  by (simp add: sha256_digest_def length_fromhex)

lemma digest_hex [simp]: "bytes_hex (sha256_digest m) = sha256_hex m"
proof -
  have "list_all is_hex_digit (sha256_hex m)" using sha256_hex_string [of m] unfolding hex_string_def by blast
  then show ?thesis by (simp add: sha256_digest_def hex_of_fromhex)
qed

lemma digest_collision: "sha256_digest m = sha256_digest k \<Longrightarrow> m = k \<or> sha_collision m k"
  by (metis digest_hex sha_collision_def)

lemma fromhex_inj: "hex_string 64 s \<Longrightarrow> hex_string 64 t \<Longrightarrow> bytes_fromhex s = bytes_fromhex t \<Longrightarrow> s = t"
proof -
  assume h: "hex_string 64 s" "hex_string 64 t" and e: "bytes_fromhex s = bytes_fromhex t"
  have "bytes_hex (bytes_fromhex s) = s" "bytes_hex (bytes_fromhex t) = t"
    using h by (auto intro!: hex_of_fromhex simp: hex_string_def)
  with e show "s = t" by metis
qed

lemma bytes_fromhex_hex: "bytes_fromhex (bytes_hex bs) = bs"
proof (induction bs)
  case (Cons b bs)
  have "from_hex (to_hex 2 (unat b)) = unat b"
    using unsigned_less [of b, where ?'a = nat] by (simp add: from_hex_to_hex)
  moreover obtain p q where "to_hex 2 (unat b) = [p, q]"
    by (simp add: numeral_2_eq_2)
  ultimately have "to_hex 2 (unat b) = [p, q]" "of_nat (16 * hex_value p + hex_value q) = b"
    by (simp_all add: from_hex_def)
  with Cons show ?case by (simp add: bytes_hex_def)
qed (simp add: bytes_hex_def)

lemma bytes_hex_inj: "bytes_hex as = bytes_hex bs \<Longrightarrow> as = bs"
  by (metis bytes_fromhex_hex)

end
