(* ===== verification/AffineGuard.thy ===== *)
theory AffineGuard
  imports CampaignIO StructCodec
begin

text \<open>
  Model of \<open>tg_verifier/affine_guard_certificate.py\<close>: affine guarded transitions and their
  composition, the exclusive scan, fixed shard plans, leaves with tight witnesses, the
  domain-separated Merkle commitments and the certificate verifier.  Each dataclass is a record and
  its \<open>__post_init__\<close> the constructor \<open>mk_...\<close>; a vector is an integer list.  Fields are typed, so
  the \<open>isinstance\<close> checks of the constructors appear where untyped values enter, in the
  \<open>from_dict\<close> functions.
\<close>

abbreviation AffineError :: exc where
  "AffineError \<equiv> AffineGuardCertificateError"

section \<open>Value checks\<close>

definition require_minimum :: "int \<Rightarrow> int \<Rightarrow> int res" where
  "require_minimum minimum value = (if value < minimum then Inl AffineError else Inr value)"

definition require_int :: "pyval \<Rightarrow> int res" where
  "require_int value = (case value of PInt i \<Rightarrow> Inr i | _ \<Rightarrow> Inl AffineError)"

definition require_label :: "pystr \<Rightarrow> pystr res" where
  "require_label value =
     (if value = [] then Inl AffineError
      else if list_ex (\<lambda>c. c < 0x20) value then Inl AffineError
      else Inr value)"

definition require_sha256 :: "pystr \<Rightarrow> pystr res" where
  "require_sha256 value = (if \<not> hex_string 64 value then Inl AffineError else Inr value)"

definition require_str :: "pyval \<Rightarrow> pystr res" where
  "require_str value = (case value of PStr s \<Rightarrow> Inr s | _ \<Rightarrow> Inl AffineError)"

definition require_vector :: "int list \<Rightarrow> int list res" where
  "require_vector value = (if value = [] then Inl AffineError else Inr value)"

definition require_list :: "pyval \<Rightarrow> pyval list res" where
  "require_list value = (case value of PList vs \<Rightarrow> Inr vs | _ \<Rightarrow> Inl AffineError)"

definition require_vector_value :: "pyval \<Rightarrow> int list res" where
  "require_vector_value value = ebind (require_list value) (\<lambda>vs. ebind (map_res require_int vs) require_vector)"

definition require_object_keys :: "pyval \<Rightarrow> string list \<Rightarrow> (pystr \<times> pyval) list res" where
  "require_object_keys value required = (case value of
      PDict d \<Rightarrow> if set (map fst d) \<noteq> set (map lit required) then Inl AffineError else Inr d
    | _ \<Rightarrow> Inl AffineError)"

definition hash_json :: "bytes \<Rightarrow> pyval \<Rightarrow> pystr res" where
  "hash_json domain value = ebind (campaign_json_bytes value) (\<lambda>raw. Inr (sha256_hex (domain @ raw)))"

section \<open>Transitions\<close>

record transition =
  tr_delta :: "int list"
  tr_lower :: "int list"
  tr_upper :: "int list"

definition mk_transition :: "int list \<Rightarrow> int list \<Rightarrow> int list \<Rightarrow> transition res" where
  "mk_transition delta lower upper =
     ebind (require_vector delta) (\<lambda>_. ebind (require_vector lower) (\<lambda>_. ebind (require_vector upper) (\<lambda>_.
       if length lower \<noteq> length delta \<or> length upper \<noteq> length delta then Inl AffineError
       else if list_ex (\<lambda>(lo, hi). lo > hi) (zip lower upper) then Inl AffineError
       else Inr \<lparr>tr_delta = delta, tr_lower = lower, tr_upper = upper\<rparr>)))"

definition tr_dimension :: "transition \<Rightarrow> nat" where
  "tr_dimension t = length (tr_delta t)"

definition tr_accepts :: "transition \<Rightarrow> int list \<Rightarrow> bool res" where
  "tr_accepts t state = ebind (require_vector state) (\<lambda>candidate.
     if length candidate \<noteq> tr_dimension t then Inl AffineError
     else Inr (list_all (\<lambda>(value, lo, hi). lo \<le> value \<and> value \<le> hi) (zip candidate (zip (tr_lower t) (tr_upper t)))))"

definition tr_apply :: "transition \<Rightarrow> int list \<Rightarrow> int list res" where
  "tr_apply t state = ebind (require_vector state) (\<lambda>candidate.
     if length candidate \<noteq> tr_dimension t then Inl AffineError
     else ebind (tr_accepts t candidate) (\<lambda>ok.
       if \<not> ok then Inl AffineError
       else Inr (map2 (+) candidate (tr_delta t))))"

definition int_list_value :: "int list \<Rightarrow> pyval" where
  "int_list_value xs = PList (map PInt xs)"

definition tr_to_dict :: "transition \<Rightarrow> pyval" where
  "tr_to_dict t = py_dict [(''delta'', int_list_value (tr_delta t)),
     (''lower_guard'', int_list_value (tr_lower t)), (''upper_guard'', int_list_value (tr_upper t))]"

definition tr_from_dict :: "pyval \<Rightarrow> transition res" where
  "tr_from_dict value = ebind (require_object_keys value [''delta'', ''lower_guard'', ''upper_guard'']) (\<lambda>item.
     ebind (ebind (dict_get item ''delta'') require_vector_value) (\<lambda>delta.
     ebind (ebind (dict_get item ''lower_guard'') require_vector_value) (\<lambda>lower.
     ebind (ebind (dict_get item ''upper_guard'') require_vector_value) (\<lambda>upper.
       mk_transition delta lower upper))))"

definition compose_affine_guards :: "transition \<Rightarrow> transition \<Rightarrow> transition res" where
  "compose_affine_guards first second =
     (if tr_dimension first \<noteq> tr_dimension second then Inl AffineError
      else catch_as (\<lambda>e. e = AffineError) AffineError
        (mk_transition (map2 (+) (tr_delta first) (tr_delta second))
          (map (\<lambda>(left, right, change). max left (right - change)) (zip (tr_lower first) (zip (tr_lower second) (tr_delta first))))
          (map (\<lambda>(left, right, change). min left (right - change)) (zip (tr_upper first) (zip (tr_upper second) (tr_delta first))))))"

section \<open>The exclusive scan\<close>

record scan_result =
  sc_incoming :: "int list list"
  sc_final :: "int list"
  sc_aggregate :: "transition option"

text \<open>The loop, with the list of incoming states, the current state and the aggregate.\<close>

fun scan_loop :: "nat \<Rightarrow> transition list \<Rightarrow> int list list \<Rightarrow> int list \<Rightarrow> transition option \<Rightarrow> scan_result res" where
  "scan_loop dims [] incoming current aggregate =
     Inr \<lparr>sc_incoming = incoming, sc_final = current, sc_aggregate = aggregate\<rparr>"
| "scan_loop dims (t # ts) incoming current aggregate =
     (if tr_dimension t \<noteq> dims then Inl AffineError
      else ebind (tr_accepts t current) (\<lambda>ok.
        if \<not> ok then Inl AffineError
        else ebind (tr_apply t current) (\<lambda>next_state.
          ebind (case aggregate of None \<Rightarrow> Inr t | Some a \<Rightarrow> compose_affine_guards a t) (\<lambda>agg.
            scan_loop dims ts (incoming @ [current]) next_state (Some agg)))))"

definition exclusive_scan_from_root :: "int list \<Rightarrow> transition list \<Rightarrow> scan_result res" where
  "exclusive_scan_from_root root_state transitions = ebind (require_vector root_state) (\<lambda>root.
     ebind (scan_loop (length root) transitions [] root None) (\<lambda>r.
       case sc_aggregate r of None \<Rightarrow> Inr r
       | Some aggregate \<Rightarrow>
           ebind (tr_accepts aggregate root) (\<lambda>ok. if \<not> ok then Inl AffineError
           else ebind (tr_apply aggregate root) (\<lambda>final.
             if final \<noteq> sc_final r then Inl AffineError else Inr r))))"

section \<open>Shard plans\<close>

record shard_range =
  sh_index :: int
  sh_lower :: int
  sh_upper :: int
  sh_work_count :: int

definition mk_shard_range :: "int \<Rightarrow> int \<Rightarrow> int \<Rightarrow> int \<Rightarrow> shard_range res" where
  "mk_shard_range index lower upper work_count =
     ebind (require_minimum 0 index) (\<lambda>_. ebind (require_minimum 1 work_count) (\<lambda>_.
       if lower \<ge> upper then Inl AffineError
       else if work_count \<noteq> upper - lower then Inl AffineError
       else Inr \<lparr>sh_index = index, sh_lower = lower, sh_upper = upper, sh_work_count = work_count\<rparr>))"

definition shard_to_dict :: "shard_range \<Rightarrow> pyval" where
  "shard_to_dict s = py_dict [(''index'', PInt (sh_index s)), (''lower'', PInt (sh_lower s)),
     (''upper'', PInt (sh_upper s)), (''work_count'', PInt (sh_work_count s))]"

definition shard_from_dict :: "pyval \<Rightarrow> shard_range res" where
  "shard_from_dict value = ebind (require_object_keys value [''index'', ''lower'', ''upper'', ''work_count'']) (\<lambda>item.
     ebind (ebind (dict_get item ''index'') require_int) (\<lambda>index.
     ebind (ebind (dict_get item ''lower'') require_int) (\<lambda>lower.
     ebind (ebind (dict_get item ''upper'') require_int) (\<lambda>upper.
     ebind (ebind (dict_get item ''work_count'') require_int) (\<lambda>work_count.
       mk_shard_range index lower upper work_count)))))"

record shard_plan =
  pl_algorithm :: pystr
  pl_dimension :: int
  pl_lower :: int
  pl_upper :: int
  pl_shards :: "shard_range list"

text \<open>The loop over the shards; the result is the endpoint after the last one.\<close>

fun check_shards :: "int \<Rightarrow> int \<Rightarrow> shard_range list \<Rightarrow> int res" where
  "check_shards expected_index expected_lower [] = Inr expected_lower"
| "check_shards expected_index expected_lower (s # shards) =
     (if sh_index s \<noteq> expected_index then Inl AffineError
      else if sh_lower s > expected_lower then Inl AffineError
      else if sh_lower s < expected_lower then Inl AffineError
      else check_shards (expected_index + 1) (sh_upper s) shards)"

definition mk_plan :: "pystr \<Rightarrow> int \<Rightarrow> int \<Rightarrow> int \<Rightarrow> shard_range list \<Rightarrow> shard_plan res" where
  "mk_plan algorithm dimension domain_lower domain_upper shards =
     ebind (require_label algorithm) (\<lambda>_. ebind (require_minimum 1 dimension) (\<lambda>_.
       if domain_lower \<ge> domain_upper then Inl AffineError
       else if shards = [] then Inl AffineError
       else if \<not> distinct (map sh_index shards) then Inl AffineError
       else if \<not> distinct (map (\<lambda>s. (sh_lower s, sh_upper s)) shards) then Inl AffineError
       else ebind (check_shards 0 domain_lower shards) (\<lambda>expected_lower.
         if expected_lower < domain_upper then Inl AffineError
         else if expected_lower > domain_upper then Inl AffineError
         else Inr \<lparr>pl_algorithm = algorithm, pl_dimension = dimension, pl_lower = domain_lower,
           pl_upper = domain_upper, pl_shards = shards\<rparr>)))"

definition plan_from_ranges :: "pystr \<Rightarrow> int \<Rightarrow> (int \<times> int) list \<Rightarrow> shard_plan res" where
  "plan_from_ranges algorithm dimension ranges =
     (if ranges = [] then Inl AffineError
      else ebind (map_res (\<lambda>(index, lower, upper). mk_shard_range (int index) lower upper (upper - lower))
          (zip [0..<length ranges] ranges)) (\<lambda>shards.
        mk_plan algorithm dimension (sh_lower (hd shards)) (sh_upper (last shards)) shards))"

definition PLAN_SCHEMA :: pystr where "PLAN_SCHEMA = lit ''sparkinterval.affine-guard-plan.v1''"
definition LEAF_SCHEMA :: pystr where "LEAF_SCHEMA = lit ''sparkinterval.affine-guard-leaf.v1''"
definition CERTIFICATE_SCHEMA :: pystr where "CERTIFICATE_SCHEMA = lit ''sparkinterval.affine-guard-certificate.v1''"

text \<open>The domain prefixes, each closed by a zero byte.\<close>

definition affine_domain :: "string \<Rightarrow> bytes" where
  "affine_domain name = bytes_lit (''sparkinterval/affine-guard/'' @ name) @ [0]"

definition PLAN_DOMAIN :: bytes where "PLAN_DOMAIN = affine_domain ''plan/v1''"
definition LEAF_DOMAIN :: bytes where "LEAF_DOMAIN = affine_domain ''leaf/v1''"
definition MERKLE_NODE_DOMAIN :: bytes where "MERKLE_NODE_DOMAIN = affine_domain ''merkle-node/v1''"
definition MERKLE_ODD_DOMAIN :: bytes where "MERKLE_ODD_DOMAIN = affine_domain ''merkle-odd/v1''"
definition MERKLE_EMPTY_DOMAIN :: bytes where "MERKLE_EMPTY_DOMAIN = affine_domain ''merkle-empty/v1''"
definition CERTIFICATE_ROOT_DOMAIN :: bytes where "CERTIFICATE_ROOT_DOMAIN = affine_domain ''certificate-root/v1''"
definition EXCEPTION_LEAF_DOMAIN :: bytes where "EXCEPTION_LEAF_DOMAIN = affine_domain ''exception-leaf/v1''"
definition EXCEPTION_NODE_DOMAIN :: bytes where "EXCEPTION_NODE_DOMAIN = affine_domain ''exception-node/v1''"
definition EXCEPTION_ODD_DOMAIN :: bytes where "EXCEPTION_ODD_DOMAIN = affine_domain ''exception-odd/v1''"
definition EXCEPTION_EMPTY_DOMAIN :: bytes where "EXCEPTION_EMPTY_DOMAIN = affine_domain ''exception-empty/v1''"

definition plan_to_dict :: "shard_plan \<Rightarrow> pyval" where
  "plan_to_dict p = py_dict [(''plan_schema'', PStr PLAN_SCHEMA), (''algorithm'', PStr (pl_algorithm p)),
     (''state_dimension'', PInt (pl_dimension p)),
     (''domain'', py_dict [(''lower'', PInt (pl_lower p)), (''upper'', PInt (pl_upper p))]),
     (''shards'', PList (map shard_to_dict (pl_shards p)))]"

definition plan_sha256 :: "shard_plan \<Rightarrow> pystr res" where
  "plan_sha256 p = hash_json PLAN_DOMAIN (plan_to_dict p)"

definition plan_from_dict :: "pyval \<Rightarrow> shard_plan res" where
  "plan_from_dict value =
     ebind (require_object_keys value [''plan_schema'', ''algorithm'', ''state_dimension'', ''domain'', ''shards'']) (\<lambda>item.
     ebind (dict_get item ''plan_schema'') (\<lambda>schema.
       if schema \<noteq> PStr PLAN_SCHEMA then Inl AffineError
       else
     ebind (ebind (dict_get item ''domain'') (\<lambda>v. require_object_keys v [''lower'', ''upper''])) (\<lambda>domain.
     ebind (ebind (dict_get item ''shards'') require_list) (\<lambda>raw_shards.
     ebind (map_res shard_from_dict raw_shards) (\<lambda>shards.
     ebind (ebind (dict_get item ''algorithm'') require_str) (\<lambda>algorithm.
     ebind (ebind (dict_get item ''state_dimension'') require_int) (\<lambda>dimension.
     ebind (ebind (dict_get domain ''lower'') require_int) (\<lambda>lower.
     ebind (ebind (dict_get domain ''upper'') require_int) (\<lambda>upper.
       mk_plan algorithm dimension lower upper shards)))))))))"

section \<open>Tight witnesses and leaves\<close>

record tight_witness =
  tw_row_index :: int
  tw_prefix_delta :: int
  tw_row_guard :: int

definition derived_guard :: "tight_witness \<Rightarrow> int" where
  "derived_guard w = tw_row_guard w - tw_prefix_delta w"

definition witness_to_dict :: "tight_witness \<Rightarrow> pyval" where
  "witness_to_dict w = py_dict [(''row_index'', PInt (tw_row_index w)),
     (''prefix_delta'', PInt (tw_prefix_delta w)), (''row_guard'', PInt (tw_row_guard w))]"

definition witness_from_dict :: "pyval \<Rightarrow> tight_witness res" where
  "witness_from_dict value = ebind (require_object_keys value [''row_index'', ''prefix_delta'', ''row_guard'']) (\<lambda>item.
     ebind (ebind (dict_get item ''row_index'') require_int) (\<lambda>row_index.
     ebind (ebind (dict_get item ''prefix_delta'') require_int) (\<lambda>prefix_delta.
     ebind (ebind (dict_get item ''row_guard'') require_int) (\<lambda>row_guard.
       Inr \<lparr>tw_row_index = row_index, tw_prefix_delta = prefix_delta, tw_row_guard = row_guard\<rparr>))))"

record leaf =
  lf_plan_sha256 :: pystr
  lf_shard_index :: int
  lf_lower :: int
  lf_upper :: int
  lf_work_count :: int
  lf_row_root :: pystr
  lf_transition :: transition
  lf_lower_witnesses :: "tight_witness list"
  lf_upper_witnesses :: "tight_witness list"
  lf_exception_root :: pystr

text \<open>One side of the witness loop of \<open>AffineGuardLeaf.__post_init__\<close>.\<close>

definition witnesses_tight :: "int \<Rightarrow> int \<Rightarrow> tight_witness list \<Rightarrow> int list \<Rightarrow> bool" where
  "witnesses_tight lower upper witnesses guards \<longleftrightarrow>
     list_all (\<lambda>(w, g). lower \<le> tw_row_index w \<and> tw_row_index w < upper \<and> derived_guard w = g) (zip witnesses guards)"

definition mk_leaf :: "leaf \<Rightarrow> leaf res" where
  "mk_leaf l =
     ebind (require_sha256 (lf_plan_sha256 l)) (\<lambda>_.
     ebind (require_minimum 0 (lf_shard_index l)) (\<lambda>_.
     ebind (require_minimum 1 (lf_work_count l)) (\<lambda>_.
       if lf_lower l \<ge> lf_upper l then Inl AffineError
       else if lf_work_count l \<noteq> lf_upper l - lf_lower l then Inl AffineError
       else
     ebind (require_sha256 (lf_row_root l)) (\<lambda>_.
     ebind (require_sha256 (lf_exception_root l)) (\<lambda>_.
       if length (lf_lower_witnesses l) \<noteq> tr_dimension (lf_transition l)
          \<or> length (lf_upper_witnesses l) \<noteq> tr_dimension (lf_transition l) then Inl AffineError
       else if \<not> witnesses_tight (lf_lower l) (lf_upper l) (lf_lower_witnesses l) (tr_lower (lf_transition l)) then Inl AffineError
       else if \<not> witnesses_tight (lf_lower l) (lf_upper l) (lf_upper_witnesses l) (tr_upper (lf_transition l)) then Inl AffineError
       else Inr l)))))"

definition leaf_validate_against :: "leaf \<Rightarrow> shard_plan \<Rightarrow> unit res" where
  "leaf_validate_against l plan = ebind (plan_sha256 plan) (\<lambda>sha.
     if lf_plan_sha256 l \<noteq> sha then Inl AffineError
     else if lf_shard_index l \<ge> int (length (pl_shards plan)) then Inl AffineError
     else ebind (py_index (pl_shards plan) (lf_shard_index l)) (\<lambda>expected.
       if (lf_shard_index l, lf_lower l, lf_upper l, lf_work_count l)
          \<noteq> (sh_index expected, sh_lower expected, sh_upper expected, sh_work_count expected) then Inl AffineError
       else if int (tr_dimension (lf_transition l)) \<noteq> pl_dimension plan then Inl AffineError
       else Inr ()))"

definition leaf_to_dict :: "leaf \<Rightarrow> pyval" where
  "leaf_to_dict l = py_dict [(''leaf_schema'', PStr LEAF_SCHEMA), (''plan_sha256'', PStr (lf_plan_sha256 l)),
     (''shard'', py_dict [(''index'', PInt (lf_shard_index l)), (''lower'', PInt (lf_lower l)),
        (''upper'', PInt (lf_upper l)), (''work_count'', PInt (lf_work_count l))]),
     (''row_root_sha256'', PStr (lf_row_root l)), (''transition'', tr_to_dict (lf_transition l)),
     (''tight_witnesses'', py_dict [(''lower'', PList (map witness_to_dict (lf_lower_witnesses l))),
        (''upper'', PList (map witness_to_dict (lf_upper_witnesses l)))]),
     (''exception_root_sha256'', PStr (lf_exception_root l))]"

definition leaf_sha256 :: "leaf \<Rightarrow> pystr res" where
  "leaf_sha256 l = hash_json LEAF_DOMAIN (leaf_to_dict l)"

definition leaf_from_dict :: "pyval \<Rightarrow> leaf res" where
  "leaf_from_dict value =
     ebind (require_object_keys value [''leaf_schema'', ''plan_sha256'', ''shard'', ''row_root_sha256'',
       ''transition'', ''tight_witnesses'', ''exception_root_sha256'']) (\<lambda>item.
     ebind (dict_get item ''leaf_schema'') (\<lambda>schema.
       if schema \<noteq> PStr LEAF_SCHEMA then Inl AffineError
       else
     ebind (ebind (dict_get item ''shard'') (\<lambda>v. require_object_keys v [''index'', ''lower'', ''upper'', ''work_count''])) (\<lambda>shard.
     ebind (ebind (dict_get item ''tight_witnesses'') (\<lambda>v. require_object_keys v [''lower'', ''upper''])) (\<lambda>witnesses.
     ebind (ebind (dict_get witnesses ''lower'') require_list) (\<lambda>lower_raw.
     ebind (ebind (dict_get witnesses ''upper'') require_list) (\<lambda>upper_raw.
     ebind (ebind (dict_get item ''transition'') tr_from_dict) (\<lambda>t.
     ebind (map_res witness_from_dict lower_raw) (\<lambda>lower_witnesses.
     ebind (map_res witness_from_dict upper_raw) (\<lambda>upper_witnesses.
     ebind (ebind (dict_get item ''plan_sha256'') require_str) (\<lambda>plan_sha.
     ebind (ebind (dict_get shard ''index'') require_int) (\<lambda>index.
     ebind (ebind (dict_get shard ''lower'') require_int) (\<lambda>lower.
     ebind (ebind (dict_get shard ''upper'') require_int) (\<lambda>upper.
     ebind (ebind (dict_get shard ''work_count'') require_int) (\<lambda>work_count.
     ebind (ebind (dict_get item ''row_root_sha256'') require_str) (\<lambda>row_root.
     ebind (ebind (dict_get item ''exception_root_sha256'') require_str) (\<lambda>exception_root.
       mk_leaf \<lparr>lf_plan_sha256 = plan_sha, lf_shard_index = index, lf_lower = lower, lf_upper = upper,
         lf_work_count = work_count, lf_row_root = row_root, lf_transition = t,
         lf_lower_witnesses = lower_witnesses, lf_upper_witnesses = upper_witnesses,
         lf_exception_root = exception_root\<rparr>))))))))))))))))"

definition make_affine_guard_leaf ::
  "shard_plan \<Rightarrow> int \<Rightarrow> pystr \<Rightarrow> transition \<Rightarrow> tight_witness list \<Rightarrow> tight_witness list \<Rightarrow> pystr \<Rightarrow> leaf res" where
  "make_affine_guard_leaf plan shard_index row_root t lower_witnesses upper_witnesses exception_root =
     ebind (require_minimum 0 shard_index) (\<lambda>index.
       if index \<ge> int (length (pl_shards plan)) then Inl AffineError
       else ebind (py_index (pl_shards plan) index) (\<lambda>shard.
         ebind (plan_sha256 plan) (\<lambda>sha.
         ebind (mk_leaf \<lparr>lf_plan_sha256 = sha, lf_shard_index = index, lf_lower = sh_lower shard,
           lf_upper = sh_upper shard, lf_work_count = sh_work_count shard, lf_row_root = row_root,
           lf_transition = t, lf_lower_witnesses = lower_witnesses, lf_upper_witnesses = upper_witnesses,
           lf_exception_root = exception_root\<rparr>) (\<lambda>l.
         ebind (leaf_validate_against l plan) (\<lambda>_. Inr l)))))"

section \<open>Merkle commitments\<close>

text \<open>One pass of the inner loop, and the outer loop until one digest is left.\<close>

fun merkle_level :: "bytes \<Rightarrow> bytes \<Rightarrow> bytes list \<Rightarrow> bytes list" where
  "merkle_level node_domain odd_domain [] = []"
| "merkle_level node_domain odd_domain [left] = [sha256_digest (odd_domain @ left)]"
| "merkle_level node_domain odd_domain (left # right # rest) =
     sha256_digest (node_domain @ left @ right) # merkle_level node_domain odd_domain rest"

lemma length_merkle_level [simp]: "length (merkle_level n d xs) = (length xs + 1) div 2"
  by (induction n d xs rule: merkle_level.induct) auto

function merkle_loop :: "bytes \<Rightarrow> bytes \<Rightarrow> bytes list \<Rightarrow> bytes list" where
  "merkle_loop node_domain odd_domain level =
     (if length level > 1 then merkle_loop node_domain odd_domain (merkle_level node_domain odd_domain level)
      else level)"
  by pat_completeness auto
termination
  by (relation "measure (\<lambda>(_, _, level). length level)") auto

declare merkle_loop.simps [simp del]

definition merkle_reduce :: "pystr list \<Rightarrow> bytes \<Rightarrow> bytes \<Rightarrow> bytes \<Rightarrow> pystr res" where
  "merkle_reduce digests node_domain odd_domain empty_domain =
     ebind (map_res require_sha256 digests) (\<lambda>_.
       if digests = [] then Inr (sha256_hex empty_domain)
       else ebind (py_index (merkle_loop node_domain odd_domain (map bytes_fromhex digests)) 0) (\<lambda>root.
         Inr (bytes_hex root)))"

definition affine_guard_leaf_merkle_root :: "leaf list \<Rightarrow> pystr res" where
  "affine_guard_leaf_merkle_root leaves = ebind (map_res leaf_sha256 leaves) (\<lambda>digests.
     merkle_reduce digests MERKLE_NODE_DOMAIN MERKLE_ODD_DOMAIN MERKLE_EMPTY_DOMAIN)"

definition exception_merkle_root :: "pyval list \<Rightarrow> pystr res" where
  "exception_merkle_root exceptions = ebind (map_res (hash_json EXCEPTION_LEAF_DOMAIN) exceptions) (\<lambda>digests.
     merkle_reduce digests EXCEPTION_NODE_DOMAIN EXCEPTION_ODD_DOMAIN EXCEPTION_EMPTY_DOMAIN)"

section \<open>The certificate\<close>

record verification =
  vf_plan_sha256 :: pystr
  vf_root_state :: "int list"
  vf_incoming_states :: "int list list"
  vf_final_state :: "int list"
  vf_aggregate :: transition
  vf_leaf_merkle_root :: pystr
  vf_certificate_root :: pystr

definition certificate_payload :: "pystr \<Rightarrow> int list \<Rightarrow> int list \<Rightarrow> nat \<Rightarrow> pystr \<Rightarrow> pyval" where
  "certificate_payload plan_sha initial final leaf_count leaf_root = py_dict
     [(''certificate_schema'', PStr CERTIFICATE_SCHEMA), (''plan_sha256'', PStr plan_sha),
      (''root_state'', int_list_value initial), (''final_state'', int_list_value final),
      (''leaf_count'', PInt (int leaf_count)), (''leaf_merkle_root_sha256'', PStr leaf_root)]"

definition verification_to_dict :: "verification \<Rightarrow> pyval" where
  "verification_to_dict v = py_dict
     [(''certificate_schema'', PStr CERTIFICATE_SCHEMA), (''plan_sha256'', PStr (vf_plan_sha256 v)),
      (''root_state'', int_list_value (vf_root_state v)), (''final_state'', int_list_value (vf_final_state v)),
      (''leaf_count'', PInt (int (length (vf_incoming_states v)))),
      (''leaf_merkle_root_sha256'', PStr (vf_leaf_merkle_root v)),
      (''certificate_root_sha256'', PStr (vf_certificate_root v))]"

text \<open>The loop over the leaves: the expected index, then the binding to the plan.\<close>

fun check_leaves :: "shard_plan \<Rightarrow> int \<Rightarrow> leaf list \<Rightarrow> unit res" where
  "check_leaves plan expected_index [] = Inr ()"
| "check_leaves plan expected_index (l # leaves) =
     (if lf_shard_index l \<noteq> expected_index then Inl AffineError
      else ebind (leaf_validate_against l plan) (\<lambda>_. check_leaves plan (expected_index + 1) leaves))"

definition verify_affine_guard_certificate ::
  "shard_plan \<Rightarrow> int list \<Rightarrow> leaf list \<Rightarrow> pystr option \<Rightarrow> verification res" where
  "verify_affine_guard_certificate plan root_state leaves expected_root =
     ebind (require_vector root_state) (\<lambda>root.
       if int (length root) \<noteq> pl_dimension plan then Inl AffineError
       else if \<not> distinct (map lf_shard_index leaves) then Inl AffineError
       else if \<not> distinct (map (\<lambda>l. (lf_lower l, lf_upper l)) leaves) then Inl AffineError
       else if length leaves \<noteq> length (pl_shards plan) then Inl AffineError
       else
     ebind (check_leaves plan 0 leaves) (\<lambda>_.
     ebind (exclusive_scan_from_root root (map lf_transition leaves)) (\<lambda>scan.
       case sc_aggregate scan of None \<Rightarrow> Inl AffineError | Some aggregate \<Rightarrow>
     ebind (affine_guard_leaf_merkle_root leaves) (\<lambda>leaf_root.
     ebind (plan_sha256 plan) (\<lambda>plan_sha.
     ebind (hash_json CERTIFICATE_ROOT_DOMAIN
       (certificate_payload plan_sha root (sc_final scan) (length leaves) leaf_root)) (\<lambda>certificate_root.
     ebind (case expected_root of None \<Rightarrow> Inr ()
        | Some expected \<Rightarrow> ebind (require_sha256 expected) (\<lambda>e.
            if certificate_root \<noteq> e then Inl AffineError else Inr ())) (\<lambda>_.
       Inr \<lparr>vf_plan_sha256 = plan_sha, vf_root_state = root, vf_incoming_states = sc_incoming scan,
         vf_final_state = sc_final scan, vf_aggregate = aggregate, vf_leaf_merkle_root = leaf_root,
         vf_certificate_root = certificate_root\<rparr>)))))))"

end
