(* ===== verification/AffineGuard_Sound.thy ===== *)
theory AffineGuard_Sound
  imports AffineGuard
begin

text \<open>
  The algebra of guarded transitions, the exclusive scan against running the shards one after the
  other, the tiling of the work domain by an accepted plan, the round trips of the wire forms, and
  the binding of plan, root state and leaves by the certificate root.
\<close>

section \<open>Transitions\<close>

definition wf_transition :: "transition \<Rightarrow> bool" where
  "wf_transition t \<longleftrightarrow> tr_delta t \<noteq> [] \<and> length (tr_lower t) = length (tr_delta t) \<and>
     length (tr_upper t) = length (tr_delta t) \<and> (\<forall>i < length (tr_delta t). tr_lower t ! i \<le> tr_upper t ! i)"

definition admits :: "transition \<Rightarrow> int list \<Rightarrow> bool" where
  "admits t s \<longleftrightarrow> (\<forall>i < tr_dimension t. tr_lower t ! i \<le> s ! i \<and> s ! i \<le> tr_upper t ! i)"

definition shift :: "transition \<Rightarrow> int list \<Rightarrow> int list" where
  "shift t s = map2 (+) s (tr_delta t)"

lemma list_ex_zip: "length xs = length ys \<Longrightarrow> list_ex (\<lambda>(x, y). P x y) (zip xs ys) \<longleftrightarrow> (\<exists>i < length xs. P (xs ! i) (ys ! i))"
  by (auto simp: list_ex_iff set_zip)

lemma list_all_zip3: "length ys = length xs \<Longrightarrow> length zs = length xs \<Longrightarrow>
    list_all (\<lambda>(x, y, z). P x y z) (zip xs (zip ys zs)) \<longleftrightarrow> (\<forall>i < length xs. P (xs ! i) (ys ! i) (zs ! i))"
  by (simp add: list_all_length)

lemma mk_transition_Inr:
  "mk_transition d l u = Inr t \<longleftrightarrow> t = \<lparr>tr_delta = d, tr_lower = l, tr_upper = u\<rparr> \<and> wf_transition t"
proof -
  have "mk_transition d l u = Inr t \<longleftrightarrow> d \<noteq> [] \<and> length l = length d \<and> length u = length d \<and>
      \<not> list_ex (\<lambda>(lo, hi). lo > hi) (zip l u) \<and> t = \<lparr>tr_delta = d, tr_lower = l, tr_upper = u\<rparr>"
    by (auto simp: mk_transition_def require_vector_def)
  also have "\<dots> \<longleftrightarrow> t = \<lparr>tr_delta = d, tr_lower = l, tr_upper = u\<rparr> \<and> wf_transition t"
    by (auto simp: wf_transition_def list_ex_zip linorder_not_less [symmetric])
  finally show ?thesis .
qed

lemma mk_transition_Inl: "mk_transition d l u = Inl e \<Longrightarrow> e = AffineError"
  by (auto simp: mk_transition_def require_vector_def split: if_splits)

lemma wf_dimension: "wf_transition t \<Longrightarrow> 0 < tr_dimension t"
  by (simp add: wf_transition_def tr_dimension_def)

lemma tr_accepts_eq:
  "wf_transition t \<Longrightarrow> length s = tr_dimension t \<Longrightarrow> tr_accepts t s = Inr (admits t s)"
  using wf_dimension [of t]
  by (auto simp: tr_accepts_def require_vector_def wf_transition_def admits_def tr_dimension_def list_all_zip3)

lemma tr_apply_eq:
  "wf_transition t \<Longrightarrow> length s = tr_dimension t \<Longrightarrow>
     tr_apply t s = (if admits t s then Inr (shift t s) else Inl AffineError)"
  using wf_dimension [of t]
  by (auto simp: tr_apply_def require_vector_def tr_accepts_eq shift_def)

lemma length_shift [simp]: "length s = tr_dimension t \<Longrightarrow> length (shift t s) = tr_dimension t"
  by (simp add: shift_def tr_dimension_def)

lemma nth_shift: "length s = tr_dimension t \<Longrightarrow> i < tr_dimension t \<Longrightarrow> shift t s ! i = s ! i + tr_delta t ! i"
  by (simp add: shift_def tr_dimension_def)

text \<open>The composed transition, where it exists.\<close>

definition composed :: "transition \<Rightarrow> transition \<Rightarrow> transition" where
  "composed a b = \<lparr>tr_delta = map2 (+) (tr_delta a) (tr_delta b),
     tr_lower = map (\<lambda>(left, right, change). max left (right - change)) (zip (tr_lower a) (zip (tr_lower b) (tr_delta a))),
     tr_upper = map (\<lambda>(left, right, change). min left (right - change)) (zip (tr_upper a) (zip (tr_upper b) (tr_delta a)))\<rparr>"

lemma compose_eq:
  "tr_dimension a = tr_dimension b \<Longrightarrow> compose_affine_guards a b =
     (if wf_transition (composed a b) then Inr (composed a b) else Inl AffineError)"
proof -
  assume d: "tr_dimension a = tr_dimension b"
  let ?m = "mk_transition (tr_delta (composed a b)) (tr_lower (composed a b)) (tr_upper (composed a b))"
  have "compose_affine_guards a b = catch_as (\<lambda>e. e = AffineError) AffineError ?m"
    using d by (simp add: compose_affine_guards_def composed_def)
  also have "\<dots> = ?m" by (cases ?m) (auto dest: mk_transition_Inl)
  also have "\<dots> = (if wf_transition (composed a b) then Inr (composed a b) else Inl AffineError)"
  proof (cases "wf_transition (composed a b)")
    case True
    then show ?thesis by (simp add: mk_transition_Inr)
  next
    case False
    then have "\<nexists>t. ?m = Inr t" by (simp add: mk_transition_Inr wf_transition_def)
    with False show ?thesis by (cases ?m) (auto dest: mk_transition_Inl)
  qed
  finally show ?thesis .
qed

lemma composed_fields:
  assumes "wf_transition a" "wf_transition b" "tr_dimension a = tr_dimension b"
  shows "tr_dimension (composed a b) = tr_dimension a"
    and "length (tr_lower (composed a b)) = tr_dimension a" "length (tr_upper (composed a b)) = tr_dimension a"
    and "i < tr_dimension a \<Longrightarrow> tr_delta (composed a b) ! i = tr_delta a ! i + tr_delta b ! i"
    and "i < tr_dimension a \<Longrightarrow> tr_lower (composed a b) ! i = max (tr_lower a ! i) (tr_lower b ! i - tr_delta a ! i)"
    and "i < tr_dimension a \<Longrightarrow> tr_upper (composed a b) ! i = min (tr_upper a ! i) (tr_upper b ! i - tr_delta a ! i)"
  using assms by (simp_all add: composed_def tr_dimension_def wf_transition_def)

lemma composed_admits:
  assumes "wf_transition a" "wf_transition b" "tr_dimension a = tr_dimension b" "length s = tr_dimension a"
  shows "admits (composed a b) s \<longleftrightarrow> admits a s \<and> admits b (shift a s)"
    and "shift (composed a b) s = shift b (shift a s)"
proof -
  note f = composed_fields [OF assms(1-3)]
  show "admits (composed a b) s \<longleftrightarrow> admits a s \<and> admits b (shift a s)"
    using assms by (fastforce simp: admits_def f nth_shift)
  show "shift (composed a b) s = shift b (shift a s)"
    using assms by (intro nth_equalityI) (simp_all add: f nth_shift)
qed

lemma composed_wf:
  assumes "wf_transition a" "wf_transition b" "tr_dimension a = tr_dimension b"
  shows "wf_transition (composed a b) \<longleftrightarrow> (\<exists>s. length s = tr_dimension a \<and> admits a s \<and> admits b (shift a s))"
proof
  note f = composed_fields [OF assms]
  have ne: "tr_delta (composed a b) \<noteq> []" using f(1) wf_dimension [OF assms(1)] by (auto simp: tr_dimension_def)
  note f' = f(1) [unfolded tr_dimension_def [of "composed a b"]]
  { assume wf: "wf_transition (composed a b)"
    let ?s = "tr_lower (composed a b)"
    have len: "length ?s = tr_dimension a" by (rule f(2))
    have "admits (composed a b) ?s" using wf f(1) by (auto simp: admits_def wf_transition_def tr_dimension_def)
    with composed_admits(1) [OF assms len] len
    show "\<exists>s. length s = tr_dimension a \<and> admits a s \<and> admits b (shift a s)" by blast }
  { assume "\<exists>s. length s = tr_dimension a \<and> admits a s \<and> admits b (shift a s)"
    then obtain s where s: "length s = tr_dimension a" "admits (composed a b) s"
      using composed_admits(1) [OF assms] by blast
    then have "tr_lower (composed a b) ! i \<le> tr_upper (composed a b) ! i" if "i < tr_dimension a" for i
      using that f(1) by (fastforce simp: admits_def)
    with f(2,3) f' ne show "wf_transition (composed a b)" by (simp add: wf_transition_def) }
qed

section \<open>The scan\<close>

text \<open>The reference: run the transitions one after the other.\<close>

fun run_guards :: "transition list \<Rightarrow> int list \<Rightarrow> int list res" where
  "run_guards [] s = Inr s"
| "run_guards (t # ts) s = ebind (tr_apply t s) (run_guards ts)"

text \<open>The incoming state of each transition along a successful run.\<close>

fun prefix_states :: "transition list \<Rightarrow> int list \<Rightarrow> int list list" where
  "prefix_states [] s = []"
| "prefix_states (t # ts) s = s # prefix_states ts (shift t s)"

lemma run_guards_Nil [simp]: "run_guards [] = Inr"
  by (rule ext) simp

lemma run_guards_append: "run_guards (as @ bs) s = ebind (run_guards as s) (run_guards bs)"
proof (induction as arbitrary: s)
  case (Cons t as)
  then show ?case by (cases "tr_apply t s") auto
qed simp

definition aggregates :: "nat \<Rightarrow> transition list \<Rightarrow> transition option \<Rightarrow> bool" where
  "aggregates n ts agg \<longleftrightarrow> (case agg of None \<Rightarrow> ts = []
     | Some a \<Rightarrow> wf_transition a \<and> tr_dimension a = n \<and> (\<forall>s. length s = n \<longrightarrow> tr_apply a s = run_guards ts s))"

lemma aggregates_step:
  assumes agg: "aggregates n done agg" and t: "wf_transition t" "tr_dimension t = n"
    and run: "run_guards done start = Inr current" "length start = n" "length current = n" "admits t current"
  shows "\<exists>a. (case agg of None \<Rightarrow> Inr t | Some a \<Rightarrow> compose_affine_guards a t) = Inr a \<and> aggregates n (done @ [t]) (Some a)"
proof (cases agg)
  case None
  with agg t show ?thesis by (auto simp: aggregates_def)
next
  case (Some a)
  with agg have a: "wf_transition a" "tr_dimension a = n" "\<And>s. length s = n \<Longrightarrow> tr_apply a s = run_guards done s"
    by (auto simp: aggregates_def)
  have dims: "tr_dimension a = tr_dimension t" using a t by simp
  have "admits a start" "shift a start = current"
    using a(3) [OF run(2)] run(1,2) a(1,2) by (auto simp: tr_apply_eq split: if_splits)
  then have wf: "wf_transition (composed a t)"
    using composed_wf [OF a(1) t(1) dims] run(2,4) a(2) by auto
  have "tr_apply (composed a t) s = run_guards (done @ [t]) s" if s: "length s = n" for s
  proof -
    have "run_guards (done @ [t]) s = ebind (tr_apply a s) (run_guards [t])"
      using a(3) [OF s] by (simp only: run_guards_append)
    also have "\<dots> = tr_apply (composed a t) s"
      using s a(1,2) t wf composed_fields(1) [OF a(1) t(1) dims] composed_admits [OF a(1) t(1) dims, of s]
      by (simp add: tr_apply_eq)
    finally show ?thesis by simp
  qed
  with Some wf show ?thesis
    using compose_eq [OF dims] composed_fields(1) [OF a(1) t(1) dims] a(2) by (simp add: aggregates_def)
qed

lemma scan_loop_spec:
  assumes "list_all (\<lambda>t. wf_transition t \<and> tr_dimension t = n) ts" "aggregates n done agg"
    "run_guards done start = Inr current" "length start = n" "length current = n"
  shows "case run_guards ts current of Inl e \<Rightarrow> scan_loop n ts incoming current agg = Inl AffineError
    | Inr final \<Rightarrow> \<exists>agg'. scan_loop n ts incoming current agg =
        Inr \<lparr>sc_incoming = incoming @ prefix_states ts current, sc_final = final, sc_aggregate = agg'\<rparr> \<and>
        aggregates n (done @ ts) agg' \<and> length final = n"
  using assms
proof (induction ts arbitrary: incoming current agg "done")
  case (Cons t ts)
  then have t: "wf_transition t" "tr_dimension t = n" by auto
  show ?case
  proof (cases "admits t current")
    case False
    then show ?thesis using t Cons.prems(5) by (simp add: tr_apply_eq tr_accepts_eq)
  next
    case True
    let ?next = "shift t current"
    have applied: "tr_apply t current = Inr ?next" using True t Cons.prems(5) by (simp add: tr_apply_eq)
    obtain a where a: "(case agg of None \<Rightarrow> Inr t | Some a \<Rightarrow> compose_affine_guards a t) = Inr a"
      "aggregates n (done @ [t]) (Some a)"
      using aggregates_step [OF Cons.prems(2) t Cons.prems(3,4,5) True] by blast
    have run: "run_guards (done @ [t]) start = Inr ?next" using Cons.prems(3) applied by (simp add: run_guards_append)
    have len: "length ?next = n" using t Cons.prems(5) by simp
    have step: "scan_loop n (t # ts) incoming current agg = scan_loop n ts (incoming @ [current]) ?next (Some a)"
      "run_guards (t # ts) current = run_guards ts ?next"
      using t True applied a(1) Cons.prems(5) by (simp_all add: tr_accepts_eq)
    have wf: "list_all (\<lambda>t. wf_transition t \<and> tr_dimension t = n) ts" using Cons.prems(1) by simp
    show ?thesis unfolding step prefix_states.simps
      using Cons.IH [OF wf a(2) run Cons.prems(4) len, of "incoming @ [current]"]
      unfolding append.assoc append.simps .
  qed
qed simp

lemma exclusive_scan_spec:
  assumes "list_all (\<lambda>t. wf_transition t \<and> tr_dimension t = length start) ts" "start \<noteq> []"
  shows "case run_guards ts start of Inl e \<Rightarrow> exclusive_scan_from_root start ts = Inl AffineError
    | Inr final \<Rightarrow> \<exists>agg. exclusive_scan_from_root start ts =
        Inr \<lparr>sc_incoming = prefix_states ts start, sc_final = final, sc_aggregate = agg\<rparr> \<and>
        aggregates (length start) ts agg"
proof -
  note loop = scan_loop_spec [OF assms(1), of "[]" None start start "[]"]
  show ?thesis
  proof (cases "run_guards ts start")
    case (Inl e)
    with loop assms(2) show ?thesis by (simp add: aggregates_def exclusive_scan_from_root_def require_vector_def)
  next
    case (Inr final)
    with loop obtain agg where l: "scan_loop (length start) ts [] start None =
        Inr \<lparr>sc_incoming = prefix_states ts start, sc_final = final, sc_aggregate = agg\<rparr>"
      "aggregates (length start) ts agg" by (auto simp: aggregates_def)
    show ?thesis
    proof (cases agg)
      case None
      with l Inr assms(2) show ?thesis by (simp add: exclusive_scan_from_root_def require_vector_def)
    next
      case (Some a)
      with l(2) have a: "wf_transition a" "tr_dimension a = length start" "tr_apply a start = Inr final"
        using Inr by (auto simp: aggregates_def)
      then have "admits a start" by (auto simp: tr_apply_eq split: if_splits)
      with a l Inr Some assms(2) show ?thesis
        by (simp add: exclusive_scan_from_root_def require_vector_def tr_accepts_eq)
    qed
  qed
qed

lemma run_guards_error: "list_all (\<lambda>t. wf_transition t \<and> tr_dimension t = n) ts \<Longrightarrow> length s = n \<Longrightarrow>
    run_guards ts s = Inl e \<Longrightarrow> e = AffineError"
proof (induction ts arbitrary: s)
  case (Cons t ts)
  then have t: "wf_transition t" "tr_dimension t = n" by auto
  show ?case
  proof (cases "admits t s")
    case True
    then have "run_guards ts (shift t s) = Inl e" using t Cons.prems by (simp add: tr_apply_eq)
    moreover have "length (shift t s) = n" using t Cons.prems(2) by simp
    ultimately show ?thesis using Cons.IH [of "shift t s"] Cons.prems(1) by simp
  qed (use t Cons.prems in \<open>simp add: tr_apply_eq\<close>)
qed simp

section \<open>Plans\<close>

definition wf_shard :: "shard_range \<Rightarrow> bool" where
  "wf_shard s \<longleftrightarrow> 0 \<le> sh_index s \<and> sh_lower s < sh_upper s \<and> sh_work_count s = sh_upper s - sh_lower s"

lemma mk_shard_range_Inr:
  "mk_shard_range i l u w = Inr s \<longleftrightarrow> s = \<lparr>sh_index = i, sh_lower = l, sh_upper = u, sh_work_count = w\<rparr> \<and> wf_shard s"
  by (auto simp: mk_shard_range_def require_minimum_def wf_shard_def)

text \<open>How often a point is covered by the shards of a list.\<close>

definition cover_count :: "shard_range list \<Rightarrow> int \<Rightarrow> nat" where
  "cover_count shards x = length (filter (\<lambda>s. sh_lower s \<le> x \<and> x < sh_upper s) shards)"

lemma check_shards_cover:
  "check_shards i lo shards = Inr hi \<Longrightarrow> list_all wf_shard shards \<Longrightarrow>
     lo \<le> hi \<and> (\<forall>x. cover_count shards x = (if lo \<le> x \<and> x < hi then 1 else 0)) \<and>
     map sh_index shards = map (\<lambda>k. i + int k) [0..<length shards] \<and>
     distinct (map (\<lambda>s. (sh_lower s, sh_upper s)) shards) \<and> (\<forall>s \<in> set shards. lo \<le> sh_lower s)"
proof (induction i lo shards arbitrary: hi rule: check_shards.induct)
  case (1 i lo)
  then show ?case by (auto simp: cover_count_def)
next
  case (2 i lo s shards)
  then have s: "sh_index s = i" "sh_lower s = lo" "wf_shard s" "check_shards (i + 1) (sh_upper s) shards = Inr hi"
    by (auto split: if_splits)
  have ih: "sh_upper s \<le> hi" "\<And>x. cover_count shards x = (if sh_upper s \<le> x \<and> x < hi then 1 else 0)"
    "map sh_index shards = map (\<lambda>k. i + 1 + int k) [0..<length shards]"
    "distinct (map (\<lambda>s. (sh_lower s, sh_upper s)) shards)" "\<forall>r \<in> set shards. sh_upper s \<le> sh_lower r"
    using 2(1) [OF _ _ _ s(4)] s 2(3) by auto
  have "lo < sh_upper s" using s by (simp add: wf_shard_def)
  moreover have "map sh_index (s # shards) = map (\<lambda>k. i + int k) [0..<length (s # shards)]"
  proof (rule nth_equalityI)
    fix k assume "k < length (map sh_index (s # shards))"
    then show "map sh_index (s # shards) ! k = map (\<lambda>k. i + int k) [0..<length (s # shards)] ! k"
      using arg_cong [OF ih(3), of "\<lambda>xs. xs ! (k - 1)"] s(1) by (cases k) (auto simp del: upt_Suc)
  qed simp
  moreover have "(sh_lower s, sh_upper s) \<notin> (\<lambda>s. (sh_lower s, sh_upper s)) ` set shards"
    using ih(5) \<open>lo < sh_upper s\<close> s(2) by fastforce
  moreover have "cover_count (s # shards) x = (if lo \<le> x \<and> x < hi then 1 else 0)" for x
    using ih(1) ih(2) [of x] \<open>lo < sh_upper s\<close> s(2) by (auto simp: cover_count_def)
  ultimately show ?case using ih s(2) by fastforce
qed

lemma index_distinct: "map sh_index shards = map (\<lambda>k. i + int k) [0..<length shards] \<Longrightarrow> distinct (map sh_index shards)"
  by (simp add: distinct_map inj_on_def)

definition wf_plan :: "shard_plan \<Rightarrow> bool" where
  "wf_plan p \<longleftrightarrow> mk_plan (pl_algorithm p) (pl_dimension p) (pl_lower p) (pl_upper p) (pl_shards p) = Inr p \<and>
     list_all wf_shard (pl_shards p)"

text \<open>A plan is accepted exactly when its shards, indexed in order, tile the domain.\<close>

lemma mk_plan_Inr:
  assumes "list_all wf_shard shards"
  shows "mk_plan a d lo hi shards = Inr p \<longleftrightarrow>
    p = \<lparr>pl_algorithm = a, pl_dimension = d, pl_lower = lo, pl_upper = hi, pl_shards = shards\<rparr> \<and>
    a \<noteq> [] \<and> list_all (\<lambda>c. 0x20 \<le> c) a \<and> 1 \<le> d \<and> lo < hi \<and> shards \<noteq> [] \<and> check_shards 0 lo shards = Inr hi"
proof -
  have "distinct (map sh_index shards) \<and> distinct (map (\<lambda>s. (sh_lower s, sh_upper s)) shards)"
    if "check_shards 0 lo shards = Inr hi"
    using check_shards_cover [OF that assms] index_distinct by blast
  then show ?thesis
    by (auto simp: mk_plan_def res_simps require_label_def require_minimum_def list_ex_iff list_all_iff not_less
        split: if_splits)
qed

end
