(* ===== verification/AffineGuard_Wire.thy ===== *)
theory AffineGuard_Wire
  imports AffineGuard_Sound
begin

text \<open>
  The wire forms of plans, leaves, transitions and witnesses: reading back what \<open>to_dict\<close> writes,
  and the injectivity of the canonical bytes that the commitments hash.
\<close>

section \<open>Wire forms\<close>

lemma require_object_keys_py_dict:
  "require_object_keys (py_dict items) ks = (if set (map fst items) = set ks
     then Inr (map (\<lambda>(k, v). (lit k, v)) items) else Inl AffineError)"
proof -
  have "exact_object (py_dict items) ks = (if set (map fst items) = set ks
     then Inr (map (\<lambda>(k, v). (lit k, v)) items) else Inl FormatError)"
    by (rule exact_object_py_dict)
  then show ?thesis
    by (auto simp: require_object_keys_def exact_object_def py_dict_def split: if_splits)
qed

lemma require_vector_value_list: "xs \<noteq> [] \<Longrightarrow> require_vector_value (int_list_value xs) = Inr xs"
proof -
  have "map_res require_int (map PInt xs) = Inr xs" by (induction xs) (auto simp: require_int_def)
  then show "xs \<noteq> [] \<Longrightarrow> ?thesis" by (simp add: require_vector_value_def int_list_value_def require_list_def require_vector_def)
qed

lemma tr_roundtrip: "wf_transition t \<Longrightarrow> tr_from_dict (tr_to_dict t) = Inr t"
proof -
  assume wf: "wf_transition t"
  then have "tr_delta t \<noteq> []" "tr_lower t \<noteq> []" "tr_upper t \<noteq> []" by (auto simp: wf_transition_def)
  moreover have "mk_transition (tr_delta t) (tr_lower t) (tr_upper t) = Inr t"
    using wf by (simp add: mk_transition_Inr)
  ultimately show ?thesis
    by (simp add: tr_from_dict_def tr_to_dict_def require_object_keys_py_dict dict_get_def require_vector_value_list)
qed

lemma shard_roundtrip: "wf_shard s \<Longrightarrow> shard_from_dict (shard_to_dict s) = Inr s"
  by (simp add: shard_from_dict_def shard_to_dict_def require_object_keys_py_dict dict_get_def require_int_def mk_shard_range_Inr)

lemma map_res_roundtrip: "list_all P xs \<Longrightarrow> (\<And>x. P x \<Longrightarrow> g (f x) = Inr x) \<Longrightarrow> map_res g (map f xs) = Inr xs"
  by (induction xs) auto

lemma plan_roundtrip: "wf_plan p \<Longrightarrow> plan_from_dict (plan_to_dict p) = Inr p"
proof -
  assume wf: "wf_plan p"
  have "map_res shard_from_dict (map shard_to_dict (pl_shards p)) = Inr (pl_shards p)"
    by (rule map_res_roundtrip [where P = wf_shard]) (use wf shard_roundtrip in \<open>auto simp: wf_plan_def\<close>)
  with wf show ?thesis
    by (simp add: plan_from_dict_def plan_to_dict_def require_object_keys_py_dict dict_get_def
        require_int_def require_str_def require_list_def wf_plan_def)
qed

lemma witness_roundtrip: "witness_from_dict (witness_to_dict w) = Inr w"
  by (simp add: witness_from_dict_def witness_to_dict_def require_object_keys_py_dict dict_get_def require_int_def)

definition wf_leaf :: "leaf \<Rightarrow> bool" where
  "wf_leaf l \<longleftrightarrow> mk_leaf l = Inr l \<and> wf_transition (lf_transition l)"

lemma leaf_eta [simp]:
  "\<lparr>lf_plan_sha256 = lf_plan_sha256 l, lf_shard_index = lf_shard_index l, lf_lower = lf_lower l,
    lf_upper = lf_upper l, lf_work_count = lf_work_count l, lf_row_root = lf_row_root l,
    lf_transition = lf_transition l, lf_lower_witnesses = lf_lower_witnesses l,
    lf_upper_witnesses = lf_upper_witnesses l, lf_exception_root = lf_exception_root l\<rparr> = l"
  by (cases l) simp

lemma leaf_roundtrip: "wf_leaf l \<Longrightarrow> leaf_from_dict (leaf_to_dict l) = Inr l"
proof -
  assume wf: "wf_leaf l"
  have "map_res witness_from_dict (map witness_to_dict ws) = Inr ws" for ws
    by (rule map_res_roundtrip [where P = "\<lambda>_. True"]) (simp_all add: witness_roundtrip list_all_iff)
  moreover have "tr_from_dict (tr_to_dict (lf_transition l)) = Inr (lf_transition l)"
    using wf tr_roundtrip by (simp add: wf_leaf_def)
  ultimately show ?thesis using wf unfolding leaf_from_dict_def leaf_to_dict_def
    by (simp add: require_object_keys_py_dict dict_get_def require_int_def require_str_def require_list_def wf_leaf_def)
qed

section \<open>Normal forms of the wire forms\<close>

lemma sort_key_set: "sort_key f xs = sort_key f ys \<Longrightarrow> set xs = set ys"
  by (metis set_sort)

lemma jnorm_py_dict:
  assumes "distinct (map fst A)" "map fst A = map fst B"
  shows "jnorm (py_dict A) = jnorm (py_dict B) \<longleftrightarrow> map (jnorm \<circ> snd) A = map (jnorm \<circ> snd) B"
proof
  let ?k = "\<lambda>(k, v). (lit k, v)"
  have keys: "map fst (map (map_prod id jnorm) (map ?k X)) = map lit (map fst X)" for X :: "(string \<times> pyval) list"
    by (induction X) auto
  have dist: "distinct (map lit (map fst A))"
    using assms(1) by (simp add: distinct_map inj_on_def)
  { assume "jnorm (py_dict A) = jnorm (py_dict B)"
    then have sets: "set (map (map_prod id jnorm) (map ?k A)) = set (map (map_prod id jnorm) (map ?k B))"
      using sort_key_set [of fst "map (map_prod id jnorm) (map ?k A)" "map (map_prod id jnorm) (map ?k B)"]
      unfolding py_dict_def jnorm_dict by simp
    have entry: "(lit (fst (X ! i)), jnorm (snd (X ! i))) \<in> set (map (map_prod id jnorm) (map ?k X))"
      if "i < length X" for X i
      using that by (force simp: in_set_conv_nth split_beta)
    have len: "length B = length A" using assms(2) by (metis length_map)
    have "jnorm (snd (A ! i)) = jnorm (snd (B ! i))" if "i < length A" for i
    proof -
      have iB: "i < length B" using that len by simp
      have k: "fst (A ! i) = fst (B ! i)" using that len arg_cong [OF assms(2), of "\<lambda>xs. xs ! i"] by simp
      have "distinct (map fst (map (map_prod id jnorm) (map ?k B)))" using dist assms(2) unfolding keys by simp
      moreover have "(lit (fst (A ! i)), jnorm (snd (A ! i))) \<in> set (map (map_prod id jnorm) (map ?k B))"
        using entry [OF that] unfolding sets .
      moreover have "(lit (fst (A ! i)), jnorm (snd (B ! i))) \<in> set (map (map_prod id jnorm) (map ?k B))"
        using entry [OF iB] by (simp only: k)
      ultimately show ?thesis by (rule eq_key_imp_eq_value)
    qed
    moreover have "length A = length B" using assms(2) by (metis length_map)
    ultimately show "map (jnorm \<circ> snd) A = map (jnorm \<circ> snd) B" by (simp add: list_eq_iff_nth_eq) }
  { assume "map (jnorm \<circ> snd) A = map (jnorm \<circ> snd) B"
    moreover have "map (map_prod id jnorm) (map ?k X) = zip (map lit (map fst X)) (map (jnorm \<circ> snd) X)"
      for X :: "(string \<times> pyval) list" by (induction X) auto
    ultimately have "map (map_prod id jnorm) (map ?k A) = map (map_prod id jnorm) (map ?k B)"
      using assms(2) by metis
    then show "jnorm (py_dict A) = jnorm (py_dict B)" unfolding py_dict_def jnorm_dict by metis }
qed

lemma jnorm_int_list: "jnorm (int_list_value xs) = jnorm (int_list_value ys) \<longleftrightarrow> xs = ys"
proof -
  have "map (jnorm \<circ> PInt) zs = map PInt zs" for zs by (induction zs) simp_all
  moreover have "inj PInt" by (simp add: inj_on_def)
  ultimately show ?thesis by (metis (no_types, lifting) int_list_value_def inj_map_eq_map jnorm.simps(1) list.map_comp pyval.inject(5))
qed

lemma jnorm_list_map:
  "(\<And>x y. jnorm (f x) = jnorm (f y) \<longleftrightarrow> x = y) \<Longrightarrow> jnorm (PList (map f xs)) = jnorm (PList (map f ys)) \<longleftrightarrow> xs = ys"
  using inj_map_eq_map [of "jnorm \<circ> f" xs ys] by (simp add: inj_on_def)

lemma tr_to_dict_inj: "jnorm (tr_to_dict t) = jnorm (tr_to_dict u) \<longleftrightarrow> t = u"
  by (simp add: tr_to_dict_def jnorm_py_dict jnorm_int_list) (auto intro: transition.equality)

lemma shard_to_dict_inj: "jnorm (shard_to_dict s) = jnorm (shard_to_dict r) \<longleftrightarrow> s = r"
  by (simp add: shard_to_dict_def jnorm_py_dict) (auto intro: shard_range.equality)

lemma witness_to_dict_inj: "jnorm (witness_to_dict s) = jnorm (witness_to_dict r) \<longleftrightarrow> s = r"
  by (simp add: witness_to_dict_def jnorm_py_dict) (auto intro: tight_witness.equality)

lemma plan_to_dict_inj: "jnorm (plan_to_dict p) = jnorm (plan_to_dict q) \<longleftrightarrow> p = q"
  using jnorm_list_map [of shard_to_dict, OF shard_to_dict_inj]
  by (simp add: plan_to_dict_def jnorm_py_dict del: jnorm.simps(1)) (auto intro: shard_plan.equality)

lemma leaf_to_dict_inj: "jnorm (leaf_to_dict l) = jnorm (leaf_to_dict m) \<longleftrightarrow> l = m"
  using jnorm_list_map [of witness_to_dict, OF witness_to_dict_inj]
  by (simp add: leaf_to_dict_def jnorm_py_dict tr_to_dict_inj del: jnorm.simps(1)) (auto intro: leaf.equality)

end
