(* ===== verification/AffineGuard_Merkle.thy ===== *)
theory AffineGuard_Merkle
  imports AffineGuard_Wire
begin

text \<open>
  The Merkle reduction as a commitment: the messages it hashes, and that equal roots over equally
  many digests mean equal digests or a SHA-256 collision between two of those messages.
\<close>

section \<open>The hashed messages\<close>

fun level_messages :: "bytes \<Rightarrow> bytes \<Rightarrow> bytes list \<Rightarrow> bytes list" where
  "level_messages node_dom odd_dom [] = []"
| "level_messages node_dom odd_dom [left] = [odd_dom @ left]"
| "level_messages node_dom odd_dom (left # right # rest) = (node_dom @ left @ right) # level_messages node_dom odd_dom rest"

function merkle_messages :: "bytes \<Rightarrow> bytes \<Rightarrow> bytes list \<Rightarrow> bytes list" where
  "merkle_messages node_dom odd_dom level =
     (if length level > 1 then level_messages node_dom odd_dom level @ merkle_messages node_dom odd_dom (merkle_level node_dom odd_dom level)
      else [])"
  by pat_completeness auto
termination
  by (relation "measure (\<lambda>(_, _, level). length level)") auto

declare merkle_messages.simps [simp del]

lemma merkle_level_messages: "merkle_level node_dom odd_dom level = map sha256_digest (level_messages node_dom odd_dom level)"
  by (induction node_dom odd_dom level rule: merkle_level.induct) auto

lemma length_level_messages [simp]: "length (level_messages node_dom odd_dom xs) = (length xs + 1) div 2"
  by (induction node_dom odd_dom xs rule: level_messages.induct) auto

lemma level_messages_inj:
  "length xs = length ys \<Longrightarrow> list_all (\<lambda>d. length d = 32) xs \<Longrightarrow> list_all (\<lambda>d. length d = 32) ys \<Longrightarrow>
     level_messages node_dom odd_dom xs = level_messages node_dom odd_dom ys \<Longrightarrow> xs = ys"
proof (induction node_dom odd_dom xs arbitrary: ys rule: level_messages.induct)
  case (3 node_dom odd_dom left right rest)
  then obtain l r rest' where ys: "ys = l # r # rest'"
    by (metis length_Suc_conv)
  with 3 show ?case by auto
next
  case (2 node_dom odd_dom left)
  then obtain l where "ys = [l]" by (metis length_0_conv length_Suc_conv list.size(3))
  with 2 show ?case by simp
qed auto

lemma digests_binds:
  "length xs = length ys \<Longrightarrow> map sha256_digest xs = map sha256_digest ys \<Longrightarrow>
     xs = ys \<or> (\<exists>m \<in> set xs. \<exists>k \<in> set ys. sha_collision m k)"
proof (induction xs ys rule: list_induct2)
  case (Cons x xs y ys)
  then show ?case using digest_collision [of x y] by auto
qed simp

lemma level_binds:
  assumes "length xs = length ys" "list_all (\<lambda>d. length d = 32) xs" "list_all (\<lambda>d. length d = 32) ys"
    "merkle_level node_dom odd_dom xs = merkle_level node_dom odd_dom ys"
  shows "xs = ys \<or> (\<exists>m \<in> set (level_messages node_dom odd_dom xs). \<exists>k \<in> set (level_messages node_dom odd_dom ys). sha_collision m k)"
  using digests_binds [of "level_messages node_dom odd_dom xs" "level_messages node_dom odd_dom ys"] level_messages_inj [of xs ys] assms
  by (auto simp: merkle_level_messages)

lemma level_digests: "list_all (\<lambda>d. length d = 32) (merkle_level node_dom odd_dom xs)"
  by (simp add: merkle_level_messages list_all_iff)

lemma merkle_loop_binds:
  "length xs = length ys \<Longrightarrow> list_all (\<lambda>d. length d = 32) xs \<Longrightarrow> list_all (\<lambda>d. length d = 32) ys \<Longrightarrow>
     merkle_loop node_dom odd_dom xs = merkle_loop node_dom odd_dom ys \<Longrightarrow>
     xs = ys \<or> (\<exists>m \<in> set (merkle_messages node_dom odd_dom xs). \<exists>k \<in> set (merkle_messages node_dom odd_dom ys). sha_collision m k)"
proof (induction node_dom odd_dom xs arbitrary: ys rule: merkle_loop.induct)
  case (1 node_dom odd_dom xs)
  show ?case
  proof (cases "length xs > 1")
    case False
    then show ?thesis using 1(2,5) by (simp add: merkle_loop.simps [of node_dom odd_dom])
  next
    case True
    then have long: "length ys > 1" using 1(2) by simp
    have rec: "merkle_loop node_dom odd_dom (merkle_level node_dom odd_dom xs) = merkle_loop node_dom odd_dom (merkle_level node_dom odd_dom ys)"
      using 1(5) True long by (simp add: merkle_loop.simps [of node_dom odd_dom xs] merkle_loop.simps [of node_dom odd_dom ys])
    have msgs: "set (merkle_messages node_dom odd_dom zs) =
        set (level_messages node_dom odd_dom zs) \<union> set (merkle_messages node_dom odd_dom (merkle_level node_dom odd_dom zs))"
      if "length zs > 1" for zs using that by (subst merkle_messages.simps) simp
    show ?thesis
      using 1(1) [OF True _ level_digests level_digests rec] level_binds [OF 1(2-4)] 1(2)
      unfolding msgs [OF True] msgs [OF long] by (auto simp: length_merkle_level)
  qed
qed

text \<open>The loop ends with one digest.\<close>

lemma merkle_loop_single: "xs \<noteq> [] \<Longrightarrow> length (merkle_loop node_dom odd_dom xs) = 1"
proof (induction node_dom odd_dom xs rule: merkle_loop.induct)
  case (1 node_dom odd_dom xs)
  show ?case
  proof (cases "length xs > 1")
    case True
    then have "merkle_level node_dom odd_dom xs \<noteq> []" using length_merkle_level [of node_dom odd_dom xs] by (auto simp del: length_merkle_level)
    with 1(1) [OF True] True show ?thesis by (subst merkle_loop.simps) simp
  next
    case False
    with 1(2) show ?thesis by (subst merkle_loop.simps) (cases xs; simp)
  qed
qed

lemma merkle_loop_digests: "list_all (\<lambda>d. length d = 32) xs \<Longrightarrow> list_all (\<lambda>d. length d = 32) (merkle_loop node_dom odd_dom xs)"
proof (induction node_dom odd_dom xs rule: merkle_loop.induct)
  case (1 node_dom odd_dom xs)
  then show ?case by (subst merkle_loop.simps) (simp add: level_digests)
qed

section \<open>The reduction\<close>

lemma map_res_require_sha256: "map_res require_sha256 ds = Inr es \<longleftrightarrow> es = ds \<and> list_all (hex_string 64) ds"
  by (induction ds arbitrary: es) (auto simp: require_sha256_def res_simps)

lemma merkle_reduce_Inr:
  assumes "list_all (hex_string 64) ds"
  shows "merkle_reduce ds node_dom odd_dom empty_dom =
    Inr (if ds = [] then sha256_hex empty_dom else bytes_hex (merkle_loop node_dom odd_dom (map bytes_fromhex ds) ! 0))"
  using assms merkle_loop_single [of "map bytes_fromhex ds" node_dom odd_dom]
    py_index_nat [where xs = "merkle_loop node_dom odd_dom (map bytes_fromhex ds)" and i = 0]
  by (auto simp: merkle_reduce_def map_res_require_sha256 res_simps)

lemma merkle_reduce_binds:
  assumes "merkle_reduce ds node_dom odd_dom empty_dom = Inr top_digest" "merkle_reduce es node_dom odd_dom empty_dom = Inr top_digest"
    "length ds = length es"
  shows "ds = es \<or> (\<exists>m \<in> set (merkle_messages node_dom odd_dom (map bytes_fromhex ds)).
    \<exists>k \<in> set (merkle_messages node_dom odd_dom (map bytes_fromhex es)). sha_collision m k)"
proof (cases "ds = []")
  case False
  have hex: "list_all (hex_string 64) ds" "list_all (hex_string 64) es"
    using assms(1,2) by (auto simp: merkle_reduce_def res_simps map_res_require_sha256)
  then have d: "list_all (\<lambda>d. length d = 32) (map bytes_fromhex ds)" "list_all (\<lambda>d. length d = 32) (map bytes_fromhex es)"
    by (auto simp: list_all_iff length_fromhex hex_string_def)
  have ne: "es \<noteq> []" using False assms(3) by auto
  have "bytes_hex (merkle_loop node_dom odd_dom (map bytes_fromhex ds) ! 0) = bytes_hex (merkle_loop node_dom odd_dom (map bytes_fromhex es) ! 0)"
    using assms(1,2) False ne unfolding merkle_reduce_Inr [OF hex(1)] merkle_reduce_Inr [OF hex(2)] by simp
  then have "merkle_loop node_dom odd_dom (map bytes_fromhex ds) ! 0 = merkle_loop node_dom odd_dom (map bytes_fromhex es) ! 0"
    by (rule bytes_hex_inj)
  then have "merkle_loop node_dom odd_dom (map bytes_fromhex ds) = merkle_loop node_dom odd_dom (map bytes_fromhex es)"
    using merkle_loop_single [of "map bytes_fromhex ds" node_dom odd_dom] merkle_loop_single [of "map bytes_fromhex es" node_dom odd_dom] False ne
    by (intro nth_equalityI) auto
  from merkle_loop_binds [OF _ d this] assms(3)
  have "map bytes_fromhex ds = map bytes_fromhex es \<or> (\<exists>m \<in> set (merkle_messages node_dom odd_dom (map bytes_fromhex ds)).
    \<exists>k \<in> set (merkle_messages node_dom odd_dom (map bytes_fromhex es)). sha_collision m k)" by simp
  moreover have "ds = es" if "map bytes_fromhex ds = map bytes_fromhex es"
    using that hex assms(3) fromhex_inj
    by (auto simp: list_eq_iff_nth_eq list_all_length)
  ultimately show ?thesis by blast
qed (use assms(3) in simp)

end
