(* ===== verification/AffineGuard_Cert.thy ===== *)
theory AffineGuard_Cert
  imports AffineGuard_Merkle Encodable
begin

text \<open>
  Commitments of the affine-guard certificates: the byte strings each digest hashes, the binding of
  plan, leaves, root state and certificate by their digests, and what the verifier establishes.
\<close>

section \<open>Tagged digests\<close>

definition tagged_json :: "bytes \<Rightarrow> pyval \<Rightarrow> bytes res" where
  "tagged_json tag v = ebind (campaign_json_bytes v) (\<lambda>raw. Inr (tag @ raw))"

lemma hash_json_tagged: "hash_json tag v = ebind (tagged_json tag v) (\<lambda>m. Inr (sha256_hex m))"
  by (cases "campaign_json_bytes v") (simp_all add: hash_json_def tagged_json_def)

lemma tagged_inj: "tagged_json tag a = Inr s \<Longrightarrow> tagged_json tag b = Inr s \<Longrightarrow> jnorm a = jnorm b"
  by (auto simp: tagged_json_def res_simps dest: campaign_inj)

interpretation tagged: digest_commitment "tagged_json tag" jnorm for tag
  by unfold_locales (rule tagged_inj)

text \<open>The bytes a digest of a value hashes, where the value can be encoded.\<close>

definition hashed :: "bytes \<Rightarrow> pyval \<Rightarrow> bytes list" where
  "hashed tag v = (case tagged_json tag v of Inl _ \<Rightarrow> [] | Inr m \<Rightarrow> [m])"

definition clash :: "bytes list \<Rightarrow> bytes list \<Rightarrow> bool" where
  "clash ms ks \<longleftrightarrow> (\<exists>m \<in> set ms. \<exists>k \<in> set ks. sha_collision m k)"

lemma clash_mono: "clash ms ks \<Longrightarrow> set ms \<subseteq> set ms' \<Longrightarrow> set ks \<subseteq> set ks' \<Longrightarrow> clash ms' ks'"
  unfolding clash_def by blast

lemma clash_append: "clash ms ks \<Longrightarrow> clash (ms @ as) (ks @ bs)"
  by (erule clash_mono) auto

lemma hash_binds:
  assumes "hash_json tag a = Inr h" "hash_json tag b = Inr h"
  shows "jnorm a = jnorm b \<or> clash (hashed tag a) (hashed tag b)"
proof -
  obtain s t where st: "tagged_json tag a = Inr s" "tagged_json tag b = Inr t" "sha256_hex s = sha256_hex t"
    using assms by (auto simp: hash_json_tagged res_simps)
  with tagged.digest_binds [OF st] show ?thesis by (auto simp: hashed_def clash_def)
qed

lemma hash_json_total: "json_dom v \<Longrightarrow> encodable v \<Longrightarrow> \<exists>h. hash_json tag v = Inr h"
proof -
  assume v: "json_dom v" "encodable v"
  have "list_all valid_char (json_text v)"
    using raw_text_valid [OF encodable_jnorm [OF v(2)]] by (simp add: json_text_raw)
  then obtain u where "utf8_encode (json_text v) = Inr u"
    using utf8_text_valid [of "json_text v"] by (auto simp: utf8_encode_def)
  then have "campaign_json_bytes v = Inr (u @ [10])" using v(1) encodable_printable [OF v(2)]
    by (simp add: campaign_json_bytes_Inr)
  then show ?thesis by (simp add: hash_json_def)
qed

lemma plan_digest_binds:
  "plan_sha256 p = Inr h \<Longrightarrow> plan_sha256 q = Inr h \<Longrightarrow>
     p = q \<or> clash (hashed PLAN_DOMAIN (plan_to_dict p)) (hashed PLAN_DOMAIN (plan_to_dict q))"
  using hash_binds [of PLAN_DOMAIN "plan_to_dict p" h "plan_to_dict q"] by (simp add: plan_sha256_def plan_to_dict_inj)

lemma leaf_digest_binds:
  "leaf_sha256 l = Inr h \<Longrightarrow> leaf_sha256 m = Inr h \<Longrightarrow>
     l = m \<or> clash (hashed LEAF_DOMAIN (leaf_to_dict l)) (hashed LEAF_DOMAIN (leaf_to_dict m))"
  using hash_binds [of LEAF_DOMAIN "leaf_to_dict l" h "leaf_to_dict m"] by (simp add: leaf_sha256_def leaf_to_dict_inj)

section \<open>The leaf root\<close>

definition leaf_messages :: "leaf list \<Rightarrow> bytes list" where
  "leaf_messages leaves = concat (map (\<lambda>l. hashed LEAF_DOMAIN (leaf_to_dict l)) leaves) @
     (case map_res leaf_sha256 leaves of Inl _ \<Rightarrow> []
      | Inr ds \<Rightarrow> merkle_messages MERKLE_NODE_DOMAIN MERKLE_ODD_DOMAIN (map bytes_fromhex ds))"

lemma leaf_lists_bind:
  "map_res leaf_sha256 ls = Inr ds \<Longrightarrow> map_res leaf_sha256 ms = Inr ds \<Longrightarrow>
     ls = ms \<or> clash (concat (map (\<lambda>l. hashed LEAF_DOMAIN (leaf_to_dict l)) ls))
                      (concat (map (\<lambda>l. hashed LEAF_DOMAIN (leaf_to_dict l)) ms))"
proof (induction ls arbitrary: ms ds)
  case Nil
  then show ?case by (cases ms) (auto simp: res_simps)
next
  case (Cons l ls)
  then obtain h hs where h: "ds = h # hs" "leaf_sha256 l = Inr h" "map_res leaf_sha256 ls = Inr hs"
    by (auto simp: res_simps)
  with Cons.prems(2) obtain m ms' where m: "ms = m # ms'" "leaf_sha256 m = Inr h" "map_res leaf_sha256 ms' = Inr hs"
    by (cases ms) (auto simp: res_simps)
  from leaf_digest_binds [OF h(2) m(2)] Cons.IH [OF h(3) m(3)] m(1) show ?case
    by (auto simp: clash_def)
qed

lemma leaf_root_binds:
  assumes "affine_guard_leaf_merkle_root ls = Inr r" "affine_guard_leaf_merkle_root ms = Inr r" "length ls = length ms"
  shows "ls = ms \<or> clash (leaf_messages ls) (leaf_messages ms)"
proof -
  obtain ds es where d: "map_res leaf_sha256 ls = Inr ds" "map_res leaf_sha256 ms = Inr es"
    "merkle_reduce ds MERKLE_NODE_DOMAIN MERKLE_ODD_DOMAIN MERKLE_EMPTY_DOMAIN = Inr r"
    "merkle_reduce es MERKLE_NODE_DOMAIN MERKLE_ODD_DOMAIN MERKLE_EMPTY_DOMAIN = Inr r"
    using assms(1,2) by (auto simp: affine_guard_leaf_merkle_root_def res_simps)
  have "length ds = length es" using d(1,2) assms(3) by (metis map_res_Inr_iff list_all2_lengthD)
  from merkle_reduce_binds [OF d(3,4) this] show ?thesis
  proof
    assume "ds = es"
    then have "ls = ms \<or> clash (concat (map (\<lambda>l. hashed LEAF_DOMAIN (leaf_to_dict l)) ls))
        (concat (map (\<lambda>l. hashed LEAF_DOMAIN (leaf_to_dict l)) ms))"
      using leaf_lists_bind [OF d(1)] d(2) by blast
    then show ?thesis unfolding leaf_messages_def using clash_append by blast
  next
    assume "\<exists>m \<in> set (merkle_messages MERKLE_NODE_DOMAIN MERKLE_ODD_DOMAIN (map bytes_fromhex ds)).
      \<exists>k \<in> set (merkle_messages MERKLE_NODE_DOMAIN MERKLE_ODD_DOMAIN (map bytes_fromhex es)). sha_collision m k"
    then show ?thesis unfolding clash_def leaf_messages_def d sum.case set_append by blast
  qed
qed

section \<open>The verifier\<close>

lemma check_leaves_Inr:
  "check_leaves plan i ls = Inr u \<longleftrightarrow>
     (\<forall>k < length ls. lf_shard_index (ls ! k) = i + int k \<and> leaf_validate_against (ls ! k) plan = Inr ())"
proof (induction ls arbitrary: i)
  case (Cons l ls)
  then show ?case by (auto simp: res_simps less_Suc_eq_0_disj)
qed simp

definition leaf_matches :: "shard_plan \<Rightarrow> pystr \<Rightarrow> leaf \<Rightarrow> shard_range \<Rightarrow> bool" where
  "leaf_matches plan sha l s \<longleftrightarrow> lf_plan_sha256 l = sha \<and> lf_shard_index l = sh_index s \<and> lf_lower l = sh_lower s \<and>
     lf_upper l = sh_upper s \<and> lf_work_count l = sh_work_count s \<and> int (tr_dimension (lf_transition l)) = pl_dimension plan"

lemma validate_against_matches:
  assumes "leaf_validate_against l plan = Inr ()" "lf_shard_index l = int k" "plan_sha256 plan = Inr sha"
  shows "k < length (pl_shards plan) \<and> leaf_matches plan sha l (pl_shards plan ! k)"
  using assms by (auto simp: leaf_validate_against_def leaf_matches_def split: if_splits)

lemma verify_Inr:
  assumes "verify_affine_guard_certificate plan root_state leaves expected = Inr v"
  shows "root_state \<noteq> []" "int (length root_state) = pl_dimension plan" "length leaves = length (pl_shards plan)"
    "check_leaves plan 0 leaves = Inr ()"
    "exclusive_scan_from_root root_state (map lf_transition leaves) = Inr \<lparr>sc_incoming = vf_incoming_states v,
       sc_final = vf_final_state v, sc_aggregate = Some (vf_aggregate v)\<rparr>"
    "affine_guard_leaf_merkle_root leaves = Inr (vf_leaf_merkle_root v)"
    "plan_sha256 plan = Inr (vf_plan_sha256 v)" "vf_root_state v = root_state"
    "hash_json CERTIFICATE_ROOT_DOMAIN (certificate_payload (vf_plan_sha256 v) root_state (vf_final_state v)
       (length leaves) (vf_leaf_merkle_root v)) = Inr (vf_certificate_root v)"
    "case expected of None \<Rightarrow> True | Some e \<Rightarrow> vf_certificate_root v = e"
proof -
  obtain scan aggregate where "root_state \<noteq> []" "int (length root_state) = pl_dimension plan"
    "length leaves = length (pl_shards plan)" "check_leaves plan 0 leaves = Inr ()"
    "exclusive_scan_from_root root_state (map lf_transition leaves) = Inr scan" "sc_aggregate scan = Some aggregate"
    and rest: "ebind (affine_guard_leaf_merkle_root leaves) (\<lambda>leaf_root.
     ebind (plan_sha256 plan) (\<lambda>plan_sha.
     ebind (hash_json CERTIFICATE_ROOT_DOMAIN
       (certificate_payload plan_sha root_state (sc_final scan) (length leaves) leaf_root)) (\<lambda>certificate_root.
     ebind (case expected of None \<Rightarrow> Inr ()
        | Some expected \<Rightarrow> ebind (require_sha256 expected) (\<lambda>e.
            if certificate_root \<noteq> e then Inl AffineError else Inr ())) (\<lambda>_.
       Inr \<lparr>vf_plan_sha256 = plan_sha, vf_root_state = root_state, vf_incoming_states = sc_incoming scan,
         vf_final_state = sc_final scan, vf_aggregate = aggregate, vf_leaf_merkle_root = leaf_root,
         vf_certificate_root = certificate_root\<rparr>)))) = Inr v"
  proof -
    have guards: "root_state \<noteq> [] \<and> int (length root_state) = pl_dimension plan \<and> length leaves = length (pl_shards plan)"
      using assms by (auto simp: verify_affine_guard_certificate_def require_vector_def split: if_splits)
    note core = assms [unfolded verify_affine_guard_certificate_def require_vector_def]
    obtain u where u: "check_leaves plan 0 leaves = Inr u"
      using core guards by (cases "check_leaves plan 0 leaves") (auto split: if_splits)
    obtain scan where scan: "exclusive_scan_from_root root_state (map lf_transition leaves) = Inr scan"
      using core guards u by (cases "exclusive_scan_from_root root_state (map lf_transition leaves)") (auto split: if_splits)
    obtain aggregate where "sc_aggregate scan = Some aggregate"
      using core guards u scan by (cases "sc_aggregate scan") (auto split: if_splits)
    with core guards u scan show thesis by (intro that [of scan aggregate]) (auto split: if_splits)
  qed
  then show "root_state \<noteq> []" "int (length root_state) = pl_dimension plan"
    "length leaves = length (pl_shards plan)" "check_leaves plan 0 leaves = Inr ()" by blast+
  obtain lr ps cr where r: "affine_guard_leaf_merkle_root leaves = Inr lr" "plan_sha256 plan = Inr ps"
    "hash_json CERTIFICATE_ROOT_DOMAIN (certificate_payload ps root_state (sc_final scan) (length leaves) lr) = Inr cr"
    "(case expected of None \<Rightarrow> Inr () | Some expected \<Rightarrow> ebind (require_sha256 expected) (\<lambda>e.
            if cr \<noteq> e then Inl AffineError else Inr ())) = Inr ()"
    and v: "v = \<lparr>vf_plan_sha256 = ps, vf_root_state = root_state, vf_incoming_states = sc_incoming scan,
         vf_final_state = sc_final scan, vf_aggregate = aggregate, vf_leaf_merkle_root = lr, vf_certificate_root = cr\<rparr>"
    using rest unfolding ebind_Inr_iff by auto
  show "affine_guard_leaf_merkle_root leaves = Inr (vf_leaf_merkle_root v)"
    "plan_sha256 plan = Inr (vf_plan_sha256 v)" "vf_root_state v = root_state"
    "hash_json CERTIFICATE_ROOT_DOMAIN (certificate_payload (vf_plan_sha256 v) root_state (vf_final_state v)
       (length leaves) (vf_leaf_merkle_root v)) = Inr (vf_certificate_root v)"
    unfolding v using r(1-3) by simp_all
  show "case expected of None \<Rightarrow> True | Some e \<Rightarrow> vf_certificate_root v = e"
    unfolding v using r(4) by (auto simp: require_sha256_def split: option.splits if_splits)
  have "scan = \<lparr>sc_incoming = vf_incoming_states v, sc_final = vf_final_state v, sc_aggregate = Some (vf_aggregate v)\<rparr>"
    unfolding v using \<open>sc_aggregate scan = Some aggregate\<close> by (cases scan) simp
  then show "exclusive_scan_from_root root_state (map lf_transition leaves) = Inr \<lparr>sc_incoming = vf_incoming_states v,
       sc_final = vf_final_state v, sc_aggregate = Some (vf_aggregate v)\<rparr>"
    using \<open>exclusive_scan_from_root root_state (map lf_transition leaves) = Inr scan\<close> by simp
qed

lemma verify_covers:
  assumes "verify_affine_guard_certificate plan root_state leaves expected = Inr v"
  shows "list_all2 (leaf_matches plan (vf_plan_sha256 v)) leaves (pl_shards plan)"
  unfolding list_all2_conv_all_nth
  using verify_Inr(3,4,7) [OF assms] validate_against_matches by (auto simp: check_leaves_Inr)

lemma verify_runs:
  assumes "verify_affine_guard_certificate plan root_state leaves expected = Inr v"
    "list_all (wf_transition \<circ> lf_transition) leaves"
  shows "run_guards (map lf_transition leaves) root_state = Inr (vf_final_state v) \<and>
    vf_incoming_states v = prefix_states (map lf_transition leaves) root_state \<and>
    wf_transition (vf_aggregate v) \<and>
    (\<forall>s. length s = length root_state \<longrightarrow> tr_apply (vf_aggregate v) s = run_guards (map lf_transition leaves) s)"
proof -
  note f = verify_Inr [OF assms(1)]
  have "list_all (\<lambda>t. wf_transition t \<and> tr_dimension t = length root_state) (map lf_transition leaves)"
    using assms(2) verify_covers [OF assms(1)] f(2)
    by (fastforce simp: list_all_length list_all2_conv_all_nth leaf_matches_def)
  note scan = exclusive_scan_spec [OF this f(1)]
  show ?thesis
  proof (cases "run_guards (map lf_transition leaves) root_state")
    case (Inl e)
    with scan f(5) show ?thesis by simp
  next
    case (Inr final)
    with scan f(5) show ?thesis by (auto simp: aggregates_def)
  qed
qed

text \<open>All byte strings that the commitments of one verification hash.\<close>

definition certificate_messages :: "shard_plan \<Rightarrow> leaf list \<Rightarrow> verification \<Rightarrow> bytes list" where
  "certificate_messages plan leaves v = hashed PLAN_DOMAIN (plan_to_dict plan) @ leaf_messages leaves @
     hashed CERTIFICATE_ROOT_DOMAIN (certificate_payload (vf_plan_sha256 v) (vf_root_state v) (vf_final_state v)
       (length leaves) (vf_leaf_merkle_root v))"

lemma payload_inj:
  "jnorm (certificate_payload h r f n m) = jnorm (certificate_payload h' r' f' n' m') \<longleftrightarrow>
     h = h' \<and> r = r' \<and> f = f' \<and> n = n' \<and> m = m'"
  by (auto simp: certificate_payload_def jnorm_py_dict jnorm_int_list)

lemma certificate_binds:
  assumes "verify_affine_guard_certificate p r ls e = Inr v" "verify_affine_guard_certificate q s ms d = Inr w"
    "vf_certificate_root v = vf_certificate_root w"
  shows "(p = q \<and> r = s \<and> ls = ms) \<or> clash (certificate_messages p ls v) (certificate_messages q ms w)"
proof -
  note f = verify_Inr [OF assms(1)] and g = verify_Inr [OF assms(2)]
  from hash_binds [OF f(9) g(9) [folded assms(3)]] show ?thesis
  proof
    assume "jnorm (certificate_payload (vf_plan_sha256 v) r (vf_final_state v) (length ls) (vf_leaf_merkle_root v)) =
      jnorm (certificate_payload (vf_plan_sha256 w) s (vf_final_state w) (length ms) (vf_leaf_merkle_root w))"
    then have eq: "vf_plan_sha256 v = vf_plan_sha256 w" "r = s" "length ls = length ms"
      "vf_leaf_merkle_root v = vf_leaf_merkle_root w" by (auto simp: payload_inj)
    have "p = q \<or> clash (hashed PLAN_DOMAIN (plan_to_dict p)) (hashed PLAN_DOMAIN (plan_to_dict q))"
      using plan_digest_binds f(7) g(7) eq(1) by metis
    moreover have "ls = ms \<or> clash (leaf_messages ls) (leaf_messages ms)"
      using leaf_root_binds f(6) g(6) eq(3,4) by metis
    ultimately show ?thesis using eq(2) unfolding certificate_messages_def by (auto intro: clash_mono)
  next
    assume "clash (hashed CERTIFICATE_ROOT_DOMAIN (certificate_payload (vf_plan_sha256 v) r (vf_final_state v) (length ls) (vf_leaf_merkle_root v)))
      (hashed CERTIFICATE_ROOT_DOMAIN (certificate_payload (vf_plan_sha256 w) s (vf_final_state w) (length ms) (vf_leaf_merkle_root w)))"
    then show ?thesis using f(8) g(8) unfolding certificate_messages_def by (auto intro: clash_mono)
  qed
qed

end
