(* ===== verification/AffineGuard_Claims.thy ===== *)
theory AffineGuard_Claims
  imports AffineGuard_Cert
begin

text \<open>
  The properties of the affine-guard certificates, each with a small concrete instance: one
  transition, one plan of two shards and the certificate of a plan of one shard.
\<close>

section \<open>Concrete data\<close>

definition demo_transition :: transition where
  "demo_transition = \<lparr>tr_delta = [1], tr_lower = [0], tr_upper = [10]\<rparr>"

definition demo_shards :: "shard_range list" where
  "demo_shards = [\<lparr>sh_index = 0, sh_lower = 0, sh_upper = 4, sh_work_count = 4\<rparr>]"

definition demo_plan :: shard_plan where
  "demo_plan = \<lparr>pl_algorithm = lit ''demo'', pl_dimension = 1, pl_lower = 0, pl_upper = 4, pl_shards = demo_shards\<rparr>"

definition demo_leaf :: "pystr \<Rightarrow> leaf" where
  "demo_leaf sha = \<lparr>lf_plan_sha256 = sha, lf_shard_index = 0, lf_lower = 0, lf_upper = 4, lf_work_count = 4,
     lf_row_root = replicate 64 48, lf_transition = demo_transition,
     lf_lower_witnesses = [\<lparr>tw_row_index = 0, tw_prefix_delta = 0, tw_row_guard = 0\<rparr>],
     lf_upper_witnesses = [\<lparr>tw_row_index = 1, tw_prefix_delta = 1, tw_row_guard = 11\<rparr>],
     lf_exception_root = replicate 64 48\<rparr>"

lemma demo_transition_wf: "wf_transition demo_transition" "tr_dimension demo_transition = 1"
  by (simp_all add: demo_transition_def wf_transition_def tr_dimension_def)

lemma demo_plan_wf: "list_all wf_shard demo_shards" "mk_plan (lit ''demo'') 1 0 4 demo_shards = Inr demo_plan" "wf_plan demo_plan"
proof -
  show s: "list_all wf_shard demo_shards" by (simp add: demo_shards_def wf_shard_def)
  have "list_all (\<lambda>c. 32 \<le> c) (lit ''demo'') \<and> lit ''demo'' \<noteq> []" by (simp add: lit_def)
  then show "mk_plan (lit ''demo'') 1 0 4 demo_shards = Inr demo_plan"
    using s by (simp add: mk_plan_Inr demo_plan_def demo_shards_def)
  with s show "wf_plan demo_plan" by (simp add: wf_plan_def demo_plan_def)
qed

lemma zero_digest: "hex_string 64 (replicate 64 48)"
  by (simp add: hex_string_def list_all_length is_hex_digit_def)

lemma demo_leaf_wf: "hex_string 64 sha \<Longrightarrow> wf_leaf (demo_leaf sha)"
  using zero_digest demo_transition_wf
  by (simp add: wf_leaf_def mk_leaf_def demo_leaf_def require_sha256_def require_minimum_def witnesses_tight_def
      derived_guard_def demo_transition_def)

lemma hex_string_valid: "hex_string n s \<Longrightarrow> list_all valid_char s"
  by (auto simp: hex_string_def list_all_iff is_hex_digit_def valid_char_def)

lemma hash_json_hex: "hash_json tag v = Inr h \<Longrightarrow> hex_string 64 h"
  by (auto simp: hash_json_def res_simps)

lemma demo_plan_digest: "\<exists>sha. plan_sha256 demo_plan = Inr sha \<and> hex_string 64 sha"
proof -
  have "\<exists>sha. plan_sha256 demo_plan = Inr sha" unfolding plan_sha256_def
    by (rule hash_json_total) (simp_all add: plan_to_dict_def py_dict_def demo_plan_def demo_shards_def shard_to_dict_def PLAN_SCHEMA_def)
  then show ?thesis using hash_json_hex unfolding plan_sha256_def by blast
qed

lemma demo_leaf_digest: "hex_string 64 sha \<Longrightarrow> \<exists>h. leaf_sha256 (demo_leaf sha) = Inr h \<and> hex_string 64 h"
proof -
  assume sha: "hex_string 64 sha"
  have "\<exists>h. leaf_sha256 (demo_leaf sha) = Inr h" unfolding leaf_sha256_def
    by (rule hash_json_total) (simp_all add: leaf_to_dict_def py_dict_def demo_leaf_def tr_to_dict_def int_list_value_def
        demo_transition_def witness_to_dict_def LEAF_SCHEMA_def hex_string_valid [OF sha] hex_string_valid [OF zero_digest])
  then show ?thesis using hash_json_hex unfolding leaf_sha256_def by blast
qed

lemma demo_verified:
  assumes "plan_sha256 demo_plan = Inr sha" "hex_string 64 sha"
  shows "\<exists>v. verify_affine_guard_certificate demo_plan [0] [demo_leaf sha] None = Inr v"
proof -
  obtain h where h: "leaf_sha256 (demo_leaf sha) = Inr h" "hex_string 64 h" using demo_leaf_digest [OF assms(2)] by blast
  then obtain r where r: "affine_guard_leaf_merkle_root [demo_leaf sha] = Inr r" "hex_string 64 r"
    using hex_of_fromhex [of h] by (auto simp: affine_guard_leaf_merkle_root_def merkle_reduce_Inr merkle_loop.simps hex_string_def)
  have scan: "exclusive_scan_from_root [0] [demo_transition] =
      Inr \<lparr>sc_incoming = [[0]], sc_final = [1], sc_aggregate = Some demo_transition\<rparr>"
    by (simp add: exclusive_scan_from_root_def require_vector_def demo_transition_def tr_dimension_def tr_accepts_def tr_apply_def)
  have "\<exists>c. hash_json CERTIFICATE_ROOT_DOMAIN (certificate_payload sha [0] [1] 1 r) = Inr c"
    by (rule hash_json_total) (simp_all add: certificate_payload_def py_dict_def int_list_value_def CERTIFICATE_SCHEMA_def
        hex_string_valid [OF assms(2)] hex_string_valid [OF r(2)])
  moreover have "check_leaves demo_plan 0 [demo_leaf sha] = Inr ()"
    using assms(1) py_index_nat [where xs = demo_shards and i = 0]
    by (simp add: leaf_validate_against_def demo_leaf_def demo_plan_def demo_shards_def demo_transition_def tr_dimension_def)
  ultimately show ?thesis using scan r(1) assms(1)
    by (auto simp: verify_affine_guard_certificate_def require_vector_def demo_plan_def demo_leaf_def demo_shards_def)
qed

section \<open>Transitions and the scan\<close>

text \<open>C24: Composition of guarded transitions is exact: it succeeds precisely when some state passes
  both guards in turn, and the composed transition then accepts the same states and yields the same
  results as applying the two one after the other.\<close>

theorem composition_exact:
  assumes "wf_transition a" "wf_transition b" "tr_dimension a = tr_dimension b"
  shows "if \<exists>s r. length s = tr_dimension a \<and> ebind (tr_apply a s) (tr_apply b) = Inr r
    then \<exists>c. compose_affine_guards a b = Inr c \<and> wf_transition c \<and> tr_dimension c = tr_dimension a \<and>
      (\<forall>s. length s = tr_dimension a \<longrightarrow> tr_apply c s = ebind (tr_apply a s) (tr_apply b))
    else compose_affine_guards a b = Inl AffineError"
proof -
  note eq = compose_eq [OF assms(3)] and f = composed_fields(1) [OF assms] and wf = composed_wf [OF assms]
  have two: "ebind (tr_apply a s) (tr_apply b) =
      (if admits a s \<and> admits b (shift a s) then Inr (shift b (shift a s)) else Inl AffineError)"
    if "length s = tr_dimension a" for s
    using that assms by (simp add: tr_apply_eq)
  have "tr_apply (composed a b) s = ebind (tr_apply a s) (tr_apply b)"
    if "wf_transition (composed a b)" "length s = tr_dimension a" for s
    using composed_admits [OF assms that(2)] two [OF that(2)] tr_apply_eq [OF that(1)] that(2) f by simp
  moreover have "(\<exists>s r. length s = tr_dimension a \<and> ebind (tr_apply a s) (tr_apply b) = Inr r) \<longleftrightarrow> wf_transition (composed a b)"
    unfolding wf using two by (metis (no_types, lifting) sum.distinct(1))
  ultimately show ?thesis using eq f by auto
qed

theorem composition_exact_witness: "\<exists>c. compose_affine_guards demo_transition demo_transition = Inr c \<and> tr_apply c [3] = Inr [5]"
proof -
  have "ebind (tr_apply demo_transition [3]) (tr_apply demo_transition) = Inr [5]"
    by (simp add: tr_apply_def tr_accepts_def require_vector_def demo_transition_def tr_dimension_def)
  then show ?thesis
    using composition_exact [OF demo_transition_wf(1) demo_transition_wf(1) refl] demo_transition_wf(2)
    by (metis One_nat_def length_Cons list.size(3))
qed

text \<open>C25: The exclusive scan is the sequential run: on well-formed transitions of one dimension it
  fails exactly when the run does, and otherwise returns the state before every transition, the
  final state, and an aggregate that acts on every state as the whole sequence.\<close>

theorem scan_is_sequential_run:
  assumes "list_all (\<lambda>t. wf_transition t \<and> tr_dimension t = length start) ts" "start \<noteq> []"
  shows "case run_guards ts start of Inl e \<Rightarrow> exclusive_scan_from_root start ts = Inl AffineError
    | Inr final \<Rightarrow> \<exists>agg. exclusive_scan_from_root start ts =
        Inr \<lparr>sc_incoming = prefix_states ts start, sc_final = final, sc_aggregate = agg\<rparr> \<and>
        aggregates (length start) ts agg"
  by (rule exclusive_scan_spec [OF assms])

theorem scan_is_sequential_run_witness:
  "\<exists>agg. exclusive_scan_from_root [9] [demo_transition, demo_transition] =
     Inr \<lparr>sc_incoming = [[9], [10]], sc_final = [11], sc_aggregate = agg\<rparr>"
proof -
  have "run_guards [demo_transition, demo_transition] [9] = Inr [11]"
    by (simp add: tr_apply_def tr_accepts_def require_vector_def demo_transition_def tr_dimension_def)
  then show ?thesis
    using scan_is_sequential_run [of "[9]" "[demo_transition, demo_transition]"] demo_transition_wf
    by (auto simp: shift_def demo_transition_def)
qed

section \<open>Plans and wire forms\<close>

lemma check_shards_work:
  "check_shards i lo shards = Inr hi \<Longrightarrow> list_all wf_shard shards \<Longrightarrow> sum_list (map sh_work_count shards) = hi - lo"
proof (induction i lo shards rule: check_shards.induct)
  case (2 i lo s shards)
  then have s: "sh_index s = i" "sh_lower s = lo" "wf_shard s" "check_shards (i + 1) (sh_upper s) shards = Inr hi"
    by (auto split: if_splits)
  with 2 show ?case by (simp add: wf_shard_def)
qed simp

text \<open>An accepted plan tiles its domain: every point of the domain lies in exactly one shard, no
  point outside in any, the shards are numbered in order and the work counts add up to the domain.\<close>

theorem plan_tiles_domain:
  assumes "list_all wf_shard shards" "mk_plan a d lo hi shards = Inr p"
  shows "(\<forall>x. cover_count (pl_shards p) x = (if pl_lower p \<le> x \<and> x < pl_upper p then 1 else 0)) \<and>
    map sh_index (pl_shards p) = map int [0..<length (pl_shards p)] \<and>
    sum_list (map sh_work_count (pl_shards p)) = pl_upper p - pl_lower p"
proof -
  from assms have p: "p = \<lparr>pl_algorithm = a, pl_dimension = d, pl_lower = lo, pl_upper = hi, pl_shards = shards\<rparr>"
    "check_shards 0 lo shards = Inr hi" by (auto simp: mk_plan_Inr)
  from check_shards_cover [OF p(2) assms(1)] check_shards_work [OF p(2) assms(1)] show ?thesis by (simp add: p(1))
qed

theorem plan_tiles_domain_witness: "cover_count (pl_shards demo_plan) 3 = 1 \<and> cover_count (pl_shards demo_plan) 4 = 0"
  using plan_tiles_domain [OF demo_plan_wf(1,2)] by (simp add: demo_plan_def)

text \<open>The wire forms of well-formed plans and leaves read back as the same plan and leaf.\<close>

theorem wire_forms_roundtrip:
  assumes "wf_plan p" "wf_leaf l"
  shows "plan_from_dict (plan_to_dict p) = Inr p \<and> leaf_from_dict (leaf_to_dict l) = Inr l"
  using plan_roundtrip [OF assms(1)] leaf_roundtrip [OF assms(2)] by simp

theorem wire_forms_roundtrip_witness:
  "plan_from_dict (plan_to_dict demo_plan) = Inr demo_plan \<and>
   leaf_from_dict (leaf_to_dict (demo_leaf (replicate 64 48))) = Inr (demo_leaf (replicate 64 48))"
  by (rule wire_forms_roundtrip [OF demo_plan_wf(3) demo_leaf_wf [OF zero_digest]])

section \<open>Commitments\<close>

text \<open>C28: The Merkle reduction is total on digests (the loop ends with exactly one digest) and binds
  them: equal roots over equally many digests mean equal digests, or two of the messages that the
  two reductions hash collide under SHA-256.\<close>

theorem merkle_root_binds:
  assumes "list_all (hex_string 64) ds" "list_all (hex_string 64) es" "length ds = length es"
  shows "\<exists>r s. merkle_reduce ds node_domain odd_domain empty_domain = Inr r \<and>
    merkle_reduce es node_domain odd_domain empty_domain = Inr s \<and>
    (if r = s then ds = es \<or> clash (merkle_messages node_domain odd_domain (map bytes_fromhex ds))
                                  (merkle_messages node_domain odd_domain (map bytes_fromhex es))
     else ds \<noteq> es)"
proof -
  obtain r s where rs: "merkle_reduce ds node_domain odd_domain empty_domain = Inr r"
    "merkle_reduce es node_domain odd_domain empty_domain = Inr s"
    using merkle_reduce_Inr [OF assms(1)] merkle_reduce_Inr [OF assms(2)] by blast
  show ?thesis
  proof (cases "r = s")
    case True
    with merkle_reduce_binds [OF rs(1) _ assms(3)] rs show ?thesis unfolding clash_def by simp
  next
    case False
    with rs show ?thesis by (metis sum.inject(2))
  qed
qed

theorem merkle_root_binds_witness:
  "\<exists>r s. merkle_reduce [replicate 64 48, replicate 64 48] [1] [2] [] = Inr r \<and>
     merkle_reduce [replicate 64 48, replicate 64 49] [1] [2] [] = Inr s"
proof -
  have "hex_string 64 (replicate 64 49)" by (simp add: hex_string_def list_all_length is_hex_digit_def)
  then show ?thesis
    using merkle_root_binds [of "[replicate 64 48, replicate 64 48]" "[replicate 64 48, replicate 64 49]" "[1]" "[2]" "[]"] zero_digest
    by fastforce
qed

text \<open>C2: A verified certificate is sound: its leaves match the plan's shards one for one and carry
  its digest, running the leaves' transitions from the root state succeeds with the reported
  incoming and final states, the aggregate acts as the whole run, and an expected root is met.\<close>

theorem verified_certificate_sound:
  assumes "verify_affine_guard_certificate plan root_state leaves expected = Inr v"
    "list_all (wf_transition \<circ> lf_transition) leaves"
  shows "plan_sha256 plan = Inr (vf_plan_sha256 v) \<and>
    list_all2 (leaf_matches plan (vf_plan_sha256 v)) leaves (pl_shards plan) \<and>
    run_guards (map lf_transition leaves) root_state = Inr (vf_final_state v) \<and>
    vf_incoming_states v = prefix_states (map lf_transition leaves) root_state \<and>
    (\<forall>s. length s = length root_state \<longrightarrow>
      tr_apply (vf_aggregate v) s = run_guards (map lf_transition leaves) s) \<and>
    (case expected of None \<Rightarrow> True | Some e \<Rightarrow> vf_certificate_root v = e)"
  using verify_runs [OF assms] verify_covers [OF assms(1)] verify_Inr(7,10) [OF assms(1)] by simp

theorem verified_certificate_sound_witness:
  "\<exists>sha v. verify_affine_guard_certificate demo_plan [0] [demo_leaf sha] None = Inr v \<and> vf_final_state v = [1]"
proof -
  obtain sha v where s: "verify_affine_guard_certificate demo_plan [0] [demo_leaf sha] None = Inr v"
    using demo_plan_digest demo_verified by blast
  have "list_all (wf_transition \<circ> lf_transition) [demo_leaf sha]" using demo_transition_wf by (simp add: demo_leaf_def)
  from verified_certificate_sound [OF s this] have "run_guards [demo_transition] [0] = Inr (vf_final_state v)"
    by (simp add: demo_leaf_def)
  then have "vf_final_state v = [1]"
    by (simp add: tr_apply_def tr_accepts_def require_vector_def demo_transition_def tr_dimension_def)
  with s show ?thesis by blast
qed

text \<open>C3: The certificate root commits to the whole run: two verified certificates with one root have
  the same plan, root state and leaves, or two of the messages hashed for them collide.\<close>

theorem certificate_root_binds:
  assumes "verify_affine_guard_certificate p r ls e = Inr v" "verify_affine_guard_certificate q s ms d = Inr w"
    "vf_certificate_root v = vf_certificate_root w"
  shows "(p = q \<and> r = s \<and> ls = ms) \<or> clash (certificate_messages p ls v) (certificate_messages q ms w)"
  by (rule certificate_binds [OF assms])

theorem certificate_root_binds_witness:
  "\<exists>sha v. verify_affine_guard_certificate demo_plan [0] [demo_leaf sha] None = Inr v \<and>
     (([0::int] = [0] \<and> [demo_leaf sha] = [demo_leaf sha]) \<or>
      clash (certificate_messages demo_plan [demo_leaf sha] v) (certificate_messages demo_plan [demo_leaf sha] v))"
  using demo_plan_digest demo_verified certificate_root_binds by blast

section \<open>Labels that cannot be encoded\<close>

lemma join_contains: "x \<in> set xs \<Longrightarrow> set x \<subseteq> set (join_comma xs)"
  by (induction xs rule: join_comma.induct) auto

lemma text_of_item: "(k, v) \<in> set d \<Longrightarrow> set (json_text v) \<subseteq> set (json_text (PDict d))"
proof -
  assume "(k, v) \<in> set d"
  then have "json_string k @ [58] @ json_text v \<in>
      set (map (\<lambda>(k, v). json_string k @ [58] @ json_text v) (sort_key fst d))" by force
  from join_contains [OF this] show ?thesis unfolding json_text.simps by auto
qed

lemma utf8_surrogate: "c \<in> set s \<Longrightarrow> 0xD800 \<le> c \<Longrightarrow> c < 0xE000 \<Longrightarrow> utf8_text s = Inl UnicodeEncodeError"
proof (induction s)
  case (Cons x s)
  have chars: "utf8_char x = Inl e \<Longrightarrow> e = UnicodeEncodeError" for e by (auto simp: utf8_char_def split: if_splits)
  have bad: "utf8_char c = Inl UnicodeEncodeError" using Cons.prems by (simp add: utf8_char_def)
  from Cons bad show ?case by (cases "utf8_char x") (auto dest: chars)
qed simp

lemma plan_validates: "campaign_validate_json None (plan_to_dict p) = Inr ()"
  by (simp add: campaign_validate_json_Inr plan_to_dict_def py_dict_def shard_to_dict_def list_all_iff)

lemma label_in_text: "set (json_string (pl_algorithm p)) \<subseteq> set (json_text (plan_to_dict p))"
proof -
  have "set (json_text (PStr (pl_algorithm p))) \<subseteq> set (json_text (plan_to_dict p))"
    unfolding plan_to_dict_def py_dict_def by (rule text_of_item [where k = "lit ''algorithm''"]) simp
  then show ?thesis unfolding json_text.simps .
qed

text \<open>A plan label may contain a lone surrogate: such a plan is accepted, but its digest raises
  \<open>UnicodeEncodeError\<close>, which is not the module's error class.\<close>

theorem surrogate_label_breaks_digest:
  "\<exists>p. mk_plan [0xD800] 1 0 4 demo_shards = Inr p \<and> plan_sha256 p = Inl UnicodeEncodeError"
proof -
  let ?p = "\<lparr>pl_algorithm = [0xD800], pl_dimension = 1, pl_lower = 0, pl_upper = 4, pl_shards = demo_shards\<rparr>"
  have plan: "mk_plan [0xD800] 1 0 4 demo_shards = Inr ?p"
    using demo_plan_wf(1) by (simp add: mk_plan_Inr demo_shards_def)
  have "0xD800 \<in> set (json_string (pl_algorithm ?p))"
    by (simp add: json_string_def json_escape_def)
  then have "0xD800 \<in> set (json_text (plan_to_dict ?p))" using label_in_text [of ?p] by blast
  then have "utf8_text (json_text (plan_to_dict ?p)) = Inl UnicodeEncodeError"
    by (rule utf8_surrogate) simp_all
  moreover have "printable (plan_to_dict ?p)"
    by (simp add: plan_to_dict_def py_dict_def shard_to_dict_def demo_shards_def int_digits_okI)
  ultimately have "plan_sha256 ?p = Inl UnicodeEncodeError"
    by (simp add: plan_sha256_def hash_json_def campaign_json_bytes_def campaign_json_within_def json_dumps_None
        utf8_encode_def plan_validates)
  with plan show ?thesis by blast
qed

end
