(* ===== verification/Sha256_KAT.thy ===== *)
theory Sha256_KAT
  imports Sha256
begin

text \<open>The SHA-256 definition on the FIPS 180-4 test vector ``abc''.\<close>

lemma sha256_abc_block:
  "sha_block sha_init [0x61626380, 0, 0, 0, 0, 0, 0, 0, 0, 0, 0, 0, 0, 0, 0, 24] =
     (0xba7816bf, 0x8f01cfea, 0x414140de, 0x5dae2223, 0xb00361a3, 0x96177a9c, 0xb410ff61, 0xf20015ad)"
  by code_simp

lemma sha256_abc_words:
  "be_words (sha_pad (bytes_lit ''abc'')) = [0x61626380, 0, 0, 0, 0, 0, 0, 0, 0, 0, 0, 0, 0, 0, 0, 24]"
  by code_simp

lemma to_hex_word: "to_hex 8 x = map (\<lambda>k. hex_digit (x div 16 ^ k mod 16)) [7, 6, 5, 4, 3, 2, 1, 0]"
proof -
  have eight: "(8::nat) = Suc (Suc (Suc (Suc (Suc (Suc (Suc (Suc 0)))))))" by simp
  show ?thesis unfolding eight to_hex.simps by (simp add: div_mult2_eq [symmetric])
qed

lemma sha256_abc:
  "sha256_hex (bytes_lit ''abc'') = lit ''ba7816bf8f01cfea414140de5dae2223b00361a396177a9cb410ff61f20015ad''"
  unfolding sha256_hex_def sha256_abc_words sha_blocks.simps
  by (simp add: sha256_abc_block to_hex_word hex_digit_def lit_def)

end
