(* ===== verification/JsonText.thy ===== *)
theory JsonText
  imports CampaignIO
begin

text \<open>
  Reading JSON: the strict UTF-8 decoder, the scanner of \<open>json.loads\<close> with the hooks that the
  sources pass (\<open>object_pairs_hook\<close>, \<open>parse_float\<close>, \<open>parse_constant\<close>), and the two readers
  \<open>parse_json_bytes\<close> of \<open>reference/format.py\<close> and \<open>tg_verifier/campaign_io.py\<close> with the readers
  built on them.

  The scanner follows CPython's: its recursion is bounded by fuel, and \<open>json_loads\<close> gives one unit
  more than twice the characters of the text, which is enough for every text: more fuel changes
  nothing (\<open>scan_fuel\<close> in \<open>JsonText_Values\<close>).  CPython's own recursion limit is the \<open>budget\<close> of nested
  calls, its limit on the digits of an integer \<open>INT_MAX_STR_DIGITS\<close>.
\<close>

section \<open>UTF-8\<close>

text \<open>The number of bytes a lead byte announces; 0 for a byte that cannot start a character.\<close>

definition utf8_width :: "nat \<Rightarrow> nat" where
  "utf8_width b = (if b < 0x80 then 1 else if b < 0xC0 then 0 else if b < 0xE0 then 2
     else if b < 0xF0 then 3 else if b < 0xF8 then 4 else 0)"

definition utf8_lead :: "nat \<Rightarrow> nat" where
  "utf8_lead b = (if b < 0x80 then b else if b < 0xE0 then b mod 32 else if b < 0xF0 then b mod 16 else b mod 8)"

text \<open>Strictness: a character counts only when encoding it gives back these very bytes, which rules
  out surrogates, overlong forms, bad continuation bytes and values above \<open>0x10FFFF\<close>.\<close>

function utf8_decode_text :: "nat list \<Rightarrow> pystr res" where
  "utf8_decode_text bs = (case bs of [] \<Rightarrow> Inr [] | b # _ \<Rightarrow>
     let w = utf8_width b;
         c = foldl (\<lambda>acc x. 64 * acc + x mod 64) (utf8_lead b) (take (w - 1) (tl bs))
     in if w = 0 \<or> utf8_char c \<noteq> Inr (take w bs) then Inl UnicodeDecodeError
        else ebind (utf8_decode_text (drop w bs)) (\<lambda>s. Inr (c # s)))"
  by pat_completeness auto
termination
  by (relation "measure length") (auto simp: Let_def)

declare utf8_decode_text.simps [simp del]

definition utf8_decode :: "bytes \<Rightarrow> pystr res" where
  "utf8_decode bs = utf8_decode_text (map unat bs)"

section \<open>Tokens\<close>

fun skip_ws :: "pystr \<Rightarrow> pystr" where
  "skip_ws (c # s) = (if c = 32 \<or> c = 9 \<or> c = 10 \<or> c = 13 then skip_ws s else c # s)"
| "skip_ws [] = []"

definition next_is :: "nat \<Rightarrow> pystr \<Rightarrow> bool" where
  "next_is c s \<longleftrightarrow> (case s of [] \<Rightarrow> False | x # _ \<Rightarrow> x = c)"

definition expect :: "nat \<Rightarrow> pystr \<Rightarrow> pystr res" where
  "expect c s = (if next_is c s then Inr (tl s) else Inl JSONDecodeError)"

text \<open>Escapes other than \<open>\u\<close>, and four hexadecimal digits of either case.\<close>

definition simple_escape :: "nat \<Rightarrow> nat option" where
  "simple_escape e = (if e = 34 \<or> e = 92 \<or> e = 47 then Some e else if e = 98 then Some 8
     else if e = 102 then Some 12 else if e = 110 then Some 10 else if e = 114 then Some 13
     else if e = 116 then Some 9 else None)"

definition hex_any :: "nat \<Rightarrow> nat option" where
  "hex_any c = (if is_hex_digit c then Some (hex_value c)
     else if 65 \<le> c \<and> c \<le> 70 then Some (c - 55) else None)"

fun hex4 :: "pystr \<Rightarrow> (nat \<times> pystr) res" where
  "hex4 (a # b # c # d # s) = (case (hex_any a, hex_any b, hex_any c, hex_any d) of
     (Some w, Some x, Some y, Some z) \<Rightarrow> Inr (((w * 16 + x) * 16 + y) * 16 + z, s)
   | _ \<Rightarrow> Inl JSONDecodeError)"
| "hex4 _ = Inl JSONDecodeError"

text \<open>The low half of a surrogate pair, when it follows a high half; otherwise the code unit alone.\<close>

definition pair_surrogates :: "nat \<Rightarrow> pystr \<Rightarrow> nat \<times> pystr" where
  "pair_surrogates u s =
     (if 0xD800 \<le> u \<and> u < 0xDC00 \<and> next_is 92 s \<and> next_is 117 (tl s) then
        (case hex4 (drop 2 s) of
           Inr (l, r) \<Rightarrow> if 0xDC00 \<le> l \<and> l < 0xE000 then (0x10000 + (u - 0xD800) * 1024 + (l - 0xDC00), r) else (u, s)
         | Inl _ \<Rightarrow> (u, s))
      else (u, s))"

lemma hex4_shorter: "hex4 s = Inr (u, r) \<Longrightarrow> length r < length s"
  by (cases s rule: hex4.cases) (auto split: option.splits)

lemma pair_shorter: "pair_surrogates u s = (v, r) \<Longrightarrow> length r \<le> length s"
  by (auto simp: pair_surrogates_def split: if_splits sum.splits dest!: hex4_shorter)

text \<open>The characters of a string after its opening quote, up to the closing one.\<close>

function scan_string :: "pystr \<Rightarrow> (pystr \<times> pystr) res" where
  "scan_string [] = Inl JSONDecodeError"
| "scan_string (c # s) =
     (if c = 34 then Inr ([], s)
      else if c < 32 then Inl JSONDecodeError
      else if c \<noteq> 92 then ebind (scan_string s) (\<lambda>(t, r). Inr (c # t, r))
      else if next_is 117 s then ebind (hex4 (tl s)) (\<lambda>(u, s'). case pair_surrogates u s' of (v, s'') \<Rightarrow>
        ebind (scan_string s'') (\<lambda>(t, r). Inr (v # t, r)))
      else (case s of [] \<Rightarrow> Inl JSONDecodeError | e # s' \<Rightarrow> (case simple_escape e of
          None \<Rightarrow> Inl JSONDecodeError
        | Some x \<Rightarrow> ebind (scan_string s') (\<lambda>(t, r). Inr (x # t, r)))))"
  by pat_completeness auto
termination
proof (relation "measure length")
  fix c s x u s' v s''
  assume "hex4 (tl s) = Inr x" "(u, s') = x" "(v, s'') = pair_surrogates u s'"
  then have "length s' < length (tl s)" "length s'' \<le> length s'"
    using pair_shorter [of u s' v s''] by (auto dest: hex4_shorter)
  then show "(s'', c # s) \<in> measure length" by (cases s) auto
qed auto

declare scan_string.simps [simp del]

definition is_digit :: "nat \<Rightarrow> bool" where
  "is_digit c \<longleftrightarrow> 48 \<le> c \<and> c \<le> 57"

definition number_value :: "pystr \<Rightarrow> int" where
  "number_value ds = foldl (\<lambda>acc c. 10 * acc + (int c - 48)) 0 ds"

text \<open>The integer part: a single zero, or digits that do not start with one.\<close>

definition digit_run :: "pystr \<Rightarrow> pystr" where
  "digit_run t = (if next_is 48 t then [48] else takeWhile is_digit t)"

text \<open>Whether a fraction or an exponent follows: the number is then handed to \<open>parse_float\<close>.\<close>

definition float_follows :: "pystr \<Rightarrow> bool" where
  "float_follows r \<longleftrightarrow>
     (next_is 46 r \<and> (case tl r of d # _ \<Rightarrow> is_digit d | [] \<Rightarrow> False)) \<or>
     ((next_is 101 r \<or> next_is 69 r) \<and>
        (let t = tl r; u = (if next_is 43 t \<or> next_is 45 t then tl t else t)
         in case u of d # _ \<Rightarrow> is_digit d | [] \<Rightarrow> False))"

definition scan_number :: "exc \<Rightarrow> pystr \<Rightarrow> (pyval \<times> pystr) res" where
  "scan_number float_error s =
     (let neg = next_is 45 s; t = (if neg then tl s else s);
          ds = digit_run t;
          r = drop (length ds) t
      in if ds = [] then Inl JSONDecodeError
         else if float_follows r then Inl float_error
         else if length ds > INT_MAX_STR_DIGITS then Inl ValueError
         else Inr (PInt (if neg then - number_value ds else number_value ds), r))"

text \<open>A literal name: the rest after it.\<close>

definition after :: "string \<Rightarrow> pystr \<Rightarrow> pystr option" where
  "after name s = (if take (length name) s = lit name then Some (drop (length name) s) else None)"

section \<open>Values\<close>

fun scan_value :: "budget \<Rightarrow> exc \<Rightarrow> ((pystr \<times> pyval) list \<Rightarrow> pyval res) \<Rightarrow> nat \<Rightarrow> pystr \<Rightarrow> (pyval \<times> pystr) res"
  and scan_items :: "budget \<Rightarrow> exc \<Rightarrow> ((pystr \<times> pyval) list \<Rightarrow> pyval res) \<Rightarrow> nat \<Rightarrow> pystr \<Rightarrow> (pyval list \<times> pystr) res"
  and scan_pairs :: "budget \<Rightarrow> exc \<Rightarrow> ((pystr \<times> pyval) list \<Rightarrow> pyval res) \<Rightarrow> nat \<Rightarrow> pystr \<Rightarrow> ((pystr \<times> pyval) list \<times> pystr) res" where
  "scan_value d fe hook 0 s = Inl JSONDecodeError"
| "scan_value d fe hook (Suc n) s =
     (if next_is 34 s then ebind (scan_string (tl s)) (\<lambda>(t, r). Inr (PStr t, r))
      else if next_is 123 s then
        ebind (enter d) (\<lambda>d. let b = skip_ws (tl s)
         in ebind (if next_is 125 b then Inr ([], tl b) else scan_pairs d fe hook n b)
              (\<lambda>(ps, r). ebind (hook ps) (\<lambda>v. Inr (v, r))))
      else if next_is 91 s then
        ebind (enter d) (\<lambda>d. let b = skip_ws (tl s)
         in ebind (if next_is 93 b then Inr ([], tl b) else scan_items d fe hook n b)
              (\<lambda>(vs, r). Inr (PList vs, r)))
      else case after ''null'' s of Some r \<Rightarrow> Inr (PNone, r) | None \<Rightarrow>
        (case after ''true'' s of Some r \<Rightarrow> Inr (PBool True, r) | None \<Rightarrow>
        (case after ''false'' s of Some r \<Rightarrow> Inr (PBool False, r) | None \<Rightarrow>
          if after ''NaN'' s \<noteq> None \<or> after ''Infinity'' s \<noteq> None \<or> after ''-Infinity'' s \<noteq> None then Inl fe
          else scan_number fe s)))"
| "scan_items d fe hook 0 s = Inl JSONDecodeError"
| "scan_items d fe hook (Suc n) s = ebind (scan_value d fe hook n s) (\<lambda>(v, r).
     let r = skip_ws r
     in if next_is 93 r then Inr ([v], tl r)
        else ebind (expect 44 r) (\<lambda>r'. ebind (scan_items d fe hook n (skip_ws r')) (\<lambda>(vs, r''). Inr (v # vs, r''))))"
| "scan_pairs d fe hook 0 s = Inl JSONDecodeError"
| "scan_pairs d fe hook (Suc n) s = ebind (expect 34 s) (\<lambda>s1. ebind (scan_string s1) (\<lambda>(k, s2).
     ebind (expect 58 (skip_ws s2)) (\<lambda>s3. ebind (scan_value d fe hook n (skip_ws s3)) (\<lambda>(v, r).
       let r = skip_ws r
       in if next_is 125 r then Inr ([(k, v)], tl r)
          else ebind (expect 44 r) (\<lambda>r'. ebind (scan_pairs d fe hook n (skip_ws r')) (\<lambda>(ps, r''). Inr ((k, v) # ps, r'')))))))"

definition json_loads :: "budget \<Rightarrow> exc \<Rightarrow> ((pystr \<times> pyval) list \<Rightarrow> pyval res) \<Rightarrow> pystr \<Rightarrow> pyval res" where
  "json_loads d fe hook s =
     (if next_is 0xFEFF s then Inl JSONDecodeError
      else ebind (scan_value d fe hook (2 * length s + 1) (skip_ws s)) (\<lambda>(v, r).
        if skip_ws r = [] then Inr v else Inl JSONDecodeError))"

section \<open>The readers\<close>

text \<open>
  The stack left to a reader: how far the scanner, the validator, and the validator and the encoder
  inside the canonical encoding may nest before CPython raises \<open>RecursionError\<close>.  They depend on the
  interpreter and its caller.  The readers that the rest of the development uses have a stack deep
  enough for their input.
\<close>

record stack_budget =
  sb_scan :: budget
  sb_validate :: budget
  sb_encode_validate :: budget
  sb_encode :: budget

definition deep_stack :: stack_budget where
  "deep_stack = \<lparr>sb_scan = None, sb_validate = None, sb_encode_validate = None, sb_encode = None\<rparr>"

text \<open>\<open>parse_json_bytes\<close> of \<open>reference/format.py\<close>; \<open>reject_float\<close> and \<open>reject_constant\<close> raise \<open>FormatError\<close>.\<close>

definition parse_json_within :: "stack_budget \<Rightarrow> bytes \<Rightarrow> pyval res" where
  "parse_json_within stack data =
     (if length data > MAX_CANONICAL_JSON_BYTES then Inl FormatError
      else ebind (catch_as (\<lambda>e. e = UnicodeDecodeError) FormatError (utf8_decode data)) (\<lambda>text.
        ebind (catch_as (\<lambda>e. value_error e \<or> e = RecursionError) FormatError
            (json_loads (sb_scan stack) FormatError object_without_duplicate_keys text)) (\<lambda>value.
          catch_as (\<lambda>e. e = RecursionError) FormatError
            (ebind (validate_json_value (sb_validate stack) value) (\<lambda>_.
             ebind (canonical_json_within (sb_encode_validate stack) (sb_encode stack) value) (\<lambda>canonical.
            if data \<noteq> canonical then Inl FormatError else Inr value))))))"

definition parse_json_bytes :: "bytes \<Rightarrow> pyval res" where
  "parse_json_bytes data = parse_json_within deep_stack data"

definition parse_batch_bytes :: "bytes \<Rightarrow> (pystr \<times> pyval) list res" where
  "parse_batch_bytes data = ebind (parse_json_bytes data) validate_batch"

definition parse_result_bytes :: "bytes \<Rightarrow> pyval option \<Rightarrow> (pystr \<times> pyval) list res" where
  "parse_result_bytes data batch = ebind (parse_json_bytes data) (\<lambda>v. validate_result v batch)"

definition parse_certificate_bytes :: "bytes \<Rightarrow> (pystr \<times> pyval) list res" where
  "parse_certificate_bytes data = ebind (parse_json_bytes data) validate_certificate"

text \<open>\<open>parse_json_bytes\<close> of \<open>tg_verifier/campaign_io.py\<close>, and \<open>load_json\<close> on the bytes that
  \<open>read_bytes_once\<close> captured.  Neither a plain \<open>ValueError\<close> nor \<open>RecursionError\<close> is caught.\<close>

definition campaign_caught :: "exc \<Rightarrow> bool" where
  "campaign_caught e \<longleftrightarrow> e \<in> {UnicodeDecodeError, UnicodeEncodeError, JSONDecodeError, TypeError}"

definition campaign_parse_within :: "stack_budget \<Rightarrow> bytes \<Rightarrow> pyval res" where
  "campaign_parse_within stack raw =
     ebind (catch_as campaign_caught CampaignIOError
         (ebind (utf8_decode raw) (json_loads (sb_scan stack) CampaignIOError object_without_duplicates))) (\<lambda>value.
       ebind (campaign_validate_json (sb_validate stack) value) (\<lambda>_. Inr value))"

definition campaign_parse_json_bytes :: "bytes \<Rightarrow> pyval res" where
  "campaign_parse_json_bytes raw = campaign_parse_within deep_stack raw"

definition load_json_within :: "stack_budget \<Rightarrow> bytes \<Rightarrow> bool \<Rightarrow> pyval res" where
  "load_json_within stack raw require_canonical = ebind (campaign_parse_within stack raw) (\<lambda>value.
     if require_canonical then ebind (campaign_json_within (sb_encode_validate stack) (sb_encode stack) value) (\<lambda>canonical.
       if raw \<noteq> canonical then Inl CampaignIOError else Inr value)
     else Inr value)"

definition load_json :: "bytes \<Rightarrow> bool \<Rightarrow> pyval res" where
  "load_json raw require_canonical = load_json_within deep_stack raw require_canonical"

end
