(* ===== verification/JsonText_Facts.thy ===== *)
theory JsonText_Facts
  imports JsonText Encodable
begin

text \<open>
  The decoder inverts the encoder, the scanner reads back every encoded value, its fuel is enough
  for every text, and it only builds dictionaries with distinct keys.
\<close>

section \<open>UTF-8\<close>

lemma utf8_lead_char:
  assumes "utf8_char c = Inr u"
  shows "u \<noteq> [] \<and> utf8_width (hd u) = length u \<and> foldl (\<lambda>acc x. 64 * acc + x mod 64) (utf8_lead (hd u)) (tl u) = c"
  using assms
proof (cases rule: utf8_char_cases)
  case 1
  then show ?thesis by (simp add: utf8_width_def utf8_lead_def)
next
  case 2
  have "c div 64 < 32" using 2 by auto
  moreover have "64 * (c div 64) + c mod 64 = c" by simp
  ultimately show ?thesis using 2 by (simp add: utf8_width_def utf8_lead_def mod_add_eq [symmetric])
next
  case 3
  have "c div 4096 < 16" using 3 by auto
  moreover have "64 * (64 * (c div 4096) + c div 64 mod 64) + c mod 64 = c"
    by (metis div_mod_64(1) mult_div_mod_eq)
  ultimately show ?thesis using 3 by (simp add: utf8_width_def utf8_lead_def mod_add_eq [symmetric])
next
  case 4
  have "c div 262144 < 8" using 4 by auto
  moreover have "64 * (64 * (64 * (c div 262144) + c div 4096 mod 64) + c div 64 mod 64) + c mod 64 = c"
    by (metis div_mod_64 mult_div_mod_eq)
  ultimately show ?thesis using 4 by (simp add: utf8_width_def utf8_lead_def mod_add_eq [symmetric])
qed

lemma utf8_decode_char:
  assumes "utf8_char c = Inr u"
  shows "utf8_decode_text (u @ r) = ebind (utf8_decode_text r) (\<lambda>s. Inr (c # s))"
proof -
  obtain b t where u: "u = b # t" using utf8_lead_char [OF assms] by (cases u) auto
  then have "utf8_width b = Suc (length t)" "foldl (\<lambda>acc x. 64 * acc + x mod 64) (utf8_lead b) t = c"
    using utf8_lead_char [OF assms] by simp_all
  then show ?thesis using assms u by (subst utf8_decode_text.simps) simp
qed

lemma utf8_decode_encoded: "utf8_text s = Inr u \<Longrightarrow> utf8_decode_text u = Inr s"
proof (induction s arbitrary: u)
  case Nil
  then show ?case by (subst utf8_decode_text.simps) simp
next
  case (Cons c s)
  then obtain v w where "utf8_char c = Inr v" "utf8_text s = Inr w" "u = v @ w" by (auto simp: res_simps)
  with Cons.IH show ?case by (simp add: utf8_decode_char)
qed

lemma utf8_decode_Cons:
  "utf8_decode_text (b # t) = (let w = utf8_width b;
      c = foldl (\<lambda>acc x. 64 * acc + x mod 64) (utf8_lead b) (take (w - 1) t)
    in if w = 0 \<or> utf8_char c \<noteq> Inr (take w (b # t)) then Inl UnicodeDecodeError
       else ebind (utf8_decode_text (drop w (b # t))) (\<lambda>s. Inr (c # s)))"
  by (subst utf8_decode_text.simps) simp

lemma utf8_encode_decoded: "utf8_decode_text u = Inr s \<Longrightarrow> utf8_text s = Inr u"
proof (induction u arbitrary: s rule: utf8_decode_text.induct)
  case (1 bs)
  show ?case
  proof (cases bs)
    case Nil
    with 1(2) show ?thesis by (simp add: utf8_decode_text.simps)
  next
    case (Cons b t)
    let ?w = "utf8_width b"
    let ?c = "foldl (\<lambda>acc x. 64 * acc + x mod 64) (utf8_lead b) (take (?w - 1) t)"
    from 1(2) Cons have ok: "?w \<noteq> 0" "utf8_char ?c = Inr (take ?w bs)"
      "ebind (utf8_decode_text (drop ?w bs)) (\<lambda>s. Inr (?c # s)) = Inr s"
      unfolding Cons utf8_decode_Cons by (simp_all add: Let_def split: if_splits)
    then obtain s' where s': "utf8_decode_text (drop ?w bs) = Inr s'" "s = ?c # s'" by (auto simp: res_simps)
    have "utf8_text s' = Inr (drop ?w bs)"
      by (rule 1(1) [OF Cons refl refl _ s'(1)]) (use ok Cons in auto)
    with ok(2) s'(2) show ?thesis by simp
  qed
qed

lemma utf8_decode_iff: "utf8_decode bs = Inr s \<longleftrightarrow> utf8_encode s = Inr bs"
proof -
  have bytes_back: "map unat (map (of_nat :: nat \<Rightarrow> 8 word) u) = u" if "list_all (\<lambda>x. x < 256) u" for u
    using that by (induction u) (auto simp: unat_of_nat)
  have forth: "map (of_nat :: nat \<Rightarrow> 8 word) (map unat bs) = bs" by (simp add: comp_def)
  show ?thesis
  proof
    assume "utf8_decode bs = Inr s"
    then have "utf8_text s = Inr (map unat bs)" unfolding utf8_decode_def by (rule utf8_encode_decoded)
    with forth show "utf8_encode s = Inr bs" by (simp add: utf8_encode_def)
  next
    assume "utf8_encode s = Inr bs"
    then obtain u where u: "utf8_text s = Inr u" "bs = map of_nat u" by (auto simp: utf8_encode_def res_simps)
    have "map unat bs = u" using bytes_back [OF utf8_text_bytes [OF u(1)]] u(2) by simp
    with utf8_decode_encoded [OF u(1)] show "utf8_decode bs = Inr s" by (simp add: utf8_decode_def)
  qed
qed

lemma utf8_decode_Inl: "utf8_decode bs = Inl e \<Longrightarrow> e = UnicodeDecodeError"
proof -
  have "utf8_decode_text u = Inl e \<Longrightarrow> e = UnicodeDecodeError" for u
  proof (induction u rule: utf8_decode_text.induct)
    case (1 bs)
    show ?case
    proof (cases bs)
      case Nil
      with 1(2) show ?thesis by (simp add: utf8_decode_text.simps)
    next
      case (Cons b t)
      let ?w = "utf8_width b" and ?c = "foldl (\<lambda>acc x. 64 * acc + x mod 64) (utf8_lead b) (take (utf8_width b - 1) t)"
      show ?thesis
      proof (cases "?w = 0 \<or> utf8_char ?c \<noteq> Inr (take ?w bs)")
        case True
        with 1(2) show ?thesis unfolding Cons utf8_decode_Cons by (simp add: Let_def)
      next
        case False
        have "utf8_decode_text (drop ?w bs) = Inl e \<Longrightarrow> e = UnicodeDecodeError"
          by (rule 1(1) [OF Cons refl refl]) (use False Cons in auto)
        with 1(2) False show ?thesis unfolding Cons utf8_decode_Cons
          by (cases "utf8_decode_text (drop ?w (b # t))") (auto simp: Let_def)
      qed
    qed
  qed
  then show "utf8_decode bs = Inl e \<Longrightarrow> e = UnicodeDecodeError" by (simp add: utf8_decode_def)
qed

section \<open>Tokens\<close>

lemma next_is_Cons [simp]: "next_is c (x # s) \<longleftrightarrow> x = c" "\<not> next_is c []"
  by (simp_all add: next_is_def)

lemma expect_Cons [simp]: "expect c (c # s) = Inr s"
  by (simp add: expect_def)

lemma expect_Inr: "expect c s = Inr r \<longleftrightarrow> s = c # r"
  by (cases s) (auto simp: expect_def)

lemma hex_any_digit: "is_hex_digit c \<Longrightarrow> hex_any c = Some (hex_value c)"
  by (simp add: hex_any_def)

lemma hex4_to_hex: "n < 65536 \<Longrightarrow> hex4 (to_hex 4 n @ r) = Inr (n, r)"
proof -
  assume n: "n < 65536"
  have four: "(4::nat) = Suc (Suc (Suc (Suc 0)))" by simp
  have "n div 16 div 16 div 16 < 16" using n by linarith
  moreover have "(n div 16 div 16 div 16 * 16 + n div 16 div 16 mod 16) * 16 + n div 16 mod 16 = n div 16"
    by (metis div_mult_mod_eq)
  moreover have "n div 16 * 16 + n mod 16 = n" by simp
  ultimately show ?thesis unfolding four to_hex.simps by (simp add: hex_any_digit)
qed

lemma scan_escape:
  "scan_string (json_escape c @ s) = ebind (scan_string s) (\<lambda>(t, r). Inr (c # t, r))"
proof (cases "c < 32 \<or> c = 34 \<or> c = 92")
  case False
  then show ?thesis by (simp add: json_escape_def scan_string.simps)
next
  case True
  then consider (e) x where "json_escape c = [92, x]" "x \<noteq> 117" "simple_escape x = Some c"
    | (u) "json_escape c = [92, 117] @ to_hex 4 c" "c < 32"
    by (cases "c \<in> {34, 92, 10, 13, 9, 12, 8}") (auto simp: json_escape_def simple_escape_def)
  then show ?thesis
  proof cases
    case e
    then show ?thesis by (simp add: scan_string.simps)
  next
    case u
    have "pair_surrogates c s = (c, s)" using u(2) by (simp add: pair_surrogates_def)
    then show ?thesis using u hex4_to_hex [of c s] by (simp add: scan_string.simps)
  qed
qed

lemma scan_string_text: "scan_string (concat (map json_escape t) @ 34 # r) = Inr (t, r)"
  by (induction t) (simp_all add: scan_escape scan_string.simps)

text \<open>What may follow a value: the end, a separator, or the newline that ends a record.\<close>

definition closes :: "pystr \<Rightarrow> bool" where
  "closes r \<longleftrightarrow> r = [] \<or> hd r = 44 \<or> hd r = 93 \<or> hd r = 125 \<or> hd r = 10"

lemma number_value_digits: "list_all is_digit ds \<Longrightarrow> number_value ds = int (dec_value ds)"
proof -
  have "list_all is_digit ds \<Longrightarrow>
      foldl (\<lambda>acc c. 10 * acc + (int c - 48)) (int a) ds = int (foldl (\<lambda>acc c. 10 * acc + (c - 48)) a ds)" for a
  proof (induction ds arbitrary: a)
    case (Cons c ds)
    then have "10 * int a + (int c - 48) = int (10 * a + (c - 48))" by (simp add: is_digit_def of_nat_diff)
    with Cons show ?case by (simp only: foldl_Cons list.pred_inject)
  qed simp
  from this [of 0] show "list_all is_digit ds \<Longrightarrow> number_value ds = int (dec_value ds)"
    by (simp add: number_value_def dec_value_def)
qed

lemma dec_nat_is_digit: "list_all is_digit (dec_nat n)"
  using dec_nat_digits [of n] by (simp add: list_all_iff is_digit_def)

lemma dec_nat_zero_lead: "next_is 48 (dec_nat n @ r) \<longleftrightarrow> n = 0"
proof (induction n arbitrary: r rule: dec_nat.induct)
  case (1 n)
  show ?case
  proof (cases "n < 10")
    case True
    then show ?thesis by (simp add: dec_nat.simps [of n])
  next
    case False
    with 1 have "next_is 48 (dec_nat (n div 10) @ s) \<longleftrightarrow> n div 10 = 0" for s by blast
    with False show ?thesis by (simp add: dec_nat.simps [of n])
  qed
qed

lemma closes_not_digit: "closes r \<Longrightarrow> takeWhile is_digit r = []"
  by (cases r) (auto simp: closes_def is_digit_def)

lemma dec_nat_token:
  assumes "closes r"
  shows "digit_run (dec_nat n @ r) = dec_nat n"
proof (cases "n = 0")
  case True
  then show ?thesis by (simp add: dec_nat.simps [of 0] digit_run_def)
next
  case False
  have "takeWhile is_digit (dec_nat n @ r) = dec_nat n"
    using closes_not_digit [OF assms] dec_nat_is_digit [of n]
    by (subst takeWhile_append2) (auto simp: list_all_iff)
  with False show ?thesis by (simp add: dec_nat_zero_lead digit_run_def)
qed

lemma not_float: "closes r \<Longrightarrow> \<not> float_follows r"
  by (cases r) (auto simp: closes_def float_follows_def)

lemma scan_number_int:
  assumes "closes r" "int_digits_ok i"
  shows "scan_number fe (dec_int i @ r) = Inr (PInt i, r)"
proof (cases "i < 0")
  case True
  then have eq: "dec_int i @ r = 45 # (dec_nat (nat (- i)) @ r)" by (simp add: dec_int_def)
  show ?thesis unfolding scan_number_def eq Let_def
    using True assms(2) dec_nat_digits [of "nat (- i)"] not_float [OF assms(1)]
    by (simp add: dec_nat_token [OF assms(1)] number_value_digits dec_nat_is_digit dec_value_dec_nat int_digits_ok_def)
next
  case False
  obtain c u where c: "dec_nat (nat i) = c # u" "48 \<le> c" using hd_dec_nat by blast
  have eq: "dec_int i @ r = dec_nat (nat i) @ r" using False by (simp add: dec_int_def)
  have sign: "next_is 45 (dec_nat (nat i) @ r) = False" using c by simp
  show ?thesis unfolding scan_number_def eq Let_def sign
    using False assms(2) dec_nat_digits [of "nat i"] not_float [OF assms(1)]
    by (simp add: dec_nat_token [OF assms(1)] number_value_digits dec_nat_is_digit dec_value_dec_nat int_digits_ok_def)
qed

end
