(* ===== verification/JsonText_Values.thy ===== *)
theory JsonText_Values
  imports JsonText_Facts
begin

text \<open>
  Reading back encoded values, for every \<open>object_pairs_hook\<close> that refuses duplicate keys and
  otherwise keeps the pairs; both hooks of the sources are such.
\<close>

section \<open>The scanner's fuel\<close>

lemma skip_ws_shorter: "length (skip_ws s) \<le> length s"
  by (induction s rule: skip_ws.induct) auto

lemma scan_string_shorter: "scan_string s = Inr (t, r) \<Longrightarrow> length r < length s"
proof (induction s arbitrary: t r rule: scan_string.induct)
  case (2 c s)
  show ?case
  proof (cases "c = 92 \<and> next_is 117 s")
    case True
    with 2(4) obtain u s' where h: "hex4 (tl s) = Inr (u, s')"
      by (cases "hex4 (tl s)") (auto simp: scan_string.simps)
    obtain v s'' where p: "pair_surrogates u s' = (v, s'')" by fastforce
    with 2(4) True h obtain t' where "scan_string s'' = Inr (t', r)"
      by (auto simp: scan_string.simps res_simps)
    note st = h p this
    have "length r < length s''"
      by (rule 2(2) [OF _ _ _ _ st(1) refl st(2) [symmetric] st(3)]) (use True in auto)
    moreover have "length s'' \<le> length s'" "length s' < length (tl s)"
      using pair_shorter [OF st(2)] hex4_shorter [OF st(1)] by auto
    ultimately show ?thesis by (cases s) auto
  next
    case False
    with 2(4) 2(1,3) show ?thesis
      by (fastforce simp: scan_string.simps res_simps split: if_splits list.splits option.splits)
  qed
qed (simp add: scan_string.simps)

lemma float_drop_shorter: "scan_number fe s = Inr (v, r) \<Longrightarrow> length r < length s"
  by (cases s) (auto simp: scan_number_def Let_def digit_run_def split: if_splits)

lemma after_shorter: "after name s = Some r \<Longrightarrow> name \<noteq> [] \<Longrightarrow> length r < length s"
proof -
  assume "after name s = Some r" "name \<noteq> []"
  then have t: "take (length name) s = lit name" "r = drop (length name) s"
    by (auto simp: after_def split: if_splits)
  from arg_cong [OF t(1), of length] have "min (length s) (length name) = length name" by (simp add: lit_def)
  with t(2) \<open>name \<noteq> []\<close> show ?thesis by (cases name) auto
qed

lemma expect_shorter: "expect c s = Inr r \<Longrightarrow> length r < length s"
  by (simp add: expect_Inr)

lemma next_shorter: "next_is c s \<Longrightarrow> length (tl s) < length s"
  by (cases s) auto

lemma literal_shorter:
  "after ''null'' s = Some r \<Longrightarrow> length r < length s" "after ''true'' s = Some r \<Longrightarrow> length r < length s"
  "after ''false'' s = Some r \<Longrightarrow> length r < length s"
  by (auto intro: after_shorter)

lemma scan_shorter:
  "scan_value d fe hook n s = Inr (v, r) \<Longrightarrow> length r < length s"
  "scan_items d fe hook n s = Inr (vs, r) \<Longrightarrow> length r < length s"
  "scan_pairs d fe hook n s = Inr (ps, r) \<Longrightarrow> length r < length s"
proof (induction n arbitrary: d s v r vs ps)
  case 0
  { case 1 then show ?case by simp }
  { case 2 then show ?case by simp }
  { case 3 then show ?case by simp }
next
  case (Suc n)
  { case 1
    show ?case
    proof (cases "next_is 34 s \<or> next_is 123 s \<or> next_is 91 s")
      case True
      have tl: "length (tl s) < length s" using True next_shorter by auto
      have ws: "length (skip_ws (tl s)) \<le> length (tl s)" by (rule skip_ws_shorter)
      have tlb: "length (tl (skip_ws (tl s))) \<le> length (tl s)" using ws by simp
      from 1 True show ?thesis
        using tl ws tlb by (fastforce simp: res_simps Let_def split: if_splits dest: scan_string_shorter Suc.IH(2,3))
    next
      case False
      with 1 show ?thesis
        by (auto split: option.splits if_splits dest: literal_shorter float_drop_shorter)
    qed }
  { case 2
    then obtain v r1 where v: "scan_value d fe hook n s = Inr (v, r1)" by (auto simp: res_simps)
    have "length (skip_ws r1) < length s" using Suc.IH(1) [OF v] skip_ws_shorter [of r1] by simp
    with 2 v show ?case
      by (auto simp: res_simps Let_def split: if_splits dest!: Suc.IH(2) expect_shorter)
        (meson le_less_trans less_trans skip_ws_shorter)+ }
  { case 3
    then obtain s1 k s2 s3 v r1 where st: "expect 34 s = Inr s1" "scan_string s1 = Inr (k, s2)"
      "expect 58 (skip_ws s2) = Inr s3" "scan_value d fe hook n (skip_ws s3) = Inr (v, r1)"
      by (auto simp: res_simps)
    have "length (skip_ws r1) < length s"
      using expect_shorter [OF st(1)] scan_string_shorter [OF st(2)] expect_shorter [OF st(3)] Suc.IH(1) [OF st(4)]
        skip_ws_shorter [of r1] skip_ws_shorter [of s3] skip_ws_shorter [of s2] by linarith
    with 3 st show ?case
      by (auto simp: res_simps Let_def split: if_splits dest!: Suc.IH(3) expect_shorter)
        (meson le_less_trans less_trans skip_ws_shorter)+ }
qed

text \<open>Enough fuel: a value needs more than twice the length of the text, a list one unit more.\<close>

lemma scan_fuel:
  "2 * length s < n \<Longrightarrow> 2 * length s < m \<Longrightarrow> scan_value d fe hook n s = scan_value d fe hook m s"
  "2 * length s + 1 < n \<Longrightarrow> 2 * length s + 1 < m \<Longrightarrow> scan_items d fe hook n s = scan_items d fe hook m s"
  "2 * length s + 1 < n \<Longrightarrow> 2 * length s + 1 < m \<Longrightarrow> scan_pairs d fe hook n s = scan_pairs d fe hook m s"
proof (induction n arbitrary: d s m)
  case 0
  { case 1 then show ?case by simp }
  { case 2 then show ?case by simp }
  { case 3 then show ?case by simp }
next
  case (Suc n)
  { case 1
    then obtain k where m: "m = Suc k" by (cases m) auto
    let ?b = "skip_ws (tl s)"
    have "2 * length ?b + 1 < n" "2 * length ?b + 1 < k" if "next_is c s" for c
      using next_shorter [OF that] skip_ws_shorter [of "tl s"] 1 m by linarith+
    then have "next_is 91 s \<Longrightarrow> scan_items b fe hook n ?b = scan_items b fe hook k ?b"
      "next_is 123 s \<Longrightarrow> scan_pairs b fe hook n ?b = scan_pairs b fe hook k ?b" for b
      using Suc.IH(2,3) by blast+
    then show ?case unfolding m scan_value.simps by (auto simp: Let_def intro!: ebind_cong) }
  { case 2
    then obtain k where m: "m = Suc k" by (cases m) auto
    have v: "scan_value d fe hook n s = scan_value d fe hook k s" using Suc.IH(1) [of s k d] 2 m by simp
    have "scan_items d fe hook n (skip_ws t) = scan_items d fe hook k (skip_ws t)"
      if "scan_value d fe hook k s = Inr (x, r)" "expect 44 (skip_ws r) = Inr t" for x r t
      using Suc.IH(2) [of "skip_ws t" k d] scan_shorter(1) [OF that(1)] expect_shorter [OF that(2)]
        skip_ws_shorter [of r] skip_ws_shorter [of t] 2 m by linarith
    then show ?case unfolding m scan_items.simps v
      by (intro ebind_cong refl) (auto simp: Let_def intro!: ebind_cong) }
  { case 3
    then obtain k where m: "m = Suc k" by (cases m) auto
    have v: "scan_value d fe hook n (skip_ws s3) = scan_value d fe hook k (skip_ws s3)"
      if "expect 34 s = Inr s1" "scan_string s1 = Inr (key, s2)" "expect 58 (skip_ws s2) = Inr s3" for s1 key s2 s3
      using Suc.IH(1) [of "skip_ws s3" k d] expect_shorter [OF that(1)] scan_string_shorter [OF that(2)]
        expect_shorter [OF that(3)] skip_ws_shorter [of s2] skip_ws_shorter [of s3] 3 m by linarith
    have "scan_pairs d fe hook n (skip_ws t) = scan_pairs d fe hook k (skip_ws t)"
      if "expect 34 s = Inr s1" "scan_string s1 = Inr (key, s2)" "expect 58 (skip_ws s2) = Inr s3"
        "scan_value d fe hook k (skip_ws s3) = Inr (x, r)" "expect 44 (skip_ws r) = Inr t" for s1 key s2 s3 x r t
      using Suc.IH(3) [of "skip_ws t" k d] expect_shorter [OF that(1)] scan_string_shorter [OF that(2)]
        expect_shorter [OF that(3)] scan_shorter(1) [OF that(4)] expect_shorter [OF that(5)] skip_ws_shorter [of s2]
        skip_ws_shorter [of s3] skip_ws_shorter [of r] skip_ws_shorter [of t] 3 m by linarith
    then show ?case unfolding m scan_pairs.simps
      using v by (intro ebind_cong refl) (auto simp: Let_def intro!: ebind_cong) }
qed

text \<open>An integer that the scanner accepts is within the digit limit.\<close>

lemma number_value_bounds: "list_all is_digit ds \<Longrightarrow> 0 \<le> number_value ds \<and> number_value ds < 10 ^ length ds"
proof (induction ds rule: rev_induct)
  case (snoc d ds)
  then have "0 \<le> number_value ds" "number_value ds + 1 \<le> 10 ^ length ds" "48 \<le> d" "d \<le> 57"
    by (simp_all add: is_digit_def)
  moreover have "number_value (ds @ [d]) = 10 * number_value ds + (int d - 48)" by (simp add: number_value_def)
  ultimately show ?case by simp
qed (simp add: number_value_def)

lemma scan_number_printable: "scan_number fe s = Inr (v, r) \<Longrightarrow> printable v"
proof -
  have "\<bar>number_value (digit_run t)\<bar> < 10 ^ INT_MAX_STR_DIGITS" if "\<not> INT_MAX_STR_DIGITS < length (digit_run t)" for t
  proof -
    have "list_all is_digit (digit_run t)"
      by (auto simp: digit_run_def list_all_iff is_digit_def dest: set_takeWhileD)
    then have "\<bar>number_value (digit_run t)\<bar> < 10 ^ length (digit_run t)" using number_value_bounds by fastforce
    also have "\<dots> \<le> (10 :: int) ^ INT_MAX_STR_DIGITS" using that by (intro power_increasing) simp_all
    finally show ?thesis .
  qed
  then show "scan_number fe s = Inr (v, r) \<Longrightarrow> printable v"
    by (auto simp: scan_number_def Let_def int_digits_ok_iff split: if_splits)
qed

section \<open>Reading back encoded values\<close>

lemma skip_ws_text: "json_dom v \<Longrightarrow> skip_ws (raw_text v @ r) = raw_text v @ r"
proof -
  assume "json_dom v"
  then obtain c u where "raw_text v = c # u" "kind_char v c" using raw_text_hd by blast
  then show ?thesis by (cases v) (auto simp: kind_char_def split: if_splits)
qed

lemma skip_ws_items:
  "vs \<noteq> [] \<Longrightarrow> (\<And>v. v \<in> set vs \<Longrightarrow> json_dom v) \<Longrightarrow>
     skip_ws (join_comma (map raw_text vs) @ r) = join_comma (map raw_text vs) @ r"
  by (cases vs; cases "tl vs") (simp_all add: skip_ws_text join_comma_Cons)

definition pair_text :: "pystr \<times> pyval \<Rightarrow> pystr" where
  "pair_text kv = json_string (fst kv) @ [58] @ raw_text (snd kv)"

text \<open>A hook that refuses duplicate keys and otherwise keeps the pairs in order.\<close>

locale json_hook =
  fixes fe :: exc and hook :: "(pystr \<times> pyval) list \<Rightarrow> pyval res"
  assumes hook_Inr: "hook ps = Inr v \<longleftrightarrow> distinct (map fst ps) \<and> v = PDict ps"
begin

lemma scan_items_text:
  assumes "vs \<noteq> []" "\<And>v. v \<in> set vs \<Longrightarrow> json_dom v"
    "\<And>v r m. v \<in> set vs \<Longrightarrow> closes r \<Longrightarrow> 2 * length (raw_text v @ r) < m \<Longrightarrow> scan_value None fe hook m (raw_text v @ r) = Inr (v, r)"
    "2 * length (join_comma (map raw_text vs) @ 93 # r) + 1 < n"
  shows "scan_items None fe hook n (join_comma (map raw_text vs) @ 93 # r) = Inr (vs, r)"
  using assms
proof (induction vs arbitrary: n rule: list_nonempty_induct)
  case (single v)
  then obtain m where n: "n = Suc m" by (cases n) auto
  have "scan_value None fe hook m (raw_text v @ 93 # r) = Inr (v, 93 # r)"
    by (rule single(2)) (use single(3) n in \<open>simp_all add: closes_def\<close>)
  then show ?case unfolding n by simp
next
  case (cons v vs)
  then obtain m where n: "n = Suc m" by (cases n) auto
  let ?rest = "join_comma (map raw_text vs) @ 93 # r"
  have shape: "join_comma (map raw_text (v # vs)) @ 93 # r = raw_text v @ 44 # ?rest"
    using cons(1) by (simp add: join_comma_Cons)
  have "scan_value None fe hook m (raw_text v @ 44 # ?rest) = Inr (v, 44 # ?rest)"
    by (rule cons(4)) (use cons(5) shape n in \<open>simp_all add: closes_def\<close>)
  moreover have "scan_items None fe hook m ?rest = Inr (vs, r)"
    by (rule cons(2)) (use cons(3-5) shape n in auto)
  moreover have "skip_ws ?rest = ?rest"
    using skip_ws_items [OF cons(1)] cons(3) by simp
  ultimately show ?case unfolding n shape by (simp add: Let_def)
qed

lemma scan_pairs_text:
  assumes "d \<noteq> []" "\<And>k v. (k, v) \<in> set d \<Longrightarrow> json_dom v"
    "\<And>k v r m. (k, v) \<in> set d \<Longrightarrow> closes r \<Longrightarrow> 2 * length (raw_text v @ r) < m \<Longrightarrow> scan_value None fe hook m (raw_text v @ r) = Inr (v, r)"
    "2 * length (join_comma (map pair_text d) @ 125 # r) + 1 < n"
  shows "scan_pairs None fe hook n (join_comma (map pair_text d) @ 125 # r) = Inr (d, r)"
  using assms
proof (induction d arbitrary: n rule: list_nonempty_induct)
  case (single kv)
  obtain k v where kv: "kv = (k, v)" by fastforce
  obtain m where n: "n = Suc m" using single by (cases n) auto
  have "scan_value None fe hook m (raw_text v @ 125 # r) = Inr (v, 125 # r)"
    by (rule single(2) [of k]) (use single(3) n kv in \<open>simp_all add: closes_def pair_text_def json_string_def\<close>)
  moreover have "skip_ws (raw_text v @ 125 # r) = raw_text v @ 125 # r"
    using single(1) kv by (auto intro: skip_ws_text)
  ultimately show ?case unfolding n kv using scan_string_text [of k "58 # raw_text v @ 125 # r"]
    by (simp add: pair_text_def json_string_def)
next
  case (cons kv d)
  obtain k v where kv: "kv = (k, v)" by fastforce
  obtain m where n: "n = Suc m" using cons by (cases n) auto
  let ?rest = "join_comma (map pair_text d) @ 125 # r"
  have shape: "join_comma (map pair_text (kv # d)) @ 125 # r =
      34 # concat (map json_escape k) @ 34 # 58 # raw_text v @ 44 # ?rest"
    using cons(1) by (simp add: join_comma_Cons pair_text_def json_string_def kv)
  have "scan_value None fe hook m (raw_text v @ 44 # ?rest) = Inr (v, 44 # ?rest)"
    by (rule cons(4) [of k]) (use cons(5) shape n kv in \<open>simp_all add: closes_def\<close>)
  moreover have "scan_pairs None fe hook m ?rest = Inr (d, r)"
  proof (rule cons(2))
    fix k v r m
    assume "(k, v) \<in> set d"
    then have kv: "(k, v) \<in> set (kv # d)" by simp
    from kv show "json_dom v" by (rule cons(3))
    assume "closes r" "2 * length (raw_text v @ r) < m"
    with kv show "scan_value None fe hook m (raw_text v @ r) = Inr (v, r)" by (rule cons(4))
  next
    show "2 * length ?rest + 1 < m" using cons(5) n unfolding shape by simp
  qed
  moreover have "skip_ws ?rest = ?rest"
    using cons(1) by (cases d; cases "tl d") (simp_all add: pair_text_def json_string_def)
  moreover have "skip_ws (raw_text v @ 44 # ?rest) = raw_text v @ 44 # ?rest"
    using cons(3) kv by (auto intro: skip_ws_text)
  ultimately show ?case unfolding n shape using scan_string_text [of k "58 # raw_text v @ 44 # ?rest"]
    by (simp add: kv Let_def)
qed

lemma after_number:
  "x = 45 \<or> (48 \<le> x \<and> x \<le> 57) \<Longrightarrow> after ''null'' (x # s) = None \<and> after ''true'' (x # s) = None \<and>
     after ''false'' (x # s) = None \<and> after ''NaN'' (x # s) = None \<and> after ''Infinity'' (x # s) = None"
  by (auto simp: after_def lit_def)

lemma scan_int:
  fixes i :: int
  assumes "closes r" "int_digits_ok i"
  shows "scan_value None fe hook (Suc m) (dec_int i @ r) = Inr (PInt i, r)"
proof -
  obtain c u where c: "dec_nat (nat \<bar>i\<bar>) = c # u" "48 \<le> c" "c \<le> 57" using hd_dec_nat by blast
  have "after ''-Infinity'' (dec_int i @ r) = None"
    using c by (cases "i < 0") (auto simp: dec_int_def after_def lit_def abs_if)
  moreover obtain x s where x: "dec_int i @ r = x # s" "x = 45 \<or> (48 \<le> x \<and> x \<le> 57)"
    using c by (cases "i < 0") (auto simp: dec_int_def abs_if)
  ultimately show ?thesis using after_number [OF x(2), of s] scan_number_int [OF assms]
    unfolding x(1) by auto
qed

lemma scan_value_text:
  "json_dom v \<Longrightarrow> dict_wf v \<Longrightarrow> printable v \<Longrightarrow> closes r \<Longrightarrow> 2 * length (raw_text v @ r) < n \<Longrightarrow>
     scan_value None fe hook n (raw_text v @ r) = Inr (v, r)"
proof (induction v arbitrary: r n)
  case (PInt i)
  then show ?case using scan_int [where r = r and i = i] by (cases n) auto
next
  case (PStr s)
  then obtain m where "n = Suc m" by (cases n) auto
  then show ?case by (simp add: json_string_def scan_string_text)
next
  case (PList vs)
  obtain m where n: "n = Suc m" using PList.prems by (cases n) auto
  let ?b = "join_comma (map raw_text vs) @ 93 # r"
  show ?case
  proof (cases "vs = []")
    case True
    with n show ?thesis by simp
  next
    case False
    have "scan_items None fe hook m ?b = Inr (vs, r)"
      by (rule scan_items_text [OF False]) (use PList n in \<open>auto simp: list_all_iff\<close>)
    moreover have ws: "skip_ws ?b = ?b" using skip_ws_items [OF False] PList.prems(1) by (simp add: list_all_iff)
    moreover have "\<not> next_is 93 ?b"
    proof -
      obtain x u where "raw_text (hd vs) = x # u" "kind_char (hd vs) x"
        using False PList.prems(1) raw_text_hd [of "hd vs"] by (auto simp: list_all_iff)
      then show ?thesis using kind_char_open False by (cases vs; cases "tl vs") auto
    qed
    ultimately show ?thesis using n by (simp add: Let_def)
  qed
next
  case (PDict d)
  obtain m where n: "n = Suc m" using PDict.prems by (cases n) auto
  let ?b = "join_comma (map pair_text d) @ 125 # r"
  have shape: "raw_text (PDict d) @ r = 123 # ?b"
    by (simp add: pair_text_def [abs_def] comp_def)
  show ?case
  proof (cases "d = []")
    case True
    with n show ?thesis by (simp add: hook_Inr [THEN iffD2])
  next
    case False
    have "scan_pairs None fe hook m ?b = Inr (d, r)"
    proof (rule scan_pairs_text [OF False])
      fix k v r' m'
      assume kv: "(k, v) \<in> set d"
      show "json_dom v" using PDict.prems(1) kv by (auto simp: list_all_iff)
      assume "closes r'" "2 * length (raw_text v @ r') < m'"
      with kv PDict.prems show "scan_value None fe hook m' (raw_text v @ r') = Inr (v, r')"
        by (intro PDict.IH [of "(k, v)" v]) (auto simp: list_all_iff prod_set_defs)
    next
      show "2 * length ?b + 1 < m" using PDict.prems(5) n unfolding shape by simp
    qed
    moreover have "skip_ws ?b = ?b" "\<not> next_is 125 ?b"
      using False by (cases d; cases "tl d"; simp add: pair_text_def json_string_def)+
    moreover have "hook d = Inr (PDict d)" using PDict.prems(2) by (simp add: hook_Inr)
    ultimately show ?thesis unfolding shape using n by (simp add: Let_def)
  qed
next
  case PNone
  then obtain m where "n = Suc m" by (cases n) auto
  then show ?case by (simp add: after_def lit_def)
next
  case (PBool b)
  then obtain m where "n = Suc m" by (cases n) auto
  then show ?case by (cases b) (simp_all add: after_def lit_def)
qed simp_all

lemma scan_wf:
  "scan_value d fe hook n s = Inr (v, r) \<Longrightarrow> dict_wf v"
  "scan_items d fe hook n s = Inr (vs, r) \<Longrightarrow> list_all dict_wf vs"
  "scan_pairs d fe hook n s = Inr (ps, r) \<Longrightarrow> list_all (\<lambda>(_, v). dict_wf v) ps"
proof (induction n arbitrary: d s v r vs ps)
  case 0
  { case 1 then show ?case by simp }
  { case 2 then show ?case by simp }
  { case 3 then show ?case by simp }
next
  case (Suc n)
  { case 1
    then show ?case using Suc.IH(2,3)
      by (fastforce simp: res_simps Let_def hook_Inr scan_number_def split: if_splits option.splits) }
  { case 2
    then show ?case using Suc.IH(1,2) by (fastforce simp: res_simps Let_def split: if_splits) }
  { case 3
    then show ?case using Suc.IH(1,3) by (fastforce simp: res_simps Let_def split: if_splits) }
qed

lemma scan_printable:
  "scan_value d fe hook n s = Inr (v, r) \<Longrightarrow> printable v"
  "scan_items d fe hook n s = Inr (vs, r) \<Longrightarrow> list_all printable vs"
  "scan_pairs d fe hook n s = Inr (ps, r) \<Longrightarrow> list_all (\<lambda>(_, v). printable v) ps"
proof (induction n arbitrary: d s v r vs ps)
  case 0
  { case 1 then show ?case by simp }
  { case 2 then show ?case by simp }
  { case 3 then show ?case by simp }
next
  case (Suc n)
  { case 1
    then show ?case using Suc.IH(2,3)
      by (fastforce simp: res_simps Let_def hook_Inr split: if_splits option.splits dest: scan_number_printable) }
  { case 2
    then show ?case using Suc.IH(1,2) by (fastforce simp: res_simps Let_def split: if_splits) }
  { case 3
    then show ?case using Suc.IH(1,3) by (fastforce simp: res_simps Let_def split: if_splits) }
qed

lemma loads_text:
  assumes "json_dom v" "dict_wf v" "printable v" "closes r" "skip_ws r = []"
  shows "json_loads None fe hook (raw_text v @ r) = Inr v"
proof -
  obtain c u where "raw_text v = c # u" "kind_char v c" using raw_text_hd [OF assms(1)] by blast
  then have "\<not> next_is 0xFEFF (raw_text v @ r)" by (cases v) (auto simp: kind_char_def split: if_splits)
  then show ?thesis
    using scan_value_text [OF assms(1-4)] skip_ws_text [OF assms(1)] assms(5)
    by (simp add: json_loads_def del: scan_value.simps)
qed

lemma loads_wf: "json_loads d fe hook s = Inr v \<Longrightarrow> dict_wf v"
  using scan_wf(1) by (auto simp: json_loads_def res_simps simp del: scan_value.simps split: if_splits)

lemma loads_printable: "json_loads d fe hook s = Inr v \<Longrightarrow> printable v"
  using scan_printable(1) by (auto simp: json_loads_def res_simps simp del: scan_value.simps split: if_splits)

lemma loads_text_plain: "json_dom v \<Longrightarrow> dict_wf v \<Longrightarrow> printable v \<Longrightarrow> json_loads None fe hook (raw_text v) = Inr v"
  using loads_text [of v "[]"] by (simp add: closes_def)

end

section \<open>The hooks of the sources\<close>

lemma object_without_duplicates_spec:
  "object_without_duplicates_from e d ps =
     (if distinct (map fst ps) \<and> fst ` set d \<inter> fst ` set ps = {} then Inr (d @ ps) else Inl e)"
proof (induction e d ps rule: object_without_duplicates_from.induct)
  case (2 e d k v ps)
  have new: "dict_set d k v = d @ [(k, v)]" if "k \<notin> fst ` set d"
    using that by (induction d) auto
  show ?case
  proof (cases "k \<in> fst ` set d")
    case False
    with 2 new show ?thesis by auto
  qed simp
qed simp

interpretation format_hook: json_hook FormatError object_without_duplicate_keys
  by unfold_locales (auto simp: object_without_duplicate_keys_def object_without_duplicates_spec)

interpretation campaign_hook: json_hook CampaignIOError object_without_duplicates
  by unfold_locales (auto simp: object_without_duplicates_def object_without_duplicates_spec)

end
