(* ===== verification/JsonText_Claims.thy ===== *)
theory JsonText_Claims
  imports JsonText_Values Certificates
begin

text \<open>
  What the two readers accept, which exceptions they raise, and the text of a certificate.
\<close>

section \<open>Normal forms\<close>

lemma dict_wf_jnorm: "dict_wf v \<Longrightarrow> dict_wf (jnorm v)"
proof (induction v rule: jnorm.induct)
  case (2 d)
  have "map fst (map (\<lambda>(k, v). (k, jnorm v)) d) = map fst d" by (induction d) auto
  then have "distinct (map fst (map (\<lambda>(k, v). (k, jnorm v)) d))" using 2(2) by (simp del: map_map)
  then have "distinct (map fst (sort_key fst (map (\<lambda>(k, v). (k, jnorm v)) d)))"
    unfolding distinct_map [of fst] by simp
  moreover have "list_all (\<lambda>(_, v). dict_wf v) (sort_key fst (map (\<lambda>(k, v). (k, jnorm v)) d))"
    using 2 by (fastforce simp: list_all_iff)
  ultimately show ?case by simp
qed (auto simp: list_all_iff)

lemma exact_dom_jnorm: "exact_dom v \<Longrightarrow> exact_dom (jnorm v)"
  by (induction v rule: jnorm.induct) (auto simp: list_all_iff)

lemma jnorm_idem: "jnorm (jnorm v) = jnorm v"
proof (induction v rule: jnorm.induct)
  case (2 d)
  let ?h = "\<lambda>(k, v). (k, jnorm v)"
  have "map ?h (sort_key fst (map ?h d)) = sort_key fst (map ?h d)"
    using 2 by (intro map_idI) auto
  then show ?case by (simp add: sort_key_id_if_sorted)
qed simp_all

context json_hook
begin

lemma loads_canonical:
  assumes "json_dom v" "dict_wf v" "printable v" "json_loads None fe hook (json_text v) = Inr w"
  shows "w = jnorm v"
  using loads_text_plain [OF jnorm_dom [OF assms(1)] dict_wf_jnorm [OF assms(2)]] assms(3,4)
  by (simp add: json_text_raw)

end

section \<open>What the readers accept\<close>

lemma parse_json_bytes_Inr:
  "parse_json_bytes data = Inr v \<longleftrightarrow> canonical_json_bytes v = Inr data \<and> dict_wf v \<and> jnorm v = v"
proof
  assume "parse_json_bytes data = Inr v"
  then obtain t where t: "utf8_decode data = Inr t" "json_loads None FormatError object_without_duplicate_keys t = Inr v"
    "canonical_json_bytes v = Inr data"
    by (auto simp: parse_json_bytes_def parse_json_within_def deep_stack_def res_simps simp flip: canonical_json_bytes_def
        split: if_splits)
  then have wf: "dict_wf v" by (blast intro: format_hook.loads_wf)
  have enc: "exact_dom v" "printable v" "utf8_encode (json_text v) = Inr data" using t(3) by (auto simp: canonical_json_bytes_Inr)
  then have "t = json_text v" using t(1) by (auto simp: utf8_decode_iff dest: utf8_encode_inj)
  with format_hook.loads_canonical [OF exact_json_dom [OF enc(1)] wf enc(2)] t(2) have "v = jnorm v" by simp
  with t(3) wf show "canonical_json_bytes v = Inr data \<and> dict_wf v \<and> jnorm v = v" by simp
next
  assume v: "canonical_json_bytes v = Inr data \<and> dict_wf v \<and> jnorm v = v"
  then have enc: "exact_dom v" "printable v" "utf8_encode (json_text v) = Inr data" "length data \<le> MAX_CANONICAL_JSON_BYTES"
    by (auto simp: canonical_json_bytes_Inr)
  have "json_loads None FormatError object_without_duplicate_keys (json_text v) = Inr v"
    using format_hook.loads_text_plain [OF exact_json_dom [OF enc(1)] _ enc(2)] v by (simp add: json_text_raw)
  moreover have "utf8_decode data = Inr (json_text v)" using enc(3) by (simp add: utf8_decode_iff)
  moreover have "validate_json_value None v = Inr ()" using enc(1) by (simp add: validate_json_value_Inr)
  ultimately show "parse_json_bytes data = Inr v" using v enc(4)
    by (simp add: parse_json_bytes_def parse_json_within_def deep_stack_def flip: canonical_json_bytes_def)
qed

lemma utf8_encode_snoc: "utf8_encode s = Inr u \<Longrightarrow> utf8_encode (s @ [10]) = Inr (u @ [10])"
proof -
  have "utf8_text s = Inr w \<Longrightarrow> utf8_text (s @ [10]) = Inr (w @ [10])" for w
    by (induction s arbitrary: w) (auto simp: utf8_char_def res_simps)
  then show "utf8_encode s = Inr u \<Longrightarrow> utf8_encode (s @ [10]) = Inr (u @ [10])"
    by (auto simp: utf8_encode_def res_simps)
qed

lemma load_json_Inr:
  "load_json raw True = Inr v \<longleftrightarrow> campaign_json_bytes v = Inr raw \<and> dict_wf v \<and> jnorm v = v"
proof
  assume "load_json raw True = Inr v"
  then obtain t where t: "utf8_decode raw = Inr t" "json_loads None CampaignIOError object_without_duplicates t = Inr v"
    "campaign_json_bytes v = Inr raw"
    by (auto simp: load_json_def load_json_within_def campaign_parse_within_def deep_stack_def res_simps
        simp flip: campaign_json_bytes_def split: if_splits)
  then have wf: "dict_wf v" by (blast intro: campaign_hook.loads_wf)
  obtain u where enc: "json_dom v" "printable v" "utf8_encode (json_text v) = Inr u" "raw = u @ [10]"
    using t(3) by (auto simp: campaign_json_bytes_Inr)
  have "utf8_encode (json_text v @ [10]) = Inr raw"
    using utf8_encode_snoc [OF enc(3)] enc(4) by simp
  then have "t = json_text v @ [10]" using t(1) by (auto simp: utf8_decode_iff dest: utf8_encode_inj)
  moreover have "json_loads None CampaignIOError object_without_duplicates (raw_text (jnorm v) @ [10]) = Inr (jnorm v)"
    by (rule campaign_hook.loads_text [OF jnorm_dom [OF enc(1)] dict_wf_jnorm [OF wf]]) (simp_all add: enc(2) closes_def)
  ultimately have "v = jnorm v" using t(2) by (simp add: json_text_raw)
  with t(3) wf show "campaign_json_bytes v = Inr raw \<and> dict_wf v \<and> jnorm v = v" by simp
next
  assume v: "campaign_json_bytes v = Inr raw \<and> dict_wf v \<and> jnorm v = v"
  then obtain u where enc: "json_dom v" "printable v" "utf8_encode (json_text v) = Inr u" "raw = u @ [10]"
    by (auto simp: campaign_json_bytes_Inr)
  have "json_loads None CampaignIOError object_without_duplicates (json_text v @ [10]) = Inr v"
    using campaign_hook.loads_text [OF enc(1) _ enc(2), of "[10]"] v by (simp add: json_text_raw closes_def)
  moreover have "utf8_decode raw = Inr (json_text v @ [10])"
    using utf8_encode_snoc [OF enc(3)] enc(4) by (simp add: utf8_decode_iff)
  moreover have "campaign_validate_json None v = Inr ()" using enc(1) by (simp add: campaign_validate_json_Inr)
  ultimately show "load_json raw True = Inr v"
    using v by (simp add: load_json_def load_json_within_def campaign_parse_within_def deep_stack_def flip: campaign_json_bytes_def)
qed

section \<open>Exceptions\<close>

lemma hex4_Inl: "hex4 s = Inl e \<Longrightarrow> e = JSONDecodeError"
  by (cases s rule: hex4.cases) (auto split: option.splits)

lemma scan_string_Inl: "scan_string s = Inl e \<Longrightarrow> e = JSONDecodeError"
proof (induction s rule: scan_string.induct)
  case (2 c s)
  show ?case
  proof (cases "c = 92 \<and> next_is 117 s")
    case True
    show ?thesis
    proof (cases "hex4 (tl s)")
      case (Inl d)
      with True 2(4) hex4_Inl [OF Inl] show ?thesis by (simp add: scan_string.simps)
    next
      case (Inr us)
      obtain u s' v s'' where st: "us = (u, s')" "pair_surrogates u s' = (v, s'')" by fastforce
      have "scan_string s'' = Inl e \<Longrightarrow> e = JSONDecodeError"
        by (rule 2(2) [OF _ _ _ _ Inr st(1) [symmetric] st(2) [symmetric]]) (use True in auto)
      with True 2(4) Inr st show ?thesis by (auto simp: scan_string.simps ebind_Inl_iff)
    qed
  next
    case False
    with 2(4) 2(1,3) show ?thesis
      by (fastforce simp: scan_string.simps ebind_Inl_iff split: if_splits list.splits option.splits)
  qed
qed (simp add: scan_string.simps)

lemma expect_Inl: "expect c s = Inl e \<Longrightarrow> e = JSONDecodeError"
  by (simp add: expect_def split: if_splits)

text \<open>The scanner raises a plain \<open>ValueError\<close> only on an integer beyond the digit limit, and
  \<open>RecursionError\<close> only when its stack is bounded.\<close>

definition scan_raises :: "budget \<Rightarrow> exc \<Rightarrow> pystr \<Rightarrow> exc \<Rightarrow> bool" where
  "scan_raises d fe s e \<longleftrightarrow> e = JSONDecodeError \<or> e = fe \<or> (e = RecursionError \<and> d \<noteq> None) \<or>
     (e = ValueError \<and> INT_MAX_STR_DIGITS < length s)"

lemma scan_raises_mono: "scan_raises d fe t e \<Longrightarrow> length t \<le> length s \<Longrightarrow> scan_raises d fe s e"
  by (auto simp: scan_raises_def)

lemma scan_raises_enter: "scan_raises d' fe s e \<Longrightarrow> enter d = Inr d' \<Longrightarrow> scan_raises d fe s e"
  by (auto simp: scan_raises_def dest: enter_Inr)

lemma scan_raises_basic:
  "scan_raises d fe s JSONDecodeError" "scan_raises d fe s fe" "enter d = Inl e \<Longrightarrow> scan_raises d fe s e"
  by (auto simp: scan_raises_def dest: enter_Inl)

lemma scan_number_raises: "scan_number fe s = Inl e \<Longrightarrow> scan_raises d fe s e"
proof -
  have "length (digit_run t) \<le> length t" for t by (cases t) (auto simp: digit_run_def length_takeWhile_le)
  from this [of s] this [of "tl s"] show "scan_number fe s = Inl e \<Longrightarrow> scan_raises d fe s e"
    by (auto simp: scan_number_def Let_def scan_raises_def split: if_splits)
qed

lemma scan_Inl:
  assumes hook: "\<And>ps e. hook ps = Inl e \<Longrightarrow> e = fe"
  shows "scan_value d fe hook n s = Inl e \<Longrightarrow> scan_raises d fe s e"
    and "scan_items d fe hook n s = Inl e \<Longrightarrow> scan_raises d fe s e"
    and "scan_pairs d fe hook n s = Inl e \<Longrightarrow> scan_raises d fe s e"
proof (induction n arbitrary: d s e)
  case 0
  { case 1 then show ?case by (simp add: scan_raises_basic) }
  { case 2 then show ?case by (simp add: scan_raises_basic) }
  { case 3 then show ?case by (simp add: scan_raises_basic) }
next
  case (Suc n)
  { case 1
    have b: "length (skip_ws (tl s)) \<le> length s" using skip_ws_shorter [of "tl s"] by simp
    have items: "scan_raises d fe s e" if "enter d = Inr d'" "scan_items d' fe hook n (skip_ws (tl s)) = Inl e" for d'
      using Suc.IH(2) [OF that(2)] that(1) b scan_raises_mono scan_raises_enter by blast
    have pairs: "scan_raises d fe s e" if "enter d = Inr d'" "scan_pairs d' fe hook n (skip_ws (tl s)) = Inl e" for d'
      using Suc.IH(3) [OF that(2)] that(1) b scan_raises_mono scan_raises_enter by blast
    from 1 show ?case
      by (auto simp: ebind_Inl_iff Let_def scan_raises_basic split: if_splits option.splits
          dest: scan_string_Inl hook scan_number_raises intro: items pairs) }
  { case 2
    show ?case
    proof (cases "scan_value d fe hook n s")
      case (Inl x)
      with 2 Suc.IH(1) show ?thesis by auto
    next
      case (Inr vr)
      obtain v r where vr: "vr = (v, r)" by fastforce
      have "scan_raises d fe s e" if "expect 44 (skip_ws r) = Inr t" "scan_items d fe hook n (skip_ws t) = Inl e" for t
        using Suc.IH(2) [OF that(2)] scan_shorter(1) [OF Inr [unfolded vr]] expect_shorter [OF that(1)]
          skip_ws_shorter [of r] skip_ws_shorter [of t] by (elim scan_raises_mono) linarith
      with 2 Inr vr show ?thesis
        by (auto simp: ebind_Inl_iff Let_def scan_raises_basic split: if_splits dest: expect_Inl)
    qed }
  { case 3
    show ?case
    proof (cases "\<exists>s1 k s2 s3. expect 34 s = Inr s1 \<and> scan_string s1 = Inr (k, s2) \<and> expect 58 (skip_ws s2) = Inr s3")
      case False
      with 3 show ?thesis
        by (auto simp: ebind_Inl_iff scan_raises_basic dest: expect_Inl scan_string_Inl)
    next
      case True
      then obtain s1 k s2 s3 where st: "expect 34 s = Inr s1" "scan_string s1 = Inr (k, s2)" "expect 58 (skip_ws s2) = Inr s3"
        by blast
      have len: "length (skip_ws s3) \<le> length s"
        using expect_shorter [OF st(1)] scan_string_shorter [OF st(2)] expect_shorter [OF st(3)]
          skip_ws_shorter [of s2] skip_ws_shorter [of s3] by linarith
      show ?thesis
      proof (cases "scan_value d fe hook n (skip_ws s3)")
        case (Inl x)
        with 3 st Suc.IH(1) [OF Inl] len show ?thesis by (auto elim: scan_raises_mono)
      next
        case (Inr vr)
        obtain v r where vr: "vr = (v, r)" by fastforce
        have "scan_raises d fe s e" if "expect 44 (skip_ws r) = Inr t" "scan_pairs d fe hook n (skip_ws t) = Inl e" for t
          using Suc.IH(3) [OF that(2)] scan_shorter(1) [OF Inr [unfolded vr]] expect_shorter [OF that(1)] len
            skip_ws_shorter [of r] skip_ws_shorter [of t] by (elim scan_raises_mono) linarith
        with 3 st Inr vr show ?thesis
          by (auto simp: ebind_Inl_iff Let_def scan_raises_basic split: if_splits dest: expect_Inl)
      qed
    qed }
qed

lemma json_loads_Inl:
  assumes "\<And>ps e. hook ps = Inl e \<Longrightarrow> e = fe" "json_loads d fe hook s = Inl e"
  shows "scan_raises d fe s e"
proof -
  have "scan_raises d fe s e" if "scan_value d fe hook n (skip_ws s) = Inl e" for n
    using scan_Inl(1) [OF assms(1) that] skip_ws_shorter [of s] by (rule scan_raises_mono)
  with assms(2) show ?thesis
    by (auto simp: json_loads_def ebind_Inl_iff scan_raises_basic simp del: scan_value.simps split: if_splits)
qed

lemma hooks_Inl:
  "object_without_duplicate_keys ps = Inl e \<Longrightarrow> e = FormatError"
  "object_without_duplicates ps = Inl e \<Longrightarrow> e = CampaignIOError"
  by (auto simp: object_without_duplicate_keys_def object_without_duplicates_def object_without_duplicates_spec split: if_splits)

lemma loads_Inl:
  "json_loads d FormatError object_without_duplicate_keys s = Inl e \<Longrightarrow> scan_raises d FormatError s e"
  "json_loads d CampaignIOError object_without_duplicates s = Inl e \<Longrightarrow> scan_raises d CampaignIOError s e"
  by (erule json_loads_Inl [rotated], erule hooks_Inl)+

lemma utf8_decode_length: "utf8_decode bs = Inr s \<Longrightarrow> length s \<le> length bs"
proof -
  have char: "utf8_char c = Inr u \<Longrightarrow> u \<noteq> []" for c u by (auto simp: utf8_char_def split: if_splits)
  have "utf8_text s = Inr u \<Longrightarrow> length s \<le> length u" for u
  proof (induction s arbitrary: u)
    case (Cons c s)
    then obtain a b where "utf8_char c = Inr a" "utf8_text s = Inr b" "u = a @ b" by (auto simp: res_simps)
    with Cons.IH char [of c a] show ?case by (cases a) auto
  qed simp
  then show "utf8_decode bs = Inr s \<Longrightarrow> length s \<le> length bs"
    by (auto simp: utf8_decode_iff utf8_encode_def res_simps)
qed

lemma campaign_validate_json_Inl:
  "campaign_validate_json d v = Inl e \<Longrightarrow> e = CampaignIOError \<or> (e = RecursionError \<and> d \<noteq> None)"
proof (induction d v rule: campaign_validate_json.induct)
  case (1 d v)
  note IH = 1
  show ?case
  proof (cases "enter d")
    case (Inl x)
    with IH(3) show ?thesis by (subst (asm) campaign_validate_json.simps) (auto dest: enter_Inl)
  next
    case (Inr d')
    note deep = enter_Inr [OF Inr]
    show ?thesis
    proof (cases v)
      case (PList vs)
      then have "map_res (campaign_validate_json d') vs = Inl e"
        using IH(3) Inr by (subst (asm) campaign_validate_json.simps) (simp add: ebind_Inl_iff)
      then show ?thesis using IH(1) [OF Inr PList] deep by (auto dest!: map_res_Inl)
    next
      case (PDict items)
      then have "map_res (\<lambda>(_, item). campaign_validate_json d' item) items = Inl e"
        using IH(3) Inr by (subst (asm) campaign_validate_json.simps) (simp add: ebind_Inl_iff)
      then show ?thesis using IH(2) [OF Inr PDict] deep by (force dest!: map_res_Inl)
    qed (use IH(3) Inr in \<open>subst (asm) campaign_validate_json.simps; simp\<close>)+
  qed
qed

lemma catch_as_all: "catch_as p f m = Inl e \<Longrightarrow> (\<And>x. m = Inl x \<Longrightarrow> p x \<or> x = f) \<Longrightarrow> e = f"
  by (cases m) (auto split: if_splits)

lemma parse_json_within_Inl: "parse_json_within stack data = Inl e \<Longrightarrow> e = FormatError"
proof -
  assume *: "parse_json_within stack data = Inl e"
  have d: "catch_as (\<lambda>e. e = UnicodeDecodeError) FormatError (utf8_decode data) = Inl x \<Longrightarrow> x = FormatError" for x
    by (erule catch_as_all) (auto dest: utf8_decode_Inl)
  have j: "catch_as (\<lambda>e. value_error e \<or> e = RecursionError) FormatError
      (json_loads (sb_scan stack) FormatError object_without_duplicate_keys t) = Inl x \<Longrightarrow> x = FormatError" for t x
    by (erule catch_as_all) (use loads_Inl(1) [of "sb_scan stack" t] in \<open>fastforce simp: scan_raises_def\<close>)
  have c: "catch_as (\<lambda>e. e = RecursionError) FormatError
      (ebind (validate_json_value (sb_validate stack) v) (\<lambda>_.
       ebind (canonical_json_within (sb_encode_validate stack) (sb_encode stack) v) (\<lambda>canonical.
         if data \<noteq> canonical then Inl FormatError else Inr v))) = Inl x \<Longrightarrow> x = FormatError" for v x
    by (erule catch_as_all) (auto simp: ebind_Inl_iff split: if_splits
        dest: validate_json_value_Inl canonical_json_within_Inl)
  from * show ?thesis
    by (auto simp: parse_json_within_def ebind_Inl_iff split: if_splits dest!: d j c)
qed

lemma campaign_parse_within_Inl:
  assumes "campaign_parse_within stack raw = Inl e"
  shows "e = CampaignIOError \<or> (e = ValueError \<and> INT_MAX_STR_DIGITS < length raw) \<or>
    (e = RecursionError \<and> {sb_scan stack, sb_validate stack} \<noteq> {None})"
proof -
  let ?loads = "ebind (utf8_decode raw) (json_loads (sb_scan stack) CampaignIOError object_without_duplicates)"
  consider (scan) x where "?loads = Inl x" "e = (if campaign_caught x then CampaignIOError else x)"
    | (validate) v where "campaign_validate_json (sb_validate stack) v = Inl e"
    using assms by (auto simp: campaign_parse_within_def ebind_Inl_iff catch_as_Inl_iff)
  then show ?thesis
  proof cases
    case scan
    show ?thesis
    proof (cases "utf8_decode raw")
      case (Inl y)
      with scan show ?thesis by (auto simp: campaign_caught_def dest: utf8_decode_Inl)
    next
      case (Inr t)
      with scan(1) have "scan_raises (sb_scan stack) CampaignIOError t x" by (simp add: loads_Inl(2))
      with scan(2) utf8_decode_length [OF Inr] show ?thesis
        by (auto simp: scan_raises_def campaign_caught_def split: if_splits)
    qed
  next
    case validate
    then show ?thesis using campaign_validate_json_Inl by blast
  qed
qed

lemma load_json_within_Inl:
  assumes "load_json_within stack raw canonical = Inl e"
  shows "e \<in> {CampaignIOError, UnicodeEncodeError} \<or> (e = ValueError \<and> INT_MAX_STR_DIGITS < length raw) \<or>
    (e = RecursionError \<and> {sb_scan stack, sb_validate stack, sb_encode_validate stack, sb_encode stack} \<noteq> {None})"
proof (cases "campaign_parse_within stack raw")
  case (Inl x)
  with assms campaign_parse_within_Inl [OF Inl] show ?thesis by (auto simp: load_json_within_def)
next
  case (Inr v)
  then have "printable v"
    by (auto simp: campaign_parse_within_def res_simps dest: campaign_hook.loads_printable)
  then have "dump_check d v = Inl x \<Longrightarrow> x = RecursionError \<and> d \<noteq> None" for d x
    by (rule dump_check_printable)
  then have "campaign_json_within dv de v = Inl x \<Longrightarrow>
      x \<in> {CampaignIOError, UnicodeEncodeError} \<or> (x = RecursionError \<and> {dv, de} \<noteq> {None})" for dv de x
    by (auto simp: campaign_json_within_def json_dumps_def utf8_encode_def ebind_Inl_iff
        dest: campaign_validate_json_Inl utf8_text_Inl)
  with assms Inr show ?thesis by (fastforce simp: load_json_within_def ebind_Inl_iff split: if_splits)
qed

section \<open>Texts that raise\<close>

lemma decode_ascii: "list_all (\<lambda>c. c < 128) t \<Longrightarrow> utf8_decode (map of_nat t) = Inr t"
proof -
  assume a: "list_all (\<lambda>c. c < 128) t"
  then have "utf8_text t = Inr t" by (induction t) (simp_all add: utf8_char_def)
  then show ?thesis by (simp add: utf8_decode_iff utf8_encode_def)
qed

text \<open>One digit more than \<open>int\<close> accepts.\<close>

lemma scan_oversized:
  assumes "INT_MAX_STR_DIGITS < k"
  shows "json_loads d fe hook (replicate k 49) = Inl ValueError"
proof -
  obtain k' where k': "k = Suc k'" using assms by (cases k) auto
  then have k: "replicate k 49 = (49 :: nat) # replicate k' 49" by simp
  have run: "digit_run (replicate k 49) = replicate k 49" using k by (simp add: digit_run_def is_digit_def)
  then have "scan_number fe (replicate k 49) = Inl ValueError"
    using assms k k' by (simp add: scan_number_def Let_def float_follows_def)
  moreover have "after ''-Infinity'' (replicate k 49) = None" by (simp add: k after_def lit_def)
  moreover have "skip_ws (replicate k 49) = replicate k 49" "\<not> next_is 0xFEFF (replicate k 49)"
    "\<not> next_is 34 (replicate k 49)" "\<not> next_is 123 (replicate k 49)" "\<not> next_is 91 (replicate k 49)"
    by (simp_all add: k)
  ultimately show ?thesis using format_hook.after_number [of 49 "replicate k' 49"]
    by (simp add: json_loads_def flip: k)
qed

lemma campaign_oversized: "campaign_parse_json_bytes (replicate (INT_MAX_STR_DIGITS + 1 + k) 49) = Inl ValueError"
proof -
  have "utf8_decode (replicate n 49) = Inr (replicate n 49)" for n
    using decode_ascii [of "replicate n 49"] by (simp add: list_all_iff)
  then show ?thesis
    by (simp add: campaign_parse_json_bytes_def campaign_parse_within_def scan_oversized campaign_caught_def
        del: replicate.simps)
qed

text \<open>One opening bracket more than the scanner may nest.\<close>

lemma scan_brackets: "2 * n < m \<Longrightarrow> scan_value (Some n) fe hook m (replicate (Suc n) 91) = Inl RecursionError"
proof (induction n arbitrary: m)
  case 0
  then obtain k where "m = Suc k" by (cases m) auto
  then show ?case by simp
next
  case (Suc n)
  then obtain k where k: "m = Suc (Suc k)" "2 * n < k" by (cases m; cases "m - 1") auto
  have "scan_items (Some n) fe hook (Suc k) (replicate (Suc n) 91) = Inl RecursionError"
    using Suc.IH [OF k(2)] by simp
  moreover have "skip_ws (replicate (Suc n) 91) = replicate (Suc n) 91" by simp
  ultimately show ?case by (simp add: k(1) Let_def del: scan_items.simps)
qed

lemma loads_brackets: "json_loads (Some n) fe hook (replicate (Suc n) 91) = Inl RecursionError"
  using scan_brackets [of n "2 * length (replicate (Suc n) (91 :: nat)) + 1"]
  by (simp add: json_loads_def del: scan_value.simps)

lemma campaign_brackets:
  "campaign_parse_within (deep_stack\<lparr>sb_scan := Some n\<rparr>) (replicate (Suc n) 91) = Inl RecursionError"
proof -
  have "utf8_decode (replicate (Suc n) 91) = Inr (replicate (Suc n) 91)"
    using decode_ascii [of "replicate (Suc n) 91"] by (simp add: list_all_iff)
  then show ?thesis
    by (simp add: campaign_parse_within_def campaign_caught_def loads_brackets deep_stack_def del: replicate.simps)
qed

lemma reference_brackets:
  "parse_json_within (deep_stack\<lparr>sb_scan := Some n\<rparr>) (replicate (Suc n) 91) = Inl FormatError"
proof -
  have "utf8_decode (replicate (Suc n) 91) = Inr (replicate (Suc n) 91)"
    using decode_ascii [of "replicate (Suc n) 91"] by (simp add: list_all_iff)
  then show ?thesis by (simp add: parse_json_within_def loads_brackets deep_stack_def del: replicate.simps)
qed

text \<open>A JSON string that escapes a lone surrogate, with the final newline of a record.\<close>

definition surrogate_record :: bytes where
  "surrogate_record = [34, 92, 117, 100, 56, 48, 48, 34, 10]"

lemma surrogate_record_loads: "load_json surrogate_record True = Inl UnicodeEncodeError"
proof -
  let ?t = "[34, 92, 117, 100, 56, 48, 48, 34, 10] :: pystr"
  have "utf8_encode ?t = Inr surrogate_record" by (simp add: utf8_encode_def utf8_char_def surrogate_record_def)
  then have "utf8_decode surrogate_record = Inr ?t" by (simp add: utf8_decode_iff)
  moreover have "hex4 [100, 56, 48, 48, 34, 10] = Inr (0xD800, [34, 10])"
    by (simp add: hex_any_def is_hex_digit_def hex_value_def)
  then have "scan_string (tl ?t) = Inr ([0xD800], [10])"
    by (simp add: scan_string.simps pair_surrogates_def del: hex4.simps)
  then have v: "scan_value d fe hook (Suc n) ?t = Inr (PStr [0xD800], [10])" for d fe hook n by simp
  have "json_loads d fe hook ?t = Inr (PStr [0xD800])" for d fe hook
    using v [of d fe hook 18] by (simp add: json_loads_def del: scan_value.simps)
  moreover have "campaign_validate_json None (PStr [0xD800]) = Inr ()" by (simp add: campaign_validate_json_Inr)
  moreover from this have "campaign_json_within None None (PStr [0xD800]) = Inl UnicodeEncodeError"
    by (simp add: campaign_json_within_def json_dumps_None utf8_encode_def json_string_def json_escape_def utf8_char_def)
  ultimately show ?thesis
    by (simp add: load_json_def load_json_within_def campaign_parse_within_def deep_stack_def)
qed

section \<open>Claims\<close>

text \<open>C35: Both readers accept exactly the canonical encodings: a byte string parses to a value precisely
  when it is the value's canonical encoding and the value has distinct, sorted keys throughout.\<close>

theorem readers_accept_canonical:
  "(parse_json_bytes data = Inr v \<longleftrightarrow> canonical_json_bytes v = Inr data \<and> dict_wf v \<and> jnorm v = v) \<and>
   (load_json data True = Inr v \<longleftrightarrow> campaign_json_bytes v = Inr data \<and> dict_wf v \<and> jnorm v = v)"
  using parse_json_bytes_Inr load_json_Inr by blast

text \<open>C36: Which exceptions escape the readers, for all bytes and every depth of the interpreter's stack.
  The reference parser raises only \<open>FormatError\<close>.  The campaign parser raises \<open>CampaignIOError\<close>, and lets
  two more escape: a plain \<open>ValueError\<close>, only from bytes longer than the digit limit of \<open>int\<close>, and
  \<open>RecursionError\<close>, only when the stack of its scanner or validator is bounded; \<open>load_json\<close> can also
  raise \<open>UnicodeEncodeError\<close>.  All three escapes occur: an integer one or more digits over the limit, one
  bracket more than the scanner may nest (which the reference parser reports as \<open>FormatError\<close>), and a
  record with an escaped lone surrogate.\<close>

theorem reader_exceptions:
  "(case parse_json_within stack data of Inl e \<Rightarrow> e = FormatError | Inr _ \<Rightarrow> True) \<and>
   (case campaign_parse_within stack data of Inr _ \<Rightarrow> True | Inl e \<Rightarrow>
      e = CampaignIOError \<or> (e = ValueError \<and> INT_MAX_STR_DIGITS < length data) \<or>
      (e = RecursionError \<and> {sb_scan stack, sb_validate stack} \<noteq> {None})) \<and>
   (case load_json_within stack data canonical of Inr _ \<Rightarrow> True | Inl e \<Rightarrow>
      e \<in> {CampaignIOError, UnicodeEncodeError} \<or> (e = ValueError \<and> INT_MAX_STR_DIGITS < length data) \<or>
      (e = RecursionError \<and>
         {sb_scan stack, sb_validate stack, sb_encode_validate stack, sb_encode stack} \<noteq> {None})) \<and>
   campaign_parse_json_bytes (replicate (INT_MAX_STR_DIGITS + 1 + k) 49) = Inl ValueError \<and>
   campaign_parse_within (deep_stack\<lparr>sb_scan := Some n\<rparr>) (replicate (Suc n) 91) = Inl RecursionError \<and>
   parse_json_within (deep_stack\<lparr>sb_scan := Some n\<rparr>) (replicate (Suc n) 91) = Inl FormatError \<and>
   load_json surrogate_record True = Inl UnicodeEncodeError"
  using parse_json_within_Inl [of stack data] campaign_parse_within_Inl [of stack data]
    load_json_within_Inl [of stack data canonical] campaign_oversized campaign_brackets reference_brackets
    surrogate_record_loads
  by (auto split: sum.splits)

end
