(* ===== verification/Eviction.thy ===== *)
theory Eviction
  imports JsonText
begin

text \<open>
  Model of \<open>tg_verifier/azure_eviction.py\<close>: the classification of how an attempt ended, the retry
  decision, the append-only attempt ledger of each leaf, quarantine, and the coverage report.

  Stages, termination classes and decisions are \<open>string\<close>s drawn from the source's tables; task ids,
  digests, group ids and paths are arbitrary Python strings (\<open>pystr\<close>).  Parameters carry the types
  of their annotations, so the \<open>isinstance\<close> branches disappear.

  The part of the file system that the module touches is the record \<open>campaign_dir\<close>: the ledger
  directory of each leaf as a list of file names and contents, the quarantined workspaces, and the
  workspaces in place.  Lock files, whose names start with a dot and which every listing skips, are
  not represented; the lock itself makes each operation one step.
\<close>

section \<open>Tables\<close>

definition ATTEMPT_SCHEMA_VERSION :: int where "ATTEMPT_SCHEMA_VERSION = 1"
definition ATTEMPT_KIND :: pystr where "ATTEMPT_KIND = lit ''sparkinterval.azure.tg.leaf-attempt.v1''"
definition COVERAGE_KIND :: pystr where "COVERAGE_KIND = lit ''sparkinterval.azure.tg.leaf-receipt-coverage.v1''"
definition DEFAULT_MAX_ATTEMPTS_PER_LEAF :: int where "DEFAULT_MAX_ATTEMPTS_PER_LEAF = 8"
definition MAX_CONTROL_BYTES :: nat where "MAX_CONTROL_BYTES = 64 * 1024 * 1024"

definition TERMINATION_CLASSES :: "(string \<times> string) list" where
  "TERMINATION_CLASSES = [
    (''completed'',
     ''the measured child exited zero and published its run package''),
    (''preempted'',
     ''the platform reclaimed the VM: an Azure Scheduled Events Preempt or Terminate notice was '' @
     ''observed, or the node disappeared while the child was running''),
    (''host_failure'',
     ''an infrastructure fault that is not a reclamation''),
    (''workload_failure'',
     ''the measured child itself exited non-zero''),
    (''timeout'',
     ''the orchestrator's own per-step timeout elapsed''),
    (''challenge_expired'',
     ''the attestation challenge TTL elapsed before the run finished''),
    (''unknown'',
     ''the reason could not be determined'')]"

definition ATTEMPT_STAGES :: "string list" where
  "ATTEMPT_STAGES = [''handoff_prepared'',
    ''challenge_created'',
    ''azure_deployment_in_progress'',
    ''azure_deployed'',
    ''measured_run_in_progress'',
    ''returned_package_ingested'',
    ''appraisal_recorded'',
    ''receipt_issuance_in_progress'',
    ''verified_receipt_recorded'']"

record stage_row =
  sp_decision :: string
  sp_fresh_challenge :: bool
  sp_teardown :: bool
  sp_reason :: string

text \<open>The prose of the table, kept apart from it.\<close>

definition reason_handoff_prepared :: string where
  "reason_handoff_prepared =
    ''only local files exist; no challenge was released and no cloud resource was created''"

definition reason_challenge_created :: string where
  "reason_challenge_created =
    ''a nonce was minted but the workload was never released. The nonce is still retired '' @
    ''rather than reused: the operator cannot prove from outside that the VM never extended '' @
    ''PCR23 with it, and a fresh nonce costs nothing''"

definition reason_azure_deployment_in_progress :: string where
  "reason_azure_deployment_in_progress =
    ''a create call may have partially succeeded, so a VM may exist and be billing. This is a '' @
    ''resource-leak reconciliation, not a correctness one, but it is not safe to loop on '' @
    ''automatically''"

definition reason_azure_deployed :: string where
  "reason_azure_deployed =
    ''the VM exists and is known; it must be destroyed before a retry so the campaign cannot '' @
    ''accumulate paid idle nodes''"

definition reason_measured_run_in_progress :: string where
  "reason_measured_run_in_progress =
    ''this is where a spot eviction almost always lands, because the measured run is the long '' @
    ''pole. The challenge is burned, so the retry needs a fresh one; the measured runner '' @
    ''publishes its package with a single atomic rename, so a killed run leaves a staging '' @
    ''directory and never a package that could be ingested''"

definition reason_returned_package_ingested :: string where
  "reason_returned_package_ingested =
    ''a complete attested package may already be on disk. Retrying would silently discard a '' @
    ''paid, attested result; the receipt path is O_EXCL so a second receipt is impossible '' @
    ''either way, but throwing away evidence without a human deciding is not something this '' @
    ''layer should do''"

definition reason_appraisal_recorded :: string where
  "reason_appraisal_recorded =
    ''as above; an appraisal of real evidence exists''"

definition reason_receipt_issuance_in_progress :: string where
  "reason_receipt_issuance_in_progress =
    ''the Managed HSM may have signed. This row must never become automatic: a signature that '' @
    ''exists but was not recorded is precisely the case a human has to look at''"

definition reason_verified_receipt_recorded :: string where
  "reason_verified_receipt_recorded =
    ''the leaf has its one receipt; there is nothing to retry''"

definition STAGE_POLICY :: "(string \<times> stage_row) list" where
  "STAGE_POLICY = [
    (''handoff_prepared'', \<lparr>sp_decision = ''retry_admissible'',
      sp_fresh_challenge = True, sp_teardown = False, sp_reason = reason_handoff_prepared\<rparr>),
    (''challenge_created'', \<lparr>sp_decision = ''retry_admissible'',
      sp_fresh_challenge = True, sp_teardown = False, sp_reason = reason_challenge_created\<rparr>),
    (''azure_deployment_in_progress'', \<lparr>sp_decision = ''operator_reconciliation_required'',
      sp_fresh_challenge = True, sp_teardown = True, sp_reason = reason_azure_deployment_in_progress\<rparr>),
    (''azure_deployed'', \<lparr>sp_decision = ''retry_admissible_after_resource_teardown'',
      sp_fresh_challenge = True, sp_teardown = True, sp_reason = reason_azure_deployed\<rparr>),
    (''measured_run_in_progress'', \<lparr>sp_decision = ''retry_admissible'',
      sp_fresh_challenge = True, sp_teardown = True, sp_reason = reason_measured_run_in_progress\<rparr>),
    (''returned_package_ingested'', \<lparr>sp_decision = ''operator_reconciliation_required'',
      sp_fresh_challenge = True, sp_teardown = False, sp_reason = reason_returned_package_ingested\<rparr>),
    (''appraisal_recorded'', \<lparr>sp_decision = ''operator_reconciliation_required'',
      sp_fresh_challenge = True, sp_teardown = False, sp_reason = reason_appraisal_recorded\<rparr>),
    (''receipt_issuance_in_progress'', \<lparr>sp_decision = ''operator_reconciliation_required'',
      sp_fresh_challenge = True, sp_teardown = False, sp_reason = reason_receipt_issuance_in_progress\<rparr>),
    (''verified_receipt_recorded'', \<lparr>sp_decision = ''leaf_already_complete'',
      sp_fresh_challenge = False, sp_teardown = False, sp_reason = reason_verified_receipt_recorded\<rparr>)]"


section \<open>Policy and classification\<close>

record eviction_policy =
  max_attempts_per_leaf :: int

definition mk_eviction_policy :: "int \<Rightarrow> eviction_policy res" where
  "mk_eviction_policy n =
     (if \<not> (1 \<le> n \<and> n \<le> 1000) then Inl EvictionPolicyError else Inr \<lparr>max_attempts_per_leaf = n\<rparr>)"

definition default_policy :: eviction_policy where
  "default_policy = \<lparr>max_attempts_per_leaf = DEFAULT_MAX_ATTEMPTS_PER_LEAF\<rparr>"

definition event_in :: "pystr option \<Rightarrow> string list \<Rightarrow> bool" where
  "event_in event names \<longleftrightarrow> (case event of None \<Rightarrow> False | Some e \<Rightarrow> e \<in> set (map lit names))"

definition classify_termination ::
  "int option \<Rightarrow> int option \<Rightarrow> pystr option \<Rightarrow> bool \<Rightarrow> bool \<Rightarrow> string" where
  "classify_termination exit_code signal_number scheduled_event challenge_expired timed_out =
     (if event_in scheduled_event [''Preempt'', ''Terminate''] then ''preempted''
      else if challenge_expired then ''challenge_expired''
      else if event_in scheduled_event [''Reboot'', ''Redeploy'', ''Freeze''] then ''host_failure''
      else if timed_out then ''timeout''
      else if exit_code = Some 0 \<and> signal_number = None then ''completed''
      else if signal_number \<noteq> None then ''unknown''
      else (case exit_code of Some c \<Rightarrow> if c \<noteq> 0 then ''workload_failure'' else ''unknown'' | None \<Rightarrow> ''unknown''))"

record retry =
  rd_attempt_index :: int
  rd_decision :: string
  rd_max_attempts :: int
  rd_reason :: string
  rd_fresh_challenge :: bool
  rd_quarantine :: bool
  rd_teardown :: bool
  rd_stage :: string
  rd_termination :: string

text \<open>An integer inside a message.\<close>

definition show_int :: "int \<Rightarrow> string" where
  "show_int i = map (\<lambda>c. char_of c) (dec_int i)"

definition reason_not_reclaimed :: "string \<Rightarrow> string \<Rightarrow> string" where
  "reason_not_reclaimed stage termination = ''stage '' @ stage @ '' would permit a retry, but the attempt ended as '' @
     [CHR 0x27] @ termination @ [CHR 0x27] @ '', which is not an expected reclamation; '' @
     ''retrying would loop on a real fault''"

definition reason_budget :: "int \<Rightarrow> int \<Rightarrow> string" where
  "reason_budget attempt_index bound = ''this leaf has used '' @ show_int (attempt_index + 1) @ '' of '' @
     show_int bound @ '' permitted attempts; an '' @ ''eviction storm must surface rather than spend''"

definition retry_decision :: "string \<Rightarrow> string \<Rightarrow> int \<Rightarrow> eviction_policy option \<Rightarrow> retry res" where
  "retry_decision stage termination attempt_index policy =
     (case map_of STAGE_POLICY stage of None \<Rightarrow> Inl EvictionPolicyError
      | Some row \<Rightarrow>
        if termination \<notin> fst ` set TERMINATION_CLASSES then Inl EvictionPolicyError
        else if attempt_index < 0 then Inl EvictionPolicyError
        else
          let bounds = (case policy of None \<Rightarrow> default_policy | Some p \<Rightarrow> p);
              base = (if termination = ''completed'' \<and> stage = ''verified_receipt_recorded''
                      then ''leaf_already_complete'' else sp_decision row);
              (decision, reason) =
                (if base \<in> {''retry_admissible'', ''retry_admissible_after_resource_teardown''} then
                   if termination \<in> {''workload_failure'', ''unknown''}
                   then (''operator_reconciliation_required'', reason_not_reclaimed stage termination)
                   else if attempt_index + 1 \<ge> max_attempts_per_leaf bounds
                   then (''attempt_budget_exhausted'', reason_budget attempt_index (max_attempts_per_leaf bounds))
                   else (base, sp_reason row)
                 else (base, sp_reason row))
          in Inr \<lparr>rd_attempt_index = attempt_index, rd_decision = decision,
               rd_max_attempts = max_attempts_per_leaf bounds, rd_reason = reason,
               rd_fresh_challenge = sp_fresh_challenge row, rd_quarantine = (decision \<noteq> ''leaf_already_complete''),
               rd_teardown = sp_teardown row, rd_stage = stage, rd_termination = termination\<rparr>)"

section \<open>The campaign directory\<close>

datatype node = Directory bytes | Link

record campaign_dir =
  cd_attempts :: "pystr \<Rightarrow> (pystr \<times> bytes) list option"
  cd_quarantine :: "pystr \<times> pystr \<Rightarrow> bytes option"
  cd_workspaces :: "pystr \<Rightarrow> node option"

text \<open>\<open>[0-9a-f]{24}-[0-9]{9}\<close>.\<close>

definition digits :: "nat \<Rightarrow> pystr \<Rightarrow> bool" where
  "digits n s \<longleftrightarrow> length s = n \<and> list_all is_digit s"

definition task_id :: "pystr \<Rightarrow> pystr res" where
  "task_id value =
     (if hex_string 24 (take 24 value) \<and> take 1 (drop 24 value) = [45] \<and> digits 9 (drop 25 value)
      then Inr value else Inl EvictionPolicyError)"

definition sha256_text :: "pystr \<Rightarrow> pystr res" where
  "sha256_text value = (if hex_string 64 value then Inr value else Inl EvictionPolicyError)"

text \<open>\<open>f"{index:06d}"\<close>, the two names built from it, and the index read from a ledger file name.\<close>

definition pad6 :: "nat \<Rightarrow> pystr" where
  "pad6 n = replicate (6 - length (dec_nat n)) 48 @ dec_nat n"

definition attempt_dir_name :: "nat \<Rightarrow> pystr" where
  "attempt_dir_name n = lit ''attempt-'' @ pad6 n"

definition attempt_file :: "nat \<Rightarrow> pystr" where
  "attempt_file n = lit ''attempt-'' @ pad6 n @ lit ''.json''"

definition attempt_index_of :: "pystr \<Rightarrow> nat option" where
  "attempt_index_of name =
     (let ds = take 6 (drop 8 name)
      in if take 8 name = lit ''attempt-'' \<and> digits 6 ds \<and> drop 14 name = lit ''.json''
         then Some (nat (number_value ds)) else None)"

text \<open>The listing loop: hidden names are skipped, other names must be ledger names.\<close>

fun index_entries :: "(nat \<times> bytes) list \<Rightarrow> (pystr \<times> bytes) list \<Rightarrow> (nat \<times> bytes) list res" where
  "index_entries by_index [] = Inr by_index"
| "index_entries by_index ((name, content) # entries) =
     (if next_is 46 name then index_entries by_index entries
      else (case attempt_index_of name of None \<Rightarrow> Inl EvictionPolicyError
        | Some i \<Rightarrow> if i \<in> fst ` set by_index then Inl EvictionPolicyError
                    else index_entries (by_index @ [(i, content)]) entries))"

definition attempt_paths :: "campaign_dir \<Rightarrow> pystr \<Rightarrow> (nat \<times> bytes) list res" where
  "attempt_paths d task = ebind (task_id task) (\<lambda>task.
     case cd_attempts d task of None \<Rightarrow> Inr []
     | Some entries \<Rightarrow> ebind (index_entries [] (sort_key fst entries)) (\<lambda>by_index.
         if fst ` set by_index \<noteq> {..<length by_index} then Inl EvictionPolicyError
         else Inr (sort_key fst by_index)))"

text \<open>\<open>load_json(path, require_canonical=True)\<close>, with the size limit of \<open>read_bytes_once\<close>.\<close>

definition load_control_file :: "bytes \<Rightarrow> pyval res" where
  "load_control_file raw =
     (if length raw > MAX_CONTROL_BYTES then Inl CampaignIOError else load_json raw True)"

definition load_attempt :: "pystr \<Rightarrow> nat \<times> bytes \<Rightarrow> (pystr \<times> pyval) list res" where
  "load_attempt task file =
     ebind (catch_as (\<lambda>e. e = CampaignIOError) EvictionPolicyError (load_control_file (snd file))) (\<lambda>value.
       case value of PDict record \<Rightarrow>
         if \<not> py_eq (dict_lookup record ''kind'') (PStr ATTEMPT_KIND) then Inl EvictionPolicyError
         else if \<not> py_eq (dict_lookup record ''attempt_index'') (PInt (int (fst file))) then Inl EvictionPolicyError
         else if \<not> py_eq (dict_lookup record ''task_id'') (PStr task) then Inl EvictionPolicyError
         else Inr record
       | _ \<Rightarrow> Inl EvictionPolicyError)"

definition load_attempts :: "campaign_dir \<Rightarrow> pystr \<Rightarrow> (pystr \<times> pyval) list list res" where
  "load_attempts d task = ebind (attempt_paths d task) (map_res (load_attempt task))"

section \<open>Recording an attempt\<close>

text \<open>\<open>write_immutable_json\<close> on the present content of the path: the content afterwards and the digest.\<close>

definition write_immutable_json :: "bytes option \<Rightarrow> pyval \<Rightarrow> (bytes \<times> pystr) res" where
  "write_immutable_json existing value = ebind (campaign_json_bytes value) (\<lambda>raw.
     case existing of None \<Rightarrow> Inr (raw, sha256_bytes raw)
     | Some old \<Rightarrow> if length old > MAX_CONTROL_BYTES then Inl CampaignIOError
                   else if old \<noteq> raw then Inl CampaignIOError
                   else Inr (raw, sha256_bytes raw))"

definition make_leaf_dir :: "campaign_dir \<Rightarrow> pystr \<Rightarrow> campaign_dir" where
  "make_leaf_dir d task = (case cd_attempts d task of Some _ \<Rightarrow> d
     | None \<Rightarrow> d\<lparr>cd_attempts := (cd_attempts d)(task \<mapsto> [])\<rparr>)"

definition attempt_record ::
  "nat \<Rightarrow> pystr \<Rightarrow> string \<Rightarrow> pystr \<Rightarrow> pystr option \<Rightarrow> int \<Rightarrow> string \<Rightarrow> pystr \<Rightarrow> string \<Rightarrow> (pystr \<times> pyval) list" where
  "attempt_record index challenge decision group_id quarantined_path shard stage task termination =
     map (\<lambda>(k, v). (lit k, v))
      [(''attempt_index'', PInt (int index)), (''challenge_sha256'', PStr challenge), (''decision'', PStr (lit decision)),
       (''group_id'', PStr group_id), (''kind'', PStr ATTEMPT_KIND),
       (''quarantined_path'', case quarantined_path of None \<Rightarrow> PNone | Some p \<Rightarrow> PStr p),
       (''schema_version'', PInt ATTEMPT_SCHEMA_VERSION), (''shard_index'', PInt shard), (''stage'', PStr (lit stage)),
       (''task_id'', PStr task), (''termination'', PStr (lit termination))]"

text \<open>\<open>record[key]\<close> compared with a string, over all records.\<close>

definition field_is :: "string \<Rightarrow> pystr \<Rightarrow> (pystr \<times> pyval) list \<Rightarrow> bool res" where
  "field_is key value record = ebind (dict_get record key) (\<lambda>v. Inr (py_eq v (PStr value)))"

definition check_attempt_arguments :: "pystr \<Rightarrow> pystr \<Rightarrow> int \<Rightarrow> pystr \<Rightarrow> string \<Rightarrow> string \<Rightarrow> unit res" where
  "check_attempt_arguments task group_id shard challenge stage termination =
     ebind (task_id task) (\<lambda>_.
       if group_id = [] then Inl EvictionPolicyError
       else if shard < 0 then Inl EvictionPolicyError
       else ebind (sha256_text challenge) (\<lambda>_.
         if map_of STAGE_POLICY stage = None then Inl EvictionPolicyError
         else if termination \<notin> fst ` set TERMINATION_CLASSES then Inl EvictionPolicyError
         else Inr ()))"

text \<open>The search for a reused challenge: the loop stops at the first match.\<close>

fun check_fresh :: "pystr \<Rightarrow> (pystr \<times> pyval) list list \<Rightarrow> unit res" where
  "check_fresh challenge [] = Inr ()"
| "check_fresh challenge (record # records) = ebind (field_is ''challenge_sha256'' challenge record) (\<lambda>same.
     if same then Inl EvictionPolicyError else check_fresh challenge records)"

definition record_attempt ::
  "campaign_dir \<Rightarrow> pystr \<Rightarrow> pystr \<Rightarrow> int \<Rightarrow> pystr \<Rightarrow> string \<Rightarrow> string \<Rightarrow> pystr option \<Rightarrow> eviction_policy option \<Rightarrow>
     campaign_dir \<times> (retry \<times> (pystr \<times> pyval) list) res" where
  "record_attempt d task group_id shard challenge stage termination quarantined_path policy =
     (case check_attempt_arguments task group_id shard challenge stage termination of Inl e \<Rightarrow> (d, Inl e)
      | Inr _ \<Rightarrow>
        let d = make_leaf_dir d task
        in case ebind (load_attempts d task) (\<lambda>existing.
             ebind (check_fresh challenge existing) (\<lambda>_.
             ebind (map_res (field_is ''termination'' (lit ''completed'')) existing) (\<lambda>completed.
               if True \<in> set completed \<and> termination = ''completed'' then Inl EvictionPolicyError
               else
             ebind (retry_decision stage termination (int (length existing)) policy) (\<lambda>decision.
               let index = length existing;
                   record = attempt_record index challenge (rd_decision decision) group_id quarantined_path shard
                     stage task termination;
                   entries = the (cd_attempts d task)
               in ebind (write_immutable_json (map_of entries (attempt_file index)) (PDict record)) (\<lambda>(raw, _).
                 Inr (d\<lparr>cd_attempts := (cd_attempts d)(task \<mapsto> dict_set entries (attempt_file index) raw)\<rparr>,
                   decision, record)))))) of
           Inl e \<Rightarrow> (d, Inl e)
         | Inr (d', decision, record) \<Rightarrow> (d', Inr (decision, record)))"

section \<open>Quarantine\<close>

text \<open>Whether \<open>os.replace\<close> succeeds once the checks hold is up to the file system: \<open>replace_ok\<close>.\<close>

definition quarantine_attempt ::
  "bool \<Rightarrow> campaign_dir \<Rightarrow> pystr \<Rightarrow> int \<Rightarrow> pystr \<Rightarrow> campaign_dir \<times> (pystr \<times> pystr) res" where
  "quarantine_attempt replace_ok d task attempt_index workspace =
     (case task_id task of Inl e \<Rightarrow> (d, Inl e) | Inr task \<Rightarrow>
        if \<not> (0 \<le> attempt_index \<and> attempt_index \<le> 999999) then (d, Inl EvictionPolicyError)
        else (case cd_workspaces d workspace of Some (Directory content) \<Rightarrow>
            let destination = (task, attempt_dir_name (nat attempt_index))
            in if cd_quarantine d destination \<noteq> None then (d, Inl EvictionPolicyError)
               else if \<not> replace_ok then (d, Inl EvictionPolicyError)
               else (d\<lparr>cd_workspaces := (cd_workspaces d)(workspace := None),
                       cd_quarantine := (cd_quarantine d)(destination \<mapsto> content)\<rparr>, Inr destination)
          | _ \<Rightarrow> (d, Inl EvictionPolicyError)))"

section \<open>Coverage\<close>

text \<open>The violations, each with what its message names; their sorting by message text is not modelled.\<close>

datatype violation =
    ManyCompleted pystr nat
  | ReceiptWithoutCompletion pystr
  | CompletionWithoutReceipt pystr
  | NotQuarantined pystr pyval pyval
  | CompletedQuarantined pystr pyval
  | UnplannedReceipt pystr

record leaf_row =
  lr_task :: pystr
  lr_attempts :: nat
  lr_completed :: nat
  lr_has_receipt :: bool
  lr_quarantined :: nat

record coverage =
  cv_leaves_retried :: nat
  cv_max_attempts :: nat
  cv_total_attempts :: nat
  cv_wasted_attempts :: nat
  cv_exact :: bool
  cv_expected_count :: nat
  cv_leaves :: "leaf_row list"
  cv_missing :: "pystr list"
  cv_receipt_count :: nat
  cv_unexpected :: "pystr list"
  cv_violations :: "violation list"

definition not_quarantined :: "pystr \<Rightarrow> (pystr \<times> pyval) list \<Rightarrow> violation list res" where
  "not_quarantined task row = ebind (dict_get row ''quarantined_path'') (\<lambda>path.
     if path = PNone then ebind (dict_get row ''attempt_index'') (\<lambda>i. ebind (dict_get row ''termination'') (\<lambda>t.
       Inr [NotQuarantined task i t]))
     else Inr [])"

definition completed_quarantined :: "pystr \<Rightarrow> (pystr \<times> pyval) list \<Rightarrow> violation list res" where
  "completed_quarantined task row = ebind (dict_get row ''quarantined_path'') (\<lambda>path.
     if path \<noteq> PNone then ebind (dict_get row ''attempt_index'') (\<lambda>i. Inr [CompletedQuarantined task i])
     else Inr [])"

text \<open>The body of the loop over the leaves.\<close>

definition check_leaf :: "campaign_dir \<Rightarrow> pystr set \<Rightarrow> pystr \<Rightarrow> (leaf_row \<times> violation list) res" where
  "check_leaf d receipts task = ebind (load_attempts d task) (\<lambda>records.
     ebind (map_res (field_is ''termination'' (lit ''completed'')) records) (\<lambda>flags.
       let completed = map fst (filter snd (zip records flags));
           not_completed = map fst (filter (\<lambda>(_, f). \<not> f) (zip records flags));
           has_receipt = task \<in> receipts
       in ebind (map_res (not_quarantined task) not_completed) (\<lambda>loose.
          ebind (map_res (completed_quarantined task) completed) (\<lambda>hidden.
            Inr (\<lparr>lr_task = task, lr_attempts = length records, lr_completed = length completed,
                  lr_has_receipt = has_receipt, lr_quarantined = length not_completed\<rparr>,
              (if length completed > 1 then [ManyCompleted task (length completed)] else []) @
              (if has_receipt \<and> completed = [] then [ReceiptWithoutCompletion task] else []) @
              (if completed \<noteq> [] \<and> \<not> has_receipt then [CompletionWithoutReceipt task] else []) @
              concat loose @ concat hidden)))))"

definition verify_leaf_receipt_coverage ::
  "campaign_dir \<Rightarrow> (pystr \<times> 'm) list \<Rightarrow> (pystr \<times> 'r) list \<Rightarrow> coverage res" where
  "verify_leaf_receipt_coverage d expected_leaves receipts_by_task =
     ebind (map_res (\<lambda>(t, _). task_id t) expected_leaves) (\<lambda>expected.
     ebind (map_res (\<lambda>(t, _). task_id t) receipts_by_task) (\<lambda>receipts.
     ebind (map_res (check_leaf d (set receipts)) (sort (remdups expected))) (\<lambda>checked.
       let missing = sorted_list_of_set (set expected - set receipts);
           unexpected = sorted_list_of_set (set receipts - set expected);
           leaves = map fst checked;
           violations = concat (map snd checked) @ map UnplannedReceipt unexpected
       in Inr \<lparr>cv_leaves_retried = length (filter (\<lambda>r. lr_attempts r > 1) leaves),
            cv_max_attempts = foldr (\<lambda>r m. max (lr_attempts r) m) leaves 0,
            cv_total_attempts = sum_list (map lr_attempts leaves),
            cv_wasted_attempts = sum_list (map lr_quarantined leaves),
            cv_exact = (missing = [] \<and> unexpected = [] \<and> violations = []),
            cv_expected_count = length (remdups expected), cv_leaves = leaves, cv_missing = missing,
            cv_receipt_count = length (remdups receipts), cv_unexpected = unexpected,
            cv_violations = violations\<rparr>)))"

end
