(* ===== verification/Eviction_Ledger.thy ===== *)
theory Eviction_Ledger
  imports Eviction JsonText_Claims
begin

text \<open>
  The ledger against its abstract specification: for each leaf an append-only list of attempts.
  The files of a ledger directory are exactly the canonical records of that list, so loading gives
  the list back and recording appends one attempt or leaves the list alone: every operation on the
  directory is one on the lists.
\<close>

section \<open>The retry decision\<close>

lemma stage_rows:
  "map_of STAGE_POLICY stage = Some row \<Longrightarrow>
     sp_decision row = (if stage \<in> {''handoff_prepared'', ''challenge_created'', ''measured_run_in_progress''} then ''retry_admissible''
       else if stage = ''azure_deployed'' then ''retry_admissible_after_resource_teardown''
       else if stage = ''verified_receipt_recorded'' then ''leaf_already_complete''
       else ''operator_reconciliation_required'') \<and>
     sp_fresh_challenge row = (stage \<noteq> ''verified_receipt_recorded'') \<and>
     sp_teardown row = (stage \<in> {''azure_deployment_in_progress'', ''azure_deployed'', ''measured_run_in_progress''}) \<and>
     stage \<in> set ATTEMPT_STAGES"
  by (auto simp: STAGE_POLICY_def ATTEMPT_STAGES_def split: if_splits)

lemma stage_known: "(\<exists>row. map_of STAGE_POLICY stage = Some row) \<longleftrightarrow> stage \<in> set ATTEMPT_STAGES"
  by (auto simp: STAGE_POLICY_def ATTEMPT_STAGES_def)

definition retry_allowed :: "string \<Rightarrow> string \<Rightarrow> int \<Rightarrow> int \<Rightarrow> bool" where
  "retry_allowed stage termination attempt_index bound \<longleftrightarrow>
     stage \<in> {''handoff_prepared'', ''challenge_created'', ''azure_deployed'', ''measured_run_in_progress''} \<and>
     termination \<notin> {''workload_failure'', ''unknown''} \<and> attempt_index + 1 < bound"

definition retries :: "string \<Rightarrow> bool" where
  "retries decision \<longleftrightarrow> decision \<in> {''retry_admissible'', ''retry_admissible_after_resource_teardown''}"

lemma retry_decision_Inr:
  assumes "retry_decision stage termination i policy = Inr r"
  shows "stage \<in> set ATTEMPT_STAGES" "termination \<in> fst ` set TERMINATION_CLASSES" "0 \<le> i"
    "rd_max_attempts r = max_attempts_per_leaf (case policy of None \<Rightarrow> default_policy | Some p \<Rightarrow> p)"
    "retries (rd_decision r) \<longleftrightarrow> retry_allowed stage termination i (rd_max_attempts r)"
    "rd_fresh_challenge r \<longleftrightarrow> stage \<noteq> ''verified_receipt_recorded''"
    "rd_quarantine r \<longleftrightarrow> stage \<noteq> ''verified_receipt_recorded''"
proof -
  obtain row where row: "map_of STAGE_POLICY stage = Some row" "termination \<in> fst ` set TERMINATION_CLASSES" "0 \<le> i"
    using assms by (auto simp: retry_decision_def split: option.splits if_splits)
  note s = stage_rows [OF row(1)]
  show "stage \<in> set ATTEMPT_STAGES" "termination \<in> fst ` set TERMINATION_CLASSES" "0 \<le> i" using row s by auto
  let ?bound = "max_attempts_per_leaf (case policy of None \<Rightarrow> default_policy | Some p \<Rightarrow> p)"
  let ?out = "if retries (sp_decision row) then
      if termination \<in> {''workload_failure'', ''unknown''}
      then (''operator_reconciliation_required'', reason_not_reclaimed stage termination)
      else if i + 1 \<ge> ?bound then (''attempt_budget_exhausted'', reason_budget i ?bound)
      else (sp_decision row, sp_reason row)
    else (sp_decision row, sp_reason row)"
  have base: "(if termination = ''completed'' \<and> stage = ''verified_receipt_recorded'' then ''leaf_already_complete''
      else sp_decision row) = sp_decision row" using s by simp
  have r: "r = \<lparr>rd_attempt_index = i, rd_decision = fst ?out, rd_max_attempts = ?bound, rd_reason = snd ?out,
      rd_fresh_challenge = sp_fresh_challenge row, rd_quarantine = (fst ?out \<noteq> ''leaf_already_complete''),
      rd_teardown = sp_teardown row, rd_stage = stage, rd_termination = termination\<rparr>"
    using assms [unfolded retry_decision_def row(1) option.case base Let_def retries_def [symmetric]] row(2,3)
    by (simp add: split_beta)
  show bound: "rd_max_attempts r = ?bound" by (simp add: r)
  have out: "retries (fst ?out) \<longleftrightarrow> retries (sp_decision row) \<and> termination \<notin> {''workload_failure'', ''unknown''} \<and> i + 1 < ?bound"
    by (auto simp: retries_def)
  have "retries (sp_decision row) \<longleftrightarrow>
      stage \<in> {''handoff_prepared'', ''challenge_created'', ''azure_deployed'', ''measured_run_in_progress''}"
    using s by (auto simp: retries_def)
  with out show "retries (rd_decision r) \<longleftrightarrow> retry_allowed stage termination i (rd_max_attempts r)"
    unfolding bound retry_allowed_def by (simp only: r retry.simps)
  show "rd_fresh_challenge r \<longleftrightarrow> stage \<noteq> ''verified_receipt_recorded''" using s by (simp only: r retry.simps)
  have "fst ?out = ''leaf_already_complete'' \<longleftrightarrow> sp_decision row = ''leaf_already_complete''"
    by (auto simp: retries_def)
  moreover have "sp_decision row = ''leaf_already_complete'' \<longleftrightarrow> stage = ''verified_receipt_recorded''"
    using s by auto
  ultimately show "rd_quarantine r \<longleftrightarrow> stage \<noteq> ''verified_receipt_recorded''" by (simp only: r retry.simps)
qed

section \<open>File names\<close>

lemma pad6:
  assumes "n < 1000000"
  shows "digits 6 (pad6 n)" "number_value (pad6 n) = int n"
proof -
  have len: "length (dec_nat n) \<le> 6" using length_dec_nat_le [of n 5] assms by simp
  have d: "list_all is_digit (pad6 n)" using dec_nat_is_digit [of n] by (auto simp: pad6_def list_all_iff is_digit_def)
  then show "digits 6 (pad6 n)" using len by (simp add: digits_def pad6_def)
  have "dec_value (replicate k 48 @ s) = dec_value s" for k s
    by (induction k) (simp_all add: dec_value_def)
  then have "dec_value (pad6 n) = n" by (simp add: pad6_def dec_value_dec_nat)
  with d show "number_value (pad6 n) = int n" by (simp add: number_value_digits)
qed

lemma attempt_index_file: "n < 1000000 \<Longrightarrow> attempt_index_of (attempt_file n) = Some n"
proof -
  assume n: "n < 1000000"
  note p = pad6 [OF n]
  have len: "length (pad6 n) = 6" using p(1) by (simp add: digits_def)
  have pre: "length (lit ''attempt-'') = 8" by (simp add: lit_def)
  have "take 8 (attempt_file n) = lit ''attempt-''" "drop 8 (attempt_file n) = pad6 n @ lit ''.json''"
    unfolding attempt_file_def using pre by simp_all
  moreover from this(2) have "drop 14 (attempt_file n) = lit ''.json''"
    using len drop_drop [of 6 8 "attempt_file n"] by simp
  ultimately show ?thesis using p len by (simp add: attempt_index_of_def Let_def)
qed

lemma attempt_file_shown: "\<not> next_is 46 (attempt_file n)"
  by (simp add: attempt_file_def lit_def)

section \<open>The abstract ledger\<close>

record attempt =
  at_challenge :: pystr
  at_decision :: string
  at_group :: pystr
  at_quarantined :: "pystr option"
  at_shard :: int
  at_stage :: string
  at_termination :: string

definition encode_attempt :: "pystr \<Rightarrow> nat \<Rightarrow> attempt \<Rightarrow> (pystr \<times> pyval) list" where
  "encode_attempt task i a = attempt_record i (at_challenge a) (at_decision a) (at_group a) (at_quarantined a)
     (at_shard a) (at_stage a) task (at_termination a)"

definition stored :: "pystr \<Rightarrow> nat \<Rightarrow> attempt \<Rightarrow> bytes \<Rightarrow> bool" where
  "stored task i a raw \<longleftrightarrow> campaign_json_bytes (PDict (encode_attempt task i a)) = Inr raw \<and> length raw \<le> MAX_CONTROL_BYTES"

definition stored_ledger :: "pystr \<Rightarrow> attempt list \<Rightarrow> (pystr \<times> bytes) list \<Rightarrow> bool" where
  "stored_ledger task as es \<longleftrightarrow> length as \<le> 1000000 \<and> map fst es = map attempt_file [0..<length as] \<and>
     (\<forall>i < length as. stored task i (as ! i) (snd (es ! i)))"

definition ledger_rel :: "campaign_dir \<Rightarrow> (pystr \<Rightarrow> attempt list) \<Rightarrow> bool" where
  "ledger_rel d L \<longleftrightarrow> (\<forall>task. case cd_attempts d task of None \<Rightarrow> L task = [] | Some es \<Rightarrow> stored_ledger task (L task) es)"

definition completed :: "attempt \<Rightarrow> bool" where
  "completed a \<longleftrightarrow> at_termination a = ''completed''"

section \<open>Loading\<close>

lemma record_fields:
  "map_of (encode_attempt task i a) (lit ''kind'') = Some (PStr ATTEMPT_KIND)"
  "map_of (encode_attempt task i a) (lit ''attempt_index'') = Some (PInt (int i))"
  "map_of (encode_attempt task i a) (lit ''task_id'') = Some (PStr task)"
  "map_of (encode_attempt task i a) (lit ''challenge_sha256'') = Some (PStr (at_challenge a))"
  "map_of (encode_attempt task i a) (lit ''termination'') = Some (PStr (lit (at_termination a)))"
  "map_of (encode_attempt task i a) (lit ''quarantined_path'') =
     Some (case at_quarantined a of None \<Rightarrow> PNone | Some p \<Rightarrow> PStr p)"
  by (simp_all add: encode_attempt_def attempt_record_def)

lemma record_normal: "jnorm (PDict (encode_attempt task i a)) = PDict (encode_attempt task i a)"
proof -
  have keys: "sorted (map fst (encode_attempt task i a))"
    by (simp add: encode_attempt_def attempt_record_def lit_def)
  have "map (\<lambda>(k, v). (k, jnorm v)) (encode_attempt task i a) = encode_attempt task i a"
    by (simp add: encode_attempt_def attempt_record_def split: option.split)
  then show ?thesis using keys by (simp add: sort_key_id_if_sorted)
qed

lemma record_wf: "dict_wf (PDict (encode_attempt task i a))"
  by (simp add: encode_attempt_def attempt_record_def split: option.split)

lemma record_json: "json_dom (PDict (encode_attempt task i a))"
  by (simp add: encode_attempt_def attempt_record_def split: option.split)

lemma stored_loads:
  assumes "stored task i a raw"
  shows "load_attempt task (i, raw) = Inr (encode_attempt task i a)"
proof -
  have "load_json raw True = Inr (PDict (encode_attempt task i a))"
    using assms by (simp add: load_json_Inr stored_def record_normal record_wf del: jnorm.simps dict_wf.simps)
  then have "load_control_file raw = Inr (PDict (encode_attempt task i a))"
    using assms by (simp add: load_control_file_def stored_def)
  then show ?thesis by (simp add: load_attempt_def dict_lookup_def record_fields py_eq_str)
qed

lemma index_entries_names:
  assumes "\<And>e. e \<in> set es \<Longrightarrow> \<not> next_is 46 (fst e) \<and> attempt_index_of (fst e) = Some (f e)"
    "distinct (map f es)" "fst ` set acc \<inter> f ` set es = {}"
  shows "index_entries acc es = Inr (acc @ map (\<lambda>e. (f e, snd e)) es)"
  using assms
proof (induction es arbitrary: acc)
  case (Cons e es)
  obtain n b where e: "e = (n, b)" by fastforce
  then have "\<not> next_is 46 n" "attempt_index_of n = Some (f (n, b))" "f (n, b) \<notin> fst ` set acc"
    using Cons.prems(1) [of e] Cons.prems(3) by auto
  moreover have "index_entries (acc @ [(f (n, b), b)]) es = Inr ((acc @ [(f (n, b), b)]) @ map (\<lambda>e. (f e, snd e)) es)"
    by (rule Cons.IH) (use Cons.prems e in auto)
  ultimately show ?case unfolding e by simp
qed simp

lemma pad6_value: "number_value (pad6 n) = int n"
proof -
  have "list_all is_digit (pad6 n)" using dec_nat_is_digit [of n] by (auto simp: pad6_def list_all_iff is_digit_def)
  moreover have "dec_value (replicate k 48 @ s) = dec_value s" for k s
    by (induction k) (simp_all add: dec_value_def)
  ultimately show ?thesis by (simp add: number_value_digits pad6_def dec_value_dec_nat)
qed

lemma attempt_file_inj: "attempt_file m = attempt_file n \<longleftrightarrow> m = n"
proof
  assume "attempt_file m = attempt_file n"
  then have "pad6 m = pad6 n" by (simp add: attempt_file_def)
  from arg_cong [OF this, of number_value] show "m = n" by (simp only: pad6_value of_nat_eq_iff)
qed simp

lemma attempt_paths_stored:
  assumes "stored_ledger task as es" "cd_attempts d task = Some es" "task_id task = Inr task"
  shows "attempt_paths d task = Inr (map (\<lambda>i. (i, snd (es ! i))) [0..<length as])"
proof -
  let ?n = "length as" and ?ix = "map (\<lambda>i. (i, snd (es ! i))) [0..<length as]"
  define f where "f e = the (attempt_index_of (fst e))" for e :: "pystr \<times> bytes"
  have n: "length es = ?n" "?n \<le> 1000000"
    using assms(1) by (auto simp: stored_ledger_def dest: map_eq_imp_length_eq)
  have name: "fst (es ! i) = attempt_file i" if "i < ?n" for i
  proof -
    have "map fst es ! i = map attempt_file [0..<?n] ! i" using assms(1) by (simp add: stored_ledger_def)
    with that n(1) show ?thesis by simp
  qed
  have fi: "f (es ! i) = i" if "i < ?n" for i
    using that n name [OF that] attempt_index_file [of i] by (simp add: f_def)
  have fs: "map f es = [0..<?n]" using fi n(1) by (intro nth_equalityI) simp_all
  have named: "\<not> next_is 46 (fst e) \<and> attempt_index_of (fst e) = Some (f e)" if "e \<in> set es" for e
  proof -
    obtain i where i: "i < ?n" "e = es ! i" using \<open>e \<in> set es\<close> n(1) by (metis in_set_conv_nth)
    then show ?thesis using name [OF i(1)] fi [OF i(1)] attempt_index_file [of i] attempt_file_shown n by simp
  qed
  let ?s = "sort_key fst es"
  have "distinct (map f ?s)" using fs by (metis distinct_map distinct_sort distinct_upt set_sort)
  then have ix: "index_entries [] ?s = Inr (map (\<lambda>e. (f e, snd e)) ?s)"
    using index_entries_names [of ?s f "[]"] named by simp
  let ?b = "map (\<lambda>e. (f e, snd e)) ?s"
  have "map (\<lambda>e. (f e, snd e)) es = ?ix" using fi n(1) by (intro nth_equalityI) simp_all
  from arg_cong [OF this, of set] have set_b: "set ?b = set ?ix" unfolding set_map set_sort .
  have len: "length ?b = ?n" using n by simp
  have db: "distinct (map fst ?b)" using \<open>distinct (map f ?s)\<close> by (simp add: comp_def)
  have "distinct (map fst ?ix)" by (simp add: comp_def)
  from sort_key_unique [OF db this] have "sort_key fst ?b = sort_key fst ?ix" using set_b by (rule iffD2)
  also have "\<dots> = ?ix" by (rule sort_key_id_if_sorted) (simp add: comp_def)
  finally have sorted: "sort_key fst ?b = ?ix" .
  have "fst ` set ?b = {..<?n}" unfolding set_b by force
  then show ?thesis unfolding attempt_paths_def using assms(2,3) ix sorted len by simp
qed

definition ledger_records :: "pystr \<Rightarrow> attempt list \<Rightarrow> (pystr \<times> pyval) list list" where
  "ledger_records task as = map (\<lambda>i. encode_attempt task i (as ! i)) [0..<length as]"

lemma load_attempts_ledger:
  assumes "ledger_rel d L" "task_id task = Inr task"
  shows "load_attempts d task = Inr (ledger_records task (L task))"
proof (cases "cd_attempts d task")
  case None
  with assms have "L task = []" unfolding ledger_rel_def by (metis option.case(1))
  with None assms(2) show ?thesis by (simp add: load_attempts_def attempt_paths_def ledger_records_def)
next
  case (Some es)
  with assms have st: "stored_ledger task (L task) es" unfolding ledger_rel_def by (metis option.case(2))
  have "map_res (load_attempt task) (map (\<lambda>i. (i, snd (es ! i))) [0..<length (L task)]) = Inr (ledger_records task (L task))"
    using st stored_loads by (auto simp: map_res_Inr_iff list_all2_conv_all_nth ledger_records_def stored_ledger_def)
  then show ?thesis by (simp add: load_attempts_def attempt_paths_stored [OF st Some assms(2)])
qed

end
