(* ===== verification/Eviction_Refine.thy ===== *)
theory Eviction_Refine
  imports Eviction_Ledger
begin

text \<open>
  \<open>record_attempt\<close> on a directory that represents the ledger \<open>L\<close>, every branch; the step relation of a
  campaign directory, its reachable states and their invariant.
\<close>

section \<open>The parts of an append\<close>

lemma fresh_ledger:
  "check_fresh c (map (\<lambda>i. encode_attempt task i (as ! i)) [k..<length as]) =
     (if c \<in> at_challenge ` set (drop k as) then Inl EvictionPolicyError else Inr ())"
proof (cases "k \<le> length as")
  case True
  then show ?thesis
  proof (induction k rule: inc_induct)
    case (step k)
    then have "[k..<length as] = k # [Suc k..<length as]" "drop k as = as ! k # drop (Suc k) as"
      by (simp_all add: upt_conv_Cons Cons_nth_drop_Suc)
    with step show ?case by (auto simp: field_is_def dict_get_def record_fields)
  qed simp
qed simp

lemma completed_ledger:
  "map_res (field_is ''termination'' (lit ''completed'')) (ledger_records task as) = Inr (map completed as)"
  by (auto simp: map_res_Inr_iff list_all2_conv_all_nth ledger_records_def field_is_def dict_get_def record_fields completed_def)

lemma make_leaf_dir_rel:
  assumes "ledger_rel d L"
  shows "ledger_rel (make_leaf_dir d task) L" "\<exists>es. cd_attempts (make_leaf_dir d task) task = Some es \<and> stored_ledger task (L task) es"
proof -
  show rel: "ledger_rel (make_leaf_dir d task) L"
  proof (cases "cd_attempts d task")
    case None
    with assms have "L task = []" unfolding ledger_rel_def by (metis option.case(1))
    with None assms show ?thesis by (auto simp: ledger_rel_def make_leaf_dir_def stored_ledger_def)
  next
    case (Some es)
    with assms show ?thesis by (simp add: make_leaf_dir_def)
  qed
  have "\<exists>es. cd_attempts (make_leaf_dir d task) task = Some es"
    by (auto simp: make_leaf_dir_def split: option.split)
  with rel show "\<exists>es. cd_attempts (make_leaf_dir d task) task = Some es \<and> stored_ledger task (L task) es"
    unfolding ledger_rel_def by (metis option.case(2))
qed

lemma new_name:
  assumes "stored_ledger task as es"
  shows "map_of es (attempt_file (length as)) = None" "dict_set es (attempt_file (length as)) raw = es @ [(attempt_file (length as), raw)]"
proof -
  have names: "fst ` set es = attempt_file ` {..<length as}"
    using assms by (metis lessThan_atLeast0 list.set_map set_upt stored_ledger_def)
  then have new: "attempt_file (length as) \<notin> fst ` set es" by (auto simp: attempt_file_inj)
  then show "map_of es (attempt_file (length as)) = None" by (simp add: map_of_eq_None_iff)
  have "k \<notin> fst ` set xs \<Longrightarrow> dict_set xs k v = xs @ [(k, v)]" for xs k and v :: bytes
    by (induction xs) auto
  with new show "dict_set es (attempt_file (length as)) raw = es @ [(attempt_file (length as), raw)]" by blast
qed

lemma stored_append:
  assumes "stored_ledger task as es" "stored task (length as) a raw" "length as < 1000000"
  shows "stored_ledger task (as @ [a]) (es @ [(attempt_file (length as), raw)])"
proof -
  have "length es = length as" using assms(1) by (auto simp: stored_ledger_def dest: map_eq_imp_length_eq)
  with assms show ?thesis by (auto simp: stored_ledger_def nth_append less_Suc_eq)
qed

section \<open>Recording\<close>

definition new_attempt :: "pystr \<Rightarrow> string \<Rightarrow> pystr \<Rightarrow> pystr option \<Rightarrow> int \<Rightarrow> string \<Rightarrow> string \<Rightarrow> attempt" where
  "new_attempt challenge decision group_id quarantined_path shard stage termination =
     \<lparr>at_challenge = challenge, at_decision = decision, at_group = group_id, at_quarantined = quarantined_path,
      at_shard = shard, at_stage = stage, at_termination = termination\<rparr>"

lemma arguments_decision:
  assumes "check_attempt_arguments task group_id shard challenge stage termination = Inr u"
  shows "task_id task = Inr task" "\<exists>r. retry_decision stage termination (int n) policy = Inr r"
proof -
  show "task_id task = Inr task"
    using assms by (auto simp: check_attempt_arguments_def task_id_def split: if_splits)
  have "map_of STAGE_POLICY stage \<noteq> None" "termination \<in> fst ` set TERMINATION_CLASSES"
    using assms by (simp_all add: check_attempt_arguments_def res_simps split: if_splits)
  then show "\<exists>r. retry_decision stage termination (int n) policy = Inr r"
    by (cases "map_of STAGE_POLICY stage") (simp_all add: retry_decision_def Let_def split_beta)
qed

lemma record_attempt_cases:
  fixes path :: "pystr option"
  assumes rel: "ledger_rel d L"
    and args: "check_attempt_arguments task group_id shard challenge stage termination = Inr ()"
    and dec: "retry_decision stage termination (int (length (L task))) policy = Inr r"
    and d1: "d1 = make_leaf_dir d task"
    and a: "a = new_attempt challenge (rd_decision r) group_id path shard stage termination"
  shows "record_attempt d task group_id shard challenge stage termination path policy =
    (if challenge \<in> at_challenge ` set (L task) then (d1, Inl EvictionPolicyError)
     else if termination = ''completed'' \<and> (\<exists>b \<in> set (L task). completed b) then (d1, Inl EvictionPolicyError)
     else case campaign_json_bytes (PDict (encode_attempt task (length (L task)) a)) of
         Inl e \<Rightarrow> (d1, Inl e)
       | Inr raw \<Rightarrow> (d1\<lparr>cd_attempts := (cd_attempts d1)(task \<mapsto>
             the (cd_attempts d1 task) @ [(attempt_file (length (L task)), raw)])\<rparr>,
           Inr (r, encode_attempt task (length (L task)) a)))"
proof -
  let ?as = "L task"
  obtain es where es: "cd_attempts d1 task = Some es" "stored_ledger task ?as es"
    using make_leaf_dir_rel(2) [OF rel] d1 by blast
  have load: "load_attempts d1 task = Inr (ledger_records task ?as)"
    unfolding d1 by (rule load_attempts_ledger [OF make_leaf_dir_rel(1) [OF rel] arguments_decision(1) [OF args]])
  have len: "length (ledger_records task ?as) = length ?as" by (simp add: ledger_records_def)
  have fresh: "check_fresh challenge (ledger_records task ?as) =
      (if challenge \<in> at_challenge ` set ?as then Inl EvictionPolicyError else Inr ())"
    using fresh_ledger [of challenge task ?as 0] by (simp add: ledger_records_def)
  have dn: "True \<in> set (map completed ?as) \<longleftrightarrow> (\<exists>b \<in> set ?as. completed b)" by auto
  have enc: "attempt_record (length ?as) challenge (rd_decision r) group_id path shard stage task termination =
      encode_attempt task (length ?as) a"
    by (simp add: encode_attempt_def a new_attempt_def)
  show ?thesis
    unfolding record_attempt_def args sum.case Let_def d1 [symmetric] load ebind.simps fresh completed_ledger len dec enc
      dn es(1) option.sel new_name [OF es(2)] write_immutable_json_def option.case
    by (cases "campaign_json_bytes (PDict (encode_attempt task (length ?as) a))") auto
qed

lemma ledger_rel_update:
  assumes "ledger_rel d L" "stored_ledger task as es"
  shows "ledger_rel (d\<lparr>cd_attempts := (cd_attempts d)(task \<mapsto> es)\<rparr>) (L(task := as))"
proof (unfold ledger_rel_def, rule allI)
  fix t
  from assms(1) have "case cd_attempts d t of None \<Rightarrow> L t = [] | Some es \<Rightarrow> stored_ledger t (L t) es"
    unfolding ledger_rel_def by (rule spec)
  with assms(2) show "case cd_attempts (d\<lparr>cd_attempts := (cd_attempts d)(task \<mapsto> es)\<rparr>) t of None \<Rightarrow> (L(task := as)) t = []
      | Some es \<Rightarrow> stored_ledger t ((L(task := as)) t) es"
    by (cases "t = task"; cases "cd_attempts d t") simp_all
qed

definition within_limits :: "campaign_dir \<Rightarrow> bool" where
  "within_limits d \<longleftrightarrow> (\<forall>task es. cd_attempts d task = Some es \<longrightarrow>
     length es \<le> 1000000 \<and> (\<forall>(_, raw) \<in> set es. length raw \<le> MAX_CONTROL_BYTES))"

text \<open>The refinement: a recorded attempt is appended to its leaf's list, a refused one changes no list.\<close>

lemma record_attempt_refines_aux:
  assumes rel: "ledger_rel d L" and step: "record_attempt d task group_id shard challenge stage termination path policy = (d', out)"
    and lim: "within_limits d'"
  shows "case out of Inl _ \<Rightarrow> ledger_rel d' L
    | Inr (r, _) \<Rightarrow> ledger_rel d' (L(task := L task @ [new_attempt challenge (rd_decision r) group_id path shard stage termination])) \<and>
        retry_decision stage termination (int (length (L task))) policy = Inr r \<and>
        challenge \<notin> at_challenge ` set (L task) \<and>
        (termination = ''completed'' \<longrightarrow> \<not> (\<exists>b \<in> set (L task). completed b))"
proof (cases "check_attempt_arguments task group_id shard challenge stage termination")
  case (Inl e)
  with step have "d' = d" "out = Inl e" by (simp_all add: record_attempt_def)
  with rel show ?thesis by simp
next
  case (Inr u)
  then have args: "check_attempt_arguments task group_id shard challenge stage termination = Inr ()" by simp
  obtain r where dec: "retry_decision stage termination (int (length (L task))) policy = Inr r"
    using arguments_decision(2) [OF args] by blast
  let ?d = "make_leaf_dir d task" and ?a = "new_attempt challenge (rd_decision r) group_id path shard stage termination"
  let ?n = "length (L task)"
  note cases = record_attempt_cases [OF rel args dec refl refl, of path]
  have rel1: "ledger_rel ?d L" by (rule make_leaf_dir_rel(1) [OF rel])
  obtain es where es: "cd_attempts ?d task = Some es" "stored_ledger task (L task) es"
    using make_leaf_dir_rel(2) [OF rel] by blast
  consider (refused) e where "out = Inl e" "d' = ?d"
    | (kept) raw where "challenge \<notin> at_challenge ` set (L task)"
        "termination = ''completed'' \<longrightarrow> \<not> (\<exists>b \<in> set (L task). completed b)"
        "campaign_json_bytes (PDict (encode_attempt task ?n ?a)) = Inr raw"
        "d' = ?d\<lparr>cd_attempts := (cd_attempts ?d)(task \<mapsto> es @ [(attempt_file ?n, raw)])\<rparr>"
        "out = Inr (r, encode_attempt task ?n ?a)"
    using step es(1) unfolding cases
    by (cases "campaign_json_bytes (PDict (encode_attempt task ?n ?a))") (auto split: if_splits)
  then show ?thesis
  proof cases
    case refused
    with rel1 show ?thesis by simp
  next
    case kept
    have here: "cd_attempts d' task = Some (es @ [(attempt_file ?n, raw)])" unfolding kept(4) by simp
    with lim have "length es + 1 \<le> 1000000" "length raw \<le> MAX_CONTROL_BYTES"
      unfolding within_limits_def by fastforce+
    moreover have "length es = ?n" using es(2) by (auto simp: stored_ledger_def dest: map_eq_imp_length_eq)
    ultimately have "stored_ledger task (L task @ [?a]) (es @ [(attempt_file ?n, raw)])"
      using stored_append [OF es(2)] kept(3) by (simp add: stored_def)
    then have "ledger_rel d' (L(task := L task @ [?a]))" unfolding kept(4) by (rule ledger_rel_update [OF rel1])
    with kept dec show ?thesis by simp
  qed
qed

section \<open>Histories of a campaign directory\<close>

text \<open>
  One step is an attempt recorded by a run whose ledgers stay within the file name and file size
  limits, a workspace quarantined, or anything at all done to the workspaces.
\<close>

inductive campaign_step :: "campaign_dir \<Rightarrow> campaign_dir \<Rightarrow> bool" where
  record_step: "record_attempt d task group_id shard challenge stage termination path policy = (d', out) \<Longrightarrow>
    within_limits d' \<Longrightarrow> campaign_step d d'"
| quarantine_step: "quarantine_attempt replace_ok d task index workspace = (d', out) \<Longrightarrow> campaign_step d d'"
| workspace_step: "campaign_step d (d\<lparr>cd_workspaces := w\<rparr>)"

inductive_cases campaign_stepE: "campaign_step d d'"

inductive campaign_reachable :: "campaign_dir \<Rightarrow> bool" where
  fresh_campaign: "campaign_reachable \<lparr>cd_attempts = \<lambda>_. None, cd_quarantine = \<lambda>_. None, cd_workspaces = w\<rparr>"
| later_campaign: "campaign_reachable d \<Longrightarrow> campaign_step d d' \<Longrightarrow> campaign_reachable d'"

text \<open>What holds of a leaf's list of attempts at all times.\<close>

definition sound_history :: "attempt list \<Rightarrow> bool" where
  "sound_history as \<longleftrightarrow> distinct (map at_challenge as) \<and> length (filter completed as) \<le> 1 \<and>
     (\<forall>i < length as. \<exists>policy r. retry_decision (at_stage (as ! i)) (at_termination (as ! i)) (int i) policy = Inr r \<and>
        at_decision (as ! i) = rd_decision r)"

lemma sound_history_append:
  assumes "sound_history as" "retry_decision (at_stage a) (at_termination a) (int (length as)) policy = Inr r"
    "at_decision a = rd_decision r" "at_challenge a \<notin> at_challenge ` set as" "completed a \<longrightarrow> \<not> (\<exists>b \<in> set as. completed b)"
  shows "sound_history (as @ [a])"
proof -
  have "length (filter completed (as @ [a])) \<le> 1"
    using assms(1,5) by (auto simp: sound_history_def filter_empty_conv)
  then show ?thesis using assms by (auto simp: sound_history_def nth_append less_Suc_eq)
qed

lemma quarantine_keeps:
  assumes "quarantine_attempt replace_ok d task index workspace = (d', out)"
  shows "cd_attempts d' = cd_attempts d" "cd_quarantine d k = Some c \<Longrightarrow> cd_quarantine d' k = Some c"
  using assms by (auto simp: quarantine_attempt_def Let_def split: sum.splits if_splits option.splits node.splits)

lemma ledger_rel_attempts: "cd_attempts d' = cd_attempts d \<Longrightarrow> ledger_rel d' L = ledger_rel d L"
  by (simp add: ledger_rel_def)

lemma step_history:
  assumes "campaign_step d d'" "ledger_rel d L" "\<And>task. sound_history (L task)"
  shows "\<exists>L'. ledger_rel d' L' \<and> (\<forall>task. sound_history (L' task) \<and> (\<exists>more. L' task = L task @ more))"
  using assms(1)
proof cases
  case (record_step task grp shard challenge stg trm path policy out)
  note app = record_attempt_refines_aux [OF assms(2) record_step]
  show ?thesis
  proof (cases out)
    case (Inl e)
    with app have "ledger_rel d' L" by simp
    with assms(3) show ?thesis by (intro exI [of _ L]) simp
  next
    case (Inr p)
    obtain r rec where p: "p = (r, rec)" by fastforce
    let ?a = "new_attempt challenge (rd_decision r) grp path shard stg trm"
    have parts: "ledger_rel d' (L(task := L task @ [?a]))" "sound_history (L task @ [?a])"
      using app Inr p sound_history_append [OF assms(3), of ?a task policy r] by (simp_all add: new_attempt_def completed_def)
    then show ?thesis using assms(3) by (intro exI [of _ "L(task := L task @ [?a])"]) auto
  qed
next
  case (quarantine_step replace_ok task index workspace out)
  from quarantine_keeps(1) [OF this] have "ledger_rel d' L" using assms(2) ledger_rel_attempts by blast
  with assms(3) show ?thesis by (intro exI [of _ L]) simp
next
  case (workspace_step w)
  then have "ledger_rel d' L" using assms(2) ledger_rel_attempts [of d' d L] by simp
  with assms(3) show ?thesis by (intro exI [of _ L]) simp
qed

lemma reachable_history:
  "campaign_reachable d \<Longrightarrow> \<exists>L. ledger_rel d L \<and> (\<forall>task. sound_history (L task))"
proof (induction rule: campaign_reachable.induct)
  case (fresh_campaign w)
  have "ledger_rel \<lparr>cd_attempts = \<lambda>_. None, cd_quarantine = \<lambda>_. None, cd_workspaces = w\<rparr> (\<lambda>_. [])"
    by (simp add: ledger_rel_def)
  then show ?case by (intro exI [of _ "\<lambda>_. []"]) (simp add: sound_history_def)
next
  case (later_campaign d d')
  then show ?case using step_history by blast
qed

text \<open>A directory represents one ledger only.\<close>

lemma record_inj:
  assumes "encode_attempt task i a = encode_attempt task i b"
  shows "at_challenge a = at_challenge b" "at_termination a = at_termination b"
proof -
  from assms have "map_of (encode_attempt task i a) k = map_of (encode_attempt task i b) k" for k by simp
  from this [of "lit ''challenge_sha256''"] this [of "lit ''termination''"]
  show "at_challenge a = at_challenge b" "at_termination a = at_termination b" by (simp_all add: record_fields)
qed

end
