(* ===== verification/Eviction_Coverage.thy ===== *)
theory Eviction_Coverage
  imports Eviction_Refine
begin

text \<open>
  The coverage report: what the violations of one leaf say about its attempts.
\<close>

definition completed_row :: "(pystr \<times> pyval) list \<Rightarrow> bool" where
  "completed_row r \<longleftrightarrow> (case map_of r (lit ''termination'') of None \<Rightarrow> False | Some v \<Rightarrow> py_eq v (PStr (lit ''completed'')))"

definition quarantined_row :: "(pystr \<times> pyval) list \<Rightarrow> bool" where
  "quarantined_row r \<longleftrightarrow> (case map_of r (lit ''quarantined_path'') of None \<Rightarrow> False | Some v \<Rightarrow> v \<noteq> PNone)"

text \<open>The attempts of a leaf that has exactly one completed attempt and has set all others aside.\<close>

definition settled :: "(pystr \<times> pyval) list list \<Rightarrow> bool" where
  "settled rs \<longleftrightarrow> length (filter completed_row rs) = 1 \<and> (\<forall>r \<in> set rs. quarantined_row r \<longleftrightarrow> \<not> completed_row r)"

lemma ebind_InrE:
  assumes "ebind m f = Inr y"
  obtains x where "m = Inr x" "f x = Inr y"
  using assms by (auto simp: res_simps)

lemma map_res_fun:
  assumes "map_res f xs = Inr ys" "\<And>x y. x \<in> set xs \<Longrightarrow> f x = Inr y \<Longrightarrow> y = g x"
  shows "ys = map g xs"
  using assms by (auto simp: map_res_Inr_iff list_all2_conv_all_nth intro!: nth_equalityI)

lemma completed_flags:
  "map_res (field_is ''termination'' (lit ''completed'')) rs = Inr flags \<Longrightarrow> flags = map completed_row rs"
  by (erule map_res_fun) (auto simp: field_is_def dict_get_def completed_row_def res_simps split: option.splits)

lemma select_zip:
  "map fst (filter snd (zip rs (map P rs))) = filter P rs" "map fst (filter (\<lambda>(_, f). \<not> f) (zip rs (map P rs))) = filter (Not \<circ> P) rs"
  by (induction rs) auto

lemma map_res_all:
  assumes "map_res f xs = Inr ys" "\<And>x y. x \<in> set xs \<Longrightarrow> f x = Inr y \<Longrightarrow> P y \<longleftrightarrow> Q x"
  shows "(\<forall>y \<in> set ys. P y) \<longleftrightarrow> (\<forall>x \<in> set xs. Q x)"
  using assms
proof (induction xs arbitrary: ys)
  case (Cons x xs)
  then obtain y zs where ys: "ys = y # zs" "f x = Inr y" "map_res f xs = Inr zs" by (auto simp: res_simps)
  have "(\<forall>y \<in> set zs. P y) \<longleftrightarrow> (\<forall>x \<in> set xs. Q x)" using Cons.prems(2) by (intro Cons.IH [OF ys(3)]) simp
  moreover have "P y \<longleftrightarrow> Q x" using Cons.prems(2) ys(2) by simp
  ultimately show ?case by (simp add: ys(1))
qed simp

lemma loose_violations: "not_quarantined task r = Inr vs \<Longrightarrow> vs = [] \<longleftrightarrow> quarantined_row r"
  by (auto simp: not_quarantined_def dict_get_def quarantined_row_def res_simps split: option.splits if_splits)

lemma hidden_violations: "completed_quarantined task r = Inr vs \<Longrightarrow> vs = [] \<longleftrightarrow> \<not> quarantined_row r"
  by (auto simp: completed_quarantined_def dict_get_def quarantined_row_def res_simps split: option.splits if_splits)

lemma check_leaf_violations:
  assumes "check_leaf d receipts task = Inr (row, vs)"
  obtains rs where "load_attempts d task = Inr rs" "lr_task row = task" "lr_attempts row = length rs"
    "lr_completed row = length (filter completed_row rs)" "lr_quarantined row = length (filter (Not \<circ> completed_row) rs)"
    "vs = [] \<longleftrightarrow> (if task \<in> receipts then settled rs else rs \<noteq> [] \<longrightarrow> filter completed_row rs = [] \<and> (\<forall>r \<in> set rs. quarantined_row r))"
proof -
  let ?flag = "field_is ''termination'' (lit ''completed'')"
  obtain rs flags where rs: "load_attempts d task = Inr rs" "map_res ?flag rs = Inr flags"
    using assms by (auto simp: check_leaf_def res_simps)
  note flags = completed_flags [OF rs(2)]
  obtain loose hidden where parts:
    "map_res (not_quarantined task) (filter (Not \<circ> completed_row) rs) = Inr loose"
    "map_res (completed_quarantined task) (filter completed_row rs) = Inr hidden"
    and out: "row = \<lparr>lr_task = task, lr_attempts = length rs, lr_completed = length (filter completed_row rs),
      lr_has_receipt = (task \<in> receipts), lr_quarantined = length (filter (Not \<circ> completed_row) rs)\<rparr>"
    "vs = (if length (filter completed_row rs) > 1 then [ManyCompleted task (length (filter completed_row rs))] else []) @
      (if task \<in> receipts \<and> filter completed_row rs = [] then [ReceiptWithoutCompletion task] else []) @
      (if filter completed_row rs \<noteq> [] \<and> task \<notin> receipts then [CompletionWithoutReceipt task] else []) @
      concat loose @ concat hidden"
    using assms unfolding check_leaf_def rs ebind.simps Let_def flags select_zip
    by (elim ebind_InrE) (simp only: sum.inject prod.inject; blast)
  have loose: "concat loose = [] \<longleftrightarrow> (\<forall>r \<in> set rs. \<not> completed_row r \<longrightarrow> quarantined_row r)"
    using map_res_all [OF parts(1) loose_violations] by auto
  have hidden: "concat hidden = [] \<longleftrightarrow> (\<forall>r \<in> set rs. completed_row r \<longrightarrow> \<not> quarantined_row r)"
    using map_res_all [OF parts(2) hidden_violations] by auto
  have one: "length (filter completed_row rs) = 1 \<longleftrightarrow> filter completed_row rs \<noteq> [] \<and> \<not> length (filter completed_row rs) > 1"
    by (cases "filter completed_row rs") auto
  have clean: "vs = [] \<longleftrightarrow> \<not> length (filter completed_row rs) > 1 \<and> (task \<in> receipts \<longleftrightarrow> filter completed_row rs \<noteq> []) \<and>
      concat loose = [] \<and> concat hidden = []"
    unfolding out(2) by auto
  have "vs = [] \<longleftrightarrow> (if task \<in> receipts then settled rs
      else rs \<noteq> [] \<longrightarrow> filter completed_row rs = [] \<and> (\<forall>r \<in> set rs. quarantined_row r))"
    unfolding clean settled_def one loose hidden by (auto simp: filter_empty_conv)
  then show thesis using that [OF rs(1)] out(1) by simp
qed

lemma leaf_keys: "map_res (\<lambda>(t, _). task_id t) xs = Inr ks \<Longrightarrow> ks = map fst xs"
  by (erule map_res_fun) (auto simp: task_id_def split: if_splits)

lemma coverage_parts:
  assumes "verify_leaf_receipt_coverage d expected receipts = Inr c"
  obtains checked where
    "map_res (check_leaf d (fst ` set receipts)) (sort (remdups (map fst expected))) = Inr checked"
    "cv_leaves c = map fst checked"
    "cv_exact c \<longleftrightarrow> fst ` set expected = fst ` set receipts \<and> (\<forall>p \<in> set checked. snd p = [])"
proof -
  obtain ks rs checked where parts: "map_res (\<lambda>(t, _). task_id t) expected = Inr ks" "map_res (\<lambda>(t, _). task_id t) receipts = Inr rs"
    "map_res (check_leaf d (set rs)) (sort (remdups ks)) = Inr checked"
    and c: "c = \<lparr>cv_leaves_retried = length (filter (\<lambda>r. lr_attempts r > 1) (map fst checked)),
       cv_max_attempts = foldr (\<lambda>r m. max (lr_attempts r) m) (map fst checked) 0,
       cv_total_attempts = sum_list (map lr_attempts (map fst checked)),
       cv_wasted_attempts = sum_list (map lr_quarantined (map fst checked)),
       cv_exact = (sorted_list_of_set (set ks - set rs) = [] \<and> sorted_list_of_set (set rs - set ks) = [] \<and>
          concat (map snd checked) @ map UnplannedReceipt (sorted_list_of_set (set rs - set ks)) = []),
       cv_expected_count = length (remdups ks), cv_leaves = map fst checked,
       cv_missing = sorted_list_of_set (set ks - set rs), cv_receipt_count = length (remdups rs),
       cv_unexpected = sorted_list_of_set (set rs - set ks),
       cv_violations = concat (map snd checked) @ map UnplannedReceipt (sorted_list_of_set (set rs - set ks))\<rparr>"
    using assms unfolding verify_leaf_receipt_coverage_def Let_def by (elim ebind_InrE) (simp only: sum.inject; blast)
  have exact: "cv_exact c \<longleftrightarrow> set ks = set rs \<and> (\<forall>p \<in> set checked. snd p = [])" unfolding c by auto
  have leaves: "cv_leaves c = map fst checked" by (simp add: c)
  show thesis using that parts(3) exact leaves unfolding leaf_keys [OF parts(1)] leaf_keys [OF parts(2)] by simp
qed

lemma coverage_exact_iff:
  assumes "verify_leaf_receipt_coverage d expected receipts = Inr c"
  shows "cv_exact c \<longleftrightarrow> fst ` set expected = fst ` set receipts \<and>
    (\<forall>task \<in> fst ` set expected. \<exists>rs. load_attempts d task = Inr rs \<and> settled rs)"
proof -
  obtain checked where run: "map_res (check_leaf d (fst ` set receipts)) (sort (remdups (map fst expected))) = Inr checked"
    and exact: "cv_exact c \<longleftrightarrow> fst ` set expected = fst ` set receipts \<and> (\<forall>p \<in> set checked. snd p = [])"
    by (rule coverage_parts [OF assms])
  have one: "snd p = [] \<longleftrightarrow> (\<exists>rs. load_attempts d task = Inr rs \<and> settled rs)"
    if "fst ` set expected = fst ` set receipts" "task \<in> set (sort (remdups (map fst expected)))"
      "check_leaf d (fst ` set receipts) task = Inr p" for task p
  proof -
    obtain row vs where p: "p = (row, vs)" by fastforce
    with that(3) have "check_leaf d (fst ` set receipts) task = Inr (row, vs)" by simp
    then obtain rs where rs: "load_attempts d task = Inr rs" "vs = [] \<longleftrightarrow> (if task \<in> fst ` set receipts then settled rs
        else rs \<noteq> [] \<longrightarrow> filter completed_row rs = [] \<and> (\<forall>r \<in> set rs. quarantined_row r))"
      by (rule check_leaf_violations)
    have "task \<in> fst ` set receipts" using that(1,2) by simp
    with rs p show ?thesis by simp
  qed
  have "(\<forall>p \<in> set checked. snd p = []) \<longleftrightarrow> (\<forall>task \<in> fst ` set expected. \<exists>rs. load_attempts d task = Inr rs \<and> settled rs)"
    if "fst ` set expected = fst ` set receipts"
    using map_res_all [OF run one [OF that]] by simp
  with exact show ?thesis by blast
qed

end
