(* ===== verification/Eviction_Claims.thy ===== *)
theory Eviction_Claims
  imports Eviction_Coverage
begin

text \<open>
  The properties of attempt accounting: what a retry needs, the ledger as an append-only list, and
  what the coverage report proves.
\<close>

section \<open>Classification and retries\<close>

lemma classify_termination_cases:
  "classify_termination exit_code signal_number event expired timed_out \<in> fst ` set TERMINATION_CLASSES"
  "classify_termination exit_code signal_number event expired timed_out = ''completed'' \<longleftrightarrow>
     exit_code = Some 0 \<and> signal_number = None \<and> \<not> expired \<and> \<not> timed_out \<and>
     \<not> event_in event [''Preempt'', ''Terminate'', ''Reboot'', ''Redeploy'', ''Freeze'']"
  "classify_termination exit_code signal_number event expired timed_out = ''preempted'' \<longleftrightarrow>
     event_in event [''Preempt'', ''Terminate'']"
  "classify_termination exit_code signal_number event expired timed_out = ''unknown'' \<longleftrightarrow>
     (signal_number \<noteq> None \<or> exit_code = None) \<and> \<not> expired \<and> \<not> timed_out \<and>
     \<not> event_in event [''Preempt'', ''Terminate'', ''Reboot'', ''Redeploy'', ''Freeze'']"
  by (auto simp: classify_termination_def TERMINATION_CLASSES_def event_in_def split: option.splits)

lemma retry_decision_Inl:
  "retry_decision stage termination i policy = Inl e \<longleftrightarrow>
     e = EvictionPolicyError \<and> \<not> (stage \<in> set ATTEMPT_STAGES \<and> termination \<in> fst ` set TERMINATION_CLASSES \<and> 0 \<le> i)"
proof (cases "map_of STAGE_POLICY stage")
  case None
  then have "stage \<notin> set ATTEMPT_STAGES" using stage_known [of stage] by simp
  with None show ?thesis by (auto simp: retry_decision_def)
next
  case (Some row)
  then have "stage \<in> set ATTEMPT_STAGES" using stage_known [of stage] by simp
  moreover have "(if P then Inl a else if Q then Inl a else Inr x) = Inl e \<longleftrightarrow> (e = a \<and> (P \<or> Q))"
    for P Q and a :: exc and x :: retry by auto
  ultimately show ?thesis using Some by (auto simp: retry_decision_def Let_def split_beta)
qed

text \<open>The retry gate.  \<open>retry_decision\<close> raises exactly on an unknown stage, an unknown termination class
  or a negative index.  Otherwise it permits an automatic retry exactly when the attempt stopped
  before a package was ingested and outside the deployment call, the ending is neither a workload
  failure nor unexplained, and the budget of the policy (the default when none is given) has room for
  one attempt more.  A fresh challenge is required and quarantine demanded at every stage but the last.
\<close>

theorem retry_gate:
  "case retry_decision stage termination attempt_index policy of
     Inl e \<Rightarrow> e = EvictionPolicyError \<and>
       \<not> (stage \<in> set ATTEMPT_STAGES \<and> termination \<in> fst ` set TERMINATION_CLASSES \<and> 0 \<le> attempt_index)
   | Inr r \<Rightarrow> stage \<in> set ATTEMPT_STAGES \<and> termination \<in> fst ` set TERMINATION_CLASSES \<and> 0 \<le> attempt_index \<and>
       rd_max_attempts r = max_attempts_per_leaf (case policy of None \<Rightarrow> default_policy | Some p \<Rightarrow> p) \<and>
       (rd_decision r \<in> {''retry_admissible'', ''retry_admissible_after_resource_teardown''} \<longleftrightarrow>
          stage \<in> {''handoff_prepared'', ''challenge_created'', ''azure_deployed'', ''measured_run_in_progress''} \<and>
          termination \<notin> {''workload_failure'', ''unknown''} \<and> attempt_index + 1 < rd_max_attempts r) \<and>
       (rd_fresh_challenge r \<longleftrightarrow> stage \<noteq> ''verified_receipt_recorded'') \<and>
       (rd_quarantine r \<longleftrightarrow> stage \<noteq> ''verified_receipt_recorded'')"
proof (cases "retry_decision stage termination attempt_index policy")
  case (Inl e)
  from iffD1 [OF retry_decision_Inl this] show ?thesis unfolding Inl sum.case by auto
next
  case (Inr r)
  then show ?thesis unfolding Inr sum.case using retry_decision_Inr [OF Inr] unfolding retries_def retry_allowed_def by blast
qed

section \<open>The ledger\<close>

text \<open>C38:
  \<open>record_attempt\<close> refines appending to the leaf's list of attempts.  On a campaign directory that
  represents the ledger \<open>L\<close>, a refused attempt leaves every list as it was; an accepted one adds one
  attempt to its leaf's list and nothing elsewhere, its challenge is new to the leaf, the leaf has no
  second completed attempt, and the decision returned and stored is that of \<open>retry_decision\<close> at the
  new attempt's index.
\<close>

theorem record_attempt_refines:
  assumes "ledger_rel d L" "record_attempt d task group_id shard challenge stage termination path policy = (d', out)"
    "within_limits d'"
  shows "case out of Inl _ \<Rightarrow> ledger_rel d' L
    | Inr (r, _) \<Rightarrow> ledger_rel d' (L(task := L task @ [new_attempt challenge (rd_decision r) group_id path shard stage termination])) \<and>
        retry_decision stage termination (int (length (L task))) policy = Inr r \<and>
        challenge \<notin> at_challenge ` set (L task) \<and>
        (termination = ''completed'' \<longrightarrow> \<not> (\<exists>b \<in> set (L task). completed b))"
  using assms by (rule record_attempt_refines_aux)

definition empty_campaign :: campaign_dir where
  "empty_campaign = \<lparr>cd_attempts = \<lambda>_. None, cd_quarantine = \<lambda>_. None, cd_workspaces = \<lambda>_. None\<rparr>"

definition sample_task :: pystr where
  "sample_task = replicate 24 97 @ [45] @ replicate 9 48"

lemma empty_ledger: "ledger_rel empty_campaign (\<lambda>_. [])"
  by (simp add: ledger_rel_def empty_campaign_def)

definition sample_raw :: "string \<Rightarrow> string \<Rightarrow> bytes res" where
  "sample_raw decision ending = campaign_json_bytes (PDict (encode_attempt sample_task 0
     (new_attempt (replicate 64 97) decision (lit ''g'') None 0 ''measured_run_in_progress'' ending)))"

lemma sample_raw_preempted:
  "case sample_raw ''retry_admissible'' ''preempted'' of Inl _ \<Rightarrow> False | Inr raw \<Rightarrow> length raw < 1000"
  by code_simp

lemma sample_raw_completed:
  "case sample_raw ''retry_admissible'' ''completed'' of Inl _ \<Rightarrow> False | Inr raw \<Rightarrow> length raw < 1000"
  by code_simp

lemma sample_raw_small:
  assumes "ending \<in> {''preempted'', ''completed''}"
  obtains raw where "sample_raw ''retry_admissible'' ending = Inr raw" "length raw < 1000"
  using assms sample_raw_preempted sample_raw_completed by (auto split: sum.splits)

lemma sample_decision:
  "retry_decision ''measured_run_in_progress'' ending 0 None = Inr r \<Longrightarrow> ending \<in> {''preempted'', ''completed''} \<Longrightarrow>
     rd_decision r = ''retry_admissible''"
  by (auto simp: retry_decision_def default_policy_def DEFAULT_MAX_ATTEMPTS_PER_LEAF_def STAGE_POLICY_def TERMINATION_CLASSES_def)

lemma sample_arguments:
  assumes "ending \<in> {''preempted'', ''completed''}"
  shows "check_attempt_arguments sample_task (lit ''g'') 0 (replicate 64 97) ''measured_run_in_progress'' ending = Inr ()"
proof -
  have "task_id sample_task = Inr sample_task" "sha256_text (replicate 64 97) = Inr (replicate 64 97)"
    "map_of STAGE_POLICY ''measured_run_in_progress'' \<noteq> None" "ending \<in> fst ` set TERMINATION_CLASSES"
    using assms by (auto simp: task_id_def sample_task_def sha256_text_def hex_string_def digits_def is_digit_def is_hex_digit_def
      list_all_length nth_append STAGE_POLICY_def TERMINATION_CLASSES_def)
  then show ?thesis by (simp add: check_attempt_arguments_def lit_def)
qed

abbreviation record_sample :: "string \<Rightarrow> campaign_dir \<times> (retry \<times> (pystr \<times> pyval) list) res" where
  "record_sample ending \<equiv> record_attempt empty_campaign sample_task (lit ''g'') 0 (replicate 64 97)
     ''measured_run_in_progress'' ending None None"

abbreviation sample_attempt :: "string \<Rightarrow> attempt" where
  "sample_attempt ending \<equiv> new_attempt (replicate 64 97) ''retry_admissible'' (lit ''g'') None 0 ''measured_run_in_progress'' ending"

lemma sample_recorded:
  assumes ending: "ending \<in> {''preempted'', ''completed''}"
  obtains d' r rec where "record_sample ending = (d', Inr (r, rec))" "within_limits d'" "rd_decision r = ''retry_admissible''"
proof -
  obtain r where r: "retry_decision ''measured_run_in_progress'' ending (int (length ([] :: attempt list))) None = Inr r"
    using arguments_decision(2) [OF sample_arguments [OF ending]] by blast
  then have dec: "rd_decision r = ''retry_admissible''" using sample_decision ending by simp
  obtain raw where raw: "campaign_json_bytes (PDict (encode_attempt sample_task 0 (sample_attempt ending))) = Inr raw" "length raw < 1000"
    using sample_raw_small [OF ending] unfolding sample_raw_def by blast
  let ?d = "make_leaf_dir empty_campaign sample_task"
  let ?d' = "?d\<lparr>cd_attempts := (cd_attempts ?d)(sample_task \<mapsto> the (cd_attempts ?d sample_task) @ [(attempt_file 0, raw)])\<rparr>"
  have "record_sample ending = (?d', Inr (r, encode_attempt sample_task 0 (sample_attempt ending)))"
    using record_attempt_cases [where L = "\<lambda>_. []", OF empty_ledger sample_arguments [OF ending] r refl refl] raw(1) dec by simp
  moreover have "within_limits ?d'"
    using raw(2) by (auto simp: within_limits_def make_leaf_dir_def empty_campaign_def MAX_CONTROL_BYTES_def)
  ultimately show thesis using dec by (rule that)
qed

lemma record_attempt_refines_witness:
  "\<exists>d' r rec. record_sample ''preempted'' = (d', Inr (r, rec)) \<and>
     ledger_rel d' ((\<lambda>_. [])(sample_task := [sample_attempt ''preempted'']))"
proof -
  obtain d' r rec where step: "record_sample ''preempted'' = (d', Inr (r, rec))" "within_limits d'" "rd_decision r = ''retry_admissible''"
    by (rule sample_recorded [of "''preempted''"]) simp
  with record_attempt_refines [OF empty_ledger step(1,2)] show ?thesis by auto
qed

lemma sample_ledger:
  assumes "record_sample ending = (d', Inr (r, rec))" "within_limits d'" "rd_decision r = ''retry_admissible''"
  shows "ledger_rel d' ((\<lambda>_. [])(sample_task := [sample_attempt ending]))"
  using record_attempt_refines_aux [OF empty_ledger assms(1,2)] assms(3) by simp

text \<open>C37:
  The invariant of a campaign directory, whatever sequence of recordings, quarantines and workspace
  changes produced it: the ledger of a leaf always loads; its records are the attempts in index order;
  no challenge occurs twice; at most one attempt is completed; and the decision stored with each is the
  one the retry gate gave at its index.
\<close>

theorem campaign_history_sound:
  assumes "campaign_reachable d" "task_id task = Inr task"
  shows "\<exists>as. load_attempts d task = Inr (ledger_records task as) \<and> distinct (map at_challenge as) \<and>
    length (filter completed as) \<le> 1 \<and>
    (\<forall>i < length as. \<exists>policy r. retry_decision (at_stage (as ! i)) (at_termination (as ! i)) (int i) policy = Inr r \<and>
       at_decision (as ! i) = rd_decision r)"
proof -
  obtain L where L: "ledger_rel d L" "\<And>task. sound_history (L task)" using reachable_history [OF assms(1)] by blast
  from load_attempts_ledger [OF L(1) assms(2)] L(2) [of task] show ?thesis unfolding sound_history_def by blast
qed

lemma empty_reachable: "campaign_reachable empty_campaign"
  unfolding empty_campaign_def by (rule fresh_campaign)

lemma sample_task_id: "task_id sample_task = Inr sample_task"
  by (rule arguments_decision(1) [OF sample_arguments [of "''preempted''"]]) simp

lemma campaign_history_sound_witness:
  "\<exists>d as. campaign_reachable d \<and> load_attempts d sample_task = Inr (ledger_records sample_task as) \<and> as \<noteq> [] \<and>
     length (filter completed as) \<le> 1"
proof -
  obtain d' r rec where step: "record_sample ''preempted'' = (d', Inr (r, rec))" "within_limits d'" "rd_decision r = ''retry_admissible''"
    by (rule sample_recorded [of "''preempted''"]) simp
  have reach: "campaign_reachable d'" by (rule later_campaign [OF empty_reachable record_step [OF step(1,2)]])
  from load_attempts_ledger [OF sample_ledger [OF step] sample_task_id] campaign_history_sound [OF reach sample_task_id] reach
  show ?thesis by (force simp: ledger_records_def)
qed

section \<open>Evidence is kept\<close>

lemma ledger_records_append:
  "\<exists>more. ledger_records task (as @ bs) = ledger_records task as @ more"
proof -
  have "[0..<length (as @ bs)] = [0..<length as] @ [length as..<length (as @ bs)]"
    using upt_add_eq_append [of 0 "length as" "length bs"] by simp
  then show ?thesis by (simp add: ledger_records_def nth_append)
qed

lemma steps_history:
  assumes "campaign_step\<^sup>*\<^sup>* d d'" "ledger_rel d L" "\<And>task. sound_history (L task)"
  shows "\<exists>L'. ledger_rel d' L' \<and> (\<forall>task. sound_history (L' task) \<and> (\<exists>more. L' task = L task @ more))"
  using assms(1)
proof (induction rule: rtranclp_induct)
  case base
  then show ?case using assms(2,3) by (intro exI [of _ L]) simp
next
  case (step d1 d2)
  then obtain L1 where L1: "ledger_rel d1 L1" "\<forall>task. sound_history (L1 task) \<and> (\<exists>more. L1 task = L task @ more)" by blast
  then have "\<And>task. sound_history (L1 task)" by blast
  from step_history [OF step.hyps(2) L1(1) this] obtain L2 where
    L2: "ledger_rel d2 L2" "\<forall>task. sound_history (L2 task) \<and> (\<exists>more. L2 task = L1 task @ more)" by blast
  have "sound_history (L2 task) \<and> (\<exists>more. L2 task = L task @ more)" for task
    using L1(2) L2(2) by (metis append.assoc)
  with L2(1) show ?case by blast
qed

lemma make_leaf_dir_quarantine [simp]: "cd_quarantine (make_leaf_dir d task) = cd_quarantine d"
  by (simp add: make_leaf_dir_def split: option.split)

lemma step_quarantine:
  assumes "campaign_step d d'" "cd_quarantine d k = Some content"
  shows "cd_quarantine d' k = Some content"
  using assms(1)
proof cases
  case (record_step task grp shard challenge stg trm path policy out)
  then have "cd_quarantine d' = cd_quarantine d"
    by (auto simp: record_attempt_def Let_def res_simps split: sum.splits if_splits prod.splits)
  with assms(2) show ?thesis by simp
next
  case (quarantine_step replace_ok task index workspace out)
  then show ?thesis using quarantine_keeps(2) assms(2) by blast
qed (use assms(2) in simp)

text \<open>Evidence is never lost.  From any reachable campaign directory, after any further operations, the
  records of a leaf are the earlier ones with new ones behind them, and every quarantined workspace
  is still there with the same content.
\<close>

theorem evidence_append_only:
  assumes "campaign_reachable d" "campaign_step\<^sup>*\<^sup>* d d'" "task_id task = Inr task"
  shows "(\<exists>old new. load_attempts d task = Inr old \<and> load_attempts d' task = Inr (old @ new)) \<and>
    (\<forall>k content. cd_quarantine d k = Some content \<longrightarrow> cd_quarantine d' k = Some content)"
proof -
  obtain L where L: "ledger_rel d L" "\<And>task. sound_history (L task)" using reachable_history [OF assms(1)] by blast
  from steps_history [OF assms(2) L] obtain L' where L': "ledger_rel d' L'" "\<exists>more. L' task = L task @ more" by blast
  have "\<exists>old new. load_attempts d task = Inr old \<and> load_attempts d' task = Inr (old @ new)"
    using load_attempts_ledger [OF L(1) assms(3)] load_attempts_ledger [OF L'(1) assms(3)] L'(2) ledger_records_append by metis
  moreover have "cd_quarantine d k = Some content \<Longrightarrow> cd_quarantine d' k = Some content" for k content
    using assms(2) by (induction rule: rtranclp_induct) (auto dest: step_quarantine)
  ultimately show ?thesis by blast
qed

lemma evidence_append_only_witness:
  "\<exists>d' old new. load_attempts empty_campaign sample_task = Inr old \<and> campaign_step\<^sup>*\<^sup>* empty_campaign d' \<and>
     load_attempts d' sample_task = Inr (old @ new)"
proof -
  obtain d' r rec where step: "record_sample ''preempted'' = (d', Inr (r, rec))" "within_limits d'"
    by (rule sample_recorded [of "''preempted''"]) simp
  have steps: "campaign_step\<^sup>*\<^sup>* empty_campaign d'" by (rule r_into_rtranclp [of campaign_step, OF record_step [OF step]])
  with evidence_append_only [OF empty_reachable steps sample_task_id] show ?thesis by blast
qed

section \<open>Coverage\<close>

text \<open>C39:
  The coverage report is exact precisely when the plan's leaves are the leaves with a receipt and
  every leaf's ledger loads with exactly one completed attempt, which is not quarantined, while every
  other attempt of the leaf is: no leaf counted twice, lost, unplanned or served by a quarantined run.
\<close>

theorem coverage_exact:
  assumes "verify_leaf_receipt_coverage d expected_leaves receipts_by_task = Inr c"
  shows "cv_exact c \<longleftrightarrow> fst ` set expected_leaves = fst ` set receipts_by_task \<and>
    (\<forall>task \<in> fst ` set expected_leaves. \<exists>rs. load_attempts d task = Inr rs \<and>
       length (filter completed_row rs) = 1 \<and> (\<forall>r \<in> set rs. quarantined_row r \<longleftrightarrow> \<not> completed_row r))"
  using coverage_exact_iff [OF assms] unfolding settled_def .

lemma row_fields:
  "completed_row (encode_attempt task i a) \<longleftrightarrow> completed a"
  "quarantined_row (encode_attempt task i a) \<longleftrightarrow> at_quarantined a \<noteq> None"
  by (auto simp: completed_row_def quarantined_row_def record_fields completed_def split: option.split)

lemma coverage_exact_witness:
  "\<exists>d c. verify_leaf_receipt_coverage d [(sample_task, ())] [(sample_task, ())] = Inr c \<and> cv_exact c"
proof -
  obtain d r rec where step: "record_sample ''completed'' = (d, Inr (r, rec))" "within_limits d" "rd_decision r = ''retry_admissible''"
    by (rule sample_recorded [of "''completed''"]) simp
  let ?a = "sample_attempt ''completed''"
  have load: "load_attempts d sample_task = Inr [encode_attempt sample_task 0 ?a]"
    using load_attempts_ledger [OF sample_ledger [OF step] sample_task_id] by (simp add: ledger_records_def)
  then obtain c where c: "verify_leaf_receipt_coverage d [(sample_task, ())] [(sample_task, ())] = Inr c"
    by (simp add: verify_leaf_receipt_coverage_def sample_task_id check_leaf_def field_is_def dict_get_def record_fields
      new_attempt_def completed_quarantined_def Let_def)
  have "cv_exact c"
    using coverage_exact [OF c] load by (simp add: row_fields new_attempt_def completed_def)
  with c show ?thesis by blast
qed

lemma check_attempt_arguments_Inl:
  "check_attempt_arguments task group_id shard challenge stage termination = Inl e \<Longrightarrow> e = EvictionPolicyError"
  by (auto simp: check_attempt_arguments_def task_id_def sha256_text_def split: if_splits)

lemma record_completed_refused:
  assumes "ledger_rel d L" "\<exists>b \<in> set (L task). completed b"
  shows "snd (record_attempt d task group_id shard challenge stage ''completed'' path policy) = Inl EvictionPolicyError"
proof (cases "check_attempt_arguments task group_id shard challenge stage ''completed''")
  case (Inl e)
  then show ?thesis using check_attempt_arguments_Inl [OF Inl] by (simp add: record_attempt_def)
next
  case (Inr u)
  then have args: "check_attempt_arguments task group_id shard challenge stage ''completed'' = Inr ()" by simp
  obtain r where "retry_decision stage ''completed'' (int (length (L task))) policy = Inr r"
    using arguments_decision(2) [OF args] by blast
  from record_attempt_cases [OF assms(1) args this refl refl] assms(2) show ?thesis by simp
qed

lemma load_attempts_task: "load_attempts d task = Inr rs \<Longrightarrow> task_id task = Inr task"
  by (auto simp: load_attempts_def attempt_paths_def task_id_def res_simps split: if_splits)

lemma dead_end_decision:
  assumes "retry_decision ''measured_run_in_progress'' ''completed'' i policy = Inr r"
  shows "rd_decision r \<in> {''retry_admissible'', ''attempt_budget_exhausted''}" "rd_quarantine r"
  using assms by (auto simp: retry_decision_def Let_def STAGE_POLICY_def split: if_splits)

text \<open>C40:
  A leaf can reach a dead end.  An attempt that ends as completed while the measured run is in
  progress is told that it may be retried (or that its budget is spent) and that it must be
  quarantined.  But from then on no completed attempt of that leaf is ever accepted again, and if the
  attempt was recorded as quarantined, no later coverage report of a plan with that leaf is exact.
\<close>

theorem completed_retry_dead_end:
  assumes "campaign_reachable d"
    "record_attempt d task group_id shard challenge ''measured_run_in_progress'' ''completed'' path policy = (d', Inr (r, rec))"
    "within_limits d'" "campaign_step\<^sup>*\<^sup>* d' d''"
  shows "rd_decision r \<in> {''retry_admissible'', ''attempt_budget_exhausted''} \<and> rd_quarantine r \<and>
    snd (record_attempt d'' task group' shard' challenge' stage' ''completed'' path' policy') = Inl EvictionPolicyError \<and>
    (path \<noteq> None \<longrightarrow> task \<in> fst ` set expected \<longrightarrow> verify_leaf_receipt_coverage d'' expected receipts = Inr c \<longrightarrow> \<not> cv_exact c)"
proof -
  let ?a = "new_attempt challenge (rd_decision r) group_id path shard ''measured_run_in_progress'' ''completed''"
  obtain L where L: "ledger_rel d L" "\<And>task. sound_history (L task)" using reachable_history [OF assms(1)] by blast
  have recorded: "ledger_rel d' (L(task := L task @ [?a]))" "sound_history (L task @ [?a])"
    and dec: "retry_decision ''measured_run_in_progress'' ''completed'' (int (length (L task))) policy = Inr r"
    using record_attempt_refines_aux [OF L(1) assms(2,3)] sound_history_append [OF L(2), of ?a task policy r]
    by (simp_all add: new_attempt_def completed_def)
  have "\<And>t. sound_history ((L(task := L task @ [?a])) t)" using recorded(2) L(2) by simp
  from steps_history [OF assms(4) recorded(1) this] obtain L' more where
    "ledger_rel d'' L'" "L' task = (L(task := L task @ [?a])) task @ more" by blast
  then have L': "ledger_rel d'' L'" "L' task = L task @ ?a # more" by simp_all
  have "completed ?a" by (simp add: completed_def new_attempt_def)
  then have refused: "snd (record_attempt d'' task group' shard' challenge' stage' ''completed'' path' policy') = Inl EvictionPolicyError"
    using record_completed_refused [OF L'(1)] L'(2) by simp
  have "\<not> cv_exact c" if "path \<noteq> None" "task \<in> fst ` set expected" "verify_leaf_receipt_coverage d'' expected receipts = Inr c"
  proof
    assume "cv_exact c"
    with coverage_exact_iff [OF that(3)] that(2) obtain rs where rs: "load_attempts d'' task = Inr rs" "settled rs" by blast
    have "task_id task = Inr task" using load_attempts_task [OF rs(1)] .
    from load_attempts_ledger [OF L'(1) this] rs(1) have "rs = ledger_records task (L' task)" by simp
    moreover have "length (L task) < length (L' task)" "L' task ! length (L task) = ?a" using L'(2) by simp_all
    ultimately have "encode_attempt task (length (L task)) ?a \<in> set rs" by (force simp: ledger_records_def)
    with rs(2) \<open>completed ?a\<close> that(1) show False by (auto simp: settled_def row_fields new_attempt_def)
  qed
  with refused dead_end_decision [OF dec] show ?thesis by blast
qed

lemma completed_retry_dead_end_witness:
  "\<exists>d r rec. record_sample ''completed'' = (d, Inr (r, rec)) \<and> rd_decision r = ''retry_admissible'' \<and>
     snd (record_attempt d sample_task (lit ''g'') 0 (replicate 64 98) ''verified_receipt_recorded'' ''completed'' None None) =
       Inl EvictionPolicyError"
proof -
  obtain d r rec where step: "record_sample ''completed'' = (d, Inr (r, rec))" "within_limits d" "rd_decision r = ''retry_admissible''"
    by (rule sample_recorded [of "''completed''"]) simp
  from completed_retry_dead_end [OF empty_reachable step(1,2) rtranclp.rtrancl_refl] step(1,3) show ?thesis by blast
qed

end
