(* ===== verification/Sieve.thy ===== *)
theory Sieve
  imports Prelude
begin

text \<open>
  Model of the sieves of \<open>tg_verifier/arithmetic.py\<close>: \<open>_require_int\<close>, \<open>_primes_through\<close>,
  \<open>mobius_linear\<close> and \<open>mobius_segment\<close>.  A byte array of flags is a \<open>bool list\<close>; list
  indices and the numbers being sieved are never negative and are \<open>nat\<close>.
\<close>

section \<open>Library functions\<close>

text \<open>\<open>math.isqrt\<close>, \<open>int.bit_length\<close>, \<open>range(first, stop, step)\<close> and the slice assignment of ones.\<close>

fun isqrt :: "nat \<Rightarrow> nat" where
  "isqrt n = (if n = 0 then 0 else let s = 2 * isqrt (n div 4) in if (s + 1) * (s + 1) \<le> n then s + 1 else s)"

declare isqrt.simps [simp del]

fun bit_length :: "nat \<Rightarrow> nat" where
  "bit_length n = (if n = 0 then 0 else Suc (bit_length (n div 2)))"

declare bit_length.simps [simp del]

definition py_range :: "nat \<Rightarrow> nat \<Rightarrow> nat \<Rightarrow> nat list" where
  "py_range first stop step = map (\<lambda>i. first + i * step) [0..<(stop - first + step - 1) div step]"

definition strike :: "nat \<Rightarrow> nat \<Rightarrow> bool list \<Rightarrow> bool list" where
  "strike start step flags = map (\<lambda>(i, c). start \<le> i \<and> (i - start) mod step = 0 \<or> c) (enumerate 0 flags)"

section \<open>Checked integers\<close>

definition require_min :: "int \<Rightarrow> int \<Rightarrow> int res" where
  "require_min minimum value = (if value < minimum then Inl ValueError else Inr value)"

section \<open>The sieve of Eratosthenes\<close>

definition strike_prime :: "bool list \<Rightarrow> nat \<Rightarrow> bool list" where
  "strike_prime composite prime = (if composite ! prime then composite else strike (prime * prime) prime composite)"

definition primes_through :: "int \<Rightarrow> nat list res" where
  "primes_through limit = ebind (require_min 0 limit) (\<lambda>limit.
     if limit < 2 then Inr []
     else
       let n = nat limit;
           composite = foldl strike_prime (replicate (n + 1) False) [2..<isqrt n + 1]
       in Inr (filter (\<lambda>number. \<not> composite ! number) [2..<n + 1]))"

section \<open>The linear sieve\<close>

text \<open>The inner loop over the primes found so far, with its two \<open>break\<close>s.\<close>

fun mark_products :: "nat \<Rightarrow> nat \<Rightarrow> int list \<times> bool list \<Rightarrow> nat list \<Rightarrow> int list \<times> bool list" where
  "mark_products limit number (mu, composite) [] = (mu, composite)"
| "mark_products limit number (mu, composite) (prime # primes) =
     (let product = number * prime
      in if product > limit then (mu, composite)
         else if number mod prime = 0 then (mu[product := 0], composite[product := True])
         else mark_products limit number (mu[product := - (mu ! number)], composite[product := True]) primes)"

definition linear_step :: "nat \<Rightarrow> int list \<times> bool list \<times> nat list \<Rightarrow> nat \<Rightarrow> int list \<times> bool list \<times> nat list" where
  "linear_step limit state number =
     (let (mu, composite, primes) = state;
          (mu, primes) = (if composite ! number then (mu, primes) else (mu[number := - 1], primes @ [number]));
          (mu, composite) = mark_products limit number (mu, composite) primes
      in (mu, composite, primes))"

definition mobius_linear :: "int \<Rightarrow> int list res" where
  "mobius_linear limit = ebind (require_min 0 limit) (\<lambda>limit.
     let n = nat limit; mu = replicate (n + 1) 0
     in if limit = 0 then Inr mu
        else Inr (fst (foldl (linear_step n) (mu[1 := 1], replicate (n + 1) False, []) [2..<n + 1])))"

section \<open>The segmented sieve\<close>

text \<open>
  The loop that divides out the further copies of a prime.  Its argument is never zero and the prime
  is at least two, so the first two conditions always hold where it is called; they bound the recursion.
\<close>

function strip_prime :: "nat \<Rightarrow> nat \<Rightarrow> nat" where
  "strip_prime prime r = (if 1 < prime \<and> 0 < r \<and> r mod prime = 0 then strip_prime prime (r div prime) else r)"
  by auto
termination by (relation "measure snd") auto

declare strip_prime.simps [simp del]

definition segment_mark :: "nat \<Rightarrow> nat \<Rightarrow> nat list \<times> int list \<Rightarrow> nat \<Rightarrow> nat list \<times> int list" where
  "segment_mark start prime state number =
     (let (remaining, values) = state;
          offset = number - start;
          remaining = remaining[offset := remaining ! offset div prime];
          values = (if values ! offset \<noteq> 0 then values[offset := - (values ! offset)] else values)
      in if remaining ! offset mod prime = 0
         then (remaining[offset := strip_prime prime (remaining ! offset)], values[offset := 0])
         else (remaining, values))"

definition segment_prime :: "nat \<Rightarrow> nat \<Rightarrow> nat list \<times> int list \<Rightarrow> nat \<Rightarrow> nat list \<times> int list" where
  "segment_prime start stop state prime =
     foldl (segment_mark start prime) state (py_range ((start + prime - 1) div prime * prime) stop prime)"

definition segment_final :: "nat list \<times> int list \<Rightarrow> int list" where
  "segment_final state = map (\<lambda>(residual, v). if residual > 1 \<and> v \<noteq> 0 then - v else v) (zip (fst state) (snd state))"

definition mobius_segment :: "int \<Rightarrow> int \<Rightarrow> int list res" where
  "mobius_segment start stop =
     ebind (require_min 1 start) (\<lambda>start. ebind (require_min 1 stop) (\<lambda>stop.
       if stop < start then Inl ValueError
       else if stop = start then Inr []
       else ebind (primes_through (int (isqrt (nat (stop - 1))))) (\<lambda>primes.
         let a = nat start; b = nat stop
         in Inr (segment_final (foldl (segment_prime a b) ([a..<b], replicate (b - a) 1) primes)))))"

end
