(* ===== verification/ArithScans.thy ===== *)
theory ArithScans
  imports Sieve
begin

text \<open>
  Model of the range checks of \<open>tg_verifier/arithmetic.py\<close>: Hurst's bound for the Mertens function,
  the two little-Mertens bounds, and the squarefree density with its enclosure of \<open>pi\<close>.
  \<open>Fraction\<close> is \<open>rat\<close>.  A table passed in is an \<open>int list\<close> whose entries are checked.
\<close>

definition HURST_NUMERATOR :: int where "HURST_NUMERATOR = 571"
definition HURST_DENOMINATOR :: int where "HURST_DENOMINATOR = 1000"

definition validate_mu_table :: "int list \<Rightarrow> int \<Rightarrow> unit res" where
  "validate_mu_table mu through = ebind (require_min 0 through) (\<lambda>through.
     if int (length mu) \<le> through then Inl ValueError
     else if mu = [] then Inl ValueError
     else if mu ! 0 \<noteq> 0 then Inl ValueError
     else if list_all (\<lambda>index. mu ! index \<in> {-1, 0, 1}) [1..<nat through + 1] then Inr ()
     else Inl ValueError)"

text \<open>The checks of a range \<open>lower..upper\<close> that every scan starts with.\<close>

definition require_span :: "int \<Rightarrow> int \<Rightarrow> (nat \<times> nat) res" where
  "require_span lower upper = ebind (require_min 1 lower) (\<lambda>lower. ebind (require_min 1 upper) (\<lambda>upper.
     if upper < lower then Inl ValueError else Inr (nat lower, nat upper)))"

section \<open>Hurst's bound\<close>

definition hurst_slack :: "int \<Rightarrow> int \<Rightarrow> int" where
  "hurst_slack n mertens = HURST_NUMERATOR * HURST_NUMERATOR * n - HURST_DENOMINATOR * HURST_DENOMINATOR * mertens * mertens"

definition hurst_squared_slack :: "int \<Rightarrow> int \<Rightarrow> int res" where
  "hurst_squared_slack n mertens = ebind (require_min 0 n) (\<lambda>n. Inr (hurst_slack n mertens))"

definition check_hurst_squared :: "int \<Rightarrow> int \<Rightarrow> bool res" where
  "check_hurst_squared n mertens = ebind (hurst_squared_slack n mertens) (\<lambda>slack. Inr (slack \<ge> 0))"

record hurst_result =
  hr_lower :: nat
  hr_upper :: nat
  hr_checks :: nat
  hr_final_mertens :: int
  hr_minimum_slack :: int
  hr_minimum_slack_at :: nat
  hr_first_failure :: "nat option"

definition hurst_passed :: "hurst_result \<Rightarrow> bool" where
  "hurst_passed r \<longleftrightarrow> hr_first_failure r = None"

text \<open>One pass of the loop over the state \<open>(mertens, (minimum_slack, minimum_slack_at), first_failure)\<close>.\<close>

definition hurst_step ::
  "int list \<Rightarrow> nat \<Rightarrow> int \<times> (int \<times> nat) option \<times> nat option \<Rightarrow> nat \<Rightarrow> (int \<times> (int \<times> nat) option \<times> nat option) res" where
  "hurst_step mu lower state n =
     (let (mertens, minimum, first_failure) = state; mertens = mertens + mu ! n
      in if n < lower then Inr (mertens, minimum, first_failure)
         else ebind (hurst_squared_slack (int n) mertens) (\<lambda>slack.
           let minimum = (case minimum of None \<Rightarrow> Some (slack, n)
                 | Some (m, k) \<Rightarrow> if slack < m then Some (slack, n) else Some (m, k));
               first_failure = (if slack < 0 \<and> first_failure = None then Some n else first_failure)
           in Inr (mertens, minimum, first_failure)))"

text \<open>A loop whose body may raise.\<close>

fun fold_res :: "('s \<Rightarrow> 'a \<Rightarrow> 's res) \<Rightarrow> 's \<Rightarrow> 'a list \<Rightarrow> 's res" where
  "fold_res f s [] = Inr s"
| "fold_res f s (x # xs) = ebind (f s x) (\<lambda>s. fold_res f s xs)"

definition check_hurst_sample :: "int list \<Rightarrow> int \<Rightarrow> int \<Rightarrow> hurst_result res" where
  "check_hurst_sample mu lower upper =
     ebind (require_span lower upper) (\<lambda>(l, u).
     ebind (validate_mu_table mu upper) (\<lambda>_.
     ebind (fold_res (hurst_step mu l) (0, None, None) [1..<u + 1]) (\<lambda>(mertens, minimum, first_failure).
       case minimum of None \<Rightarrow> Inl RuntimeError
       | Some (minimum_slack, minimum_slack_at) \<Rightarrow>
           Inr \<lparr>hr_lower = l, hr_upper = u, hr_checks = u - l + 1, hr_final_mertens = mertens,
             hr_minimum_slack = minimum_slack, hr_minimum_slack_at = minimum_slack_at,
             hr_first_failure = first_failure\<rparr>)))"

section \<open>The little-Mertens bounds\<close>

datatype little_mertens_bound = SQRT_TWO_OVER_X | ONE_OVER_TWO_SQRT_X

text \<open>The loop of \<open>little_mertens_prefix_sums\<close>.\<close>

fun prefix_sums :: "rat \<Rightarrow> nat \<Rightarrow> int list \<Rightarrow> rat list" where
  "prefix_sums state n [] = []"
| "prefix_sums state n (m # mu) = (let state = state + of_int m / of_nat n in state # prefix_sums state (n + 1) mu)"

definition little_mertens_prefix_sums :: "int list \<Rightarrow> rat list res" where
  "little_mertens_prefix_sums mu =
     (if mu = [] then Inl ValueError
      else ebind (validate_mu_table mu (int (length mu) - 1)) (\<lambda>_. Inr (0 # prefix_sums 0 1 (tl mu))))"

definition little_mertens_slack :: "rat \<Rightarrow> int \<Rightarrow> little_mertens_bound \<Rightarrow> rat" where
  "little_mertens_slack partial_sum right_endpoint bound =
     (let square = partial_sum * partial_sum
      in case bound of SQRT_TWO_OVER_X \<Rightarrow> 2 - of_int right_endpoint * square
         | ONE_OVER_TWO_SQRT_X \<Rightarrow> 1 - of_int (4 * right_endpoint) * square)"

definition little_mertens_interval_slack :: "rat \<Rightarrow> int \<Rightarrow> little_mertens_bound \<Rightarrow> rat res" where
  "little_mertens_interval_slack partial_sum right_endpoint bound =
     ebind (require_min 1 right_endpoint) (\<lambda>right_endpoint. Inr (little_mertens_slack partial_sum right_endpoint bound))"

definition check_little_mertens_interval :: "rat \<Rightarrow> int \<Rightarrow> little_mertens_bound \<Rightarrow> bool res" where
  "check_little_mertens_interval partial_sum right_endpoint bound =
     ebind (little_mertens_interval_slack partial_sum right_endpoint bound) (\<lambda>slack. Inr (slack \<ge> 0))"

record little_mertens_result =
  lm_bound :: little_mertens_bound
  lm_lower :: nat
  lm_upper :: nat
  lm_slabs_checked :: nat
  lm_final_sum :: rat
  lm_minimum_slack :: rat
  lm_minimum_slack_floor :: nat
  lm_minimum_slack_right_endpoint :: nat
  lm_first_failure_floor :: "nat option"

definition little_mertens_passed :: "little_mertens_result \<Rightarrow> bool" where
  "little_mertens_passed r \<longleftrightarrow> lm_first_failure_floor r = None"

definition little_mertens_step ::
  "int list \<Rightarrow> nat \<Rightarrow> nat \<Rightarrow> little_mertens_bound \<Rightarrow> rat \<times> (rat \<times> nat \<times> nat) option \<times> nat option \<Rightarrow> nat \<Rightarrow>
     (rat \<times> (rat \<times> nat \<times> nat) option \<times> nat option) res" where
  "little_mertens_step mu lower upper bound state n =
     (let (sum, minimum, first_failure) = state; sum = sum + of_int (mu ! n) / of_nat n
      in if n < lower then Inr (sum, minimum, first_failure)
         else
           let right_endpoint = (if n < upper then n + 1 else n)
           in ebind (little_mertens_interval_slack sum (int right_endpoint) bound) (\<lambda>slack.
             let minimum = (case minimum of None \<Rightarrow> Some (slack, n, right_endpoint)
                   | Some (m, k) \<Rightarrow> if slack < m then Some (slack, n, right_endpoint) else Some (m, k));
                 first_failure = (if slack < 0 \<and> first_failure = None then Some n else first_failure)
             in Inr (sum, minimum, first_failure)))"

definition check_little_mertens_sample ::
  "int list \<Rightarrow> int \<Rightarrow> int \<Rightarrow> little_mertens_bound \<Rightarrow> little_mertens_result res" where
  "check_little_mertens_sample mu lower upper bound =
     ebind (require_span lower upper) (\<lambda>(l, u).
     ebind (validate_mu_table mu upper) (\<lambda>_.
     ebind (fold_res (little_mertens_step mu l u bound) (0, None, None) [1..<u + 1]) (\<lambda>(sum, minimum, first_failure).
       case minimum of None \<Rightarrow> Inl RuntimeError
       | Some (minimum_slack, minimum_floor, minimum_right) \<Rightarrow>
           Inr \<lparr>lm_bound = bound, lm_lower = l, lm_upper = u, lm_slabs_checked = u - l + 1, lm_final_sum = sum,
             lm_minimum_slack = minimum_slack, lm_minimum_slack_floor = minimum_floor,
             lm_minimum_slack_right_endpoint = minimum_right, lm_first_failure_floor = first_failure\<rparr>)))"

section \<open>The enclosure of \<open>pi\<close>\<close>

definition atan_term :: "int \<Rightarrow> nat \<Rightarrow> rat" where
  "atan_term q index = of_int (if index mod 2 \<noteq> 0 then - 1 else 1) / of_int ((2 * int index + 1) * q ^ (2 * index + 1))"

definition atan_inverse_bounds :: "int \<Rightarrow> int \<Rightarrow> (rat \<times> rat) res" where
  "atan_inverse_bounds q last_index = ebind (require_min 2 q) (\<lambda>q. ebind (require_min 0 last_index) (\<lambda>last_index.
     let n = nat last_index;
         partial = sum_list (map (atan_term q) [0..<n + 1]);
         next_partial = partial + atan_term q (n + 1)
     in Inr (min partial next_partial, max partial next_partial)))"

definition machin_pi_bounds :: "(rat \<times> rat) res" where
  "machin_pi_bounds =
     ebind (atan_inverse_bounds 5 20) (\<lambda>(atan5_lower, atan5_upper).
     ebind (atan_inverse_bounds 239 6) (\<lambda>(atan239_lower, atan239_upper).
       Inr (16 * atan5_lower - 4 * atan239_upper, 16 * atan5_upper - 4 * atan239_lower)))"

definition PI_LOWER :: rat where "PI_LOWER = fst (projr machin_pi_bounds)"
definition PI_UPPER :: rat where "PI_UPPER = snd (projr machin_pi_bounds)"
definition SQUAREFREE_DENSITY_LOWER :: rat where "SQUAREFREE_DENSITY_LOWER = 6 / (PI_UPPER * PI_UPPER)"
definition SQUAREFREE_DENSITY_UPPER :: rat where "SQUAREFREE_DENSITY_UPPER = 6 / (PI_LOWER * PI_LOWER)"

section \<open>The squarefree density\<close>

datatype squarefree_classification = SAFE | VIOLATION | UNRESOLVED

fun prefix_counts :: "nat \<Rightarrow> int list \<Rightarrow> nat list" where
  "prefix_counts count [] = []"
| "prefix_counts count (m # mu) = (let count = (if m \<noteq> 0 then count + 1 else count) in count # prefix_counts count mu)"

definition squarefree_prefix_counts :: "int list \<Rightarrow> nat list res" where
  "squarefree_prefix_counts mu =
     (if mu = [] then Inl ValueError
      else ebind (validate_mu_table mu (int (length mu) - 1)) (\<lambda>_. Inr (0 # prefix_counts 0 (tl mu))))"

definition squarefree_endpoint_slack_bounds :: "int \<Rightarrow> int \<Rightarrow> rat \<Rightarrow> (rat \<times> rat) res" where
  "squarefree_endpoint_slack_bounds squarefree_count y bound =
     ebind (require_min 0 squarefree_count) (\<lambda>count. ebind (require_min 1 y) (\<lambda>y.
       if bound < 0 then Inl ValueError
       else
         let difference_lower = of_int count - SQUAREFREE_DENSITY_UPPER * of_int y;
             difference_upper = of_int count - SQUAREFREE_DENSITY_LOWER * of_int y
         in if difference_lower > difference_upper then Inl RuntimeError
            else
              let absolute_lower = (if difference_lower \<le> 0 \<and> 0 \<le> difference_upper then 0
                    else min (abs difference_lower) (abs difference_upper));
                  absolute_upper = max (abs difference_lower) (abs difference_upper);
                  rhs_square = bound * bound * of_int y
              in Inr (rhs_square - absolute_upper * absolute_upper, rhs_square - absolute_lower * absolute_lower)))"

definition classify_slack :: "rat \<times> rat \<Rightarrow> squarefree_classification" where
  "classify_slack slack = (if fst slack \<ge> 0 then SAFE else if snd slack < 0 then VIOLATION else UNRESOLVED)"

definition classify_squarefree_endpoint :: "int \<Rightarrow> int \<Rightarrow> rat \<Rightarrow> squarefree_classification res" where
  "classify_squarefree_endpoint squarefree_count y bound =
     ebind (squarefree_endpoint_slack_bounds squarefree_count y bound) (\<lambda>slack. Inr (classify_slack slack))"

text \<open>The side of an endpoint, and the state of the scan.\<close>

datatype endpoint_side = at_integer | left_limit

record squarefree_state =
  ss_checked :: nat
  ss_safe :: nat
  ss_violations :: nat
  ss_unresolved :: nat
  ss_first_problem :: "(nat \<times> endpoint_side) option"
  ss_minimum :: "(rat \<times> nat \<times> endpoint_side) option"

record squarefree_result =
  sq_lower :: nat
  sq_upper :: nat
  sq_bound :: rat
  sq_final_count :: nat
  sq_checked :: nat
  sq_safe :: nat
  sq_violating :: nat
  sq_unresolved :: nat
  sq_minimum_lower_slack :: rat
  sq_minimum_at :: "nat \<times> endpoint_side"
  sq_first_problem :: "(nat \<times> endpoint_side) option"

definition squarefree_passed :: "squarefree_result \<Rightarrow> bool" where
  "squarefree_passed r \<longleftrightarrow> sq_violating r = 0 \<and> sq_unresolved r = 0"

definition endpoint_step ::
  "nat \<Rightarrow> rat \<Rightarrow> squarefree_state \<Rightarrow> nat \<times> endpoint_side \<Rightarrow> squarefree_state res" where
  "endpoint_step count bound s endpoint =
     ebind (squarefree_endpoint_slack_bounds (int count) (int (fst endpoint)) bound) (\<lambda>(slack_lower, slack_upper).
       let s = s\<lparr>ss_checked := ss_checked s + 1\<rparr>;
           s = (case ss_minimum s of None \<Rightarrow> s\<lparr>ss_minimum := Some (slack_lower, endpoint)\<rparr>
                | Some (m, _) \<Rightarrow> if slack_lower < m then s\<lparr>ss_minimum := Some (slack_lower, endpoint)\<rparr> else s);
           problem = (case ss_first_problem s of None \<Rightarrow> Some endpoint | Some p \<Rightarrow> Some p)
       in if slack_lower \<ge> 0 then Inr (s\<lparr>ss_safe := ss_safe s + 1\<rparr>)
          else if slack_upper < 0 then Inr (s\<lparr>ss_violations := ss_violations s + 1, ss_first_problem := problem\<rparr>)
          else Inr (s\<lparr>ss_unresolved := ss_unresolved s + 1, ss_first_problem := problem\<rparr>))"

definition slab_endpoints :: "nat \<Rightarrow> nat \<Rightarrow> (nat \<times> endpoint_side) list" where
  "slab_endpoints upper n = (n, at_integer) # (if n < upper then [(n + 1, left_limit)] else [])"

definition squarefree_step ::
  "int list \<Rightarrow> nat \<Rightarrow> nat \<Rightarrow> rat \<Rightarrow> nat \<times> squarefree_state \<Rightarrow> nat \<Rightarrow> (nat \<times> squarefree_state) res" where
  "squarefree_step mu lower upper bound state n =
     (let (count, s) = state; count = (if mu ! n \<noteq> 0 then count + 1 else count)
      in if n < lower then Inr (count, s)
         else ebind (fold_res (endpoint_step count bound) s (slab_endpoints upper n)) (\<lambda>s. Inr (count, s)))"

definition check_squarefree_sample :: "int list \<Rightarrow> int \<Rightarrow> int \<Rightarrow> rat \<Rightarrow> squarefree_result res" where
  "check_squarefree_sample mu lower upper bound =
     ebind (require_span lower upper) (\<lambda>(l, u).
     if bound < 0 then Inl ValueError
     else ebind (validate_mu_table mu upper) (\<lambda>_.
     ebind (fold_res (squarefree_step mu l u bound) (0, \<lparr>ss_checked = 0, ss_safe = 0, ss_violations = 0, ss_unresolved = 0,
         ss_first_problem = None, ss_minimum = None\<rparr>) [1..<u + 1]) (\<lambda>(count, s).
       case ss_minimum s of None \<Rightarrow> Inl RuntimeError
       | Some (minimum_lower_slack, minimum_at) \<Rightarrow>
           Inr \<lparr>sq_lower = l, sq_upper = u, sq_bound = bound, sq_final_count = count, sq_checked = ss_checked s,
             sq_safe = ss_safe s, sq_violating = ss_violations s, sq_unresolved = ss_unresolved s,
             sq_minimum_lower_slack = minimum_lower_slack, sq_minimum_at = minimum_at,
             sq_first_problem = ss_first_problem s\<rparr>)))"

end
