(* ===== verification/PiBounds.thy ===== *)
theory PiBounds
  imports ArithScans
begin

text \<open>
  The module constants enclose \<open>pi\<close> and \<open>6 / pi\<^sup>2\<close>: alternating partial sums of the arctangent
  series, and Machin's identity.
\<close>

lemma atan_series_bounds:
  fixes x :: real
  assumes "0 < x" "x \<le> 1"
  defines "a \<equiv> \<lambda>n. 1 / real (n * 2 + 1) * x ^ (n * 2 + 1)"
  defines "S \<equiv> \<lambda>n. \<Sum>i<n. (- 1) ^ i * a i"
  shows "min (S n) (S (Suc n)) \<le> arctan x" "arctan x \<le> max (S n) (S (Suc n))"
proof -
  have x: "\<bar>x\<bar> \<le> 1" using assms by simp
  have "0 < a 0" using assms by (simp add: a_def)
  with summable_Leibniz(2) [OF zeroseq_arctan_series [OF x] monoseq_arctan_series [OF x]]
  have between: "(\<Sum>i. (- 1) ^ i * a i) \<in> {S (2 * m) .. S (2 * m + 1)}" for m
    unfolding a_def S_def by blast
  have eq: "arctan x = (\<Sum>i. (- 1) ^ i * a i)" using arctan_series [OF x] by (simp add: a_def)
  have lower: "S (2 * m) \<le> arctan x" and upper: "arctan x \<le> S (2 * m + 1)" for m
    using between [of m] eq by auto
  consider m where "n = 2 * m" | m where "n = 2 * m + 1" by (metis evenE oddE)
  then have "min (S n) (S (Suc n)) \<le> arctan x \<and> arctan x \<le> max (S n) (S (Suc n))"
  proof cases
    case 1
    then show ?thesis using lower [of m] upper [of m] by (simp add: min_le_iff_disj le_max_iff_disj)
  next
    case (2 m)
    then show ?thesis using lower [of "m + 1"] upper [of m] by (simp add: min_le_iff_disj le_max_iff_disj)
  qed
  then show "min (S n) (S (Suc n)) \<le> arctan x" "arctan x \<le> max (S n) (S (Suc n))" by simp_all
qed

lemma atan_term_real:
  assumes "0 < q"
  shows "real_of_rat (atan_term q i) = (- 1) ^ i * (1 / real (i * 2 + 1) * (1 / of_int q) ^ (i * 2 + 1))"
proof -
  have "(if i mod 2 \<noteq> 0 then - 1 else 1) = (- 1 :: int) ^ i" by (auto simp: minus_one_power_iff even_iff_mod_2_eq_zero)
  then show ?thesis using assms
    by (simp add: atan_term_def of_rat_divide of_rat_mult of_rat_add of_rat_power power_one_over mult.commute [of i 2])
qed

lemma real_sum_terms:
  assumes "0 < q"
  shows "real_of_rat (sum_list (map (atan_term q) [0..<n])) =
    (\<Sum>i<n. (- 1) ^ i * (1 / real (i * 2 + 1) * (1 / of_int q) ^ (i * 2 + 1)))"
  by (induction n) (simp_all add: of_rat_add atan_term_real [OF assms])

lemma atan_inverse_enclosure:
  assumes "atan_inverse_bounds q n = Inr (l, u)"
  shows "real_of_rat l \<le> arctan (1 / of_int q)" "arctan (1 / of_int q) \<le> real_of_rat u"
proof -
  have q: "2 \<le> q" and l: "l = min (sum_list (map (atan_term q) [0..<nat n + 1])) (sum_list (map (atan_term q) [0..<Suc (nat n + 1)]))"
    and u: "u = max (sum_list (map (atan_term q) [0..<nat n + 1])) (sum_list (map (atan_term q) [0..<Suc (nat n + 1)]))"
    using assms by (auto simp: atan_inverse_bounds_def require_min_def Let_def add.assoc split: if_splits)
  have x: "0 < 1 / real_of_int q" "1 / real_of_int q \<le> 1" using q by simp_all
  have q0: "0 < q" using q by simp
  have mm: "real_of_rat (min a b) = min (real_of_rat a) (real_of_rat b)" "real_of_rat (max a b) = max (real_of_rat a) (real_of_rat b)" for a b
    by (simp_all add: min_def max_def of_rat_less_eq)
  show "real_of_rat l \<le> arctan (1 / of_int q)"
    unfolding l mm real_sum_terms [OF q0] by (rule atan_series_bounds(1) [OF x])
  show "arctan (1 / of_int q) \<le> real_of_rat u"
    unfolding u mm real_sum_terms [OF q0] by (rule atan_series_bounds(2) [OF x])
qed

lemma machin_enclosure:
  "real_of_rat PI_LOWER \<le> pi" "pi \<le> real_of_rat PI_UPPER"
proof -
  obtain a b where ab: "atan_inverse_bounds 5 20 = Inr (a, b)" by (simp add: atan_inverse_bounds_def require_min_def Let_def)
  obtain c d where cd: "atan_inverse_bounds 239 6 = Inr (c, d)" by (simp add: atan_inverse_bounds_def require_min_def Let_def)
  have eq: "PI_LOWER = 16 * a - 4 * d" "PI_UPPER = 16 * b - 4 * c"
    by (simp_all add: PI_LOWER_def PI_UPPER_def machin_pi_bounds_def ab cd)
  have machin: "pi = 16 * arctan (1 / 5) - 4 * arctan (1 / 239)" using machin by simp
  note atan_inverse_enclosure [OF ab] atan_inverse_enclosure [OF cd]
  then show "real_of_rat PI_LOWER \<le> pi" "pi \<le> real_of_rat PI_UPPER"
    unfolding eq machin by (simp_all add: of_rat_diff of_rat_mult)
qed

lemma atan_width:
  assumes "atan_inverse_bounds q n = Inr (l, u)"
  shows "u - l \<le> 1 / of_int (2 * n + 3)"
proof -
  let ?t = "atan_term q (nat n + 1)"
  have q: "2 \<le> q" "0 \<le> n" and w: "u - l = \<bar>?t\<bar>"
    using assms by (auto simp: atan_inverse_bounds_def require_min_def Let_def min_def max_def split: if_splits)
  have "\<bar>?t\<bar> = 1 / (of_int (2 * n + 3) * of_int q ^ (2 * (nat n + 1) + 1))"
    using q by (simp add: atan_term_def abs_mult power_abs)
  also have "\<dots> \<le> 1 / of_int (2 * n + 3)"
    using q one_le_power [of "of_int q :: rat" "2 * (nat n + 1) + 1"] by (intro divide_left_mono) simp_all
  finally show ?thesis using w by simp
qed

lemma pi_lower_pos: "0 < PI_LOWER"
proof -
  obtain a b where ab: "atan_inverse_bounds 5 20 = Inr (a, b)" by (simp add: atan_inverse_bounds_def require_min_def Let_def)
  obtain c d where cd: "atan_inverse_bounds 239 6 = Inr (c, d)" by (simp add: atan_inverse_bounds_def require_min_def Let_def)
  have eq: "PI_LOWER = 16 * a - 4 * d" "PI_UPPER = 16 * b - 4 * c"
    by (simp_all add: PI_LOWER_def PI_UPPER_def machin_pi_bounds_def ab cd)
  have "real_of_rat 2 \<le> real_of_rat PI_UPPER" using machin_enclosure(2) pi_ge_two by simp
  then have "2 \<le> 16 * b - 4 * c" unfolding eq of_rat_less_eq .
  with atan_width [OF ab] atan_width [OF cd] show ?thesis unfolding eq by simp
qed

lemma density_enclosure:
  "real_of_rat SQUAREFREE_DENSITY_LOWER \<le> 6 / pi\<^sup>2" "6 / pi\<^sup>2 \<le> real_of_rat SQUAREFREE_DENSITY_UPPER"
  "SQUAREFREE_DENSITY_LOWER \<le> SQUAREFREE_DENSITY_UPPER"
proof -
  have pos: "0 < real_of_rat PI_LOWER" using pi_lower_pos by simp
  note m = machin_enclosure
  have "pi\<^sup>2 \<le> real_of_rat PI_UPPER * real_of_rat PI_UPPER" using mult_mono [OF m(2) m(2)] m(2) pi_gt_zero by (simp add: power2_eq_square del: of_rat_le_0_iff zero_le_of_rat_iff)
  then show l: "real_of_rat SQUAREFREE_DENSITY_LOWER \<le> 6 / pi\<^sup>2"
    unfolding SQUAREFREE_DENSITY_LOWER_def of_rat_divide of_rat_mult of_rat_numeral_eq by (intro frac_le) simp_all
  have "real_of_rat PI_LOWER * real_of_rat PI_LOWER \<le> pi\<^sup>2" using mult_mono [OF m(1) m(1)] pos m by (simp add: power2_eq_square)
  then show u: "6 / pi\<^sup>2 \<le> real_of_rat SQUAREFREE_DENSITY_UPPER"
    using pos unfolding SQUAREFREE_DENSITY_UPPER_def of_rat_divide of_rat_mult of_rat_numeral_eq by (intro frac_le) simp_all
  from l u have "real_of_rat SQUAREFREE_DENSITY_LOWER \<le> real_of_rat SQUAREFREE_DENSITY_UPPER" by (rule order_trans)
  then show "SQUAREFREE_DENSITY_LOWER \<le> SQUAREFREE_DENSITY_UPPER" by (simp only: of_rat_less_eq)
qed

end
