(* ===== verification/Moebius.thy ===== *)
theory Moebius
  imports Prelude
begin

text \<open>
  The mathematics the sieves are checked against: primes, the least prime factor, the Moebius
  function by its definition, and how each changes when a number is multiplied by a prime.
\<close>

section \<open>Primes\<close>

definition is_prime :: "nat \<Rightarrow> bool" where
  "is_prime p \<longleftrightarrow> 1 < p \<and> (\<forall>d. d dvd p \<longrightarrow> d = 1 \<or> d = p)"

lemma prime_gt_1: "is_prime p \<Longrightarrow> 1 < p"
  by (simp add: is_prime_def)

lemma prime_pos: "is_prime p \<Longrightarrow> 0 < p"
  by (auto simp: is_prime_def)

lemma prime_dvd_prime: "is_prime p \<Longrightarrow> is_prime q \<Longrightarrow> p dvd q \<longleftrightarrow> p = q"
  by (auto simp: is_prime_def)

lemma prime_factor: "1 < n \<Longrightarrow> \<exists>p. is_prime p \<and> p dvd n"
proof (induction n rule: less_induct)
  case (less n)
  show ?case
  proof (cases "is_prime n")
    case False
    with less.prems obtain d where d: "d dvd n" "d \<noteq> 1" "d \<noteq> n" by (auto simp: is_prime_def)
    then have "1 < d" "d < n" using less.prems dvd_imp_le [OF d(1)] dvd_pos_nat [of n d] by auto
    with less.IH d(1) show ?thesis by (meson dvd_trans)
  qed auto
qed

lemma prime_coprime: "is_prime p \<Longrightarrow> \<not> p dvd a \<Longrightarrow> coprime p a"
  unfolding is_prime_def coprime_def by (metis nat_dvd_1_iff_1)

lemma prime_dvd_mult: "is_prime p \<Longrightarrow> p dvd a * b \<longleftrightarrow> p dvd a \<or> p dvd b"
  using prime_coprime coprime_dvd_mult_right_iff by (metis dvd_mult dvd_mult2)

lemma prime_square_dvd_mult:
  assumes "is_prime p" "is_prime q" "p \<noteq> q"
  shows "p * p dvd q * m \<longleftrightarrow> p * p dvd m"
proof -
  have "coprime p q" using assms prime_coprime prime_dvd_prime by blast
  then have "coprime (p * p) q" by simp
  then show ?thesis by (simp add: coprime_dvd_mult_right_iff)
qed

lemma primes_dividing_finite: "0 < n \<Longrightarrow> finite {p. is_prime p \<and> p dvd n}"
  by (rule finite_subset [of _ "{..n}"]) (auto dest: dvd_imp_le)

section \<open>The least prime factor\<close>

definition lpf :: "nat \<Rightarrow> nat" where
  "lpf n = (LEAST p. is_prime p \<and> p dvd n)"

lemma lpf:
  assumes "1 < n"
  shows "is_prime (lpf n)" "lpf n dvd n" "is_prime p \<Longrightarrow> p dvd n \<Longrightarrow> lpf n \<le> p"
  using LeastI_ex [OF prime_factor [OF assms]] by (auto simp: lpf_def intro: Least_le)

lemma lpf_le: "1 < n \<Longrightarrow> lpf n \<le> n"
  using lpf(2) by (auto intro: dvd_imp_le)

lemma lpf_prime: "is_prime p \<Longrightarrow> lpf p = p"
  using lpf(1,2) [of p] prime_dvd_prime prime_gt_1 by blast

lemma lpf_eqI: "1 < n \<Longrightarrow> is_prime p \<Longrightarrow> p dvd n \<Longrightarrow> (\<And>q. is_prime q \<Longrightarrow> q dvd n \<Longrightarrow> p \<le> q) \<Longrightarrow> lpf n = p"
  using lpf [of n] by (meson le_antisym)

lemma composite_lpf:
  assumes "1 < n" "\<not> is_prime n"
  shows "1 < n div lpf n" "n div lpf n < n" "n div lpf n * lpf n = n" "lpf n \<le> lpf (n div lpf n)" "lpf n * lpf n \<le> n"
proof -
  note l = lpf [OF assms(1)]
  show eq: "n div lpf n * lpf n = n" using l(2) by simp
  have "n div lpf n \<noteq> 0" using eq assms(1) by (metis mult_0 not_less_zero)
  moreover have "n div lpf n \<noteq> 1" using eq l(1) assms(2) by (metis mult_1)
  ultimately show gt: "1 < n div lpf n" by simp
  show "n div lpf n < n" using prime_gt_1 [OF l(1)] assms(1) by simp
  have "n div lpf n dvd n" using eq by (metis dvd_triv_left)
  then show le: "lpf n \<le> lpf (n div lpf n)" using l(3) lpf(1,2) [OF gt] dvd_trans by blast
  have "lpf n \<le> n div lpf n" using le lpf_le [OF gt] by simp
  then show "lpf n * lpf n \<le> n" using eq by (metis mult_le_mono1)
qed

lemma lpf_mult:
  assumes "1 < m" "is_prime p"
  shows "lpf (m * p) = p \<longleftrightarrow> p \<le> lpf m"
proof
  have gt: "1 < m * p" using assms prime_gt_1 [of p] by (simp add: one_less_mult)
  show "p \<le> lpf m" if "lpf (m * p) = p" using lpf(3) [OF gt] lpf(1,2) [OF assms(1)] that by fastforce
  show "lpf (m * p) = p" if "p \<le> lpf m"
  proof (rule lpf_eqI [OF gt assms(2)])
    fix q assume "is_prime q" "q dvd m * p"
    then have "q dvd m \<or> q = p" using prime_dvd_mult prime_dvd_prime assms(2) by blast
    with lpf(3) [OF assms(1) \<open>is_prime q\<close>] that show "p \<le> q" by auto
  qed simp
qed

section \<open>The Moebius function\<close>

definition squarefree_nat :: "nat \<Rightarrow> bool" where
  "squarefree_nat n \<longleftrightarrow> (\<forall>p. is_prime p \<longrightarrow> \<not> p * p dvd n)"

definition moebius :: "nat \<Rightarrow> int" where
  "moebius n = (if n = 0 \<or> \<not> squarefree_nat n then 0 else (- 1) ^ card {p. is_prime p \<and> p dvd n})"

lemma moebius_0 [simp]: "moebius 0 = 0"
  by (simp add: moebius_def)

lemma moebius_1 [simp]: "moebius (Suc 0) = 1"
proof -
  have none: "{p. is_prime p \<and> p dvd Suc 0} = {}" by (auto simp: is_prime_def)
  have "squarefree_nat 1" by (auto simp: squarefree_nat_def is_prime_def)
  then show ?thesis by (simp only: moebius_def none) simp
qed

lemma moebius_mult_new:
  assumes "is_prime p" "0 < m" "\<not> p dvd m"
  shows "moebius (m * p) = - moebius m"
proof -
  have "{q. is_prime q \<and> q dvd m * p} = insert p {q. is_prime q \<and> q dvd m}"
    using assms(1) prime_dvd_mult prime_dvd_prime by blast
  then have count: "card {q. is_prime q \<and> q dvd m * p} = Suc (card {q. is_prime q \<and> q dvd m})"
    using assms(3) primes_dividing_finite [OF assms(2)] by simp
  have "\<not> p * p dvd m * p" using assms prime_pos [OF assms(1)] by (simp add: mult.commute)
  moreover have "\<not> p * p dvd m" using assms(3) dvd_mult_left by blast
  ultimately have "q * q dvd m * p \<longleftrightarrow> q * q dvd m" if "is_prime q" for q
    using prime_square_dvd_mult [OF that assms(1)] by (cases "q = p") (simp_all add: mult.commute [of m])
  then have "squarefree_nat (m * p) \<longleftrightarrow> squarefree_nat m" by (simp add: squarefree_nat_def)
  with count assms prime_pos [OF assms(1)] show ?thesis by (simp add: moebius_def)
qed

lemma moebius_mult_old: "is_prime p \<Longrightarrow> p dvd m \<Longrightarrow> moebius (m * p) = 0"
proof -
  assume p: "is_prime p" "p dvd m"
  then have "p * p dvd m * p" by simp
  with p show ?thesis by (auto simp: moebius_def squarefree_nat_def)
qed

lemma moebius_prime: "is_prime p \<Longrightarrow> moebius p = - 1"
  using moebius_mult_new [of p 1] prime_gt_1 [of p] by simp

lemma moebius_values: "moebius n \<in> {-1, 0, 1}"
  by (cases "even (card {p. is_prime p \<and> p dvd n})") (auto simp: moebius_def)

lemma moebius_zero_iff: "0 < n \<Longrightarrow> moebius n \<noteq> 0 \<longleftrightarrow> squarefree_nat n"
  by (simp add: moebius_def)

end
