(* ===== verification/Sieve_Correct.thy ===== *)
theory Sieve_Correct
  imports Sieve Moebius
begin

text \<open>
  The sieves compute what their names say: the list of the primes, and the Moebius function.
\<close>

section \<open>The integer square root\<close>

lemma isqrt_bounds: "isqrt n * isqrt n \<le> n \<and> n < (isqrt n + 1) * (isqrt n + 1)"
proof (induction n rule: isqrt.induct)
  case (1 n)
  show ?case
  proof (cases "n = 0")
    case False
    define r where "r = isqrt (n div 4)"
    have r: "r * r \<le> n div 4" "n div 4 < (r + 1) * (r + 1)" using 1 False by (simp_all add: r_def)
    then have "4 * (r * r) \<le> n" "n < 4 * ((r + 1) * (r + 1))" by linarith+
    then show ?thesis using False by (simp add: isqrt.simps [of n] Let_def r_def [symmetric] algebra_simps)
  qed (simp add: isqrt.simps)
qed

lemma le_isqrt_iff: "m \<le> isqrt n \<longleftrightarrow> m * m \<le> n"
proof
  assume "m \<le> isqrt n"
  then have "m * m \<le> isqrt n * isqrt n" by (rule mult_le_mono) fact
  with isqrt_bounds [of n] show "m * m \<le> n" by simp
next
  assume "m * m \<le> n"
  show "m \<le> isqrt n"
  proof (rule ccontr)
    assume "\<not> m \<le> isqrt n"
    then have "(isqrt n + 1) * (isqrt n + 1) \<le> m * m" by (intro mult_le_mono) simp_all
    with isqrt_bounds [of n] \<open>m * m \<le> n\<close> show False by simp
  qed
qed

section \<open>The sieve of Eratosthenes\<close>

lemma length_strike [simp]: "length (strike start step flags) = length flags"
  by (simp add: strike_def)

lemma strike_nth: "i < length flags \<Longrightarrow> strike start step flags ! i \<longleftrightarrow> start \<le> i \<and> (i - start) mod step = 0 \<or> flags ! i"
  by (simp add: strike_def nth_enumerate_eq)

lemma struck: "m * m \<le> i \<and> (i - m * m) mod m = 0 \<longleftrightarrow> m * m \<le> i \<and> m dvd (i :: nat)"
  by (cases "m * m \<le> i") (auto simp: le_iff_add mod_eq_0_iff_dvd)

definition struck_out :: "nat \<Rightarrow> nat \<Rightarrow> bool" where
  "struck_out m k \<longleftrightarrow> (\<exists>p < m. is_prime p \<and> p * p \<le> k \<and> p dvd k)"

lemma struck_out_composite: "struck_out m k \<Longrightarrow> \<not> is_prime k"
proof
  assume "struck_out m k" "is_prime k"
  then obtain p where "is_prime p" "p * p \<le> k" "p dvd k" by (auto simp: struck_out_def)
  with \<open>is_prime k\<close> have "p = k" by (simp add: prime_dvd_prime)
  with \<open>p * p \<le> k\<close> prime_gt_1 [OF \<open>is_prime k\<close>] show False by simp
qed

lemma struck_out_iff: "1 < k \<Longrightarrow> k < m * m \<Longrightarrow> struck_out m k \<longleftrightarrow> \<not> is_prime k"
proof -
  assume k: "1 < k" "k < m * m"
  have "struck_out m k" if c: "\<not> is_prime k"
  proof -
    have "lpf k * lpf k \<le> k" using composite_lpf(5) [OF k(1) c] .
    moreover have "lpf k < m"
    proof (rule ccontr)
      assume "\<not> lpf k < m"
      then have "m * m \<le> lpf k * lpf k" by (intro mult_le_mono) simp_all
      with \<open>lpf k * lpf k \<le> k\<close> k(2) show False by simp
    qed
    ultimately show ?thesis using lpf(1,2) [OF k(1)] by (auto simp: struck_out_def)
  qed
  with struck_out_composite show ?thesis by blast
qed

lemma eratosthenes_invariant:
  assumes "2 \<le> m" "m \<le> isqrt n + 1"
  shows "length (foldl strike_prime (replicate (n + 1) False) [2..<m]) = n + 1 \<and>
    (\<forall>k \<le> n. foldl strike_prime (replicate (n + 1) False) [2..<m] ! k \<longleftrightarrow> struck_out m k)"
  using assms
proof (induction m rule: nat_induct_at_least)
  case base
  have "\<not> struck_out 2 k" for k using prime_gt_1 by (fastforce simp: struck_out_def)
  then show ?case by (simp del: replicate_Suc)
next
  case (Suc m)
  let ?c = "foldl strike_prime (replicate (n + 1) False) [2..<m]"
  have IH: "length ?c = n + 1" "\<And>k. k \<le> n \<Longrightarrow> ?c ! k \<longleftrightarrow> struck_out m k" using Suc by simp_all
  have m: "m * m \<le> n" using Suc.prems by (simp add: le_isqrt_iff [symmetric])
  have "m \<le> n" using m Suc.hyps by (metis le_square le_trans)
  have at_m: "?c ! m \<longleftrightarrow> \<not> is_prime m"
    using struck_out_iff [of m m] IH(2) [OF \<open>m \<le> n\<close>] Suc.hyps by simp
  have "struck_out (Suc m) k \<longleftrightarrow> struck_out m k \<or> is_prime m \<and> m * m \<le> k \<and> m dvd k" for k
    by (auto simp: struck_out_def less_Suc_eq)
  then have "strike_prime ?c m ! k \<longleftrightarrow> struck_out (Suc m) k" if "k \<le> n" for k
    using that IH at_m struck [of m k] by (auto simp: strike_prime_def strike_nth)
  moreover have "length (strike_prime ?c m) = n + 1" using IH(1) by (simp add: strike_prime_def)
  moreover have step: "foldl strike_prime (replicate (n + 1) False) [2..<Suc m] = strike_prime ?c m" using Suc.hyps by simp
  ultimately show ?case unfolding step by blast
qed

lemma primes_through_eq:
  "primes_through limit = (if limit < 0 then Inl ValueError else Inr (filter is_prime [2..<nat limit + 1]))"
proof (cases "limit < 2")
  case True
  then show ?thesis by (auto simp: primes_through_def require_min_def)
next
  case False
  define n where "n = nat limit"
  have "1 \<le> isqrt n" using False by (simp add: le_isqrt_iff n_def)
  then have inv: "foldl strike_prime (replicate (n + 1) False) [2..<isqrt n + 1] ! k \<longleftrightarrow> struck_out (isqrt n + 1) k"
    if "k \<le> n" for k
    using eratosthenes_invariant [of "isqrt n + 1" n] that by simp
  have "foldl strike_prime (replicate (n + 1) False) [2..<isqrt n + 1] ! k \<longleftrightarrow> \<not> is_prime k" if "k \<in> set [2..<n + 1]" for k
  proof -
    have "k \<le> n" using that by (simp del: upt_Suc)
    then have "k < (isqrt n + 1) * (isqrt n + 1)" using isqrt_bounds [of n] by (blast intro: le_less_trans)
    moreover have "1 < k" using that by (simp del: upt_Suc)
    ultimately show ?thesis using inv [OF \<open>k \<le> n\<close>] struck_out_iff [of k "isqrt n + 1"] by blast
  qed
  then have "filter (\<lambda>k. \<not> foldl strike_prime (replicate (n + 1) False) [2..<isqrt n + 1] ! k) [2..<n + 1] =
      filter is_prime [2..<n + 1]"
    by (intro filter_cong refl) blast
  with False show ?thesis by (simp add: primes_through_def require_min_def n_def [symmetric] del: replicate_Suc upt_Suc)
qed

section \<open>The linear sieve\<close>

definition marks :: "nat \<Rightarrow> nat \<Rightarrow> nat list \<Rightarrow> nat \<Rightarrow> nat \<Rightarrow> bool" where
  "marks limit m ps k p \<longleftrightarrow> p \<in> set ps \<and> k = m * p \<and> k \<le> limit \<and> (\<forall>q \<in> set ps. q < p \<longrightarrow> \<not> q dvd m)"

lemma mark_products:
  assumes "sorted_wrt (<) ps" "\<forall>p \<in> set ps. 1 < p" "0 < m" "length mu = limit + 1" "length composite = limit + 1"
    "mark_products limit m (mu, composite) ps = (mu', composite')"
  shows "length mu' = limit + 1 \<and> length composite' = limit + 1 \<and>
    (\<forall>k \<le> limit. (composite' ! k \<longleftrightarrow> composite ! k \<or> (\<exists>p. marks limit m ps k p)) \<and>
       (\<forall>p. marks limit m ps k p \<longrightarrow> mu' ! k = (if p dvd m then 0 else - (mu ! m))) \<and>
       ((\<nexists>p. marks limit m ps k p) \<longrightarrow> mu' ! k = mu ! k))"
  using assms
proof (induction ps arbitrary: mu composite)
  case Nil
  then show ?case by (simp add: marks_def)
next
  case (Cons p ps)
  have p: "1 < p" "\<forall>q \<in> set ps. p < q" using Cons.prems by auto
  consider (over) "m * p > limit" | (last) "m * p \<le> limit" "p dvd m" | (on) "m * p \<le> limit" "\<not> p dvd m" by linarith
  then show ?case
  proof cases
    case over
    have "\<not> marks limit m (p # ps) k q" for k q
    proof
      assume "marks limit m (p # ps) k q"
      then have "p \<le> q" "m * q \<le> limit" using p(2) by (auto simp: marks_def)
      with over show False by (meson le_less_trans mult_le_mono2 not_le)
    qed
    with over Cons.prems show ?thesis by (simp add: Let_def)
  next
    case last
    have "marks limit m (p # ps) k q \<longleftrightarrow> q = p \<and> k = m * p" for k q
      using last p by (auto simp: marks_def)
    with last Cons.prems show ?thesis by (auto simp: Let_def dvd_eq_mod_eq_0 nth_list_update)
  next
    case on
    let ?mu = "mu[m * p := - (mu ! m)]" and ?c = "composite[m * p := True]"
    have run: "mark_products limit m (?mu, ?c) ps = (mu', composite')"
      using Cons.prems(6) on by (simp add: Let_def dvd_eq_mod_eq_0)
    have here: "marks limit m (p # ps) k q \<longleftrightarrow> q = p \<and> k = m * p \<or> marks limit m ps k q" for k q
      using on p by (auto simp: marks_def)
    have other: "\<not> marks limit m ps (m * p) q" for q
      using p Cons.prems(3) by (auto simp: marks_def)
    have keep: "?mu ! m = mu ! m" using p(1) Cons.prems(3) by (simp add: nth_list_update)
    note IH = Cons.IH [OF _ _ Cons.prems(3) _ _ run]
    have IH: "length mu' = limit + 1" "length composite' = limit + 1"
      "\<And>k. k \<le> limit \<Longrightarrow> composite' ! k \<longleftrightarrow> ?c ! k \<or> (\<exists>q. marks limit m ps k q)"
      "\<And>k q. k \<le> limit \<Longrightarrow> marks limit m ps k q \<Longrightarrow> mu' ! k = (if q dvd m then 0 else - (mu ! m))"
      "\<And>k. k \<le> limit \<Longrightarrow> \<nexists>q. marks limit m ps k q \<Longrightarrow> mu' ! k = ?mu ! k"
      using IH Cons.prems unfolding keep by simp_all
    have at: "mu' ! (m * p) = - (mu ! m)" using IH(5) [of "m * p"] other on(1) Cons.prems(4) by simp
    show ?thesis
    proof (intro conjI allI impI)
      fix k assume k: "k \<le> limit"
      show "composite' ! k \<longleftrightarrow> composite ! k \<or> (\<exists>q. marks limit m (p # ps) k q)"
        using IH(3) [OF k] here k Cons.prems(5) on(1) by (auto simp: nth_list_update)
      show "mu' ! k = (if q dvd m then 0 else - (mu ! m))" if "marks limit m (p # ps) k q" for q
        using that at on(2) IH(4) [OF k] here by auto
      show "mu' ! k = mu ! k" if "\<nexists>q. marks limit m (p # ps) k q"
        using that IH(5) [OF k] here k Cons.prems(4) by (auto simp: nth_list_update)
    qed (use IH in simp_all)
  qed
qed

lemma set_primes: "set (filter is_prime [2..<Suc m]) = {p. is_prime p \<and> p \<le> m}"
  using prime_gt_1 by (fastforce simp del: upt_Suc)

lemma marks_lpf:
  assumes "1 < m" "1 < k" "k \<le> limit"
  shows "marks limit m (filter is_prime [2..<Suc m]) k p \<longleftrightarrow> \<not> is_prime k \<and> k div lpf k = m \<and> p = lpf k"
proof
  assume "marks limit m (filter is_prime [2..<Suc m]) k p"
  then have p: "is_prime p" "p \<le> m" "k = m * p" and first: "\<And>q. is_prime q \<Longrightarrow> q \<le> m \<Longrightarrow> q < p \<Longrightarrow> \<not> q dvd m"
    unfolding marks_def set_primes by auto
  have "p \<le> lpf m" using first [of "lpf m"] lpf [OF assms(1)] lpf_le [OF assms(1)] by force
  then have "lpf k = p" using lpf_mult [OF assms(1) p(1)] p(3) by simp
  moreover have "\<not> is_prime k"
  proof
    assume "is_prime k"
    moreover have "m dvd k" using p(3) by simp
    ultimately have "m = k" using assms(1) unfolding is_prime_def by blast
    then show False using p(3) prime_gt_1 [OF p(1)] assms(1) by simp
  qed
  ultimately show "\<not> is_prime k \<and> k div lpf k = m \<and> p = lpf k" using p(3) prime_pos [OF p(1)] by simp
next
  assume a: "\<not> is_prime k \<and> k div lpf k = m \<and> p = lpf k"
  then have c: "m * p = k" "p \<le> lpf m" using composite_lpf [OF assms(2)] by auto
  have p: "is_prime p" using a lpf(1) [OF assms(2)] by simp
  have "\<not> q dvd m" if "is_prime q" "q < p" for q using lpf(3) [OF assms(1) that(1)] c(2) that(2) by auto
  moreover have "p \<le> m" using c(2) lpf_le [OF assms(1)] by simp
  ultimately show "marks limit m (filter is_prime [2..<Suc m]) k p"
    using p c(1) assms(3) unfolding marks_def set_primes by blast
qed

definition linear_invariant :: "nat \<Rightarrow> nat \<Rightarrow> int list \<times> bool list \<times> nat list \<Rightarrow> bool" where
  "linear_invariant limit m state \<longleftrightarrow> (case state of (mu, composite, primes) \<Rightarrow>
     length mu = limit + 1 \<and> length composite = limit + 1 \<and> primes = filter is_prime [2..<m] \<and>
     (\<forall>k \<le> limit. (composite ! k \<longleftrightarrow> 1 < k \<and> \<not> is_prime k \<and> k div lpf k < m) \<and>
        mu ! k = (if k < m \<or> composite ! k then moebius k else 0)))"

lemma linear_step_invariant:
  assumes inv: "linear_invariant limit m (mu, composite, primes)" and m: "1 < m" "m \<le> limit"
  shows "linear_invariant limit (Suc m) (linear_step limit (mu, composite, primes) m)"
proof -
  from inv have len: "length mu = limit + 1" "length composite = limit + 1" and ps: "primes = filter is_prime [2..<m]"
    and comp: "\<And>k. k \<le> limit \<Longrightarrow> composite ! k \<longleftrightarrow> 1 < k \<and> \<not> is_prime k \<and> k div lpf k < m"
    and mu: "\<And>k. k \<le> limit \<Longrightarrow> mu ! k = (if k < m \<or> composite ! k then moebius k else 0)"
    by (auto simp: linear_invariant_def)
  let ?ps = "filter is_prime [2..<Suc m]" and ?mu = "if composite ! m then mu else mu[m := - 1]"
  have at_m: "composite ! m \<longleftrightarrow> \<not> is_prime m" using comp [OF m(2)] composite_lpf(2) [OF m(1)] m(1) by auto
  have start: "(if composite ! m then (mu, primes) else (mu[m := - 1], primes @ [m])) = (?mu, ?ps)"
    using at_m ps m(1) by simp
  obtain mu' composite' where run: "mark_products limit m (?mu, composite) ?ps = (mu', composite')" by fastforce
  have step: "linear_step limit (mu, composite, primes) m = (mu', composite', ?ps)"
    unfolding linear_step_def Let_def prod.case start run by (simp add: run del: upt_Suc)
  have "sorted_wrt (<) ?ps" by (intro sorted_wrt_filter) (simp del: upt_Suc)
  moreover have "\<forall>p \<in> set ?ps. 1 < p" by auto
  ultimately have res: "length mu' = limit + 1" "length composite' = limit + 1"
    "\<And>k. k \<le> limit \<Longrightarrow> composite' ! k \<longleftrightarrow> composite ! k \<or> (\<exists>p. marks limit m ?ps k p)"
    "\<And>k p. k \<le> limit \<Longrightarrow> marks limit m ?ps k p \<Longrightarrow> mu' ! k = (if p dvd m then 0 else - (?mu ! m))"
    "\<And>k. k \<le> limit \<Longrightarrow> \<nexists>p. marks limit m ?ps k p \<Longrightarrow> mu' ! k = ?mu ! k"
    using mark_products [of ?ps m ?mu limit composite mu' composite'] run len m(1) by auto
  have at: "?mu ! m = moebius m" using mu [OF m(2)] at_m len(1) m(2) by (auto simp: moebius_prime)
  have small: "\<not> marks limit m ?ps k p" if "k \<le> 1" for k p
  proof
    assume "marks limit m ?ps k p"
    then have "is_prime p" "k = m * p" unfolding marks_def set_primes by auto
    with that m(1) one_less_mult [of p m] prime_gt_1 show False by simp
  qed
  have "(composite' ! k \<longleftrightarrow> 1 < k \<and> \<not> is_prime k \<and> k div lpf k < Suc m) \<and>
      mu' ! k = (if k < Suc m \<or> composite' ! k then moebius k else 0)" if k: "k \<le> limit" for k
  proof (cases "1 < k \<and> \<not> is_prime k \<and> k div lpf k = m")
    case True
    then have mk: "marks limit m ?ps k (lpf k)" using marks_lpf [OF m(1) _ k] by blast
    have "k = m * lpf k" "is_prime (lpf k)" using True composite_lpf(3) [of k] lpf(1) [of k] by auto
    then have "moebius k = (if lpf k dvd m then 0 else - moebius m)"
      using moebius_mult_old moebius_mult_new m(1) by (metis less_imp_le_nat not_one_le_zero neq0_conv)
    with mk res(3,4) [OF k] at True show ?thesis by auto
  next
    case False
    then have none: "\<nexists>p. marks limit m ?ps k p" using marks_lpf [OF m(1) _ k] small by (metis not_le)
    have "composite' ! k \<longleftrightarrow> composite ! k" "mu' ! k = ?mu ! k" using res(3,5) [OF k] none by simp_all
    moreover have "?mu ! k = (if k = m then moebius m else mu ! k)" using at by (auto simp: nth_list_update_neq)
    ultimately show ?thesis using False comp [OF k] mu [OF k] at_m m by (auto simp: less_Suc_eq)
  qed
  with res(1,2) show ?thesis unfolding step by (simp add: linear_invariant_def del: upt_Suc)
qed

lemma mobius_linear_eq:
  "mobius_linear limit = (if limit < 0 then Inl ValueError else Inr (map moebius [0..<nat limit + 1]))"
proof (cases "1 \<le> limit")
  case False
  then show ?thesis by (auto simp: mobius_linear_def require_min_def)
next
  case True
  define n where "n = nat limit"
  let ?init = "((replicate (n + 1) 0)[1 := 1], replicate (n + 1) False, [])"
  have "linear_invariant n m (foldl (linear_step n) ?init [2..<m])" if "2 \<le> m" "m \<le> n + 1" for m
    using that
  proof (induction m rule: nat_induct_at_least)
    case base
    have "\<not> (1 < k \<and> \<not> is_prime k \<and> k div lpf k < 2)" for k using composite_lpf(1) [of k] by auto
    moreover have "(replicate (n + 1) 0)[1 := 1] ! k = (if k < 2 then moebius k else 0)" if "k \<le> n" for k
      using that base True by (cases k) (auto simp: nth_list_update n_def less_2_cases_iff)
    ultimately show ?case by (simp add: linear_invariant_def del: replicate_Suc)
  next
    case (Suc m)
    obtain mu composite primes where s: "foldl (linear_step n) ?init [2..<m] = (mu, composite, primes)"
      by (cases "foldl (linear_step n) ?init [2..<m]") auto
    have "foldl (linear_step n) ?init [2..<Suc m] = linear_step n (mu, composite, primes) m"
      using Suc.hyps s by simp
    with Suc s linear_step_invariant [of n m mu composite primes] show ?case by simp
  qed
  from this [of "n + 1"] have inv: "linear_invariant n (n + 1) (foldl (linear_step n) ?init [2..<n + 1])"
    using True by (simp add: n_def)
  obtain mu composite primes where s: "foldl (linear_step n) ?init [2..<n + 1] = (mu, composite, primes)"
    by (cases "foldl (linear_step n) ?init [2..<n + 1]") auto
  have "mu = map moebius [0..<n + 1]"
    using inv s by (intro nth_equalityI) (auto simp: linear_invariant_def simp del: upt_Suc)
  with True s show ?thesis
    by (simp add: mobius_linear_def require_min_def n_def [symmetric] del: replicate_Suc upt_Suc)
qed

section \<open>The segmented sieve\<close>

lemma strip_prime:
  assumes "1 < p" "0 < r"
  shows "\<exists>e. r = strip_prime p r * p ^ e" "\<not> p dvd strip_prime p r"
proof -
  have "(\<exists>e. r = strip_prime p r * p ^ e) \<and> \<not> p dvd strip_prime p r"
    using assms
  proof (induction p r rule: strip_prime.induct)
    case (1 p r)
    show ?case
    proof (cases "p dvd r")
      case True
      then have pos: "0 < r div p" using 1(2,3) by (simp add: div_greater_zero_iff dvd_imp_le)
      have step: "strip_prime p r = strip_prime p (r div p)"
        using True 1(2,3) by (simp add: strip_prime.simps [of p r] dvd_eq_mod_eq_0)
      obtain e where e: "r div p = strip_prime p (r div p) * p ^ e" and last: "\<not> p dvd strip_prime p (r div p)"
        using 1 True pos by (auto simp: dvd_eq_mod_eq_0)
      have "r = strip_prime p (r div p) * p ^ Suc e" using True e by (metis dvd_div_mult_self mult.assoc power_Suc2)
      with step last show ?thesis by metis
    next
      case False
      then have "strip_prime p r = r" by (simp add: strip_prime.simps [of p r] dvd_eq_mod_eq_0)
      with False show ?thesis by (metis mult_1_right power_0)
    qed
  qed
  then show "\<exists>e. r = strip_prime p r * p ^ e" "\<not> p dvd strip_prime p r" by simp_all
qed

text \<open>What one prime does to one number's slot.\<close>

definition slot_step :: "nat \<Rightarrow> nat \<times> int \<Rightarrow> nat \<times> int" where
  "slot_step p s = (let r = fst s div p in if r mod p = 0 then (strip_prime p r, 0) else (r, - snd s))"

lemma segment_mark_nth:
  assumes "length rem = n" "length vals = n" "i < n"
  shows "segment_mark a p (rem, vals) (a + i) =
    (rem[i := fst (slot_step p (rem ! i, vals ! i))], vals[i := snd (slot_step p (rem ! i, vals ! i))])"
  using assms by (auto simp: segment_mark_def slot_step_def Let_def intro: list_update_id [symmetric] elim: subst)

lemma segment_marks:
  assumes "distinct is" "\<forall>i \<in> set is. i < n" "length rem = n" "length vals = n"
  shows "\<exists>rem' vals'. foldl (segment_mark a p) (rem, vals) (map ((+) a) is) = (rem', vals') \<and> length rem' = n \<and> length vals' = n \<and>
    (\<forall>i < n. (rem' ! i, vals' ! i) = (if i \<in> set is then slot_step p (rem ! i, vals ! i) else (rem ! i, vals ! i)))"
  using assms
proof (induction "is" arbitrary: rem vals)
  case (Cons j js)
  let ?rem = "rem[j := fst (slot_step p (rem ! j, vals ! j))]" and ?vals = "vals[j := snd (slot_step p (rem ! j, vals ! j))]"
  have run: "foldl (segment_mark a p) (rem, vals) (map ((+) a) (j # js)) = foldl (segment_mark a p) (?rem, ?vals) (map ((+) a) js)"
    using segment_mark_nth [of rem n vals j a p] Cons.prems by simp
  obtain rem' vals' where IH: "foldl (segment_mark a p) (?rem, ?vals) (map ((+) a) js) = (rem', vals')"
    "length rem' = n" "length vals' = n"
    "\<And>i. i < n \<Longrightarrow> (rem' ! i, vals' ! i) = (if i \<in> set js then slot_step p (?rem ! i, ?vals ! i) else (?rem ! i, ?vals ! i))"
    using Cons.IH [of ?rem ?vals] Cons.prems by auto
  have "(rem' ! i, vals' ! i) = (if i \<in> set (j # js) then slot_step p (rem ! i, vals ! i) else (rem ! i, vals ! i))" if "i < n" for i
    using IH(4) [OF that] Cons.prems that by (cases "i = j") auto
  with run IH(1-3) show ?case by auto
qed simp

lemma range_count: "0 < (p :: nat) \<Longrightarrow> i < (x + p - 1) div p \<longleftrightarrow> i * p < x"
  using less_eq_div_iff_mult_less_eq [of p "Suc i" "x + p - 1"] by auto

lemma first_multiple:
  assumes "0 < (p :: nat)"
  shows "a \<le> (a + p - 1) div p * p" "p dvd n \<Longrightarrow> a \<le> n \<Longrightarrow> (a + p - 1) div p * p \<le> n"
proof -
  have "a + p - 1 < ((a + p - 1) div p + 1) * p" using assms dividend_less_times_div [of p "a + p - 1"] by (simp add: algebra_simps)
  then show "a \<le> (a + p - 1) div p * p" using assms by (simp add: algebra_simps)
  assume "p dvd n" "a \<le> n"
  then obtain q where q: "n = q * p" by (metis dvd_div_mult_self)
  have "\<not> q < (a + p - 1) div p" using range_count [OF assms, of q a] \<open>a \<le> n\<close> q by simp
  then show "(a + p - 1) div p * p \<le> n" unfolding q by (intro mult_le_mono) simp_all
qed

lemma set_py_range:
  assumes "0 < p"
  shows "set (py_range ((a + p - 1) div p * p) b p) = {n. a \<le> n \<and> n < b \<and> p dvd n}" (is "set (py_range ?f b p) = ?S")
proof (rule set_eqI)
  fix n
  have "n \<in> set (py_range ?f b p) \<longleftrightarrow> (\<exists>i. i * p < b - ?f \<and> n = ?f + i * p)"
    unfolding py_range_def set_map set_upt image_iff Bex_def atLeastLessThan_iff range_count [OF assms] by auto
  also have "\<dots> \<longleftrightarrow> ?f \<le> n \<and> n < b \<and> p dvd n"
  proof
    assume r: "?f \<le> n \<and> n < b \<and> p dvd n"
    then have "p dvd n - ?f" by simp
    then have "n = ?f + (n - ?f) div p * p" "(n - ?f) div p * p < b - ?f" using r by auto
    then show "\<exists>i. i * p < b - ?f \<and> n = ?f + i * p" by blast
  qed auto
  also have "\<dots> \<longleftrightarrow> n \<in> ?S" using first_multiple [OF assms, of a] first_multiple(2) [OF assms, of n a] by auto
  finally show "n \<in> set (py_range ?f b p) \<longleftrightarrow> n \<in> ?S" .
qed

lemma distinct_py_range: "0 < p \<Longrightarrow> distinct (py_range f b p)"
  by (auto simp: py_range_def distinct_map inj_on_def)

lemma segment_prime_nth:
  assumes "1 < p" "length rem = b - a" "length vals = b - a"
  shows "\<exists>rem' vals'. segment_prime a b (rem, vals) p = (rem', vals') \<and> length rem' = b - a \<and> length vals' = b - a \<and>
    (\<forall>i < b - a. (rem' ! i, vals' ! i) = (if p dvd a + i then slot_step p (rem ! i, vals ! i) else (rem ! i, vals ! i)))"
proof -
  let ?r = "py_range ((a + p - 1) div p * p) b p"
  let ?is = "map (\<lambda>n. n - a) ?r"
  have p: "0 < p" using assms(1) by simp
  have r: "a \<le> n" "n < b" if "n \<in> set ?r" for n using that set_py_range [OF p, of a b] by auto
  have shift: "map ((+) a) ?is = ?r" using r(1) by (simp add: map_idI)
  have "distinct ?is" using distinct_py_range [OF p] r(1) by (simp add: distinct_map inj_on_diff_nat)
  moreover have "\<forall>i \<in> set ?is. i < b - a" using r by (auto intro: diff_less_mono)
  moreover have "i \<in> set ?is \<longleftrightarrow> p dvd a + i" if "i < b - a" for i
  proof -
    have "i \<in> set ?is \<longleftrightarrow> a + i \<in> set (map ((+) a) ?is)" unfolding set_map by auto
    then show ?thesis unfolding shift set_py_range [OF p] using that by auto
  qed
  ultimately show ?thesis
    using segment_marks [of ?is "b - a" rem vals a p] assms(2,3) unfolding shift segment_prime_def by simp
qed

text \<open>A slot after the primes of a set: the part of \<open>n\<close> left over, and the sign so far.\<close>

definition slot_ok :: "nat \<Rightarrow> nat set \<Rightarrow> nat \<times> int \<Rightarrow> bool" where
  "slot_ok n P s \<longleftrightarrow> 0 < fst s \<and> fst s dvd n \<and> (\<forall>p \<in> P. \<not> p dvd fst s) \<and>
     (\<forall>q. is_prime q \<longrightarrow> q \<notin> P \<longrightarrow> (q dvd fst s \<longleftrightarrow> q dvd n) \<and> (q * q dvd fst s \<longleftrightarrow> q * q dvd n)) \<and>
     snd s = (if \<exists>p \<in> P. p * p dvd n then 0 else (- 1) ^ card {p \<in> P. p dvd n})"

lemma prime_dvd_power_mult:
  assumes "is_prime p" "is_prime q" "q \<noteq> p"
  shows "q dvd r * p ^ e \<longleftrightarrow> q dvd r" "q * q dvd r * p ^ e \<longleftrightarrow> q * q dvd r"
proof -
  have "coprime q p" using assms prime_coprime prime_dvd_prime by blast
  then have "coprime q (p ^ e)" "coprime (q * q) (p ^ e)" by simp_all
  then show "q dvd r * p ^ e \<longleftrightarrow> q dvd r" "q * q dvd r * p ^ e \<longleftrightarrow> q * q dvd r"
    by (simp_all add: coprime_dvd_mult_left_iff)
qed

lemma slot_step_ok:
  assumes ok: "slot_ok n P s" and P: "finite P" "\<forall>q \<in> P. is_prime q" and p: "is_prime p" "p \<notin> P" "p dvd n"
  shows "slot_ok n (insert p P) (slot_step p s)"
proof -
  define r where "r = fst s"
  have r: "0 < r" "r dvd n" "\<And>q. q \<in> P \<Longrightarrow> \<not> q dvd r"
    and out: "\<And>q. is_prime q \<Longrightarrow> q \<notin> P \<Longrightarrow> (q dvd r \<longleftrightarrow> q dvd n) \<and> (q * q dvd r \<longleftrightarrow> q * q dvd n)"
    and sgn: "snd s = (if \<exists>q \<in> P. q * q dvd n then 0 else (- 1) ^ card {q \<in> P. q dvd n})"
    using ok by (auto simp: slot_ok_def r_def)
  have p1: "1 < p" using prime_gt_1 [OF p(1)] .
  have pr: "r = r div p * p" "0 < r div p" using out [OF p(1,2)] p(3) r(1) p1 by (simp_all add: div_greater_zero_iff dvd_imp_le)
  have square: "r div p mod p = 0 \<longleftrightarrow> p * p dvd n"
  proof -
    have "p dvd r div p \<longleftrightarrow> p * p dvd r div p * p" using p1 by simp
    with pr(1) out [OF p(1,2)] show ?thesis by (simp add: dvd_eq_mod_eq_0)
  qed
  obtain r' e where r': "fst (slot_step p s) = r'" "r = r' * p ^ e" "\<not> p dvd r'"
  proof (cases "r div p mod p = 0")
    case True
    obtain e where "r div p = strip_prime p (r div p) * p ^ e" using strip_prime(1) [OF p1 pr(2)] by blast
    then have "r = strip_prime p (r div p) * p ^ Suc e" using pr(1) by (metis mult.assoc power_Suc2)
    then show thesis using that [of "strip_prime p (r div p)" "Suc e"] strip_prime(2) [OF p1 pr(2)] True
      by (simp add: slot_step_def Let_def r_def)
  next
    case False
    then show thesis using that [of "r div p" 1] pr(1) by (simp add: slot_step_def Let_def r_def [symmetric] dvd_eq_mod_eq_0)
  qed
  have dvd: "r' dvd r" using r'(2) by simp
  have sgn': "snd (slot_step p s) = (if p * p dvd n then 0 else - snd s)"
    using square by (simp add: slot_step_def Let_def r_def)
  have "{q \<in> insert p P. q dvd n} = insert p {q \<in> P. q dvd n}" using p(3) by auto
  then have "card {q \<in> insert p P. q dvd n} = Suc (card {q \<in> P. q dvd n})" using P(1) p(2) by simp
  then have val: "snd (slot_step p s) = (if \<exists>q \<in> insert p P. q * q dvd n then 0 else (- 1) ^ card {q \<in> insert p P. q dvd n})"
    unfolding sgn' sgn by auto
  have outside: "(q dvd r' \<longleftrightarrow> q dvd n) \<and> (q * q dvd r' \<longleftrightarrow> q * q dvd n)" if "is_prime q" "q \<notin> insert p P" for q
    using out [of q] that prime_dvd_power_mult [OF p(1), of q r' e] r'(2) by simp
  have inside: "\<not> q dvd r'" if "q \<in> insert p P" for q
    using that r'(3) r(3) dvd dvd_trans by blast
  have "0 < r'" using r(1) r'(2) by (cases r') auto
  moreover have "r' dvd n" using dvd r(2) by (rule dvd_trans)
  ultimately show ?thesis unfolding slot_ok_def r'(1) using val outside inside by blast
qed

lemma slot_skip_ok:
  assumes "slot_ok n P s" "is_prime p" "\<not> p dvd n"
  shows "slot_ok n (insert p P) s"
proof -
  have "{q. (q = p \<or> q \<in> P) \<and> q dvd n} = {q \<in> P. q dvd n}" "\<not> p * p dvd n" "\<not> p dvd fst s"
    using assms dvd_mult_left [of p p n] by (auto simp: slot_ok_def dest: dvd_trans)
  with assms(1) show ?thesis by (auto simp: slot_ok_def)
qed

text \<open>Once all primes up to the square root are gone, what is left over is one or a prime.\<close>

lemma slot_final:
  assumes ok: "slot_ok n {p. is_prime p \<and> p \<le> b} (r, v)" and n: "0 < n" "n < (b + 1) * (b + 1)"
  shows "(if r > 1 \<and> v \<noteq> 0 then - v else v) = moebius n"
proof -
  let ?P = "{p. is_prime p \<and> p \<le> b}"
  have r: "0 < r" "r dvd n" "\<And>q. q \<in> ?P \<Longrightarrow> \<not> q dvd r"
    and out: "\<And>q. is_prime q \<Longrightarrow> q \<notin> ?P \<Longrightarrow> (q dvd r \<longleftrightarrow> q dvd n) \<and> (q * q dvd r \<longleftrightarrow> q * q dvd n)"
    and v: "v = (if \<exists>q \<in> ?P. q * q dvd n then 0 else (- 1) ^ card {q \<in> ?P. q dvd n})"
    using ok by (auto simp: slot_ok_def)
  have "r \<le> n" using r(2) n(1) by (rule dvd_imp_le)
  have big: "b < q" if "is_prime q" "q dvd r" for q using r(3) [of q] that by (auto simp: not_le [symmetric])
  have only: "r = 1 \<or> is_prime r"
  proof (rule ccontr)
    assume "\<not> (r = 1 \<or> is_prime r)"
    then have c: "1 < r" "\<not> is_prime r" using r(1) by auto
    have "(b + 1) * (b + 1) \<le> lpf r * lpf r" using big lpf(1,2) [OF c(1)] by (intro mult_le_mono) (simp_all add: Suc_le_eq)
    with composite_lpf(5) [OF c] \<open>r \<le> n\<close> n(2) show False by simp
  qed
  have no_square: "\<not> q * q dvd n" if "is_prime q" "q \<notin> ?P" for q
  proof
    assume "q * q dvd n"
    then have "q * q \<le> n" using n(1) by (rule dvd_imp_le)
    moreover have "(b + 1) * (b + 1) \<le> q * q" using that by (intro mult_le_mono) (simp_all add: not_le Suc_le_eq)
    ultimately show False using n(2) by simp
  qed
  have all: "{q. is_prime q \<and> q dvd n} = {q \<in> ?P. q dvd n} \<union> {q. is_prime q \<and> q dvd r}"
    using out r(2) by (auto dest: dvd_trans)
  have square: "squarefree_nat n \<longleftrightarrow> \<not> (\<exists>q \<in> ?P. q * q dvd n)" using no_square by (auto simp: squarefree_nat_def)
  have "finite {q \<in> ?P. q dvd n}" by simp
  moreover have "{q \<in> ?P. q dvd n} \<inter> {q. is_prime q \<and> q dvd r} = {}" using r(3) by auto
  moreover have "{q. is_prime q \<and> q dvd r} = (if r = 1 then {} else {r})"
    using only prime_dvd_prime by (auto simp: is_prime_def)
  ultimately have "card {q. is_prime q \<and> q dvd n} = card {q \<in> ?P. q dvd n} + (if r = 1 then 0 else 1)"
    unfolding all by (simp add: card_Un_disjoint)
  with v square n(1) r(1) show ?thesis by (auto simp: moebius_def)
qed

lemma segment_fold:
  assumes "distinct ps" "\<forall>p \<in> set ps. is_prime p"
  shows "\<exists>rem vals. foldl (segment_prime a b) ([a..<b], replicate (b - a) 1) ps = (rem, vals) \<and>
    length rem = b - a \<and> length vals = b - a \<and> (\<forall>i < b - a. 0 < a \<longrightarrow> slot_ok (a + i) (set ps) (rem ! i, vals ! i))"
  using assms
proof (induction ps rule: rev_induct)
  case Nil
  then show ?case by (simp add: slot_ok_def)
next
  case (snoc p ps)
  then obtain rem vals where IH: "foldl (segment_prime a b) ([a..<b], replicate (b - a) 1) ps = (rem, vals)"
    "length rem = b - a" "length vals = b - a" "\<And>i. i < b - a \<Longrightarrow> 0 < a \<Longrightarrow> slot_ok (a + i) (set ps) (rem ! i, vals ! i)"
    by auto
  have p: "is_prime p" "p \<notin> set ps" using snoc.prems by auto
  obtain rem' vals' where step: "segment_prime a b (rem, vals) p = (rem', vals')" "length rem' = b - a" "length vals' = b - a"
    "\<And>i. i < b - a \<Longrightarrow> (rem' ! i, vals' ! i) = (if p dvd a + i then slot_step p (rem ! i, vals ! i) else (rem ! i, vals ! i))"
    using segment_prime_nth [OF prime_gt_1 [OF p(1)] IH(2,3)] by blast
  have "slot_ok (a + i) (insert p (set ps)) (rem' ! i, vals' ! i)" if "i < b - a" "0 < a" for i
    using slot_step_ok [OF IH(4) [OF that] _ _ p] slot_skip_ok [OF IH(4) [OF that] p(1)] snoc.prems(2) step(4) [OF that(1)] by simp
  then show ?case using IH(1) step(1-3) by simp
qed

lemma mobius_segment_eq:
  "mobius_segment start stop =
     (if start < 1 \<or> stop < start then Inl ValueError else Inr (map moebius [nat start..<nat stop]))"
proof (cases "1 \<le> start \<and> start < stop")
  case False
  then show ?thesis by (auto simp: mobius_segment_def require_min_def)
next
  case True
  define a b q where "a = nat start" and "b = nat stop" and "q = isqrt (b - 1)"
  let ?ps = "filter is_prime [2..<q + 1]"
  have ps: "set ?ps = {p. is_prime p \<and> p \<le> q}" using set_primes [of q] by simp
  have "distinct ?ps" "\<forall>p \<in> set ?ps. is_prime p" by simp_all
  from segment_fold [OF this] obtain rem vals where run: "foldl (segment_prime a b) ([a..<b], replicate (b - a) 1) ?ps = (rem, vals)"
    "length rem = b - a" "length vals = b - a" and slots: "\<forall>i < b - a. 0 < a \<longrightarrow> slot_ok (a + i) (set ?ps) (rem ! i, vals ! i)"
    by blast
  have slot: "slot_ok (a + i) {p. is_prime p \<and> p \<le> q} (rem ! i, vals ! i)" if "i < b - a" for i
    using slots that True unfolding ps by (simp add: a_def)
  have "segment_final (rem, vals) = map moebius [a..<b]"
  proof (rule nth_equalityI)
    fix i assume "i < length (segment_final (rem, vals))"
    then have i: "i < b - a" using run(2,3) by (simp add: segment_final_def)
    have "a + i < (q + 1) * (q + 1)" using isqrt_bounds [of "b - 1"] i unfolding q_def by linarith
    moreover have "0 < a + i" using True by (simp add: a_def)
    ultimately have "(if rem ! i > 1 \<and> vals ! i \<noteq> 0 then - (vals ! i) else vals ! i) = moebius (a + i)"
      by (intro slot_final [OF slot [OF i]])
    with i run(2,3) show "segment_final (rem, vals) ! i = map moebius [a..<b] ! i" by (simp add: segment_final_def)
  qed (use run in \<open>simp add: segment_final_def\<close>)
  moreover have "isqrt (nat (stop - 1)) = q" using True by (simp add: b_def q_def nat_diff_distrib)
  ultimately show ?thesis using True run(1)
    by (simp add: mobius_segment_def require_min_def primes_through_eq a_def [symmetric] b_def [symmetric] Let_def del: upt_Suc)
qed

end
