(* ===== verification/ArithScans_Sound.thy ===== *)
theory ArithScans_Sound
  imports PiBounds Sieve_Correct
begin

text \<open>
  What the scans establish: their loops in closed form, once for all scans that carry a sum and track
  the smallest slack and the first failure, and the meaning of the exact slacks over the reals.
\<close>

section \<open>Loops whose body may raise\<close>

lemma fold_res_append: "fold_res f s (xs @ ys) = ebind (fold_res f s xs) (\<lambda>s. fold_res f s ys)"
  by (induction xs arbitrary: s) (simp_all add: ebind_assoc)

lemma fold_res_snoc: "fold_res f s (xs @ [x]) = ebind (fold_res f s xs) (\<lambda>s. f s x)"
  by (simp add: fold_res_append)

section \<open>A scan over a range\<close>

definition scan_minimum :: "'b::linorder \<Rightarrow> 'k \<Rightarrow> ('b \<times> 'k) option \<Rightarrow> ('b \<times> 'k) option" where
  "scan_minimum slack key minimum = (case minimum of None \<Rightarrow> Some (slack, key)
     | Some (m, k) \<Rightarrow> if slack < m then Some (slack, key) else Some (m, k))"

locale range_scan =
  fixes step :: "'s \<times> ('b::linordered_idom \<times> 'k) option \<times> nat option \<Rightarrow> nat \<Rightarrow> ('s \<times> ('b \<times> 'k) option \<times> nat option) res"
    and total :: "nat \<Rightarrow> 's" and slack :: "nat \<Rightarrow> 'b" and key :: "nat \<Rightarrow> 'k" and lower upper :: nat
  assumes step: "1 \<le> n \<Longrightarrow> n \<le> upper \<Longrightarrow> step (total (n - 1), minimum, failure) n = Inr (total n,
    if n < lower then minimum else scan_minimum (slack n) (key n) minimum,
    if \<not> n < lower \<and> slack n < 0 \<and> failure = None then Some n else failure)"
    and lower: "1 \<le> lower"
begin

lemma scan_loop:
  assumes "m \<le> upper"
  shows "\<exists>minimum failure. fold_res step (total 0, None, None) [1..<Suc m] = Inr (total m, minimum, failure) \<and>
    (case minimum of None \<Rightarrow> m < lower
     | Some (v, k) \<Rightarrow> \<exists>n \<in> {lower..m}. v = slack n \<and> k = key n \<and> (\<forall>j \<in> {lower..m}. v \<le> slack j)) \<and>
    (case failure of None \<Rightarrow> \<forall>j \<in> {lower..m}. 0 \<le> slack j
     | Some n \<Rightarrow> n \<in> {lower..m} \<and> slack n < 0 \<and> (\<forall>j \<in> {lower..<n}. 0 \<le> slack j))"
  using assms
proof (induction m)
  case 0
  show ?case using lower by simp
next
  case (Suc m)
  then obtain minimum failure where run: "fold_res step (total 0, None, None) [1..<Suc m] = Inr (total m, minimum, failure)"
    and least: "case minimum of None \<Rightarrow> m < lower
      | Some (v, k) \<Rightarrow> \<exists>n \<in> {lower..m}. v = slack n \<and> k = key n \<and> (\<forall>j \<in> {lower..m}. v \<le> slack j)"
    and first: "case failure of None \<Rightarrow> \<forall>j \<in> {lower..m}. 0 \<le> slack j
      | Some n \<Rightarrow> n \<in> {lower..m} \<and> slack n < 0 \<and> (\<forall>j \<in> {lower..<n}. 0 \<le> slack j)"
    by auto
  let ?m = "if Suc m < lower then minimum else scan_minimum (slack (Suc m)) (key (Suc m)) minimum"
  let ?f = "if \<not> Suc m < lower \<and> slack (Suc m) < 0 \<and> failure = None then Some (Suc m) else failure"
  have "[1..<Suc (Suc m)] = [1..<Suc m] @ [Suc m]" by simp
  then have "fold_res step (total 0, None, None) [1..<Suc (Suc m)] = Inr (total (Suc m), ?m, ?f)"
    using run step [of "Suc m" minimum failure] Suc.prems by (simp only: fold_res_snoc) simp
  moreover have "case ?m of None \<Rightarrow> Suc m < lower
      | Some (v, k) \<Rightarrow> \<exists>n \<in> {lower..Suc m}. v = slack n \<and> k = key n \<and> (\<forall>j \<in> {lower..Suc m}. v \<le> slack j)"
    using least by (auto simp: scan_minimum_def atLeastAtMostSuc_conv not_less split: option.splits)
  moreover have "case ?f of None \<Rightarrow> \<forall>j \<in> {lower..Suc m}. 0 \<le> slack j
      | Some n \<Rightarrow> n \<in> {lower..Suc m} \<and> slack n < 0 \<and> (\<forall>j \<in> {lower..<n}. 0 \<le> slack j)"
    using first by (auto simp: atLeastAtMostSuc_conv le_Suc_eq not_less atLeastLessThanSuc_atLeastAtMost split: option.splits)
  ultimately show ?case by blast
qed

end

section \<open>Tables\<close>

lemma validate_mu_table_Inr:
  "validate_mu_table mu through = Inr u \<longleftrightarrow>
     0 \<le> through \<and> through < int (length mu) \<and> mu ! 0 = 0 \<and> (\<forall>i \<in> {1..nat through}. mu ! i \<in> {-1, 0, 1})"
  by (auto simp: validate_mu_table_def require_min_def list_all_iff res_simps split: if_splits)

lemma require_span_Inr:
  "require_span lower upper = Inr (l, u) \<longleftrightarrow> 1 \<le> lower \<and> lower \<le> upper \<and> l = nat lower \<and> u = nat upper"
  by (auto simp: require_span_def require_min_def res_simps)

lemma abs_le_sqrt_iff:
  fixes a c x :: real
  assumes "0 \<le> c" "0 \<le> x"
  shows "\<bar>a\<bar> \<le> c * sqrt x \<longleftrightarrow> a * a \<le> c * c * x"
proof -
  have "\<bar>a\<bar> \<le> \<bar>c * sqrt x\<bar> \<longleftrightarrow> a\<^sup>2 \<le> (c * sqrt x)\<^sup>2" by (rule abs_le_square_iff)
  moreover have "(c * sqrt x)\<^sup>2 = c\<^sup>2 * x" using assms by (simp add: power_mult_distrib)
  moreover have "\<bar>c * sqrt x\<bar> = c * sqrt x" using assms by simp
  ultimately have "\<bar>a\<bar> \<le> c * sqrt x \<longleftrightarrow> a\<^sup>2 \<le> c\<^sup>2 * x" by (simp only:)
  then show ?thesis by (simp only: power2_eq_square)
qed

section \<open>Hurst's bound\<close>

definition table_sum :: "int list \<Rightarrow> nat \<Rightarrow> int" where
  "table_sum mu n = (\<Sum>k = 1..n. mu ! k)"

lemma hurst_meaning: "0 \<le> hurst_slack (int n) m \<longleftrightarrow> \<bar>real_of_int m\<bar> \<le> 571 / 1000 * sqrt (real n)"
proof -
  have "0 \<le> hurst_slack (int n) m \<longleftrightarrow> 1000 * 1000 * m * m \<le> 571 * 571 * int n"
    by (simp add: hurst_slack_def HURST_NUMERATOR_def HURST_DENOMINATOR_def)
  also have "\<dots> \<longleftrightarrow> real_of_int (1000 * 1000 * m * m) \<le> real_of_int (571 * 571 * int n)" by (simp only: of_int_le_iff)
  also have "\<dots> \<longleftrightarrow> real_of_int m * real_of_int m \<le> 571 / 1000 * (571 / 1000) * real n" by (simp add: algebra_simps)
  also have "\<dots> \<longleftrightarrow> \<bar>real_of_int m\<bar> \<le> 571 / 1000 * sqrt (real n)" by (rule abs_le_sqrt_iff [symmetric]) simp_all
  finally show ?thesis .
qed

interpretation hurst: range_scan "hurst_step mu (Suc l)" "table_sum mu" "\<lambda>n. hurst_slack (int n) (table_sum mu n)" "\<lambda>n. n" "Suc l" u
  for mu l u
proof
  fix n :: nat and minimum :: "(int \<times> nat) option" and failure
  assume "1 \<le> n" "n \<le> u"
  then have "table_sum mu (n - 1) + mu ! n = table_sum mu n" by (cases n) (simp_all add: table_sum_def)
  then show "hurst_step mu (Suc l) (table_sum mu (n - 1), minimum, failure) n = Inr (table_sum mu n,
      if n < Suc l then minimum else scan_minimum (hurst_slack (int n) (table_sum mu n)) n minimum,
      if \<not> n < Suc l \<and> hurst_slack (int n) (table_sum mu n) < 0 \<and> failure = None then Some n else failure)"
    by (auto simp: hurst_step_def hurst_squared_slack_def require_min_def scan_minimum_def Let_def)
qed simp

lemma check_hurst_sample_Inr:
  assumes "1 \<le> lower" "lower \<le> upper" "validate_mu_table mu upper = Inr ()"
  shows "\<exists>r. check_hurst_sample mu lower upper = Inr r \<and> hr_checks r = nat upper - nat lower + 1 \<and>
    hr_final_mertens r = table_sum mu (nat upper) \<and>
    (\<exists>n \<in> {nat lower..nat upper}. hr_minimum_slack_at r = n \<and> hr_minimum_slack r = hurst_slack (int n) (table_sum mu n)) \<and>
    (\<forall>j \<in> {nat lower..nat upper}. hr_minimum_slack r \<le> hurst_slack (int j) (table_sum mu j)) \<and>
    (case hr_first_failure r of None \<Rightarrow> \<forall>j \<in> {nat lower..nat upper}. 0 \<le> hurst_slack (int j) (table_sum mu j)
     | Some n \<Rightarrow> n \<in> {nat lower..nat upper} \<and> hurst_slack (int n) (table_sum mu n) < 0 \<and>
         (\<forall>j \<in> {nat lower..<n}. 0 \<le> hurst_slack (int j) (table_sum mu j)))"
proof -
  define l u where "l = nat lower" and "u = nat upper"
  obtain k where k: "l = Suc k" "l \<le> u" using assms(1,2) by (cases l) (auto simp: l_def u_def)
  obtain minimum failure where run: "fold_res (hurst_step mu l) (0, None, None) [1..<Suc u] = Inr (table_sum mu u, minimum, failure)"
    and least: "case minimum of None \<Rightarrow> u < l
      | Some (v, w) \<Rightarrow> \<exists>n \<in> {l..u}. v = hurst_slack (int n) (table_sum mu n) \<and> w = n \<and>
          (\<forall>j \<in> {l..u}. v \<le> hurst_slack (int j) (table_sum mu j))"
    and first: "case failure of None \<Rightarrow> \<forall>j \<in> {l..u}. 0 \<le> hurst_slack (int j) (table_sum mu j)
      | Some n \<Rightarrow> n \<in> {l..u} \<and> hurst_slack (int n) (table_sum mu n) < 0 \<and> (\<forall>j \<in> {l..<n}. 0 \<le> hurst_slack (int j) (table_sum mu j))"
    using hurst.scan_loop [of u u mu k] k(1) by (auto simp: table_sum_def simp del: upt_Suc)
  obtain v w where m: "minimum = Some (v, w)" using least k(2) by (cases minimum) auto
  have span: "require_span lower upper = Inr (l, u)" using assms(1,2) by (simp add: require_span_Inr l_def u_def)
  let ?r = "\<lparr>hr_lower = l, hr_upper = u, hr_checks = u - l + 1, hr_final_mertens = table_sum mu u,
    hr_minimum_slack = v, hr_minimum_slack_at = w, hr_first_failure = failure\<rparr>"
  have "check_hurst_sample mu lower upper = Inr ?r"
    using assms(3) run m span by (simp add: check_hurst_sample_def del: upt_Suc)
  then show ?thesis using least first m unfolding l_def [symmetric] u_def [symmetric] by (intro exI [of _ ?r]) auto
qed

section \<open>The little-Mertens bounds\<close>

definition table_reciprocals :: "int list \<Rightarrow> nat \<Rightarrow> rat" where
  "table_reciprocals mu n = (\<Sum>k = 1..n. of_int (mu ! k) / of_nat k)"

definition right_end :: "nat \<Rightarrow> nat \<Rightarrow> nat" where
  "right_end upper n = (if n < upper then n + 1 else n)"

interpretation little: range_scan "little_mertens_step mu (Suc l) u bound" "table_reciprocals mu"
  "\<lambda>n. little_mertens_slack (table_reciprocals mu n) (int (right_end u n)) bound" "\<lambda>n. (n, right_end u n)" "Suc l" u
  for mu l u bound
proof
  fix n :: nat and minimum :: "(rat \<times> nat \<times> nat) option" and failure
  assume n: "1 \<le> n" "n \<le> u"
  then have "table_reciprocals mu (n - 1) + of_int (mu ! n) / of_nat n = table_reciprocals mu n"
    by (cases n) (simp_all add: table_reciprocals_def)
  with n(1) show "little_mertens_step mu (Suc l) u bound (table_reciprocals mu (n - 1), minimum, failure) n = Inr (table_reciprocals mu n,
      if n < Suc l then minimum
      else scan_minimum (little_mertens_slack (table_reciprocals mu n) (int (right_end u n)) bound) (n, right_end u n) minimum,
      if \<not> n < Suc l \<and> little_mertens_slack (table_reciprocals mu n) (int (right_end u n)) bound < 0 \<and> failure = None
      then Some n else failure)"
    by (auto simp: little_mertens_step_def little_mertens_interval_slack_def require_min_def scan_minimum_def right_end_def Let_def
      split: option.split)
qed simp

lemma check_little_mertens_sample_Inr:
  assumes "1 \<le> lower" "lower \<le> upper" "validate_mu_table mu upper = Inr ()"
  shows "\<exists>r. check_little_mertens_sample mu lower upper bound = Inr r \<and> lm_slabs_checked r = nat upper - nat lower + 1 \<and>
    lm_final_sum r = table_reciprocals mu (nat upper) \<and>
    (little_mertens_passed r \<longleftrightarrow> (\<forall>n \<in> {nat lower..nat upper}.
       0 \<le> little_mertens_slack (table_reciprocals mu n) (int (right_end (nat upper) n)) bound))"
proof -
  define l u where "l = nat lower" and "u = nat upper"
  let ?slack = "\<lambda>n. little_mertens_slack (table_reciprocals mu n) (int (right_end u n)) bound"
  obtain k where k: "l = Suc k" "l \<le> u" using assms(1,2) by (cases l) (auto simp: l_def u_def)
  obtain minimum failure where run: "fold_res (little_mertens_step mu l u bound) (0, None, None) [1..<Suc u] =
      Inr (table_reciprocals mu u, minimum, failure)"
    and least: "case minimum of None \<Rightarrow> u < l
      | Some (v, w) \<Rightarrow> \<exists>n \<in> {l..u}. v = ?slack n \<and> w = (n, right_end u n) \<and> (\<forall>j \<in> {l..u}. v \<le> ?slack j)"
    and first: "case failure of None \<Rightarrow> \<forall>j \<in> {l..u}. 0 \<le> ?slack j
      | Some n \<Rightarrow> n \<in> {l..u} \<and> ?slack n < 0 \<and> (\<forall>j \<in> {l..<n}. 0 \<le> ?slack j)"
    using little.scan_loop [of u u mu k bound] k(1) by (auto simp: table_reciprocals_def simp del: upt_Suc)
  obtain v f w where m: "minimum = Some (v, f, w)" using least k(2) by (cases minimum) auto
  let ?r = "\<lparr>lm_bound = bound, lm_lower = l, lm_upper = u, lm_slabs_checked = u - l + 1, lm_final_sum = table_reciprocals mu u,
    lm_minimum_slack = v, lm_minimum_slack_floor = f, lm_minimum_slack_right_endpoint = w, lm_first_failure_floor = failure\<rparr>"
  have span: "require_span lower upper = Inr (l, u)" using assms(1,2) by (simp add: require_span_Inr l_def u_def)
  have "check_little_mertens_sample mu lower upper bound = Inr ?r"
    using assms(3) run m span by (simp add: check_little_mertens_sample_def del: upt_Suc)
  moreover have "failure = None \<longleftrightarrow> (\<forall>j \<in> {l..u}. 0 \<le> ?slack j)" using first by (auto simp: not_le split: option.splits)
  ultimately show ?thesis unfolding l_def [symmetric] u_def [symmetric] by (intro exI [of _ ?r]) (simp add: little_mertens_passed_def)
qed

definition little_mertens_limit :: "little_mertens_bound \<Rightarrow> real \<Rightarrow> real" where
  "little_mertens_limit bound x = (case bound of SQRT_TWO_OVER_X \<Rightarrow> sqrt (2 / x) | ONE_OVER_TWO_SQRT_X \<Rightarrow> 1 / (2 * sqrt x))"

definition little_mertens_square :: "little_mertens_bound \<Rightarrow> real" where
  "little_mertens_square bound = (case bound of SQRT_TWO_OVER_X \<Rightarrow> 2 | ONE_OVER_TWO_SQRT_X \<Rightarrow> 1 / 4)"

lemma little_mertens_limit_iff:
  assumes "0 < x"
  shows "\<bar>s\<bar> \<le> little_mertens_limit bound x \<longleftrightarrow> x * (s * s) \<le> little_mertens_square bound"
proof -
  have "little_mertens_limit bound x = sqrt (little_mertens_square bound / x)"
    by (cases bound) (simp_all add: little_mertens_limit_def little_mertens_square_def real_sqrt_divide real_sqrt_mult)
  moreover have "\<bar>s\<bar> \<le> 1 * sqrt (little_mertens_square bound / x) \<longleftrightarrow> s * s \<le> 1 * 1 * (little_mertens_square bound / x)"
    using assms by (intro abs_le_sqrt_iff) (simp_all add: little_mertens_square_def split: little_mertens_bound.split)
  ultimately show ?thesis using assms by (simp add: pos_le_divide_eq mult.commute)
qed

lemma little_mertens_slack_iff:
  "0 \<le> little_mertens_slack s r bound \<longleftrightarrow> of_int r * (of_rat s * of_rat s) \<le> little_mertens_square bound"
proof -
  have "0 \<le> little_mertens_slack s r bound \<longleftrightarrow> 0 \<le> (of_rat (little_mertens_slack s r bound) :: real)" by simp
  also have "\<dots> \<longleftrightarrow> of_int r * (of_rat s * of_rat s) \<le> little_mertens_square bound"
    by (cases bound) (simp_all add: little_mertens_slack_def little_mertens_square_def Let_def of_rat_diff of_rat_mult algebra_simps)
  finally show ?thesis .
qed

text \<open>On a slab where the sum is constant, the limiting right endpoint decides for all points below it.\<close>

lemma slab_limit:
  fixes c k a b :: real
  assumes "0 \<le> c" "a < b"
  shows "(\<forall>x. a \<le> x \<and> x < b \<longrightarrow> x * c \<le> k) \<longleftrightarrow> b * c \<le> k"
proof
  assume all: "\<forall>x. a \<le> x \<and> x < b \<longrightarrow> x * c \<le> k"
  show "b * c \<le> k"
  proof (cases "c = 0")
    case True
    with all assms(2) show ?thesis by auto
  next
    case False
    with assms have "0 < c" by simp
    have "b \<le> k / c"
      by (rule dense_le_bounded [OF assms(2)]) (use all \<open>0 < c\<close> in \<open>simp add: pos_le_divide_eq\<close>)
    with \<open>0 < c\<close> show ?thesis by (simp add: pos_le_divide_eq)
  qed
next
  assume "b * c \<le> k"
  with assms(1) show "\<forall>x. a \<le> x \<and> x < b \<longrightarrow> x * c \<le> k" by (meson less_eq_real_def mult_right_mono order_trans)
qed

lemma floor_slabs:
  fixes P :: "nat \<Rightarrow> real \<Rightarrow> bool"
  assumes "1 \<le> l" "l \<le> u"
  shows "(\<forall>x. real l \<le> x \<and> x \<le> real u \<longrightarrow> P (nat \<lfloor>x\<rfloor>) x) \<longleftrightarrow>
    (\<forall>n \<in> {l..<u}. \<forall>x. real n \<le> x \<and> x < real n + 1 \<longrightarrow> P n x) \<and> P u (real u)" (is "?L \<longleftrightarrow> ?R")
proof
  assume L: ?L
  show ?R
  proof (intro conjI ballI allI impI)
    fix n x assume n: "n \<in> {l..<u}" and x: "real n \<le> x \<and> x < real n + 1"
    then have "\<lfloor>x\<rfloor> = int n" by (simp add: floor_eq_iff)
    moreover have "real l \<le> x \<and> x \<le> real u" using n x by auto
    ultimately show "P n x" using L by fastforce
  next
    show "P u (real u)" using L [rule_format, of "real u"] assms by simp
  qed
next
  assume R: ?R
  show ?L
  proof (intro allI impI)
    fix x assume x: "real l \<le> x \<and> x \<le> real u"
    define n where "n = nat \<lfloor>x\<rfloor>"
    have "0 \<le> \<lfloor>x\<rfloor>" using x by linarith
    then have n: "real n \<le> x" "x < real n + 1" unfolding n_def by linarith+
    show "P (nat \<lfloor>x\<rfloor>) x"
    proof (cases "n < u")
      case True
      moreover have "l \<le> n" using x n by linarith
      ultimately show ?thesis using R n unfolding n_def [symmetric] by simp
    next
      case False
      then have "x = real u" "n = u" using x n by linarith+
      with R show ?thesis unfolding n_def [symmetric] by simp
    qed
  qed
qed

lemma little_mertens_meaning:
  assumes "1 \<le> l" "l \<le> u"
  shows "(\<forall>n \<in> {l..u}. 0 \<le> little_mertens_slack (s n) (int (right_end u n)) bound) \<longleftrightarrow>
    (\<forall>x. real l \<le> x \<and> x \<le> real u \<longrightarrow> \<bar>of_rat (s (nat \<lfloor>x\<rfloor>))\<bar> \<le> little_mertens_limit bound x)"
proof -
  have slab: "0 \<le> little_mertens_slack (s n) (int (right_end u n)) bound \<longleftrightarrow>
      (\<forall>x. real n \<le> x \<and> x < real n + 1 \<longrightarrow> \<bar>of_rat (s n)\<bar> \<le> little_mertens_limit bound x)" if "n \<in> {l..<u}" for n
  proof -
    have "0 < real n" using that assms by simp
    then have "\<And>x. real n \<le> x \<Longrightarrow> \<bar>of_rat (s n)\<bar> \<le> little_mertens_limit bound x \<longleftrightarrow>
        x * (of_rat (s n) * of_rat (s n)) \<le> little_mertens_square bound"
      by (intro little_mertens_limit_iff) simp
    then have "(\<forall>x. real n \<le> x \<and> x < real n + 1 \<longrightarrow> \<bar>of_rat (s n)\<bar> \<le> little_mertens_limit bound x) \<longleftrightarrow>
        (real n + 1) * (of_rat (s n) * of_rat (s n)) \<le> little_mertens_square bound"
      using slab_limit [of "of_rat (s n) * of_rat (s n)" "real n" "real n + 1" "little_mertens_square bound"] by auto
    with that show ?thesis unfolding little_mertens_slack_iff by (simp add: right_end_def add.commute)
  qed
  have "{l..u} = insert u {l..<u}" using assms by auto
  moreover have "0 \<le> little_mertens_slack (s u) (int (right_end u u)) bound \<longleftrightarrow> \<bar>of_rat (s u)\<bar> \<le> little_mertens_limit bound (real u)"
    unfolding little_mertens_slack_iff using assms by (subst little_mertens_limit_iff) (simp_all add: right_end_def)
  ultimately show ?thesis
    unfolding floor_slabs [OF assms, of "\<lambda>n x. \<bar>of_rat (s n)\<bar> \<le> little_mertens_limit bound x"] using slab by auto
qed

end
