(* ===== verification/Squarefree_Sound.thy ===== *)
theory Squarefree_Sound
  imports ArithScans_Sound
begin

text \<open>
  The squarefree-density scan: every endpoint is classified by an enclosure of its exact slack, and two
  endpoints decide a whole slab because the squared error is convex there.
\<close>

section \<open>One endpoint\<close>

abbreviation density :: real where
  "density \<equiv> 6 / pi\<^sup>2"

definition squarefree_excess :: "nat \<Rightarrow> rat \<Rightarrow> real \<Rightarrow> real" where
  "squarefree_excess count bound x = (real count - density * x)\<^sup>2 - (of_rat bound)\<^sup>2 * x"

lemma squarefree_excess_iff:
  assumes "0 \<le> bound" "0 \<le> x"
  shows "\<bar>real count - density * x\<bar> \<le> of_rat bound * sqrt x \<longleftrightarrow> squarefree_excess count bound x \<le> 0"
  using abs_le_sqrt_iff [of "of_rat bound" x "real count - density * x"] assms
  by (simp add: squarefree_excess_def power2_eq_square)

lemma endpoint_slack:
  assumes "0 \<le> bound" "1 \<le> y"
  shows "\<exists>lo hi. squarefree_endpoint_slack_bounds (int count) (int y) bound = Inr (lo, hi) \<and>
    of_rat lo \<le> - squarefree_excess count bound (real y) \<and> - squarefree_excess count bound (real y) \<le> of_rat hi"
proof -
  define dl du where "dl = of_nat count - SQUAREFREE_DENSITY_UPPER * of_nat y" and "du = of_nat count - SQUAREFREE_DENSITY_LOWER * of_nat y"
  define al au where "al = (if dl \<le> 0 \<and> 0 \<le> du then 0 else min \<bar>dl\<bar> \<bar>du\<bar>)" and "au = max \<bar>dl\<bar> \<bar>du\<bar>"
  define d where "d = real count - density * real y"
  have "dl \<le> du" using density_enclosure(3) by (simp add: dl_def du_def mult_right_mono)
  then have eq: "squarefree_endpoint_slack_bounds (int count) (int y) bound =
      Inr (bound * bound * of_nat y - au * au, bound * bound * of_nat y - al * al)"
    using assms by (simp add: squarefree_endpoint_slack_bounds_def require_min_def Let_def dl_def du_def al_def au_def)
  have d: "of_rat dl \<le> d" "d \<le> of_rat du"
    using mult_right_mono [OF density_enclosure(1), of "real y"] mult_right_mono [OF density_enclosure(2), of "real y"]
    unfolding d_def dl_def du_def of_rat_diff of_rat_mult of_rat_of_nat_eq by linarith+
  have "\<bar>d\<bar> \<le> \<bar>of_rat au\<bar>"
  proof -
    have "- dl \<le> au" "du \<le> au" by (simp_all add: au_def max_def abs_if)
    then have "of_rat (- dl) \<le> (of_rat au :: real)" "of_rat du \<le> (of_rat au :: real)" unfolding of_rat_less_eq .
    with d abs_ge_self [of "of_rat au :: real"] show ?thesis unfolding of_rat_minus abs_le_iff by linarith
  qed
  then have upper: "d\<^sup>2 \<le> of_rat (au * au)" by (simp only: abs_le_square_iff of_rat_mult power2_eq_square)
  have "\<bar>of_rat al\<bar> \<le> \<bar>d\<bar>"
  proof (cases "dl \<le> 0 \<and> 0 \<le> du")
    case False
    then have "al = min \<bar>dl\<bar> \<bar>du\<bar>" unfolding al_def by (rule if_not_P)
    then have "al \<le> dl \<or> al \<le> - du" using False \<open>dl \<le> du\<close> by (cases "0 < dl") (simp_all add: min_le_iff_disj)
    then have "of_rat al \<le> (of_rat dl :: real) \<or> of_rat al \<le> (of_rat (- du) :: real)" unfolding of_rat_less_eq .
    moreover have "0 \<le> al" by (simp add: al_def)
    then have "\<bar>of_rat al\<bar> = (of_rat al :: real)" by simp
    ultimately show ?thesis using d unfolding of_rat_minus by linarith
  qed (simp add: al_def)
  then have lower: "of_rat (al * al) \<le> d\<^sup>2" by (simp only: abs_le_square_iff of_rat_mult power2_eq_square)
  show ?thesis unfolding eq using upper lower
    by (auto simp: squarefree_excess_def d_def of_rat_diff of_rat_mult power2_eq_square)
qed

text \<open>The slack pair and the class of an endpoint as total functions.\<close>

definition endpoint_slacks :: "nat \<Rightarrow> rat \<Rightarrow> nat \<Rightarrow> rat \<times> rat" where
  "endpoint_slacks count bound y = projr (squarefree_endpoint_slack_bounds (int count) (int y) bound)"

lemma endpoint_slacks:
  assumes "0 \<le> bound" "1 \<le> y"
  shows "squarefree_endpoint_slack_bounds (int count) (int y) bound = Inr (endpoint_slacks count bound y)"
    "classify_slack (endpoint_slacks count bound y) = SAFE \<Longrightarrow> squarefree_excess count bound (real y) \<le> 0"
    "classify_slack (endpoint_slacks count bound y) = VIOLATION \<Longrightarrow> 0 < squarefree_excess count bound (real y)"
proof -
  obtain lo hi where e: "squarefree_endpoint_slack_bounds (int count) (int y) bound = Inr (lo, hi)"
    "of_rat lo \<le> - squarefree_excess count bound (real y)" "- squarefree_excess count bound (real y) \<le> of_rat hi"
    using endpoint_slack [OF assms] by blast
  then show "squarefree_endpoint_slack_bounds (int count) (int y) bound = Inr (endpoint_slacks count bound y)"
    by (simp add: endpoint_slacks_def)
  have slacks: "endpoint_slacks count bound y = (lo, hi)" using e(1) by (simp add: endpoint_slacks_def)
  show "squarefree_excess count bound (real y) \<le> 0" if "classify_slack (endpoint_slacks count bound y) = SAFE"
  proof -
    have "0 \<le> lo" using that slacks by (simp add: classify_slack_def split: if_splits)
    then have "0 \<le> (of_rat lo :: real)" by simp
    with e(2) show ?thesis by linarith
  qed
  show "0 < squarefree_excess count bound (real y)" if "classify_slack (endpoint_slacks count bound y) = VIOLATION"
  proof -
    have "hi < 0" using that slacks by (simp add: classify_slack_def split: if_splits)
    then have "(of_rat hi :: real) < 0" by simp
    with e(3) show ?thesis by linarith
  qed
qed

section \<open>The scan\<close>

text \<open>What the counters say about the endpoints visited so far, each with the count of its slab.\<close>

definition counters_ok :: "rat \<Rightarrow> (nat \<times> nat) list \<Rightarrow> squarefree_state \<Rightarrow> bool" where
  "counters_ok bound es s \<longleftrightarrow> ss_checked s = length es \<and> (ss_minimum s = None \<longleftrightarrow> es = []) \<and>
     ss_violations s = length (filter (\<lambda>(c, y). classify_slack (endpoint_slacks c bound y) = VIOLATION) es) \<and>
     ss_unresolved s = length (filter (\<lambda>(c, y). classify_slack (endpoint_slacks c bound y) = UNRESOLVED) es) \<and>
     ss_safe s = length (filter (\<lambda>(c, y). classify_slack (endpoint_slacks c bound y) = SAFE) es)"

lemma endpoint_step_ok:
  assumes "0 \<le> bound" "1 \<le> fst e" "counters_ok bound es s"
  shows "\<exists>s'. endpoint_step count bound s e = Inr s' \<and> counters_ok bound (es @ [(count, fst e)]) s'"
proof -
  obtain lo hi where slacks: "endpoint_slacks count bound (fst e) = (lo, hi)" by fastforce
  then have run: "squarefree_endpoint_slack_bounds (int count) (int (fst e)) bound = Inr (lo, hi)"
    using endpoint_slacks(1) [OF assms(1,2)] by simp
  show ?thesis using assms(3) slacks
    by (auto simp: endpoint_step_def run counters_ok_def classify_slack_def Let_def split: option.split)
qed

lemma endpoint_steps_ok:
  assumes "0 \<le> bound" "\<forall>e \<in> set es. 1 \<le> fst e" "counters_ok bound seen s"
  shows "\<exists>s'. fold_res (endpoint_step count bound) s es = Inr s' \<and>
    counters_ok bound (seen @ map (\<lambda>e. (count, fst e)) es) s'"
  using assms(2,3)
proof (induction es arbitrary: s seen)
  case (Cons e es)
  from Cons.prems obtain s1 where s1: "endpoint_step count bound s e = Inr s1" "counters_ok bound (seen @ [(count, fst e)]) s1"
    using endpoint_step_ok [OF assms(1)] by (metis list.set_intros(1))
  from Cons.IH [OF _ s1(2)] Cons.prems(1) s1(1) show ?case by simp
qed simp

definition table_count :: "int list \<Rightarrow> nat \<Rightarrow> nat" where
  "table_count mu n = length (filter (\<lambda>k. mu ! k \<noteq> 0) [1..<Suc n])"

definition scan_endpoints :: "int list \<Rightarrow> nat \<Rightarrow> nat \<Rightarrow> nat \<Rightarrow> (nat \<times> nat) list" where
  "scan_endpoints mu lower upper m =
     concat (map (\<lambda>n. map (\<lambda>e. (table_count mu n, fst e)) (slab_endpoints upper n)) [lower..<Suc m])"

definition squarefree_start :: squarefree_state where
  "squarefree_start = \<lparr>ss_checked = 0, ss_safe = 0, ss_violations = 0, ss_unresolved = 0, ss_first_problem = None, ss_minimum = None\<rparr>"

lemma squarefree_loop:
  assumes "0 \<le> bound" "1 \<le> lower" "m \<le> upper"
  shows "\<exists>s. fold_res (squarefree_step mu lower upper bound) (0, squarefree_start) [1..<Suc m] = Inr (table_count mu m, s) \<and>
    counters_ok bound (scan_endpoints mu lower upper m) s"
  using assms(3)
proof (induction m)
  case 0
  then show ?case using assms(2) by (simp add: table_count_def scan_endpoints_def counters_ok_def squarefree_start_def)
next
  case (Suc m)
  then obtain s where s: "fold_res (squarefree_step mu lower upper bound) (0, squarefree_start) [1..<Suc m] = Inr (table_count mu m, s)"
    "counters_ok bound (scan_endpoints mu lower upper m) s" by auto
  have split: "[1..<Suc (Suc m)] = [1..<Suc m] @ [Suc m]" by simp
  have count: "(if mu ! Suc m \<noteq> 0 then table_count mu m + 1 else table_count mu m) = table_count mu (Suc m)"
    by (simp add: table_count_def)
  have run: "fold_res (squarefree_step mu lower upper bound) (0, squarefree_start) [1..<Suc (Suc m)] =
      squarefree_step mu lower upper bound (table_count mu m, s) (Suc m)"
    unfolding split fold_res_snoc s(1) by simp
  show ?case
  proof (cases "Suc m < lower")
    case True
    then have "scan_endpoints mu lower upper (Suc m) = scan_endpoints mu lower upper m" by (simp add: scan_endpoints_def)
    moreover have "squarefree_step mu lower upper bound (table_count mu m, s) (Suc m) = Inr (table_count mu (Suc m), s)"
      unfolding squarefree_step_def prod.case Let_def count using True by simp
    ultimately show ?thesis unfolding run using s(2) by simp
  next
    case False
    have "\<forall>e \<in> set (slab_endpoints upper (Suc m)). 1 \<le> fst e" by (auto simp: slab_endpoints_def)
    from endpoint_steps_ok [OF assms(1) this s(2), of "table_count mu (Suc m)"] obtain s' where
      s': "fold_res (endpoint_step (table_count mu (Suc m)) bound) s (slab_endpoints upper (Suc m)) = Inr s'"
      "counters_ok bound (scan_endpoints mu lower upper m @ map (\<lambda>e. (table_count mu (Suc m), fst e)) (slab_endpoints upper (Suc m))) s'"
      by blast
    have "scan_endpoints mu lower upper (Suc m) =
        scan_endpoints mu lower upper m @ map (\<lambda>e. (table_count mu (Suc m), fst e)) (slab_endpoints upper (Suc m))"
      using False by (simp add: scan_endpoints_def)
    moreover have "squarefree_step mu lower upper bound (table_count mu m, s) (Suc m) = Inr (table_count mu (Suc m), s')"
      unfolding squarefree_step_def prod.case Let_def count using False s'(1) by simp
    ultimately show ?thesis unfolding run using s'(2) by simp
  qed
qed

lemma check_squarefree_sample_Inr:
  assumes "1 \<le> lower" "lower \<le> upper" "0 \<le> bound" "validate_mu_table mu upper = Inr ()"
  shows "\<exists>r. check_squarefree_sample mu lower upper bound = Inr r \<and>
    sq_final_count r = table_count mu (nat upper) \<and>
    (let es = scan_endpoints mu (nat lower) (nat upper) (nat upper); class = (\<lambda>(c, y). classify_slack (endpoint_slacks c bound y))
     in sq_checked r = length es \<and> sq_violating r = length (filter (\<lambda>e. class e = VIOLATION) es) \<and>
        sq_unresolved r = length (filter (\<lambda>e. class e = UNRESOLVED) es))"
proof -
  define l u where "l = nat lower" and "u = nat upper"
  have lu: "1 \<le> l" "l \<le> u" using assms(1,2) by (simp_all add: l_def u_def)
  obtain s where run: "fold_res (squarefree_step mu l u bound) (0, squarefree_start) [1..<Suc u] = Inr (table_count mu u, s)"
    and ok: "counters_ok bound (scan_endpoints mu l u u) s"
    using squarefree_loop [OF assms(3) lu(1) order_refl] by blast
  have "scan_endpoints mu l u u \<noteq> []" using lu(2) by (auto simp: scan_endpoints_def slab_endpoints_def)
  with ok obtain v w where m: "ss_minimum s = Some (v, w)" by (cases "ss_minimum s") (auto simp: counters_ok_def)
  let ?r = "\<lparr>sq_lower = l, sq_upper = u, sq_bound = bound, sq_final_count = table_count mu u, sq_checked = ss_checked s,
    sq_safe = ss_safe s, sq_violating = ss_violations s, sq_unresolved = ss_unresolved s,
    sq_minimum_lower_slack = v, sq_minimum_at = w, sq_first_problem = ss_first_problem s\<rparr>"
  have span: "require_span lower upper = Inr (l, u)" using assms(1,2) by (simp add: require_span_Inr l_def u_def)
  have "check_squarefree_sample mu lower upper bound = Inr ?r"
    using assms(3,4) run m span by (simp add: check_squarefree_sample_def squarefree_start_def [symmetric] del: upt_Suc)
  with ok show ?thesis unfolding l_def [symmetric] u_def [symmetric] Let_def
    by (intro exI [of _ ?r]) (simp add: counters_ok_def case_prod_unfold)
qed

section \<open>Between the endpoints\<close>

lemma parabola_convex:
  fixes q e b a x :: real
  shows "(a + 1 - x) * ((q - e * a)\<^sup>2 - b * a) + (x - a) * ((q - e * (a + 1))\<^sup>2 - b * (a + 1)) - ((q - e * x)\<^sup>2 - b * x) =
    e\<^sup>2 * ((x - a) * (a + 1 - x))"
  unfolding power2_eq_square by (simp add: algebra_simps)

lemma excess_convex:
  assumes "a \<le> x" "x \<le> a + 1" "squarefree_excess count bound a \<le> 0" "squarefree_excess count bound (a + 1) \<le> 0"
  shows "squarefree_excess count bound x \<le> 0"
proof -
  let ?f = "squarefree_excess count bound"
  have "(a + 1 - x) * ?f a + (x - a) * ?f (a + 1) - ?f x = density\<^sup>2 * ((x - a) * (a + 1 - x))"
    unfolding squarefree_excess_def by (rule parabola_convex)
  moreover have "0 \<le> density\<^sup>2 * ((x - a) * (a + 1 - x))" using assms(1,2) by simp
  moreover have "(a + 1 - x) * ?f a \<le> 0" "(x - a) * ?f (a + 1) \<le> 0"
    using assms by (simp_all add: mult_nonneg_nonpos)
  ultimately show ?thesis by linarith
qed

lemma excess_limit:
  assumes "\<And>x. a \<le> x \<Longrightarrow> x < b \<Longrightarrow> squarefree_excess count bound x \<le> 0" "a < b"
  shows "squarefree_excess count bound b \<le> 0"
proof (rule tendsto_upperbound)
  have "isCont (squarefree_excess count bound) b" unfolding squarefree_excess_def by (intro continuous_intros)
  then show "(squarefree_excess count bound \<longlongrightarrow> squarefree_excess count bound b) (at_left b)"
    by (meson filterlim_at_split isCont_def)
  show "eventually (\<lambda>x. squarefree_excess count bound x \<le> 0) (at_left b)"
    using assms by (auto intro!: eventually_at_leftI [of a])
qed simp

lemma squarefree_slabs:
  assumes "1 \<le> l" "l \<le> u"
  shows "(\<forall>(c, y) \<in> set (scan_endpoints mu l u u). squarefree_excess c bound (real y) \<le> 0) \<longleftrightarrow>
    (\<forall>x. real l \<le> x \<and> x \<le> real u \<longrightarrow> squarefree_excess (table_count mu (nat \<lfloor>x\<rfloor>)) bound x \<le> 0)" (is "?L \<longleftrightarrow> ?R")
proof -
  let ?f = "\<lambda>n. squarefree_excess (table_count mu n) bound"
  have "?L \<longleftrightarrow> (\<forall>n \<in> {l..u}. ?f n (real n) \<le> 0 \<and> (n < u \<longrightarrow> ?f n (real n + 1) \<le> 0))"
    by (auto simp: scan_endpoints_def slab_endpoints_def add.commute simp del: upt_Suc)
  also have "\<dots> \<longleftrightarrow> (\<forall>n \<in> {l..<u}. ?f n (real n) \<le> 0 \<and> ?f n (real n + 1) \<le> 0) \<and> ?f u (real u) \<le> 0"
  proof -
    have "{l..u} = insert u {l..<u}" using assms by auto
    then show ?thesis by auto
  qed
  also have "\<dots> \<longleftrightarrow> (\<forall>n \<in> {l..<u}. \<forall>x. real n \<le> x \<and> x < real n + 1 \<longrightarrow> ?f n x \<le> 0) \<and> ?f u (real u) \<le> 0"
  proof -
    have slab: "?f n (real n) \<le> 0 \<and> ?f n (real n + 1) \<le> 0 \<longleftrightarrow> (\<forall>x. real n \<le> x \<and> x < real n + 1 \<longrightarrow> ?f n x \<le> 0)" for n
    proof
      assume ends: "?f n (real n) \<le> 0 \<and> ?f n (real n + 1) \<le> 0"
      show "\<forall>x. real n \<le> x \<and> x < real n + 1 \<longrightarrow> ?f n x \<le> 0"
      proof (intro allI impI)
        fix x assume "real n \<le> x \<and> x < real n + 1"
        with ends show "?f n x \<le> 0" by (intro excess_convex [of "real n" x]) simp_all
      qed
    next
      assume all: "\<forall>x. real n \<le> x \<and> x < real n + 1 \<longrightarrow> ?f n x \<le> 0"
      have "?f n (real n + 1) \<le> 0" by (rule excess_limit [of "real n"]) (rule all [rule_format], simp_all)
      moreover have "?f n (real n) \<le> 0" by (rule all [rule_format]) simp
      ultimately show "?f n (real n) \<le> 0 \<and> ?f n (real n + 1) \<le> 0" by blast
    qed
    show ?thesis unfolding slab by (rule refl)
  qed
  also have "\<dots> \<longleftrightarrow> ?R" by (rule floor_slabs [OF assms, symmetric])
  finally show ?thesis .
qed

end
