(* ===== verification/Arithmetic_Claims.thy ===== *)
theory Arithmetic_Claims
  imports Squarefree_Sound
begin

text \<open>
  The properties of the exact arithmetic references: the sieves against the Moebius function, and each
  scan, run on a sieved table, against the bound it is named after, over the reals.
\<close>

section \<open>The sieves\<close>

text \<open>C6:
  The sieves compute what they are named after.  \<open>primes_through\<close> returns the primes up to its limit
  in order; \<open>mobius_linear\<close> returns the Moebius function at every index up to its limit, and
  \<open>mobius_segment\<close> returns it on the half-open interval; each raises \<open>ValueError\<close> exactly on a
  negative limit, a start below one, or a stop below the start.
\<close>

theorem sieves_correct:
  "primes_through limit = (if limit < 0 then Inl ValueError else Inr (filter is_prime [2..<nat limit + 1])) \<and>
   mobius_linear limit = (if limit < 0 then Inl ValueError else Inr (map moebius [0..<nat limit + 1])) \<and>
   mobius_segment start stop =
     (if start < 1 \<or> stop < start then Inl ValueError else Inr (map moebius [nat start..<nat stop]))"
  using primes_through_eq mobius_linear_eq mobius_segment_eq by blast

section \<open>Tables from the sieve\<close>

lemma sieved:
  assumes "mobius_linear limit = Inr mu" "upper \<le> limit" "0 \<le> upper"
  shows "validate_mu_table mu upper = Inr ()" "\<And>k. int k \<le> upper \<Longrightarrow> mu ! k = moebius k"
proof -
  have mu: "mu = map moebius [0..<nat limit + 1]"
    using assms by (auto simp: mobius_linear_eq simp del: upt_Suc split: if_splits)
  show at: "mu ! k = moebius k" if "int k \<le> upper" for k
  proof -
    have "k < nat limit + 1" using that assms(2) by linarith
    then show ?thesis unfolding mu by (simp del: upt_Suc)
  qed
  have "upper < int (length mu)" using assms(2) unfolding mu by (simp del: upt_Suc)
  moreover have "\<forall>i \<in> {1..nat upper}. mu ! i \<in> {-1, 0, 1}" using at moebius_values assms(3) by (simp add: le_nat_iff)
  ultimately show "validate_mu_table mu upper = Inr ()" using assms(3) at [of 0] by (simp add: validate_mu_table_Inr)
qed

definition mertens :: "nat \<Rightarrow> int" where
  "mertens n = (\<Sum>k = 1..n. moebius k)"

definition little_mertens :: "nat \<Rightarrow> rat" where
  "little_mertens n = (\<Sum>k = 1..n. of_int (moebius k) / of_nat k)"

definition squarefree_count :: "nat \<Rightarrow> nat" where
  "squarefree_count n = card {k \<in> {1..n}. squarefree_nat k}"

lemma sieved_sums:
  assumes "mobius_linear limit = Inr mu" "upper \<le> limit" "n \<le> nat upper" "0 \<le> upper"
  shows "table_sum mu n = mertens n" "table_reciprocals mu n = little_mertens n" "table_count mu n = squarefree_count n"
proof -
  have at: "mu ! k = moebius k" if "k \<in> {1..n}" for k
    using that sieved(2) [OF assms(1,2,4), of k] assms(3,4) by (simp add: le_nat_iff)
  then show "table_sum mu n = mertens n" "table_reciprocals mu n = little_mertens n"
    by (simp_all add: table_sum_def mertens_def table_reciprocals_def little_mertens_def)
  have "mu ! k \<noteq> 0 \<longleftrightarrow> squarefree_nat k" if "k \<in> {1..n}" for k
    using at [OF that] moebius_zero_iff [of k] that by simp
  then have nonzero: "set (filter (\<lambda>k. mu ! k \<noteq> 0) [1..<Suc n]) = {k \<in> {1..n}. squarefree_nat k}"
    by (auto simp: less_Suc_eq_le simp del: upt_Suc)
  have "table_count mu n = card (set (filter (\<lambda>k. mu ! k \<noteq> 0) [1..<Suc n]))"
    unfolding table_count_def by (rule distinct_card [symmetric]) simp
  then show "table_count mu n = squarefree_count n" unfolding nonzero by (simp add: squarefree_count_def)
qed

section \<open>The scans\<close>

text \<open>The Hurst scan on a sieved table decides the bound on the Mertens function.  It returns a result, which
  passes exactly when the absolute value of every \<open>M(n)\<close> of the range is at most 0.571 times the square
  root of \<open>n\<close>; a failure reported is the first \<open>n\<close> at which the bound fails, the final sum is
  \<open>M(upper)\<close>, and the slack reported is the smallest of the range and is attained where reported.
\<close>

theorem hurst_scan_decides:
  assumes "1 \<le> lower" "lower \<le> upper" "upper \<le> limit" "mobius_linear limit = Inr mu"
  shows "\<exists>r. check_hurst_sample mu lower upper = Inr r \<and> hr_final_mertens r = mertens (nat upper) \<and>
    (hurst_passed r \<longleftrightarrow> (\<forall>n \<in> {nat lower..nat upper}. \<bar>real_of_int (mertens n)\<bar> \<le> 571 / 1000 * sqrt (real n))) \<and>
    (\<forall>n. hr_first_failure r = Some n \<longrightarrow> n \<in> {nat lower..nat upper} \<and>
       \<not> \<bar>real_of_int (mertens n)\<bar> \<le> 571 / 1000 * sqrt (real n) \<and>
       (\<forall>j \<in> {nat lower..<n}. \<bar>real_of_int (mertens j)\<bar> \<le> 571 / 1000 * sqrt (real j))) \<and>
    hr_minimum_slack r = (MIN n \<in> {nat lower..nat upper}. 571\<^sup>2 * int n - 1000\<^sup>2 * (mertens n)\<^sup>2) \<and>
    hr_minimum_slack r = 571\<^sup>2 * int (hr_minimum_slack_at r) - 1000\<^sup>2 * (mertens (hr_minimum_slack_at r))\<^sup>2"
proof -
  define l u where "l = nat lower" and "u = nat upper"
  have u0: "0 \<le> upper" using assms(1,2) by simp
  note valid = sieved(1) [OF assms(4,3) u0]
  have slack: "hurst_slack (int n) (table_sum mu n) = 571\<^sup>2 * int n - 1000\<^sup>2 * (mertens n)\<^sup>2" if "n \<in> {l..u}" for n
    using sieved_sums(1) [OF assms(4,3) _ u0, of n] that
    by (simp add: hurst_slack_def HURST_NUMERATOR_def HURST_DENOMINATOR_def power2_eq_square u_def)
  have pass: "0 \<le> hurst_slack (int n) (table_sum mu n) \<longleftrightarrow> \<bar>real_of_int (mertens n)\<bar> \<le> 571 / 1000 * sqrt (real n)"
    if "n \<in> {l..u}" for n
    using sieved_sums(1) [OF assms(4,3) _ u0, of n] that unfolding hurst_meaning by (simp add: u_def)
  obtain r where r: "check_hurst_sample mu lower upper = Inr r" "hr_final_mertens r = table_sum mu u"
    "\<exists>n \<in> {l..u}. hr_minimum_slack_at r = n \<and> hr_minimum_slack r = hurst_slack (int n) (table_sum mu n)"
    "\<forall>j \<in> {l..u}. hr_minimum_slack r \<le> hurst_slack (int j) (table_sum mu j)"
    and first: "case hr_first_failure r of None \<Rightarrow> \<forall>j \<in> {l..u}. 0 \<le> hurst_slack (int j) (table_sum mu j)
      | Some n \<Rightarrow> n \<in> {l..u} \<and> hurst_slack (int n) (table_sum mu n) < 0 \<and> (\<forall>j \<in> {l..<n}. 0 \<le> hurst_slack (int j) (table_sum mu j))"
    using check_hurst_sample_Inr [OF assms(1,2) valid] unfolding l_def [symmetric] u_def [symmetric] by blast
  have passed: "hurst_passed r \<longleftrightarrow> (\<forall>n \<in> {l..u}. \<bar>real_of_int (mertens n)\<bar> \<le> 571 / 1000 * sqrt (real n))"
  proof (cases "hr_first_failure r")
    case None
    then have "\<forall>j \<in> {l..u}. 0 \<le> hurst_slack (int j) (table_sum mu j)" using first by simp
    with pass have "\<forall>j \<in> {l..u}. \<bar>real_of_int (mertens j)\<bar> \<le> 571 / 1000 * sqrt (real j)" by blast
    with None show ?thesis by (simp only: hurst_passed_def simp_thms)
  next
    case (Some n)
    then have "n \<in> {l..u}" "\<not> 0 \<le> hurst_slack (int n) (table_sum mu n)" using first by auto
    with pass [of n] have "\<not> (\<forall>j \<in> {l..u}. \<bar>real_of_int (mertens j)\<bar> \<le> 571 / 1000 * sqrt (real j))" by blast
    with Some show ?thesis by (simp only: hurst_passed_def option.distinct simp_thms)
  qed
  have failure: "n \<in> {l..u} \<and> \<not> \<bar>real_of_int (mertens n)\<bar> \<le> 571 / 1000 * sqrt (real n) \<and>
      (\<forall>j \<in> {l..<n}. \<bar>real_of_int (mertens j)\<bar> \<le> 571 / 1000 * sqrt (real j))" if "hr_first_failure r = Some n" for n
  proof -
    have n: "n \<in> {l..u}" "\<not> 0 \<le> hurst_slack (int n) (table_sum mu n)" "\<forall>j \<in> {l..<n}. 0 \<le> hurst_slack (int j) (table_sum mu j)"
      using first that by auto
    have "j \<in> {l..u}" if "j \<in> {l..<n}" for j using that n(1) by simp
    with n pass show ?thesis by blast
  qed
  have least: "hr_minimum_slack r = (MIN n \<in> {l..u}. 571\<^sup>2 * int n - 1000\<^sup>2 * (mertens n)\<^sup>2)"
    by (rule Min_eqI [symmetric]) (use r(3,4) slack in auto)
  have final: "hr_final_mertens r = mertens u" using r(2) sieved_sums(1) [OF assms(4,3) _ u0, of u] by (simp add: u_def)
  have attained: "hr_minimum_slack r = 571\<^sup>2 * int (hr_minimum_slack_at r) - 1000\<^sup>2 * (mertens (hr_minimum_slack_at r))\<^sup>2"
    using r(3) slack by auto
  show ?thesis unfolding l_def [symmetric] u_def [symmetric]
    using r(1) final passed failure least attained by blast
qed

lemma small_table: "\<exists>mu. mobius_linear 5 = Inr mu"
  by (simp add: mobius_linear_eq)

lemma hurst_scan_decides_witness:
  "\<exists>mu r. mobius_linear 5 = Inr mu \<and> check_hurst_sample mu 2 5 = Inr r \<and> hr_final_mertens r = mertens 5"
proof -
  obtain mu where mu: "mobius_linear 5 = Inr mu" using small_table by blast
  from hurst_scan_decides [OF _ _ _ mu, of 2 5] mu show ?thesis by auto
qed

text \<open>C27:
  The little-Mertens scan on a sieved table decides its bound over the reals.  It returns a result, which
  passes exactly when at every real \<open>x\<close> of the closed interval the sum of \<open>mu(k)/k\<close> over \<open>k \<le> x\<close> is at
  most the square root of \<open>2/x\<close>, or half the inverse square root, in absolute value.
\<close>

theorem little_mertens_scan_decides:
  assumes "1 \<le> lower" "lower \<le> upper" "upper \<le> limit" "mobius_linear limit = Inr mu"
  shows "\<exists>r. check_little_mertens_sample mu lower upper bound = Inr r \<and> lm_final_sum r = little_mertens (nat upper) \<and>
    (little_mertens_passed r \<longleftrightarrow> (\<forall>x. of_int lower \<le> x \<and> x \<le> of_int upper \<longrightarrow>
       \<bar>real_of_rat (little_mertens (nat \<lfloor>x\<rfloor>))\<bar> \<le>
         (case bound of SQRT_TWO_OVER_X \<Rightarrow> sqrt (2 / x) | ONE_OVER_TWO_SQRT_X \<Rightarrow> 1 / (2 * sqrt x))))"
proof -
  define l u where "l = nat lower" and "u = nat upper"
  have lu: "1 \<le> l" "l \<le> u" "real_of_int lower = real l" "real_of_int upper = real u" "0 \<le> upper"
    using assms(1,2) by (simp_all add: l_def u_def)
  note valid = sieved(1) [OF assms(4,3) lu(5)]
  have sums: "table_reciprocals mu n = little_mertens n" if "n \<le> u" for n
    using sieved_sums(2) [OF assms(4,3) _ lu(5)] that by (simp add: u_def)
  obtain r where r: "check_little_mertens_sample mu lower upper bound = Inr r" "lm_final_sum r = table_reciprocals mu u"
    "little_mertens_passed r \<longleftrightarrow> (\<forall>n \<in> {l..u}. 0 \<le> little_mertens_slack (table_reciprocals mu n) (int (right_end u n)) bound)"
    using check_little_mertens_sample_Inr [OF assms(1,2) valid] unfolding l_def [symmetric] u_def [symmetric] by blast
  have "nat \<lfloor>x\<rfloor> \<le> u" if "x \<le> real u" for x using that by linarith
  with r(3) sums have "little_mertens_passed r \<longleftrightarrow>
      (\<forall>x. real l \<le> x \<and> x \<le> real u \<longrightarrow> \<bar>of_rat (little_mertens (nat \<lfloor>x\<rfloor>))\<bar> \<le> little_mertens_limit bound x)"
    unfolding little_mertens_meaning [OF lu(1,2)] by simp
  with r(1,2) sums [of u] show ?thesis unfolding lu(3,4) u_def [symmetric] little_mertens_limit_def by auto
qed

lemma little_mertens_scan_decides_witness:
  "\<exists>mu r. mobius_linear 5 = Inr mu \<and> check_little_mertens_sample mu 1 5 SQRT_TWO_OVER_X = Inr r \<and>
     lm_final_sum r = little_mertens 5"
proof -
  obtain mu where mu: "mobius_linear 5 = Inr mu" using small_table by blast
  from little_mertens_scan_decides [OF _ _ _ mu, of 1 5 SQRT_TWO_OVER_X] mu show ?thesis by auto
qed

text \<open>C26:
  The squarefree scan on a sieved table is right over the reals, with the true density 6 divided by the
  square of pi.  It returns a result; when it passes, at every real \<open>x\<close> of the closed interval the count
  of squarefree integers up to \<open>x\<close> differs from the density times \<open>x\<close> by at most the bound times the
  square root of \<open>x\<close>; when it counts a violation, some \<open>x\<close> of the interval breaks the bound.
\<close>

theorem squarefree_scan_sound:
  assumes "1 \<le> lower" "lower \<le> upper" "upper \<le> limit" "mobius_linear limit = Inr mu" "0 \<le> bound"
  shows "\<exists>r. check_squarefree_sample mu lower upper bound = Inr r \<and> sq_final_count r = squarefree_count (nat upper) \<and>
    (squarefree_passed r \<longrightarrow> (\<forall>x. of_int lower \<le> x \<and> x \<le> of_int upper \<longrightarrow>
       \<bar>real (squarefree_count (nat \<lfloor>x\<rfloor>)) - 6 / pi\<^sup>2 * x\<bar> \<le> of_rat bound * sqrt x)) \<and>
    (0 < sq_violating r \<longrightarrow> (\<exists>x. of_int lower \<le> x \<and> x \<le> of_int upper \<and>
       \<not> \<bar>real (squarefree_count (nat \<lfloor>x\<rfloor>)) - 6 / pi\<^sup>2 * x\<bar> \<le> of_rat bound * sqrt x))"
proof -
  define l u where "l = nat lower" and "u = nat upper"
  have lu: "1 \<le> l" "l \<le> u" "real_of_int lower = real l" "real_of_int upper = real u" "0 \<le> upper"
    using assms(1,2) by (simp_all add: l_def u_def)
  note valid = sieved(1) [OF assms(4,3) lu(5)]
  let ?es = "scan_endpoints mu l u u" and ?kind = "\<lambda>(c, y). classify_slack (endpoint_slacks c bound y)"
  have y1: "1 \<le> y" if "(c, y) \<in> set ?es" for c y
    using that lu(1) by (auto simp: scan_endpoints_def slab_endpoints_def simp del: upt_Suc split: if_splits)
  obtain r where r: "check_squarefree_sample mu lower upper bound = Inr r" "sq_final_count r = table_count mu u"
    "sq_violating r = length (filter (\<lambda>e. ?kind e = VIOLATION) ?es)" "sq_unresolved r = length (filter (\<lambda>e. ?kind e = UNRESOLVED) ?es)"
    using check_squarefree_sample_Inr [OF assms(1,2,5) valid] unfolding l_def [symmetric] u_def [symmetric] Let_def by blast
  have ok: "\<bar>real (squarefree_count (nat \<lfloor>x\<rfloor>)) - 6 / pi\<^sup>2 * x\<bar> \<le> of_rat bound * sqrt x \<longleftrightarrow>
      squarefree_excess (table_count mu (nat \<lfloor>x\<rfloor>)) bound x \<le> 0" if "real l \<le> x" "x \<le> real u" for x
  proof -
    have "nat \<lfloor>x\<rfloor> \<le> nat upper" using that(2) unfolding u_def by linarith
    moreover have "0 \<le> x" using that(1) by simp
    ultimately show ?thesis
      using squarefree_excess_iff [OF assms(5)] sieved_sums(3) [OF assms(4,3) _ lu(5)] by simp
  qed
  have all: "(\<forall>(c, y) \<in> set ?es. squarefree_excess c bound (real y) \<le> 0) \<longleftrightarrow>
      (\<forall>x. real l \<le> x \<and> x \<le> real u \<longrightarrow> \<bar>real (squarefree_count (nat \<lfloor>x\<rfloor>)) - 6 / pi\<^sup>2 * x\<bar> \<le> of_rat bound * sqrt x)"
    unfolding squarefree_slabs [OF lu(1,2)] using ok by blast
  have "squarefree_excess c bound (real y) \<le> 0" if "squarefree_passed r" "(c, y) \<in> set ?es" for c y
  proof -
    have "?kind (c, y) \<noteq> VIOLATION" "?kind (c, y) \<noteq> UNRESOLVED"
      using that r(3,4) by (auto simp: squarefree_passed_def filter_empty_conv)
    then have "classify_slack (endpoint_slacks c bound y) = SAFE" by (cases "classify_slack (endpoint_slacks c bound y)") auto
    then show ?thesis using endpoint_slacks(2) [OF assms(5) y1 [OF that(2)]] by blast
  qed
  then have safe: "squarefree_passed r \<longrightarrow> (\<forall>(c, y) \<in> set ?es. squarefree_excess c bound (real y) \<le> 0)" by blast
  have bad: "\<not> (\<forall>(c, y) \<in> set ?es. squarefree_excess c bound (real y) \<le> 0)" if "0 < sq_violating r"
  proof -
    obtain c y where "(c, y) \<in> set ?es" "classify_slack (endpoint_slacks c bound y) = VIOLATION"
      using \<open>0 < sq_violating r\<close> r(3) by (auto simp: filter_empty_conv)
    then show ?thesis using endpoint_slacks(3) [OF assms(5) y1] by fastforce
  qed
  have final: "sq_final_count r = squarefree_count u" using r(2) sieved_sums(3) [OF assms(4,3) _ lu(5), of u] by (simp add: u_def)
  show ?thesis unfolding lu(3,4) u_def [symmetric]
  proof (intro exI [of _ r] conjI impI)
    assume "0 < sq_violating r"
    from bad [OF this] show "\<exists>x. real l \<le> x \<and> x \<le> real u \<and>
        \<not> \<bar>real (squarefree_count (nat \<lfloor>x\<rfloor>)) - 6 / pi\<^sup>2 * x\<bar> \<le> of_rat bound * sqrt x"
      unfolding all by blast
  qed (use r(1) final safe [unfolded all] in blast)+
qed

lemma squarefree_scan_sound_witness:
  "\<exists>mu r. mobius_linear 5 = Inr mu \<and> check_squarefree_sample mu 1 5 1 = Inr r \<and> sq_final_count r = squarefree_count 5"
proof -
  obtain mu where mu: "mobius_linear 5 = Inr mu" using small_table by blast
  from squarefree_scan_sound [OF _ _ _ mu, of 1 5 1] mu show ?thesis by auto
qed

end
