(* ===== verification/ChunkChain.thy ===== *)
theory ChunkChain
  imports Sieve CampaignIO
begin

text \<open>
  Model of the hash-linked chunk records of \<open>tg_verifier/arithmetic.py\<close>: the record, its canonical
  body and hash, creation, and the verifier of a chain.  Fields carry the types of their annotations,
  so the \<open>isinstance\<close> branches disappear and \<open>_integer_tuple\<close> is the identity.
\<close>

section \<open>\<open>json.dumps\<close> with \<open>ensure_ascii=True\<close>\<close>

definition ascii_escape :: "nat \<Rightarrow> pystr" where
  "ascii_escape c =
     (if c = 34 then [92, 34] else if c = 92 then [92, 92]
      else if c = 10 then [92, 110] else if c = 13 then [92, 114]
      else if c = 9 then [92, 116] else if c = 12 then [92, 102]
      else if c = 8 then [92, 98]
      else if 32 \<le> c \<and> c \<le> 126 then [c]
      else if c < 0x10000 then [92, 117] @ to_hex 4 c
      else [92, 117] @ to_hex 4 (0xD800 + (c - 0x10000) div 1024) @ [92, 117] @ to_hex 4 (0xDC00 + (c - 0x10000) mod 1024))"

definition ascii_string :: "pystr \<Rightarrow> pystr" where
  "ascii_string s = [34] @ concat (map ascii_escape s) @ [34]"

text \<open>The body holds integers, strings, lists of them, and is itself the only dictionary.\<close>

function ascii_json :: "pyval \<Rightarrow> pystr" where
  "ascii_json PNone = lit ''null''"
| "ascii_json (PBool b) = (if b then lit ''true'' else lit ''false'')"
| "ascii_json (PInt i) = dec_int i"
| "ascii_json (PStr s) = ascii_string s"
| "ascii_json (PList vs) = [91] @ join_comma (map ascii_json vs) @ [93]"
| "ascii_json (PDict d) =
     [123] @ join_comma (map (\<lambda>(k, v). ascii_string k @ [58] @ ascii_json v) (sort_key fst d)) @ [125]"
| "ascii_json (PFloat _) = []"
| "ascii_json (POther _) = []"
  by pat_completeness auto
termination
  by (relation "measure size") (auto dest: size_item size_element simp del: pyval.size)

section \<open>Records\<close>

definition CHUNK_SCHEMA_VERSION :: int where "CHUNK_SCHEMA_VERSION = 1"
definition ZERO_SHA256 :: pystr where "ZERO_SHA256 = replicate 64 48"

record chunk_record =
  ch_schema_version :: int
  ch_algorithm :: pystr
  ch_lo :: int
  ch_hi :: int
  ch_constants_digest :: pystr
  ch_previous_hash :: pystr
  ch_incoming_state :: "int list"
  ch_outgoing_state :: "int list"
  ch_summary :: "int list"
  ch_payload_digest :: pystr
  ch_record_hash :: pystr

definition chunk_body :: "chunk_record \<Rightarrow> pyval" where
  "chunk_body r = PDict (map (\<lambda>(k, v). (lit k, v))
     [(''algorithm'', PStr (ch_algorithm r)), (''constants_digest'', PStr (ch_constants_digest r)), (''hi'', PInt (ch_hi r)),
      (''incoming_state'', PList (map PInt (ch_incoming_state r))), (''lo'', PInt (ch_lo r)),
      (''outgoing_state'', PList (map PInt (ch_outgoing_state r))), (''payload_digest'', PStr (ch_payload_digest r)),
      (''previous_hash'', PStr (ch_previous_hash r)), (''schema_version'', PInt (ch_schema_version r)),
      (''summary'', PList (map PInt (ch_summary r)))])"

text \<open>\<open>json.dumps\<close> raises \<open>ValueError\<close> on an integer beyond the digit limit; the body nests only twice.\<close>

definition canonical_body_bytes :: "chunk_record \<Rightarrow> bytes res" where
  "canonical_body_bytes r = ebind (dump_check None (chunk_body r)) (\<lambda>_. utf8_encode (ascii_json (chunk_body r)))"

definition chunk_sha256_bytes :: "bytes \<Rightarrow> pystr" where
  "chunk_sha256_bytes payload = sha256_hex payload"

definition recomputed_hash :: "chunk_record \<Rightarrow> pystr res" where
  "recomputed_hash r = ebind (canonical_body_bytes r) (\<lambda>body. Inr (chunk_sha256_bytes body))"

definition require_digest :: "pystr \<Rightarrow> pystr res" where
  "require_digest digest = (if hex_string 64 digest then Inr digest else Inl ChunkVerificationError)"

text \<open>\<open>_require_int\<close> inside \<open>try ... except (TypeError, ValueError)\<close>.\<close>

definition checked_min :: "int \<Rightarrow> int \<Rightarrow> int res" where
  "checked_min minimum value = catch_as (\<lambda>e. e = TypeError \<or> value_error e) ChunkVerificationError (require_min minimum value)"

text \<open>The message for another schema version formats it, under the digit limit.\<close>

definition validate_chunk_fields :: "chunk_record \<Rightarrow> bool \<Rightarrow> unit res" where
  "validate_chunk_fields r check_hash =
     ebind (checked_min 1 (ch_schema_version r)) (\<lambda>schema_version.
     if schema_version \<noteq> CHUNK_SCHEMA_VERSION then
       Inl (if int_digits_ok (ch_schema_version r) then ChunkVerificationError else ValueError)
     else if ch_algorithm r = [] then Inl ChunkVerificationError
     else ebind (utf8_encode (ch_algorithm r)) (\<lambda>encoded.
     if length encoded > 256 then Inl ChunkVerificationError
     else ebind (checked_min 0 (ch_lo r)) (\<lambda>lo. ebind (checked_min 0 (ch_hi r)) (\<lambda>hi.
     if hi \<le> lo then Inl ChunkVerificationError
     else ebind (require_digest (ch_constants_digest r)) (\<lambda>_.
     ebind (require_digest (ch_previous_hash r)) (\<lambda>_.
     ebind (require_digest (ch_payload_digest r)) (\<lambda>_.
     ebind (require_digest (ch_record_hash r)) (\<lambda>_.
     if check_hash then ebind (recomputed_hash r) (\<lambda>h.
       if h \<noteq> ch_record_hash r then Inl ChunkVerificationError else Inr ())
     else Inr ()))))))))"

definition create_chunk_record ::
  "pystr \<Rightarrow> int \<Rightarrow> int \<Rightarrow> int list \<Rightarrow> int list \<Rightarrow> int list \<Rightarrow> bytes \<Rightarrow> bytes \<Rightarrow> pystr \<Rightarrow> chunk_record res" where
  "create_chunk_record algorithm lo hi incoming_state outgoing_state summary constants payload previous_hash =
     (let r = \<lparr>ch_schema_version = CHUNK_SCHEMA_VERSION, ch_algorithm = algorithm, ch_lo = lo, ch_hi = hi,
            ch_constants_digest = chunk_sha256_bytes constants, ch_previous_hash = previous_hash,
            ch_incoming_state = incoming_state, ch_outgoing_state = outgoing_state, ch_summary = summary,
            ch_payload_digest = chunk_sha256_bytes payload, ch_record_hash = ZERO_SHA256\<rparr>
      in ebind (validate_chunk_fields r False) (\<lambda>_.
         ebind (recomputed_hash r) (\<lambda>h.
         let result = r\<lparr>ch_record_hash := h\<rparr>
         in ebind (validate_chunk_fields result True) (\<lambda>_. Inr result))))"

section \<open>Chains\<close>

record chain_verification =
  cn_algorithm :: pystr
  cn_lo :: int
  cn_hi :: int
  cn_chunks :: nat
  cn_constants_digest :: pystr
  cn_final_state :: "int list"
  cn_final_hash :: pystr

text \<open>The optional expectations of a caller.\<close>

record chain_expectation =
  ce_payloads :: "bytes list option"
  ce_algorithm :: "pystr option"
  ce_constants_digest :: "pystr option"
  ce_lo :: "int option"
  ce_hi :: "int option"
  ce_initial_state :: "int list option"
  ce_final_state :: "int list option"
  ce_previous_hash :: pystr

definition no_expectation :: chain_expectation where
  "no_expectation = \<lparr>ce_payloads = None, ce_algorithm = None, ce_constants_digest = None, ce_lo = None, ce_hi = None,
     ce_initial_state = None, ce_final_state = None, ce_previous_hash = ZERO_SHA256\<rparr>"

text \<open>\<open>expected is not None and value != expected\<close>.\<close>

definition mismatch :: "'a \<Rightarrow> 'a option \<Rightarrow> bool" where
  "mismatch value expected \<longleftrightarrow> (case expected of None \<Rightarrow> False | Some e \<Rightarrow> value \<noteq> e)"

definition link_broken :: "chunk_record option \<Rightarrow> chunk_record \<Rightarrow> bool" where
  "link_broken previous r \<longleftrightarrow> (case previous of None \<Rightarrow> False
     | Some p \<Rightarrow> ch_previous_hash r \<noteq> ch_record_hash p \<or> ch_lo r \<noteq> ch_hi p \<or> ch_incoming_state r \<noteq> ch_outgoing_state p)"

text \<open>The loop over the records, each with its payload when payloads were given.\<close>

fun chain_loop :: "pystr \<Rightarrow> pystr \<Rightarrow> chunk_record option \<Rightarrow> (chunk_record \<times> bytes option) list \<Rightarrow> chunk_record option res" where
  "chain_loop algorithm constants previous [] = Inr previous"
| "chain_loop algorithm constants previous ((r, payload) # rest) =
     ebind (validate_chunk_fields r True) (\<lambda>_.
     if ch_algorithm r \<noteq> algorithm then Inl ChunkVerificationError
     else if ch_constants_digest r \<noteq> constants then Inl ChunkVerificationError
     else if (case payload of None \<Rightarrow> False | Some p \<Rightarrow> chunk_sha256_bytes p \<noteq> ch_payload_digest r) then Inl ChunkVerificationError
     else if link_broken previous r then Inl ChunkVerificationError
     else chain_loop algorithm constants (Some r) rest)"

definition check_expectation :: "chunk_record list \<Rightarrow> chain_expectation \<Rightarrow> unit res" where
  "check_expectation records e =
     ebind (require_digest (ce_previous_hash e)) (\<lambda>_.
     ebind (case ce_constants_digest e of None \<Rightarrow> Inr () | Some d \<Rightarrow> ebind (require_digest d) (\<lambda>_. Inr ())) (\<lambda>_.
     if (case ce_payloads e of None \<Rightarrow> False | Some ps \<Rightarrow> length ps \<noteq> length records) then Inl ChunkVerificationError
     else ebind (case ce_lo e of None \<Rightarrow> Inr () | Some lo \<Rightarrow> ebind (checked_min 0 lo) (\<lambda>_. Inr ())) (\<lambda>_.
     case ce_hi e of None \<Rightarrow> Inr ()
     | Some hi \<Rightarrow> ebind (checked_min 0 hi) (\<lambda>hi.
         if (case ce_lo e of None \<Rightarrow> False | Some lo \<Rightarrow> hi \<le> lo) then Inl ChunkVerificationError else Inr ()))))"

definition verify_chunk_chain :: "chunk_record list \<Rightarrow> chain_expectation \<Rightarrow> chain_verification res" where
  "verify_chunk_chain records e =
     (case records of [] \<Rightarrow> Inl ChunkVerificationError
      | first # _ \<Rightarrow>
        ebind (check_expectation records e) (\<lambda>_.
        ebind (validate_chunk_fields first True) (\<lambda>_.
        if mismatch (ch_algorithm first) (ce_algorithm e) then Inl ChunkVerificationError
        else if mismatch (ch_constants_digest first) (ce_constants_digest e) then Inl ChunkVerificationError
        else if ch_previous_hash first \<noteq> ce_previous_hash e then Inl ChunkVerificationError
        else if mismatch (ch_lo first) (ce_lo e) then Inl ChunkVerificationError
        else if mismatch (ch_incoming_state first) (ce_initial_state e) then Inl ChunkVerificationError
        else
          let payloads = (case ce_payloads e of None \<Rightarrow> replicate (length records) None | Some ps \<Rightarrow> map Some ps)
          in ebind (chain_loop (ch_algorithm first) (ch_constants_digest first) None (zip records payloads)) (\<lambda>previous.
            case previous of None \<Rightarrow> Inl ChunkVerificationError
            | Some last_record \<Rightarrow>
              if mismatch (ch_hi last_record) (ce_hi e) then Inl ChunkVerificationError
              else if mismatch (ch_outgoing_state last_record) (ce_final_state e) then Inl ChunkVerificationError
              else Inr \<lparr>cn_algorithm = ch_algorithm first, cn_lo = ch_lo first, cn_hi = ch_hi last_record,
                cn_chunks = length records, cn_constants_digest = ch_constants_digest first,
                cn_final_state = ch_outgoing_state last_record, cn_final_hash = ch_record_hash last_record\<rparr>))))"

definition check_chunk_chain :: "chunk_record list \<Rightarrow> chain_expectation \<Rightarrow> bool res" where
  "check_chunk_chain records e = (case verify_chunk_chain records e of Inr _ \<Rightarrow> Inr True
     | Inl x \<Rightarrow> if x = ChunkVerificationError \<or> x = TypeError \<or> value_error x then Inr False else Inl x)"

end
