(* ===== verification/ChunkChain_Facts.thy ===== *)
theory ChunkChain_Facts
  imports ChunkChain JsonText_Facts Encodable
begin

text \<open>
  The body of a chunk record determines the record: the ASCII encoding is read back by the JSON string
  scanner, so the digest of a body commits to all of its fields.  Then the chain in closed form.
\<close>

section \<open>ASCII text\<close>

lemma hex_digits_ascii: "list_all (\<lambda>c. c < 128) (to_hex n x)"
  using to_hex_hex_string [of n x] by (auto simp: hex_string_def list_all_iff is_hex_digit_def)

lemma ascii_escape_ascii: "list_all (\<lambda>c. c < 128) (ascii_escape c)"
  using hex_digits_ascii by (auto simp: ascii_escape_def list_all_append)

lemma ascii_string_ascii: "list_all (\<lambda>c. c < 128) (ascii_string s)"
  using ascii_escape_ascii by (auto simp: ascii_string_def list_all_iff)

lemma join_comma_all: "P 44 \<Longrightarrow> (\<And>x. x \<in> set xs \<Longrightarrow> list_all P x) \<Longrightarrow> list_all P (join_comma xs)"
  by (induction xs rule: join_comma.induct) auto

lemma dec_int_ascii: "list_all (\<lambda>c. c < 128) (dec_int i)"
  using dec_nat_digits [of "nat i"] dec_nat_digits [of "nat (- i)"] by (auto simp: dec_int_def list_all_iff)

lemma ascii_json_ascii: "list_all (\<lambda>c. c < 128) (ascii_json v)"
proof (induction v rule: ascii_json.induct)
  case (5 vs)
  then show ?case by (auto intro!: join_comma_all)
next
  case (6 d)
  then show ?case using ascii_string_ascii by (auto intro!: join_comma_all)
qed (use dec_int_ascii ascii_string_ascii in \<open>auto simp: lit_def\<close>)

text \<open>The integers of a record, all of which its body prints.\<close>

definition record_ints :: "chunk_record \<Rightarrow> int list" where
  "record_ints r = [ch_schema_version r, ch_lo r, ch_hi r] @ ch_incoming_state r @ ch_outgoing_state r @ ch_summary r"

lemma printable_body: "printable (chunk_body r) \<longleftrightarrow> list_all int_digits_ok (record_ints r)"
  by (auto simp: chunk_body_def record_ints_def list_all_iff)

lemma canonical_body_text:
  "canonical_body_bytes r =
     (if list_all int_digits_ok (record_ints r) then utf8_encode (ascii_json (chunk_body r)) else Inl ValueError)"
  by (simp add: canonical_body_bytes_def dump_check_None printable_body)

lemma canonical_body_total: "list_all int_digits_ok (record_ints r) \<Longrightarrow> \<exists>body. canonical_body_bytes r = Inr body"
proof -
  assume ints: "list_all int_digits_ok (record_ints r)"
  have "list_all valid_char (ascii_json (chunk_body r))"
    using ascii_json_ascii [of "chunk_body r"] valid_ascii by (auto simp: list_all_iff)
  from utf8_text_valid [OF this] ints show ?thesis by (auto simp: canonical_body_text utf8_encode_def)
qed

lemma utf8_encode_valid: "utf8_encode s = Inr u \<Longrightarrow> list_all valid_char s"
proof -
  have "utf8_text s = Inr w \<Longrightarrow> list_all valid_char s" for w
  proof (induction s arbitrary: w)
    case (Cons c s)
    then obtain x y where "utf8_char c = Inr x" "utf8_text s = Inr y" by (auto simp: res_simps)
    with Cons.IH [of y] show ?case by (auto simp: utf8_char_def valid_char_def split: if_splits)
  qed simp
  then show "utf8_encode s = Inr u \<Longrightarrow> list_all valid_char s" by (auto simp: utf8_encode_def res_simps)
qed

section \<open>Reading an ASCII string back\<close>

lemma scan_ascii_escape:
  assumes "valid_char c"
  shows "scan_string (ascii_escape c @ s) = ebind (scan_string s) (\<lambda>(t, r). Inr (c # t, r))"
proof -
  consider (short) e where "ascii_escape c = [92, e]" "simple_escape e = Some c" "e \<noteq> 117"
    | (plain) "ascii_escape c = [c]" "32 \<le> c" "c \<noteq> 34" "c \<noteq> 92"
    | (uni) "ascii_escape c = [92, 117] @ to_hex 4 c" "c < 65536"
    | (two) "ascii_escape c = [92, 117] @ to_hex 4 (0xD800 + (c - 0x10000) div 1024) @ [92, 117] @ to_hex 4 (0xDC00 + (c - 0x10000) mod 1024)"
        "65536 \<le> c"
    unfolding ascii_escape_def simple_escape_def
    by (cases "c \<in> {34, 92, 10, 13, 9, 12, 8}"; cases "32 \<le> c \<and> c \<le> 126"; cases "c < 65536") auto
  then show ?thesis
  proof cases
    case short
    then show ?thesis by (simp add: scan_string.simps next_is_def)
  next
    case plain
    then show ?thesis by (simp add: scan_string.simps)
  next
    case uni
    have "pair_surrogates c s = (c, s)" using assms by (auto simp: pair_surrogates_def valid_char_def)
    with uni hex4_to_hex [of c s] show ?thesis by (simp add: scan_string.simps next_is_def)
  next
    case two
    define hi lo where "hi = 0xD800 + (c - 0x10000) div 1024" and "lo = 0xDC00 + (c - 0x10000) mod 1024"
    have small: "(c - 0x10000) div 1024 < 1024" using assms by (auto simp: valid_char_def)
    then have units: "0xD800 \<le> hi" "hi < 0xDC00" "hi < 65536" "0xDC00 \<le> lo" "lo < 0xE000" "lo < 65536"
      by (simp_all add: hi_def lo_def less_diff_conv2 [symmetric])
    have joined: "0x10000 + (hi - 0xD800) * 1024 + (lo - 0xDC00) = c"
      using two(2) div_mult_mod_eq [of "c - 0x10000" 1024] by (simp add: hi_def lo_def)
    have "pair_surrogates hi (92 # 117 # to_hex 4 lo @ s) = (c, s)"
      using units hex4_to_hex [OF units(6), of s] joined by (simp add: pair_surrogates_def next_is_def)
    moreover have "hex4 (to_hex 4 hi @ 92 # 117 # to_hex 4 lo @ s) = Inr (hi, 92 # 117 # to_hex 4 lo @ s)"
      by (rule hex4_to_hex [OF units(3)])
    ultimately show ?thesis
      using two(1) by (simp add: scan_string.simps next_is_def hi_def [symmetric] lo_def [symmetric])
  qed
qed

lemma scan_ascii_string: "list_all valid_char t \<Longrightarrow> scan_string (concat (map ascii_escape t) @ 34 # r) = Inr (t, r)"
  by (induction t) (simp_all add: scan_ascii_escape scan_string.simps)

lemma ascii_string_inj:
  assumes "list_all valid_char a" "list_all valid_char b" "ascii_string a @ r = ascii_string b @ s"
  shows "a = b \<and> r = s"
proof -
  have "concat (map ascii_escape a) @ 34 # r = concat (map ascii_escape b) @ 34 # s"
    using assms(3) by (simp add: ascii_string_def)
  from arg_cong [OF this, of scan_string] show ?thesis
    using scan_ascii_string [OF assms(1), of r] scan_ascii_string [OF assms(2), of s] by simp
qed

section \<open>The body determines the record\<close>

definition int_list_text :: "int list \<Rightarrow> pystr" where
  "int_list_text xs = [91] @ join_comma (map dec_int xs) @ [93]"

lemma int_list_text_inj: "int_list_text xs @ r = int_list_text ys @ s \<Longrightarrow> xs = ys \<and> r = s"
proof -
  assume eq: "int_list_text xs @ r = int_list_text ys @ s"
  show "xs = ys \<and> r = s"
  proof (rule join_readable)
    show "x = y \<and> r' = s'" if "dec_int x @ r' = dec_int y @ s'" "stops r'" "stops s'" for x y r' s'
      using dec_int_inj [OF that] .
    show "\<exists>c u. dec_int x = c # u \<and> c \<noteq> 93" for x
      using hd_dec_nat [of "nat x"] by (auto simp: dec_int_def)
    show "join_comma (map dec_int xs) @ [93] @ r = join_comma (map dec_int ys) @ [93] @ s"
      using eq by (simp add: int_list_text_def)
  qed auto
qed

definition key_text :: "string \<Rightarrow> pystr" where
  "key_text k = ascii_string (lit k) @ [58]"

lemma body_text:
  "ascii_json (chunk_body r) = [123] @ key_text ''algorithm'' @ ascii_string (ch_algorithm r) @
     [44] @ key_text ''constants_digest'' @ ascii_string (ch_constants_digest r) @
     [44] @ key_text ''hi'' @ dec_int (ch_hi r) @
     [44] @ key_text ''incoming_state'' @ int_list_text (ch_incoming_state r) @
     [44] @ key_text ''lo'' @ dec_int (ch_lo r) @
     [44] @ key_text ''outgoing_state'' @ int_list_text (ch_outgoing_state r) @
     [44] @ key_text ''payload_digest'' @ ascii_string (ch_payload_digest r) @
     [44] @ key_text ''previous_hash'' @ ascii_string (ch_previous_hash r) @
     [44] @ key_text ''schema_version'' @ dec_int (ch_schema_version r) @
     [44] @ key_text ''summary'' @ int_list_text (ch_summary r) @ [125]"
proof -
  let ?d = "map (\<lambda>(k, v). (lit k, v))
     [(''algorithm'', PStr (ch_algorithm r)), (''constants_digest'', PStr (ch_constants_digest r)), (''hi'', PInt (ch_hi r)),
      (''incoming_state'', PList (map PInt (ch_incoming_state r))), (''lo'', PInt (ch_lo r)),
      (''outgoing_state'', PList (map PInt (ch_outgoing_state r))), (''payload_digest'', PStr (ch_payload_digest r)),
      (''previous_hash'', PStr (ch_previous_hash r)), (''schema_version'', PInt (ch_schema_version r)),
      (''summary'', PList (map PInt (ch_summary r)))]"
  have "sorted (map fst ?d)" by (simp add: lit_def)
  then have "sort_key fst ?d = ?d" by (rule sort_key_id_if_sorted)
  moreover have "ascii_json \<circ> PInt = dec_int" by (simp add: fun_eq_iff)
  ultimately show ?thesis unfolding chunk_body_def ascii_json.simps
    by (simp add: key_text_def int_list_text_def)
qed

lemma stops_comma: "stops (44 # s)"
  by (simp add: stops_def)

lemma hex_string_chars: "hex_string n s \<Longrightarrow> list_all valid_char s"
  by (auto simp: hex_string_def list_all_iff is_hex_digit_def valid_char_def)

definition fields_ok :: "chunk_record \<Rightarrow> bool" where
  "fields_ok r \<longleftrightarrow> ch_schema_version r = 1 \<and> ch_algorithm r \<noteq> [] \<and>
     (\<exists>enc. utf8_encode (ch_algorithm r) = Inr enc \<and> length enc \<le> 256) \<and> 0 \<le> ch_lo r \<and> ch_lo r < ch_hi r \<and>
     hex_string 64 (ch_constants_digest r) \<and> hex_string 64 (ch_previous_hash r) \<and>
     hex_string 64 (ch_payload_digest r) \<and> hex_string 64 (ch_record_hash r)"

lemma body_inj:
  assumes "fields_ok a" "fields_ok b" "ascii_json (chunk_body a) = ascii_json (chunk_body b)"
  shows "a\<lparr>ch_record_hash := []\<rparr> = b\<lparr>ch_record_hash := []\<rparr>"
proof -
  note ints = int_list_text_inj and dec = dec_int_inj [OF _ stops_comma stops_comma]
  have valid: "list_all valid_char (ch_algorithm r) \<and> list_all valid_char (ch_constants_digest r) \<and>
      list_all valid_char (ch_payload_digest r) \<and> list_all valid_char (ch_previous_hash r)" if "fields_ok r" for r
    using that utf8_encode_valid hex_string_chars by (auto simp: fields_ok_def)
  note v = valid [OF assms(1)] valid [OF assms(2)]
  note eq = assms(3) [unfolded body_text, simplified]
  have 1: "ch_algorithm a = ch_algorithm b" using ascii_string_inj eq v by blast
  note eq = eq [unfolded 1, simplified]
  have 2: "ch_constants_digest a = ch_constants_digest b" using ascii_string_inj eq v by blast
  note eq = eq [unfolded 2, simplified]
  have 3: "ch_hi a = ch_hi b" using dec [OF eq] by blast
  note eq = eq [unfolded 3, simplified]
  have 4: "ch_incoming_state a = ch_incoming_state b" using ints [OF eq] by blast
  note eq = eq [unfolded 4, simplified]
  have 5: "ch_lo a = ch_lo b" using dec [OF eq] by blast
  note eq = eq [unfolded 5, simplified]
  have 6: "ch_outgoing_state a = ch_outgoing_state b" using ints [OF eq] by blast
  note eq = eq [unfolded 6, simplified]
  have 7: "ch_payload_digest a = ch_payload_digest b" using ascii_string_inj eq v by blast
  note eq = eq [unfolded 7, simplified]
  have 8: "ch_previous_hash a = ch_previous_hash b" using ascii_string_inj eq v by blast
  note eq = eq [unfolded 8, simplified]
  have 9: "ch_schema_version a = ch_schema_version b" using dec [OF eq] by blast
  note eq = eq [unfolded 9, simplified]
  have 10: "ch_summary a = ch_summary b" using int_list_text_inj [of "ch_summary a" "[]" "ch_summary b" "[]"] eq by simp
  show ?thesis using 1 2 3 4 5 6 7 8 9 10 by (cases a; cases b) simp
qed

end
