(* ===== verification/ChunkChain_Chain.thy ===== *)
theory ChunkChain_Chain
  imports ChunkChain_Facts
begin

text \<open>
  What the chunk verifier accepts, in closed form: sealed records, links between neighbours and the
  caller's expectations.  The contract of a digest is interpreted on the records' bodies.
\<close>

section \<open>Fields\<close>

definition sealed :: "chunk_record \<Rightarrow> bool" where
  "sealed r \<longleftrightarrow> fields_ok r \<and> recomputed_hash r = Inr (ch_record_hash r)"

lemma checked_min_eq: "checked_min m v = (if v < m then Inl ChunkVerificationError else Inr v)"
  by (simp add: checked_min_def require_min_def)

lemma recomputed_hash_total:
  "list_all int_digits_ok (record_ints r) \<Longrightarrow> \<exists>h. recomputed_hash r = Inr h \<and> hex_string 64 h"
  using canonical_body_total [of r] by (auto simp: recomputed_hash_def chunk_sha256_bytes_def)

lemma recomputed_hash_oversized: "\<not> list_all int_digits_ok (record_ints r) \<Longrightarrow> recomputed_hash r = Inl ValueError"
  by (simp add: recomputed_hash_def canonical_body_text)

lemma recomputed_hash_Inl: "recomputed_hash r = Inl x \<Longrightarrow> x = ValueError \<and> \<not> list_all int_digits_ok (record_ints r)"
  using recomputed_hash_total [of r] recomputed_hash_oversized [of r] by auto

lemma require_digest_Inr [res_simps]: "require_digest d = Inr x \<longleftrightarrow> hex_string 64 d \<and> x = d"
  by (auto simp: require_digest_def)

lemma require_digest_Inl: "require_digest d = Inl x \<longleftrightarrow> \<not> hex_string 64 d \<and> x = ChunkVerificationError"
  by (auto simp: require_digest_def)

lemma validate_chunk_fields_Inr:
  "validate_chunk_fields r chk = Inr u \<longleftrightarrow> fields_ok r \<and> (chk \<longrightarrow> recomputed_hash r = Inr (ch_record_hash r))"
  by (cases chk)
    (auto simp: validate_chunk_fields_def fields_ok_def checked_min_eq CHUNK_SCHEMA_VERSION_def res_simps)

lemma validate_sealed [simp]: "validate_chunk_fields r True = Inr () \<longleftrightarrow> sealed r"
  by (simp add: validate_chunk_fields_Inr sealed_def)

lemma validate_chunk_fields_Inl:
  assumes "validate_chunk_fields r chk = Inl x"
  shows "x = ChunkVerificationError \<or> (x = UnicodeEncodeError \<and> \<not> list_all valid_char (ch_algorithm r)) \<or>
    (x = ValueError \<and> \<not> list_all int_digits_ok (record_ints r))"
proof -
  have utf8: "x = UnicodeEncodeError \<and> \<not> list_all valid_char (ch_algorithm r)" if "utf8_encode (ch_algorithm r) = Inl x"
    using that utf8_text_valid [of "ch_algorithm r"] by (auto simp: utf8_encode_def ebind_Inl_iff dest: utf8_text_Inl)
  show ?thesis
    using assms utf8
    by (auto simp: validate_chunk_fields_def checked_min_eq ebind_Inl_iff require_digest_Inl record_ints_def
        split: if_splits dest: recomputed_hash_Inl)
qed

section \<open>The digest commits to the record\<close>

definition checked_body :: "chunk_record \<Rightarrow> bytes res" where
  "checked_body r = ebind (validate_chunk_fields r False) (\<lambda>_. canonical_body_bytes r)"

interpretation chunk: digest_commitment checked_body "\<lambda>r. r\<lparr>ch_record_hash := []\<rparr>"
proof unfold_locales
  fix a b s
  assume "checked_body a = Inr s" "checked_body b = Inr s"
  then have "fields_ok a" "fields_ok b" "utf8_encode (ascii_json (chunk_body a)) = Inr s"
    "utf8_encode (ascii_json (chunk_body b)) = Inr s"
    by (auto simp: checked_body_def validate_chunk_fields_Inr canonical_body_text res_simps split: if_splits)
  then show "a\<lparr>ch_record_hash := []\<rparr> = b\<lparr>ch_record_hash := []\<rparr>"
    using utf8_encode_inj body_inj by blast
qed

definition body_collision :: "chunk_record \<Rightarrow> chunk_record \<Rightarrow> bool" where
  "body_collision a b \<longleftrightarrow> (\<exists>s t. canonical_body_bytes a = Inr s \<and> canonical_body_bytes b = Inr t \<and> sha_collision s t)"

lemma sealed_binds:
  assumes "sealed a" "sealed b" "ch_record_hash a = ch_record_hash b" "\<not> body_collision a b"
  shows "a = b"
proof -
  obtain s t where st: "canonical_body_bytes a = Inr s" "canonical_body_bytes b = Inr t"
    using assms(1,2) by (auto simp: sealed_def recomputed_hash_def res_simps)
  then have "checked_body a = Inr s" "checked_body b = Inr t" "sha256_hex s = sha256_hex t"
    using assms by (auto simp: sealed_def checked_body_def validate_chunk_fields_Inr recomputed_hash_def chunk_sha256_bytes_def res_simps)
  then have "a\<lparr>ch_record_hash := []\<rparr> = b\<lparr>ch_record_hash := []\<rparr>"
    using chunk.digest_binds [of a s b t] assms(4) st by (auto simp: body_collision_def)
  with assms(3) show ?thesis by (cases a; cases b) simp
qed

section \<open>Accepted chains\<close>

definition payload_ok :: "chunk_record \<Rightarrow> bytes option \<Rightarrow> bool" where
  "payload_ok r p \<longleftrightarrow> (case p of None \<Rightarrow> True | Some b \<Rightarrow> chunk_sha256_bytes b = ch_payload_digest r)"

definition follows :: "chunk_record \<Rightarrow> chunk_record \<Rightarrow> bool" where
  "follows p r \<longleftrightarrow> ch_previous_hash r = ch_record_hash p \<and> ch_lo r = ch_hi p \<and> ch_incoming_state r = ch_outgoing_state p"

fun linked :: "chunk_record list \<Rightarrow> bool" where
  "linked (p # r # rest) \<longleftrightarrow> follows p r \<and> linked (r # rest)"
| "linked _ \<longleftrightarrow> True"

lemma linked_append: "linked (xs @ [p, r]) \<longleftrightarrow> linked (xs @ [p]) \<and> follows p r"
  by (induction xs rule: linked.induct) auto

lemma linked_snoc: "xs \<noteq> [] \<Longrightarrow> linked (xs @ [r]) \<longleftrightarrow> linked xs \<and> follows (last xs) r"
proof -
  assume "xs \<noteq> []"
  then have "xs = butlast xs @ [last xs]" by simp
  with linked_append [of "butlast xs" "last xs" r] show ?thesis by (metis append.assoc append_Cons append_Nil)
qed

definition step_ok :: "pystr \<Rightarrow> pystr \<Rightarrow> chunk_record \<times> bytes option \<Rightarrow> bool" where
  "step_ok algorithm constants = (\<lambda>(r, p). sealed r \<and> ch_algorithm r = algorithm \<and> ch_constants_digest r = constants \<and> payload_ok r p)"

definition opt_list :: "'a option \<Rightarrow> 'a list" where
  "opt_list q = (case q of None \<Rightarrow> [] | Some x \<Rightarrow> [x])"

lemma opt_list_simps [simp]: "opt_list None = []" "opt_list (Some x) = [x]"
  by (simp_all add: opt_list_def)

lemma link_not_broken: "\<not> link_broken previous r \<longleftrightarrow> linked (opt_list previous @ [r])"
  by (cases previous) (auto simp: link_broken_def follows_def)

lemma linked_split: "linked (opt_list previous @ r # rs) \<longleftrightarrow> linked (opt_list previous @ [r]) \<and> linked (r # rs)"
  by (cases previous) auto

lemma chain_loop_Inr:
  "chain_loop algorithm constants previous rps = Inr q \<longleftrightarrow>
     list_all (step_ok algorithm constants) rps \<and> linked (opt_list previous @ map fst rps) \<and>
     q = (if rps = [] then previous else Some (last (map fst rps)))"
proof (induction rps arbitrary: previous)
  case Nil
  then show ?case by (cases previous) auto
next
  case (Cons rp rps)
  obtain r p where rp: "rp = (r, p)" by (cases rp)
  have payload: "\<not> (case p of None \<Rightarrow> False | Some b \<Rightarrow> chunk_sha256_bytes b \<noteq> ch_payload_digest r) \<longleftrightarrow> payload_ok r p"
    by (cases p) (auto simp: payload_ok_def)
  have "chain_loop algorithm constants previous (rp # rps) = Inr q \<longleftrightarrow>
      step_ok algorithm constants rp \<and> linked (opt_list previous @ [r]) \<and> chain_loop algorithm constants (Some r) rps = Inr q"
    unfolding rp link_not_broken [symmetric]
    by (auto simp: res_simps step_ok_def payload [symmetric])
  also have "... \<longleftrightarrow> list_all (step_ok algorithm constants) (rp # rps) \<and> linked (opt_list previous @ map fst (rp # rps)) \<and>
      q = (if rp # rps = [] then previous else Some (last (map fst (rp # rps))))"
    using linked_split [of previous r "map fst rps"] by (auto simp: Cons.IH rp)
  finally show ?case .
qed

lemma linked_nth: "linked xs \<longleftrightarrow> (\<forall>i. Suc i < length xs \<longrightarrow> follows (xs ! i) (xs ! Suc i))"
proof (induction xs rule: linked.induct)
  case (1 p r rest)
  show ?case
    unfolding linked.simps(1) 1 by (auto simp: less_Suc_eq_0_disj nth_Cons split: nat.splits)
qed simp_all

text \<open>What the caller may ask for.\<close>

definition request_ok :: "chunk_record list \<Rightarrow> chain_expectation \<Rightarrow> bool" where
  "request_ok records e \<longleftrightarrow> hex_string 64 (ce_previous_hash e) \<and>
     (case ce_constants_digest e of None \<Rightarrow> True | Some d \<Rightarrow> hex_string 64 d) \<and>
     (case ce_payloads e of None \<Rightarrow> True | Some ps \<Rightarrow> length ps = length records) \<and>
     (case ce_lo e of None \<Rightarrow> True | Some lo \<Rightarrow> 0 \<le> lo) \<and>
     (case ce_hi e of None \<Rightarrow> True
      | Some hi \<Rightarrow> 0 \<le> hi \<and> (case ce_lo e of None \<Rightarrow> True | Some lo \<Rightarrow> lo < hi))"

definition meets :: "'a \<Rightarrow> 'a option \<Rightarrow> bool" where
  "meets v expected \<longleftrightarrow> expected = None \<or> expected = Some v"

lemma mismatch_meets: "mismatch v x \<longleftrightarrow> \<not> meets v x"
  by (cases x) (auto simp: mismatch_def meets_def)

definition chain_accepts :: "chunk_record list \<Rightarrow> chain_expectation \<Rightarrow> bool" where
  "chain_accepts records e \<longleftrightarrow> records \<noteq> [] \<and> request_ok records e \<and>
     list_all (\<lambda>r. sealed r \<and> ch_algorithm r = ch_algorithm (hd records) \<and>
       ch_constants_digest r = ch_constants_digest (hd records)) records \<and>
     linked records \<and>
     (case ce_payloads e of None \<Rightarrow> True | Some ps \<Rightarrow> map chunk_sha256_bytes ps = map ch_payload_digest records) \<and>
     ch_previous_hash (hd records) = ce_previous_hash e \<and>
     meets (ch_algorithm (hd records)) (ce_algorithm e) \<and> meets (ch_constants_digest (hd records)) (ce_constants_digest e) \<and>
     meets (ch_lo (hd records)) (ce_lo e) \<and> meets (ch_incoming_state (hd records)) (ce_initial_state e) \<and>
     meets (ch_hi (last records)) (ce_hi e) \<and> meets (ch_outgoing_state (last records)) (ce_final_state e)"

definition chain_summary :: "chunk_record list \<Rightarrow> chain_verification" where
  "chain_summary records = \<lparr>cn_algorithm = ch_algorithm (hd records), cn_lo = ch_lo (hd records), cn_hi = ch_hi (last records),
     cn_chunks = length records, cn_constants_digest = ch_constants_digest (hd records),
     cn_final_state = ch_outgoing_state (last records), cn_final_hash = ch_record_hash (last records)\<rparr>"

lemma check_expectation_Inr: "check_expectation records e = Inr u \<longleftrightarrow> request_ok records e"
  by (auto simp: check_expectation_def request_ok_def checked_min_eq res_simps split: option.splits if_splits)

lemma check_expectation_Inl: "check_expectation records e = Inl x \<Longrightarrow> x = ChunkVerificationError"
  by (auto simp: check_expectation_def checked_min_eq ebind_Inl_iff require_digest_Inl split: option.splits if_splits)

text \<open>What makes a record raise something else than \<open>ChunkVerificationError\<close>.\<close>

definition chunk_raises :: "chunk_record list \<Rightarrow> exc \<Rightarrow> bool" where
  "chunk_raises records x \<longleftrightarrow> x = ChunkVerificationError \<or>
     (x = UnicodeEncodeError \<and> (\<exists>r \<in> set records. \<not> list_all valid_char (ch_algorithm r))) \<or>
     (x = ValueError \<and> (\<exists>r \<in> set records. \<not> list_all int_digits_ok (record_ints r)))"

lemma validate_raises: "validate_chunk_fields r chk = Inl x \<Longrightarrow> r \<in> set records \<Longrightarrow> chunk_raises records x"
  unfolding chunk_raises_def using validate_chunk_fields_Inl by blast

lemma chain_loop_Inl:
  "chain_loop algorithm constants previous rps = Inl x \<Longrightarrow> fst ` set rps \<subseteq> set records \<Longrightarrow> chunk_raises records x"
proof (induction algorithm constants previous rps rule: chain_loop.induct)
  case (2 algorithm constants previous r payload rest)
  then show ?case
    by (cases "validate_chunk_fields r True")
      (auto simp: chunk_raises_def [of _ ChunkVerificationError] intro: validate_raises split: if_splits)
qed simp

lemma verify_chunk_chain_Inl: "verify_chunk_chain records e = Inl x \<Longrightarrow> chunk_raises records x"
proof -
  assume *: "verify_chunk_chain records e = Inl x"
  have loop: "chunk_raises records x" if "chain_loop a c None (zip records ps) = Inl x" for a c ps
    by (rule chain_loop_Inl [OF that]) (auto dest: set_zip_leftD)
  show ?thesis
  proof (cases records)
    case Nil
    with * show ?thesis by (simp add: verify_chunk_chain_def chunk_raises_def)
  next
    case (Cons r rest)
    define ps where "ps = (case ce_payloads e of None \<Rightarrow> replicate (length records) None | Some ps \<Rightarrow> map Some ps)"
    consider "x = ChunkVerificationError" | "validate_chunk_fields r True = Inl x"
      | a c where "chain_loop a c None (zip records ps) = Inl x"
      using * unfolding verify_chunk_chain_def ps_def [symmetric] Let_def
      by (auto simp: Cons ebind_Inl_iff simp del: zip_Cons_Cons chain_loop.simps
          dest: check_expectation_Inl split: option.splits if_splits)
    then show ?thesis
    proof cases
      case 1
      then show ?thesis by (simp add: chunk_raises_def)
    next
      case 2
      then show ?thesis by (rule validate_raises) (simp add: Cons)
    qed (rule loop)
  qed
qed

definition chain_pairs :: "chunk_record list \<Rightarrow> chain_expectation \<Rightarrow> (chunk_record \<times> bytes option) list" where
  "chain_pairs records e =
     zip records (case ce_payloads e of None \<Rightarrow> replicate (length records) None | Some ps \<Rightarrow> map Some ps)"

lemma chain_pairs_ok:
  assumes "request_ok records e"
  shows "map fst (chain_pairs records e) = records"
    and "list_all (step_ok a c) (chain_pairs records e) \<longleftrightarrow>
      list_all (\<lambda>r. sealed r \<and> ch_algorithm r = a \<and> ch_constants_digest r = c) records \<and>
      (case ce_payloads e of None \<Rightarrow> True | Some ps \<Rightarrow> map chunk_sha256_bytes ps = map ch_payload_digest records)"
proof -
  show "map fst (chain_pairs records e) = records"
    using assms by (auto simp: chain_pairs_def request_ok_def split: option.splits)
  show "list_all (step_ok a c) (chain_pairs records e) \<longleftrightarrow>
      list_all (\<lambda>r. sealed r \<and> ch_algorithm r = a \<and> ch_constants_digest r = c) records \<and>
      (case ce_payloads e of None \<Rightarrow> True | Some ps \<Rightarrow> map chunk_sha256_bytes ps = map ch_payload_digest records)"
  proof (cases "ce_payloads e")
    case None
    then show ?thesis by (auto simp: chain_pairs_def list_all_length step_ok_def payload_ok_def)
  next
    case (Some ps)
    then have "length ps = length records" using assms by (simp add: request_ok_def)
    then show ?thesis
      using Some by (auto simp: chain_pairs_def list_all_length step_ok_def payload_ok_def list_eq_iff_nth_eq)
  qed
qed

lemma verify_chunk_chain_Inr:
  "verify_chunk_chain records e = Inr c \<longleftrightarrow> chain_accepts records e \<and> c = chain_summary records"
proof (cases records)
  case Nil
  then show ?thesis by (simp add: verify_chunk_chain_def chain_accepts_def)
next
  case (Cons first rest)
  define rps where "rps = chain_pairs records e"
  have "verify_chunk_chain records e = Inr c \<longleftrightarrow> request_ok records e \<and> sealed first \<and>
      meets (ch_algorithm first) (ce_algorithm e) \<and> meets (ch_constants_digest first) (ce_constants_digest e) \<and>
      ch_previous_hash first = ce_previous_hash e \<and> meets (ch_lo first) (ce_lo e) \<and>
      meets (ch_incoming_state first) (ce_initial_state e) \<and>
      (\<exists>l. chain_loop (ch_algorithm first) (ch_constants_digest first) None rps = Inr (Some l) \<and>
        meets (ch_hi l) (ce_hi e) \<and> meets (ch_outgoing_state l) (ce_final_state e) \<and>
        c = \<lparr>cn_algorithm = ch_algorithm first, cn_lo = ch_lo first, cn_hi = ch_hi l,
          cn_chunks = length records, cn_constants_digest = ch_constants_digest first,
          cn_final_state = ch_outgoing_state l, cn_final_hash = ch_record_hash l\<rparr>)"
    unfolding verify_chunk_chain_def rps_def chain_pairs_def
    by (auto simp: Cons Let_def res_simps mismatch_meets check_expectation_Inr split: option.splits)
  also have "... \<longleftrightarrow> chain_accepts records e \<and> c = chain_summary records"
  proof (cases "request_ok records e")
    case True
    have "rps \<noteq> []" "map fst rps = records" using chain_pairs_ok(1) [OF True] Cons by (auto simp: rps_def)
    then show ?thesis
      unfolding chain_loop_Inr chain_accepts_def chain_summary_def
      using chain_pairs_ok(2) [OF True] True Cons by (auto simp: rps_def)
  qed (simp add: chain_accepts_def)
  finally show ?thesis .
qed

end
