(* ===== verification/ChunkChain_Claims.thy ===== *)
theory ChunkChain_Claims
  imports ChunkChain_Chain
begin

text \<open>
  The properties of hash-linked chunk chains: what acceptance means, that the final hash commits to the
  whole chain, that chains grow by created records, and how the checks fail.
\<close>

section \<open>Coverage\<close>

definition chunk_points :: "chunk_record list \<Rightarrow> int \<Rightarrow> chunk_record list" where
  "chunk_points records x = filter (\<lambda>r. ch_lo r \<le> x \<and> x < ch_hi r) records"

lemma linked_tiles:
  "linked records \<Longrightarrow> records \<noteq> [] \<Longrightarrow> list_all (\<lambda>r. ch_lo r < ch_hi r) records \<Longrightarrow>
     ch_lo (hd records) < ch_hi (last records) \<and>
     length (chunk_points records x) = (if ch_lo (hd records) \<le> x \<and> x < ch_hi (last records) then 1 else 0)"
proof (induction records rule: linked.induct)
  case (1 p r rest)
  then show ?case by (auto simp: chunk_points_def follows_def split: if_splits)
qed (auto simp: chunk_points_def)

lemma accepted_facts:
  assumes "verify_chunk_chain records e = Inr c"
  shows "records \<noteq> []" "linked records" "list_all sealed records" "list_all (\<lambda>r. ch_lo r < ch_hi r) records"
    "ch_previous_hash (hd records) = ce_previous_hash e" "c = chain_summary records"
proof -
  have acc: "chain_accepts records e" and c: "c = chain_summary records"
    using assms by (simp_all add: verify_chunk_chain_Inr)
  show "records \<noteq> []" "linked records" "ch_previous_hash (hd records) = ce_previous_hash e"
    using acc unfolding chain_accepts_def by blast+
  show sealed: "list_all sealed records" using acc unfolding chain_accepts_def list_all_iff by blast
  show "list_all (\<lambda>r. ch_lo r < ch_hi r) records"
    using sealed by (simp add: list_all_iff sealed_def fields_ok_def)
  show "c = chain_summary records" by (rule c)
qed

text \<open>C14:
  An accepted chain is what it claims to be.  Every record is well formed, hashes to its own record
  hash and names the reported algorithm and constants; each point of the reported range lies in exactly
  one record and no other point in any; neighbours agree on the boundary, the state and the hash; the
  first record meets the expected anchor, algorithm, constants, start and state, the last one the
  expected end and state, and every payload supplied is the one its record commits to.
\<close>

theorem verified_chain_sound:
  assumes "verify_chunk_chain records e = Inr c"
  shows "(\<forall>r \<in> set records. fields_ok r \<and> recomputed_hash r = Inr (ch_record_hash r) \<and>
            ch_algorithm r = cn_algorithm c \<and> ch_constants_digest r = cn_constants_digest c) \<and>
         (\<forall>x. length (chunk_points records x) = (if cn_lo c \<le> x \<and> x < cn_hi c then 1 else 0)) \<and>
         (\<forall>i. Suc i < length records \<longrightarrow> ch_lo (records ! Suc i) = ch_hi (records ! i) \<and>
            ch_incoming_state (records ! Suc i) = ch_outgoing_state (records ! i) \<and>
            ch_previous_hash (records ! Suc i) = ch_record_hash (records ! i)) \<and>
         ch_previous_hash (records ! 0) = ce_previous_hash e \<and>
         meets (cn_algorithm c) (ce_algorithm e) \<and> meets (cn_constants_digest c) (ce_constants_digest e) \<and>
         meets (cn_lo c) (ce_lo e) \<and> meets (ch_incoming_state (records ! 0)) (ce_initial_state e) \<and>
         meets (cn_hi c) (ce_hi e) \<and> meets (cn_final_state c) (ce_final_state e) \<and>
         cn_chunks c = length records \<and> cn_final_hash c = ch_record_hash (last records) \<and>
         (\<forall>ps. ce_payloads e = Some ps \<longrightarrow> map chunk_sha256_bytes ps = map ch_payload_digest records)"
proof -
  note facts = accepted_facts [OF assms]
  have acc: "chain_accepts records e" using assms by (simp add: verify_chunk_chain_Inr)
  have hd: "records ! 0 = hd records" using facts(1) by (simp add: hd_conv_nth)
  have c: "cn_algorithm c = ch_algorithm (hd records)" "cn_constants_digest c = ch_constants_digest (hd records)"
      "cn_lo c = ch_lo (hd records)" "cn_hi c = ch_hi (last records)" "cn_final_state c = ch_outgoing_state (last records)"
      "cn_chunks c = length records" "cn_final_hash c = ch_record_hash (last records)"
    unfolding facts(6) chain_summary_def by simp_all
  have 1: "\<forall>r \<in> set records. fields_ok r \<and> recomputed_hash r = Inr (ch_record_hash r) \<and>
      ch_algorithm r = cn_algorithm c \<and> ch_constants_digest r = cn_constants_digest c"
    using acc unfolding chain_accepts_def list_all_iff sealed_def c by blast
  have 2: "\<forall>x. length (chunk_points records x) = (if cn_lo c \<le> x \<and> x < cn_hi c then 1 else 0)"
    using linked_tiles [OF facts(2,1,4)] unfolding c by blast
  have 3: "\<forall>i. Suc i < length records \<longrightarrow> follows (records ! i) (records ! Suc i)"
    using facts(2) by (simp add: linked_nth)
  have 4: "meets (cn_algorithm c) (ce_algorithm e)" "meets (cn_constants_digest c) (ce_constants_digest e)"
      "meets (cn_lo c) (ce_lo e)" "meets (ch_incoming_state (hd records)) (ce_initial_state e)"
      "meets (cn_hi c) (ce_hi e)" "meets (cn_final_state c) (ce_final_state e)"
      "\<forall>ps. ce_payloads e = Some ps \<longrightarrow> map chunk_sha256_bytes ps = map ch_payload_digest records"
    using acc unfolding chain_accepts_def c by (auto simp del: list_all_iff)
  show ?thesis unfolding hd using 1 2 3 4 facts(5) c(6,7) unfolding follows_def by blast
qed

section \<open>The final hash\<close>

lemma linked_butlast: "linked (xs @ [p, r]) \<Longrightarrow> linked (xs @ [p]) \<and> follows p r"
  by (simp add: linked_append)

lemma chains_bind:
  assumes "linked xs" "linked ys" "xs \<noteq> []" "ys \<noteq> []" "list_all sealed xs" "list_all sealed ys"
    "ch_record_hash (last xs) = ch_record_hash (last ys)"
    "\<And>a b. a \<in> set xs \<Longrightarrow> b \<in> set ys \<Longrightarrow> \<not> body_collision a b"
    "\<And>a. a \<in> set xs \<Longrightarrow> ch_record_hash a \<noteq> ch_previous_hash (hd ys)"
    "\<And>b. b \<in> set ys \<Longrightarrow> ch_record_hash b \<noteq> ch_previous_hash (hd xs)"
  shows "xs = ys"
  using assms
proof (induction xs arbitrary: ys rule: rev_induct)
  case (snoc x xs)
  obtain y ys' where ys: "ys = ys' @ [y]" using snoc.prems(4) by (cases ys rule: rev_cases) auto
  have xy: "x = y" using snoc.prems(5,6,7,8) sealed_binds [of x y] by (simp add: ys)
  show ?case
  proof (cases "xs = []"; cases "ys' = []")
    assume "xs \<noteq> []" "ys' \<noteq> []"
    have "linked xs" "linked ys'" "ch_record_hash (last xs) = ch_record_hash (last ys')"
      using snoc.prems(1,2) \<open>xs \<noteq> []\<close> \<open>ys' \<noteq> []\<close> xy by (auto simp: ys linked_snoc follows_def)
    then have "xs = ys'"
      using snoc.prems \<open>xs \<noteq> []\<close> \<open>ys' \<noteq> []\<close> by (intro snoc.IH) (auto simp: ys)
    with xy ys show ?thesis by simp
  next
    assume "xs = []" "ys' \<noteq> []"
    then have "ch_record_hash (last ys') = ch_previous_hash (hd (xs @ [x]))"
      using snoc.prems(2) xy by (simp add: ys linked_snoc follows_def)
    then show ?thesis using snoc.prems(10) [of "last ys'"] \<open>ys' \<noteq> []\<close> by (simp add: ys)
  next
    assume "xs \<noteq> []" "ys' = []"
    then have "ch_record_hash (last xs) = ch_previous_hash (hd ys)"
      using snoc.prems(1) xy by (simp add: ys linked_snoc follows_def)
    then show ?thesis using snoc.prems(9) [of "last xs"] \<open>xs \<noteq> []\<close> by simp
  qed (simp add: ys xy)
qed simp

text \<open>C21:
  The final hash of a chain commits to all of it.  Two accepted chains with the same final hash are the
  same list of records, unless two of their bodies are an explicit SHA-256 collision, or a record of one
  chain hashes to the anchor that the other one was verified against.
\<close>

theorem chain_hash_binds:
  assumes "verify_chunk_chain records e = Inr c" "verify_chunk_chain records' e' = Inr c'"
    "cn_final_hash c = cn_final_hash c'"
  shows "records = records' \<or>
    (\<exists>r \<in> set records. \<exists>r' \<in> set records'. \<exists>s t. canonical_body_bytes r = Inr s \<and>
       canonical_body_bytes r' = Inr t \<and> sha_collision s t) \<or>
    (\<exists>r \<in> set records. ch_record_hash r = ce_previous_hash e') \<or>
    (\<exists>r \<in> set records'. ch_record_hash r = ce_previous_hash e)"
proof -
  note f = accepted_facts [OF assms(1)] and f' = accepted_facts [OF assms(2)]
  have "ch_record_hash (last records) = ch_record_hash (last records')"
    using assms(3) f(6) f'(6) by (simp add: chain_summary_def)
  from chains_bind [OF f(2) f'(2) f(1) f'(1) f(3) f'(3) this] show ?thesis
    unfolding f(5) f'(5) body_collision_def by blast
qed

section \<open>Creating records\<close>

lemma recomputed_hash_update [simp]: "recomputed_hash (r\<lparr>ch_record_hash := h\<rparr>) = recomputed_hash r"
  by (simp add: recomputed_hash_def canonical_body_bytes_def chunk_body_def)

lemma small_ints_ok: "list_all int_digits_ok (record_ints r) \<longleftrightarrow>
    list_all int_digits_ok ([ch_lo r, ch_hi r] @ ch_incoming_state r @ ch_outgoing_state r @ ch_summary r)"
  if "ch_schema_version r = 1"
  using that by (simp add: record_ints_def int_digits_okI)

lemma sealed_ints: "sealed r \<Longrightarrow> list_all int_digits_ok (record_ints r)"
  using recomputed_hash_oversized [of r] by (auto simp: sealed_def)

definition algorithm_ok :: "pystr \<Rightarrow> bool" where
  "algorithm_ok a \<longleftrightarrow> a \<noteq> [] \<and> (\<exists>enc. utf8_encode a = Inr enc \<and> length enc \<le> 256)"

lemma ZERO_SHA256_hex [simp]: "hex_string 64 ZERO_SHA256"
  by (simp add: hex_string_def ZERO_SHA256_def is_hex_digit_def list_all_iff)

lemma create_chunk_record_eq:
  assumes "algorithm_ok a" "0 \<le> lo" "lo < hi" "hex_string 64 prev"
    "list_all int_digits_ok ([lo, hi] @ inc @ out @ sm)"
  obtains r where "create_chunk_record a lo hi inc out sm constants payload prev = Inr r" "sealed r"
    "ch_algorithm r = a" "ch_lo r = lo" "ch_hi r = hi" "ch_constants_digest r = chunk_sha256_bytes constants"
    "ch_previous_hash r = prev" "ch_incoming_state r = inc" "ch_outgoing_state r = out"
    "ch_payload_digest r = chunk_sha256_bytes payload"
proof -
  define r0 where "r0 = \<lparr>ch_schema_version = CHUNK_SCHEMA_VERSION, ch_algorithm = a, ch_lo = lo, ch_hi = hi,
       ch_constants_digest = chunk_sha256_bytes constants, ch_previous_hash = prev, ch_incoming_state = inc,
       ch_outgoing_state = out, ch_summary = sm, ch_payload_digest = chunk_sha256_bytes payload, ch_record_hash = ZERO_SHA256\<rparr>"
  have "list_all int_digits_ok (record_ints r0)"
    using assms(5) by (simp add: r0_def small_ints_ok CHUNK_SCHEMA_VERSION_def)
  then obtain h where h: "recomputed_hash r0 = Inr h" "hex_string 64 h" using recomputed_hash_total by blast
  have ok: "fields_ok (r0\<lparr>ch_record_hash := d\<rparr>)" if "hex_string 64 d" for d
    using assms that by (simp add: r0_def fields_ok_def algorithm_ok_def CHUNK_SCHEMA_VERSION_def chunk_sha256_bytes_def)
  have "r0\<lparr>ch_record_hash := ZERO_SHA256\<rparr> = r0" by (simp add: r0_def)
  then have "validate_chunk_fields r0 False = Inr ()"
    using ok [of ZERO_SHA256] by (simp add: validate_chunk_fields_Inr)
  moreover have s: "sealed (r0\<lparr>ch_record_hash := h\<rparr>)" using ok [OF h(2)] h(1) by (simp add: sealed_def)
  moreover have "validate_chunk_fields (r0\<lparr>ch_record_hash := h\<rparr>) True = Inr ()" using s by (simp only: validate_sealed)
  ultimately have "create_chunk_record a lo hi inc out sm constants payload prev = Inr (r0\<lparr>ch_record_hash := h\<rparr>)"
    unfolding create_chunk_record_def r0_def [symmetric] Let_def by (simp add: h(1) del: validate_sealed)
  with s that show ?thesis by (simp add: r0_def)
qed

lemma created_sealed: "create_chunk_record a lo hi inc out sm constants payload prev = Inr r \<Longrightarrow> sealed r"
  by (auto simp: create_chunk_record_def Let_def res_simps)

text \<open>
  Chains grow by the records that the code creates.  From any accepted chain, a record created for the
  next range, with the reported algorithm, constants, final state and final hash and with integers within
  the digit limit, exists, and the
  extended chain is accepted against the same expectations of its start and payloads, reporting the
  new end, state, hash and one more chunk.
\<close>

theorem chain_extends:
  assumes "verify_chunk_chain records e = Inr c" "chunk_sha256_bytes constants = cn_constants_digest c" "cn_hi c < hi"
    "list_all int_digits_ok (hi # outgoing @ summary)"
  shows "\<exists>r. create_chunk_record (cn_algorithm c) (cn_hi c) hi (cn_final_state c) outgoing summary constants payload
             (cn_final_hash c) = Inr r \<and>
           verify_chunk_chain (records @ [r])
             (e\<lparr>ce_payloads := map_option (\<lambda>ps. ps @ [payload]) (ce_payloads e), ce_hi := None, ce_final_state := None\<rparr>) =
           Inr (c\<lparr>cn_hi := hi, cn_chunks := Suc (cn_chunks c), cn_final_state := outgoing, cn_final_hash := ch_record_hash r\<rparr>)"
proof -
  note f = accepted_facts [OF assms(1)]
  have acc: "chain_accepts records e" using assms(1) by (simp add: verify_chunk_chain_Inr)
  have c: "cn_algorithm c = ch_algorithm (hd records)" "cn_constants_digest c = ch_constants_digest (hd records)"
      "cn_lo c = ch_lo (hd records)" "cn_hi c = ch_hi (last records)" "cn_final_state c = ch_outgoing_state (last records)"
      "cn_chunks c = length records" "cn_final_hash c = ch_record_hash (last records)"
    unfolding f(6) chain_summary_def by simp_all
  have "sealed (hd records)" "sealed (last records)" using f(1,3) by (simp_all add: list_all_iff)
  then have "algorithm_ok (cn_algorithm c)" "0 \<le> cn_hi c" "hex_string 64 (cn_final_hash c)"
    unfolding c by (auto simp: sealed_def fields_ok_def algorithm_ok_def)
  note ok = this
  have "list_all int_digits_ok ([cn_hi c, hi] @ cn_final_state c @ outgoing @ summary)"
    using sealed_ints [OF \<open>sealed (last records)\<close>] assms(4) unfolding c by (simp add: record_ints_def)
  from create_chunk_record_eq [OF ok(1,2) assms(3) ok(3) this,
      where constants = constants and payload = payload]
  obtain r where r: "create_chunk_record (cn_algorithm c) (cn_hi c) hi (cn_final_state c) outgoing summary constants payload
        (cn_final_hash c) = Inr r" "sealed r" "ch_algorithm r = cn_algorithm c" "ch_lo r = cn_hi c" "ch_hi r = hi"
      "ch_constants_digest r = chunk_sha256_bytes constants" "ch_previous_hash r = cn_final_hash c"
      "ch_incoming_state r = cn_final_state c" "ch_outgoing_state r = outgoing" "ch_payload_digest r = chunk_sha256_bytes payload" .
  let ?e = "e\<lparr>ce_payloads := map_option (\<lambda>ps. ps @ [payload]) (ce_payloads e), ce_hi := None, ce_final_state := None\<rparr>"
  have all: "list_all (\<lambda>r. sealed r \<and> ch_algorithm r = cn_algorithm c \<and> ch_constants_digest r = cn_constants_digest c) records"
    using acc unfolding chain_accepts_def c by blast
  then have "list_all (\<lambda>r. sealed r \<and> ch_algorithm r = cn_algorithm c \<and> ch_constants_digest r = cn_constants_digest c) (records @ [r])"
    using r(2,3,6) assms(2) by simp
  moreover have "follows (last records) r" using r(4,7,8) unfolding c by (simp add: follows_def)
  then have "linked (records @ [r])" using f(1,2) by (simp add: linked_snoc)
  moreover have "request_ok (records @ [r]) ?e"
    using acc unfolding chain_accepts_def by (auto simp: request_ok_def split: option.splits)
  moreover have "case ce_payloads ?e of None \<Rightarrow> True
      | Some ps \<Rightarrow> map chunk_sha256_bytes ps = map ch_payload_digest (records @ [r])"
    using acc unfolding chain_accepts_def using r(10) by (cases "ce_payloads e") auto
  moreover have "meets (ch_algorithm (hd records)) (ce_algorithm e)" "meets (ch_constants_digest (hd records)) (ce_constants_digest e)"
      "meets (ch_lo (hd records)) (ce_lo e)" "meets (ch_incoming_state (hd records)) (ce_initial_state e)"
    using acc unfolding chain_accepts_def by blast+
  ultimately have "chain_accepts (records @ [r]) ?e"
    unfolding chain_accepts_def c using f(1,5) by (simp add: meets_def)
  moreover have "chain_summary (records @ [r]) =
      c\<lparr>cn_hi := hi, cn_chunks := Suc (cn_chunks c), cn_final_state := outgoing, cn_final_hash := ch_record_hash r\<rparr>"
    unfolding f(6) using f(1) r(5,9) by (simp add: chain_summary_def)
  ultimately show ?thesis using r(1) by (auto simp: verify_chunk_chain_Inr)
qed

section \<open>Failure\<close>

text \<open>A record whose summary holds an integer one digit over the limit.\<close>

definition oversized_record :: chunk_record where
  "oversized_record = \<lparr>ch_schema_version = 1, ch_algorithm = lit ''kat'', ch_lo = 0, ch_hi = 10,
     ch_constants_digest = chunk_sha256_bytes [], ch_previous_hash = ZERO_SHA256, ch_incoming_state = [], ch_outgoing_state = [],
     ch_summary = [10 ^ INT_MAX_STR_DIGITS], ch_payload_digest = chunk_sha256_bytes [], ch_record_hash = ZERO_SHA256\<rparr>"

lemma kat_encodes: "utf8_encode (lit ''kat'') = Inr [107, 97, 116]"
  by (simp add: utf8_encode_def utf8_char_def lit_def)

lemma oversized_facts:
  "fields_ok oversized_record" "recomputed_hash oversized_record = Inl ValueError"
proof -
  show "fields_ok oversized_record"
    using kat_encodes by (simp add: fields_ok_def oversized_record_def chunk_sha256_bytes_def lit_def)
  have "\<not> int_digits_ok (10 ^ INT_MAX_STR_DIGITS)" by (simp add: int_digits_ok_iff)
  then have "\<not> list_all int_digits_ok (record_ints oversized_record)"
    by (simp add: record_ints_def oversized_record_def)
  then show "recomputed_hash oversized_record = Inl ValueError" by (rule recomputed_hash_oversized)
qed

lemma no_expectation_ok: "check_expectation records no_expectation = Inr ()"
  by (simp add: check_expectation_Inr request_ok_def no_expectation_def)

lemma oversized_raises:
  "create_chunk_record (lit ''kat'') 0 10 [] [] [10 ^ INT_MAX_STR_DIGITS] [] [] ZERO_SHA256 = Inl ValueError"
  "verify_chunk_chain (oversized_record # rest) no_expectation = Inl ValueError"
proof -
  have fields: "validate_chunk_fields oversized_record False = Inr ()"
    using oversized_facts(1) by (simp add: validate_chunk_fields_Inr)
  then show "create_chunk_record (lit ''kat'') 0 10 [] [] [10 ^ INT_MAX_STR_DIGITS] [] [] ZERO_SHA256 = Inl ValueError"
    using oversized_facts(2) by (simp add: create_chunk_record_def oversized_record_def CHUNK_SCHEMA_VERSION_def)
  have "validate_chunk_fields oversized_record True = Inl ValueError"
    using fields oversized_facts(2) by (auto simp: validate_chunk_fields_def ebind_Inl_iff res_simps split: if_splits)
  then show "verify_chunk_chain (oversized_record # rest) no_expectation = Inl ValueError"
    by (simp add: verify_chunk_chain_def no_expectation_ok)
qed

lemma surrogate_raises:
  "create_chunk_record [0xD800] lo hi incoming outgoing summary constants payload previous = Inl UnicodeEncodeError"
  "verify_chunk_chain (r\<lparr>ch_schema_version := 1, ch_algorithm := [0xD800]\<rparr> # rest) no_expectation = Inl UnicodeEncodeError"
proof -
  have enc: "utf8_encode [0xD800] = Inl UnicodeEncodeError" by (simp add: utf8_encode_def utf8_char_def)
  have fields: "validate_chunk_fields q b = Inl UnicodeEncodeError" if "ch_schema_version q = 1" "ch_algorithm q = [0xD800]" for q b
    using that enc by (simp add: validate_chunk_fields_def checked_min_eq CHUNK_SCHEMA_VERSION_def)
  show "create_chunk_record [0xD800] lo hi incoming outgoing summary constants payload previous = Inl UnicodeEncodeError"
    by (simp add: create_chunk_record_def Let_def fields CHUNK_SCHEMA_VERSION_def)
  show "verify_chunk_chain (r\<lparr>ch_schema_version := 1, ch_algorithm := [0xD800]\<rparr> # rest) no_expectation = Inl UnicodeEncodeError"
    by (simp add: verify_chunk_chain_def fields no_expectation_ok)
qed

lemma chunk_raises_iff:
  "chunk_raises records x \<longleftrightarrow> x = ChunkVerificationError \<or>
     (x = UnicodeEncodeError \<and> (\<exists>r \<in> set records. \<not> list_all valid_char (ch_algorithm r))) \<or>
     (x = ValueError \<and> (\<exists>r \<in> set records. \<exists>i \<in> set (record_ints r). 10 ^ INT_MAX_STR_DIGITS \<le> \<bar>i\<bar>))"
  by (auto simp: chunk_raises_def list_all_iff int_digits_ok_iff not_less)

text \<open>C34:
  How the chunk checks fail.  \<open>check_chunk_chain\<close> never raises and returns true exactly on the acceptable
  chains.  \<open>verify_chunk_chain\<close> returns their summary, or raises one of three exceptions:
  \<open>ChunkVerificationError\<close>; \<open>UnicodeEncodeError\<close>, only when the algorithm name of a record holds a surrogate;
  a plain \<open>ValueError\<close>, only when an integer of a record has more digits than \<open>int\<close> prints.  The last two
  do occur, in the creation and in the verification of a record: for a name that is a lone surrogate, and
  for a well-formed record with an oversized summary, on which \<open>check_chunk_chain\<close> is false.
\<close>

theorem chunk_checks_fail_closed:
  "check_chunk_chain records e = Inr (chain_accepts records e) \<and>
   (case verify_chunk_chain records e of Inr c \<Rightarrow> c = chain_summary records
    | Inl x \<Rightarrow> x = ChunkVerificationError \<or>
        (x = UnicodeEncodeError \<and> (\<exists>r \<in> set records. \<not> list_all valid_char (ch_algorithm r))) \<or>
        (x = ValueError \<and> (\<exists>r \<in> set records. \<exists>i \<in> set (record_ints r). 10 ^ INT_MAX_STR_DIGITS \<le> \<bar>i\<bar>))) \<and>
   create_chunk_record [0xD800] lo hi incoming outgoing summary constants payload previous = Inl UnicodeEncodeError \<and>
   verify_chunk_chain (r\<lparr>ch_schema_version := 1, ch_algorithm := [0xD800]\<rparr> # rest) no_expectation = Inl UnicodeEncodeError \<and>
   create_chunk_record (lit ''kat'') 0 10 [] [] [10 ^ INT_MAX_STR_DIGITS] [] [] ZERO_SHA256 = Inl ValueError \<and>
   fields_ok oversized_record \<and> verify_chunk_chain (oversized_record # rest) no_expectation = Inl ValueError \<and>
   check_chunk_chain (oversized_record # rest) no_expectation = Inr False"
proof -
  have check: "check_chunk_chain q d = Inr (chain_accepts q d)" for q d
  proof (cases "verify_chunk_chain q d")
    case (Inl x)
    then have "\<not> chain_accepts q d" using verify_chunk_chain_Inr [of q d] by auto
    then show ?thesis using verify_chunk_chain_Inl [OF Inl] Inl by (auto simp: check_chunk_chain_def chunk_raises_def)
  next
    case (Inr c)
    then show ?thesis using verify_chunk_chain_Inr [of q d c] by (simp add: check_chunk_chain_def)
  qed
  moreover have "case verify_chunk_chain records e of Inr c \<Rightarrow> c = chain_summary records | Inl x \<Rightarrow> chunk_raises records x"
    using verify_chunk_chain_Inl [of records e] verify_chunk_chain_Inr [of records e] by (simp split: sum.splits)
  moreover have "check_chunk_chain (oversized_record # rest) no_expectation = Inr False"
    by (simp add: check_chunk_chain_def oversized_raises)
  ultimately show ?thesis
    using oversized_raises oversized_facts(1) surrogate_raises unfolding chunk_raises_iff by blast
qed

section \<open>A chain of one record\<close>

lemma single_chain:
  obtains r c where "create_chunk_record (lit ''kat'') 0 10 [0] [3] [] [] [] ZERO_SHA256 = Inr r" "ch_lo r = 0" "ch_hi r = 10"
    "verify_chunk_chain [r] no_expectation = Inr c" "cn_hi c = 10" "cn_constants_digest c = chunk_sha256_bytes []"
proof -
  have "algorithm_ok (lit ''kat'')" using kat_encodes by (simp add: algorithm_ok_def lit_def)
  from create_chunk_record_eq [OF this, of 0 10 ZERO_SHA256 "[0]" "[3]" "[]" "[]" "[]"]
  obtain r where r: "create_chunk_record (lit ''kat'') 0 10 [0] [3] [] [] [] ZERO_SHA256 = Inr r" "sealed r"
      "ch_lo r = 0" "ch_hi r = 10" "ch_previous_hash r = ZERO_SHA256" "ch_constants_digest r = chunk_sha256_bytes []"
    by (auto simp: int_digits_okI)
  then have "chain_accepts [r] no_expectation"
    by (simp add: chain_accepts_def request_ok_def no_expectation_def meets_def)
  then have "verify_chunk_chain [r] no_expectation = Inr (chain_summary [r])" by (simp add: verify_chunk_chain_Inr)
  with r that show thesis by (simp add: chain_summary_def)
qed

lemma verified_chain_sound_witness:
  "\<exists>r c. verify_chunk_chain [r] no_expectation = Inr c \<and> cn_hi c = 10 \<and> length (chunk_points [r] 7) = 1"
proof -
  obtain r c where rc: "verify_chunk_chain [r] no_expectation = Inr c" "ch_lo r = 0" "cn_hi c = 10"
    by (rule single_chain)
  have "cn_lo c = 0" using rc(1,2) by (simp add: verify_chunk_chain_Inr chain_summary_def)
  moreover have "\<forall>x. length (chunk_points [r] x) = (if cn_lo c \<le> x \<and> x < cn_hi c then 1 else 0)"
    using verified_chain_sound [OF rc(1)] by blast
  ultimately show ?thesis using rc(1,3) by (intro exI [of _ r] exI [of _ c]) simp
qed

lemma chain_hash_binds_witness:
  "\<exists>r c. verify_chunk_chain [r] no_expectation = Inr c \<and> verify_chunk_chain [r] (no_expectation\<lparr>ce_lo := Some 0\<rparr>) = Inr c \<and>
     ([r] = [r] \<or> (\<exists>s t. canonical_body_bytes r = Inr s \<and> canonical_body_bytes r = Inr t \<and> sha_collision s t) \<or>
      ch_record_hash r = ZERO_SHA256)"
proof -
  obtain r c where rc: "verify_chunk_chain [r] no_expectation = Inr c" "ch_lo r = 0"
    by (rule single_chain)
  then have *: "verify_chunk_chain [r] (no_expectation\<lparr>ce_lo := Some 0\<rparr>) = Inr c"
    by (simp add: verify_chunk_chain_Inr chain_accepts_def request_ok_def no_expectation_def meets_def)
  have "ce_previous_hash no_expectation = ZERO_SHA256" by (simp add: no_expectation_def)
  with chain_hash_binds [OF rc(1) * refl] rc(1) * show ?thesis by (intro exI [of _ r] exI [of _ c]) simp
qed

lemma chain_extends_witness:
  "\<exists>r q d. verify_chunk_chain [r, q] no_expectation = Inr d \<and> cn_hi d = 25 \<and> cn_final_state d = [8]"
proof -
  obtain r c where rc: "verify_chunk_chain [r] no_expectation = Inr c" "chunk_sha256_bytes [] = cn_constants_digest c" "cn_hi c < 25"
    by (rule single_chain) auto
  obtain q where q: "verify_chunk_chain ([r] @ [q]) (no_expectation\<lparr>ce_payloads := map_option (\<lambda>ps. ps @ [[]]) (ce_payloads no_expectation),
      ce_hi := None, ce_final_state := None\<rparr>) = Inr (c\<lparr>cn_hi := 25, cn_chunks := Suc (cn_chunks c), cn_final_state := [8], cn_final_hash := ch_record_hash q\<rparr>)"
    using chain_extends [OF rc, of "[8]" "[]" "[]"] by (auto simp: int_digits_okI)
  moreover have "no_expectation\<lparr>ce_payloads := map_option (\<lambda>ps. ps @ [[]]) (ce_payloads no_expectation), ce_hi := None, ce_final_state := None\<rparr> = no_expectation"
    by (simp add: no_expectation_def)
  ultimately have "verify_chunk_chain [r, q] no_expectation =
      Inr (c\<lparr>cn_hi := 25, cn_chunks := Suc (cn_chunks c), cn_final_state := [8], cn_final_hash := ch_record_hash q\<rparr>)" by simp
  then show ?thesis by (intro exI conjI) auto
qed

end
