(* ===== verification/ComplexDisk.thy ===== *)
theory ComplexDisk
  imports Rounding
begin

text \<open>
  Model of \<open>tg_verifier/complex_disk_mul_certificate.py\<close>: disks of the complex plane given by three
  binary64 words, the certificate that one disk contains the product of two others, its checker, and the
  generator that searches for the least auxiliary bounds.  The fields are integers; the Lean source
  around the literal is not modelled.
\<close>

section \<open>Disks and certificates\<close>

record raw_disk =
  dk_re_bits :: int
  dk_im_bits :: int
  dk_radius_bits :: int

record raw_mul =
  mc_left :: raw_disk
  mc_right :: raw_disk
  mc_output :: raw_disk
  mc_center_error_bits :: int
  mc_left_norm_bits :: int
  mc_right_norm_bits :: int

record disk =
  ds_re :: rat
  ds_im :: rat
  ds_radius :: rat

definition center_norm_sq :: "disk \<Rightarrow> rat" where
  "center_norm_sq d = ds_re d * ds_re d + ds_im d * ds_im d"

record mul_certificate =
  md_left :: disk
  md_right :: disk
  md_output :: disk
  md_center_error :: rat
  md_left_norm :: rat
  md_right_norm :: rat

definition center_error_sq :: "disk \<Rightarrow> disk \<Rightarrow> disk \<Rightarrow> rat" where
  "center_error_sq left right out =
     (let error_re = ds_re left * ds_re right - ds_im left * ds_im right - ds_re out;
          error_im = ds_re left * ds_im right + ds_im left * ds_re right - ds_im out
      in error_re * error_re + error_im * error_im)"

definition product_center_error_sq :: "mul_certificate \<Rightarrow> rat" where
  "product_center_error_sq c = center_error_sq (md_left c) (md_right c) (md_output c)"

definition required_output_radius :: "mul_certificate \<Rightarrow> rat" where
  "required_output_radius c = md_center_error c + md_left_norm c * ds_radius (md_right c)
     + md_right_norm c * ds_radius (md_left c) + ds_radius (md_left c) * ds_radius (md_right c)"

section \<open>Decoding\<close>

definition require_word :: "int \<Rightarrow> int res" where
  "require_word value = (if value < 0 \<or> value \<ge> WORD_LIMIT then Inl ComplexDiskCertificateError else Inr value)"

definition decode_finite_word :: "int \<Rightarrow> rat res" where
  "decode_finite_word value = ebind (require_word value) (\<lambda>word.
     catch_as (\<lambda>e. e = NonFiniteBinary64Error) ComplexDiskCertificateError (decode_finite word))"

definition decode_raw_disk :: "raw_disk \<Rightarrow> disk res" where
  "decode_raw_disk raw =
     ebind (decode_finite_word (dk_re_bits raw)) (\<lambda>re.
     ebind (decode_finite_word (dk_im_bits raw)) (\<lambda>im.
     ebind (decode_finite_word (dk_radius_bits raw)) (\<lambda>radius.
       Inr \<lparr>ds_re = re, ds_im = im, ds_radius = radius\<rparr>)))"

definition decode_certificate :: "raw_mul \<Rightarrow> mul_certificate res" where
  "decode_certificate raw =
     ebind (decode_raw_disk (mc_left raw)) (\<lambda>left.
     ebind (decode_raw_disk (mc_right raw)) (\<lambda>right.
     ebind (decode_raw_disk (mc_output raw)) (\<lambda>out.
     ebind (decode_finite_word (mc_center_error_bits raw)) (\<lambda>center_error.
     ebind (decode_finite_word (mc_left_norm_bits raw)) (\<lambda>left_norm.
     ebind (decode_finite_word (mc_right_norm_bits raw)) (\<lambda>right_norm.
       Inr \<lparr>md_left = left, md_right = right, md_output = out, md_center_error = center_error,
         md_left_norm = left_norm, md_right_norm = right_norm\<rparr>))))))"

section \<open>The least encoding above a square root\<close>

function sqrt_search :: "rat \<Rightarrow> int \<Rightarrow> int \<Rightarrow> int res" where
  "sqrt_search target lower upper =
     (if lower < upper then
        let middle = (lower + upper) div 2
        in ebind (decode_finite middle) (\<lambda>candidate.
             if candidate * candidate \<ge> target then sqrt_search target lower middle
             else sqrt_search target (middle + 1) upper)
      else Inr lower)"
  by pat_completeness auto
termination
  by (relation "measure (\<lambda>(_, lower, upper). nat (upper - lower))") auto

declare sqrt_search.simps [simp del]

definition minimal_sqrt_bound :: "rat \<Rightarrow> int res" where
  "minimal_sqrt_bound squared =
     (if squared < 0 then Inl ComplexDiskCertificateError
      else if squared > MAX_FINITE_VALUE * MAX_FINITE_VALUE then Inl ComplexDiskCertificateError
      else sqrt_search squared POSITIVE_ZERO MAX_FINITE)"

section \<open>Checking\<close>

text \<open>The two loops over labelled values.\<close>

fun check_nonnegative :: "rat list \<Rightarrow> unit res" where
  "check_nonnegative [] = Inr ()"
| "check_nonnegative (value # values) = (if value < 0 then Inl ComplexDiskCertificateError else check_nonnegative values)"

fun check_squared :: "(rat \<times> rat) list \<Rightarrow> unit res" where
  "check_squared [] = Inr ()"
| "check_squared ((squared_value, bound) # rest) =
     (if squared_value > bound * bound then Inl ComplexDiskCertificateError else check_squared rest)"

definition verify_raw_mul_certificate :: "raw_mul \<Rightarrow> mul_certificate res" where
  "verify_raw_mul_certificate raw = ebind (decode_certificate raw) (\<lambda>decoded.
     ebind (check_nonnegative [ds_radius (md_left decoded), ds_radius (md_right decoded), ds_radius (md_output decoded),
         md_center_error decoded, md_left_norm decoded, md_right_norm decoded]) (\<lambda>_.
     ebind (check_squared [(product_center_error_sq decoded, md_center_error decoded),
         (center_norm_sq (md_left decoded), md_left_norm decoded),
         (center_norm_sq (md_right decoded), md_right_norm decoded)]) (\<lambda>_.
       if required_output_radius decoded > ds_radius (md_output decoded) then Inl ComplexDiskCertificateError
       else Inr decoded)))"

definition check_raw_mul_certificate :: "raw_mul \<Rightarrow> bool res" where
  "check_raw_mul_certificate raw = (case verify_raw_mul_certificate raw of Inr _ \<Rightarrow> Inr True
     | Inl e \<Rightarrow> if e = ComplexDiskCertificateError \<or> e = TypeError \<or> value_error e \<or> e = OverflowError then Inr False else Inl e)"

definition generate_raw_mul_certificate :: "raw_disk \<Rightarrow> raw_disk \<Rightarrow> raw_disk \<Rightarrow> raw_mul res" where
  "generate_raw_mul_certificate left right out =
     ebind (decode_raw_disk left) (\<lambda>left_value.
     ebind (decode_raw_disk right) (\<lambda>right_value.
     ebind (decode_raw_disk out) (\<lambda>output_value.
     ebind (minimal_sqrt_bound (center_error_sq left_value right_value output_value)) (\<lambda>center_error.
     ebind (minimal_sqrt_bound (center_norm_sq left_value)) (\<lambda>left_norm.
     ebind (minimal_sqrt_bound (center_norm_sq right_value)) (\<lambda>right_norm.
       let certificate = \<lparr>mc_left = left, mc_right = right, mc_output = out, mc_center_error_bits = center_error,
             mc_left_norm_bits = left_norm, mc_right_norm_bits = right_norm\<rparr>
       in ebind (verify_raw_mul_certificate certificate) (\<lambda>_. Inr certificate)))))))"

fun check_minimal :: "(int \<times> rat) list \<Rightarrow> unit res" where
  "check_minimal [] = Inr ()"
| "check_minimal ((actual, squared_value) # rest) = ebind (minimal_sqrt_bound squared_value) (\<lambda>minimal.
     if actual \<noteq> minimal then Inl ComplexDiskCertificateError else check_minimal rest)"

definition verify_minimal_auxiliary_bounds :: "raw_mul \<Rightarrow> unit res" where
  "verify_minimal_auxiliary_bounds raw = ebind (verify_raw_mul_certificate raw) (\<lambda>decoded.
     check_minimal [(mc_center_error_bits raw, product_center_error_sq decoded),
       (mc_left_norm_bits raw, center_norm_sq (md_left decoded)),
       (mc_right_norm_bits raw, center_norm_sq (md_right decoded))])"

section \<open>The Lean literal\<close>

definition identifier_start :: "nat \<Rightarrow> bool" where
  "identifier_start c \<longleftrightarrow> 65 \<le> c \<and> c \<le> 90 \<or> 97 \<le> c \<and> c \<le> 122"

definition identifier_char :: "nat \<Rightarrow> bool" where
  "identifier_char c \<longleftrightarrow> identifier_start c \<or> 48 \<le> c \<and> c \<le> 57 \<or> c = 95 \<or> c = 39"

definition lean_identifier :: "pystr \<Rightarrow> bool" where
  "lean_identifier s = (case s of [] \<Rightarrow> False | c # rest \<Rightarrow> identifier_start c \<and> list_all identifier_char rest)"

definition lean_word :: "int \<Rightarrow> pystr res" where
  "lean_word word = ebind (require_word word) (\<lambda>w. Inr (lit ''0x'' @ to_hex 16 (nat w)))"

definition render_disk :: "raw_disk \<Rightarrow> pystr res" where
  "render_disk raw = ebind (decode_raw_disk raw) (\<lambda>_.
     ebind (lean_word (dk_re_bits raw)) (\<lambda>re. ebind (lean_word (dk_im_bits raw)) (\<lambda>im.
     ebind (lean_word (dk_radius_bits raw)) (\<lambda>radius.
       Inr ([0x27E8] @ re @ lit '', '' @ im @ lit '', '' @ radius @ [0x27E9])))))"

definition render_lean_literal :: "raw_mul \<Rightarrow> pystr \<Rightarrow> pystr res" where
  "render_lean_literal raw declaration =
     (if \<not> lean_identifier declaration then Inl ComplexDiskCertificateError
      else ebind (verify_raw_mul_certificate raw) (\<lambda>_.
        ebind (render_disk (mc_left raw)) (\<lambda>left. ebind (render_disk (mc_right raw)) (\<lambda>right.
        ebind (render_disk (mc_output raw)) (\<lambda>out.
        ebind (lean_word (mc_center_error_bits raw)) (\<lambda>center_error.
        ebind (lean_word (mc_left_norm_bits raw)) (\<lambda>left_norm.
        ebind (lean_word (mc_right_norm_bits raw)) (\<lambda>right_norm.
          Inr (lit ''def '' @ declaration @ lit '' : RawMulCertificate := {'' @ [10] @
            lit ''  left := '' @ left @ [10] @ lit ''  right := '' @ right @ [10] @ lit ''  output := '' @ out @ [10] @
            lit ''  centerErrorBoundBits := '' @ center_error @ [10] @
            lit ''  leftCenterNormBoundBits := '' @ left_norm @ [10] @
            lit ''  rightCenterNormBoundBits := '' @ right_norm @ [10] @ lit ''}'')))))))))"

end
