(* ===== verification/ComplexDisk_Claims.thy ===== *)
theory ComplexDisk_Claims
  imports ComplexDisk
begin

text \<open>
  The properties of the disk-multiplication certificates: the search finds the least encoding above a
  square root, an accepted certificate is true of the complex numbers in the disks, and the generator
  succeeds whenever any certificate for the three disks exists.
\<close>

section \<open>The search\<close>

text \<open>The squares of the nonnegative encodings increase, so halving finds the first one that reaches a value.\<close>

lemma positive_finite_value_square_mono:
  assumes "0 \<le> i" "i < j" "j \<le> MAX_FINITE"
  shows "positive_finite_value i * positive_finite_value i < positive_finite_value j * positive_finite_value j"
proof -
  have "0 \<le> positive_finite_value i" "positive_finite_value i < positive_finite_value j"
    using assms positive_finite_value_nonneg [of i] positive_finite_value_mono [of i j] by (auto simp: b64_const)
  then show ?thesis by (intro mult_strict_mono) auto
qed

interpretation sq: bisection "\<lambda>m. positive_finite_value m * positive_finite_value m" MAX_FINITE
  by unfold_locales (auto simp: b64_const intro: positive_finite_value_square_mono [unfolded b64_const])

abbreviation least_root :: "rat \<Rightarrow> int \<Rightarrow> bool" where
  "least_root \<equiv> first_above (\<lambda>m. positive_finite_value m * positive_finite_value m) MAX_FINITE"

lemma decode_magnitude:
  assumes "0 \<le> m" "m \<le> MAX_FINITE"
  shows "decode_finite m = Inr (positive_finite_value m)" "word64 m" "fin m" "b64val m = positive_finite_value m"
  using magnitude_word [OF assms] by auto

lemma sqrt_search_correct:
  assumes "0 \<le> lower" "lower \<le> upper" "upper \<le> MAX_FINITE" "v \<le> positive_finite_value upper * positive_finite_value upper"
    and "\<And>m. 0 \<le> m \<Longrightarrow> m < lower \<Longrightarrow> positive_finite_value m * positive_finite_value m < v"
  shows "\<exists>r. sqrt_search v lower upper = Inr r \<and> least_root v r"
  using assms
proof (induction v lower upper rule: sqrt_search.induct)
  case (1 v lower upper)
  let ?m = "(lower + upper) div 2"
  show ?case
  proof (cases "lower < upper")
    case False
    then have "least_root v lower"
      using "1.prems" by (auto simp: first_above_def) (meson not_le)
    with False show ?thesis by (simp add: sqrt_search.simps)
  next
    case True
    then have m: "0 \<le> ?m" "lower \<le> ?m" "?m < upper" using "1.prems" by auto
    have dec: "decode_finite ?m = Inr (positive_finite_value ?m)" using m "1.prems"(3) by (intro decode_magnitude) auto
    have step: "sqrt_search v lower upper = (if v \<le> positive_finite_value ?m * positive_finite_value ?m
        then sqrt_search v lower ?m else sqrt_search v (?m + 1) upper)"
      using True dec m "1.prems"(3) by (subst sqrt_search.simps) (simp add: Let_def)
    show ?thesis
    proof (cases "v \<le> positive_finite_value ?m * positive_finite_value ?m")
      case v: True
      have "\<exists>r. sqrt_search v lower ?m = Inr r \<and> least_root v r"
        using m "1.prems" v by (intro "1.IH"(1) [OF True refl dec v]) auto
      with step v show ?thesis by simp
    next
      case v: False
      have "positive_finite_value k * positive_finite_value k < v" if "0 \<le> k" "k < ?m + 1" for k
        using sq.mono_le [of k ?m] that m v "1.prems"(3) by auto
      then have "\<exists>r. sqrt_search v (?m + 1) upper = Inr r \<and> least_root v r"
        using m "1.prems" by (intro "1.IH"(2) [OF True refl dec v]) auto
      with step v show ?thesis by simp
    qed
  qed
qed

lemma minimal_sqrt_bound_cases:
  obtains (none) "minimal_sqrt_bound v = Inl ComplexDiskCertificateError" "v < 0 \<or> MAX_FINITE_VALUE * MAX_FINITE_VALUE < v"
  | (some) r where "minimal_sqrt_bound v = Inr r" "least_root v r" "0 \<le> v"
proof (cases "v < 0 \<or> MAX_FINITE_VALUE * MAX_FINITE_VALUE < v")
  case True
  then show thesis using none by (auto simp: minimal_sqrt_bound_def)
next
  case False
  then have "\<exists>r. sqrt_search v 0 MAX_FINITE = Inr r \<and> least_root v r"
    by (intro sqrt_search_correct) (auto simp: MAX_FINITE_VALUE_def b64_const)
  then show thesis using some False by (auto simp: minimal_sqrt_bound_def POSITIVE_ZERO_def)
qed

section \<open>What the checker accepts\<close>

definition finite_word :: "int \<Rightarrow> bool" where
  "finite_word w \<longleftrightarrow> word64 w \<and> fin w"

definition finite_disk :: "raw_disk \<Rightarrow> bool" where
  "finite_disk d \<longleftrightarrow> finite_word (dk_re_bits d) \<and> finite_word (dk_im_bits d) \<and> finite_word (dk_radius_bits d)"

definition disk_value :: "raw_disk \<Rightarrow> disk" where
  "disk_value d = \<lparr>ds_re = b64val (dk_re_bits d), ds_im = b64val (dk_im_bits d), ds_radius = b64val (dk_radius_bits d)\<rparr>"

lemma require_word_eq: "require_word w = (if word64 w then Inr w else Inl ComplexDiskCertificateError)"
  by (auto simp: require_word_def word64_def WORD_LIMIT_def)

lemma decode_finite_word_eq:
  "decode_finite_word w = (if finite_word w then Inr (b64val w) else Inl ComplexDiskCertificateError)"
  by (simp add: decode_finite_word_def require_word_eq finite_word_def)

lemma decode_raw_disk_eq:
  "decode_raw_disk d = (if finite_disk d then Inr (disk_value d) else Inl ComplexDiskCertificateError)"
  by (simp add: decode_raw_disk_def decode_finite_word_eq finite_disk_def disk_value_def)

definition mul_value :: "raw_mul \<Rightarrow> mul_certificate" where
  "mul_value raw = \<lparr>md_left = disk_value (mc_left raw), md_right = disk_value (mc_right raw), md_output = disk_value (mc_output raw),
     md_center_error = b64val (mc_center_error_bits raw), md_left_norm = b64val (mc_left_norm_bits raw),
     md_right_norm = b64val (mc_right_norm_bits raw)\<rparr>"

definition finite_mul :: "raw_mul \<Rightarrow> bool" where
  "finite_mul raw \<longleftrightarrow> finite_disk (mc_left raw) \<and> finite_disk (mc_right raw) \<and> finite_disk (mc_output raw) \<and>
     finite_word (mc_center_error_bits raw) \<and> finite_word (mc_left_norm_bits raw) \<and> finite_word (mc_right_norm_bits raw)"

lemma decode_certificate_eq:
  "decode_certificate raw = (if finite_mul raw then Inr (mul_value raw) else Inl ComplexDiskCertificateError)"
  by (simp add: decode_certificate_def decode_raw_disk_eq decode_finite_word_eq finite_mul_def mul_value_def)

text \<open>The conjunction that the checker decides.\<close>

definition well_formed :: "mul_certificate \<Rightarrow> bool" where
  "well_formed c \<longleftrightarrow> 0 \<le> ds_radius (md_left c) \<and> 0 \<le> ds_radius (md_right c) \<and> 0 \<le> ds_radius (md_output c) \<and>
     0 \<le> md_center_error c \<and> 0 \<le> md_left_norm c \<and> 0 \<le> md_right_norm c \<and>
     product_center_error_sq c \<le> (md_center_error c)\<^sup>2 \<and> center_norm_sq (md_left c) \<le> (md_left_norm c)\<^sup>2 \<and>
     center_norm_sq (md_right c) \<le> (md_right_norm c)\<^sup>2 \<and> required_output_radius c \<le> ds_radius (md_output c)"

lemma check_nonnegative_eq:
  "check_nonnegative vs = (if list_all (\<lambda>v. 0 \<le> v) vs then Inr () else Inl ComplexDiskCertificateError)"
  by (induction vs) auto

lemma check_squared_eq:
  "check_squared vs = (if list_all (\<lambda>(s, b). s \<le> b\<^sup>2) vs then Inr () else Inl ComplexDiskCertificateError)"
  by (induction vs rule: check_squared.induct) (auto simp: power2_eq_square)

lemma verify_raw_mul_certificate_eq:
  "verify_raw_mul_certificate raw =
     (if finite_mul raw \<and> well_formed (mul_value raw) then Inr (mul_value raw) else Inl ComplexDiskCertificateError)"
proof (cases "finite_mul raw")
  case True
  define c where "c = mul_value raw"
  have "verify_raw_mul_certificate raw =
      (if list_all (\<lambda>v. 0 \<le> v) [ds_radius (md_left c), ds_radius (md_right c), ds_radius (md_output c),
          md_center_error c, md_left_norm c, md_right_norm c] \<and>
        list_all (\<lambda>(s, b). s \<le> b\<^sup>2) [(product_center_error_sq c, md_center_error c),
          (center_norm_sq (md_left c), md_left_norm c), (center_norm_sq (md_right c), md_right_norm c)] \<and>
        required_output_radius c \<le> ds_radius (md_output c)
       then Inr c else Inl ComplexDiskCertificateError)"
    using True unfolding verify_raw_mul_certificate_def decode_certificate_eq check_nonnegative_eq check_squared_eq c_def [symmetric]
    by simp
  with True show ?thesis unfolding c_def [symmetric] by (simp add: well_formed_def)
qed (simp add: verify_raw_mul_certificate_def decode_certificate_eq)

section \<open>Soundness over the complex numbers\<close>

definition disk_points :: "raw_disk \<Rightarrow> complex set" where
  "disk_points d = {z. cmod (z - Complex (of_rat (b64val (dk_re_bits d))) (of_rat (b64val (dk_im_bits d)))) \<le> of_rat (b64val (dk_radius_bits d))}"

lemma cmod_le_of_square:
  assumes "a * a + b * b \<le> c\<^sup>2" "0 \<le> (c::rat)"
  shows "cmod (Complex (of_rat a) (of_rat b)) \<le> of_rat c"
proof -
  have "of_rat (a * a + b * b) \<le> (of_rat (c\<^sup>2) :: real)" using assms(1) by (simp only: of_rat_less_eq)
  moreover have "(cmod (Complex (of_rat a) (of_rat b)))\<^sup>2 = of_rat (a * a + b * b)"
    by (simp add: cmod_power2 of_rat_add of_rat_mult) (simp only: power2_eq_square)
  ultimately have "(cmod (Complex (of_rat a) (of_rat b)))\<^sup>2 \<le> (of_rat c)\<^sup>2" by (simp add: of_rat_power)
  moreover have "(0::real) \<le> of_rat c" using assms(2) by simp
  ultimately show ?thesis by (rule power2_le_imp_le)
qed

lemma disk_product:
  fixes x y a b c :: complex
  assumes "cmod (x - a) \<le> r" "cmod (y - b) \<le> s" "cmod a \<le> A" "cmod b \<le> B" "cmod (a * b - c) \<le> E" "0 \<le> r" "0 \<le> A" "0 \<le> B"
  shows "cmod (x * y - c) \<le> E + A * s + B * r + r * s"
proof -
  have "x * y - c = (a * b - c) + a * (y - b) + b * (x - a) + (x - a) * (y - b)" by (simp add: algebra_simps)
  also have "cmod ... \<le> cmod (a * b - c) + cmod (a * (y - b)) + cmod (b * (x - a)) + cmod ((x - a) * (y - b))"
    by (intro order_trans [OF norm_triangle_ineq] add_mono order_refl)
  also have "... \<le> E + A * s + B * r + r * s"
    unfolding norm_mult using assms by (intro add_mono mult_mono) auto
  finally show ?thesis .
qed

text \<open>C17:
  An accepted disk certificate is true.  If \<open>verify_raw_mul_certificate\<close> accepts, every product of a complex
  number in the left disk with one in the right disk lies in the output disk, where a disk is all the
  points at most its radius away from its center, and the words are read as the reals they encode.
\<close>

theorem disk_certificate_sound:
  assumes "verify_raw_mul_certificate raw = Inr c" "x \<in> disk_points (mc_left raw)" "y \<in> disk_points (mc_right raw)"
  shows "x * y \<in> disk_points (mc_output raw)"
proof -
  let ?center = "\<lambda>d. Complex (of_rat (ds_re d)) (of_rat (ds_im d))"
  have c: "c = mul_value raw" "well_formed c"
    using assms(1) unfolding verify_raw_mul_certificate_eq by (auto split: if_splits)
  have points: "z \<in> disk_points d \<longleftrightarrow> cmod (z - ?center (disk_value d)) \<le> of_rat (ds_radius (disk_value d))" for z d
    by (simp add: disk_points_def disk_value_def)
  define l r out where "l = md_left c" and "r = md_right c" and "out = md_output c"
  have wf: "0 \<le> ds_radius l" "0 \<le> md_center_error c" "0 \<le> md_left_norm c" "0 \<le> md_right_norm c"
      "product_center_error_sq c \<le> (md_center_error c)\<^sup>2" "center_norm_sq l \<le> (md_left_norm c)\<^sup>2"
      "center_norm_sq r \<le> (md_right_norm c)\<^sup>2" "required_output_radius c \<le> ds_radius out"
    using c(2) by (simp_all add: well_formed_def l_def r_def out_def)
  have "cmod (?center l) \<le> of_rat (md_left_norm c)" "cmod (?center r) \<le> of_rat (md_right_norm c)"
    using wf by (auto intro!: cmod_le_of_square simp: center_norm_sq_def)
  moreover have "cmod (?center l * ?center r - ?center out) \<le> of_rat (md_center_error c)"
  proof -
    have "?center l * ?center r - ?center out =
        Complex (of_rat (ds_re l * ds_re r - ds_im l * ds_im r - ds_re out)) (of_rat (ds_re l * ds_im r + ds_im l * ds_re r - ds_im out))"
      by (simp add: complex_eq_iff of_rat_add of_rat_diff of_rat_mult)
    then show ?thesis
      using cmod_le_of_square [OF _ wf(2)] wf(5)
      by (simp add: product_center_error_sq_def center_error_sq_def Let_def l_def r_def out_def)
  qed
  moreover have "cmod (x - ?center l) \<le> of_rat (ds_radius l)" "cmod (y - ?center r) \<le> of_rat (ds_radius r)"
    using assms(2,3) by (simp_all add: points c(1) l_def r_def mul_value_def)
  ultimately have "cmod (x * y - ?center out) \<le> of_rat (md_center_error c) + of_rat (md_left_norm c) * of_rat (ds_radius r)
      + of_rat (md_right_norm c) * of_rat (ds_radius l) + of_rat (ds_radius l) * of_rat (ds_radius r)"
    using wf(1,3,4) by (intro disk_product) simp_all
  also have "... = of_rat (required_output_radius c)"
    by (simp add: required_output_radius_def of_rat_add of_rat_mult l_def r_def)
  also have "... \<le> of_rat (ds_radius out)" using wf(8) by (simp only: of_rat_less_eq)
  finally show ?thesis by (simp add: points c(1) out_def mul_value_def)
qed

text \<open>Both disks have center and radius 1, and 2 is a point of each; the output has center 1 and radius 3.\<close>

definition unit_certificate :: raw_mul where
  "unit_certificate =
     (let one = 0x3FF0000000000000; d = \<lparr>dk_re_bits = one, dk_im_bits = 0, dk_radius_bits = one\<rparr>
      in \<lparr>mc_left = d, mc_right = d, mc_output = d\<lparr>dk_radius_bits := 0x4008000000000000\<rparr>, mc_center_error_bits = 0,
           mc_left_norm_bits = one, mc_right_norm_bits = one\<rparr>)"

lemma unit_words:
  "finite_word 0x3FF0000000000000" "finite_word 0x4008000000000000" "finite_word 0"
  "b64val 0x3FF0000000000000 = 1" "b64val 0x4008000000000000 = 3" "b64val 0 = 0"
proof -
  show "finite_word 0x3FF0000000000000" "finite_word 0x4008000000000000" "finite_word 0"
    by (simp_all add: finite_word_def word64_def fin_def mag_def b64_const)
  have "positive_finite_value 0x3FF0000000000000 = 1" "positive_finite_value 0x4008000000000000 = 3"
    by (simp_all add: positive_finite_value_def drop_bit_eq_div push_bit_eq_mult and_FRACTION_MASK FU_def b64_const)
  then show "b64val 0x3FF0000000000000 = 1" "b64val 0x4008000000000000 = 3" "b64val 0 = 0"
    by (simp_all add: b64val_def neg_def mag_def b64_const)
qed

lemma unit_certificate_accepted: "verify_raw_mul_certificate unit_certificate = Inr (mul_value unit_certificate)"
  by (simp add: verify_raw_mul_certificate_eq unit_certificate_def Let_def finite_mul_def finite_disk_def well_formed_def
      mul_value_def disk_value_def product_center_error_sq_def center_error_sq_def center_norm_sq_def
      required_output_radius_def unit_words)

lemma disk_certificate_sound_witness:
  "2 \<in> disk_points (mc_left unit_certificate) \<and> 2 * 2 \<in> disk_points (mc_output unit_certificate)"
proof -
  have point: "2 \<in> disk_points (mc_left unit_certificate)" "2 \<in> disk_points (mc_right unit_certificate)"
    by (simp_all add: disk_points_def unit_certificate_def Let_def unit_words cmod_def)
  from disk_certificate_sound [OF unit_certificate_accepted this] point show ?thesis by blast
qed

section \<open>The generator\<close>

lemma least_root_word:
  assumes "least_root v r"
  shows "finite_word r" "0 \<le> b64val r" "v \<le> (b64val r)\<^sup>2"
    and "\<And>w. finite_word w \<Longrightarrow> 0 \<le> b64val w \<Longrightarrow> v \<le> (b64val w)\<^sup>2 \<Longrightarrow> b64val r \<le> b64val w"
proof -
  have r: "0 \<le> r" "r \<le> MAX_FINITE" "v \<le> positive_finite_value r * positive_finite_value r"
    using assms by (simp_all add: first_above_def)
  note val = decode_magnitude [OF r(1,2)]
  show "finite_word r" using val by (simp add: finite_word_def)
  show "0 \<le> b64val r" "v \<le> (b64val r)\<^sup>2"
    using val r positive_finite_value_nonneg [of r] by (auto simp: b64_const power2_eq_square)
  fix w assume w: "finite_word w" "0 \<le> b64val w" "v \<le> (b64val w)\<^sup>2"
  then have m: "0 \<le> mag w" "mag w \<le> MAX_FINITE" "0 \<le> positive_finite_value (mag w)"
      "b64val w = positive_finite_value (mag w) \<or> b64val w = - positive_finite_value (mag w)"
    using finite_word_value [of w] by (auto simp: finite_word_def)
  then have eq: "b64val w = positive_finite_value (mag w)" using w(2) by auto
  then have "r \<le> mag w" using assms m w(3) by (auto simp: first_above_def power2_eq_square)
  then show "b64val r \<le> b64val w" using pfv.mono_le [of r "mag w"] r(1) m(2) eq val(4) by simp
qed

lemma bound_exists:
  assumes "finite_word w" "0 \<le> b64val w" "v \<le> (b64val w)\<^sup>2" "0 \<le> v"
  obtains r where "minimal_sqrt_bound v = Inr r" "least_root v r"
proof -
  have "b64val w \<le> MAX_FINITE_VALUE" using assms(1,2) finite_word_value [of w] by (auto simp: finite_word_def)
  then have "b64val w * b64val w \<le> MAX_FINITE_VALUE * MAX_FINITE_VALUE" using assms(2) by (intro mult_mono) auto
  then have "v \<le> MAX_FINITE_VALUE * MAX_FINITE_VALUE" using assms(3) unfolding power2_eq_square by (rule order_trans [rotated])
  then show thesis using assms(4) that by (cases rule: minimal_sqrt_bound_cases [of v]) auto
qed

lemma center_sq_nonneg [simp]: "0 \<le> center_norm_sq d" "0 \<le> center_error_sq a b c"
  by (simp_all add: center_norm_sq_def center_error_sq_def Let_def)

lemma check_minimal_Inr: "check_minimal ws = Inr u \<longleftrightarrow> list_all (\<lambda>(w, v). minimal_sqrt_bound v = Inr w) ws"
  by (induction ws rule: check_minimal.induct) (auto simp: res_simps)

definition certifies :: "raw_disk \<Rightarrow> raw_disk \<Rightarrow> raw_disk \<Rightarrow> raw_mul \<Rightarrow> bool" where
  "certifies left right out raw \<longleftrightarrow> mc_left raw = left \<and> mc_right raw = right \<and> mc_output raw = out \<and>
     verify_raw_mul_certificate raw = Inr (mul_value raw)"

definition least_certificate :: "raw_disk \<Rightarrow> raw_disk \<Rightarrow> raw_disk \<Rightarrow> raw_mul \<Rightarrow> bool" where
  "least_certificate left right out raw \<longleftrightarrow> certifies left right out raw \<and> verify_minimal_auxiliary_bounds raw = Inr () \<and>
     (\<forall>other. certifies left right out other \<longrightarrow>
        b64val (mc_center_error_bits raw) \<le> b64val (mc_center_error_bits other) \<and>
        b64val (mc_left_norm_bits raw) \<le> b64val (mc_left_norm_bits other) \<and>
        b64val (mc_right_norm_bits raw) \<le> b64val (mc_right_norm_bits other))"

lemma certifies_iff: "certifies left right out raw \<longleftrightarrow> mc_left raw = left \<and> mc_right raw = right \<and> mc_output raw = out \<and>
    finite_mul raw \<and> well_formed (mul_value raw)"
  by (auto simp: certifies_def verify_raw_mul_certificate_eq)

text \<open>One certificate for the disks yields the least one, which the generator builds.\<close>

lemma generate_complete:
  assumes other: "certifies left right out other"
  shows "\<exists>c. generate_raw_mul_certificate left right out = Inr c \<and> least_certificate left right out c"
proof -
  let ?E = "center_error_sq (disk_value left) (disk_value right) (disk_value out)"
  let ?L = "center_norm_sq (disk_value left)" and ?R = "center_norm_sq (disk_value right)"
  have fin: "finite_disk left" "finite_disk right" "finite_disk out" if "certifies left right out raw" for raw
    using that by (auto simp: certifies_iff finite_mul_def)
  have bounds: "finite_word (mc_center_error_bits raw)" "0 \<le> b64val (mc_center_error_bits raw)" "?E \<le> (b64val (mc_center_error_bits raw))\<^sup>2"
      "finite_word (mc_left_norm_bits raw)" "0 \<le> b64val (mc_left_norm_bits raw)" "?L \<le> (b64val (mc_left_norm_bits raw))\<^sup>2"
      "finite_word (mc_right_norm_bits raw)" "0 \<le> b64val (mc_right_norm_bits raw)" "?R \<le> (b64val (mc_right_norm_bits raw))\<^sup>2"
      if "certifies left right out raw" for raw
    using that by (auto simp: certifies_iff finite_mul_def well_formed_def mul_value_def product_center_error_sq_def)
  obtain e where e: "minimal_sqrt_bound ?E = Inr e" "least_root ?E e" using bound_exists bounds(1-3) [OF other] center_sq_nonneg by blast
  obtain l where l: "minimal_sqrt_bound ?L = Inr l" "least_root ?L l" using bound_exists bounds(4-6) [OF other] center_sq_nonneg by blast
  obtain r where r: "minimal_sqrt_bound ?R = Inr r" "least_root ?R r" using bound_exists bounds(7-9) [OF other] center_sq_nonneg by blast
  define c where "c = \<lparr>mc_left = left, mc_right = right, mc_output = out, mc_center_error_bits = e, mc_left_norm_bits = l, mc_right_norm_bits = r\<rparr>"
  have least: "b64val e \<le> b64val (mc_center_error_bits raw)" "b64val l \<le> b64val (mc_left_norm_bits raw)"
      "b64val r \<le> b64val (mc_right_norm_bits raw)" if "certifies left right out raw" for raw
    using least_root_word(4) [OF e(2) bounds(1-3) [OF that]] least_root_word(4) [OF l(2) bounds(4-6) [OF that]]
      least_root_word(4) [OF r(2) bounds(7-9) [OF that]] by auto
  have wf: "well_formed (mul_value other)" "mc_left other = left" "mc_right other = right" "mc_output other = out"
    using other by (auto simp: certifies_iff)
  have radii: "0 \<le> ds_radius (disk_value left)" "0 \<le> ds_radius (disk_value right)" "0 \<le> ds_radius (disk_value out)"
    using wf by (auto simp: well_formed_def mul_value_def)
  have "required_output_radius (mul_value c) \<le> required_output_radius (mul_value other)"
    unfolding required_output_radius_def using least [OF other] radii wf(2-4)
    by (simp add: mul_value_def c_def) (intro add_mono mult_right_mono, auto)
  then have "well_formed (mul_value c)"
    using wf radii least_root_word(2,3) [OF e(2)] least_root_word(2,3) [OF l(2)] least_root_word(2,3) [OF r(2)]
    by (simp add: well_formed_def mul_value_def c_def product_center_error_sq_def)
  then have cert: "certifies left right out c"
    using fin [OF other] least_root_word(1) [OF e(2)] least_root_word(1) [OF l(2)] least_root_word(1) [OF r(2)]
    by (simp add: certifies_iff finite_mul_def c_def)
  then have ver: "verify_raw_mul_certificate c = Inr (mul_value c)" by (simp add: certifies_def)
  have "generate_raw_mul_certificate left right out = Inr c"
    using ver unfolding generate_raw_mul_certificate_def
    by (simp add: decode_raw_disk_eq fin [OF other] e(1) l(1) r(1) Let_def c_def [symmetric])
  moreover have "verify_minimal_auxiliary_bounds c = Inr ()"
    using e(1) l(1) r(1) by (simp add: verify_minimal_auxiliary_bounds_def ver check_minimal_Inr)
      (simp add: c_def mul_value_def product_center_error_sq_def)
  ultimately show ?thesis using cert least by (auto simp: least_certificate_def c_def)
qed

text \<open>
  The generator is complete and least.  For any three disks, \<open>generate_raw_mul_certificate\<close> either
  returns a certificate for them that the checker accepts, whose three auxiliary words are least among
  all accepted certificates for these disks and pass \<open>verify_minimal_auxiliary_bounds\<close>, or raises
  \<open>ComplexDiskCertificateError\<close> and no accepted certificate for them exists.
\<close>

theorem disk_generator_complete:
  "case generate_raw_mul_certificate left right out of
     Inr c \<Rightarrow> least_certificate left right out c
   | Inl e \<Rightarrow> e = ComplexDiskCertificateError \<and> \<not> (\<exists>raw. certifies left right out raw)"
proof (cases "generate_raw_mul_certificate left right out")
  case (Inr c)
  then have "verify_raw_mul_certificate c = Inr (mul_value c) \<and> mc_left c = left \<and> mc_right c = right \<and> mc_output c = out"
    by (auto simp: generate_raw_mul_certificate_def res_simps Let_def verify_raw_mul_certificate_eq split: if_splits)
  then have "certifies left right out c" by (simp add: certifies_def)
  from generate_complete [OF this] Inr show ?thesis by simp
next
  case (Inl e)
  have bound: "minimal_sqrt_bound v = Inl x \<Longrightarrow> x = ComplexDiskCertificateError" for v x
    by (cases rule: minimal_sqrt_bound_cases [of v]) auto
  have "e = ComplexDiskCertificateError"
    using Inl by (auto simp: generate_raw_mul_certificate_def ebind_Inl_iff Let_def verify_raw_mul_certificate_eq decode_raw_disk_eq
        dest: bound split: if_splits)
  moreover have "\<not> (\<exists>raw. certifies left right out raw)"
    using generate_complete Inl by fastforce
  ultimately show ?thesis using Inl by simp
qed

end
