(* ===== verification/GoldbachSieve.thy ===== *)
theory GoldbachSieve
  imports Sieve Sha256
begin

unbundle bit_operations_syntax

text \<open>
  Model of \<open>tg_verifier/goldbach_bucket_sieve.py\<close>: the odd-prime sieve, the stateless segmented replay,
  the trial-division oracle, and the persistent sieve with its dense states and its ring of buckets.
  A packed word is an integer, as in Python.  Numbers that the validators have accepted are natural
  numbers; \<open>clear_bit\<close> is only called below the bit count of the segment.  The sizing models, which compute
  with floats, are not modelled.
\<close>

definition WORD_BITS :: nat where "WORD_BITS = 64"
definition WORD_MASK :: int where "WORD_MASK = push_bit 64 1 - 1"
definition MAX_SEGMENT_ODDS :: int where "MAX_SEGMENT_ODDS = push_bit 31 1"

section \<open>Base primes\<close>

text \<open>\<open>flags[first::step]\<close> set to zeros, and the loop with its \<open>break\<close> and \<open>continue\<close>.\<close>

definition clear_slice :: "nat \<Rightarrow> nat \<Rightarrow> bool list \<Rightarrow> bool list" where
  "clear_slice first step flags = map (\<lambda>(i, f). f \<and> \<not> (first \<le> i \<and> (i - first) mod step = 0)) (enumerate 0 flags)"

fun odd_sieve_loop :: "nat \<Rightarrow> nat list \<Rightarrow> bool list \<Rightarrow> bool list" where
  "odd_sieve_loop limit [] flags = flags"
| "odd_sieve_loop limit (index # rest) flags =
     (let prime = 2 * index + 3
      in if prime * prime > limit then flags
         else if \<not> flags ! index then odd_sieve_loop limit rest flags
         else odd_sieve_loop limit rest (clear_slice ((prime * prime - 3) div 2) prime flags))"

definition odd_primes_through :: "int \<Rightarrow> int list res" where
  "odd_primes_through limit =
     (if limit < 0 then Inl GoldbachBucketSieveError
      else if limit < 3 then Inr []
      else
        let n = nat limit; count = (n - 1) div 2;
            flags = odd_sieve_loop n [0..<count] (replicate count True)
        in Inr (map (\<lambda>index. int (2 * index + 3)) (filter (\<lambda>index. flags ! index) [0..<count])))"

section \<open>Validation\<close>

definition validate_segment :: "int \<Rightarrow> int \<Rightarrow> unit res" where
  "validate_segment odd_low odd_count =
     (if odd_low < 1 \<or> odd_low mod 2 = 0 then Inl GoldbachBucketSieveError
      else if \<not> (1 \<le> odd_count \<and> odd_count \<le> MAX_SEGMENT_ODDS) then Inl GoldbachBucketSieveError
      else Inr ())"

fun validate_primes_from :: "int \<Rightarrow> int list \<Rightarrow> unit res" where
  "validate_primes_from previous [] = Inr ()"
| "validate_primes_from previous (prime # primes) =
     (if prime < 3 \<or> prime mod 2 = 0 \<or> prime \<le> previous then Inl GoldbachBucketSieveError
      else validate_primes_from prime primes)"

definition validate_primes :: "int list \<Rightarrow> unit res" where
  "validate_primes primes = validate_primes_from 1 primes"

section \<open>Packed words\<close>

definition first_odd_composite :: "nat \<Rightarrow> nat \<Rightarrow> nat" where
  "first_odd_composite odd_low prime =
     (let quotient = (odd_low + prime - 1) div prime;
          multiple = quotient * prime;
          multiple = (if multiple mod 2 = 0 then multiple + prime else multiple)
      in max multiple (prime * prime))"

definition initial_words :: "nat \<Rightarrow> int list" where
  "initial_words odd_count =
     (let words = replicate ((odd_count + WORD_BITS - 1) div WORD_BITS) WORD_MASK;
          tail = odd_count mod WORD_BITS
      in if tail \<noteq> 0 then words[length words - 1 := words ! (length words - 1) AND (push_bit tail 1 - 1)] else words)"

definition clear_bit :: "int list \<Rightarrow> nat \<Rightarrow> int list" where
  "clear_bit words offset =
     words[offset div WORD_BITS := words ! (offset div WORD_BITS) AND NOT (push_bit (offset mod WORD_BITS) 1)]"

text \<open>The replay recomputes the first multiple of every prime.\<close>

fun stateless_loop :: "nat \<Rightarrow> nat \<Rightarrow> nat list \<Rightarrow> int list \<Rightarrow> int list" where
  "stateless_loop odd_low high [] words = words"
| "stateless_loop odd_low high (prime # primes) words =
     (if prime * prime \<ge> high then words
      else stateless_loop odd_low high primes
        (foldl (\<lambda>words composite. clear_bit words ((composite - odd_low) div 2)) words
          (py_range (first_odd_composite odd_low prime) high (2 * prime))))"

definition stateless_odd_prime_words :: "int \<Rightarrow> int \<Rightarrow> int list \<Rightarrow> int list res" where
  "stateless_odd_prime_words odd_low odd_count odd_primes =
     ebind (validate_segment odd_low odd_count) (\<lambda>_. ebind (validate_primes odd_primes) (\<lambda>_.
       let low = nat odd_low; count = nat odd_count;
           words = stateless_loop low (low + 2 * count) (map nat odd_primes) (initial_words count)
       in Inr (if odd_low = 1 then clear_bit words 0 else words)))"

section \<open>Trial division\<close>

function trial_loop :: "nat \<Rightarrow> nat \<Rightarrow> bool" where
  "trial_loop value divisor =
     (if divisor * divisor \<le> value then
        if value mod divisor = 0 then False else trial_loop value (divisor + 2)
      else True)"
  by pat_completeness auto
termination
proof (relation "measure (\<lambda>(value, divisor). value + 1 - divisor)")
  fix v d :: nat assume "d * d \<le> v"
  then have "d \<le> v" by (cases d) auto
  then show "((v, d + 2), (v, d)) \<in> measure (\<lambda>(value, divisor). value + 1 - divisor)" by simp
qed simp

declare trial_loop.simps [simp del]

definition set_bit_at :: "int list \<Rightarrow> nat \<Rightarrow> int list" where
  "set_bit_at words offset =
     words[offset div WORD_BITS := words ! (offset div WORD_BITS) OR push_bit (offset mod WORD_BITS) 1]"

definition trial_division_odd_prime_words :: "int \<Rightarrow> int \<Rightarrow> int list res" where
  "trial_division_odd_prime_words odd_low odd_count =
     ebind (validate_segment odd_low odd_count) (\<lambda>_.
       let low = nat odd_low; count = nat odd_count
       in Inr (foldl (\<lambda>words offset.
            let v = low + 2 * offset in if v \<ge> 2 \<and> trial_loop v 3 then set_bit_at words offset else words)
          (replicate ((count + WORD_BITS - 1) div WORD_BITS) 0) [0..<count]))"

section \<open>The persistent sieve\<close>

record bucket_sieve =
  bs_first_low :: nat
  bs_odd_count :: nat
  bs_segments :: nat
  bs_primes :: "nat list"
  bs_ring_size :: nat
  bs_buckets :: "(nat \<times> nat) list list"
  bs_dense :: "(nat \<times> nat) list"
  bs_activation_index :: nat
  bs_next_segment :: nat
  bs_sparse_events :: nat

record persistent_segment =
  ps_index :: nat
  ps_odd_low :: nat
  ps_words :: "int list"
  ps_active_dense :: nat
  ps_sparse_events :: nat
  ps_newly_activated :: nat

definition mk_bucket_sieve :: "int \<Rightarrow> int \<Rightarrow> int \<Rightarrow> int list \<Rightarrow> bucket_sieve res" where
  "mk_bucket_sieve odd_low odd_count segments odd_primes =
     ebind (validate_segment odd_low odd_count) (\<lambda>_.
     if segments < 1 then Inl GoldbachBucketSieveError
     else ebind (validate_primes odd_primes) (\<lambda>_.
       let primes = map nat odd_primes;
           base_limit = (if primes \<noteq> [] then last primes else 1);
           ring_size = base_limit div nat odd_count + 3
       in if ring_size > push_bit 24 1 then Inl GoldbachBucketSieveError
          else Inr \<lparr>bs_first_low = nat odd_low, bs_odd_count = nat odd_count, bs_segments = nat segments,
            bs_primes = primes, bs_ring_size = ring_size, bs_buckets = replicate ring_size [], bs_dense = [],
            bs_activation_index = 0, bs_next_segment = 0, bs_sparse_events = 0\<rparr>))"

text \<open>\<open>self._buckets[target % self._ring_size].append(...)\<close> when the target is a configured segment.\<close>

definition push_event :: "bucket_sieve \<Rightarrow> nat \<Rightarrow> nat \<times> nat \<Rightarrow> bucket_sieve" where
  "push_event s target event =
     (if target < bs_segments s then
        let slot = target mod bs_ring_size s
        in s\<lparr>bs_buckets := (bs_buckets s)[slot := bs_buckets s ! slot @ [event]]\<rparr>
      else s)"

text \<open>The activation loop, over the primes from the activation index on.\<close>

fun activate :: "nat \<Rightarrow> nat \<Rightarrow> nat \<Rightarrow> nat list \<Rightarrow> bucket_sieve \<Rightarrow> bucket_sieve res" where
  "activate segment low high [] s = Inr s"
| "activate segment low high (prime # primes) s =
     (if prime * prime \<ge> high then Inr s
      else
        let s = s\<lparr>bs_activation_index := bs_activation_index s + 1\<rparr>;
            offset = (first_odd_composite low prime - low) div 2
        in if prime \<le> bs_odd_count s then
             if offset \<ge> bs_odd_count s then Inl GoldbachBucketSieveError
             else activate segment low high primes (s\<lparr>bs_dense := bs_dense s @ [(prime, offset)]\<rparr>)
           else
             let delta = offset div bs_odd_count s; bucket_offset = offset mod bs_odd_count s
             in if delta \<ge> bs_ring_size s then Inl GoldbachBucketSieveError
                else activate segment low high primes (push_event s (segment + delta) (prime, bucket_offset)))"

text \<open>\<open>while offset < odd_count\<close>, with the offset after the loop; a prime is never zero.\<close>

function mark_dense :: "nat \<Rightarrow> nat \<Rightarrow> nat \<Rightarrow> int list \<Rightarrow> nat \<times> int list" where
  "mark_dense odd_count prime offset words =
     (if offset < odd_count \<and> prime \<noteq> 0 then mark_dense odd_count prime (offset + prime) (clear_bit words offset)
      else (offset, words))"
  by pat_completeness auto
termination
  by (relation "measure (\<lambda>(odd_count, prime, offset, words). odd_count - offset)") auto

declare mark_dense.simps [simp del]

fun dense_pass :: "nat \<Rightarrow> (nat \<times> nat) list \<Rightarrow> int list \<Rightarrow> (nat \<times> nat) list \<times> int list" where
  "dense_pass odd_count [] words = ([], words)"
| "dense_pass odd_count ((prime, offset) # rest) words =
     (let (offset, words) = mark_dense odd_count prime offset words;
          (rest, words) = dense_pass odd_count rest words
      in ((prime, offset - odd_count) # rest, words))"

fun sparse_pass :: "nat \<Rightarrow> (nat \<times> nat) list \<Rightarrow> bucket_sieve \<Rightarrow> int list \<Rightarrow> (bucket_sieve \<times> int list) res" where
  "sparse_pass segment [] s words = Inr (s, words)"
| "sparse_pass segment ((prime, offset) # events) s words =
     (if \<not> (prime > bs_odd_count s \<and> offset < bs_odd_count s) then Inl GoldbachBucketSieveError
      else
        let words = clear_bit words offset;
            s = s\<lparr>bs_sparse_events := bs_sparse_events s + 1\<rparr>;
            delta = (offset + prime) div bs_odd_count s; next_offset = (offset + prime) mod bs_odd_count s
        in if \<not> (0 < delta \<and> delta < bs_ring_size s) then Inl GoldbachBucketSieveError
           else sparse_pass segment events (push_event s (segment + delta) (prime, next_offset)) words)"

definition next_segment :: "bucket_sieve \<Rightarrow> (bucket_sieve \<times> persistent_segment) res" where
  "next_segment s =
     (if bs_next_segment s \<ge> bs_segments s then Inl GoldbachBucketSieveError
      else
        let segment = bs_next_segment s;
            low = bs_first_low s + 2 * bs_odd_count s * segment;
            high = low + 2 * bs_odd_count s;
            activated_before = bs_activation_index s
        in ebind (activate segment low high (drop (bs_activation_index s) (bs_primes s)) s) (\<lambda>s.
           let (dense, words) = dense_pass (bs_odd_count s) (bs_dense s) (initial_words (bs_odd_count s));
               s = s\<lparr>bs_dense := dense\<rparr>;
               slot = segment mod bs_ring_size s;
               events = bs_buckets s ! slot;
               s = s\<lparr>bs_buckets := (bs_buckets s)[slot := []]\<rparr>
           in ebind (sparse_pass segment events s words) (\<lambda>(s, words).
              let words = (if low = 1 then clear_bit words 0 else words);
                  s = s\<lparr>bs_next_segment := bs_next_segment s + 1\<rparr>
              in Inr (s, \<lparr>ps_index = segment, ps_odd_low = low, ps_words = words, ps_active_dense = length (bs_dense s),
                   ps_sparse_events = length events, ps_newly_activated = bs_activation_index s - activated_before\<rparr>))))"

section \<open>The digest of packed words\<close>

definition word_bytes :: "int \<Rightarrow> bytes" where
  "word_bytes word = map (\<lambda>i. word_of_int (drop_bit (8 * i) word)) [0..<8]"

definition words_bytes :: "int list list \<Rightarrow> bytes res" where
  "words_bytes word_groups = ebind (map_res (\<lambda>word. if 0 \<le> word \<and> word \<le> WORD_MASK then Inr (word_bytes word)
     else Inl GoldbachBucketSieveError) (concat word_groups)) (\<lambda>parts. Inr (concat parts))"

definition words_sha256_le :: "int list list \<Rightarrow> pystr res" where
  "words_sha256_le word_groups = ebind (words_bytes word_groups) (\<lambda>raw. Inr (sha256_hex raw))"

end
