(* ===== verification/GoldbachCoverage.thy ===== *)
theory GoldbachCoverage
  imports GoldbachSieve
begin

text \<open>
  Model of \<open>tg_verifier/goldbach_shifted_bitset.py\<close>: the word-oriented coverage stage that shifts the
  packed primes of a segment by small primes, and its bit-at-a-time replay.
\<close>

definition coverage_mask :: int where "coverage_mask = push_bit 64 1 - 1"

definition word_of :: "int \<Rightarrow> int res" where
  "word_of value = (if 0 \<le> value \<and> value \<le> coverage_mask then Inr value else Inl ShiftedBitsetError)"

definition alignment_offset :: "int \<Rightarrow> int \<Rightarrow> int \<Rightarrow> int res" where
  "alignment_offset even_low q_low prime =
     (if even_low < 0 \<or> q_low < 0 \<or> prime < 0 then Inl ShiftedBitsetError
      else
        let difference = even_low - q_low - prime
        in if difference < 0 \<or> difference mod 2 \<noteq> 0 then Inl ShiftedBitsetError else Inr (difference div 2))"

definition extract_shifted_word :: "int list \<Rightarrow> int \<Rightarrow> int res" where
  "extract_shifted_word q_words first_bit =
     (if first_bit < 0 then Inl ShiftedBitsetError
      else
        let word_index = nat (first_bit div 64); shift = nat (first_bit mod 64)
        in if word_index \<ge> length q_words then Inl ShiftedBitsetError
           else ebind (word_of (q_words ! word_index)) (\<lambda>w.
             let low = drop_bit shift w
             in if shift = 0 then Inr low
                else if word_index + 1 \<ge> length q_words then Inl ShiftedBitsetError
                else ebind (word_of (q_words ! (word_index + 1))) (\<lambda>high.
                  Inr ((low OR push_bit (64 - shift) high) AND coverage_mask))))"

record coverage_result =
  cw_covered :: int
  cw_rounds :: nat
  cw_live_mask :: int

definition coverage_accepted :: "coverage_result \<Rightarrow> bool" where
  "coverage_accepted r \<longleftrightarrow> cw_covered r AND cw_live_mask r = cw_live_mask r"

text \<open>The loop over the offsets, which stops once every live bit is covered.\<close>

fun coverage_loop :: "int list \<Rightarrow> int \<Rightarrow> int \<Rightarrow> int list \<Rightarrow> int \<Rightarrow> nat \<Rightarrow> (int \<times> nat) res" where
  "coverage_loop q_words output_word live_mask [] covered rounds = Inr (covered, rounds)"
| "coverage_loop q_words output_word live_mask (offset # offsets) covered rounds =
     (if offset < 0 then Inl ShiftedBitsetError
      else ebind (extract_shifted_word q_words (offset + 64 * output_word)) (\<lambda>w.
        let covered = covered OR w; rounds = rounds + 1
        in if covered AND live_mask = live_mask then Inr (covered, rounds)
           else coverage_loop q_words output_word live_mask offsets covered rounds))"

definition coverage_word :: "int list \<Rightarrow> int list \<Rightarrow> int \<Rightarrow> int \<Rightarrow> coverage_result res" where
  "coverage_word q_words base_offsets output_word live_mask =
     (if output_word < 0 then Inl ShiftedBitsetError
      else ebind (word_of live_mask) (\<lambda>live_mask.
        if live_mask = 0 then Inl ShiftedBitsetError
        else if base_offsets = [] then Inl ShiftedBitsetError
        else ebind (coverage_loop q_words output_word live_mask base_offsets 0 0) (\<lambda>(covered, rounds).
          Inr \<lparr>cw_covered = covered AND coverage_mask, cw_rounds = rounds, cw_live_mask = live_mask\<rparr>)))"

text \<open>\<open>any(...)\<close> over a generator stops at the first hit and raises what an element raises before it.\<close>

fun any_offset :: "int list \<Rightarrow> int \<Rightarrow> nat \<Rightarrow> int list \<Rightarrow> bool res" where
  "any_offset q_words output_word b [] = Inr False"
| "any_offset q_words output_word b (offset # offsets) =
     ebind (extract_shifted_word q_words (offset + 64 * output_word)) (\<lambda>w.
       if drop_bit b w AND 1 \<noteq> 0 then Inr True else any_offset q_words output_word b offsets)"

fun replay_loop :: "int list \<Rightarrow> int list \<Rightarrow> int \<Rightarrow> coverage_result \<Rightarrow> nat list \<Rightarrow> bool res" where
  "replay_loop q_words base_offsets output_word result [] = Inr (coverage_accepted result)"
| "replay_loop q_words base_offsets output_word result (b # bits) =
     (if drop_bit b (cw_live_mask result) AND 1 = 0 then replay_loop q_words base_offsets output_word result bits
      else ebind (any_offset q_words output_word b base_offsets) (\<lambda>expected.
        if (drop_bit b (cw_covered result) AND 1 \<noteq> 0) \<noteq> expected then Inr False
        else replay_loop q_words base_offsets output_word result bits))"

definition replay_live_bits :: "int list \<Rightarrow> int list \<Rightarrow> int \<Rightarrow> int \<Rightarrow> bool res" where
  "replay_live_bits q_words base_offsets output_word live_mask =
     ebind (coverage_word q_words base_offsets output_word live_mask) (\<lambda>result.
       replay_loop q_words base_offsets output_word result [0..<64])"

end
