(* ===== verification/GoldbachSieve_Facts.thy ===== *)
theory GoldbachSieve_Facts
  imports GoldbachSieve Sieve_Correct
begin

text \<open>
  Packed words as sets of bits, the first odd composite of a prime in a segment, and the stateless replay
  and the trial division in these terms.
\<close>

section \<open>Packed words\<close>

definition bit_at :: "int list \<Rightarrow> nat \<Rightarrow> bool" where
  "bit_at words i \<longleftrightarrow> bit (words ! (i div 64)) (i mod 64)"

text \<open>The words of a segment of \<open>count\<close> bits hold exactly the predicate \<open>P\<close>.\<close>

definition packs :: "nat \<Rightarrow> (nat \<Rightarrow> bool) \<Rightarrow> int list \<Rightarrow> bool" where
  "packs count P words \<longleftrightarrow> length words = (count + 63) div 64 \<and> (\<forall>w \<in> set words. 0 \<le> w \<and> w < 2 ^ 64) \<and>
     (\<forall>i < 64 * length words. bit_at words i \<longleftrightarrow> i < count \<and> P i)"

lemma packs_cong: "(\<And>i. i < count \<Longrightarrow> P i \<longleftrightarrow> Q i) \<Longrightarrow> packs count P words \<longleftrightarrow> packs count Q words"
  unfolding packs_def by (intro conj_cong refl all_cong) blast

lemma small_bits: "0 \<le> (w::int) \<Longrightarrow> w < 2 ^ 64 \<Longrightarrow> bit w j \<Longrightarrow> j < 64"
  by (metis bit_take_bit_iff take_bit_int_eq_self)

lemma packs_unique:
  assumes "packs count P words" "packs count P words'"
  shows "words = words'"
proof (rule nth_equalityI)
  show len: "length words = length words'" using assms by (simp add: packs_def)
  fix k assume k: "k < length words"
  show "words ! k = words' ! k"
  proof (rule bit_eqI)
    fix j
    show "bit (words ! k) j \<longleftrightarrow> bit (words' ! k) j"
    proof (cases "j < 64")
      case True
      then have i: "64 * k + j < 64 * length words" "(64 * k + j) div 64 = k" "(64 * k + j) mod 64 = j" using k by simp_all
      have "bit_at words (64 * k + j) \<longleftrightarrow> bit_at words' (64 * k + j)" using assms i(1) len by (simp add: packs_def)
      then show ?thesis using i by (simp add: bit_at_def)
    next
      case False
      moreover have "words ! k \<in> set words" "words' ! k \<in> set words'" using k len by simp_all
      ultimately show ?thesis using assms small_bits unfolding packs_def by blast
    qed
  qed
qed

lemma WORD_MASK_mask: "WORD_MASK = mask 64" and tail_mask: "push_bit n 1 - 1 = (mask n :: int)"
  by (simp_all add: WORD_MASK_def mask_eq_exp_minus_1)

lemma index_less: "i < count \<Longrightarrow> i div 64 < (count + 63) div (64::nat)"
  using div_le_mono [of "i + 64" "count + 63" 64] by simp

lemma packs_initial: "packs count (\<lambda>_. True) (initial_words count)"
proof -
  define n tail where "n = (count + 63) div 64" and "tail = count mod 64"
  have "(count + WORD_BITS - 1) div WORD_BITS = n" by (simp add: n_def WORD_BITS_def add.commute)
  then have eq: "initial_words count = (if tail \<noteq> 0 then (replicate n (mask 64))[n - 1 := replicate n (mask 64) ! (n - 1) AND mask tail]
      else replicate n (mask 64))"
    by (simp only: initial_words_def WORD_MASK_mask tail_mask Let_def tail_def WORD_BITS_def length_replicate)
  then have n: "length (initial_words count) = n" by simp
  have "tail < 64" by (simp add: tail_def)
  then have "mask 64 AND mask tail = (mask tail :: int)" by (intro bit_eqI) (auto simp: bit_simps)
  then have word: "initial_words count ! k = (if tail \<noteq> 0 \<and> k = n - 1 then mask tail else mask 64)" if "k < n" for k
    unfolding eq using that by (simp add: nth_list_update)
  have "0 \<le> (mask j :: int) \<and> mask j < (2 ^ 64 :: int)" if "j \<le> 64" for j :: nat
    using power_increasing [OF that, of "2 :: int"] by (simp add: mask_eq_exp_minus_1)
  then have "\<forall>w \<in> set (initial_words count). 0 \<le> w \<and> w < 2 ^ 64"
    using word n by (auto simp: in_set_conv_nth tail_def)
  moreover have "bit_at (initial_words count) i \<longleftrightarrow> i < count" if "i < 64 * n" for i
  proof -
    have k: "i div 64 < n" using that by (simp add: less_mult_imp_div_less mult.commute)
    define q where "q = count div 64"
    have q: "count = 64 * q + tail" "tail < 64" by (simp_all add: q_def tail_def)
    then have "n = (if tail = 0 then q else q + 1)" by (auto simp: n_def)
    with q have count: "count = (if tail = 0 then 64 * n else 64 * (n - 1) + tail)" "tail \<noteq> 0 \<Longrightarrow> 0 < n" by auto
    have "bit_at (initial_words count) i \<longleftrightarrow> (tail \<noteq> 0 \<and> i div 64 = n - 1 \<longrightarrow> i mod 64 < tail)"
      by (simp add: bit_at_def word [OF k] bit_mask_iff)
    also have "... \<longleftrightarrow> i < count"
    proof (cases "tail = 0")
      case True
      then show ?thesis using that count by simp
    next
      case False
      then obtain m where m: "n = Suc m" using count(2) by (cases n) auto
      have i: "i = 64 * (i div 64) + i mod 64" "i mod 64 < 64" by simp_all
      have c: "count = 64 * m + tail" using False count(1) m by simp
      have "i mod 64 < tail \<longleftrightarrow> i < count" if "i div 64 = m"
      proof -
        have "i = 64 * m + i mod 64" using i(1) that by simp
        then show ?thesis unfolding c by linarith
      qed
      moreover have "i < count" if "i div 64 \<noteq> m"
      proof -
        have "i div 64 + 1 \<le> m" using k m that by simp
        then have "64 * (i div 64 + 1) \<le> 64 * m" by (rule mult_le_mono2)
        then show ?thesis using False count(1) m i by simp
      qed
      ultimately show ?thesis using False m by auto
    qed
    finally show ?thesis .
  qed
  ultimately show ?thesis using n unfolding packs_def by (simp add: n_def)
qed

lemma words_update:
  assumes "packs count P words" "0 \<le> x" "x < 2 ^ 64"
  shows "\<forall>w \<in> set (words[k := x]). 0 \<le> w \<and> w < 2 ^ 64"
  using assms set_update_subset_insert [of words k x] unfolding packs_def by blast

lemma packs_clear:
  assumes "packs count P words" "off < count"
  shows "packs count (\<lambda>i. P i \<and> i \<noteq> off) (clear_bit words off)"
proof -
  let ?k = "off div 64"
  have k: "?k < length words" using assms index_less by (simp add: packs_def)
  have word: "clear_bit words off ! j = (if j = ?k then words ! j AND NOT (push_bit (off mod 64) 1) else words ! j)" if "j < length words" for j
    using that k by (simp add: clear_bit_def WORD_BITS_def nth_list_update)
  have w: "0 \<le> words ! ?k \<and> words ! ?k < 2 ^ 64" using assms(1) k by (simp add: packs_def)
  have "words ! ?k AND NOT (push_bit (off mod 64) 1) \<le> words ! ?k" using w by (simp add: AND_upper1)
  moreover have "0 \<le> words ! ?k AND NOT (push_bit (off mod 64) 1)" using w by simp
  ultimately have "\<forall>v \<in> set (clear_bit words off). 0 \<le> v \<and> v < 2 ^ 64"
    unfolding clear_bit_def WORD_BITS_def using w by (intro words_update [OF assms(1)]) auto
  moreover have "bit_at (clear_bit words off) i \<longleftrightarrow> i < count \<and> P i \<and> i \<noteq> off" if "i < 64 * length words" for i
  proof -
    have j: "i div 64 < length words" using that by (simp add: less_mult_imp_div_less mult.commute)
    have "bit_at (clear_bit words off) i \<longleftrightarrow> bit_at words i \<and> \<not> (i div 64 = ?k \<and> i mod 64 = off mod 64)"
      by (auto simp: bit_at_def word [OF j] bit_simps)
    also have "i div 64 = ?k \<and> i mod 64 = off mod 64 \<longleftrightarrow> i = off" by (metis div_mult_mod_eq)
    finally show ?thesis using assms(1) that by (auto simp: packs_def)
  qed
  ultimately show ?thesis using assms(1) by (simp add: packs_def clear_bit_def)
qed

lemma packs_set:
  assumes "packs count P words" "off < count"
  shows "packs count (\<lambda>i. P i \<or> i = off) (set_bit_at words off)"
proof -
  let ?k = "off div 64" and ?b = "push_bit (off mod 64) 1 :: int"
  have k: "?k < length words" using assms index_less by (simp add: packs_def)
  have word: "set_bit_at words off ! j = (if j = ?k then words ! j OR ?b else words ! j)" if "j < length words" for j
    using that k by (simp add: set_bit_at_def WORD_BITS_def nth_list_update)
  have w: "0 \<le> words ! ?k \<and> words ! ?k < 2 ^ 64" using assms(1) k by (simp add: packs_def)
  have "(2::int) ^ (off mod 64) < 2 ^ 64" by (rule power_strict_increasing) simp_all
  then have b: "0 \<le> ?b \<and> ?b < 2 ^ 64" by (simp add: push_bit_eq_mult)
  have "0 \<le> words ! ?k OR ?b \<and> words ! ?k OR ?b < 2 ^ 64" using w b OR_upper [of "words ! ?k" 64 ?b] by simp
  then have "\<forall>v \<in> set (set_bit_at words off). 0 \<le> v \<and> v < 2 ^ 64"
    unfolding set_bit_at_def WORD_BITS_def by (intro words_update [OF assms(1)]) auto
  moreover have "bit_at (set_bit_at words off) i \<longleftrightarrow> i < count \<and> (P i \<or> i = off)" if "i < 64 * length words" for i
  proof -
    have j: "i div 64 < length words" using that by (simp add: less_mult_imp_div_less mult.commute)
    have "bit_at (set_bit_at words off) i \<longleftrightarrow> bit_at words i \<or> (i div 64 = ?k \<and> i mod 64 = off mod 64)"
      by (auto simp: bit_at_def word [OF j] bit_simps)
    also have "i div 64 = ?k \<and> i mod 64 = off mod 64 \<longleftrightarrow> i = off" by (metis div_mult_mod_eq)
    finally have "bit_at (set_bit_at words off) i \<longleftrightarrow> bit_at words i \<or> i = off" .
    moreover have "bit_at words i \<longleftrightarrow> i < count \<and> P i" using assms(1) that by (simp add: packs_def)
    ultimately show ?thesis using assms(2) by auto
  qed
  ultimately show ?thesis using assms(1) by (simp add: packs_def set_bit_at_def)
qed

lemma packs_clear_all:
  "packs count P words \<Longrightarrow> list_all (\<lambda>x. g x < count) xs \<Longrightarrow>
     packs count (\<lambda>i. P i \<and> i \<notin> g ` set xs) (foldl (\<lambda>words x. clear_bit words (g x)) words xs)"
proof (induction xs arbitrary: words P)
  case (Cons x xs)
  then have "packs count (\<lambda>i. P i \<and> i \<noteq> g x) (clear_bit words (g x))" by (simp add: packs_clear)
  from Cons.IH [OF this] Cons.prems(2)
  have "packs count (\<lambda>i. (P i \<and> i \<noteq> g x) \<and> i \<notin> g ` set xs) (foldl (\<lambda>words x. clear_bit words (g x)) words (x # xs))" by simp
  moreover have "(P i \<and> i \<noteq> g x) \<and> i \<notin> g ` set xs \<longleftrightarrow> P i \<and> i \<notin> g ` set (x # xs)" for i by auto
  ultimately show ?case by simp
qed simp

section \<open>Odd composites of a prime\<close>

definition struck_by :: "nat \<Rightarrow> nat \<Rightarrow> bool" where
  "struck_by p v \<longleftrightarrow> p dvd v \<and> p * p \<le> v"

lemma odd_step_multiple:
  assumes "odd (p::nat)" "odd f" "odd v" "f \<le> v" "p dvd f"
  shows "p dvd v \<longleftrightarrow> 2 * p dvd v - f"
proof
  assume "p dvd v"
  then have "p dvd v - f" using assms(5) by simp
  moreover have "even (v - f)" using assms(2,3,4) by simp
  moreover have "coprime 2 p" using assms(1) by simp
  ultimately show "2 * p dvd v - f" by (intro divides_mult)
next
  assume "2 * p dvd v - f"
  then have "p dvd v - f" by (metis dvd_mult_right)
  then have "p dvd f + (v - f)" using assms(5) by simp
  then show "p dvd v" using assms(4) by simp
qed

lemma first_odd_composite:
  assumes "odd low" "odd p" "0 < low"
  defines "f \<equiv> first_odd_composite low p"
  shows "odd f" "low \<le> f" "struck_by p f" "f < low + 2 * p \<or> f = p * p" "\<And>v. odd v \<Longrightarrow> low \<le> v \<Longrightarrow> struck_by p v \<Longrightarrow> f \<le> v"
proof -
  define m where "m = (low + p - 1) div p * p"
  define m' where "m' = (if m mod 2 = 0 then m + p else m)"
  have p: "0 < p" using assms(2) by (cases p) auto
  have f: "f = max m' (p * p)" by (simp add: f_def first_odd_composite_def Let_def m_def m'_def)
  have m: "low \<le> m" "p dvd m" "m < low + p" "\<And>v. p dvd v \<Longrightarrow> low \<le> v \<Longrightarrow> m \<le> v"
  proof -
    show "low \<le> m" "p dvd m" using first_multiple(1) [OF p, of low] by (simp_all add: m_def)
    have "m \<le> low + p - 1" unfolding m_def by (rule div_times_less_eq_dividend)
    then show "m < low + p" using p assms(3) by linarith
    show "m \<le> v" if "p dvd v" "low \<le> v" for v unfolding m_def by (rule first_multiple(2) [OF p that])
  qed
  have m'_cases: "m' = (if even m then m + p else m)" unfolding m'_def by (simp only: even_iff_mod_2_eq_zero)
  have m': "odd m'" "low \<le> m'" "p dvd m'" "m' < low + 2 * p"
    using m(1,2,3) assms(2) unfolding m'_cases by (cases "even m"; simp)+
  have least: "m' \<le> v" if v: "odd v" "low \<le> v" "p dvd v" for v
  proof (cases "even m")
    case True
    have "m \<le> v" using m(4) v by blast
    moreover have "p dvd v - m" using m(2) v(3) by simp
    moreover have "v \<noteq> m" using True v(1) by blast
    ultimately have "p \<le> v - m" by (intro dvd_imp_le) simp_all
    then show ?thesis using True \<open>m \<le> v\<close> by (simp add: m'_cases)
  next
    case False
    then show ?thesis using m(4) v by (simp add: m'_cases)
  qed
  show "odd f" "low \<le> f" "struck_by p f" "f < low + 2 * p \<or> f = p * p"
    using m' assms(2) unfolding f struck_by_def by (cases "m' \<le> p * p"; simp add: max_def)+
  show "f \<le> v" if "odd v" "low \<le> v" "struck_by p v" for v using least [OF that(1,2)] that(3) unfolding f struck_by_def by simp
qed

text \<open>The offsets at which a prime strikes, in closed form.\<close>

definition first_offset :: "nat \<Rightarrow> nat \<Rightarrow> nat" where
  "first_offset low p = (first_odd_composite low p - low) div 2"

lemma first_offset:
  assumes "odd low" "odd p" "0 < low"
  shows "first_odd_composite low p = low + 2 * first_offset low p"
    and "struck_by p (low + 2 * i) \<longleftrightarrow> first_offset low p \<le> i \<and> p dvd i - first_offset low p"
proof -
  note f = first_odd_composite [OF assms]
  show eq: "first_odd_composite low p = low + 2 * first_offset low p"
    using f(1,2) assms(1) by (simp add: first_offset_def)
  have p: "p dvd first_odd_composite low p" using f(3) by (simp add: struck_by_def)
  show "struck_by p (low + 2 * i) \<longleftrightarrow> first_offset low p \<le> i \<and> p dvd i - first_offset low p"
  proof
    assume s: "struck_by p (low + 2 * i)"
    then have le: "first_odd_composite low p \<le> low + 2 * i" using f(5) assms(1) by simp
    then have "2 * p dvd low + 2 * i - first_odd_composite low p"
      using odd_step_multiple [OF assms(2) f(1) _ le p] s assms(1) by (simp add: struck_by_def)
    moreover have "low + 2 * i - first_odd_composite low p = 2 * (i - first_offset low p)" unfolding eq by simp
    ultimately show "first_offset low p \<le> i \<and> p dvd i - first_offset low p" using le eq by simp
  next
    assume i: "first_offset low p \<le> i \<and> p dvd i - first_offset low p"
    then have le: "first_odd_composite low p \<le> low + 2 * i" unfolding eq by simp
    have "low + 2 * i - first_odd_composite low p = 2 * (i - first_offset low p)" unfolding eq by simp
    then have "p dvd low + 2 * i" using odd_step_multiple [OF assms(2) f(1) _ le p] i assms(1) by simp
    then show "struck_by p (low + 2 * i)" using f(3) le by (simp add: struck_by_def)
  qed
qed

section \<open>The stateless replay\<close>

definition base_primes_ok :: "nat list \<Rightarrow> bool" where
  "base_primes_ok ps \<longleftrightarrow> sorted_wrt (<) ps \<and> (\<forall>p \<in> set ps. odd p \<and> 3 \<le> p)"

lemma validate_primes_from_Inr:
  "1 \<le> previous \<Longrightarrow> validate_primes_from previous ps = Inr u \<longleftrightarrow>
     (\<forall>p \<in> set ps. previous < p \<and> 3 \<le> p \<and> odd p) \<and> sorted_wrt (<) ps"
  by (induction previous ps rule: validate_primes_from.induct) (auto simp: even_iff_mod_2_eq_zero)

lemma validate_primes_Inr:
  "validate_primes ps = Inr u \<Longrightarrow> base_primes_ok (map nat ps) \<and> list_all (\<lambda>p. 0 \<le> p) ps"
proof -
  assume "validate_primes ps = Inr u"
  then have ps: "p \<in> set ps \<Longrightarrow> 3 \<le> p \<and> odd p" and sorted: "sorted_wrt (<) ps" for p
    unfolding validate_primes_def using validate_primes_from_Inr [of 1 ps u] by auto
  from sorted have "sorted_wrt (\<lambda>x y. nat x < nat y) ps"
    by (rule sorted_wrt_mono_rel [rotated]) (use ps in fastforce)
  then have "sorted_wrt (<) (map nat ps)" by (simp add: sorted_wrt_map)
  moreover have "odd (nat p) \<and> 3 \<le> nat p \<and> 0 \<le> p" if "p \<in> set ps" for p
    using ps [OF that] by (simp add: even_nat_iff le_nat_iff)
  ultimately show ?thesis by (auto simp: base_primes_ok_def list_all_iff)
qed

lemma validate_segment_Inr:
  "validate_segment low count = Inr u \<longleftrightarrow> 1 \<le> low \<and> odd low \<and> 1 \<le> count \<and> count \<le> 2 ^ 31"
  by (auto simp: validate_segment_def MAX_SEGMENT_ODDS_def even_iff_mod_2_eq_zero)

lemma mem_py_range: "0 < step \<Longrightarrow> v \<in> set (py_range first stop step) \<longleftrightarrow> first \<le> v \<and> v < stop \<and> step dvd v - first"
proof -
  assume step: "0 < step"
  have "v \<in> set (py_range first stop step) \<longleftrightarrow> (\<exists>i. i * step < stop - first \<and> v = first + i * step)"
    unfolding py_range_def set_map set_upt image_iff Bex_def atLeastLessThan_iff range_count [OF step] by auto
  also have "... \<longleftrightarrow> first \<le> v \<and> v < stop \<and> step dvd v - first"
  proof
    assume r: "first \<le> v \<and> v < stop \<and> step dvd v - first"
    then have "v = first + (v - first) div step * step" "(v - first) div step * step < stop - first" by auto
    then show "\<exists>i. i * step < stop - first \<and> v = first + i * step" by blast
  qed auto
  finally show ?thesis .
qed

definition struck_any :: "nat set \<Rightarrow> nat \<Rightarrow> bool" where
  "struck_any A v \<longleftrightarrow> (\<exists>p \<in> A. struck_by p v)"

lemma stateless_pass:
  assumes "packs count P words" "odd low" "odd p" "0 < low"
  shows "packs count (\<lambda>i. P i \<and> \<not> struck_by p (low + 2 * i))
    (foldl (\<lambda>words composite. clear_bit words ((composite - low) div 2)) words
      (py_range (first_odd_composite low p) (low + 2 * count) (2 * p)))"
proof -
  let ?r = "py_range (first_odd_composite low p) (low + 2 * count) (2 * p)" and ?g = "\<lambda>v. (v - low) div 2"
  have p: "0 < 2 * p" using assms(3) by (cases p) auto
  note f = first_odd_composite [OF assms(2-4)]
  have r: "v \<in> set ?r \<longleftrightarrow> odd v \<and> low \<le> v \<and> v < low + 2 * count \<and> struck_by p v" for v
  proof
    assume "v \<in> set ?r"
    then have v: "first_odd_composite low p \<le> v" "v < low + 2 * count" "2 * p dvd v - first_odd_composite low p"
      by (simp_all add: mem_py_range [OF p])
    then have "even (v - first_odd_composite low p)" by (metis dvd_mult_left)
    then have "odd v" using f(1) v(1) by simp
    moreover from this have "p dvd v" using odd_step_multiple [OF assms(3) f(1) _ v(1)] v(3) f(3) by (simp add: struck_by_def)
    ultimately show "odd v \<and> low \<le> v \<and> v < low + 2 * count \<and> struck_by p v" using v f(2,3) by (simp add: struck_by_def)
  next
    assume v: "odd v \<and> low \<le> v \<and> v < low + 2 * count \<and> struck_by p v"
    then have "first_odd_composite low p \<le> v" using f(5) by blast
    moreover from this have "2 * p dvd v - first_odd_composite low p"
      using odd_step_multiple [OF assms(3) f(1), of v] v f(3) by (simp add: struck_by_def)
    ultimately show "v \<in> set ?r" using v mem_py_range [OF p] by blast
  qed
  have "?g v < count" if "v \<in> set ?r" for v
  proof -
    have "low \<le> v" "v < low + 2 * count" using r [of v] that by blast+
    then show ?thesis by (simp add: less_mult_imp_div_less)
  qed
  then have "list_all (\<lambda>v. ?g v < count) ?r" by (simp only: list_all_iff) blast
  from packs_clear_all [OF assms(1) this]
  have "packs count (\<lambda>i. P i \<and> i \<notin> ?g ` set ?r) (foldl (\<lambda>words composite. clear_bit words ((composite - low) div 2)) words ?r)" .
  moreover have "i \<in> ?g ` set ?r \<longleftrightarrow> struck_by p (low + 2 * i)" if "i < count" for i
  proof
    assume "i \<in> ?g ` set ?r"
    then obtain v where v: "v \<in> set ?r" "i = ?g v" by blast
    then have "v = low + 2 * i" using r [of v] assms(2) by auto
    then show "struck_by p (low + 2 * i)" using v(1) r by simp
  next
    assume "struck_by p (low + 2 * i)"
    then have "low + 2 * i \<in> set ?r" using r that assms(2) by simp
    then show "i \<in> ?g ` set ?r" by (rule rev_image_eqI) simp
  qed
  ultimately show ?thesis by (subst (asm) packs_cong) auto
qed

lemma unstruck_above:
  assumes "base_primes_ok (p # ps)" "high \<le> p * p" "v < high"
  shows "\<not> struck_any (set (p # ps)) v"
proof
  assume "struck_any (set (p # ps)) v"
  then obtain q where q: "q \<in> set (p # ps)" "q * q \<le> v" by (auto simp: struck_any_def struck_by_def)
  then have "p \<le> q" using assms(1) by (auto simp: base_primes_ok_def)
  then have "p * p \<le> q * q" by (intro mult_le_mono)
  with q(2) assms(2,3) show False by simp
qed

lemma stateless_loop_packs:
  assumes "packs count P words" "odd low" "0 < low" "base_primes_ok ps"
  shows "packs count (\<lambda>i. P i \<and> \<not> struck_any (set ps) (low + 2 * i)) (stateless_loop low (low + 2 * count) ps words)"
  using assms
proof (induction ps arbitrary: P words)
  case Nil
  then show ?case by (simp add: struck_any_def)
next
  case (Cons p ps)
  show ?case
  proof (cases "p * p \<ge> low + 2 * count")
    case True
    then have "\<not> struck_any (set (p # ps)) (low + 2 * i)" if "i < count" for i
      using unstruck_above [OF Cons.prems(4) True, of "low + 2 * i"] that by simp
    with True Cons.prems(1) show ?thesis by (subst packs_cong [where Q = P]) auto
  next
    case False
    have p: "odd p" and ps: "base_primes_ok ps" using Cons.prems(4) by (auto simp: base_primes_ok_def)
    note pass = stateless_pass [OF Cons.prems(1,2) p Cons.prems(3)]
    have "packs count (\<lambda>i. (P i \<and> \<not> struck_by p (low + 2 * i)) \<and> \<not> struck_any (set ps) (low + 2 * i))
        (stateless_loop low (low + 2 * count) (p # ps) words)"
      using Cons.IH [OF pass Cons.prems(2,3) ps] False by simp
    then show ?thesis by (subst (asm) packs_cong) (auto simp: struck_any_def)
  qed
qed

end
