(* ===== verification/GoldbachSieve_Ring.thy ===== *)
theory GoldbachSieve_Ring
  imports GoldbachSieve_Facts
begin

text \<open>
  The persistent sieve: the next strike of each prime, the ring of buckets as a set of scheduled
  strikes, and the invariant of the whole state at the start of a segment.
\<close>

section \<open>The next strike\<close>

text \<open>The least absolute odd offset, from \<open>m\<close> on, at which \<open>p\<close> strikes; \<open>base\<close> is the first low end.\<close>

definition next_hit :: "nat \<Rightarrow> nat \<Rightarrow> nat \<Rightarrow> nat" where
  "next_hit base m p = m + first_offset (base + 2 * m) p"

definition strikes :: "nat \<Rightarrow> nat \<Rightarrow> bool" where
  "strikes base p \<longleftrightarrow> odd base \<and> odd p \<and> 3 \<le> p"

lemma strikes_low: "strikes base p \<Longrightarrow> odd (base + 2 * m) \<and> odd p \<and> 0 < base + 2 * m"
  by (auto simp: strikes_def elim: oddE)

lemma hit_ge: "m \<le> next_hit base m p"
  by (simp add: next_hit_def)

lemma struck_iff:
  assumes "strikes base p" "m \<le> i"
  shows "struck_by p (base + 2 * i) \<longleftrightarrow> next_hit base m p \<le> i \<and> p dvd i - next_hit base m p"
proof -
  note low = strikes_low [OF assms(1), of m]
  have eq: "base + 2 * i = base + 2 * m + 2 * (i - m)" using assms(2) by simp
  have "struck_by p (base + 2 * m + 2 * (i - m)) \<longleftrightarrow>
      first_offset (base + 2 * m) p \<le> i - m \<and> p dvd i - m - first_offset (base + 2 * m) p"
    using low by (intro first_offset(2)) auto
  then show ?thesis unfolding eq next_hit_def using assms(2) by auto
qed

lemma hit_struck: "strikes base p \<Longrightarrow> struck_by p (base + 2 * next_hit base m p)"
  by (subst struck_iff [OF _ hit_ge [of m]]) simp_all

lemma hit: "strikes base p \<Longrightarrow> struck_by p (base + 2 * i) \<Longrightarrow> m \<le> i \<Longrightarrow> next_hit base m p \<le> i"
  using struck_iff by blast

lemma hit_later:
  assumes "strikes base p" "m \<le> m'" "m' \<le> next_hit base m p"
  shows "next_hit base m' p = next_hit base m p"
proof (rule antisym)
  show "next_hit base m' p \<le> next_hit base m p" using hit hit_struck assms by blast
  have "m \<le> next_hit base m' p" using hit_ge [of m' base p] assms(2) by linarith
  then show "next_hit base m p \<le> next_hit base m' p" using hit hit_struck assms(1) by blast
qed

lemma hit_next:
  assumes "strikes base p" "next_hit base m p < m'" "m' \<le> next_hit base m p + p"
  shows "next_hit base m' p = next_hit base m p + p"
proof (rule antisym)
  have "m \<le> next_hit base m p + p" using hit_ge [of m base p] by simp
  then have "struck_by p (base + 2 * (next_hit base m p + p))" by (simp only: struck_iff [OF assms(1)]) simp
  then show "next_hit base m' p \<le> next_hit base m p + p" using hit assms(1,3) by blast
  have ge: "m' \<le> next_hit base m' p" by (rule hit_ge)
  have "m \<le> next_hit base m' p" using ge assms(2) hit_ge [of m base p] by linarith
  then have "p dvd next_hit base m' p - next_hit base m p" using struck_iff hit_struck assms(1) by blast
  moreover have "0 < next_hit base m' p - next_hit base m p" using ge assms(2) by simp
  ultimately have "p \<le> next_hit base m' p - next_hit base m p" by (rule dvd_imp_le)
  then show "next_hit base m p + p \<le> next_hit base m' p" using ge assms(2) by linarith
qed

text \<open>A prime is activated in the segment that reaches its square, and its next strike is near.\<close>

lemma hit_near:
  assumes "strikes base p" "p * p < base + 2 * (m + c)"
  shows "next_hit base m p < m + max p c"
proof -
  note low = strikes_low [OF assms(1), of m]
  have eq: "first_odd_composite (base + 2 * m) p = base + 2 * next_hit base m p"
    using first_offset(1) [of "base + 2 * m" p] low by (simp add: next_hit_def)
  have "first_odd_composite (base + 2 * m) p < base + 2 * m + 2 * p \<or> first_odd_composite (base + 2 * m) p = p * p"
    using low by (intro first_odd_composite(4)) auto
  then show ?thesis using assms(2) unfolding eq by auto
qed

section \<open>The ring\<close>

text \<open>The strikes \<open>E\<close>, pairs of a prime and an absolute offset, are scheduled in the buckets.\<close>

definition ring_holds :: "nat \<Rightarrow> nat \<Rightarrow> nat \<Rightarrow> (nat \<times> nat) set \<Rightarrow> (nat \<times> nat) list list \<Rightarrow> bool" where
  "ring_holds ring c segments E buckets \<longleftrightarrow> length buckets = ring \<and>
     (\<forall>i < ring. set (buckets ! i) = {(p, n mod c) |p n. (p, n) \<in> E \<and> n div c < segments \<and> n div c mod ring = i})"

lemma ring_empty: "ring_holds ring c segments {} (replicate ring [])"
  by (simp add: ring_holds_def)

lemma ring_push:
  assumes "ring_holds (bs_ring_size s) (bs_odd_count s) (bs_segments s) E (bs_buckets s)" "0 < bs_ring_size s"
  shows "ring_holds (bs_ring_size s) (bs_odd_count s) (bs_segments s) (insert (p, n) E)
    (bs_buckets (push_event s (n div bs_odd_count s) (p, n mod bs_odd_count s)))"
proof (cases "n div bs_odd_count s < bs_segments s")
  case False
  then show ?thesis using assms unfolding ring_holds_def push_event_def by (auto 4 3)
next
  case True
  let ?c = "bs_odd_count s" and ?r = "bs_ring_size s"
  let ?slot = "n div ?c mod ?r"
  have slot: "?slot < ?r" using assms(2) by simp
  have len: "length (bs_buckets s) = ?r" using assms(1) by (simp add: ring_holds_def)
  have "bs_buckets (push_event s (n div ?c) (p, n mod ?c)) = (bs_buckets s)[?slot := bs_buckets s ! ?slot @ [(p, n mod ?c)]]"
    using True by (simp add: push_event_def Let_def)
  then have nth: "set (bs_buckets (push_event s (n div ?c) (p, n mod ?c)) ! i) =
      set (bs_buckets s ! i) \<union> (if i = ?slot then {(p, n mod ?c)} else {})" if "i < ?r" for i
    using that slot len by (simp add: nth_list_update)
  have "set (bs_buckets (push_event s (n div ?c) (p, n mod ?c)) ! i) =
      {(q, k mod ?c) |q k. (q, k) \<in> insert (p, n) E \<and> k div ?c < bs_segments s \<and> k div ?c mod ?r = i}" if "i < ?r" for i
    unfolding nth [OF that] using assms(1) that True unfolding ring_holds_def by auto
  then show ?thesis using len True by (simp add: ring_holds_def push_event_def Let_def)
qed

lemma ring_pop:
  assumes ring: "ring_holds ring c segments E buckets"
    and span: "\<And>p n. (p, n) \<in> E \<Longrightarrow> t \<le> n div c \<and> n div c < t + ring" and t: "t < segments" and pos: "0 < ring"
  shows "set (buckets ! (t mod ring)) = {(p, n mod c) |p n. (p, n) \<in> E \<and> n div c = t}"
    and "ring_holds ring c segments {(p, n) \<in> E. n div c \<noteq> t} (buckets[t mod ring := []])"
proof -
  have same: "n div c mod ring = t mod ring \<longleftrightarrow> n div c = t" if "(p, n) \<in> E" for p n
  proof
    assume eq: "n div c mod ring = t mod ring"
    have d: "t \<le> n div c" "n div c - t < ring" using span [OF that] by auto
    have "ring dvd n div c - t" using eq d(1) by (simp add: mod_eq_dvd_iff_nat)
    then show "n div c = t" using d by (auto dest: dvd_imp_le)
  qed simp
  have slot: "t mod ring < ring" using pos by simp
  have held: "set (buckets ! i) = {(p, n mod c) |p n. (p, n) \<in> E \<and> n div c < segments \<and> n div c mod ring = i}" if "i < ring" for i
    using ring that unfolding ring_holds_def by blast
  show "set (buckets ! (t mod ring)) = {(p, n mod c) |p n. (p, n) \<in> E \<and> n div c = t}"
    unfolding held [OF slot] using same t by blast
  have "set (buckets[t mod ring := []] ! i) =
      {(p, n mod c) |p n. (p, n) \<in> {(p, n) \<in> E. n div c \<noteq> t} \<and> n div c < segments \<and> n div c mod ring = i}" if "i < ring" for i
  proof (cases "i = t mod ring")
    case True
    moreover have "length buckets = ring" using ring by (simp add: ring_holds_def)
    ultimately show ?thesis using slot same by auto
  next
    case False
    then have "set (buckets[t mod ring := []] ! i) = set (buckets ! i)" by simp
    then show ?thesis unfolding held [OF that] using False by blast
  qed
  then show "ring_holds ring c segments {(p, n) \<in> E. n div c \<noteq> t} (buckets[t mod ring := []])"
    using ring by (simp add: ring_holds_def)
qed

end
