(* ===== verification/GoldbachSieve_Persistent.thy ===== *)
theory GoldbachSieve_Persistent
  imports GoldbachSieve_Ring
begin

text \<open>
  One call of \<open>next_segment\<close>: the activation, the dense pass and the sparse pass keep the invariant of
  the persistent state, none of the horizon checks fails, and the words are those of the replay.
\<close>

section \<open>Active primes\<close>

definition scheduled :: "nat \<Rightarrow> nat \<Rightarrow> nat \<Rightarrow> nat list \<Rightarrow> (nat \<times> nat) set" where
  "scheduled base c t A = {(p, next_hit base (t * c) p) |p. p \<in> set A \<and> c < p}"

definition dense_of :: "nat \<Rightarrow> nat \<Rightarrow> nat \<Rightarrow> nat list \<Rightarrow> (nat \<times> nat) list" where
  "dense_of base c t A = map (\<lambda>p. (p, next_hit base (t * c) p - t * c)) (filter (\<lambda>p. p \<le> c) A)"

text \<open>The state holds the list \<open>A\<close> of active primes at segment \<open>t\<close>.\<close>

definition holds :: "nat \<Rightarrow> nat list \<Rightarrow> bucket_sieve \<Rightarrow> bool" where
  "holds t A s \<longleftrightarrow> bs_dense s = dense_of (bs_first_low s) (bs_odd_count s) t A \<and>
     ring_holds (bs_ring_size s) (bs_odd_count s) (bs_segments s) (scheduled (bs_first_low s) (bs_odd_count s) t A) (bs_buckets s)"

definition same_config :: "bucket_sieve \<Rightarrow> bucket_sieve \<Rightarrow> bool" where
  "same_config s s' \<longleftrightarrow> bs_first_low s' = bs_first_low s \<and> bs_odd_count s' = bs_odd_count s \<and> bs_segments s' = bs_segments s \<and>
     bs_primes s' = bs_primes s \<and> bs_ring_size s' = bs_ring_size s \<and> bs_next_segment s' = bs_next_segment s"

lemma push_event_config [simp]:
  "bs_first_low (push_event s k e) = bs_first_low s" "bs_odd_count (push_event s k e) = bs_odd_count s"
  "bs_segments (push_event s k e) = bs_segments s" "bs_primes (push_event s k e) = bs_primes s"
  "bs_ring_size (push_event s k e) = bs_ring_size s" "bs_next_segment (push_event s k e) = bs_next_segment s"
  "bs_dense (push_event s k e) = bs_dense s" "bs_activation_index (push_event s k e) = bs_activation_index s"
  by (simp_all add: push_event_def Let_def)

definition config_ok :: "bucket_sieve \<Rightarrow> bool" where
  "config_ok s \<longleftrightarrow> odd (bs_first_low s) \<and> 1 \<le> bs_odd_count s \<and> base_primes_ok (bs_primes s) \<and> 3 \<le> bs_ring_size s \<and>
     (\<forall>p \<in> set (bs_primes s). p div bs_odd_count s + 3 \<le> bs_ring_size s)"

lemma config_strikes: "config_ok s \<Longrightarrow> p \<in> set (bs_primes s) \<Longrightarrow> strikes (bs_first_low s) p"
  by (auto simp: config_ok_def base_primes_ok_def strikes_def)

section \<open>Activation\<close>

lemma activate_correct:
  assumes "config_ok s" "set ps \<subseteq> set (bs_primes s)" "holds t A s" "bs_activation_index s = length A"
    and "high = bs_first_low s + 2 * (t * bs_odd_count s + bs_odd_count s)"
  shows "\<exists>s'. activate t (bs_first_low s + 2 * (t * bs_odd_count s)) high ps s = Inr s' \<and> same_config s s' \<and>
    holds t (A @ takeWhile (\<lambda>p. p * p < high) ps) s' \<and>
    bs_activation_index s' = length (A @ takeWhile (\<lambda>p. p * p < high) ps)"
  using assms
proof (induction ps arbitrary: s A)
  case Nil
  then show ?case by (simp add: same_config_def)
next
  case (Cons p ps)
  let ?c = "bs_odd_count s" and ?base = "bs_first_low s"
  let ?low = "?base + 2 * (t * ?c)"
  show ?case
  proof (cases "p * p < high")
    case False
    then show ?thesis using Cons.prems by (simp add: same_config_def)
  next
    case True
    have p: "strikes ?base p" using Cons.prems(1,2) by (intro config_strikes) auto
    have c: "1 \<le> ?c" using Cons.prems(1) by (simp add: config_ok_def)
    define n d where "n = next_hit ?base (t * ?c) p" and "d = n - t * ?c"
    have d: "(first_odd_composite ?low p - ?low) div 2 = d" "n = t * ?c + d"
      by (simp_all add: d_def n_def next_hit_def first_offset_def)
    have near: "d < max p ?c" using hit_near [OF p, of "t * ?c" ?c] True Cons.prems(5) d(2) by (simp add: n_def)
    define s1 where "s1 = s\<lparr>bs_activation_index := bs_activation_index s + 1\<rparr>"
    have s1: "config_ok s1" "same_config s s1" "holds t A s1" "bs_activation_index s1 = length (A @ [p])"
      using Cons.prems(1,3,4) by (simp_all add: s1_def config_ok_def same_config_def holds_def)
    have finish: ?thesis if q: "config_ok q" "same_config s q" "holds t (A @ [p]) q" "bs_activation_index q = length (A @ [p])"
        and step: "activate t ?low high (p # ps) s = activate t ?low high ps q" for q
    proof -
      have same: "bs_first_low q = ?base" "bs_odd_count q = ?c" "bs_primes q = bs_primes s" using q(2) by (simp_all add: same_config_def)
      from Cons.IH [OF q(1) _ q(3,4)] Cons.prems(2,5)
      obtain s' where "activate t ?low high ps q = Inr s'" "same_config q s'"
          "holds t ((A @ [p]) @ takeWhile (\<lambda>p. p * p < high) ps) s'"
          "bs_activation_index s' = length ((A @ [p]) @ takeWhile (\<lambda>p. p * p < high) ps)"
        unfolding same by auto
      then show ?thesis using True q(2) unfolding step by (auto simp: same_config_def)
    qed
    show ?thesis
    proof (cases "p \<le> ?c")
      case dense: True
      define q where "q = s1\<lparr>bs_dense := bs_dense s1 @ [(p, d)]\<rparr>"
      have "holds t (A @ [p]) q"
      proof -
        have "scheduled ?base ?c t (A @ [p]) = scheduled ?base ?c t A" using dense by (auto simp: scheduled_def)
        moreover have "dense_of ?base ?c t (A @ [p]) = dense_of ?base ?c t A @ [(p, d)]"
          using dense by (simp add: dense_of_def d_def n_def)
        ultimately show ?thesis using Cons.prems(3) by (simp add: holds_def q_def s1_def)
      qed
      moreover have "activate t ?low high (p # ps) s = activate t ?low high ps q"
        using True dense near d(1) by (simp add: Let_def s1_def [symmetric] q_def) (simp add: s1_def)
      ultimately show ?thesis using s1 by (intro finish [of q]) (simp_all add: q_def config_ok_def same_config_def)
    next
      case sparse: False
      define q where "q = push_event s1 (t + d div ?c) (p, d mod ?c)"
      have "p div ?c + 3 \<le> bs_ring_size s" using Cons.prems(1,2) by (simp add: config_ok_def)
      moreover have "d div ?c \<le> p div ?c" using near sparse by (intro div_le_mono) simp
      ultimately have delta: "d div ?c < bs_ring_size s" by simp
      have n: "n div ?c = t + d div ?c" "n mod ?c = d mod ?c" using c d(2) by simp_all
      have "holds t (A @ [p]) q"
      proof -
        have "scheduled ?base ?c t (A @ [p]) = insert (p, n) (scheduled ?base ?c t A)"
          using sparse by (auto simp: scheduled_def n_def)
        moreover have "dense_of ?base ?c t (A @ [p]) = dense_of ?base ?c t A" using sparse by (simp add: dense_of_def)
        moreover have "ring_holds (bs_ring_size s1) (bs_odd_count s1) (bs_segments s1) (insert (p, n) (scheduled ?base ?c t A))
            (bs_buckets (push_event s1 (n div bs_odd_count s1) (p, n mod bs_odd_count s1)))"
          using Cons.prems(1,3) by (intro ring_push) (simp_all add: s1_def holds_def config_ok_def)
        ultimately show ?thesis using Cons.prems(3) n by (simp add: holds_def q_def s1_def)
      qed
      moreover have "activate t ?low high (p # ps) s = activate t ?low high ps q"
        using True sparse delta d(1) by (simp add: Let_def s1_def [symmetric] q_def) (simp add: s1_def)
      ultimately show ?thesis using s1 by (intro finish [of q]) (simp_all add: q_def config_ok_def same_config_def)
    qed
  qed
qed

section \<open>The dense pass\<close>

lemma mark_dense_correct:
  assumes "packs c P words" "strikes base p" "t * c \<le> m" "m \<le> t * c + c" "offset = next_hit base m p - t * c"
  shows "\<exists>words'. mark_dense c p offset words = (next_hit base (t * c + c) p - t * c, words') \<and>
    packs c (\<lambda>i. P i \<and> \<not> (m \<le> t * c + i \<and> struck_by p (base + 2 * (t * c + i)))) words'"
  using assms
proof (induction c p offset words arbitrary: P m rule: mark_dense.induct)
  case (1 c p offset words)
  note p = "1.prems"(2)
  have p0: "p \<noteq> 0" using p by (auto simp: strikes_def)
  have n: "next_hit base m p = t * c + offset" using "1.prems"(3,5) hit_ge [of m base p] by simp
  show ?case
  proof (cases "offset < c")
    case False
    then have "next_hit base (t * c + c) p = next_hit base m p" using "1.prems"(4) n by (intro hit_later [OF p]) simp_all
    moreover have "\<not> (m \<le> t * c + i \<and> struck_by p (base + 2 * (t * c + i)))" if "i < c" for i
      using hit [OF p, of "t * c + i" m] n False that by auto
    then have "packs c (\<lambda>i. P i \<and> \<not> (m \<le> t * c + i \<and> struck_by p (base + 2 * (t * c + i)))) words"
      using "1.prems"(1) by (subst packs_cong [where Q = P]) auto
    ultimately show ?thesis using False n by (subst mark_dense.simps) simp
  next
    case True
    define m' where "m' = t * c + offset + 1"
    have "3 \<le> p" using p by (simp add: strikes_def)
    then have next_eq: "next_hit base m' p = t * c + offset + p"
      using hit_next [OF p, of m m'] n by (simp add: m'_def)
    have "\<exists>words'. mark_dense c p (offset + p) (clear_bit words offset) = (next_hit base (t * c + c) p - t * c, words') \<and>
        packs c (\<lambda>i. (P i \<and> i \<noteq> offset) \<and> \<not> (m' \<le> t * c + i \<and> struck_by p (base + 2 * (t * c + i)))) words'"
      using True p0 next_eq by (intro "1.IH" packs_clear "1.prems"(1) p) (simp_all add: m'_def)
    then obtain words' where w: "mark_dense c p (offset + p) (clear_bit words offset) = (next_hit base (t * c + c) p - t * c, words')"
        "packs c (\<lambda>i. (P i \<and> i \<noteq> offset) \<and> \<not> (m' \<le> t * c + i \<and> struck_by p (base + 2 * (t * c + i)))) words'" by blast
    have "(P i \<and> i \<noteq> offset) \<and> \<not> (m' \<le> t * c + i \<and> struck_by p (base + 2 * (t * c + i))) \<longleftrightarrow>
        P i \<and> \<not> (m \<le> t * c + i \<and> struck_by p (base + 2 * (t * c + i)))" for i
    proof -
      have "struck_by p (base + 2 * (t * c + offset))" using hit_struck [OF p, of m] by (simp only: n)
      moreover have "m \<le> t * c + offset" using hit_ge [of m base p] n by simp
      moreover have "offset \<le> i" if "m \<le> t * c + i" "struck_by p (base + 2 * (t * c + i))"
        using hit [OF p that(2,1)] n by simp
      moreover have "m' \<le> t * c + i \<longleftrightarrow> offset < i" by (auto simp: m'_def)
      ultimately show ?thesis by (cases "i = offset") (auto simp: le_less)
    qed
    then have "packs c (\<lambda>i. P i \<and> \<not> (m \<le> t * c + i \<and> struck_by p (base + 2 * (t * c + i)))) words'"
      using w(2) by (simp only:)
    moreover have "mark_dense c p offset words = mark_dense c p (offset + p) (clear_bit words offset)"
      using True p0 by (subst mark_dense.simps) simp
    ultimately show ?thesis using w(1) by simp
  qed
qed

lemma dense_pass_correct:
  assumes "packs c P words" "\<And>p. p \<in> set ps \<Longrightarrow> strikes base p"
  shows "\<exists>words'. dense_pass c (map (\<lambda>p. (p, next_hit base (t * c) p - t * c)) ps) words =
      (map (\<lambda>p. (p, next_hit base (t * c + c) p - (t * c + c))) ps, words') \<and>
    packs c (\<lambda>i. P i \<and> \<not> struck_any (set ps) (base + 2 * (t * c + i))) words'"
  using assms
proof (induction ps arbitrary: P words)
  case Nil
  then show ?case by (simp add: struck_any_def)
next
  case (Cons p ps)
  have "strikes base p" using Cons.prems(2) by simp
  from mark_dense_correct [OF Cons.prems(1) this, of t "t * c"]
  obtain words1 where w1: "mark_dense c p (next_hit base (t * c) p - t * c) words = (next_hit base (t * c + c) p - t * c, words1)"
      "packs c (\<lambda>i. P i \<and> \<not> struck_by p (base + 2 * (t * c + i))) words1" by auto
  from Cons.IH [OF w1(2)] Cons.prems(2) obtain words' where
    w: "dense_pass c (map (\<lambda>p. (p, next_hit base (t * c) p - t * c)) ps) words1 =
        (map (\<lambda>p. (p, next_hit base (t * c + c) p - (t * c + c))) ps, words')"
      "packs c (\<lambda>i. (P i \<and> \<not> struck_by p (base + 2 * (t * c + i))) \<and> \<not> struck_any (set ps) (base + 2 * (t * c + i))) words'" by auto
  have "packs c (\<lambda>i. P i \<and> \<not> struck_any (set (p # ps)) (base + 2 * (t * c + i))) words'"
    using w(2) by (subst packs_cong [where Q = "\<lambda>i. (P i \<and> \<not> struck_by p (base + 2 * (t * c + i))) \<and> \<not> struck_any (set ps) (base + 2 * (t * c + i))"])
      (auto simp: struck_any_def)
  then show ?case using w(1) w1(1) by (simp add: diff_diff_add)
qed

section \<open>The sparse pass\<close>

lemma sparse_pass_correct:
  assumes "config_ok s" "ring_holds (bs_ring_size s) (bs_odd_count s) (bs_segments s) E (bs_buckets s)"
    and "packs (bs_odd_count s) P words"
    and "\<And>p d. (p, d) \<in> set es \<Longrightarrow> p \<in> set (bs_primes s) \<and> bs_odd_count s < p \<and> d < bs_odd_count s"
  shows "\<exists>s' words'. sparse_pass t es s words = Inr (s', words') \<and> same_config s s' \<and> bs_dense s' = bs_dense s \<and>
    bs_activation_index s' = bs_activation_index s \<and>
    ring_holds (bs_ring_size s) (bs_odd_count s) (bs_segments s)
      (E \<union> {(p, t * bs_odd_count s + d + p) |p d. (p, d) \<in> set es}) (bs_buckets s') \<and>
    packs (bs_odd_count s) (\<lambda>i. P i \<and> i \<notin> snd ` set es) words'"
  using assms
proof (induction es arbitrary: s E P words)
  case Nil
  then show ?case by (simp add: same_config_def)
next
  case (Cons e es)
  let ?c = "bs_odd_count s" and ?r = "bs_ring_size s"
  obtain p d where e: "e = (p, d)" by (cases e)
  have pd: "p \<in> set (bs_primes s)" "?c < p" "d < ?c" using Cons.prems(4) [of p d] by (simp_all add: e)
  have c: "0 < ?c" using pd(3) by simp
  define delta where "delta = (d + p) div ?c"
  have "1 \<le> delta" using pd(2) c by (simp add: delta_def div_greater_zero_iff Suc_le_eq)
  moreover have "delta < ?r"
  proof -
    have "delta \<le> (?c + p) div ?c" unfolding delta_def using pd(3) by (intro div_le_mono) simp
    also have "... = p div ?c + 1" using c by simp
    finally show ?thesis using Cons.prems(1) pd(1) by (force simp: config_ok_def)
  qed
  ultimately have delta: "0 < delta" "delta < ?r" by simp_all
  define n where "n = t * ?c + d + p"
  have n: "n div ?c = t + delta" "n mod ?c = (d + p) mod ?c" using c by (simp_all add: n_def delta_def add.assoc)
  define s1 where "s1 = s\<lparr>bs_sparse_events := bs_sparse_events s + 1\<rparr>"
  define q where "q = push_event s1 (t + delta) (p, (d + p) mod ?c)"
  have q: "bs_odd_count q = ?c" "bs_ring_size q = ?r" "bs_segments q = bs_segments s" "bs_primes q = bs_primes s"
      "same_config s q" "bs_dense q = bs_dense s" "bs_activation_index q = bs_activation_index s" "config_ok q"
    using Cons.prems(1) by (simp_all add: q_def s1_def same_config_def config_ok_def)
  have "ring_holds (bs_ring_size s1) (bs_odd_count s1) (bs_segments s1) (insert (p, n) E)
      (bs_buckets (push_event s1 (n div bs_odd_count s1) (p, n mod bs_odd_count s1)))"
    using Cons.prems(1,2) by (intro ring_push) (simp_all add: s1_def config_ok_def)
  then have ring: "ring_holds (bs_ring_size q) (bs_odd_count q) (bs_segments q) (insert (p, n) E) (bs_buckets q)"
    using n unfolding q(1-3) by (simp add: q_def s1_def)
  have "packs (bs_odd_count q) (\<lambda>i. P i \<and> i \<noteq> d) (clear_bit words d)"
    unfolding q(1) using Cons.prems(3) pd(3) by (rule packs_clear)
  from Cons.IH [OF q(8) ring this] Cons.prems(4) obtain s' words' where
    IH: "sparse_pass t es q (clear_bit words d) = Inr (s', words')" "same_config q s'" "bs_dense s' = bs_dense q"
      "bs_activation_index s' = bs_activation_index q"
      "ring_holds (bs_ring_size q) (bs_odd_count q) (bs_segments q)
        (insert (p, n) E \<union> {(p, t * bs_odd_count q + d + p) |p d. (p, d) \<in> set es}) (bs_buckets s')"
      "packs (bs_odd_count q) (\<lambda>i. (P i \<and> i \<noteq> d) \<and> i \<notin> snd ` set es) words'"
    unfolding q(1,4) by auto
  have "sparse_pass t (e # es) s words = sparse_pass t es q (clear_bit words d)"
    using pd delta by (simp add: e Let_def delta_def [symmetric] q_def s1_def)
  moreover have "insert (p, n) E \<union> {(p, t * ?c + d + p) |p d. (p, d) \<in> set es} = E \<union> {(p, t * ?c + d + p) |p d. (p, d) \<in> set (e # es)}"
    by (auto simp: e n_def)
  moreover have "packs ?c (\<lambda>i. P i \<and> i \<notin> snd ` set (e # es)) words'"
    using IH(6) unfolding q(1) by (subst packs_cong [where Q = "\<lambda>i. (P i \<and> i \<noteq> d) \<and> i \<notin> snd ` set es"]) (auto simp: e)
  ultimately show ?case using IH(1-5) q by (auto simp: same_config_def)
qed

section \<open>One segment\<close>

text \<open>The active primes at the start of segment \<open>t\<close>: those whose square the segments before have reached.\<close>

definition active :: "bucket_sieve \<Rightarrow> nat \<Rightarrow> nat list" where
  "active s t = (if t = 0 then [] else takeWhile (\<lambda>p. p * p < bs_first_low s + 2 * (t * bs_odd_count s)) (bs_primes s))"

definition sieve_inv :: "bucket_sieve \<Rightarrow> bool" where
  "sieve_inv s \<longleftrightarrow> config_ok s \<and> holds (bs_next_segment s) (active s (bs_next_segment s)) s \<and>
     bs_activation_index s = length (active s (bs_next_segment s))"

lemma takeWhile_later:
  assumes "a \<le> (b :: nat)"
  shows "takeWhile (\<lambda>p. p * p < a) ps @ takeWhile (\<lambda>p. p * p < b) (drop (length (takeWhile (\<lambda>p. p * p < a) ps)) ps) =
    takeWhile (\<lambda>p. p * p < b) ps"
  using assms by (induction ps) auto

lemma active_step:
  "active s t @ takeWhile (\<lambda>p. p * p < bs_first_low s + 2 * (t * bs_odd_count s + bs_odd_count s)) (drop (length (active s t)) (bs_primes s)) =
     active s (Suc t)"
  using takeWhile_later [of "bs_first_low s + 2 * (t * bs_odd_count s)" "bs_first_low s + 2 * (t * bs_odd_count s + bs_odd_count s)" "bs_primes s"]
  by (simp add: active_def add_mult_distrib add.commute)

lemma active_struck:
  assumes "config_ok s" "v < bs_first_low s + 2 * (t * bs_odd_count s + bs_odd_count s)"
  shows "struck_any (set (active s (Suc t))) v \<longleftrightarrow> struck_any (set (bs_primes s)) v"
proof -
  let ?high = "bs_first_low s + 2 * (t * bs_odd_count s + bs_odd_count s)"
  have act: "active s (Suc t) = takeWhile (\<lambda>p. p * p < ?high) (bs_primes s)" by (simp add: active_def add.commute)
  have "\<not> struck_any (set (dropWhile (\<lambda>p. p * p < ?high) (bs_primes s))) v"
  proof (cases "dropWhile (\<lambda>p. p * p < ?high) (bs_primes s)")
    case Nil
    show ?thesis unfolding Nil by (simp add: struck_any_def)
  next
    case (Cons p ps)
    have "sorted_wrt (<) (takeWhile (\<lambda>p. p * p < ?high) (bs_primes s) @ p # ps)"
      using assms(1) Cons by (simp add: config_ok_def base_primes_ok_def flip: Cons)
    then have "base_primes_ok (p # ps)"
      using assms(1) set_dropWhileD [of _ "\<lambda>p. p * p < ?high" "bs_primes s"] Cons
      by (auto simp: config_ok_def base_primes_ok_def sorted_wrt_append)
    moreover have "?high \<le> p * p" using Cons by (metis dropWhile_eq_Cons_conv not_le)
    ultimately show ?thesis unfolding Cons using assms(2) by (intro unstruck_above)
  qed
  moreover have "set (bs_primes s) = set (active s (Suc t)) \<union> set (dropWhile (\<lambda>p. p * p < ?high) (bs_primes s))"
    unfolding act by (metis set_append takeWhile_dropWhile_id)
  ultimately show ?thesis by (auto simp: struck_any_def)
qed

lemma active_subset: "p \<in> set (active s (Suc t)) \<Longrightarrow>
    p \<in> set (bs_primes s) \<and> p * p < bs_first_low s + 2 * (t * bs_odd_count s + bs_odd_count s)"
  by (auto simp: active_def add.commute dest: set_takeWhileD)

text \<open>The strikes of the segment leave the ring and come back one prime later.\<close>

lemma scheduled_step:
  assumes "config_ok s" "A = active s (Suc t)"
  defines "c \<equiv> bs_odd_count s" and "b \<equiv> bs_first_low s"
  defines "E \<equiv> scheduled b c t A"
  shows "\<And>p n. (p, n) \<in> E \<Longrightarrow> t \<le> n div c \<and> n div c < t + bs_ring_size s"
    and "{(p, n) \<in> E. n div c \<noteq> t} \<union> {(p, t * c + d + p) |p d. (p, d) \<in> {(p, n mod c) |p n. (p, n) \<in> E \<and> n div c = t}} =
      scheduled b c (Suc t) A"
proof -
  have c: "1 \<le> c" using assms(1) by (simp add: config_ok_def c_def)
  have E: "(p, n) \<in> E \<longleftrightarrow> p \<in> set A \<and> c < p \<and> n = next_hit b (t * c) p" for p n by (auto simp: E_def scheduled_def)
  have p: "strikes b p" "p div c + 3 \<le> bs_ring_size s" "next_hit b (t * c) p < t * c + p" if "p \<in> set A" "c < p" for p
  proof -
    have pp: "p \<in> set (bs_primes s)" "p * p < b + 2 * (t * c + c)"
      using active_subset that(1) unfolding assms(2) b_def c_def by blast+
    show "strikes b p" "p div c + 3 \<le> bs_ring_size s"
      using assms(1) pp(1) config_strikes by (simp_all add: config_ok_def b_def c_def)
    from hit_near [OF this(1) pp(2)] show "next_hit b (t * c) p < t * c + p" using that(2) by (simp add: max_def)
  qed
  have n: "t * c \<le> next_hit b (t * c) p" for p by (rule hit_ge)
  show "t \<le> n div c \<and> n div c < t + bs_ring_size s" if "(p, n) \<in> E" for p n
  proof
    have e: "p \<in> set A" "c < p" "n = next_hit b (t * c) p" using that E by blast+
    have "t * c div c \<le> n div c" unfolding e(3) by (intro div_le_mono n)
    then show "t \<le> n div c" using c by simp
    have "n div c \<le> (t * c + p) div c" using p(3) [OF e(1,2)] unfolding e(3) by (intro div_le_mono) simp
    then show "n div c < t + bs_ring_size s" using p(2) [OF e(1,2)] c by simp
  qed
  have step: "next_hit b (Suc t * c) p = (if next_hit b (t * c) p div c = t then next_hit b (t * c) p + p else next_hit b (t * c) p)"
    if "p \<in> set A" "c < p" for p
  proof (cases "next_hit b (t * c) p div c = t")
    case True
    then have "next_hit b (t * c) p < Suc t * c" using c by (metis div_less_iff_less_mult lessI less_le_trans zero_less_one)
    then have "next_hit b (Suc t * c) p = next_hit b (t * c) p + p"
      using n [of p] that(2) by (intro hit_next [OF p(1) [OF that]]) simp_all
    with True show ?thesis by simp
  next
    case False
    have "t * c div c \<le> next_hit b (t * c) p div c" by (intro div_le_mono n)
    then have "Suc t \<le> next_hit b (t * c) p div c" using False c by simp
    then have "Suc t * c \<le> next_hit b (t * c) p" using c by (simp add: less_eq_div_iff_mult_less_eq)
    then have "next_hit b (Suc t * c) p = next_hit b (t * c) p" by (intro hit_later [OF p(1) [OF that]]) simp_all
    with False show ?thesis by simp
  qed
  have whole: "t * c + n mod c = n" if "n div c = t" for n using that div_mult_mod_eq [of n c] by simp
  show "{(p, n) \<in> E. n div c \<noteq> t} \<union> {(p, t * c + d + p) |p d. (p, d) \<in> {(p, n mod c) |p n. (p, n) \<in> E \<and> n div c = t}} =
      scheduled b c (Suc t) A" (is "?L = ?R")
  proof (rule set_eqI)
    fix x :: "nat \<times> nat"
    obtain p k where x: "x = (p, k)" by (cases x)
    have "x \<in> ?L \<longleftrightarrow> (p, k) \<in> E \<and> k div c \<noteq> t \<or> (\<exists>n. (p, n) \<in> E \<and> n div c = t \<and> k = t * c + n mod c + p)"
      unfolding x by blast
    also have "... \<longleftrightarrow> (p, k) \<in> E \<and> k div c \<noteq> t \<or> (\<exists>n. (p, n) \<in> E \<and> n div c = t \<and> k = n + p)"
      using whole by (metis (no_types, lifting))
    also have "... \<longleftrightarrow> (\<exists>n. (p, n) \<in> E \<and> k = (if n div c = t then n + p else n))" by auto
    also have "... \<longleftrightarrow> x \<in> ?R" unfolding x using step by (auto simp: E scheduled_def)
    finally show "x \<in> ?L \<longleftrightarrow> x \<in> ?R" .
  qed
qed

end
