(* ===== verification/GoldbachSieve_Run.thy ===== *)
theory GoldbachSieve_Run
  imports GoldbachSieve_Persistent
begin

text \<open>
  The persistent sieve from construction on: every configured segment is emitted without an exception and
  with the words of the stateless replay.  Then the words of a complete base: the primes.
\<close>

section \<open>One call\<close>

text \<open>The numbers that no base prime strikes; 1 is cleared separately.\<close>

definition unstruck :: "nat set \<Rightarrow> nat \<Rightarrow> bool" where
  "unstruck A v \<longleftrightarrow> v \<noteq> 1 \<and> \<not> struck_any A v"

definition segment_low :: "bucket_sieve \<Rightarrow> nat \<Rightarrow> nat" where
  "segment_low s t = bs_first_low s + 2 * (t * bs_odd_count s)"

lemma clear_one:
  assumes "packs c P words" "1 \<le> c"
  shows "packs c (\<lambda>i. low + 2 * i \<noteq> 1 \<and> P i) (if low = 1 then clear_bit words 0 else words)"
proof (cases "low = 1")
  case True
  have "packs c (\<lambda>i. P i \<and> i \<noteq> 0) (clear_bit words 0)" using assms by (intro packs_clear) simp_all
  with True show ?thesis by (subst packs_cong [where Q = "\<lambda>i. P i \<and> i \<noteq> 0"]) auto
next
  case False
  then have "low + 2 * i \<noteq> 1" for i by (cases i) simp_all
  with False assms(1) show ?thesis by simp
qed

lemma next_segment_correct:
  assumes inv: "sieve_inv s" and t: "bs_next_segment s < bs_segments s"
  shows "\<exists>s' seg. next_segment s = Inr (s', seg) \<and> sieve_inv s' \<and> same_config (s\<lparr>bs_next_segment := bs_next_segment s + 1\<rparr>) s' \<and>
    ps_index seg = bs_next_segment s \<and> ps_odd_low seg = segment_low s (bs_next_segment s) \<and>
    packs (bs_odd_count s) (\<lambda>i. unstruck (set (bs_primes s)) (segment_low s (bs_next_segment s) + 2 * i)) (ps_words seg)"
proof -
  define t c b where "t = bs_next_segment s" and "c = bs_odd_count s" and "b = bs_first_low s"
  define low where "low = b + 2 * (t * c)"
  define A where "A = active s (Suc t)"
  have cfg: "config_ok s" and held: "holds t (active s t) s" and idx: "bs_activation_index s = length (active s t)"
    using inv by (simp_all add: sieve_inv_def t_def)
  have c: "1 \<le> c" using cfg by (simp add: config_ok_def c_def)
  have lows: "b + 2 * c * t = low" by (simp add: low_def)
  have high: "low + 2 * c = b + 2 * (t * c + c)" by (simp add: low_def)
  have "set (drop (bs_activation_index s) (bs_primes s)) \<subseteq> set (bs_primes s)" by (rule set_drop_subset)
  from activate_correct [OF cfg this held idx high [unfolded b_def c_def], folded b_def c_def, folded low_def]
  obtain s1 where s1: "activate t low (low + 2 * c) (drop (bs_activation_index s) (bs_primes s)) s = Inr s1" "same_config s s1"
      "holds t A s1" "bs_activation_index s1 = length A"
    unfolding high idx A_def active_step [of s t, folded b_def c_def, symmetric] by blast
  have f1: "bs_first_low s1 = b" "bs_odd_count s1 = c" "bs_segments s1 = bs_segments s" "bs_primes s1 = bs_primes s"
      "bs_ring_size s1 = bs_ring_size s" "bs_next_segment s1 = t"
    using s1(2) by (simp_all add: same_config_def b_def c_def t_def)
  have A: "p \<in> set (bs_primes s) \<and> strikes b p" if "p \<in> set A" for p
    using active_subset config_strikes [OF cfg] that unfolding A_def b_def by blast
  have dense: "bs_dense s1 = map (\<lambda>p. (p, next_hit b (t * c) p - t * c)) (filter (\<lambda>p. p \<le> c) A)"
    and ring: "ring_holds (bs_ring_size s) c (bs_segments s) (scheduled b c t A) (bs_buckets s1)"
    using s1(3) by (simp_all add: holds_def f1 dense_of_def)
  have "strikes b p" if "p \<in> set (filter (\<lambda>p. p \<le> c) A)" for p using A that by auto
  from dense_pass_correct [OF packs_initial this, where t = t]
  obtain words1 where words1: "dense_pass c (bs_dense s1) (initial_words c) =
      (map (\<lambda>p. (p, next_hit b (t * c + c) p - (t * c + c))) (filter (\<lambda>p. p \<le> c) A), words1)"
      "packs c (\<lambda>i. True \<and> \<not> struck_any (set (filter (\<lambda>p. p \<le> c) A)) (b + 2 * (t * c + i))) words1"
    unfolding dense by blast
  define s2 where "s2 = s1\<lparr>bs_dense := dense_of b c (Suc t) A, bs_buckets := (bs_buckets s1)[t mod bs_ring_size s := []]\<rparr>"
  have dense2: "map (\<lambda>p. (p, next_hit b (t * c + c) p - (t * c + c))) (filter (\<lambda>p. p \<le> c) A) = dense_of b c (Suc t) A"
    by (simp add: dense_of_def add.commute)
  define es where "es = bs_buckets s1 ! (t mod bs_ring_size s)"
  let ?E = "scheduled b c t A"
  have span: "\<And>p n. (p, n) \<in> ?E \<Longrightarrow> t \<le> n div c \<and> n div c < t + bs_ring_size s"
    using scheduled_step(1) [OF cfg A_def] unfolding b_def c_def by blast
  have pos: "0 < bs_ring_size s" using cfg by (simp add: config_ok_def)
  have es: "set es = {(p, n mod c) |p n. (p, n) \<in> ?E \<and> n div c = t}"
    and ring2: "ring_holds (bs_ring_size s) c (bs_segments s) {(p, n) \<in> ?E. n div c \<noteq> t} (bs_buckets s2)"
    using ring_pop [OF ring span t [folded t_def] pos] by (simp_all add: es_def s2_def)
  have s2: "config_ok s2" "same_config s s2" "bs_dense s2 = dense_of b c (Suc t) A" "bs_activation_index s2 = length A"
      "bs_odd_count s2 = c" "bs_ring_size s2 = bs_ring_size s" "bs_segments s2 = bs_segments s" "bs_primes s2 = bs_primes s"
    using cfg s1(2,4) by (simp_all add: s2_def config_ok_def same_config_def c_def)
  have "p \<in> set (bs_primes s) \<and> c < p \<and> d < c" if "(p, d) \<in> set es" for p d
    using that A c unfolding es scheduled_def by auto
  from sparse_pass_correct [OF s2(1), unfolded s2(5-8), OF ring2 words1(2) this]
  obtain s3 words2 where s3: "sparse_pass t es s2 words1 = Inr (s3, words2)" "same_config s2 s3" "bs_dense s3 = bs_dense s2"
      "bs_activation_index s3 = bs_activation_index s2"
      "ring_holds (bs_ring_size s) c (bs_segments s) ({(p, n) \<in> ?E. n div c \<noteq> t} \<union> {(p, t * c + d + p) |p d. (p, d) \<in> set es}) (bs_buckets s3)"
      "packs c (\<lambda>i. (True \<and> \<not> struck_any (set (filter (\<lambda>p. p \<le> c) A)) (b + 2 * (t * c + i))) \<and> i \<notin> snd ` set es) words2"
    by blast
  have "{(p, n) \<in> ?E. n div c \<noteq> t} \<union> {(p, t * c + d + p) |p d. (p, d) \<in> set es} = scheduled b c (Suc t) A"
    using scheduled_step(2) [OF cfg A_def, folded b_def c_def] unfolding es by blast
  then have ring3: "ring_holds (bs_ring_size s) c (bs_segments s) (scheduled b c (Suc t) A) (bs_buckets s3)" using s3(5) by simp
  define s' where "s' = s3\<lparr>bs_next_segment := bs_next_segment s3 + 1\<rparr>"
  define words where "words = (if low = 1 then clear_bit words2 0 else words2)"
  have same: "same_config (s\<lparr>bs_next_segment := bs_next_segment s + 1\<rparr>) s'"
    using s2(2) s3(2) by (simp add: same_config_def s'_def)
  have "active s' (Suc t) = A" using same by (simp add: active_def A_def same_config_def)
  then have "sieve_inv s'"
    using cfg same s3(3,4) s2(3,4) ring3
    by (simp add: sieve_inv_def holds_def config_ok_def same_config_def s'_def t_def b_def c_def)
  moreover have "next_segment s = Inr (s', \<lparr>ps_index = t, ps_odd_low = low, ps_words = words, ps_active_dense = length (bs_dense s3),
      ps_sparse_events = length es, ps_newly_activated = bs_activation_index s3 - bs_activation_index s\<rparr>)"
    using t s1(1) words1(1) s3(1) unfolding next_segment_def
    by (simp add: Let_def f1 t_def [symmetric] b_def [symmetric] c_def [symmetric] lows dense2 es_def [symmetric] s2_def [symmetric]
        words_def s'_def)
  moreover have "packs c (\<lambda>i. unstruck (set (bs_primes s)) (low + 2 * i)) words"
  proof -
    have sparse: "i \<in> snd ` set es \<longleftrightarrow> (\<exists>p \<in> set A. c < p \<and> struck_by p (b + 2 * (t * c + i)))" if "i < c" for i
    proof -
      have "i \<in> snd ` set es \<longleftrightarrow> (\<exists>p \<in> set A. c < p \<and> next_hit b (t * c) p div c = t \<and> i = next_hit b (t * c) p mod c)"
        unfolding es scheduled_def by force
      also have "... \<longleftrightarrow> (\<exists>p \<in> set A. c < p \<and> t * c + i = next_hit b (t * c) p)"
        using that by (metis div_mult_self3 div_mult_mod_eq div_less add.right_neutral mod_mult_self3 mod_less not_less_zero)
      also have "... \<longleftrightarrow> (\<exists>p \<in> set A. c < p \<and> struck_by p (b + 2 * (t * c + i)))"
      proof (intro bex_cong refl conj_cong)
        fix p assume p: "p \<in> set A" "c < p"
        have st: "strikes b p" using A p(1) by blast
        have ge: "t * c \<le> next_hit b (t * c) p" by (rule hit_ge)
        have "\<not> p dvd t * c + i - next_hit b (t * c) p" if "next_hit b (t * c) p < t * c + i"
          using that ge \<open>i < c\<close> p(2) by (intro nat_dvd_not_less) linarith+
        then show "t * c + i = next_hit b (t * c) p \<longleftrightarrow> struck_by p (b + 2 * (t * c + i))"
          unfolding struck_iff [OF st le_add1 [of "t * c" i]] by (cases "next_hit b (t * c) p < t * c + i") auto
      qed
      finally show ?thesis .
    qed
    have "packs c (\<lambda>i. \<not> struck_any (set (bs_primes s)) (low + 2 * i)) words2"
    proof (subst packs_cong)
      fix i assume i: "i < c"
      then have v: "low + 2 * i < bs_first_low s + 2 * (t * bs_odd_count s + bs_odd_count s)"
        by (simp add: low_def b_def c_def)
      have eq: "low + 2 * i = b + 2 * (t * c + i)" by (simp add: low_def)
      have struck: "struck_any (set (bs_primes s)) (low + 2 * i) \<longleftrightarrow> struck_any (set A) (low + 2 * i)"
        using active_struck [OF cfg v] unfolding A_def by blast
      show "\<not> struck_any (set (bs_primes s)) (low + 2 * i) \<longleftrightarrow>
          (True \<and> \<not> struck_any (set (filter (\<lambda>p. p \<le> c) A)) (b + 2 * (t * c + i))) \<and> i \<notin> snd ` set es"
        unfolding sparse [OF i] struck [unfolded eq] eq by (auto simp: struck_any_def not_le)
    qed (rule s3(6))
    from clear_one [OF this c, of low] show ?thesis unfolding words_def [symmetric] by (simp add: unstruck_def)
  qed
  ultimately show ?thesis using same by (auto simp: t_def c_def low_def b_def segment_low_def)
qed

section \<open>The base primes\<close>

lemma clear_slice_nth: "i < length flags \<Longrightarrow> clear_slice first step flags ! i \<longleftrightarrow> flags ! i \<and> \<not> (first \<le> i \<and> (i - first) mod step = 0)"
  by (simp add: clear_slice_def nth_enumerate_eq)

lemma length_clear_slice [simp]: "length (clear_slice first step flags) = length flags"
  by (simp add: clear_slice_def)

lemma slice_strikes:
  assumes "odd (p::nat)" "3 \<le> p"
  shows "(p * p - 3) div 2 \<le> i \<and> (i - (p * p - 3) div 2) mod p = 0 \<longleftrightarrow> struck_by p (2 * i + 3)"
proof -
  have odd: "odd (p * p)" using assms by simp
  have "3 * 3 \<le> p * p" using assms(2) by (intro mult_le_mono)
  then have eq: "p * p = 2 * ((p * p - 3) div 2) + 3" using odd by (auto elim!: oddE)
  define f where "f = (p * p - 3) div 2"
  have eq: "p * p = 2 * f + 3" using eq unfolding f_def .
  have le: "p * p \<le> 2 * i + 3 \<longleftrightarrow> f \<le> i" unfolding eq by simp
  have "p dvd 2 * i + 3 \<longleftrightarrow> (i - f) mod p = 0" if "f \<le> i"
  proof -
    have "p dvd 2 * i + 3 \<longleftrightarrow> 2 * p dvd (2 * i + 3) - p * p"
      using that le assms odd by (intro odd_step_multiple) auto
    also have "(2 * i + 3) - p * p = 2 * (i - f)" unfolding eq by simp
    finally show ?thesis by (simp add: mod_eq_0_iff_dvd)
  qed
  then show ?thesis unfolding struck_by_def le f_def [symmetric] by (cases "f \<le> i") simp_all
qed

text \<open>After the loop has passed the indices below \<open>k\<close>.\<close>

definition odd_struck :: "nat \<Rightarrow> nat \<Rightarrow> bool" where
  "odd_struck k v \<longleftrightarrow> (\<exists>p < 2 * k + 3. odd p \<and> is_prime p \<and> struck_by p v)"

lemma odd_struck_prime:
  assumes "odd v" "3 \<le> v" "v < (2 * k + 3) * (2 * k + 3)"
  shows "odd_struck k v \<longleftrightarrow> \<not> is_prime v"
proof -
  have "odd_struck k v \<longleftrightarrow> struck_out (2 * k + 3) v"
  proof -
    have "odd p" if "p dvd v" for p using that assms(1) by (metis dvd_trans)
    then show ?thesis by (auto simp: odd_struck_def struck_out_def struck_by_def)
  qed
  then show ?thesis using struck_out_iff [of v "2 * k + 3"] assms(2,3) by simp
qed

lemma odd_sieve_loop_correct:
  assumes "length flags = count" "k \<le> count" "limit < 2 * count + 3"
    and "\<And>i. i < count \<Longrightarrow> flags ! i \<longleftrightarrow> \<not> odd_struck k (2 * i + 3)" and "2 * count + 1 \<le> limit"
  shows "length (odd_sieve_loop limit [k..<count] flags) = count \<and>
    (\<forall>i < count. odd_sieve_loop limit [k..<count] flags ! i \<longleftrightarrow> is_prime (2 * i + 3))"
  using assms
proof (induction "count - k" arbitrary: k flags)
  case 0
  then have "k = count" by simp
  have "odd_struck k (2 * i + 3) \<longleftrightarrow> \<not> is_prime (2 * i + 3)" if "i < count" for i
  proof (rule odd_struck_prime)
    have "2 * i + 3 < 2 * k + 3" using that \<open>k = count\<close> by simp
    also have "... \<le> (2 * k + 3) * (2 * k + 3)" by simp
    finally show "2 * i + 3 < (2 * k + 3) * (2 * k + 3)" .
  qed simp_all
  then show ?case using 0 \<open>k = count\<close> by simp
next
  case (Suc d)
  then have k: "k < count" and upt: "[k..<count] = k # [Suc k..<count]" by (simp_all add: upt_conv_Cons)
  let ?p = "2 * k + 3"
  show ?case
  proof (cases "?p * ?p > limit")
    case True
    have "odd_struck k (2 * i + 3) \<longleftrightarrow> \<not> is_prime (2 * i + 3)" if "i < count" for i
    proof (rule odd_struck_prime)
      have "2 * i + 3 \<le> limit" using that Suc.prems(5) by simp
      then show "2 * i + 3 < ?p * ?p" using True by (rule le_less_trans)
    qed simp_all
    then show ?thesis using True Suc.prems(1,4) unfolding upt by (simp del: upt_Suc)
  next
    case False
    have at_k: "flags ! k \<longleftrightarrow> is_prime ?p"
      using Suc.prems(4) [OF k] odd_struck_prime [of ?p k] by simp
    have grow: "odd_struck (Suc k) v \<longleftrightarrow> odd_struck k v \<or> is_prime ?p \<and> struck_by ?p v" for v
    proof -
      have "p < 2 * Suc k + 3 \<and> odd p \<longleftrightarrow> (p < ?p \<or> p = ?p) \<and> odd p" for p :: nat
      proof -
        have "p \<noteq> 2 * k + 4" if "odd p" using that by auto
        then show ?thesis by auto
      qed
      moreover have "odd ?p" by simp
      ultimately show ?thesis unfolding odd_struck_def by blast
    qed
    define flags' where "flags' = (if flags ! k then clear_slice ((?p * ?p - 3) div 2) ?p flags else flags)"
    have "length flags' = count" using Suc.prems(1) by (simp add: flags'_def)
    moreover have "flags' ! i \<longleftrightarrow> \<not> odd_struck (Suc k) (2 * i + 3)" if "i < count" for i
    proof (cases "is_prime ?p")
      case True
      have "flags' ! i \<longleftrightarrow> flags ! i \<and> \<not> struck_by ?p (2 * i + 3)"
        using True at_k that Suc.prems(1) slice_strikes [of ?p i] by (simp add: flags'_def clear_slice_nth)
      then show ?thesis using Suc.prems(4) [OF that] grow True by blast
    next
      case False
      then show ?thesis using at_k Suc.prems(4) [OF that] grow by (simp add: flags'_def)
    qed
    ultimately have "length (odd_sieve_loop limit [Suc k..<count] flags') = count \<and>
        (\<forall>i < count. odd_sieve_loop limit [Suc k..<count] flags' ! i \<longleftrightarrow> is_prime (2 * i + 3))"
      using Suc.hyps(2) k Suc.prems(3,5) by (intro Suc.hyps(1)) simp_all
    moreover have "odd_sieve_loop limit [k..<count] flags = odd_sieve_loop limit [Suc k..<count] flags'"
      using False unfolding upt by (simp add: Let_def flags'_def del: upt_Suc)
    ultimately show ?thesis by simp
  qed
qed

lemma odd_primes_through_eq:
  "odd_primes_through limit = (if limit < 0 then Inl GoldbachBucketSieveError
     else Inr (map int (filter (\<lambda>n. odd n \<and> is_prime n) [3..<nat limit + 1])))"
proof (cases "limit < 3")
  case True
  then show ?thesis by (auto simp: odd_primes_through_def)
next
  case False
  define n count where "n = nat limit" and "count = (n - 1) div 2"
  have n: "3 \<le> n" "2 * count + 1 \<le> n" "n < 2 * count + 3" using False by (auto simp: n_def count_def)
  have "\<not> odd_struck 0 v" for v
  proof
    assume "odd_struck 0 v"
    then obtain p where "p < 3" "odd p" "is_prime p" by (auto simp: odd_struck_def)
    then have "p = 1" "1 < p" using prime_gt_1 by (auto simp: less_Suc_eq numeral_eq_Suc)
    then show False by simp
  qed
  then have flags: "odd_sieve_loop n [0..<count] (replicate count True) ! i \<longleftrightarrow> is_prime (2 * i + 3)" if "i < count" for i
    using odd_sieve_loop_correct [of "replicate count True" count 0 n] n that by simp
  have "filter (\<lambda>m. odd m \<and> is_prime m) [3..<n + 1] = map (\<lambda>i. 2 * i + 3) (filter (\<lambda>i. is_prime (2 * i + 3)) [0..<count])"
  proof (rule strict_sorted_equal)
    show "sorted_wrt (<) (filter (\<lambda>m. odd m \<and> is_prime m) [3..<n + 1])" by (intro sorted_wrt_filter sorted_wrt_upt)
    have "sorted_wrt (<) (filter (\<lambda>i. is_prime (2 * i + 3)) [0..<count])" by (intro sorted_wrt_filter sorted_wrt_upt)
    then show "sorted_wrt (<) (map (\<lambda>i. 2 * i + 3) (filter (\<lambda>i. is_prime (2 * i + 3)) [0..<count]))"
      by (simp add: sorted_wrt_map)
    show "set (filter (\<lambda>m. odd m \<and> is_prime m) [3..<n + 1]) = set (map (\<lambda>i. 2 * i + 3) (filter (\<lambda>i. is_prime (2 * i + 3)) [0..<count]))" (is "?L = ?R")
    proof (rule set_eqI)
      fix m
      have "m \<in> ?L \<longleftrightarrow> odd m \<and> 3 \<le> m \<and> m \<le> n \<and> is_prime m" by (auto simp: less_Suc_eq_le simp del: upt_Suc)
      moreover have "m \<in> ?R \<longleftrightarrow> (\<exists>i < count. m = 2 * i + 3) \<and> is_prime m" by auto
      moreover have "(\<exists>i < count. m = 2 * i + 3) \<longleftrightarrow> odd m \<and> 3 \<le> m \<and> m \<le> n"
      proof
        assume m: "odd m \<and> 3 \<le> m \<and> m \<le> n"
        then obtain j where j: "m = 2 * j + 1" by (auto elim: oddE)
        then have "j - 1 < count" "m = 2 * (j - 1) + 3" using m n by auto
        then show "\<exists>i < count. m = 2 * i + 3" by blast
      qed (use n in auto)
      ultimately show "m \<in> ?L \<longleftrightarrow> m \<in> ?R" by blast
    qed
  qed
  moreover have "filter (\<lambda>i. odd_sieve_loop n [0..<count] (replicate count True) ! i) [0..<count] =
      filter (\<lambda>i. is_prime (2 * i + 3)) [0..<count]"
    by (rule filter_cong [OF refl]) (rule flags, simp)
  moreover have "odd_primes_through limit =
      Inr (map (\<lambda>i. int (2 * i + 3)) (filter (\<lambda>i. odd_sieve_loop n [0..<count] (replicate count True) ! i) [0..<count]))"
    using False unfolding odd_primes_through_def n_def [symmetric] Let_def count_def [symmetric] by simp
  ultimately show ?thesis using False unfolding n_def [symmetric] by simp
qed

end
