(* ===== verification/GoldbachSieve_Claims.thy ===== *)
theory GoldbachSieve_Claims
  imports GoldbachSieve_Run
begin

text \<open>
  The properties of the Goldbach sieves: the persistent sieve emits the words of the stateless replay,
  and with a complete base both are the primes, as trial division finds them.
\<close>

section \<open>The replay and the oracle\<close>

lemma validate_primes_ok: "base_primes_ok ps \<Longrightarrow> validate_primes (map int ps) = Inr ()"
proof -
  assume ok: "base_primes_ok ps"
  then have "\<forall>p \<in> set (map int ps). 1 < p \<and> 3 \<le> p \<and> odd p" by (fastforce simp: base_primes_ok_def)
  moreover have "sorted_wrt (<) (map int ps)" using ok by (simp add: base_primes_ok_def sorted_wrt_map)
  ultimately show ?thesis unfolding validate_primes_def using validate_primes_from_Inr [of 1 "map int ps" "()"] by blast
qed

lemma validate_primes_nat: "validate_primes ps = Inr u \<Longrightarrow> \<exists>qs. ps = map int qs \<and> base_primes_ok qs"
proof -
  assume "validate_primes ps = Inr u"
  then have ok: "base_primes_ok (map nat ps)" "list_all (\<lambda>p. 0 \<le> p) ps" using validate_primes_Inr by blast+
  then have "ps = map int (map nat ps)" by (auto simp: list_all_iff intro: map_idI [symmetric])
  with ok(1) show ?thesis by blast
qed

lemma stateless_words:
  assumes "base_primes_ok ps" "odd low" "1 \<le> count" "count \<le> 2 ^ 31"
  shows "\<exists>words. stateless_odd_prime_words (int low) (int count) (map int ps) = Inr words \<and>
    packs count (\<lambda>i. unstruck (set ps) (low + 2 * i)) words"
proof -
  have low: "0 < low" using assms(2) by (cases low) auto
  have "validate_segment (int low) (int count) = Inr ()"
    using assms(2-4) low of_nat_mono [OF assms(4), where 'a = int] by (simp add: validate_segment_Inr)
  moreover have "packs count (\<lambda>i. True \<and> \<not> struck_any (set ps) (low + 2 * i)) (stateless_loop low (low + 2 * count) ps (initial_words count))"
    by (rule stateless_loop_packs [OF packs_initial assms(2) low assms(1)])
  from clear_one [OF this assms(3), of low]
  have "packs count (\<lambda>i. unstruck (set ps) (low + 2 * i))
      (if low = 1 then clear_bit (stateless_loop low (low + 2 * count) ps (initial_words count)) 0
       else stateless_loop low (low + 2 * count) ps (initial_words count))"
    by (simp add: unstruck_def)
  ultimately show ?thesis
    using validate_primes_ok [OF assms(1)] by (simp add: stateless_odd_prime_words_def Let_def comp_def)
qed

lemma trial_loop_correct:
  "odd d \<Longrightarrow> trial_loop v d \<longleftrightarrow> (\<forall>e. odd e \<and> d \<le> e \<and> e * e \<le> v \<longrightarrow> \<not> e dvd v)"
proof (induction v d rule: trial_loop.induct)
  case (1 v d)
  show ?case
  proof (cases "d * d \<le> v")
    case False
    have "\<not> e * e \<le> v" if "d \<le> e" for e using False mult_le_mono [OF that that] by simp
    then show ?thesis using False by (subst trial_loop.simps) auto
  next
    case True
    show ?thesis
    proof (cases "v mod d = 0")
      case zero: True
      then have "\<not> trial_loop v d" using True by (subst trial_loop.simps) simp
      moreover have "d dvd v" using zero by (simp add: mod_eq_0_iff_dvd)
      ultimately show ?thesis using True "1.prems" by blast
    next
      case nz: False
      have "trial_loop v d \<longleftrightarrow> trial_loop v (d + 2)" using True nz by (subst trial_loop.simps) simp
      also have "... \<longleftrightarrow> (\<forall>e. odd e \<and> d + 2 \<le> e \<and> e * e \<le> v \<longrightarrow> \<not> e dvd v)"
        using "1.prems" by (intro "1.IH" [OF True nz]) simp
      also have "... \<longleftrightarrow> (\<forall>e. odd e \<and> d \<le> e \<and> e * e \<le> v \<longrightarrow> \<not> e dvd v)"
      proof -
        have "d \<le> e \<longleftrightarrow> e = d \<or> d + 2 \<le> e" if "odd e" for e
          using that "1.prems" by (cases "e = d + 1") auto
        then show ?thesis using nz by (metis mod_eq_0_iff_dvd)
      qed
      finally show ?thesis .
    qed
  qed
qed

lemma trial_prime:
  assumes "odd v" "2 \<le> v"
  shows "trial_loop v 3 \<longleftrightarrow> is_prime v"
proof
  assume prime: "is_prime v"
  have "\<not> e dvd v" if "odd e" "3 \<le> e" "e * e \<le> v" for e
  proof
    assume "e dvd v"
    then have "e = v" using prime that(2) by (auto simp: is_prime_def)
    with that show False by simp
  qed
  then show "trial_loop v 3" by (simp add: trial_loop_correct)
next
  assume trial: "trial_loop v 3"
  show "is_prime v"
  proof (rule ccontr)
    assume c: "\<not> is_prime v"
    have v: "1 < v" using assms(2) by simp
    note l = lpf(1,2) [OF v] composite_lpf(5) [OF v c]
    have "odd (lpf v)" using l(2) assms(1) by (metis dvd_trans)
    moreover have "1 < lpf v" using l(1) by (rule prime_gt_1)
    moreover have "lpf v \<noteq> 2" using calculation(1) by auto
    ultimately have "3 \<le> lpf v" by simp
    then show False using trial \<open>odd (lpf v)\<close> l by (simp add: trial_loop_correct)
  qed
qed

lemma trial_words:
  assumes "odd low" "1 \<le> count" "count \<le> 2 ^ 31"
  shows "\<exists>words. trial_division_odd_prime_words (int low) (int count) = Inr words \<and>
    packs count (\<lambda>i. is_prime (low + 2 * i)) words"
proof -
  define step where "step words offset = (let v = low + 2 * offset in if v \<ge> 2 \<and> trial_loop v 3 then set_bit_at words offset else words)"
    for words offset
  have low: "0 < low" using assms(1) by (cases low) auto
  have "packs count (\<lambda>i. i < k \<and> is_prime (low + 2 * i)) (foldl step (replicate ((count + 63) div 64) 0) [0..<k])" if "k \<le> count" for k
    using that
  proof (induction k)
    case 0
    have "bit_at (replicate n 0) i \<longleftrightarrow> False" if "i < 64 * n" for i n
      using that by (simp add: bit_at_def less_mult_imp_div_less mult.commute)
    then show ?case by (simp add: packs_def)
  next
    case (Suc k)
    have prime: "low + 2 * k \<ge> 2 \<and> trial_loop (low + 2 * k) 3 \<longleftrightarrow> is_prime (low + 2 * k)"
      using trial_prime [of "low + 2 * k"] assms(1) prime_gt_1 [of "low + 2 * k"] by auto
    define ws where "ws = foldl step (replicate ((count + 63) div 64) 0) [0..<k]"
    have IH: "packs count (\<lambda>i. i < k \<and> is_prime (low + 2 * i)) ws" using Suc by (simp add: ws_def)
    have "packs count (\<lambda>i. i < Suc k \<and> is_prime (low + 2 * i)) (if is_prime (low + 2 * k) then set_bit_at ws k else ws)"
    proof (cases "is_prime (low + 2 * k)")
      case True
      have "packs count (\<lambda>i. i < k \<and> is_prime (low + 2 * i) \<or> i = k) (set_bit_at ws k)"
        using Suc.prems by (intro packs_set IH) simp
      with True show ?thesis by (subst packs_cong [where Q = "\<lambda>i. i < k \<and> is_prime (low + 2 * i) \<or> i = k"]) (auto simp: less_Suc_eq)
    next
      case False
      with IH show ?thesis by (subst packs_cong [where Q = "\<lambda>i. i < k \<and> is_prime (low + 2 * i)"]) (auto simp: less_Suc_eq)
    qed
    moreover have "step ws k = (if is_prime (low + 2 * k) then set_bit_at ws k else ws)"
      unfolding step_def Let_def prime by (rule refl)
    ultimately show ?case by (simp add: ws_def)
  qed
  from this [of count]
  have "packs count (\<lambda>i. is_prime (low + 2 * i)) (foldl step (replicate ((count + 63) div 64) 0) [0..<count])"
    by (subst packs_cong [where Q = "\<lambda>i. i < count \<and> is_prime (low + 2 * i)"]) auto
  moreover have "validate_segment (int low) (int count) = Inr ()"
    using assms low of_nat_mono [OF assms(3), where 'a = int] by (simp add: validate_segment_Inr)
  ultimately show ?thesis
    by (simp add: trial_division_odd_prime_words_def Let_def WORD_BITS_def add.commute flip: step_def [unfolded Let_def])
qed

section \<open>Complete bases\<close>

lemma complete_base:
  assumes "odd v" "v < (limit + 1) * (limit + 1)"
  shows "unstruck {p. odd p \<and> is_prime p \<and> p \<le> limit} v \<longleftrightarrow> is_prime v"
proof
  assume prime: "is_prime v"
  have "\<not> struck_by p v" if "is_prime p" for p
  proof
    assume "struck_by p v"
    then have "p = v" "p * p \<le> v" using prime_dvd_prime [OF that prime] unfolding struck_by_def by blast+
    moreover have "v < v * v" using prime_gt_1 [OF prime] by simp
    ultimately show False by (metis not_le)
  qed
  with prime show "unstruck {p. odd p \<and> is_prime p \<and> p \<le> limit} v"
    using prime_gt_1 by (auto simp: unstruck_def struck_any_def)
next
  assume u: "unstruck {p. odd p \<and> is_prime p \<and> p \<le> limit} v"
  show "is_prime v"
  proof (rule ccontr)
    assume c: "\<not> is_prime v"
    have v: "1 < v" using u assms(1) by (cases v) (auto simp: unstruck_def)
    note l = lpf(1,2) [OF v] composite_lpf(5) [OF v c]
    have "odd (lpf v)" using l(2) assms(1) by (metis dvd_trans)
    moreover have "lpf v \<le> limit"
    proof (rule ccontr)
      assume "\<not> lpf v \<le> limit"
      then have "(limit + 1) * (limit + 1) \<le> lpf v * lpf v" by (intro mult_le_mono) simp_all
      with l(3) assms(2) show False by simp
    qed
    ultimately show False using u l by (auto simp: unstruck_def struck_any_def struck_by_def)
  qed
qed

lemma odd_primes_base:
  assumes "0 \<le> limit"
  obtains ps where "odd_primes_through limit = Inr (map int ps)" "base_primes_ok ps" "set ps = {p. odd p \<and> is_prime p \<and> p \<le> nat limit}"
proof
  let ?ps = "filter (\<lambda>n. odd n \<and> is_prime n) [3..<nat limit + 1]"
  show "odd_primes_through limit = Inr (map int ?ps)" using assms by (simp add: odd_primes_through_eq)
  show "base_primes_ok ?ps" by (auto simp: base_primes_ok_def simp del: upt_Suc intro: sorted_wrt_filter sorted_wrt_upt)
  have "3 \<le> p" if "odd p" "is_prime p" for p :: nat
    using that prime_gt_1 [OF that(2)] by (cases "p = 2") auto
  then show "set ?ps = {p. odd p \<and> is_prime p \<and> p \<le> nat limit}" by (auto simp: less_Suc_eq_le simp del: upt_Suc)
qed

lemma complete_base_words:
  assumes "1 \<le> odd_low" "odd odd_low" "1 \<le> odd_count" "odd_count \<le> 2 ^ 31" "0 \<le> limit"
    "odd_low + 2 * odd_count \<le> (limit + 1) * (limit + 1)"
  shows "\<exists>primes words. odd_primes_through limit = Inr primes \<and> stateless_odd_prime_words odd_low odd_count primes = Inr words \<and>
    trial_division_odd_prime_words odd_low odd_count = Inr words \<and> packs (nat odd_count) (\<lambda>i. is_prime (nat odd_low + 2 * i)) words"
proof -
  obtain ps where ps: "odd_primes_through limit = Inr (map int ps)" "base_primes_ok ps" "set ps = {p. odd p \<and> is_prime p \<and> p \<le> nat limit}"
    by (rule odd_primes_base [OF assms(5)])
  define low count where "low = nat odd_low" and "count = nat odd_count"
  have lc: "odd low" "1 \<le> count" "count \<le> 2 ^ 31" "int low = odd_low" "int count = odd_count"
    using assms(1-4) by (auto simp: low_def count_def even_nat_iff le_nat_iff)
  obtain ws where ws: "stateless_odd_prime_words odd_low odd_count (map int ps) = Inr ws" "packs count (\<lambda>i. unstruck (set ps) (low + 2 * i)) ws"
    using stateless_words [OF ps(2) lc(1-3)] unfolding lc(4,5) by blast
  obtain ws' where ws': "trial_division_odd_prime_words odd_low odd_count = Inr ws'" "packs count (\<lambda>i. is_prime (low + 2 * i)) ws'"
    using trial_words [OF lc(1-3)] unfolding lc(4,5) by blast
  have "int (low + 2 * count) \<le> int ((nat limit + 1) * (nat limit + 1))" using assms(5,6) lc(4,5) by (simp add: algebra_simps)
  then have reach: "low + 2 * count \<le> (nat limit + 1) * (nat limit + 1)" by (simp only: of_nat_le_iff)
  have "unstruck (set ps) (low + 2 * i) \<longleftrightarrow> is_prime (low + 2 * i)" if "i < count" for i
    unfolding ps(3) using lc(1) reach that by (intro complete_base) simp_all
  then have "packs count (\<lambda>i. is_prime (low + 2 * i)) ws"
    using ws(2) by (subst (asm) packs_cong [where Q = "\<lambda>i. is_prime (low + 2 * i)"])
  with ws'(2) have "ws' = ws" by (intro packs_unique)
  then show ?thesis
    using ps(1) ws(1) ws' unfolding low_def [symmetric] count_def [symmetric] by blast
qed

section \<open>The persistent sieve\<close>

text \<open>The first \<open>n\<close> calls of \<open>next_segment\<close>.\<close>

primrec run_segments :: "nat \<Rightarrow> bucket_sieve \<Rightarrow> (bucket_sieve \<times> persistent_segment list) res" where
  "run_segments 0 s = Inr (s, [])"
| "run_segments (Suc n) s = ebind (run_segments n s) (\<lambda>(s, out).
     ebind (next_segment s) (\<lambda>(s, seg). Inr (s, out @ [seg])))"

lemma mk_bucket_sieve_Inr:
  assumes "mk_bucket_sieve odd_low odd_count segments odd_primes = Inr s"
  obtains ps low count where "odd_primes = map int ps" "base_primes_ok ps" "odd_low = int low" "odd_count = int count" "odd low"
    "1 \<le> count" "count \<le> 2 ^ 31" "sieve_inv s" "bs_first_low s = low" "bs_odd_count s = count" "bs_primes s = ps"
    "bs_segments s = nat segments" "bs_next_segment s = 0"
proof -
  obtain u v where v: "validate_segment odd_low odd_count = Inr u" "validate_primes odd_primes = Inr v"
    using assms by (auto simp: mk_bucket_sieve_def Let_def res_simps split: if_splits)
  obtain ps where ps: "odd_primes = map int ps" "base_primes_ok ps" using validate_primes_nat [OF v(2)] by blast
  define low count where "low = nat odd_low" and "count = nat odd_count"
  have lc: "odd_low = int low" "odd_count = int count" "odd low" "1 \<le> count" "count \<le> 2 ^ 31"
    using v(1) by (auto simp: validate_segment_Inr low_def count_def even_nat_iff le_nat_iff)
  have ps_eq: "map nat odd_primes = ps" by (simp add: ps(1) comp_def)
  have s: "bs_first_low s = low" "bs_odd_count s = count" "bs_primes s = ps" "bs_segments s = nat segments"
      "bs_next_segment s = 0" "bs_ring_size s = (if ps \<noteq> [] then last ps else 1) div count + 3"
      "bs_buckets s = replicate (bs_ring_size s) []" "bs_dense s = []" "bs_activation_index s = 0"
    using assms unfolding mk_bucket_sieve_def ps_eq low_def [symmetric] count_def [symmetric]
    by (auto simp: Let_def res_simps simp del: replicate.simps)
  have "p \<le> last ps" if "p \<in> set ps" for p
  proof -
    have "sorted ps" using ps(2) strict_sorted_imp_sorted by (auto simp: base_primes_ok_def)
    then have "sorted (butlast ps @ [last ps])" using that by (cases ps) simp_all
    moreover have "p \<in> set (butlast ps) \<or> p = last ps" using that append_butlast_last_id [of ps] by (cases ps rule: rev_cases) auto
    ultimately show ?thesis by (auto simp: sorted_append)
  qed
  then have "p div count \<le> last ps div count" if "p \<in> set ps" for p using that by (intro div_le_mono) blast
  then have "config_ok s" using ps(2) lc s by (auto simp: config_ok_def)
  moreover have "holds 0 [] s" by (simp add: holds_def s(7,8) dense_of_def scheduled_def ring_empty del: replicate.simps)
  ultimately have "sieve_inv s" by (simp add: sieve_inv_def active_def s)
  then show thesis using that ps lc s by blast
qed

lemma run_segments_correct:
  assumes "sieve_inv s" "bs_next_segment s = 0" "n \<le> bs_segments s"
  shows "\<exists>s' out. run_segments n s = Inr (s', out) \<and> sieve_inv s' \<and> same_config (s\<lparr>bs_next_segment := n\<rparr>) s' \<and> length out = n \<and>
    (\<forall>t < n. ps_index (out ! t) = t \<and> ps_odd_low (out ! t) = segment_low s t \<and>
       packs (bs_odd_count s) (\<lambda>i. unstruck (set (bs_primes s)) (segment_low s t + 2 * i)) (ps_words (out ! t)))"
  using assms(3)
proof (induction n)
  case 0
  have "s\<lparr>bs_next_segment := 0\<rparr> = s" using assms(2) by simp
  then show ?case using assms(1) by (simp add: same_config_def)
next
  case (Suc n)
  then obtain s1 out where s1: "run_segments n s = Inr (s1, out)" "sieve_inv s1" "same_config (s\<lparr>bs_next_segment := n\<rparr>) s1"
      "length out = n" and out: "\<forall>t < n. ps_index (out ! t) = t \<and> ps_odd_low (out ! t) = segment_low s t \<and>
       packs (bs_odd_count s) (\<lambda>i. unstruck (set (bs_primes s)) (segment_low s t + 2 * i)) (ps_words (out ! t))" by auto
  have cfg: "bs_next_segment s1 = n" "bs_segments s1 = bs_segments s" "bs_odd_count s1 = bs_odd_count s" "bs_primes s1 = bs_primes s"
      "bs_first_low s1 = bs_first_low s" using s1(3) by (simp_all add: same_config_def)
  obtain s2 seg where s2: "next_segment s1 = Inr (s2, seg)" "sieve_inv s2" "same_config (s1\<lparr>bs_next_segment := bs_next_segment s1 + 1\<rparr>) s2"
      "ps_index seg = n" "ps_odd_low seg = segment_low s n"
      "packs (bs_odd_count s) (\<lambda>i. unstruck (set (bs_primes s)) (segment_low s n + 2 * i)) (ps_words seg)"
    using next_segment_correct [OF s1(2)] Suc.prems by (auto simp: cfg segment_low_def)
  have "same_config (s\<lparr>bs_next_segment := Suc n\<rparr>) s2" using s1(3) s2(3) by (simp add: same_config_def)
  then show ?case using s1(1,4) s2 out by (auto simp: nth_append less_Suc_eq)
qed

text \<open>C16:
  The persistent sieve is the stateless replay.  Once its constructor accepts, each of the configured
  segments is emitted without any of the horizon checks failing, under its index and low end, with
  exactly the words that \<open>stateless_odd_prime_words\<close> computes for that segment from nothing; one more
  call raises \<open>GoldbachBucketSieveError\<close>.
\<close>

theorem persistent_sieve_correct:
  assumes "mk_bucket_sieve odd_low odd_count segments odd_primes = Inr s"
  shows "\<exists>s' out. run_segments (nat segments) s = Inr (s', out) \<and> length out = nat segments \<and>
    (\<forall>t < nat segments. ps_index (out ! t) = t \<and> int (ps_odd_low (out ! t)) = odd_low + 2 * odd_count * int t \<and>
       stateless_odd_prime_words (odd_low + 2 * odd_count * int t) odd_count odd_primes = Inr (ps_words (out ! t))) \<and>
    next_segment s' = Inl GoldbachBucketSieveError"
proof -
  from assms obtain ps low count where m: "odd_primes = map int ps" "base_primes_ok ps" "odd_low = int low" "odd_count = int count"
      "odd low" "1 \<le> count" "count \<le> 2 ^ 31" "sieve_inv s" "bs_first_low s = low" "bs_odd_count s = count" "bs_primes s = ps"
      "bs_segments s = nat segments" "bs_next_segment s = 0" by (rule mk_bucket_sieve_Inr)
  from run_segments_correct [OF m(8,13), of "nat segments"] m(12)
  obtain s' out where run: "run_segments (nat segments) s = Inr (s', out)" "same_config (s\<lparr>bs_next_segment := nat segments\<rparr>) s'"
      "length out = nat segments" and out: "\<And>t. t < nat segments \<Longrightarrow> ps_index (out ! t) = t \<and> ps_odd_low (out ! t) = segment_low s t \<and>
       packs count (\<lambda>i. unstruck (set ps) (segment_low s t + 2 * i)) (ps_words (out ! t))"
    unfolding m(10,11) by auto
  have words: "int (ps_odd_low (out ! t)) = odd_low + 2 * odd_count * int t \<and>
      stateless_odd_prime_words (odd_low + 2 * odd_count * int t) odd_count odd_primes = Inr (ps_words (out ! t))" if "t < nat segments" for t
  proof -
    have low: "int (segment_low s t) = odd_low + 2 * odd_count * int t" "odd (segment_low s t)"
      using m(5) by (simp_all add: segment_low_def m(3,4,9,10))
    obtain ws where ws: "stateless_odd_prime_words (int (segment_low s t)) (int count) (map int ps) = Inr ws"
        "packs count (\<lambda>i. unstruck (set ps) (segment_low s t + 2 * i)) ws"
      using stateless_words [OF m(2) low(2) m(6,7)] by blast
    have "ws = ps_words (out ! t)" using packs_unique ws(2) out [OF that] by blast
    then show ?thesis using ws(1) out [OF that] low(1) by (simp add: m(1,4))
  qed
  have "next_segment s' = Inl GoldbachBucketSieveError"
    using run(2) m(12) by (simp add: next_segment_def same_config_def)
  with run(1,3) out words show ?thesis by blast
qed

lemma persistent_sieve_correct_witness:
  "\<exists>s s' out. mk_bucket_sieve 1 8 3 [3, 5, 7] = Inr s \<and> run_segments 3 s = Inr (s', out) \<and>
     stateless_odd_prime_words 17 8 [3, 5, 7] = Inr (ps_words (out ! 1))"
proof -
  obtain s where s: "mk_bucket_sieve 1 8 3 [3, 5, 7] = Inr s"
    by (simp add: mk_bucket_sieve_def validate_segment_def validate_primes_def MAX_SEGMENT_ODDS_def Let_def)
  from persistent_sieve_correct [OF s] obtain s' out where "run_segments 3 s = Inr (s', out)"
      "\<forall>t < 3. stateless_odd_prime_words (1 + 2 * 8 * int t) 8 [3, 5, 7] = Inr (ps_words (out ! t))" by auto
  from this(2) [rule_format, of 1] this(1) s show ?thesis by auto
qed

text \<open>C11:
  The sieved words are the odd primes.  With the base primes that \<open>odd_primes_through\<close> computes for a
  limit whose successor squared reaches the end of the segment, the stateless replay and the
  trial-division oracle return the same words, whose bit \<open>i\<close> is set exactly when \<open>odd_low + 2 i\<close> is a prime of the
  segment, with the bits past the segment clear.
\<close>

theorem sieve_words_prime:
  assumes "1 \<le> odd_low" "odd odd_low" "1 \<le> odd_count" "odd_count \<le> 2 ^ 31" "0 \<le> limit"
    "odd_low + 2 * odd_count \<le> (limit + 1) * (limit + 1)"
  shows "\<exists>primes words. odd_primes_through limit = Inr primes \<and> stateless_odd_prime_words odd_low odd_count primes = Inr words \<and>
    trial_division_odd_prime_words odd_low odd_count = Inr words \<and> length words = (nat odd_count + 63) div 64 \<and>
    (\<forall>i < 64 * length words. bit (words ! (i div 64)) (i mod 64) \<longleftrightarrow> i < nat odd_count \<and> is_prime (nat odd_low + 2 * i))"
proof -
  from complete_base_words [OF assms] obtain primes words where "odd_primes_through limit = Inr primes"
      "stateless_odd_prime_words odd_low odd_count primes = Inr words" "trial_division_odd_prime_words odd_low odd_count = Inr words"
      "packs (nat odd_count) (\<lambda>i. is_prime (nat odd_low + 2 * i)) words" by blast
  then show ?thesis unfolding packs_def bit_at_def by blast
qed

lemma sieve_words_prime_witness:
  "\<exists>primes words. odd_primes_through 10 = Inr primes \<and> stateless_odd_prime_words 3 50 primes = Inr words \<and>
     trial_division_odd_prime_words 3 50 = Inr words"
  using sieve_words_prime [of 3 50 10] by auto

end
