(* ===== verification/GoldbachCoverage_Claims.thy ===== *)
theory GoldbachCoverage_Claims
  imports GoldbachCoverage GoldbachSieve_Claims
begin

text \<open>
  The coverage stage over the sieve: what an extracted word holds, what the loop over the offsets has
  covered when it stops, and the two properties that follow, soundness of the accepted words over the
  sieved primes and the agreement of the bit-at-a-time replay.
\<close>

section \<open>Extraction\<close>

lemma word_of_Inr: "word_of v = Inr w \<longleftrightarrow> w = v \<and> 0 \<le> v \<and> v \<le> coverage_mask"
  by (auto simp: word_of_def)

lemma coverage_mask_mask: "coverage_mask = mask 64"
  by (simp add: coverage_mask_def mask_eq_exp_minus_1)

lemma drop_bit_and_one: "drop_bit b (w::int) AND 1 \<noteq> 0 \<longleftrightarrow> bit w b"
  by (simp add: bit_iff_odd_drop_bit and_one_eq odd_iff_mod_2_eq_one)

lemma masked_subset:
  assumes "0 \<le> m" "m \<le> coverage_mask"
  shows "(c AND coverage_mask) AND m = m \<longleftrightarrow> (\<forall>b. bit m b \<longrightarrow> bit c b)" "c AND m = m \<longleftrightarrow> (\<forall>b. bit m b \<longrightarrow> bit c b)"
proof -
  have "bit m b \<Longrightarrow> b < 64" for b using assms small_bits [of m b] by (simp add: coverage_mask_def)
  then show "(c AND coverage_mask) AND m = m \<longleftrightarrow> (\<forall>b. bit m b \<longrightarrow> bit c b)"
    by (auto simp: bit_eq_iff bit_simps coverage_mask_mask)
  show "c AND m = m \<longleftrightarrow> (\<forall>b. bit m b \<longrightarrow> bit c b)" by (auto simp: bit_eq_iff bit_simps)
qed

lemma split_position:
  fixes k s b :: nat
  assumes "s < 64" "b < 64"
  shows "(64 * k + s + b) div 64 = (if s + b < 64 then k else k + 1)" "(64 * k + s + b) mod 64 = (if s + b < 64 then s + b else b - (64 - s))"
proof -
  have "(64 * k + s + b) div 64 = (if s + b < 64 then k else k + 1) \<and>
    (64 * k + s + b) mod 64 = (if s + b < 64 then s + b else b - (64 - s))"
  proof (cases "s + b < 64")
    case True
    then show ?thesis by (simp add: add.assoc)
  next
    case False
    then obtain t where t: "s + b = 64 + t" by (metis le_add_diff_inverse not_less)
    then have "64 * k + s + b = t + (k + 1) * 64" "b - (64 - s) = t" "t < 64" using assms by simp_all
    moreover have "(t + (k + 1) * 64) div 64 = k + 1" "(t + (k + 1) * 64) mod 64 = t"
      by (simp_all only: div_mult_self1 mod_mult_self1 div_less mod_less calculation(3))
    ultimately show ?thesis using False by (simp only: if_False refl)
  qed
  then show "(64 * k + s + b) div 64 = (if s + b < 64 then k else k + 1)"
      "(64 * k + s + b) mod 64 = (if s + b < 64 then s + b else b - (64 - s))" by blast+
qed

lemma extract_bits:
  assumes "packs count P ws" "extract_shifted_word ws (int f) = Inr w" "b < 64"
  shows "bit w b \<longleftrightarrow> f + b < count \<and> P (f + b)"
proof -
  let ?k = "f div 64" and ?s = "f mod 64"
  have pos: "nat (int f div 64) = ?k" "nat (int f mod 64) = ?s"
    by (simp_all add: nat_div_distrib nat_mod_distrib)
  have holds: "f + b < 64 * length ws \<and> bit w b = bit_at ws (f + b)"
  proof (cases "?s = 0")
    case True
    then have "f + b = 64 * ?k + b" by (metis add_0_right div_mult_mod_eq mult.commute)
    moreover have "?k < length ws \<and> w = ws ! ?k"
      using assms(2) True by (auto simp: extract_shifted_word_def Let_def pos res_simps word_of_Inr split: if_splits)
    moreover have "(64 * ?k + b) div 64 = ?k" "(64 * ?k + b) mod 64 = b" using assms(3) by simp_all
    ultimately show ?thesis using assms(3) by (simp only: bit_at_def) simp
  next
    case False
    then have k: "?k + 1 < length ws" and w: "w = (drop_bit ?s (ws ! ?k) OR push_bit (64 - ?s) (ws ! (?k + 1))) AND coverage_mask"
      and low: "0 \<le> ws ! ?k" "ws ! ?k \<le> coverage_mask"
      using assms(2) by (auto simp: extract_shifted_word_def Let_def pos res_simps word_of_Inr split: if_splits)
    have f: "f = 64 * ?k + ?s" "?s < 64" by simp_all
    have bit: "bit w b \<longleftrightarrow> bit (ws ! ?k) (?s + b) \<or> (64 - ?s \<le> b \<and> bit (ws ! (?k + 1)) (b - (64 - ?s)))"
      using assms(3) by (simp add: w bit_simps coverage_mask_mask)
    have low64: "ws ! ?k < 2 ^ 64" using low(2) by (simp add: coverage_mask_def)
    have f': "64 * ?k + ?s = f" by simp
    note split = split_position [OF f(2) assms(3), of ?k, unfolded f']
    have inside: "f + b < 64 * length ws" using k f assms(3) by linarith
    show ?thesis
    proof (cases "?s + b < 64")
      case True
      then have "(f + b) div 64 = ?k" "(f + b) mod 64 = ?s + b" by (simp_all add: split)
      moreover have "\<not> 64 - ?s \<le> b" using True by simp
      ultimately show ?thesis using bit inside by (simp add: bit_at_def)
    next
      case carry: False
      then have "(f + b) div 64 = ?k + 1" "(f + b) mod 64 = b - (64 - ?s)" by (simp_all add: split)
      moreover have "\<not> bit (ws ! ?k) (?s + b)" using small_bits [OF low(1) low64, of "?s + b"] carry by blast
      moreover have "64 - ?s \<le> b" using carry by simp
      ultimately show ?thesis using bit inside by (simp add: bit_at_def)
    qed
  qed
  then show ?thesis using assms(1) by (simp add: packs_def)
qed

section \<open>The loop over the offsets\<close>

lemma extract_natural: "extract_shifted_word ws f = Inr w \<Longrightarrow> 0 \<le> f"
  by (auto simp: extract_shifted_word_def split: if_splits)

text \<open>A prefix of the offsets has been read, and the covered bits are theirs; it is all of them unless the mask is covered.\<close>

lemma coverage_loop_prefix:
  assumes "coverage_loop ws out m offs c0 r0 = Inr (c, r)"
  obtains xs ys where "offs = xs @ ys" "r = r0 + length xs" "ys = [] \<or> c AND m = m"
    "\<forall>x \<in> set xs. 0 \<le> x \<and> (\<exists>w. extract_shifted_word ws (x + 64 * out) = Inr w)"
    "\<forall>b. bit c b \<longleftrightarrow> bit c0 b \<or> (\<exists>x \<in> set xs. \<exists>w. extract_shifted_word ws (x + 64 * out) = Inr w \<and> bit w b)"
  using assms
proof (induction offs arbitrary: c0 r0 thesis)
  case Nil
  from Nil.prems(1) [of "[]" "[]"] Nil.prems(2) show ?case by simp
next
  case (Cons x offs)
  from Cons.prems(2) obtain w where x: "0 \<le> x" and w: "extract_shifted_word ws (x + 64 * out) = Inr w"
    by (auto simp: res_simps split: if_splits)
  show ?case
  proof (cases "(c0 OR w) AND m = m")
    case True
    then have "c = c0 OR w" "r = r0 + 1" using Cons.prems(2) x w by (simp_all add: Let_def)
    with True x w show ?thesis by (intro Cons.prems(1) [of "[x]" offs]) (auto simp: bit_simps)
  next
    case False
    then have "coverage_loop ws out m offs (c0 OR w) (r0 + 1) = Inr (c, r)" using Cons.prems(2) x w by (simp add: Let_def)
    from Cons.IH [OF _ this] obtain xs ys where xs: "offs = xs @ ys" "r = r0 + 1 + length xs" "ys = [] \<or> c AND m = m"
      "\<forall>x \<in> set xs. 0 \<le> x \<and> (\<exists>w. extract_shifted_word ws (x + 64 * out) = Inr w)"
      "\<forall>b. bit c b \<longleftrightarrow> bit (c0 OR w) b \<or> (\<exists>x \<in> set xs. \<exists>w. extract_shifted_word ws (x + 64 * out) = Inr w \<and> bit w b)" by blast
    show ?thesis using xs x w by (intro Cons.prems(1) [of "x # xs" ys]) (auto simp: bit_simps)
  qed
qed

lemma coverage_word_Inr:
  assumes "coverage_word ws offs out m = Inr r"
  obtains c xs ys where "0 \<le> out" "0 \<le> m" "m \<le> coverage_mask" "cw_live_mask r = m" "offs = xs @ ys" "cw_covered r = c AND coverage_mask"
    "ys = [] \<or> coverage_accepted r" "\<forall>x \<in> set xs. 0 \<le> x \<and> (\<exists>w. extract_shifted_word ws (x + 64 * out) = Inr w)"
    "coverage_accepted r \<longleftrightarrow> (\<forall>b. bit m b \<longrightarrow> bit c b)"
    "\<forall>b. bit c b \<longleftrightarrow> (\<exists>x \<in> set xs. \<exists>w. extract_shifted_word ws (x + 64 * out) = Inr w \<and> bit w b)"
proof -
  from assms obtain c n where r: "0 \<le> out" "0 \<le> m" "m \<le> coverage_mask" "coverage_loop ws out m offs 0 0 = Inr (c, n)"
      "r = \<lparr>cw_covered = c AND coverage_mask, cw_rounds = n, cw_live_mask = m\<rparr>"
    by (auto simp: coverage_word_def word_of_Inr res_simps split: if_splits prod.splits)
  have acc: "coverage_accepted r \<longleftrightarrow> (\<forall>b. bit m b \<longrightarrow> bit c b)" "c AND m = m \<longleftrightarrow> coverage_accepted r"
    unfolding coverage_accepted_def r(5) coverage_result.simps masked_subset(1) [OF r(2,3)] masked_subset(2) [OF r(2,3), of c]
    by (rule refl)+
  from r(4) obtain xs ys where "offs = xs @ ys" "n = 0 + length xs" "ys = [] \<or> c AND m = m"
      "\<forall>x \<in> set xs. 0 \<le> x \<and> (\<exists>w. extract_shifted_word ws (x + 64 * out) = Inr w)"
      "\<forall>b. bit c b \<longleftrightarrow> bit (0::int) b \<or> (\<exists>x \<in> set xs. \<exists>w. extract_shifted_word ws (x + 64 * out) = Inr w \<and> bit w b)"
    by (rule coverage_loop_prefix) (rule that, assumption+)
  with r acc show thesis by (intro that [of xs ys c]) simp_all
qed

section \<open>The replay\<close>

lemma any_offset_prefix:
  "\<forall>x \<in> set xs. \<exists>w. extract_shifted_word ws (x + 64 * out) = Inr w \<Longrightarrow>
     any_offset ws out b (xs @ ys) =
       (if \<exists>x \<in> set xs. \<exists>w. extract_shifted_word ws (x + 64 * out) = Inr w \<and> bit w b then Inr True else any_offset ws out b ys)"
  by (induction xs) (auto simp: drop_bit_and_one)

lemma replay_loop_agrees:
  "\<forall>b \<in> set bits. bit (cw_live_mask r) b \<longrightarrow> any_offset ws out b offs = Inr (bit (cw_covered r) b) \<Longrightarrow>
     replay_loop ws offs out r bits = Inr (coverage_accepted r)"
proof (induction bits)
  case (Cons b bits)
  have "drop_bit b (cw_live_mask r) AND 1 = 0 \<longleftrightarrow> \<not> bit (cw_live_mask r) b" by (simp flip: drop_bit_and_one)
  with Cons show ?case by (simp add: drop_bit_and_one)
qed simp

text \<open>The bit-at-a-time replay is the word-oriented stage: it returns the acceptance of the coverage word, and
  raises exactly when the stage raises, for all words, offsets, output words and live masks, although it
  asks each offset for each bit and the stage stops at the first offset that completes the mask.
\<close>

theorem replay_equivalent:
  "replay_live_bits q_words base_offsets output_word live_mask =
     ebind (coverage_word q_words base_offsets output_word live_mask) (\<lambda>r. Inr (coverage_accepted r))"
proof (cases "coverage_word q_words base_offsets output_word live_mask")
  case (Inr r)
  then obtain c xs ys where r: "cw_live_mask r = live_mask" "base_offsets = xs @ ys" "cw_covered r = c AND coverage_mask"
    "ys = [] \<or> coverage_accepted r" "\<forall>x \<in> set xs. 0 \<le> x \<and> (\<exists>w. extract_shifted_word q_words (x + 64 * output_word) = Inr w)"
    "coverage_accepted r \<longleftrightarrow> (\<forall>b. bit live_mask b \<longrightarrow> bit c b)"
    and c: "\<forall>b. bit c b \<longleftrightarrow> (\<exists>x \<in> set xs. \<exists>w. extract_shifted_word q_words (x + 64 * output_word) = Inr w \<and> bit w b)"
    by (rule coverage_word_Inr) blast
  have "any_offset q_words output_word b base_offsets = Inr (bit (cw_covered r) b)" if "bit live_mask b" "b < 64" for b
  proof -
    have "bit (cw_covered r) b \<longleftrightarrow> bit c b" using that(2) by (simp add: r(3) bit_simps coverage_mask_mask)
    moreover have "bit c b \<or> ys = []" using r(4,6) that(1) by blast
    ultimately show ?thesis
      using any_offset_prefix [of xs q_words output_word b ys] r(5) by (auto simp: r(2) c)
  qed
  then show ?thesis using Inr by (simp add: replay_live_bits_def replay_loop_agrees r(1))
qed (simp add: replay_live_bits_def)

section \<open>Coverage over the sieved primes\<close>

lemma map_res_elements:
  assumes "map_res f xs = Inr ys"
  shows "y \<in> set ys \<longleftrightarrow> (\<exists>x \<in> set xs. f x = Inr y)" "x \<in> set xs \<Longrightarrow> \<exists>y \<in> set ys. f x = Inr y"
  using assms by (induction xs arbitrary: ys) (auto simp: res_simps)

lemma alignment_offset_Inr:
  "alignment_offset e q p = Inr x \<longleftrightarrow> 0 \<le> e \<and> 0 \<le> q \<and> 0 \<le> p \<and> 0 \<le> x \<and> e = q + p + 2 * x"
  by (auto simp: alignment_offset_def Let_def res_simps)

lemma coverage_bit:
  assumes "packs count (\<lambda>i. is_prime (low + 2 * i)) ws" "alignment_offset even_low (int low) (int p) = Inr x" "0 \<le> out"
    "extract_shifted_word ws (x + 64 * out) = Inr w" "b < 64"
  shows "bit w b \<longleftrightarrow> (\<exists>q. is_prime q \<and> low \<le> q \<and> q < low + 2 * count \<and> int (p + q) = even_low + 2 * (64 * out + int b))"
proof -
  define f where "f = nat (x + 64 * out)"
  have x: "0 \<le> x" "even_low = int low + int p + 2 * x" using assms(2) by (simp_all add: alignment_offset_Inr)
  then have f: "x + 64 * out = int f" using assms(3) by (simp add: f_def)
  have bit: "bit w b \<longleftrightarrow> f + b < count \<and> is_prime (low + 2 * (f + b))"
    by (rule extract_bits [OF assms(1) assms(4) [unfolded f] assms(5)])
  have "int (p + q) = even_low + 2 * (64 * out + int b) \<longleftrightarrow> q = low + 2 * (f + b)" for q
    using x(2) f by (simp flip: of_nat_eq_iff [where 'a = int]) linarith
  then show ?thesis using bit by auto
qed

text \<open>C15:
  What acceptance means for the conjecture.  When the words are the sieve's, over the odd primes up to a
  limit that is complete for the segment, and the offsets align the odd primes up to \<open>small_limit\<close>, then
  the coverage word of an output word is accepted exactly when every even number that the live mask
  selects is the sum of an odd prime up to \<open>small_limit\<close> and a prime of the segment.
\<close>

theorem goldbach_coverage_sound:
  assumes "0 \<le> limit" "q_low + 2 * q_count \<le> (limit + 1) * (limit + 1)"
    "odd_primes_through limit = Inr primes" "stateless_odd_prime_words q_low q_count primes = Inr q_words"
    "odd_primes_through small_limit = Inr small" "map_res (alignment_offset even_low q_low) small = Inr offsets"
    "coverage_word q_words offsets output_word live_mask = Inr r"
  shows "coverage_accepted r \<longleftrightarrow> (\<forall>b. bit live_mask b \<longrightarrow>
    (\<exists>p q. is_prime p \<and> odd p \<and> int p \<le> small_limit \<and> is_prime q \<and> q_low \<le> int q \<and> int q < q_low + 2 * q_count \<and>
       int (p + q) = even_low + 2 * (64 * output_word + int b)))"
proof -
  have "validate_segment q_low q_count = Inr ()" using assms(4) by (auto simp: stateless_odd_prime_words_def res_simps)
  then have seg: "1 \<le> q_low" "odd q_low" "1 \<le> q_count" "q_count \<le> 2 ^ 31" by (simp_all add: validate_segment_Inr)
  define low count where "low = nat q_low" and "count = nat q_count"
  have lc: "int low = q_low" "int count = q_count" using seg by (simp_all add: low_def count_def)
  have ws: "packs count (\<lambda>i. is_prime (low + 2 * i)) q_words"
    using complete_base_words [OF seg assms(1,2)] assms(3,4) by (auto simp: low_def count_def)
  have small_limit: "0 \<le> small_limit" using assms(5) by (auto simp: odd_primes_through_def split: if_splits)
  obtain ps where ps: "small = map int ps" "set ps = {p. odd p \<and> is_prime p \<and> p \<le> nat small_limit}"
    using odd_primes_base [OF small_limit] assms(5) by (metis sum.inject(2))
  obtain c xs ys where r: "0 \<le> output_word" "0 \<le> live_mask" "live_mask \<le> coverage_mask"
    "cw_live_mask r = live_mask" "offsets = xs @ ys" "cw_covered r = c AND coverage_mask" "ys = [] \<or> coverage_accepted r" "\<forall>x \<in> set xs. 0 \<le> x \<and> (\<exists>w. extract_shifted_word q_words (x + 64 * output_word) = Inr w)"
    "coverage_accepted r \<longleftrightarrow> (\<forall>b. bit live_mask b \<longrightarrow> bit c b)"
    and c: "\<forall>b. bit c b \<longleftrightarrow> (\<exists>x \<in> set xs. \<exists>w. extract_shifted_word q_words (x + 64 * output_word) = Inr w \<and> bit w b)"
    using assms(7) by (rule coverage_word_Inr) (rule that, assumption+)
  have live: "b < 64" if "bit live_mask b" for b using small_bits [OF r(2) _ that] r(3) by (simp add: coverage_mask_def)
  have aligned: "x \<in> set offsets \<longleftrightarrow> (\<exists>p \<in> set ps. alignment_offset even_low (int low) (int p) = Inr x)" for x
    using map_res_elements(1) [OF assms(6)] by (simp add: ps(1) lc)
  have all: "\<exists>x \<in> set offsets. alignment_offset even_low (int low) (int p) = Inr x" if "p \<in> set ps" for p
    using map_res_elements(2) [OF assms(6)] that by (simp add: ps(1) lc)
  note bits = coverage_bit [OF ws _ r(1)]
  let ?sum = "\<lambda>b. \<exists>p q. is_prime p \<and> odd p \<and> int p \<le> small_limit \<and> is_prime q \<and> q_low \<le> int q \<and> int q < q_low + 2 * q_count \<and>
       int (p + q) = even_low + 2 * (64 * output_word + int b)"
  let ?hit = "\<lambda>b p q. is_prime q \<and> low \<le> q \<and> q < low + 2 * count \<and> int (p + q) = even_low + 2 * (64 * output_word + int b)"
  have range: "int p \<le> small_limit \<longleftrightarrow> p \<le> nat small_limit" "q_low \<le> int p \<longleftrightarrow> low \<le> p"
      "int p < q_low + 2 * q_count \<longleftrightarrow> p < low + 2 * count" for p
    using small_limit by (auto simp: le_nat_iff simp flip: lc)
  have sum: "?sum b \<longleftrightarrow> (\<exists>p \<in> set ps. \<exists>q. ?hit b p q)" for b
    unfolding ps(2) mem_Collect_eq range by blast
  have sound: "?sum b" if b: "bit live_mask b" "bit c b" for b
  proof -
    from c b(2) obtain x w where x: "x \<in> set xs" "extract_shifted_word q_words (x + 64 * output_word) = Inr w" "bit w b" by blast
    then obtain p where p: "p \<in> set ps" "alignment_offset even_low (int low) (int p) = Inr x" using aligned r(5) by auto
    then have "\<exists>q. ?hit b p q" using bits [OF p(2) x(2) live [OF b(1)]] x(3) by blast
    with p(1) sum show ?thesis by blast
  qed
  have covered: "bit c b" if b: "bit live_mask b" "ys = []" "?sum b" for b
  proof -
    from b(3) sum obtain p q where p: "p \<in> set ps" "?hit b p q" by blast
    from all [OF p(1)] obtain x where x: "x \<in> set xs" "alignment_offset even_low (int low) (int p) = Inr x" using r(5) b(2) by auto
    from r(8) x(1) obtain w where w: "extract_shifted_word q_words (x + 64 * output_word) = Inr w" by blast
    then have "bit w b" using bits [OF x(2) w live [OF b(1)]] p(2) by blast
    with c x(1) w show ?thesis by blast
  qed
  show ?thesis using r(7,9) covered sound by blast
qed

text \<open>The segment of 50 odd numbers from 3, with the small prime 3: the even numbers 6, 8 and 10.\<close>

lemma goldbach_coverage_sound_witness:
  "\<exists>primes q_words r. odd_primes_through 10 = Inr primes \<and> stateless_odd_prime_words 3 50 primes = Inr q_words \<and>
     coverage_word q_words [0] 0 7 = Inr r \<and> (coverage_accepted r \<longleftrightarrow> (\<forall>b. bit (7::int) b \<longrightarrow>
       (\<exists>p q. is_prime p \<and> odd p \<and> int p \<le> 3 \<and> is_prime q \<and> 3 \<le> int q \<and> int q < 103 \<and> int (p + q) = 6 + 2 * int b)))"
proof -
  obtain primes q_words where w: "odd_primes_through 10 = Inr primes" "stateless_odd_prime_words 3 50 primes = Inr q_words"
      "packs 50 (\<lambda>i. is_prime (3 + 2 * i)) q_words"
    using complete_base_words [of 3 50 10] by auto
  from w(3) have len: "length q_words = 1" and range: "\<forall>v \<in> set q_words. 0 \<le> v \<and> v < 2 ^ 64"
    by (simp_all add: packs_def)
  then have "0 \<le> q_words ! 0 \<and> q_words ! 0 < 2 ^ 64" using nth_mem [of 0 q_words] by simp
  with len have "extract_shifted_word q_words (0 + 64 * 0) = Inr (q_words ! 0)"
    by (simp add: extract_shifted_word_def word_of_def coverage_mask_def)
  then obtain r where r: "coverage_word q_words [0] 0 7 = Inr r"
    by (simp add: coverage_word_def word_of_def coverage_mask_def Let_def)
  have small: "odd_primes_through 3 = Inr [3]" "map_res (alignment_offset 6 3) [3] = Inr [0]"
    by (simp_all add: odd_primes_through_def alignment_offset_def)
  from goldbach_coverage_sound [OF _ _ w(1,2) small r] w r show ?thesis by auto
qed

end
