(* ===== verification/PrimeCerts.thy ===== *)
theory PrimeCerts
  imports Prelude
begin

unbundle bit_operations_syntax

text \<open>
  Model of \<open>tg_verifier/goldbach.py\<close>: the deterministic Miller-Rabin predicate on 64-bit integers, the
  Jacobi symbol, Proth certificates, prime ladders and ternary-Goldbach witnesses.  Fields have the
  types of their annotations, so the tests for plain integers have no branch.
\<close>

definition MAX_DETERMINISTIC_PRIME_INPUT :: int where "MAX_DETERMINISTIC_PRIME_INPUT = push_bit 64 1 - 1"
definition MAX_PROTH_EXPONENT :: int where "MAX_PROTH_EXPONENT = 256"

definition MILLER_RABIN_BASES_64 :: "int list" where
  "MILLER_RABIN_BASES_64 = [2, 325, 9375, 28178, 450775, 9780504, 1795265022]"

definition SMALL_PRIMES :: "int list" where
  "SMALL_PRIMES = [2, 3, 5, 7, 11, 13, 17, 19, 23, 29, 31, 37]"

text \<open>\<open>pow(base, exponent, modulus)\<close>, by squaring.\<close>

function pow_mod :: "int \<Rightarrow> nat \<Rightarrow> int \<Rightarrow> int" where
  "pow_mod base exponent modulus =
     (if exponent = 0 then 1 mod modulus
      else
        let square = pow_mod (base * base mod modulus) (exponent div 2) modulus
        in if even exponent then square else base * square mod modulus)"
  by pat_completeness auto
termination
  by (relation "measure (\<lambda>(_, exponent, _). exponent)") auto

declare pow_mod.simps [simp del]

section \<open>Bounded primality\<close>

text \<open>The loop over the small primes returns a decision or falls through.\<close>

fun small_primes_decide :: "int \<Rightarrow> int list \<Rightarrow> bool option" where
  "small_primes_decide v [] = None"
| "small_primes_decide v (prime # primes) =
     (if v = prime then Some True
      else if v mod prime = 0 then Some False
      else small_primes_decide v primes)"

text \<open>\<open>while odd_part & 1 == 0\<close>; the loop starts from a positive number.\<close>

function split_powers :: "int \<Rightarrow> nat \<Rightarrow> int \<times> nat" where
  "split_powers odd_part power_of_two =
     (if odd_part AND 1 = 0 \<and> odd_part \<noteq> 0 then split_powers (drop_bit 1 odd_part) (power_of_two + 1)
      else (odd_part, power_of_two))"
  by pat_completeness auto
termination
  by (relation "measure (\<lambda>(odd_part, _). nat \<bar>odd_part\<bar>)") (auto simp: drop_bit_eq_div and_one_eq)

declare split_powers.simps [simp del]

text \<open>The inner \<open>for ... else\<close>: whether some squaring reaches \<open>v - 1\<close>.\<close>

fun squarings :: "nat \<Rightarrow> int \<Rightarrow> int \<Rightarrow> bool" where
  "squarings 0 residue v = False"
| "squarings (Suc n) residue v =
     (let residue = residue * residue mod v in if residue = v - 1 then True else squarings n residue v)"

fun miller_rabin_bases :: "int \<Rightarrow> int \<Rightarrow> nat \<Rightarrow> int list \<Rightarrow> bool" where
  "miller_rabin_bases v odd_part power_of_two [] = True"
| "miller_rabin_bases v odd_part power_of_two (b # bases) =
     (let b = b mod v
      in if b = 0 then miller_rabin_bases v odd_part power_of_two bases
         else
           let residue = pow_mod b (nat odd_part) v
           in if residue = 1 \<or> residue = v - 1 then miller_rabin_bases v odd_part power_of_two bases
              else if squarings (power_of_two - 1) residue v then miller_rabin_bases v odd_part power_of_two bases
              else False)"

definition is_prime_bounded :: "int \<Rightarrow> bool" where
  "is_prime_bounded v =
     (if v < 2 \<or> v > MAX_DETERMINISTIC_PRIME_INPUT then False
      else case small_primes_decide v SMALL_PRIMES of
        Some decision \<Rightarrow> decision
      | None \<Rightarrow>
          let (odd_part, power_of_two) = split_powers (v - 1) 0
          in miller_rabin_bases v odd_part power_of_two MILLER_RABIN_BASES_64)"

section \<open>The Jacobi symbol\<close>

function strip_twos :: "int \<Rightarrow> int \<Rightarrow> int \<Rightarrow> int \<times> int" where
  "strip_twos numerator denominator result =
     (if numerator mod 2 = 0 \<and> numerator \<noteq> 0 then
        let residue = denominator mod 8
        in strip_twos (numerator div 2) denominator (if residue = 3 \<or> residue = 5 then - result else result)
      else (numerator, result))"
  by pat_completeness auto
termination
  by (relation "measure (\<lambda>(numerator, _, _). nat \<bar>numerator\<bar>)") auto

declare strip_twos.simps [simp del]

lemma strip_twos_le: "strip_twos n d r = (m, s) \<Longrightarrow> \<bar>m\<bar> \<le> \<bar>n\<bar> \<and> (n \<noteq> 0 \<longrightarrow> m \<noteq> 0)"
proof (induction n d r arbitrary: m s rule: strip_twos.induct)
  case (1 n d r)
  show ?case
  proof (cases "n mod 2 = 0 \<and> n \<noteq> 0")
    case True
    then have "\<bar>m\<bar> \<le> \<bar>n div 2\<bar> \<and> (n div 2 \<noteq> 0 \<longrightarrow> m \<noteq> 0)"
      using "1.IH" [OF True refl] "1.prems" by (simp add: strip_twos.simps [of n] Let_def)
    with True show ?thesis by auto
  next
    case False
    with "1.prems" show ?thesis by (subst (asm) strip_twos.simps) auto
  qed
qed

text \<open>\<open>while numerator\<close>: strip the twos, swap, flip the sign, reduce.\<close>

function jacobi_loop :: "int \<Rightarrow> int \<Rightarrow> int \<Rightarrow> int" where
  "jacobi_loop numerator denominator result =
     (if numerator \<noteq> 0 then
        case strip_twos numerator denominator result of (stripped, result) \<Rightarrow>
          let (numerator, denominator) = (denominator, stripped);
              result = (if numerator mod 4 = denominator mod 4 \<and> denominator mod 4 = 3 then - result else result)
          in jacobi_loop (numerator mod denominator) denominator result
      else if denominator = 1 then result else 0)"
  by pat_completeness auto
termination
proof (relation "measure (\<lambda>(numerator, _, _). nat \<bar>numerator\<bar>)")
  fix n d r s t m e u :: int and x y
  assume *: "n \<noteq> 0" "(s, t) = strip_twos n d r" "x = (d, s)" "(m, e) = x" "u = (if m mod 4 = e mod 4 \<and> e mod 4 = 3 then - t else t)"
  then have "\<bar>s\<bar> \<le> \<bar>n\<bar>" "s \<noteq> 0" using strip_twos_le [of n d r s t] by auto
  moreover have "\<bar>d mod s\<bar> < \<bar>s\<bar>" using \<open>s \<noteq> 0\<close> by (rule abs_mod_less)
  ultimately show "((m mod e, e, u), (n, d, r)) \<in> measure (\<lambda>(numerator, _, _). nat \<bar>numerator\<bar>)" using * by auto
qed simp

declare jacobi_loop.simps [simp del]

definition jacobi_symbol :: "int \<Rightarrow> int \<Rightarrow> int res" where
  "jacobi_symbol numerator denominator =
     (if denominator \<le> 0 \<or> denominator mod 2 = 0 then Inl ValueError
      else Inr (jacobi_loop (numerator mod denominator) denominator 1))"

section \<open>Proth certificates\<close>

record proth_certificate =
  pc_number :: int
  pc_k :: int
  pc_exponent :: int
  pc_witness :: int

definition check_proth_certificate :: "proth_certificate \<Rightarrow> bool res" where
  "check_proth_certificate c =
     (let number = pc_number c; k = pc_k c; exponent = pc_exponent c; witness = pc_witness c
      in if number \<le> 2 \<or> k \<le> 0 \<or> k mod 2 = 0 then Inr False
         else if exponent < 1 \<or> exponent > MAX_PROTH_EXPONENT then Inr False
         else
           let power = push_bit (nat exponent) 1
           in if k \<ge> power \<or> number \<noteq> k * power + 1 then Inr False
              else if witness < 2 \<or> witness \<ge> number then Inr False
              else ebind (jacobi_symbol witness number) (\<lambda>symbol.
                if symbol \<noteq> - 1 then Inr False
                else Inr (pow_mod witness (nat ((number - 1) div 2)) number = number - 1)))"

record prime_certificate =
  pr_number :: int
  pr_proth :: "proth_certificate option"

definition check_prime_certificate :: "prime_certificate \<Rightarrow> bool res" where
  "check_prime_certificate c =
     (case pr_proth c of
        None \<Rightarrow> Inr (is_prime_bounded (pr_number c))
      | Some proth \<Rightarrow> if pr_number c = pc_number proth then check_proth_certificate proth else Inr False)"

section \<open>Ternary witnesses\<close>

record ternary_witness =
  tw_target :: int
  tw_p :: int
  tw_q :: int
  tw_r :: int

definition check_ternary_goldbach_witness :: "ternary_witness \<Rightarrow> bool" where
  "check_ternary_goldbach_witness w =
     (if tw_target w < 7 \<or> tw_target w mod 2 = 0 then False
      else if tw_p w + tw_q w + tw_r w \<noteq> tw_target w then False
      else list_all is_prime_bounded [tw_p w, tw_q w, tw_r w])"

text \<open>The loop over the witnesses, with the target expected next.\<close>

fun ternary_loop :: "int \<Rightarrow> ternary_witness list \<Rightarrow> bool" where
  "ternary_loop expected_target [] = True"
| "ternary_loop expected_target (w # witnesses) =
     (if tw_target w \<noteq> expected_target \<or> \<not> check_ternary_goldbach_witness w then False
      else ternary_loop (expected_target + 2) witnesses)"

definition check_ternary_goldbach_interval :: "int \<Rightarrow> int \<Rightarrow> ternary_witness list \<Rightarrow> bool" where
  "check_ternary_goldbach_interval first_odd last_odd witnesses =
     (if first_odd < 7 \<or> first_odd > last_odd \<or> first_odd mod 2 = 0 \<or> last_odd mod 2 = 0 then False
      else
        let expected_count = (last_odd - first_odd) div 2 + 1
        in if int (length witnesses) \<noteq> expected_count then False
           else ternary_loop first_odd witnesses)"

section \<open>Prime ladders\<close>

record prime_ladder =
  ld_start :: int
  ld_end :: int
  ld_maximum_gap :: int
  ld_rungs :: "prime_certificate list"

text \<open>\<open>all(...)\<close> over a generator stops at the first false element.\<close>

fun all_certified :: "prime_certificate list \<Rightarrow> bool res" where
  "all_certified [] = Inr True"
| "all_certified (rung # rungs) = ebind (check_prime_certificate rung) (\<lambda>ok. if ok then all_certified rungs else Inr False)"

definition check_prime_ladder :: "prime_ladder \<Rightarrow> bool res" where
  "check_prime_ladder c =
     (if ld_start c < 0 \<or> ld_start c > ld_end c \<or> ld_maximum_gap c \<le> 0 then Inr False
      else if ld_rungs c = [] then Inr False
      else ebind (all_certified (ld_rungs c)) (\<lambda>ok.
        if \<not> ok then Inr False
        else
          let numbers = map pr_number (ld_rungs c)
          in if hd numbers > ld_start c then Inr False
             else if last numbers < ld_end c then Inr False
             else Inr (list_all (\<lambda>(left, right). 0 < right - left \<and> right - left \<le> ld_maximum_gap c) (zip numbers (tl numbers)))))"

end
