(* ===== verification/PrimeCerts_Facts.thy ===== *)
theory PrimeCerts_Facts
  imports PrimeCerts Moebius
begin

text \<open>
  The number theory behind the prime certificates: modular powers, the little theorem of Fermat, square
  roots of one modulo a prime, and the power of two that an element of even order forces.
\<close>

section \<open>Modular powers\<close>

lemma pow_mod_eq: "pow_mod b e m = b ^ e mod m"
proof (induction b e m rule: pow_mod.induct)
  case (1 b e m)
  show ?case
  proof (cases "e = 0")
    case False
    define h where "h = e div 2"
    have IH: "pow_mod (b * b mod m) h m = (b * b) ^ h mod m"
      using "1.IH" [OF False] by (simp add: h_def power_mod)
    have e: "e = (if even e then 2 * h else Suc (2 * h))" by (simp add: h_def)
    have "b ^ e = (if even e then (b * b) ^ h else b * (b * b) ^ h)"
      by (subst e) (simp add: power_mult power2_eq_square)
    with False IH show ?thesis by (subst pow_mod.simps) (simp add: Let_def h_def [symmetric] mod_mult_right_eq)
  qed (simp add: pow_mod.simps)
qed

section \<open>Primes and integers\<close>

lemma int_prime_dvd_mult: "is_prime p \<Longrightarrow> int p dvd a * b \<longleftrightarrow> int p dvd a \<or> int p dvd b"
  using prime_dvd_mult [of p "nat \<bar>a\<bar>" "nat \<bar>b\<bar>"] by (simp flip: int_dvd_int_iff abs_mult)

lemma prime_dvd_binomial:
  assumes "is_prime p" "0 < k" "k < p"
  shows "p dvd (p choose k)"
proof -
  obtain m j where m: "p = Suc m" "k = Suc j" using assms by (metis Suc_pred prime_pos)
  have "p dvd k * (p choose k)" unfolding m Suc_times_binomial by (rule dvd_triv_left)
  moreover have "\<not> p dvd k" using assms by (auto dest: dvd_imp_le)
  ultimately show ?thesis using prime_dvd_mult [OF assms(1)] by blast
qed

lemma little_fermat_nat:
  assumes "is_prime p"
  shows "int p dvd int a ^ p - int a"
proof (induction a)
  case 0
  then show ?case using prime_pos [OF assms] by (simp add: power_0_left)
next
  case (Suc a)
  have "(int a + 1) ^ p = (\<Sum>k\<le>p. of_nat (p choose k) * int a ^ k)"
    by (simp add: binomial_ring)
  also have "... = (\<Sum>k\<in>{0, p}. of_nat (p choose k) * int a ^ k) + (\<Sum>k\<in>{1..<p}. of_nat (p choose k) * int a ^ k)"
  proof -
    have "{..p} = {0, p} \<union> {1..<p}" by auto
    then show ?thesis using prime_pos [OF assms] by (simp only: sum.union_disjoint [of "{0, p}" "{1..<p}"]) (subst sum.union_disjoint, auto)
  qed
  also have "(\<Sum>k\<in>{0, p}. of_nat (p choose k) * int a ^ k) = 1 + int a ^ p" using prime_pos [OF assms] by simp
  finally have "(int a + 1) ^ p - (int a + 1) = (int a ^ p - int a) + (\<Sum>k\<in>{1..<p}. of_nat (p choose k) * int a ^ k)" by simp
  moreover have "int p dvd (\<Sum>k\<in>{1..<p}. of_nat (p choose k) * int a ^ k)"
    using prime_dvd_binomial [OF assms] by (intro dvd_sum dvd_mult2) auto
  ultimately have "int p dvd (int a + 1) ^ p - (int a + 1)" using Suc by (metis dvd_add)
  then show ?case by (simp only: of_nat_Suc add.commute)
qed

lemma little_fermat:
  assumes "is_prime p" "\<not> int p dvd a"
  shows "a ^ (p - 1) mod int p = 1"
proof -
  have p: "1 < p" using assms(1) by (rule prime_gt_1)
  define r where "r = nat (a mod int p)"
  have r: "int r = a mod int p" using p by (simp add: r_def)
  have nd: "\<not> int p dvd int r" unfolding r using assms(2) by (simp add: dvd_mod_iff)
  have "int r ^ p - int r = int r * (int r ^ (p - 1) - 1)"
    using p by (simp add: algebra_simps power_eq_if)
  then have "int p dvd int r ^ (p - 1) - 1"
    using little_fermat_nat [OF assms(1), of r] int_prime_dvd_mult [OF assms(1)] nd by metis
  then have "int r ^ (p - 1) mod int p = 1 mod int p" by (simp add: mod_eq_dvd_iff)
  then show ?thesis unfolding r using p by (simp add: power_mod)
qed

lemma root_of_one:
  assumes "is_prime p" "r * r mod int p = 1" "0 \<le> r" "r < int p"
  shows "r = 1 \<or> r = int p - 1"
proof -
  have p: "1 < p" using assms(1) by (rule prime_gt_1)
  have "int p dvd r * r - 1" using assms(2) p by (simp flip: mod_eq_dvd_iff)
  then have "int p dvd (r - 1) * (r + 1)" by (simp add: algebra_simps)
  then have "int p dvd r - 1 \<or> int p dvd r + 1" using int_prime_dvd_mult [OF assms(1)] by blast
  then show ?thesis
  proof
    assume d: "int p dvd r - 1"
    show ?thesis
    proof (cases "r = 0")
      case True
      with d p show ?thesis using zdvd_imp_le [of "int p" 1] by simp
    next
      case False
      then show ?thesis using d assms(3,4) zdvd_imp_le [of "int p" "r - 1"] by fastforce
    qed
  next
    assume "int p dvd r + 1"
    then show ?thesis using assms(3,4) zdvd_imp_le [of "int p" "r + 1"] by auto
  qed
qed

text \<open>When an odd prime divides \<open>a ^ 2 ^ j + 1\<close>, its predecessor is a multiple of \<open>2 ^ (j + 1)\<close>.\<close>

lemma odd_power_split:
  assumes "0 < (n::nat)"
  obtains t u where "n = 2 ^ t * u" "odd u"
  using assms
proof (induction n arbitrary: thesis rule: less_induct)
  case (less n)
  show ?case
  proof (cases "odd n")
    case True
    then show ?thesis using less.prems(1) [of 0 n] by simp
  next
    case False
    then obtain m where m: "n = 2 * m" by blast
    with less.prems(2) obtain t u where "m = 2 ^ t * u" "odd u" using less.IH [of m] by auto
    then show ?thesis using less.prems(1) [of "Suc t" u] m by simp
  qed
qed

lemma power_of_two_dvd:
  assumes "is_prime p" "odd p" "int p dvd a ^ 2 ^ j + 1"
  shows "2 ^ (j + 1) dvd p - 1"
proof -
  have p: "1 < p" using assms(1) by (rule prime_gt_1)
  then obtain t u where tu: "p - 1 = 2 ^ t * u" "odd u" using odd_power_split [of "p - 1"] by auto
  have "j < t"
  proof (rule ccontr)
    assume "\<not> j < t"
    then have j: "j = t + (j - t)" by simp
    have minus: "a ^ 2 ^ j mod int p = - 1 mod int p" using assms(3) by (simp add: mod_eq_dvd_iff)
    have nd: "\<not> int p dvd a"
    proof
      assume "int p dvd a"
      then have "int p dvd a ^ 2 ^ j" by (rule dvd_trans [OF _ dvd_power]) simp
      with assms(3) have "int p dvd 1" by (metis dvd_add_right_iff)
      with p show False using zdvd_imp_le [of "int p" 1] by simp
    qed
    have "a ^ (2 ^ j * u) mod int p = (- 1) ^ u mod int p"
      unfolding power_mult by (metis minus power_mod)
    then have neg: "a ^ (2 ^ j * u) mod int p = - 1 mod int p" using tu(2) by simp
    have "2 ^ j * u = (p - 1) * 2 ^ (j - t)" unfolding tu(1) by (subst j) (simp add: power_add)
    then have "a ^ (2 ^ j * u) mod int p = (a ^ (p - 1)) ^ 2 ^ (j - t) mod int p" by (simp add: power_mult)
    also have "... = 1 ^ 2 ^ (j - t) mod int p" by (metis little_fermat [OF assms(1) nd] mod_mod_trivial power_mod)
    finally have "1 mod int p = - 1 mod int p" using neg by simp
    then have "int p dvd 2" by (simp add: mod_eq_dvd_iff)
    then have "p dvd 2" by (metis int_dvd_int_iff of_nat_numeral)
    then have "p = 2" using p dvd_imp_le [of p 2] by auto
    with assms(2) show False by simp
  qed
  then have "t = j + 1 + (t - (j + 1))" by simp
  then have "2 ^ (j + 1) dvd (2 ^ t :: nat)" by (metis dvd_triv_left power_add)
  then show ?thesis unfolding tu(1) by simp
qed

section \<open>Deciding small primes\<close>

lemma is_prime_list: "is_prime p \<longleftrightarrow> 1 < p \<and> list_all (\<lambda>d. p mod d \<noteq> 0) [2..<p]"
proof
  assume p: "is_prime p"
  then have "p mod d \<noteq> 0" if "2 \<le> d" "d < p" for d
    using that by (auto simp: is_prime_def dvd_eq_mod_eq_0 [symmetric])
  with p show "1 < p \<and> list_all (\<lambda>d. p mod d \<noteq> 0) [2..<p]" by (auto simp: list_all_iff dest: prime_gt_1)
next
  assume p: "1 < p \<and> list_all (\<lambda>d. p mod d \<noteq> 0) [2..<p]"
  have "d = 1 \<or> d = p" if d: "d dvd p" for d
  proof (rule ccontr)
    assume no: "\<not> (d = 1 \<or> d = p)"
    have "d \<le> p" "0 < d" using p d dvd_imp_le [OF d] dvd_pos_nat [OF _ d] by simp_all
    with no have "d \<in> set [2..<p]" by simp
    with p have "p mod d \<noteq> 0" unfolding list_all_iff by blast
    with d show False by (simp add: dvd_eq_mod_eq_0)
  qed
  with p show "is_prime p" by (simp add: is_prime_def)
qed

end
