(* ===== verification/PrimeCerts_Claims.thy ===== *)
theory PrimeCerts_Claims
  imports PrimeCerts_Facts
begin

text \<open>
  The properties of the prime certificates: Proth's theorem for the accepted certificates, the predicate on
  64-bit integers, the ladders with what they give for odd numbers, and the explicit ternary witnesses.
\<close>

section \<open>Proth's theorem\<close>

lemma check_proth_True:
  assumes "check_proth_certificate c = Inr True"
  obtains e where "2 < pc_number c" "0 < pc_k c" "pc_k c < 2 ^ Suc e" "pc_number c = pc_k c * 2 ^ Suc e + 1"
    "pc_witness c ^ nat (pc_k c * 2 ^ e) mod pc_number c = pc_number c - 1"
proof -
  note c = assms [unfolded check_proth_certificate_def Let_def]
  have e: "1 \<le> pc_exponent c" and k: "0 < pc_k c" and n: "2 < pc_number c" using c by (auto split: if_splits)
  obtain e where e': "nat (pc_exponent c) = Suc e" using e by (cases "nat (pc_exponent c)") auto
  have shape: "pc_k c < 2 ^ Suc e" "pc_number c = pc_k c * 2 ^ Suc e + 1"
    "pow_mod (pc_witness c) (nat ((pc_number c - 1) div 2)) (pc_number c) = pc_number c - 1"
    using c by (auto simp: e' push_bit_eq_mult res_simps split: if_splits)
  have "(pc_number c - 1) div 2 = pc_k c * 2 ^ e" using shape(2) by simp
  with shape n k show thesis by (intro that [of e]) (simp_all add: pow_mod_eq)
qed

lemma proth_prime:
  assumes "check_proth_certificate c = Inr True"
  shows "is_prime (nat (pc_number c))"
proof (rule ccontr)
  assume composite: "\<not> is_prime (nat (pc_number c))"
  from assms obtain e where e: "2 < pc_number c" "0 < pc_k c" "pc_k c < 2 ^ Suc e" "pc_number c = pc_k c * 2 ^ Suc e + 1"
    "pc_witness c ^ nat (pc_k c * 2 ^ e) mod pc_number c = pc_number c - 1" by (rule check_proth_True)
  define n where "n = nat (pc_number c)"
  have n: "int n = pc_number c" "1 < n" using e(1) by (simp_all add: n_def)
  define p where "p = lpf n"
  have p: "is_prime p" "p dvd n" "p * p \<le> n"
    using lpf(1,2) [OF n(2)] composite_lpf(5) [OF n(2)] composite by (simp_all add: p_def n_def)
  have "int p dvd pc_number c" using p(2) n(1) by (metis int_dvd_int_iff)
  moreover have "pc_number c dvd pc_witness c ^ nat (pc_k c * 2 ^ e) + 1"
  proof -
    have "(pc_witness c ^ nat (pc_k c * 2 ^ e) + 1) mod pc_number c = ((pc_number c - 1) + 1) mod pc_number c"
      using e(5) by (metis mod_add_left_eq)
    then show ?thesis by (simp add: mod_eq_0_iff_dvd)
  qed
  ultimately have "int p dvd pc_witness c ^ nat (pc_k c * 2 ^ e) + 1" by (rule dvd_trans)
  moreover have "nat (pc_k c * 2 ^ e) = nat (pc_k c) * 2 ^ e" using e(2) by (simp add: nat_mult_distrib nat_power_eq)
  ultimately have root: "int p dvd (pc_witness c ^ nat (pc_k c)) ^ 2 ^ e + 1" by (simp add: power_mult)
  have "odd n" using n(1) e(4) by (metis even_of_nat even_mult_iff even_plus_one_iff even_power even_numeral zero_less_Suc)
  then have "odd p" using p(2) by (metis dvd_trans)
  from power_of_two_dvd [OF p(1) this root] have "2 ^ Suc e dvd p - 1" by simp
  then have "2 ^ Suc e \<le> p - 1" using prime_gt_1 [OF p(1)] by (intro dvd_imp_le) simp_all
  then have "2 ^ Suc e + 1 \<le> p" using prime_gt_1 [OF p(1)] by simp
  then have "(2 ^ Suc e + 1) * (2 ^ Suc e + 1) \<le> p * p" by (intro mult_le_mono)
  then have "(2 ^ Suc e + 1) * (2 ^ Suc e + 1) \<le> n" using p(3) by (rule order_trans)
  then have "int ((2 ^ Suc e + 1) * (2 ^ Suc e + 1)) \<le> int n" by (simp only: of_nat_le_iff)
  moreover define x :: int where "x = 2 ^ Suc e"
  have "int ((2 ^ Suc e + 1) * (2 ^ Suc e + 1)) = x * x + 2 * x + 1" by (simp add: x_def algebra_simps)
  ultimately have "x * x + 2 * x + 1 \<le> pc_k c * x + 1" using n(1) e(4) unfolding x_def by metis
  moreover have "pc_k c * x \<le> x * x" "0 < x" using e(3) unfolding x_def by (intro mult_right_mono; simp) simp
  ultimately show False by linarith
qed

text \<open>C12:
  Proth's theorem for the checker: the number of every accepted Proth certificate is prime.  Nothing is
  assumed of the Jacobi symbol; the congruence and the shape suffice.
\<close>

theorem proth_certificate_sound:
  assumes "check_proth_certificate c = Inr True"
  shows "is_prime (nat (pc_number c)) \<and> pc_number c = pc_k c * 2 ^ nat (pc_exponent c) + 1"
  using proth_prime [OF assms] assms
  by (auto simp: check_proth_certificate_def Let_def push_bit_eq_mult split: if_splits)

lemma proth_certificate_sound_witness: "is_prime (nat 13)"
  using proth_certificate_sound [of "\<lparr>pc_number = 13, pc_k = 3, pc_exponent = 2, pc_witness = 2\<rparr>"]
  by (simp add: check_proth_certificate_def MAX_PROTH_EXPONENT_def jacobi_symbol_def jacobi_loop.simps strip_twos.simps pow_mod_eq)

section \<open>The predicate on 64-bit integers\<close>

lemma split_powers:
  "0 < m \<Longrightarrow> split_powers m s = (d, t) \<Longrightarrow> m * 2 ^ s = d * 2 ^ t \<and> 0 < d \<and> odd d"
proof (induction m s arbitrary: d t rule: split_powers.induct)
  case (1 m s)
  show ?case
  proof (cases "m AND 1 = 0 \<and> m \<noteq> 0")
    case True
    then obtain h where h: "m = 2 * h" by (auto simp: and_one_eq)
    then have "0 < h" "drop_bit 1 m = h" using "1.prems"(1) by (simp_all add: drop_bit_eq_div)
    moreover from this have "split_powers h (s + 1) = (d, t)" using "1.prems"(2) True by (subst (asm) split_powers.simps) simp
    ultimately show ?thesis using "1.IH" [OF True] h by simp
  next
    case False
    then show ?thesis using "1.prems" by (subst (asm) split_powers.simps) (auto simp: and_one_eq)
  qed
qed

lemma squarings_root:
  assumes "is_prime p" "r ^ 2 ^ n mod int p = 1" "0 \<le> r" "r < int p"
  shows "r = 1 \<or> r = int p - 1 \<or> squarings (n - 1) r (int p)"
  using assms(2-4)
proof (induction n arbitrary: r)
  case 0
  then show ?case by simp
next
  case (Suc n)
  define s where "s = r * r mod int p"
  have p: "1 < p" using assms(1) by (rule prime_gt_1)
  have s: "0 \<le> s" "s < int p" using p by (simp_all add: s_def)
  have "r ^ 2 ^ Suc n = (r * r) ^ 2 ^ n" by (simp add: power_mult power2_eq_square)
  then have "s ^ 2 ^ n mod int p = 1" using Suc.prems(1) by (simp add: s_def power_mod)
  from Suc.IH [OF this s] show ?case
  proof (elim disjE)
    assume "s = 1"
    then show ?thesis using root_of_one [OF assms(1)] Suc.prems by (auto simp: s_def)
  next
    assume s': "s = int p - 1"
    show ?thesis
    proof (cases n)
      case 0
      then have "s = 1" using \<open>s ^ 2 ^ n mod int p = 1\<close> s by simp
      then show ?thesis using root_of_one [OF assms(1)] Suc.prems by (auto simp: s_def)
    next
      case (Suc m)
      then show ?thesis using s' by (simp add: s_def Let_def)
    qed
  next
    assume sq: "squarings (n - 1) s (int p)"
    then show ?thesis by (cases n) (auto simp: s_def Let_def)
  qed
qed

lemma miller_rabin_prime:
  assumes "is_prime p" "int p - 1 = d * 2 ^ t" "0 < d"
  shows "miller_rabin_bases (int p) d t bases"
proof (induction bases)
  case (Cons b bases)
  show ?case
  proof (cases "b mod int p = 0")
    case False
    have p: "1 < p" using assms(1) by (rule prime_gt_1)
    define r where "r = (b mod int p) ^ nat d mod int p"
    have "\<not> int p dvd b mod int p" using False by (simp add: dvd_mod_iff mod_eq_0_iff_dvd)
    then have "(b mod int p) ^ (p - 1) mod int p = 1" by (rule little_fermat [OF assms(1)])
    moreover have "p - 1 = nat d * 2 ^ t"
    proof -
      have "int (p - 1) = int (nat d * 2 ^ t)" using assms(2,3) p by (simp add: of_nat_diff)
      then show ?thesis by (simp only: of_nat_eq_iff)
    qed
    ultimately have "r ^ 2 ^ t mod int p = 1" by (simp add: r_def power_mod power_mult)
    moreover have "0 \<le> r" "r < int p" using p by (simp_all add: r_def)
    ultimately have "r = 1 \<or> r = int p - 1 \<or> squarings (t - 1) r (int p)" by (rule squarings_root [OF assms(1)])
    with False Cons show ?thesis by (auto simp: pow_mod_eq r_def Let_def)
  qed (simp add: Cons)
qed simp

lemma small_primes_decide_prime:
  "is_prime p \<Longrightarrow> list_all (\<lambda>q. is_prime (nat q)) qs \<Longrightarrow> small_primes_decide (int p) qs \<noteq> Some False"
proof (induction qs)
  case (Cons q qs)
  have "int p = q" if "int p mod q = 0"
  proof -
    have q: "is_prime (nat q)" "0 < nat q" using Cons.prems(2) prime_pos [of "nat q"] by simp_all
    then have "q = int (nat q)" by simp
    then have "nat q dvd p" using that by (metis int_dvd_int_iff mod_eq_0_iff_dvd)
    then have "nat q = p" using prime_dvd_prime [OF q(1) Cons.prems(1)] by simp
    with \<open>q = int (nat q)\<close> show ?thesis by simp
  qed
  with Cons show ?case by auto
qed simp

lemma SMALL_PRIMES_prime: "list_all (\<lambda>q. is_prime (nat q)) SMALL_PRIMES"
  by (simp add: SMALL_PRIMES_def is_prime_list)

lemma small_primes_decide_iff:
  "small_primes_decide v qs = Some True \<Longrightarrow> v \<in> set qs"
  "small_primes_decide v qs = None \<Longrightarrow> list_all (\<lambda>q. v mod q \<noteq> 0) qs"
  by (induction qs) (auto split: if_splits)

lemma small_factor: "2 \<le> n \<Longrightarrow> n < 41 \<Longrightarrow> \<exists>q \<in> set SMALL_PRIMES. int n mod q = 0"
proof -
  have "list_all (\<lambda>n. list_ex (\<lambda>q. int n mod q = 0) SMALL_PRIMES) [2..<41]" by (simp add: SMALL_PRIMES_def)
  moreover assume "2 \<le> n" "n < 41"
  then have "n \<in> set [2..<41]" by (simp only: set_upt atLeastLessThan_iff)
  ultimately show ?thesis unfolding list_all_iff list_ex_iff by blast
qed

lemma is_prime_bounded_small:
  assumes "is_prime_bounded v" "v < 1681"
  shows "is_prime (nat v)"
proof (cases "small_primes_decide v SMALL_PRIMES")
  case (Some b)
  then have "v \<in> set SMALL_PRIMES" using assms(1) small_primes_decide_iff(1) by (auto simp: is_prime_bounded_def split: if_splits)
  then show ?thesis using SMALL_PRIMES_prime by (simp add: list_all_iff)
next
  case None
  from assms(1) have v: "2 \<le> v" by (auto simp: is_prime_bounded_def split: if_splits)
  define n where "n = nat v"
  have n: "int n = v" "1 < n" using v by (simp_all add: n_def)
  show ?thesis
  proof (rule ccontr)
    assume "\<not> is_prime (nat v)"
    then have c: "\<not> is_prime n" by (simp add: n_def)
    note l = lpf(1,2) [OF n(2)] composite_lpf(5) [OF n(2) c]
    have "lpf n < 41"
    proof (rule ccontr)
      assume "\<not> lpf n < 41"
      then have "41 * 41 \<le> lpf n * lpf n" by (intro mult_le_mono) simp_all
      with l(3) n(1) assms(2) show False by simp
    qed
    moreover have "2 \<le> lpf n" using prime_gt_1 [OF l(1)] by simp
    ultimately obtain q where q: "q \<in> set SMALL_PRIMES" "q dvd int (lpf n)" using small_factor unfolding mod_eq_0_iff_dvd by blast
    have "int (lpf n) dvd v" using l(2) n(1) by (metis int_dvd_int_iff)
    with q(2) have "v mod q = 0" unfolding mod_eq_0_iff_dvd by (rule dvd_trans)
    with q(1) small_primes_decide_iff(2) [OF None] show False by (simp add: list_all_iff)
  qed
qed

text \<open>
  The 64-bit predicate never rejects a prime of its domain, whatever the bases, and it is exact below
  \<open>41\<^sup>2\<close>, where the trial divisions decide.  (That it accepts no composite below \<open>2\<^sup>6\<^sup>4\<close> rests on an
  exhaustive computation that is not part of this program.)
\<close>

theorem is_prime_bounded_complete:
  "int ` {p. is_prime p \<and> p < 2 ^ 64} \<subseteq> Collect is_prime_bounded \<and>
   Collect is_prime_bounded \<subseteq> {2..<2 ^ 64} \<and>
   Collect is_prime_bounded \<inter> {..<1681} = int ` {p. is_prime p \<and> p < 1681}"
proof -
  have complete: "is_prime_bounded (int p)" if p: "is_prime p" "p < 2 ^ 64" for p
  proof -
    have range: "\<not> (int p < 2 \<or> int p > MAX_DETERMINISTIC_PRIME_INPUT)"
      using prime_gt_1 [OF p(1)] p(2) by (simp add: MAX_DETERMINISTIC_PRIME_INPUT_def)
    obtain d t where dt: "split_powers (int p - 1) 0 = (d, t)" by (cases "split_powers (int p - 1) 0")
    then have "int p - 1 = d * 2 ^ t" "0 < d" using split_powers [OF _ dt] prime_gt_1 [OF p(1)] by simp_all
    then have "miller_rabin_bases (int p) d t MILLER_RABIN_BASES_64" by (rule miller_rabin_prime [OF p(1)])
    then show ?thesis
      using small_primes_decide_prime [OF p(1) SMALL_PRIMES_prime] range dt
      by (auto simp: is_prime_bounded_def split: option.splits)
  qed
  have range: "2 \<le> v \<and> v < 2 ^ 64" if "is_prime_bounded v" for v
    using that by (auto simp: is_prime_bounded_def MAX_DETERMINISTIC_PRIME_INPUT_def split: if_splits)
  have "v \<in> int ` {p. is_prime p \<and> p < 1681}" if "is_prime_bounded v" "v < 1681" for v
    using is_prime_bounded_small [OF that] range [OF that(1)] that(2) by (intro image_eqI [of _ _ "nat v"]) auto
  with complete range show ?thesis by auto
qed

section \<open>Ladders\<close>

lemma jacobi_odd: "0 < d \<Longrightarrow> d mod 2 \<noteq> 0 \<Longrightarrow> \<exists>s. jacobi_symbol n d = Inr s"
  by (simp add: jacobi_symbol_def)

text \<open>A Proth certificate has an odd number, so its Jacobi symbol never raises.\<close>

lemma check_proth_total: "\<exists>ok. check_proth_certificate c = Inr ok"
proof -
  have "\<exists>s. jacobi_symbol w (k * push_bit (nat e) 1 + 1) = Inr s" if e: "1 \<le> e" "2 < k * push_bit (nat e) 1 + 1" for w k e :: int
  proof (rule jacobi_odd)
    obtain m where "nat e = Suc m" using e(1) by (cases "nat e") auto
    then show "(k * push_bit (nat e) 1 + 1) mod 2 \<noteq> 0"
      by (simp add: push_bit_eq_mult flip: odd_iff_mod_2_eq_one)
  qed (use e in simp)
  then have "\<not> (1 \<le> pc_exponent c \<and> 2 < pc_number c \<and> pc_number c = pc_k c * push_bit (nat (pc_exponent c)) 1 + 1) \<or>
      (\<exists>s. jacobi_symbol (pc_witness c) (pc_number c) = Inr s)" by metis
  then show ?thesis
  proof
    assume "\<exists>s. jacobi_symbol (pc_witness c) (pc_number c) = Inr s"
    then show ?thesis by (auto simp: check_proth_certificate_def Let_def)
  next
    assume no: "\<not> (1 \<le> pc_exponent c \<and> 2 < pc_number c \<and> pc_number c = pc_k c * push_bit (nat (pc_exponent c)) 1 + 1)"
    show ?thesis
    proof (cases "pc_exponent c < 1 \<or> pc_number c \<le> 2")
      case True
      then show ?thesis by (auto simp: check_proth_certificate_def Let_def)
    next
      case False
      with no have "pc_number c \<noteq> pc_k c * push_bit (nat (pc_exponent c)) 1 + 1" by auto
      then show ?thesis by (auto simp: check_proth_certificate_def Let_def)
    qed
  qed
qed

lemma check_prime_total: "\<exists>ok. check_prime_certificate c = Inr ok"
  using check_proth_total by (auto simp: check_prime_certificate_def split: option.splits)

lemma all_certified: "all_certified rungs = Inr (list_all (\<lambda>r. check_prime_certificate r = Inr True) rungs)"
proof (induction rungs)
  case (Cons r rungs)
  then show ?case using check_prime_total [of r] by auto
qed simp

lemma gap_cover:
  "xs \<noteq> [] \<Longrightarrow> list_all (\<lambda>(l, r). 0 < r - l \<and> r - l \<le> gap) (zip xs (tl xs)) \<Longrightarrow> 0 < gap \<Longrightarrow> hd xs \<le> x \<Longrightarrow> x \<le> last xs \<Longrightarrow>
     \<exists>p \<in> set xs. p \<le> x \<and> x - p < (gap::int)"
proof (induction xs)
  case (Cons a xs)
  show ?case
  proof (cases xs)
    case Nil
    with Cons.prems show ?thesis by auto
  next
    case (Cons b ys)
    show ?thesis
    proof (cases "b \<le> x")
      case True
      with Cons Cons.prems Cons.IH show ?thesis by auto
    next
      case False
      with Cons Cons.prems show ?thesis by (intro bexI [of _ a]) auto
    qed
  qed
qed simp

lemma check_prime_ladder_eq:
  "check_prime_ladder c = Inr (0 \<le> ld_start c \<and> ld_start c \<le> ld_end c \<and> 0 < ld_maximum_gap c \<and> ld_rungs c \<noteq> [] \<and>
     list_all (\<lambda>r. check_prime_certificate r = Inr True) (ld_rungs c) \<and> pr_number (hd (ld_rungs c)) \<le> ld_start c \<and>
     ld_end c \<le> pr_number (last (ld_rungs c)) \<and>
     list_all (\<lambda>(l, r). 0 < r - l \<and> r - l \<le> ld_maximum_gap c) (zip (map pr_number (ld_rungs c)) (tl (map pr_number (ld_rungs c)))))"
  by (auto simp: check_prime_ladder_def all_certified Let_def hd_map last_map)

lemma proth_rung:
  assumes "check_prime_certificate r = Inr True" "pr_proth r \<noteq> None"
  shows "is_prime (nat (pr_number r))" "2 < pr_number r"
proof -
  obtain c where c: "pr_number r = pc_number c" "check_proth_certificate c = Inr True"
    using assms by (auto simp: check_prime_certificate_def split: option.splits if_splits)
  show "2 < pr_number r" using check_proth_True [OF c(2)] c(1) by metis
  show "is_prime (nat (pr_number r))" using proth_prime [OF c(2)] c(1) by simp
qed

text \<open>C13:
  What a ladder gives.  The check of a ladder always returns; and when it accepts a ladder of Proth rungs
  whose gaps are small enough for a bound up to which every even number from 4 on is a sum of two primes,
  then every odd number of its interval, moved up by four, is a sum of three primes.
\<close>

theorem prime_ladder_gives_ternary:
  assumes "check_prime_ladder c = Inr True" "\<forall>r \<in> set (ld_rungs c). pr_proth r \<noteq> None"
    "\<forall>m. even m \<and> 4 \<le> m \<and> m \<le> bound \<longrightarrow> (\<exists>a b. is_prime a \<and> is_prime b \<and> a + b = m)"
    "ld_maximum_gap c + 3 \<le> int bound" "odd n" "ld_start c + 4 \<le> int n" "int n \<le> ld_end c + 4"
  shows "\<exists>p q r. is_prime p \<and> is_prime q \<and> is_prime r \<and> p + q + r = n"
proof -
  note ladder = assms(1) [unfolded check_prime_ladder_eq, simplified]
  let ?x = "int n - 4"
  have "\<exists>p \<in> set (map pr_number (ld_rungs c)). p \<le> ?x \<and> ?x - p < ld_maximum_gap c"
    using ladder assms(6,7) by (intro gap_cover) (auto simp: hd_map last_map)
  then obtain g where g: "g \<in> set (ld_rungs c)" "pr_number g \<le> ?x" "?x - pr_number g < ld_maximum_gap c" by auto
  then have "check_prime_certificate g = Inr True" "pr_proth g \<noteq> None" using ladder assms(2) by (auto simp: list_all_iff)
  then have prime: "is_prime (nat (pr_number g))" "2 < pr_number g" by (rule proth_rung)+
  define p where "p = nat (pr_number g)"
  have p: "int p = pr_number g" "is_prime p" using prime by (simp_all add: p_def)
  have "odd p"
  proof
    assume "even p"
    then have "p = 2" using p(2) by (auto simp: is_prime_def)
    with p(1) prime(2) show False by simp
  qed
  moreover have "p + 4 \<le> n" "n - p \<le> bound" using g p(1) assms(4) by linarith+
  ultimately have "even (n - p) \<and> 4 \<le> n - p \<and> n - p \<le> bound" using assms(5) by simp
  with assms(3) obtain a b where "is_prime a" "is_prime b" "a + b = n - p" by blast
  with p(2) \<open>p + 4 \<le> n\<close> show ?thesis by (intro exI [of _ p] exI [of _ a] exI [of _ b]) simp
qed

text \<open>The rungs 5, 13 and 17, with gaps up to eight: the odd numbers from 9 to 21.\<close>

lemma prime_ladder_gives_ternary_witness: "\<exists>p q r. is_prime p \<and> is_prime q \<and> is_prime r \<and> p + q + r = 21"
proof -
  define rung where "rung number k e w = \<lparr>pr_number = number, pr_proth = Some \<lparr>pc_number = number, pc_k = k, pc_exponent = e, pc_witness = w\<rparr>\<rparr>"
    for number k e w :: int
  let ?c = "\<lparr>ld_start = 5, ld_end = 17, ld_maximum_gap = 8, ld_rungs = [rung 5 1 2 2, rung 13 3 2 2, rung 17 1 4 3]\<rparr>"
  note eval = check_proth_certificate_def MAX_PROTH_EXPONENT_def jacobi_symbol_def jacobi_loop.simps strip_twos.simps pow_mod_eq
  have "check_prime_certificate (rung 5 1 2 2) = Inr True" "check_prime_certificate (rung 13 3 2 2) = Inr True"
    "check_prime_certificate (rung 17 1 4 3) = Inr True"
    by (simp_all add: rung_def check_prime_certificate_def eval)
  then have check: "check_prime_ladder ?c = Inr True" by (simp add: check_prime_ladder_eq rung_def)
  have primes: "is_prime 2" "is_prime 3" "is_prime 5" "is_prime 7" by (simp_all add: is_prime_list)
  have "\<exists>a b. is_prime a \<and> is_prime b \<and> a + b = m" if m: "even m" "4 \<le> m" "m \<le> 11" for m
  proof -
    have "m = 2 + 2 \<or> m = 3 + 3 \<or> m = 3 + 5 \<or> m = 5 + 5" using m by (auto elim!: evenE)
    with primes show ?thesis by metis
  qed
  with check show ?thesis by (intro prime_ladder_gives_ternary [of ?c 11]) (auto simp: rung_def)
qed

section \<open>Ternary witnesses\<close>

lemma ternary_loop_eq:
  "ternary_loop t ws \<longleftrightarrow> map tw_target ws = map (\<lambda>i. t + 2 * int i) [0..<length ws] \<and> list_all check_ternary_goldbach_witness ws"
proof (induction ws arbitrary: t)
  case (Cons w ws)
  have "map (\<lambda>i. t + 2 * int i) [0..<Suc (length ws)] = t # map (\<lambda>i. t + 2 + 2 * int i) [0..<length ws]"
    by (simp add: upt_conv_Cons map_Suc_upt [symmetric] algebra_simps del: upt_Suc)
  with Cons show ?case by auto
qed simp

text \<open>An interval of ternary witnesses is accepted exactly when it starts at 7 or later, ends at odd numbers,
  and has one witness for each odd target in increasing order, each the sum of three numbers that the
  64-bit predicate accepts: nothing is omitted, repeated or out of order.
\<close>

theorem ternary_interval_exact:
  "check_ternary_goldbach_interval first_odd last_odd ws \<longleftrightarrow>
     7 \<le> first_odd \<and> first_odd \<le> last_odd \<and> odd first_odd \<and> odd last_odd \<and>
     map tw_target ws = map (\<lambda>i. first_odd + 2 * int i) [0..<nat ((last_odd - first_odd) div 2 + 1)] \<and>
     list_all (\<lambda>w. tw_p w + tw_q w + tw_r w = tw_target w \<and> is_prime_bounded (tw_p w) \<and> is_prime_bounded (tw_q w) \<and> is_prime_bounded (tw_r w)) ws"
proof (cases "7 \<le> first_odd \<and> first_odd \<le> last_odd \<and> odd first_odd \<and> odd last_odd")
  case True
  define count where "count = nat ((last_odd - first_odd) div 2 + 1)"
  have count: "int count = (last_odd - first_odd) div 2 + 1" using True by (simp add: count_def)
  have target: "7 \<le> tw_target w \<and> odd (tw_target w)"
    if "map tw_target ws = map (\<lambda>i. first_odd + 2 * int i) [0..<n]" "w \<in> set ws" for w n
  proof -
    have "tw_target w \<in> set (map tw_target ws)" using that(2) by simp
    with that(1) True show ?thesis by auto
  qed
  have "check_ternary_goldbach_interval first_odd last_odd ws \<longleftrightarrow> length ws = count \<and> ternary_loop first_odd ws"
    using True by (simp add: check_ternary_goldbach_interval_def Let_def odd_iff_mod_2_eq_one flip: count)
  also have "... \<longleftrightarrow> map tw_target ws = map (\<lambda>i. first_odd + 2 * int i) [0..<count] \<and> list_all check_ternary_goldbach_witness ws"
    unfolding ternary_loop_eq by (metis diff_zero length_map length_upt)
  also have "... \<longleftrightarrow> map tw_target ws = map (\<lambda>i. first_odd + 2 * int i) [0..<count] \<and>
     list_all (\<lambda>w. tw_p w + tw_q w + tw_r w = tw_target w \<and> is_prime_bounded (tw_p w) \<and> is_prime_bounded (tw_q w) \<and> is_prime_bounded (tw_r w)) ws"
  proof (rule conj_cong [OF refl])
    assume "map tw_target ws = map (\<lambda>i. first_odd + 2 * int i) [0..<count]"
    note t = target [OF this]
    show "list_all check_ternary_goldbach_witness ws \<longleftrightarrow> list_all (\<lambda>w. tw_p w + tw_q w + tw_r w = tw_target w \<and>
        is_prime_bounded (tw_p w) \<and> is_prime_bounded (tw_q w) \<and> is_prime_bounded (tw_r w)) ws"
      by (rule list.pred_cong_simp [OF refl]) (force dest: t simp: simp_implies_def check_ternary_goldbach_witness_def odd_iff_mod_2_eq_one)
  qed
  finally show ?thesis using True by (simp add: count_def)
next
  case False
  then show ?thesis by (auto simp: check_ternary_goldbach_interval_def odd_iff_mod_2_eq_one)
qed

section \<open>The Jacobi symbol\<close>

lemma strip_twos_coprime:
  "strip_twos n d r = (m, s) \<Longrightarrow> odd d \<Longrightarrow> n \<noteq> 0 \<Longrightarrow> gcd m d = gcd n d \<and> \<bar>s\<bar> = \<bar>r\<bar> \<and> odd m \<and> (0 < n \<longrightarrow> 0 < m)"
proof (induction n d r arbitrary: m s rule: strip_twos.induct)
  case (1 n d r)
  show ?case
  proof (cases "n mod 2 = 0 \<and> n \<noteq> 0")
    case True
    then obtain h where h: "n = 2 * h" by auto
    have "gcd (2 * h) d = gcd h d" using "1.prems"(2) by (intro gcd_mult_left_left_cancel) simp
    with True h "1.IH" [OF True refl] "1.prems" show ?thesis
      by (simp add: strip_twos.simps [of "2 * h"] Let_def split: if_splits)
  next
    case False
    with "1.prems" show ?thesis by (subst (asm) strip_twos.simps) (auto simp: odd_iff_mod_2_eq_one)
  qed
qed

lemma jacobi_loop_values:
  "0 \<le> n \<Longrightarrow> 0 < d \<Longrightarrow> odd d \<Longrightarrow> \<bar>jacobi_loop n d r\<bar> = (if coprime n d then \<bar>r\<bar> else 0)"
proof (induction n d r rule: jacobi_loop.induct)
  case (1 n d r)
  show ?case
  proof (cases "n = 0")
    case True
    have "coprime 0 d \<longleftrightarrow> d = 1" using "1.prems"(2) by (simp add: coprime_iff_gcd_eq_1)
    with True show ?thesis by (simp add: jacobi_loop.simps)
  next
    case False
    obtain m s where ms: "strip_twos n d r = (m, s)" by (cases "strip_twos n d r")
    note st = strip_twos_coprime [OF ms "1.prems"(3) False]
    let ?s = "if d mod 4 = m mod 4 \<and> m mod 4 = 3 then - s else s"
    have m: "0 < m" "odd m" using st False "1.prems"(1) by auto
    have "\<bar>jacobi_loop (d mod m) m ?s\<bar> = (if coprime (d mod m) m then \<bar>?s\<bar> else 0)"
      using m by (intro "1.IH" [OF False ms [symmetric] refl refl refl]) simp_all
    moreover have "coprime (d mod m) m \<longleftrightarrow> coprime n d"
    proof -
      have "coprime (d mod m) m \<longleftrightarrow> gcd m d = 1" using m(1) by (simp add: coprime_mod_left_iff) (simp add: coprime_iff_gcd_eq_1 gcd.commute)
      then show ?thesis using st by (simp add: coprime_iff_gcd_eq_1)
    qed
    moreover have "jacobi_loop n d r = jacobi_loop (d mod m) m ?s"
      using False ms by (subst jacobi_loop.simps) (simp add: Let_def)
    ultimately show ?thesis using st by (simp split: if_splits)
  qed
qed

text \<open>The Jacobi symbol is defined exactly for positive odd denominators, has absolute value one for coprime
  arguments and is zero for all others.
\<close>

theorem jacobi_symbol_values:
  "case jacobi_symbol n d of
     Inl e \<Rightarrow> e = ValueError \<and> (d \<le> 0 \<or> even d)
   | Inr s \<Rightarrow> 0 < d \<and> odd d \<and> \<bar>s\<bar> = (if coprime n d then 1 else 0)"
proof (cases "d \<le> 0 \<or> d mod 2 = 0")
  case True
  then show ?thesis by (auto simp: jacobi_symbol_def)
next
  case False
  then have "0 < d" "odd d" by (auto simp: odd_iff_mod_2_eq_one)
  moreover have "coprime (n mod d) d \<longleftrightarrow> coprime n d" using \<open>0 < d\<close> by (intro coprime_mod_left_iff) simp
  ultimately show ?thesis using False jacobi_loop_values [of "n mod d" d 1] by (simp add: jacobi_symbol_def)
qed

end
