(* ===== verification/A7Certificate.thy ===== *)
theory A7Certificate
  imports StructCodec ChunkChain "HOL-Library.Product_Lexorder"
begin

text \<open>
  Model of the certificate of \<open>tg_verifier/a7_lean_certificate.py\<close>: the base64url mantissas, the exact
  dyadics, the seven-field leaves and the validation of a certificate.  Fields have the types of their
  annotations.  The reader of the JSON transcript delegates to \<open>tg_verifier/analytic.py\<close> and is not modelled.
\<close>

definition A7_TARGET_SQ :: rat where "A7_TARGET_SQ = 121801 / 62500"
definition A7_EDGE_COUNT :: int where "A7_EDGE_COUNT = 4"
definition A7_MAX_TRANSCRIPT_BYTES :: int where "A7_MAX_TRANSCRIPT_BYTES = 64 * 1024 * 1024"
definition A7_MAX_LEAVES :: nat where "A7_MAX_LEAVES = 2000000"
definition A7_MAX_DEPTH :: int where "A7_MAX_DEPTH = 64"
definition A7_MAX_DYADIC_BITS :: nat where "A7_MAX_DYADIC_BITS = 16384"
definition A7_MAX_DYADIC_EXPONENT :: int where "A7_MAX_DYADIC_EXPONENT = 16384"

definition a7_exact_int :: "int \<Rightarrow> int \<Rightarrow> int res" where
  "a7_exact_int minimum value = (if value < minimum then Inl A7LeanCertificateError else Inr value)"

section \<open>base64url\<close>

definition base64_digit :: "nat \<Rightarrow> nat option" where
  "base64_digit c =
     (if 65 \<le> c \<and> c \<le> 90 then Some (c - 65)
      else if 97 \<le> c \<and> c \<le> 122 then Some (c - 71)
      else if 48 \<le> c \<and> c \<le> 57 then Some (c + 4)
      else if c = 45 then Some 62
      else if c = 95 then Some 63
      else None)"

definition base64_char :: "nat \<Rightarrow> nat" where
  "base64_char d =
     (if d < 26 then 65 + d else if d < 52 then 71 + d else if d < 62 then d - 4 else if d = 62 then 45 else 95)"

text \<open>
  \<open>base64.b64decode\<close> on alphabet characters, padded to a multiple of four: six bits a character, whole
  bytes, the bits left over dropped; a single character in the last group is an error.
\<close>

definition base64_value :: "pystr \<Rightarrow> nat" where
  "base64_value s = foldl (\<lambda>acc c. 64 * acc + (case base64_digit c of Some d \<Rightarrow> d | None \<Rightarrow> 0)) 0 s"

definition base64_decode :: "pystr \<Rightarrow> bytes option" where
  "base64_decode s =
     (if length s mod 4 = 1 then None
      else Some (be_bytes (6 * length s div 8) (drop_bit (6 * length s mod 8) (base64_value s))))"

text \<open>\<open>base64.urlsafe_b64encode(...).rstrip("=")\<close>.\<close>

fun base64_digits :: "nat \<Rightarrow> nat \<Rightarrow> pystr" where
  "base64_digits 0 x = []"
| "base64_digits (Suc n) x = base64_digits n (x div 64) @ [base64_char (x mod 64)]"

definition base64_encode :: "bytes \<Rightarrow> pystr" where
  "base64_encode bs =
     (let n = (8 * length bs + 5) div 6 in base64_digits n (push_bit (6 * n - 8 * length bs) (be_value bs)))"

definition decode_mantissa :: "pystr \<Rightarrow> (pystr \<times> int) res" where
  "decode_mantissa value =
     (if value = [] \<or> \<not> list_all (\<lambda>c. base64_digit c \<noteq> None) value then Inl A7LeanCertificateError
      else case base64_decode value of
        None \<Rightarrow> Inl A7LeanCertificateError
      | Some decoded \<Rightarrow>
          if decoded = [] \<or> hd decoded = 0 then Inl A7LeanCertificateError
          else if base64_encode decoded \<noteq> value then Inl A7LeanCertificateError
          else
            let mantissa = be_value decoded
            in if mantissa \<le> 0 \<or> bit_length mantissa > A7_MAX_DYADIC_BITS then Inl A7LeanCertificateError
               else Inr (value, int mantissa))"

section \<open>Dyadics and leaves\<close>

definition dyadic_value :: "int \<Rightarrow> int \<Rightarrow> rat" where
  "dyadic_value mantissa exponent =
     (if exponent \<ge> 0 then of_int (push_bit (nat exponent) mantissa)
      else of_int mantissa / of_int (push_bit (nat (- exponent)) 1))"

record exact_dyadic =
  ed_encoded :: pystr
  ed_mantissa :: int
  ed_exponent :: int
  ed_value :: rat

record a7_leaf =
  al_edge :: int
  al_depth :: int
  al_index :: int
  al_norm :: exact_dyadic
  al_zeta :: exact_dyadic

record a7_certificate =
  ac_transcript_sha256 :: pystr
  ac_transcript_size :: int
  ac_leaves_sha256 :: pystr
  ac_max_depth :: int
  ac_leaves :: "a7_leaf list"

definition decode_dyadic :: "pystr \<Rightarrow> int \<Rightarrow> exact_dyadic res" where
  "decode_dyadic mantissa_value exponent = ebind (decode_mantissa mantissa_value) (\<lambda>(encoded, mantissa).
     if \<not> (- A7_MAX_DYADIC_EXPONENT \<le> exponent \<and> exponent \<le> A7_MAX_DYADIC_EXPONENT) then Inl A7LeanCertificateError
     else Inr \<lparr>ed_encoded = encoded, ed_mantissa = mantissa, ed_exponent = exponent, ed_value = dyadic_value mantissa exponent\<rparr>)"

definition raw_a7_leaf :: "a7_leaf \<Rightarrow> pyval" where
  "raw_a7_leaf l = PList [PInt (al_edge l), PInt (al_depth l), PInt (al_index l),
     PStr (ed_encoded (al_norm l)), PInt (ed_exponent (al_norm l)),
     PStr (ed_encoded (al_zeta l)), PInt (ed_exponent (al_zeta l))]"

definition validate_dyadic :: "exact_dyadic \<Rightarrow> exact_dyadic res" where
  "validate_dyadic value = ebind (decode_dyadic (ed_encoded value) (ed_exponent value)) (\<lambda>checked.
     if ed_mantissa value \<noteq> ed_mantissa checked then Inl A7LeanCertificateError
     else if ed_value value \<noteq> ed_value checked then Inl A7LeanCertificateError
     else Inr checked)"

section \<open>Covers\<close>

text \<open>Both modules check covers with the same code and their own exception.\<close>

type_synonym edge_key = "int \<times> rat \<times> rat"

fun cover_scan :: "exc \<Rightarrow> int \<Rightarrow> rat \<Rightarrow> bool \<Rightarrow> edge_key list \<Rightarrow> (rat \<times> bool) res" where
  "cover_scan err edge_id cursor found [] = Inr (cursor, found)"
| "cover_scan err edge_id cursor found ((current_edge, lower, upper) # keys) =
     (if current_edge \<noteq> edge_id then cover_scan err edge_id cursor found keys
      else if lower \<noteq> cursor then Inl err
      else cover_scan err edge_id upper True keys)"

fun cover_edges :: "exc \<Rightarrow> int list \<Rightarrow> edge_key list \<Rightarrow> unit res" where
  "cover_edges err [] keys = Inr ()"
| "cover_edges err (edge_id # edges) keys = ebind (cover_scan err edge_id 0 False keys) (\<lambda>(cursor, found).
     if \<not> found \<or> cursor \<noteq> 1 then Inl err else cover_edges err edges keys)"

definition check_cover :: "exc \<Rightarrow> edge_key list \<Rightarrow> unit res" where
  "check_cover err keys = (if keys \<noteq> sort keys then Inl err else cover_edges err [0, 1, 2, 3] keys)"

definition leaf_key :: "int \<Rightarrow> int \<Rightarrow> int \<Rightarrow> edge_key" where
  "leaf_key edge_id depth index =
     (let denominator = push_bit (nat depth) 1 in (edge_id, of_int index / of_int denominator, of_int (index + 1) / of_int denominator))"

section \<open>Validation\<close>

definition check_a7_leaf :: "int \<Rightarrow> a7_leaf \<Rightarrow> (a7_leaf \<times> edge_key) res" where
  "check_a7_leaf max_depth leaf =
     ebind (a7_exact_int 0 (al_edge leaf)) (\<lambda>edge_id.
     if edge_id \<ge> A7_EDGE_COUNT then Inl A7LeanCertificateError
     else ebind (a7_exact_int 0 (al_depth leaf)) (\<lambda>depth.
     if depth > max_depth then Inl A7LeanCertificateError
     else ebind (a7_exact_int 0 (al_index leaf)) (\<lambda>index.
     if index \<ge> push_bit (nat depth) 1 then Inl A7LeanCertificateError
     else ebind (validate_dyadic (al_norm leaf)) (\<lambda>norm. ebind (validate_dyadic (al_zeta leaf)) (\<lambda>zeta.
     if \<not> (0 < ed_value norm \<and> ed_value norm < A7_TARGET_SQ) then Inl A7LeanCertificateError
     else if ed_value zeta \<le> 0 then Inl A7LeanCertificateError
     else Inr (\<lparr>al_edge = edge_id, al_depth = depth, al_index = index, al_norm = norm, al_zeta = zeta\<rparr>, leaf_key edge_id depth index))))))"

definition a7_json_bytes :: "pyval \<Rightarrow> bytes" where
  "a7_json_bytes value = map of_nat (ascii_json value)"

definition validate_a7_certificate :: "a7_certificate \<Rightarrow> a7_certificate res" where
  "validate_a7_certificate c =
     (if \<not> hex_string 64 (ac_transcript_sha256 c) then Inl A7LeanCertificateError
      else ebind (a7_exact_int 1 (ac_transcript_size c)) (\<lambda>_.
      if ac_transcript_size c > A7_MAX_TRANSCRIPT_BYTES then Inl A7LeanCertificateError
      else if \<not> hex_string 64 (ac_leaves_sha256 c) then Inl A7LeanCertificateError
      else ebind (a7_exact_int 0 (ac_max_depth c)) (\<lambda>max_depth.
      if max_depth > A7_MAX_DEPTH then Inl A7LeanCertificateError
      else if \<not> (4 \<le> length (ac_leaves c) \<and> length (ac_leaves c) \<le> A7_MAX_LEAVES) then Inl A7LeanCertificateError
      else ebind (map_res (check_a7_leaf max_depth) (ac_leaves c)) (\<lambda>checked.
      ebind (check_cover A7LeanCertificateError (map snd checked)) (\<lambda>_.
      let checked_leaves = map fst checked
      in if sha256_hex (a7_json_bytes (PList (map raw_a7_leaf checked_leaves))) \<noteq> ac_leaves_sha256 c then Inl A7LeanCertificateError
         else Inr \<lparr>ac_transcript_sha256 = ac_transcript_sha256 c, ac_transcript_size = ac_transcript_size c,
           ac_leaves_sha256 = ac_leaves_sha256 c, ac_max_depth = max_depth, ac_leaves = checked_leaves\<rparr>)))))"

end
