(* ===== verification/A7Wire.thy ===== *)
theory A7Wire
  imports A7Certificate
begin

text \<open>
  Model of \<open>tg_verifier/a7_boundary_wire.py\<close>: the fixed-width binary form of a certificate, its encoder and
  the independent decoder.  \<open>struct\<close> packs only values that the encoder has checked against their widths.
\<close>

definition WIRE_MAGIC :: bytes where "WIRE_MAGIC = bytes_lit ''TGA7WIR1''"
definition WIRE_VERSION :: nat where "WIRE_VERSION = 1"
definition WIRE_HEADER_BYTES :: nat where "WIRE_HEADER_BYTES = 144"
definition WIRE_RECORD_BYTES :: nat where "WIRE_RECORD_BYTES = 88"
definition WIRE_MAX_LEAVES :: nat where "WIRE_MAX_LEAVES = 2000000"
definition WIRE_MAX_DEPTH :: int where "WIRE_MAX_DEPTH = 64"
definition WIRE_MAX_TRANSCRIPT_BYTES :: int where "WIRE_MAX_TRANSCRIPT_BYTES = 64 * 1024 * 1024"
definition WIRE_MANTISSA_BYTES :: nat where "WIRE_MANTISSA_BYTES = 32"
definition WIRE_MAX_ABS_EXPONENT :: int where "WIRE_MAX_ABS_EXPONENT = 16384"

definition RETAINED_TRANSCRIPT_SHA256 :: pystr where
  "RETAINED_TRANSCRIPT_SHA256 = lit ''ccc11cecdc398c9d0a9bcf2b1bd4994399557985fe17bc216f0a40eb8eb49f29''"
definition RETAINED_TRANSCRIPT_SIZE_BYTES :: int where "RETAINED_TRANSCRIPT_SIZE_BYTES = 1494999"
definition RETAINED_LEAF_COUNT :: nat where "RETAINED_LEAF_COUNT = 16191"
definition RETAINED_MAX_DEPTH :: int where "RETAINED_MAX_DEPTH = 24"
definition RETAINED_LEAVES_SHA256 :: pystr where
  "RETAINED_LEAVES_SHA256 = lit ''abac27f61cb8ce53f649cb0c2111c123c761a37793a1bc536033981c215cabef''"
definition RETAINED_PAYLOAD_SHA256 :: pystr where
  "RETAINED_PAYLOAD_SHA256 = lit ''f2893e9488df7353c31f7d647948b697eb2c88f331b7ea4405c9e328f974148c''"
definition RETAINED_WIRE_SHA256 :: pystr where
  "RETAINED_WIRE_SHA256 = lit ''1ea01e78e29143ecfef926faac7b788c2d4dc9dd6240b7d0b401e7f62fa9de4c''"

section \<open>Encoding\<close>

definition digest_bytes :: "pystr \<Rightarrow> bytes res" where
  "digest_bytes value =
     (if length value \<noteq> 64 then Inl A7BoundaryWireError
      else ebind (catch_as value_error A7BoundaryWireError (fromhex value)) (\<lambda>raw.
        if value \<noteq> bytes_hex raw then Inl A7BoundaryWireError else Inr raw))"

definition mantissa_bytes :: "int \<Rightarrow> bytes res" where
  "mantissa_bytes value =
     (if \<not> (0 < value \<and> value < push_bit 256 1) then Inl A7BoundaryWireError
      else Inr (be_bytes WIRE_MANTISSA_BYTES (nat value)))"

definition exponent_in_range :: "int \<Rightarrow> bool" where
  "exponent_in_range exponent \<longleftrightarrow> - WIRE_MAX_ABS_EXPONENT \<le> exponent \<and> exponent \<le> WIRE_MAX_ABS_EXPONENT"

definition encode_leaf :: "a7_leaf \<Rightarrow> bytes res" where
  "encode_leaf leaf =
     (if \<not> (0 \<le> al_edge leaf \<and> al_edge leaf < 4) then Inl A7BoundaryWireError
      else if \<not> (0 \<le> al_depth leaf \<and> al_depth leaf \<le> WIRE_MAX_DEPTH) then Inl A7BoundaryWireError
      else if \<not> (0 \<le> al_index leaf \<and> al_index leaf < push_bit 64 1) then Inl A7BoundaryWireError
      else if \<not> exponent_in_range (ed_exponent (al_norm leaf)) then Inl A7BoundaryWireError
      else if \<not> exponent_in_range (ed_exponent (al_zeta leaf)) then Inl A7BoundaryWireError
      else ebind (mantissa_bytes (ed_mantissa (al_norm leaf))) (\<lambda>norm.
        ebind (mantissa_bytes (ed_mantissa (al_zeta leaf))) (\<lambda>zeta.
          Inr (le_bytes 4 (nat (al_edge leaf)) @ le_bytes 4 (nat (al_depth leaf)) @ le_bytes 8 (nat (al_index leaf)) @
            norm @ le_signed_bytes 4 (ed_exponent (al_norm leaf)) @ zeta @ le_signed_bytes 4 (ed_exponent (al_zeta leaf))))))"

definition pack_header :: "nat \<Rightarrow> nat \<Rightarrow> nat \<Rightarrow> bytes \<Rightarrow> bytes \<Rightarrow> bytes \<Rightarrow> bytes" where
  "pack_header max_depth leaf_count transcript_size transcript_sha256 leaves_sha256 payload_sha256 =
     WIRE_MAGIC @ le_bytes 4 WIRE_VERSION @ le_bytes 4 WIRE_HEADER_BYTES @ le_bytes 4 WIRE_RECORD_BYTES @ le_bytes 4 0 @
     le_bytes 4 max_depth @ le_bytes 4 leaf_count @ le_bytes 8 transcript_size @
     transcript_sha256 @ leaves_sha256 @ payload_sha256 @ le_bytes 8 0"

definition encode_a7_boundary_wire :: "a7_certificate \<Rightarrow> bytes res" where
  "encode_a7_boundary_wire certificate =
     ebind (validate_a7_certificate certificate) (\<lambda>certificate.
     if \<not> (4 \<le> length (ac_leaves certificate) \<and> length (ac_leaves certificate) \<le> WIRE_MAX_LEAVES) then Inl A7BoundaryWireError
     else if \<not> (0 \<le> ac_max_depth certificate \<and> ac_max_depth certificate \<le> WIRE_MAX_DEPTH) then Inl A7BoundaryWireError
     else if \<not> (0 < ac_transcript_size certificate \<and> ac_transcript_size certificate \<le> WIRE_MAX_TRANSCRIPT_BYTES) then Inl A7BoundaryWireError
     else ebind (map_res encode_leaf (ac_leaves certificate)) (\<lambda>records.
       let payload = concat records
       in ebind (digest_bytes (ac_transcript_sha256 certificate)) (\<lambda>transcript.
          ebind (digest_bytes (ac_leaves_sha256 certificate)) (\<lambda>leaves.
            Inr (pack_header (nat (ac_max_depth certificate)) (length (ac_leaves certificate)) (nat (ac_transcript_size certificate))
              transcript leaves (sha256_digest payload) @ payload)))))"

section \<open>Decoding\<close>

record wire_leaf =
  aw_edge :: nat
  aw_depth :: nat
  aw_index :: nat
  aw_norm_mantissa :: nat
  aw_norm_exponent :: int
  aw_zeta_mantissa :: nat
  aw_zeta_exponent :: int

definition wl_lower :: "wire_leaf \<Rightarrow> rat" where
  "wl_lower l = of_nat (aw_index l) / of_nat (push_bit (aw_depth l) 1)"

definition wl_upper :: "wire_leaf \<Rightarrow> rat" where
  "wl_upper l = of_nat (aw_index l + 1) / of_nat (push_bit (aw_depth l) 1)"

definition wl_norm :: "wire_leaf \<Rightarrow> rat" where
  "wl_norm l = dyadic_value (int (aw_norm_mantissa l)) (aw_norm_exponent l)"

definition wl_zeta :: "wire_leaf \<Rightarrow> rat" where
  "wl_zeta l = dyadic_value (int (aw_zeta_mantissa l)) (aw_zeta_exponent l)"

record boundary_wire =
  bw_max_depth :: nat
  bw_transcript_size :: nat
  bw_transcript_sha256 :: pystr
  bw_leaves_sha256 :: pystr
  bw_payload_sha256 :: pystr
  bw_wire_sha256 :: pystr
  bw_leaves :: "wire_leaf list"

definition unpack_leaf :: "bytes \<Rightarrow> nat \<Rightarrow> wire_leaf" where
  "unpack_leaf raw offset =
     (let norm_offset = offset + 16; zeta_offset = norm_offset + WIRE_MANTISSA_BYTES + 4
      in \<lparr>aw_edge = le_value (field_at offset 4 raw), aw_depth = le_value (field_at (offset + 4) 4 raw),
          aw_index = le_value (field_at (offset + 8) 8 raw),
          aw_norm_mantissa = be_value (field_at norm_offset WIRE_MANTISSA_BYTES raw),
          aw_norm_exponent = le_signed_value (field_at (norm_offset + WIRE_MANTISSA_BYTES) 4 raw),
          aw_zeta_mantissa = be_value (field_at zeta_offset WIRE_MANTISSA_BYTES raw),
          aw_zeta_exponent = le_signed_value (field_at (zeta_offset + WIRE_MANTISSA_BYTES) 4 raw)\<rparr>)"

definition decode_leaf :: "bytes \<Rightarrow> nat \<Rightarrow> wire_leaf res" where
  "decode_leaf raw offset =
     (let leaf = unpack_leaf raw offset
      in if aw_edge leaf \<ge> 4 then Inl A7BoundaryWireError
         else if int (aw_depth leaf) > WIRE_MAX_DEPTH then Inl A7BoundaryWireError
         else if aw_index leaf \<ge> push_bit (aw_depth leaf) 1 then Inl A7BoundaryWireError
         else if aw_norm_mantissa leaf \<le> 0 then Inl A7BoundaryWireError
         else if aw_zeta_mantissa leaf \<le> 0 then Inl A7BoundaryWireError
         else if \<not> exponent_in_range (aw_norm_exponent leaf) then Inl A7BoundaryWireError
         else if \<not> exponent_in_range (aw_zeta_exponent leaf) then Inl A7BoundaryWireError
         else if \<not> (0 < wl_norm leaf \<and> wl_norm leaf < A7_TARGET_SQ) then Inl A7BoundaryWireError
         else if wl_zeta leaf \<le> 0 then Inl A7BoundaryWireError
         else Inr leaf)"

definition wire_cover :: "wire_leaf list \<Rightarrow> unit res" where
  "wire_cover leaves = check_cover A7BoundaryWireError (map (\<lambda>l. (int (aw_edge l), wl_lower l, wl_upper l)) leaves)"

definition retained_identity :: "boundary_wire \<Rightarrow> bool" where
  "retained_identity w \<longleftrightarrow> int (bw_max_depth w) = RETAINED_MAX_DEPTH \<and> length (bw_leaves w) = RETAINED_LEAF_COUNT \<and>
     int (bw_transcript_size w) = RETAINED_TRANSCRIPT_SIZE_BYTES \<and> bw_transcript_sha256 w = RETAINED_TRANSCRIPT_SHA256 \<and>
     bw_leaves_sha256 w = RETAINED_LEAVES_SHA256 \<and> bw_payload_sha256 w = RETAINED_PAYLOAD_SHA256 \<and>
     bw_wire_sha256 w = RETAINED_WIRE_SHA256"

definition decode_a7_boundary_wire :: "bytes \<Rightarrow> bool \<Rightarrow> boundary_wire res" where
  "decode_a7_boundary_wire raw require_retained_identity =
     (if length raw < WIRE_HEADER_BYTES then Inl A7BoundaryWireError
      else
        let magic = field_at 0 8 raw; version = le_value (field_at 8 4 raw); header_bytes = le_value (field_at 12 4 raw);
            record_bytes = le_value (field_at 16 4 raw); reserved = le_value (field_at 20 4 raw);
            max_depth = le_value (field_at 24 4 raw); leaf_count = le_value (field_at 28 4 raw);
            transcript_size = le_value (field_at 32 8 raw); transcript_sha256 = field_at 40 32 raw;
            leaves_sha256 = field_at 72 32 raw; payload_sha256_raw = field_at 104 32 raw; reserved_tail = le_value (field_at 136 8 raw)
        in if magic \<noteq> WIRE_MAGIC then Inl A7BoundaryWireError
           else if version \<noteq> WIRE_VERSION then Inl A7BoundaryWireError
           else if header_bytes \<noteq> WIRE_HEADER_BYTES \<or> record_bytes \<noteq> WIRE_RECORD_BYTES then Inl A7BoundaryWireError
           else if reserved \<noteq> 0 \<or> reserved_tail \<noteq> 0 then Inl A7BoundaryWireError
           else if int max_depth > WIRE_MAX_DEPTH then Inl A7BoundaryWireError
           else if \<not> (4 \<le> leaf_count \<and> leaf_count \<le> WIRE_MAX_LEAVES) then Inl A7BoundaryWireError
           else if \<not> (0 < transcript_size \<and> int transcript_size \<le> WIRE_MAX_TRANSCRIPT_BYTES) then Inl A7BoundaryWireError
           else if length raw \<noteq> WIRE_HEADER_BYTES + leaf_count * WIRE_RECORD_BYTES then Inl A7BoundaryWireError
           else
             let payload = drop WIRE_HEADER_BYTES raw; payload_sha256 = sha256_hex payload
             in if payload_sha256 \<noteq> bytes_hex payload_sha256_raw then Inl A7BoundaryWireError
                else ebind (map_res (\<lambda>position. decode_leaf raw (WIRE_HEADER_BYTES + position * WIRE_RECORD_BYTES)) [0..<leaf_count]) (\<lambda>leaves.
                  if list_ex (\<lambda>leaf. aw_depth leaf > max_depth) leaves then Inl A7BoundaryWireError
                  else ebind (wire_cover leaves) (\<lambda>_.
                    let artifact = \<lparr>bw_max_depth = max_depth, bw_transcript_size = transcript_size,
                          bw_transcript_sha256 = bytes_hex transcript_sha256, bw_leaves_sha256 = bytes_hex leaves_sha256,
                          bw_payload_sha256 = payload_sha256, bw_wire_sha256 = sha256_hex raw, bw_leaves = leaves\<rparr>
                    in if require_retained_identity \<and> \<not> retained_identity artifact then Inl A7BoundaryWireError
                       else Inr artifact)))"

end
