(* ===== verification/A7Wire_Facts.thy ===== *)
theory A7Wire_Facts
  imports A7Wire
begin

text \<open>
  Facts behind the wire: what an accepted cover is, what an accepted certificate is, and each record and
  header as the concatenation of its fields.
\<close>

section \<open>Covers\<close>

text \<open>A scanned edge is a chain of intervals from the first cursor to the last.\<close>

lemma cover_scan_chain:
  assumes "cover_scan err e c f keys = Inr (c', f')" "list_all (\<lambda>(_, l, u). l < u) keys"
  shows "c \<le> c' \<and> length (filter (\<lambda>(k, l, u). k = e \<and> real_of_rat l \<le> t \<and> t < real_of_rat u) keys) =
    (if real_of_rat c \<le> t \<and> t < real_of_rat c' then 1 else 0)"
  using assms
proof (induction keys arbitrary: c f)
  case Nil
  then show ?case by simp
next
  case (Cons key keys)
  obtain k l u where key: "key = (k, l, u)" by (cases key)
  show ?case
  proof (cases "k = e")
    case False
    with Cons key show ?thesis by auto
  next
    case True
    then have l: "l = c" "l < u" and scan: "cover_scan err e u True keys = Inr (c', f')"
      using Cons.prems key by (auto split: if_splits)
    from Cons.IH [OF scan] Cons.prems(2)
    have rest: "u \<le> c'" "length (filter (\<lambda>(k, l, u). k = e \<and> real_of_rat l \<le> t \<and> t < real_of_rat u) keys) =
        (if real_of_rat u \<le> t \<and> t < real_of_rat c' then 1 else 0)" by auto
    have "real_of_rat c < real_of_rat u" "real_of_rat u \<le> real_of_rat c'" using l rest(1) by (simp_all add: of_rat_less of_rat_less_eq)
    then show ?thesis using True l rest key by auto
  qed
qed

lemma cover_edges_scan:
  "cover_edges err edges keys = Inr () \<Longrightarrow> e \<in> set edges \<Longrightarrow> \<exists>f. cover_scan err e 0 False keys = Inr (1, f)"
  by (induction edges) (auto simp: res_simps split: if_splits)

text \<open>Every point of the unit interval lies in exactly one interval of each of the four edges.\<close>

lemma check_cover_exact:
  assumes "check_cover err keys = Inr ()" "list_all (\<lambda>(_, l, u). l < u) keys" "e \<in> {0, 1, 2, 3}" "0 \<le> t" "t < 1"
  shows "length (filter (\<lambda>(k, l, u). k = e \<and> real_of_rat l \<le> t \<and> t < real_of_rat u) keys) = 1"
proof -
  have "cover_edges err [0, 1, 2, 3] keys = Inr ()" using assms(1) by (simp add: check_cover_def split: if_splits)
  then obtain f where "cover_scan err e 0 False keys = Inr (1, f)" using cover_edges_scan assms(3) by fastforce
  from cover_scan_chain [OF this assms(2)] assms(4,5) show ?thesis by simp
qed

lemma cover_error: "check_cover err keys = Inr () \<Longrightarrow> check_cover err' keys = Inr ()"
proof -
  have scan: "cover_scan err e c f keys = Inr x \<Longrightarrow> cover_scan err' e c f keys = Inr x" for e c f x
    by (induction err e c f keys rule: cover_scan.induct) (auto split: if_splits)
  have "cover_edges err edges keys = Inr () \<Longrightarrow> cover_edges err' edges keys = Inr ()" for edges
    by (induction edges) (auto simp: res_simps split: if_splits dest!: scan)
  then show "check_cover err keys = Inr () \<Longrightarrow> check_cover err' keys = Inr ()" 
    by (auto simp: check_cover_def simp del: cover_edges.simps split: if_splits)
qed

section \<open>Accepted certificates\<close>

lemma a7_exact_int_Inr [res_simps]: "a7_exact_int m v = Inr x \<longleftrightarrow> x = v \<and> m \<le> v"
  by (auto simp: a7_exact_int_def)

lemma decode_mantissa_Inr: "decode_mantissa s = Inr (e, m) \<Longrightarrow> e = s \<and> 0 < m"
  by (auto simp: decode_mantissa_def Let_def split: if_splits option.splits)

lemma validate_dyadic_Inr:
  assumes "validate_dyadic v = Inr d"
  shows "d = v" "0 < ed_mantissa v" "ed_value v = dyadic_value (ed_mantissa v) (ed_exponent v)"
proof -
  obtain e m where m: "decode_mantissa (ed_encoded v) = Inr (e, m)" "ed_mantissa v = ed_mantissa d" "ed_value v = ed_value d"
      "d = \<lparr>ed_encoded = e, ed_mantissa = m, ed_exponent = ed_exponent v, ed_value = dyadic_value m (ed_exponent v)\<rparr>"
    using assms by (auto simp: validate_dyadic_def decode_dyadic_def res_simps split: if_splits prod.splits)
  from decode_mantissa_Inr [OF m(1)] m(2-4)
  show "d = v" "0 < ed_mantissa v" "ed_value v = dyadic_value (ed_mantissa v) (ed_exponent v)" by (cases v; auto)+
qed

definition leaf_ok :: "int \<Rightarrow> a7_leaf \<Rightarrow> bool" where
  "leaf_ok max_depth l \<longleftrightarrow> 0 \<le> al_edge l \<and> al_edge l < 4 \<and> 0 \<le> al_depth l \<and> al_depth l \<le> max_depth \<and>
     0 \<le> al_index l \<and> al_index l < 2 ^ nat (al_depth l) \<and> 0 < ed_mantissa (al_norm l) \<and> 0 < ed_mantissa (al_zeta l) \<and>
     0 < dyadic_value (ed_mantissa (al_norm l)) (ed_exponent (al_norm l)) \<and>
     dyadic_value (ed_mantissa (al_norm l)) (ed_exponent (al_norm l)) < A7_TARGET_SQ \<and>
     0 < dyadic_value (ed_mantissa (al_zeta l)) (ed_exponent (al_zeta l))"

lemma check_a7_leaf_Inr:
  assumes "check_a7_leaf max_depth l = Inr (l', k)"
  shows "l' = l" "k = leaf_key (al_edge l) (al_depth l) (al_index l)" "leaf_ok max_depth l"
proof -
  from assms obtain n z where v: "validate_dyadic (al_norm l) = Inr n" "validate_dyadic (al_zeta l) = Inr z"
    and l: "l' = \<lparr>al_edge = al_edge l, al_depth = al_depth l, al_index = al_index l, al_norm = n, al_zeta = z\<rparr>"
    and k: "k = leaf_key (al_edge l) (al_depth l) (al_index l)"
    and b: "0 \<le> al_edge l" "al_edge l < 4" "0 \<le> al_depth l" "al_depth l \<le> max_depth" "0 \<le> al_index l"
      "al_index l < 2 ^ nat (al_depth l)" "0 < ed_value n" "ed_value n < A7_TARGET_SQ" "0 < ed_value z"
    by (auto simp: check_a7_leaf_def res_simps A7_EDGE_COUNT_def push_bit_eq_mult not_le not_less)
  show "l' = l" using l validate_dyadic_Inr(1) [OF v(1)] validate_dyadic_Inr(1) [OF v(2)] by (cases l) simp
  show "k = leaf_key (al_edge l) (al_depth l) (al_index l)" by (rule k)
  show "leaf_ok max_depth l"
    using b validate_dyadic_Inr [OF v(1)] validate_dyadic_Inr [OF v(2)] by (simp add: leaf_ok_def)
qed

lemma map_res_checked:
  "map_res (check_a7_leaf m) ls = Inr cs \<Longrightarrow> map fst cs = ls \<and>
     map snd cs = map (\<lambda>l. leaf_key (al_edge l) (al_depth l) (al_index l)) ls \<and> list_all (leaf_ok m) ls"
  by (induction ls arbitrary: cs) (auto simp: res_simps dest: check_a7_leaf_Inr)

lemma validate_a7_Inr:
  assumes "validate_a7_certificate c = Inr c'"
  shows "c' = c" "hex_string 64 (ac_transcript_sha256 c)" "hex_string 64 (ac_leaves_sha256 c)" "list_all (leaf_ok (ac_max_depth c)) (ac_leaves c)"
    "check_cover A7LeanCertificateError (map (\<lambda>l. leaf_key (al_edge l) (al_depth l) (al_index l)) (ac_leaves c)) = Inr ()"
proof -
  from assms obtain cs where cs: "map_res (check_a7_leaf (ac_max_depth c)) (ac_leaves c) = Inr cs"
    and cover: "check_cover A7LeanCertificateError (map snd cs) = Inr ()"
    and hex: "hex_string 64 (ac_transcript_sha256 c)" "hex_string 64 (ac_leaves_sha256 c)"
    and c': "c' = \<lparr>ac_transcript_sha256 = ac_transcript_sha256 c, ac_transcript_size = ac_transcript_size c,
        ac_leaves_sha256 = ac_leaves_sha256 c, ac_max_depth = ac_max_depth c, ac_leaves = map fst cs\<rparr>"
    by (auto simp: validate_a7_certificate_def res_simps Let_def)
  note m = map_res_checked [OF cs]
  show "c' = c" using c' m by (cases c) simp
  show "hex_string 64 (ac_transcript_sha256 c)" "hex_string 64 (ac_leaves_sha256 c)" using hex by blast+
  show "list_all (leaf_ok (ac_max_depth c)) (ac_leaves c)"
    "check_cover A7LeanCertificateError (map (\<lambda>l. leaf_key (al_edge l) (al_depth l) (al_index l)) (ac_leaves c)) = Inr ()"
    using m cover by simp_all
qed

section \<open>Records\<close>

text \<open>The seven fields of a record, packed.\<close>

definition pack_leaf :: "wire_leaf \<Rightarrow> bytes" where
  "pack_leaf l = le_bytes 4 (aw_edge l) @ le_bytes 4 (aw_depth l) @ le_bytes 8 (aw_index l) @
     be_bytes 32 (aw_norm_mantissa l) @ le_signed_bytes 4 (aw_norm_exponent l) @
     be_bytes 32 (aw_zeta_mantissa l) @ le_signed_bytes 4 (aw_zeta_exponent l)"

definition leaf_fits :: "wire_leaf \<Rightarrow> bool" where
  "leaf_fits l \<longleftrightarrow> aw_edge l < 256 ^ 4 \<and> aw_depth l < 256 ^ 4 \<and> aw_index l < 256 ^ 8 \<and>
     aw_norm_mantissa l < 256 ^ 32 \<and> aw_zeta_mantissa l < 256 ^ 32 \<and>
     - (256 ^ 4) \<le> 2 * aw_norm_exponent l \<and> 2 * aw_norm_exponent l < 256 ^ 4 \<and>
     - (256 ^ 4) \<le> 2 * aw_zeta_exponent l \<and> 2 * aw_zeta_exponent l < 256 ^ 4"

lemma field_shift: "offset + k + n \<le> length raw \<Longrightarrow> k + n \<le> m \<Longrightarrow> field_at (offset + k) n raw = field_at k n (field_at offset m raw)"
  by (simp add: field_at_def drop_take take_take add.commute min_def)

lemma length_pack_leaf [simp]: "length (pack_leaf l) = 88"
  by (simp add: pack_leaf_def)

lemma unpack_at: "offset + 88 \<le> length raw \<Longrightarrow> unpack_leaf raw offset = unpack_leaf (field_at offset 88 raw) 0"
proof -
  assume len: "offset + 88 \<le> length raw"
  have f: "field_at (offset + k) n raw = field_at k n (field_at offset 88 raw)" if "k + n \<le> 88" for k n
    using len that by (intro field_shift) simp_all
  have "field_at offset 4 raw = field_at 0 4 (field_at offset 88 raw)" using f [of 0 4] by simp
  then show ?thesis
    using f [of 4 4] f [of 8 8] f [of 16 32] f [of 48 4] f [of 52 32] f [of 84 4]
    by (simp add: unpack_leaf_def Let_def WIRE_MANTISSA_BYTES_def add.assoc)
qed

interpretation exponent_field: field_codec 4 "le_signed_bytes 4" le_signed_value "\<lambda>i. - (256 ^ 4) \<le> 2 * i \<and> 2 * i < 256 ^ 4"
  using signed_field.field_codec_axioms [of 3] by (simp add: eval_nat_numeral)

lemma unpack_pack: "leaf_fits l \<Longrightarrow> unpack_leaf (pack_leaf l) 0 = l"
  by (cases l) (simp add: unpack_leaf_def pack_leaf_def leaf_fits_def Let_def WIRE_MANTISSA_BYTES_def field_at_def
    le_field.dec_enc be_field.dec_enc exponent_field.dec_enc)

lemma pack_unpack: "length bs = 88 \<Longrightarrow> pack_leaf (unpack_leaf bs 0) = bs"
proof -
  assume len: "length bs = 88"
  have "bs = field_at 0 4 bs @ field_at 4 4 bs @ field_at 8 8 bs @ field_at 16 32 bs @ field_at 48 4 bs @ field_at 52 32 bs @ field_at 84 4 bs"
    using field_split [of 0 bs 4] field_split [of 4 bs 4] field_split [of 8 bs 8] field_split [of 16 bs 32] field_split [of 48 bs 4]
      field_split [of 52 bs 32] field_split [of 84 bs 4] len by simp
  moreover have "pack_leaf (unpack_leaf bs 0) =
      field_at 0 4 bs @ field_at 4 4 bs @ field_at 8 8 bs @ field_at 16 32 bs @ field_at 48 4 bs @ field_at 52 32 bs @ field_at 84 4 bs"
    using len by (simp add: pack_leaf_def unpack_leaf_def Let_def WIRE_MANTISSA_BYTES_def le_field.written_read be_field.written_read exponent_field.written_read)
  ultimately show ?thesis by simp
qed

lemma decode_leaf_Inr: "decode_leaf raw offset = Inr l \<Longrightarrow> l = unpack_leaf raw offset"
  by (auto simp: decode_leaf_def Let_def split: if_splits)

section \<open>Concatenations\<close>

lemma field_concat:
  "list_all (\<lambda>b. length b = k) bs \<Longrightarrow> i < length bs \<Longrightarrow> field_at (i * k) k (concat bs) = bs ! i"
proof (induction bs arbitrary: i)
  case (Cons b bs)
  then show ?case by (cases i) (auto simp: field_at_def)
qed simp

lemma length_concat_fields: "list_all (\<lambda>b. length b = k) bs \<Longrightarrow> length (concat bs) = length bs * k"
  by (induction bs) auto

lemma concat_fields:
  "length xs = n * k \<Longrightarrow> concat (map (\<lambda>i. field_at (i * k) k xs) [0..<n]) = xs"
proof (induction n arbitrary: xs)
  case (Suc n)
  have "map (\<lambda>i. field_at (i * k) k xs) [0..<Suc n] = take k xs # map (\<lambda>i. field_at (i * k) k (drop k xs)) [0..<n]"
    by (simp add: upt_conv_Cons map_Suc_upt [symmetric] field_at_def add.commute del: upt_Suc)
  with Suc.IH [of "drop k xs"] Suc.prems show ?case by (simp del: upt_Suc)
qed simp

end
