(* ===== verification/A7Wire_Claims.thy ===== *)
theory A7Wire_Claims
  imports A7Wire_Facts
begin

text \<open>
  The properties of the boundary wire: the decoder inverts the encoder, an accepted wire covers its four
  edges exactly within the stored bounds, and a wire is determined by what it decodes to.
\<close>

section \<open>The header\<close>

lemma length_WIRE_MAGIC [simp]: "length WIRE_MAGIC = 8"
  by (simp add: WIRE_MAGIC_def bytes_lit_def)

lemmas wire_const = WIRE_VERSION_def WIRE_HEADER_BYTES_def WIRE_RECORD_BYTES_def WIRE_MAX_LEAVES_def WIRE_MAX_DEPTH_def
  WIRE_MAX_TRANSCRIPT_BYTES_def

lemma length_pack_header:
  "length t = 32 \<Longrightarrow> length l = 32 \<Longrightarrow> length p = 32 \<Longrightarrow> length (pack_header m n s t l p) = 144"
  by (simp add: pack_header_def)

lemma header_fields:
  assumes "length t = 32" "length l = 32" "length p = 32" "m < 256 ^ 4" "n < 256 ^ 4" "s < 256 ^ 8"
    and raw: "raw = pack_header m n s t l p @ payload"
  shows "field_at 0 8 raw = WIRE_MAGIC" "le_value (field_at 8 4 raw) = WIRE_VERSION" "le_value (field_at 12 4 raw) = WIRE_HEADER_BYTES"
    "le_value (field_at 16 4 raw) = WIRE_RECORD_BYTES" "le_value (field_at 20 4 raw) = 0" "le_value (field_at 24 4 raw) = m"
    "le_value (field_at 28 4 raw) = n" "le_value (field_at 32 8 raw) = s" "field_at 40 32 raw = t" "field_at 72 32 raw = l"
    "field_at 104 32 raw = p" "le_value (field_at 136 8 raw) = 0" "drop 144 raw = payload"
  unfolding raw using assms(1-6) by (simp_all add: pack_header_def field_at_def le_field.dec_enc wire_const)

lemma header_join:
  assumes "144 \<le> length raw"
  shows "raw = field_at 0 8 raw @ field_at 8 4 raw @ field_at 12 4 raw @ field_at 16 4 raw @ field_at 20 4 raw @ field_at 24 4 raw @
    field_at 28 4 raw @ field_at 32 8 raw @ field_at 40 32 raw @ field_at 72 32 raw @ field_at 104 32 raw @ field_at 136 8 raw @ drop 144 raw"
  using field_split [of 0 raw 8] field_split [of 8 raw 4] field_split [of 12 raw 4] field_split [of 16 raw 4] field_split [of 20 raw 4]
    field_split [of 24 raw 4] field_split [of 28 raw 4] field_split [of 32 raw 8] field_split [of 40 raw 32] field_split [of 72 raw 32]
    field_split [of 104 raw 32] field_split [of 136 raw 8] by simp

section \<open>What an accepted wire is\<close>

lemma decode_a7_Inr:
  assumes "decode_a7_boundary_wire raw r = Inr w"
  shows "length raw = 144 + length (bw_leaves w) * 88"
    "raw = pack_header (bw_max_depth w) (length (bw_leaves w)) (bw_transcript_size w) (field_at 40 32 raw) (field_at 72 32 raw) (field_at 104 32 raw) @
       concat (map pack_leaf (bw_leaves w))"
    "bw_transcript_sha256 w = bytes_hex (field_at 40 32 raw)" "bw_leaves_sha256 w = bytes_hex (field_at 72 32 raw)"
    "sha256_hex (drop 144 raw) = bytes_hex (field_at 104 32 raw)"
    "\<forall>i < length (bw_leaves w). decode_leaf raw (144 + i * 88) = Inr (bw_leaves w ! i)"
    "list_all (\<lambda>l. aw_depth l \<le> bw_max_depth w) (bw_leaves w)" "wire_cover (bw_leaves w) = Inr ()"
proof -
  define n where "n = le_value (field_at 28 4 raw)"
  note dec = assms [unfolded decode_a7_boundary_wire_def Let_def wire_const, simplified, folded n_def]
  have len: "length raw = 144 + n * 88" using dec by (auto split: if_splits)
  have magic: "field_at 0 8 raw = WIRE_MAGIC" "le_value (field_at 8 4 raw) = 1" "le_value (field_at 12 4 raw) = 144"
      "le_value (field_at 16 4 raw) = 88" "le_value (field_at 20 4 raw) = 0" "le_value (field_at 136 8 raw) = 0"
    using dec by (auto split: if_splits)
  have dig: "sha256_hex (drop 144 raw) = bytes_hex (field_at 104 32 raw)" using dec by (auto split: if_splits)
  obtain ls where ls: "map_res (\<lambda>i. decode_leaf raw (144 + i * 88)) [0..<n] = Inr ls" "list_all (\<lambda>l. aw_depth l \<le> le_value (field_at 24 4 raw)) ls"
      "wire_cover ls = Inr ()"
    and w: "w = \<lparr>bw_max_depth = le_value (field_at 24 4 raw), bw_transcript_size = le_value (field_at 32 8 raw),
      bw_transcript_sha256 = bytes_hex (field_at 40 32 raw), bw_leaves_sha256 = bytes_hex (field_at 72 32 raw),
      bw_payload_sha256 = sha256_hex (drop 144 raw), bw_wire_sha256 = sha256_hex raw, bw_leaves = ls\<rparr>"
    using dec by (auto simp: res_simps list_ex_iff list_all_iff not_less split: if_splits)
  have lls: "length ls = n" using map_res_length [OF ls(1)] by simp
  have nth: "decode_leaf raw (144 + i * 88) = Inr (ls ! i)" if "i < n" for i
    using map_res_nth [OF ls(1), of i] that by simp
  have rec: "pack_leaf (ls ! i) = field_at (i * 88) 88 (drop 144 raw)" if "i < n" for i
  proof -
    have "144 + i * 88 + 88 \<le> length raw" using len that mult_le_mono1 [of "Suc i" n 88] by simp
    moreover from this have "ls ! i = unpack_leaf (field_at (144 + i * 88) 88 raw) 0"
      using decode_leaf_Inr [OF nth [OF that]] unpack_at by simp
    ultimately have "pack_leaf (ls ! i) = field_at (144 + i * 88) 88 raw" by (simp add: pack_unpack)
    then show ?thesis by (simp add: field_at_def add.commute)
  qed
  have "map pack_leaf ls = map (\<lambda>i. field_at (i * 88) 88 (drop 144 raw)) [0..<n]"
    using lls rec by (intro nth_equalityI) simp_all
  then have payload: "concat (map pack_leaf ls) = drop 144 raw" using concat_fields [of "drop 144 raw" n 88] len by simp
  have wb4: "le_bytes 4 (le_value (field_at k 4 raw)) = field_at k 4 raw" if "k + 4 \<le> 144" for k
    using that len by (intro le_field.written_read) simp
  have wb8: "le_bytes 8 (le_value (field_at k 8 raw)) = field_at k 8 raw" if "k + 8 \<le> 144" for k
    using that len by (intro le_field.written_read) simp
  have "pack_header (le_value (field_at 24 4 raw)) n (le_value (field_at 32 8 raw)) (field_at 40 32 raw) (field_at 72 32 raw) (field_at 104 32 raw) =
      field_at 0 8 raw @ field_at 8 4 raw @ field_at 12 4 raw @ field_at 16 4 raw @ field_at 20 4 raw @ field_at 24 4 raw @
      field_at 28 4 raw @ field_at 32 8 raw @ field_at 40 32 raw @ field_at 72 32 raw @ field_at 104 32 raw @ field_at 136 8 raw"
    unfolding pack_header_def wire_const n_def
    using wb4 [of 8] wb4 [of 12] wb4 [of 16] wb4 [of 20] wb4 [of 24] wb4 [of 28] wb8 [of 32] wb8 [of 136] magic by simp
  then have "pack_header (le_value (field_at 24 4 raw)) n (le_value (field_at 32 8 raw)) (field_at 40 32 raw) (field_at 72 32 raw) (field_at 104 32 raw) @
      concat (map pack_leaf ls) = raw"
    using header_join [of raw] len payload by simp
  then show "raw = pack_header (bw_max_depth w) (length (bw_leaves w)) (bw_transcript_size w) (field_at 40 32 raw) (field_at 72 32 raw) (field_at 104 32 raw) @
       concat (map pack_leaf (bw_leaves w))" by (simp add: w lls)
  show "length raw = 144 + length (bw_leaves w) * 88" using len lls by (simp add: w)
  show "\<forall>i < length (bw_leaves w). decode_leaf raw (144 + i * 88) = Inr (bw_leaves w ! i)" using nth lls by (simp add: w)
  show "list_all (\<lambda>l. aw_depth l \<le> bw_max_depth w) (bw_leaves w)" "wire_cover (bw_leaves w) = Inr ()"
    "bw_transcript_sha256 w = bytes_hex (field_at 40 32 raw)" "bw_leaves_sha256 w = bytes_hex (field_at 72 32 raw)"
    "sha256_hex (drop 144 raw) = bytes_hex (field_at 104 32 raw)"
    using ls dig by (simp_all add: w)
qed

section \<open>Encoding, then decoding\<close>

text \<open>The seven fields of a certified leaf as the wire holds them.\<close>

definition wire_of_leaf :: "a7_leaf \<Rightarrow> wire_leaf" where
  "wire_of_leaf l = \<lparr>aw_edge = nat (al_edge l), aw_depth = nat (al_depth l), aw_index = nat (al_index l),
     aw_norm_mantissa = nat (ed_mantissa (al_norm l)), aw_norm_exponent = ed_exponent (al_norm l),
     aw_zeta_mantissa = nat (ed_mantissa (al_zeta l)), aw_zeta_exponent = ed_exponent (al_zeta l)\<rparr>"

lemma encode_leaf_Inr:
  assumes "encode_leaf l = Inr b" "leaf_ok max_depth l" "max_depth \<le> 64"
  shows "b = pack_leaf (wire_of_leaf l)" "leaf_fits (wire_of_leaf l)" "field_at offset 88 raw = b \<Longrightarrow> offset + 88 \<le> length raw \<Longrightarrow> decode_leaf raw offset = Inr (wire_of_leaf l)"
proof -
  have e: "b = pack_leaf (wire_of_leaf l)" "al_index l < 2 ^ 64" "ed_mantissa (al_norm l) < 2 ^ 256" "ed_mantissa (al_zeta l) < 2 ^ 256"
      "exponent_in_range (ed_exponent (al_norm l))" "exponent_in_range (ed_exponent (al_zeta l))"
    using assms(1) by (auto simp: encode_leaf_def mantissa_bytes_def res_simps pack_leaf_def wire_of_leaf_def WIRE_MANTISSA_BYTES_def push_bit_eq_mult
        simp del: power_numeral)
  note ok = assms(2) [unfolded leaf_ok_def]
  have nat_less: "nat x < m" if "0 \<le> x" "x < int m" for x m using that by (simp add: nat_less_iff)
  show b: "b = pack_leaf (wire_of_leaf l)" by (rule e(1))
  show fits: "leaf_fits (wire_of_leaf l)"
    using ok e assms(3) by (simp add: leaf_fits_def wire_of_leaf_def nat_less_iff exponent_in_range_def WIRE_MAX_ABS_EXPONENT_def)
  have index: "nat (al_index l) < 2 ^ nat (al_depth l)" using ok by (intro nat_less) simp_all
  assume "field_at offset 88 raw = b" "offset + 88 \<le> length raw"
  then have "unpack_leaf raw offset = wire_of_leaf l" using unpack_at unpack_pack [OF fits] b by simp
  then show "decode_leaf raw offset = Inr (wire_of_leaf l)"
    using ok e(5,6) assms(3) index
    by (simp add: decode_leaf_def Let_def wire_of_leaf_def wl_norm_def wl_zeta_def WIRE_MAX_DEPTH_def push_bit_eq_mult nat_less_iff not_le not_less)
qed

lemma wire_key:
  "leaf_ok m l \<Longrightarrow> (int (aw_edge (wire_of_leaf l)), wl_lower (wire_of_leaf l), wl_upper (wire_of_leaf l)) = leaf_key (al_edge l) (al_depth l) (al_index l)"
  by (simp add: leaf_ok_def wire_of_leaf_def wl_lower_def wl_upper_def leaf_key_def Let_def push_bit_eq_mult)

lemma digest_bytes_Inr:
  assumes "digest_bytes v = Inr raw" "hex_string 64 v"
  shows "length raw = 32" "bytes_hex raw = v"
proof -
  obtain r where "fromhex v = Inr r" "length r = 32" "bytes_hex r = v" using fromhex_hex [of 32 v] assms(2) by auto
  then show "length raw = 32" "bytes_hex raw = v" using assms(1) by (auto simp: digest_bytes_def split: if_splits)
qed

lemma decode_encoded:
  assumes "encode_a7_boundary_wire c = Inr raw"
  shows "\<exists>w. decode_a7_boundary_wire raw False = Inr w \<and> int (bw_max_depth w) = ac_max_depth c \<and>
    int (bw_transcript_size w) = ac_transcript_size c \<and> bw_transcript_sha256 w = ac_transcript_sha256 c \<and>
    bw_leaves_sha256 w = ac_leaves_sha256 c \<and> bw_leaves w = map wire_of_leaf (ac_leaves c)"
proof -
  obtain c' where c': "validate_a7_certificate c = Inr c'" using assms by (auto simp: encode_a7_boundary_wire_def res_simps)
  note v = validate_a7_Inr [OF c']
  obtain records t l where records: "map_res encode_leaf (ac_leaves c) = Inr records"
    and t: "digest_bytes (ac_transcript_sha256 c) = Inr t" and l: "digest_bytes (ac_leaves_sha256 c) = Inr l"
    and raw: "raw = pack_header (nat (ac_max_depth c)) (length (ac_leaves c)) (nat (ac_transcript_size c)) t l (sha256_digest (concat records)) @ concat records"
    and b: "4 \<le> length (ac_leaves c)" "length (ac_leaves c) \<le> 2000000" "0 \<le> ac_max_depth c" "ac_max_depth c \<le> 64"
      "0 < ac_transcript_size c" "ac_transcript_size c \<le> 64 * 1024 * 1024"
    using assms c' v(1) by (auto simp: encode_a7_boundary_wire_def res_simps Let_def wire_const)
  note t' = digest_bytes_Inr [OF t v(2)] and l' = digest_bytes_Inr [OF l v(3)]
  have len: "length records = length (ac_leaves c)" using map_res_length [OF records] by simp
  have ok: "leaf_ok (ac_max_depth c) (ac_leaves c ! i)" if "i < length (ac_leaves c)" for i
    using v(4) that by (simp add: list_all_length)
  note enc = encode_leaf_Inr [OF map_res_nth [OF records] ok b(4)]
  have records_len: "list_all (\<lambda>b. length b = 88) records"
    using len enc(1) by (simp add: list_all_length)
  then have rlen: "length raw = 144 + length (ac_leaves c) * 88"
    using len length_concat_fields [OF records_len] by (simp add: raw length_pack_header t' l')
  have header: "field_at 0 8 raw = WIRE_MAGIC" "le_value (field_at 8 4 raw) = WIRE_VERSION" "le_value (field_at 12 4 raw) = WIRE_HEADER_BYTES"
    "le_value (field_at 16 4 raw) = WIRE_RECORD_BYTES" "le_value (field_at 20 4 raw) = 0" "le_value (field_at 24 4 raw) = nat (ac_max_depth c)"
    "le_value (field_at 28 4 raw) = length (ac_leaves c)" "le_value (field_at 32 8 raw) = nat (ac_transcript_size c)" "field_at 40 32 raw = t" "field_at 72 32 raw = l"
    "field_at 104 32 raw = sha256_digest (concat records)" "le_value (field_at 136 8 raw) = 0" "drop 144 raw = concat records"
    using b t'(1) l'(1) by (intro header_fields [OF _ _ _ _ _ _ raw]; simp add: nat_less_iff)+
  have leaf: "decode_leaf raw (144 + i * 88) = Inr (wire_of_leaf (ac_leaves c ! i))" if i: "i < length (ac_leaves c)" for i
  proof -
    have "field_at (144 + i * 88) 88 raw = field_at (i * 88) 88 (drop 144 raw)" by (simp add: field_at_def add.commute)
    also have "... = records ! i" using field_concat [OF records_len] len i by (simp add: header(13))
    finally show ?thesis using enc(3) [OF i] i rlen mult_le_mono1 [of "Suc i" "length (ac_leaves c)" 88] by simp
  qed
  have leaves: "map_res (\<lambda>i. decode_leaf raw (144 + i * 88)) [0..<length (ac_leaves c)] = Inr (map wire_of_leaf (ac_leaves c))"
    using leaf by (simp add: map_res_Inr_iff list_all2_conv_all_nth)
  have keys: "map (\<lambda>l. (int (aw_edge l), wl_lower l, wl_upper l)) (map wire_of_leaf (ac_leaves c)) = map (\<lambda>l. leaf_key (al_edge l) (al_depth l) (al_index l)) (ac_leaves c)"
    using v(4) wire_key by (auto simp: list_all_iff)
  have cover: "wire_cover (map wire_of_leaf (ac_leaves c)) = Inr ()"
    unfolding wire_cover_def keys by (rule cover_error [OF v(5)])
  have deep: "\<not> list_ex (\<lambda>leaf. aw_depth leaf > nat (ac_max_depth c)) (map wire_of_leaf (ac_leaves c))"
    using v(4) by (auto simp: list_all_iff list_ex_iff leaf_ok_def wire_of_leaf_def)
  have "decode_a7_boundary_wire raw False = Inr \<lparr>bw_max_depth = nat (ac_max_depth c), bw_transcript_size = nat (ac_transcript_size c),
      bw_transcript_sha256 = bytes_hex t, bw_leaves_sha256 = bytes_hex l, bw_payload_sha256 = sha256_hex (concat records),
      bw_wire_sha256 = sha256_hex raw, bw_leaves = map wire_of_leaf (ac_leaves c)\<rparr>"
    unfolding decode_a7_boundary_wire_def Let_def header
    using b rlen leaves cover deep by (simp add: wire_const header(13) digest_hex)
  then show ?thesis using b t'(2) l'(2) by simp
qed

section \<open>An example\<close>

text \<open>One leaf on each edge, with both bounds one.\<close>

definition unit_leaf :: "int \<Rightarrow> a7_leaf" where
  "unit_leaf e = (let one = \<lparr>ed_encoded = lit ''AQ'', ed_mantissa = 1, ed_exponent = 0, ed_value = 1\<rparr>
     in \<lparr>al_edge = e, al_depth = 0, al_index = 0, al_norm = one, al_zeta = one\<rparr>)"

definition unit_certificate :: a7_certificate where
  "unit_certificate = (let leaves = map unit_leaf [0, 1, 2, 3]
     in \<lparr>ac_transcript_sha256 = sha256_hex [], ac_transcript_size = 1,
         ac_leaves_sha256 = sha256_hex (a7_json_bytes (PList (map raw_a7_leaf leaves))), ac_max_depth = 0, ac_leaves = leaves\<rparr>)"

lemma unit_mantissa: "decode_mantissa (lit ''AQ'') = Inr (lit ''AQ'', 1)"
proof -
  have s: "lit ''AQ'' = [65, 81]" by (simp add: lit_def)
  have "base64_decode [65, 81] = Some (be_bytes 1 1)"
    by (simp add: base64_decode_def base64_value_def base64_digit_def drop_bit_eq_div)
  moreover have "be_bytes 1 1 = [1]" by (simp only: One_nat_def be_bytes.simps) simp
  moreover have "base64_digits 2 16 = [65, 81]" by (simp add: numeral_2_eq_2 base64_char_def)
  then have "base64_encode [1] = [65, 81]" by (simp add: base64_encode_def be_value_def push_bit_eq_mult)
  moreover have "bit_length 1 \<le> A7_MAX_DYADIC_BITS"
    by (simp add: bit_length.simps [of "Suc 0"] bit_length.simps [of 0] A7_MAX_DYADIC_BITS_def)
  ultimately show ?thesis by (simp add: s decode_mantissa_def base64_digit_def be_value_def)
qed

lemma unit_checked: "e \<in> {0, 1, 2, 3} \<Longrightarrow> check_a7_leaf 0 (unit_leaf e) = Inr (unit_leaf e, (e, 0, 1))"
  by (auto simp: check_a7_leaf_def unit_leaf_def Let_def a7_exact_int_def A7_EDGE_COUNT_def validate_dyadic_def decode_dyadic_def unit_mantissa
    A7_MAX_DYADIC_EXPONENT_def dyadic_value_def A7_TARGET_SQ_def leaf_key_def)

lemma digest_bytes_sha: "digest_bytes (sha256_hex m) = Inr (sha256_digest m)"
proof -
  obtain r where r: "fromhex (sha256_hex m) = Inr r" "length r = 32" "bytes_hex r = sha256_hex m"
    using fromhex_hex [of 32 "sha256_hex m"] by auto
  then have "r = sha256_digest m" by (intro bytes_hex_inj) (simp_all add: digest_hex)
  with r show ?thesis by (simp add: digest_bytes_def)
qed

lemma unit_encoded: "\<exists>raw. encode_a7_boundary_wire unit_certificate = Inr raw"
proof -
  have "validate_a7_certificate unit_certificate = Inr unit_certificate"
    by (simp add: validate_a7_certificate_def unit_certificate_def Let_def a7_exact_int_def A7_MAX_TRANSCRIPT_BYTES_def A7_MAX_DEPTH_def
      A7_MAX_LEAVES_def unit_checked check_cover_def)
  moreover have "\<exists>b. encode_leaf (unit_leaf e) = Inr b" if "e \<in> {0, 1, 2, 3}" for e
    using that by (auto simp: encode_leaf_def unit_leaf_def Let_def exponent_in_range_def WIRE_MAX_ABS_EXPONENT_def WIRE_MAX_DEPTH_def mantissa_bytes_def)
  then obtain b0 b1 b2 b3 where "encode_leaf (unit_leaf 0) = Inr b0" "encode_leaf (unit_leaf 1) = Inr b1"
    "encode_leaf (unit_leaf 2) = Inr b2" "encode_leaf (unit_leaf 3) = Inr b3" by (metis insertCI)
  ultimately show ?thesis
    by (simp add: encode_a7_boundary_wire_def) (simp add: unit_certificate_def Let_def wire_const digest_bytes_sha)
qed

section \<open>Properties\<close>

text \<open>C31:
  The wire is lossless.  Whatever certificate the encoder accepts, the independent decoder accepts the
  bytes, and returns the depth, size, digests and, leaf by leaf, the seven fields of the certificate.
\<close>

theorem a7_wire_roundtrip:
  assumes "encode_a7_boundary_wire c = Inr raw"
  shows "\<exists>w. decode_a7_boundary_wire raw False = Inr w \<and> int (bw_max_depth w) = ac_max_depth c \<and>
    int (bw_transcript_size w) = ac_transcript_size c \<and> bw_transcript_sha256 w = ac_transcript_sha256 c \<and>
    bw_leaves_sha256 w = ac_leaves_sha256 c \<and> bw_leaves w = map wire_of_leaf (ac_leaves c)"
  by (rule decode_encoded [OF assms])

lemma a7_wire_roundtrip_witness:
  "\<exists>raw w. encode_a7_boundary_wire unit_certificate = Inr raw \<and> decode_a7_boundary_wire raw False = Inr w \<and>
     bw_leaves w = map wire_of_leaf (ac_leaves unit_certificate)"
  using unit_encoded a7_wire_roundtrip by blast

text \<open>C18:
  What an accepted wire says.  Every real point of each of the four edges lies in exactly one leaf of that
  edge, and every leaf has positive stored bounds, its norm below the strict source bound, and a depth
  within the declared one.
\<close>

theorem a7_wire_cover:
  assumes "decode_a7_boundary_wire raw retained = Inr w" "e < 4" "0 \<le> t" "t < 1"
  shows "length (filter (\<lambda>l. aw_edge l = e \<and> real_of_rat (wl_lower l) \<le> t \<and> t < real_of_rat (wl_upper l)) (bw_leaves w)) = 1 \<and>
    list_all (\<lambda>l. aw_edge l < 4 \<and> aw_depth l \<le> bw_max_depth w \<and> 0 < wl_norm l \<and> wl_norm l < A7_TARGET_SQ \<and> 0 < wl_zeta l) (bw_leaves w)"
proof -
  note w = decode_a7_Inr [OF assms(1)]
  have leaf: "aw_edge l < 4 \<and> 0 < wl_norm l \<and> wl_norm l < A7_TARGET_SQ \<and> 0 < wl_zeta l" if "l \<in> set (bw_leaves w)" for l
  proof -
    from that obtain i where "i < length (bw_leaves w)" "l = bw_leaves w ! i" by (metis in_set_conv_nth)
    with w(6) have "decode_leaf raw (144 + i * 88) = Inr l" by blast
    then show ?thesis by (auto simp: decode_leaf_def Let_def not_le not_less split: if_splits)
  qed
  let ?key = "\<lambda>l. (int (aw_edge l), wl_lower l, wl_upper l)"
  have "list_all (\<lambda>(_, l, u). l < u) (map ?key (bw_leaves w))"
    by (simp add: list_all_iff wl_lower_def wl_upper_def divide_strict_right_mono push_bit_eq_mult)
  moreover have "check_cover A7BoundaryWireError (map ?key (bw_leaves w)) = Inr ()" using w(8) by (simp only: wire_cover_def)
  moreover have "int e \<in> {0, 1, 2, 3}" using assms(2) by auto
  ultimately have one: "length (filter (\<lambda>(k, l, u). k = int e \<and> real_of_rat l \<le> t \<and> t < real_of_rat u) (map ?key (bw_leaves w))) = 1"
    using check_cover_exact assms(3,4) by blast
  have keys: "filter (\<lambda>(k, l, u). k = int e \<and> real_of_rat l \<le> t \<and> t < real_of_rat u) (map ?key (bw_leaves w)) =
      map ?key (filter (\<lambda>l. aw_edge l = e \<and> real_of_rat (wl_lower l) \<le> t \<and> t < real_of_rat (wl_upper l)) (bw_leaves w))"
    by (simp add: filter_map comp_def)
  show ?thesis using one [unfolded keys length_map] leaf w(7) by (auto simp: list_all_iff)
qed

lemma a7_wire_cover_witness:
  "\<exists>raw w. decode_a7_boundary_wire raw False = Inr w \<and>
     length (filter (\<lambda>l. aw_edge l = 2 \<and> real_of_rat (wl_lower l) \<le> 1 / 2 \<and> 1 / 2 < real_of_rat (wl_upper l)) (bw_leaves w)) = 1"
proof -
  obtain raw w where w: "decode_a7_boundary_wire raw False = Inr w" using unit_encoded decode_encoded by blast
  show ?thesis using a7_wire_cover [OF w, of 2 "1 / 2"] w by auto
qed

text \<open>
  The wire has one form.  Two accepted byte strings that decode to the same depth, size, digests of the
  transcript and of its leaves, and leaves are the same bytes: no field of the format is ignored.
\<close>

theorem a7_wire_canonical:
  assumes "decode_a7_boundary_wire raw retained = Inr w" "decode_a7_boundary_wire raw' retained' = Inr w'"
    "bw_max_depth w = bw_max_depth w'" "bw_transcript_size w = bw_transcript_size w'" "bw_transcript_sha256 w = bw_transcript_sha256 w'"
    "bw_leaves_sha256 w = bw_leaves_sha256 w'" "bw_leaves w = bw_leaves w'"
  shows "raw = raw'"
proof -
  note d = decode_a7_Inr [OF assms(1)] and d' = decode_a7_Inr [OF assms(2)]
  have len: "length (field_at k 32 raw) = 32" "length (field_at k 32 raw') = 32" if "k + 32 \<le> 144" for k
    using that d(1) d'(1) by simp_all
  have eq: "field_at 40 32 raw = field_at 40 32 raw'" "field_at 72 32 raw = field_at 72 32 raw'"
    using d(3,4) d'(3,4) assms(5,6) len by (intro bytes_hex_inj; simp)+
  have "drop 144 raw = concat (map pack_leaf (bw_leaves w))" "drop 144 raw' = concat (map pack_leaf (bw_leaves w'))"
    using d(1) d'(1) by (subst d(2) d'(2), simp add: length_pack_header)+
  then have "field_at 104 32 raw = field_at 104 32 raw'"
    using d(5) d'(5) assms(7) len by (intro bytes_hex_inj; simp)
  with eq assms(3,4,7) d(2) d'(2) show ?thesis by metis
qed

lemma a7_wire_canonical_witness:
  "\<exists>raw w. decode_a7_boundary_wire raw False = Inr w \<and> (\<forall>raw'. decode_a7_boundary_wire raw' False \<noteq> Inr w \<or> raw' = raw)"
proof -
  obtain raw w where w: "decode_a7_boundary_wire raw False = Inr w" using unit_encoded decode_encoded by blast
  then show ?thesis using a7_wire_canonical [OF w] by metis
qed

end
