(* ===== verification/EventStream.thy ===== *)
theory EventStream
  imports StructCodec
begin

text \<open>
  Model of \<open>tg_verifier/platt_pt21_event_record.py\<close>: the 192-byte header, records and footer of an event
  stream, and the verifier of a whole stream.  The file is its bytes: opening it without following links
  and comparing its size before and after are not modelled.
\<close>

definition EV_VERSION :: nat where "EV_VERSION = 1"
definition FINITE_EVENT_STAGE_FLAG :: nat where "FINITE_EVENT_STAGE_FLAG = 1"
definition SOURCE_BLOCK_COUNT :: nat where "SOURCE_BLOCK_COUNT = 2966443783"
definition REQUIRED_SAMPLE_COUNT :: nat where "REQUIRED_SAMPLE_COUNT = 25741"
definition REQUIRED_LOWER :: int where "REQUIRED_LOWER = - 12870"
definition REQUIRED_UPPER :: int where "REQUIRED_UPPER = 12870"
definition LATTICE_NUMERATOR :: int where "LATTICE_NUMERATOR = 21"
definition LATTICE_DENOMINATOR :: int where "LATTICE_DENOMINATOR = 512"
definition STREAM_LOWER :: "int list" where "STREAM_LOWER = [- 12800, - 12288, 12288]"
definition STREAM_UPPER :: "int list" where "STREAM_UPPER = [- 12288, 12288, 12800]"
definition DIRECT_CAPACITIES :: "nat list" where "DIRECT_CAPACITIES = [512, 24576, 512]"
definition STATIONARY_CAPACITIES :: "nat list" where "STATIONARY_CAPACITIES = [510, 24574, 510]"
definition EDGE_COUNTS :: "nat list" where "EDGE_COUNTS = [512, 24576, 512]"
definition UPSTREAM_COMMIT :: bytes where "UPSTREAM_COMMIT = bytes_lit ''42b21426718e542daa2b006dc05ea2d7f26426e6''"

definition HEADER_MAGIC :: bytes where "HEADER_MAGIC = bytes_lit ''PT21EVH1''"
definition RECORD_MAGIC :: bytes where "RECORD_MAGIC = bytes_lit ''PT21EVT1''"
definition FOOTER_MAGIC :: bytes where "FOOTER_MAGIC = bytes_lit ''PT21EVF1''"
definition CONTRACT_DOMAIN :: bytes where "CONTRACT_DOMAIN = bytes_lit ''sparkinterval/tg/platt-pt21-event-contract/v1'' @ [0]"
definition HEADER_DOMAIN :: bytes where "HEADER_DOMAIN = bytes_lit ''sparkinterval/tg/platt-pt21-event-stream-header/v1'' @ [0]"
definition RECORD_DOMAIN :: bytes where "RECORD_DOMAIN = bytes_lit ''sparkinterval/tg/platt-pt21-event-record/v1'' @ [0]"
definition FOOTER_DOMAIN :: bytes where "FOOTER_DOMAIN = bytes_lit ''sparkinterval/tg/platt-pt21-event-stream-footer/v1'' @ [0]"

text \<open>All three structures have 192 bytes, the last 32 of which are the digest of the others.\<close>

definition EV_SIZE :: nat where "EV_SIZE = 192"
definition EV_DIGEST_OFFSET :: nat where "EV_DIGEST_OFFSET = 160"

definition contract_sha256 :: bytes where
  "contract_sha256 = sha256_digest (CONTRACT_DOMAIN @ le_bytes 4 REQUIRED_SAMPLE_COUNT @
     concat (map (le_signed_bytes 4) [REQUIRED_LOWER, REQUIRED_UPPER, LATTICE_NUMERATOR, LATTICE_DENOMINATOR,
       STREAM_LOWER ! 0, STREAM_UPPER ! 0, STREAM_LOWER ! 1, STREAM_UPPER ! 1, STREAM_LOWER ! 2, STREAM_UPPER ! 2]) @
     concat (map (le_bytes 4) (DIRECT_CAPACITIES @ STATIONARY_CAPACITIES)) @ UPSTREAM_COMMIT)"

section \<open>Checks\<close>

definition ev_sha256_hex :: "pystr \<Rightarrow> pystr res" where
  "ev_sha256_hex value = (if hex_string 64 value then Inr value else Inl PT21EventRecordError)"

definition ev_nonzero :: "bytes \<Rightarrow> unit res" where
  "ev_nonzero raw = (if raw = replicate 32 0 then Inl PT21EventRecordError else Inr ())"

definition ev_geometry :: "nat \<Rightarrow> nat \<Rightarrow> unit res" where
  "ev_geometry first_block block_count =
     (if block_count < 1 \<or> first_block \<ge> SOURCE_BLOCK_COUNT \<or> block_count > SOURCE_BLOCK_COUNT - first_block
      then Inl PT21EventRecordError else Inr ())"

text \<open>\<open>_read_exact\<close> on the bytes that are left: the bytes read and the rest.\<close>

definition read_exact :: "bytes \<Rightarrow> nat \<Rightarrow> (bytes \<times> bytes) res" where
  "read_exact stream n = (if length stream < n then Inl PT21EventRecordError else Inr (take n stream, drop n stream))"

definition expected_identity :: "pystr option \<Rightarrow> bytes \<Rightarrow> unit res" where
  "expected_identity expected actual =
     (case expected of
        None \<Rightarrow> Inr ()
      | Some e \<Rightarrow> ebind (ev_sha256_hex e) (\<lambda>e. if bytes_hex actual \<noteq> e then Inl PT21EventRecordError else Inr ()))"

section \<open>The header\<close>

record event_header =
  eh_first_block :: nat
  eh_block_count :: nat
  eh_gamma :: pystr
  eh_producer :: pystr
  eh_contract :: pystr
  eh_sha256 :: pystr

definition parse_header :: "bytes \<Rightarrow> pystr option \<Rightarrow> pystr option \<Rightarrow> event_header res" where
  "parse_header raw expected_gamma expected_producer =
     (if length raw \<noteq> EV_SIZE then Inl PT21EventRecordError
      else
        let magic = field_at 0 8 raw; version = le_value (field_at 8 4 raw); header_bytes = le_value (field_at 12 4 raw);
            record_bytes = le_value (field_at 16 4 raw); flags = le_value (field_at 20 4 raw);
            first_block = le_value (field_at 24 8 raw); block_count = le_value (field_at 32 8 raw);
            gamma = field_at 40 32 raw; producer = field_at 72 32 raw; contract = field_at 104 32 raw;
            reserved = field_at 136 24 raw; digest = field_at 160 32 raw
        in if magic \<noteq> HEADER_MAGIC \<or> version \<noteq> EV_VERSION \<or> header_bytes \<noteq> EV_SIZE \<or> record_bytes \<noteq> EV_SIZE \<or>
              flags \<noteq> FINITE_EVENT_STAGE_FLAG \<or> reserved \<noteq> replicate 24 0 then Inl PT21EventRecordError
           else ebind (ev_geometry first_block block_count) (\<lambda>_. ebind (ev_nonzero gamma) (\<lambda>_. ebind (ev_nonzero producer) (\<lambda>_.
             if contract \<noteq> contract_sha256 then Inl PT21EventRecordError
             else if digest \<noteq> sha256_digest (HEADER_DOMAIN @ take EV_DIGEST_OFFSET raw) then Inl PT21EventRecordError
             else ebind (expected_identity expected_gamma gamma) (\<lambda>_. ebind (expected_identity expected_producer producer) (\<lambda>_.
               Inr \<lparr>eh_first_block = first_block, eh_block_count = block_count, eh_gamma = bytes_hex gamma,
                 eh_producer = bytes_hex producer, eh_contract = bytes_hex contract, eh_sha256 = bytes_hex digest\<rparr>))))))"

section \<open>A record\<close>

record event_record =
  ev_block :: nat
  ev_direct :: "nat list"
  ev_stationary :: "nat list"
  ev_slots :: "nat list"
  ev_unresolved :: nat
  ev_nleft :: "int list"
  ev_nright :: "int list"
  ev_artifact :: pystr
  ev_sha256 :: pystr

definition u32_fields :: "nat \<Rightarrow> bytes \<Rightarrow> nat list" where
  "u32_fields offset raw = map (\<lambda>k. le_value (field_at (offset + 4 * k) 4 raw)) [0..<3]"

definition i64_fields :: "nat \<Rightarrow> bytes \<Rightarrow> int list" where
  "i64_fields offset raw = map (\<lambda>k. le_signed_value (field_at (offset + 8 * k) 8 raw)) [0..<3]"

text \<open>The loop over the three streams.\<close>

fun check_streams :: "nat list \<Rightarrow> nat list \<Rightarrow> nat list \<Rightarrow> int list \<Rightarrow> int list \<Rightarrow> nat list \<Rightarrow> unit res" where
  "check_streams direct stationary slots nleft nright [] = Inr ()"
| "check_streams direct stationary slots nleft nright (stream # streams) =
     (if direct ! stream > DIRECT_CAPACITIES ! stream \<or> stationary ! stream > STATIONARY_CAPACITIES ! stream \<or>
         slots ! stream \<noteq> direct ! stream then Inl PT21EventRecordError
      else
        let maximum = int (direct ! stream) * (int (EDGE_COUNTS ! stream) - 1)
        in if \<not> (- maximum \<le> nleft ! stream \<and> nleft ! stream \<le> 0) \<or> \<not> (0 \<le> nright ! stream \<and> nright ! stream \<le> maximum)
           then Inl PT21EventRecordError
           else check_streams direct stationary slots nleft nright streams)"

definition parse_record :: "bytes \<Rightarrow> nat \<Rightarrow> event_record res" where
  "parse_record raw expected_block =
     (if length raw \<noteq> EV_SIZE then Inl PT21EventRecordError
      else
        let magic = field_at 0 8 raw; version = le_value (field_at 8 4 raw); record_bytes = le_value (field_at 12 4 raw);
            block = le_value (field_at 16 8 raw); failure_flags = le_value (field_at 24 4 raw);
            certified_sample_count = le_value (field_at 28 4 raw); digest_valid = le_value (field_at 32 4 raw);
            reserved = le_value (field_at 36 4 raw); direct = u32_fields 40 raw; stationary = u32_fields 52 raw;
            slots = u32_fields 64 raw; unresolved = le_value (field_at 76 4 raw); nleft = i64_fields 80 raw;
            nright = i64_fields 104 raw; artifact = field_at 128 32 raw; digest = field_at 160 32 raw
        in if magic \<noteq> RECORD_MAGIC \<or> version \<noteq> EV_VERSION \<or> record_bytes \<noteq> EV_SIZE \<or> block \<noteq> expected_block \<or>
              \<not> block < SOURCE_BLOCK_COUNT \<or> failure_flags \<noteq> 0 \<or> certified_sample_count \<noteq> REQUIRED_SAMPLE_COUNT \<or>
              digest_valid \<noteq> 1 \<or> reserved \<noteq> 0 then Inl PT21EventRecordError
           else ebind (ev_nonzero artifact) (\<lambda>_.
             if digest \<noteq> sha256_digest (RECORD_DOMAIN @ take EV_DIGEST_OFFSET raw) then Inl PT21EventRecordError
             else ebind (check_streams direct stationary slots nleft nright [0, 1, 2]) (\<lambda>_.
               if unresolved \<noteq> sum_list stationary then Inl PT21EventRecordError
               else Inr \<lparr>ev_block = block, ev_direct = direct, ev_stationary = stationary, ev_slots = slots,
                 ev_unresolved = unresolved, ev_nleft = nleft, ev_nright = nright, ev_artifact = bytes_hex artifact,
                 ev_sha256 = bytes_hex digest\<rparr>)))"

section \<open>The stream\<close>

record stream_totals =
  st_hashed :: bytes
  st_direct :: nat
  st_stationary :: nat
  st_first :: "pystr option"
  st_last :: "pystr option"

definition add_record :: "bytes \<Rightarrow> event_record \<Rightarrow> stream_totals \<Rightarrow> stream_totals" where
  "add_record raw r t = \<lparr>st_hashed = st_hashed t @ raw, st_direct = st_direct t + sum_list (ev_direct r),
     st_stationary = st_stationary t + sum_list (ev_stationary r),
     st_first = (case st_first t of None \<Rightarrow> Some (ev_sha256 r) | Some d \<Rightarrow> Some d), st_last = Some (ev_sha256 r)\<rparr>"

text \<open>The loop over the declared blocks: the bytes after the records, and the totals.\<close>

fun record_loop :: "nat \<Rightarrow> nat \<Rightarrow> bytes \<Rightarrow> stream_totals \<Rightarrow> (bytes \<times> stream_totals) res" where
  "record_loop 0 block stream t = Inr (stream, t)"
| "record_loop (Suc n) block stream t = ebind (read_exact stream EV_SIZE) (\<lambda>(raw, stream).
     ebind (parse_record raw block) (\<lambda>r. record_loop n (block + 1) stream (add_record raw r t)))"

definition footer_differs :: "bytes \<Rightarrow> event_header \<Rightarrow> stream_totals \<Rightarrow> bool" where
  "footer_differs raw header t \<longleftrightarrow>
     field_at 0 8 raw \<noteq> FOOTER_MAGIC \<or> le_value (field_at 8 4 raw) \<noteq> EV_VERSION \<or> le_value (field_at 12 4 raw) \<noteq> EV_SIZE \<or>
     le_value (field_at 16 8 raw) \<noteq> eh_first_block header \<or> le_value (field_at 24 8 raw) \<noteq> eh_block_count header \<or>
     le_value (field_at 32 8 raw) \<noteq> st_direct t \<or> le_value (field_at 40 8 raw) \<noteq> st_stationary t \<or>
     field_at 48 32 raw \<noteq> sha256_digest (st_hashed t) \<or> bytes_hex (field_at 80 32 raw) \<noteq> eh_sha256 header \<or>
     bytes_hex (field_at 112 32 raw) \<noteq> eh_gamma header \<or> field_at 144 16 raw \<noteq> replicate 16 0 \<or>
     field_at 160 32 raw \<noteq> sha256_digest (FOOTER_DOMAIN @ take EV_DIGEST_OFFSET raw)"

record stream_report =
  sr_first_block :: nat
  sr_upper_block :: nat
  sr_block_count :: nat
  sr_size :: nat
  sr_stream_sha256 :: pystr
  sr_record_stream_sha256 :: pystr
  sr_first_record :: "pystr option"
  sr_last_record :: "pystr option"
  sr_gamma :: pystr
  sr_producer :: pystr
  sr_contract :: pystr
  sr_direct :: nat
  sr_stationary :: nat

definition validate_stream :: "bytes \<Rightarrow> pystr option \<Rightarrow> pystr option \<Rightarrow> stream_report res" where
  "validate_stream stream expected_gamma expected_producer =
     ebind (read_exact stream EV_SIZE) (\<lambda>(header_raw, rest).
     ebind (parse_header header_raw expected_gamma expected_producer) (\<lambda>header.
     if length stream \<noteq> EV_SIZE + eh_block_count header * EV_SIZE + EV_SIZE then Inl PT21EventRecordError
     else ebind (record_loop (eh_block_count header) (eh_first_block header) rest
         \<lparr>st_hashed = [], st_direct = 0, st_stationary = 0, st_first = None, st_last = None\<rparr>) (\<lambda>(rest, t).
       ebind (read_exact rest EV_SIZE) (\<lambda>(footer_raw, rest).
       if footer_differs footer_raw header t then Inl PT21EventRecordError
       else if rest \<noteq> [] then Inl PT21EventRecordError
       else Inr \<lparr>sr_first_block = eh_first_block header, sr_upper_block = eh_first_block header + eh_block_count header,
         sr_block_count = eh_block_count header, sr_size = length stream, sr_stream_sha256 = sha256_hex stream,
         sr_record_stream_sha256 = sha256_hex (st_hashed t), sr_first_record = st_first t, sr_last_record = st_last t,
         sr_gamma = eh_gamma header, sr_producer = eh_producer header, sr_contract = eh_contract header,
         sr_direct = st_direct t, sr_stationary = st_stationary t\<rparr>))))"

end
