(* ===== verification/EventStream_Facts.thy ===== *)
theory EventStream_Facts
  imports EventStream
begin

text \<open>
  Facts about event streams: what a parsed header and record are, the loop over the records as a
  concatenation, and the bytes that a producer writes for given events.
\<close>

lemmas ev_const = EV_SIZE_def EV_DIGEST_OFFSET_def

lemma digest_eqD: "sha256_digest m = sha256_digest n \<Longrightarrow> m = n \<or> sha_collision m n"
  unfolding sha_collision_def by (metis digest_hex)

section \<open>Parsed structures\<close>

lemma ev_nonzero_Inr [res_simps]: "ev_nonzero raw = Inr u \<longleftrightarrow> raw \<noteq> replicate 32 0"
  by (simp add: ev_nonzero_def)

lemma ev_geometry_Inr [res_simps]:
  "ev_geometry first n = Inr u \<longleftrightarrow> 1 \<le> n \<and> first < SOURCE_BLOCK_COUNT \<and> first + n \<le> SOURCE_BLOCK_COUNT"
  by (auto simp: ev_geometry_def)

lemma parse_header_Inr:
  assumes "parse_header raw eg ep = Inr h"
  shows "length raw = 192" "field_at 160 32 raw = sha256_digest (HEADER_DOMAIN @ take 160 raw)" "eh_sha256 h = bytes_hex (field_at 160 32 raw)"
    "1 \<le> eh_block_count h" "eh_first_block h + eh_block_count h \<le> SOURCE_BLOCK_COUNT" "eh_gamma h = bytes_hex (field_at 40 32 raw)"
    "eh_contract h = bytes_hex contract_sha256"
  using assms by (auto simp: parse_header_def Let_def ev_const res_simps)

lemma check_streams_Inr:
  "check_streams d s sl nl nr streams = Inr () \<Longrightarrow> k \<in> set streams \<Longrightarrow>
     d ! k \<le> DIRECT_CAPACITIES ! k \<and> s ! k \<le> STATIONARY_CAPACITIES ! k \<and> sl ! k = d ! k \<and>
     - (int (d ! k) * (int (EDGE_COUNTS ! k) - 1)) \<le> nl ! k \<and> nl ! k \<le> 0 \<and> 0 \<le> nr ! k \<and> nr ! k \<le> int (d ! k) * (int (EDGE_COUNTS ! k) - 1)"
  by (induction streams) (auto simp: Let_def split: if_splits)

lemma sum_three: "length xs = 3 \<Longrightarrow> sum_list xs = xs ! 0 + xs ! 1 + xs ! (2 :: nat)" for xs :: "nat list"
  by (cases xs; cases "tl xs"; cases "tl (tl xs)") auto

lemma length_fields [simp]: "length (u32_fields k raw) = 3" "length (i64_fields k raw) = 3"
  by (simp_all add: u32_fields_def i64_fields_def)

lemma parse_record_Inr:
  assumes "parse_record raw b = Inr r"
  shows "length raw = 192" "ev_block r = b" "b < SOURCE_BLOCK_COUNT" "sum_list (ev_direct r) \<le> 25600" "sum_list (ev_stationary r) \<le> 25594"
    "ev_unresolved r = sum_list (ev_stationary r)" "ev_slots r = ev_direct r"
proof -
  from assms have c: "check_streams (ev_direct r) (ev_stationary r) (ev_slots r) (ev_nleft r) (ev_nright r) [0, 1, 2] = Inr ()"
    and l: "length (ev_direct r) = 3" "length (ev_stationary r) = 3" "length (ev_slots r) = 3"
    by (auto simp: parse_record_def Let_def res_simps)
  note s = check_streams_Inr [OF c]
  have k: "ev_direct r ! 0 \<le> 512" "ev_direct r ! 1 \<le> 24576" "ev_direct r ! 2 \<le> 512"
    "ev_stationary r ! 0 \<le> 510" "ev_stationary r ! 1 \<le> 24574" "ev_stationary r ! 2 \<le> 510"
    using s [of 0] s [of 1] s [of 2] by (simp_all add: DIRECT_CAPACITIES_def STATIONARY_CAPACITIES_def numeral_2_eq_2)
  then show "sum_list (ev_direct r) \<le> 25600" "sum_list (ev_stationary r) \<le> 25594" using l by (simp_all add: sum_three)
  show "ev_slots r = ev_direct r"
  proof (rule nth_equalityI)
    fix i assume "i < length (ev_slots r)"
    then have "i \<in> set [0, 1, 2]" using l by auto
    then show "ev_slots r ! i = ev_direct r ! i" using s by blast
  qed (simp add: l)
  show "length raw = 192" "ev_block r = b" "b < SOURCE_BLOCK_COUNT" "ev_unresolved r = sum_list (ev_stationary r)"
    using assms by (auto simp: parse_record_def Let_def res_simps ev_const)
qed

section \<open>The loop\<close>

lemma read_exact_Inr [res_simps]: "read_exact s n = Inr (a, b) \<longleftrightarrow> s = a @ b \<and> length a = n"
proof
  assume "read_exact s n = Inr (a, b)"
  then show "s = a @ b \<and> length a = n" by (auto simp: read_exact_def split: if_splits)
qed (auto simp: read_exact_def)

definition stream_start :: stream_totals where
  "stream_start = \<lparr>st_hashed = [], st_direct = 0, st_stationary = 0, st_first = None, st_last = None\<rparr>"

lemma record_loop_Inr:
  assumes "record_loop n b stream t = Inr (rest, t')"
  shows "\<exists>raws rs. stream = concat raws @ rest \<and> length raws = n \<and> length rs = n \<and>
    (\<forall>i < n. parse_record (raws ! i) (b + i) = Inr (rs ! i)) \<and> st_hashed t' = st_hashed t @ concat raws \<and>
    st_direct t' = st_direct t + sum_list (map (\<lambda>r. sum_list (ev_direct r)) rs) \<and>
    st_stationary t' = st_stationary t + sum_list (map (\<lambda>r. sum_list (ev_stationary r)) rs)"
  using assms
proof (induction n arbitrary: b stream t)
  case 0
  then show ?case by simp
next
  case (Suc n)
  then obtain raw stream' r where r: "stream = raw @ stream'" "parse_record raw b = Inr r"
      "record_loop n (b + 1) stream' (add_record raw r t) = Inr (rest, t')"
    by (auto simp: res_simps)
  from Suc.IH [OF r(3)] obtain raws rs where rs: "stream' = concat raws @ rest" "length raws = n" "length rs = n"
      "\<forall>i < n. parse_record (raws ! i) (b + 1 + i) = Inr (rs ! i)" "st_hashed t' = st_hashed (add_record raw r t) @ concat raws"
      "st_direct t' = st_direct (add_record raw r t) + sum_list (map (\<lambda>r. sum_list (ev_direct r)) rs)"
      "st_stationary t' = st_stationary (add_record raw r t) + sum_list (map (\<lambda>r. sum_list (ev_stationary r)) rs)" by blast
  have "\<forall>i < Suc n. parse_record ((raw # raws) ! i) (b + i) = Inr ((r # rs) ! i)"
    using r(2) rs(4) by (auto simp: less_Suc_eq_0_disj)
  with r(1) rs show ?case by (intro exI [of _ "raw # raws"] exI [of _ "r # rs"]) (simp add: add_record_def)
qed

lemma record_loop_ok:
  "length raws = n \<Longrightarrow> length rs = n \<Longrightarrow> (\<forall>i < n. parse_record (raws ! i) (b + i) = Inr (rs ! i)) \<Longrightarrow>
     \<exists>t'. record_loop n b (concat raws @ rest) t = Inr (rest, t') \<and> st_hashed t' = st_hashed t @ concat raws \<and>
       st_direct t' = st_direct t + sum_list (map (\<lambda>r. sum_list (ev_direct r)) rs) \<and>
       st_stationary t' = st_stationary t + sum_list (map (\<lambda>r. sum_list (ev_stationary r)) rs)"
proof (induction n arbitrary: b raws rs t)
  case (Suc n)
  then obtain raw raws' r rs' where raws: "raws = raw # raws'" "rs = r # rs'" by (metis length_Suc_conv)
  from Suc.prems(3) raws have r: "parse_record raw b = Inr r" by (metis add_0_right nth_Cons_0 zero_less_Suc)
  have "\<forall>i < n. parse_record (raws' ! i) (b + 1 + i) = Inr (rs' ! i)"
    using Suc.prems(3) raws by (metis Suc_less_eq add.commute add_Suc_right nth_Cons_Suc plus_1_eq_Suc)
  moreover have "length raws' = n" "length rs' = n" using Suc.prems(1,2) raws by simp_all
  ultimately obtain t' where t': "record_loop n (b + 1) (concat raws' @ rest) (add_record raw r t) = Inr (rest, t')"
      "st_hashed t' = st_hashed (add_record raw r t) @ concat raws'"
      "st_direct t' = st_direct (add_record raw r t) + sum_list (map (\<lambda>r. sum_list (ev_direct r)) rs')"
      "st_stationary t' = st_stationary (add_record raw r t) + sum_list (map (\<lambda>r. sum_list (ev_stationary r)) rs')"
    using Suc.IH by blast
  moreover have "read_exact (concat raws @ rest) EV_SIZE = Inr (raw, concat raws' @ rest)"
    using parse_record_Inr(1) [OF r] raws by (simp add: read_exact_def ev_const)
  ultimately show ?case using r by (simp add: raws add_record_def)
qed simp

lemma validate_stream_Inr:
  assumes "validate_stream stream eg ep = Inr rep"
  obtains header h raws rs footer t where "stream = header @ concat raws @ footer" "parse_header header eg ep = Inr h"
    "length header = 192" "length footer = 192" "length raws = eh_block_count h" "length rs = eh_block_count h"
    "\<forall>i < eh_block_count h. parse_record (raws ! i) (eh_first_block h + i) = Inr (rs ! i)"
    "\<not> footer_differs footer h t" "st_hashed t = concat raws"
    "rep = \<lparr>sr_first_block = eh_first_block h, sr_upper_block = eh_first_block h + eh_block_count h,
         sr_block_count = eh_block_count h, sr_size = length stream, sr_stream_sha256 = sha256_hex stream,
         sr_record_stream_sha256 = sha256_hex (concat raws), sr_first_record = st_first t, sr_last_record = st_last t,
         sr_gamma = eh_gamma h, sr_producer = eh_producer h, sr_contract = eh_contract h,
         sr_direct = sum_list (map (\<lambda>r. sum_list (ev_direct r)) rs), sr_stationary = sum_list (map (\<lambda>r. sum_list (ev_stationary r)) rs)\<rparr>"
proof -
  from assms obtain header rest h rest' t footer where v: "stream = header @ rest" "parse_header header eg ep = Inr h"
      "record_loop (eh_block_count h) (eh_first_block h) rest stream_start = Inr (rest', t)" "rest' = footer" "length footer = 192"
      "\<not> footer_differs footer h t"
    and rep: "rep = \<lparr>sr_first_block = eh_first_block h, sr_upper_block = eh_first_block h + eh_block_count h,
         sr_block_count = eh_block_count h, sr_size = length stream, sr_stream_sha256 = sha256_hex stream,
         sr_record_stream_sha256 = sha256_hex (st_hashed t), sr_first_record = st_first t, sr_last_record = st_last t,
         sr_gamma = eh_gamma h, sr_producer = eh_producer h, sr_contract = eh_contract h, sr_direct = st_direct t, sr_stationary = st_stationary t\<rparr>"
    by (auto simp: validate_stream_def res_simps ev_const stream_start_def)
  from record_loop_Inr [OF v(3)] obtain raws rs where "rest = concat raws @ rest'" "length raws = eh_block_count h" "length rs = eh_block_count h"
    "\<forall>i < eh_block_count h. parse_record (raws ! i) (eh_first_block h + i) = Inr (rs ! i)" "st_hashed t = concat raws"
    "st_direct t = sum_list (map (\<lambda>r. sum_list (ev_direct r)) rs)" "st_stationary t = sum_list (map (\<lambda>r. sum_list (ev_stationary r)) rs)"
    by (auto simp: stream_start_def)
  with v rep parse_header_Inr(1) [OF v(2)] show thesis by (intro that [of header raws footer h rs t]) simp_all
qed

end
