(* ===== verification/EventStream_Claims.thy ===== *)
theory EventStream_Claims
  imports EventStream_Facts
begin

text \<open>
  The properties of event streams: what an accepted stream is, that its footer commits to all of its bytes,
  and that a producer that writes what the format says is accepted.
\<close>

section \<open>What a producer writes\<close>

text \<open>A structure followed by the digest of its domain and itself.\<close>

definition sealed :: "bytes \<Rightarrow> bytes \<Rightarrow> bytes" where
  "sealed domain body = body @ sha256_digest (domain @ body)"

record event_data =
  da_direct :: "nat list"
  da_stationary :: "nat list"
  da_nleft :: "int list"
  da_nright :: "int list"
  da_artifact :: bytes

text \<open>
  The format's bounds for the three streams of a block: at most as many direct and stationary events as
  the streams hold, and weights of at most one less than the stream's edges per direct event.
\<close>

definition event_fits :: "event_data \<Rightarrow> bool" where
  "event_fits e \<longleftrightarrow> length (da_direct e) = 3 \<and> length (da_stationary e) = 3 \<and> length (da_nleft e) = 3 \<and> length (da_nright e) = 3 \<and>
     length (da_artifact e) = 32 \<and> da_artifact e \<noteq> replicate 32 0 \<and>
     (\<forall>stream < 3. da_direct e ! stream \<le> [512, 24576, 512] ! stream \<and> da_stationary e ! stream \<le> [510, 24574, 510] ! stream \<and>
        - (int (da_direct e ! stream) * [511, 24575, 511] ! stream) \<le> da_nleft e ! stream \<and> da_nleft e ! stream \<le> 0 \<and>
        0 \<le> da_nright e ! stream \<and> da_nright e ! stream \<le> int (da_direct e ! stream) * [511, 24575, 511] ! stream)"

definition event_body :: "nat \<Rightarrow> event_data \<Rightarrow> bytes" where
  "event_body block e = RECORD_MAGIC @ le_bytes 4 EV_VERSION @ le_bytes 4 EV_SIZE @ le_bytes 8 block @ le_bytes 4 0 @
     le_bytes 4 REQUIRED_SAMPLE_COUNT @ le_bytes 4 1 @ le_bytes 4 0 @ concat (map (le_bytes 4) (da_direct e)) @
     concat (map (le_bytes 4) (da_stationary e)) @ concat (map (le_bytes 4) (da_direct e)) @ le_bytes 4 (sum_list (da_stationary e)) @
     concat (map (le_signed_bytes 8) (da_nleft e)) @ concat (map (le_signed_bytes 8) (da_nright e)) @ da_artifact e"

definition event_bytes :: "nat \<Rightarrow> event_data \<Rightarrow> bytes" where
  "event_bytes block e = sealed RECORD_DOMAIN (event_body block e)"

definition header_bytes :: "nat \<Rightarrow> nat \<Rightarrow> bytes \<Rightarrow> bytes \<Rightarrow> bytes" where
  "header_bytes first_block block_count gamma producer = sealed HEADER_DOMAIN
     (HEADER_MAGIC @ le_bytes 4 EV_VERSION @ le_bytes 4 EV_SIZE @ le_bytes 4 EV_SIZE @ le_bytes 4 FINITE_EVENT_STAGE_FLAG @
      le_bytes 8 first_block @ le_bytes 8 block_count @ gamma @ producer @ contract_sha256 @ replicate 24 0)"

definition footer_bytes :: "nat \<Rightarrow> nat \<Rightarrow> nat \<Rightarrow> nat \<Rightarrow> bytes \<Rightarrow> bytes \<Rightarrow> bytes \<Rightarrow> bytes" where
  "footer_bytes first_block block_count direct stationary records header gamma = sealed FOOTER_DOMAIN
     (FOOTER_MAGIC @ le_bytes 4 EV_VERSION @ le_bytes 4 EV_SIZE @ le_bytes 8 first_block @ le_bytes 8 block_count @
      le_bytes 8 direct @ le_bytes 8 stationary @ sha256_digest records @ field_at 160 32 header @ gamma @ replicate 16 0)"

definition stream_bytes :: "nat \<Rightarrow> bytes \<Rightarrow> bytes \<Rightarrow> event_data list \<Rightarrow> bytes" where
  "stream_bytes first_block gamma producer events =
     (let header = header_bytes first_block (length events) gamma producer;
          records = concat (map (\<lambda>i. event_bytes (first_block + i) (events ! i)) [0..<length events])
      in header @ records @ footer_bytes first_block (length events) (sum_list (map (\<lambda>e. sum_list (da_direct e)) events))
           (sum_list (map (\<lambda>e. sum_list (da_stationary e)) events)) records header gamma)"

section \<open>It parses\<close>

lemma length_magics [simp]: "length HEADER_MAGIC = 8" "length RECORD_MAGIC = 8" "length FOOTER_MAGIC = 8"
  by (simp_all add: HEADER_MAGIC_def RECORD_MAGIC_def FOOTER_MAGIC_def bytes_lit_def)

lemma length_contract [simp]: "length contract_sha256 = 32"
  by (simp add: contract_sha256_def)

interpretation weight_field: field_codec 8 "le_signed_bytes 8" le_signed_value "\<lambda>i. - (256 ^ 8) \<le> 2 * i \<and> 2 * i < 256 ^ 8"
  using signed_field.field_codec_axioms [of 7] by (simp add: eval_nat_numeral)

lemma parse_header_written:
  assumes "length gamma = 32" "length producer = 32" "gamma \<noteq> replicate 32 0" "producer \<noteq> replicate 32 0"
    "1 \<le> n" "first + n \<le> SOURCE_BLOCK_COUNT"
  shows "length (header_bytes first n gamma producer) = 192"
    "parse_header (header_bytes first n gamma producer) None None = Inr \<lparr>eh_first_block = first, eh_block_count = n,
       eh_gamma = bytes_hex gamma, eh_producer = bytes_hex producer, eh_contract = bytes_hex contract_sha256,
       eh_sha256 = bytes_hex (field_at 160 32 (header_bytes first n gamma producer))\<rparr>"
proof -
  have small: "first < 256 ^ 8" "n < 256 ^ 8" using assms(5,6) by (simp_all add: SOURCE_BLOCK_COUNT_def)
  show len: "length (header_bytes first n gamma producer) = 192" using assms by (simp add: header_bytes_def sealed_def)
  show "parse_header (header_bytes first n gamma producer) None None = Inr \<lparr>eh_first_block = first, eh_block_count = n,
       eh_gamma = bytes_hex gamma, eh_producer = bytes_hex producer, eh_contract = bytes_hex contract_sha256,
       eh_sha256 = bytes_hex (field_at 160 32 (header_bytes first n gamma producer))\<rparr>"
    using assms small
    by (simp add: parse_header_def header_bytes_def sealed_def Let_def ev_const field_at_def le_field.dec_enc EV_VERSION_def FINITE_EVENT_STAGE_FLAG_def
      ev_nonzero_def ev_geometry_def expected_identity_def)
qed

lemma three: "length xs = 3 \<Longrightarrow> \<exists>a b c. xs = [a, b, c]"
  by (cases xs; cases "tl xs"; cases "tl (tl xs)") auto

lemma upt_three: "[0..<3] = [0, 1, 2 :: nat]"
  by (simp add: upt_rec)

lemma streams_below_three: "stream < 3 \<longleftrightarrow> stream \<in> {0, 1, 2 :: nat}"
  by auto

text \<open>The checker's loop accepts whatever is within these bounds.\<close>

lemma event_fits_streams:
  assumes "event_fits e"
  shows "check_streams (da_direct e) (da_stationary e) (da_direct e) (da_nleft e) (da_nright e) [0, 1, 2] = Inr ()"
proof -
  note bounds = assms [unfolded event_fits_def streams_below_three]
  from bounds have "da_direct e ! 0 \<le> 512" "da_direct e ! 1 \<le> 24576" "da_direct e ! 2 \<le> 512"
    "da_stationary e ! 0 \<le> 510" "da_stationary e ! 1 \<le> 24574" "da_stationary e ! 2 \<le> 510" by simp_all
  moreover from bounds have
    "- (int (da_direct e ! 0) * 511) \<le> da_nleft e ! 0" "da_nleft e ! 0 \<le> 0" "0 \<le> da_nright e ! 0"
    "da_nright e ! 0 \<le> int (da_direct e ! 0) * 511"
    "- (int (da_direct e ! 1) * 24575) \<le> da_nleft e ! 1" "da_nleft e ! 1 \<le> 0" "0 \<le> da_nright e ! 1"
    "da_nright e ! 1 \<le> int (da_direct e ! 1) * 24575"
    "- (int (da_direct e ! 2) * 511) \<le> da_nleft e ! 2" "da_nleft e ! 2 \<le> 0" "0 \<le> da_nright e ! 2"
    "da_nright e ! 2 \<le> int (da_direct e ! 2) * 511" by simp_all
  ultimately show ?thesis
    by (simp add: DIRECT_CAPACITIES_def STATIONARY_CAPACITIES_def EDGE_COUNTS_def)
qed

lemma parse_record_written:
  assumes "event_fits e" "block < SOURCE_BLOCK_COUNT"
  shows "length (event_bytes block e) = 192"
    "\<exists>r. parse_record (event_bytes block e) block = Inr r \<and> ev_direct r = da_direct e \<and> ev_stationary r = da_stationary e"
proof -
  note f = assms(1) [unfolded event_fits_def]
  obtain d0 d1 d2 s0 s1 s2 l0 l1 l2 r0 r1 r2 where
    e: "da_direct e = [d0, d1, d2]" "da_stationary e = [s0, s1, s2]" "da_nleft e = [l0, l1, l2]" "da_nright e = [r0, r1, r2]"
    using f three by metis
  have streams: "check_streams (da_direct e) (da_stationary e) (da_direct e) (da_nleft e) (da_nright e) [0, 1, 2] = Inr ()"
    by (rule event_fits_streams [OF assms(1)])
  note s = check_streams_Inr [OF streams]
  have d: "d0 \<le> 512" "d1 \<le> 24576" "d2 \<le> 512" "s0 \<le> 510" "s1 \<le> 24574" "s2 \<le> 510"
    using s [of 0] s [of 1] s [of 2] by (simp_all add: e DIRECT_CAPACITIES_def STATIONARY_CAPACITIES_def numeral_2_eq_2)
  have "int d0 * 511 \<le> 512 * 511" "int d1 * 24575 \<le> 24576 * 24575" "int d2 * 511 \<le> 512 * 511"
    using d by (intro mult_right_mono; simp)+
  then have w: "- 603955200 \<le> l0 \<and> l0 \<le> 0" "- 603955200 \<le> l1 \<and> l1 \<le> 0" "- 603955200 \<le> l2 \<and> l2 \<le> 0"
    "0 \<le> r0 \<and> r0 \<le> 603955200" "0 \<le> r1 \<and> r1 \<le> 603955200" "0 \<le> r2 \<and> r2 \<le> 603955200"
    using s [of 0] s [of 1] s [of 2] by (simp_all add: e EDGE_COUNTS_def numeral_2_eq_2)
  have body: "length (event_body block e) = 160" using f by (simp add: event_body_def e)
  then show "length (event_bytes block e) = 192" by (simp add: event_bytes_def sealed_def)
  define raw where "raw = event_bytes block e"
  have raw: "raw = event_body block e @ sha256_digest (RECORD_DOMAIN @ event_body block e)" by (simp add: raw_def event_bytes_def sealed_def)
  have len: "length raw = 192" "take 160 raw = event_body block e" "field_at 160 32 raw = sha256_digest (RECORD_DOMAIN @ take 160 raw)"
    using body by (simp_all add: raw field_at_def)
  have "block < 256 ^ 8" using assms(2) by (simp add: SOURCE_BLOCK_COUNT_def)
  then have head: "field_at 0 8 raw = RECORD_MAGIC" "le_value (field_at 8 4 raw) = 1" "le_value (field_at 12 4 raw) = 192"
    "le_value (field_at 16 8 raw) = block" "le_value (field_at 24 4 raw) = 0" "le_value (field_at 28 4 raw) = REQUIRED_SAMPLE_COUNT"
    "le_value (field_at 32 4 raw) = 1" "le_value (field_at 36 4 raw) = 0"
    unfolding raw event_body_def by (simp_all add: field_at_def le_field.dec_enc EV_VERSION_def EV_SIZE_def REQUIRED_SAMPLE_COUNT_def)
  have counts: "u32_fields 40 raw = da_direct e" "u32_fields 52 raw = da_stationary e" "u32_fields 64 raw = da_direct e"
    "le_value (field_at 76 4 raw) = sum_list (da_stationary e)"
    unfolding raw event_body_def e using d by (simp_all add: u32_fields_def upt_three field_at_def le_field.dec_enc)
  have weights: "i64_fields 80 raw = da_nleft e" "i64_fields 104 raw = da_nright e"
    unfolding raw event_body_def e using w by (simp_all add: i64_fields_def upt_three field_at_def weight_field.dec_enc)
  have artifact: "field_at 128 32 raw = da_artifact e"
    unfolding raw event_body_def e using f by (simp add: field_at_def)
  have "parse_record raw block = Inr \<lparr>ev_block = block, ev_direct = da_direct e, ev_stationary = da_stationary e, ev_slots = da_direct e,
      ev_unresolved = sum_list (da_stationary e), ev_nleft = da_nleft e, ev_nright = da_nright e, ev_artifact = bytes_hex (da_artifact e),
      ev_sha256 = bytes_hex (field_at 160 32 raw)\<rparr>"
    unfolding parse_record_def Let_def head counts weights artifact streams
    using len f assms(2) by (simp add: ev_const EV_VERSION_def ev_nonzero_def)
  then show "\<exists>r. parse_record (event_bytes block e) block = Inr r \<and> ev_direct r = da_direct e \<and> ev_stationary r = da_stationary e"
    by (simp add: raw_def)
qed

lemma written_stream_accepted:
  assumes "length gamma = 32" "length producer = 32" "gamma \<noteq> replicate 32 0" "producer \<noteq> replicate 32 0"
    "events \<noteq> []" "first + length events \<le> SOURCE_BLOCK_COUNT" "list_all event_fits events"
  shows "\<exists>rep. validate_stream (stream_bytes first gamma producer events) None None = Inr rep \<and>
    sr_first_block rep = first \<and> sr_block_count rep = length events \<and> sr_gamma rep = bytes_hex gamma \<and>
    sr_direct rep = sum_list (map (\<lambda>e. sum_list (da_direct e)) events) \<and>
    sr_stationary rep = sum_list (map (\<lambda>e. sum_list (da_stationary e)) events)"
proof -
  let ?n = "length events"
  define header where "header = header_bytes first ?n gamma producer"
  define raws where "raws = map (\<lambda>i. event_bytes (first + i) (events ! i)) [0..<?n]"
  define D where "D = sum_list (map (\<lambda>e. sum_list (da_direct e)) events)"
  define S where "S = sum_list (map (\<lambda>e. sum_list (da_stationary e)) events)"
  define footer where "footer = footer_bytes first ?n D S (concat raws) header gamma"
  have stream: "stream_bytes first gamma producer events = header @ concat raws @ footer"
    by (simp add: stream_bytes_def Let_def header_def raws_def footer_def D_def S_def)
  have "1 \<le> ?n" using assms(5) by (cases events) auto
  note ph = parse_header_written [OF assms(1-4) this assms(6), folded header_def]
  have "\<exists>r. parse_record (raws ! i) (first + i) = Inr r \<and> ev_direct r = da_direct (events ! i) \<and> ev_stationary r = da_stationary (events ! i)" if "i < ?n" for i
    using parse_record_written(2) [of "events ! i" "first + i"] that assms(6,7) by (simp add: raws_def list_all_length)
  then obtain f where f: "\<And>i. i < ?n \<Longrightarrow> parse_record (raws ! i) (first + i) = Inr (f i) \<and> ev_direct (f i) = da_direct (events ! i) \<and> ev_stationary (f i) = da_stationary (events ! i)"
    by metis
  define rs where "rs = map f [0..<?n]"
  have lens: "length raws = ?n" "length rs = ?n" by (simp_all add: raws_def rs_def)
  have sums: "map (\<lambda>r. sum_list (ev_direct r)) rs = map (\<lambda>e. sum_list (da_direct e)) events"
    "map (\<lambda>r. sum_list (ev_stationary r)) rs = map (\<lambda>e. sum_list (da_stationary e)) events"
    using f by (auto simp: rs_def intro!: nth_equalityI)
  have parses: "\<forall>i < ?n. parse_record (raws ! i) (first + i) = Inr (rs ! i)" using f by (simp add: rs_def)
  obtain t where t: "record_loop ?n first (concat raws @ footer) stream_start = Inr (footer, t)" "st_hashed t = concat raws"
      "st_direct t = D" "st_stationary t = S"
    using record_loop_ok [OF lens parses, of footer stream_start] by (auto simp: stream_start_def sums D_def S_def)
  have r: "sum_list (ev_direct r) \<le> 25600" "sum_list (ev_stationary r) \<le> 25600" if r: "r \<in> set rs" for r
  proof -
    from r obtain i where "i < ?n" "r = rs ! i" using lens by (metis in_set_conv_nth)
    with parses have "parse_record (raws ! i) (first + i) = Inr r" by blast
    from parse_record_Inr(4,5) [OF this] show "sum_list (ev_direct r) \<le> 25600" "sum_list (ev_stationary r) \<le> 25600" by simp_all
  qed
  have bound: "sum_list (map g rs) \<le> 25600 * length rs" if "\<And>r. r \<in> set rs \<Longrightarrow> g r \<le> 25600" for g :: "event_record \<Rightarrow> nat"
    using that by (induction rs) (auto simp: add_mono)
  have "D \<le> 25600 * ?n" "S \<le> 25600 * ?n"
    using bound [of "\<lambda>r. sum_list (ev_direct r)", OF r(1)] bound [of "\<lambda>r. sum_list (ev_stationary r)", OF r(2)]
    by (simp_all add: sums lens D_def S_def)
  then have small: "first < 256 ^ 8" "?n < 256 ^ 8" "D < 256 ^ 8" "S < 256 ^ 8"
    using assms(6) by (simp_all add: SOURCE_BLOCK_COUNT_def)
  have lf: "length footer = 192" using ph(1) assms(1) by (simp add: footer_def footer_bytes_def sealed_def)
  have lr: "length (concat raws) = ?n * 192"
  proof -
    have "length (concat xs) = length xs * 192" if "list_all (\<lambda>x. length x = 192) xs" for xs :: "bytes list"
      using that by (induction xs) auto
    moreover have "list_all (\<lambda>x. length x = 192) raws" using parses lens parse_record_Inr(1) by (auto simp: list_all_length)
    ultimately show ?thesis using lens(1) by metis
  qed
  have ok: "\<not> footer_differs footer \<lparr>eh_first_block = first, eh_block_count = ?n, eh_gamma = bytes_hex gamma, eh_producer = bytes_hex producer,
      eh_contract = bytes_hex contract_sha256, eh_sha256 = bytes_hex (field_at 160 32 header)\<rparr> t"
    using small t(2-4) ph(1) assms(1)
    by (simp add: footer_differs_def footer_def footer_bytes_def sealed_def field_at_def le_field.dec_enc EV_VERSION_def ev_const)
  have "validate_stream (header @ concat raws @ footer) None None = Inr \<lparr>sr_first_block = first, sr_upper_block = first + ?n,
         sr_block_count = ?n, sr_size = length (header @ concat raws @ footer), sr_stream_sha256 = sha256_hex (header @ concat raws @ footer),
         sr_record_stream_sha256 = sha256_hex (st_hashed t), sr_first_record = st_first t, sr_last_record = st_last t,
         sr_gamma = bytes_hex gamma, sr_producer = bytes_hex producer, sr_contract = bytes_hex contract_sha256, sr_direct = st_direct t, sr_stationary = st_stationary t\<rparr>"
    using ph t(1) ok lf lr by (simp add: validate_stream_def read_exact_def ev_const stream_start_def)
  then show ?thesis using t(3,4) by (simp add: stream D_def S_def)
qed

text \<open>A stream of one empty block.\<close>

definition quiet_event :: event_data where
  "quiet_event = \<lparr>da_direct = [0, 0, 0], da_stationary = [0, 0, 0], da_nleft = [0, 0, 0], da_nright = [0, 0, 0], da_artifact = replicate 32 1\<rparr>"

lemma quiet_event_fits: "event_fits quiet_event"
  by (simp add: event_fits_def quiet_event_def streams_below_three)

text \<open>A block at every bound: all streams full, with the largest weights.\<close>

definition full_event :: event_data where
  "full_event = \<lparr>da_direct = [512, 24576, 512], da_stationary = [510, 24574, 510],
     da_nleft = [- 261632, - 603955200, - 261632], da_nright = [261632, 603955200, 261632], da_artifact = replicate 32 1\<rparr>"

lemma full_event_fits: "event_fits full_event"
  by (simp add: event_fits_def full_event_def streams_below_three)

lemma quiet_stream:
  "\<exists>rep. validate_stream (stream_bytes 7 (replicate 32 1) (replicate 32 2) [quiet_event]) None None = Inr rep \<and> sr_block_count rep = 1 \<and> sr_direct rep = 0"
proof -
  have "replicate 32 (1 :: 8 word) \<noteq> replicate 32 0" "replicate 32 (2 :: 8 word) \<noteq> replicate 32 0" by simp_all
  from written_stream_accepted [OF _ _ this, of "[quiet_event]" 7] quiet_event_fits
  show ?thesis by (auto simp: SOURCE_BLOCK_COUNT_def quiet_event_def)
qed

section \<open>Properties\<close>

text \<open>C20:
  What an accepted stream is: a header, exactly the declared number of records, and a footer.  Record
  \<open>i\<close> parses as block \<open>first + i\<close>, all blocks lie inside the source, the reported totals are the sums over the
  records, and they stay within the capacities.
\<close>

theorem event_stream_sound:
  assumes "validate_stream stream gamma producer = Inr rep"
  shows "\<exists>header raws rs footer. stream = header @ concat raws @ footer \<and> length header = 192 \<and> length footer = 192 \<and>
    length raws = sr_block_count rep \<and> length rs = sr_block_count rep \<and> 1 \<le> sr_block_count rep \<and>
    list_all (\<lambda>i. parse_record (raws ! i) (sr_first_block rep + i) = Inr (rs ! i)) [0..<sr_block_count rep] \<and>
    sr_upper_block rep = sr_first_block rep + sr_block_count rep \<and> sr_upper_block rep \<le> SOURCE_BLOCK_COUNT \<and>
    sr_direct rep = sum_list (map (\<lambda>r. sum_list (ev_direct r)) rs) \<and> sr_direct rep \<le> 25600 * sr_block_count rep \<and>
    sr_stationary rep = sum_list (map ev_unresolved rs) \<and> sr_stationary rep \<le> 25594 * sr_block_count rep"
proof -
  from assms obtain header h raws rs footer t where v: "stream = header @ concat raws @ footer" "parse_header header gamma producer = Inr h"
    "length header = 192" "length footer = 192" "length raws = eh_block_count h" "length rs = eh_block_count h"
    "\<forall>i < eh_block_count h. parse_record (raws ! i) (eh_first_block h + i) = Inr (rs ! i)"
    "\<not> footer_differs footer h t" "st_hashed t = concat raws"
    and rep: "rep = \<lparr>sr_first_block = eh_first_block h, sr_upper_block = eh_first_block h + eh_block_count h,
         sr_block_count = eh_block_count h, sr_size = length stream, sr_stream_sha256 = sha256_hex stream,
         sr_record_stream_sha256 = sha256_hex (concat raws), sr_first_record = st_first t, sr_last_record = st_last t,
         sr_gamma = eh_gamma h, sr_producer = eh_producer h, sr_contract = eh_contract h,
         sr_direct = sum_list (map (\<lambda>r. sum_list (ev_direct r)) rs), sr_stationary = sum_list (map (\<lambda>r. sum_list (ev_stationary r)) rs)\<rparr>"
    by (rule validate_stream_Inr)
  have r: "sum_list (ev_direct r) \<le> 25600" "sum_list (ev_stationary r) \<le> 25594" "ev_unresolved r = sum_list (ev_stationary r)"
    if "r \<in> set rs" for r
    using that v(6,7) parse_record_Inr(4-6) by (metis in_set_conv_nth)+
  have bound: "sum_list (map f rs) \<le> c * length rs" if "\<And>r. r \<in> set rs \<Longrightarrow> f r \<le> c" for f :: "event_record \<Rightarrow> nat" and c
    using that by (induction rs) (auto simp: add_mono)
  have "sum_list (map ev_unresolved rs) = sum_list (map (\<lambda>r. sum_list (ev_stationary r)) rs)"
    using r(3) by (intro arg_cong [of _ _ sum_list] map_cong) auto
  moreover have "list_all (\<lambda>i. parse_record (raws ! i) (eh_first_block h + i) = Inr (rs ! i)) [0..<eh_block_count h]"
    using v(7) by (simp add: list_all_iff)
  ultimately show ?thesis
    using v(1,3-6) parse_header_Inr(4,5) [OF v(2)] bound [OF r(1)] bound [OF r(2)] unfolding rep
    by (intro exI [of _ header] exI [of _ raws] exI [of _ rs] exI [of _ footer]) simp
qed

lemma event_stream_sound_witness:
  "\<exists>stream rep header raws footer. validate_stream stream None None = Inr rep \<and> stream = header @ concat raws @ footer \<and> length raws = 1"
proof -
  obtain rep where rep: "validate_stream (stream_bytes 7 (replicate 32 1) (replicate 32 2) [quiet_event]) None None = Inr rep" "sr_block_count rep = 1"
    using quiet_stream by blast
  from event_stream_sound [OF rep(1)] rep show ?thesis by metis
qed

text \<open>The parts that the digests of a stream cover.\<close>

definition footer_of :: "bytes \<Rightarrow> bytes" where "footer_of stream = drop (length stream - 192) stream"
definition records_of :: "bytes \<Rightarrow> bytes" where "records_of stream = drop 192 (take (length stream - 192) stream)"

text \<open>C19:
  The footer commits to the stream.  Two accepted streams whose last 32 bytes agree are the same bytes, or
  one of three explicit pairs of messages, the two footers, the two record sections or the two headers
  under their domains, is a SHA-256 collision.
\<close>

theorem event_stream_binds:
  assumes "validate_stream s gamma producer = Inr rep" "validate_stream s' gamma' producer' = Inr rep'"
    "field_at 160 32 (footer_of s) = field_at 160 32 (footer_of s')"
  shows "s = s' \<or> sha_collision (FOOTER_DOMAIN @ take 160 (footer_of s)) (FOOTER_DOMAIN @ take 160 (footer_of s')) \<or>
    sha_collision (records_of s) (records_of s') \<or> sha_collision (HEADER_DOMAIN @ take 160 s) (HEADER_DOMAIN @ take 160 s')"
proof -
  have parts: "\<exists>header. s = header @ records_of s @ footer_of s \<and> length header = 192 \<and> length (footer_of s) = 192 \<and> take 160 s = take 160 header \<and>
      field_at 160 32 (footer_of s) = sha256_digest (FOOTER_DOMAIN @ take 160 (footer_of s)) \<and>
      field_at 48 32 (footer_of s) = sha256_digest (records_of s) \<and> field_at 80 32 (footer_of s) = field_at 160 32 header \<and>
      field_at 160 32 header = sha256_digest (HEADER_DOMAIN @ take 160 s)"
    if "validate_stream s gamma producer = Inr rep" for s gamma producer rep
  proof -
    from that obtain header h raws rs footer t where v: "s = header @ concat raws @ footer" "parse_header header gamma producer = Inr h"
      "length header = 192" "length footer = 192" "\<not> footer_differs footer h t" "st_hashed t = concat raws"
      by (rule validate_stream_Inr)
    have f: "footer_of s = footer" "records_of s = concat raws" "take 160 s = take 160 header"
      using v(1,3,4) by (simp_all add: footer_of_def records_of_def)
    note h = parse_header_Inr [OF v(2)]
    have "bytes_hex (field_at 80 32 footer) = bytes_hex (field_at 160 32 header)" using v(5) h(3) by (simp add: footer_differs_def)
    then have "field_at 80 32 footer = field_at 160 32 header" using v(3,4) by (intro bytes_hex_inj) simp_all
    then show ?thesis using v f h(2) by (intro exI [of _ header]) (simp add: footer_differs_def ev_const)
  qed
  obtain header where p: "s = header @ records_of s @ footer_of s" "length header = 192" "length (footer_of s) = 192" "take 160 s = take 160 header"
      "field_at 160 32 (footer_of s) = sha256_digest (FOOTER_DOMAIN @ take 160 (footer_of s))"
      "field_at 48 32 (footer_of s) = sha256_digest (records_of s)" "field_at 80 32 (footer_of s) = field_at 160 32 header"
      "field_at 160 32 header = sha256_digest (HEADER_DOMAIN @ take 160 s)" using parts [OF assms(1)] by blast
  obtain header' where p': "s' = header' @ records_of s' @ footer_of s'" "length header' = 192" "length (footer_of s') = 192" "take 160 s' = take 160 header'"
      "field_at 160 32 (footer_of s') = sha256_digest (FOOTER_DOMAIN @ take 160 (footer_of s'))"
      "field_at 48 32 (footer_of s') = sha256_digest (records_of s')" "field_at 80 32 (footer_of s') = field_at 160 32 header'"
      "field_at 160 32 header' = sha256_digest (HEADER_DOMAIN @ take 160 s')" using parts [OF assms(2)] by blast
  have split: "x = take 160 x @ field_at 160 32 x" if "length x = 192" for x :: bytes
    using that field_split [of 160 x 32] by (metis append_Nil2 append_take_drop_id drop_all le_refl numeral_plus_numeral add_num_simps)
  show ?thesis
  proof (rule ccontr)
    assume no: "\<not> ?thesis"
    with assms(3) p(5) p'(5) have "take 160 (footer_of s) = take 160 (footer_of s')" using digest_eqD by (metis same_append_eq)
    then have footer: "footer_of s = footer_of s'" using split p(3) p'(3) assms(3) by metis
    then have "records_of s = records_of s'" using p(6) p'(6) no digest_eqD by metis
    moreover have "take 160 header = take 160 header'" using footer p(4,7,8) p'(4,7,8) no digest_eqD by (metis same_append_eq)
    then have "header = header'" using split p(2,7) p'(2,7) footer by metis
    ultimately have "s = s'" using p(1) p'(1) footer by metis
    with no show False by blast
  qed
qed

lemma event_stream_binds_witness:
  "\<exists>s rep. validate_stream s None None = Inr rep \<and>
     (s = s \<or> sha_collision (FOOTER_DOMAIN @ take 160 (footer_of s)) (FOOTER_DOMAIN @ take 160 (footer_of s)) \<or>
      sha_collision (records_of s) (records_of s) \<or> sha_collision (HEADER_DOMAIN @ take 160 s) (HEADER_DOMAIN @ take 160 s))"
proof -
  obtain s rep where s: "validate_stream s None None = Inr rep" using quiet_stream by blast
  show ?thesis using event_stream_binds [OF s s refl] s by blast
qed

text \<open>C32:
  The format is complete: for every list of events within the stated capacities (512, 24576 and 512 direct,
  510, 24574 and 510 stationary events) and weight bounds, and every range of blocks inside the source, the
  stream that a producer writes field by field is accepted, and the report gives back its range and totals.
\<close>

theorem event_stream_complete:
  assumes "length gamma = 32" "length producer = 32" "gamma \<noteq> replicate 32 0" "producer \<noteq> replicate 32 0"
    "events \<noteq> []" "first + length events \<le> SOURCE_BLOCK_COUNT" "list_all event_fits events"
  shows "\<exists>rep. validate_stream (stream_bytes first gamma producer events) None None = Inr rep \<and>
    sr_first_block rep = first \<and> sr_block_count rep = length events \<and> sr_gamma rep = bytes_hex gamma \<and>
    sr_direct rep = sum_list (map (\<lambda>e. sum_list (da_direct e)) events) \<and>
    sr_stationary rep = sum_list (map (\<lambda>e. sum_list (da_stationary e)) events)"
  by (rule written_stream_accepted [OF assms])

lemma event_stream_complete_witness:
  "\<exists>rep. validate_stream (stream_bytes 7 (replicate 32 1) (replicate 32 2) [quiet_event, full_event]) None None = Inr rep \<and>
     sr_direct rep = 25600 \<and> sr_stationary rep = 25594"
proof -
  have "replicate 32 (1 :: 8 word) \<noteq> replicate 32 0" "replicate 32 (2 :: 8 word) \<noteq> replicate 32 0" by simp_all
  from event_stream_complete [OF _ _ this, of "[quiet_event, full_event]" 7] quiet_event_fits full_event_fits
  show ?thesis by (auto simp: SOURCE_BLOCK_COUNT_def quiet_event_def full_event_def)
qed

end
