(* ===== verification/PsiCampaign.thy ===== *)
theory PsiCampaign
  imports ChunkChain "HOL-Library.Product_Lexorder"
begin

text \<open>
  Model of the psi campaign of \<open>tg_verifier/finite_campaigns.py\<close>: the segmented prime sieve, the prime
  powers of a range, the rational enclosures of logarithms, the hash-linked chunks and the verifier of
  the two envelopes.  Fields and arguments have the types of their annotations, so the \<open>isinstance\<close>
  tests have no branch.  A generator that is always consumed to its end is the list it yields, and a
  function with \<open>lru_cache\<close> is the function.
\<close>

unbundle bit_operations_syntax

definition PSI_ATOM :: pystr where "PSI_ATOM = lit ''ch25-psi-1e13''"
definition PSI_ALGORITHM :: pystr where "PSI_ALGORITHM = lit ''psi_prime_power_stream_v1''"
definition PSI_SOURCE_LIMIT :: int where "PSI_SOURCE_LIMIT = 10 ^ 13"
definition PSI_UPPER_NUMERATOR :: int where "PSI_UPPER_NUMERATOR = 19764819"
definition PSI_UPPER_DENOMINATOR :: int where "PSI_UPPER_DENOMINATOR = 25000000"
definition PSI_LOG_SERIES :: pystr where "PSI_LOG_SERIES = lit ''atanh-rational-positive-v1''"
definition MAX_SCALE_BITS :: int where "MAX_SCALE_BITS = 4096"
definition MAX_SERIES_TERMS :: int where "MAX_SERIES_TERMS = 4096"
definition MAX_HASHED_ROWS :: nat where "MAX_HASHED_ROWS = 25000000"

section \<open>Helpers\<close>

text \<open>\<open>_int(name, value, minimum=...)\<close>.\<close>

definition fc_int :: "int \<Rightarrow> int \<Rightarrow> int res" where
  "fc_int minimum value = (if value < minimum then Inl FiniteCampaignError else Inr value)"

definition fc_digest :: "pystr \<Rightarrow> pystr res" where
  "fc_digest value = (if hex_string 64 value then Inr value else Inl FiniteCampaignError)"

definition fc_canonical_bytes :: "pyval \<Rightarrow> bytes" where
  "fc_canonical_bytes value = map of_nat (ascii_json value)"

definition fc_sha256 :: "pyval \<Rightarrow> pystr" where
  "fc_sha256 value = sha256_hex (fc_canonical_bytes value)"

definition fc_floor :: "rat \<Rightarrow> int" where
  "fc_floor value = (let (numerator, denominator) = quotient_of value in numerator div denominator)"

definition fc_ceil :: "rat \<Rightarrow> int" where
  "fc_ceil value = (let (numerator, denominator) = quotient_of value in - (- numerator div denominator))"

section \<open>Primes\<close>

definition simple_primes :: "int \<Rightarrow> nat list res" where
  "simple_primes limit = ebind (fc_int 0 limit) (\<lambda>limit.
     if limit < 2 then Inr []
     else
       let n = nat limit;
           composite = foldl strike_prime (replicate (n + 1) False) [2..<isqrt n + 1]
       in Inr (filter (\<lambda>number. \<not> composite ! number) [2..<n + 1]))"

text \<open>The loop over the base primes for the segment \<open>[lo, hi)\<close>, with its \<open>break\<close>.\<close>

fun segment_sieve :: "nat \<Rightarrow> nat \<Rightarrow> bool list \<Rightarrow> nat list \<Rightarrow> bool list" where
  "segment_sieve lo hi composite [] = composite"
| "segment_sieve lo hi composite (prime # base) =
     (if prime * prime \<ge> hi \<and> prime > isqrt (hi - 1) then composite
      else
        let first = max (prime * prime) ((lo + prime - 1) div prime * prime)
        in segment_sieve lo hi (if first < hi then strike (first - lo) prime composite else composite) base)"

definition segment_primes :: "nat list \<Rightarrow> nat \<Rightarrow> nat \<Rightarrow> nat \<Rightarrow> nat list" where
  "segment_primes base upper segment_size lo =
     (let hi = min upper (lo + segment_size);
          composite = segment_sieve lo hi (replicate (hi - lo) False) base
      in map (\<lambda>offset. lo + offset) (filter (\<lambda>offset. \<not> composite ! offset) [0..<hi - lo]))"

definition iter_primes_segmented :: "int \<Rightarrow> int \<Rightarrow> int \<Rightarrow> nat list res" where
  "iter_primes_segmented lower upper segment_size =
     ebind (fc_int 0 lower) (\<lambda>lower. ebind (fc_int 0 upper) (\<lambda>upper. ebind (fc_int 1 segment_size) (\<lambda>segment_size.
       if upper < lower then Inl FiniteCampaignError
       else if upper \<le> 2 then Inr []
       else ebind (simple_primes (int (isqrt (nat (upper - 1))))) (\<lambda>base.
         Inr (concat (map (segment_primes base (nat upper) (nat segment_size))
           (py_range (nat (max lower 2)) (nat upper) (nat segment_size))))))))"

section \<open>Prime powers\<close>

record prime_power =
  pp_value :: nat
  pp_prime :: nat
  pp_exponent :: nat

text \<open>
  The loop over the powers of one prime.  The prime is at least two and the value positive where it is
  called; the two conditions bound the recursion.
\<close>

function power_loop :: "nat \<Rightarrow> nat \<Rightarrow> nat \<Rightarrow> nat \<Rightarrow> nat \<Rightarrow> prime_power list" where
  "power_loop prime lower upper v exponent =
     (if v < upper \<and> 1 < prime \<and> 0 < v then
        let events = (if v \<ge> lower then [\<lparr>pp_value = v, pp_prime = prime, pp_exponent = exponent\<rparr>] else [])
        in if v > (upper - 1) div prime then events
           else events @ power_loop prime lower upper (v * prime) (exponent + 1)
      else [])"
  by pat_completeness auto
termination
proof (relation "measure (\<lambda>(prime, lower, upper, v, exponent). upper - v)")
  fix prime lower upper v exponent :: nat and events :: "prime_power list"
  assume *: "v < upper \<and> 1 < prime \<and> 0 < v"
  then have "v * 1 < v * prime" by (intro mult_strict_left_mono) simp_all
  with * have "upper - v * prime < upper - v" by linarith
  then show "((prime, lower, upper, v * prime, exponent + 1), prime, lower, upper, v, exponent)
      \<in> measure (\<lambda>(prime, lower, upper, v, exponent). upper - v)" by simp
qed simp

declare power_loop.simps [simp del]

definition prime_power_key :: "prime_power \<Rightarrow> nat \<times> nat \<times> nat" where
  "prime_power_key e = (pp_value e, pp_prime e, pp_exponent e)"

definition prime_power_events :: "int \<Rightarrow> int \<Rightarrow> int \<Rightarrow> prime_power list res" where
  "prime_power_events lower upper segment_size =
     ebind (fc_int 1 lower) (\<lambda>lower. ebind (fc_int 1 upper) (\<lambda>upper.
       if upper < lower then Inl FiniteCampaignError
       else if upper = lower \<or> upper \<le> 2 then Inr []
       else ebind (iter_primes_segmented lower upper segment_size) (\<lambda>primes.
         ebind (simple_primes (int (isqrt (nat (upper - 1))))) (\<lambda>base.
           let events = map (\<lambda>prime. \<lparr>pp_value = prime, pp_prime = prime, pp_exponent = 1\<rparr>) primes @
             concat (map (\<lambda>prime. power_loop prime (nat lower) (nat upper) (prime * prime) 2) base)
           in Inr (sort_key prime_power_key events)))))"

section \<open>Logarithms\<close>

text \<open>One pass of the loop over the series: the partial sum and the next power.\<close>

definition log_series_step :: "rat \<Rightarrow> rat \<times> rat \<Rightarrow> nat \<Rightarrow> rat \<times> rat" where
  "log_series_step z_squared state index =
     (case state of (partial, z_power) \<Rightarrow> (partial + z_power / of_nat (2 * index + 1), z_power * z_squared))"

definition positive_log_series_bounds :: "int \<Rightarrow> int \<Rightarrow> int \<Rightarrow> (rat \<times> rat) res" where
  "positive_log_series_bounds numerator denominator terms =
     ebind (fc_int 1 numerator) (\<lambda>numerator. ebind (fc_int 1 denominator) (\<lambda>denominator. ebind (fc_int 1 terms) (\<lambda>terms.
       if terms > MAX_SERIES_TERMS then Inl FiniteCampaignError
       else if \<not> (denominator \<le> numerator \<and> numerator \<le> 2 * denominator) then Inl FiniteCampaignError
       else
         let z = of_int (numerator - denominator) / of_int (numerator + denominator)
         in if z = 0 then Inr (0, 0)
            else
              let z_squared = z * z;
                  (partial, z_power) = foldl (log_series_step z_squared) (0, z) [0..<nat terms];
                  lower = 2 * partial;
                  remainder = 2 * z_power / (of_int (2 * terms + 1) * (1 - z_squared))
              in Inr (lower, lower + remainder))))"

definition fixed_log_bounds :: "int \<Rightarrow> int \<Rightarrow> int \<Rightarrow> (int \<times> int) res" where
  "fixed_log_bounds prime scale_bits terms =
     ebind (fc_int 2 prime) (\<lambda>prime. ebind (fc_int 1 scale_bits) (\<lambda>scale_bits.
       if scale_bits > MAX_SCALE_BITS then Inl FiniteCampaignError
       else ebind (fc_int 1 terms) (\<lambda>terms.
         if terms > MAX_SERIES_TERMS then Inl FiniteCampaignError
         else
           let exponent = bit_length (nat prime) - 1; power_of_two = push_bit exponent 1
           in ebind (positive_log_series_bounds 2 1 terms) (\<lambda>(log_two_lower, log_two_upper).
              ebind (positive_log_series_bounds prime power_of_two terms) (\<lambda>(mantissa_lower, mantissa_upper).
                let lower = of_nat exponent * log_two_lower + mantissa_lower;
                    upper = of_nat exponent * log_two_upper + mantissa_upper;
                    scale = of_int (push_bit (nat scale_bits) 1)
                in Inr (fc_floor (lower * scale), fc_ceil (upper * scale)))))))"

section \<open>Chunks\<close>

record psi_event =
  pe_value :: int
  pe_prime :: int
  pe_exponent :: int
  pe_log_lower :: int
  pe_log_upper :: int

definition psi_event_body :: "psi_event \<Rightarrow> pyval" where
  "psi_event_body e = PList (map PInt [pe_value e, pe_prime e, pe_exponent e, pe_log_lower e, pe_log_upper e])"

record psi_chunk =
  pk_lower :: int
  pk_upper :: int
  pk_scale_bits :: int
  pk_series_terms :: int
  pk_incoming_lower :: int
  pk_incoming_upper :: int
  pk_outgoing_lower :: int
  pk_outgoing_upper :: int
  pk_events :: "psi_event list"
  pk_previous_hash :: pystr
  pk_record_hash :: pystr

definition psi_body :: "psi_chunk \<Rightarrow> pyval" where
  "psi_body c = PDict (map (\<lambda>(k, v). (lit k, v))
     [(''algorithm'', PStr PSI_ALGORITHM), (''atom'', PStr PSI_ATOM), (''events'', PList (map psi_event_body (pk_events c))),
      (''incoming_lower'', PInt (pk_incoming_lower c)), (''incoming_upper'', PInt (pk_incoming_upper c)),
      (''log_series'', PStr PSI_LOG_SERIES), (''lower'', PInt (pk_lower c)), (''outgoing_lower'', PInt (pk_outgoing_lower c)),
      (''outgoing_upper'', PInt (pk_outgoing_upper c)), (''previous_hash'', PStr (pk_previous_hash c)),
      (''scale_bits'', PInt (pk_scale_bits c)), (''series_terms'', PInt (pk_series_terms c)), (''upper'', PInt (pk_upper c))])"

definition psi_recomputed_hash :: "psi_chunk \<Rightarrow> pystr" where
  "psi_recomputed_hash c = fc_sha256 (psi_body c)"

definition rehash_psi_chunk :: "psi_chunk \<Rightarrow> psi_chunk" where
  "rehash_psi_chunk c = c\<lparr>pk_record_hash := psi_recomputed_hash c\<rparr>"

text \<open>The loop over the prime powers: the events so far and the two running totals.\<close>

fun psi_event_loop :: "int \<Rightarrow> int \<Rightarrow> psi_event list \<times> int \<times> int \<Rightarrow> prime_power list \<Rightarrow> (psi_event list \<times> int \<times> int) res" where
  "psi_event_loop scale_bits series_terms state [] = Inr state"
| "psi_event_loop scale_bits series_terms (events, psi_lower, psi_upper) (e # rest) =
     ebind (fixed_log_bounds (int (pp_prime e)) scale_bits series_terms) (\<lambda>(log_lower, log_upper).
       psi_event_loop scale_bits series_terms
         (events @ [\<lparr>pe_value = int (pp_value e), pe_prime = int (pp_prime e), pe_exponent = int (pp_exponent e),
            pe_log_lower = log_lower, pe_log_upper = log_upper\<rparr>], psi_lower + log_lower, psi_upper + log_upper) rest)"

definition create_psi_chunk :: "int \<Rightarrow> int \<Rightarrow> int \<Rightarrow> int \<Rightarrow> int \<Rightarrow> int \<Rightarrow> pystr \<Rightarrow> int \<Rightarrow> psi_chunk res" where
  "create_psi_chunk lower upper scale_bits series_terms incoming_lower incoming_upper previous_hash segment_size =
     ebind (fc_int 2 lower) (\<lambda>_. ebind (fc_int 3 upper) (\<lambda>_.
     if upper \<le> lower then Inl FiniteCampaignError
     else ebind (fc_int 1 scale_bits) (\<lambda>_. ebind (fc_int 1 series_terms) (\<lambda>_.
     ebind (fc_int 0 incoming_lower) (\<lambda>_. ebind (fc_int 0 incoming_upper) (\<lambda>_.
     if incoming_lower > incoming_upper then Inl FiniteCampaignError
     else ebind (fc_digest previous_hash) (\<lambda>_.
     ebind (prime_power_events lower upper segment_size) (\<lambda>powers.
     ebind (psi_event_loop scale_bits series_terms ([], incoming_lower, incoming_upper) powers) (\<lambda>(events, psi_lower, psi_upper).
     Inr (rehash_psi_chunk \<lparr>pk_lower = lower, pk_upper = upper, pk_scale_bits = scale_bits, pk_series_terms = series_terms,
       pk_incoming_lower = incoming_lower, pk_incoming_upper = incoming_upper, pk_outgoing_lower = psi_lower,
       pk_outgoing_upper = psi_upper, pk_events = events, pk_previous_hash = previous_hash, pk_record_hash = ZERO_SHA256\<rparr>))))))))))"

section \<open>The envelopes\<close>

definition check_lower_psi_limit :: "int \<Rightarrow> int \<Rightarrow> int \<Rightarrow> bool" where
  "check_lower_psi_limit v psi_lower scale =
     (let difference = v * scale - psi_lower
      in difference \<le> 0 \<or> difference * difference \<le> 2 * v * scale * scale)"

definition check_upper_psi_jump :: "int \<Rightarrow> int \<Rightarrow> int \<Rightarrow> bool" where
  "check_upper_psi_jump v psi_upper scale =
     (let difference = psi_upper - v * scale
      in if difference \<le> 0 then True
         else difference * difference * PSI_UPPER_DENOMINATOR * PSI_UPPER_DENOMINATOR
           \<le> PSI_UPPER_NUMERATOR * PSI_UPPER_NUMERATOR * v * scale * scale)"

definition check_psi_event :: "psi_event \<Rightarrow> unit res" where
  "check_psi_event e =
     ebind (fc_int 2 (pe_value e)) (\<lambda>_. ebind (fc_int 2 (pe_prime e)) (\<lambda>_. ebind (fc_int 1 (pe_exponent e)) (\<lambda>_.
     ebind (fc_int 0 (pe_log_lower e)) (\<lambda>_. ebind (fc_int 0 (pe_log_upper e)) (\<lambda>_.
       if pe_log_lower e > pe_log_upper e then Inl FiniteCampaignError else Inr ())))))"

text \<open>The loop over the stored and the recomputed events.\<close>

fun psi_scan :: "int \<Rightarrow> int \<Rightarrow> int \<times> int \<Rightarrow> (psi_event \<times> prime_power) list \<Rightarrow> (int \<times> int) res" where
  "psi_scan scale_bits terms state [] = Inr state"
| "psi_scan scale_bits terms (psi_lower, psi_upper) ((stored, exact) # rest) =
     (let scale = push_bit (nat scale_bits) 1
      in if (pe_value stored, pe_prime stored, pe_exponent stored) \<noteq>
            (int (pp_value exact), int (pp_prime exact), int (pp_exponent exact)) then Inl FiniteCampaignError
         else ebind (fixed_log_bounds (int (pp_prime exact)) scale_bits terms) (\<lambda>(log_lower, log_upper).
           if (pe_log_lower stored, pe_log_upper stored) \<noteq> (log_lower, log_upper) then Inl FiniteCampaignError
           else if \<not> check_lower_psi_limit (int (pp_value exact)) psi_lower scale then Inl FiniteCampaignError
           else if \<not> check_upper_psi_jump (int (pp_value exact)) (psi_upper + log_upper) scale then Inl FiniteCampaignError
           else psi_scan scale_bits terms (psi_lower + log_lower, psi_upper + log_upper) rest))"

definition verify_psi_chunk :: "psi_chunk \<Rightarrow> int \<Rightarrow> (nat \<times> int \<times> int) res" where
  "verify_psi_chunk c segment_size =
     ebind (fc_int 2 (pk_lower c)) (\<lambda>_. ebind (fc_int 3 (pk_upper c)) (\<lambda>_.
     if pk_upper c \<le> pk_lower c then Inl FiniteCampaignError
     else ebind (fc_int 1 (pk_scale_bits c)) (\<lambda>scale_bits.
     if scale_bits > MAX_SCALE_BITS then Inl FiniteCampaignError
     else ebind (fc_int 1 (pk_series_terms c)) (\<lambda>terms.
     if terms > MAX_SERIES_TERMS then Inl FiniteCampaignError
     else ebind (fc_int 0 (pk_incoming_lower c)) (\<lambda>incoming_lower. ebind (fc_int 0 (pk_incoming_upper c)) (\<lambda>incoming_upper.
     if incoming_lower > incoming_upper then Inl FiniteCampaignError
     else ebind (fc_digest (pk_previous_hash c)) (\<lambda>_. ebind (fc_digest (pk_record_hash c)) (\<lambda>_.
     ebind (map_res check_psi_event (pk_events c)) (\<lambda>_.
     if psi_recomputed_hash c \<noteq> pk_record_hash c then Inl FiniteCampaignError
     else ebind (prime_power_events (pk_lower c) (pk_upper c) segment_size) (\<lambda>expected.
     if length (pk_events c) \<noteq> length expected then Inl FiniteCampaignError
     else if length expected > MAX_HASHED_ROWS then Inl FiniteCampaignError
     else ebind (psi_scan scale_bits terms (incoming_lower, incoming_upper) (zip (pk_events c) expected)) (\<lambda>(psi_lower, psi_upper).
     if (pk_outgoing_lower c, pk_outgoing_upper c) \<noteq> (psi_lower, psi_upper) then Inl FiniteCampaignError
     else Inr (length expected, psi_lower, psi_upper))))))))))))"

section \<open>Chains\<close>

record psi_verification =
  pv_limit :: int
  pv_chunks :: nat
  pv_events :: nat
  pv_final_lower :: int
  pv_final_upper :: int
  pv_final_hash :: pystr
  pv_full_source_range :: bool

definition psi_link_broken :: "psi_chunk \<Rightarrow> psi_chunk \<Rightarrow> psi_chunk \<Rightarrow> bool" where
  "psi_link_broken first previous c \<longleftrightarrow> pk_lower c \<noteq> pk_upper previous \<or> pk_previous_hash c \<noteq> pk_record_hash previous \<or>
     (pk_incoming_lower c, pk_incoming_upper c) \<noteq> (pk_outgoing_lower previous, pk_outgoing_upper previous) \<or>
     (pk_scale_bits c, pk_series_terms c) \<noteq> (pk_scale_bits first, pk_series_terms first)"

text \<open>The loop over the later chunks: the last chunk, the number of events and of chunks.\<close>

fun psi_chain_loop :: "psi_chunk \<Rightarrow> int \<Rightarrow> psi_chunk \<times> nat \<times> nat \<Rightarrow> psi_chunk list \<Rightarrow> (psi_chunk \<times> nat \<times> nat) res" where
  "psi_chain_loop first segment_size state [] = Inr state"
| "psi_chain_loop first segment_size (previous, total_events, chunk_count) (c # rest) =
     (if psi_link_broken first previous c then Inl FiniteCampaignError
      else ebind (verify_psi_chunk c segment_size) (\<lambda>(count, _, _).
        psi_chain_loop first segment_size (c, total_events + count, chunk_count + 1) rest))"

definition verify_psi_chain :: "psi_chunk list \<Rightarrow> int \<Rightarrow> int \<Rightarrow> psi_verification res" where
  "verify_psi_chain chunks expected_limit segment_size =
     ebind (fc_int 2 expected_limit) (\<lambda>_.
     case chunks of
       [] \<Rightarrow> Inl FiniteCampaignError
     | first # rest \<Rightarrow>
       if pk_lower first \<noteq> 2 then Inl FiniteCampaignError
       else if pk_incoming_lower first \<noteq> 0 \<or> pk_incoming_upper first \<noteq> 0 then Inl FiniteCampaignError
       else if pk_previous_hash first \<noteq> ZERO_SHA256 then Inl FiniteCampaignError
       else ebind (verify_psi_chunk first segment_size) (\<lambda>(count, _, _).
       ebind (psi_chain_loop first segment_size (first, count, 1) rest) (\<lambda>(previous, total_events, chunk_count).
       if pk_upper previous \<noteq> expected_limit + 1 then Inl FiniteCampaignError
       else
         let scale = push_bit (nat (pk_scale_bits first)) 1;
             terminal_difference = expected_limit * scale - pk_outgoing_lower previous
         in if terminal_difference > 0 \<and> terminal_difference * terminal_difference \<ge> 2 * expected_limit * scale * scale
            then Inl FiniteCampaignError
            else Inr \<lparr>pv_limit = expected_limit, pv_chunks = chunk_count, pv_events = total_events,
              pv_final_lower = pk_outgoing_lower previous, pv_final_upper = pk_outgoing_upper previous,
              pv_final_hash = pk_record_hash previous, pv_full_source_range = (expected_limit = PSI_SOURCE_LIMIT)\<rparr>)))"

text \<open>The generator of a certificate.  The span is positive; the test bounds the recursion.\<close>

function psi_certificate_loop ::
  "int \<Rightarrow> int \<Rightarrow> int \<Rightarrow> int \<Rightarrow> int \<Rightarrow> int \<Rightarrow> int \<Rightarrow> int \<Rightarrow> pystr \<Rightarrow> psi_chunk list res" where
  "psi_certificate_loop limit chunk_span scale_bits series_terms segment_size lower incoming_lower incoming_upper previous_hash =
     (if lower \<le> limit \<and> 0 < chunk_span then
        let upper = min (limit + 1) (lower + chunk_span)
        in ebind (create_psi_chunk lower upper scale_bits series_terms incoming_lower incoming_upper previous_hash segment_size) (\<lambda>c.
           ebind (psi_certificate_loop limit chunk_span scale_bits series_terms segment_size upper
             (pk_outgoing_lower c) (pk_outgoing_upper c) (pk_record_hash c)) (\<lambda>rest. Inr (c # rest)))
      else Inr [])"
  by pat_completeness auto
termination
  by (relation "measure (\<lambda>(limit, chunk_span, scale_bits, series_terms, segment_size, lower, incoming_lower, incoming_upper, previous_hash).
    nat (limit + 1 - lower))") auto

declare psi_certificate_loop.simps [simp del]

definition iter_psi_certificate :: "int \<Rightarrow> int \<Rightarrow> int \<Rightarrow> int \<Rightarrow> int \<Rightarrow> psi_chunk list res" where
  "iter_psi_certificate limit chunk_span scale_bits series_terms segment_size =
     ebind (fc_int 2 limit) (\<lambda>_. ebind (fc_int 1 chunk_span) (\<lambda>_.
       psi_certificate_loop limit chunk_span scale_bits series_terms segment_size 2 0 0 ZERO_SHA256))"

end
