(* ===== verification/LogExp.thy ===== *)
theory LogExp
  imports Prelude
begin

text \<open>
  The real analysis behind the rational enclosures: the partial sums of the positive series for the
  logarithm of \<open>(1 + z) / (1 - z)\<close> and of the exponential series, each with a geometric bound on its
  tail.
\<close>

section \<open>The logarithm\<close>

definition atanh_sum :: "nat \<Rightarrow> real \<Rightarrow> real" where
  "atanh_sum n z = (\<Sum>j<n. z ^ (2 * j + 1) / real (2 * j + 1))"

lemma odd_power_deriv: "((\<lambda>z. z ^ (2 * j + 1)) has_real_derivative real (2 * j + 1) * z ^ (2 * j)) (at z)"
  using DERIV_pow [of "2 * j + 1" z] by simp

lemma atanh_sum_deriv:
  assumes "z\<^sup>2 \<noteq> 1"
  shows "(atanh_sum n has_real_derivative (1 - z ^ (2 * n)) / (1 - z\<^sup>2)) (at z)"
proof -
  have "((\<lambda>z. \<Sum>j<n. z ^ (2 * j + 1) / real (2 * j + 1)) has_real_derivative (\<Sum>j<n. (z\<^sup>2) ^ j)) (at z)"
  proof (rule DERIV_sum)
    fix j
    have "((\<lambda>z. z ^ (2 * j + 1) / real (2 * j + 1)) has_real_derivative real (2 * j + 1) * z ^ (2 * j) / real (2 * j + 1)) (at z)"
      by (rule DERIV_cdivide [OF odd_power_deriv])
    then show "((\<lambda>z. z ^ (2 * j + 1) / real (2 * j + 1)) has_real_derivative (z\<^sup>2) ^ j) (at z)" by (simp add: power_mult)
  qed
  moreover have "(\<Sum>j<n. (z\<^sup>2) ^ j) = (1 - z ^ (2 * n)) / (1 - z\<^sup>2)"
    using sum_gp_strict [of "z\<^sup>2" n] assms by (simp add: power_mult)
  ultimately show ?thesis unfolding atanh_sum_def [abs_def] by simp
qed

lemma log_ratio_deriv:
  assumes "0 \<le> z" "z < 1"
  shows "((\<lambda>z. ln (1 + z) - ln (1 - z)) has_real_derivative 2 / (1 - z\<^sup>2)) (at z)"
proof -
  have "1 / (1 + z) + 1 / (1 - z) = 2 / (1 - z\<^sup>2)"
    using assms by (simp add: field_simps power2_eq_square)
  moreover have "((\<lambda>z. ln (1 + z) - ln (1 - z)) has_real_derivative 1 / (1 + z) + 1 / (1 - z)) (at z)"
    using assms by (auto intro!: derivative_eq_intros simp: field_simps)
  ultimately show ?thesis by simp
qed

lemma square_less_one: "0 \<le> (z :: real) \<Longrightarrow> z < 1 \<Longrightarrow> z\<^sup>2 < 1"
  by (simp add: power_less_one_iff)

lemma log_ratio_lower:
  fixes z :: real
  assumes "0 \<le> z" "z < 1"
  shows "2 * atanh_sum n z \<le> ln (1 + z) - ln (1 - z)"
proof -
  define D where "D z = (ln (1 + z) - ln (1 - z)) - 2 * atanh_sum n z" for z
  have "D 0 \<le> D z"
  proof (rule DERIV_nonneg_imp_nondecreasing [OF assms(1)])
    fix t assume "0 \<le> t" "t \<le> z"
    then have t: "0 \<le> t" "t < 1" "t\<^sup>2 < 1" using assms square_less_one [of t] by auto
    then have "(D has_real_derivative 2 / (1 - t\<^sup>2) - 2 * ((1 - t ^ (2 * n)) / (1 - t\<^sup>2))) (at t)"
      unfolding D_def [abs_def] by (intro DERIV_diff DERIV_cmult log_ratio_deriv atanh_sum_deriv) auto
    moreover have "2 / (1 - t\<^sup>2) - 2 * ((1 - t ^ (2 * n)) / (1 - t\<^sup>2)) = 2 * t ^ (2 * n) / (1 - t\<^sup>2)"
      by (simp add: diff_divide_distrib)
    ultimately show "\<exists>y. (D has_real_derivative y) (at t) \<and> 0 \<le> y" using t by (intro exI [of _ "2 * t ^ (2 * n) / (1 - t\<^sup>2)"]) simp
  qed
  moreover have "D 0 = 0" by (simp add: D_def atanh_sum_def)
  ultimately show ?thesis by (simp add: D_def)
qed

lemma log_ratio_upper:
  fixes z :: real
  assumes "0 \<le> z" "z < 1"
  shows "ln (1 + z) - ln (1 - z) \<le> 2 * atanh_sum n z + 2 * z ^ (2 * n + 1) / (real (2 * n + 1) * (1 - z\<^sup>2))"
proof -
  define D where "D z = 2 * (z ^ (2 * n + 1) / (real (2 * n + 1) * (1 - z\<^sup>2))) - ((ln (1 + z) - ln (1 - z)) - 2 * atanh_sum n z)" for z
  have "D 0 \<le> D z"
  proof (rule DERIV_nonneg_imp_nondecreasing [OF assms(1)])
    fix t assume "0 \<le> t" "t \<le> z"
    then have t: "0 \<le> t" "t < 1" "t\<^sup>2 < 1" using assms square_less_one [of t] by auto
    define c where "c = real (2 * n + 1)"
    define w where "w = 1 - t\<^sup>2"
    have cw: "0 < c" "0 < w" using t by (simp_all add: c_def w_def)
    have "((\<lambda>z. z ^ (2 * n + 1) / (c * (1 - z\<^sup>2))) has_real_derivative
        (c * t ^ (2 * n) * (c * (1 - t\<^sup>2)) - t ^ (2 * n + 1) * (c * (- (2 * t)))) / (c * (1 - t\<^sup>2) * (c * (1 - t\<^sup>2)))) (at t)"
    proof (rule DERIV_divide)
      show "((\<lambda>z. z ^ (2 * n + 1)) has_real_derivative c * t ^ (2 * n)) (at t)" unfolding c_def by (rule odd_power_deriv)
      show "((\<lambda>z. c * (1 - z\<^sup>2)) has_real_derivative c * (- (2 * t))) (at t)" by (auto intro!: derivative_eq_intros)
    qed (use cw in \<open>simp_all add: w_def\<close>)
    moreover have "(c * t ^ (2 * n) * (c * (1 - t\<^sup>2)) - t ^ (2 * n + 1) * (c * (- (2 * t)))) / (c * (1 - t\<^sup>2) * (c * (1 - t\<^sup>2))) =
        t ^ (2 * n) / w + 2 * t ^ (2 * n + 2) / (c * w * w)"
      using cw unfolding w_def [symmetric] by (simp add: field_simps)
    ultimately have tail: "((\<lambda>z. z ^ (2 * n + 1) / (c * (1 - z\<^sup>2))) has_real_derivative
        t ^ (2 * n) / w + 2 * t ^ (2 * n + 2) / (c * w * w)) (at t)" by simp
    have "(D has_real_derivative 2 * (t ^ (2 * n) / w + 2 * t ^ (2 * n + 2) / (c * w * w)) -
        (2 / (1 - t\<^sup>2) - 2 * ((1 - t ^ (2 * n)) / (1 - t\<^sup>2)))) (at t)"
      unfolding D_def [abs_def] using t tail unfolding c_def
      by (intro DERIV_diff DERIV_cmult log_ratio_deriv atanh_sum_deriv) auto
    moreover have "2 * (t ^ (2 * n) / w + 2 * t ^ (2 * n + 2) / (c * w * w)) -
        (2 / (1 - t\<^sup>2) - 2 * ((1 - t ^ (2 * n)) / (1 - t\<^sup>2))) = 4 * t ^ (2 * n + 2) / (c * w * w)"
      by (simp add: w_def [symmetric] diff_divide_distrib)
    ultimately have "(D has_real_derivative 4 * t ^ (2 * n + 2) / (c * w * w)) (at t)" by (simp only:)
    moreover have "0 \<le> 4 * t ^ (2 * n + 2) / (c * w * w)" using t(1) cw by simp
    ultimately show "\<exists>y. (D has_real_derivative y) (at t) \<and> 0 \<le> y" by blast
  qed
  moreover have "D 0 = 0" by (simp add: D_def atanh_sum_def)
  ultimately show ?thesis by (simp add: D_def)
qed

section \<open>The exponential\<close>

definition exp_sum :: "nat \<Rightarrow> real \<Rightarrow> real" where
  "exp_sum n x = (\<Sum>i<n. x ^ i / fact i)"

lemma exp_as_sum: "exp x = (\<Sum>i. x ^ (i + n) / fact (i + n)) + exp_sum n x" for x :: real
proof -
  have "summable (\<lambda>i. x ^ i / fact i)" using summable_exp [of x] by (simp add: divide_inverse mult.commute)
  moreover have "exp x = (\<Sum>i. x ^ i / fact i)" unfolding exp_def by (simp add: divide_inverse mult.commute)
  ultimately show ?thesis unfolding exp_sum_def using suminf_split_initial_segment [of "\<lambda>i. x ^ i / fact i" n] by simp
qed

lemma exp_tail_summable: "summable (\<lambda>i. x ^ (i + n) / fact (i + n))" for x :: real
proof -
  have "summable (\<lambda>i. x ^ i / fact i)" using summable_exp [of x] by (simp add: divide_inverse mult.commute)
  then show ?thesis by (rule summable_ignore_initial_segment)
qed

lemma exp_sum_lower: "0 \<le> x \<Longrightarrow> exp_sum n x \<le> exp x"
  using exp_as_sum [of x n] suminf_nonneg [OF exp_tail_summable [of x n]] by simp

lemma exp_sum_upper:
  fixes x :: real
  assumes "0 \<le> x" "x < real (n + 1)"
  shows "exp x \<le> exp_sum n x + (x ^ n / fact n) / (1 - x / real (n + 1))"
proof -
  define r where "r = x / real (n + 1)"
  have r: "0 \<le> r" "r < 1" using assms by (simp_all add: r_def)
  have step: "x ^ (i + n) / fact (i + n) \<le> (x ^ n / fact n) * r ^ i" for i
  proof (induction i)
    case (Suc i)
    have "x ^ Suc m / fact (Suc m) = (x ^ m / fact m) * (x / real (Suc m))" for m
      by (simp only: power_Suc fact_Suc times_divide_times_eq) (simp add: mult.commute)
    then have "x ^ (Suc i + n) / fact (Suc i + n) = (x ^ (i + n) / fact (i + n)) * (x / real (Suc (i + n)))"
      by (simp only: add_Suc)
    also have "\<dots> \<le> ((x ^ n / fact n) * r ^ i) * r"
    proof (rule mult_mono [OF Suc])
      show "x / real (Suc (i + n)) \<le> r" unfolding r_def using assms(1) by (intro divide_left_mono) simp_all
    qed (use assms(1) r in simp_all)
    finally show ?case by (simp add: mult.assoc mult.commute [of r])
  qed simp
  have sum: "summable (\<lambda>i. (x ^ n / fact n) * r ^ i)" using r by (intro summable_mult summable_geometric) simp
  have "(\<Sum>i. x ^ (i + n) / fact (i + n)) \<le> (\<Sum>i. (x ^ n / fact n) * r ^ i)"
    by (rule suminf_le [OF step exp_tail_summable sum])
  also have "\<dots> = (x ^ n / fact n) * (\<Sum>i. r ^ i)" using r by (intro suminf_mult summable_geometric) simp
  also have "\<dots> = (x ^ n / fact n) / (1 - r)" using r by (simp add: suminf_geometric)
  finally show ?thesis using exp_as_sum [of x n] by (simp add: r_def)
qed

end
