(* ===== verification/PsiCampaign_Facts.thy ===== *)
theory PsiCampaign_Facts
  imports PsiCampaign Sieve_Correct LogExp
begin

text \<open>
  What the parts of the psi campaign compute: the segmented sieve is the list of primes, the events of a
  range are its prime powers in order, and the fixed-point bounds enclose the logarithm.
\<close>

lemma fc_int_Inr [simp]: "fc_int m v = Inr w \<longleftrightarrow> w = v \<and> m \<le> v"
  by (auto simp: fc_int_def)

lemma fc_floor_eq [simp]: "fc_floor v = \<lfloor>v\<rfloor>"
  by (simp add: fc_floor_def rat_floor_code)

lemma fc_ceil_eq [simp]: "fc_ceil v = \<lceil>v\<rceil>"
  by (simp add: fc_ceil_def ceiling_def rat_floor_code rat_uminus_code split: prod.splits)

section \<open>The segmented sieve\<close>

lemma simple_primes_eq:
  "simple_primes limit = (if limit < 0 then Inl FiniteCampaignError else Inr (filter is_prime [2..<nat limit + 1]))"
proof (cases "limit < 0")
  case False
  then have "simple_primes limit = primes_through limit"
    by (simp add: simple_primes_def primes_through_def fc_int_def require_min_def)
  with False show ?thesis by (simp add: primes_through_eq)
qed (simp add: simple_primes_def fc_int_def)

lemma length_segment_sieve [simp]: "length (segment_sieve lo hi composite base) = length composite"
  by (induction base arbitrary: composite) (simp_all add: Let_def)

lemma segment_sieve_nth:
  assumes "sorted base" "\<forall>p \<in> set base. 1 < p" "length composite = hi - lo" "i < hi - lo"
  shows "segment_sieve lo hi composite base ! i \<longleftrightarrow> composite ! i \<or> (\<exists>p \<in> set base. p * p \<le> lo + i \<and> p dvd lo + i)"
  using assms(1-3)
proof (induction base arbitrary: composite)
  case Nil
  then show ?case by simp
next
  case (Cons p base)
  show ?case
  proof (cases "p * p \<ge> hi \<and> p > isqrt (hi - 1)")
    case True
    have "hi \<le> q * q" if "q \<in> set (p # base)" for q
    proof -
      have "p \<le> q" using that Cons.prems(1) by auto
      then have "p * p \<le> q * q" by (intro mult_le_mono)
      with True show ?thesis by linarith
    qed
    then have "\<not> (\<exists>q \<in> set (p # base). q * q \<le> lo + i \<and> q dvd lo + i)" using assms(4) by force
    with True show ?thesis by auto
  next
    case False
    have p: "0 < p" using Cons.prems(2) by simp
    define c where "c = (lo + p - 1) div p * p"
    define first where "first = max (p * p) c"
    define composite' where "composite' = (if first < hi then strike (first - lo) p composite else composite)"
    have step: "segment_sieve lo hi composite (p # base) = segment_sieve lo hi composite' base"
      unfolding composite'_def first_def c_def segment_sieve.simps(2) Let_def using False by (simp only: if_False)
    have multiple: "p dvd first" unfolding first_def c_def max_def by simp
    have "lo \<le> c" unfolding c_def using first_multiple(1) [OF p] .
    then have "lo \<le> first" by (simp add: first_def)
    have reach: "first \<le> lo + i \<longleftrightarrow> p * p \<le> lo + i" if "p dvd lo + i"
      using first_multiple(2) [OF p that] by (auto simp: first_def c_def)
    have hit: "first - lo \<le> i \<and> (i - (first - lo)) mod p = 0 \<longleftrightarrow> p * p \<le> lo + i \<and> p dvd lo + i"
    proof (cases "first \<le> lo + i")
      case True
      then have "i - (first - lo) = lo + i - first" using \<open>lo \<le> first\<close> by simp
      moreover have "p dvd lo + i - first \<longleftrightarrow> p dvd lo + i" using multiple True dvd_diffD [of p "lo + i" first] dvd_diff_nat [of p "lo + i" first] by blast
      ultimately show ?thesis using True reach by (auto simp: mod_eq_0_iff_dvd)
    next
      case False
      with reach show ?thesis by auto
    qed
    have "composite' ! i \<longleftrightarrow> composite ! i \<or> p * p \<le> lo + i \<and> p dvd lo + i"
    proof (cases "first < hi")
      case True
      then show ?thesis using Cons.prems(3) assms(4) hit by (auto simp: composite'_def strike_nth)
    next
      case False
      then have "\<not> first \<le> lo + i" using assms(4) by simp
      with False reach show ?thesis by (auto simp: composite'_def)
    qed
    moreover have "length composite' = hi - lo" using Cons.prems(3) by (simp add: composite'_def)
    moreover have "segment_sieve lo hi composite' base ! i \<longleftrightarrow> composite' ! i \<or> (\<exists>p \<in> set base. p * p \<le> lo + i \<and> p dvd lo + i)"
      using Cons.prems calculation(2) by (intro Cons.IH) auto
    ultimately show ?thesis unfolding step by auto
  qed
qed

lemma map_add_upt_filter: "map ((+) lo) (filter (\<lambda>i. P (lo + i)) [0..<n]) = filter P [lo..<lo + n]"
proof -
  have "[lo..<lo + n] = map ((+) lo) [0..<n]" by (rule nth_equalityI) simp_all
  then show ?thesis by (simp add: filter_map o_def)
qed

lemma segment_primes_eq:
  assumes "2 \<le> lo" "lo < upper"
  shows "segment_primes (filter is_prime [2..<isqrt (upper - 1) + 1]) upper n lo = filter is_prime [lo..<min upper (lo + n)]"
proof -
  let ?base = "filter is_prime [2..<isqrt (upper - 1) + 1]"
  define hi where "hi = min upper (lo + n)"
  have hi: "lo \<le> hi" "hi \<le> upper" using assms by (simp_all add: hi_def)
  have mark: "segment_sieve lo hi (replicate (hi - lo) False) ?base ! i \<longleftrightarrow> \<not> is_prime (lo + i)" if i: "i < hi - lo" for i
  proof -
    have n: "1 < lo + i" "lo + i \<le> upper - 1" using assms(1) i hi by linarith+
    have "(\<exists>p \<in> set ?base. p * p \<le> lo + i \<and> p dvd lo + i) \<longleftrightarrow> \<not> is_prime (lo + i)"
    proof
      assume "\<exists>p \<in> set ?base. p * p \<le> lo + i \<and> p dvd lo + i"
      then obtain p where p: "is_prime p" "p * p \<le> lo + i" "p dvd lo + i" by auto
      show "\<not> is_prime (lo + i)"
      proof
        assume "is_prime (lo + i)"
        then have "p = lo + i" using p by (simp add: prime_dvd_prime)
        with p(2) prime_gt_1 [OF p(1)] show False by simp
      qed
    next
      assume "\<not> is_prime (lo + i)"
      note c = composite_lpf(5) [OF n(1) this] lpf(1,2) [OF n(1)]
      have "lpf (lo + i) \<le> isqrt (upper - 1)" unfolding le_isqrt_iff using c(1) n(2) by linarith
      moreover have "2 \<le> lpf (lo + i)" using prime_gt_1 [OF c(2)] by simp
      ultimately have "lpf (lo + i) \<in> set ?base" using c(2) by (simp del: upt_Suc)
      with c show "\<exists>p \<in> set ?base. p * p \<le> lo + i \<and> p dvd lo + i" by blast
    qed
    moreover have "sorted ?base" by (intro sorted_wrt_filter sorted_upt)
    moreover have "\<forall>p \<in> set ?base. 1 < p" by auto
    ultimately show ?thesis
      using segment_sieve_nth [of ?base "replicate (hi - lo) False" hi lo i] i by (simp del: upt_Suc)
  qed
  have "filter (\<lambda>offset. \<not> segment_sieve lo hi (replicate (hi - lo) False) ?base ! offset) [0..<hi - lo] =
      filter (\<lambda>offset. is_prime (lo + offset)) [0..<hi - lo]"
    using mark by (intro filter_cong refl) simp
  then show ?thesis using hi(1)
    by (simp add: segment_primes_def Let_def hi_def [symmetric] map_add_upt_filter del: upt_Suc)
qed

lemma py_range_Nil: "0 < s \<Longrightarrow> u \<le> l \<Longrightarrow> py_range l u s = []"
  by (simp add: py_range_def)

lemma py_range_Cons:
  assumes "0 < s" "l < u"
  shows "py_range l u s = l # py_range (l + s) u s"
proof -
  have "u - l + s - 1 = (u - l - 1) + s" using assms by simp
  moreover have "(a + s) div s = Suc (a div s)" for a using assms(1) by simp
  ultimately have "(u - l + s - 1) div s = Suc ((u - l - 1) div s)" by (simp only:)
  moreover have "(u - l - 1) div s = (u - (l + s) + s - 1) div s"
  proof (cases "l + s \<le> u")
    case True
    then have "u - (l + s) + s - 1 = u - l - 1" using assms by simp
    then show ?thesis by simp
  next
    case False
    then show ?thesis using assms by simp
  qed
  ultimately show ?thesis unfolding py_range_def by (simp add: upt_conv_Cons map_Suc_upt [symmetric] o_def add_ac del: upt_Suc)
qed

lemma concat_segments:
  assumes "0 < s"
  shows "concat (map (\<lambda>lo. filter P [lo..<min u (lo + s)]) (py_range l u s)) = filter P [l..<u]"
proof (induction "u - l" arbitrary: l rule: less_induct)
  case less
  show ?case
  proof (cases "l < u")
    case True
    then have "concat (map (\<lambda>lo. filter P [lo..<min u (lo + s)]) (py_range (l + s) u s)) = filter P [l + s..<u]"
      using assms by (intro less) simp
    moreover have "[l..<u] = [l..<min u (l + s)] @ [l + s..<u]"
    proof (cases "l + s \<le> u")
      case True
      then show ?thesis using upt_add_eq_append [of l "l + s" "u - (l + s)"] by (simp add: min_def)
    next
      case False
      then show ?thesis by (simp add: min_def)
    qed
    ultimately show ?thesis using py_range_Cons [OF assms True] by (simp del: upt_Suc)
  qed (simp add: py_range_Nil [OF assms])
qed

lemma py_range_bounds: "n \<in> set (py_range l u s) \<Longrightarrow> 0 < s \<Longrightarrow> l \<le> n \<and> n < u"
proof (induction "u - l" arbitrary: l rule: less_induct)
  case less
  show ?case
  proof (cases "l < u")
    case True
    then have "n = l \<or> n \<in> set (py_range (l + s) u s)" using less.prems py_range_Cons by fastforce
    moreover have "l + s \<le> n \<and> n < u" if "n \<in> set (py_range (l + s) u s)"
      using that less.prems(2) True by (intro less.hyps) simp_all
    ultimately show ?thesis using True by auto
  next
    case False
    then show ?thesis using less.prems by (simp add: py_range_Nil)
  qed
qed

lemma iter_primes_eq:
  assumes "0 \<le> lower" "lower \<le> upper" "1 \<le> segment_size"
  shows "iter_primes_segmented lower upper segment_size = Inr (filter is_prime [nat (max lower 2)..<nat upper])"
proof (cases "upper \<le> 2")
  case True
  then have "filter is_prime [nat (max lower 2)..<nat upper] = []" by simp
  with True assms show ?thesis by (simp add: iter_primes_segmented_def fc_int_def)
next
  case False
  let ?base = "filter is_prime [2..<isqrt (nat (upper - 1)) + 1]"
  let ?los = "py_range (nat (max lower 2)) (nat upper) (nat segment_size)"
  have pos: "0 < nat segment_size" using assms(3) by simp
  have "map (segment_primes ?base (nat upper) (nat segment_size)) ?los =
      map (\<lambda>lo. filter is_prime [lo..<min (nat upper) (lo + nat segment_size)]) ?los"
  proof (intro map_cong refl)
    fix lo assume "lo \<in> set ?los"
    from py_range_bounds [OF this pos] have "2 \<le> lo" "lo < nat upper" by linarith+
    moreover have "nat (upper - 1) = nat upper - 1" using False by simp
    ultimately show "segment_primes ?base (nat upper) (nat segment_size) lo = filter is_prime [lo..<min (nat upper) (lo + nat segment_size)]"
      using segment_primes_eq by presburger
  qed
  then have segments: "concat (map (segment_primes ?base (nat upper) (nat segment_size)) ?los) = filter is_prime [nat (max lower 2)..<nat upper]"
    by (simp only: concat_segments [OF pos])
  have "simple_primes (int (isqrt (nat (upper - 1)))) = Inr ?base" by (simp add: simple_primes_eq)
  then have "iter_primes_segmented lower upper segment_size = Inr (concat (map (segment_primes ?base (nat upper) (nat segment_size)) ?los))"
    using False assms unfolding iter_primes_segmented_def by (simp only: fc_int_def ebind.simps) simp
  then show ?thesis by (simp only: segments)
qed

section \<open>Prime powers\<close>

lemma prime_dvd_power: "is_prime p \<Longrightarrow> p dvd a ^ n \<Longrightarrow> p dvd a"
  by (induction n) (auto simp: prime_dvd_mult is_prime_def)

lemma prime_power_inj:
  assumes "is_prime p" "is_prime q" "0 < k" "p ^ k = q ^ j"
  shows "p = q \<and> k = j"
proof -
  have "p dvd q ^ j" using assms(3) unfolding assms(4) [symmetric] by (simp add: dvd_power)
  then have "p = q" using prime_dvd_power [OF assms(1)] prime_dvd_prime [OF assms(1,2)] by blast
  with assms(4) prime_gt_1 [OF assms(1)] show ?thesis by (simp add: power_inject_exp)
qed

definition prime_power_of :: "nat \<Rightarrow> nat \<Rightarrow> prime_power" where
  "prime_power_of p k = \<lparr>pp_value = p ^ k, pp_prime = p, pp_exponent = k\<rparr>"

lemma prime_power_of_simps [simp]:
  "pp_value (prime_power_of p k) = p ^ k" "pp_prime (prime_power_of p k) = p" "pp_exponent (prime_power_of p k) = k"
  by (simp_all add: prime_power_of_def)

lemma prime_power_of_inject [simp]: "prime_power_of p k = prime_power_of q j \<longleftrightarrow> p = q \<and> k = j"
  by (auto simp: prime_power_of_def)

definition prime_powers :: "nat \<Rightarrow> nat \<Rightarrow> prime_power set" where
  "prime_powers lower upper = {prime_power_of p k | p k. is_prime p \<and> 0 < k \<and> lower \<le> p ^ k \<and> p ^ k < upper}"

lemma set_power_loop:
  assumes "1 < p"
  shows "set (power_loop p lower upper (p ^ k) k) = {prime_power_of p j | j. k \<le> j \<and> lower \<le> p ^ j \<and> p ^ j < upper}"
proof (induction "upper - p ^ k" arbitrary: k rule: less_induct)
  case less
  have grow: "p ^ k < p ^ Suc k" using assms by simp
  have pos: "0 < p ^ k" using assms by simp
  show ?case
  proof (cases "p ^ k < upper")
    case False
    have "p ^ k \<le> p ^ j" if "k \<le> j" for j using that assms by (intro power_increasing) simp_all
    then have "\<not> p ^ j < upper" if "k \<le> j" for j using that False by (meson le_less_trans)
    then show ?thesis using False by (subst power_loop.simps) auto
  next
    case True
    let ?here = "if lower \<le> p ^ k then [prime_power_of p k] else []"
    have step: "power_loop p lower upper (p ^ k) k =
        (if p ^ k > (upper - 1) div p then ?here else ?here @ power_loop p lower upper (p ^ Suc k) (Suc k))"
      using True assms pos by (subst power_loop.simps) (simp add: prime_power_of_def Let_def mult.commute)
    have rest: "{prime_power_of p j | j. k \<le> j \<and> lower \<le> p ^ j \<and> p ^ j < upper} =
        set ?here \<union> {prime_power_of p j | j. Suc k \<le> j \<and> lower \<le> p ^ j \<and> p ^ j < upper}"
      using True by (auto simp: le_eq_less_or_eq [of k] Suc_le_eq)
    show ?thesis
    proof (cases "p ^ k > (upper - 1) div p")
      case True
      then have "upper - 1 < p ^ k * p" using assms by (simp add: div_less_iff_less_mult)
      then have "upper \<le> p ^ Suc k" by (simp add: mult.commute)
      moreover have "p ^ Suc k \<le> p ^ j" if "Suc k \<le> j" for j using that assms by (intro power_increasing) simp_all
      ultimately have "\<not> p ^ j < upper" if "Suc k \<le> j" for j using that by (meson le_trans not_le)
      then show ?thesis unfolding step rest using True by auto
    next
      case False
      have "upper - p ^ Suc k < upper - p ^ k" using grow True by (intro diff_less_mono2)
      from less [OF this] show ?thesis unfolding step rest using False by simp
    qed
  qed
qed

lemma distinct_power_loop:
  assumes "1 < p"
  shows "distinct (power_loop p lower upper (p ^ k) k)"
proof (induction "upper - p ^ k" arbitrary: k rule: less_induct)
  case less
  show ?case
  proof (cases "p ^ k < upper")
    case True
    have "upper - p ^ Suc k < upper - p ^ k" using assms True by (intro diff_less_mono2) simp_all
    note IH = less [OF this]
    have "prime_power_of p k \<notin> set (power_loop p lower upper (p ^ Suc k) (Suc k))"
      using set_power_loop [OF assms, of lower upper "Suc k"] by auto
    with IH show ?thesis using True assms
      by (subst power_loop.simps) (simp add: Let_def prime_power_of_def mult.commute)
  next
    case False
    then show ?thesis by (subst power_loop.simps) simp
  qed
qed

definition power_events :: "nat \<Rightarrow> nat \<Rightarrow> prime_power list" where
  "power_events lower upper = map (\<lambda>p. prime_power_of p 1) (filter is_prime [max lower 2..<upper]) @
     concat (map (\<lambda>p. power_loop p lower upper (p ^ 2) 2) (filter is_prime [2..<isqrt (upper - 1) + 1]))"

lemma set_power_events:
  assumes "2 < upper"
  shows "set (power_events lower upper) = prime_powers lower upper"
proof -
  let ?base = "filter is_prime [2..<isqrt (upper - 1) + 1]"
  have "set (concat (map (\<lambda>p. power_loop p lower upper (p ^ 2) 2) ?base)) =
      (\<Union>p \<in> set ?base. {prime_power_of p j | j. 2 \<le> j \<and> lower \<le> p ^ j \<and> p ^ j < upper})"
    unfolding set_concat set_map image_image by (intro SUP_cong refl set_power_loop) auto
  also have "\<dots> = {prime_power_of p j | p j. is_prime p \<and> 2 \<le> j \<and> lower \<le> p ^ j \<and> p ^ j < upper}"
  proof -
    have "p \<in> set ?base" if "is_prime p" "2 \<le> j" "p ^ j < upper" for p j
    proof -
      have "p ^ 2 \<le> p ^ j" using that prime_gt_1 [OF that(1)] by (intro power_increasing) simp_all
      then have "p * p \<le> upper - 1" using that(3) by (simp add: power2_eq_square)
      then have "p \<le> isqrt (upper - 1)" by (simp add: le_isqrt_iff)
      then show ?thesis using that(1) prime_gt_1 [OF that(1)] by (simp del: upt_Suc)
    qed
    then show ?thesis by auto
  qed
  finally have powers: "set (concat (map (\<lambda>p. power_loop p lower upper (p ^ 2) 2) ?base)) =
      {prime_power_of p j | p j. is_prime p \<and> 2 \<le> j \<and> lower \<le> p ^ j \<and> p ^ j < upper}" .
  have "set (map (\<lambda>p. prime_power_of p 1) (filter is_prime [max lower 2..<upper])) =
      {prime_power_of p 1 | p. is_prime p \<and> lower \<le> p \<and> p < upper}"
    using prime_gt_1 by (fastforce simp: image_iff)
  moreover have "0 < j \<longleftrightarrow> j = 1 \<or> 2 \<le> j" for j :: nat by auto
  then have "prime_powers lower upper = {prime_power_of p 1 | p. is_prime p \<and> lower \<le> p \<and> p < upper} \<union>
      {prime_power_of p j | p j. is_prime p \<and> 2 \<le> j \<and> lower \<le> p ^ j \<and> p ^ j < upper}"
    unfolding prime_powers_def by fastforce
  ultimately show ?thesis unfolding power_events_def set_append powers by simp
qed

lemma distinct_power_events: "distinct (power_events lower upper)"
proof -
  let ?base = "filter is_prime [2..<isqrt (upper - 1) + 1]"
  have gt: "1 < p" if "p \<in> set ?base" for p using that by auto
  have same_prime: "pp_prime e = p \<and> 2 \<le> pp_exponent e" if "e \<in> set (power_loop p lower upper (p ^ 2) 2)" "1 < p" for e p
    using that set_power_loop [OF that(2), of lower upper 2] by auto
  have "distinct (concat (map (\<lambda>p. power_loop p lower upper (p ^ 2) 2) xs))"
    if "distinct xs" "\<forall>p \<in> set xs. 1 < p" for xs
    using that
  proof (induction xs)
    case (Cons p xs)
    have "e \<notin> set (concat (map (\<lambda>p. power_loop p lower upper (p ^ 2) 2) xs))" if e: "e \<in> set (power_loop p lower upper (p ^ 2) 2)" for e
    proof
      assume "e \<in> set (concat (map (\<lambda>p. power_loop p lower upper (p ^ 2) 2) xs))"
      then obtain q where "q \<in> set xs" "e \<in> set (power_loop q lower upper (q ^ 2) 2)" by auto
      then have "pp_prime e = q" "q \<in> set xs" using same_prime [of e q] Cons.prems(2) by simp_all
      moreover have "pp_prime e = p" using same_prime [OF e] Cons.prems(2) by simp
      ultimately show False using Cons.prems(1) by simp
    qed
    with Cons show ?case by (auto simp: distinct_power_loop)
  qed simp
  from this [of ?base] have "distinct (concat (map (\<lambda>p. power_loop p lower upper (p ^ 2) 2) ?base))" using gt by simp
  moreover have "distinct (map (\<lambda>p. prime_power_of p 1) (filter is_prime [max lower 2..<upper]))"
    by (simp add: distinct_map inj_on_def)
  moreover have "2 \<le> pp_exponent e" if "e \<in> set (concat (map (\<lambda>p. power_loop p lower upper (p ^ 2) 2) ?base))" for e
    using that same_prime gt by fastforce
  then have "set (map (\<lambda>p. prime_power_of p 1) (filter is_prime [max lower 2..<upper])) \<inter>
      set (concat (map (\<lambda>p. power_loop p lower upper (p ^ 2) 2) ?base)) = {}" by fastforce
  ultimately show ?thesis unfolding power_events_def distinct_append by blast
qed

text \<open>The events of a range: all its prime powers, in increasing order.\<close>

definition lists_prime_powers :: "nat \<Rightarrow> nat \<Rightarrow> prime_power list \<Rightarrow> bool" where
  "lists_prime_powers lower upper es \<longleftrightarrow> set es = prime_powers lower upper \<and> sorted_wrt (<) (map pp_value es)"

lemma inj_prime_powers: "inj_on pp_value (prime_powers lower upper)"
proof (rule inj_onI)
  fix a b assume "a \<in> prime_powers lower upper" "b \<in> prime_powers lower upper" "pp_value a = pp_value b"
  then obtain p k q j where "a = prime_power_of p k" "b = prime_power_of q j" "is_prime p" "is_prime q" "0 < k" "p ^ k = q ^ j"
    by (auto simp: prime_powers_def)
  then show "a = b" using prime_power_inj [of p q k j] by simp
qed

lemma sorted_power_events:
  assumes "2 < upper"
  shows "lists_prime_powers lower upper (sort_key prime_power_key (power_events lower upper))"
proof -
  let ?es = "sort_key prime_power_key (power_events lower upper)"
  have set: "set ?es = prime_powers lower upper" using set_power_events [OF assms] by simp
  have "sorted (map prime_power_key ?es)" by simp
  then have "sorted_wrt (\<lambda>a b. prime_power_key a \<le> prime_power_key b) ?es" by (simp add: sorted_map)
  moreover have "pp_value a \<le> pp_value b" if "prime_power_key a \<le> prime_power_key b" for a b
    using that by (auto simp: prime_power_key_def less_eq_prod_def)
  ultimately have "sorted_wrt (\<lambda>a b. pp_value a \<le> pp_value b) ?es" by (rule sorted_wrt_mono_rel [rotated])
  then have "sorted (map pp_value ?es)" by (simp add: sorted_map)
  moreover have "distinct (map pp_value ?es)"
    using inj_prime_powers [of lower upper] set distinct_power_events [of lower upper] by (simp add: distinct_map)
  ultimately show ?thesis using set by (simp add: lists_prime_powers_def strict_sorted_iff)
qed

lemma prime_power_ge_2: "e \<in> prime_powers lower upper \<Longrightarrow> 2 \<le> pp_value e"
proof -
  assume "e \<in> prime_powers lower upper"
  then obtain p k where e: "is_prime p" "0 < k" "pp_value e = p ^ k" by (auto simp: prime_powers_def)
  have "p ^ 1 \<le> p ^ k" using e prime_gt_1 [OF e(1)] by (intro power_increasing) simp_all
  with e prime_gt_1 [OF e(1)] show ?thesis by simp
qed

lemma prime_power_events_Inr:
  assumes "prime_power_events lower upper segment_size = Inr es"
  shows "1 \<le> lower" "lower \<le> upper" "lists_prime_powers (nat lower) (nat upper) es"
proof -
  show b: "1 \<le> lower" "lower \<le> upper" using assms by (auto simp: prime_power_events_def res_simps)
  show "lists_prime_powers (nat lower) (nat upper) es"
  proof (cases "upper = lower \<or> upper \<le> 2")
    case True
    have "prime_powers (nat lower) (nat upper) = {}"
    proof (rule equals0I)
      fix e assume e: "e \<in> prime_powers (nat lower) (nat upper)"
      then have "nat lower \<le> pp_value e" "pp_value e < nat upper" by (auto simp: prime_powers_def)
      with True prime_power_ge_2 [OF e] show False by linarith
    qed
    moreover have "es = []" using assms True b by (simp add: prime_power_events_def fc_int_def)
    ultimately show ?thesis by (simp add: lists_prime_powers_def)
  next
    case False
    have seg: "1 \<le> segment_size"
      using assms b False by (auto simp: prime_power_events_def iter_primes_segmented_def res_simps)
    have base: "simple_primes (int (isqrt (nat (upper - 1)))) = Inr (filter is_prime [2..<isqrt (nat (upper - 1)) + 1])"
      by (simp add: simple_primes_eq)
    have "0 \<le> lower" using b by simp
    note primes = iter_primes_eq [OF this b(2) seg]
    have nats: "nat (max lower 2) = max (nat lower) 2" "nat (upper - 1) = nat upper - 1" using b by (auto simp: max_def)
    define P where "P = filter is_prime [max (nat lower) 2..<nat upper]"
    define B where "B = filter is_prime [2..<isqrt (nat upper - 1) + 1]"
    have "iter_primes_segmented lower upper segment_size = Inr P" using primes unfolding P_def nats .
    moreover have "simple_primes (int (isqrt (nat (upper - 1)))) = Inr B" using base unfolding B_def nats .
    moreover have "power_events (nat lower) (nat upper) =
        map (\<lambda>p. \<lparr>pp_value = p, pp_prime = p, pp_exponent = 1\<rparr>) P @ concat (map (\<lambda>p. power_loop p (nat lower) (nat upper) (p * p) 2) B)"
      unfolding power_events_def P_def B_def by (simp only: prime_power_of_def power2_eq_square power_one_right)
    ultimately have "es = sort_key prime_power_key (power_events (nat lower) (nat upper))"
      using assms b False by (simp add: prime_power_events_def fc_int_def)
    moreover have "2 < nat upper" using False by (simp add: zless_nat_eq_int_zless)
    ultimately show ?thesis using sorted_power_events by blast
  qed
qed

section \<open>Logarithms\<close>

lemma log_series_foldl:
  "foldl (log_series_step (z * z)) (0, z) [0..<n] = (\<Sum>j<n. z ^ (2 * j + 1) / of_nat (2 * j + 1), z ^ (2 * n + 1))"
  by (induction n) (simp_all add: log_series_step_def mult_ac)

lemma real_log_series: "real_of_rat (\<Sum>j<n. z ^ (2 * j + 1) / of_nat (2 * j + 1)) = atanh_sum n (real_of_rat z)"
  by (simp add: atanh_sum_def of_rat_sum of_rat_divide of_rat_power of_rat_add of_rat_mult)

text \<open>The common part of all rational logarithms: an argument between one and two, its \<open>z\<close>, and the tail.\<close>

lemma log_series_encloses:
  fixes z x :: rat
  assumes "1 \<le> x" "z = (x - 1) / (x + 1)" "foldl (log_series_step (z * z)) (0, z) [0..<n] = (partial, z_power)"
  shows "real_of_rat (2 * partial) \<le> ln (real_of_rat x)"
    "ln (real_of_rat x) \<le> real_of_rat (2 * partial + 2 * z_power / (of_nat (2 * n + 1) * (1 - z * z)))"
    "0 \<le> 2 * partial"
proof -
  define w where "w = real_of_rat z"
  have z: "0 \<le> z" "z < 1" using assms(1) unfolding assms(2) by simp_all
  have w: "0 \<le> w" "w < 1" using z by (simp_all add: w_def)
  have "1 + z = 2 * x / (x + 1)" "1 - z = 2 / (x + 1)" using assms(1) unfolding assms(2) by (simp_all add: field_simps)
  then have "(1 + z) / (1 - z) = (2 * x / (x + 1)) / (2 / (x + 1))" by (simp only:)
  also have "\<dots> = x" using assms(1) by simp
  finally have "(1 + z) / (1 - z) = x" .
  then have "real_of_rat ((1 + z) / (1 - z)) = real_of_rat x" by simp
  then have "(1 + w) / (1 - w) = real_of_rat x" by (simp add: w_def of_rat_divide of_rat_add of_rat_diff)
  then have "ln (real_of_rat x) = ln ((1 + w) / (1 - w))" by (simp only:)
  also have "\<dots> = ln (1 + w) - ln (1 - w)" using w by (simp add: ln_div)
  finally have ln: "ln (real_of_rat x) = ln (1 + w) - ln (1 - w)" .
  have p: "partial = (\<Sum>j<n. z ^ (2 * j + 1) / of_nat (2 * j + 1))" "z_power = z ^ (2 * n + 1)"
    using assms(3) unfolding log_series_foldl by auto
  have "real_of_rat (2 * partial) = 2 * atanh_sum n w" unfolding p(1) w_def by (simp only: of_rat_mult real_log_series) simp
  then show "real_of_rat (2 * partial) \<le> ln (real_of_rat x)" unfolding ln using log_ratio_lower [OF w] by simp
  have "real_of_rat (2 * z_power / (of_nat (2 * n + 1) * (1 - z * z))) = 2 * w ^ (2 * n + 1) / (real (2 * n + 1) * (1 - w\<^sup>2))"
    unfolding p(2) w_def by (simp add: of_rat_divide of_rat_mult of_rat_diff of_rat_power of_rat_add power2_eq_square)
  with \<open>real_of_rat (2 * partial) = 2 * atanh_sum n w\<close>
  show "ln (real_of_rat x) \<le> real_of_rat (2 * partial + 2 * z_power / (of_nat (2 * n + 1) * (1 - z * z)))"
    unfolding ln of_rat_add using log_ratio_upper [OF w] by simp
  show "0 \<le> 2 * partial" unfolding p(1) using z(1) by (simp add: sum_nonneg)
qed

lemma positive_log_series_Inr:
  assumes "positive_log_series_bounds numerator denominator terms = Inr (l, u)"
  shows "1 \<le> denominator" "denominator \<le> numerator" "numerator \<le> 2 * denominator" "1 \<le> terms" "terms \<le> 4096"
    "real_of_rat l \<le> ln (real_of_int numerator / real_of_int denominator)"
    "ln (real_of_int numerator / real_of_int denominator) \<le> real_of_rat u" "0 \<le> l"
proof -
  define z :: rat where "z = of_int (numerator - denominator) / of_int (numerator + denominator)"
  define x :: rat where "x = of_int numerator / of_int denominator"
  have g: "1 \<le> numerator" "1 \<le> denominator" "1 \<le> terms" "terms \<le> 4096" "denominator \<le> numerator" "numerator \<le> 2 * denominator"
    using assms by (auto simp: positive_log_series_bounds_def res_simps MAX_SERIES_TERMS_def)
  then show "1 \<le> denominator" "denominator \<le> numerator" "numerator \<le> 2 * denominator" "1 \<le> terms" "terms \<le> 4096" by simp_all
  have "x - 1 = of_int (numerator - denominator) / of_int denominator" "x + 1 = of_int (numerator + denominator) / of_int denominator"
    using g by (simp_all add: x_def diff_divide_distrib add_divide_distrib)
  then have x: "1 \<le> x" "z = (x - 1) / (x + 1)" using g by (simp_all add: x_def z_def)
  have real: "real_of_rat x = real_of_int numerator / real_of_int denominator" by (simp add: x_def of_rat_divide)
  have nat: "of_int (2 * terms + 1) = (of_nat (2 * nat terms + 1) :: rat)" using g by (simp add: of_nat_nat)
  obtain partial z_power where f: "foldl (log_series_step (z * z)) (0, z) [0..<nat terms] = (partial, z_power)" by fastforce
  note e = log_series_encloses [OF x f]
  have run: "positive_log_series_bounds numerator denominator terms = (if z = 0 then Inr (0, 0) else
      (case foldl (log_series_step (z * z)) (0, z) [0..<nat terms] of (partial, z_power) \<Rightarrow>
         Inr (2 * partial, 2 * partial + 2 * z_power / (of_int (2 * terms + 1) * (1 - z * z)))))"
    using g unfolding positive_log_series_bounds_def fc_int_def MAX_SERIES_TERMS_def z_def by (simp add: Let_def)
  moreover have "z = 0 \<Longrightarrow> x = 1" using x by (simp add: divide_eq_0_iff)
  ultimately have "real_of_rat l \<le> ln (real_of_rat x) \<and> ln (real_of_rat x) \<le> real_of_rat u \<and> 0 \<le> l"
    using assms e unfolding nat f by (cases "z = 0") auto
  then show "real_of_rat l \<le> ln (real_of_int numerator / real_of_int denominator)"
    "ln (real_of_int numerator / real_of_int denominator) \<le> real_of_rat u" "0 \<le> l" by (simp_all add: real)
qed

lemma bit_length_bounds: "0 < n \<Longrightarrow> 0 < bit_length n \<and> 2 ^ (bit_length n - 1) \<le> n \<and> n < 2 ^ bit_length n"
proof (induction n rule: less_induct)
  case (less n)
  show ?case
  proof (cases "n = 1")
    case True
    then show ?thesis by (simp add: bit_length.simps [of "Suc 0"] bit_length.simps [of 0])
  next
    case False
    then have "0 < n div 2" "n div 2 < n" using less.prems by simp_all
    note IH = less.IH [OF this(2,1)]
    have step: "bit_length n = Suc (bit_length (n div 2))" using less.prems by (subst bit_length.simps) simp
    have "2 * 2 ^ (bit_length (n div 2) - 1) = (2 :: nat) ^ bit_length (n div 2)" using IH by (simp flip: power_Suc)
    then have "2 ^ bit_length (n div 2) \<le> n" using IH by linarith
    moreover have "n < 2 * 2 ^ bit_length (n div 2)" using IH by linarith
    ultimately show ?thesis unfolding step by simp
  qed
qed

lemma fixed_log_bounds_Inr:
  assumes "fixed_log_bounds p scale_bits terms = Inr (l, u)"
  shows "real_of_int l \<le> 2 ^ nat scale_bits * ln (real_of_int p)" "2 ^ nat scale_bits * ln (real_of_int p) \<le> real_of_int u"
    "0 \<le> l" "l \<le> u"
proof -
  define e where "e = bit_length (nat p) - 1"
  define S where "S = (2 :: real) ^ nat scale_bits"
  have g: "2 \<le> p" using assms by (auto simp: fixed_log_bounds_def res_simps)
  obtain l2 u2 lm um where two: "positive_log_series_bounds 2 1 terms = Inr (l2, u2)"
    and mantissa: "positive_log_series_bounds p (2 ^ e) terms = Inr (lm, um)"
    and lu: "l = \<lfloor>(of_nat e * l2 + lm) * 2 ^ nat scale_bits\<rfloor>" "u = \<lceil>(of_nat e * u2 + um) * 2 ^ nat scale_bits\<rceil>"
    using assms by (auto simp: fixed_log_bounds_def res_simps Let_def push_bit_eq_mult e_def split: prod.splits)
  note t = positive_log_series_Inr [OF two] and m = positive_log_series_Inr [OF mantissa]
  have "ln (real_of_int p / 2 ^ e) = ln (real_of_int p) - real e * ln 2" using g by (simp add: ln_div ln_realpow)
  then have ln: "ln (real_of_int p) = real e * ln 2 + ln (real_of_int p / real_of_int (2 ^ e))" by simp
  have lower: "real_of_rat (of_nat e * l2 + lm) \<le> ln (real_of_int p)"
  proof -
    have "real e * real_of_rat l2 \<le> real e * ln 2" using t(6) by (intro mult_left_mono) simp_all
    then show ?thesis unfolding ln using m(6) by (simp add: of_rat_add of_rat_mult)
  qed
  have upper: "ln (real_of_int p) \<le> real_of_rat (of_nat e * u2 + um)"
  proof -
    have "real e * ln 2 \<le> real e * real_of_rat u2" using t(7) by (intro mult_left_mono) simp_all
    then show ?thesis unfolding ln using m(7) by (simp add: of_rat_add of_rat_mult)
  qed
  have S: "0 < S" "real_of_rat (x * 2 ^ nat scale_bits) = real_of_rat x * S" for x by (simp_all add: S_def of_rat_mult of_rat_power)
  have "real_of_int l \<le> real_of_rat (of_nat e * l2 + lm) * S"
    unfolding lu(1) S(2) [symmetric] by (metis of_int_floor_le of_rat_less_eq of_rat_of_int_eq)
  also have "\<dots> \<le> ln (real_of_int p) * S" using lower S(1) by (intro mult_right_mono) simp_all
  finally show 1: "real_of_int l \<le> 2 ^ nat scale_bits * ln (real_of_int p)" by (simp add: S_def mult.commute)
  have "ln (real_of_int p) * S \<le> real_of_rat (of_nat e * u2 + um) * S" using upper S(1) by (intro mult_right_mono) simp_all
  also have "\<dots> \<le> real_of_int u"
    unfolding lu(2) S(2) [symmetric] by (metis le_of_int_ceiling of_rat_less_eq of_rat_of_int_eq)
  finally show 2: "2 ^ nat scale_bits * ln (real_of_int p) \<le> real_of_int u" by (simp add: S_def mult.commute)
  show "0 \<le> l" unfolding lu(1) using t(8) m(8) by simp
  from 1 2 have "real_of_int l \<le> real_of_int u" by linarith
  then show "l \<le> u" by simp
qed

end
