(* ===== verification/PsiCampaign_Claims.thy ===== *)
theory PsiCampaign_Claims
  imports PsiCampaign_Facts
begin

text \<open>
  What an accepted psi certificate says of Chebyshev's function: both envelopes at every real point of its
  range.
\<close>

section \<open>Chebyshev's function\<close>

definition mangoldt :: "nat \<Rightarrow> real" where
  "mangoldt n = (if \<exists>p k. is_prime p \<and> 0 < k \<and> n = p ^ k then ln (real (lpf n)) else 0)"

definition psi :: "real \<Rightarrow> real" where
  "psi x = (\<Sum>n = 1..nat \<lfloor>x\<rfloor>. mangoldt n)"

lemma mangoldt_prime_power: "is_prime p \<Longrightarrow> 0 < k \<Longrightarrow> mangoldt (p ^ k) = ln (real p)"
proof -
  assume p: "is_prime p" "0 < k"
  have "1 < p ^ k" using one_less_power [OF prime_gt_1 [OF p(1)] p(2)] by simp
  moreover have "p dvd p ^ k" using p(2) by simp
  moreover have "p \<le> q" if "is_prime q" "q dvd p ^ k" for q
    using prime_dvd_power [OF that] prime_dvd_prime [OF that(1) p(1)] by simp
  ultimately have "lpf (p ^ k) = p" using p(1) by (intro lpf_eqI) auto
  moreover have "\<exists>q j. is_prime q \<and> 0 < j \<and> p ^ k = q ^ j" using p by blast
  ultimately show ?thesis by (simp add: mangoldt_def)
qed

lemma lists_distinct: "lists_prime_powers lower upper es \<Longrightarrow> distinct es"
  unfolding lists_prime_powers_def strict_sorted_iff by (auto simp: distinct_map)

lemma prime_power_values:
  assumes "m < b"
  shows "pp_value ` {e \<in> prime_powers 2 b. pp_value e \<le> m} = {n. n \<le> m \<and> (\<exists>p k. is_prime p \<and> 0 < k \<and> n = p ^ k)}"
proof (intro set_eqI iffI)
  fix n assume "n \<in> {n. n \<le> m \<and> (\<exists>p k. is_prime p \<and> 0 < k \<and> n = p ^ k)}"
  then obtain p k where n: "n \<le> m" "is_prime p" "0 < k" "n = p ^ k" by auto
  have "p ^ 1 \<le> p ^ k" using n prime_gt_1 [OF n(2)] by (intro power_increasing) simp_all
  then have "prime_power_of p k \<in> {e \<in> prime_powers 2 b. pp_value e \<le> m}"
    using n assms prime_gt_1 [OF n(2)] unfolding prime_powers_def by force
  then show "n \<in> pp_value ` {e \<in> prime_powers 2 b. pp_value e \<le> m}" unfolding n(4) by (metis image_eqI prime_power_of_simps(1))
next
  fix n assume "n \<in> pp_value ` {e \<in> prime_powers 2 b. pp_value e \<le> m}"
  then obtain p k where n: "is_prime p" "0 < k" "n = p ^ k" "n \<le> m" by (auto simp: prime_powers_def)
  then have "\<exists>p k. is_prime p \<and> 0 < k \<and> n = p ^ k" by blast
  with n show "n \<in> {n. n \<le> m \<and> (\<exists>p k. is_prime p \<and> 0 < k \<and> n = p ^ k)}" by simp
qed

lemma psi_events:
  assumes "lists_prime_powers 2 (nat limit + 1) es" "0 \<le> x" "x \<le> real_of_int limit"
  shows "psi x = (\<Sum>e \<leftarrow> filter (\<lambda>e. real (pp_value e) \<le> x) es. ln (real (pp_prime e)))"
proof -
  define m where "m = nat \<lfloor>x\<rfloor>"
  have set: "set es = prime_powers 2 (nat limit + 1)" using assms(1) by (simp add: lists_prime_powers_def)
  have le: "real n \<le> x \<longleftrightarrow> n \<le> m" for n using assms(2) by (simp add: m_def le_nat_iff le_floor_iff)
  have m: "m \<le> nat limit" using assms(2,3) unfolding m_def by linarith
  let ?E = "{e \<in> set es. pp_value e \<le> m}"
  have "0 < n" if "is_prime p" "n = p ^ k" for n p k :: nat using that prime_pos by simp
  then have "{n. n \<le> m \<and> (\<exists>p k. is_prime p \<and> 0 < k \<and> n = p ^ k)} = {n \<in> {1..m}. \<exists>p k. is_prime p \<and> 0 < k \<and> n = p ^ k}"
    by (fastforce simp: Suc_le_eq)
  then have image: "pp_value ` ?E = {n \<in> {1..m}. \<exists>p k. is_prime p \<and> 0 < k \<and> n = p ^ k}"
    using prime_power_values [of m "nat limit + 1"] m unfolding set by simp
  have inj: "inj_on pp_value ?E" using inj_prime_powers unfolding set by (rule inj_on_subset) blast
  have "psi x = (\<Sum>n \<in> {1..m}. mangoldt n)" by (simp add: psi_def m_def)
  also have "\<dots> = (\<Sum>n \<in> {n \<in> {1..m}. \<exists>p k. is_prime p \<and> 0 < k \<and> n = p ^ k}. mangoldt n)"
    by (rule sum.mono_neutral_right) (auto simp: mangoldt_def)
  also have "\<dots> = (\<Sum>e \<in> ?E. mangoldt (pp_value e))" unfolding image [symmetric] by (simp add: sum.reindex [OF inj])
  also have "\<dots> = (\<Sum>e \<in> ?E. ln (real (pp_prime e)))"
  proof (intro sum.cong refl)
    fix e assume "e \<in> ?E"
    then obtain p k where "e = prime_power_of p k" "is_prime p" "0 < k" unfolding set prime_powers_def by auto
    then show "mangoldt (pp_value e) = ln (real (pp_prime e))" by (simp add: mangoldt_prime_power)
  qed
  also have "\<dots> = (\<Sum>e \<leftarrow> filter (\<lambda>e. pp_value e \<le> m) es. ln (real (pp_prime e)))"
    using lists_distinct [OF assms(1)] by (subst sum_list_distinct_conv_sum_set) auto
  finally show ?thesis by (simp only: le)
qed

section \<open>The scan as one run over the prime powers\<close>

text \<open>A run from one interval to another, in units of \<open>2\<^sup>-\<^sup>s\<close>, whose envelope checks all pass.\<close>

fun envelope_run :: "int \<Rightarrow> int \<Rightarrow> int \<times> int \<Rightarrow> prime_power list \<Rightarrow> int \<times> int \<Rightarrow> bool" where
  "envelope_run s t state [] final \<longleftrightarrow> state = final"
| "envelope_run s t (lower, upper) (e # es) final \<longleftrightarrow> (\<exists>l u. fixed_log_bounds (int (pp_prime e)) s t = Inr (l, u) \<and>
     check_lower_psi_limit (int (pp_value e)) lower (2 ^ nat s) \<and> check_upper_psi_jump (int (pp_value e)) (upper + u) (2 ^ nat s) \<and>
     envelope_run s t (lower + l, upper + u) es final)"

lemma envelope_run_append:
  "envelope_run s t state (es @ fs) final \<longleftrightarrow> (\<exists>middle. envelope_run s t state es middle \<and> envelope_run s t middle fs final)"
  by (induction es arbitrary: state) (fastforce split: prod.splits)+

lemma psi_scan_run:
  "length stored = length es \<Longrightarrow> psi_scan s t state (zip stored es) = Inr final \<Longrightarrow> envelope_run s t state es final"
proof (induction stored es arbitrary: state rule: list_induct2)
  case (Cons e stored f es)
  obtain lower upper where state: "state = (lower, upper)" by (cases state)
  from Cons.prems Cons.IH show ?case
    by (auto simp: state Let_def push_bit_eq_mult res_simps split: prod.splits)
qed simp

lemma envelope_run_total:
  assumes "envelope_run s t (lower, upper) es (lower', upper')"
  shows "real_of_int (lower' - lower) \<le> 2 ^ nat s * (\<Sum>e \<leftarrow> es. ln (real (pp_prime e)))"
    "2 ^ nat s * (\<Sum>e \<leftarrow> es. ln (real (pp_prime e))) \<le> real_of_int (upper' - upper)" "lower \<le> lower'"
  using assms
proof (induction es arbitrary: lower upper)
  case (Cons e es)
  case 1
  then obtain l u where lu: "fixed_log_bounds (int (pp_prime e)) s t = Inr (l, u)"
    and run: "envelope_run s t (lower + l, upper + u) es (lower', upper')" by auto
  show ?case using fixed_log_bounds_Inr(1) [OF lu] Cons.IH(1) [OF run] by (simp add: distrib_left)
next
  case (Cons e es)
  case 2
  then obtain l u where lu: "fixed_log_bounds (int (pp_prime e)) s t = Inr (l, u)"
    and run: "envelope_run s t (lower + l, upper + u) es (lower', upper')" by auto
  show ?case using fixed_log_bounds_Inr(2) [OF lu] Cons.IH(2) [OF run] by (simp add: distrib_left)
next
  case (Cons e es)
  case 3
  then obtain l u where lu: "fixed_log_bounds (int (pp_prime e)) s t = Inr (l, u)"
    and run: "envelope_run s t (lower + l, upper + u) es (lower', upper')" by auto
  show ?case using fixed_log_bounds_Inr(3) [OF lu] Cons.IH(3) [OF run] by simp
qed simp_all

section \<open>Chunks and chains\<close>

lemma lists_append:
  assumes "lists_prime_powers a b es" "lists_prime_powers b c fs" "a \<le> b" "b \<le> c"
  shows "lists_prime_powers a c (es @ fs)"
proof -
  have "prime_powers a c = prime_powers a b \<union> prime_powers b c"
    using assms(3,4) by (fastforce simp: prime_powers_def)
  moreover have "pp_value e < pp_value f" if "e \<in> set es" "f \<in> set fs" for e f
  proof -
    have "e \<in> prime_powers a b" "f \<in> prime_powers b c" using that assms(1,2) by (simp_all add: lists_prime_powers_def)
    then show ?thesis by (auto simp: prime_powers_def)
  qed
  ultimately show ?thesis using assms(1,2) by (auto simp: lists_prime_powers_def sorted_wrt_append)
qed

lemma verify_psi_chunk_Inr:
  assumes "verify_psi_chunk c segment_size = Inr (n, l, u)"
  shows "\<exists>es. lists_prime_powers (nat (pk_lower c)) (nat (pk_upper c)) es \<and> n = length es \<and>
      envelope_run (pk_scale_bits c) (pk_series_terms c) (pk_incoming_lower c, pk_incoming_upper c) es (pk_outgoing_lower c, pk_outgoing_upper c)"
    "2 \<le> pk_lower c" "pk_lower c < pk_upper c"
proof -
  obtain es where es: "prime_power_events (pk_lower c) (pk_upper c) segment_size = Inr es" "n = length es" "length (pk_events c) = length es"
    and scan: "psi_scan (pk_scale_bits c) (pk_series_terms c) (pk_incoming_lower c, pk_incoming_upper c) (zip (pk_events c) es) =
      Inr (pk_outgoing_lower c, pk_outgoing_upper c)"
    using assms by (auto simp: verify_psi_chunk_def res_simps)
  show "\<exists>es. lists_prime_powers (nat (pk_lower c)) (nat (pk_upper c)) es \<and> n = length es \<and>
      envelope_run (pk_scale_bits c) (pk_series_terms c) (pk_incoming_lower c, pk_incoming_upper c) es (pk_outgoing_lower c, pk_outgoing_upper c)"
    using prime_power_events_Inr(3) [OF es(1)] psi_scan_run [OF es(3) scan] es(2) by blast
  show "2 \<le> pk_lower c" "pk_lower c < pk_upper c" using assms by (auto simp: verify_psi_chunk_def res_simps)
qed

lemma psi_chain_loop_run:
  assumes "psi_chain_loop first segment_size (previous, n, k) rest = Inr (final, n', k')"
    "lists_prime_powers 2 (nat (pk_upper previous)) es" "n = length es" "2 \<le> pk_upper previous"
    "envelope_run (pk_scale_bits first) (pk_series_terms first) (0, 0) es (pk_outgoing_lower previous, pk_outgoing_upper previous)"
  shows "\<exists>es'. lists_prime_powers 2 (nat (pk_upper final)) es' \<and> n' = length es' \<and> k' = k + length rest \<and>
    envelope_run (pk_scale_bits first) (pk_series_terms first) (0, 0) es' (pk_outgoing_lower final, pk_outgoing_upper final)"
  using assms
proof (induction rest arbitrary: previous n k es)
  case (Cons c rest)
  then obtain m l u where ok: "verify_psi_chunk c segment_size = Inr (m, l, u)"
    and link: "pk_lower c = pk_upper previous" "pk_incoming_lower c = pk_outgoing_lower previous" "pk_incoming_upper c = pk_outgoing_upper previous"
      "pk_scale_bits c = pk_scale_bits first" "pk_series_terms c = pk_series_terms first"
    and rest: "psi_chain_loop first segment_size (c, n + m, k + 1) rest = Inr (final, n', k')"
    by (auto simp: psi_link_broken_def res_simps)
  from verify_psi_chunk_Inr(1) [OF ok] link obtain fs where fs: "lists_prime_powers (nat (pk_upper previous)) (nat (pk_upper c)) fs" "m = length fs"
    "envelope_run (pk_scale_bits first) (pk_series_terms first) (pk_outgoing_lower previous, pk_outgoing_upper previous) fs (pk_outgoing_lower c, pk_outgoing_upper c)"
    by auto
  have le: "2 \<le> nat (pk_upper previous)" "nat (pk_upper previous) \<le> nat (pk_upper c)" "2 \<le> pk_upper c"
    using verify_psi_chunk_Inr(2,3) [OF ok] link(1) by linarith+
  have "lists_prime_powers 2 (nat (pk_upper c)) (es @ fs)" by (rule lists_append [OF Cons.prems(2) fs(1) le(1,2)])
  moreover have "envelope_run (pk_scale_bits first) (pk_series_terms first) (0, 0) (es @ fs) (pk_outgoing_lower c, pk_outgoing_upper c)"
    using Cons.prems(5) fs(3) by (auto simp: envelope_run_append)
  ultimately show ?case using Cons.IH [OF rest, of "es @ fs"] Cons.prems(3) fs(2) le(3) by (auto simp: add.assoc)
qed auto

lemma verify_psi_chain_Inr:
  assumes "verify_psi_chain chunks limit segment_size = Inr v"
  shows "\<exists>s t es L U. lists_prime_powers 2 (nat limit + 1) es \<and> envelope_run s t (0, 0) es (L, U) \<and> s = pk_scale_bits (hd chunks) \<and>
    (limit * 2 ^ nat s - L \<le> 0 \<or> (limit * 2 ^ nat s - L) * (limit * 2 ^ nat s - L) < 2 * limit * 2 ^ nat s * 2 ^ nat s) \<and> 2 \<le> limit \<and>
    pv_limit v = limit \<and> pv_chunks v = length chunks \<and> pv_events v = length es \<and> pv_final_lower v = L \<and> pv_final_upper v = U"
proof -
  obtain first rest where chunks: "chunks = first # rest"
    using assms by (cases chunks) (auto simp: verify_psi_chain_def res_simps)
  obtain n l u final n' k where first: "pk_lower first = 2" "pk_incoming_lower first = 0" "pk_incoming_upper first = 0"
    and ok: "verify_psi_chunk first segment_size = Inr (n, l, u)"
    and loop: "psi_chain_loop first segment_size (first, n, 1) rest = Inr (final, n', k)"
    and limit: "2 \<le> limit" "pk_upper final = limit + 1"
    and terminal: "\<not> (limit * 2 ^ nat (pk_scale_bits first) - pk_outgoing_lower final > 0 \<and>
      (limit * 2 ^ nat (pk_scale_bits first) - pk_outgoing_lower final) * (limit * 2 ^ nat (pk_scale_bits first) - pk_outgoing_lower final) \<ge>
      2 * limit * 2 ^ nat (pk_scale_bits first) * 2 ^ nat (pk_scale_bits first))"
    and v: "v = \<lparr>pv_limit = limit, pv_chunks = k, pv_events = n', pv_final_lower = pk_outgoing_lower final,
      pv_final_upper = pk_outgoing_upper final, pv_final_hash = pk_record_hash final, pv_full_source_range = (limit = PSI_SOURCE_LIMIT)\<rparr>"
    using assms by (auto simp: verify_psi_chain_def chunks res_simps Let_def push_bit_eq_mult)
  from verify_psi_chunk_Inr [OF ok] first obtain es where
    es: "lists_prime_powers 2 (nat (pk_upper first)) es" "n = length es" "2 \<le> pk_upper first"
      "envelope_run (pk_scale_bits first) (pk_series_terms first) (0, 0) es (pk_outgoing_lower first, pk_outgoing_upper first)" by auto
  from psi_chain_loop_run [OF loop es(1,2,3,4)] obtain es' where "lists_prime_powers 2 (nat (pk_upper final)) es'" "n' = length es'"
    "k = length chunks" "envelope_run (pk_scale_bits first) (pk_series_terms first) (0, 0) es' (pk_outgoing_lower final, pk_outgoing_upper final)"
    by (auto simp: chunks)
  moreover have "nat (pk_upper final) = nat limit + 1" using limit by simp
  ultimately show ?thesis using terminal limit(1) by (auto simp: chunks v not_le intro!: exI [of _ es'])
qed

section \<open>The two checks over the reals\<close>

lemma lower_envelope_below:
  fixes x y a :: real
  assumes "0 < x" "0 \<le> a"
    "x < y \<and> (y - a \<le> 0 \<or> (y - a) * (y - a) \<le> 2 * y) \<or> x \<le> y \<and> (y - a \<le> 0 \<or> (y - a) * (y - a) < 2 * y)"
  shows "x - a < sqrt (2 * x)"
proof (cases "x \<le> a")
  case True
  moreover have "0 < sqrt (2 * x)" using assms(1) by simp
  ultimately show ?thesis by linarith
next
  case False
  have y: "x \<le> y" "0 < y" "a < y" using assms(1,3) False by auto
  have shrink: "(x - a) * (x - a) * y \<le> (y - a) * (y - a) * x"
  proof -
    have "(y - a) * (y - a) * x - (x - a) * (x - a) * y = (y - x) * (x * y - a * a)" by (simp add: algebra_simps)
    moreover have "a * a \<le> x * y" using False y assms(2) by (intro mult_mono) simp_all
    ultimately show ?thesis using y(1) by (metis diff_ge_0_iff_ge mult_nonneg_nonneg)
  qed
  have "(x - a) * (x - a) * y < 2 * x * y"
  proof (cases "(y - a) * (y - a) < 2 * y")
    case True
    then have "(y - a) * (y - a) * x < 2 * y * x" using assms(1) by (rule mult_strict_right_mono)
    with shrink show ?thesis by (simp add: mult_ac)
  next
    case equal: False
    then have less: "x < y" "(y - a) * (y - a) \<le> 2 * y" using assms(3) y(3) by auto
    have "a * a < x * y" using False less(1) y assms(1,2) by (intro mult_strict_mono') simp_all
    then have "0 < (y - x) * (x * y - a * a)" using less(1) by simp
    moreover have "(y - a) * (y - a) * x - (x - a) * (x - a) * y = (y - x) * (x * y - a * a)" by (simp add: algebra_simps)
    moreover have "(y - a) * (y - a) * x \<le> 2 * y * x" using less(2) assms(1) by (intro mult_right_mono) simp_all
    ultimately show ?thesis by (simp add: mult_ac)
  qed
  then have "(x - a) * (x - a) < 2 * x" using y(2) by (simp add: mult.commute [of _ y])
  then show ?thesis by (intro real_less_rsqrt) (simp add: power2_eq_square)
qed

text \<open>An integer difference scaled by \<open>2\<^sup>s\<close>, and its square, against the real ones.\<close>

lemma scaled_difference:
  fixes n l :: int and s :: nat
  defines "d \<equiv> real_of_int n - real_of_int l / 2 ^ s" and "D \<equiv> n * 2 ^ s - l"
  shows "D \<le> 0 \<longleftrightarrow> d \<le> 0" "D * D \<le> 2 * n * 2 ^ s * 2 ^ s \<longleftrightarrow> d * d \<le> 2 * real_of_int n"
    "D * D < 2 * n * 2 ^ s * 2 ^ s \<longleftrightarrow> d * d < 2 * real_of_int n"
proof -
  define S :: real where "S = 2 ^ s"
  have S: "0 < S" by (simp add: S_def)
  have D: "real_of_int D = d * S" unfolding D_def d_def S_def by (simp add: field_simps)
  have "D \<le> 0 \<longleftrightarrow> real_of_int D \<le> 0" by simp
  then show "D \<le> 0 \<longleftrightarrow> d \<le> 0" unfolding D using S by (simp add: mult_le_0_iff)
  have sides: "real_of_int (D * D) = (d * d) * (S * S)" "real_of_int (2 * n * 2 ^ s * 2 ^ s) = (2 * real_of_int n) * (S * S)"
    unfolding of_int_mult D by (simp_all add: S_def mult_ac)
  have "D * D \<le> 2 * n * 2 ^ s * 2 ^ s \<longleftrightarrow> real_of_int (D * D) \<le> real_of_int (2 * n * 2 ^ s * 2 ^ s)" by (rule of_int_le_iff [symmetric])
  then show "D * D \<le> 2 * n * 2 ^ s * 2 ^ s \<longleftrightarrow> d * d \<le> 2 * real_of_int n" unfolding sides using S by (simp add: mult_le_cancel_right)
  have "D * D < 2 * n * 2 ^ s * 2 ^ s \<longleftrightarrow> real_of_int (D * D) < real_of_int (2 * n * 2 ^ s * 2 ^ s)" by (rule of_int_less_iff [symmetric])
  then show "D * D < 2 * n * 2 ^ s * 2 ^ s \<longleftrightarrow> d * d < 2 * real_of_int n" unfolding sides using S mult_less_cancel_right_pos [of "S * S" "d * d" "2 * real_of_int n"] by simp
qed

lemma check_lower_real:
  "check_lower_psi_limit n l (2 ^ s) \<Longrightarrow> real_of_int n - real_of_int l / 2 ^ s \<le> 0 \<or>
    (real_of_int n - real_of_int l / 2 ^ s) * (real_of_int n - real_of_int l / 2 ^ s) \<le> 2 * real_of_int n"
  using scaled_difference(1,2) [of n s l] by (simp add: check_lower_psi_limit_def Let_def)

lemma check_upper_real:
  assumes "check_upper_psi_jump n u (2 ^ s)" "0 \<le> n"
  shows "real_of_int u / 2 ^ s - real_of_int n \<le> 19764819 / 25000000 * sqrt (real_of_int n)"
proof -
  define S :: int where "S = 2 ^ s"
  define d where "d = real_of_int u / 2 ^ s - real_of_int n"
  have S: "0 < real_of_int S" "real_of_int S = 2 ^ s" by (simp_all add: S_def)
  have d: "real_of_int (u - n * S) = d * real_of_int S" by (simp add: d_def S(2) field_simps)
  show ?thesis
  proof (cases "u - n * S \<le> 0")
    case True
    then have "real_of_int (u - n * S) \<le> 0" by (simp only: of_int_le_0_iff)
    then have "d \<le> 0" unfolding d using S(1) by (simp add: mult_le_0_iff)
    moreover have "0 \<le> 19764819 / 25000000 * sqrt (real_of_int n)" using assms(2) by simp
    ultimately show ?thesis unfolding d_def by linarith
  next
    case False
    then have "(u - n * S) * (u - n * S) * 25000000 * 25000000 \<le> 19764819 * 19764819 * n * S * S"
      using assms(1) by (simp add: check_upper_psi_jump_def Let_def S_def PSI_UPPER_NUMERATOR_def PSI_UPPER_DENOMINATOR_def)
    then have "real_of_int ((u - n * S) * (u - n * S) * 25000000 * 25000000) \<le> real_of_int (19764819 * 19764819 * n * S * S)"
      by (rule of_int_le_iff [THEN iffD2])
    then have "(d * d) * (real_of_int S * real_of_int S) * 625000000000000 \<le> (390648070102761 * real_of_int n) * (real_of_int S * real_of_int S)"
      unfolding of_int_mult d by (simp add: mult_ac)
    then have "(d * d * 625000000000000) * (real_of_int S * real_of_int S) \<le> (390648070102761 * real_of_int n) * (real_of_int S * real_of_int S)"
      by (simp add: mult_ac)
    then have "d * d * 625000000000000 \<le> 390648070102761 * real_of_int n" using S(1) by (simp add: mult_le_cancel_right)
    then have "d\<^sup>2 \<le> (19764819 / 25000000)\<^sup>2 * real_of_int n" by (simp add: power2_eq_square)
    then have "d \<le> sqrt ((19764819 / 25000000)\<^sup>2 * real_of_int n)" by (rule real_le_rsqrt)
    then show ?thesis by (simp add: real_sqrt_mult d_def)
  qed
qed

section \<open>The envelopes\<close>

lemma sorted_filter_prefix:
  "sorted_wrt (<) (map f xs) \<Longrightarrow> filter (\<lambda>e. real (f e) \<le> x) xs = takeWhile (\<lambda>e. real (f e) \<le> x) xs"
  for f :: "'a \<Rightarrow> nat"
proof (induction xs)
  case (Cons e xs)
  have "filter (\<lambda>e. real (f e) \<le> x) xs = []" if "\<not> real (f e) \<le> x"
    using Cons.prems that by (force simp: filter_empty_conv)
  with Cons show ?case by auto
qed simp

lemma envelope_at:
  assumes es: "lists_prime_powers 2 (nat limit + 1) es" and run: "envelope_run s t (0, 0) es (L, U)"
    and terminal: "limit * 2 ^ nat s - L \<le> 0 \<or> (limit * 2 ^ nat s - L) * (limit * 2 ^ nat s - L) < 2 * limit * 2 ^ nat s * 2 ^ nat s"
    and x: "1 \<le> x" "x \<le> real_of_int limit"
  shows "x - psi x < sqrt (2 * x)" "psi x - x \<le> 19764819 / 25000000 * sqrt x"
proof -
  let ?P = "\<lambda>e. real (pp_value e) \<le> x"
  define pre where "pre = takeWhile ?P es"
  define post where "post = dropWhile ?P es"
  have split: "es = pre @ post" by (simp add: pre_def post_def)
  obtain l u where l: "envelope_run s t (0, 0) pre (l, u)" and r: "envelope_run s t (l, u) post (L, U)"
    using run unfolding split envelope_run_append by auto
  have "filter ?P es = pre" unfolding pre_def using es by (intro sorted_filter_prefix) (simp add: lists_prime_powers_def)
  then have psi: "psi x = (\<Sum>e \<leftarrow> pre. ln (real (pp_prime e)))" using psi_events [OF es _ x(2)] x(1) by simp
  have S: "0 < (2 :: real) ^ nat s" by simp
  have a: "real_of_int l / 2 ^ nat s \<le> psi x" "psi x \<le> real_of_int u / 2 ^ nat s" "0 \<le> real_of_int l / 2 ^ nat s"
    using envelope_run_total [OF l] S unfolding psi by (simp_all add: field_simps)
  have "x - real_of_int l / 2 ^ nat s < sqrt (2 * x)"
  proof (cases post)
    case Nil
    then have "L = l" using r by simp
    then have "real_of_int limit - real_of_int l / 2 ^ nat s \<le> 0 \<or>
        (real_of_int limit - real_of_int l / 2 ^ nat s) * (real_of_int limit - real_of_int l / 2 ^ nat s) < 2 * real_of_int limit"
      using terminal scaled_difference(1,3) [of limit "nat s" l] by simp
    then show ?thesis using x a(3) by (intro lower_envelope_below [of x _ "real_of_int limit"]) simp_all
  next
    case (Cons e rest)
    then have "\<not> ?P e" using hd_dropWhile [of ?P es] by (simp add: post_def)
    moreover have "check_lower_psi_limit (int (pp_value e)) l (2 ^ nat s)" using r Cons by auto
    ultimately show ?thesis using check_lower_real [of "int (pp_value e)" l "nat s"] x(1) a(3)
      by (intro lower_envelope_below [of x _ "real (pp_value e)"]) simp_all
  qed
  with a(1) show "x - psi x < sqrt (2 * x)" by linarith
  show "psi x - x \<le> 19764819 / 25000000 * sqrt x"
  proof (cases pre rule: rev_cases)
    case Nil
    then show ?thesis using x(1) psi by (simp add: order_trans [of _ 0])
  next
    case (snoc qs e)
    then obtain l' u' v where "check_upper_psi_jump (int (pp_value e)) (u' + v) (2 ^ nat s)" "u = u' + v"
      using l by (auto simp: envelope_run_append)
    then have "real_of_int u / 2 ^ nat s - real (pp_value e) \<le> 19764819 / 25000000 * sqrt (real (pp_value e))"
      using check_upper_real [of "int (pp_value e)" u "nat s"] by simp
    moreover have "real (pp_value e) \<le> x" using set_takeWhileD [of e ?P es] snoc by (simp add: pre_def)
    then have "real (pp_value e) \<le> x" "sqrt (real (pp_value e)) \<le> sqrt x" by simp_all
    ultimately show ?thesis using a(2) by linarith
  qed
qed

text \<open>C7:
  What an accepted psi certificate proves.  Chebyshev's function, the sum of the logarithms of the primes
  over all prime powers up to \<open>x\<close>, lies inside both envelopes at every real point from 1 to the limit, and
  the two totals that are returned enclose its value at the limit; the events counted are its jumps.
\<close>

theorem psi_envelopes_sound:
  assumes "verify_psi_chain chunks limit segment_size = Inr v" "1 \<le> x" "x \<le> real_of_int limit"
  shows "x - psi x < sqrt (2 * x) \<and> psi x - x \<le> 19764819 / 25000000 * sqrt x \<and>
    real_of_int (pv_final_lower v) / 2 ^ nat (pk_scale_bits (hd chunks)) \<le> psi (real_of_int limit) \<and>
    psi (real_of_int limit) \<le> real_of_int (pv_final_upper v) / 2 ^ nat (pk_scale_bits (hd chunks)) \<and>
    pv_events v = card {n. n \<le> nat limit \<and> (\<exists>p k. is_prime p \<and> 0 < k \<and> n = p ^ k)}"
proof -
  obtain s t es L U where es: "lists_prime_powers 2 (nat limit + 1) es" and run: "envelope_run s t (0, 0) es (L, U)"
    and s: "s = pk_scale_bits (hd chunks)" and limit: "2 \<le> limit"
    and terminal: "limit * 2 ^ nat s - L \<le> 0 \<or> (limit * 2 ^ nat s - L) * (limit * 2 ^ nat s - L) < 2 * limit * 2 ^ nat s * 2 ^ nat s"
    and v: "pv_events v = length es" "pv_final_lower v = L" "pv_final_upper v = U"
    using verify_psi_chain_Inr [OF assms(1)] by blast
  have set: "set es = prime_powers 2 (nat limit + 1)" using es by (simp add: lists_prime_powers_def)
  have "real (pp_value e) \<le> real_of_int limit" if "e \<in> set es" for e
    using that limit unfolding set prime_powers_def by (auto simp flip: of_nat_power)
  then have "filter (\<lambda>e. real (pp_value e) \<le> real_of_int limit) es = es" by simp
  then have "psi (real_of_int limit) = (\<Sum>e \<leftarrow> es. ln (real (pp_prime e)))"
    using psi_events [OF es, of "real_of_int limit"] limit by simp
  then have "real_of_int L / 2 ^ nat s \<le> psi (real_of_int limit)" "psi (real_of_int limit) \<le> real_of_int U / 2 ^ nat s"
    using envelope_run_total [OF run] by (simp_all add: field_simps)
  moreover have "length es = card {n. n \<le> nat limit \<and> (\<exists>p k. is_prime p \<and> 0 < k \<and> n = p ^ k)}"
  proof -
    have "length es = card (set es)" using lists_distinct [OF es] by (simp add: distinct_card)
    also have "\<dots> = card (pp_value ` set es)" using inj_prime_powers unfolding set by (simp add: card_image)
    also have "set es = {e \<in> prime_powers 2 (nat limit + 1). pp_value e \<le> nat limit}" unfolding set by (auto simp: prime_powers_def)
    then have "pp_value ` set es = {n. n \<le> nat limit \<and> (\<exists>p k. is_prime p \<and> 0 < k \<and> n = p ^ k)}"
      using prime_power_values [of "nat limit" "nat limit + 1"] by simp
    finally show ?thesis .
  qed
  ultimately show ?thesis using envelope_at [OF es run terminal assms(2,3)] unfolding v s by blast
qed

definition psi_example :: psi_chunk where
  "psi_example = rehash_psi_chunk \<lparr>pk_lower = 2, pk_upper = 3, pk_scale_bits = 4, pk_series_terms = 2, pk_incoming_lower = 0,
     pk_incoming_upper = 0, pk_outgoing_lower = 11, pk_outgoing_upper = 12,
     pk_events = [\<lparr>pe_value = 2, pe_prime = 2, pe_exponent = 1, pe_log_lower = 11, pe_log_upper = 12\<rparr>],
     pk_previous_hash = ZERO_SHA256, pk_record_hash = ZERO_SHA256\<rparr>"

lemma rehash_psi_chunk_hash:
  "psi_recomputed_hash (rehash_psi_chunk c) = pk_record_hash (rehash_psi_chunk c)" "fc_digest (pk_record_hash (rehash_psi_chunk c)) = Inr (pk_record_hash (rehash_psi_chunk c))"
  by (simp_all add: rehash_psi_chunk_def psi_recomputed_hash_def psi_body_def fc_digest_def fc_sha256_def sha256_hex_string)

lemma psi_example_parts:
  "prime_power_events 2 3 1 = Inr [\<lparr>pp_value = 2, pp_prime = 2, pp_exponent = 1\<rparr>]"
  "fixed_log_bounds 2 4 2 = Inr (11, 12)"
  "fc_digest ZERO_SHA256 = Inr ZERO_SHA256"
  by code_simp+

lemma psi_example_accepted: "\<exists>v. verify_psi_chain [psi_example] 2 1 = Inr v"
proof -
  have fields: "pk_lower psi_example = 2" "pk_upper psi_example = 3" "pk_scale_bits psi_example = 4" "pk_series_terms psi_example = 2"
    "pk_incoming_lower psi_example = 0" "pk_incoming_upper psi_example = 0" "pk_outgoing_lower psi_example = 11" "pk_outgoing_upper psi_example = 12"
    "pk_events psi_example = [\<lparr>pe_value = 2, pe_prime = 2, pe_exponent = 1, pe_log_lower = 11, pe_log_upper = 12\<rparr>]"
    "pk_previous_hash psi_example = ZERO_SHA256"
    by (simp_all add: psi_example_def rehash_psi_chunk_def)
  have "verify_psi_chunk psi_example 1 = Inr (1, 11, 12)"
    unfolding verify_psi_chunk_def fields
    by (simp add: psi_example_parts fc_int_def MAX_SCALE_BITS_def MAX_SERIES_TERMS_def MAX_HASHED_ROWS_def check_psi_event_def
        rehash_psi_chunk_hash psi_example_def [THEN arg_cong, of psi_recomputed_hash] psi_example_def [THEN arg_cong, of pk_record_hash]
        check_lower_psi_limit_def check_upper_psi_jump_def PSI_UPPER_NUMERATOR_def PSI_UPPER_DENOMINATOR_def push_bit_eq_mult)
  then show ?thesis by (simp add: verify_psi_chain_def fields fc_int_def push_bit_eq_mult)
qed

lemma psi_envelopes_sound_witness: "3 / 2 - psi (3 / 2) < sqrt 3 \<and> psi (3 / 2) - 3 / 2 \<le> 19764819 / 25000000 * sqrt (3 / 2)"
proof -
  obtain v where v: "verify_psi_chain [psi_example] 2 1 = Inr v" using psi_example_accepted by blast
  show ?thesis using psi_envelopes_sound [OF v, of "3 / 2"] by simp
qed

end
