(* ===== verification/DirectedRational.thy ===== *)
theory DirectedRational
  imports PsiCampaign
begin

text \<open>
  Model of the rational interval arithmetic in \<open>tg_verifier/prop1224_directed.py\<close>: intervals with dyadic
  outward rounding, enclosures of the logarithm, the exponential, real powers and cube roots, and the
  factorisation that the parameters use.  Caches do not change results.  The functions that round are only
  reached with a number of bits that \<open>validate_precision\<close> has accepted, so shifts are by natural numbers.
\<close>

definition DEFAULT_BITS :: int where "DEFAULT_BITS = 144"
definition DEFAULT_LOG_TERMS :: int where "DEFAULT_LOG_TERMS = 48"

record rational_interval =
  ri_lower :: rat
  ri_upper :: rat

definition ri_make :: "rat \<Rightarrow> rat \<Rightarrow> rational_interval res" where
  "ri_make l u = (if l > u then Inl FiniteCampaignError else Inr \<lparr>ri_lower = l, ri_upper = u\<rparr>)"

definition ri_exact :: "rat \<Rightarrow> rational_interval res" where
  "ri_exact v = ri_make v v"

definition ri_contains :: "rational_interval \<Rightarrow> rat \<Rightarrow> bool" where
  "ri_contains i v \<longleftrightarrow> ri_lower i \<le> v \<and> v \<le> ri_upper i"

definition EULER_GAMMA_BOUNDS :: "rat \<times> rat" where
  "EULER_GAMMA_BOUNDS = (577215657 / 10 ^ 9, 5772162 / 10 ^ 7)"

definition RAMARE_CE_BOUNDS :: "rat \<times> rat" where
  "RAMARE_CE_BOUNDS = (13325822 / 10 ^ 7, 13339 / 10 ^ 4)"

definition validate_precision :: "int \<Rightarrow> int \<Rightarrow> unit res" where
  "validate_precision bits terms =
     (if bits < 32 then Inl FiniteCampaignError
      else if bits > 4096 then Inl FiniteCampaignError
      else if terms < 8 then Inl FiniteCampaignError
      else if terms > 4096 then Inl FiniteCampaignError
      else Inr ())"

section \<open>Rounding and arithmetic\<close>

definition ri_round_down :: "rat \<Rightarrow> int \<Rightarrow> rat" where
  "ri_round_down v bits = (let scale = push_bit (nat bits) 1 in of_int (fc_floor (v * of_int scale)) / of_int scale)"

definition ri_round_up :: "rat \<Rightarrow> int \<Rightarrow> rat" where
  "ri_round_up v bits = (let scale = push_bit (nat bits) 1 in of_int (fc_ceil (v * of_int scale)) / of_int scale)"

definition ri_outward :: "rational_interval \<Rightarrow> int \<Rightarrow> rational_interval res" where
  "ri_outward v bits = ri_make (ri_round_down (ri_lower v) bits) (ri_round_up (ri_upper v) bits)"

definition ri_neg :: "rational_interval \<Rightarrow> rational_interval res" where
  "ri_neg v = ri_make (- ri_upper v) (- ri_lower v)"

definition ri_add :: "rational_interval \<Rightarrow> rational_interval \<Rightarrow> int \<Rightarrow> rational_interval res" where
  "ri_add left right bits =
     ebind (ri_make (ri_lower left + ri_lower right) (ri_upper left + ri_upper right)) (\<lambda>sum. ri_outward sum bits)"

definition ri_sub :: "rational_interval \<Rightarrow> rational_interval \<Rightarrow> int \<Rightarrow> rational_interval res" where
  "ri_sub left right bits = ebind (ri_neg right) (\<lambda>negated. ri_add left negated bits)"

definition ri_mul :: "rational_interval \<Rightarrow> rational_interval \<Rightarrow> int \<Rightarrow> rational_interval res" where
  "ri_mul left right bits =
     (let a = ri_lower left * ri_lower right; b = ri_lower left * ri_upper right;
          c = ri_upper left * ri_lower right; d = ri_upper left * ri_upper right
      in ebind (ri_make (min (min (min a b) c) d) (max (max (max a b) c) d)) (\<lambda>enclosing. ri_outward enclosing bits))"

definition ri_reciprocal :: "rational_interval \<Rightarrow> int \<Rightarrow> rational_interval res" where
  "ri_reciprocal v bits =
     (if ri_lower v \<le> 0 \<and> 0 \<le> ri_upper v then Inl FiniteCampaignError
      else ebind (ri_make (1 / ri_upper v) (1 / ri_lower v)) (\<lambda>inverted. ri_outward inverted bits))"

definition ri_div :: "rational_interval \<Rightarrow> rational_interval \<Rightarrow> int \<Rightarrow> rational_interval res" where
  "ri_div numerator denominator bits = ebind (ri_reciprocal denominator bits) (\<lambda>inverted. ri_mul numerator inverted bits)"

text \<open>Square and multiply: the state is the result, the base and the remaining exponent.\<close>

function ri_pow_loop :: "rational_interval \<Rightarrow> rational_interval \<Rightarrow> nat \<Rightarrow> int \<Rightarrow> rational_interval res" where
  "ri_pow_loop result base e bits =
     (if e = 0 then Inr result
      else ebind (if odd e then ri_mul result base bits else Inr result) (\<lambda>result.
        let e' = e div 2
        in ebind (if e' \<noteq> 0 then ri_mul base base bits else Inr base) (\<lambda>base. ri_pow_loop result base e' bits)))"
  by pat_completeness auto
termination by (relation "measure (\<lambda>(result, base, e, bits). e)") auto

declare ri_pow_loop.simps [simp del]

definition ri_pow_nat :: "rational_interval \<Rightarrow> int \<Rightarrow> int \<Rightarrow> rational_interval res" where
  "ri_pow_nat v e bits =
     (if e < 0 then Inl FiniteCampaignError
      else ebind (ri_exact 1) (\<lambda>one. ri_pow_loop one v (nat e) bits))"

definition ri_max :: "rational_interval list \<Rightarrow> rational_interval res" where
  "ri_max vs =
     (case vs of
        [] \<Rightarrow> Inl FiniteCampaignError
      | v # rest \<Rightarrow> ri_make (foldl max (ri_lower v) (map ri_lower rest)) (foldl max (ri_upper v) (map ri_upper rest)))"

section \<open>The logarithm\<close>

definition power_of_two :: "int \<Rightarrow> rat" where
  "power_of_two e = (if e \<ge> 0 then of_int (push_bit (nat e) 1) else 1 / of_int (push_bit (nat (- e)) 1))"

lemma real_power_of_two: "real_of_rat (power_of_two e) = 2 powr real_of_int e"
proof (cases "0 \<le> e")
  case True
  then show ?thesis by (simp add: power_of_two_def push_bit_eq_mult powr_realpow [symmetric] of_rat_power)
next
  case False
  then have "real_of_int e = - real (nat (- e))" by simp
  then have "2 powr real_of_int e = 1 / 2 ^ nat (- e)" by (simp only: powr_minus_divide powr_realpow zero_less_numeral)
  with False show ?thesis by (simp add: power_of_two_def push_bit_eq_mult of_rat_power of_rat_divide)
qed

text \<open>The two loops that correct the exponent.  The value is positive where they are called.\<close>

function exponent_down :: "rat \<Rightarrow> int \<Rightarrow> int" where
  "exponent_down v e = (if 0 < v \<and> v < power_of_two e then exponent_down v (e - 1) else e)"
  by pat_completeness auto
termination
proof (relation "measure (\<lambda>(v, e). nat (e - \<lfloor>log 2 (real_of_rat v)\<rfloor>))")
  fix v e assume v: "0 < v \<and> v < power_of_two e"
  then have "real_of_rat v < real_of_rat (power_of_two e)" by (simp only: of_rat_less)
  then have "log 2 (real_of_rat v) < real_of_int e" using v by (simp add: real_power_of_two log_less_iff)
  then have "\<lfloor>log 2 (real_of_rat v)\<rfloor> < e" by linarith
  then show "((v, e - 1), (v, e)) \<in> measure (\<lambda>(v, e). nat (e - \<lfloor>log 2 (real_of_rat v)\<rfloor>))" by simp
qed simp

function exponent_up :: "rat \<Rightarrow> int \<Rightarrow> int" where
  "exponent_up v e = (if 0 < v \<and> v \<ge> power_of_two (e + 1) then exponent_up v (e + 1) else e)"
  by pat_completeness auto
termination
proof (relation "measure (\<lambda>(v, e). nat (\<lfloor>log 2 (real_of_rat v)\<rfloor> - e))")
  fix v e assume v: "0 < v \<and> v \<ge> power_of_two (e + 1)"
  then have "real_of_rat (power_of_two (e + 1)) \<le> real_of_rat v" by (simp only: of_rat_less_eq)
  then have "real_of_int (e + 1) \<le> log 2 (real_of_rat v)" using v by (simp add: real_power_of_two le_log_iff)
  then have "e + 1 \<le> \<lfloor>log 2 (real_of_rat v)\<rfloor>" by (simp only: le_floor_iff)
  then show "((v, e + 1), (v, e)) \<in> measure (\<lambda>(v, e). nat (\<lfloor>log 2 (real_of_rat v)\<rfloor> - e))" by simp
qed simp

declare exponent_down.simps [simp del] exponent_up.simps [simp del]

definition unit_log_bounds :: "int \<Rightarrow> rat \<Rightarrow> rational_interval res" where
  "unit_log_bounds terms argument =
     (if \<not> (1 \<le> argument \<and> argument \<le> 2) then Inl FiniteCampaignError
      else
        let z = (argument - 1) / (argument + 1)
        in if z = 0 then ri_exact 0
           else
             let z_squared = z * z;
                 (partial, z_power) = foldl (log_series_step z_squared) (0, z) [0..<nat terms];
                 lower = 2 * partial;
                 tail = 2 * z_power / (of_int (2 * terms + 1) * (1 - z_squared))
             in ri_make lower (lower + tail))"

definition log_point_bounds :: "rat \<Rightarrow> int \<Rightarrow> rational_interval res" where
  "log_point_bounds v terms =
     (if v \<le> 0 then Inl FiniteCampaignError
      else if terms < 1 then Inl FiniteCampaignError
      else
        let (numerator, denominator) = quotient_of v;
            exponent = int (bit_length (nat numerator)) - int (bit_length (nat denominator));
            exponent = exponent_up v (exponent_down v exponent);
            mantissa = v / power_of_two exponent
        in ebind (unit_log_bounds terms mantissa) (\<lambda>mantissa_log. ebind (unit_log_bounds terms 2) (\<lambda>log_two.
             if exponent \<ge> 0 then
               ri_make (ri_lower mantissa_log + of_int exponent * ri_lower log_two)
                 (ri_upper mantissa_log + of_int exponent * ri_upper log_two)
             else
               ri_make (ri_lower mantissa_log + of_int exponent * ri_upper log_two)
                 (ri_upper mantissa_log + of_int exponent * ri_lower log_two))))"

definition log_interval :: "rational_interval \<Rightarrow> int \<Rightarrow> int \<Rightarrow> rational_interval res" where
  "log_interval v bits terms = ebind (validate_precision bits terms) (\<lambda>_.
     if ri_lower v \<le> 0 then Inl FiniteCampaignError
     else ebind (log_point_bounds (ri_lower v) terms) (\<lambda>low. ebind (log_point_bounds (ri_upper v) terms) (\<lambda>high.
       ebind (ri_make (ri_lower low) (ri_upper high)) (\<lambda>enclosing. ri_outward enclosing bits))))"

section \<open>The exponential and real powers\<close>

text \<open>The least power of two, from the divisor on, that is at least eight times the value.\<close>

function exp_divisor :: "rat \<Rightarrow> int \<Rightarrow> int" where
  "exp_divisor v divisor = (if v * 8 > of_int divisor \<and> 0 < divisor then exp_divisor v (push_bit 1 divisor) else divisor)"
  by pat_completeness auto
termination
proof (relation "measure (\<lambda>(v, divisor). nat (\<lceil>v * 8\<rceil> - divisor))")
  fix v :: rat and divisor :: int assume d: "v * 8 > of_int divisor \<and> 0 < divisor"
  then have "divisor < \<lceil>v * 8\<rceil>" by (simp add: less_ceiling_iff)
  with d show "((v, push_bit 1 divisor), (v, divisor)) \<in> measure (\<lambda>(v, divisor). nat (\<lceil>v * 8\<rceil> - divisor))"
    by (simp add: push_bit_eq_mult)
qed simp

declare exp_divisor.simps [simp del]

definition exp_series_step :: "rat \<Rightarrow> rat \<times> rat \<Rightarrow> nat \<Rightarrow> rat \<times> rat" where
  "exp_series_step reduced state index =
     (case state of (partial, t) \<Rightarrow> let t = t * reduced / of_nat index in (partial + t, t))"

definition exp_nonnegative_point :: "rat \<Rightarrow> int \<Rightarrow> int \<Rightarrow> rational_interval res" where
  "exp_nonnegative_point v bits terms =
     (if v < 0 then Inl FiniteCampaignError
      else if v = 0 then ri_exact 1
      else
        let divisor = exp_divisor v 1;
            reduced = v / of_int divisor;
            (partial, t) = foldl (exp_series_step reduced) (1, 1) [1..<nat terms + 1];
            next_term = t * reduced / of_int (terms + 1);
            ratio = reduced / of_int (terms + 2);
            tail = next_term / (1 - ratio)
        in ebind (ri_make partial (partial + tail)) (\<lambda>enclosing. ebind (ri_outward enclosing bits) (\<lambda>base.
             ri_pow_nat base divisor bits)))"

definition exp_point_bounds :: "rat \<Rightarrow> int \<Rightarrow> int \<Rightarrow> rational_interval res" where
  "exp_point_bounds v bits terms =
     (if v \<ge> 0 then exp_nonnegative_point v bits terms
      else ebind (exp_nonnegative_point (- v) bits terms) (\<lambda>positive. ri_reciprocal positive bits))"

definition exp_interval :: "rational_interval \<Rightarrow> int \<Rightarrow> int \<Rightarrow> rational_interval res" where
  "exp_interval v bits terms = ebind (validate_precision bits terms) (\<lambda>_.
     ebind (exp_point_bounds (ri_lower v) bits terms) (\<lambda>low. ebind (exp_point_bounds (ri_upper v) bits terms) (\<lambda>high.
       ebind (ri_make (ri_lower low) (ri_upper high)) (\<lambda>enclosing. ri_outward enclosing bits))))"

definition rpow_interval :: "rational_interval \<Rightarrow> rational_interval \<Rightarrow> int \<Rightarrow> int \<Rightarrow> rational_interval res" where
  "rpow_interval base exponent bits terms =
     ebind (log_interval base bits terms) (\<lambda>logarithm. ebind (ri_mul logarithm exponent bits) (\<lambda>product.
       exp_interval product bits terms))"

section \<open>Cube roots\<close>

function cube_root_loop :: "int \<Rightarrow> int \<Rightarrow> int \<Rightarrow> int" where
  "cube_root_loop v lower upper =
     (if lower + 1 < upper then
        let middle = (lower + upper) div 2
        in if middle * middle * middle \<le> v then cube_root_loop v middle upper else cube_root_loop v lower middle
      else lower)"
  by pat_completeness auto
termination by (relation "measure (\<lambda>(v, lower, upper). nat (upper - lower))") auto

declare cube_root_loop.simps [simp del]

definition integer_cube_root_floor :: "int \<Rightarrow> int res" where
  "integer_cube_root_floor v =
     (if v < 0 then Inl FiniteCampaignError
      else Inr (cube_root_loop v 0 (push_bit ((bit_length (nat v) + 2) div 3) 1)))"

definition integer_cube_root_interval :: "int \<Rightarrow> int \<Rightarrow> rational_interval res" where
  "integer_cube_root_interval v bits =
     (if v \<le> 0 then Inl FiniteCampaignError
      else if bits < 1 then Inl FiniteCampaignError
      else
        let scale = push_bit (nat bits) 1; scaled = v * scale * scale * scale
        in ebind (integer_cube_root_floor scaled) (\<lambda>lower.
             if lower * lower * lower = scaled then ri_exact (of_int lower / of_int scale)
             else ri_make (of_int lower / of_int scale) (of_int (lower + 1) / of_int scale)))"

section \<open>Factors\<close>

text \<open>Dividing out one prime, and trial division.  Divisors are at least two; the tests bound the recursion.\<close>

function divide_out :: "int \<Rightarrow> int \<Rightarrow> int" where
  "divide_out divisor remainder =
     (if remainder mod divisor = 0 \<and> 1 < divisor \<and> 0 < remainder then divide_out divisor (remainder div divisor) else remainder)"
  by pat_completeness auto
termination
proof (relation "measure (\<lambda>(divisor, remainder). nat remainder)")
  fix divisor remainder :: int assume d: "remainder mod divisor = 0 \<and> 1 < divisor \<and> 0 < remainder"
  then have "remainder div divisor < remainder" by (simp add: int_div_less_self)
  with d show "((divisor, remainder div divisor), (divisor, remainder)) \<in> measure (\<lambda>(divisor, remainder). nat remainder)" by simp
qed simp

declare divide_out.simps [simp del]

lemma divide_out_le: "0 < remainder \<Longrightarrow> divide_out divisor remainder \<le> remainder"
proof (induction divisor remainder rule: divide_out.induct)
  case (1 divisor remainder)
  show ?case
  proof (cases "remainder mod divisor = 0 \<and> 1 < divisor \<and> 0 < remainder")
    case True
    then have "divisor \<le> remainder" by (auto intro: zdvd_imp_le)
    then have "0 < remainder div divisor" "remainder div divisor < remainder" using True by (simp_all add: pos_imp_zdiv_pos_iff int_div_less_self)
    then have "divide_out divisor (remainder div divisor) \<le> remainder" using 1(1) [OF True] by linarith
    then show ?thesis using True by (simp add: divide_out.simps [of divisor remainder])
  next
    case False
    then have "divide_out divisor remainder = remainder" by (subst divide_out.simps) (simp only: if_False)
    then show ?thesis by simp
  qed
qed

function factor_loop :: "int \<Rightarrow> int list \<Rightarrow> int \<Rightarrow> int list \<times> int" where
  "factor_loop remainder factors divisor =
     (if divisor * divisor \<le> remainder \<and> 1 < divisor then
        let divides = (remainder mod divisor = 0);
            factors = (if divides then factors @ [divisor] else factors);
            remainder = (if divides then divide_out divisor remainder else remainder)
        in factor_loop remainder factors (if divisor = 2 then 3 else divisor + 2)
      else (factors, remainder))"
  by pat_completeness auto
termination
proof (relation "measure (\<lambda>(remainder, factors, divisor). nat (remainder + 1 - divisor))")
  fix remainder divisor :: int and divides factors xa xb xc
  assume d: "divisor * divisor \<le> remainder \<and> 1 < divisor" and "divides = (remainder mod divisor = 0)"
    and r: "xb = (if divides then divide_out divisor remainder else remainder)"
  have "divisor * 1 \<le> divisor * divisor" using d by (intro mult_left_mono) simp_all
  then have "divisor \<le> remainder" "0 < remainder" using d by linarith+
  then have "xb \<le> remainder" using divide_out_le r by simp
  then show "((xb, xa, if divisor = 2 then 3 else divisor + 2), (remainder, factors, divisor))
      \<in> measure (\<lambda>(remainder, factors, divisor). nat (remainder + 1 - divisor))" using d \<open>divisor \<le> remainder\<close> by simp
qed simp

declare factor_loop.simps [simp del]

definition distinct_prime_factors :: "int \<Rightarrow> int list res" where
  "distinct_prime_factors v =
     (if v < 1 then Inl FiniteCampaignError
      else case factor_loop v [] 2 of (factors, remainder) \<Rightarrow> Inr (if remainder > 1 then factors @ [remainder] else factors))"

definition totient_from_factors :: "int \<Rightarrow> int list \<Rightarrow> int" where
  "totient_from_factors v factors = foldl (\<lambda>result prime. result - result div prime) v factors"

end
