(* ===== verification/Prop1224.thy ===== *)
theory Prop1224
  imports PsiCampaign
begin

text \<open>
  Model of the structural checker for Proposition 12.2.4 in \<open>tg_verifier/finite_campaigns.py\<close>: the schedule
  of admissible \<open>q\<close>, the exact sums \<open>G\<^sub>q(k)\<close>, conservative windows of \<open>k\<close>, and the hash-linked chunks of
  windows.  A dictionary from \<open>k\<close> to its sum is an association list; the margins a caller supplies, as a
  mapping or a callable, are a partial function.  Constant flags of results are left out.
\<close>

definition PROP1224_ATOM :: pystr where "PROP1224_ATOM = lit ''helfgott-prop-12-2-4''"
definition PROP1224_ALGORITHM :: pystr where "PROP1224_ALGORITHM = lit ''prop1224_interval_window_stream_v1''"
definition PROP1224_Q_SPLIT :: int where "PROP1224_Q_SPLIT = 3300000000"
definition PROP1224_Q_END :: int where "PROP1224_Q_END = 22000000000"
definition PROP1224_DIVISOR :: int where "PROP1224_DIVISOR = 210"
definition PROP1224_SEMANTICS_STATUS :: pystr where
  "PROP1224_SEMANTICS_STATUS = lit ''structural-only: outward transcendental enclosures are supplied, not recomputed''"

section \<open>The schedule\<close>

definition prop1224_first_extension_q :: int where
  "prop1224_first_extension_q = PROP1224_Q_SPLIT + (- PROP1224_Q_SPLIT) mod PROP1224_DIVISOR"

definition prop1224_q_is_admissible :: "int \<Rightarrow> bool res" where
  "prop1224_q_is_admissible q = ebind (fc_int 1 q) (\<lambda>q.
     Inr (q < PROP1224_Q_SPLIT \<or> (q < PROP1224_Q_END \<and> q mod PROP1224_DIVISOR = 0)))"

definition prop1224_next_q :: "int \<Rightarrow> int res" where
  "prop1224_next_q q = ebind (fc_int 1 q) (\<lambda>q. ebind (prop1224_q_is_admissible q) (\<lambda>admissible.
     if \<not> admissible then Inl FiniteCampaignError
     else if q < PROP1224_Q_SPLIT - 1 then Inr (q + 1)
     else if q < PROP1224_Q_SPLIT then Inr prop1224_first_extension_q
     else
       let candidate = q + PROP1224_DIVISOR
       in Inr (if candidate < PROP1224_Q_END then candidate else PROP1224_Q_END)))"

definition prop1224_source_q_count :: int where
  "prop1224_source_q_count =
     (let first = prop1224_first_extension_q;
          extension = (PROP1224_Q_END - 1 - first) div PROP1224_DIVISOR + 1
      in PROP1224_Q_SPLIT - 1 + extension)"

section \<open>The sums\<close>

definition reduce_multiple :: "nat \<Rightarrow> nat list \<Rightarrow> nat \<Rightarrow> nat list" where
  "reduce_multiple prime phi multiple = phi[multiple := phi ! multiple - phi ! multiple div prime]"

definition totient_step :: "nat \<Rightarrow> nat list \<Rightarrow> nat \<Rightarrow> nat list" where
  "totient_step limit phi prime =
     (if phi ! prime \<noteq> prime then phi
      else foldl (reduce_multiple prime) phi (py_range prime (limit + 1) prime))"

definition totients_through :: "int \<Rightarrow> nat list res" where
  "totients_through limit = ebind (fc_int 0 limit) (\<lambda>limit.
     let n = nat limit; phi = [0..<n + 1]; phi = (if n \<ge> 1 then phi[1 := 1] else phi)
     in Inr (foldl (totient_step n) phi [2..<n + 1]))"

text \<open>The loop over \<open>r\<close>: the running sum and the values asked for.\<close>

definition ramare_step :: "int list \<Rightarrow> nat list \<Rightarrow> int \<Rightarrow> int list \<Rightarrow> rat \<times> (int \<times> rat) list \<Rightarrow> nat \<Rightarrow> rat \<times> (int \<times> rat) list" where
  "ramare_step mu phi q wanted state r =
     (let (total, result) = state;
          total = (if mu ! r \<noteq> 0 \<and> gcd (int r) q = 1 then total + 1 / of_nat (phi ! r) else total)
      in (total, if int r \<in> set wanted then result @ [(int r, total)] else result))"

definition ramare_g_prefixes :: "int \<Rightarrow> int list \<Rightarrow> (int \<times> rat) list res" where
  "ramare_g_prefixes q ks =
     ebind (fc_int 1 q) (\<lambda>q.
     if length ks > MAX_HASHED_ROWS then Inl FiniteCampaignError
     else ebind (map_res (fc_int 1) ks) (\<lambda>requested.
     if requested = [] then Inr []
     else if sort (remdups requested) \<noteq> requested then Inl FiniteCampaignError
     else
       let limit = last requested
       in if limit > int MAX_HASHED_ROWS then Inl FiniteCampaignError
          else ebind (mobius_linear limit) (\<lambda>mu. ebind (totients_through limit) (\<lambda>phi.
            Inr (snd (foldl (ramare_step mu phi q requested) (0, []) [1..<nat limit + 1]))))))"

section \<open>Windows\<close>

record prop1224_pair =
  qp_k :: int
  qp_g_numerator :: int
  qp_g_denominator :: int
  qp_margin_numerator :: int
  qp_margin_denominator :: int

record prop1224_window =
  qw_q :: int
  qw_varpi_lower_numerator :: int
  qw_varpi_lower_denominator :: int
  qw_varpi_upper_numerator :: int
  qw_varpi_upper_denominator :: int
  qw_lambda_lower_numerator :: int
  qw_lambda_lower_denominator :: int
  qw_lambda_upper_numerator :: int
  qw_lambda_upper_denominator :: int
  qw_pairs :: "prop1224_pair list"

definition pair_body :: "prop1224_pair \<Rightarrow> pyval" where
  "pair_body p = PList (map PInt [qp_k p, qp_g_numerator p, qp_g_denominator p, qp_margin_numerator p, qp_margin_denominator p])"

definition window_body :: "prop1224_window \<Rightarrow> pyval" where
  "window_body w = PDict (map (\<lambda>(k, v). (lit k, v))
     [(''lambda'', PList (map PInt [qw_lambda_lower_numerator w, qw_lambda_lower_denominator w,
        qw_lambda_upper_numerator w, qw_lambda_upper_denominator w])),
      (''pairs'', PList (map pair_body (qw_pairs w))), (''q'', PInt (qw_q w)),
      (''varpi'', PList (map PInt [qw_varpi_lower_numerator w, qw_varpi_lower_denominator w,
        qw_varpi_upper_numerator w, qw_varpi_upper_denominator w]))])"

definition fc_fraction :: "int \<Rightarrow> int \<Rightarrow> rat res" where
  "fc_fraction numerator denominator = ebind (fc_int 1 denominator) (\<lambda>denominator.
     let v = of_int numerator / of_int denominator
     in if quotient_of v \<noteq> (numerator, denominator) then Inl FiniteCampaignError else Inr v)"

definition window_bounds :: "prop1224_window \<Rightarrow> (rat \<times> rat \<times> rat \<times> rat) res" where
  "window_bounds w =
     ebind (fc_fraction (qw_varpi_lower_numerator w) (qw_varpi_lower_denominator w)) (\<lambda>varpi_lower.
     ebind (fc_fraction (qw_varpi_upper_numerator w) (qw_varpi_upper_denominator w)) (\<lambda>varpi_upper.
     ebind (fc_fraction (qw_lambda_lower_numerator w) (qw_lambda_lower_denominator w)) (\<lambda>lambda_lower.
     ebind (fc_fraction (qw_lambda_upper_numerator w) (qw_lambda_upper_denominator w)) (\<lambda>lambda_upper.
     if min varpi_lower lambda_lower < 0 then Inl FiniteCampaignError
     else if varpi_lower > varpi_upper then Inl FiniteCampaignError
     else if lambda_lower > lambda_upper then Inl FiniteCampaignError
     else Inr (varpi_lower, varpi_upper, lambda_lower, lambda_upper)))))"

definition prop1224_conservative_ks :: "prop1224_window \<Rightarrow> int list res" where
  "prop1224_conservative_ks w =
     ebind (window_bounds w) (\<lambda>(varpi_lower, _, _, lambda_upper).
       let first = max 1 (fc_ceil varpi_lower); last_k = fc_ceil lambda_upper - 1
       in if last_k < first then Inr []
          else if last_k - first + 1 > int MAX_HASHED_ROWS then Inl FiniteCampaignError
          else Inr [first..last_k])"

definition lookup_g :: "(int \<times> rat) list \<Rightarrow> int \<Rightarrow> rat res" where
  "lookup_g values k = (case map_of values k of None \<Rightarrow> Inl KeyError | Some g \<Rightarrow> Inr g)"

text \<open>\<open>create_prop1224_window\<close>: the placeholder without pairs, then the pairs in the order of the window.\<close>

definition make_pair :: "(int \<times> rat) list \<Rightarrow> (int \<Rightarrow> rat option) \<Rightarrow> int \<Rightarrow> prop1224_pair res" where
  "make_pair values margin_lower k =
     (case margin_lower k of
        None \<Rightarrow> Inl FiniteCampaignError
      | Some margin \<Rightarrow> ebind (lookup_g values k) (\<lambda>g_value.
          Inr \<lparr>qp_k = k, qp_g_numerator = fst (quotient_of g_value), qp_g_denominator = snd (quotient_of g_value),
            qp_margin_numerator = fst (quotient_of margin), qp_margin_denominator = snd (quotient_of margin)\<rparr>))"

definition create_prop1224_window :: "int \<Rightarrow> rat \<Rightarrow> rat \<Rightarrow> rat \<Rightarrow> rat \<Rightarrow> (int \<Rightarrow> rat option) \<Rightarrow> prop1224_window res" where
  "create_prop1224_window q varpi_lower varpi_upper lambda_lower lambda_upper margin_lower =
     ebind (fc_int 1 q) (\<lambda>q. ebind (prop1224_q_is_admissible q) (\<lambda>admissible.
     if \<not> admissible then Inl FiniteCampaignError
     else
       let placeholder = \<lparr>qw_q = q,
             qw_varpi_lower_numerator = fst (quotient_of varpi_lower), qw_varpi_lower_denominator = snd (quotient_of varpi_lower),
             qw_varpi_upper_numerator = fst (quotient_of varpi_upper), qw_varpi_upper_denominator = snd (quotient_of varpi_upper),
             qw_lambda_lower_numerator = fst (quotient_of lambda_lower), qw_lambda_lower_denominator = snd (quotient_of lambda_lower),
             qw_lambda_upper_numerator = fst (quotient_of lambda_upper), qw_lambda_upper_denominator = snd (quotient_of lambda_upper),
             qw_pairs = []\<rparr>
       in ebind (prop1224_conservative_ks placeholder) (\<lambda>ks. ebind (ramare_g_prefixes q ks) (\<lambda>values.
          ebind (map_res (make_pair values margin_lower) ks) (\<lambda>pairs. Inr (placeholder\<lparr>qw_pairs := pairs\<rparr>))))))"

definition verify_pair :: "(int \<times> rat) list \<Rightarrow> prop1224_pair \<Rightarrow> unit res" where
  "verify_pair exact_g p =
     ebind (fc_fraction (qp_g_numerator p) (qp_g_denominator p)) (\<lambda>g_value. ebind (lookup_g exact_g (qp_k p)) (\<lambda>exact.
     if g_value \<noteq> exact then Inl FiniteCampaignError
     else ebind (fc_fraction (qp_margin_numerator p) (qp_margin_denominator p)) (\<lambda>margin.
       if margin < 0 then Inl FiniteCampaignError else Inr ())))"

definition verify_prop1224_window :: "prop1224_window \<Rightarrow> nat res" where
  "verify_prop1224_window w =
     ebind (fc_int 1 (qw_q w)) (\<lambda>q. ebind (prop1224_q_is_admissible q) (\<lambda>admissible.
     if \<not> admissible then Inl FiniteCampaignError
     else ebind (map_res (\<lambda>p. fc_int 1 (qp_k p)) (qw_pairs w)) (\<lambda>_.
     ebind (prop1224_conservative_ks w) (\<lambda>expected_ks.
     if map qp_k (qw_pairs w) \<noteq> expected_ks then Inl FiniteCampaignError
     else ebind (ramare_g_prefixes q expected_ks) (\<lambda>exact_g.
     ebind (map_res (verify_pair exact_g) (qw_pairs w)) (\<lambda>_. Inr (length expected_ks)))))))"

section \<open>Chunks\<close>

record prop1224_chunk =
  qc_first_q :: int
  qc_next_q :: int
  qc_windows :: "prop1224_window list"
  qc_previous_hash :: pystr
  qc_record_hash :: pystr

definition prop1224_body :: "prop1224_chunk \<Rightarrow> pyval" where
  "prop1224_body c = PDict (map (\<lambda>(k, v). (lit k, v))
     [(''algorithm'', PStr PROP1224_ALGORITHM), (''atom'', PStr PROP1224_ATOM), (''first_q'', PInt (qc_first_q c)),
      (''next_q'', PInt (qc_next_q c)), (''previous_hash'', PStr (qc_previous_hash c)),
      (''semantics_status'', PStr PROP1224_SEMANTICS_STATUS), (''windows'', PList (map window_body (qc_windows c)))])"

definition prop1224_recomputed_hash :: "prop1224_chunk \<Rightarrow> pystr" where
  "prop1224_recomputed_hash c = fc_sha256 (prop1224_body c)"

definition rehash_prop1224_chunk :: "prop1224_chunk \<Rightarrow> prop1224_chunk" where
  "rehash_prop1224_chunk c = c\<lparr>qc_record_hash := prop1224_recomputed_hash c\<rparr>"

text \<open>The loops over the windows of a chunk: the scheduled \<open>q\<close> expected next, and the number of pairs.\<close>

fun schedule_loop :: "int \<Rightarrow> prop1224_window list \<Rightarrow> int res" where
  "schedule_loop expected_q [] = Inr expected_q"
| "schedule_loop expected_q (w # windows) =
     (if qw_q w \<noteq> expected_q then Inl FiniteCampaignError
      else ebind (prop1224_next_q (qw_q w)) (\<lambda>expected_q. schedule_loop expected_q windows))"

definition create_prop1224_chunk :: "prop1224_window list \<Rightarrow> pystr \<Rightarrow> prop1224_chunk res" where
  "create_prop1224_chunk windows previous_hash =
     (if windows = [] then Inl FiniteCampaignError
      else ebind (fc_digest previous_hash) (\<lambda>_. ebind (schedule_loop (qw_q (hd windows)) windows) (\<lambda>expected_q.
        Inr (rehash_prop1224_chunk \<lparr>qc_first_q = qw_q (hd windows), qc_next_q = expected_q, qc_windows = windows,
          qc_previous_hash = previous_hash, qc_record_hash = ZERO_SHA256\<rparr>))))"

fun window_loop :: "int \<Rightarrow> nat \<Rightarrow> prop1224_window list \<Rightarrow> (int \<times> nat) res" where
  "window_loop expected_q pairs [] = Inr (expected_q, pairs)"
| "window_loop expected_q pairs (w # windows) =
     (if qw_q w \<noteq> expected_q then Inl FiniteCampaignError
      else ebind (verify_prop1224_window w) (\<lambda>n. ebind (prop1224_next_q (qw_q w)) (\<lambda>expected_q.
        window_loop expected_q (pairs + n) windows)))"

definition verify_prop1224_chunk :: "prop1224_chunk \<Rightarrow> (nat \<times> nat) res" where
  "verify_prop1224_chunk c =
     ebind (fc_int 1 (qc_first_q c)) (\<lambda>_. ebind (fc_int 1 (qc_next_q c)) (\<lambda>_.
     ebind (fc_digest (qc_previous_hash c)) (\<lambda>_. ebind (fc_digest (qc_record_hash c)) (\<lambda>_.
     if prop1224_recomputed_hash c \<noteq> qc_record_hash c then Inl FiniteCampaignError
     else if qc_windows c = [] then Inl FiniteCampaignError
     else if qc_first_q c \<noteq> qw_q (hd (qc_windows c)) then Inl FiniteCampaignError
     else ebind (window_loop (qc_first_q c) 0 (qc_windows c)) (\<lambda>(expected_q, pairs).
     if qc_next_q c \<noteq> expected_q then Inl FiniteCampaignError
     else Inr (length (qc_windows c), pairs))))))"

record prop1224_verification =
  qv_first_q :: int
  qv_next_q :: int
  qv_chunks :: nat
  qv_q_rows :: nat
  qv_pairs :: nat
  qv_final_hash :: pystr
  qv_full_source_q_coverage :: bool

fun prop1224_chain_loop :: "prop1224_chunk \<times> nat \<times> nat \<times> nat \<Rightarrow> prop1224_chunk list \<Rightarrow> (prop1224_chunk \<times> nat \<times> nat \<times> nat) res" where
  "prop1224_chain_loop state [] = Inr state"
| "prop1224_chain_loop (previous, q_rows, pairs, chunk_count) (c # rest) =
     (if qc_first_q c \<noteq> qc_next_q previous then Inl FiniteCampaignError
      else if qc_previous_hash c \<noteq> qc_record_hash previous then Inl FiniteCampaignError
      else ebind (verify_prop1224_chunk c) (\<lambda>(chunk_rows, chunk_pairs).
        prop1224_chain_loop (c, q_rows + chunk_rows, pairs + chunk_pairs, chunk_count + 1) rest))"

definition verify_prop1224_chain :: "prop1224_chunk list \<Rightarrow> int \<Rightarrow> int option \<Rightarrow> prop1224_verification res" where
  "verify_prop1224_chain chunks expected_first_q expected_next_q =
     ebind (fc_int 1 expected_first_q) (\<lambda>_.
     ebind (case expected_next_q of None \<Rightarrow> Inr () | Some n \<Rightarrow> ebind (fc_int 1 n) (\<lambda>_. Inr ())) (\<lambda>_.
     case chunks of
       [] \<Rightarrow> Inl FiniteCampaignError
     | first # rest \<Rightarrow>
       if qc_first_q first \<noteq> expected_first_q then Inl FiniteCampaignError
       else if qc_previous_hash first \<noteq> ZERO_SHA256 then Inl FiniteCampaignError
       else ebind (verify_prop1224_chunk first) (\<lambda>(chunk_rows, chunk_pairs).
       ebind (prop1224_chain_loop (first, chunk_rows, chunk_pairs, 1) rest) (\<lambda>(previous, q_rows, pairs, chunk_count).
       if (case expected_next_q of None \<Rightarrow> False | Some n \<Rightarrow> qc_next_q previous \<noteq> n) then Inl FiniteCampaignError
       else
         let full = (qc_first_q first = 1 \<and> qc_next_q previous = PROP1224_Q_END)
         in if full \<and> int q_rows \<noteq> prop1224_source_q_count then Inl FiniteCampaignError
            else Inr \<lparr>qv_first_q = qc_first_q first, qv_next_q = qc_next_q previous, qv_chunks = chunk_count,
              qv_q_rows = q_rows, qv_pairs = pairs, qv_final_hash = qc_record_hash previous,
              qv_full_source_q_coverage = full\<rparr>))))"

end
