(* ===== verification/Prop1224Directed.thy ===== *)
theory Prop1224Directed
  imports DirectedRational Prop1224
begin

text \<open>
  Model of the directed producer in \<open>tg_verifier/prop1224_directed.py\<close>: the parameters of one \<open>q\<close>, the margin
  at one \<open>k\<close>, complete rows, and chunks of rows.  \<open>ri_point\<close> is the interval of one rational, whose
  constructor cannot fail; the long function for the parameters is cut where its values are named.
\<close>

definition MAX_SAMPLE_PAIRS :: int where "MAX_SAMPLE_PAIRS = 100000"
definition MAX_DIRECTED_CHUNK_Q_ROWS :: nat where "MAX_DIRECTED_CHUNK_Q_ROWS = 10000"

definition ri_point :: "rat \<Rightarrow> rational_interval" where
  "ri_point v = \<lparr>ri_lower = v, ri_upper = v\<rparr>"

lemma ri_exact_point: "ri_exact v = Inr (ri_point v)"
  by (simp add: ri_exact_def ri_make_def ri_point_def)

definition directed_omega :: rat where "directed_omega = 627312 / 10 ^ 6"

section \<open>Parameters\<close>

fun log_prime_loop :: "int \<Rightarrow> int \<Rightarrow> rational_interval \<Rightarrow> int list \<Rightarrow> rational_interval res" where
  "log_prime_loop bits terms acc [] = Inr acc"
| "log_prime_loop bits terms acc (prime # factors) =
     ebind (log_interval (ri_point (of_int prime)) bits terms) (\<lambda>log_prime.
     ebind (ri_mul log_prime (ri_point (1 / of_int prime)) bits) (\<lambda>part.
     ebind (ri_add acc part bits) (\<lambda>acc. log_prime_loop bits terms acc factors)))"

definition directed_tau :: "int \<Rightarrow> rational_interval \<Rightarrow> rational_interval res" where
  "directed_tau bits exp_minus_gamma = ri_mul (ri_point (2 / 5)) exp_minus_gamma bits"

definition directed_c_sigma :: "int \<Rightarrow> int \<Rightarrow> rational_interval \<Rightarrow> rational_interval res" where
  "directed_c_sigma bits terms exp_minus_gamma =
     (let sigma = 34 / 25; sigma_expression = sigma - sigma * sigma / (656 / 125) - 293 / 250
      in ebind (ri_mul exp_minus_gamma (ri_point sigma_expression) bits) (\<lambda>c_sigma_exponent. exp_interval c_sigma_exponent bits terms))"

definition directed_c2 :: "int \<Rightarrow> int \<Rightarrow> rational_interval \<Rightarrow> rational_interval res" where
  "directed_c2 bits terms ce =
     ebind (ri_sub ce (ri_point (164 / 125)) bits) (\<lambda>excess. ebind (ri_mul (ri_point directed_omega) excess bits) (\<lambda>scaled.
     ebind (ri_add (ri_point (1109 / 10000)) scaled bits) (\<lambda>c2_exponent. exp_interval c2_exponent bits terms)))"

definition directed_kappa :: "int \<Rightarrow> rational_interval \<Rightarrow> rational_interval \<Rightarrow> rational_interval \<Rightarrow> rational_interval res" where
  "directed_kappa bits log_q log_prime_sum ce =
     ebind (ri_sub (ri_point (34 / 25)) ce bits) (\<lambda>c_delta.
     ebind (ri_sub (ri_point 1) (ri_point directed_omega) bits) (\<lambda>weight.
     ebind (ri_sub log_q log_prime_sum bits) (\<lambda>difference.
     ebind (ri_mul weight difference bits) (\<lambda>product. ebind (ri_add product c_delta bits) (\<lambda>kappa.
       if ri_lower kappa \<le> 0 then Inl FiniteCampaignError else Inr kappa)))))"

definition f1_factor :: "int \<Rightarrow> int \<Rightarrow> rational_interval res" where
  "f1_factor bits prime =
     ebind (integer_cube_root_interval prime bits) (\<lambda>cube_root. ebind (ri_mul cube_root cube_root bits) (\<lambda>two_thirds.
     ebind (ri_reciprocal two_thirds bits) (\<lambda>inverted. ebind (ri_add (ri_point 1) inverted bits) (\<lambda>numerator.
     ebind (ri_add cube_root two_thirds bits) (\<lambda>roots.
     ebind (ri_mul roots (ri_point (1 / of_int (prime * (prime - 1)))) bits) (\<lambda>part.
     ebind (ri_add (ri_point 1) part bits) (\<lambda>denominator. ri_div numerator denominator bits)))))))"

fun f1_loop :: "int \<Rightarrow> rational_interval \<Rightarrow> int list \<Rightarrow> rational_interval res" where
  "f1_loop bits f1 [] = Inr f1"
| "f1_loop bits f1 (prime # factors) =
     ebind (f1_factor bits prime) (\<lambda>factor. ebind (ri_mul f1 factor bits) (\<lambda>f1. f1_loop bits f1 factors))"

definition directed_lambda :: "int \<Rightarrow> int \<Rightarrow> int \<Rightarrow> rational_interval \<Rightarrow> rational_interval \<Rightarrow> rational_interval res" where
  "directed_lambda bits q phi_q f1 kappa =
     ebind (ri_mul (ri_point (of_int q / of_int phi_q)) (ri_point (1821 / 250 * (1 + 23111 / 10 ^ 6))) bits) (\<lambda>scaled.
     ebind (ri_mul scaled f1 bits) (\<lambda>product. ebind (ri_div product kappa bits) (\<lambda>lambda_base. ri_pow_nat lambda_base 3 bits)))"

definition directed_varpi_zero ::
  "int \<Rightarrow> int \<Rightarrow> rational_interval \<Rightarrow> rational_interval \<Rightarrow> rational_interval \<Rightarrow> rational_interval res" where
  "directed_varpi_zero bits terms log_q tau a_value =
     ebind (ri_add (ri_point 1) log_q bits) (\<lambda>gate_left.
     if ri_upper gate_left < ri_lower a_value then
       ebind (ri_sub a_value log_q bits) (\<lambda>difference.
       if ri_lower difference \<le> 0 then Inl FiniteCampaignError
       else
         ebind (ri_sub (ri_point 1) tau bits) (\<lambda>complement. ebind (ri_div tau complement bits) (\<lambda>ratio. ebind (ri_neg ratio) (\<lambda>exponent.
         ebind (rpow_interval difference exponent bits terms) (\<lambda>correction_power.
         ebind (ri_mul log_q correction_power bits) (\<lambda>correction. ebind (ri_sub a_value correction bits) (\<lambda>inner.
         if ri_lower inner \<le> 0 then Inl FiniteCampaignError
         else ebind (ri_reciprocal complement bits) (\<lambda>outer. rpow_interval inner outer bits terms))))))))
     else if ri_lower gate_left \<ge> ri_upper a_value then Inr (ri_point 0)
     else Inl FiniteCampaignError)"

definition directed_varpi ::
  "int \<Rightarrow> int \<Rightarrow> int \<Rightarrow> rational_interval \<Rightarrow> rational_interval \<Rightarrow> rational_interval \<Rightarrow> rational_interval \<Rightarrow> rational_interval res" where
  "directed_varpi bits terms q log_q tau c_sigma c2 =
     ebind (rpow_interval (ri_point (of_int q)) tau bits terms) (\<lambda>q_to_tau. ebind (ri_mul c_sigma q_to_tau bits) (\<lambda>a_value.
     ebind (directed_varpi_zero bits terms log_q tau a_value) (\<lambda>varpi_zero.
     ebind (rpow_interval (ri_point 100000) tau bits terms) (\<lambda>hundred_thousand_to_tau.
     ebind (ri_mul c_sigma hundred_thousand_to_tau bits) (\<lambda>scaled. ebind (ri_sub scaled log_q bits) (\<lambda>varpi_middle.
     ebind (ri_sub (ri_point 1) (ri_point directed_omega) bits) (\<lambda>complement. ebind (ri_reciprocal complement bits) (\<lambda>omega_exponent.
     ebind (ri_mul c2 (ri_point (of_int q)) bits) (\<lambda>base.
     ebind (rpow_interval base omega_exponent bits terms) (\<lambda>varpi_last_denominator.
     ebind (ri_div (ri_point 100000) varpi_last_denominator bits) (\<lambda>varpi_last.
     ebind (ri_max [varpi_zero, varpi_middle, varpi_last]) (\<lambda>varpi. ri_outward varpi bits))))))))))))"

record directed_parameters =
  dp_q :: int
  dp_prime_factors :: "int list"
  dp_phi_q :: int
  dp_log_q :: rational_interval
  dp_log_prime_sum :: rational_interval
  dp_euler_gamma :: rational_interval
  dp_ramare_ce :: rational_interval
  dp_tau :: rational_interval
  dp_c_sigma :: rational_interval
  dp_c2 :: rational_interval
  dp_kappa :: rational_interval
  dp_f1 :: rational_interval
  dp_varpi :: rational_interval
  dp_lambda :: rational_interval
  dp_bits :: int
  dp_log_terms :: int

definition prop1224_directed_parameters :: "int \<Rightarrow> int \<Rightarrow> int \<Rightarrow> directed_parameters res" where
  "prop1224_directed_parameters q bits log_terms =
     ebind (validate_precision bits log_terms) (\<lambda>_. ebind (prop1224_q_is_admissible q) (\<lambda>admissible.
     if \<not> admissible then Inl FiniteCampaignError
     else
       ebind (ri_make (fst EULER_GAMMA_BOUNDS) (snd EULER_GAMMA_BOUNDS)) (\<lambda>gamma.
       ebind (ri_make (fst RAMARE_CE_BOUNDS) (snd RAMARE_CE_BOUNDS)) (\<lambda>ce.
       ebind (distinct_prime_factors q) (\<lambda>factors.
       let phi_q = totient_from_factors q factors
       in ebind (log_interval (ri_point (of_int q)) bits log_terms) (\<lambda>log_q.
       ebind (log_prime_loop bits log_terms (ri_point 0) factors) (\<lambda>log_prime_sum.
       ebind (ri_neg gamma) (\<lambda>minus_gamma. ebind (exp_interval minus_gamma bits log_terms) (\<lambda>exp_minus_gamma.
       ebind (directed_tau bits exp_minus_gamma) (\<lambda>tau. ebind (directed_c_sigma bits log_terms exp_minus_gamma) (\<lambda>c_sigma.
       ebind (directed_c2 bits log_terms ce) (\<lambda>c2. ebind (directed_kappa bits log_q log_prime_sum ce) (\<lambda>kappa.
       ebind (f1_loop bits (ri_point 1) factors) (\<lambda>f1. ebind (directed_lambda bits q phi_q f1 kappa) (\<lambda>lam.
       ebind (directed_varpi bits log_terms q log_q tau c_sigma c2) (\<lambda>varpi.
         Inr \<lparr>dp_q = q, dp_prime_factors = factors, dp_phi_q = phi_q, dp_log_q = log_q, dp_log_prime_sum = log_prime_sum,
           dp_euler_gamma = gamma, dp_ramare_ce = ce, dp_tau = tau, dp_c_sigma = c_sigma, dp_c2 = c2, dp_kappa = kappa, dp_f1 = f1,
           dp_varpi = varpi, dp_lambda = lam, dp_bits = bits, dp_log_terms = log_terms\<rparr>))))))))))))))))"

section \<open>Margins\<close>

definition margin_interval_from_exact_g :: "directed_parameters \<Rightarrow> int \<Rightarrow> rat \<Rightarrow> rational_interval res" where
  "margin_interval_from_exact_g parameters k g_q_k =
     (if k < 1 then Inl FiniteCampaignError
      else
        let bits = dp_bits parameters; omega = ri_point directed_omega
        in ebind (log_interval (ri_point (of_int k)) bits (dp_log_terms parameters)) (\<lambda>log_k.
           let phi_ratio = ri_point (of_int (dp_phi_q parameters) / of_int (dp_q parameters))
           in ebind (ri_sub (ri_point 1) omega bits) (\<lambda>complement. ebind (ri_mul complement (dp_log_q parameters) bits) (\<lambda>main.
              ebind (ri_mul omega (dp_log_prime_sum parameters) bits) (\<lambda>primes. ebind (ri_add main primes bits) (\<lambda>logs.
              ebind (ri_add (ri_point (34 / 25)) log_k bits) (\<lambda>rest. ebind (ri_add logs rest bits) (\<lambda>inner.
              ebind (ri_mul phi_ratio inner bits) (\<lambda>scaled. ebind (ri_sub scaled (ri_point g_q_k) bits) (\<lambda>right_minus_error.
              ebind (integer_cube_root_interval (20000 * k) bits) (\<lambda>cube_root. ebind (ri_reciprocal cube_root bits) (\<lambda>inverted.
              ebind (ri_mul (ri_point (627312 / 10 ^ 6 * (1821 / 250))) inverted bits) (\<lambda>envelope.
              ebind (ri_mul envelope (dp_f1 parameters) bits) (\<lambda>remote_envelope.
                ri_sub right_minus_error remote_envelope bits))))))))))))))"

definition prop1224_directed_margin_lower_from_g_upper :: "directed_parameters \<Rightarrow> int \<Rightarrow> rat \<Rightarrow> rat res" where
  "prop1224_directed_margin_lower_from_g_upper parameters k g_q_k_upper =
     ebind (margin_interval_from_exact_g parameters k g_q_k_upper) (\<lambda>margin. Inr (ri_lower margin))"

definition prop1224_directed_margin :: "int \<Rightarrow> int \<Rightarrow> int \<Rightarrow> int \<Rightarrow> rational_interval res" where
  "prop1224_directed_margin q k bits log_terms =
     (if k < 1 then Inl FiniteCampaignError
      else ebind (prop1224_directed_parameters q bits log_terms) (\<lambda>parameters.
        ebind (ramare_g_prefixes q [k]) (\<lambda>prefixes. ebind (lookup_g prefixes k) (\<lambda>g_q_k.
          margin_interval_from_exact_g parameters k g_q_k))))"

section \<open>Rows\<close>

record directed_sample =
  ds_parameters :: directed_parameters
  ds_window :: prop1224_window
  ds_endpoints_recomputed :: bool
  ds_margins_recomputed :: bool
  ds_native_float :: bool
  ds_full_campaign :: bool
  ds_lean_proved :: bool

definition create_directed_prop1224_sample :: "int \<Rightarrow> int \<Rightarrow> int \<Rightarrow> int \<Rightarrow> directed_sample res" where
  "create_directed_prop1224_sample q bits log_terms max_pairs =
     (if max_pairs < 0 then Inl FiniteCampaignError
      else ebind (prop1224_directed_parameters q bits log_terms) (\<lambda>parameters.
        let first = max 1 (fc_ceil (ri_lower (dp_varpi parameters)));
            last_k = fc_ceil (ri_upper (dp_lambda parameters)) - 1;
            pair_count = max 0 (last_k - first + 1)
        in if pair_count > max_pairs then Inl FiniteCampaignError
           else
             let ks = (if pair_count \<noteq> 0 then [first..last_k] else [])
             in ebind (ramare_g_prefixes q ks) (\<lambda>exact_g.
                ebind (map_res (\<lambda>k. ebind (lookup_g exact_g k) (\<lambda>g. ebind (margin_interval_from_exact_g parameters k g) (\<lambda>margin.
                  Inr (k, ri_lower margin)))) ks) (\<lambda>margins.
                ebind (create_prop1224_window q (ri_lower (dp_varpi parameters)) (ri_upper (dp_varpi parameters))
                  (ri_lower (dp_lambda parameters)) (ri_upper (dp_lambda parameters)) (map_of margins)) (\<lambda>window.
                ebind (verify_prop1224_window window) (\<lambda>_.
                  Inr \<lparr>ds_parameters = parameters, ds_window = window, ds_endpoints_recomputed = True, ds_margins_recomputed = True,
                    ds_native_float = False, ds_full_campaign = False, ds_lean_proved = False\<rparr>))))))"

definition verify_directed_prop1224_sample :: "directed_sample \<Rightarrow> nat res" where
  "verify_directed_prop1224_sample s =
     (if \<not> ds_endpoints_recomputed s \<or> \<not> ds_margins_recomputed s \<or> ds_native_float s \<or> ds_full_campaign s \<or> ds_lean_proved s
      then Inl FiniteCampaignError
      else ebind (create_directed_prop1224_sample (dp_q (ds_parameters s)) (dp_bits (ds_parameters s)) (dp_log_terms (ds_parameters s))
        (int (length (qw_pairs (ds_window s))))) (\<lambda>rebuilt.
          if rebuilt \<noteq> s then Inl FiniteCampaignError else Inr (length (qw_pairs (ds_window s)))))"

section \<open>Chunks of rows\<close>

record directed_verification =
  dv_first_q :: int
  dv_next_q :: int
  dv_q_rows :: nat
  dv_pairs :: nat
  dv_record_hash :: pystr
  dv_precision_bits :: int
  dv_log_series_terms :: int

fun directed_row_loop :: "int \<Rightarrow> int \<Rightarrow> int \<Rightarrow> int \<Rightarrow> int list \<Rightarrow> prop1224_window list res" where
  "directed_row_loop bits log_terms max_pairs_per_q expected_q [] = Inr []"
| "directed_row_loop bits log_terms max_pairs_per_q expected_q (q # qs) =
     (if q \<noteq> expected_q then Inl FiniteCampaignError
      else ebind (create_directed_prop1224_sample q bits log_terms max_pairs_per_q) (\<lambda>s. ebind (prop1224_next_q q) (\<lambda>expected_q.
        ebind (directed_row_loop bits log_terms max_pairs_per_q expected_q qs) (\<lambda>windows. Inr (ds_window s # windows)))))"

definition create_directed_prop1224_chunk :: "int list \<Rightarrow> int \<Rightarrow> int \<Rightarrow> int \<Rightarrow> pystr \<Rightarrow> prop1224_chunk res" where
  "create_directed_prop1224_chunk qs bits log_terms max_pairs_per_q previous_hash =
     (if qs = [] then Inl FiniteCampaignError
      else if length qs > MAX_DIRECTED_CHUNK_Q_ROWS then Inl FiniteCampaignError
      else ebind (directed_row_loop bits log_terms max_pairs_per_q (hd qs) qs) (\<lambda>windows.
        create_prop1224_chunk windows previous_hash))"

definition replay_row :: "int \<Rightarrow> int \<Rightarrow> int \<Rightarrow> prop1224_window \<Rightarrow> unit res" where
  "replay_row bits log_terms max_pairs_per_q w =
     ebind (create_directed_prop1224_sample (qw_q w) bits log_terms max_pairs_per_q) (\<lambda>rebuilt.
       if ds_window rebuilt \<noteq> w then Inl FiniteCampaignError else Inr ())"

definition verify_directed_prop1224_chunk :: "prop1224_chunk \<Rightarrow> int \<Rightarrow> int \<Rightarrow> int \<Rightarrow> directed_verification res" where
  "verify_directed_prop1224_chunk c bits log_terms max_pairs_per_q =
     ebind (verify_prop1224_chunk c) (\<lambda>(q_rows, pairs).
     if q_rows > MAX_DIRECTED_CHUNK_Q_ROWS then Inl FiniteCampaignError
     else ebind (map_res (replay_row bits log_terms max_pairs_per_q) (qc_windows c)) (\<lambda>_.
       Inr \<lparr>dv_first_q = qc_first_q c, dv_next_q = qc_next_q c, dv_q_rows = q_rows, dv_pairs = pairs,
         dv_record_hash = qc_record_hash c, dv_precision_bits = bits, dv_log_series_terms = log_terms\<rparr>))"

end
