(* ===== verification/Totient.thy ===== *)
theory Totient
  imports Moebius
begin

text \<open>
  Euler's function by its definition, and how the number of integers up to \<open>m\<close> that avoid a set of prime
  divisors of \<open>m\<close> changes with one prime more.
\<close>

definition totient :: "nat \<Rightarrow> nat" where
  "totient n = card {k \<in> {1..n}. coprime k n}"

definition avoiding :: "nat set \<Rightarrow> nat \<Rightarrow> nat" where
  "avoiding P m = card {k \<in> {1..m}. \<forall>q \<in> P. \<not> q dvd k}"

lemma card_periodic:
  assumes "\<And>k. A (k + d) \<longleftrightarrow> A k"
  shows "card {k \<in> {1..t * d}. A k} = t * card {k \<in> {1..d}. A k}"
proof (induction t)
  case (Suc t)
  have shift: "A (k + t * d) \<longleftrightarrow> A k" for k t
  proof (induction t)
    case (Suc t)
    then show ?case using assms [of "k + t * d"] by (simp add: add_ac)
  qed simp
  have "{k \<in> {1..Suc t * d}. A k} = {k \<in> {1..t * d}. A k} \<union> (\<lambda>k. k + t * d) ` {k \<in> {1..d}. A k}"
  proof (intro set_eqI iffI)
    fix k assume k: "k \<in> {k \<in> {1..Suc t * d}. A k}"
    show "k \<in> {k \<in> {1..t * d}. A k} \<union> (\<lambda>k. k + t * d) ` {k \<in> {1..d}. A k}"
    proof (cases "k \<le> t * d")
      case False
      then have "k = (k - t * d) + t * d" "k - t * d \<in> {1..d}" using k by auto
      moreover from this have "A (k - t * d)" using k shift [of "k - t * d" t] by simp
      ultimately have "k \<in> (\<lambda>k. k + t * d) ` {k \<in> {1..d}. A k}" by blast
      then show ?thesis by simp
    qed (use k in simp)
  qed (auto simp: shift)
  then have "card {k \<in> {1..Suc t * d}. A k} = card {k \<in> {1..t * d}. A k} + card ((\<lambda>k. k + t * d) ` {k \<in> {1..d}. A k})"
    by (simp only:) (intro card_Un_disjoint; auto)
  also have "card ((\<lambda>k. k + t * d) ` {k \<in> {1..d}. A k}) = card {k \<in> {1..d}. A k}" by (rule card_image) (simp add: inj_on_def)
  finally show ?case using Suc by simp
qed simp

lemma avoiding_insert:
  assumes "is_prime p" "p dvd m" "\<forall>q \<in> P. is_prime q \<and> q dvd m" "p \<notin> P"
  shows "avoiding (insert p P) m = avoiding P m - avoiding P m div p"
proof -
  let ?A = "\<lambda>k. \<forall>q \<in> P. \<not> q dvd k"
  obtain d where m: "m = p * d" using assms(2) by blast
  have d: "q dvd d" if "q \<in> P" for q
    using that assms prime_dvd_mult [of q p d] prime_dvd_prime [of q p] unfolding m by blast
  have "avoiding P m = p * avoiding P d" unfolding avoiding_def m
    by (rule card_periodic) (use d in \<open>auto simp: dvd_add_left_iff\<close>)
  then have quotient: "avoiding P m div p = avoiding P d" using prime_pos [OF assms(1)] by simp
  have "{k \<in> {1..m}. ?A k} = {k \<in> {1..m}. \<forall>q \<in> insert p P. \<not> q dvd k} \<union> {k \<in> {1..m}. p dvd k \<and> ?A k}" by auto
  moreover have "card ({k \<in> {1..m}. \<forall>q \<in> insert p P. \<not> q dvd k} \<union> {k \<in> {1..m}. p dvd k \<and> ?A k}) =
      card {k \<in> {1..m}. \<forall>q \<in> insert p P. \<not> q dvd k} + card {k \<in> {1..m}. p dvd k \<and> ?A k}"
    by (rule card_Un_disjoint) auto
  ultimately have "avoiding P m = avoiding (insert p P) m + card {k \<in> {1..m}. p dvd k \<and> ?A k}" by (simp add: avoiding_def)
  moreover have "{k \<in> {1..m}. p dvd k \<and> ?A k} = (\<lambda>j. p * j) ` {j \<in> {1..d}. ?A j}"
  proof -
    have multiple: "?A (p * j) \<longleftrightarrow> ?A j" for j
      using assms prime_dvd_mult [of _ p j] prime_dvd_prime [of _ p] by blast
    have range: "p * j \<in> {1..m} \<longleftrightarrow> j \<in> {1..d}" for j using prime_pos [OF assms(1)] by (auto simp: m)
    have member: "p * j \<in> {k \<in> {1..m}. p dvd k \<and> ?A k} \<longleftrightarrow> j \<in> {j \<in> {1..d}. ?A j}" for j
      by (simp only: mem_Collect_eq range multiple dvd_triv_left simp_thms)
    show ?thesis
    proof (intro set_eqI iffI)
      fix k assume k: "k \<in> {k \<in> {1..m}. p dvd k \<and> ?A k}"
      then obtain j where "k = p * j" by blast
      with k member [of j] show "k \<in> (\<lambda>j. p * j) ` {j \<in> {1..d}. ?A j}" by blast
    next
      fix k assume "k \<in> (\<lambda>j. p * j) ` {j \<in> {1..d}. ?A j}"
      then obtain j where "k = p * j" "j \<in> {j \<in> {1..d}. ?A j}" by blast
      with member [of j] show "k \<in> {k \<in> {1..m}. p dvd k \<and> ?A k}" by blast
    qed
  qed
  then have "card {k \<in> {1..m}. p dvd k \<and> ?A k} = avoiding P d"
    using prime_pos [OF assms(1)] by (simp add: card_image inj_on_def avoiding_def)
  ultimately show ?thesis using quotient by simp
qed

lemma totient_avoiding:
  assumes "0 < n"
  shows "totient n = avoiding {q. is_prime q \<and> q dvd n} n"
proof -
  have "coprime k n \<longleftrightarrow> (\<forall>q \<in> {q. is_prime q \<and> q dvd n}. \<not> q dvd k)" for k
  proof
    assume "coprime k n"
    then show "\<forall>q \<in> {q. is_prime q \<and> q dvd n}. \<not> q dvd k"
      using prime_gt_1 by (auto dest!: coprime_common_divisor_nat simp: is_prime_def)
  next
    assume none: "\<forall>q \<in> {q. is_prime q \<and> q dvd n}. \<not> q dvd k"
    have "\<not> 1 < gcd k n" using none prime_factor [of "gcd k n"] by (auto dest: dvd_trans)
    moreover have "gcd k n \<noteq> 0" using assms by simp
    ultimately have "gcd k n = 1" by linarith
    then show "coprime k n" by (simp only: coprime_iff_gcd_eq_1)
  qed
  then show ?thesis by (simp add: totient_def avoiding_def)
qed

lemma avoiding_self:
  assumes "2 \<le> p"
  shows "avoiding {q. is_prime q \<and> q < p \<and> q dvd p} p = p \<longleftrightarrow> is_prime p"
proof
  assume "is_prime p"
  then have "{q. is_prime q \<and> q < p \<and> q dvd p} = {}" using prime_dvd_prime by blast
  moreover have "avoiding {} p = card {1..p}" by (simp only: avoiding_def ball_empty simp_thms Collect_mem_eq)
  then have "avoiding {} p = p" by (simp only: card_atLeastAtMost diff_Suc_1)
  ultimately show "avoiding {q. is_prime q \<and> q < p \<and> q dvd p} p = p" by (simp only:)
next
  assume full: "avoiding {q. is_prime q \<and> q < p \<and> q dvd p} p = p"
  show "is_prime p"
  proof (rule ccontr)
    assume "\<not> is_prime p"
    moreover obtain q where q: "is_prime q" "q dvd p" using prime_factor [of p] assms by auto
    moreover from this have "q \<le> p" using assms by (intro dvd_imp_le) simp_all
    ultimately have "q < p" by (metis le_neq_implies_less)
    have "{k \<in> {1..p}. \<forall>r \<in> {q. is_prime q \<and> q < p \<and> q dvd p}. \<not> r dvd k} \<subseteq> {1..p} - {q}" using q \<open>q < p\<close> by auto
    then have "avoiding {q. is_prime q \<and> q < p \<and> q dvd p} p \<le> card ({1..p} - {q})" unfolding avoiding_def by (intro card_mono) simp_all
    also have "\<dots> < p" using prime_pos [OF q(1)] \<open>q < p\<close> assms by simp
    finally show False using full by simp
  qed
qed

end
