(* ===== verification/DirectedRational_Claims.thy ===== *)
theory DirectedRational_Claims
  imports DirectedRational PsiCampaign_Facts Totient
begin

text \<open>
  Every interval operation encloses the real operation it stands for, and the elementary functions never fail on
  proper intervals; cube roots, trial division and Euler's function from the factors.  A function that is enclosed at the two
  endpoints through its monotonicity is the locale \<open>monotone_enclosure\<close>, with the logarithm and the
  exponential as its interpretations.
\<close>

definition ri_has :: "rational_interval \<Rightarrow> real \<Rightarrow> bool" where
  "ri_has i x \<longleftrightarrow> real_of_rat (ri_lower i) \<le> x \<and> x \<le> real_of_rat (ri_upper i)"

section \<open>Rounding and arithmetic\<close>

lemma ri_make_Inr [simp]: "ri_make l u = Inr i \<longleftrightarrow> i = \<lparr>ri_lower = l, ri_upper = u\<rparr> \<and> l \<le> u"
  by (auto simp: ri_make_def)

lemma ri_exact_Inr [simp]: "ri_exact v = Inr i \<longleftrightarrow> i = \<lparr>ri_lower = v, ri_upper = v\<rparr>"
  by (auto simp: ri_exact_def)

lemma ri_has_exact [simp]: "ri_has \<lparr>ri_lower = v, ri_upper = v\<rparr> x \<longleftrightarrow> x = real_of_rat v"
  by (auto simp: ri_has_def)

lemma ri_round_down_le: "ri_round_down v bits \<le> v"
proof -
  have S: "(0 :: rat) < 2 ^ nat bits" by simp
  have "of_int \<lfloor>v * 2 ^ nat bits\<rfloor> \<le> v * 2 ^ nat bits" by (rule of_int_floor_le)
  with S show ?thesis by (simp add: ri_round_down_def Let_def push_bit_eq_mult pos_divide_le_eq)
qed

lemma ri_round_up_ge: "v \<le> ri_round_up v bits"
proof -
  have S: "(0 :: rat) < 2 ^ nat bits" by simp
  have "v * 2 ^ nat bits \<le> of_int \<lceil>v * 2 ^ nat bits\<rceil>" by (rule le_of_int_ceiling)
  with S show ?thesis by (simp add: ri_round_up_def Let_def push_bit_eq_mult pos_le_divide_eq)
qed

lemma ri_outward_Inr: "ri_outward v bits = Inr w \<Longrightarrow> ri_lower w \<le> ri_lower v \<and> ri_upper v \<le> ri_upper w"
  using ri_round_down_le [of "ri_lower v" bits] ri_round_up_ge [of "ri_upper v" bits] by (simp add: ri_outward_def)

lemma ri_outward_has:
  assumes "ri_outward v bits = Inr w" "ri_has v x"
  shows "ri_has w x"
proof -
  have "real_of_rat (ri_lower w) \<le> real_of_rat (ri_lower v)" "real_of_rat (ri_upper v) \<le> real_of_rat (ri_upper w)"
    using ri_outward_Inr [OF assms(1)] by (simp_all only: of_rat_less_eq)
  with assms(2) show ?thesis by (simp add: ri_has_def)
qed

lemma ri_neg_has: "ri_neg v = Inr w \<Longrightarrow> ri_has v x \<Longrightarrow> ri_has w (- x)"
  by (auto simp: ri_neg_def ri_has_def of_rat_minus)

lemma ri_add_has: "ri_add v w bits = Inr u \<Longrightarrow> ri_has v x \<Longrightarrow> ri_has w y \<Longrightarrow> ri_has u (x + y)"
  by (auto simp: ri_add_def res_simps elim!: ri_outward_has) (auto simp: ri_has_def of_rat_add)

lemma ri_sub_has: "ri_sub v w bits = Inr u \<Longrightarrow> ri_has v x \<Longrightarrow> ri_has w y \<Longrightarrow> ri_has u (x - y)"
  using ri_add_has ri_neg_has by (fastforce simp: ri_sub_def res_simps)

text \<open>A product lies between the products of the endpoints.\<close>

lemma product_bounds:
  fixes a b c d x y :: real
  assumes "a \<le> x" "x \<le> b" "c \<le> y" "y \<le> d"
  shows "min (min (min (a * c) (a * d)) (b * c)) (b * d) \<le> x * y" "x * y \<le> max (max (max (a * c) (a * d)) (b * c)) (b * d)"
proof -
  have x: "min (a * y) (b * y) \<le> x * y" "x * y \<le> max (a * y) (b * y)"
    using assms(1,2) by (cases "0 \<le> y"; auto simp: min_le_iff_disj le_max_iff_disj intro: mult_right_mono mult_right_mono_neg)+
  have y: "min (t * c) (t * d) \<le> t * y" "t * y \<le> max (t * c) (t * d)" for t
    using assms(3,4) by (cases "0 \<le> t"; auto simp: min_le_iff_disj le_max_iff_disj intro: mult_left_mono mult_left_mono_neg)+
  show "min (min (min (a * c) (a * d)) (b * c)) (b * d) \<le> x * y" using x(1) y(1) [of a] y(1) [of b] by linarith
  show "x * y \<le> max (max (max (a * c) (a * d)) (b * c)) (b * d)" using x(2) y(2) [of a] y(2) [of b] by linarith
qed

lemma of_rat_min: "real_of_rat (min a b) = min (real_of_rat a) (real_of_rat b)"
  by (simp add: min_def of_rat_less_eq)

lemma of_rat_max: "real_of_rat (max a b) = max (real_of_rat a) (real_of_rat b)"
  by (simp add: max_def of_rat_less_eq)

lemma ri_mul_has: "ri_mul v w bits = Inr u \<Longrightarrow> ri_has v x \<Longrightarrow> ri_has w y \<Longrightarrow> ri_has u (x * y)"
  unfolding ri_mul_def Let_def ebind_Inr_iff
  by (elim exE conjE, rule ri_outward_has, assumption)
    (simp add: ri_has_def of_rat_min of_rat_max of_rat_mult product_bounds)

lemma reciprocal_bounds:
  fixes a b x :: real
  assumes "0 < a \<or> b < 0" "a \<le> x" "x \<le> b"
  shows "1 / b \<le> 1 / x" "1 / x \<le> 1 / a"
  using assms le_imp_inverse_le [of x b] le_imp_inverse_le [of a x] le_imp_inverse_le_neg [of x b] le_imp_inverse_le_neg [of a x]
  by (auto simp: divide_inverse)

lemma ri_reciprocal_has: "ri_reciprocal v bits = Inr u \<Longrightarrow> ri_has v x \<Longrightarrow> x \<noteq> 0 \<and> ri_has u (1 / x)"
proof -
  assume u: "ri_reciprocal v bits = Inr u" and x: "ri_has v x"
  have zero: "0 < real_of_rat (ri_lower v) \<or> real_of_rat (ri_upper v) < 0"
    using u by (auto simp: ri_reciprocal_def res_simps)
  have bounds: "real_of_rat (ri_lower v) \<le> x" "x \<le> real_of_rat (ri_upper v)" using x by (simp_all add: ri_has_def)
  note reciprocal_bounds [OF zero bounds]
  then have "ri_has \<lparr>ri_lower = 1 / ri_upper v, ri_upper = 1 / ri_lower v\<rparr> (1 / x)" by (simp add: ri_has_def of_rat_divide)
  moreover have "ri_outward \<lparr>ri_lower = 1 / ri_upper v, ri_upper = 1 / ri_lower v\<rparr> bits = Inr u"
    using u by (auto simp: ri_reciprocal_def res_simps)
  moreover have "x \<noteq> 0" using zero bounds by auto
  ultimately show ?thesis using ri_outward_has by blast
qed

lemma ri_div_has: "ri_div v w bits = Inr u \<Longrightarrow> ri_has v x \<Longrightarrow> ri_has w y \<Longrightarrow> y \<noteq> 0 \<and> ri_has u (x / y)"
proof -
  assume "ri_div v w bits = Inr u" and has: "ri_has v x" "ri_has w y"
  then obtain r where r: "ri_reciprocal w bits = Inr r" "ri_mul v r bits = Inr u" by (auto simp: ri_div_def res_simps)
  with ri_reciprocal_has [OF r(1) has(2)] ri_mul_has [OF r(2) has(1), of "1 / y"] show ?thesis by simp
qed

lemma ri_pow_loop_has:
  "ri_pow_loop r v e bits = Inr u \<Longrightarrow> ri_has r x \<Longrightarrow> ri_has v y \<Longrightarrow> ri_has u (x * y ^ e)"
proof (induction r v e bits arbitrary: x y rule: ri_pow_loop.induct)
  case (1 r v e bits)
  show ?case
  proof (cases "e = 0")
    case True
    with 1(2-4) show ?thesis by (simp add: ri_pow_loop.simps)
  next
    case False
    obtain r' v' where r': "(if odd e then ri_mul r v bits else Inr r) = Inr r'"
      and v': "(if e div 2 \<noteq> 0 then ri_mul v v bits else Inr v) = Inr v'" and u: "ri_pow_loop r' v' (e div 2) bits = Inr u"
      using 1(2) False by (subst (asm) ri_pow_loop.simps) (auto simp: ebind_Inr_iff Let_def simp del: if_split)
    have x: "ri_has r' (if odd e then x * y else x)" using r' 1(3,4) ri_mul_has by (auto split: if_splits)
    have e: "e = 2 * (e div 2) + (if odd e then 1 else 0)" by simp
    have split: "y ^ e = (y * y) ^ (e div 2) * (if odd e then y else 1)"
      by (subst e) (simp add: power_add power_mult power2_eq_square)
    show ?thesis
    proof (cases "e div 2 = 0")
      case True
      then have "u = r'" using u by (simp add: ri_pow_loop.simps)
      with x split True show ?thesis by (auto split: if_splits)
    next
      case half: False
      then have "ri_has v' (y * y)" using v' 1(4) ri_mul_has by (auto split: if_splits)
      from 1(1) [OF False r' refl v' u x this] split show ?thesis by (auto simp: mult_ac split: if_splits)
    qed
  qed
qed

lemma ri_pow_nat_has: "ri_pow_nat v e bits = Inr u \<Longrightarrow> ri_has v y \<Longrightarrow> ri_has u (y ^ nat e)"
  using ri_pow_loop_has [of "\<lparr>ri_lower = 1, ri_upper = 1\<rparr>" v "nat e" bits u 1 y] by (auto simp: ri_pow_nat_def res_simps)

lemma ri_max_has:
  assumes "ri_max [u, v, w] = Inr m" "ri_has u x" "ri_has v y" "ri_has w z"
  shows "ri_has m (max x (max y z))"
  using assms by (auto simp: ri_max_def ri_has_def of_rat_max)

section \<open>Functions through their monotonicity\<close>

locale monotone_enclosure =
  fixes point :: "rat \<Rightarrow> rational_interval res" and g :: "real \<Rightarrow> real" and D :: "real \<Rightarrow> bool"
  assumes point: "point v = Inr i \<Longrightarrow> D (real_of_rat v) \<and> ri_has i (g (real_of_rat v))"
    and up: "D x \<Longrightarrow> x \<le> y \<Longrightarrow> D y"
    and mono: "D x \<Longrightarrow> x \<le> y \<Longrightarrow> g x \<le> g y"
begin

lemma endpoints_enclose:
  assumes "point (ri_lower v) = Inr low" "point (ri_upper v) = Inr high" "ri_has v x"
  shows "real_of_rat (ri_lower low) \<le> g x" "g x \<le> real_of_rat (ri_upper high)" "D x"
proof -
  have x: "real_of_rat (ri_lower v) \<le> x" "x \<le> real_of_rat (ri_upper v)" using assms(3) by (simp_all add: ri_has_def)
  have low: "D (real_of_rat (ri_lower v))" "ri_has low (g (real_of_rat (ri_lower v)))" using point [OF assms(1)] by simp_all
  have high: "ri_has high (g (real_of_rat (ri_upper v)))" using point [OF assms(2)] by simp
  show "D x" by (rule up [OF low(1) x(1)])
  show "real_of_rat (ri_lower low) \<le> g x" using low(2) mono [OF low(1) x(1)] by (simp add: ri_has_def)
  show "g x \<le> real_of_rat (ri_upper high)" using high mono [OF \<open>D x\<close> x(2)] by (simp add: ri_has_def)
qed

lemma enclosed:
  assumes "ebind (point (ri_lower v)) (\<lambda>low. ebind (point (ri_upper v)) (\<lambda>high.
      ebind (ri_make (ri_lower low) (ri_upper high)) (\<lambda>enclosing. ri_outward enclosing bits))) = Inr w"
    and has: "ri_has v x"
  shows "D x \<and> ri_has w (g x)"
proof -
  obtain low high where p: "point (ri_lower v) = Inr low" "point (ri_upper v) = Inr high"
    and w: "ri_outward \<lparr>ri_lower = ri_lower low, ri_upper = ri_upper high\<rparr> bits = Inr w"
    using assms(1) by (auto simp: res_simps)
  note e = endpoints_enclose [OF p has]
  from e(1,2) have "ri_has \<lparr>ri_lower = ri_lower low, ri_upper = ri_upper high\<rparr> (g x)" by (simp add: ri_has_def)
  from ri_outward_has [OF w this] e(3) show ?thesis by simp
qed

end

section \<open>The logarithm\<close>

lemma unit_log_bounds_has:
  assumes "unit_log_bounds terms a = Inr i" "0 \<le> terms"
  shows "1 \<le> a \<and> a \<le> 2 \<and> ri_has i (ln (real_of_rat a))"
proof -
  define z where "z = (a - 1) / (a + 1)"
  have a: "1 \<le> a" "a \<le> 2" using assms(1) by (auto simp: unit_log_bounds_def res_simps)
  obtain partial z_power where f: "foldl (log_series_step (z * z)) (0, z) [0..<nat terms] = (partial, z_power)" by fastforce
  have nat: "of_int (2 * terms + 1) = (of_nat (2 * nat terms + 1) :: rat)" using assms(2) by (simp add: of_nat_nat)
  have "ri_has i (ln (real_of_rat a))"
  proof (cases "z = 0")
    case True
    then have "a = 1" using a(1) by (simp add: z_def divide_eq_0_iff)
    with True assms(1) show ?thesis by (simp add: unit_log_bounds_def z_def Let_def)
  next
    case False
    with assms(1) a f have "i = \<lparr>ri_lower = 2 * partial,
        ri_upper = 2 * partial + 2 * z_power / (of_int (2 * terms + 1) * (1 - z * z))\<rparr>"
      unfolding unit_log_bounds_def z_def [symmetric] Let_def by (simp split: if_splits)
    with log_series_encloses(1,2) [OF a(1) z_def f] show ?thesis unfolding nat by (simp add: ri_has_def)
  qed
  with a show ?thesis by simp
qed

lemma log_point_bounds_has:
  assumes "log_point_bounds v terms = Inr i"
  shows "0 < real_of_rat v \<and> ri_has i (ln (real_of_rat v))"
proof -
  have v: "0 < v" "1 \<le> terms" using assms by (auto simp: log_point_bounds_def res_simps)
  obtain n d where q: "quotient_of v = (n, d)" by fastforce
  define e where "e = exponent_up v (exponent_down v (int (bit_length (nat n)) - int (bit_length (nat d))))"
  have body: "ebind (unit_log_bounds terms (v / power_of_two e)) (\<lambda>m. ebind (unit_log_bounds terms 2) (\<lambda>m2.
      if e \<ge> 0 then ri_make (ri_lower m + of_int e * ri_lower m2) (ri_upper m + of_int e * ri_upper m2)
      else ri_make (ri_lower m + of_int e * ri_upper m2) (ri_upper m + of_int e * ri_lower m2))) = Inr i"
  proof -
    have "\<not> v \<le> 0" "\<not> terms < 1" using v by simp_all
    then show ?thesis using assms unfolding log_point_bounds_def e_def q prod.case Let_def by (simp only: if_False)
  qed
  obtain m where e1: "unit_log_bounds terms (v / power_of_two e) = Inr m" using body by (cases "unit_log_bounds terms (v / power_of_two e)") simp_all
  obtain m2 where e2: "unit_log_bounds terms 2 = Inr m2" using body e1 by (cases "unit_log_bounds terms 2") simp_all
  have i: "(if e \<ge> 0 then ri_make (ri_lower m + of_int e * ri_lower m2) (ri_upper m + of_int e * ri_upper m2)
       else ri_make (ri_lower m + of_int e * ri_upper m2) (ri_upper m + of_int e * ri_lower m2)) = Inr i"
    using body unfolding e1 e2 ebind.simps .
  note e = e1 e2
  define w where "w = real_of_rat v"
  have w: "0 < w" using v by (simp add: w_def)
  have "real_of_rat (v / power_of_two e) = w / 2 powr real_of_int e" by (simp add: of_rat_divide real_power_of_two w_def)
  then have m: "ri_has m (ln w - real_of_int e * ln 2)"
    using unit_log_bounds_has [OF e(1)] v(2) w by (simp add: ln_div ln_powr)
  have m2: "ri_has m2 (ln 2)" using unit_log_bounds_has [OF e(2)] v(2) by simp
  have "ri_has i (ln w)"
  proof (cases "0 \<le> e")
    case True
    then have "real_of_int e * real_of_rat (ri_lower m2) \<le> real_of_int e * ln 2" "real_of_int e * ln 2 \<le> real_of_int e * real_of_rat (ri_upper m2)"
      using m2 by (auto simp: ri_has_def intro: mult_left_mono)
    moreover have "i = \<lparr>ri_lower = ri_lower m + of_int e * ri_lower m2, ri_upper = ri_upper m + of_int e * ri_upper m2\<rparr>" using True i by simp
    ultimately show ?thesis using m by (simp add: ri_has_def of_rat_add of_rat_mult)
  next
    case False
    then have "real_of_int e * real_of_rat (ri_upper m2) \<le> real_of_int e * ln 2" "real_of_int e * ln 2 \<le> real_of_int e * real_of_rat (ri_lower m2)"
      using m2 by (auto simp: ri_has_def intro: mult_left_mono_neg)
    moreover have "i = \<lparr>ri_lower = ri_lower m + of_int e * ri_upper m2, ri_upper = ri_upper m + of_int e * ri_lower m2\<rparr>" using False i by simp
    ultimately show ?thesis using m by (simp add: ri_has_def of_rat_add of_rat_mult)
  qed
  with w show ?thesis by (simp add: w_def)
qed

interpretation ln_enclosure: monotone_enclosure "\<lambda>v. log_point_bounds v terms" ln "\<lambda>x. 0 < x" for terms
  by unfold_locales (use log_point_bounds_has in auto)

text \<open>The body that both functions share.\<close>

abbreviation through_endpoints :: "(rat \<Rightarrow> rational_interval res) \<Rightarrow> rational_interval \<Rightarrow> int \<Rightarrow> rational_interval res" where
  "through_endpoints point v bits \<equiv> ebind (point (ri_lower v)) (\<lambda>low. ebind (point (ri_upper v)) (\<lambda>high.
     ebind (ri_make (ri_lower low) (ri_upper high)) (\<lambda>enclosing. ri_outward enclosing bits)))"

lemma log_interval_has:
  assumes "log_interval v bits terms = Inr w" "ri_has v x"
  shows "0 < x \<and> ri_has w (ln x)"
proof -
  have "through_endpoints (\<lambda>v. log_point_bounds v terms) v bits = Inr w"
    using assms(1) by (simp add: log_interval_def ebind_Inr_iff [of "validate_precision bits terms"] if_Inl_eq_Inr_iff)
  from ln_enclosure.enclosed [OF this assms(2)] show ?thesis .
qed

section \<open>The exponential\<close>

lemma exp_divisor_pos: "0 < d \<Longrightarrow> 0 < exp_divisor v d \<and> v * 8 \<le> of_int (exp_divisor v d)"
proof (induction v d rule: exp_divisor.induct)
  case (1 v d)
  then show ?case
  proof (cases "v * 8 > of_int d")
    case True
    then have "exp_divisor v d = exp_divisor v (push_bit 1 d)" using 1(2) by (simp add: exp_divisor.simps [of v d])
    then show ?thesis using 1(1) [OF conjI [OF True 1(2)]] 1(2) by (simp add: push_bit_eq_mult)
  next
    case False
    then show ?thesis using 1(2) by (subst (1 2) exp_divisor.simps) simp
  qed
qed

lemma exp_series_foldl:
  "foldl (exp_series_step r) (1, 1) [1..<n + 1] = (\<Sum>i<n + 1. r ^ i / fact i, r ^ n / fact n)"
proof (induction n)
  case (Suc n)
  have "r ^ n / fact n * r / of_nat (Suc n) = r ^ Suc n / fact (Suc n)" by (simp add: field_simps)
  then have "exp_series_step r (total, r ^ n / fact n) (Suc n) = (total + r ^ Suc n / fact (Suc n), r ^ Suc n / fact (Suc n))" for total
    by (simp only: exp_series_step_def prod.case Let_def)
  moreover have "[1..<Suc n + 1] = [1..<n + 1] @ [Suc n]" by simp
  ultimately show ?case using Suc by (simp only: foldl_append foldl_Cons foldl_Nil) simp
qed (simp add: exp_series_step_def)

lemma of_rat_fact: "real_of_rat (fact n) = fact n"
  by (metis of_nat_fact of_rat_of_nat_eq)

lemma real_exp_series: "real_of_rat (\<Sum>i<n. r ^ i / fact i) = exp_sum n (real_of_rat r)"
  by (simp add: exp_sum_def of_rat_sum of_rat_divide of_rat_power of_rat_fact)

lemma exp_series_encloses:
  fixes r :: rat
  assumes "0 \<le> r" "r < of_nat (n + 2)" "foldl (exp_series_step r) (1, 1) [1..<n + 1] = (partial, t)"
  shows "real_of_rat partial \<le> exp (real_of_rat r)"
    "exp (real_of_rat r) \<le> real_of_rat (partial + t * r / of_nat (n + 1) / (1 - r / of_nat (n + 2)))"
proof -
  define x where "x = real_of_rat r"
  have "real_of_rat r < real_of_rat (of_nat (n + 2))" using assms(2) by (simp only: of_rat_less)
  then have "real_of_rat r < real (n + 2)" by (simp only: of_rat_of_nat_eq)
  then have x: "0 \<le> x" "x < real (n + 1 + 1)" using assms(1) by (simp_all add: x_def)
  have p: "partial = (\<Sum>i<n + 1. r ^ i / fact i)" "t = r ^ n / fact n" using assms(3) unfolding exp_series_foldl by auto
  have partial: "real_of_rat partial = exp_sum (n + 1) x" unfolding p x_def by (rule real_exp_series)
  have "t * r / of_nat (n + 1) = r ^ (n + 1) / fact (n + 1)" unfolding p by (simp add: field_simps)
  then have "real_of_rat (t * r / of_nat (n + 1) / (1 - r / of_nat (n + 2))) = (x ^ (n + 1) / fact (n + 1)) / (1 - x / real (n + 1 + 1))"
    by (simp add: x_def of_rat_divide of_rat_power of_rat_diff of_rat_fact of_rat_add of_rat_mult)
  with exp_sum_upper [OF x] exp_sum_lower [OF x(1), of "n + 1"] partial
  show "real_of_rat partial \<le> exp (real_of_rat r)"
    "exp (real_of_rat r) \<le> real_of_rat (partial + t * r / of_nat (n + 1) / (1 - r / of_nat (n + 2)))"
    unfolding of_rat_add x_def by simp_all
qed

lemma exp_nonnegative_point_has:
  assumes "exp_nonnegative_point v bits terms = Inr i" "0 \<le> terms"
  shows "ri_has i (exp (real_of_rat v))"
proof (cases "v = 0")
  case True
  with assms show ?thesis by (simp add: exp_nonnegative_point_def)
next
  case False
  then have v: "0 < v" using assms(1) by (auto simp: exp_nonnegative_point_def split: if_splits)
  define d where "d = exp_divisor v 1"
  define r where "r = v / of_int d"
  define n where "n = nat terms"
  have d: "0 < d" "v * 8 \<le> of_int d" using exp_divisor_pos [of 1 v] by (simp_all add: d_def)
  have r: "0 \<le> r" "r * 8 \<le> 1" using v d by (simp_all add: r_def pos_divide_le_eq)
  then have small: "r < of_nat (n + 2)" by (simp add: le_less_trans [of r 1])
  have nat: "of_int (terms + 1) = (of_nat (n + 1) :: rat)" "of_int (terms + 2) = (of_nat (n + 2) :: rat)" using assms(2) by (simp_all add: n_def of_nat_nat)
  obtain partial t where f: "foldl (exp_series_step r) (1, 1) [1..<n + 1] = (partial, t)" by fastforce
  obtain b where b: "ri_outward \<lparr>ri_lower = partial, ri_upper = partial + t * r / of_nat (n + 1) / (1 - r / of_nat (n + 2))\<rparr> bits = Inr b"
    "ri_pow_nat b d bits = Inr i"
    using assms(1) v f unfolding exp_nonnegative_point_def d_def [symmetric] r_def [symmetric] n_def [symmetric] Let_def nat
    by (auto simp: ebind_Inr_iff simp del: upt_Suc of_nat_add)
  have "ri_has b (exp (real_of_rat r))"
    by (rule ri_outward_has [OF b(1)]) (use exp_series_encloses [OF r(1) small f] in \<open>simp add: ri_has_def\<close>)
  from ri_pow_nat_has [OF b(2) this] have "ri_has i (exp (real_of_rat r) ^ nat d)" .
  moreover have "exp (real_of_rat r) ^ nat d = exp (real (nat d) * real_of_rat r)" by (rule exp_of_nat_mult [symmetric])
  moreover have "real (nat d) * real_of_rat r = real_of_rat v" using d(1) by (simp add: r_def of_rat_divide)
  ultimately show ?thesis by simp
qed

lemma exp_point_bounds_has:
  assumes "exp_point_bounds v bits terms = Inr i" "0 \<le> terms"
  shows "ri_has i (exp (real_of_rat v))"
proof (cases "0 \<le> v")
  case True
  with assms exp_nonnegative_point_has show ?thesis by (simp add: exp_point_bounds_def)
next
  case False
  then obtain p where p: "exp_nonnegative_point (- v) bits terms = Inr p" "ri_reciprocal p bits = Inr i"
    using assms(1) by (auto simp: exp_point_bounds_def res_simps)
  from ri_reciprocal_has [OF p(2) exp_nonnegative_point_has [OF p(1) assms(2)]] show ?thesis
    by (simp add: of_rat_minus exp_minus inverse_eq_divide)
qed

lemma validate_precision_Inr [simp]: "validate_precision bits terms = Inr u \<longleftrightarrow> 32 \<le> bits \<and> bits \<le> 4096 \<and> 8 \<le> terms \<and> terms \<le> 4096"
  by (auto simp: validate_precision_def)

text \<open>The exponential at the points of an interval; a negative number of terms has no bound.\<close>

interpretation exp_enclosure: monotone_enclosure
  "\<lambda>v. if 0 \<le> terms then exp_point_bounds v bits terms else Inl FiniteCampaignError" exp "\<lambda>x. True" for bits terms
  by unfold_locales (use exp_point_bounds_has in \<open>auto split: if_splits\<close>)

lemma exp_interval_has:
  assumes "exp_interval v bits terms = Inr w" "ri_has v x"
  shows "ri_has w (exp x)"
proof -
  have terms: "0 \<le> terms" using assms(1) by (auto simp: exp_interval_def ebind_Inr_iff)
  have "through_endpoints (\<lambda>v. if 0 \<le> terms then exp_point_bounds v bits terms else Inl FiniteCampaignError) v bits = Inr w"
    using assms(1) terms by (simp add: exp_interval_def ebind_Inr_iff [of "validate_precision bits terms"])
  from exp_enclosure.enclosed [OF this assms(2)] show ?thesis by simp
qed

lemma rpow_interval_has:
  assumes "rpow_interval b e bits terms = Inr w" "ri_has b x" "ri_has e y"
  shows "0 < x \<and> ri_has w (x powr y)"
proof -
  obtain l p where l: "log_interval b bits terms = Inr l" "ri_mul l e bits = Inr p" "exp_interval p bits terms = Inr w"
    using assms(1) by (auto simp: rpow_interval_def res_simps)
  have x: "0 < x" "ri_has l (ln x)" using log_interval_has [OF l(1) assms(2)] by simp_all
  from exp_interval_has [OF l(3) ri_mul_has [OF l(2) x(2) assms(3)]] x(1) show ?thesis by (simp add: powr_def mult.commute)
qed

section \<open>No failure on proper intervals\<close>

definition proper :: "rational_interval \<Rightarrow> bool" where
  "proper v \<longleftrightarrow> ri_lower v \<le> ri_upper v"

lemma ri_has_proper: "ri_has v x \<Longrightarrow> proper v"
proof -
  assume "ri_has v x"
  then have "real_of_rat (ri_lower v) \<le> real_of_rat (ri_upper v)" unfolding ri_has_def by linarith
  then show ?thesis by (simp add: proper_def of_rat_less_eq)
qed

lemma proper_has: "proper v \<longleftrightarrow> (\<exists>x. ri_has v x)"
  using ri_has_proper by (auto simp: proper_def ri_has_def of_rat_less_eq intro: exI [of _ "real_of_rat (ri_lower v)"])

lemma ri_outward_total: "proper v \<Longrightarrow> \<exists>w. ri_outward v bits = Inr w"
  using ri_round_down_le [of "ri_lower v" bits] ri_round_up_ge [of "ri_upper v" bits] by (simp add: ri_outward_def proper_def)

lemma ri_mul_total: "\<exists>u. ri_mul v w bits = Inr u"
proof -
  define a where "a = min (min (min (ri_lower v * ri_lower w) (ri_lower v * ri_upper w)) (ri_upper v * ri_lower w)) (ri_upper v * ri_upper w)"
  define b where "b = max (max (max (ri_lower v * ri_lower w) (ri_lower v * ri_upper w)) (ri_upper v * ri_lower w)) (ri_upper v * ri_upper w)"
  have "a \<le> b" unfolding a_def b_def by linarith
  then have "ri_make a b = Inr \<lparr>ri_lower = a, ri_upper = b\<rparr>" "proper \<lparr>ri_lower = a, ri_upper = b\<rparr>" by (simp_all add: proper_def)
  with ri_outward_total show ?thesis unfolding ri_mul_def Let_def a_def [symmetric] b_def [symmetric] by (simp only: ebind.simps)
qed

text \<open>Rounding keeps a lower end at least one, and so do products of such intervals.\<close>

lemma round_down_ge_1:
  assumes "1 \<le> v"
  shows "1 \<le> ri_round_down v bits"
proof -
  have "(2 :: rat) ^ nat bits \<le> v * 2 ^ nat bits" using assms mult_right_mono [of 1 v "2 ^ nat bits"] by simp
  then have "2 ^ nat bits \<le> \<lfloor>v * 2 ^ nat bits\<rfloor>" by (simp add: le_floor_iff)
  then have "(2 :: rat) ^ nat bits \<le> of_int \<lfloor>v * 2 ^ nat bits\<rfloor>" by (metis of_int_le_iff of_int_numeral of_int_power)
  then show ?thesis by (simp add: ri_round_down_def Let_def push_bit_eq_mult pos_le_divide_eq)
qed

lemma ri_outward_ge_1: "ri_outward v bits = Inr w \<Longrightarrow> 1 \<le> ri_lower v \<Longrightarrow> 1 \<le> ri_lower w"
  using round_down_ge_1 by (auto simp: ri_outward_def)

lemma ri_mul_ge_1:
  assumes "ri_mul v w bits = Inr u" "1 \<le> ri_lower v" "1 \<le> ri_lower w" "proper v" "proper w"
  shows "1 \<le> ri_lower u \<and> proper u"
proof -
  have ends: "1 \<le> ri_upper v" "1 \<le> ri_upper w" using assms by (simp_all add: proper_def)
  have prod: "1 \<le> x * y" if "1 \<le> x" "1 \<le> y" for x y :: rat using mult_mono [of 1 x 1 y] that by simp
  obtain h where h: "ri_outward h bits = Inr u"
    "ri_lower h = min (min (min (ri_lower v * ri_lower w) (ri_lower v * ri_upper w)) (ri_upper v * ri_lower w)) (ri_upper v * ri_upper w)"
    using assms(1) by (auto simp: ri_mul_def res_simps Let_def)
  have "1 \<le> ri_lower h" unfolding h(2) using prod assms(2,3) ends by simp
  then have "1 \<le> ri_lower u" using ri_outward_ge_1 [OF h(1)] by simp
  moreover have "proper u" using h(1) by (auto simp: ri_outward_def proper_def)
  ultimately show ?thesis by simp
qed

lemma ri_pow_loop_total:
  "1 \<le> ri_lower r \<Longrightarrow> 1 \<le> ri_lower v \<Longrightarrow> proper r \<Longrightarrow> proper v \<Longrightarrow> \<exists>u. ri_pow_loop r v e bits = Inr u \<and> 1 \<le> ri_lower u"
proof (induction r v e bits rule: ri_pow_loop.induct)
  case (1 r v e bits)
  show ?case
  proof (cases "e = 0")
    case True
    with 1(2) show ?thesis by (subst ri_pow_loop.simps) simp
  next
    case False
    obtain r' where r': "(if odd e then ri_mul r v bits else Inr r) = Inr r'" "1 \<le> ri_lower r'" "proper r'"
      using ri_mul_total [of r v bits] ri_mul_ge_1 1(2-5) by (cases "odd e") auto
    obtain v' where v': "(if e div 2 \<noteq> 0 then ri_mul v v bits else Inr v) = Inr v'" "1 \<le> ri_lower v'" "proper v'"
      using ri_mul_total [of v v bits] ri_mul_ge_1 1(2-5) by (cases "e div 2 = 0") auto
    have "ri_pow_loop r v e bits = ri_pow_loop r' v' (e div 2) bits"
      by (subst ri_pow_loop.simps) (simp only: False if_False r'(1) v'(1) ebind.simps Let_def)
    with 1(1) [OF False r'(1) refl v'(1) r'(2) v'(2) r'(3) v'(3)] show ?thesis by simp
  qed
qed

lemma ri_pow_nat_total:
  assumes "1 \<le> ri_lower v" "proper v" "0 \<le> e"
  shows "\<exists>u. ri_pow_nat v e bits = Inr u \<and> 1 \<le> ri_lower u"
  using ri_pow_loop_total [of "\<lparr>ri_lower = 1, ri_upper = 1\<rparr>" v "nat e" bits] assms
  by (simp add: ri_pow_nat_def ri_exact_def ri_make_def proper_def)

lemma exp_nonnegative_point_total:
  assumes "0 \<le> v" "0 \<le> terms"
  shows "\<exists>u. exp_nonnegative_point v bits terms = Inr u \<and> 1 \<le> ri_lower u"
proof (cases "v = 0")
  case True
  then show ?thesis by (simp add: exp_nonnegative_point_def ri_exact_def ri_make_def)
next
  case False
  then have v: "0 < v" using assms(1) by simp
  define d where "d = exp_divisor v 1"
  define r where "r = v / of_int d"
  define n where "n = nat terms"
  have d: "0 < d" "v * 8 \<le> of_int d" using exp_divisor_pos [of 1 v] by (simp_all add: d_def)
  have r: "0 \<le> r" "r * 8 \<le> 1" using v d by (simp_all add: r_def pos_divide_le_eq)
  then have small: "r < of_nat (n + 2)" by (simp add: le_less_trans [of r 1])
  have nat: "of_int (terms + 1) = (of_nat (n + 1) :: rat)" "of_int (terms + 2) = (of_nat (n + 2) :: rat)" using assms(2) by (simp_all add: n_def of_nat_nat)
  obtain partial t where f: "foldl (exp_series_step r) (1, 1) [1..<n + 1] = (partial, t)" by fastforce
  define i where "i = \<lparr>ri_lower = partial, ri_upper = partial + t * r / of_nat (n + 1) / (1 - r / of_nat (n + 2))\<rparr>"
  have p: "partial = (\<Sum>i<n + 1. r ^ i / fact i)" using f unfolding exp_series_foldl by simp
  have "(\<Sum>i<1. r ^ i / fact i) \<le> (\<Sum>i<n + 1. r ^ i / fact i)" by (rule sum_mono2) (use r(1) in auto)
  then have "1 \<le> ri_lower i" by (simp add: i_def p)
  moreover have "proper i" by (rule ri_has_proper [of _ "exp (real_of_rat r)"]) (use exp_series_encloses [OF r(1) small f] in \<open>simp add: i_def ri_has_def\<close>)
  moreover from this obtain b where b: "ri_outward i bits = Inr b" using ri_outward_total by blast
  ultimately have "1 \<le> ri_lower b" "proper b" using ri_outward_ge_1 by (auto simp: ri_outward_def proper_def)
  then obtain u where u: "ri_pow_nat b d bits = Inr u" "1 \<le> ri_lower u" using ri_pow_nat_total d(1) less_imp_le by blast
  have make: "ri_make partial (partial + t * r / of_nat (n + 1) / (1 - r / of_nat (n + 2))) = Inr i"
    using \<open>proper i\<close> unfolding i_def proper_def by (simp only: ri_make_Inr rational_interval.select_convs simp_thms)
  have "\<not> v < 0" "v \<noteq> 0" using v by simp_all
  then have "exp_nonnegative_point v bits terms = Inr u"
    unfolding exp_nonnegative_point_def d_def [symmetric] r_def [symmetric] n_def [symmetric] Let_def nat f
    by (simp only: if_False prod.case make b u(1) ebind.simps)
  with u(2) show ?thesis by blast
qed

lemma exp_point_bounds_total:
  assumes "0 \<le> terms"
  shows "\<exists>u. exp_point_bounds v bits terms = Inr u"
proof (cases "0 \<le> v")
  case True
  with exp_nonnegative_point_total [OF True assms, of bits] show ?thesis by (auto simp: exp_point_bounds_def)
next
  case False
  then obtain u where u: "exp_nonnegative_point (- v) bits terms = Inr u" "1 \<le> ri_lower u"
    using exp_nonnegative_point_total [of "- v" terms bits] assms by auto
  have has: "ri_has u (exp (real_of_rat (- v)))" by (rule exp_nonnegative_point_has [OF u(1) assms])
  then have up: "ri_lower u \<le> ri_upper u" using ri_has_proper by (simp add: proper_def)
  then have "1 / ri_upper u \<le> 1 / ri_lower u" using u(2) by (intro divide_left_mono) simp_all
  then have "\<exists>w. ri_reciprocal u bits = Inr w"
    using ri_outward_total [of "\<lparr>ri_lower = 1 / ri_upper u, ri_upper = 1 / ri_lower u\<rparr>" bits] u(2)
    by (simp add: ri_reciprocal_def ri_make_def proper_def)
  with u(1) False show ?thesis by (simp add: exp_point_bounds_def)
qed

text \<open>The range reduction of the logarithm ends at the exponent of the value.\<close>

lemma exponent_down: "0 < v \<Longrightarrow> power_of_two (exponent_down v e) \<le> v"
proof (induction v e rule: exponent_down.induct)
  case (1 v e)
  then show ?case by (cases "v < power_of_two e") (simp_all add: exponent_down.simps [of v e])
qed

lemma exponent_up: "0 < v \<Longrightarrow> power_of_two e \<le> v \<Longrightarrow> power_of_two (exponent_up v e) \<le> v \<and> v < power_of_two (exponent_up v e + 1)"
proof (induction v e rule: exponent_up.induct)
  case (1 v e)
  then show ?case by (cases "power_of_two (e + 1) \<le> v") (simp_all add: exponent_up.simps [of v e])
qed

lemma power_of_two_mono: "power_of_two d \<le> power_of_two e \<longleftrightarrow> d \<le> e"
proof -
  have "power_of_two d \<le> power_of_two e \<longleftrightarrow> real_of_rat (power_of_two d) \<le> real_of_rat (power_of_two e)" by (simp only: of_rat_less_eq)
  then show ?thesis by (simp add: real_power_of_two)
qed

lemma exponent_unique:
  assumes "power_of_two d \<le> v" "v < power_of_two (d + 1)" "power_of_two e \<le> v" "v < power_of_two (e + 1)"
  shows "d = e"
proof -
  have "\<not> power_of_two (e + 1) \<le> power_of_two d" "\<not> power_of_two (d + 1) \<le> power_of_two e" using assms by auto
  then show ?thesis unfolding power_of_two_mono by simp
qed

lemma power_of_two_pos: "0 < power_of_two e"
proof -
  have "0 < real_of_rat (power_of_two e)" by (simp add: real_power_of_two)
  then show ?thesis by simp
qed

lemma power_of_two_Suc: "power_of_two (e + 1) = 2 * power_of_two e"
proof -
  have "real_of_rat (power_of_two (e + 1)) = real_of_rat (2 * power_of_two e)" by (simp add: real_power_of_two of_rat_mult powr_add)
  then show ?thesis by (simp only: of_rat_eq_iff)
qed

lemma log_point_bounds_at:
  assumes "0 < v" "1 \<le> terms" "power_of_two e \<le> v" "v < power_of_two (e + 1)"
  shows "log_point_bounds v terms = ebind (unit_log_bounds terms (v / power_of_two e)) (\<lambda>m. ebind (unit_log_bounds terms 2) (\<lambda>m2.
      if e \<ge> 0 then ri_make (ri_lower m + of_int e * ri_lower m2) (ri_upper m + of_int e * ri_upper m2)
      else ri_make (ri_lower m + of_int e * ri_upper m2) (ri_upper m + of_int e * ri_lower m2)))"
proof -
  have "exponent_up v (exponent_down v s) = e" for s
    using exponent_unique exponent_up [OF assms(1) exponent_down [OF assms(1)]] assms(3,4) by blast
  with assms(1,2) show ?thesis unfolding log_point_bounds_def by (simp add: Let_def split: prod.splits)
qed

lemma unit_log_bounds_total:
  assumes "1 \<le> a" "a \<le> 2" "0 \<le> terms"
  shows "\<exists>i. unit_log_bounds terms a = Inr i \<and> ri_has i (ln (real_of_rat a))"
proof -
  define z where "z = (a - 1) / (a + 1)"
  obtain partial z_power where f: "foldl (log_series_step (z * z)) (0, z) [0..<nat terms] = (partial, z_power)" by fastforce
  have nat: "of_int (2 * terms + 1) = (of_nat (2 * nat terms + 1) :: rat)" using assms(3) by (simp add: of_nat_nat)
  define i where "i = \<lparr>ri_lower = 2 * partial, ri_upper = 2 * partial + 2 * z_power / (of_int (2 * terms + 1) * (1 - z * z))\<rparr>"
  have "ri_has i (ln (real_of_rat a))" using log_series_encloses(1,2) [OF assms(1) z_def f] unfolding nat [symmetric] by (simp add: i_def ri_has_def)
  then have "ri_make (ri_lower i) (ri_upper i) = Inr i" using ri_has_proper [of i] by (auto simp: proper_def)
  then have "\<exists>j. unit_log_bounds terms a = Inr j"
    using assms(1,2) f unfolding unit_log_bounds_def z_def [symmetric] Let_def by (auto simp: i_def)
  then show ?thesis using unit_log_bounds_has assms(3) by blast
qed

lemma log_point_bounds_total:
  assumes "0 < v" "1 \<le> terms"
  shows "\<exists>i. log_point_bounds v terms = Inr i"
proof -
  define e where "e = exponent_up v (exponent_down v 0)"
  have e: "power_of_two e \<le> v" "v < power_of_two (e + 1)" using exponent_up [OF assms(1) exponent_down [OF assms(1)]] by (simp_all add: e_def)
  have "1 \<le> v / power_of_two e" "v / power_of_two e \<le> 2"
    using e power_of_two_pos [of e] by (simp_all add: power_of_two_Suc pos_le_divide_eq pos_divide_le_eq)
  then obtain m where m: "unit_log_bounds terms (v / power_of_two e) = Inr m" "ri_has m (ln (real_of_rat (v / power_of_two e)))"
    using unit_log_bounds_total [of "v / power_of_two e" terms] assms(2) by auto
  obtain m2 where m2: "unit_log_bounds terms 2 = Inr m2" "ri_has m2 (ln (real_of_rat 2))" using unit_log_bounds_total [of 2 terms] assms(2) by auto
  have p: "ri_lower m \<le> ri_upper m" "ri_lower m2 \<le> ri_upper m2" using ri_has_proper [OF m(2)] ri_has_proper [OF m2(2)] by (simp_all add: proper_def)
  then have "0 \<le> e \<Longrightarrow> of_int e * ri_lower m2 \<le> of_int e * ri_upper m2" "\<not> 0 \<le> e \<Longrightarrow> of_int e * ri_upper m2 \<le> of_int e * ri_lower m2"
    by (auto intro: mult_left_mono mult_left_mono_neg)
  then show ?thesis unfolding log_point_bounds_at [OF assms e] m(1) m2(1) using p(1) by (auto simp: add_mono)
qed

lemma through_endpoints_total:
  assumes "\<exists>i. point (ri_lower v) = Inr i" "\<exists>i. point (ri_upper v) = Inr i" "\<And>low high. point (ri_lower v) = Inr low \<Longrightarrow> point (ri_upper v) = Inr high \<Longrightarrow> ri_lower low \<le> ri_upper high"
  shows "\<exists>w. through_endpoints point v bits = Inr w"
proof -
  obtain low high where p: "point (ri_lower v) = Inr low" "point (ri_upper v) = Inr high" using assms(1,2) by blast
  then have le: "ri_lower low \<le> ri_upper high" using assms(3) by blast
  then obtain w where "ri_outward \<lparr>ri_lower = ri_lower low, ri_upper = ri_upper high\<rparr> bits = Inr w"
    using ri_outward_total [of "\<lparr>ri_lower = ri_lower low, ri_upper = ri_upper high\<rparr>"] by (auto simp: proper_def)
  with p le show ?thesis by (simp add: ri_make_def)
qed

text \<open>C10:
  The logarithm and the exponential of intervals.  At a valid precision the exponential of every proper interval
  is computed, the logarithm exactly of those whose lower end is positive, without the range reduction or a
  division ever failing, and the results enclose the real functions at every point.
\<close>

theorem elementary_functions_enclose:
  assumes "32 \<le> bits" "bits \<le> 4096" "8 \<le> terms" "terms \<le> 4096" "ri_has v x"
  shows "(\<exists>w. exp_interval v bits terms = Inr w \<and> ri_has w (exp x)) \<and>
    (if 0 < ri_lower v then \<exists>w. log_interval v bits terms = Inr w \<and> 0 < x \<and> ri_has w (ln x)
     else log_interval v bits terms = Inl FiniteCampaignError)"
proof -
  have valid: "validate_precision bits terms = Inr ()" using assms(1-4) by simp
  have le: "ri_lower v \<le> ri_upper v" using ri_has_proper [OF assms(5)] by (simp add: proper_def)
  have "\<exists>w. through_endpoints (\<lambda>v. exp_point_bounds v bits terms) v bits = Inr w"
  proof (rule through_endpoints_total)
    fix low high assume "exp_point_bounds (ri_lower v) bits terms = Inr low" "exp_point_bounds (ri_upper v) bits terms = Inr high"
    then show "ri_lower low \<le> ri_upper high"
      using exp_enclosure.endpoints_enclose(1,2) [where terms = terms and bits = bits and v = v and low = low and high = high and x = x] assms(3,5)
        order_trans of_rat_less_eq by fastforce
  qed (use assms(3) exp_point_bounds_total in auto)
  then obtain w where w: "exp_interval v bits terms = Inr w" by (auto simp: exp_interval_def valid)
  show ?thesis
  proof (cases "0 < ri_lower v")
    case True
    have "\<exists>w. through_endpoints (\<lambda>v. log_point_bounds v terms) v bits = Inr w"
    proof (rule through_endpoints_total)
      fix low high assume "log_point_bounds (ri_lower v) terms = Inr low" "log_point_bounds (ri_upper v) terms = Inr high"
      then show "ri_lower low \<le> ri_upper high"
        using ln_enclosure.endpoints_enclose(1,2) [where terms = terms and v = v and low = low and high = high and x = x] assms(5) order_trans of_rat_less_eq by blast
    qed (use assms(3) True le log_point_bounds_total in auto)
    then obtain u where "log_interval v bits terms = Inr u" using True by (auto simp: log_interval_def valid)
    with w True log_interval_has exp_interval_has assms(5) show ?thesis by auto
  next
    case False
    then have "log_interval v bits terms = Inl FiniteCampaignError" by (simp only: log_interval_def valid ebind.simps) simp
    with w False exp_interval_has assms(5) show ?thesis by auto
  qed
qed

lemma elementary_functions_enclose_witness:
  "\<exists>w. log_interval \<lparr>ri_lower = 1, ri_upper = 2\<rparr> 32 8 = Inr w \<and> ri_has w (ln (3 / 2))"
  using elementary_functions_enclose [of 32 8 "\<lparr>ri_lower = 1, ri_upper = 2\<rparr>" "3 / 2"] by (simp add: ri_has_def)

section \<open>Cube roots\<close>

lemma cube_mono: "0 \<le> (a :: int) \<Longrightarrow> a \<le> b \<Longrightarrow> a * a * a \<le> b * b * b"
  by (intro mult_mono) simp_all

lemma cube_root_loop:
  "0 \<le> lower \<Longrightarrow> lower < upper \<Longrightarrow> lower * lower * lower \<le> v \<Longrightarrow> v < upper * upper * upper \<Longrightarrow>
    0 \<le> cube_root_loop v lower upper \<and>
    cube_root_loop v lower upper * cube_root_loop v lower upper * cube_root_loop v lower upper \<le> v \<and>
    v < (cube_root_loop v lower upper + 1) * (cube_root_loop v lower upper + 1) * (cube_root_loop v lower upper + 1)"
proof (induction v lower upper rule: cube_root_loop.induct)
  case (1 v lower upper)
  define m where "m = (lower + upper) div 2"
  show ?case
  proof (cases "lower + 1 < upper")
    case True
    then have m: "lower < m" "m < upper" by (simp_all add: m_def)
    have step: "cube_root_loop v lower upper = (if m * m * m \<le> v then cube_root_loop v m upper else cube_root_loop v lower m)"
      using True by (subst cube_root_loop.simps) (simp add: m_def Let_def)
    show ?thesis
    proof (cases "m * m * m \<le> v")
      case le: True
      then show ?thesis using 1(1) [OF True m_def] 1(3-6) m unfolding step by simp
    next
      case gt: False
      then show ?thesis using 1(2) [OF True m_def] 1(3-6) m unfolding step by simp
    qed
  next
    case False
    then have "upper = lower + 1" using 1(4) by simp
    then show ?thesis using 1(3,5,6) False by (subst (1 2 3 4 5 6 7) cube_root_loop.simps) simp
  qed
qed

lemma integer_cube_root_floor:
  assumes "0 < v"
  shows "\<exists>r. integer_cube_root_floor v = Inr r \<and> 0 \<le> r \<and> r * r * r \<le> v \<and> v < (r + 1) * (r + 1) * (r + 1)"
proof -
  define b where "b = bit_length (nat v)"
  define u :: int where "u = 2 ^ ((b + 2) div 3)"
  have "b \<le> 3 * ((b + 2) div 3)" by presburger
  then have "(2 :: int) ^ b \<le> 2 ^ (3 * ((b + 2) div 3))" by (intro power_increasing) simp_all
  also have "\<dots> = u * u * u" by (simp add: u_def power_mult power3_eq_cube mult.commute [of 3])
  finally have "2 ^ b \<le> u * u * u" .
  moreover have "v < 2 ^ b" using bit_length_bounds [of "nat v"] assms by (simp add: b_def nat_less_iff)
  moreover have "0 < u" by (simp add: u_def)
  ultimately show ?thesis using cube_root_loop [of 0 u v] assms
    by (simp add: integer_cube_root_floor_def push_bit_eq_mult b_def u_def)
qed

lemma integer_cube_root_interval_has:
  assumes "integer_cube_root_interval v bits = Inr i"
  shows "0 < v \<and> ri_has i (root 3 (real_of_int v))"
proof -
  have v: "0 < v" using assms by (auto simp: integer_cube_root_interval_def split: if_splits)
  define S :: int where "S = 2 ^ nat bits"
  define c where "c = root 3 (real_of_int v) * real_of_int S"
  have S: "0 < S" by (simp add: S_def)
  then have "0 < v * S * S * S" using v by simp
  then obtain r where r: "integer_cube_root_floor (v * S * S * S) = Inr r" "0 \<le> r" "r * r * r \<le> v * S * S * S"
    "v * S * S * S < (r + 1) * (r + 1) * (r + 1)" using integer_cube_root_floor by blast
  have "c ^ 3 = real_of_int v * (real_of_int S) ^ 3" using v by (simp add: c_def power_mult_distrib)
  then have c: "c ^ 3 = real_of_int (v * S * S * S)" "0 \<le> c" using v S by (simp_all add: power3_eq_cube c_def)
  have "real_of_int r ^ 3 \<le> c ^ 3" using r(3) unfolding c(1) by (simp add: power3_eq_cube flip: of_int_mult)
  then have low: "real_of_int r \<le> c" using c(2) by (rule power_le_imp_le_base [where n = 2, simplified]) 
  have "c ^ 3 < real_of_int (r + 1) ^ 3" using r(4) unfolding c(1) by (simp only: power3_eq_cube of_int_less_iff flip: of_int_mult)
  then have high: "c < real_of_int (r + 1)" by (rule power_less_imp_less_base) (use r(2) in simp)
  have body: "(if r * r * r = v * S * S * S then ri_exact (of_int r / of_int S)
      else ri_make (of_int r / of_int S) (of_int (r + 1) / of_int S)) = Inr i"
    using assms v r(1) by (auto simp: integer_cube_root_interval_def push_bit_eq_mult S_def Let_def simp del: ri_make_Inr ri_exact_Inr split: if_splits)
  have "ri_has i (root 3 (real_of_int v))"
  proof (cases "r * r * r = v * S * S * S")
    case True
    have "c ^ 3 = real_of_int r ^ 3" unfolding c(1) True [symmetric] by (simp add: power3_eq_cube)
    then have "c = real_of_int r" using c(2) r(2) by (intro power_eq_imp_eq_base [of c 3]) simp_all
    then have "root 3 (real_of_int v) = real_of_int r / real_of_int S" using S by (simp add: c_def field_simps)
    with True body show ?thesis by (simp add: of_rat_divide)
  next
    case False
    with body low high S show ?thesis by (auto simp: ri_has_def of_rat_divide of_rat_add c_def pos_divide_le_eq pos_le_divide_eq)
  qed
  with v show ?thesis by simp
qed

section \<open>Trial division\<close>

lemma divide_out:
  assumes "1 < d" "0 < r"
  shows "0 < divide_out d r \<and> divide_out d r dvd r \<and> \<not> d dvd divide_out d r \<and>
    (\<forall>p. is_prime (nat p) \<longrightarrow> is_prime (nat d) \<longrightarrow> p \<noteq> d \<longrightarrow> (p dvd divide_out d r \<longleftrightarrow> p dvd r))"
  using assms
proof (induction d r rule: divide_out.induct)
  case (1 d r)
  show ?case
  proof (cases "r mod d = 0")
    case True
    define s where "s = r div d"
    have r: "r = s * d" using True div_mult_mod_eq [of r d] by (simp add: s_def)
    have s: "0 < s" using 1(2,3) unfolding r by (simp add: zero_less_mult_iff)
    have step: "divide_out d r = divide_out d s" using True 1(2,3) by (subst divide_out.simps) (simp add: s_def)
    have IH: "0 < divide_out d s" "divide_out d s dvd s" "\<not> d dvd divide_out d s"
      "\<And>p. is_prime (nat p) \<Longrightarrow> is_prime (nat d) \<Longrightarrow> p \<noteq> d \<Longrightarrow> p dvd divide_out d s \<longleftrightarrow> p dvd s"
      using 1(1) [OF conjI [OF True conjI [OF 1(2,3)]]] 1(2) s unfolding s_def [symmetric] by blast+
    have "p dvd s \<longleftrightarrow> p dvd r" if p: "is_prime (nat p)" "is_prime (nat d)" "p \<noteq> d" for p
    proof -
      have pos: "0 < p" "0 < d" using prime_pos [OF p(1)] prime_pos [OF p(2)] by simp_all
      then have "nat p \<noteq> nat d" using p(3) by simp
      then have "\<not> nat p dvd nat d" using prime_dvd_prime [OF p(1,2)] by simp
      then have "nat p dvd nat s * nat d \<longleftrightarrow> nat p dvd nat s" using prime_dvd_mult [OF p(1)] by simp
      then show ?thesis using pos s unfolding r by (simp add: nat_dvd_iff nat_mult_distrib [symmetric])
    qed
    with IH r show ?thesis unfolding step by auto
  next
    case False
    then have "divide_out d r = r" by (subst divide_out.simps) simp
    with False 1(3) show ?thesis by (simp add: dvd_eq_mod_eq_0)
  qed
qed

lemma int_dvd: "0 \<le> z \<Longrightarrow> int p dvd z \<longleftrightarrow> p dvd nat z"
  using int_dvd_int_iff [of p "nat z"] by simp

lemma next_divisor:
  assumes "is_prime (nat p)" "2 \<le> d" "d = 2 \<or> odd d"
  shows "(if d = 2 then 3 else d + 2) \<le> p \<longleftrightarrow> d < p"
proof (cases "d = 2")
  case False
  have "p \<noteq> d + 1"
  proof
    assume p: "p = d + 1"
    then have "even p" using assms(3) False by simp
    then have "2 dvd nat p" using p assms(2) by (simp only: even_nat_iff)
    moreover have "d = 1 \<or> d = 2" if "d dvd 2" for d :: nat
    proof -
      have "d = 0 \<or> d = 1 \<or> d = 2" using dvd_imp_le [OF that] by auto
      with that show ?thesis by auto
    qed
    then have "is_prime 2" unfolding is_prime_def by auto
    ultimately have "nat p = 2" using prime_dvd_prime [of 2 "nat p"] assms(1) by simp
    with p assms(2) False show False by simp
  qed
  with False show ?thesis by auto
qed auto

lemma prime_int_pos: "is_prime (nat p) \<Longrightarrow> 1 < p"
  using prime_gt_1 by fastforce

text \<open>An integer all of whose prime factors are at least \<open>d\<close>, and which is less than \<open>d\<^sup>2\<close>, is one or a prime.\<close>

lemma large_factors_prime:
  fixes r d :: int
  assumes "\<And>p. is_prime (nat p) \<Longrightarrow> p dvd r \<Longrightarrow> d \<le> p" "1 < r" "r < d * d" "0 < d"
  shows "is_prime (nat r)"
proof -
  obtain p where p: "is_prime p" "p dvd nat r" using prime_factor [of "nat r"] assms(2) by auto
  then have "int p dvd r" using assms(2) by (simp add: int_dvd)
  then obtain m where m: "r = int p * m" by blast
  have pd: "d \<le> int p" using assms(1) [of "int p"] p(1) \<open>int p dvd r\<close> by simp
  have "0 < int p * m" "0 < int p" using assms(2) m prime_pos [OF p(1)] by simp_all
  then have "0 < m" by (rule zero_less_mult_pos)
  have "m = 1"
  proof (rule ccontr)
    assume "m \<noteq> 1"
    then obtain q where q: "is_prime q" "q dvd nat m" using prime_factor [of "nat m"] \<open>0 < m\<close> by auto
    then have "int q dvd m" using \<open>0 < m\<close> by (simp add: int_dvd)
    then have "d \<le> int q" using assms(1) [of "int q"] q(1) by (simp add: m)
    also have "int q \<le> m" using \<open>int q dvd m\<close> \<open>0 < m\<close> by (rule zdvd_imp_le)
    finally have "d * d \<le> int p * m" using pd assms(4) by (intro mult_mono) simp_all
    with assms(3) m show False by simp
  qed
  with p(1) m show ?thesis by simp
qed

lemma factor_loop:
  assumes "2 \<le> d" "d = 2 \<or> odd d" "0 < r" "distinct fs" "set fs = {p. is_prime (nat p) \<and> p dvd v \<and> p < d}"
    "\<And>p. is_prime (nat p) \<Longrightarrow> p dvd r \<longleftrightarrow> p dvd v \<and> d \<le> p" "factor_loop r fs d = (fs', r')"
  shows "0 < r' \<and> distinct (if 1 < r' then fs' @ [r'] else fs') \<and>
    set (if 1 < r' then fs' @ [r'] else fs') = {p. is_prime (nat p) \<and> p dvd v}"
  using assms
proof (induction r fs d rule: factor_loop.induct)
  case (1 r fs d)
  show ?case
  proof (cases "d * d \<le> r")
    case False
    then have stop: "fs' = fs" "r' = r" using 1(8) by (simp_all add: factor_loop.simps [of r fs d])
    show ?thesis
    proof (cases "1 < r")
      case True
      have prime: "is_prime (nat r)" by (rule large_factors_prime [of r d]) (use 1(2,7) True False in auto)
      then have r: "r dvd v" "d \<le> r" using 1(7) [of r] by simp_all
      have only: "p < d \<or> p = r" if "is_prime (nat p)" "p dvd v" for p
      proof -
        have "nat p dvd nat r" if "d \<le> p"
          using 1(7) [OF \<open>is_prime (nat p)\<close>] that \<open>p dvd v\<close> True prime_int_pos [OF \<open>is_prime (nat p)\<close>] by (simp add: nat_dvd_iff)
        then show ?thesis using prime_dvd_prime [OF that(1) prime] prime_int_pos [OF that(1)] True by fastforce
      qed
      have "set (fs @ [r]) = {p. is_prime (nat p) \<and> p dvd v}" unfolding set_append 1(6) using r prime by (auto dest: only)
      then show ?thesis using True 1(5,6) r unfolding stop by simp
    next
      case one: False
      then have "r = 1" using 1(4) by simp
      then have "p < d" if "is_prime (nat p)" "p dvd v" for p using 1(7) [OF that(1)] that(2) prime_int_pos [OF that(1)] by (auto simp: not_le)
      then have "set fs = {p. is_prime (nat p) \<and> p dvd v}" using 1(6) by blast
      then show ?thesis using one 1(4,5) unfolding stop by simp
    qed
  next
    case True
    define d' where "d' = (if d = 2 then 3 else d + 2)"
    define gs where "gs = (if r mod d = 0 then fs @ [d] else fs)"
    define s where "s = (if r mod d = 0 then divide_out d r else r)"
    have cond: "d * d \<le> r \<and> 1 < d" using True 1(2) by simp
    have step: "factor_loop r fs d = factor_loop s gs d'"
      by (subst factor_loop.simps) (simp add: cond s_def gs_def d'_def Let_def)
    have d': "2 \<le> d'" "d' = 2 \<or> odd d'" using 1(2,3) by (auto simp: d'_def)
    have above: "d' \<le> p \<longleftrightarrow> d < p" if "is_prime (nat p)" for p unfolding d'_def using next_divisor [OF that 1(2,3)] .
    have d_prime: "is_prime (nat d) \<and> d dvd v" if "d dvd r"
    proof -
      obtain p where p: "is_prime p" "p dvd nat d" using prime_factor [of "nat d"] 1(2) by auto
      then have "int p dvd d" using 1(2) by (simp add: int_dvd)
      moreover from this have "d \<le> int p" using 1(7) [of "int p"] p(1) that by (auto dest: dvd_trans)
      ultimately have "int p = d" using zdvd_imp_le [of "int p" d] 1(2) by simp
      then have "is_prime (nat d)" using p(1) by (metis nat_int)
      then show ?thesis using 1(7) [of d] that by simp
    qed
    have all: "0 < s \<and> distinct gs \<and> set gs = {p. is_prime (nat p) \<and> p dvd v \<and> p < d'} \<and>
        (\<forall>p. is_prime (nat p) \<longrightarrow> (p dvd s \<longleftrightarrow> p dvd v \<and> d' \<le> p))"
    proof (cases "d dvd r")
      case div: True
      then have sg: "s = divide_out d r" "gs = fs @ [d]" by (simp_all add: s_def gs_def dvd_eq_mod_eq_0)
      note out = divide_out [OF conjunct2 [OF cond] 1(4)]
      have "p dvd s \<longleftrightarrow> p dvd v \<and> d' \<le> p" if "is_prime (nat p)" for p
        using out d_prime [OF div] 1(7) [OF that] above [OF that] that unfolding sg by (cases "p = d") auto
      moreover have "set gs = {p. is_prime (nat p) \<and> p dvd v \<and> p < d'}"
        using 1(6) d_prime [OF div] above unfolding sg by (auto simp: not_le [symmetric])
      ultimately show ?thesis using out 1(5,6) unfolding sg by simp
    next
      case ndiv: False
      then have sg: "s = r" "gs = fs" by (simp_all add: s_def gs_def dvd_eq_mod_eq_0)
      have d: "\<not> (is_prime (nat d) \<and> d dvd v)" using ndiv 1(7) [of d] by blast
      then have "p dvd s \<longleftrightarrow> p dvd v \<and> d' \<le> p" if "is_prime (nat p)" for p
        using 1(7) [OF that] above [OF that] that unfolding sg by (cases "p = d") auto
      moreover have "set gs = {p. is_prime (nat p) \<and> p dvd v \<and> p < d'}"
      proof -
        have "p < d \<longleftrightarrow> p < d'" if "is_prime (nat p)" "p dvd v" for p using above [OF that(1)] d that by (cases "p = d") auto
        then show ?thesis unfolding sg 1(6) by blast
      qed
      ultimately show ?thesis using 1(4,5) unfolding sg by simp
    qed
    show ?thesis
      using 1(1) [OF cond refl gs_def s_def] all d' 1(8) unfolding step d'_def [symmetric] by blast
  qed
qed

lemma distinct_prime_factors_eq:
  assumes "distinct_prime_factors v = Inr fs"
  shows "0 < v \<and> distinct fs \<and> set fs = {p. is_prime (nat p) \<and> p dvd v}"
proof -
  have v: "0 < v" using assms by (auto simp: distinct_prime_factors_def split: if_splits)
  obtain fs' r' where loop: "factor_loop v [] 2 = (fs', r')" by fastforce
  have ge: "2 \<le> p" if "is_prime (nat p)" for p using prime_int_pos [OF that] by simp
  have "fs = (if 1 < r' then fs' @ [r'] else fs')" using assms v loop by (simp add: distinct_prime_factors_def)
  then show ?thesis using factor_loop [OF _ _ v _ _ _ loop, of v] v ge by fastforce
qed

section \<open>Euler's function\<close>

lemma totient_fold:
  assumes "distinct fs" "\<forall>p \<in> set fs. is_prime (nat p) \<and> p dvd int n" "finite P" "\<forall>q \<in> P. is_prime q \<and> q dvd n" "nat ` set fs \<inter> P = {}"
  shows "foldl (\<lambda>result prime. result - result div prime) (int (avoiding P n)) fs = int (avoiding (nat ` set fs \<union> P) n)"
  using assms
proof (induction fs arbitrary: P)
  case (Cons p fs)
  have p: "is_prime (nat p)" "nat p dvd n" "nat p \<notin> P" "0 < p" using Cons.prems prime_int_pos [of p] by (auto simp: nat_dvd_iff)
  have "int (avoiding P n) - int (avoiding P n) div p = int (avoiding P n - avoiding P n div nat p)"
    using p(4) by (simp add: of_nat_diff zdiv_int div_le_dividend)
  also have "\<dots> = int (avoiding (insert (nat p) P) n)" using avoiding_insert [OF p(1,2) Cons.prems(4) p(3)] by simp
  finally have step: "int (avoiding P n) - int (avoiding P n) div p = int (avoiding (insert (nat p) P) n)" .
  have "nat p \<notin> nat ` set fs"
  proof
    assume "nat p \<in> nat ` set fs"
    then obtain q where q: "q \<in> set fs" "nat p = nat q" by blast
    then have "0 < q" using Cons.prems(2) prime_int_pos [of q] by simp
    with q p(4) Cons.prems(1) show False by (simp add: eq_nat_nat_iff)
  qed
  then have "nat ` set fs \<inter> insert (nat p) P = {}" using Cons.prems(5) by simp
  with Cons.IH [of "insert (nat p) P"] Cons.prems p show ?case by (simp add: step Un_commute insert_commute)
qed simp

lemma totient_from_factors_eq:
  assumes "distinct_prime_factors q = Inr fs"
  shows "totient_from_factors q fs = int (totient (nat q))"
proof -
  have q: "0 < q" and fs: "distinct fs" "set fs = {p. is_prime (nat p) \<and> p dvd q}" using distinct_prime_factors_eq [OF assms] by simp_all
  have "avoiding {} (nat q) = card {1..nat q}" by (simp only: avoiding_def ball_empty simp_thms Collect_mem_eq)
  then have start: "int (avoiding {} (nat q)) = q" using q by simp
  have "nat ` set fs = {p. is_prime p \<and> p dvd nat q}"
  proof (intro set_eqI iffI)
    fix p assume "p \<in> {p. is_prime p \<and> p dvd nat q}"
    then have "int p \<in> set fs" "p = nat (int p)" using q fs(2) by (auto simp: int_dvd)
    then show "p \<in> nat ` set fs" by blast
  next
    fix p assume "p \<in> nat ` set fs"
    then obtain x where "p = nat x" "is_prime (nat x)" "x dvd q" using fs(2) by blast
    then show "p \<in> {p. is_prime p \<and> p dvd nat q}" using q prime_int_pos [of x] by (simp add: nat_dvd_iff)
  qed
  moreover have "foldl (\<lambda>result prime. result - result div prime) (int (avoiding {} (nat q))) fs = int (avoiding (nat ` set fs \<union> {}) (nat q))"
    by (rule totient_fold) (use fs q in auto)
  ultimately show ?thesis using totient_avoiding [of "nat q"] q unfolding totient_from_factors_def start by simp
qed

end
