(* ===== verification/Prop1224_Claims.thy ===== *)
theory Prop1224_Claims
  imports Prop1224 PsiCampaign_Facts Totient
begin

text \<open>
  What the structural checker computes and what an accepted chain of windows proves: the sieve of totients is
  Euler's function, the sums are the sums over squarefree integers coprime to \<open>q\<close>, the schedule visits exactly
  the admissible \<open>q\<close>, and every \<open>k\<close> of a window carries the exact sum and a margin that is not negative.
\<close>

section \<open>Totients\<close>

lemma multiples_range:
  assumes "0 < p"
  shows "set (py_range p b p) = {n. 0 < n \<and> n < b \<and> p dvd n}"
proof -
  have "p + p - 1 = p * 1 + (p - 1)" using assms by simp
  then have "(p + p - 1) div p = 1 + (p - 1) div p" using assms by (simp only: div_mult_self4)
  then have "(p + p - 1) div p * p = p" using assms by simp
  then have "set (py_range p b p) = {n. p \<le> n \<and> n < b \<and> p dvd n}" using set_py_range [OF assms, of p b] by (simp only:)
  moreover have "p \<le> n \<longleftrightarrow> 0 < n" if "p dvd n" for n using that assms by (auto dest: dvd_imp_le)
  ultimately show ?thesis by blast
qed

lemma reduce_fold:
  assumes "distinct ns" "\<forall>n \<in> set ns. n < length phi"
  shows "length (foldl (reduce_multiple p) phi ns) = length phi \<and>
    (\<forall>k < length phi. foldl (reduce_multiple p) phi ns ! k = (if k \<in> set ns then phi ! k - phi ! k div p else phi ! k))"
  using assms
proof (induction ns arbitrary: phi)
  case (Cons n ns)
  then show ?case using Cons.IH [of "reduce_multiple p phi n"] by (auto simp: reduce_multiple_def nth_list_update)
qed simp

definition totient_invariant :: "nat \<Rightarrow> nat \<Rightarrow> nat list \<Rightarrow> bool" where
  "totient_invariant n m phi \<longleftrightarrow> length phi = n + 1 \<and>
     (\<forall>k \<in> {1..n}. phi ! k = avoiding {q. is_prime q \<and> q < m \<and> q dvd k} k)"

lemma totient_step_invariant:
  assumes inv: "totient_invariant n m phi" and m: "2 \<le> m" "m \<le> n"
  shows "totient_invariant n (Suc m) (totient_step n phi m)"
proof -
  have len: "length phi = n + 1" and at: "\<And>k. k \<in> {1..n} \<Longrightarrow> phi ! k = avoiding {q. is_prime q \<and> q < m \<and> q dvd k} k"
    using inv by (auto simp: totient_invariant_def)
  have prime: "phi ! m = m \<longleftrightarrow> is_prime m" using at [of m] m avoiding_self [of m] by simp
  show ?thesis
  proof (cases "is_prime m")
    case False
    then have "{q. is_prime q \<and> q < Suc m \<and> q dvd k} = {q. is_prime q \<and> q < m \<and> q dvd k}" for k by (auto simp: less_Suc_eq)
    with False prime inv show ?thesis by (simp add: totient_step_def totient_invariant_def)
  next
    case True
    have range: "set (py_range m (n + 1) m) = {k. 0 < k \<and> k < n + 1 \<and> m dvd k}" using multiples_range [of m "n + 1"] m by simp
    have "distinct (py_range m (n + 1) m)" "\<forall>k \<in> set (py_range m (n + 1) m). k < length phi"
      using distinct_py_range [of m m "n + 1"] m unfolding range len by simp_all
    note fold = reduce_fold [OF this, of m]
    have "avoiding {q. is_prime q \<and> q < Suc m \<and> q dvd k} k = (if m dvd k then phi ! k - phi ! k div m else phi ! k)" if "k \<in> {1..n}" for k
    proof (cases "m dvd k")
      case div: True
      then have "{q. is_prime q \<and> q < Suc m \<and> q dvd k} = insert m {q. is_prime q \<and> q < m \<and> q dvd k}" using True by (auto simp: less_Suc_eq)
      then show ?thesis using div at [OF that] avoiding_insert [OF True div, of "{q. is_prime q \<and> q < m \<and> q dvd k}"] by simp
    next
      case False
      then have "{q. is_prime q \<and> q < Suc m \<and> q dvd k} = {q. is_prime q \<and> q < m \<and> q dvd k}" by (auto simp: less_Suc_eq)
      then show ?thesis using False at [OF that] by simp
    qed
    moreover have "k \<in> set (py_range m (n + 1) m) \<longleftrightarrow> m dvd k" "k < length phi" if "k \<in> {1..n}" for k
      using that unfolding range len by auto
    ultimately have "\<forall>k \<in> {1..n}. foldl (reduce_multiple m) phi (py_range m (n + 1) m) ! k = avoiding {q. is_prime q \<and> q < Suc m \<and> q dvd k} k"
      using fold by simp
    moreover have "totient_step n phi m = foldl (reduce_multiple m) phi (py_range m (n + 1) m)" using True prime by (simp add: totient_step_def)
    ultimately show ?thesis using fold len by (simp add: totient_invariant_def)
  qed
qed

lemma totients_through_eq:
  assumes "1 \<le> limit"
  shows "\<exists>phi. totients_through limit = Inr phi \<and> length phi = nat limit + 1 \<and> (\<forall>k \<in> {1..nat limit}. phi ! k = totient k)"
proof -
  define n where "n = nat limit"
  define start where "start = [0..<n + 1][1 := 1]"
  have n: "1 \<le> n" using assms by (simp add: n_def)
  have start: "length start = n + 1" "\<And>k. k \<le> n \<Longrightarrow> start ! k = k" using n by (auto simp: start_def nth_list_update simp del: upt_Suc)
  have "totient_invariant n m (foldl (totient_step n) start [2..<m])" if "2 \<le> m" "m \<le> n + 1" for m
    using that
  proof (induction m rule: nat_induct_at_least)
    case base
    have none: "{q. is_prime q \<and> q < 2 \<and> q dvd k} = {}" for k using prime_gt_1 by fastforce
    have "avoiding {} k = card {1..k}" for k by (simp only: avoiding_def ball_empty simp_thms Collect_mem_eq)
    then show ?case using start unfolding totient_invariant_def none by simp
  next
    case (Suc m)
    then show ?case using totient_step_invariant [of n m "foldl (totient_step n) start [2..<m]"] by simp
  qed
  from this [of "n + 1"] n have inv: "totient_invariant n (n + 1) (foldl (totient_step n) start [2..<n + 1])" by simp
  have "avoiding {q. is_prime q \<and> q < n + 1 \<and> q dvd k} k = totient k" if "k \<in> {1..n}" for k
  proof -
    have "{q. is_prime q \<and> q < n + 1 \<and> q dvd k} = {q. is_prime q \<and> q dvd k}"
      using that by (auto dest: dvd_imp_le)
    then show ?thesis using totient_avoiding [of k] that by simp
  qed
  with inv have "length (foldl (totient_step n) start [2..<n + 1]) = n + 1 \<and>
      (\<forall>k \<in> {1..n}. foldl (totient_step n) start [2..<n + 1] ! k = totient k)" by (simp add: totient_invariant_def)
  moreover have "totients_through limit = Inr (foldl (totient_step n) start [2..<n + 1])"
    using assms n unfolding totients_through_def start_def n_def by (simp add: fc_int_def Let_def del: upt_Suc)
  ultimately show ?thesis unfolding n_def by blast
qed

section \<open>The sums\<close>

text \<open>\<open>G\<^sub>q(k)\<close>, by its definition.\<close>

definition ramare_G :: "nat \<Rightarrow> nat \<Rightarrow> rat" where
  "ramare_G q k = (\<Sum>r | 1 \<le> r \<and> r \<le> k \<and> squarefree_nat r \<and> coprime r q. 1 / of_nat (totient r))"

lemma ramare_G_0 [simp]: "ramare_G q 0 = 0"
proof -
  have none: "{r :: nat. 1 \<le> r \<and> r \<le> 0 \<and> squarefree_nat r \<and> coprime r q} = {}" by auto
  show ?thesis unfolding ramare_G_def none by simp
qed

lemma ramare_G_Suc:
  "ramare_G q (Suc k) = (if squarefree_nat (Suc k) \<and> coprime (Suc k) q then ramare_G q k + 1 / of_nat (totient (Suc k)) else ramare_G q k)"
proof -
  let ?S = "\<lambda>k. {r. 1 \<le> r \<and> r \<le> k \<and> squarefree_nat r \<and> coprime r q}"
  have fin: "finite (?S k)" by simp
  show ?thesis
  proof (cases "squarefree_nat (Suc k) \<and> coprime (Suc k) q")
    case True
    then have "?S (Suc k) = insert (Suc k) (?S k)" by (auto simp: le_Suc_eq)
    then have "ramare_G q (Suc k) = (\<Sum>r \<in> insert (Suc k) (?S k). 1 / of_nat (totient r))" unfolding ramare_G_def by (simp only:)
    also have "\<dots> = 1 / of_nat (totient (Suc k)) + (\<Sum>r \<in> ?S k. 1 / of_nat (totient r))" by (rule sum.insert [OF fin]) simp
    finally show ?thesis using True by (simp add: ramare_G_def)
  next
    case False
    then have "?S (Suc k) = ?S k" by (auto simp: le_Suc_eq)
    with False show ?thesis unfolding ramare_G_def by (simp only: if_False)
  qed
qed

lemma ramare_fold:
  assumes mu: "\<forall>r \<in> {1..n}. mu ! r = moebius r" and phi: "\<forall>r \<in> {1..n}. phi ! r = totient r" and m: "m \<le> n"
  shows "foldl (ramare_step mu phi (int q) ks) (0, []) [1..<m + 1] =
    (ramare_G q m, map (\<lambda>r. (int r, ramare_G q r)) (filter (\<lambda>r. int r \<in> set ks) [1..<m + 1]))"
  using m
proof (induction m)
  case (Suc m)
  have "gcd (int (Suc m)) (int q) = 1 \<longleftrightarrow> coprime (Suc m) q" by (simp only: gcd_int_int_eq of_nat_eq_1_iff coprime_iff_gcd_eq_1)
  moreover have "moebius (Suc m) \<noteq> 0 \<longleftrightarrow> squarefree_nat (Suc m)" by (rule moebius_zero_iff) simp
  moreover have "mu ! Suc m = moebius (Suc m)" "phi ! Suc m = totient (Suc m)" using mu phi Suc.prems by auto
  ultimately have step: "ramare_step mu phi (int q) ks (ramare_G q m, out) (Suc m) =
      (ramare_G q (Suc m), if int (Suc m) \<in> set ks then out @ [(int (Suc m), ramare_G q (Suc m))] else out)" for out
    by (simp add: ramare_step_def ramare_G_Suc Let_def del: of_nat_Suc gcd_int_int_eq)
  have upt: "[1..<Suc m + 1] = [1..<m + 1] @ [Suc m]" by simp
  have IH: "foldl (ramare_step mu phi (int q) ks) (0, []) [1..<m + 1] =
      (ramare_G q m, map (\<lambda>r. (int r, ramare_G q r)) (filter (\<lambda>r. int r \<in> set ks) [1..<m + 1]))" using Suc by simp
  show ?case unfolding upt foldl_append IH by (simp add: step del: upt_Suc of_nat_Suc)
qed simp

lemma map_res_fc_int: "map_res (fc_int m) vs = Inr ws \<longleftrightarrow> ws = vs \<and> (\<forall>v \<in> set vs. m \<le> v)"
  by (induction vs arbitrary: ws) (auto simp: res_simps)

lemma ramare_g_prefixes_Inr:
  assumes "ramare_g_prefixes q ks = Inr values" "k \<in> set ks"
  shows "map_of values k = Some (ramare_G (nat q) (nat k))"
proof -
  define n where "n = nat (last ks)"
  have *: "1 \<le> q" "\<forall>j \<in> set ks. 1 \<le> j" "ks \<noteq> []" "sort (remdups ks) = ks"
    and body: "ebind (mobius_linear (last ks)) (\<lambda>mu. ebind (totients_through (last ks)) (\<lambda>phi.
      Inr (snd (foldl (ramare_step mu phi q ks) (0, []) [1..<nat (last ks) + 1])))) = Inr values"
    using assms unfolding ramare_g_prefixes_def by (auto simp: res_simps map_res_fc_int Let_def simp del: upt_Suc split: if_splits)
  have "1 \<le> last ks" using *(2,3) by simp
  then obtain phi where phi: "totients_through (last ks) = Inr phi" "\<forall>r \<in> {1..n}. phi ! r = totient r"
    using totients_through_eq [of "last ks"] unfolding n_def by blast
  have "mobius_linear (last ks) = Inr (map moebius [0..<n + 1])" using \<open>1 \<le> last ks\<close> by (simp add: mobius_linear_eq n_def)
  moreover have "\<forall>r \<in> {1..n}. map moebius [0..<n + 1] ! r = moebius r" by (simp del: upt_Suc)
  note ramare_fold [OF this phi(2) order.refl, of "nat q" ks]
  ultimately have v: "values = map (\<lambda>r. (int r, ramare_G (nat q) r)) (filter (\<lambda>r. int r \<in> set ks) [1..<n + 1])"
    using body phi(1) *(1) unfolding n_def by (simp del: upt_Suc)
  have "k \<le> last ks"
  proof -
    have "sorted ks" using sorted_sort [of "remdups ks"] unfolding *(4) .
    moreover obtain i where "i < length ks" "ks ! i = k" using assms(2) by (auto simp: in_set_conv_nth)
    ultimately show ?thesis using *(3) sorted_nth_mono [of ks i "length ks - 1"] by (simp add: last_conv_nth)
  qed
  moreover have "1 \<le> k" using *(2) assms(2) by simp
  ultimately have at: "nat k \<in> set (filter (\<lambda>r. int r \<in> set ks) [1..<n + 1])" using assms(2) nat_mono [of k "last ks"] nat_mono [of 1 k] by (simp add: n_def del: upt_Suc)
  have "map_of (map (\<lambda>r. (int r, ramare_G (nat q) r)) rs) (int r) = Some (ramare_G (nat q) r)" if "r \<in> set rs" for rs r
    using that by (induction rs) auto
  from this [OF at] show ?thesis using \<open>1 \<le> k\<close> unfolding v by simp
qed

section \<open>The schedule\<close>

definition admissible :: "int \<Rightarrow> bool" where
  "admissible q \<longleftrightarrow> 1 \<le> q \<and> (q < PROP1224_Q_SPLIT \<or> q < PROP1224_Q_END \<and> 210 dvd q)"

lemma admissible_Inr: "prop1224_q_is_admissible q = Inr b \<longleftrightarrow> 1 \<le> q \<and> b = admissible q"
  by (auto simp: prop1224_q_is_admissible_def admissible_def res_simps PROP1224_DIVISOR_def dvd_eq_mod_eq_0)

lemma first_extension: "prop1224_first_extension_q = 3300000060"
  by (simp add: prop1224_first_extension_q_def PROP1224_Q_SPLIT_def PROP1224_DIVISOR_def)

lemma next_multiple: "210 dvd q \<Longrightarrow> 210 dvd r \<Longrightarrow> q < r \<Longrightarrow> q + 210 \<le> (r :: int)"
  by (auto simp: dvd_def)

text \<open>The next \<open>q\<close> is the first admissible one after \<open>q\<close>, or the end.\<close>

lemma next_q_Inr:
  assumes "prop1224_next_q q = Inr q'"
  shows "admissible q" "q < q'" "\<And>r. q < r \<Longrightarrow> r < q' \<Longrightarrow> \<not> admissible r" "admissible q' \<or> q' = PROP1224_Q_END"
proof -
  have adm: "admissible q" and q': "q' = (if q < PROP1224_Q_SPLIT - 1 then q + 1 else if q < PROP1224_Q_SPLIT then prop1224_first_extension_q
      else if q + PROP1224_DIVISOR < PROP1224_Q_END then q + PROP1224_DIVISOR else PROP1224_Q_END)"
    using assms by (auto simp: prop1224_next_q_def res_simps admissible_Inr Let_def split: if_splits)
  show "admissible q" by (rule adm)
  have last: "q + 1 = PROP1224_Q_SPLIT" if "\<not> q < PROP1224_Q_SPLIT - 1" "q < PROP1224_Q_SPLIT" using that by simp
  have tail: "210 dvd q" "q < PROP1224_Q_END" if "\<not> q < PROP1224_Q_SPLIT" using that adm by (auto simp: admissible_def)
  show "q < q'" "admissible q' \<or> q' = PROP1224_Q_END"
    using adm last tail unfolding q' first_extension
    by (auto simp: admissible_def PROP1224_Q_SPLIT_def PROP1224_Q_END_def PROP1224_DIVISOR_def split: if_splits)
  show "\<not> admissible r" if r: "q < r" "r < q'" for r
  proof
    assume "admissible r"
    show False
    proof (cases "q < PROP1224_Q_SPLIT")
      case True
      then have "PROP1224_Q_SPLIT \<le> r" "r < 3300000060" using r last unfolding q' first_extension by (auto split: if_splits)
      moreover from this have "210 dvd r" using \<open>admissible r\<close> by (auto simp: admissible_def)
      ultimately show False using next_multiple [of 3299999850 r] next_multiple [of r 3300000060] by (auto simp: PROP1224_Q_SPLIT_def)
    next
      case False
      then have "210 dvd r" "r < q + 210" using \<open>admissible r\<close> r unfolding q' by (auto simp: admissible_def PROP1224_DIVISOR_def split: if_splits)
      then show False using next_multiple [OF tail(1) [OF False] _ r(1)] False by simp
    qed
  qed
qed

text \<open>A run of the schedule: the \<open>q\<close> are the admissible ones of an interval, in order.\<close>

definition covers :: "int \<Rightarrow> int \<Rightarrow> int list \<Rightarrow> bool" where
  "covers a b qs \<longleftrightarrow> a \<le> b \<and> sorted_wrt (<) qs \<and> set qs = {q. admissible q \<and> a \<le> q \<and> q < b}"

lemma covers_Nil: "covers a a []"
  by (auto simp: covers_def)

lemma covers_append:
  assumes "covers a b qs" "covers b c rs"
  shows "covers a c (qs @ rs)"
proof -
  have *: "a \<le> b" "b \<le> c" "sorted_wrt (<) qs" "sorted_wrt (<) rs" "set qs = {q. admissible q \<and> a \<le> q \<and> q < b}"
    "set rs = {q. admissible q \<and> b \<le> q \<and> q < c}" using assms by (simp_all add: covers_def)
  have "\<forall>q \<in> set qs. \<forall>r \<in> set rs. q < r" unfolding *(5,6) by auto
  moreover have "set (qs @ rs) = {q. admissible q \<and> a \<le> q \<and> q < c}" unfolding set_append *(5,6) using *(1,2) by auto
  ultimately show ?thesis using *(1-4) by (simp add: covers_def sorted_wrt_append)
qed

lemma covers_next: "prop1224_next_q q = Inr q' \<Longrightarrow> covers q q' [q]"
proof -
  assume q': "prop1224_next_q q = Inr q'"
  note next_q = next_q_Inr [OF q']
  have "{r. admissible r \<and> q \<le> r \<and> r < q'} = {q}" using next_q(1,2,3) by (fastforce simp: le_less)
  then show ?thesis using next_q(2) by (simp add: covers_def)
qed

section \<open>Windows\<close>

lemma fc_fraction_Inr: "fc_fraction n d = Inr v \<Longrightarrow> v = of_int n / of_int d \<and> 0 < d"
  by (auto simp: fc_fraction_def res_simps Let_def)

text \<open>The lower end of \<open>\<omega>(q)\<close> and the upper end of \<open>\<lambda>(q)\<close> that a window states.\<close>

definition varpi_lower :: "prop1224_window \<Rightarrow> real" where
  "varpi_lower w = real_of_int (qw_varpi_lower_numerator w) / real_of_int (qw_varpi_lower_denominator w)"

definition lambda_upper :: "prop1224_window \<Rightarrow> real" where
  "lambda_upper w = real_of_int (qw_lambda_upper_numerator w) / real_of_int (qw_lambda_upper_denominator w)"

definition pair_ok :: "int \<Rightarrow> prop1224_pair \<Rightarrow> bool" where
  "pair_ok q p \<longleftrightarrow> of_int (qp_g_numerator p) / of_int (qp_g_denominator p) = ramare_G (nat q) (nat (qp_k p)) \<and>
     0 \<le> (of_int (qp_margin_numerator p) / of_int (qp_margin_denominator p) :: rat)"

lemma of_rat_fraction: "real_of_rat (of_int n / of_int d) = real_of_int n / real_of_int d"
  by (simp add: of_rat_divide)

lemma window_bounds_Inr:
  assumes "window_bounds w = Inr (a, b, c, d)"
  shows "real_of_rat a = varpi_lower w" "real_of_rat d = lambda_upper w"
  using assms by (auto simp: window_bounds_def res_simps varpi_lower_def lambda_upper_def of_rat_fraction dest!: fc_fraction_Inr)

lemma rat_ceiling: "\<lceil>r\<rceil> \<le> k \<longleftrightarrow> real_of_rat r \<le> real_of_int k" "k < \<lceil>r\<rceil> \<longleftrightarrow> real_of_int k < real_of_rat r"
proof -
  have "\<lceil>r\<rceil> \<le> k \<longleftrightarrow> real_of_rat r \<le> real_of_rat (of_int k)" by (simp only: ceiling_le_iff of_rat_less_eq)
  then show "\<lceil>r\<rceil> \<le> k \<longleftrightarrow> real_of_rat r \<le> real_of_int k" by simp
  then show "k < \<lceil>r\<rceil> \<longleftrightarrow> real_of_int k < real_of_rat r" by linarith
qed

lemma conservative_ks_Inr:
  assumes "prop1224_conservative_ks w = Inr ks" "1 \<le> k" "varpi_lower w \<le> real_of_int k" "real_of_int k < lambda_upper w"
  shows "k \<in> set ks"
proof -
  obtain a b c d where wb: "window_bounds w = Inr (a, b, c, d)"
    and ks: "ks = (if \<lceil>d\<rceil> - 1 < max 1 \<lceil>a\<rceil> then [] else [max 1 \<lceil>a\<rceil>..\<lceil>d\<rceil> - 1])"
    using assms(1) by (auto simp: prop1224_conservative_ks_def res_simps Let_def split: if_splits)
  have "\<lceil>a\<rceil> \<le> k" "k < \<lceil>d\<rceil>" using assms(3,4) window_bounds_Inr [OF wb] by (simp_all only: rat_ceiling)
  then show ?thesis using assms(2) unfolding ks by auto
qed

lemma verify_window_Inr:
  assumes "verify_prop1224_window w = Inr n"
  shows "admissible (qw_q w)"
    "\<And>k. 1 \<le> k \<Longrightarrow> varpi_lower w \<le> real_of_int k \<Longrightarrow> real_of_int k < lambda_upper w \<Longrightarrow> \<exists>p \<in> set (qw_pairs w). qp_k p = k \<and> pair_ok (qw_q w) p"
proof -
  obtain us vs where adm: "admissible (qw_q w)" and ks: "prop1224_conservative_ks w = Inr (map qp_k (qw_pairs w))"
    and us: "ramare_g_prefixes (qw_q w) (map qp_k (qw_pairs w)) = Inr us" and vs: "map_res (verify_pair us) (qw_pairs w) = Inr vs"
    using assms by (auto simp: verify_prop1224_window_def res_simps admissible_Inr)
  have pairs: "verify_pair us p = Inr ()" if "p \<in> set (qw_pairs w)" for p
    using vs that by (auto simp: map_res_Inr_iff list_all2_conv_all_nth in_set_conv_nth)
  have g: "map_of us (qp_k p) = Some (ramare_G (nat (qw_q w)) (nat (qp_k p)))" if "p \<in> set (qw_pairs w)" for p
    using ramare_g_prefixes_Inr [OF us] that by simp
  show "admissible (qw_q w)" by (rule adm)
  show "\<exists>p \<in> set (qw_pairs w). qp_k p = k \<and> pair_ok (qw_q w) p"
    if "1 \<le> k" "varpi_lower w \<le> real_of_int k" "real_of_int k < lambda_upper w" for k
  proof -
    have "k \<in> qp_k ` set (qw_pairs w)" using conservative_ks_Inr [OF ks that] by simp
    then obtain p where p: "p \<in> set (qw_pairs w)" "qp_k p = k" by blast
    then have "pair_ok (qw_q w) p"
      using pairs [OF p(1)] g [OF p(1)] by (auto simp: verify_pair_def lookup_g_def pair_ok_def res_simps split: option.splits dest!: fc_fraction_Inr)
    with p show ?thesis by blast
  qed
qed

section \<open>Chains\<close>

lemma window_loop_Inr:
  "window_loop e n ws = Inr (e', n') \<Longrightarrow> covers e e' (map qw_q ws) \<and> (\<forall>w \<in> set ws. \<exists>m. verify_prop1224_window w = Inr m)"
proof (induction e n ws rule: window_loop.induct)
  case (2 e n w ws)
  then obtain m e'' where *: "qw_q w = e" "verify_prop1224_window w = Inr m" "prop1224_next_q e = Inr e''" "window_loop e'' (n + m) ws = Inr (e', n')"
    by (auto simp: res_simps)
  from 2(1) [OF _ *(2), of e''] * covers_append [OF covers_next [OF *(3)]] show ?case by force
qed (simp add: covers_Nil)

lemma verify_prop1224_chunk_Inr:
  assumes "verify_prop1224_chunk c = Inr (rows, pairs)"
  shows "covers (qc_first_q c) (qc_next_q c) (map qw_q (qc_windows c))" "rows = length (qc_windows c)"
    "\<forall>w \<in> set (qc_windows c). \<exists>m. verify_prop1224_window w = Inr m"
  using assms by (auto simp: verify_prop1224_chunk_def res_simps dest!: window_loop_Inr)

lemma prop1224_chain_loop_Inr:
  "prop1224_chain_loop (c, rows, pairs, n) cs = Inr (c', rows', pairs', n') \<Longrightarrow>
    covers (qc_next_q c) (qc_next_q c') (map qw_q (concat (map qc_windows cs))) \<and>
    rows' = rows + length (concat (map qc_windows cs)) \<and>
    (\<forall>w \<in> set (concat (map qc_windows cs)). \<exists>m. verify_prop1224_window w = Inr m)"
proof (induction cs arbitrary: c rows pairs n)
  case (Cons d cs)
  then obtain r m where *: "qc_first_q d = qc_next_q c" "verify_prop1224_chunk d = Inr (r, m)"
    "prop1224_chain_loop (d, rows + r, pairs + m, n + 1) cs = Inr (c', rows', pairs', n')"
    by (auto simp: res_simps)
  from Cons.IH [OF *(3)] verify_prop1224_chunk_Inr [OF *(2)] * covers_append show ?case by fastforce
qed (simp add: covers_Nil)

text \<open>C8:
  What an accepted chain of Proposition 12.2.4 windows proves.  Every admissible \<open>q\<close> from the first one to the
  one returned as next, or every admissible \<open>q\<close> at all when full coverage is reported, has a window in the
  chain, and each integer \<open>k\<close> at least one that is not below the window's lower bound and is below its upper bound
  has a pair there, with the exact sum \<open>G\<^sub>q(k)\<close> over squarefree integers coprime to \<open>q\<close> and a margin that is not
  negative; the rows counted are the admissible \<open>q\<close>, each once.
\<close>

theorem prop1224_chain_sound:
  assumes "verify_prop1224_chain chunks first_q next_q = Inr v" "admissible q"
    "qv_full_source_q_coverage v \<or> first_q \<le> q \<and> q < qv_next_q v"
  shows "(\<exists>w \<in> set (concat (map qc_windows chunks)). qw_q w = q \<and>
      (\<forall>k \<ge> 1. varpi_lower w \<le> real_of_int k \<longrightarrow> real_of_int k < lambda_upper w \<longrightarrow>
        (\<exists>p \<in> set (qw_pairs w). qp_k p = k \<and> pair_ok q p))) \<and>
    qv_q_rows v = card {q. admissible q \<and> first_q \<le> q \<and> q < qv_next_q v}"
proof -
  let ?ws = "concat (map qc_windows chunks)"
  obtain c cs r m c' rows pairs n where chunks: "chunks = c # cs" "qc_first_q c = first_q"
    and c: "verify_prop1224_chunk c = Inr (r, m)" and cs: "prop1224_chain_loop (c, r, m, 1) cs = Inr (c', rows, pairs, n)"
    and v: "qv_next_q v = qc_next_q c'" "qv_q_rows v = rows" "qv_full_source_q_coverage v = (first_q = 1 \<and> qc_next_q c' = PROP1224_Q_END)"
    using assms(1) by (auto simp: verify_prop1224_chain_def res_simps Let_def split: list.splits)
  have cover: "covers first_q (qv_next_q v) (map qw_q ?ws)" and rows: "qv_q_rows v = length ?ws"
    and ok: "\<forall>w \<in> set ?ws. \<exists>m. verify_prop1224_window w = Inr m"
    using verify_prop1224_chunk_Inr [OF c] prop1224_chain_loop_Inr [OF cs] covers_append chunks v by fastforce+
  have "first_q \<le> q \<and> q < qv_next_q v" using assms(2,3) v by (auto simp: admissible_def PROP1224_Q_SPLIT_def PROP1224_Q_END_def)
  then have "q \<in> set (map qw_q ?ws)" using cover assms(2) by (auto simp: covers_def)
  then obtain w where "w \<in> set ?ws" "qw_q w = q" by (auto simp del: set_concat)
  moreover from this obtain m where "verify_prop1224_window w = Inr m" using ok by blast
  ultimately have "\<exists>w \<in> set ?ws. qw_q w = q \<and> (\<forall>k \<ge> 1. varpi_lower w \<le> real_of_int k \<longrightarrow> real_of_int k < lambda_upper w \<longrightarrow>
        (\<exists>p \<in> set (qw_pairs w). qp_k p = k \<and> pair_ok q p))" using verify_window_Inr(2) [of w] by blast
  moreover have "distinct (map qw_q ?ws)" using cover by (simp add: covers_def strict_sorted_iff del: map_concat)
  from distinct_card [OF this] have "length ?ws = card {q. admissible q \<and> first_q \<le> q \<and> q < qv_next_q v}" using cover by (simp only: covers_def length_map)
  ultimately show ?thesis using rows by (simp only: simp_thms)
qed

text \<open>Not part of the code: a chain of one chunk with one window, for \<open>q = 1\<close> and \<open>k = 1, 2\<close>.\<close>

definition example_window :: prop1224_window where
  "example_window = \<lparr>qw_q = 1, qw_varpi_lower_numerator = 1, qw_varpi_lower_denominator = 2, qw_varpi_upper_numerator = 1,
     qw_varpi_upper_denominator = 1, qw_lambda_lower_numerator = 2, qw_lambda_lower_denominator = 1, qw_lambda_upper_numerator = 5,
     qw_lambda_upper_denominator = 2,
     qw_pairs = [\<lparr>qp_k = 1, qp_g_numerator = 1, qp_g_denominator = 1, qp_margin_numerator = 0, qp_margin_denominator = 1\<rparr>,
       \<lparr>qp_k = 2, qp_g_numerator = 2, qp_g_denominator = 1, qp_margin_numerator = 1, qp_margin_denominator = 3\<rparr>]\<rparr>"

definition example_chunk :: prop1224_chunk where
  "example_chunk = rehash_prop1224_chunk \<lparr>qc_first_q = 1, qc_next_q = 2, qc_windows = [example_window],
     qc_previous_hash = ZERO_SHA256, qc_record_hash = ZERO_SHA256\<rparr>"

lemma rehash_prop1224_chunk_hash:
  "prop1224_recomputed_hash (rehash_prop1224_chunk c) = qc_record_hash (rehash_prop1224_chunk c)"
  "fc_digest (qc_record_hash (rehash_prop1224_chunk c)) = Inr (qc_record_hash (rehash_prop1224_chunk c))"
  by (simp_all add: rehash_prop1224_chunk_def prop1224_recomputed_hash_def prop1224_body_def fc_digest_def fc_sha256_def sha256_hex_string)

lemma example_sums: "ramare_g_prefixes 1 [1, 2] = Inr [(1, 1), (2, 2)]"
proof -
  have "mobius_linear 2 = Inr [0, 1, - 1]" "totients_through 2 = Inr [0, 1, 1]" "sort (remdups [1, 2]) = [1, 2 :: int]"
    "foldl (ramare_step [0, 1, - 1] [0, 1, 1] 1 [1, 2]) (0, []) [1..<3] = (2, [(1, 1), (2, 2)])"
    by code_simp+
  then show ?thesis by (simp add: ramare_g_prefixes_def fc_int_def MAX_HASHED_ROWS_def del: upt_rec_numeral)
qed

lemma example_window_accepted: "verify_prop1224_window example_window = Inr 2"
proof -
  have "window_bounds example_window = Inr (1 / 2, 1, 2, 5 / 2)" by code_simp
  moreover have "\<lceil>1 / 2 :: rat\<rceil> = 1" "\<lceil>5 / 2 :: rat\<rceil> = 3" "[1..2 :: int] = [1, 2]" by code_simp+
  ultimately have ks: "prop1224_conservative_ks example_window = Inr [1, 2]"
    by (simp add: prop1224_conservative_ks_def MAX_HASHED_ROWS_def)
  have pairs: "map qp_k (qw_pairs example_window) = [1, 2]" "map_res (\<lambda>p. fc_int 1 (qp_k p)) (qw_pairs example_window) = Inr [1, 2]"
    "map_res (verify_pair [(1, 1), (2, 2)]) (qw_pairs example_window) = Inr [(), ()]" "qw_q example_window = 1" "prop1224_q_is_admissible 1 = Inr True"
    by code_simp+
  show ?thesis unfolding verify_prop1224_window_def pairs ks by (simp add: pairs example_sums fc_int_def [of 1 1])
qed

lemma example_parts:
  "prop1224_next_q 1 = Inr 2" "fc_digest ZERO_SHA256 = Inr ZERO_SHA256" "qw_q example_window = 1"
  by code_simp+

lemma example_accepted: "\<exists>v. verify_prop1224_chain [example_chunk] 1 None = Inr v \<and> qv_next_q v = 2"
proof -
  have fields: "qc_first_q example_chunk = 1" "qc_next_q example_chunk = 2" "qc_windows example_chunk = [example_window]"
    "qc_previous_hash example_chunk = ZERO_SHA256"
    by (simp_all add: example_chunk_def rehash_prop1224_chunk_def)
  have hash: "prop1224_recomputed_hash example_chunk = qc_record_hash example_chunk" "fc_digest (qc_record_hash example_chunk) = Inr (qc_record_hash example_chunk)"
    unfolding example_chunk_def by (rule rehash_prop1224_chunk_hash)+
  have "verify_prop1224_chunk example_chunk = Inr (1, 2)"
    unfolding verify_prop1224_chunk_def fields hash by (simp add: example_parts example_window_accepted fc_int_def)
  then show ?thesis by (simp add: verify_prop1224_chain_def fields fc_int_def PROP1224_Q_END_def Let_def)
qed

lemma prop1224_chain_sound_witness:
  "\<exists>w \<in> set (concat (map qc_windows [example_chunk])). qw_q w = 1 \<and> varpi_lower w \<le> 2 \<and> 2 < lambda_upper w \<and>
    (\<exists>p \<in> set (qw_pairs w). qp_k p = 2 \<and> pair_ok 1 p)"
proof -
  obtain v where v: "verify_prop1224_chain [example_chunk] 1 None = Inr v" "qv_next_q v = 2" using example_accepted by blast
  have "admissible 1" by (simp add: admissible_def PROP1224_Q_SPLIT_def)
  then obtain w where w: "w \<in> set (concat (map qc_windows [example_chunk]))" "qw_q w = 1"
    "\<And>k. 1 \<le> k \<Longrightarrow> varpi_lower w \<le> real_of_int k \<Longrightarrow> real_of_int k < lambda_upper w \<Longrightarrow> \<exists>p \<in> set (qw_pairs w). qp_k p = k \<and> pair_ok 1 p"
    using prop1224_chain_sound [OF v(1), of 1] v(2) by fastforce
  have "w = example_window" using w(1) by (simp add: example_chunk_def rehash_prop1224_chunk_def)
  then have "varpi_lower w \<le> 2" "2 < lambda_upper w" by (simp_all add: varpi_lower_def lambda_upper_def example_window_def)
  with w(1,2) w(3) [of 2] show ?thesis by auto
qed

end
