(* ===== verification/DirectedRow.thy ===== *)
theory DirectedRow
  imports Prop1224Directed DirectedRational_Claims Prop1224_Claims
begin

text \<open>
  Not part of the code: one row of the directed producer evaluated at 32 bits and eight terms of the
  series, for \<open>q = 331\<^sup>2\<close> and \<open>k\<close> from 1 to 5, and the chunk of that row.  Every value is exact arithmetic
  over one denominator, so that the verifier is seen to accept a concrete chunk.
\<close>

section \<open>Exact evaluation at eight terms and 32 bits\<close>

lemma rat_floor: "\<lfloor>numeral a / numeral b :: rat\<rfloor> = numeral a div numeral b" "\<lfloor>- (numeral a / numeral b) :: rat\<rfloor> = - numeral a div numeral b"
  "\<lceil>numeral a / numeral b :: rat\<rceil> = - (- numeral a div numeral b)" "\<lceil>- (numeral a / numeral b) :: rat\<rceil> = - (numeral a div numeral b)"
  using floor_divide_of_int_eq [where 'a = rat, of "numeral a" "numeral b"] floor_divide_of_int_eq [where 'a = rat, of "- numeral a" "numeral b"] by (simp_all add: ceiling_def)

lemma ebind_weak_cong: "m = m' \<Longrightarrow> ebind m f = ebind m' f"
  by simp

definition dyadic :: "int \<Rightarrow> int \<Rightarrow> rational_interval" where
  "dyadic l u = \<lparr>ri_lower = of_int l / 2 ^ 32, ri_upper = of_int u / 2 ^ 32\<rparr>"

lemma outward_at:
  assumes "of_int l \<le> x * 2 ^ 32" "x * 2 ^ 32 < of_int (l + 1)" "of_int (u - 1) < y * 2 ^ 32" "y * 2 ^ 32 \<le> of_int u" "x \<le> y"
  shows "ri_outward \<lparr>ri_lower = x, ri_upper = y\<rparr> 32 = Inr (dyadic l u)"
proof -
  have "\<lfloor>x * 2 ^ 32\<rfloor> = l" using assms(1,2) by (intro floor_unique) simp_all
  moreover have "\<lceil>y * 2 ^ 32\<rceil> = u" using assms(3,4) by (intro ceiling_unique) simp_all
  moreover have "ri_round_down x 32 \<le> ri_round_up y 32" using ri_round_down_le [of x 32] ri_round_up_ge [of y 32] assms(5) by linarith
  ultimately show ?thesis by (simp add: ri_outward_def ri_make_def dyadic_def ri_round_down_def ri_round_up_def Let_def push_bit_eq_mult)
qed

text \<open>The exponential series of \<open>a / b\<close> over one denominator.\<close>

definition exp_numerator :: "int \<Rightarrow> int \<Rightarrow> int" where
  "exp_numerator a b = 40320 * b ^ 8 + 40320 * a * b ^ 7 + 20160 * a ^ 2 * b ^ 6 + 6720 * a ^ 3 * b ^ 5 + 1680 * a ^ 4 * b ^ 4 +
     336 * a ^ 5 * b ^ 3 + 56 * a ^ 6 * b ^ 2 + 8 * a ^ 7 * b + a ^ 8"

lemma exp_series_at:
  fixes r b :: rat
  shows "(\<Sum>i<9. r ^ i / fact i) * (40320 * b ^ 8) = 40320 * b ^ 8 + 40320 * (r * b) * b ^ 7 + 20160 * (r * b) ^ 2 * b ^ 6 + 6720 * (r * b) ^ 3 * b ^ 5 +
     1680 * (r * b) ^ 4 * b ^ 4 + 336 * (r * b) ^ 5 * b ^ 3 + 56 * (r * b) ^ 6 * b ^ 2 + 8 * (r * b) ^ 7 * b + (r * b) ^ 8"
proof -
  have "{..<9} = {0, 1, 2, 3, 4, 5, 6, 7, 8 :: nat}" by auto
  then show ?thesis by (simp add: fact_numeral power_numeral_reduce field_simps)
qed

text \<open>The series of the logarithm at \<open>z = a / b\<close>.\<close>

definition log_numerator :: "int \<Rightarrow> int \<Rightarrow> int" where
  "log_numerator a b = 2027025 * a * b ^ 14 + 675675 * a ^ 3 * b ^ 12 + 405405 * a ^ 5 * b ^ 10 + 289575 * a ^ 7 * b ^ 8 +
     225225 * a ^ 9 * b ^ 6 + 184275 * a ^ 11 * b ^ 4 + 155925 * a ^ 13 * b ^ 2 + 135135 * a ^ 15"

lemma log_series_at:
  fixes z b :: rat
  shows "(\<Sum>j<8. z ^ (2 * j + 1) / of_nat (2 * j + 1)) * (2027025 * b ^ 15) = 2027025 * (z * b) * b ^ 14 + 675675 * (z * b) ^ 3 * b ^ 12 +
     405405 * (z * b) ^ 5 * b ^ 10 + 289575 * (z * b) ^ 7 * b ^ 8 + 225225 * (z * b) ^ 9 * b ^ 6 + 184275 * (z * b) ^ 11 * b ^ 4 +
     155925 * (z * b) ^ 13 * b ^ 2 + 135135 * (z * b) ^ 15"
proof -
  have "{..<8} = {0, 1, 2, 3, 4, 5, 6, 7 :: nat}" by auto
  then show ?thesis by (simp add: power_numeral_reduce field_simps)
qed

lemma scaled:
  fixes x :: rat
  assumes "x * of_int D = of_int N" "0 < D"
  shows "of_int l \<le> x * 2 ^ 32 \<longleftrightarrow> l * D \<le> N * 2 ^ 32" "x * 2 ^ 32 < of_int l \<longleftrightarrow> N * 2 ^ 32 < l * D"
    "of_int l < x * 2 ^ 32 \<longleftrightarrow> l * D < N * 2 ^ 32" "x * 2 ^ 32 \<le> of_int l \<longleftrightarrow> N * 2 ^ 32 \<le> l * D"
proof -
  have D: "(0 :: rat) < of_int D" using assms(2) by simp
  have x: "x * 2 ^ 32 * of_int D = of_int (N * 2 ^ 32)" using assms(1) by (simp add: mult_ac)
  have "of_int l \<le> x * 2 ^ 32 \<longleftrightarrow> of_int l * of_int D \<le> x * 2 ^ 32 * of_int D" using D by (simp only: mult_le_cancel_right_pos)
  then show *: "of_int l \<le> x * 2 ^ 32 \<longleftrightarrow> l * D \<le> N * 2 ^ 32" by (simp only: x of_int_le_iff flip: of_int_mult)
  have "of_int l < x * 2 ^ 32 \<longleftrightarrow> of_int l * of_int D < x * 2 ^ 32 * of_int D" using D by (simp only: mult_less_cancel_right_pos)
  then show **: "of_int l < x * 2 ^ 32 \<longleftrightarrow> l * D < N * 2 ^ 32" by (simp only: x of_int_less_iff flip: of_int_mult)
  show "x * 2 ^ 32 < of_int l \<longleftrightarrow> N * 2 ^ 32 < l * D" using * by linarith
  show "x * 2 ^ 32 \<le> of_int l \<longleftrightarrow> N * 2 ^ 32 \<le> l * D" using ** by linarith
qed

text \<open>The base of the exponential at \<open>a / b\<close>, divided by \<open>d\<close>, and its rounding to the integers \<open>l\<close> and \<open>u\<close>.\<close>

definition exp_rounding :: "int \<Rightarrow> int \<Rightarrow> int \<Rightarrow> int \<Rightarrow> bool" where
  "exp_rounding a b l u \<longleftrightarrow>
     (let X = exp_numerator a b; D = 40320 * b ^ 8; c = 10 * b - a; Y = X * 9 * c + 10 * a ^ 9; E = 9 * D * c
      in l * D \<le> X * 2 ^ 32 \<and> X * 2 ^ 32 < (l + 1) * D \<and> (u - 1) * E < Y * 2 ^ 32 \<and> Y * 2 ^ 32 \<le> u * E)"

lemma tail_product: "s \<noteq> 0 \<Longrightarrow> 10 * p / (362880 * s) * (9 * (40320 * A) * (C * s)) = 10 * p * (A * C)" "s \<noteq> 0 \<Longrightarrow> 2 * t / (17 * s) * (B * 17 * s) = 2 * t * B"
  for s :: rat
  by (simp_all add: field_simps)

lemma exp_point_at:
  assumes "0 < a" "0 < b" "exp_divisor (of_int a / of_int b) 1 = d" "exp_rounding a (b * d) l u"
  shows "exp_nonnegative_point (of_int a / of_int b) 32 8 = ri_pow_nat (dyadic l u) d 32"
proof -
  define v :: rat where "v = of_int a / of_int b"
  define r where "r = v / of_int d"
  define c where "c = b * d"
  have v: "0 < v" using assms(1,2) by (simp add: v_def)
  have d: "0 < d" "v * 8 \<le> of_int d" using exp_divisor_pos [of 1 v] assms(3) by (simp_all add: v_def)
  have r: "0 < r" "r * 8 \<le> 1" using v d by (simp_all add: r_def pos_divide_le_eq)
  have c: "0 < c" using assms(2) d by (simp add: c_def)
  have rc: "r * of_int c = of_int a" using assms(2) d by (simp add: r_def v_def c_def)
  obtain x t where f: "foldl (exp_series_step r) (1, 1) [1..<nat 8 + 1] = (x, t)" by fastforce
  have xt: "x = (\<Sum>i<9. r ^ i / fact i)" "t = r ^ 8 / fact 8" using f unfolding exp_series_foldl by simp_all
  define y where "y = x + t * r / of_int (8 + 1) / (1 - r / of_int (8 + 2))"
  have x: "x * of_int (40320 * c ^ 8) = of_int (exp_numerator a c)"
    using exp_series_at [of r "of_int c"] unfolding xt(1) rc by (simp add: exp_numerator_def)
  have ten: "of_int (10 * c - a) = of_int c * (10 - r)" using rc by (simp add: algebra_simps)
  have "(0 :: rat) < of_int (10 * c - a)" unfolding ten using c r by simp
  then have "0 < 10 * c - a" by (simp only: of_int_0_less_iff)
  have "t * r / 9 / (1 - r / 10) = 10 * r ^ 9 / (362880 * (10 - r))"
    using r unfolding xt(2) by (simp add: fact_numeral power_numeral_reduce field_simps)
  then have "y - x = 10 * r ^ 9 / (362880 * (10 - r))" by (simp add: y_def)
  then have "(y - x) * of_int (9 * (40320 * c ^ 8) * (10 * c - a)) = 10 * r ^ 9 / (362880 * (10 - r)) * (9 * (40320 * of_int c ^ 8) * (of_int c * (10 - r)))"
    unfolding of_int_mult ten by (simp only: of_int_power of_int_numeral)
  also have "\<dots> = 10 * r ^ 9 * (of_int c ^ 8 * of_int c)" using r tail_product(1) [where s = "10 - r" and p = "r ^ 9" and A = "of_int c ^ 8" and C = "of_int c"] by simp
  also have "\<dots> = 10 * (r * of_int c) ^ 9" by (simp add: power_mult_distrib power_numeral_reduce mult_ac)
  finally have tail: "(y - x) * of_int (9 * (40320 * c ^ 8) * (10 * c - a)) = of_int (10 * a ^ 9)" unfolding rc by simp
  have y: "y * of_int (9 * (40320 * c ^ 8) * (10 * c - a)) = of_int (exp_numerator a c * 9 * (10 * c - a) + 10 * a ^ 9)"
  proof -
    have "y * of_int (9 * (40320 * c ^ 8) * (10 * c - a)) = x * of_int (40320 * c ^ 8) * of_int (9 * (10 * c - a)) + of_int (10 * a ^ 9)"
      using tail by (simp add: algebra_simps)
    then show ?thesis unfolding x by (simp add: algebra_simps)
  qed
  have "0 < 40320 * c ^ 8" "0 < 9 * (40320 * c ^ 8) * (10 * c - a)" using c \<open>0 < 10 * c - a\<close> by simp_all
  note x = scaled [OF x this(1)] and y = scaled [OF y this(2)]
  have "0 \<le> t * r / of_int (8 + 1) / (1 - r / of_int (8 + 2))" using r unfolding xt(2) by simp
  then have le: "x \<le> y" by (simp add: y_def)
  have out: "ri_outward \<lparr>ri_lower = x, ri_upper = y\<rparr> 32 = Inr (dyadic l u)"
    using assms(4) le unfolding exp_rounding_def Let_def c_def [symmetric] by (intro outward_at) (simp_all only: x y)
  have "\<not> v < 0" "v \<noteq> 0" using v by simp_all
  then show ?thesis
    unfolding v_def [symmetric] exp_nonnegative_point_def Let_def assms(3) [folded v_def] r_def [symmetric] f prod.case y_def [symmetric]
    using le out by (simp add: ri_make_def)
qed

text \<open>The logarithm of \<open>2\<^sup>e (b + a) / (b - a)\<close>, with the bounds of the logarithm of two.\<close>

definition log_lower_num :: "int \<Rightarrow> int \<Rightarrow> int \<Rightarrow> int" where
  "log_lower_num a b e = 2 * log_numerator a b * 215448838605 + e * 149337754816 * (2027025 * b ^ 15)"

definition log_lower_den :: "int \<Rightarrow> int" where
  "log_lower_den b = 2027025 * b ^ 15 * 215448838605"

definition log_upper_num :: "int \<Rightarrow> int \<Rightarrow> int \<Rightarrow> int" where
  "log_upper_num a b e = (2 * log_numerator a b * (17 * (b ^ 2 - a ^ 2)) + 2 * a ^ 17 * 2027025) * 14650521025140 +
     e * 10154967342503 * (2027025 * b ^ 15 * (17 * (b ^ 2 - a ^ 2)))"

definition log_upper_den :: "int \<Rightarrow> int \<Rightarrow> int" where
  "log_upper_den a b = 2027025 * b ^ 15 * (17 * (b ^ 2 - a ^ 2)) * 14650521025140"

lemma unit_log_two: "unit_log_bounds 8 2 = Inr \<lparr>ri_lower = 149337754816 / 215448838605, ri_upper = 10154967342503 / 14650521025140\<rparr>"
proof -
  have "[0..<8] = [0, 1, 2, 3, 4, 5, 6, 7 :: nat]" by code_simp
  then show ?thesis by (simp add: unit_log_bounds_def log_series_step_def Let_def ri_make_def)
qed

definition log_sum :: "rat \<Rightarrow> rat" where
  "log_sum z = (\<Sum>j<8. z ^ (2 * j + 1) / of_nat (2 * j + 1))"

lemma log_sum_mono: "0 \<le> z \<Longrightarrow> z \<le> z' \<Longrightarrow> log_sum z \<le> log_sum z'"
  unfolding log_sum_def by (intro sum_mono divide_right_mono power_mono) simp_all

lemma log_sum_nonneg: "0 \<le> z \<Longrightarrow> 0 \<le> log_sum z"
  unfolding log_sum_def by (intro sum_nonneg) simp

lemma unit_log_value:
  assumes "1 \<le> m" "m \<le> 2" "z = (m - 1) / (m + 1)"
  shows "unit_log_bounds 8 m = Inr \<lparr>ri_lower = 2 * log_sum z, ri_upper = 2 * log_sum z + 2 * z ^ 17 / (17 * (1 - z * z))\<rparr>"
proof (cases "z = 0")
  case True
  then have "log_sum z = 0" by (simp add: log_sum_def power_0_left)
  with True assms show ?thesis unfolding unit_log_bounds_def assms(3) [symmetric] Let_def by (simp add: ri_exact_def ri_make_def power_0_left)
next
  case False
  have z: "0 \<le> z" "z < 1" using assms by simp_all
  then have "z * z < 1" using mult_strict_mono [of z 1 z 1] by simp
  with z have le: "0 \<le> 2 * z ^ 17 / (17 * (1 - z * z))" by simp
  obtain p t where f: "foldl (log_series_step (z * z)) (0, z) [0..<nat 8] = (p, t)" by fastforce
  have pt: "p = log_sum z" "t = z ^ 17" using f unfolding log_series_foldl log_sum_def by simp_all
  show ?thesis using False assms(1,2) f le unfolding unit_log_bounds_def assms(3) [symmetric] Let_def pt by (simp add: ri_make_def)
qed

text \<open>The bounds grow with the argument inside one binade.\<close>

lemma unit_log_mono:
  assumes "1 \<le> m" "m \<le> m'" "m' \<le> 2" "unit_log_bounds 8 m = Inr i" "unit_log_bounds 8 m' = Inr j"
  shows "ri_lower i \<le> ri_lower j" "ri_upper i \<le> ri_upper j"
proof -
  define z z' where "z = (m - 1) / (m + 1)" and "z' = (m' - 1) / (m' + 1)"
  have z: "0 \<le> z" "z \<le> z'" "z' < 1" using assms(1-3) by (simp_all add: z_def z'_def field_simps)
  have i: "i = \<lparr>ri_lower = 2 * log_sum z, ri_upper = 2 * log_sum z + 2 * z ^ 17 / (17 * (1 - z * z))\<rparr>"
    using unit_log_value [of m z] assms by (simp add: z_def)
  have j: "j = \<lparr>ri_lower = 2 * log_sum z', ri_upper = 2 * log_sum z' + 2 * z' ^ 17 / (17 * (1 - z' * z'))\<rparr>"
    using unit_log_value [of m' z'] assms by (simp add: z'_def)
  show "ri_lower i \<le> ri_lower j" using log_sum_mono [OF z(1,2)] by (simp add: i j)
  have sq: "z * z \<le> z' * z'" using z by (intro mult_mono) simp_all
  have "z' * z' < 1" using z mult_strict_mono [of z' 1 z' 1] by simp
  moreover have "z ^ 17 \<le> z' ^ 17" using z by (intro power_mono) simp_all
  ultimately have "2 * z ^ 17 / (17 * (1 - z * z)) \<le> 2 * z' ^ 17 / (17 * (1 - z' * z'))"
    using sq z by (intro frac_le) simp_all
  then show "ri_upper i \<le> ri_upper j" using log_sum_mono [OF z(1,2)] by (simp add: i j)
qed

lemma unit_log_at:
  assumes "0 \<le> a" "3 * a < b"
  shows "\<exists>i. unit_log_bounds 8 (of_int (b + a) / of_int (b - a)) = Inr i \<and>
    ri_lower i * of_int (2027025 * b ^ 15) = of_int (2 * log_numerator a b) \<and>
    (ri_upper i - ri_lower i) * of_int (b ^ 15 * (17 * (b ^ 2 - a ^ 2))) = of_int (2 * a ^ 17)"
proof -
  define m :: rat where "m = of_int (b + a) / of_int (b - a)"
  define z where "z = (m - 1) / (m + 1)"
  define i where "i = \<lparr>ri_lower = 2 * log_sum z, ri_upper = 2 * log_sum z + 2 * z ^ 17 / (17 * (1 - z * z))\<rparr>"
  have ab: "0 < b" "(0 :: rat) < of_int (b - a)" using assms by simp_all
  have m: "1 \<le> m" "m \<le> 2" using assms ab by (simp_all add: m_def pos_le_divide_eq pos_divide_le_eq)
  have "m - 1 = of_int (2 * a) / of_int (b - a)" "m + 1 = of_int (2 * b) / of_int (b - a)"
    using ab by (simp_all add: m_def field_simps)
  then have z: "z = of_int a / of_int b" "z * of_int b = of_int a" using ab unfolding z_def by simp_all
  have "log_sum z * of_int (2027025 * b ^ 15) = of_int (log_numerator a b)"
    using log_series_at [of z "of_int b"] unfolding log_sum_def z(2) by (simp add: log_numerator_def)
  then have low: "ri_lower i * of_int (2027025 * b ^ 15) = of_int (2 * log_numerator a b)" by (simp add: i_def)
  have zz: "0 \<le> z" "z < 1" using assms ab by (simp_all add: z(1))
  then have less: "z * z < 1" using mult_strict_mono [of z 1 z 1] by simp
  have sq: "of_int (b ^ 2 - a ^ 2) = of_int b ^ 2 * (1 - z * z)" by (simp add: power2_eq_square algebra_simps flip: z(2))
  have "of_int (b ^ 15 * (17 * (b ^ 2 - a ^ 2))) = of_int b ^ 17 * 17 * (1 - z * z)" unfolding of_int_mult sq by (simp add: power_numeral_reduce)
  then have "(ri_upper i - ri_lower i) * of_int (b ^ 15 * (17 * (b ^ 2 - a ^ 2))) =
      2 * z ^ 17 / (17 * (1 - z * z)) * (of_int b ^ 17 * 17 * (1 - z * z))" by (simp add: i_def)
  also have "\<dots> = 2 * z ^ 17 * of_int b ^ 17" using less tail_product(2) [where s = "1 - z * z" and t = "z ^ 17" and B = "of_int b ^ 17"] by simp
  also have "\<dots> = of_int (2 * a ^ 17)" unfolding of_int_mult of_int_power z(2) [symmetric] by (simp add: power_mult_distrib)
  finally show ?thesis using low unit_log_value [OF m z_def] unfolding m_def i_def by blast
qed

lemma exp_positive_at:
  assumes "0 < a" "0 < b" "exp_divisor (of_int a / of_int b) 1 = d" "exp_rounding a (b * d) l u"
  shows "exp_point_bounds (of_int a / of_int b) 32 8 = ri_pow_nat (dyadic l u) d 32"
proof -
  have "(0 :: rat) \<le> of_int a / of_int b" using assms(1,2) by simp
  then show ?thesis using exp_point_at [OF assms] by (simp only: exp_point_bounds_def if_True)
qed

lemma exp_negative_at:
  assumes "0 < a" "0 < b" "exp_divisor (of_int a / of_int b) 1 = d" "exp_rounding a (b * d) l u"
  shows "exp_point_bounds (- (of_int a / of_int b)) 32 8 = ebind (ri_pow_nat (dyadic l u) d 32) (\<lambda>p. ri_reciprocal p 32)"
proof -
  have "(0 :: rat) < of_int a / of_int b" using assms(1,2) by simp
  then have "\<not> (0 :: rat) \<le> - (of_int a / of_int b)" by simp
  then show ?thesis using exp_point_at [OF assms] by (simp only: exp_point_bounds_def if_False minus_minus)
qed

text \<open>The logarithm of \<open>2\<^sup>e (b + a) / (b - a)\<close> over one denominator, with the bounds of the logarithm of two.\<close>

lemma log_point_value:
  assumes "1 \<le> m" "m < 2" "0 \<le> e" "unit_log_bounds 8 m = Inr j"
  shows "log_point_bounds (m * power_of_two e) 8 = Inr \<lparr>ri_lower = ri_lower j + of_int e * (149337754816 / 215448838605),
    ri_upper = ri_upper j + of_int e * (10154967342503 / 14650521025140)\<rparr>"
proof -
  define E :: rat where "E = of_int e"
  define v where "v = m * power_of_two e"
  have P: "0 < power_of_two e" by (rule power_of_two_pos)
  then have range: "0 < v" "power_of_two e \<le> v" "v < power_of_two (e + 1)"
    unfolding v_def power_of_two_Suc using assms(1,2) by simp_all
  have div: "v / power_of_two e = m" using P by (simp add: v_def)
  have "real_of_rat (ri_lower j) \<le> real_of_rat (ri_upper j)" using unit_log_bounds_has [OF assms(4)] unfolding ri_has_def by linarith
  then have "ri_lower j \<le> ri_upper j" by (simp only: of_rat_less_eq)
  moreover have "E * (149337754816 / 215448838605) \<le> E * (10154967342503 / 14650521025140)"
    using assms(3) by (intro mult_left_mono) (simp_all add: E_def)
  ultimately have le: "ri_lower j + E * (149337754816 / 215448838605) \<le> ri_upper j + E * (10154967342503 / 14650521025140)" by linarith
  show ?thesis
    using assms(3,4) le unfolding log_point_bounds_at [OF range(1) _ range(2,3), of 8, simplified] unit_log_two div v_def [symmetric]
    by (simp add: ri_make_def flip: E_def)
qed

lemma log_point_mono:
  assumes "1 \<le> m" "m \<le> m'" "m' < 2" "0 \<le> e" "log_point_bounds (m * power_of_two e) 8 = Inr i" "log_point_bounds (m' * power_of_two e) 8 = Inr j"
  shows "ri_lower i \<le> ri_lower j" "ri_upper i \<le> ri_upper j"
proof -
  obtain i' j' where ij: "unit_log_bounds 8 m = Inr i'" "unit_log_bounds 8 m' = Inr j'"
    using unit_log_value [of m] unit_log_value [of m'] assms(1-3) by force
  have "ri_lower i' \<le> ri_lower j'" "ri_upper i' \<le> ri_upper j'"
    using unit_log_mono [OF assms(1,2) _ ij] assms(3) by simp_all
  moreover have "1 \<le> m'" "m < 2" using assms(1-3) by simp_all
  ultimately show "ri_lower i \<le> ri_lower j" "ri_upper i \<le> ri_upper j"
    using log_point_value [OF assms(1) \<open>m < 2\<close> assms(4) ij(1)] log_point_value [OF \<open>1 \<le> m'\<close> assms(3,4) ij(2)]
    unfolding assms(5,6) sum.inject by (simp_all only: rational_interval.simps add_right_mono)
qed

lemma log_point_at:
  assumes "0 \<le> a" "3 * a < b" "0 \<le> e" "v = of_int (b + a) / of_int (b - a) * power_of_two e"
  shows "\<exists>i. log_point_bounds v 8 = Inr i \<and> ri_lower i * of_int (log_lower_den b) = of_int (log_lower_num a b e) \<and>
    ri_upper i * of_int (log_upper_den a b) = of_int (log_upper_num a b e)"
proof -
  define m :: rat where "m = of_int (b + a) / of_int (b - a)"
  have ab: "0 < b" "(0 :: rat) < of_int (b - a)" using assms(1,2) by simp_all
  have m: "1 \<le> m" "m < 2" using assms(1,2) ab by (simp_all add: m_def pos_le_divide_eq pos_divide_less_eq)
  have v: "v = m * power_of_two e" by (simp add: assms(4) m_def)
  obtain j where j: "unit_log_bounds 8 m = Inr j" "ri_lower j * of_int (2027025 * b ^ 15) = of_int (2 * log_numerator a b)"
    "(ri_upper j - ri_lower j) * of_int (b ^ 15 * (17 * (b ^ 2 - a ^ 2))) = of_int (2 * a ^ 17)"
    using unit_log_at [OF assms(1,2)] unfolding m_def by blast
  define E :: rat where "E = of_int e"
  define i where "i = \<lparr>ri_lower = ri_lower j + E * (149337754816 / 215448838605), ri_upper = ri_upper j + E * (10154967342503 / 14650521025140)\<rparr>"
  have "log_point_bounds v 8 = Inr i" unfolding v i_def E_def by (rule log_point_value [OF m assms(3) j(1)])
  moreover have "ri_lower i * of_int (log_lower_den b) = of_int (log_lower_num a b e)"
  proof -
    have "ri_lower i * of_int (log_lower_den b) = ri_lower j * of_int (2027025 * b ^ 15) * 215448838605 + E * 149337754816 * of_int (2027025 * b ^ 15)"
      by (simp add: i_def log_lower_den_def algebra_simps)
    then show ?thesis unfolding j(2) by (simp add: log_lower_num_def E_def)
  qed
  moreover have "ri_upper i * of_int (log_upper_den a b) = of_int (log_upper_num a b e)"
  proof -
    define w :: rat where "w = of_int (17 * (b ^ 2 - a ^ 2))"
    define B :: rat where "B = of_int (b ^ 15)"
    have j2: "ri_lower j * (2027025 * B) = of_int (2 * log_numerator a b)" using j(2) by (simp add: B_def)
    have j3: "(ri_upper j - ri_lower j) * (B * w) = of_int (2 * a ^ 17)" using j(3) by (simp add: B_def w_def)
    have den: "of_int (log_upper_den a b) = 2027025 * B * w * (14650521025140 :: rat)" by (simp add: log_upper_den_def B_def w_def)
    have "ri_upper i * of_int (log_upper_den a b) =
        (ri_lower j * (2027025 * B) * w + (ri_upper j - ri_lower j) * (B * w) * 2027025) * 14650521025140 + E * 10154967342503 * (2027025 * B * w)"
      unfolding den by (simp add: i_def algebra_simps)
    then show ?thesis unfolding j2 j3 by (simp add: log_upper_num_def E_def B_def w_def)
  qed
  ultimately show ?thesis by blast
qed

definition log_rounding :: "int \<Rightarrow> int \<Rightarrow> int \<Rightarrow> int \<Rightarrow> int \<Rightarrow> int \<Rightarrow> int \<Rightarrow> int \<Rightarrow> bool" where
  "log_rounding a b e c d f l u \<longleftrightarrow>
     l * log_lower_den b \<le> log_lower_num a b e * 2 ^ 32 \<and> log_lower_num a b e * 2 ^ 32 < (l + 1) * log_lower_den b \<and>
     (u - 1) * log_upper_den c d < log_upper_num c d f * 2 ^ 32 \<and> log_upper_num c d f * 2 ^ 32 \<le> u * log_upper_den c d"

lemma log_interval_at:
  assumes "0 \<le> a" "3 * a < b" "0 \<le> e" "x = of_int (b + a) / of_int (b - a) * power_of_two e"
    "0 \<le> c" "3 * c < d" "0 \<le> f" "y = of_int (d + c) / of_int (d - c) * power_of_two f" "x \<le> y" "log_rounding a b e c d f l u"
  shows "log_interval \<lparr>ri_lower = x, ri_upper = y\<rparr> 32 8 = Inr (dyadic l u)"
proof -
  obtain i where i: "log_point_bounds x 8 = Inr i" "ri_lower i * of_int (log_lower_den b) = of_int (log_lower_num a b e)"
    using log_point_at [OF assms(1-4)] by blast
  obtain j where j: "log_point_bounds y 8 = Inr j" "ri_upper j * of_int (log_upper_den c d) = of_int (log_upper_num c d f)"
    using log_point_at [OF assms(5-8)] by blast
  have "c * c < d * d" using assms(5,6) by (intro mult_strict_mono) simp_all
  then have pos: "0 < log_lower_den b" "0 < log_upper_den c d"
    using assms(1,2,5,6) by (simp_all add: log_lower_den_def log_upper_den_def power2_eq_square zero_less_mult_iff)
  have x: "0 < x" using log_point_bounds_has [OF i(1)] by simp
  have "ln (real_of_rat x) \<le> ln (real_of_rat y)" using x assms(9) by (simp add: of_rat_less_eq)
  then have "real_of_rat (ri_lower i) \<le> real_of_rat (ri_upper j)"
    using log_point_bounds_has [OF i(1)] log_point_bounds_has [OF j(1)] unfolding ri_has_def by linarith
  then have le: "ri_lower i \<le> ri_upper j" by (simp only: of_rat_less_eq)
  have "ri_outward \<lparr>ri_lower = ri_lower i, ri_upper = ri_upper j\<rparr> 32 = Inr (dyadic l u)"
    using assms(10) le unfolding log_rounding_def by (intro outward_at) (simp_all only: scaled [OF i(2) pos(1)] scaled [OF j(2) pos(2)])
  with x i(1) j(1) le show ?thesis by (simp add: log_interval_def validate_precision_def ri_make_def)
qed

text \<open>An argument between two short fractions has its bounds between theirs.\<close>

definition log_arg :: "int \<Rightarrow> int \<Rightarrow> int \<Rightarrow> rat" where
  "log_arg a b e = of_int (b + a) / of_int (b - a) * power_of_two e"

lemma log_point_between:
  assumes "0 \<le> a" "3 * a < b" "0 \<le> c" "3 * c < d" "0 \<le> e" "log_arg a b e \<le> x" "x \<le> log_arg c d e"
  shows "\<exists>(h :: rational_interval) i (j :: rational_interval). log_point_bounds x 8 = Inr i \<and> ri_lower h \<le> ri_lower i \<and> ri_upper h \<le> ri_upper i \<and> ri_lower i \<le> ri_lower j \<and> ri_upper i \<le> ri_upper j \<and>
    ri_lower h * of_int (log_lower_den b) = of_int (log_lower_num a b e) \<and> ri_upper h * of_int (log_upper_den a b) = of_int (log_upper_num a b e) \<and>
    ri_lower j * of_int (log_lower_den d) = of_int (log_lower_num c d e) \<and> ri_upper j * of_int (log_upper_den c d) = of_int (log_upper_num c d e)"
proof -
  define m n :: rat where "m = of_int (b + a) / of_int (b - a)" and "n = of_int (d + c) / of_int (d - c)"
  define k where "k = x / power_of_two e"
  have P: "0 < power_of_two e" by (rule power_of_two_pos)
  then have x: "x = k * power_of_two e" by (simp add: k_def)
  have "(0 :: rat) < of_int (b - a)" "(0 :: rat) < of_int (d - c)" using assms(1-4) by simp_all
  then have mn: "1 \<le> m" "n < 2" using assms(1-4) by (simp_all add: m_def n_def pos_le_divide_eq pos_divide_less_eq)
  have k: "m \<le> k" "k \<le> n" using assms(6,7) P unfolding log_arg_def m_def [symmetric] n_def [symmetric] x by simp_all
  then have bounds: "1 \<le> k" "k < 2" "k \<le> 2" using mn by simp_all
  obtain h where h: "log_point_bounds (m * power_of_two e) 8 = Inr h" "ri_lower h * of_int (log_lower_den b) = of_int (log_lower_num a b e)"
    "ri_upper h * of_int (log_upper_den a b) = of_int (log_upper_num a b e)"
    using log_point_at [OF assms(1,2,5) refl] unfolding m_def by blast
  obtain j where j: "log_point_bounds (n * power_of_two e) 8 = Inr j" "ri_lower j * of_int (log_lower_den d) = of_int (log_lower_num c d e)"
    "ri_upper j * of_int (log_upper_den c d) = of_int (log_upper_num c d e)"
    using log_point_at [OF assms(3,4,5) refl] unfolding n_def by blast
  obtain i where i: "log_point_bounds x 8 = Inr i"
    using log_point_value [OF bounds(1,2) assms(5) unit_log_value [OF bounds(1,3) refl]] unfolding x by blast
  show ?thesis
    by (intro exI conjI) (rule i log_point_mono [OF mn(1) k(1) bounds(2) assms(5) h(1) i [unfolded x]]
      log_point_mono [OF bounds(1) k(2) mn(2) assms(5) i [unfolded x] j(1)] h j)+
qed

lemma log_interval_between:
  assumes "0 \<le> a" "3 * a < b" "0 \<le> a'" "3 * a' < b'" "0 \<le> e" "log_arg a b e \<le> x" "x \<le> log_arg a' b' e"
    "0 \<le> c" "3 * c < d" "0 \<le> c'" "3 * c' < d'" "log_arg c d e \<le> y" "y \<le> log_arg c' d' e" "x \<le> y"
    "l * log_lower_den b \<le> log_lower_num a b e * 2 ^ 32" "log_lower_num a' b' e * 2 ^ 32 < (l + 1) * log_lower_den b'"
    "(u - 1) * log_upper_den c d < log_upper_num c d e * 2 ^ 32" "log_upper_num c' d' e * 2 ^ 32 \<le> u * log_upper_den c' d'"
  shows "log_interval \<lparr>ri_lower = x, ri_upper = y\<rparr> 32 8 = Inr (dyadic l u)"
proof -
  obtain h i j :: rational_interval where i: "log_point_bounds x 8 = Inr i" "ri_lower h \<le> ri_lower i" "ri_lower i \<le> ri_lower j"
    "ri_lower h * of_int (log_lower_den b) = of_int (log_lower_num a b e)" "ri_lower j * of_int (log_lower_den b') = of_int (log_lower_num a' b' e)"
    using log_point_between [OF assms(1-7)] by blast
  obtain p q r :: rational_interval where q: "log_point_bounds y 8 = Inr q" "ri_upper p \<le> ri_upper q" "ri_upper q \<le> ri_upper r"
    "ri_upper p * of_int (log_upper_den c d) = of_int (log_upper_num c d e)" "ri_upper r * of_int (log_upper_den c' d') = of_int (log_upper_num c' d' e)"
    using log_point_between [OF assms(8-11,5,12,13)] by blast
  have "c * c < d * d" "c' * c' < d' * d'" using assms(8-11) by (auto intro!: mult_strict_mono)
  then have pos: "0 < log_lower_den b" "0 < log_lower_den b'" "0 < log_upper_den c d" "0 < log_upper_den c' d'"
    using assms(1-4,8-11) by (simp_all add: log_lower_den_def log_upper_den_def power2_eq_square zero_less_mult_iff)
  have x: "0 < x" using log_point_bounds_has [OF i(1)] by simp
  have "ln (real_of_rat x) \<le> ln (real_of_rat y)" using x assms(14) by (simp add: of_rat_less_eq)
  then have "real_of_rat (ri_lower i) \<le> real_of_rat (ri_upper q)"
    using log_point_bounds_has [OF i(1)] log_point_bounds_has [OF q(1)] unfolding ri_has_def by linarith
  then have le: "ri_lower i \<le> ri_upper q" by (simp only: of_rat_less_eq)
  have "of_int l \<le> ri_lower h * 2 ^ 32" "ri_lower j * 2 ^ 32 < of_int (l + 1)" "of_int (u - 1) < ri_upper p * 2 ^ 32" "ri_upper r * 2 ^ 32 \<le> of_int u"
    using assms(15-18) by (simp_all only: scaled [OF i(4) pos(1)] scaled [OF i(5) pos(2)] scaled [OF q(4) pos(3)] scaled [OF q(5) pos(4)])
  then have "ri_outward \<lparr>ri_lower = ri_lower i, ri_upper = ri_upper q\<rparr> 32 = Inr (dyadic l u)"
    using i(2,3) q(2,3) le by (intro outward_at) simp_all
  with x i(1) q(1) le show ?thesis by (simp add: log_interval_def validate_precision_def ri_make_def)
qed

section \<open>A row\<close>

text \<open>The values of one row, each by the lemmas above or by arithmetic on numerals.\<close>

lemmas weak_congs = let_weak_cong ebind_weak_cong prod.case_cong_weak

lemmas interval_check = dyadic_def ri_point_def ri_mul_def ri_add_def ri_sub_def ri_neg_def ri_div_def ri_reciprocal_def ri_outward_def
  ri_round_down_def ri_round_up_def ri_make_def ri_exact_def Let_def min_def max_def push_bit_eq_mult rat_floor validate_precision_def

lemmas exp_check = exp_divisor.simps exp_rounding_def exp_numerator_def ri_pow_nat_def ri_pow_loop.simps interval_check

lemmas log_check = log_rounding_def log_lower_num_def log_lower_den_def log_upper_num_def log_upper_den_def log_numerator_def
  power_of_two_def push_bit_eq_mult dyadic_def

lemmas cube_root_check = integer_cube_root_interval_def integer_cube_root_floor_def bit_length.simps cube_root_loop.simps

lemma row_exp_1:
  "exp_point_bounds (- (2886081 / 5000000)) 32 8 = Inr (dyadic 2411448826 2411448834)"
  using exp_negative_at [of 2886081 5000000 8 4616311298 4616311299] by (simp add: exp_check cong: weak_congs)

lemma row_exp_2:
  "exp_point_bounds (- (577215657 / 1000000000)) 32 8 = Inr (dyadic 2411450134 2411450142)"
  using exp_negative_at [of 577215657 1000000000 8 4616310985 4616310986] by (simp add: exp_check cong: weak_congs)

lemma row_exp_3:
  "exp_point_bounds (- (396536509 / 4294967296)) 32 8 = Inr (dyadic 3916185487 3916185489)"
  using exp_negative_at [of 396536509 4294967296 1 4710385687 4710385688] by (simp add: exp_check cong: weak_congs)

lemma row_exp_4:
  "exp_point_bounds (- (99134073 / 1073741824)) 32 8 = Inr (dyadic 3916185685 3916185687)"
  using exp_negative_at [of 99134073 1073741824 1 4710385449 4710385450] by (simp add: exp_check cong: weak_congs)

lemma row_exp_5:
  "exp_point_bounds (531766175 / 4294967296) 32 8 = Inr (dyadic 4861054558 4861054559)"
  using exp_positive_at [of 531766175 4294967296 1 4861054558 4861054559] by (simp add: exp_check cong: weak_congs)

lemma row_exp_6:
  "exp_point_bounds (267658353 / 2147483648) 32 8 = Inr (dyadic 4865074719 4865074720)"
  using exp_positive_at [of 267658353 2147483648 1 4865074719 4865074720] by (simp add: exp_check cong: weak_congs)

lemma row_exp_7:
  "exp_point_bounds (11193209215 / 4294967296) 32 8 = Inr (dyadic 58181418830 58181419493)"
  using exp_positive_at [of 11193209215 4294967296 32 4659393347 4659393348] by (simp add: exp_check cong: weak_congs)

lemma row_exp_8:
  "exp_point_bounds (11193215347 / 4294967296) 32 8 = Inr (dyadic 58181501929 58181502585)"
  using exp_positive_at [of 11193215347 4294967296 32 4659393555 4659393556] by (simp add: exp_check cong: weak_congs)

lemma row_exp_9:
  "exp_point_bounds (5552566109 / 2147483648) 32 8 = Inr (dyadic 57000441608 57000442258)"
  using exp_positive_at [of 5552566109 2147483648 32 4656408357 4656408358] by (simp add: exp_check cong: weak_congs)

lemma row_exp_10:
  "exp_point_bounds (5552569151 / 2147483648) 32 8 = Inr (dyadic 57000522323 57000522972)"
  using exp_positive_at [of 5552569151 2147483648 32 4656408563 4656408564] by (simp add: exp_check cong: weak_congs)

lemma row_exp_11:
  "exp_point_bounds (135157513595 / 4294967296) 32 8 = Inr (dyadic 199384210361849655169584 199384227720494066556407)"
  using exp_positive_at [of 135157513595 4294967296 256 4856747540 4856747541] by (simp add: exp_check cong: weak_congs)

lemma row_exp_12:
  "exp_point_bounds (33791760179 / 1073741824) 32 8 = Inr (dyadic 199826974107578428490438 199826994835678098153360)"
  using exp_positive_at [of 33791760179 1073741824 256 4856789623 4856789624] by (simp add: exp_check cong: weak_congs)

lemma row_log_q:
  "log_interval (ri_point 109561) 32 8 = Inr (dyadic 49839817269 49839817341)"
  unfolding ri_point_def by (rule log_interval_at [of 44025 175097 16 _ 44025 175097 16 _ 49839817269 49839817341]) (simp_all add: log_check)

lemma row_log_p:
  "log_interval (ri_point 331) 32 8 = Inr (dyadic 24919908635 24919908671)"
  unfolding ri_point_def by (rule log_interval_at [of 75 587 8 _ 75 587 8 _ 24919908635 24919908671]) (simp_all add: log_check)

lemma row_log_h:
  "log_interval (ri_point 100000) 32 8 = Inr (dyadic 49447638283 49447638355)"
  unfolding ri_point_def by (rule log_interval_at [of 1077 5173 16 _ 1077 5173 16 _ 49447638283 49447638355]) (simp_all add: log_check)

lemma row_log_b_below:
  "50371583443 * log_lower_den 93139 \<le> log_lower_num 28730 93139 16 * 2 ^ 32"
  by (simp add: log_check)

lemma row_log_b_under:
  "log_lower_num 3850589 12483119 16 * 2 ^ 32 < (50371583443 + 1) * log_lower_den 12483119"
  by (simp add: log_check)

lemma row_log_b_over:
  "(50375134047 - 1) * log_upper_den 62703 203029 < log_upper_num 62703 203029 16 * 2 ^ 32"
  by (simp add: log_check)

lemma row_log_b_above:
  "log_upper_num 63346 205111 16 * 2 ^ 32 \<le> 50375134047 * log_upper_den 63346 205111"
  by (simp add: log_check)

lemma row_log_b_order:
  "log_arg 28730 93139 16 \<le> 532581998429038 / 2 ^ 32"
  "532581998429038 / 2 ^ 32 \<le> log_arg 3850589 12483119 16"
  "log_arg 62703 203029 16 \<le> 533022451397920 / 2 ^ 32"
  "533022451397920 / 2 ^ 32 \<le> log_arg 63346 205111 16"
  by (simp_all add: log_arg_def power_of_two_def push_bit_eq_mult)

lemma row_log_b:
  "log_interval (dyadic 532581998429038 533022451397920) 32 8 = Inr (dyadic 50371583443 50375134047)"
  unfolding dyadic_def [of 532581998429038] of_int_numeral
  by (rule log_interval_between [OF _ _ _ _ _ row_log_b_order(1,2) _ _ _ _ row_log_b_order(3,4) _ row_log_b_below row_log_b_under row_log_b_over row_log_b_above]) simp_all

lemma row_log_1:
  "log_interval (ri_point 1) 32 8 = Inr (dyadic 0 0)"
  unfolding ri_point_def by (rule log_interval_at [of 0 1 0 _ 0 1 0 _ 0 0]) (simp_all add: log_check)

lemma row_log_2:
  "log_interval (ri_point 2) 32 8 = Inr (dyadic 2977044467 2977044472)"
  unfolding ri_point_def by (rule log_interval_at [of 0 1 1 _ 0 1 1 _ 2977044467 2977044472]) (simp_all add: log_check)

lemma row_log_3:
  "log_interval (ri_point 3) 32 8 = Inr (dyadic 4718503846 4718503851)"
  unfolding ri_point_def by (rule log_interval_at [of 1 5 1 _ 1 5 1 _ 4718503846 4718503851]) (simp_all add: log_check)

lemma row_log_4:
  "log_interval (ri_point 4) 32 8 = Inr (dyadic 5954088934 5954088944)"
  unfolding ri_point_def by (rule log_interval_at [of 0 1 2 _ 0 1 2 _ 5954088934 5954088944]) (simp_all add: log_check)

lemma row_log_5:
  "log_interval (ri_point 5) 32 8 = Inr (dyadic 6912483190 6912483199)"
  unfolding ri_point_def by (rule log_interval_at [of 1 9 2 _ 1 9 2 _ 6912483190 6912483199]) (simp_all add: log_check)

lemma row_factors:
  "distinct_prime_factors 109561 = Inr [331]"
  "totient_from_factors 109561 [331] = 109230"
  by (simp_all add: distinct_prime_factors_def factor_loop.simps divide_out.simps totient_from_factors_def Let_def cong: weak_congs)

lemma row_log_sum:
  "log_prime_loop 32 8 (ri_point 0) [331] = Inr (dyadic 75286733 75286734)"
  by (simp add: row_log_p [unfolded ri_point_def] interval_check cong: weak_congs)

lemma row_exp_gamma:
  "exp_interval \<lparr>ri_lower = - (5772162 / 10 ^ 7), ri_upper = - (577215657 / 10 ^ 9)\<rparr> 32 8 = Inr (dyadic 2411448826 2411450142)"
  by (simp add: exp_interval_def row_exp_1 row_exp_2 interval_check cong: weak_congs)

lemma row_tau:
  "directed_tau 32 (dyadic 2411448826 2411450142) = Inr (dyadic 964579530 964580057)"
  by (simp add: directed_tau_def interval_check cong: weak_congs)

lemma row_c_sigma:
  "directed_c_sigma 32 8 (dyadic 2411448826 2411450142) = Inr (dyadic 3916185487 3916185687)"
  by (simp add: directed_c_sigma_def exp_interval_def row_exp_3 row_exp_4 interval_check cong: weak_congs)

lemma row_c2:
  "directed_c2 32 8 \<lparr>ri_lower = 13325822 / 10 ^ 7, ri_upper = 13339 / 10 ^ 4\<rparr> = Inr (dyadic 4861054558 4865074720)"
  by (simp add: directed_c2_def directed_omega_def exp_interval_def row_exp_5 row_exp_6 interval_check cong: weak_congs)

lemma row_kappa:
  "directed_kappa 32 (dyadic 49839817269 49839817341) (dyadic 75286733 75286734) \<lparr>ri_lower = 13325822 / 10 ^ 7, ri_upper = 13339 / 10 ^ 4\<rparr> = Inr (dyadic 18658741994 18664401943)"
  by (simp add: directed_kappa_def directed_omega_def interval_check cong: weak_congs)

lemma row_f1:
  "f1_loop 32 (ri_point 1) [331] = Inr (dyadic 4382528183 4382528187)"
  by (simp add: f1_factor_def cube_root_check interval_check cong: weak_congs)

lemma row_lambda:
  "directed_lambda 32 109561 109230 (dyadic 4382528183 4382528187) (dyadic 18658741994 18664401943) = Inr (dyadic 23222662646 23243802322)"
  by (simp add: directed_lambda_def ri_pow_nat_def ri_pow_loop.simps interval_check cong: weak_congs)

lemma row_pow_q_product:
  "ri_mul (dyadic 49839817269 49839817341) (dyadic 964579530 964580057) 32 = Inr (dyadic 11193209215 11193215347)"
  by (simp add: interval_check cong: weak_congs)

lemma row_pow_q_exp:
  "exp_interval (dyadic 11193209215 11193215347) 32 8 = Inr (dyadic 58181418830 58181502585)"
  by (simp add: exp_interval_def row_exp_7 row_exp_8 interval_check cong: weak_congs)

lemma row_pow_q:
  "rpow_interval (ri_point 109561) (dyadic 964579530 964580057) 32 8 = Inr (dyadic 58181418830 58181502585)"
  by (simp only: rpow_interval_def row_log_q row_pow_q_product row_pow_q_exp ebind.simps)

lemma row_pow_h_product:
  "ri_mul (dyadic 49447638283 49447638355) (dyadic 964579530 964580057) 32 = Inr (dyadic 11105132218 11105138302)"
  by (simp add: interval_check cong: weak_congs)

lemma row_pow_h_exp:
  "exp_interval (dyadic 11105132218 11105138302) 32 8 = Inr (dyadic 57000441608 57000522972)"
  by (simp add: exp_interval_def row_exp_9 row_exp_10 interval_check cong: weak_congs)

lemma row_pow_h:
  "rpow_interval (ri_point 100000) (dyadic 964579530 964580057) 32 8 = Inr (dyadic 57000441608 57000522972)"
  by (simp only: rpow_interval_def row_log_h row_pow_h_product row_pow_h_exp ebind.simps)

lemma row_pow_b_product:
  "ri_mul (dyadic 50371583443 50375134047) (dyadic 11524297253 11524297262) 32 = Inr (dyadic 135157513595 135167040716)"
  by (simp add: interval_check cong: weak_congs)

lemma row_pow_b_exp:
  "exp_interval (dyadic 135157513595 135167040716) 32 8 = Inr (dyadic 199384210361849655169584 199826994835678098153360)"
  by (simp add: exp_interval_def row_exp_11 row_exp_12 interval_check cong: weak_congs)

lemma row_pow_b:
  "rpow_interval (dyadic 532581998429038 533022451397920) (dyadic 11524297253 11524297262) 32 8 = Inr (dyadic 199384210361849655169584 199826994835678098153360)"
  by (simp only: rpow_interval_def row_log_b row_pow_b_product row_pow_b_exp ebind.simps)

lemma row_a_value:
  "ri_mul (dyadic 3916185487 3916185687) (dyadic 58181418830 58181502585) 32 = Inr (dyadic 53050282419 53050361498)"
  by (simp add: interval_check cong: weak_congs)

lemma row_varpi_zero:
  "directed_varpi_zero 32 8 (dyadic 49839817269 49839817341) (dyadic 964579530 964580057) (dyadic 53050282419 53050361498) = Inr (ri_point 0)"
  by (simp add: directed_varpi_zero_def interval_check cong: weak_congs)

lemma row_varpi_parts:
  "ri_mul (dyadic 3916185487 3916185687) (dyadic 57000441608 57000522972) 32 = Inr (dyadic 51973457955 51973534798)"
  "ri_sub (dyadic 51973457955 51973534798) (dyadic 49839817269 49839817341) 32 = Inr (dyadic 2133640614 2133717529)"
  "ri_sub (ri_point 1) (ri_point directed_omega) 32 = Inr (dyadic 1600682771 1600682772)"
  "ri_reciprocal (dyadic 1600682771 1600682772) 32 = Inr (dyadic 11524297253 11524297262)"
  "ri_mul (dyadic 4861054558 4865074720) (ri_point 109561) 32 = Inr (dyadic 532581998429038 533022451397920)"
  "ri_div (ri_point 100000) (dyadic 199384210361849655169584 199826994835678098153360) 32 = Inr (dyadic 0 100000)"
  "ri_max [ri_point 0, (dyadic 2133640614 2133717529), (dyadic 0 100000)] = Inr (dyadic 2133640614 2133717529)"
  "ri_outward (dyadic 2133640614 2133717529) 32 = Inr (dyadic 2133640614 2133717529)"
  by (simp_all add: ri_max_def directed_omega_def interval_check cong: weak_congs)

lemma row_varpi:
  "directed_varpi 32 8 109561 (dyadic 49839817269 49839817341) (dyadic 964579530 964580057) (dyadic 3916185487 3916185687) (dyadic 4861054558 4865074720) = Inr (dyadic 2133640614 2133717529)"
  by (simp only: directed_varpi_def of_int_numeral row_pow_q row_pow_h row_pow_b row_a_value row_varpi_zero row_varpi_parts ebind.simps)

definition row_parameters :: directed_parameters where
  "row_parameters = \<lparr>dp_q = 109561, dp_prime_factors = [331], dp_phi_q = 109230, dp_log_q = dyadic 49839817269 49839817341,
     dp_log_prime_sum = dyadic 75286733 75286734, dp_euler_gamma = \<lparr>ri_lower = fst EULER_GAMMA_BOUNDS, ri_upper = snd EULER_GAMMA_BOUNDS\<rparr>,
     dp_ramare_ce = \<lparr>ri_lower = fst RAMARE_CE_BOUNDS, ri_upper = snd RAMARE_CE_BOUNDS\<rparr>, dp_tau = dyadic 964579530 964580057,
     dp_c_sigma = dyadic 3916185487 3916185687, dp_c2 = dyadic 4861054558 4865074720, dp_kappa = dyadic 18658741994 18664401943,
     dp_f1 = dyadic 4382528183 4382528187, dp_varpi = dyadic 2133640614 2133717529, dp_lambda = dyadic 23222662646 23243802322,
     dp_bits = 32, dp_log_terms = 8\<rparr>"

lemma row_margin_1:
  "margin_interval_from_exact_g row_parameters 1 (1) = Inr (dyadic 19356474665 19356474714)"
  by (simp add: margin_interval_from_exact_g_def row_parameters_def row_log_1 [unfolded ri_point_def] directed_omega_def cube_root_check interval_check cong: weak_congs)

lemma row_margin_2:
  "margin_interval_from_exact_g row_parameters 2 (2) = Inr (dyadic 18181752508 18181752563)"
  by (simp add: margin_interval_from_exact_g_def row_parameters_def row_log_2 [unfolded ri_point_def] directed_omega_def cube_root_check interval_check cong: weak_congs)

lemma row_margin_3:
  "margin_interval_from_exact_g row_parameters 3 (5 / 2) = Inr (dyadic 17844491016 17844491070)"
  by (simp add: margin_interval_from_exact_g_def row_parameters_def row_log_3 [unfolded ri_point_def] directed_omega_def cube_root_check interval_check cong: weak_congs)

lemma row_margin_4:
  "margin_interval_from_exact_g row_parameters 4 (5 / 2) = Inr (dyadic 19123116297 19123116355)"
  by (simp add: margin_interval_from_exact_g_def row_parameters_def row_log_4 [unfolded ri_point_def] directed_omega_def cube_root_check interval_check cong: weak_congs)

lemma row_margin_5:
  "margin_interval_from_exact_g row_parameters 5 (11 / 4) = Inr (dyadic 19038187252 19038187310)"
  by (simp add: margin_interval_from_exact_g_def row_parameters_def row_log_5 [unfolded ri_point_def] directed_omega_def cube_root_check interval_check cong: weak_congs)

lemma row_bounds:
  "ri_make (fst EULER_GAMMA_BOUNDS) (snd EULER_GAMMA_BOUNDS) = Inr \<lparr>ri_lower = fst EULER_GAMMA_BOUNDS, ri_upper = snd EULER_GAMMA_BOUNDS\<rparr>"
  "ri_make (fst RAMARE_CE_BOUNDS) (snd RAMARE_CE_BOUNDS) = Inr \<lparr>ri_lower = fst RAMARE_CE_BOUNDS, ri_upper = snd RAMARE_CE_BOUNDS\<rparr>"
  "ri_neg \<lparr>ri_lower = fst EULER_GAMMA_BOUNDS, ri_upper = snd EULER_GAMMA_BOUNDS\<rparr> =
    Inr \<lparr>ri_lower = - (5772162 / 10 ^ 7), ri_upper = - (577215657 / 10 ^ 9)\<rparr>"
  "\<lparr>ri_lower = fst RAMARE_CE_BOUNDS, ri_upper = snd RAMARE_CE_BOUNDS\<rparr> = \<lparr>ri_lower = 13325822 / 10 ^ 7, ri_upper = 13339 / 10 ^ 4\<rparr>"
  by (simp_all add: ri_make_def ri_neg_def EULER_GAMMA_BOUNDS_def RAMARE_CE_BOUNDS_def)

lemma row_scheduled: "prop1224_q_is_admissible 109561 = Inr True" "prop1224_next_q 109561 = Inr 109562" "validate_precision 32 8 = Inr ()"
  by (simp_all add: prop1224_next_q_def prop1224_q_is_admissible_def fc_int_def PROP1224_Q_SPLIT_def validate_precision_def)

lemma row_parameters_at: "prop1224_directed_parameters 109561 32 8 = Inr row_parameters"
  unfolding prop1224_directed_parameters_def row_scheduled row_factors ebind.simps row_bounds(1,2) Let_def of_int_numeral row_log_q row_log_sum
    row_bounds(3) row_exp_gamma row_tau row_c_sigma
  by (simp only: row_bounds(4) row_c2 row_kappa row_f1 row_lambda row_varpi ebind.simps row_parameters_def not_True_eq_False if_False)

lemma row_sums: "ramare_g_prefixes 109561 [1, 2, 3, 4, 5] = Inr [(1, 1), (2, 2), (3, 5 / 2), (4, 5 / 2), (5, 11 / 4)]"
proof -
  have "mobius_linear 5 = Inr [0, 1, - 1, - 1, 0, - 1]" "totients_through 5 = Inr [0, 1, 1, 2, 2, 4]" "sort (remdups [1, 2, 3, 4, 5]) = [1, 2, 3, 4, 5 :: int]"
    by code_simp+
  moreover have "foldl (ramare_step [0, 1, - 1, - 1, 0, - 1] [0, 1, 1, 2, 2, 4] 109561 [1, 2, 3, 4, 5]) (0, []) [1..<6] =
      (11 / 4, [(1, 1), (2, 2), (3, 5 / 2), (4, 5 / 2), (5, 11 / 4)])"
    by code_simp
  ultimately show ?thesis by (simp add: ramare_g_prefixes_def fc_int_def MAX_HASHED_ROWS_def del: upt_rec_numeral)
qed

definition row_pair :: "int \<Rightarrow> int \<Rightarrow> int \<Rightarrow> int \<Rightarrow> int \<Rightarrow> prop1224_pair" where
  "row_pair k n d m e = \<lparr>qp_k = k, qp_g_numerator = n, qp_g_denominator = d, qp_margin_numerator = m, qp_margin_denominator = e\<rparr>"

definition row_pairs :: "prop1224_pair list" where
  "row_pairs = [row_pair 1 1 1 19356474665 4294967296, row_pair 2 2 1 4545438127 1073741824, row_pair 3 5 2 2230561377 536870912,
     row_pair 4 5 2 19123116297 4294967296, row_pair 5 11 4 4759546813 1073741824]"

definition row_window :: "prop1224_pair list \<Rightarrow> prop1224_window" where
  "row_window ps = \<lparr>qw_q = 109561, qw_varpi_lower_numerator = 1066820307, qw_varpi_lower_denominator = 2147483648,
     qw_varpi_upper_numerator = 2133717529, qw_varpi_upper_denominator = 4294967296,
     qw_lambda_lower_numerator = 11611331323, qw_lambda_lower_denominator = 2147483648,
     qw_lambda_upper_numerator = 11621901161, qw_lambda_upper_denominator = 2147483648, qw_pairs = ps\<rparr>"

lemma row_endpoints:
  "ri_lower (dp_varpi row_parameters) = 1066820307 / 2147483648" "ri_upper (dp_varpi row_parameters) = 2133717529 / 4294967296"
  "ri_lower (dp_lambda row_parameters) = 11611331323 / 2147483648" "ri_upper (dp_lambda row_parameters) = 11621901161 / 2147483648"
  "ri_lower (dyadic 19356474665 19356474714) = 19356474665 / 4294967296" "ri_lower (dyadic 18181752508 18181752563) = 4545438127 / 1073741824"
  "ri_lower (dyadic 17844491016 17844491070) = 2230561377 / 536870912" "ri_lower (dyadic 19123116297 19123116355) = 19123116297 / 4294967296"
  "ri_lower (dyadic 19038187252 19038187310) = 4759546813 / 1073741824"
  by (simp_all add: row_parameters_def dyadic_def)

lemma row_quotients:
  "quotient_of (1066820307 / 2147483648) = (1066820307, 2147483648)" "quotient_of (2133717529 / 4294967296) = (2133717529, 4294967296)"
  "quotient_of (11611331323 / 2147483648) = (11611331323, 2147483648)" "quotient_of (11621901161 / 2147483648) = (11621901161, 2147483648)"
  "quotient_of (19356474665 / 4294967296) = (19356474665, 4294967296)" "quotient_of (4545438127 / 1073741824) = (4545438127, 1073741824)"
  "quotient_of (2230561377 / 536870912) = (2230561377, 536870912)" "quotient_of (19123116297 / 4294967296) = (19123116297, 4294967296)"
  "quotient_of (4759546813 / 1073741824) = (4759546813, 1073741824)"
  "quotient_of 1 = (1, 1)" "quotient_of 2 = (2, 1)" "quotient_of (5 / 2) = (5, 2)" "quotient_of (11 / 4) = (11, 4)"
  by code_simp+

lemma row_bounds_of_window:
  "window_bounds (row_window ps) = Inr (1066820307 / 2147483648, 2133717529 / 4294967296, 11611331323 / 2147483648, 11621901161 / 2147483648)"
  by (simp add: window_bounds_def row_window_def fc_fraction_def fc_int_def row_quotients)

lemma row_range: "\<lceil>1066820307 / 2147483648 :: rat\<rceil> = 1" "\<lceil>11621901161 / 2147483648 :: rat\<rceil> = 6" "[1..5 :: int] = [1, 2, 3, 4, 5]"
  by code_simp+

lemma row_ks: "prop1224_conservative_ks (row_window ps) = Inr [1, 2, 3, 4, 5]"
  by (simp add: prop1224_conservative_ks_def row_bounds_of_window row_range MAX_HASHED_ROWS_def)

definition row_sample :: directed_sample where
  "row_sample = \<lparr>ds_parameters = row_parameters, ds_window = row_window row_pairs, ds_endpoints_recomputed = True, ds_margins_recomputed = True,
     ds_native_float = False, ds_full_campaign = False, ds_lean_proved = False\<rparr>"

lemma row_window_accepted: "verify_prop1224_window (row_window row_pairs) = Inr 5"
proof -
  have q: "qw_q (row_window row_pairs) = 109561" "qw_pairs (row_window row_pairs) = row_pairs" by (simp_all add: row_window_def)
  have "map_res (\<lambda>p. fc_int 1 (qp_k p)) row_pairs = Inr [1, 2, 3, 4, 5]" "map qp_k row_pairs = [1, 2, 3, 4, 5]"
    by (simp_all add: row_pairs_def row_pair_def fc_int_def)
  moreover have "map_res (verify_pair [(1, 1), (2, 2), (3, 5 / 2), (4, 5 / 2), (5, 11 / 4)]) row_pairs = Inr [(), (), (), (), ()]"
    by (simp add: row_pairs_def row_pair_def verify_pair_def fc_fraction_def fc_int_def lookup_g_def row_quotients)
  ultimately show ?thesis
    unfolding verify_prop1224_window_def q by (simp add: fc_int_def row_scheduled row_ks row_sums)
qed

lemma row_window_created:
  "create_prop1224_window 109561 (1066820307 / 2147483648) (2133717529 / 4294967296) (11611331323 / 2147483648) (11621901161 / 2147483648)
     (map_of [(1, 19356474665 / 4294967296), (2, 4545438127 / 1073741824), (3, 2230561377 / 536870912), (4, 19123116297 / 4294967296),
       (5, 4759546813 / 1073741824)]) = Inr (row_window row_pairs)"
  unfolding create_prop1224_window_def row_quotients fst_conv snd_conv Let_def
  by (simp add: fc_int_def row_scheduled row_ks [unfolded row_window_def] row_sums make_pair_def lookup_g_def row_quotients row_pairs_def row_pair_def
    row_window_def)

lemma row_created: "create_directed_prop1224_sample 109561 32 8 5 = Inr row_sample"
proof -
  define ks :: "int list" where "ks = [1, 2, 3, 4, 5]"
  define ms :: "(int \<times> rat) list" where
    "ms = [(1, 19356474665 / 4294967296), (2, 4545438127 / 1073741824), (3, 2230561377 / 536870912), (4, 19123116297 / 4294967296), (5, 4759546813 / 1073741824)]"
  have "map_res (\<lambda>k. ebind (lookup_g [(1, 1), (2, 2), (3, 5 / 2), (4, 5 / 2), (5, 11 / 4)] k) (\<lambda>g. ebind (margin_interval_from_exact_g row_parameters k g)
      (\<lambda>margin. Inr (k, ri_lower margin)))) ks =
    Inr ms"
    by (simp add: ks_def ms_def lookup_g_def row_margin_1 row_margin_2 row_margin_3 row_margin_4 row_margin_5 row_endpoints(5-))
  moreover have "ramare_g_prefixes 109561 ks = Inr [(1, 1), (2, 2), (3, 5 / 2), (4, 5 / 2), (5, 11 / 4)]" unfolding ks_def by (rule row_sums)
  moreover have "[1..5] = ks" by (simp add: ks_def row_range)
  ultimately show ?thesis
    by (simp add: create_directed_prop1224_sample_def row_parameters_at row_endpoints(1-4) row_range(1,2) row_window_created [folded ms_def] row_window_accepted row_sample_def)
qed

definition row_chunk :: prop1224_chunk where
  "row_chunk = rehash_prop1224_chunk \<lparr>qc_first_q = 109561, qc_next_q = 109562, qc_windows = [row_window row_pairs],
     qc_previous_hash = ZERO_SHA256, qc_record_hash = ZERO_SHA256\<rparr>"

lemma row_chunk_accepted:
  "\<exists>v. verify_directed_prop1224_chunk row_chunk 32 8 5 = Inr v \<and> dv_first_q v = 109561 \<and> dv_next_q v = 109562"
proof -
  have fields: "qc_first_q row_chunk = 109561" "qc_next_q row_chunk = 109562" "qc_windows row_chunk = [row_window row_pairs]"
    "qc_previous_hash row_chunk = ZERO_SHA256" "qw_q (row_window row_pairs) = 109561"
    by (simp_all add: row_chunk_def rehash_prop1224_chunk_def row_window_def)
  have hash: "prop1224_recomputed_hash row_chunk = qc_record_hash row_chunk" "fc_digest (qc_record_hash row_chunk) = Inr (qc_record_hash row_chunk)"
    unfolding row_chunk_def by (rule rehash_prop1224_chunk_hash)+
  have "verify_prop1224_chunk row_chunk = Inr (1, 5)"
    unfolding verify_prop1224_chunk_def fields hash by (simp add: example_parts fields row_window_accepted row_scheduled fc_int_def)
  moreover have "map_res (replay_row 32 8 5) (qc_windows row_chunk) = Inr [()]"
    by (simp add: fields replay_row_def row_created) (simp add: row_sample_def)
  ultimately show ?thesis by (simp add: verify_directed_prop1224_chunk_def fields MAX_DIRECTED_CHUNK_Q_ROWS_def)
qed

end
