(* ===== verification/Prop1224Directed_Claims.thy ===== *)
theory Prop1224Directed_Claims
  imports DirectedRow
begin

text \<open>
  The expressions of Proposition 12.2.4 over the reals, and that the directed producer encloses each of them:
  an accepted chunk proves the inequality of the proposition at every \<open>k\<close> of the true window.
\<close>

section \<open>The source expressions\<close>

definition source_omega :: real where "source_omega = 627312 / 10 ^ 6"

definition prime_divisors :: "nat \<Rightarrow> nat set" where
  "prime_divisors q = {p. is_prime p \<and> p dvd q}"

definition source_log_sum :: "nat \<Rightarrow> real" where
  "source_log_sum q = (\<Sum>p \<in> prime_divisors q. ln (real p) * (1 / real p))"

definition source_tau :: "real \<Rightarrow> real" where
  "source_tau gamma = 2 / 5 * exp (- gamma)"

definition source_c_sigma :: "real \<Rightarrow> real" where
  "source_c_sigma gamma = exp (exp (- gamma) * (34 / 25 - 34 / 25 * (34 / 25) / (656 / 125) - 293 / 250))"

definition source_c2 :: "real \<Rightarrow> real" where
  "source_c2 c_E = exp (1109 / 10000 + source_omega * (c_E - 164 / 125))"

definition source_kappa :: "real \<Rightarrow> nat \<Rightarrow> real" where
  "source_kappa c_E q = (1 - source_omega) * (ln (real q) - source_log_sum q) + (34 / 25 - c_E)"

definition source_f1_factor :: "real \<Rightarrow> real" where
  "source_f1_factor p = (1 + 1 / (root 3 p * root 3 p)) / (1 + (root 3 p + root 3 p * root 3 p) * (1 / (p * (p - 1))))"

definition source_f1 :: "nat \<Rightarrow> real" where
  "source_f1 q = (\<Prod>p \<in> prime_divisors q. source_f1_factor (real p))"

definition source_lambda :: "real \<Rightarrow> nat \<Rightarrow> real" where
  "source_lambda c_E q =
     (real q / real (totient q) * (1821 / 250 * (1 + 23111 / 10 ^ 6)) * source_f1 q / source_kappa c_E q) ^ 3"

definition source_varpi_zero :: "real \<Rightarrow> nat \<Rightarrow> real" where
  "source_varpi_zero gamma q =
     (let tau = source_tau gamma; a = source_c_sigma gamma * real q powr tau
      in if 1 + ln (real q) < a
         then (a - ln (real q) * (a - ln (real q)) powr - (tau / (1 - tau))) powr (1 / (1 - tau))
         else 0)"

definition source_varpi :: "real \<Rightarrow> real \<Rightarrow> nat \<Rightarrow> real" where
  "source_varpi gamma c_E q =
     max (source_varpi_zero gamma q)
       (max (source_c_sigma gamma * 100000 powr source_tau gamma - ln (real q))
         (100000 / (source_c2 c_E * real q) powr (1 / (1 - source_omega))))"

text \<open>The right-hand side of the inequality less its left-hand side \<open>G\<^sub>q(k)\<close>.\<close>

definition source_margin :: "nat \<Rightarrow> nat \<Rightarrow> real" where
  "source_margin q k =
     real (totient q) / real q *
       ((1 - source_omega) * ln (real q) + source_omega * source_log_sum q + (34 / 25 + ln (real k))) -
     real_of_rat (ramare_G q k) - 627312 / 10 ^ 6 * (1821 / 250) * (1 / root 3 (real (20000 * k))) * source_f1 q"

definition gamma_bounds :: "real \<Rightarrow> bool" where
  "gamma_bounds gamma \<longleftrightarrow> 577215657 / 10 ^ 9 \<le> gamma \<and> gamma \<le> 5772162 / 10 ^ 7"

definition ce_bounds :: "real \<Rightarrow> bool" where
  "ce_bounds c_E \<longleftrightarrow> 13325822 / 10 ^ 7 \<le> c_E \<and> c_E \<le> 13339 / 10 ^ 4"

section \<open>Enclosures of the parts\<close>

lemma ri_has_point [simp]: "ri_has (ri_point v) x \<longleftrightarrow> x = real_of_rat v"
  by (simp add: ri_point_def)

lemma of_rat_omega: "real_of_rat directed_omega = source_omega"
  by (simp add: directed_omega_def source_omega_def of_rat_divide of_rat_power)

lemma prime_divisors_list:
  assumes "distinct_prime_factors (int q) = Inr fs"
  shows "distinct fs" "\<forall>p \<in> set fs. 1 < p" "bij_betw int (prime_divisors q) (set fs)"
proof -
  have q: "0 < q" and fs: "distinct fs" "set fs = {p. is_prime (nat p) \<and> p dvd int q}"
    using distinct_prime_factors_eq [OF assms] by simp_all
  show "distinct fs" "\<forall>p \<in> set fs. 1 < p" using fs prime_int_pos by auto
  have "p \<in> int ` prime_divisors q" if "is_prime (nat p)" "p dvd int q" for p
  proof -
    have p: "p = int (nat p)" using prime_int_pos [OF that(1)] by simp
    then have "nat p dvd q" using that(2) by (metis int_dvd_int_iff)
    then have "nat p \<in> prime_divisors q" using that(1) by (simp add: prime_divisors_def)
    then show ?thesis using p by blast
  qed
  then have "int ` prime_divisors q = set fs" unfolding fs(2) by (auto simp: prime_divisors_def)
  then show "bij_betw int (prime_divisors q) (set fs)" by (simp add: bij_betw_def)
qed

lemma log_prime_loop_has:
  "log_prime_loop bits terms acc fs = Inr i \<Longrightarrow> ri_has acc a \<Longrightarrow>
    ri_has i (a + (\<Sum>p \<leftarrow> fs. ln (real_of_int p) * (1 / real_of_int p)))"
proof (induction fs arbitrary: acc a)
  case (Cons p fs)
  then obtain l m acc' where s: "log_interval (ri_point (of_int p)) bits terms = Inr l" "ri_mul l (ri_point (1 / of_int p)) bits = Inr m"
    "ri_add acc m bits = Inr acc'" "log_prime_loop bits terms acc' fs = Inr i"
    by (auto simp: res_simps)
  have "ri_has l (ln (real_of_int p))" using log_interval_has [OF s(1)] by simp
  then have "ri_has m (ln (real_of_int p) * (1 / real_of_int p))" using ri_mul_has [OF s(2)] by (simp add: of_rat_divide)
  then have "ri_has acc' (a + ln (real_of_int p) * (1 / real_of_int p))" using ri_add_has [OF s(3) Cons.prems(2)] by simp
  from Cons.IH [OF s(4) this] show ?case by (simp add: add.assoc)
qed simp

lemma f1_factor_has:
  assumes "f1_factor bits p = Inr i"
  shows "ri_has i (source_f1_factor (real_of_int p))"
proof -
  obtain c t r n s m d where s: "integer_cube_root_interval p bits = Inr c" "ri_mul c c bits = Inr t" "ri_reciprocal t bits = Inr r"
    "ri_add (ri_point 1) r bits = Inr n" "ri_add c t bits = Inr s" "ri_mul s (ri_point (1 / of_int (p * (p - 1)))) bits = Inr m"
    "ri_add (ri_point 1) m bits = Inr d" "ri_div n d bits = Inr i"
    using assms by (auto simp: f1_factor_def res_simps)
  have c: "ri_has c (root 3 (real_of_int p))" using integer_cube_root_interval_has [OF s(1)] by simp
  note t = ri_mul_has [OF s(2) c c]
  note r = ri_reciprocal_has [OF s(3) t, THEN conjunct2]
  note n = ri_add_has [OF s(4) _ r, of 1]
  note s' = ri_add_has [OF s(5) c t]
  note m = ri_mul_has [OF s(6) s', of "1 / (real_of_int p * (real_of_int p - 1))"]
  note d = ri_add_has [OF s(7) _ m, of 1]
  show ?thesis using ri_div_has [OF s(8) n d] by (simp add: source_f1_factor_def of_rat_divide of_rat_mult of_rat_diff)
qed

lemma f1_loop_has:
  "f1_loop bits f1 fs = Inr i \<Longrightarrow> ri_has f1 a \<Longrightarrow> ri_has i (a * (\<Prod>p \<leftarrow> fs. source_f1_factor (real_of_int p)))"
proof (induction fs arbitrary: f1 a)
  case (Cons p fs)
  then obtain b f1' where s: "f1_factor bits p = Inr b" "ri_mul f1 b bits = Inr f1'" "f1_loop bits f1' fs = Inr i"
    by (auto simp: res_simps)
  from Cons.IH [OF s(3) ri_mul_has [OF s(2) Cons.prems(2) f1_factor_has [OF s(1)]]] show ?case by (simp add: mult.assoc)
qed simp

lemma directed_tau_has: "directed_tau bits e = Inr i \<Longrightarrow> ri_has e (exp (- gamma)) \<Longrightarrow> ri_has i (source_tau gamma)"
  using ri_mul_has [of "ri_point (2 / 5)" e bits i "2 / 5"] by (simp add: directed_tau_def source_tau_def of_rat_divide)

lemma directed_c_sigma_has:
  assumes "directed_c_sigma bits terms e = Inr i" "ri_has e (exp (- gamma))"
  shows "ri_has i (source_c_sigma gamma)"
proof -
  define s :: rat where "s = 34 / 25 - 34 / 25 * (34 / 25) / (656 / 125) - 293 / 250"
  obtain x where x: "ri_mul e (ri_point s) bits = Inr x" "exp_interval x bits terms = Inr i"
    using assms(1) by (auto simp: directed_c_sigma_def res_simps s_def)
  have "real_of_rat s = 34 / 25 - 34 / 25 * (34 / 25) / (656 / 125) - 293 / 250"
    unfolding s_def by (simp only: of_rat_diff of_rat_divide of_rat_mult of_rat_numeral_eq)
  with exp_interval_has [OF x(2) ri_mul_has [OF x(1) assms(2), of "real_of_rat s"]] show ?thesis by (simp only: source_c_sigma_def ri_has_point)
qed

lemma directed_c2_has:
  assumes "directed_c2 bits terms c = Inr i" "ri_has c c_E"
  shows "ri_has i (source_c2 c_E)"
proof -
  obtain d s x where s: "ri_sub c (ri_point (164 / 125)) bits = Inr d" "ri_mul (ri_point directed_omega) d bits = Inr s"
    "ri_add (ri_point (1109 / 10000)) s bits = Inr x" "exp_interval x bits terms = Inr i"
    using assms(1) by (auto simp: directed_c2_def res_simps)
  note d = ri_sub_has [OF s(1) assms(2), of "164 / 125"]
  note e = ri_mul_has [OF s(2) _ d, of source_omega]
  note x = ri_add_has [OF s(3) _ e, of "1109 / 10000"]
  show ?thesis using exp_interval_has [OF s(4) x] by (simp add: source_c2_def of_rat_omega of_rat_divide)
qed

lemma directed_kappa_has:
  assumes "directed_kappa bits l s c = Inr i" "ri_has l x" "ri_has s y" "ri_has c c_E"
  shows "ri_has i ((1 - source_omega) * (x - y) + (34 / 25 - c_E))"
proof -
  obtain a b d p where s: "ri_sub (ri_point (34 / 25)) c bits = Inr a" "ri_sub (ri_point 1) (ri_point directed_omega) bits = Inr b"
    "ri_sub l s bits = Inr d" "ri_mul b d bits = Inr p" "ri_add p a bits = Inr i"
    using assms(1) by (auto simp: directed_kappa_def res_simps)
  note a = ri_sub_has [OF s(1) _ assms(4), of "34 / 25"]
  note b = ri_sub_has [OF s(2), of 1 source_omega]
  note p = ri_mul_has [OF s(4) b ri_sub_has [OF s(3) assms(2,3)]]
  show ?thesis using ri_add_has [OF s(5) p a] by (simp add: of_rat_omega of_rat_divide)
qed

lemma directed_lambda_has:
  assumes "directed_lambda bits q phi f k = Inr i" "ri_has f x" "ri_has k y"
  shows "ri_has i ((real_of_int q / real_of_int phi * (1821 / 250 * (1 + 23111 / 10 ^ 6)) * x / y) ^ 3)"
proof -
  define c :: rat where "c = 1821 / 250 * (1 + 23111 / 10 ^ 6)"
  obtain a b d where s: "ri_mul (ri_point (of_int q / of_int phi)) (ri_point c) bits = Inr a" "ri_mul a f bits = Inr b"
    "ri_div b k bits = Inr d" "ri_pow_nat d 3 bits = Inr i"
    using assms(1) by (auto simp: directed_lambda_def res_simps c_def)
  have c: "real_of_rat c = 1821 / 250 * (1 + 23111 / 10 ^ 6)"
    unfolding c_def by (simp only: of_rat_add of_rat_divide of_rat_mult of_rat_numeral_eq of_rat_power of_rat_1)
  note a = ri_mul_has [OF s(1), of "real_of_int q / real_of_int phi" "real_of_rat c"]
  note b = ri_mul_has [OF s(2) a assms(2)]
  note d = ri_div_has [OF s(3) b assms(3), THEN conjunct2]
  show ?thesis using ri_pow_nat_has [OF s(4) d] unfolding c [symmetric] by (simp add: of_rat_divide)
qed

lemma directed_varpi_zero_has:
  assumes "directed_varpi_zero bits terms l t v = Inr i" "ri_has l x" "ri_has t tau" "ri_has v a"
  shows "ri_has i (if 1 + x < a then (a - x * (a - x) powr - (tau / (1 - tau))) powr (1 / (1 - tau)) else 0)"
proof -
  obtain g where g: "ri_add (ri_point 1) l bits = Inr g" using assms(1) by (auto simp: directed_varpi_zero_def ebind_Inr_iff)
  have gate: "ri_has g (1 + x)" using ri_add_has [OF g _ assms(2), of 1] by simp
  show ?thesis
  proof (cases "ri_upper g < ri_lower v")
    case True
    then have less: "real_of_rat (ri_upper g) < real_of_rat (ri_lower v)" by (simp only: of_rat_less)
    obtain d c r e p m n o' where s: "ri_sub v l bits = Inr d" "ri_sub (ri_point 1) t bits = Inr c" "ri_div t c bits = Inr r" "ri_neg r = Inr e"
      "rpow_interval d e bits terms = Inr p" "ri_mul l p bits = Inr m" "ri_sub v m bits = Inr n" "ri_reciprocal c bits = Inr o'"
      "rpow_interval n o' bits terms = Inr i"
      using assms(1) g True by (auto simp: directed_varpi_zero_def res_simps)
    note c = ri_sub_has [OF s(2) _ assms(3), of 1]
    note e = ri_neg_has [OF s(4) ri_div_has [OF s(3) assms(3) c, THEN conjunct2]]
    note p = rpow_interval_has [OF s(5) ri_sub_has [OF s(1) assms(4,2)] e, THEN conjunct2]
    note n = ri_sub_has [OF s(7) assms(4) ri_mul_has [OF s(6) assms(2) p]]
    have "1 + x < a" using gate assms(4) less by (simp add: ri_has_def)
    then show ?thesis using rpow_interval_has [OF s(9) n ri_reciprocal_has [OF s(8) c, THEN conjunct2]] by simp
  next
    case False
    then have i: "ri_upper v \<le> ri_lower g" "i = ri_point 0"
      using assms(1) g by (auto simp: directed_varpi_zero_def split: if_splits)
    have "real_of_rat (ri_upper v) \<le> real_of_rat (ri_lower g)" using i(1) by (simp only: of_rat_less_eq)
    then have "\<not> 1 + x < a" using gate assms(4) by (simp add: ri_has_def)
    then show ?thesis unfolding i(2) by simp
  qed
qed

lemma directed_varpi_has:
  assumes "directed_varpi bits terms (int q) l t cs c2 = Inr i" "ri_has l (ln (real q))" "ri_has t (source_tau gamma)"
    "ri_has cs (source_c_sigma gamma)" "ri_has c2 (source_c2 c_E)"
  shows "ri_has i (source_varpi gamma c_E q)"
proof -
  obtain qt a z ht h m c o' b d r w where s: "rpow_interval (ri_point (of_int (int q))) t bits terms = Inr qt" "ri_mul cs qt bits = Inr a"
    "directed_varpi_zero bits terms l t a = Inr z" "rpow_interval (ri_point 100000) t bits terms = Inr ht" "ri_mul cs ht bits = Inr h"
    "ri_sub h l bits = Inr m" "ri_sub (ri_point 1) (ri_point directed_omega) bits = Inr c" "ri_reciprocal c bits = Inr o'"
    "ri_mul c2 (ri_point (of_int (int q))) bits = Inr b" "rpow_interval b o' bits terms = Inr d" "ri_div (ri_point 100000) d bits = Inr r"
    "ri_max [z, m, r] = Inr w" "ri_outward w bits = Inr i"
    using assms(1) by (auto simp: directed_varpi_def ebind_Inr_iff)
  note a = ri_mul_has [OF s(2) assms(4) rpow_interval_has [OF s(1) _ assms(3), of "real q", THEN conjunct2]]
  note z = directed_varpi_zero_has [OF s(3) assms(2,3) a]
  note m = ri_sub_has [OF s(6) ri_mul_has [OF s(5) assms(4) rpow_interval_has [OF s(4) _ assms(3), of 100000, THEN conjunct2]] assms(2)]
  note c = ri_sub_has [OF s(7), of 1 source_omega]
  note b = ri_mul_has [OF s(9) assms(5), of "real q"]
  note d = rpow_interval_has [OF s(10) b ri_reciprocal_has [OF s(8) c, THEN conjunct2], THEN conjunct2]
  note r = ri_div_has [OF s(11) _ d, of 100000, THEN conjunct2]
  from ri_outward_has [OF s(13) ri_max_has [OF s(12) z m r]] show ?thesis
    by (simp add: source_varpi_def source_varpi_zero_def Let_def of_rat_omega)
qed

section \<open>The parameters and the margin\<close>

text \<open>What the parameters of a row enclose.\<close>

definition parameters_enclose :: "directed_parameters \<Rightarrow> nat \<Rightarrow> real \<Rightarrow> real \<Rightarrow> bool" where
  "parameters_enclose p q gamma c_E \<longleftrightarrow> dp_q p = int q \<and> dp_phi_q p = int (totient q) \<and>
     ri_has (dp_log_q p) (ln (real q)) \<and> ri_has (dp_log_prime_sum p) (source_log_sum q) \<and> ri_has (dp_f1 p) (source_f1 q) \<and>
     ri_has (dp_varpi p) (source_varpi gamma c_E q) \<and> ri_has (dp_lambda p) (source_lambda c_E q)"

lemma directed_parameters_enclose:
  assumes "prop1224_directed_parameters q bits terms = Inr p" "gamma_bounds gamma" "ce_bounds c_E"
  shows "parameters_enclose p (nat q) gamma c_E"
proof -
  obtain g c fs l s ng eg t cs c2 k f lam w where d:
    "1 \<le> q" "g = \<lparr>ri_lower = fst EULER_GAMMA_BOUNDS, ri_upper = snd EULER_GAMMA_BOUNDS\<rparr>"
    "c = \<lparr>ri_lower = fst RAMARE_CE_BOUNDS, ri_upper = snd RAMARE_CE_BOUNDS\<rparr>"
    "distinct_prime_factors q = Inr fs" "log_interval (ri_point (of_int q)) bits terms = Inr l"
    "log_prime_loop bits terms (ri_point 0) fs = Inr s" "ri_neg g = Inr ng" "exp_interval ng bits terms = Inr eg"
    "directed_tau bits eg = Inr t" "directed_c_sigma bits terms eg = Inr cs" "directed_c2 bits terms c = Inr c2"
    "directed_kappa bits l s c = Inr k" "f1_loop bits (ri_point 1) fs = Inr f"
    "directed_lambda bits q (totient_from_factors q fs) f k = Inr lam" "directed_varpi bits terms q l t cs c2 = Inr w"
    and p: "dp_q p = q" "dp_phi_q p = totient_from_factors q fs" "dp_log_q p = l" "dp_log_prime_sum p = s" "dp_f1 p = f"
      "dp_varpi p = w" "dp_lambda p = lam"
    using assms(1) by (auto simp: prop1224_directed_parameters_def res_simps admissible_Inr Let_def)
  have q: "q = int (nat q)" using d(1) by simp
  have fs: "distinct_prime_factors (int (nat q)) = Inr fs" using d(4) q by simp
  have bij: "bij_betw int (prime_divisors (nat q)) (set fs)" and fs': "distinct fs" using prime_divisors_list [OF fs] by simp_all
  have g: "ri_has g gamma" using assms(2) by (simp add: d(2) ri_has_def EULER_GAMMA_BOUNDS_def gamma_bounds_def of_rat_divide)
  have c: "ri_has c c_E" using assms(3) by (simp add: d(3) ri_has_def RAMARE_CE_BOUNDS_def ce_bounds_def of_rat_divide)
  have l: "ri_has l (ln (real (nat q)))" using log_interval_has [OF d(5), of "real_of_int q"] d(1) by simp
  have "(\<Sum>p \<leftarrow> fs. ln (real_of_int p) * (1 / real_of_int p)) = (\<Sum>p \<in> set fs. ln (real_of_int p) * (1 / real_of_int p))"
    using fs' by (rule sum_list_distinct_conv_sum_set)
  also have "\<dots> = source_log_sum (nat q)" unfolding source_log_sum_def using sum.reindex_bij_betw [OF bij, of "\<lambda>p. ln (real_of_int p) * (1 / real_of_int p)"] by simp
  finally have s: "ri_has s (source_log_sum (nat q))" using log_prime_loop_has [OF d(6), of 0] by simp
  have "(\<Prod>p \<leftarrow> fs. source_f1_factor (real_of_int p)) = (\<Prod>p \<in> set fs. source_f1_factor (real_of_int p))"
    using fs' by (rule prod.distinct_set_conv_list [symmetric])
  also have "\<dots> = source_f1 (nat q)" unfolding source_f1_def using prod.reindex_bij_betw [OF bij, of "\<lambda>p. source_f1_factor (real_of_int p)"] by simp
  finally have f: "ri_has f (source_f1 (nat q))" using f1_loop_has [OF d(13), of 1] by simp
  have eg: "ri_has eg (exp (- gamma))" by (rule exp_interval_has [OF d(8) ri_neg_has [OF d(7) g]])
  have phi: "totient_from_factors q fs = int (totient (nat q))" by (rule totient_from_factors_eq [OF d(4)])
  have k: "ri_has k (source_kappa c_E (nat q))" using directed_kappa_has [OF d(12) l s c] by (simp add: source_kappa_def)
  have lam: "ri_has lam (source_lambda c_E (nat q))" using directed_lambda_has [OF d(14) f k] phi d(1) by (simp add: source_lambda_def)
  have "directed_varpi bits terms (int (nat q)) l t cs c2 = Inr w" using d(15) q by simp
  then have w: "ri_has w (source_varpi gamma c_E (nat q))"
    by (rule directed_varpi_has [OF _ l directed_tau_has [OF d(9) eg] directed_c_sigma_has [OF d(10) eg] directed_c2_has [OF d(11) c]])
  show ?thesis unfolding parameters_enclose_def p using q phi l s f w lam by simp
qed

lemma margin_interval_has:
  assumes "margin_interval_from_exact_g p k (ramare_G q (nat k)) = Inr i" "parameters_enclose p q gamma c_E"
  shows "ri_has i (source_margin q (nat k))"
proof -
  have e: "dp_q p = int q" "dp_phi_q p = int (totient q)" "ri_has (dp_log_q p) (ln (real q))"
    "ri_has (dp_log_prime_sum p) (source_log_sum q)" "ri_has (dp_f1 p) (source_f1 q)"
    using assms(2) by (simp_all add: parameters_enclose_def)
  define b where "b = dp_bits p"
  define x :: rat where "x = 627312 / 10 ^ 6 * (1821 / 250)"
  obtain lk c m pr ls rs n sc re cr inv en rem where d: "1 \<le> k" "log_interval (ri_point (of_int k)) b (dp_log_terms p) = Inr lk"
    "ri_sub (ri_point 1) (ri_point directed_omega) b = Inr c" "ri_mul c (dp_log_q p) b = Inr m"
    "ri_mul (ri_point directed_omega) (dp_log_prime_sum p) b = Inr pr" "ri_add m pr b = Inr ls" "ri_add (ri_point (34 / 25)) lk b = Inr rs"
    "ri_add ls rs b = Inr n" "ri_mul (ri_point (of_int (dp_phi_q p) / of_int (dp_q p))) n b = Inr sc"
    "ri_sub sc (ri_point (ramare_G q (nat k))) b = Inr re" "integer_cube_root_interval (20000 * k) b = Inr cr"
    "ri_reciprocal cr b = Inr inv" "ri_mul (ri_point x) inv b = Inr en" "ri_mul en (dp_f1 p) b = Inr rem" "ri_sub re rem b = Inr i"
    using assms(1) by (auto simp: margin_interval_from_exact_g_def res_simps Let_def b_def x_def)
  have x: "real_of_rat x = 627312 / 10 ^ 6 * (1821 / 250)"
    unfolding x_def by (simp only: of_rat_divide of_rat_mult of_rat_numeral_eq of_rat_power)
  have lk: "ri_has lk (ln (real (nat k)))" using log_interval_has [OF d(2), of "real_of_int k"] d(1) by simp
  note c = ri_sub_has [OF d(3), of 1 source_omega]
  note ls = ri_add_has [OF d(6) ri_mul_has [OF d(4) c e(3)] ri_mul_has [OF d(5) _ e(4), of source_omega]]
  note n = ri_add_has [OF d(8) ls ri_add_has [OF d(7) _ lk, of "34 / 25"]]
  note re = ri_sub_has [OF d(10) ri_mul_has [OF d(9) _ n, of "real (totient q) / real q"], of "real_of_rat (ramare_G q (nat k))"]
  have cr: "ri_has cr (root 3 (real (20000 * nat k)))" using integer_cube_root_interval_has [OF d(11)] d(1) by simp
  note en = ri_mul_has [OF d(13) ri_has_point [THEN iffD2, OF refl] ri_reciprocal_has [OF d(12) cr, THEN conjunct2]]
  from ri_sub_has [OF d(15) re ri_mul_has [OF d(14) en e(5)]] show ?thesis
    unfolding x by (simp add: source_margin_def e(1,2) of_rat_omega of_rat_divide)
qed

section \<open>Rows and chunks\<close>

lemma fraction_endpoints: "real_of_int (fst (quotient_of r)) / real_of_int (snd (quotient_of r)) = real_of_rat r"
proof -
  obtain a b where q: "quotient_of r = (a, b)" by fastforce
  then have "r = of_int a / of_int b" by (rule quotient_of_div)
  with q show ?thesis by (simp add: of_rat_divide)
qed

text \<open>The window that is created, and the margin that each of its pairs stores.\<close>

lemma create_window_Inr:
  assumes "create_prop1224_window q a b c d f = Inr w"
  shows "qw_q w = q" "varpi_lower w = real_of_rat a" "lambda_upper w = real_of_rat d"
    "\<And>p. p \<in> set (qw_pairs w) \<Longrightarrow> \<exists>m. f (qp_k p) = Some m \<and> of_int (qp_margin_numerator p) / of_int (qp_margin_denominator p) = m"
proof -
  obtain ks us ps where w: "w = \<lparr>qw_q = q,
      qw_varpi_lower_numerator = fst (quotient_of a), qw_varpi_lower_denominator = snd (quotient_of a),
      qw_varpi_upper_numerator = fst (quotient_of b), qw_varpi_upper_denominator = snd (quotient_of b),
      qw_lambda_lower_numerator = fst (quotient_of c), qw_lambda_lower_denominator = snd (quotient_of c),
      qw_lambda_upper_numerator = fst (quotient_of d), qw_lambda_upper_denominator = snd (quotient_of d), qw_pairs = ps\<rparr>"
    and ps: "map_res (make_pair us f) ks = Inr ps"
    using assms by (auto simp: create_prop1224_window_def res_simps Let_def)
  show "qw_q w = q" "varpi_lower w = real_of_rat a" "lambda_upper w = real_of_rat d"
    by (simp_all add: w varpi_lower_def lambda_upper_def fraction_endpoints)
  fix p assume "p \<in> set (qw_pairs w)"
  then obtain k where "make_pair us f k = Inr p"
    using ps by (auto simp: w map_res_Inr_iff list_all2_conv_all_nth in_set_conv_nth)
  moreover have "of_int (fst (quotient_of m)) / of_int (snd (quotient_of m)) = m" for m :: rat
    using quotient_of_div [of m] by (cases "quotient_of m") simp
  ultimately show "\<exists>m. f (qp_k p) = Some m \<and> of_int (qp_margin_numerator p) / of_int (qp_margin_denominator p) = m"
    by (auto simp: make_pair_def res_simps split: option.splits)
qed

lemma directed_sample_sound:
  assumes "create_directed_prop1224_sample q bits terms max_pairs = Inr s" "gamma_bounds gamma" "ce_bounds c_E"
    "1 \<le> k" "source_varpi gamma c_E (nat q) \<le> real k" "real k < source_lambda c_E (nat q)"
  shows "0 \<le> source_margin (nat q) k"
proof -
  obtain p ks us ms where p: "prop1224_directed_parameters q bits terms = Inr p" and us: "ramare_g_prefixes q ks = Inr us"
    and ms: "map_res (\<lambda>k. ebind (lookup_g us k) (\<lambda>g. ebind (margin_interval_from_exact_g p k g) (\<lambda>margin. Inr (k, ri_lower margin)))) ks = Inr ms"
    and w: "create_prop1224_window q (ri_lower (dp_varpi p)) (ri_upper (dp_varpi p)) (ri_lower (dp_lambda p)) (ri_upper (dp_lambda p)) (map_of ms) = Inr (ds_window s)"
    and v: "\<exists>n. verify_prop1224_window (ds_window s) = Inr n"
    using assms(1) unfolding create_directed_prop1224_sample_def Let_def by (auto simp: ebind_Inr_iff if_Inl_eq_Inr_iff)
  have e: "parameters_enclose p (nat q) gamma c_E" by (rule directed_parameters_enclose [OF p assms(2,3)])
  note w = create_window_Inr [OF w]
  have "varpi_lower (ds_window s) \<le> real_of_int (int k)" "real_of_int (int k) < lambda_upper (ds_window s)"
    using e assms(5,6) w(2,3) by (simp_all add: parameters_enclose_def ri_has_def)
  then obtain r where r: "r \<in> set (qw_pairs (ds_window s))" "qp_k r = int k" "pair_ok q r"
    using v verify_window_Inr(2) [of "ds_window s" _ "int k"] assms(4) w(1) by fastforce
  obtain m where m: "map_of ms (int k) = Some m" "0 \<le> m" using w(4) [OF r(1)] r(2,3) by (auto simp: pair_ok_def)
  then have "(int k, m) \<in> set ms" by (simp add: map_of_SomeD)
  then obtain g i where g: "int k \<in> set ks" "lookup_g us (int k) = Inr g" "margin_interval_from_exact_g p (int k) g = Inr i" "m = ri_lower i"
    using ms by (auto simp: map_res_Inr_iff list_all2_conv_all_nth in_set_conv_nth res_simps) (metis prod.inject)
  then have "g = ramare_G (nat q) (nat (int k))" using ramare_g_prefixes_Inr [OF us g(1)] by (simp add: lookup_g_def)
  with margin_interval_has [OF _ e, of "int k" i] g(3) have "ri_has i (source_margin (nat q) k)" by simp
  then have "real_of_rat m \<le> source_margin (nat q) k" unfolding g(4) by (simp only: ri_has_def)
  moreover have "0 \<le> real_of_rat m" using m(2) by simp
  ultimately show ?thesis by linarith
qed

lemma replay_row_Inr:
  assumes "verify_directed_prop1224_chunk c bits terms max_pairs = Inr v" "w \<in> set (qc_windows c)"
  shows "\<exists>s. create_directed_prop1224_sample (qw_q w) bits terms max_pairs = Inr s"
proof -
  obtain us where "map_res (replay_row bits terms max_pairs) (qc_windows c) = Inr us"
    using assms(1) by (auto simp: verify_directed_prop1224_chunk_def res_simps)
  then have "\<exists>u. replay_row bits terms max_pairs w = Inr u"
    using assms(2) by (auto simp: map_res_Inr_iff list_all2_conv_all_nth in_set_conv_nth)
  then show ?thesis by (auto simp: replay_row_def res_simps)
qed

text \<open>C9:
  What an accepted directed chunk proves.  For every admissible \<open>q\<close> from the first one of the chunk to its next
  one, for every value of Euler's constant and of the constant \<open>c\<^sub>E\<close> within the two stated bounds, and for every
  positive integer \<open>k\<close> of the window from \<open>\<omega>(q)\<close> to \<open>\<lambda>(q)\<close> of the source, the real margin of Proposition 12.2.4,
  with \<open>G\<^sub>q(k)\<close> by its definition, is not negative.
\<close>

theorem directed_chunk_sound:
  assumes "verify_directed_prop1224_chunk c bits terms max_pairs = Inr v" "gamma_bounds gamma" "ce_bounds c_E"
    "admissible q" "dv_first_q v \<le> q" "q < dv_next_q v"
    "1 \<le> k" "source_varpi gamma c_E (nat q) \<le> real k" "real k < source_lambda c_E (nat q)"
  shows "0 \<le> source_margin (nat q) k"
proof -
  obtain rows pairs where "verify_prop1224_chunk c = Inr (rows, pairs)" "dv_first_q v = qc_first_q c" "dv_next_q v = qc_next_q c"
    using assms(1) by (auto simp: verify_directed_prop1224_chunk_def res_simps)
  then have "covers (dv_first_q v) (dv_next_q v) (map qw_q (qc_windows c))" using verify_prop1224_chunk_Inr(1) by simp
  then have "q \<in> qw_q ` set (qc_windows c)" using assms(4-6) by (auto simp: covers_def)
  then obtain s where "create_directed_prop1224_sample q bits terms max_pairs = Inr s" using replay_row_Inr [OF assms(1)] by blast
  from directed_sample_sound [OF this assms(2,3,7-9)] show ?thesis .
qed

lemma directed_chunk_sound_witness: "0 \<le> source_margin 109561 5"
proof -
  obtain v where v: "verify_directed_prop1224_chunk row_chunk 32 8 5 = Inr v" "dv_first_q v = 109561" "dv_next_q v = 109562"
    using row_chunk_accepted by blast
  define gamma c_E :: real where "gamma = 5772157 / 10 ^ 7" and "c_E = 13326 / 10 ^ 4"
  have bounds: "gamma_bounds gamma" "ce_bounds c_E" by (simp_all add: gamma_def c_E_def gamma_bounds_def ce_bounds_def)
  have "parameters_enclose row_parameters 109561 gamma c_E" using directed_parameters_enclose [OF row_parameters_at bounds] by simp
  then have "ri_has (dp_varpi row_parameters) (source_varpi gamma c_E 109561)" "ri_has (dp_lambda row_parameters) (source_lambda c_E 109561)"
    by (simp_all add: parameters_enclose_def)
  then have "source_varpi gamma c_E 109561 \<le> 5" "5 < source_lambda c_E 109561"
    unfolding ri_has_def row_endpoints by (simp_all add: of_rat_divide)
  moreover have "admissible 109561" by (simp add: admissible_def PROP1224_Q_SPLIT_def)
  ultimately show ?thesis using directed_chunk_sound [OF v(1) bounds, of 109561 5] v by simp
qed

end
