(* ===== verification/Spec2Isabelle.thy ===== *)
theory Spec2Isabelle
  imports Binary64_Claims Reference_Claims AffineGuard_Claims CampaignIO Sha256_KAT JsonText_Claims Eviction_Claims Arithmetic_Claims ChunkChain_Claims
    ComplexDisk_Claims GoldbachCoverage_Claims PrimeCerts_Claims A7Wire_Claims EventStream_Claims PsiCampaign_Claims Prop1224Directed_Claims
begin

text \<open>
  A verification library for the Python core of attested-compute: the reference semantics of a bounded
  computation and of its certificate, the certificates of long sequential campaigns, the accounting of
  their attempts, the exact arithmetic that the campaigns are checked against, the sieve and coverage
  replay of the Goldbach campaign, its prime certificates, two finite campaigns of analytic number theory,
  and two binary formats with their verifiers.  Every other theory is imported here; each property is a
  theorem of a theory named \<open>..._Claims\<close> (and of \<open>CampaignIO\<close>), after a text block with its
  number.

  \<^bold>\<open>How Python is rendered\<close> (\<open>Prelude\<close>, \<open>PyValue\<close>).  A function that can raise returns
  \<open>exc + 'a\<close>; \<open>exc\<close> has one constructor for each exception class, \<open>ebind\<close> sequences and \<open>catch_as\<close> is
  \<open>try ... except\<close>; messages are dropped.  \<open>int\<close> is \<open>int\<close>, \<open>Fraction\<close> is \<open>rat\<close>, \<open>bytes\<close> a list of 8-bit
  words, \<open>str\<close> a list of code points, surrogates included.  A JSON value is a \<open>pyval\<close>; a \<open>dict\<close> is its
  items in insertion order.  Dataclasses are records, and a \<open>__post_init__\<close> is a function \<open>mk_...\<close> that
  returns the record or raises.  Fields and parameters with a scalar annotation carry that type, so an
  \<open>isinstance\<close> test on them has no branch; wherever a value comes from JSON it is a \<open>pyval\<close> and every such
  test is a branch.  \<open>Sha256\<close> defines \<open>hashlib.sha256\<close> as in FIPS 180-4 (\<open>Sha256_KAT\<close> runs a test vector);
  no property assumes that it is injective: a binding property ends in "equal, or here is a collision".

  \<^bold>\<open>Parts.\<close>
  \<^item> \<open>reference/exact_binary64.py\<close>: \<open>Binary64\<close> (words, decoding, the two binary searches, rounding) and
    \<open>Interval\<close> (directed operations and interval arithmetic).  \<open>Rounding\<close>, \<open>Interval_Sound\<close> and
    \<open>Binary64_Claims\<close> show that rounding of every rational is the tightest or nearest one, that every
    operation rounds the exact result, and that interval operations enclose and fail exactly as stated.
    The locales \<open>bisection\<close> and \<open>rounding_contract\<close> carry the searches and the three directions.
  \<^item> \<open>reference/format.py\<close>: \<open>WireFormat\<close> (validators, canonical JSON, digests, certificates), \<open>Canonical\<close>,
    \<open>Encodable\<close>, \<open>Wire_Facts\<close>, \<open>Expressions\<close> (what a wire expression represents, and its meaning over the
    reals).  \<open>JsonText\<close> models the strict readers down to the bytes, with the scanner of \<open>json.loads\<close>;
    \<open>JsonText_Facts\<close>, \<open>JsonText_Values\<close>, \<open>JsonText_Claims\<close> show that they invert the encoder.
  \<^item> \<open>reference/evaluator.py\<close>: \<open>Evaluator\<close> (compiler, stack machine, issuing and checking).
    \<open>Evaluator_Sound\<close>, \<open>Certificates\<close>, \<open>Reference_Claims\<close> show that the compiled program computes the
    recursive interval value, that a certificate accepted by the checker is true over the reals, and that
    issuing is complete and accepted.
  \<^item> \<open>tg_verifier/campaign_io.py\<close>: \<open>CampaignIO\<close> (canonical records, worker scopes, workload guards) and the
    campaign reader of \<open>JsonText\<close>.
  \<^item> \<open>tg_verifier/affine_guard_certificate.py\<close>: \<open>AffineGuard\<close> (transitions, composition, scan, plans, leaves,
    Merkle roots, verifier); \<open>AffineGuard_Sound\<close>, \<open>_Wire\<close>, \<open>_Merkle\<close>, \<open>_Cert\<close>, \<open>_Claims\<close> show that composition
    and scan are the sequential run, plans tile their domain, the wire forms read back, and the
    certificate root commits to plan, leaves and root state.
  \<^item> \<open>tg_verifier/azure_eviction.py\<close>: \<open>Eviction\<close> (classification, retry gate, attempt ledger, quarantine,
    coverage report) over a record of the campaign directory.  \<open>Eviction_Ledger\<close> and \<open>Eviction_Refine\<close> refine
    it to one append-only list of attempts for each leaf and close the operations under reachability
    (\<open>campaign_step\<close>, \<open>campaign_reachable\<close>); \<open>Eviction_Coverage\<close> and \<open>Eviction_Claims\<close> state the report.
  \<^item> \<open>tg_verifier/arithmetic.py\<close>: \<open>Sieve\<close> (the prime and Moebius sieves), \<open>ArithScans\<close> (the range scans and
    the enclosure of pi) and \<open>ChunkChain\<close> (hash-linked chunk records).  \<open>Moebius\<close> is the mathematics,
    \<open>Sieve_Correct\<close>, \<open>PiBounds\<close>, \<open>ArithScans_Sound\<close> (the locale \<open>range_scan\<close>), \<open>Squarefree_Sound\<close> and
    \<open>Arithmetic_Claims\<close> prove each scan against its bound at every real point of its range;
    \<open>ChunkChain_Facts\<close>, \<open>_Chain\<close>, \<open>_Claims\<close> show what an accepted chain is and what its last hash binds.
  \<^item> \<open>tg_verifier/finite_campaigns.py\<close>: \<open>PsiCampaign\<close> (the segmented sieve, prime powers, rational bounds of
    logarithms, chunks of the psi campaign) and \<open>Prop1224\<close> (schedule, totients, exact sums, windows and chunks
    of Proposition 12.2.4).  \<open>LogExp\<close> and \<open>Totient\<close> are the mathematics; \<open>PsiCampaign_Facts\<close>, \<open>_Claims\<close>
    prove the envelopes of Chebyshev's function at every real point from the integers checked at its jumps,
    \<open>Prop1224_Claims\<close> the coverage of the schedule and the sums by their definition.
  \<^item> \<open>tg_verifier/prop1224_directed.py\<close>: \<open>DirectedRational\<close> (intervals of rationals with outward rounding,
    logarithm, exponential, powers, cube roots, trial division) and \<open>Prop1224Directed\<close> (parameters, margins,
    rows, chunks and their replay).  \<open>DirectedRational_Claims\<close> proves every operation an enclosure of the real
    one, the two elementary functions as interpretations of the locale \<open>monotone_enclosure\<close>;
    \<open>Prop1224Directed_Claims\<close> writes the source's expressions over the reals and proves that an accepted chunk
    gives the inequality.  The bounds on Euler's constant and on the constant \<open>c\<^sub>E\<close>, which the code takes from
    the literature, are hypotheses there.  \<open>DirectedRow\<close> is not code: it evaluates one row, exactly, so that a
    concrete chunk is seen to be accepted.
  \<^item> \<open>tg_verifier/complex_disk_mul_certificate.py\<close>: \<open>ComplexDisk\<close> (decoding, verification, the search for the
    least encoding above a square root, generation, the Lean literal).  \<open>ComplexDisk_Claims\<close> shows that an
    accepted certificate is true of the complex numbers in its disks and that the generator is complete;
    its search is an interpretation of \<open>bisection\<close>.
  \<^item> \<open>tg_verifier/goldbach_bucket_sieve.py\<close>: \<open>GoldbachSieve\<close> (base sieve, stateless replay, trial division, and
    the persistent sieve as a record with one transition, \<open>next_segment\<close>).  \<open>GoldbachSieve_Facts\<close> reads packed
    words as predicates (\<open>packs\<close>), \<open>_Ring\<close> and \<open>_Persistent\<close> state the schedule and the invariant of the
    sieve (\<open>sieve_inv\<close>: every active prime has its next composite either as a dense offset or in the
    bucket of the segment where it falls), \<open>_Run\<close> preserves it and \<open>_Claims\<close> compares the three sieves.
  \<^item> \<open>tg_verifier/goldbach_shifted_bitset.py\<close>: \<open>GoldbachCoverage\<close> (alignment, word extraction, coverage word,
    replay); \<open>GoldbachCoverage_Claims\<close> shows what an accepted word says of even numbers as sums of primes.
  \<^item> \<open>tg_verifier/goldbach.py\<close>: \<open>PrimeCerts\<close> (bounded primality, Jacobi symbol, Proth certificates, ladders,
    ternary witnesses).  \<open>PrimeCerts_Facts\<close> has the number theory (Fermat's little theorem, what a root of minus
    one says of a prime), \<open>PrimeCerts_Claims\<close> proves Proth's theorem for the checker and what a ladder gives.
  \<^item> \<open>tg_verifier/a7_lean_certificate.py\<close> and \<open>a7_boundary_wire.py\<close>: \<open>A7Certificate\<close> (dyadics, the cover of the
    four edges, validation) and \<open>A7Wire\<close> (the binary form, its encoder and the independent decoder);
    \<open>A7Wire_Facts\<close> and \<open>A7Wire_Claims\<close> show the cover as a partition of each edge and that the wire is lossless
    and has one form.
  \<^item> \<open>tg_verifier/platt_pt21_event_record.py\<close>: \<open>EventStream\<close> (header, record, footer, the verifier of a stream);
    \<open>EventStream_Facts\<close> and \<open>EventStream_Claims\<close> show what an accepted stream is, that its last digest commits
    to every byte, and that a well-formed stream is accepted.  Both binary formats use \<open>StructCodec\<close>, which
    renders \<open>struct\<close> and \<open>bytes.fromhex\<close> and states the contract of a field of fixed width as the locale
    \<open>field_codec\<close>, with an interpretation for each kind of field.

  \<^bold>\<open>How the parts meet.\<close>  The evaluator runs the interval operations on words that the wire format has
  validated; the affine-guard and eviction modules write their records with the canonical encoder of
  \<open>campaign_io\<close> and read them with its strict reader; both JSON dialects and the chunk records instantiate
  one locale, \<open>digest_commitment\<close>, which turns injectivity of an encoder into binding of its digest.  The
  disk certificates decode with the reference decoder and use its search locale.  The coverage stage does
  not decide primality: its property composes it with the words of the sieve and with the base sieve.

  \<^bold>\<open>Bounds and fuel.\<close>  The scanner of \<open>JsonText\<close> has fuel, one unit more than twice the length of the text;
  \<open>scan_fuel\<close> shows that more fuel changes nothing, so it never runs out.  Every other loop is structural
  or has a termination proof; the Merkle reduction's is the halving of its level.  The loop that marks the
  multiples of a dense prime is guarded against the prime zero, which the validator excludes.  \<open>within_limits\<close> in the
  eviction properties is the limit on a control file and on attempt numbers, which have six digits.

  \<^bold>\<open>CPython's limits.\<close>  \<open>json.loads\<close> and \<open>json.dumps\<close> raise \<open>ValueError\<close> on an integer of more than
  \<open>INT_MAX_STR_DIGITS\<close> digits, in the two readers, the two canonical encoders and the chunk records.  The
  recursion limit is a \<open>budget\<close> of nested calls: \<open>parse_json_within\<close>, \<open>campaign_parse_within\<close> and
  \<open>load_json_within\<close> take a \<open>stack_budget\<close> and raise \<open>RecursionError\<close> when it is spent, and
  \<open>reader_exceptions\<close> is about every budget; \<open>parse_json_bytes\<close>, \<open>load_json\<close> and the encoders that the other
  parts use are the same functions on a stack deep enough for their argument (\<open>deep_stack\<close>).

  \<^bold>\<open>Not modelled.\<close>  CPython's memory; the digit limit in the ASCII encodings whose digest the psi and A.7
  campaigns take, which are total functions here.  Opening, reading,
  renaming and locking of files (a file is its bytes); processes, clouds, signatures and vendor evidence,
  which rest on external services; the state of a persistent sieve after it has raised, which nothing
  reads; the exhaustive computation behind the seven Miller-Rabin bases, so that completeness of the
  64-bit predicate is proved on its whole domain and exactness below 1681; the reader of A.7 transcripts and
  the Lean sources rendered from certificates; the sizing models of the Goldbach sieve, which compute with host floats; the CUDA and C++ workers, which are not Python; the campaign modules
  listed as such in the manifest.
\<close>

end
